(* ===== verification/SVF_Prelude.thy ===== *)
theory SVF_Prelude
  imports Main "HOL-Library.AList" "HOL-Library.Monad_Syntax" "HOL-Library.Word"
begin

text \<open>
  What the components share.

  \<^item> Failing code. An assertion that does not hold, an \<^verbatim>\<open>abort()\<close> and an
    \<^verbatim>\<open>at()\<close> out of range end the program; the model returns \<open>None\<close>. Code that may fail
    is written in the option monad, and \<open>wp m Q\<close> says that \<open>m\<close> does not fail and that its
    result satisfies \<open>Q\<close> (total correctness).
  \<^item> \<^verbatim>\<open>Map\<close> (\<^verbatim>\<open>std::unordered_map\<close>) is an association list; \<open>aref\<close> is
    \<^verbatim>\<open>operator[]\<close>, which inserts a default value for a missing key.
  \<^item> Sets of naturals held in 64-bit words: \<open>bits_of f\<close> is the set held by the words
    \<open>f 0, f 1, \<dots>\<close>; the bit vectors of the program are related to it.
\<close>

named_theorems wp_simps \<open>how \<open>wp\<close> distributes over the option monad\<close>

subsection \<open>The option monad as the monad of failing code\<close>

definition wp :: "'a option \<Rightarrow> ('a \<Rightarrow> bool) \<Rightarrow> bool" where
  "wp m Q \<longleftrightarrow> (case m of None \<Rightarrow> False | Some x \<Rightarrow> Q x)"

definition ensure :: "bool \<Rightarrow> unit option" where
  "ensure b = (if b then Some () else None)"

lemma wp_Some [simp, wp_simps]: "wp (Some x) Q \<longleftrightarrow> Q x"
  by (simp add: wp_def)

lemma wp_None [simp, wp_simps]: "\<not> wp None Q"
  by (simp add: wp_def)

lemma wp_bind [simp, wp_simps]: "wp (Option.bind m f) Q \<longleftrightarrow> wp m (\<lambda>x. wp (f x) Q)"
  by (cases m) (simp_all add: wp_def)

lemma wp_ensure [simp, wp_simps]: "wp (ensure b) Q \<longleftrightarrow> b \<and> Q ()"
  by (simp add: wp_def ensure_def)

lemma wp_if [simp, wp_simps]: "wp (if b then m else m') Q \<longleftrightarrow> (if b then wp m Q else wp m' Q)"
  by simp

lemma wp_map_option [simp, wp_simps]: "wp (map_option f m) Q \<longleftrightarrow> wp m (\<lambda>x. Q (f x))"
  by (cases m) (simp_all add: wp_def)

lemma wp_Let [simp, wp_simps]: "wp (Let a f) Q \<longleftrightarrow> wp (f a) Q"
  by simp

lemma wp_prod [simp, wp_simps]:
  "wp (case p of (a, b) \<Rightarrow> f a b) Q \<longleftrightarrow> (case p of (a, b) \<Rightarrow> wp (f a b) Q)"
  by (cases p) simp

lemma wp_iff: "wp m Q \<longleftrightarrow> (\<exists>x. m = Some x \<and> Q x)"
  by (cases m) (simp_all add: wp_def)

lemma wp_mono: "wp m P \<Longrightarrow> (\<And>x. P x \<Longrightarrow> Q x) \<Longrightarrow> wp m Q"
  by (auto simp: wp_iff)

lemma wp_conj: "wp m (\<lambda>x. P x \<and> Q x) \<longleftrightarrow> wp m P \<and> wp m Q"
  by (auto simp: wp_iff)

lemma ensure_True [simp]: "ensure True = Some ()"
  by (simp add: ensure_def)

lemma ensure_False [simp]: "ensure False = None"
  by (simp add: ensure_def)

text \<open>Running a failing body over the elements of a list, as a range \<^verbatim>\<open>for\<close> does.\<close>

fun foldM :: "('a \<Rightarrow> 's \<Rightarrow> 's option) \<Rightarrow> 'a list \<Rightarrow> 's \<Rightarrow> 's option" where
  "foldM f [] s = Some s"
| "foldM f (x # xs) s = Option.bind (f x s) (foldM f xs)"

lemma foldM_append: "foldM f (xs @ ys) s = Option.bind (foldM f xs s) (foldM f ys)"
  by (induction xs arbitrary: s) (auto split: Option.bind_split)

text \<open>The invariant rule: it relates the state to the elements already visited.\<close>

lemma foldM_wp_aux:
  assumes "\<And>ys x zs s. xs = ys @ x # zs \<Longrightarrow> P (pre @ ys) s \<Longrightarrow> wp (f x s) (P (pre @ ys @ [x]))"
    and "P pre s"
  shows "wp (foldM f xs s) (P (pre @ xs))"
  using assms
proof (induction xs arbitrary: s pre)
  case Nil
  then show ?case by simp
next
  case (Cons x xs)
  have first: "wp (f x s) (P (pre @ [x]))"
    using Cons.prems(1)[of "[]" x xs s] Cons.prems(2) by simp
  have rest: "wp (foldM f xs s') (P ((pre @ [x]) @ xs))" if "P (pre @ [x]) s'" for s'
  proof (rule Cons.IH)
    show "P (pre @ [x]) s'" by (rule that)
    fix ys y zs t
    assume "xs = ys @ y # zs" "P ((pre @ [x]) @ ys) t"
    then show "wp (f y t) (P ((pre @ [x]) @ ys @ [y]))"
      using Cons.prems(1)[of "x # ys" y zs t] by simp
  qed
  show ?case
    using wp_mono[OF first, of "\<lambda>s'. wp (foldM f xs s') (P (pre @ x # xs))"] rest by simp
qed

lemma foldM_wp:
  assumes "P [] s"
    and "\<And>ys x zs s. xs = ys @ x # zs \<Longrightarrow> P ys s \<Longrightarrow> wp (f x s) (P (ys @ [x]))"
  shows "wp (foldM f xs s) (P xs)"
  using foldM_wp_aux[of xs P "[]" f s] assms by simp

text \<open>Recursive functions that call themselves in such a loop.\<close>

lemma foldM_monotone [partial_function_mono]:
  "(\<And>x s. mono_option (\<lambda>f. B f x s)) \<Longrightarrow> mono_option (\<lambda>f. foldM (B f) xs s)"
proof (induction xs arbitrary: s)
  case Nil
  show ?case by (simp add: partial_function_mono)
next
  case (Cons x xs)
  show ?case unfolding foldM.simps by (intro bind_mono Cons)
qed

text \<open>A failing function over a list.\<close>

fun mapM :: "('a \<Rightarrow> 'b option) \<Rightarrow> 'a list \<Rightarrow> 'b list option" where
  "mapM f [] = Some []"
| "mapM f (x # xs) = do { y \<leftarrow> f x; ys \<leftarrow> mapM f xs; Some (y # ys) }"

lemma mapM_total: "(\<And>x. x \<in> set xs \<Longrightarrow> f x = Some (g x)) \<Longrightarrow> mapM f xs = Some (map g xs)"
  by (induction xs) simp_all

lemma wp_mapM:
  "(\<And>x. x \<in> set xs \<Longrightarrow> wp (f x) (P x)) \<Longrightarrow> wp (mapM f xs) (list_all2 P xs)"
proof (induction xs)
  case (Cons x xs)
  have "wp (f x) (P x)" "wp (mapM f xs) (list_all2 P xs)" using Cons by simp_all
  then show ?case by (auto simp: wp_iff)
qed simp

lemma list_ex_zip:
  "list_ex P (zip xs ys) \<longleftrightarrow> (\<exists>n. n < length xs \<and> n < length ys \<and> P (xs ! n, ys ! n))"
  by (auto simp: list_ex_length)

text \<open>A number between two bounds of one block of \<open>k\<close> lies in that block.\<close>

lemma div_mod_block:
  fixes r k w i :: nat
  assumes "w * k + i < r" "r < w * k + j" "j \<le> k"
  shows "r div k = w \<and> i < r mod k \<and> r mod k < j"
proof -
  have "r = w * k + (r - w * k)" "r - w * k < k" using assms by simp_all
  then have "r div k = w" "r mod k = r - w * k"
    by (metis div_less div_mult_self3 add_0_right assms(3) mod_less mod_mult_self3 not_less_zero)+
  then show ?thesis using assms by auto
qed

lemma nth_append_replicate:
  "i < length xs + n \<Longrightarrow> (xs @ replicate n z) ! i = (if i < length xs then xs ! i else z)"
  by (simp add: nth_append)

subsection \<open>Association lists as \<^verbatim>\<open>std::unordered_map\<close>\<close>

definition aget :: "'v \<Rightarrow> ('k \<times> 'v) list \<Rightarrow> 'k \<Rightarrow> 'v" where
  "aget d m k = (case map_of m k of None \<Rightarrow> d | Some v \<Rightarrow> v)"

definition ahas :: "('k \<times> 'v) list \<Rightarrow> 'k \<Rightarrow> bool" where
  "ahas m k \<longleftrightarrow> map_of m k \<noteq> None"

definition aput :: "'k \<Rightarrow> 'v \<Rightarrow> ('k \<times> 'v) list \<Rightarrow> ('k \<times> 'v) list" where
  "aput k v m = AList.update k v m"

text \<open>\<^verbatim>\<open>m[k]\<close> used as a value: a missing key is inserted with the default value \<open>d\<close>.\<close>

definition aref :: "'v \<Rightarrow> ('k \<times> 'v) list \<Rightarrow> 'k \<Rightarrow> ('k \<times> 'v) list" where
  "aref d m k = aput k (aget d m k) m"

lemma map_of_aput [simp]: "map_of (aput k v m) = (map_of m)(k \<mapsto> v)"
  by (simp add: aput_def update_conv')

lemma aget_aput [simp]: "aget d (aput k v m) k' = (if k = k' then v else aget d m k')"
  by (simp add: aget_def)

lemma ahas_aput [simp]: "ahas (aput k v m) k' \<longleftrightarrow> k = k' \<or> ahas m k'"
  by (auto simp: ahas_def)

lemma aget_aref [simp]: "aget d (aref d m k) k' = aget d m k'"
  by (simp add: aref_def)

lemma ahas_aref [simp]: "ahas (aref d m k) k' \<longleftrightarrow> k = k' \<or> ahas m k'"
  by (simp add: aref_def)

lemma aget_Nil [simp]: "aget d [] k = d"
  by (simp add: aget_def)

lemma ahas_Nil [simp]: "\<not> ahas [] k"
  by (simp add: ahas_def)

lemma aget_not_ahas: "\<not> ahas m k \<Longrightarrow> aget d m k = d"
  by (simp add: ahas_def aget_def)

lemma ahas_iff_fst: "ahas m k \<longleftrightarrow> k \<in> fst ` set m"
  by (auto simp: ahas_def map_of_eq_None_iff)

lemma distinct_aput [simp]: "distinct (map fst m) \<Longrightarrow> distinct (map fst (aput k v m))"
  by (simp add: aput_def distinct_update)

lemma aput_same: "map_of m k = Some v \<Longrightarrow> aput k v m = m"
  unfolding aput_def by (induction m) (auto split: if_splits)

lemma set_aput_subset: "set (aput k v m) \<subseteq> insert (k, v) (set m)"
  unfolding aput_def by (induction m) (auto split: if_splits)

lemma map_of_range_aput:
  "(\<And>k' v'. map_of m k' = Some v' \<Longrightarrow> P k' v') \<Longrightarrow> P k v \<Longrightarrow>
   map_of (aput k v m) k' = Some v' \<Longrightarrow> P k' v'"
  by (auto split: if_splits)

subsection \<open>Graphs given by their successors\<close>

text \<open>The nodes that are reached from a node.\<close>

definition reachable :: "(nat \<Rightarrow> nat list) \<Rightarrow> nat \<Rightarrow> nat set" where
  "reachable S v = {n. (v, n) \<in> {(u, x). x \<in> set (S u)}\<^sup>*}"

lemma reachable_step: "u \<in> reachable S v \<Longrightarrow> x \<in> set (S u) \<Longrightarrow> x \<in> reachable S v"
  unfolding reachable_def by (auto intro: rtrancl_into_rtrancl)

lemma reachable_least:
  assumes "v \<in> X" "\<And>u x. u \<in> X \<Longrightarrow> x \<in> set (S u) \<Longrightarrow> x \<in> X"
  shows "reachable S v \<subseteq> X"
proof
  fix n assume "n \<in> reachable S v"
  then have "(v, n) \<in> {(u, x). x \<in> set (S u)}\<^sup>*" by (simp add: reachable_def)
  then show "n \<in> X" by (induction rule: rtrancl_induct) (use assms in auto)
qed

text \<open>One element comes before another in a list.\<close>

definition precedes :: "'a list \<Rightarrow> 'a \<Rightarrow> 'a \<Rightarrow> bool" where
  "precedes xs u x \<longleftrightarrow> (\<exists>as bs. xs = as @ bs \<and> u \<in> set as \<and> x \<in> set bs)"

lemma precedes_append1: "precedes xs u x \<Longrightarrow> precedes (xs @ ys) u x"
  unfolding precedes_def by (metis append.assoc Un_iff set_append)

lemma precedes_append2: "precedes ys u x \<Longrightarrow> precedes (xs @ ys) u x"
  unfolding precedes_def by (metis append.assoc Un_iff set_append)

lemma precedes_parts: "u \<in> set xs \<Longrightarrow> x \<in> set ys \<Longrightarrow> precedes (xs @ ys) u x"
  unfolding precedes_def by blast

subsection \<open>Sets of naturals in 64-bit words\<close>

definition bits_of :: "(nat \<Rightarrow> 64 word) \<Rightarrow> nat set" where
  "bits_of f = {n. bit (f (n div 64)) (n mod 64)}"

lemma mem_bits_of: "n \<in> bits_of f \<longleftrightarrow> bit (f (n div 64)) (n mod 64)"
  by (simp add: bits_of_def)

lemma word64_eqI:
  fixes v w :: "64 word"
  assumes "\<And>i. i < 64 \<Longrightarrow> bit v i = bit w i"
  shows "v = w"
  by (rule bit_word_eqI) (simp add: assms)

lemma bits_of_word:
  assumes "i < 64"
  shows "k * 64 + i \<in> bits_of f \<longleftrightarrow> bit (f k) i"
  using assms by (simp add: mem_bits_of)

lemma bits_of_inject: "bits_of f = bits_of g \<longleftrightarrow> f = g"
proof
  assume eq: "bits_of f = bits_of g"
  show "f = g"
  proof
    fix k
    show "f k = g k"
      by (rule word64_eqI) (metis eq bits_of_word)
  qed
qed simp

lemma bits_of_subset: "bits_of f \<subseteq> bits_of g \<longleftrightarrow> (\<forall>k i. i < 64 \<longrightarrow> bit (f k) i \<longrightarrow> bit (g k) i)"
proof
  assume "bits_of f \<subseteq> bits_of g"
  then show "\<forall>k i. i < 64 \<longrightarrow> bit (f k) i \<longrightarrow> bit (g k) i"
    by (meson bits_of_word subsetD)
qed (auto simp: mem_bits_of)

lemma bits_of_empty [simp]: "bits_of (\<lambda>_. 0) = {}"
  by (simp add: bits_of_def)

lemma bits_of_eq_empty: "bits_of f = {} \<longleftrightarrow> f = (\<lambda>_. 0)"
  using bits_of_inject[of f "\<lambda>_. 0"] by simp

unbundle bit_operations_syntax

lemma bits_of_or: "bits_of (\<lambda>k. f k OR g k) = bits_of f \<union> bits_of g"
  by (auto simp: mem_bits_of bit_or_iff)

lemma bits_of_and: "bits_of (\<lambda>k. f k AND g k) = bits_of f \<inter> bits_of g"
  by (auto simp: mem_bits_of bit_and_iff)

lemma bits_of_and_not: "bits_of (\<lambda>k. f k AND NOT (g k)) = bits_of f - bits_of g"
  by (auto simp: mem_bits_of bit_and_iff bit_not_iff)

lemma word64_and_eq_0_iff:
  fixes v w :: "64 word"
  shows "v AND w = 0 \<longleftrightarrow> (\<forall>i<64. \<not> (bit v i \<and> bit w i))"
  by (auto simp: bit_eq_iff bit_and_iff)

text \<open>\<^verbatim>\<open>countPopulation\<close> is the compiler's population count.\<close>

definition countPopulation :: "64 word \<Rightarrow> nat" where
  "countPopulation w = length (filter (bit w) [0..<64])"

text \<open>A single bit of a word, \<^verbatim>\<open>(Word)1 << i\<close>.\<close>

definition bit_mask :: "nat \<Rightarrow> 64 word" where
  "bit_mask i = push_bit i 1"

lemma bit_bit_mask: "j < 64 \<Longrightarrow> bit (bit_mask i) j \<longleftrightarrow> i = j"
  by (auto simp: bit_mask_def bit_simps)

lemma and_bit_mask_eq_0: "i < 64 \<Longrightarrow> bit_mask i AND w = 0 \<longleftrightarrow> \<not> bit w i"
  by (auto simp: word64_and_eq_0_iff bit_bit_mask)

lemma bits_of_set_bit:
  "bits_of (f(n div 64 := f (n div 64) OR bit_mask (n mod 64))) = insert n (bits_of f)"
proof -
  have "m = n" if "m div 64 = n div 64" "m mod 64 = n mod 64" for m
    using that by (metis mult_div_mod_eq)
  then show ?thesis
    by (auto simp: mem_bits_of bit_or_iff bit_bit_mask split: if_splits)
qed

lemma bits_of_unset_bit:
  "bits_of (f(n div 64 := f (n div 64) AND NOT (bit_mask (n mod 64)))) = bits_of f - {n}"
proof -
  have "m = n" if "m div 64 = n div 64" "m mod 64 = n mod 64" for m
    using that by (metis mult_div_mod_eq)
  then show ?thesis
    by (auto simp: mem_bits_of bit_and_iff bit_not_iff bit_bit_mask split: if_splits)
qed

end
