(* ===== verification/Work_List.thy ===== *)
theory Work_List
  imports SVF_Prelude
begin

text \<open>
  The work lists of \<^verbatim>\<open>svf/include/Util/WorkList.h\<close>: the linked \<^verbatim>\<open>List\<close>, the queue
  \<^verbatim>\<open>FIFOWorkList\<close> and the stack \<^verbatim>\<open>FILOWorkList\<close>. The solvers rely on one contract: an element
  is held at most once, \<^verbatim>\<open>push\<close> says whether the element is new, \<^verbatim>\<open>pop\<close> removes an element
  that was held. The contract is the locale \<open>work_list\<close>; the queue and the stack satisfy it
  (\<open>fifo\<close> and \<open>filo\<close>), the linked list does not, because its \<^verbatim>\<open>push\<close> never records the
  element in \<^verbatim>\<open>nodeSet\<close>.
\<close>

subsection \<open>\<^verbatim>\<open>List\<close>: a linked list with a set that is never filled\<close>

text \<open>The chain of nodes from \<^verbatim>\<open>head\<close> to \<^verbatim>\<open>tail\<close> is the list of their data.\<close>

record 'a linked_list =
  ll_nodes :: "'a list"
  ll_nodeSet :: "'a set"

definition ll_new :: "'a linked_list" where
  "ll_new = \<lparr>ll_nodes = [], ll_nodeSet = {}\<rparr>"

definition ll_empty :: "'a linked_list \<Rightarrow> bool" where
  "ll_empty w \<longleftrightarrow> ll_nodes w = []"

definition ll_find :: "'a \<Rightarrow> 'a linked_list \<Rightarrow> bool" where
  "ll_find d w \<longleftrightarrow> d \<in> ll_nodeSet w"

definition ll_push :: "'a \<Rightarrow> 'a linked_list \<Rightarrow> 'a linked_list" where
  "ll_push d w = (if d \<notin> ll_nodeSet w then w\<lparr>ll_nodes := ll_nodes w @ [d]\<rparr> else w)"

definition ll_pop :: "'a linked_list \<Rightarrow> ('a \<times> 'a linked_list) option" where
  "ll_pop w = (case ll_nodes w of
      [] \<Rightarrow> None
    | d # ds \<Rightarrow> Some (d, w\<lparr>ll_nodes := ds, ll_nodeSet := ll_nodeSet w - {d}\<rparr>))"

subsection \<open>\<^verbatim>\<open>FIFOWorkList\<close>\<close>

record 'a fifo =
  fifo_list :: "'a list"
  fifo_set :: "'a set"

definition fifo_new :: "'a fifo" where
  "fifo_new = \<lparr>fifo_list = [], fifo_set = {}\<rparr>"

definition fifo_empty :: "'a fifo \<Rightarrow> bool" where
  "fifo_empty w \<longleftrightarrow> fifo_list w = []"

definition fifo_size :: "'a fifo \<Rightarrow> nat option" where
  "fifo_size w = do {
     ensure (length (fifo_list w) = card (fifo_set w));
     Some (length (fifo_list w)) }"

definition fifo_find :: "'a \<Rightarrow> 'a fifo \<Rightarrow> bool" where
  "fifo_find d w \<longleftrightarrow> d \<in> fifo_set w"

definition fifo_push :: "'a \<Rightarrow> 'a fifo \<Rightarrow> bool \<times> 'a fifo" where
  "fifo_push d w =
    (if \<not> fifo_find d w
     then (True, w\<lparr>fifo_list := fifo_list w @ [d], fifo_set := insert d (fifo_set w)\<rparr>)
     else (False, w))"

definition fifo_front :: "'a fifo \<Rightarrow> 'a option" where
  "fifo_front w = (case fifo_list w of [] \<Rightarrow> None | d # ds \<Rightarrow> Some d)"

definition fifo_removeFront :: "'a fifo \<Rightarrow> 'a fifo option" where
  "fifo_removeFront w = do {
     d \<leftarrow> fifo_front w;
     Some (w\<lparr>fifo_list := tl (fifo_list w), fifo_set := fifo_set w - {d}\<rparr>) }"

definition fifo_pop :: "'a fifo \<Rightarrow> ('a \<times> 'a fifo) option" where
  "fifo_pop w = (case fifo_list w of
      [] \<Rightarrow> None
    | d # ds \<Rightarrow> Some (d, w\<lparr>fifo_list := ds, fifo_set := fifo_set w - {d}\<rparr>))"

definition fifo_clear :: "'a fifo \<Rightarrow> 'a fifo" where
  "fifo_clear w = w\<lparr>fifo_list := [], fifo_set := {}\<rparr>"

definition fifo_inv :: "'a fifo \<Rightarrow> bool" where
  "fifo_inv w \<longleftrightarrow> distinct (fifo_list w) \<and> set (fifo_list w) = fifo_set w"

subsection \<open>\<^verbatim>\<open>FILOWorkList\<close>\<close>

record 'a filo =
  filo_list :: "'a list"
  filo_set :: "'a set"

definition filo_new :: "'a filo" where
  "filo_new = \<lparr>filo_list = [], filo_set = {}\<rparr>"

definition filo_empty :: "'a filo \<Rightarrow> bool" where
  "filo_empty w \<longleftrightarrow> filo_list w = []"

definition filo_size :: "'a filo \<Rightarrow> nat option" where
  "filo_size w = do {
     ensure (length (filo_list w) = card (filo_set w));
     Some (length (filo_list w)) }"

definition filo_find :: "'a \<Rightarrow> 'a filo \<Rightarrow> bool" where
  "filo_find d w \<longleftrightarrow> d \<in> filo_set w"

definition filo_push :: "'a \<Rightarrow> 'a filo \<Rightarrow> bool \<times> 'a filo" where
  "filo_push d w =
    (if \<not> filo_find d w
     then (True, w\<lparr>filo_list := filo_list w @ [d], filo_set := insert d (filo_set w)\<rparr>)
     else (False, w))"

definition filo_back :: "'a filo \<Rightarrow> 'a option" where
  "filo_back w = (if filo_list w = [] then None else Some (last (filo_list w)))"

definition filo_pop :: "'a filo \<Rightarrow> ('a \<times> 'a filo) option" where
  "filo_pop w = do {
     ensure (\<not> filo_empty w);
     let d = last (filo_list w) in
       Some (d, w\<lparr>filo_list := butlast (filo_list w), filo_set := filo_set w - {d}\<rparr>) }"

definition filo_removeBack :: "'a filo \<Rightarrow> 'a filo option" where
  "filo_removeBack w = do {
     d \<leftarrow> filo_back w;
     Some (w\<lparr>filo_list := butlast (filo_list w), filo_set := filo_set w - {d}\<rparr>) }"

definition filo_clear :: "'a filo \<Rightarrow> 'a filo" where
  "filo_clear w = w\<lparr>filo_list := [], filo_set := {}\<rparr>"

definition filo_inv :: "'a filo \<Rightarrow> bool" where
  "filo_inv w \<longleftrightarrow> distinct (filo_list w) \<and> set (filo_list w) = filo_set w"

subsection \<open>The contract of a work list\<close>

locale work_list =
  fixes new :: "'w"
    and is_empty :: "'w \<Rightarrow> bool"
    and find :: "'a \<Rightarrow> 'w \<Rightarrow> bool"
    and push :: "'a \<Rightarrow> 'w \<Rightarrow> bool \<times> 'w"
    and pop :: "'w \<Rightarrow> ('a \<times> 'w) option"
    and elems :: "'w \<Rightarrow> 'a list"
    and inv :: "'w \<Rightarrow> bool"
  assumes new: "inv new" "elems new = []"
    and inv_distinct: "inv w \<Longrightarrow> distinct (elems w)"
    and is_empty: "inv w \<Longrightarrow> is_empty w \<longleftrightarrow> elems w = []"
    and find: "inv w \<Longrightarrow> find d w \<longleftrightarrow> d \<in> set (elems w)"
    and push_inv: "inv w \<Longrightarrow> inv (snd (push d w))"
    and push_elems: "inv w \<Longrightarrow>
      elems (snd (push d w)) = (if d \<in> set (elems w) then elems w else elems w @ [d])"
    and push_new: "inv w \<Longrightarrow> fst (push d w) \<longleftrightarrow> d \<notin> set (elems w)"
    and pop: "inv w \<Longrightarrow> elems w \<noteq> [] \<Longrightarrow>
      wp (pop w) (\<lambda>(d, w'). inv w' \<and> d \<in> set (elems w) \<and> elems w' = remove1 d (elems w))"
begin

text \<open>What a worklist solver uses: pushing a list of items, then taking them all out again.\<close>

lemma push_all_inv: "inv w \<Longrightarrow> inv (fold (\<lambda>d w. snd (push d w)) ds w)"
  by (induction ds arbitrary: w) (simp_all add: push_inv)

lemma push_all_elems:
  "inv w \<Longrightarrow> set (elems (fold (\<lambda>d w. snd (push d w)) ds w)) = set (elems w) \<union> set ds"
proof (induction ds arbitrary: w)
  case Nil
  then show ?case by simp
next
  case (Cons d ds)
  then show ?case
    using Cons.IH[OF push_inv[OF Cons.prems]] by (auto simp: push_elems)
qed

lemma push_twice: "inv w \<Longrightarrow> push d (snd (push d w)) = (b, w') \<Longrightarrow> \<not> b"
  using push_new[OF push_inv, of w d d] push_elems[of w d] by (auto split: if_splits)

lemma pop_shrinks:
  assumes "inv w" "elems w \<noteq> []"
  shows "wp (pop w) (\<lambda>(d, w'). inv w' \<and> d \<notin> set (elems w') \<and>
           set (elems w) = insert d (set (elems w')) \<and> length (elems w') < length (elems w))"
proof -
  have "wp (pop w) (\<lambda>(d, w'). inv w' \<and> d \<in> set (elems w) \<and> elems w' = remove1 d (elems w))"
    using assms by (rule pop)
  then show ?thesis
  proof (rule wp_mono)
    fix p
    assume "case p of (d, w') \<Rightarrow> inv w' \<and> d \<in> set (elems w) \<and> elems w' = remove1 d (elems w)"
    moreover have "length (remove1 d (elems w)) < length (elems w)" if "d \<in> set (elems w)" for d
      using that by (auto simp: length_remove1 dest: length_pos_if_in_set)
    ultimately show "case p of (d, w') \<Rightarrow> inv w' \<and> d \<notin> set (elems w') \<and>
           set (elems w) = insert d (set (elems w')) \<and> length (elems w') < length (elems w)"
      using inv_distinct[OF assms(1)] by (auto simp: set_remove1_eq)
  qed
qed

end

interpretation fifo: work_list fifo_new fifo_empty fifo_find fifo_push fifo_pop fifo_list fifo_inv
proof unfold_locales
  fix w :: "'a fifo"
  assume "fifo_inv w" "fifo_list w \<noteq> []"
  then show "wp (fifo_pop w)
      (\<lambda>(d, w'). fifo_inv w' \<and> d \<in> set (fifo_list w) \<and> fifo_list w' = remove1 d (fifo_list w))"
    by (cases "fifo_list w") (auto simp: fifo_pop_def fifo_inv_def)
qed (auto simp: fifo_new_def fifo_empty_def fifo_find_def fifo_push_def fifo_inv_def)

lemma remove1_last: "distinct xs \<Longrightarrow> xs \<noteq> [] \<Longrightarrow> remove1 (last xs) xs = butlast xs"
  by (induction xs) auto

lemma last_notin_butlast: "distinct xs \<Longrightarrow> xs \<noteq> [] \<Longrightarrow> last xs \<notin> set (butlast xs)"
  by (induction xs) (auto dest: in_set_butlastD)

interpretation filo: work_list filo_new filo_empty filo_find filo_push filo_pop filo_list filo_inv
proof unfold_locales
  fix w :: "'a filo"
  assume w: "filo_inv w" "filo_list w \<noteq> []"
  then have dist: "distinct (filo_list w)" and st: "filo_set w = set (filo_list w)"
    by (simp_all add: filo_inv_def)
  have "set (butlast (filo_list w)) = set (filo_list w) - {last (filo_list w)}"
    using dist w(2) by (metis remove1_last set_remove1_eq)
  then show "wp (filo_pop w)
      (\<lambda>(d, w'). filo_inv w' \<and> d \<in> set (filo_list w) \<and> filo_list w' = remove1 d (filo_list w))"
    using w(2) dist
    by (simp add: filo_pop_def filo_empty_def filo_inv_def st remove1_last distinct_butlast)
qed (auto simp: filo_new_def filo_empty_def filo_find_def filo_push_def filo_inv_def)

subsection \<open>Order, size and the other entry points\<close>

text \<open>The first element pushed on a queue is the first popped; on a stack, the last.\<close>

lemma fifo_order:
  assumes "fifo_inv w" "fifo_list w = d # ds" "x \<notin> set (d # ds)"
  shows "fifo_pop (snd (fifo_push x w)) =
    Some (d, \<lparr>fifo_list = ds @ [x], fifo_set = set (ds @ [x])\<rparr>)"
proof -
  have new: "x \<notin> fifo_set w" and rest: "insert x (fifo_set w) - {d} = insert x (set ds)"
    using assms unfolding fifo_inv_def by auto
  have "fifo_push x w = (True, w\<lparr>fifo_list := (d # ds) @ [x], fifo_set := insert x (fifo_set w)\<rparr>)"
    using new assms(2) by (simp add: fifo_push_def fifo_find_def)
  then show ?thesis
    using rest by (simp add: fifo_pop_def)
qed

lemma filo_order:
  assumes "filo_inv w" "x \<notin> set (filo_list w)"
  shows "filo_pop (snd (filo_push x w)) = Some (x, w)"
proof -
  have "x \<notin> filo_set w" using assms by (simp add: filo_inv_def)
  then show ?thesis
    by (simp add: filo_push_def filo_pop_def filo_find_def filo_empty_def)
qed

lemma fifo_size_ok: "fifo_inv w \<Longrightarrow> fifo_size w = Some (length (fifo_list w))"
  by (auto simp: fifo_size_def fifo_inv_def distinct_card[symmetric])

lemma filo_size_ok: "filo_inv w \<Longrightarrow> filo_size w = Some (length (filo_list w))"
  by (auto simp: filo_size_def filo_inv_def distinct_card[symmetric])

lemma fifo_removeFront_pop: "fifo_removeFront w = map_option snd (fifo_pop w)"
  by (simp add: fifo_removeFront_def fifo_pop_def fifo_front_def split: list.split)

lemma filo_removeBack_pop: "filo_removeBack w = map_option snd (filo_pop w)"
  by (simp add: filo_removeBack_def filo_pop_def filo_back_def filo_empty_def Let_def)

lemma fifo_clear_inv: "fifo_inv (fifo_clear w) \<and> fifo_list (fifo_clear w) = []"
  by (simp add: fifo_inv_def fifo_clear_def)

lemma filo_clear_inv: "filo_inv (filo_clear w) \<and> filo_list (filo_clear w) = []"
  by (simp add: filo_inv_def filo_clear_def)

text \<open>A whole run of a queue: what is pushed in order on an empty queue comes out in that order.\<close>

fun fifo_drain :: "nat \<Rightarrow> 'a fifo \<Rightarrow> 'a list" where
  "fifo_drain 0 w = []"
| "fifo_drain (Suc n) w = (case fifo_pop w of None \<Rightarrow> [] | Some (d, w') \<Rightarrow> d # fifo_drain n w')"

lemma fifo_drain_list: "length (fifo_list w) \<le> n \<Longrightarrow> fifo_drain n w = fifo_list w"
  by (induction n arbitrary: w) (auto simp: fifo_pop_def split: list.split)

subsection \<open>The linked list\<close>

text \<open>
  The set of a linked list stays empty over every run of its operations, so \<^verbatim>\<open>find\<close> is
  always false and \<^verbatim>\<open>push\<close> never refuses an element.
\<close>

datatype 'a ll_op = LPush 'a | LPop

fun ll_step :: "'a ll_op \<Rightarrow> 'a linked_list \<Rightarrow> 'a linked_list" where
  "ll_step (LPush d) w = ll_push d w"
| "ll_step LPop w = (case ll_pop w of None \<Rightarrow> w | Some (d, w') \<Rightarrow> w')"

lemma ll_step_nodeSet: "ll_nodeSet w = {} \<Longrightarrow> ll_nodeSet (ll_step p w) = {}"
  by (cases p) (auto simp: ll_push_def ll_pop_def split: list.split)

lemma ll_run_nodeSet: "ll_nodeSet w = {} \<Longrightarrow> ll_nodeSet (fold ll_step ps w) = {}"
  by (induction ps arbitrary: w) (simp_all add: ll_step_nodeSet)

text \<open>Draining what was pushed: the first occurrences, in order.\<close>

lemma fifo_pushes:
  "fifo_inv w \<Longrightarrow> fifo_list (fold (\<lambda>d w. snd (fifo_push d w)) ds w) =
     fifo_list w @ filter (\<lambda>d. d \<notin> set (fifo_list w)) (rev (remdups (rev ds)))"
proof (induction ds rule: rev_induct)
  case (snoc d ds)
  have inv: "fifo_inv (fold (\<lambda>d w. snd (fifo_push d w)) ds w)"
    using fifo.push_all_inv[OF snoc.prems] .
  then show ?case
    using snoc by (auto simp: fifo_push_def fifo_find_def fifo_inv_def)
qed simp

lemma fifo_drain_pushes:
  "fifo_drain (length ds) (fold (\<lambda>d w. snd (fifo_push d w)) ds fifo_new) = rev (remdups (rev ds))"
proof -
  have "fifo_list (fold (\<lambda>d w. snd (fifo_push d w)) ds fifo_new) = rev (remdups (rev ds))"
    using fifo_pushes[OF fifo.new(1), of ds] by (simp add: fifo_new_def)
  moreover have "length (remdups (rev ds)) \<le> length ds" by (metis length_remdups_leq length_rev)
  ultimately show ?thesis using fifo_drain_list by (metis length_rev)
qed

end
