(* ===== verification/Core_Bit_Vector.thy ===== *)
theory Core_Bit_Vector
  imports SVF_Prelude
begin

text \<open>
  \<^verbatim>\<open>CoreBitVector\<close> and \<^verbatim>\<open>BitVector\<close> (\<^verbatim>\<open>svf/lib/Util/CoreBitVector.cpp\<close>,
  \<^verbatim>\<open>svf/lib/Util/BitVector.cpp\<close>): a contiguous vector of 64-bit words whose first word starts at
  bit \<open>cb_offset\<close>. The set it stands for is \<open>cb_set\<close>; \<open>cb_inv\<close> is the representation
  invariant (an aligned offset, all bits numbered below \<open>2 ^ 32\<close>), which every operation keeps.
  Under it no assertion of the code fails and no index is out of range.

  Bit numbers and the offset are \<^verbatim>\<open>u32_t\<close>, sizes and indices \<^verbatim>\<open>size_t\<close>; both are \<open>nat\<close>
  here. A value stored back into a \<^verbatim>\<open>u32_t\<close> is reduced \<open>mod 2 ^ 32\<close> where it could exceed
  it; subtractions are guarded in the code as here. The tests \<^verbatim>\<open>this == &rhs\<close> that shortcut
  an operation on one and the same object have no counterpart: with equal values the code after
  them gives the same result.
\<close>

unbundle bit_operations_syntax

subsection \<open>State and the private helpers\<close>

record cbv =
  cb_offset :: nat
  cb_words :: "64 word list"

definition cbv_new :: "nat \<Rightarrow> cbv" where
  "cbv_new n = \<lparr>cb_offset = 0, cb_words = replicate n 0\<rparr>"

definition cbv_canHold :: "cbv \<Rightarrow> nat \<Rightarrow> bool" where
  "cbv_canHold c b \<longleftrightarrow> cb_offset c \<le> b \<and> b < cb_offset c + length (cb_words c) * 64"

text \<open>The difference is taken in \<^verbatim>\<open>size_t\<close> and cut to \<^verbatim>\<open>u32_t\<close>.\<close>

definition cbv_finalBit :: "cbv \<Rightarrow> nat" where
  "cbv_finalBit c = (cb_offset c + length (cb_words c) * 64 + (2 ^ 64 - 1)) mod 2 ^ 64 mod 2 ^ 32"

definition cbv_indexForBit :: "cbv \<Rightarrow> nat \<Rightarrow> nat option" where
  "cbv_indexForBit c b = do {
     ensure (cbv_canHold c b);
     Some ((b - cb_offset c) div 64) }"

definition cbv_extendBackward :: "cbv \<Rightarrow> nat \<Rightarrow> cbv" where
  "cbv_extendBackward c b =
    (let newOffset = (b div 64) * 64 in
     if newOffset \<ge> cb_offset c then c
     else c\<lparr>cb_words := replicate ((cb_offset c - newOffset) div 64) 0 @ cb_words c,
            cb_offset := newOffset\<rparr>)"

definition cbv_extendForward :: "cbv \<Rightarrow> nat \<Rightarrow> cbv" where
  "cbv_extendForward c b =
    (if b < cb_offset c \<or> cbv_canHold c b then c
     else let bitsWord = (b div 64) * 64;
              wordsToAdd = (1 + (bitsWord - length (cb_words c) * 64 - cb_offset c) div 64) mod 2 ^ 32
          in c\<lparr>cb_words := cb_words c @ replicate wordsToAdd 0\<rparr>)"

definition cbv_extendTo :: "cbv \<Rightarrow> nat \<Rightarrow> cbv" where
  "cbv_extendTo c b =
    (if cb_offset c = 0 \<and> length (cb_words c) = 0
     then c\<lparr>cb_offset := (b div 64) * 64, cb_words := cb_words c @ [0]\<rparr>
     else if b < cb_offset c then cbv_extendBackward c b
     else if b \<ge> cb_offset c + length (cb_words c) * 64 then cbv_extendForward c b
     else c)"

function cbv_nextSetIndex :: "cbv \<Rightarrow> nat \<Rightarrow> nat" where
  "cbv_nextSetIndex c index =
    (if index < length (cb_words c)
     then if cb_words c ! index \<noteq> 0 then index else cbv_nextSetIndex c (Suc index)
     else index)"
  by pat_completeness auto
termination
  by (relation "measure (\<lambda>(c, index). length (cb_words c) - index)") auto

declare cbv_nextSetIndex.simps [simp del]

lemma cbv_nextSetIndex_ge: "index \<le> cbv_nextSetIndex c index"
proof (induction c index rule: cbv_nextSetIndex.induct)
  case (1 c index)
  then show ?case by (subst cbv_nextSetIndex.simps) (auto dest: Suc_leD)
qed

subsection \<open>Operations on single bits\<close>

definition cbv_empty :: "cbv \<Rightarrow> bool" where
  "cbv_empty c \<longleftrightarrow> list_all (\<lambda>w. w = 0) (cb_words c)"

definition cbv_count :: "cbv \<Rightarrow> nat" where
  "cbv_count c = fold (\<lambda>w n. (n + countPopulation w) mod 2 ^ 32) (cb_words c) 0"

definition cbv_clear :: "cbv \<Rightarrow> cbv" where
  "cbv_clear c = c\<lparr>cb_offset := 0, cb_words := []\<rparr>"

definition cbv_test :: "cbv \<Rightarrow> nat \<Rightarrow> bool" where
  "cbv_test c b =
    (if b < cb_offset c \<or> b \<ge> cb_offset c + length (cb_words c) * 64 then False
     else bit_mask (b mod 64) AND cb_words c ! ((b - cb_offset c) div 64) \<noteq> 0)"

definition cbv_set :: "cbv \<Rightarrow> nat \<Rightarrow> cbv" where
  "cbv_set c b =
    (let c' = cbv_extendTo c b; i = (b - cb_offset c') div 64
     in c'\<lparr>cb_words := (cb_words c')[i := cb_words c' ! i OR bit_mask (b mod 64)]\<rparr>)"

definition cbv_test_and_set :: "cbv \<Rightarrow> nat \<Rightarrow> bool \<times> cbv" where
  "cbv_test_and_set c b = (if cbv_test c b then (False, c) else (True, cbv_set c b))"

definition cbv_reset :: "cbv \<Rightarrow> nat \<Rightarrow> cbv" where
  "cbv_reset c b =
    (if b < cb_offset c \<or> b \<ge> cb_offset c + length (cb_words c) * 64 then c
     else let i = (b - cb_offset c) div 64
          in c\<lparr>cb_words := (cb_words c)[i := cb_words c ! i AND NOT (bit_mask (b mod 64))]\<rparr>)"

subsection \<open>Comparison\<close>

text \<open>\<^verbatim>\<open>operator==\<close> walks over the words with set bits on both sides.\<close>

function cbv_eq_loop :: "cbv \<Rightarrow> cbv \<Rightarrow> nat \<Rightarrow> nat \<Rightarrow> bool" where
  "cbv_eq_loop a b i j =
    (if i < length (cb_words a) \<and> j < length (cb_words b)
     then if i * 64 + cb_offset a \<noteq> j * 64 + cb_offset b \<or> cb_words a ! i \<noteq> cb_words b ! j
          then False
          else cbv_eq_loop a b (cbv_nextSetIndex a (i + 1)) (cbv_nextSetIndex b (j + 1))
     else i \<ge> length (cb_words a) \<and> j \<ge> length (cb_words b))"
  by pat_completeness auto
termination
proof (relation "measure (\<lambda>(a, b, i, j). length (cb_words a) - i)", goal_cases)
  case (2 a b i j)
  moreover have "i + 1 \<le> cbv_nextSetIndex a (i + 1)" by (rule cbv_nextSetIndex_ge)
  ultimately show ?case by auto
qed simp

declare cbv_eq_loop.simps [simp del]

definition cbv_eq :: "cbv \<Rightarrow> cbv \<Rightarrow> bool" where
  "cbv_eq a b = cbv_eq_loop a b (cbv_nextSetIndex a 0) (cbv_nextSetIndex b 0)"

definition cbv_intersects :: "cbv \<Rightarrow> cbv \<Rightarrow> bool" where
  "cbv_intersects a b =
    (if cbv_empty a \<and> cbv_empty b then False
     else let earlier = (if cb_offset a \<le> cb_offset b then a else b);
              later = (if cb_offset a \<le> cb_offset b then b else a);
              earlierOffset = (if cb_offset a < cb_offset b then cb_offset a else cb_offset b) div 64;
              laterOffset = (if cb_offset a > cb_offset b then cb_offset a else cb_offset b) div 64
                              - earlierOffset;
              e = min laterOffset (length (cb_words earlier))
          in list_ex (\<lambda>(x, y). x AND y \<noteq> 0) (zip (drop e (cb_words earlier)) (cb_words later)))"

subsection \<open>Bulk operations\<close>

text \<open>
  The loop of \<^verbatim>\<open>operator|=\<close>, over the words of \<^verbatim>\<open>this\<close> from the index of the first word of
  \<^verbatim>\<open>rhs\<close> on: \<open>None\<close> if \<^verbatim>\<open>this\<close> is too short. \<open>ch\<close> is the accumulated difference.
\<close>

fun or_words :: "64 word list \<Rightarrow> 64 word list \<Rightarrow> 64 word \<Rightarrow> (64 word \<times> 64 word list) option" where
  "or_words xs [] ch = Some (ch, xs)"
| "or_words [] (y # ys) ch = None"
| "or_words (x # xs) (y # ys) ch = do {
     (ch', zs) \<leftarrow> or_words xs ys (ch OR (x XOR (x OR y)));
     Some (ch', (x OR y) # zs) }"

definition cbv_or :: "cbv \<Rightarrow> cbv \<Rightarrow> (bool \<times> cbv) option" where
  "cbv_or a b =
    (if length (cb_words a) = 0 then Some (length (cb_words b) \<noteq> 0, b)
     else if length (cb_words b) = 0 then Some (False, a)
     else let a1 = (if cbv_finalBit a < cbv_finalBit b then cbv_extendForward a (cbv_finalBit b) else a);
              a2 = (if cb_offset a1 > cb_offset b then cbv_extendBackward a1 (cb_offset b) else a1)
          in do {
            i \<leftarrow> cbv_indexForBit a2 (cb_offset b);
            (ch, zs) \<leftarrow> or_words (drop i (cb_words a2)) (cb_words b) 0;
            Some (ch \<noteq> 0, a2\<lparr>cb_words := take i (cb_words a2) @ zs\<rparr>) })"

fun clear_words :: "64 word list \<Rightarrow> bool \<Rightarrow> bool \<times> 64 word list" where
  "clear_words [] ch = (ch, [])"
| "clear_words (x # xs) ch =
    (case clear_words xs (if \<not> ch then x \<noteq> 0 else ch) of (ch', zs) \<Rightarrow> (ch', 0 # zs))"

text \<open>The overlapping part, then the words of \<^verbatim>\<open>this\<close> that \<^verbatim>\<open>rhs\<close> does not reach.\<close>

fun and_words :: "64 word list \<Rightarrow> 64 word list \<Rightarrow> bool \<Rightarrow> bool \<times> 64 word list" where
  "and_words (x # xs) (y # ys) ch =
    (case and_words xs ys (if \<not> ch then x \<noteq> x AND y else ch) of (ch', zs) \<Rightarrow> (ch', (x AND y) # zs))"
| "and_words xs ys ch = clear_words xs ch"

definition cbv_and :: "cbv \<Rightarrow> cbv \<Rightarrow> (bool \<times> cbv) option" where
  "cbv_and a b =
    (let greaterOffset = max (cb_offset a) (cb_offset b) in
     if \<not> cbv_canHold a greaterOffset \<or> \<not> cbv_canHold b greaterOffset
     then case clear_words (cb_words a) False of (ch, zs) \<Rightarrow> Some (ch, a\<lparr>cb_words := zs\<rparr>)
     else do {
       i \<leftarrow> cbv_indexForBit a greaterOffset;
       j \<leftarrow> cbv_indexForBit b greaterOffset;
       (case clear_words (take i (cb_words a)) False of (ch, zs) \<Rightarrow>
         case and_words (drop i (cb_words a)) (drop j (cb_words b)) ch of (ch', zs') \<Rightarrow>
           Some (ch', a\<lparr>cb_words := zs @ zs'\<rparr>)) })"

fun diff_words :: "64 word list \<Rightarrow> 64 word list \<Rightarrow> bool \<Rightarrow> bool \<times> 64 word list" where
  "diff_words (x # xs) (y # ys) ch =
    (case diff_words xs ys (if \<not> ch then x \<noteq> x AND NOT y else ch) of
       (ch', zs) \<Rightarrow> (ch', (x AND NOT y) # zs))"
| "diff_words xs ys ch = (ch, xs)"

definition cbv_diff :: "cbv \<Rightarrow> cbv \<Rightarrow> (bool \<times> cbv) option" where
  "cbv_diff a b =
    (let greaterOffset = max (cb_offset a) (cb_offset b) in
     if \<not> cbv_canHold a greaterOffset \<or> \<not> cbv_canHold b greaterOffset then Some (False, a)
     else do {
       i \<leftarrow> cbv_indexForBit a greaterOffset;
       j \<leftarrow> cbv_indexForBit b greaterOffset;
       (case diff_words (drop i (cb_words a)) (drop j (cb_words b)) False of (ch, zs) \<Rightarrow>
         Some (ch, a\<lparr>cb_words := take i (cb_words a) @ zs\<rparr>)) })"

definition cbv_intersectWithComplement :: "cbv \<Rightarrow> cbv \<Rightarrow> (bool \<times> cbv) option" where
  "cbv_intersectWithComplement a b = cbv_diff a b"

text \<open>The three-operand form overwrites \<^verbatim>\<open>this\<close>, so its old value is no argument.\<close>

definition cbv_intersectWithComplement3 :: "cbv \<Rightarrow> cbv \<Rightarrow> cbv option" where
  "cbv_intersectWithComplement3 lhs rhs = do {
     (ch, c) \<leftarrow> cbv_intersectWithComplement lhs rhs;
     Some c }"

definition cbv_contains :: "cbv \<Rightarrow> cbv \<Rightarrow> bool option" where
  "cbv_contains a b = do {
     (ch, tmp) \<leftarrow> cbv_and a b;
     Some (cbv_eq tmp b) }"

definition cbv_hash :: "cbv \<Rightarrow> 64 word" where
  "cbv_hash c =
    fold (\<lambda>w h. h XOR (w + 0x9e3779b9 + push_bit 6 h + drop_bit 2 h)) (cb_words c)
         (of_nat (length (cb_words c)))
    + of_nat (cb_offset c)"

subsection \<open>Iteration\<close>

record cbv_iter =
  ci_word :: nat
  ci_bit :: nat

definition cbv_atEnd :: "cbv \<Rightarrow> cbv_iter \<Rightarrow> bool" where
  "cbv_atEnd c it \<longleftrightarrow> ci_word it = length (cb_words c)"

text \<open>The bit never passes 64, so the test \<^verbatim>\<open>bit != WordSize\<close> is \<open>i < 64\<close>.\<close>

function cbv_find_bit :: "64 word \<Rightarrow> nat \<Rightarrow> nat" where
  "cbv_find_bit w i = (if i < 64 \<and> w AND bit_mask i = 0 then cbv_find_bit w (Suc i) else i)"
  by pat_completeness auto
termination
  by (relation "measure (\<lambda>(w, i). 64 - i)") auto

declare cbv_find_bit.simps [simp del]

definition cbv_iter_next :: "cbv \<Rightarrow> cbv_iter \<Rightarrow> cbv_iter option" where
  "cbv_iter_next c it = do {
     ensure (\<not> cbv_atEnd c it);
     let b = ci_bit it + 1;
         (k, b') = (if b = 64 \<or> drop_bit b (cb_words c ! ci_word it) = 0
                    then (cbv_nextSetIndex c (ci_word it + 1), 0) else (ci_word it, b))
     in Some (if k \<noteq> length (cb_words c)
              then \<lparr>ci_word = k, ci_bit = cbv_find_bit (cb_words c ! k) b'\<rparr>
              else \<lparr>ci_word = k, ci_bit = b'\<rparr>) }"

definition cbv_end :: "cbv \<Rightarrow> cbv_iter" where
  "cbv_end c = \<lparr>ci_word = length (cb_words c), ci_bit = 0\<rparr>"

definition cbv_begin :: "cbv \<Rightarrow> cbv_iter option" where
  "cbv_begin c =
    (let it = \<lparr>ci_word = 0, ci_bit = 0\<rparr> in
     if \<not> cbv_atEnd c it \<and> cb_words c ! 0 AND 1 = 0 then cbv_iter_next c it else Some it)"

definition cbv_iter_deref :: "cbv \<Rightarrow> cbv_iter \<Rightarrow> nat option" where
  "cbv_iter_deref c it = do {
     ensure (\<not> cbv_atEnd c it);
     Some ((cb_offset c + ci_word it * 64 + ci_bit it) mod 2 ^ 32) }"

definition cbv_iter_eq :: "cbv \<Rightarrow> cbv_iter \<Rightarrow> cbv_iter \<Rightarrow> bool" where
  "cbv_iter_eq c it it' =
    (if ci_word it = length (cb_words c) then ci_word it' = length (cb_words c)
     else ci_word it = ci_word it' \<and> ci_bit it = ci_bit it')"

text \<open>The elements a range \<^verbatim>\<open>for\<close> visits, from \<open>it\<close> up to \<^verbatim>\<open>end()\<close>.\<close>

partial_function (option) cbv_elems_from :: "cbv \<Rightarrow> cbv_iter \<Rightarrow> nat list option" where
  "cbv_elems_from c it =
    (if cbv_iter_eq c it (cbv_end c) then Some []
     else do {
       x \<leftarrow> cbv_iter_deref c it;
       it' \<leftarrow> cbv_iter_next c it;
       xs \<leftarrow> cbv_elems_from c it';
       Some (x # xs) })"

definition cbv_elems :: "cbv \<Rightarrow> nat list option" where
  "cbv_elems c = do { it \<leftarrow> cbv_begin c; cbv_elems_from c it }"

subsection \<open>\<^verbatim>\<open>BitVector\<close>\<close>

text \<open>A \<^verbatim>\<open>BitVector\<close> is a \<^verbatim>\<open>CoreBitVector\<close> built so that its offset stays 0.\<close>

definition bv_new :: "nat \<Rightarrow> cbv" where
  "bv_new n = cbv_reset (cbv_set (cbv_new n) 0) 0"

subsection \<open>The set a vector stands for\<close>

definition cb_word :: "cbv \<Rightarrow> nat \<Rightarrow> 64 word" where
  "cb_word c k =
    (let o' = cb_offset c div 64 in
     if o' \<le> k \<and> k < o' + length (cb_words c) then cb_words c ! (k - o') else 0)"

definition cb_set :: "cbv \<Rightarrow> nat set" where
  "cb_set c = bits_of (cb_word c)"

definition cb_inv :: "cbv \<Rightarrow> bool" where
  "cb_inv c \<longleftrightarrow> 64 dvd cb_offset c \<and> cb_offset c + length (cb_words c) * 64 \<le> 2 ^ 32"

named_theorems cb_word_simps \<open>the words of the result of an operation\<close>

lemma cb_inv_bound:
  assumes "cb_inv c" "n \<in> cb_set c"
  shows "n < 2 ^ 32"
proof -
  have "n div 64 < cb_offset c div 64 + length (cb_words c)"
    using assms(2) by (auto simp: cb_set_def mem_bits_of cb_word_def Let_def split: if_splits)
  moreover have "cb_offset c = 64 * (cb_offset c div 64)"
    using assms(1) by (auto simp: cb_inv_def)
  ultimately show ?thesis using assms(1) unfolding cb_inv_def by linarith
qed

lemma cb_word_new [cb_word_simps]: "cb_word (cbv_new n) = (\<lambda>_. 0)"
  by (auto simp: cb_word_def cbv_new_def fun_eq_iff Let_def)

lemma cbv_new_set [simp]: "cb_set (cbv_new n) = {}"
  by (simp add: cb_set_def cb_word_new)

lemma cbv_new_inv [simp]: "n \<le> 2 ^ 26 \<Longrightarrow> cb_inv (cbv_new n)"
  by (simp add: cb_inv_def cbv_new_def)

lemma cbv_clear_set [simp]: "cb_set (cbv_clear c) = {}"
  by (simp add: cbv_clear_def cb_set_def cb_word_def bits_of_def)

lemma cbv_clear_inv [simp]: "cb_inv (cbv_clear c)"
  by (simp add: cbv_clear_def cb_inv_def)

lemma canHold_div:
  assumes "64 dvd cb_offset c"
  shows "cbv_canHold c b \<longleftrightarrow>
    cb_offset c div 64 \<le> b div 64 \<and> b div 64 < cb_offset c div 64 + length (cb_words c)"
  using assms by (auto simp: cbv_canHold_def elim!: dvdE)

lemma index_div:
  assumes "64 dvd cb_offset c" "cb_offset c \<le> b"
  shows "(b - cb_offset c) div 64 = b div 64 - cb_offset c div 64"
  using assms by (auto elim!: dvdE)

lemma cb_word_canHold:
  assumes "64 dvd cb_offset c" "cbv_canHold c b"
  shows "cb_words c ! ((b - cb_offset c) div 64) = cb_word c (b div 64)"
  using assms canHold_div[OF assms(1), of b]
  by (simp add: cb_word_def index_div cbv_canHold_def)

lemma cb_word_not_canHold:
  assumes "64 dvd cb_offset c" "\<not> cbv_canHold c b"
  shows "cb_word c (b div 64) = 0"
  using assms canHold_div[OF assms(1), of b] by (auto simp: cb_word_def Let_def)

lemma canHold_not: "(b < cb_offset c \<or> b \<ge> cb_offset c + length (cb_words c) * 64) \<longleftrightarrow> \<not> cbv_canHold c b"
  by (auto simp: cbv_canHold_def)

theorem cbv_test_iff:
  assumes "cb_inv c"
  shows "cbv_test c b \<longleftrightarrow> b \<in> cb_set c"
proof -
  have d: "64 dvd cb_offset c" using assms by (simp add: cb_inv_def)
  show ?thesis
  proof (cases "cbv_canHold c b")
    case True
    then show ?thesis
      unfolding cbv_test_def canHold_not cb_word_canHold[OF d True]
      by (simp add: and_bit_mask_eq_0 cb_set_def mem_bits_of)
  next
    case False
    then show ?thesis
      unfolding cbv_test_def canHold_not cb_set_def mem_bits_of cb_word_not_canHold[OF d False] by simp
  qed
qed

lemma cbv_empty_iff: "cbv_empty c \<longleftrightarrow> cb_set c = {}"
proof -
  have "cb_set c = {} \<longleftrightarrow> cb_word c = (\<lambda>_. 0)"
    by (simp add: cb_set_def bits_of_eq_empty)
  also have "\<dots> \<longleftrightarrow> (\<forall>i < length (cb_words c). cb_words c ! i = 0)"
  proof
    assume z: "cb_word c = (\<lambda>_. 0)"
    show "\<forall>i < length (cb_words c). cb_words c ! i = 0"
    proof (intro allI impI)
      fix i assume "i < length (cb_words c)"
      then show "cb_words c ! i = 0"
        using fun_cong[OF z, of "cb_offset c div 64 + i"] by (simp add: cb_word_def)
    qed
  qed (auto simp: cb_word_def fun_eq_iff Let_def)
  also have "\<dots> \<longleftrightarrow> cbv_empty c"
    by (simp add: cbv_empty_def list_all_length)
  finally show ?thesis by simp
qed

subsection \<open>Growing\<close>

lemma extendBackward_word [cb_word_simps]:
  assumes "64 dvd cb_offset c"
  shows "cb_word (cbv_extendBackward c b) = cb_word c"
proof (cases "(b div 64) * 64 \<ge> cb_offset c")
  case False
  from assms obtain k where k: "cb_offset c = 64 * k" by (elim dvdE)
  with False have "b div 64 < k" by simp
  then have "(64 * k - b div 64 * 64) div 64 = k - b div 64"
    by (simp add: mult.commute flip: right_diff_distrib)
  then show ?thesis
    using False k \<open>b div 64 < k\<close>
    by (auto simp: fun_eq_iff cb_word_def cbv_extendBackward_def Let_def nth_append)
qed (simp add: cbv_extendBackward_def)

lemma extendBackward_inv:
  assumes "cb_inv c"
  shows "cb_inv (cbv_extendBackward c b) \<and>
    cb_offset (cbv_extendBackward c b) = min (cb_offset c) ((b div 64) * 64) \<and>
    cb_offset (cbv_extendBackward c b) + length (cb_words (cbv_extendBackward c b)) * 64 =
      cb_offset c + length (cb_words c) * 64"
proof (cases "(b div 64) * 64 \<ge> cb_offset c")
  case False
  from assms obtain k where k: "cb_offset c = 64 * k" by (auto simp: cb_inv_def elim!: dvdE)
  with False have "b div 64 < k" by simp
  then have "(64 * k - b div 64 * 64) div 64 = k - b div 64"
    by (simp add: mult.commute flip: right_diff_distrib)
  then show ?thesis
    using False k \<open>b div 64 < k\<close> assms
    by (auto simp: cb_inv_def cbv_extendBackward_def Let_def algebra_simps)
qed (use assms in \<open>simp add: cbv_extendBackward_def\<close>)

lemma extendForward_grow:
  assumes "cb_inv c" "b < 2 ^ 32" "cb_offset c \<le> b" "\<not> cbv_canHold c b"
  shows "cbv_extendForward c b =
    c\<lparr>cb_words := cb_words c @ replicate (b div 64 + 1 - (cb_offset c div 64 + length (cb_words c))) 0\<rparr>"
proof -
  from assms(1) obtain k where k: "cb_offset c = 64 * k" by (auto simp: cb_inv_def elim!: dvdE)
  let ?l = "length (cb_words c)"
  have ge: "k + ?l \<le> b div 64" using assms(3,4) k by (auto simp: cbv_canHold_def)
  have "b div 64 * 64 - ?l * 64 - 64 * k = (b div 64 - ?l - k) * 64" by (simp add: algebra_simps)
  then have "(1 + (b div 64 * 64 - ?l * 64 - 64 * k) div 64) = b div 64 + 1 - (k + ?l)"
    using ge by simp
  moreover have "b div 64 + 1 - (k + ?l) < 2 ^ 32"
    using assms(2) by simp
  ultimately show ?thesis
    using assms(3,4) k by (simp add: cbv_extendForward_def Let_def)
qed

lemma append_zeros_word: "cb_word (c\<lparr>cb_words := cb_words c @ replicate n 0\<rparr>) = cb_word c"
proof
  fix k
  let ?o = "cb_offset c div 64"
  show "cb_word (c\<lparr>cb_words := cb_words c @ replicate n 0\<rparr>) k = cb_word c k"
    using nth_append_replicate[of "k - ?o" "cb_words c" n 0]
    by (cases "k < ?o + length (cb_words c) + n") (auto simp: cb_word_def Let_def)
qed

lemma extendForward_word [cb_word_simps]:
  assumes "cb_inv c" "b < 2 ^ 32"
  shows "cb_word (cbv_extendForward c b) = cb_word c"
proof (cases "b < cb_offset c \<or> cbv_canHold c b")
  case False
  then show ?thesis
    using extendForward_grow[OF assms] append_zeros_word by simp
qed (simp add: cbv_extendForward_def)

lemma extendForward_inv:
  assumes "cb_inv c" "b < 2 ^ 32"
  shows "cb_inv (cbv_extendForward c b) \<and> cb_offset (cbv_extendForward c b) = cb_offset c \<and>
    (cb_offset c \<le> b \<longrightarrow> cbv_canHold (cbv_extendForward c b) b) \<and>
    (\<forall>x. cbv_canHold c x \<longrightarrow> cbv_canHold (cbv_extendForward c b) x)"
proof (cases "b < cb_offset c \<or> cbv_canHold c b")
  case False
  from assms(1) obtain k where k: "cb_offset c = 64 * k" by (auto simp: cb_inv_def elim!: dvdE)
  let ?l = "length (cb_words c)"
  have ge: "k + ?l \<le> b div 64" using False k by (auto simp: cbv_canHold_def)
  have "64 * k + (?l + (b div 64 + 1 - (k + ?l))) * 64 = (b div 64 + 1) * 64"
    using ge by simp
  moreover have "(b div 64 + 1) * 64 \<le> 2 ^ 32" and "b < (b div 64 + 1) * 64"
    using assms(2) by simp_all
  ultimately show ?thesis
    using False assms k extendForward_grow[OF assms]
    by (auto simp: cb_inv_def cbv_canHold_def)
qed (use assms in \<open>auto simp: cbv_extendForward_def\<close>)

lemma extendTo_ok:
  assumes "cb_inv c" "b < 2 ^ 32"
  shows "cb_inv (cbv_extendTo c b)" "cbv_canHold (cbv_extendTo c b) b"
    "cb_word (cbv_extendTo c b) = cb_word c"
proof -
  let ?r = "cbv_extendTo c b"
  have d: "64 dvd cb_offset c" using assms(1) by (simp add: cb_inv_def)
  have goal: "cb_inv ?r \<and> cbv_canHold ?r b \<and> cb_word ?r = cb_word c"
  proof (cases "cb_offset c = 0 \<and> length (cb_words c) = 0")
    case True
    moreover have "b div 64 * 64 + 64 \<le> 2 ^ 32" using assms(2) by simp
    ultimately show ?thesis
      by (auto simp: cbv_extendTo_def cb_inv_def cbv_canHold_def cb_word_def fun_eq_iff Let_def
          dest: less_antisym)
  next
    case False
    then show ?thesis
      using assms extendBackward_inv[OF assms(1), of b] extendForward_inv[OF assms]
        extendBackward_word[OF d, of b] extendForward_word[OF assms]
      by (auto simp: cbv_extendTo_def cbv_canHold_def)
  qed
  then show "cb_inv ?r" "cbv_canHold ?r b" "cb_word ?r = cb_word c" by simp_all
qed

subsection \<open>Single bits\<close>

lemma update_word:
  assumes "64 dvd cb_offset c" "cbv_canHold c b"
  shows "cb_word (c\<lparr>cb_words := (cb_words c)[(b - cb_offset c) div 64 := v]\<rparr>) = (cb_word c)(b div 64 := v)"
  using assms canHold_div[OF assms(1), of b]
  by (auto simp: fun_eq_iff cb_word_def index_div cbv_canHold_def Let_def nth_list_update)

theorem cbv_set_ok:
  assumes "cb_inv c" "b < 2 ^ 32"
  shows "cb_inv (cbv_set c b) \<and> cb_set (cbv_set c b) = insert b (cb_set c)"
proof -
  note e = extendTo_ok[OF assms]
  have d: "64 dvd cb_offset (cbv_extendTo c b)" using e(1) by (simp add: cb_inv_def)
  have "cb_word (cbv_set c b) = (cb_word c)(b div 64 := cb_word c (b div 64) OR bit_mask (b mod 64))"
    unfolding cbv_set_def Let_def update_word[OF d e(2)] cb_word_canHold[OF d e(2)] e(3) ..
  moreover have "cb_inv (cbv_set c b)"
    using e(1) by (simp add: cb_inv_def cbv_set_def Let_def)
  ultimately show ?thesis by (simp add: cb_set_def bits_of_set_bit)
qed

theorem cbv_reset_ok:
  assumes "cb_inv c"
  shows "cb_inv (cbv_reset c b) \<and> cb_set (cbv_reset c b) = cb_set c - {b}"
proof (cases "cbv_canHold c b")
  case True
  have d: "64 dvd cb_offset c" using assms by (simp add: cb_inv_def)
  have "cb_word (cbv_reset c b) =
      (cb_word c)(b div 64 := cb_word c (b div 64) AND NOT (bit_mask (b mod 64)))"
    using True unfolding cbv_reset_def Let_def canHold_not
    by (simp add: update_word[OF d True] cb_word_canHold[OF d True])
  moreover have "cb_inv (cbv_reset c b)"
    using assms by (simp add: cb_inv_def cbv_reset_def Let_def)
  ultimately show ?thesis by (simp add: cb_set_def bits_of_unset_bit)
next
  case False
  then have "b \<notin> cb_set c"
    using assms by (simp add: cb_inv_def cb_set_def mem_bits_of cb_word_not_canHold)
  then show ?thesis
    using False assms by (simp add: cbv_reset_def canHold_not)
qed

theorem cbv_test_and_set_ok:
  assumes "cb_inv c" "b < 2 ^ 32"
  shows "fst (cbv_test_and_set c b) \<longleftrightarrow> b \<notin> cb_set c"
    and "cb_inv (snd (cbv_test_and_set c b))"
    and "cb_set (snd (cbv_test_and_set c b)) = insert b (cb_set c)"
  using assms cbv_test_iff[OF assms(1), of b] cbv_set_ok[OF assms]
  by (auto simp: cbv_test_and_set_def)

subsection \<open>Bulk operations\<close>

text \<open>The loops, as maps over the words they visit.\<close>

lemma or_words_eq:
  "length ys \<le> length xs \<Longrightarrow>
   \<exists>ch' zs. or_words xs ys ch = Some (ch', zs) \<and> length zs = length xs \<and>
     (\<forall>i < length xs. zs ! i = (if i < length ys then xs ! i OR ys ! i else xs ! i)) \<and>
     (ch' \<noteq> 0 \<longleftrightarrow> ch \<noteq> 0 \<or> zs \<noteq> xs)"
proof (induction xs ys ch rule: or_words.induct)
  case (3 x xs y ys ch)
  then obtain ch' zs where IH: "or_words xs ys (ch OR (x XOR (x OR y))) = Some (ch', zs)"
    "length zs = length xs"
    "\<forall>i < length xs. zs ! i = (if i < length ys then xs ! i OR ys ! i else xs ! i)"
    "ch' \<noteq> 0 \<longleftrightarrow> ch OR (x XOR (x OR y)) \<noteq> 0 \<or> zs \<noteq> xs"
    by auto
  have "ch OR (x XOR (x OR y)) \<noteq> 0 \<longleftrightarrow> ch \<noteq> 0 \<or> x OR y \<noteq> x"
    by (auto simp: bit_eq_iff bit_or_iff bit_xor_iff)
  then have "((x OR y) # zs \<noteq> x # xs \<or> ch \<noteq> 0) = (ch' \<noteq> 0)"
    using IH(4) by auto
  moreover have "\<forall>i < length (x # xs). ((x OR y) # zs) ! i =
      (if i < length (y # ys) then (x # xs) ! i OR (y # ys) ! i else (x # xs) ! i)"
    using IH(3) by (simp add: nth_Cons split: nat.split)
  ultimately show ?case
    using IH(1,2) by (intro exI[of _ ch'] exI[of _ "(x OR y) # zs"]) auto
qed auto

lemma clear_words_eq:
  "clear_words xs ch = (ch \<or> (\<exists>x \<in> set xs. x \<noteq> 0), replicate (length xs) 0)"
  by (induction xs ch rule: clear_words.induct) auto

lemma replicate_neq: "xs \<noteq> replicate (length xs) z \<longleftrightarrow> (\<exists>x \<in> set xs. x \<noteq> z)"
  by (induction xs) auto

lemma and_words_eq:
  "\<exists>zs. and_words xs ys ch = (ch \<or> zs \<noteq> xs, zs) \<and> length zs = length xs \<and>
     (\<forall>i < length xs. zs ! i = (if i < length ys then xs ! i AND ys ! i else 0))"
proof (induction xs ys ch rule: and_words.induct, goal_cases)
  case (1 x xs y ys ch)
  then show ?case by (auto simp: nth_Cons split: nat.splits)
next
  case (3 xs ch)
  have "(\<exists>x \<in> set xs. x \<noteq> 0) \<longleftrightarrow> replicate (length xs) 0 \<noteq> xs"
    using replicate_neq[of xs 0] by (simp only: eq_commute[of xs])
  then show ?case
    by (intro exI[of _ "replicate (length xs) 0"]) (simp add: clear_words_eq)
qed (simp add: clear_words_eq)

lemma diff_words_eq:
  "\<exists>zs. diff_words xs ys ch = (ch \<or> zs \<noteq> xs, zs) \<and> length zs = length xs \<and>
     (\<forall>i < length xs. zs ! i = (if i < length ys then xs ! i AND NOT (ys ! i) else xs ! i))"
proof (induction xs ys ch rule: diff_words.induct)
  case (1 x xs y ys ch)
  then show ?case by (auto simp: nth_Cons split: nat.splits)
qed auto

text \<open>Vectors of the same shape differ as sets exactly when their words differ.\<close>

lemma cb_word_same_shape:
  assumes "cb_offset c = cb_offset c'" "length (cb_words c) = length (cb_words c')"
  shows "cb_word c = cb_word c' \<longleftrightarrow> cb_words c = cb_words c'"
proof
  assume eq: "cb_word c = cb_word c'"
  show "cb_words c = cb_words c'"
  proof (rule nth_equalityI)
    fix i assume "i < length (cb_words c)"
    then show "cb_words c ! i = cb_words c' ! i"
      using assms fun_cong[OF eq, of "cb_offset c div 64 + i"] by (simp add: cb_word_def)
  qed (rule assms)
qed (use assms in \<open>simp add: cb_word_def fun_eq_iff Let_def\<close>)

lemma cb_set_same_shape:
  assumes "cb_offset c = cb_offset c'" "length (cb_words c) = length (cb_words c')"
  shows "cb_set c = cb_set c' \<longleftrightarrow> cb_words c = cb_words c'"
  using cb_word_same_shape[OF assms] by (simp add: cb_set_def bits_of_inject)

lemma finalBit_eq:
  assumes "cb_inv c" "cb_words c \<noteq> []"
  shows "cbv_finalBit c = cb_offset c + length (cb_words c) * 64 - 1" "cbv_canHold c (cbv_finalBit c)"
    "cbv_finalBit c < 2 ^ 32"
proof -
  let ?e = "cb_offset c + length (cb_words c) * 64"
  have e: "1 \<le> ?e" "?e \<le> 2 ^ 32" and len: "0 < length (cb_words c)"
    using assms by (auto simp: cb_inv_def Suc_le_eq)
  then have "(?e + (2 ^ 64 - 1)) mod 2 ^ 64 = ?e - 1"
    by (simp add: mod_if)
  then show eq: "cbv_finalBit c = ?e - 1"
    using e by (simp add: cbv_finalBit_def)
  show "cbv_canHold c (cbv_finalBit c)" "cbv_finalBit c < 2 ^ 32"
    unfolding eq cbv_canHold_def using len e by linarith+
qed

lemma or_aligned:
  assumes a: "cb_inv a" and b: "cb_inv b"
    and fits: "cb_offset a \<le> cb_offset b"
      "cb_offset b + length (cb_words b) * 64 \<le> cb_offset a + length (cb_words a) * 64"
    and i: "i = cb_offset b div 64 - cb_offset a div 64"
  shows "\<exists>ch zs. or_words (drop i (cb_words a)) (cb_words b) 0 = Some (ch, zs) \<and>
    cb_inv (a\<lparr>cb_words := take i (cb_words a) @ zs\<rparr>) \<and>
    cb_word (a\<lparr>cb_words := take i (cb_words a) @ zs\<rparr>) = (\<lambda>k. cb_word a k OR cb_word b k) \<and>
    (ch \<noteq> 0 \<longleftrightarrow> cb_set (a\<lparr>cb_words := take i (cb_words a) @ zs\<rparr>) \<noteq> cb_set a)"
proof -
  obtain p q where p: "cb_offset a = 64 * p" and q: "cb_offset b = 64 * q"
    using a b by (auto simp: cb_inv_def elim!: dvdE)
  let ?xs = "cb_words a" and ?ys = "cb_words b"
  have le: "p \<le> q" "q + length ?ys \<le> p + length ?xs" using fits p q by simp_all
  have iq: "i = q - p" using i p q by simp
  have len: "length ?ys \<le> length (drop i ?xs)" using le iq by simp
  obtain ch zs where w: "or_words (drop i ?xs) ?ys 0 = Some (ch, zs)" "length zs = length ?xs - i"
    "\<forall>j < length ?xs - i. zs ! j = (if j < length ?ys then drop i ?xs ! j OR ?ys ! j else drop i ?xs ! j)"
    "ch \<noteq> 0 \<longleftrightarrow> zs \<noteq> drop i ?xs"
    using or_words_eq[OF len, of 0] by auto
  let ?r = "a\<lparr>cb_words := take i ?xs @ zs\<rparr>"
  have il: "i \<le> length ?xs" using le iq by simp
  have shape: "cb_offset ?r = cb_offset a" "length (cb_words ?r) = length ?xs"
    using w(2) il by simp_all
  have "cb_words ?r \<noteq> ?xs \<longleftrightarrow> zs \<noteq> drop i ?xs"
    by simp (metis append_take_drop_id append_same_eq same_append_eq)
  then have "ch \<noteq> 0 \<longleftrightarrow> cb_set ?r \<noteq> cb_set a"
    using w(4) cb_set_same_shape[OF shape] by simp
  moreover have "cb_word ?r = (\<lambda>k. cb_word a k OR cb_word b k)"
  proof
    fix k
    show "cb_word ?r k = cb_word a k OR cb_word b k"
    proof (cases "p \<le> k \<and> k < p + length ?xs")
      case True
      have "cb_words ?r ! (k - p) = (if k < q then ?xs ! (k - p) else zs ! (k - q))"
        using True le iq il by (auto simp: nth_append min_def)
      then show ?thesis
        using True w(2,3) le iq il p q shape by (auto simp: cb_word_def Let_def)
    next
      case False
      then show ?thesis
        using le p q shape w(2) il by (auto simp: cb_word_def Let_def)
    qed
  qed
  moreover have "cb_inv ?r" using a shape by (simp add: cb_inv_def)
  ultimately show ?thesis using w(1) by blast
qed

text \<open>
  \<^verbatim>\<open>operator|=\<close> never fails and computes the union. Its result is exact about a change except
  where \<^verbatim>\<open>this\<close> has no words at all: there it is true whenever \<^verbatim>\<open>rhs\<close> has words, be they zero.
\<close>

theorem cbv_or_ok:
  assumes "cb_inv a" "cb_inv b"
  shows "wp (cbv_or a b) (\<lambda>(ch, c). cb_inv c \<and> cb_set c = cb_set a \<union> cb_set b \<and>
    (ch \<longleftrightarrow> (if cb_words a = [] then cb_words b \<noteq> [] else cb_set c \<noteq> cb_set a)))"
proof -
  consider "cb_words a = []" | "cb_words a \<noteq> []" "cb_words b = []"
    | "cb_words a \<noteq> []" "cb_words b \<noteq> []" by blast
  then show ?thesis
  proof cases
    case 1
    then show ?thesis
      using assms cbv_empty_iff[of a] by (simp add: cbv_or_def cbv_empty_def)
  next
    case 2
    then show ?thesis
      using assms cbv_empty_iff[of b] by (simp add: cbv_or_def cbv_empty_def)
  next
    case 3
    define a1 where "a1 = (if cbv_finalBit a < cbv_finalBit b
      then cbv_extendForward a (cbv_finalBit b) else a)"
    define a2 where "a2 = (if cb_offset a1 > cb_offset b
      then cbv_extendBackward a1 (cb_offset b) else a1)"
    note fa = finalBit_eq[OF assms(1) 3(1)] and fb = finalBit_eq[OF assms(2) 3(2)]
    have a1: "cb_inv a1" "cb_offset a1 = cb_offset a" "cb_word a1 = cb_word a"
      "cbv_finalBit b < cb_offset a1 + length (cb_words a1) * 64"
      using extendForward_inv[OF assms(1) fb(3)] extendForward_word[OF assms(1) fb(3)] assms(1) fa
      by (auto simp: a1_def cbv_canHold_def)
    have d: "64 dvd cb_offset a1" "64 dvd cb_offset b" using a1(1) assms(2) by (simp_all add: cb_inv_def)
    have min: "min (cb_offset a1) (cb_offset b div 64 * 64) = min (cb_offset a1) (cb_offset b)"
      using d(2) by simp
    have a2: "cb_inv a2" "cb_offset a2 \<le> cb_offset b" "cb_word a2 = cb_word a"
      "cb_offset b + length (cb_words b) * 64 \<le> cb_offset a2 + length (cb_words a2) * 64"
      using extendBackward_inv[OF a1(1), of "cb_offset b"] extendBackward_word[OF d(1), of "cb_offset b"]
        a1 min fb(1) 3(2) by (auto simp: a2_def)
    have hold: "cbv_canHold a2 (cb_offset b)"
      using a2(2,4) 3(2)[folded length_greater_0_conv] unfolding cbv_canHold_def by linarith
    have idx: "cbv_indexForBit a2 (cb_offset b) = Some (cb_offset b div 64 - cb_offset a2 div 64)"
      using hold a2(1,2) by (simp add: cbv_indexForBit_def index_div cb_inv_def)
    obtain ch zs where r: "or_words (drop (cb_offset b div 64 - cb_offset a2 div 64) (cb_words a2)) (cb_words b) 0
        = Some (ch, zs)"
      "cb_inv (a2\<lparr>cb_words := take (cb_offset b div 64 - cb_offset a2 div 64) (cb_words a2) @ zs\<rparr>)"
      "cb_word (a2\<lparr>cb_words := take (cb_offset b div 64 - cb_offset a2 div 64) (cb_words a2) @ zs\<rparr>)
        = (\<lambda>k. cb_word a2 k OR cb_word b k)"
      "ch \<noteq> 0 \<longleftrightarrow> cb_set (a2\<lparr>cb_words := take (cb_offset b div 64 - cb_offset a2 div 64) (cb_words a2) @ zs\<rparr>)
        \<noteq> cb_set a2"
      using or_aligned[OF a2(1) assms(2) a2(2) a2(4) refl] by blast
    show ?thesis
      using 3 r idx a2(3)
      by (simp add: cbv_or_def Let_def flip: a1_def a2_def) (simp add: cb_set_def bits_of_or)
  qed
qed

lemma cb_word_pointwise:
  assumes "length ws = length (cb_words a)"
    and "\<And>i. i < length ws \<Longrightarrow> ws ! i = f (cb_offset a div 64 + i)"
    and "\<And>k. \<not> (cb_offset a div 64 \<le> k \<and> k < cb_offset a div 64 + length ws) \<Longrightarrow> f k = 0"
  shows "cb_word (a\<lparr>cb_words := ws\<rparr>) = f"
proof
  fix k
  show "cb_word (a\<lparr>cb_words := ws\<rparr>) k = f k"
    using assms(2)[of "k - cb_offset a div 64"] assms(3)[of k]
    by (auto simp: cb_word_def Let_def)
qed

text \<open>The overlap of two vectors, as indices of their words.\<close>

lemma overlap:
  assumes "cb_inv a" "cb_inv b"
    and "cbv_canHold a (max (cb_offset a) (cb_offset b))"
    and "cbv_canHold b (max (cb_offset a) (cb_offset b))"
  obtains i j where "cbv_indexForBit a (max (cb_offset a) (cb_offset b)) = Some i"
    and "cbv_indexForBit b (max (cb_offset a) (cb_offset b)) = Some j"
    and "i < length (cb_words a)" "j < length (cb_words b)" "i = 0 \<or> j = 0"
    and "cb_offset a div 64 + i = cb_offset b div 64 + j"
proof -
  obtain p q where p: "cb_offset a = 64 * p" and q: "cb_offset b = 64 * q"
    using assms(1,2) by (auto simp: cb_inv_def elim!: dvdE)
  have m: "max (64 * p) (64 * q) = 64 * max p q" for p q :: nat by (simp add: max_def)
  have sub: "(64 * max p q - 64 * x) div 64 = max p q - x" for x :: nat
    by (simp flip: right_diff_distrib')
  show ?thesis
  proof (rule that)
    show "cbv_indexForBit a (max (cb_offset a) (cb_offset b)) = Some (max p q - p)"
      "cbv_indexForBit b (max (cb_offset a) (cb_offset b)) = Some (max p q - q)"
      using assms(3,4) by (simp_all add: cbv_indexForBit_def p q m sub)
    show "max p q - p < length (cb_words a)" "max p q - q < length (cb_words b)"
      using assms(3,4) by (auto simp: cbv_canHold_def p q m)
    show "max p q - p = 0 \<or> max p q - q = 0" by (simp add: max_def)
    show "cb_offset a div 64 + (max p q - p) = cb_offset b div 64 + (max p q - q)"
      by (simp add: p q)
  qed
qed

lemma no_overlap:
  assumes "cb_inv a" "cb_inv b"
    and "\<not> cbv_canHold a (max (cb_offset a) (cb_offset b)) \<or> \<not> cbv_canHold b (max (cb_offset a) (cb_offset b))"
  shows "cb_word a k = 0 \<or> cb_word b k = 0"
proof -
  obtain p q where p: "cb_offset a = 64 * p" and q: "cb_offset b = 64 * q"
    using assms(1,2) by (auto simp: cb_inv_def elim!: dvdE)
  show ?thesis
    using assms(3) by (auto simp: cbv_canHold_def cb_word_def p q max_def split: if_splits)
qed

lemma overlap_word:
  assumes "cb_offset a div 64 + i = cb_offset b div 64 + j" "i = 0 \<or> j = 0"
    and "n < length (cb_words a)"
  shows "cb_word b (cb_offset a div 64 + n) =
    (if i \<le> n \<and> n - i + j < length (cb_words b) then cb_words b ! (n - i + j) else 0)"
  using assms by (auto simp: cb_word_def Let_def intro!: arg_cong[where f = "nth (cb_words b)"])

theorem cbv_and_ok:
  assumes "cb_inv a" "cb_inv b"
  shows "wp (cbv_and a b) (\<lambda>(ch, c). cb_inv c \<and> cb_set c = cb_set a \<inter> cb_set b \<and>
    (ch \<longleftrightarrow> cb_set c \<noteq> cb_set a))"
proof -
  let ?xs = "cb_words a" and ?ys = "cb_words b"
  have finish: "cb_inv (a\<lparr>cb_words := ws\<rparr>) \<and>
      cb_set (a\<lparr>cb_words := ws\<rparr>) = cb_set a \<inter> cb_set b \<and>
      (ws \<noteq> ?xs \<longleftrightarrow> cb_set (a\<lparr>cb_words := ws\<rparr>) \<noteq> cb_set a)"
    if "length ws = length ?xs"
      "\<And>n. n < length ?xs \<Longrightarrow> ws ! n = ?xs ! n AND cb_word b (cb_offset a div 64 + n)" for ws
  proof -
    have "cb_word (a\<lparr>cb_words := ws\<rparr>) = (\<lambda>k. cb_word a k AND cb_word b k)"
      by (rule cb_word_pointwise) (use that in \<open>auto simp: cb_word_def Let_def\<close>)
    then have "cb_set (a\<lparr>cb_words := ws\<rparr>) = cb_set a \<inter> cb_set b"
      by (simp add: cb_set_def bits_of_and)
    moreover have "cb_set (a\<lparr>cb_words := ws\<rparr>) = cb_set a \<longleftrightarrow> ws = ?xs"
      using cb_set_same_shape[of "a\<lparr>cb_words := ws\<rparr>" a] that(1) by simp
    ultimately show ?thesis using assms(1) that(1) by (simp add: cb_inv_def)
  qed
  show ?thesis
  proof (cases "\<not> cbv_canHold a (max (cb_offset a) (cb_offset b)) \<or>
      \<not> cbv_canHold b (max (cb_offset a) (cb_offset b))")
    case True
    have "?xs ! n AND cb_word b (cb_offset a div 64 + n) = 0" if "n < length ?xs" for n
      using no_overlap[OF assms True, of "cb_offset a div 64 + n"] that by (auto simp: cb_word_def)
    then show ?thesis
      using True finish[of "replicate (length ?xs) 0"] replicate_neq[of ?xs 0]
      by (simp add: cbv_and_def clear_words_eq eq_commute[of ?xs])
  next
    case False
    then obtain i j where ij: "cbv_indexForBit a (max (cb_offset a) (cb_offset b)) = Some i"
      "cbv_indexForBit b (max (cb_offset a) (cb_offset b)) = Some j"
      "i < length ?xs" "j < length ?ys" "i = 0 \<or> j = 0"
      "cb_offset a div 64 + i = cb_offset b div 64 + j"
      using overlap[OF assms] by auto
    let ?c = "\<exists>x \<in> set (take i ?xs). x \<noteq> 0"
    obtain zs where zs: "and_words (drop i ?xs) (drop j ?ys) ?c = (?c \<or> zs \<noteq> drop i ?xs, zs)"
      "length zs = length ?xs - i"
      "\<forall>n < length ?xs - i. zs ! n = (if n < length ?ys - j then drop i ?xs ! n AND drop j ?ys ! n else 0)"
      using and_words_eq[of "drop i ?xs" "drop j ?ys" ?c] by auto
    let ?ws = "replicate i 0 @ zs"
    have "?c \<longleftrightarrow> replicate i 0 \<noteq> take i ?xs"
      using replicate_neq[of "take i ?xs" 0] ij(3) by (simp add: min_def eq_commute[of "take i ?xs"])
    then have ch: "?c \<or> zs \<noteq> drop i ?xs \<longleftrightarrow> ?ws \<noteq> ?xs"
      using append_eq_append_conv[of "replicate i 0" "take i ?xs" zs "drop i ?xs"] ij(3)
      by (simp add: min_def)
    have "?ws ! n = ?xs ! n AND cb_word b (cb_offset a div 64 + n)" if "n < length ?xs" for n
      using that zs(2,3) ij(3,4) overlap_word[OF ij(6,5) that]
      by (auto simp: nth_append add.commute)
    then show ?thesis
      using False finish[of ?ws] zs ij ch
      by (simp add: cbv_and_def clear_words_eq min_def)
  qed
qed

theorem cbv_diff_ok:
  assumes "cb_inv a" "cb_inv b"
  shows "wp (cbv_diff a b) (\<lambda>(ch, c). cb_inv c \<and> cb_set c = cb_set a - cb_set b \<and>
    (ch \<longleftrightarrow> cb_set c \<noteq> cb_set a))"
proof (cases "\<not> cbv_canHold a (max (cb_offset a) (cb_offset b)) \<or>
    \<not> cbv_canHold b (max (cb_offset a) (cb_offset b))")
  case True
  have "cb_word a k AND cb_word b k = 0" for k
    using no_overlap[OF assms True, of k] by auto
  then have "cb_set a \<inter> cb_set b = {}"
    unfolding cb_set_def by (simp flip: bits_of_and)
  then show ?thesis
    using True assms by (auto simp: cbv_diff_def)
next
  case False
  let ?xs = "cb_words a" and ?ys = "cb_words b"
  obtain i j where ij: "cbv_indexForBit a (max (cb_offset a) (cb_offset b)) = Some i"
    "cbv_indexForBit b (max (cb_offset a) (cb_offset b)) = Some j"
    "i < length ?xs" "j < length ?ys" "i = 0 \<or> j = 0"
    "cb_offset a div 64 + i = cb_offset b div 64 + j"
    using False overlap[OF assms] by auto
  obtain zs where zs: "diff_words (drop i ?xs) (drop j ?ys) False = (zs \<noteq> drop i ?xs, zs)"
    "length zs = length ?xs - i"
    "\<forall>n < length ?xs - i. zs ! n =
      (if n < length ?ys - j then drop i ?xs ! n AND NOT (drop j ?ys ! n) else drop i ?xs ! n)"
    using diff_words_eq[of "drop i ?xs" "drop j ?ys" False] by auto
  let ?ws = "take i ?xs @ zs"
  have len: "length ?ws = length ?xs" using ij(3) zs(2) by simp
  have pw: "?ws ! n = ?xs ! n AND NOT (cb_word b (cb_offset a div 64 + n))" if "n < length ?xs" for n
    using that zs(2,3) ij(3,4) overlap_word[OF ij(6,5) that]
    by (auto simp: nth_append add.commute)
  have "cb_word (a\<lparr>cb_words := ?ws\<rparr>) = (\<lambda>k. cb_word a k AND NOT (cb_word b k))"
    by (rule cb_word_pointwise) (use len pw in \<open>auto simp: cb_word_def Let_def\<close>)
  moreover have "zs \<noteq> drop i ?xs \<longleftrightarrow> ?ws \<noteq> ?xs"
    by (metis append_take_drop_id same_append_eq)
  moreover have "cb_set (a\<lparr>cb_words := ?ws\<rparr>) = cb_set a \<longleftrightarrow> ?ws = ?xs"
    using cb_set_same_shape[of "a\<lparr>cb_words := ?ws\<rparr>" a] len by simp
  ultimately show ?thesis
    using False zs(1) ij assms(1) len
    by (simp add: cbv_diff_def) (simp add: cb_inv_def cb_set_def bits_of_and_not)
qed

lemmas cbv_intersectWithComplement_ok = cbv_diff_ok[folded cbv_intersectWithComplement_def]

lemma cbv_intersectWithComplement3_ok:
  assumes "cb_inv a" "cb_inv b"
  shows "wp (cbv_intersectWithComplement3 a b) (\<lambda>c. cb_inv c \<and> cb_set c = cb_set a - cb_set b)"
  unfolding cbv_intersectWithComplement3_def wp_bind
  by (rule wp_mono[OF cbv_intersectWithComplement_ok[OF assms]]) auto

subsection \<open>Comparison and hashing\<close>

lemma nextSetIndex_spec:
  "index \<le> cbv_nextSetIndex c index \<and>
   (index \<le> length (cb_words c) \<longrightarrow> cbv_nextSetIndex c index \<le> length (cb_words c)) \<and>
   (\<forall>m. index \<le> m \<longrightarrow> m < cbv_nextSetIndex c index \<longrightarrow> cb_words c ! m = 0) \<and>
   (cbv_nextSetIndex c index < length (cb_words c) \<longrightarrow> cb_words c ! cbv_nextSetIndex c index \<noteq> 0)"
proof (induction c index rule: cbv_nextSetIndex.induct)
  case (1 c index)
  show ?case
  proof (cases "index < length (cb_words c) \<and> cb_words c ! index = 0")
    case True
    then have "cb_words c ! m = 0" if "index \<le> m" "m < cbv_nextSetIndex c (Suc index)" for m
      using 1 that by (cases "m = index") auto
    then show ?thesis
      using 1 True by (simp add: cbv_nextSetIndex.simps[of c index])
  qed (auto simp: cbv_nextSetIndex.simps[of c index])
qed

text \<open>The words from an index on.\<close>

definition cb_tail :: "cbv \<Rightarrow> nat \<Rightarrow> nat \<Rightarrow> 64 word" where
  "cb_tail c i k = (if cb_offset c div 64 + i \<le> k then cb_word c k else 0)"

lemma cb_tail_0 [simp]: "cb_tail c 0 = cb_word c"
  by (auto simp: cb_tail_def cb_word_def fun_eq_iff Let_def)

lemma cb_tail_end: "length (cb_words c) \<le> i \<Longrightarrow> cb_tail c i = (\<lambda>_. 0)"
  by (auto simp: cb_tail_def cb_word_def fun_eq_iff Let_def)

lemma cb_tail_nextSetIndex: "cb_tail c (cbv_nextSetIndex c i) = cb_tail c i"
proof
  fix k
  show "cb_tail c (cbv_nextSetIndex c i) k = cb_tail c i k"
    using nextSetIndex_spec[of i c]
    by (auto simp: cb_tail_def cb_word_def Let_def)
qed

lemma cb_tail_step:
  assumes "i < length (cb_words c)"
  shows "cb_tail c i = (cb_tail c (Suc i))(cb_offset c div 64 + i := cb_words c ! i)"
  using assms by (auto simp: cb_tail_def cb_word_def fun_eq_iff Let_def Suc_le_eq le_less)

lemma cbv_eq_loop_iff:
  assumes "64 dvd cb_offset a" "64 dvd cb_offset b"
  shows "(i < length (cb_words a) \<longrightarrow> cb_words a ! i \<noteq> 0) \<Longrightarrow>
    (j < length (cb_words b) \<longrightarrow> cb_words b ! j \<noteq> 0) \<Longrightarrow>
    cbv_eq_loop a b i j \<longleftrightarrow> cb_tail a i = cb_tail b j"
  using assms
proof (induction a b i j rule: cbv_eq_loop.induct)
  case (1 a b i j)
  obtain p q where pq: "cb_offset a = 64 * p" "cb_offset b = 64 * q"
    using 1(4,5) by (elim dvdE)
  let ?A = "cb_tail a" and ?B = "cb_tail b"
  have below: "?A i k = 0" if "k < p + i" for k using that pq by (simp add: cb_tail_def)
  have below': "?B j k = 0" if "k < q + j" for k using that pq by (simp add: cb_tail_def)
  consider "i < length (cb_words a)" "j < length (cb_words b)"
    | "i < length (cb_words a)" "length (cb_words b) \<le> j"
    | "length (cb_words a) \<le> i" "j < length (cb_words b)"
    | "length (cb_words a) \<le> i" "length (cb_words b) \<le> j" by linarith
  then show ?case
  proof cases
    case 1
    note stepA = cb_tail_step[OF 1(1)] and stepB = cb_tail_step[OF 1(2)]
    have hd: "?A i (p + i) = cb_words a ! i" "?B j (q + j) = cb_words b ! j"
      by (simp_all add: stepA stepB pq)
    have hd0: "?A (Suc i) (p + i) = 0" "?B (Suc j) (q + j) = 0"
      by (simp_all add: cb_tail_def pq)
    have "?A i = ?B j \<longleftrightarrow> p + i = q + j \<and> cb_words a ! i = cb_words b ! j \<and> ?A (Suc i) = ?B (Suc j)"
      (is "?L \<longleftrightarrow> ?R")
    proof
      assume eq: ?L
      have pos: "p + i = q + j"
        using hd below below' eq "1.prems"(1,2) 1 by (metis nat_neq_iff)
      moreover have "cb_words a ! i = cb_words b ! j" using hd eq pos by metis
      moreover have "?A (Suc i) k = ?B (Suc j) k" for k
        using fun_cong[OF eq, of k] hd0 pos by (cases "k = p + i") (simp_all add: stepA stepB pq)
      ultimately show ?R by blast
    next
      assume ?R
      then show ?L by (simp add: stepA stepB pq)
    qed
    moreover have "cbv_eq_loop a b (cbv_nextSetIndex a (i + 1)) (cbv_nextSetIndex b (j + 1)) \<longleftrightarrow>
        ?A (Suc i) = ?B (Suc j)"
      if "p + i = q + j" "cb_words a ! i = cb_words b ! j"
    proof -
      have "cbv_eq_loop a b (cbv_nextSetIndex a (i + 1)) (cbv_nextSetIndex b (j + 1)) \<longleftrightarrow>
        ?A (cbv_nextSetIndex a (i + 1)) = ?B (cbv_nextSetIndex b (j + 1))"
        by (rule "1.IH"[OF conjI[OF 1]])
          (use that pq nextSetIndex_spec[of "i + 1" a] nextSetIndex_spec[of "j + 1" b] in
            \<open>auto\<close>)
      then show ?thesis by (simp add: cb_tail_nextSetIndex)
    qed
    ultimately show ?thesis
      using 1 pq by (subst cbv_eq_loop.simps) auto
  next
    case 2
    then have "?A i (p + i) \<noteq> ?B j (p + i)"
      using "1.prems"(1) by (simp add: cb_tail_step pq cb_tail_end)
    then show ?thesis using 2 by (subst cbv_eq_loop.simps) auto
  next
    case 3
    then have "?A i (q + j) \<noteq> ?B j (q + j)"
      using "1.prems"(2) by (simp add: cb_tail_step pq cb_tail_end)
    then show ?thesis using 3 by (subst cbv_eq_loop.simps) auto
  next
    case 4
    then show ?thesis by (subst cbv_eq_loop.simps) (simp add: cb_tail_end)
  qed
qed

theorem cbv_eq_iff:
  assumes "cb_inv a" "cb_inv b"
  shows "cbv_eq a b \<longleftrightarrow> cb_set a = cb_set b"
proof -
  have "cbv_eq a b \<longleftrightarrow> cb_tail a (cbv_nextSetIndex a 0) = cb_tail b (cbv_nextSetIndex b 0)"
    unfolding cbv_eq_def
    by (rule cbv_eq_loop_iff) (use assms nextSetIndex_spec in \<open>auto simp: cb_inv_def\<close>)
  then show ?thesis by (simp add: cb_tail_nextSetIndex cb_set_def bits_of_inject)
qed

theorem cbv_contains_ok:
  assumes "cb_inv a" "cb_inv b"
  shows "cbv_contains a b = Some (cb_set b \<subseteq> cb_set a)"
proof -
  have "wp (cbv_contains a b) (\<lambda>r. r \<longleftrightarrow> cb_set b \<subseteq> cb_set a)"
    unfolding cbv_contains_def wp_bind
    by (rule wp_mono[OF cbv_and_ok[OF assms]]) (use assms in \<open>auto simp: cbv_eq_iff\<close>)
  then show ?thesis by (auto simp: wp_iff)
qed

lemma intersects_aligned:
  assumes "cb_offset a div 64 \<le> cb_offset b div 64"
  defines "e \<equiv> min (cb_offset b div 64 - cb_offset a div 64) (length (cb_words a))"
  shows "list_ex (\<lambda>(x, y). x AND y \<noteq> 0) (zip (drop e (cb_words a)) (cb_words b)) \<longleftrightarrow>
    cb_set a \<inter> cb_set b \<noteq> {}"
proof -
  let ?p = "cb_offset a div 64" and ?q = "cb_offset b div 64"
  have "cb_set a \<inter> cb_set b \<noteq> {} \<longleftrightarrow> (\<exists>k. cb_word a k AND cb_word b k \<noteq> 0)"
    unfolding cb_set_def by (simp add: bits_of_eq_empty fun_eq_iff flip: bits_of_and)
  also have "\<dots> \<longleftrightarrow> (\<exists>n. e + n < length (cb_words a) \<and> n < length (cb_words b) \<and>
      cb_words a ! (e + n) AND cb_words b ! n \<noteq> 0)" (is "?L \<longleftrightarrow> ?R")
  proof
    assume ?L
    then obtain k where k: "cb_word a k AND cb_word b k \<noteq> 0" by blast
    then have r: "?p \<le> k" "k < ?p + length (cb_words a)" "?q \<le> k" "k < ?q + length (cb_words b)"
      by (auto simp: cb_word_def Let_def split: if_splits)
    then have "e = ?q - ?p" using assms(1) by (simp add: e_def)
    then show ?R
      using r k assms(1) by (intro exI[of _ "k - ?q"]) (auto simp: cb_word_def less_diff_conv2)
  next
    assume ?R
    then obtain n where n: "e + n < length (cb_words a)" "n < length (cb_words b)"
      "cb_words a ! (e + n) AND cb_words b ! n \<noteq> 0" by blast
    then have "e = ?q - ?p" by (auto simp: e_def min_def split: if_splits)
    then show ?L
      using n assms(1) by (intro exI[of _ "?q + n"]) (simp add: cb_word_def Let_def less_diff_conv2)
  qed
  also have "\<dots> \<longleftrightarrow> list_ex (\<lambda>(x, y). x AND y \<noteq> 0) (zip (drop e (cb_words a)) (cb_words b))"
    by (auto simp: list_ex_zip less_diff_conv add.commute[of e])
  finally show ?thesis by simp
qed

theorem cbv_intersects_iff: "cbv_intersects a b \<longleftrightarrow> cb_set a \<inter> cb_set b \<noteq> {}"
proof -
  have mono: "x \<le> y \<Longrightarrow> x div 64 \<le> y div (64::nat)" for x y by (rule div_le_mono)
  consider "cbv_empty a \<and> cbv_empty b" | "\<not> (cbv_empty a \<and> cbv_empty b)" "cb_offset a \<le> cb_offset b"
    | "\<not> (cbv_empty a \<and> cbv_empty b)" "cb_offset b < cb_offset a" by linarith
  then show ?thesis
  proof cases
    case 1
    then show ?thesis by (simp add: cbv_intersects_def cbv_empty_iff)
  next
    case 2
    then show ?thesis
      using intersects_aligned[OF mono[OF 2(2)]]
      by (auto simp: cbv_intersects_def Let_def not_less_iff_gr_or_eq)
  next
    case 3
    have "list_ex (\<lambda>(x, y). x AND y \<noteq> 0)
        (zip (drop (min (cb_offset a div 64 - cb_offset b div 64) (length (cb_words b))) (cb_words b))
          (cb_words a)) \<longleftrightarrow> cb_set a \<inter> cb_set b \<noteq> {}"
      using intersects_aligned[OF mono[OF less_imp_le[OF 3(2)]]] by (simp add: Int_commute)
    then show ?thesis
      using 3 by (auto simp: cbv_intersects_def Let_def)
  qed
qed

text \<open>
  The hash reads the offset and every word, zero words included, so two equal vectors can have
  different hashes: a vector that held a bit once and lost it hashes differently from a fresh one.
\<close>

theorem cbv_hash_not_extensional:
  "let a = cbv_new 0; b = cbv_reset (cbv_set (cbv_new 0) 5) 5 in cbv_eq a b \<and> cbv_hash a \<noteq> cbv_hash b"
proof -
  let ?b = "cbv_reset (cbv_set (cbv_new 0) 5) 5"
  have b: "?b = \<lparr>cb_offset = 0, cb_words = [0]\<rparr>"
    by (simp add: cbv_set_def cbv_reset_def cbv_extendTo_def cbv_new_def bit_mask_def Let_def)
  have "cbv_eq (cbv_new 0) ?b"
    using cbv_eq_iff[of "cbv_new 0" ?b] cbv_set_ok[of "cbv_new 0" 5] cbv_reset_ok[of "cbv_set (cbv_new 0) 5" 5]
    by simp
  then show ?thesis
    unfolding Let_def b by (simp add: cbv_hash_def cbv_new_def)
qed

subsection \<open>Iteration and counting\<close>

text \<open>Positions number the bits of all words from 0; the end is the position after the last.\<close>

definition cb_pos :: "cbv_iter \<Rightarrow> nat" where
  "cb_pos it = ci_word it * 64 + ci_bit it"

definition cb_bit :: "cbv \<Rightarrow> nat \<Rightarrow> bool" where
  "cb_bit c r \<longleftrightarrow> r < length (cb_words c) * 64 \<and> bit (cb_words c ! (r div 64)) (r mod 64)"

lemma cb_bit_iff:
  assumes "64 dvd cb_offset c"
  shows "cb_bit c r \<longleftrightarrow> cb_offset c + r \<in> cb_set c"
  using assms by (auto simp: cb_bit_def cb_set_def mem_bits_of cb_word_def Let_def elim!: dvdE)

lemma cb_set_image:
  assumes "64 dvd cb_offset c"
  shows "cb_set c = (+) (cb_offset c) ` {r. cb_bit c r}"
proof -
  have "cb_offset c \<le> n" if "n \<in> cb_set c" for n
    using that assms by (auto simp: cb_set_def mem_bits_of cb_word_def Let_def elim!: dvdE split: if_splits)
  then show ?thesis
    using cb_bit_iff[OF assms] by (auto simp: image_iff le_iff_add)
qed

text \<open>A valid iterator is at the end or at a set bit.\<close>

definition cb_valid :: "cbv \<Rightarrow> cbv_iter \<Rightarrow> bool" where
  "cb_valid c it \<longleftrightarrow> (cbv_atEnd c it \<and> ci_bit it = 0) \<or>
     (ci_word it < length (cb_words c) \<and> ci_bit it < 64 \<and> cb_bit c (cb_pos it))"

lemma find_bit_spec:
  "i \<le> 64 \<Longrightarrow> i \<le> cbv_find_bit w i \<and> cbv_find_bit w i \<le> 64 \<and>
   (\<forall>m. i \<le> m \<longrightarrow> m < cbv_find_bit w i \<longrightarrow> \<not> bit w m) \<and>
   (cbv_find_bit w i < 64 \<longrightarrow> bit w (cbv_find_bit w i))"
proof (induction w i rule: cbv_find_bit.induct)
  case (1 w i)
  have test: "i < 64 \<Longrightarrow> w AND bit_mask i = 0 \<longleftrightarrow> \<not> bit w i"
    using and_bit_mask_eq_0[of i w] by (simp add: and.commute)
  show ?case
  proof (cases "i < 64 \<and> w AND bit_mask i = 0")
    case True
    then have "\<not> bit w m" if "i \<le> m" "m < cbv_find_bit w (Suc i)" for m
      using 1 that test by (cases "m = i") auto
    then show ?thesis
      using 1 True by (simp add: cbv_find_bit.simps[of w i])
  qed (use "1.prems" test in \<open>auto simp: cbv_find_bit.simps[of w i]\<close>)
qed

lemma word64_drop_bit_eq_0_iff:
  fixes w :: "64 word"
  shows "drop_bit b w = 0 \<longleftrightarrow> (\<forall>m. b \<le> m \<longrightarrow> \<not> bit w m)"
proof
  assume "drop_bit b w = 0"
  then have "\<not> bit (drop_bit b w) n" for n by simp
  then have "\<not> bit w (b + n)" for n by (simp add: bit_drop_bit_eq)
  then show "\<forall>m. b \<le> m \<longrightarrow> \<not> bit w m" by (metis le_iff_add)
qed (simp add: word64_eqI bit_drop_bit_eq)

text \<open>No set bit lies between an iterator and its successor.\<close>

lemma iter_next_spec:
  assumes "ci_word it < length (cb_words c)" "ci_bit it < 64"
  shows "\<exists>it'. cbv_iter_next c it = Some it' \<and> cb_valid c it' \<and> cb_pos it < cb_pos it' \<and>
    (\<forall>r. cb_pos it < r \<longrightarrow> r < cb_pos it' \<longrightarrow> \<not> cb_bit c r)"
proof -
  let ?n = "length (cb_words c)" and ?w = "ci_word it" and ?b = "ci_bit it + 1"
  have none: "\<not> cb_bit c r" if "r div 64 = k" "\<not> bit (cb_words c ! k) (r mod 64)" for r k
    using that by (simp add: cb_bit_def)
  show ?thesis
  proof (cases "?b = 64 \<or> drop_bit ?b (cb_words c ! ?w) = 0")
    case True
    have this_word: "\<not> bit (cb_words c ! ?w) m" if "ci_bit it < m" "m < 64" for m
      using True that by (auto simp: word64_drop_bit_eq_0_iff)
    let ?k = "cbv_nextSetIndex c (?w + 1)"
    have k: "?w + 1 \<le> ?k" "?k \<le> ?n" "\<And>m. ?w < m \<Longrightarrow> m < ?k \<Longrightarrow> cb_words c ! m = 0"
      "?k < ?n \<Longrightarrow> cb_words c ! ?k \<noteq> 0"
      using nextSetIndex_spec[of "?w + 1" c] assms(1) by auto
    have gap: "\<not> cb_bit c r" if "cb_pos it < r" "r div 64 < ?k" for r
    proof (cases "r div 64 = ?w")
      case True
      then have "r = ?w * 64 + r mod 64" by (metis div_mult_mod_eq)
      then have "ci_bit it < r mod 64" using that(1) by (simp add: cb_pos_def)
      then show ?thesis using none[OF True] this_word[of "r mod 64"] by simp
    next
      case False
      have "?w * 64 < r" using that(1) by (simp add: cb_pos_def)
      then have "?w < r div 64" using False by (metis div_le_mono nonzero_mult_div_cancel_right le_neq_implies_less less_imp_le zero_neq_numeral)
      then show ?thesis using k(3) that(2) none[OF refl, of r] by simp
    qed
    show ?thesis
    proof (cases "?k < ?n")
      case True
      let ?j = "cbv_find_bit (cb_words c ! ?k) 0"
      have j: "?j \<le> 64" "\<And>m. m < ?j \<Longrightarrow> \<not> bit (cb_words c ! ?k) m" "?j < 64 \<Longrightarrow> bit (cb_words c ! ?k) ?j"
        using find_bit_spec[of 0 "cb_words c ! ?k"] by auto
      have "?j < 64"
      proof (rule ccontr)
        assume "\<not> ?j < 64"
        then have "cb_words c ! ?k = 0" using j(2) by (intro word64_eqI) auto
        then show False using k(4) True by simp
      qed
      let ?it = "\<lparr>ci_word = ?k, ci_bit = ?j\<rparr>"
      have "cbv_iter_next c it = Some ?it"
        using \<open>?b = 64 \<or> _\<close> True assms k(2) by (simp add: cbv_iter_next_def cbv_atEnd_def)
      moreover have "cb_valid c ?it"
        using True \<open>?j < 64\<close> j(3) by (simp add: cb_valid_def cb_bit_def cb_pos_def)
      moreover have "cb_pos it < cb_pos ?it"
        using k(1) assms(2) by (simp add: cb_pos_def)
      moreover have "\<not> cb_bit c r" if "cb_pos it < r" "r < cb_pos ?it" for r
      proof (cases "r div 64 < ?k")
        case False
        have "r < ?k * 64 + ?j" using that(2) by (simp add: cb_pos_def)
        then have "r div 64 = ?k" using False \<open>?j < 64\<close> by simp
        moreover have "r = r div 64 * 64 + r mod 64" by simp
        ultimately have "r div 64 = ?k" "r mod 64 < ?j" using \<open>r < ?k * 64 + ?j\<close> by (simp, linarith)
        then show ?thesis using none j(2) by blast
      qed (use gap that in blast)
      ultimately show ?thesis by blast
    next
      case False
      then have kn: "?k = ?n" using k(2) by simp
      let ?it = "\<lparr>ci_word = ?n, ci_bit = 0\<rparr>"
      have "cbv_iter_next c it = Some ?it"
        using True assms kn by (simp add: cbv_iter_next_def cbv_atEnd_def)
      moreover have "cb_valid c ?it" by (simp add: cb_valid_def cbv_atEnd_def)
      moreover have "cb_pos it < cb_pos ?it"
        using assms by (simp add: cb_pos_def)
      moreover have "\<not> cb_bit c r" if "cb_pos it < r" "r < cb_pos ?it" for r
        using gap[OF that(1)] that(2) kn by (simp add: cb_pos_def less_mult_imp_div_less)
      ultimately show ?thesis by blast
    qed
  next
    case False
    let ?j = "cbv_find_bit (cb_words c ! ?w) ?b"
    have j: "?b \<le> ?j" "?j \<le> 64" "\<And>m. ?b \<le> m \<Longrightarrow> m < ?j \<Longrightarrow> \<not> bit (cb_words c ! ?w) m"
      "?j < 64 \<Longrightarrow> bit (cb_words c ! ?w) ?j"
      using find_bit_spec[of ?b "cb_words c ! ?w"] assms(2) by auto
    obtain m where "?b \<le> m" "bit (cb_words c ! ?w) m"
      using False by (auto simp: word64_drop_bit_eq_0_iff)
    moreover have "m < 64" using bit_imp_le_length[OF \<open>bit (cb_words c ! ?w) m\<close>] by simp
    ultimately have "?j < 64" using j(2,3) by (metis le_neq_implies_less)
    let ?it = "\<lparr>ci_word = ?w, ci_bit = ?j\<rparr>"
    have "cbv_iter_next c it = Some ?it"
      using False assms by (simp add: cbv_iter_next_def cbv_atEnd_def)
    moreover have "cb_valid c ?it"
      using assms(1) \<open>?j < 64\<close> j(4) by (simp add: cb_valid_def cb_bit_def cb_pos_def)
    moreover have "cb_pos it < cb_pos ?it"
      using j(1) by (simp add: cb_pos_def)
    moreover have "\<not> cb_bit c r" if "cb_pos it < r" "r < cb_pos ?it" for r
    proof -
      have "r div 64 = ?w" "ci_bit it < r mod 64" "r mod 64 < ?j"
        using that \<open>?j < 64\<close> div_mod_block[of ?w 64 "ci_bit it" r ?j] by (simp_all add: cb_pos_def)
      then show ?thesis using none j(3)[of "r mod 64"] by simp
    qed
    ultimately show ?thesis by blast
  qed
qed

lemma filter_upt_skip:
  assumes "i \<le> j" "\<And>r. i \<le> r \<Longrightarrow> r < j \<Longrightarrow> \<not> P r" "j \<le> n"
  shows "filter P [i..<n] = filter P [j..<n]"
proof -
  have "[i..<n] = [i..<j] @ [j..<n]" using assms(1,3) by (metis le_iff_add upt_add_eq_append)
  then show ?thesis using assms(2) by (simp add: filter_empty_conv)
qed

lemma cb_pos_le: "cb_valid c it \<Longrightarrow> cb_pos it \<le> length (cb_words c) * 64"
  by (auto simp: cb_valid_def cb_pos_def cbv_atEnd_def cb_bit_def)

lemma elems_from_eq:
  assumes "cb_inv c" "cb_valid c it"
  shows "cbv_elems_from c it =
    Some (map ((+) (cb_offset c)) (filter (cb_bit c) [cb_pos it ..< length (cb_words c) * 64]))"
  using assms(2)
proof (induction "length (cb_words c) * 64 - cb_pos it" arbitrary: it rule: less_induct)
  case less
  let ?n = "length (cb_words c) * 64"
  show ?case
  proof (cases "cbv_atEnd c it")
    case True
    then show ?thesis
      by (subst cbv_elems_from.simps) (simp add: cbv_iter_eq_def cbv_end_def cbv_atEnd_def cb_pos_def)
  next
    case False
    then have it: "ci_word it < length (cb_words c)" "ci_bit it < 64" "cb_bit c (cb_pos it)"
      using less.prems by (auto simp: cb_valid_def)
    then obtain it' where it': "cbv_iter_next c it = Some it'" "cb_valid c it'" "cb_pos it < cb_pos it'"
      "\<forall>r. cb_pos it < r \<longrightarrow> r < cb_pos it' \<longrightarrow> \<not> cb_bit c r"
      using iter_next_spec by blast
    have pn: "cb_pos it < ?n" using it(1,2) by (simp add: cb_pos_def)
    have "cbv_elems_from c it' = Some (map ((+) (cb_offset c)) (filter (cb_bit c) [cb_pos it' ..< ?n]))"
      using less.hyps[of it'] it'(2,3) pn by simp
    moreover have "filter (cb_bit c) [Suc (cb_pos it) ..< ?n] = filter (cb_bit c) [cb_pos it' ..< ?n]"
      by (rule filter_upt_skip) (use it' cb_pos_le[OF it'(2)] in auto)
    moreover have "cbv_iter_deref c it = Some (cb_offset c + cb_pos it)"
      using False pn assms(1) by (simp add: cbv_iter_deref_def cb_inv_def cb_pos_def)
    ultimately show ?thesis
      using False it(1,3) it'(1) pn
      by (subst cbv_elems_from.simps) (simp add: cbv_iter_eq_def cbv_end_def upt_conv_Cons)
  qed
qed

text \<open>A range \<^verbatim>\<open>for\<close> over a vector visits the set bits, each once, in increasing order.\<close>

theorem cbv_elems_ok:
  assumes "cb_inv c"
  shows "\<exists>xs. cbv_elems c = Some xs \<and> set xs = cb_set c \<and> sorted xs \<and> distinct xs"
proof -
  let ?n = "length (cb_words c) * 64"
  let ?xs = "map ((+) (cb_offset c)) (filter (cb_bit c) [0 ..< ?n])"
  have d: "64 dvd cb_offset c" using assms by (simp add: cb_inv_def)
  have "cbv_elems c = Some ?xs"
  proof (cases "cb_words c = []")
    case True
    then show ?thesis
      using elems_from_eq[OF assms, of "\<lparr>ci_word = 0, ci_bit = 0\<rparr>"]
      by (simp add: cbv_elems_def cbv_begin_def cbv_atEnd_def cb_valid_def cb_pos_def)
  next
    case False
    then have n: "0 < length (cb_words c)" by simp
    have bit0: "cb_words c ! 0 AND 1 = 0 \<longleftrightarrow> \<not> cb_bit c 0"
      using n by (simp add: cb_bit_def and_one_eq flip: even_iff_mod_2_eq_zero)
        (simp add: even_iff_mod_2_eq_zero[symmetric] bit_0)
    show ?thesis
    proof (cases "cb_bit c 0")
      case True
      then show ?thesis
        using n bit0 elems_from_eq[OF assms, of "\<lparr>ci_word = 0, ci_bit = 0\<rparr>"]
        by (simp add: cbv_elems_def cbv_begin_def cbv_atEnd_def cb_valid_def cb_pos_def)
    next
      case False
      obtain it' where it': "cbv_iter_next c \<lparr>ci_word = 0, ci_bit = 0\<rparr> = Some it'" "cb_valid c it'"
        "\<forall>r. 0 < r \<longrightarrow> r < cb_pos it' \<longrightarrow> \<not> cb_bit c r"
        using iter_next_spec[of "\<lparr>ci_word = 0, ci_bit = 0\<rparr>" c] n by (auto simp: cb_pos_def)
      have "filter (cb_bit c) [0 ..< ?n] = filter (cb_bit c) [cb_pos it' ..< ?n]"
        by (rule filter_upt_skip) (use it'(3) False cb_pos_le[OF it'(2)] in \<open>auto, metis gr0I\<close>)
      then show ?thesis
        using n False bit0 it'(1) elems_from_eq[OF assms it'(2)]
        by (simp add: cbv_elems_def cbv_begin_def cbv_atEnd_def)
    qed
  qed
  moreover have "set ?xs = cb_set c"
    using cb_set_image[OF d] by (auto simp: cb_bit_def)
  moreover have "sorted ?xs" by (simp add: sorted_map sorted_wrt_mono_rel[OF _ sorted_wrt_filter[OF sorted_upt]])
  ultimately show ?thesis by (auto simp: distinct_map)
qed

lemma bits_below:
  "{r. r < length ws * 64 \<and> bit (ws ! (r div 64)) (r mod 64)} =
   (\<Union>k < length ws. (\<lambda>i. k * 64 + i) ` set (filter (bit (ws ! k)) [0..<64]))" (is "?L = ?R")
proof (intro set_eqI iffI)
  fix r assume "r \<in> ?L"
  then have "r = r div 64 * 64 + r mod 64" "r div 64 < length ws" "bit (ws ! (r div 64)) (r mod 64)"
    by (auto simp: less_mult_imp_div_less)
  then show "r \<in> ?R" by (intro UN_I[of "r div 64"]) (auto intro!: image_eqI[of _ _ "r mod 64"])
qed auto

lemma fold_count:
  "fold (\<lambda>w n. (n + countPopulation w) mod 2 ^ 32) ws n mod 2 ^ 32 =
   (n + (\<Sum>w \<leftarrow> ws. countPopulation w)) mod 2 ^ 32"
  by (induction ws arbitrary: n) (simp_all add: mod_add_left_eq add.assoc del: power_numeral)

lemma card_bits: "card {r. r < length ws * 64 \<and> bit (ws ! (r div 64)) (r mod 64)} = (\<Sum>w \<leftarrow> ws. countPopulation w)"
proof -
  have "card ((\<lambda>i. k * 64 + i) ` set (filter (bit (ws ! k)) [0..<64])) = countPopulation (ws ! k)" for k
    by (subst card_image) (simp add: inj_on_def, simp only: countPopulation_def distinct_card distinct_filter distinct_upt)
  moreover have "(\<lambda>i. k * 64 + i) ` set (filter (bit (ws ! k)) [0..<64]) \<inter>
      (\<lambda>i. l * 64 + i) ` set (filter (bit (ws ! l)) [0..<64]) = {}" if "k \<noteq> l" for k l
  proof -
    have "k = l" if "k * 64 + i = l * 64 + j" "i < 64" "j < 64" for i j :: nat
      using that div_mod_block[of k 64 0 "k * 64 + i" 64] by (metis add.commute div_less div_mult_self3 add_0_right zero_neq_numeral)
    then show ?thesis using that by auto
  qed
  ultimately show ?thesis
    unfolding bits_below by (subst card_UN_disjoint) (auto simp: sum_list_sum_nth atLeast0LessThan)
qed

text \<open>\<^verbatim>\<open>count\<close> is the number of elements, in \<^verbatim>\<open>u32_t\<close>.\<close>

theorem cbv_count_ok:
  assumes "cb_inv c"
  shows "cbv_count c = card (cb_set c) mod 2 ^ 32"
proof -
  have "card (cb_set c) = card {r. cb_bit c r}"
    using assms by (subst cb_set_image) (auto simp: cb_inv_def card_image)
  also have "\<dots> = (\<Sum>w \<leftarrow> cb_words c. countPopulation w)"
    unfolding cb_bit_def by (rule card_bits)
  finally have "cbv_count c mod 2 ^ 32 = card (cb_set c) mod 2 ^ 32"
    unfolding cbv_count_def fold_count by simp
  moreover have "cbv_count c < 2 ^ 32"
  proof -
    have "fold (\<lambda>w n. (n + countPopulation w) mod 2 ^ 32) ws n < 2 ^ 32" if "n < 2 ^ 32" for ws n
      using that by (induction ws arbitrary: n) auto
    then show ?thesis by (simp add: cbv_count_def)
  qed
  ultimately show ?thesis by simp
qed

subsection \<open>\<^verbatim>\<open>BitVector\<close>: the offset stays 0\<close>

definition bv_inv :: "cbv \<Rightarrow> bool" where
  "bv_inv c \<longleftrightarrow> cb_inv c \<and> cb_offset c = 0"

lemma cbv_set_offset: "cb_offset c = 0 \<Longrightarrow> cb_words c \<noteq> [] \<Longrightarrow> cb_offset (cbv_set c b) = 0 \<and> cb_words (cbv_set c b) \<noteq> []"
  by (auto simp: cbv_set_def cbv_extendTo_def cbv_extendForward_def Let_def)

lemma cbv_reset_offset [simp]:
  "cb_offset (cbv_reset c b) = cb_offset c" "length (cb_words (cbv_reset c b)) = length (cb_words c)"
  by (simp_all add: cbv_reset_def Let_def)

theorem bv_new_ok:
  assumes "n \<le> 2 ^ 26"
  shows "bv_inv (bv_new n) \<and> cb_words (bv_new n) \<noteq> [] \<and> cb_set (bv_new n) = {}"
proof -
  have inv: "cb_inv (cbv_set (cbv_new n) 0)" "cb_set (cbv_set (cbv_new n) 0) = {0}"
    using cbv_set_ok[of "cbv_new n" 0] assms by simp_all
  have "cb_offset (cbv_set (cbv_new n) 0) = 0 \<and> cb_words (cbv_set (cbv_new n) 0) \<noteq> []"
    by (cases n) (auto simp: cbv_set_def cbv_extendTo_def cbv_new_def Let_def)
  then show ?thesis
    using cbv_reset_ok[OF inv(1), of 0] inv(2)
    by (auto simp: bv_inv_def bv_new_def simp flip: length_greater_0_conv)
qed

lemma cbv_or_offset:
  assumes "bv_inv a" "cb_words a \<noteq> []" "bv_inv b" "cbv_or a b = Some (ch, c)"
  shows "bv_inv c \<and> cb_words c \<noteq> []"
proof -
  have "cb_inv c"
    using cbv_or_ok[of a b] assms by (simp add: bv_inv_def)
  have off: "cb_offset (cbv_extendForward a x) = 0" "cb_words (cbv_extendForward a x) \<noteq> []" for x
    using assms(1,2) by (auto simp: bv_inv_def cbv_extendForward_def Let_def)
  have len: "length zs = length xs" if "or_words xs ys w = Some (ch', zs)" for xs ys w ch' zs
    using that by (induction xs ys w arbitrary: zs rule: or_words.induct) (auto split: Option.bind_splits)
  show ?thesis
    using assms \<open>cb_inv c\<close> off
    by (auto simp: cbv_or_def bv_inv_def Let_def split: if_splits Option.bind_splits dest!: len)
qed

text \<open>
  \<^verbatim>\<open>clear\<close> is inherited and drops the word for bit 0, so the next \<^verbatim>\<open>set\<close> moves the offset away
  from 0: what the class comment says of its offset holds only up to the first \<^verbatim>\<open>clear\<close>.
\<close>

theorem bv_clear_moves_offset:
  "bv_inv (bv_new 0) \<and> cb_offset (cbv_set (cbv_clear (bv_new 0)) 100) = 64"
  using bv_new_ok[of 0] by (simp add: cbv_set_def cbv_clear_def cbv_extendTo_def Let_def)

end
