(* ===== verification/Sparse_Bit_Vector.thy ===== *)
theory Sparse_Bit_Vector
  imports SVF_Prelude
begin

text \<open>
  \<^verbatim>\<open>SparseBitVector<128>\<close> (\<^verbatim>\<open>svf/include/Util/SparseBitVector.h\<close>), the default points-to
  representation and the type \<^verbatim>\<open>NodeBS\<close>: a list of elements of 128 bits sorted by their index,
  none of them zero, with a cached position. \<open>sb_set\<close> is the set it stands for, \<open>sb_inv\<close> its
  invariant. Because no element is zero the representation of a set is unique
  (\<open>sb_set_inject\<close>), which is what the hash-consing of the persistent points-to sets relies on.

  A list iterator is the position of its element, \<^verbatim>\<open>end()\<close> the length of the list. \<^verbatim>\<open>unsigned\<close>
  numbers are \<open>nat\<close>, reduced \<open>mod 2 ^ 32\<close> where the code stores a sum back.
\<close>

unbundle bit_operations_syntax

subsection \<open>Counting bits of a word\<close>

text \<open>The compiler builtins behind \<^verbatim>\<open>countTrailingZeros\<close> and \<^verbatim>\<open>countLeadingZeros\<close>.\<close>

definition countTrailingZeros :: "64 word \<Rightarrow> nat" where
  "countTrailingZeros w = length (takeWhile (\<lambda>i. \<not> bit w i) [0..<64])"

definition countLeadingZeros :: "64 word \<Rightarrow> nat" where
  "countLeadingZeros w = length (takeWhile (\<lambda>i. \<not> bit w i) (rev [0..<64]))"

subsection \<open>\<^verbatim>\<open>SparseBitVectorElement\<close>\<close>

record sbv_elem =
  el_index :: nat
  el_bits :: "64 word list"

definition el_new :: "nat \<Rightarrow> sbv_elem" where
  "el_new idx = \<lparr>el_index = idx, el_bits = [0, 0]\<rparr>"

definition el_eq :: "sbv_elem \<Rightarrow> sbv_elem \<Rightarrow> bool" where
  "el_eq e f =
    (if el_index e \<noteq> el_index f then False
     else list_all (\<lambda>i. el_bits e ! i = el_bits f ! i) [0..<2])"

definition el_empty :: "sbv_elem \<Rightarrow> bool" where
  "el_empty e = list_all (\<lambda>i. el_bits e ! i = 0) [0..<2]"

definition el_set :: "sbv_elem \<Rightarrow> nat \<Rightarrow> sbv_elem" where
  "el_set e i = e\<lparr>el_bits := (el_bits e)[i div 64 := el_bits e ! (i div 64) OR bit_mask (i mod 64)]\<rparr>"

definition el_test :: "sbv_elem \<Rightarrow> nat \<Rightarrow> bool" where
  "el_test e i \<longleftrightarrow> bit_mask (i mod 64) AND el_bits e ! (i div 64) \<noteq> 0"

definition el_reset :: "sbv_elem \<Rightarrow> nat \<Rightarrow> sbv_elem" where
  "el_reset e i = e\<lparr>el_bits := (el_bits e)[i div 64 := el_bits e ! (i div 64) AND NOT (bit_mask (i mod 64))]\<rparr>"

definition el_count :: "sbv_elem \<Rightarrow> nat" where
  "el_count e = fold (\<lambda>i n. n + countPopulation (el_bits e ! i)) [0..<2] 0"

definition el_find_first :: "sbv_elem \<Rightarrow> nat option" where
  "el_find_first e = (case filter (\<lambda>i. el_bits e ! i \<noteq> 0) [0..<2] of
      [] \<Rightarrow> None
    | i # _ \<Rightarrow> Some (i * 64 + countTrailingZeros (el_bits e ! i)))"

definition el_find_last :: "sbv_elem \<Rightarrow> nat option" where
  "el_find_last e = (case filter (\<lambda>i. el_bits e ! i \<noteq> 0) (rev [0..<2]) of
      [] \<Rightarrow> None
    | i # _ \<Rightarrow> Some (i * 64 + 64 - countLeadingZeros (el_bits e ! i) - 1))"

text \<open>\<^verbatim>\<open>find_next\<close> returns \<^verbatim>\<open>-1\<close> (here \<open>None\<close>) when no bit at or after \<open>cur\<close> is set.\<close>

definition el_find_next :: "sbv_elem \<Rightarrow> nat \<Rightarrow> nat option" where
  "el_find_next e cur =
    (if cur \<ge> 128 then None
     else let wordPos = cur div 64; bitPos = cur mod 64;
              copy = el_bits e ! wordPos AND push_bit bitPos (NOT 0)
          in if copy \<noteq> 0 then Some (wordPos * 64 + countTrailingZeros copy)
             else (case filter (\<lambda>i. el_bits e ! i \<noteq> 0) [wordPos + 1..<2] of
                     [] \<Rightarrow> None
                   | i # _ \<Rightarrow> Some (i * 64 + countTrailingZeros (el_bits e ! i))))"

text \<open>The bulk loops over the words of two elements; \<open>changed\<close> is the loop's flag.\<close>

fun union_words :: "64 word list \<Rightarrow> 64 word list \<Rightarrow> bool \<Rightarrow> bool \<times> 64 word list" where
  "union_words (x # xs) (y # ys) changed =
    (let old = (if changed then 0 else x); x' = x OR y;
         (ch, zs) = union_words xs ys (if \<not> changed \<and> old \<noteq> x' then True else changed)
     in (ch, x' # zs))"
| "union_words xs ys changed = (changed, xs)"

definition el_unionWith :: "sbv_elem \<Rightarrow> sbv_elem \<Rightarrow> bool \<times> sbv_elem" where
  "el_unionWith e f = (case union_words (el_bits e) (el_bits f) False of
     (ch, zs) \<Rightarrow> (ch, e\<lparr>el_bits := zs\<rparr>))"

definition el_intersects :: "sbv_elem \<Rightarrow> sbv_elem \<Rightarrow> bool" where
  "el_intersects e f = list_ex (\<lambda>i. el_bits f ! i AND el_bits e ! i \<noteq> 0) [0..<2]"

text \<open>The loop of the two intersections; \<open>op\<close> combines the words, the second flag is \<^verbatim>\<open>allzero\<close>.\<close>

fun meet_words :: "(64 word \<Rightarrow> 64 word \<Rightarrow> 64 word) \<Rightarrow> 64 word list \<Rightarrow> 64 word list \<Rightarrow> bool \<Rightarrow> bool \<Rightarrow>
    bool \<times> bool \<times> 64 word list" where
  "meet_words op (x # xs) (y # ys) changed allzero =
    (let old = (if changed then 0 else x); x' = op x y;
         (ch, az, zs) = meet_words op xs ys (if \<not> changed \<and> old \<noteq> x' then True else changed)
                          (if x' \<noteq> 0 then False else allzero)
     in (ch, az, x' # zs))"
| "meet_words op xs ys changed allzero = (changed, allzero, xs)"

text \<open>Result: changed, became zero, the new element.\<close>

definition el_intersectWith :: "sbv_elem \<Rightarrow> sbv_elem \<Rightarrow> bool \<times> bool \<times> sbv_elem" where
  "el_intersectWith e f = (case meet_words (AND) (el_bits e) (el_bits f) False True of
     (ch, az, zs) \<Rightarrow> (ch, az, e\<lparr>el_bits := zs\<rparr>))"

definition el_intersectWithComplement :: "sbv_elem \<Rightarrow> sbv_elem \<Rightarrow> bool \<times> bool \<times> sbv_elem" where
  "el_intersectWithComplement e f =
    (case meet_words (\<lambda>x y. x AND NOT y) (el_bits e) (el_bits f) False True of
     (ch, az, zs) \<Rightarrow> (ch, az, e\<lparr>el_bits := zs\<rparr>))"

text \<open>The three-operand form writes \<open>f & ~g\<close> into \<open>e\<close> and reports only whether it is zero.\<close>

definition el_intersectWithComplement3 :: "sbv_elem \<Rightarrow> sbv_elem \<Rightarrow> sbv_elem \<Rightarrow> bool \<times> sbv_elem" where
  "el_intersectWithComplement3 e f g =
    (let zs = map (\<lambda>i. el_bits f ! i AND NOT (el_bits g ! i)) [0..<2]
     in (list_all (\<lambda>z. z = 0) zs, e\<lparr>el_bits := zs\<rparr>))"

subsection \<open>\<^verbatim>\<open>SparseBitVector\<close>: state and search\<close>

record sbv =
  sb_elems :: "sbv_elem list"
  sb_curr :: nat

definition sbv_new :: sbv where
  "sbv_new = \<lparr>sb_elems = [], sb_curr = 0\<rparr>"

definition sbv_clear :: "sbv \<Rightarrow> sbv" where
  "sbv_clear s = s\<lparr>sb_elems := []\<rparr>"

fun search_back :: "sbv_elem list \<Rightarrow> nat \<Rightarrow> nat \<Rightarrow> nat" where
  "search_back es idx 0 = 0"
| "search_back es idx (Suc i) = (if el_index (es ! Suc i) > idx then search_back es idx i else Suc i)"

function search_forward :: "sbv_elem list \<Rightarrow> nat \<Rightarrow> nat \<Rightarrow> nat" where
  "search_forward es idx i =
    (if i < length es \<and> el_index (es ! i) < idx then search_forward es idx (Suc i) else i)"
  by pat_completeness auto
termination
  by (relation "measure (\<lambda>(es, idx, i). length es - i)") auto

declare search_forward.simps [simp del]

text \<open>\<^verbatim>\<open>FindLowerBoundImpl\<close> returns a position and updates the cached one.\<close>

definition sbv_FindLowerBound :: "sbv \<Rightarrow> nat \<Rightarrow> nat \<times> sbv" where
  "sbv_FindLowerBound s idx =
    (if sb_elems s = [] then (0, s\<lparr>sb_curr := 0\<rparr>)
     else let cur = (if sb_curr s = length (sb_elems s) then sb_curr s - 1 else sb_curr s)
          in if el_index (sb_elems s ! cur) = idx then (cur, s\<lparr>sb_curr := cur\<rparr>)
             else let i = (if el_index (sb_elems s ! cur) > idx then search_back (sb_elems s) idx cur
                           else search_forward (sb_elems s) idx cur)
                  in (i, s\<lparr>sb_curr := i\<rparr>))"

subsection \<open>Single bits\<close>

definition sbv_test :: "sbv \<Rightarrow> nat \<Rightarrow> bool \<times> sbv" where
  "sbv_test s idx =
    (if sb_elems s = [] then (False, s)
     else case sbv_FindLowerBound s (idx div 128) of (i, s') \<Rightarrow>
       if i = length (sb_elems s) \<or> el_index (sb_elems s ! i) \<noteq> idx div 128 then (False, s')
       else (el_test (sb_elems s ! i) (idx mod 128), s'))"

definition sbv_reset :: "sbv \<Rightarrow> nat \<Rightarrow> sbv" where
  "sbv_reset s idx =
    (if sb_elems s = [] then s
     else case sbv_FindLowerBound s (idx div 128) of (i, s') \<Rightarrow>
       if i = length (sb_elems s) \<or> el_index (sb_elems s ! i) \<noteq> idx div 128 then s'
       else let e = el_reset (sb_elems s ! i) (idx mod 128)
            in if el_empty e
               then s'\<lparr>sb_elems := take i (sb_elems s) @ drop (Suc i) (sb_elems s), sb_curr := i\<rparr>
               else s'\<lparr>sb_elems := (sb_elems s)[i := e]\<rparr>)"

definition sbv_set :: "sbv \<Rightarrow> nat \<Rightarrow> sbv" where
  "sbv_set s idx =
    (let ei = idx div 128;
         (i, es) =
           (if sb_elems s = [] then (0, [el_new ei])
            else case sbv_FindLowerBound s ei of (i, s') \<Rightarrow>
              if i = length (sb_elems s) \<or> el_index (sb_elems s ! i) \<noteq> ei
              then let i' = (if i \<noteq> length (sb_elems s) \<and> el_index (sb_elems s ! i) < ei then i + 1 else i)
                   in (i', take i' (sb_elems s) @ el_new ei # drop i' (sb_elems s))
              else (i, sb_elems s))
     in s\<lparr>sb_elems := es[i := el_set (es ! i) (idx mod 128)], sb_curr := i\<rparr>)"

definition sbv_test_and_set :: "sbv \<Rightarrow> nat \<Rightarrow> bool \<times> sbv" where
  "sbv_test_and_set s idx =
    (case sbv_test s idx of (old, s') \<Rightarrow> if \<not> old then (True, sbv_set s' idx) else (False, s'))"

subsection \<open>Comparison\<close>

fun eq_elems :: "sbv_elem list \<Rightarrow> sbv_elem list \<Rightarrow> bool" where
  "eq_elems (e # es) (f # fs) = (if \<not> el_eq e f then False else eq_elems es fs)"
| "eq_elems es fs = (es = [] \<and> fs = [])"

definition sbv_eq :: "sbv \<Rightarrow> sbv \<Rightarrow> bool" where
  "sbv_eq s t = eq_elems (sb_elems s) (sb_elems t)"

fun intersects_elems :: "sbv_elem list \<Rightarrow> sbv_elem list \<Rightarrow> bool" where
  "intersects_elems es [] = False"
| "intersects_elems [] (f # fs) = False"
| "intersects_elems (e # es) (f # fs) =
    (if el_index e > el_index f then intersects_elems (e # es) fs
     else if el_index e = el_index f then
       (if el_intersects e f then True else intersects_elems es fs)
     else intersects_elems es (f # fs))"

definition sbv_intersects :: "sbv \<Rightarrow> sbv \<Rightarrow> bool" where
  "sbv_intersects s t =
    (if sb_elems s = [] \<and> sb_elems t = [] then False else intersects_elems (sb_elems s) (sb_elems t))"

subsection \<open>Bulk operations\<close>

fun or_elems :: "sbv_elem list \<Rightarrow> sbv_elem list \<Rightarrow> bool \<times> sbv_elem list" where
  "or_elems es [] = (False, es)"
| "or_elems [] (f # fs) = (case or_elems [] fs of (ch, rs) \<Rightarrow> (True, f # rs))"
| "or_elems (e # es) (f # fs) =
    (if el_index e > el_index f
     then (case or_elems (e # es) fs of (ch, rs) \<Rightarrow> (True, f # rs))
     else if el_index e = el_index f
     then (case el_unionWith e f of (ch, e') \<Rightarrow> case or_elems es fs of (ch', rs) \<Rightarrow> (ch \<or> ch', e' # rs))
     else (case or_elems es (f # fs) of (ch, rs) \<Rightarrow> (ch, e # rs)))"

definition sbv_or :: "sbv \<Rightarrow> sbv \<Rightarrow> bool \<times> sbv" where
  "sbv_or s t =
    (if sb_elems t = [] then (False, s)
     else case or_elems (sb_elems s) (sb_elems t) of
       (ch, es) \<Rightarrow> (ch, s\<lparr>sb_elems := es, sb_curr := 0\<rparr>))"

text \<open>Elements of \<^verbatim>\<open>this\<close> without a partner are erased, here and after the loop.\<close>

fun and_elems :: "sbv_elem list \<Rightarrow> sbv_elem list \<Rightarrow> bool \<times> sbv_elem list" where
  "and_elems es [] = (es \<noteq> [], [])"
| "and_elems [] (f # fs) = (False, [])"
| "and_elems (e # es) (f # fs) =
    (if el_index e > el_index f then and_elems (e # es) fs
     else if el_index e = el_index f
     then (case el_intersectWith e f of (ch, zero, e') \<Rightarrow>
           case and_elems es fs of (ch', rs) \<Rightarrow> (ch \<or> ch', if zero then rs else e' # rs))
     else (case and_elems es (f # fs) of (ch, rs) \<Rightarrow> (True, rs)))"

definition sbv_and :: "sbv \<Rightarrow> sbv \<Rightarrow> bool \<times> sbv" where
  "sbv_and s t =
    (if sb_elems s = [] \<and> sb_elems t = [] then (False, s)
     else case and_elems (sb_elems s) (sb_elems t) of
       (ch, es) \<Rightarrow> (ch, s\<lparr>sb_elems := es, sb_curr := 0\<rparr>))"

fun diff_elems :: "sbv_elem list \<Rightarrow> sbv_elem list \<Rightarrow> bool \<times> sbv_elem list" where
  "diff_elems es [] = (False, es)"
| "diff_elems [] (f # fs) = (False, [])"
| "diff_elems (e # es) (f # fs) =
    (if el_index e > el_index f then diff_elems (e # es) fs
     else if el_index e = el_index f
     then (case el_intersectWithComplement e f of (ch, zero, e') \<Rightarrow>
           case diff_elems es fs of (ch', rs) \<Rightarrow> (ch \<or> ch', if zero then rs else e' # rs))
     else (case diff_elems es (f # fs) of (ch, rs) \<Rightarrow> (ch, e # rs)))"

definition sbv_intersectWithComplement :: "sbv \<Rightarrow> sbv \<Rightarrow> bool \<times> sbv" where
  "sbv_intersectWithComplement s t =
    (if sb_elems s = [] \<or> sb_elems t = [] then (False, s)
     else case diff_elems (sb_elems s) (sb_elems t) of
       (ch, es) \<Rightarrow> (ch, s\<lparr>sb_elems := es, sb_curr := 0\<rparr>))"

fun diff3_elems :: "sbv_elem list \<Rightarrow> sbv_elem list \<Rightarrow> sbv_elem list" where
  "diff3_elems es [] = es"
| "diff3_elems [] (f # fs) = []"
| "diff3_elems (e # es) (f # fs) =
    (if el_index e > el_index f then diff3_elems (e # es) fs
     else if el_index e = el_index f
     then (case el_intersectWithComplement3 (el_new (el_index e)) e f of (zero, e') \<Rightarrow>
           if zero then diff3_elems es fs else e' # diff3_elems es fs)
     else e # diff3_elems es (f # fs))"

text \<open>
  The three-operand form overwrites \<^verbatim>\<open>this\<close>. The cached position is the end of the list, where
  \<^verbatim>\<open>begin()\<close> of the emptied list was.
\<close>

definition sbv_intersectWithComplement3 :: "sbv \<Rightarrow> sbv \<Rightarrow> sbv" where
  "sbv_intersectWithComplement3 s t =
    (let es = diff3_elems (sb_elems s) (sb_elems t) in \<lparr>sb_elems = es, sb_curr = length es\<rparr>)"

definition sbv_contains :: "sbv \<Rightarrow> sbv \<Rightarrow> bool" where
  "sbv_contains s t = (case sbv_and s t of (ch, r) \<Rightarrow> sbv_eq r t)"

text \<open>The binary operators work on a copy, whose cached position is the beginning.\<close>

definition sbv_union :: "sbv \<Rightarrow> sbv \<Rightarrow> sbv" where
  "sbv_union s t = snd (sbv_or (s\<lparr>sb_curr := 0\<rparr>) t)"

definition sbv_inter :: "sbv \<Rightarrow> sbv \<Rightarrow> sbv" where
  "sbv_inter s t = snd (sbv_and (s\<lparr>sb_curr := 0\<rparr>) t)"

definition sbv_minus :: "sbv \<Rightarrow> sbv \<Rightarrow> sbv" where
  "sbv_minus s t = sbv_intersectWithComplement3 s t"

subsection \<open>Queries\<close>

definition sbv_empty :: "sbv \<Rightarrow> bool" where
  "sbv_empty s \<longleftrightarrow> sb_elems s = []"

definition sbv_count :: "sbv \<Rightarrow> nat" where
  "sbv_count s = fold (\<lambda>e n. (n + el_count e) mod 2 ^ 32) (sb_elems s) 0"

text \<open>\<^verbatim>\<open>-1\<close> for the empty vector; \<open>None\<close> is a failed assertion in the element.\<close>

definition sbv_find_first :: "sbv \<Rightarrow> int option" where
  "sbv_find_first s = (case sb_elems s of
      [] \<Rightarrow> Some (-1)
    | e # _ \<Rightarrow> map_option (\<lambda>i. int (el_index e * 128 + i)) (el_find_first e))"

definition sbv_find_last :: "sbv \<Rightarrow> int option" where
  "sbv_find_last s =
    (if sb_elems s = [] then Some (-1)
     else let e = last (sb_elems s) in map_option (\<lambda>i. int (el_index e * 128 + i)) (el_find_last e))"

text \<open>
  The hash pairs the count with the first and the last bit; \<open>h\<close> stands for \<^verbatim>\<open>std::hash<size_t>\<close>.
\<close>

definition szudzik :: "64 word \<Rightarrow> 64 word \<Rightarrow> 64 word" where
  "szudzik a b = (if a > b then b * b + a else a * a + a + b)"

definition sbv_hash :: "(64 word \<Rightarrow> 64 word) \<Rightarrow> sbv \<Rightarrow> 64 word option" where
  "sbv_hash h s = do {
     f \<leftarrow> sbv_find_first s;
     l \<leftarrow> sbv_find_last s;
     Some (szudzik (szudzik (h (of_nat (sbv_count s))) (h (of_int f))) (h (of_int l))) }"

subsection \<open>The set a vector stands for\<close>

definition el_word :: "sbv_elem \<Rightarrow> nat \<Rightarrow> 64 word" where
  "el_word e k = (if k div 2 = el_index e then el_bits e ! (k mod 2) else 0)"

fun sb_word :: "sbv_elem list \<Rightarrow> nat \<Rightarrow> 64 word" where
  "sb_word [] k = 0"
| "sb_word (e # es) k = el_word e k OR sb_word es k"

definition el_wf :: "sbv_elem \<Rightarrow> bool" where
  "el_wf e \<longleftrightarrow> length (el_bits e) = 2 \<and> \<not> el_empty e \<and> el_index e < 2 ^ 25"

definition sb_wf :: "sbv_elem list \<Rightarrow> bool" where
  "sb_wf es \<longleftrightarrow> sorted_wrt (\<lambda>e f. el_index e < el_index f) es \<and> list_all el_wf es"

definition sb_set :: "sbv \<Rightarrow> nat set" where
  "sb_set s = bits_of (sb_word (sb_elems s))"

text \<open>After \<^verbatim>\<open>clear()\<close> the cached iterator dangles; it is not read while the list is empty.\<close>

definition sb_inv :: "sbv \<Rightarrow> bool" where
  "sb_inv s \<longleftrightarrow> sb_wf (sb_elems s) \<and> (sb_elems s = [] \<or> sb_curr s \<le> length (sb_elems s))"

lemma sb_wf_Nil [simp]: "sb_wf []"
  by (simp add: sb_wf_def)

lemma sb_wf_Cons [simp]:
  "sb_wf (e # es) \<longleftrightarrow> el_wf e \<and> sb_wf es \<and> (\<forall>f \<in> set es. el_index e < el_index f)"
  by (auto simp: sb_wf_def)

lemma sb_wf_append:
  "sb_wf (es @ fs) \<longleftrightarrow> sb_wf es \<and> sb_wf fs \<and> (\<forall>e \<in> set es. \<forall>f \<in> set fs. el_index e < el_index f)"
  by (auto simp: sb_wf_def sorted_wrt_append)

lemma sb_word_append: "sb_word (es @ fs) k = sb_word es k OR sb_word fs k"
  by (induction es) (simp_all add: or.assoc)

lemma sb_word_Nil [simp]: "sb_word [] = (\<lambda>_. 0)"
  by (simp add: fun_eq_iff)

lemma sb_word_0: "\<forall>e \<in> set es. el_index e \<noteq> k div 2 \<Longrightarrow> sb_word es k = 0"
  by (induction es) (auto simp: el_word_def)

lemma words2: "length ws = 2 \<Longrightarrow> \<exists>x y. ws = [x, y]" for ws :: "'a list"
  by (auto simp: numeral_2_eq_2 length_Suc_conv)

lemma upt02 [simp]: "[0..<2] = [0, Suc 0]"
  by (simp add: upt_rec)

lemma el_empty_iff: "el_empty e \<longleftrightarrow> el_word e = (\<lambda>_. 0)"
proof
  assume "el_word e = (\<lambda>_. 0)"
  then have "el_word e (2 * el_index e) = 0" "el_word e (2 * el_index e + 1) = 0" by simp_all
  then show "el_empty e" by (simp add: el_empty_def el_word_def)
qed (auto simp: el_empty_def el_word_def fun_eq_iff mod2_eq_if)

lemma el_wf_nonzero:
  assumes "el_wf e"
  obtains k where "k div 2 = el_index e" "el_word e k \<noteq> 0"
  using assms el_empty_iff[of e] by (auto simp: el_wf_def fun_eq_iff el_word_def split: if_splits)

lemma el_word_inject:
  assumes "el_index e = el_index f" "length (el_bits e) = 2" "length (el_bits f) = 2"
  shows "el_word e = el_word f \<longleftrightarrow> e = f"
proof
  assume eq: "el_word e = el_word f"
  obtain a b c d where ab: "el_bits e = [a, b]" "el_bits f = [c, d]"
    using assms(2,3) words2 by metis
  have "a = c" "b = d"
    using fun_cong[OF eq, of "2 * el_index e"] fun_cong[OF eq, of "2 * el_index e + 1"] assms(1) ab
    by (simp_all add: el_word_def)
  then show "e = f" using assms(1) ab by (cases e; cases f) simp
qed simp

text \<open>The representation of a set is unique.\<close>

lemma sb_word_inject:
  "sb_wf es \<Longrightarrow> sb_wf fs \<Longrightarrow> sb_word es = sb_word fs \<Longrightarrow> es = fs"
proof (induction es arbitrary: fs)
  case Nil
  show ?case
  proof (cases fs)
    case (Cons f fs')
    with Nil obtain k where k: "k div 2 = el_index f" "el_word f k \<noteq> 0"
      using el_wf_nonzero by auto
    have "sb_word fs' k = 0"
      by (rule sb_word_0) (use k(1) Nil Cons in auto)
    then show ?thesis using fun_cong[OF Nil(3), of k] k(2) Cons by simp
  qed simp
next
  case (Cons e es)
  obtain k where k: "k div 2 = el_index e" "el_word e k \<noteq> 0"
    using Cons.prems(1) el_wf_nonzero by auto
  have es0: "sb_word es j = 0" if "j div 2 \<le> el_index e" for j
    by (rule sb_word_0) (use that Cons.prems(1) in auto)
  have "sb_word fs k \<noteq> 0"
    using fun_cong[OF Cons.prems(3), of k] k es0[of k] by simp
  then obtain f fs' where fs: "fs = f # fs'" by (cases fs) auto
  have fs0: "sb_word fs' j = 0" if "j div 2 \<le> el_index f" for j
    by (rule sb_word_0) (use that Cons.prems(2) fs in auto)
  have "el_index f \<le> el_index e"
  proof (rule ccontr)
    assume "\<not> el_index f \<le> el_index e"
    then have "sb_word fs k = 0" using k(1) fs fs0[of k] by (simp add: el_word_def)
    then show False using \<open>sb_word fs k \<noteq> 0\<close> by simp
  qed
  moreover have "el_index e \<le> el_index f"
  proof (rule ccontr)
    assume n: "\<not> el_index e \<le> el_index f"
    obtain j where j: "j div 2 = el_index f" "el_word f j \<noteq> 0"
      using Cons.prems(2) fs el_wf_nonzero by auto
    then have "sb_word (e # es) j = 0" using n es0[of j] by (simp add: el_word_def)
    then show False using fun_cong[OF Cons.prems(3), of j] j fs fs0[of j] by simp
  qed
  ultimately have idx: "el_index e = el_index f" by simp
  have "el_word e = el_word f"
  proof
    fix j
    show "el_word e j = el_word f j"
      using fun_cong[OF Cons.prems(3), of j] es0[of j] fs0[of j] idx fs
      by (cases "j div 2 = el_index e") (simp_all add: el_word_def)
  qed
  then have "e = f"
    using el_word_inject[OF idx] Cons.prems(1,2) fs by (simp add: el_wf_def)
  moreover have "sb_word es = sb_word fs'"
  proof
    fix j
    show "sb_word es j = sb_word fs' j"
      using fun_cong[OF Cons.prems(3), of j] es0[of j] fs0[of j] idx fs
      by (cases "j div 2 = el_index e") (simp_all add: el_word_def)
  qed
  ultimately show ?case using Cons.IH[of fs'] Cons.prems(1,2) fs by simp
qed

theorem sb_set_inject:
  assumes "sb_inv s" "sb_inv t"
  shows "sb_set s = sb_set t \<longleftrightarrow> sb_elems s = sb_elems t"
  using assms sb_word_inject[of "sb_elems s" "sb_elems t"]
  by (auto simp: sb_set_def bits_of_inject sb_inv_def)

lemma sb_set_bound:
  assumes "sb_inv s" "n \<in> sb_set s"
  shows "n < 2 ^ 32"
proof -
  have "sb_word (sb_elems s) (n div 64) \<noteq> 0"
    using assms(2) by (auto simp: sb_set_def mem_bits_of)
  then obtain e where "e \<in> set (sb_elems s)" "el_index e = n div 64 div 2"
    using sb_word_0 by metis
  then have "n div 64 div 2 < 2 ^ 25"
    using assms(1) by (auto simp: sb_inv_def sb_wf_def list_all_iff el_wf_def)
  then show ?thesis by simp
qed

lemma sbv_empty_iff:
  assumes "sb_inv s"
  shows "sbv_empty s \<longleftrightarrow> sb_set s = {}"
  using sb_set_inject[OF assms, of "sbv_new"] by (simp add: sbv_empty_def sbv_new_def sb_inv_def sb_set_def)

lemma sbv_new_ok [simp]: "sb_inv sbv_new" "sb_set sbv_new = {}"
  by (simp_all add: sb_inv_def sb_set_def sbv_new_def)

lemma sbv_clear_ok [simp]: "sb_inv (sbv_clear s)" "sb_set (sbv_clear s) = {}"
  by (simp_all add: sb_inv_def sb_set_def sbv_clear_def)

lemma eq_elems_iff: "sb_wf es \<Longrightarrow> sb_wf fs \<Longrightarrow> eq_elems es fs \<longleftrightarrow> es = fs"
proof (induction es fs rule: eq_elems.induct)
  case (1 e es f fs)
  then have len: "length (el_bits e) = 2" "length (el_bits f) = 2" by (auto simp: el_wf_def)
  then obtain a b c d where "el_bits e = [a, b]" "el_bits f = [c, d]" using words2 by metis
  then have "el_eq e f \<longleftrightarrow> e = f" by (cases e; cases f) (auto simp: el_eq_def)
  then show ?case using 1 by auto
qed auto

theorem sbv_eq_iff:
  assumes "sb_inv s" "sb_inv t"
  shows "sbv_eq s t \<longleftrightarrow> sb_set s = sb_set t"
  using assms by (simp add: sbv_eq_def sb_set_inject eq_elems_iff sb_inv_def)

subsection \<open>Bulk operations\<close>

lemma or_eq_0_iff: "a OR b = 0 \<longleftrightarrow> a = 0 \<and> b = 0" for a b :: "64 word"
  by (auto simp: bit_eq_iff bit_or_iff)

lemma sb_word_less: "\<forall>e \<in> set es. i < el_index e \<Longrightarrow> k div 2 \<le> i \<Longrightarrow> sb_word es k = 0"
  by (rule sb_word_0) auto

lemma sb_word_tl: "sb_wf (e # es) \<Longrightarrow> k div 2 = el_index e \<Longrightarrow> sb_word es k = 0"
  by (rule sb_word_less[of es "el_index e"]) auto

lemma el_word_0 [simp]: "k div 2 \<noteq> el_index e \<Longrightarrow> el_word e k = 0"
  by (simp add: el_word_def)

lemma el_unionWith_ok:
  assumes "el_wf e" "el_wf f" "el_index e = el_index f"
  shows "\<exists>e'. el_unionWith e f = (e' \<noteq> e, e') \<and> el_wf e' \<and> el_index e' = el_index e \<and>
    el_word e' = (\<lambda>k. el_word e k OR el_word f k)"
proof -
  obtain a b c d where w: "el_bits e = [a, b]" "el_bits f = [c, d]"
    using assms(1,2) words2 by (metis el_wf_def)
  have "el_unionWith e f = (e\<lparr>el_bits := [a OR c, b OR d]\<rparr> \<noteq> e, e\<lparr>el_bits := [a OR c, b OR d]\<rparr>)"
    using w by (cases e) (auto simp: el_unionWith_def Let_def)
  moreover have "el_wf (e\<lparr>el_bits := [a OR c, b OR d]\<rparr>)"
    using assms(1) w by (auto simp: el_wf_def el_empty_def or_eq_0_iff)
  moreover have "el_word (e\<lparr>el_bits := [a OR c, b OR d]\<rparr>) = (\<lambda>k. el_word e k OR el_word f k)"
    using w assms(3) by (auto simp: el_word_def fun_eq_iff mod2_eq_if)
  ultimately show ?thesis by simp
qed

lemma meet_ok:
  assumes "length (el_bits e) = 2" "length (el_bits f) = 2" "el_index e = el_index f"
    and op0: "op 0 0 = 0"
  shows "\<exists>e'. (case meet_words op (el_bits e) (el_bits f) False True of
        (ch, az, zs) \<Rightarrow> (ch, az, e\<lparr>el_bits := zs\<rparr>)) = (e' \<noteq> e, el_empty e', e') \<and>
    length (el_bits e') = 2 \<and> el_index e' = el_index e \<and>
    el_word e' = (\<lambda>k. op (el_word e k) (el_word f k))"
proof -
  obtain a b c d where w: "el_bits e = [a, b]" "el_bits f = [c, d]"
    using assms(1,2) words2 by metis
  let ?e = "e\<lparr>el_bits := [op a c, op b d]\<rparr>"
  have "(case meet_words op (el_bits e) (el_bits f) False True of
        (ch, az, zs) \<Rightarrow> (ch, az, e\<lparr>el_bits := zs\<rparr>)) = (?e \<noteq> e, el_empty ?e, ?e)"
    using w by (cases e) (auto simp: Let_def el_empty_def)
  moreover have "el_word ?e = (\<lambda>k. op (el_word e k) (el_word f k))"
    using w assms(3) op0 by (auto simp: el_word_def fun_eq_iff mod2_eq_if)
  ultimately show ?thesis by (intro exI[of _ ?e]) simp
qed

lemmas el_intersectWith_ok = meet_ok[of _ _ "(AND)", folded el_intersectWith_def, simplified]

lemmas el_intersectWithComplement_ok =
  meet_ok[of _ _ "\<lambda>x y. x AND NOT y", folded el_intersectWithComplement_def, simplified]

lemma el_intersectWithComplement3_ok:
  assumes "length (el_bits e) = 2" "length (el_bits f) = 2" "el_index e = el_index f"
  shows "\<exists>e'. el_intersectWithComplement3 (el_new (el_index e)) e f = (el_empty e', e') \<and>
    el_intersectWithComplement e f = (e' \<noteq> e, el_empty e', e')"
proof -
  obtain a b c d where w: "el_bits e = [a, b]" "el_bits f = [c, d]"
    using assms(1,2) words2 by metis
  then show ?thesis
    by (cases e) (auto simp: el_intersectWithComplement3_def el_intersectWithComplement_def el_new_def
        Let_def el_empty_def)
qed

lemma index_or_elems:
  "r \<in> set (snd (or_elems es fs)) \<Longrightarrow> \<exists>e \<in> set es \<union> set fs. el_index r = el_index e"
proof (induction es fs rule: or_elems.induct)
  case (2 f fs)
  then show ?case by (cases "or_elems [] fs") auto
next
  case (3 e es f fs)
  then show ?case
    by (cases "or_elems (e # es) fs"; cases "or_elems es fs"; cases "or_elems es (f # fs)";
        cases "el_unionWith e f") (auto simp: el_unionWith_def split: if_splits prod.splits)
qed auto

lemma or_elems_ok:
  "sb_wf es \<Longrightarrow> sb_wf fs \<Longrightarrow>
   sb_wf (snd (or_elems es fs)) \<and> (fst (or_elems es fs) \<longleftrightarrow> snd (or_elems es fs) \<noteq> es) \<and>
   sb_word (snd (or_elems es fs)) = (\<lambda>k. sb_word es k OR sb_word fs k)"
proof (induction es fs rule: or_elems.induct)
  case (2 f fs)
  obtain ch rs where o: "or_elems [] fs = (ch, rs)" by fastforce
  have "el_index f < el_index r" if "r \<in> set rs" for r
    using index_or_elems[of r "[]" fs] that o 2(3) by auto
  then show ?case using 2 o by auto
next
  case (3 e es f fs)
  consider "el_index e > el_index f" | "el_index e = el_index f" | "el_index e < el_index f" by linarith
  then show ?case
  proof cases
    case 1
    obtain ch rs where o: "or_elems (e # es) fs = (ch, rs)" by fastforce
    have mem: "el_index f < el_index r" if "r \<in> set rs" for r
      using index_or_elems[of r "e # es" fs] that o 1 "3.prems" by auto
    then have "rs \<noteq> [] \<Longrightarrow> f # rs \<noteq> e # es" using 1 by auto
    then show ?thesis
      using 1 "3.IH"(1) "3.prems" mem o by (auto simp: fun_eq_iff or.left_commute)
  next
    case 2
    obtain ch rs where o: "or_elems es fs = (ch, rs)" by fastforce
    obtain e' where e': "el_unionWith e f = (e' \<noteq> e, e')" "el_wf e'" "el_index e' = el_index e"
      "el_word e' = (\<lambda>k. el_word e k OR el_word f k)"
      using el_unionWith_ok[of e f] 2 "3.prems" by auto
    have mem: "el_index e < el_index r" if "r \<in> set rs" for r
      using index_or_elems[of r es fs] that o 2 "3.prems" by auto
    show ?thesis
      using 2 "3.IH"(2) "3.prems" e' mem o
      by (auto simp: fun_eq_iff or.left_commute or.assoc)
  next
    case 3
    obtain ch rs where o: "or_elems es (f # fs) = (ch, rs)" by fastforce
    have mem: "el_index e < el_index r" if "r \<in> set rs" for r
      using index_or_elems[of r es "f # fs"] that o 3 "3.prems" by auto
    show ?thesis
      using 3 "3.IH"(3) "3.prems" mem o
      by (auto simp: fun_eq_iff or.left_commute or.assoc)
  qed
qed auto

theorem sbv_or_ok:
  assumes "sb_inv s" "sb_inv t"
  shows "sb_inv (snd (sbv_or s t))" "sb_set (snd (sbv_or s t)) = sb_set s \<union> sb_set t"
    and "fst (sbv_or s t) \<longleftrightarrow> sb_set (snd (sbv_or s t)) \<noteq> sb_set s"
proof -
  have wf: "sb_wf (sb_elems s)" "sb_wf (sb_elems t)" using assms by (simp_all add: sb_inv_def)
  note ok = or_elems_ok[OF wf]
  show inv: "sb_inv (snd (sbv_or s t))"
    using assms ok by (auto simp: sbv_or_def sb_inv_def split: prod.split)
  show "sb_set (snd (sbv_or s t)) = sb_set s \<union> sb_set t"
    using ok by (auto simp: sbv_or_def sb_set_def bits_of_or split: prod.split)
  show "fst (sbv_or s t) \<longleftrightarrow> sb_set (snd (sbv_or s t)) \<noteq> sb_set s"
    unfolding sb_set_inject[OF inv assms(1)]
    using ok by (auto simp: sbv_or_def split: prod.split)
qed

text \<open>Elements whose indices differ from all of the other side share no word.\<close>

lemma and_elems_ok:
  "sb_wf es \<Longrightarrow> sb_wf fs \<Longrightarrow>
   sb_wf (snd (and_elems es fs)) \<and> el_index ` set (snd (and_elems es fs)) \<subseteq> el_index ` set es \<and>
   (fst (and_elems es fs) \<longleftrightarrow> snd (and_elems es fs) \<noteq> es) \<and>
   sb_word (snd (and_elems es fs)) = (\<lambda>k. sb_word es k AND sb_word fs k)"
proof (induction es fs rule: and_elems.induct)
  case (3 e es f fs)
  consider "el_index e > el_index f" | "el_index e = el_index f" | "el_index e < el_index f" by linarith
  then show ?case
  proof cases
    case 1
    have "\<forall>r \<in> set (e # es). el_index f < el_index r" using 1 "3.prems" by auto
    then have "sb_word (e # es) k AND el_word f k = 0" for k
      using sb_word_less[of "e # es" "el_index f" k] by (cases "k div 2 = el_index f") auto
    then show ?thesis
      using 1 "3.IH"(1) "3.prems"
      by (auto simp: fun_eq_iff bit.conj_disj_distrib simp del: sb_word.simps(2)
          simp: sb_word.simps(2)[of f fs])
  next
    case 2
    obtain e' where e': "el_intersectWith e f = (e' \<noteq> e, el_empty e', e')"
      "length (el_bits e') = 2" "el_index e' = el_index e"
      "el_word e' = (\<lambda>k. el_word e k AND el_word f k)"
      using el_intersectWith_ok[of e f] 2 "3.prems" by (auto simp: el_wf_def)
    have wf': "\<not> el_empty e' \<Longrightarrow> el_wf e'" using e' "3.prems" by (simp add: el_wf_def)
    have z: "el_word e k AND sb_word fs k = 0" "sb_word es k AND el_word f k = 0" for k
      using sb_word_tl[OF "3.prems"(1), of k] sb_word_tl[OF "3.prems"(2), of k] 2
      by (cases "k div 2 = el_index e"; simp)+
    have w: "(el_word e k OR sb_word es k) AND (el_word f k OR sb_word fs k) =
        el_word e' k OR (sb_word es k AND sb_word fs k)" for k
      using z[of k] e'(4) by (simp add: bit.conj_disj_distrib bit.conj_disj_distrib2)
    obtain ch rs where o: "and_elems es fs = (ch, rs)" by fastforce
    have IH: "sb_wf rs" "el_index ` set rs \<subseteq> el_index ` set es" "ch \<longleftrightarrow> rs \<noteq> es"
      "sb_word rs = (\<lambda>k. sb_word es k AND sb_word fs k)"
      using "3.IH"(2)[of "e' \<noteq> e" "(el_empty e', e')" "el_empty e'" e'] 2 "3.prems" e'(1) o by auto
    have mem: "el_index e < el_index r" if "r \<in> set rs" for r
      using that IH(2) "3.prems" by fastforce
    show ?thesis
    proof (cases "el_empty e'")
      case True
      then have "el_word e' = (\<lambda>_. 0)" by (simp add: el_empty_iff)
      moreover have "rs \<noteq> e # es" using mem[of e] by auto
      moreover have "e' \<noteq> e" using True "3.prems" by (auto simp: el_wf_def)
      ultimately show ?thesis
        using True 2 IH o e'(1) w by (auto simp: fun_eq_iff)
    next
      case False
      then show ?thesis
        using 2 IH o e'(1,3) w mem wf' by (auto simp: fun_eq_iff)
    qed
  next
    case 3
    obtain ch rs where o: "and_elems es (f # fs) = (ch, rs)" by fastforce
    have "\<forall>r \<in> set (f # fs). el_index e < el_index r" using 3 "3.prems" by auto
    then have z: "el_word e k AND sb_word (f # fs) k = 0" for k
      using sb_word_less[of "f # fs" "el_index e" k] by (cases "k div 2 = el_index e") auto
    have "e \<notin> set rs" using 3 "3.IH"(3) "3.prems" o by fastforce
    then have "rs \<noteq> e # es" by auto
    moreover have "sb_word rs = (\<lambda>k. sb_word (e # es) k AND sb_word (f # fs) k)"
      using 3 "3.IH"(3) "3.prems" o z
      by (simp add: fun_eq_iff bit.conj_disj_distrib2 del: sb_word.simps(2)) (simp add: bit.conj_disj_distrib2)
    ultimately show ?thesis
      using 3 "3.IH"(3) "3.prems" o by auto
  qed
qed auto

theorem sbv_and_ok:
  assumes "sb_inv s" "sb_inv t"
  shows "sb_inv (snd (sbv_and s t))" "sb_set (snd (sbv_and s t)) = sb_set s \<inter> sb_set t"
    and "fst (sbv_and s t) \<longleftrightarrow> sb_set (snd (sbv_and s t)) \<noteq> sb_set s"
proof -
  have wf: "sb_wf (sb_elems s)" "sb_wf (sb_elems t)" using assms by (simp_all add: sb_inv_def)
  note ok = and_elems_ok[OF wf]
  show inv: "sb_inv (snd (sbv_and s t))"
    using assms ok by (auto simp: sbv_and_def sb_inv_def split: prod.split)
  show "sb_set (snd (sbv_and s t)) = sb_set s \<inter> sb_set t"
    using ok by (auto simp: sbv_and_def sb_set_def bits_of_and split: prod.split)
  show "fst (sbv_and s t) \<longleftrightarrow> sb_set (snd (sbv_and s t)) \<noteq> sb_set s"
    unfolding sb_set_inject[OF inv assms(1)]
    using ok by (auto simp: sbv_and_def split: prod.split)
qed

lemma diff_elems_ok:
  "sb_wf es \<Longrightarrow> sb_wf fs \<Longrightarrow>
   sb_wf (snd (diff_elems es fs)) \<and> el_index ` set (snd (diff_elems es fs)) \<subseteq> el_index ` set es \<and>
   (fst (diff_elems es fs) \<longleftrightarrow> snd (diff_elems es fs) \<noteq> es) \<and>
   sb_word (snd (diff_elems es fs)) = (\<lambda>k. sb_word es k AND NOT (sb_word fs k))"
proof (induction es fs rule: diff_elems.induct)
  case (3 e es f fs)
  consider "el_index e > el_index f" | "el_index e = el_index f" | "el_index e < el_index f" by linarith
  then show ?case
  proof cases
    case 1
    have z: "sb_word (e # es) k AND NOT (sb_word (f # fs) k) = sb_word (e # es) k AND NOT (sb_word fs k)"
      for k
    proof (cases "k div 2 = el_index f")
      case True
      have "\<forall>r \<in> set (e # es). el_index f < el_index r" using 1 "3.prems" by auto
      then have "sb_word (e # es) k = 0" by (rule sb_word_less) (simp add: True)
      then show ?thesis by (simp only: bit.conj_zero_left)
    qed simp
    show ?thesis
      unfolding z using 1 "3.IH"(1) "3.prems" by simp
  next
    case 2
    obtain e' where e': "el_intersectWithComplement e f = (e' \<noteq> e, el_empty e', e')"
      "length (el_bits e') = 2" "el_index e' = el_index e"
      "el_word e' = (\<lambda>k. el_word e k AND NOT (el_word f k))"
      using el_intersectWithComplement_ok[of e f] 2 "3.prems" by (auto simp: el_wf_def)
    have wf': "\<not> el_empty e' \<Longrightarrow> el_wf e'" using e' "3.prems" by (simp add: el_wf_def)
    have w: "(el_word e k OR sb_word es k) AND NOT (el_word f k OR sb_word fs k) =
        el_word e' k OR (sb_word es k AND NOT (sb_word fs k))" for k
      using sb_word_tl[OF "3.prems"(1), of k] sb_word_tl[OF "3.prems"(2), of k] 2 e'(4)
      by (cases "k div 2 = el_index e") simp_all
    obtain ch rs where o: "diff_elems es fs = (ch, rs)" by fastforce
    have IH: "sb_wf rs" "el_index ` set rs \<subseteq> el_index ` set es" "ch \<longleftrightarrow> rs \<noteq> es"
      "sb_word rs = (\<lambda>k. sb_word es k AND NOT (sb_word fs k))"
      using "3.IH"(2)[of "e' \<noteq> e" "(el_empty e', e')" "el_empty e'" e'] 2 "3.prems" e'(1) o by auto
    have mem: "el_index e < el_index r" if "r \<in> set rs" for r
      using that IH(2) "3.prems" by fastforce
    show ?thesis
    proof (cases "el_empty e'")
      case True
      then have "el_word e' = (\<lambda>_. 0)" by (simp add: el_empty_iff)
      moreover have "rs \<noteq> e # es" using mem[of e] by auto
      moreover have "e' \<noteq> e" using True "3.prems" by (auto simp: el_wf_def)
      ultimately show ?thesis
        using True 2 IH o e'(1) w by (auto simp: fun_eq_iff)
    next
      case False
      then show ?thesis
        using 2 IH o e'(1,3) w mem wf' by (auto simp: fun_eq_iff)
    qed
  next
    case 3
    obtain ch rs where o: "diff_elems es (f # fs) = (ch, rs)" by fastforce
    have IH: "sb_wf rs" "el_index ` set rs \<subseteq> el_index ` set es" "ch \<longleftrightarrow> rs \<noteq> es"
      "sb_word rs = (\<lambda>k. sb_word es k AND NOT (sb_word (f # fs) k))"
      using "3.IH"(3) 3 "3.prems" o by auto
    have mem: "el_index e < el_index r" if "r \<in> set rs" for r
      using that IH(2) "3.prems" by fastforce
    have "\<forall>r \<in> set (f # fs). el_index e < el_index r" using 3 "3.prems" by auto
    then have "el_word e k AND NOT (sb_word (f # fs) k) = el_word e k" for k
      using sb_word_less[of "f # fs" "el_index e" k] by (cases "k div 2 = el_index e") auto
    then have "sb_word (e # rs) = (\<lambda>k. sb_word (e # es) k AND NOT (sb_word (f # fs) k))"
      using IH(4) by (simp add: fun_eq_iff bit.conj_disj_distrib2)
    then show ?thesis
      using 3 IH o mem "3.prems" by (auto simp: fun_eq_iff)
  qed
qed auto

lemma diff3_elems_eq: "sb_wf es \<Longrightarrow> sb_wf fs \<Longrightarrow> diff3_elems es fs = snd (diff_elems es fs)"
proof (induction es fs rule: diff3_elems.induct)
  case (3 e es f fs)
  show ?case
  proof (cases "el_index e = el_index f")
    case True
    obtain e' where e': "el_intersectWithComplement3 (el_new (el_index f)) e f = (el_empty e', e')"
      "el_intersectWithComplement e f = (e' \<noteq> e, el_empty e', e')"
      using el_intersectWithComplement3_ok[of e f] True "3.prems" by (auto simp: el_wf_def)
    have "diff3_elems es fs = snd (diff_elems es fs)"
      using "3.IH"(2,3)[of "el_empty e'" e'] "3.prems" True e'(1) by (cases "el_empty e'") auto
    then show ?thesis using True e' by (cases "diff_elems es fs") auto
  next
    case False
    then show ?thesis
      using "3.IH" "3.prems" by (cases "diff_elems es (f # fs)") auto
  qed
qed auto

theorem sbv_intersectWithComplement_ok:
  assumes "sb_inv s" "sb_inv t"
  shows "sb_inv (snd (sbv_intersectWithComplement s t))"
    and "sb_set (snd (sbv_intersectWithComplement s t)) = sb_set s - sb_set t"
    and "fst (sbv_intersectWithComplement s t) \<longleftrightarrow>
      sb_set (snd (sbv_intersectWithComplement s t)) \<noteq> sb_set s"
proof -
  have wf: "sb_wf (sb_elems s)" "sb_wf (sb_elems t)" using assms by (simp_all add: sb_inv_def)
  note ok = diff_elems_ok[OF wf]
  show inv: "sb_inv (snd (sbv_intersectWithComplement s t))"
    using assms ok by (auto simp: sbv_intersectWithComplement_def sb_inv_def split: prod.split)
  show "sb_set (snd (sbv_intersectWithComplement s t)) = sb_set s - sb_set t"
    using ok by (auto simp: sbv_intersectWithComplement_def sb_set_def bits_of_and_not split: prod.split)
  show "fst (sbv_intersectWithComplement s t) \<longleftrightarrow>
      sb_set (snd (sbv_intersectWithComplement s t)) \<noteq> sb_set s"
    unfolding sb_set_inject[OF inv assms(1)]
    using ok by (auto simp: sbv_intersectWithComplement_def split: prod.split)
qed

theorem sbv_intersectWithComplement3_ok:
  assumes "sb_inv s" "sb_inv t"
  shows "sb_inv (sbv_intersectWithComplement3 s t)"
    and "sb_set (sbv_intersectWithComplement3 s t) = sb_set s - sb_set t"
proof -
  have wf: "sb_wf (sb_elems s)" "sb_wf (sb_elems t)" using assms by (simp_all add: sb_inv_def)
  note ok = diff_elems_ok[OF wf]
  show "sb_inv (sbv_intersectWithComplement3 s t)"
    using ok by (simp add: sbv_intersectWithComplement3_def sb_inv_def diff3_elems_eq[OF wf] Let_def)
  show "sb_set (sbv_intersectWithComplement3 s t) = sb_set s - sb_set t"
    using ok by (simp add: sbv_intersectWithComplement3_def sb_set_def bits_of_and_not
        diff3_elems_eq[OF wf] Let_def)
qed

lemma el_intersects_iff:
  assumes "length (el_bits e) = 2" "length (el_bits f) = 2" "el_index e = el_index f"
  shows "el_intersects e f \<longleftrightarrow> (\<exists>k. el_word e k AND el_word f k \<noteq> 0)"
proof
  assume "el_intersects e f"
  then obtain i where i: "i < 2" "el_bits f ! i AND el_bits e ! i \<noteq> 0"
    by (auto simp: el_intersects_def list_ex_iff simp del: upt02)
  then have "(2 * el_index e + i) div 2 = el_index e" "(2 * el_index e + i) mod 2 = i" by simp_all
  with i assms(3) show "\<exists>k. el_word e k AND el_word f k \<noteq> 0"
    by (intro exI[of _ "2 * el_index e + i"]) (simp add: el_word_def and.commute)
next
  assume "\<exists>k. el_word e k AND el_word f k \<noteq> 0"
  then obtain k where k: "el_word e k AND el_word f k \<noteq> 0" by blast
  then have "k div 2 = el_index e" by (rule contrapos_np) simp
  with k assms(3) show "el_intersects e f"
    by (auto simp: el_intersects_def el_word_def and.commute mod2_eq_if split: if_splits)
qed

lemma intersects_elems_iff:
  "sb_wf es \<Longrightarrow> sb_wf fs \<Longrightarrow> intersects_elems es fs \<longleftrightarrow> (\<exists>k. sb_word es k AND sb_word fs k \<noteq> 0)"
proof (induction es fs rule: intersects_elems.induct)
  case (3 e es f fs)
  consider "el_index e > el_index f" | "el_index e = el_index f" | "el_index e < el_index f" by linarith
  then show ?case
  proof cases
    case 1
    then have "\<forall>r \<in> set (e # es). el_index f < el_index r" using "3.prems" by auto
    then have "sb_word (e # es) k AND el_word f k = 0" for k
      using sb_word_less[of "e # es" "el_index f" k] by (cases "k div 2 = el_index f") auto
    then have "sb_word (e # es) k AND sb_word (f # fs) k = sb_word (e # es) k AND sb_word fs k" for k
      by (simp only: sb_word.simps(2)[of f fs] bit.conj_disj_distrib or.left_neutral)
    then show ?thesis using 1 "3.IH"(1) "3.prems" by simp
  next
    case 2
    have "sb_word (e # es) k AND sb_word (f # fs) k =
        (el_word e k AND el_word f k) OR (sb_word es k AND sb_word fs k)" for k
      using sb_word_tl[OF "3.prems"(1), of k] sb_word_tl[OF "3.prems"(2), of k] 2
      by (cases "k div 2 = el_index e") simp_all
    moreover have "el_intersects e f \<longleftrightarrow> (\<exists>k. el_word e k AND el_word f k \<noteq> 0)"
      by (rule el_intersects_iff) (use 2 "3.prems" in \<open>auto simp: el_wf_def\<close>)
    ultimately show ?thesis
      using 2 "3.IH"(2) "3.prems" by (auto simp: or_eq_0_iff simp del: sb_word.simps(2))
  next
    case 3
    then have "\<forall>r \<in> set (f # fs). el_index e < el_index r" using "3.prems" by auto
    then have "el_word e k AND sb_word (f # fs) k = 0" for k
      using sb_word_less[of "f # fs" "el_index e" k] by (cases "k div 2 = el_index e") auto
    then have "sb_word (e # es) k AND sb_word (f # fs) k = sb_word es k AND sb_word (f # fs) k" for k
      by (simp only: sb_word.simps(2)[of e es] bit.conj_disj_distrib2 or.left_neutral)
    then show ?thesis using 3 "3.IH"(3) "3.prems" by simp
  qed
qed auto

theorem sbv_intersects_iff:
  assumes "sb_inv s" "sb_inv t"
  shows "sbv_intersects s t \<longleftrightarrow> sb_set s \<inter> sb_set t \<noteq> {}"
proof -
  have "sbv_intersects s t \<longleftrightarrow> (\<exists>k. sb_word (sb_elems s) k AND sb_word (sb_elems t) k \<noteq> 0)"
    using assms intersects_elems_iff[of "sb_elems s" "sb_elems t"]
    by (auto simp: sbv_intersects_def sb_inv_def)
  then show ?thesis
    unfolding sb_set_def bits_of_and[symmetric] bits_of_eq_empty by (auto simp: fun_eq_iff)
qed

text \<open>\<^verbatim>\<open>contains\<close> asks whether the argument is a subset of the vector.\<close>

theorem sbv_contains_iff:
  assumes "sb_inv s" "sb_inv t"
  shows "sbv_contains s t \<longleftrightarrow> sb_set t \<subseteq> sb_set s"
proof -
  have "sbv_contains s t \<longleftrightarrow> sbv_eq (snd (sbv_and s t)) t" by (simp add: sbv_contains_def split_beta)
  also have "\<dots> \<longleftrightarrow> sb_set s \<inter> sb_set t = sb_set t"
    using sbv_and_ok[OF assms] by (simp add: sbv_eq_iff assms(2))
  finally show ?thesis by blast
qed

lemma sb_inv_curr0 [simp]: "sb_inv s \<Longrightarrow> sb_inv (s\<lparr>sb_curr := 0\<rparr>)" "sb_set (s\<lparr>sb_curr := n\<rparr>) = sb_set s"
  by (simp_all add: sb_inv_def sb_set_def)

theorem sbv_binary_ok:
  assumes "sb_inv s" "sb_inv t"
  shows "sb_inv (sbv_union s t)" "sb_set (sbv_union s t) = sb_set s \<union> sb_set t"
    and "sb_inv (sbv_inter s t)" "sb_set (sbv_inter s t) = sb_set s \<inter> sb_set t"
    and "sb_inv (sbv_minus s t)" "sb_set (sbv_minus s t) = sb_set s - sb_set t"
  using assms by (simp_all add: sbv_union_def sbv_inter_def sbv_minus_def sbv_or_ok sbv_and_ok
      sbv_intersectWithComplement3_ok)

subsection \<open>Single bits\<close>

text \<open>
  What every search establishes, wherever it starts: the elements before the position have
  smaller indices, the ones after it larger ones.
\<close>

definition lb_pos :: "sbv_elem list \<Rightarrow> nat \<Rightarrow> nat \<Rightarrow> bool" where
  "lb_pos es idx i \<longleftrightarrow> i \<le> length es \<and> (\<forall>j < i. el_index (es ! j) < idx) \<and>
    (\<forall>j. i < j \<and> j < length es \<longrightarrow> idx < el_index (es ! j))"

lemma sb_wf_nth: "sb_wf es \<Longrightarrow> i < j \<Longrightarrow> j < length es \<Longrightarrow> el_index (es ! i) < el_index (es ! j)"
  unfolding sb_wf_def by (blast intro: sorted_wrt_nth_less[of "\<lambda>e f. el_index e < el_index f"])

lemma search_back_ok:
  "sb_wf es \<Longrightarrow> cur < length es \<Longrightarrow> idx < el_index (es ! cur) \<Longrightarrow> lb_pos es idx (search_back es idx cur)"
proof (induction es idx cur rule: search_back.induct)
  case (1 es idx)
  then have "idx < el_index (es ! j)" if "0 < j" "j < length es" for j
    using sb_wf_nth[of es 0 j] that by auto
  then show ?case by (auto simp: lb_pos_def)
next
  case (2 es idx i)
  show ?case
  proof (cases "el_index (es ! i) > idx")
    case True
    then show ?thesis using 2 by simp
  next
    case False
    have "lb_pos es idx i"
    proof -
      have "el_index (es ! j) < idx" if "j < i" for j
        using sb_wf_nth[of es j i] that 2 False by auto
      moreover have "idx < el_index (es ! j)" if "i < j" "j < length es" for j
        using sb_wf_nth[of es "Suc i" j] that 2 by (cases "j = Suc i") auto
      ultimately show ?thesis using 2 by (auto simp: lb_pos_def)
    qed
    then show ?thesis using 2 False by (cases i) auto
  qed
qed

lemma search_forward_ok:
  "sb_wf es \<Longrightarrow> i \<le> length es \<Longrightarrow> \<forall>j < i. el_index (es ! j) < idx \<Longrightarrow> lb_pos es idx (search_forward es idx i)"
proof (induction es idx i rule: search_forward.induct)
  case (1 es idx i)
  show ?case
  proof (cases "i < length es \<and> el_index (es ! i) < idx")
    case True
    then show ?thesis using 1 by (subst search_forward.simps) (auto simp: less_Suc_eq)
  next
    case False
    have "idx < el_index (es ! j)" if "i < j" "j < length es" for j
      using sb_wf_nth[of es i j] that 1(2) False by auto
    then show ?thesis using 1(3,4) False by (subst search_forward.simps) (auto simp: lb_pos_def)
  qed
qed

lemma FindLowerBound_ok:
  assumes "sb_inv s" "sb_elems s \<noteq> []"
  shows "lb_pos (sb_elems s) idx (fst (sbv_FindLowerBound s idx))"
    and "snd (sbv_FindLowerBound s idx) = s\<lparr>sb_curr := fst (sbv_FindLowerBound s idx)\<rparr>"
proof -
  let ?es = "sb_elems s"
  define cur where "cur = (if sb_curr s = length ?es then sb_curr s - 1 else sb_curr s)"
  have cur: "cur < length ?es" and wf: "sb_wf ?es"
    using assms by (auto simp: sb_inv_def cur_def)
  have F: "fst (sbv_FindLowerBound s idx) =
      (if el_index (?es ! cur) = idx then cur
       else if el_index (?es ! cur) > idx then search_back ?es idx cur
       else search_forward ?es idx cur)"
    using assms(2) by (simp add: sbv_FindLowerBound_def Let_def cur_def[symmetric])
  consider "el_index (?es ! cur) = idx" | "el_index (?es ! cur) > idx" | "el_index (?es ! cur) < idx"
    by linarith
  then show "lb_pos ?es idx (fst (sbv_FindLowerBound s idx))"
  proof cases
    case 1
    then show ?thesis
      using F cur sb_wf_nth[OF wf, of _ cur] sb_wf_nth[OF wf, of cur] by (simp add: lb_pos_def)
  next
    case 2
    then show ?thesis using F search_back_ok[OF wf cur, of idx] by simp
  next
    case 3
    have "\<forall>j < cur. el_index (?es ! j) < idx" using sb_wf_nth[OF wf _ cur] 3 less_trans by blast
    then show ?thesis
      using F search_forward_ok[OF wf less_imp_le[OF cur], of idx] 3 by simp
  qed
  show "snd (sbv_FindLowerBound s idx) = s\<lparr>sb_curr := fst (sbv_FindLowerBound s idx)\<rparr>"
    by (simp add: sbv_FindLowerBound_def Let_def)
qed

lemma sb_word_mid:
  assumes "\<forall>e \<in> set A. el_index e < ei" "\<forall>e \<in> set C. ei < el_index e" "el_index e = ei"
  shows "sb_word (A @ e # C) k = (if k div 2 = ei then el_word e k else sb_word (A @ C) k)"
proof (cases "k div 2 = ei")
  case True
  have "sb_word A k = 0" by (rule sb_word_0) (use assms(1) True in auto)
  moreover have "sb_word C k = 0" by (rule sb_word_0) (use assms(2) True in auto)
  ultimately show ?thesis using True by (simp add: sb_word_append)
qed (simp add: sb_word_append assms(3))

lemma lb_pos_parts:
  assumes "lb_pos es ei i"
  shows "\<forall>e \<in> set (take i es). el_index e < ei" "\<forall>e \<in> set (drop (Suc i) es). ei < el_index e"
  using assms by (auto simp: lb_pos_def in_set_conv_nth)

lemma lb_pos_word:
  assumes "lb_pos es ei i" "k div 2 = ei"
  shows "sb_word es k = (if i < length es \<and> el_index (es ! i) = ei then el_word (es ! i) k else 0)"
proof (cases "i < length es")
  case True
  note parts = lb_pos_parts[OF assms(1)]
  have es: "es = take i es @ es ! i # drop (Suc i) es" by (rule id_take_nth_drop[OF True])
  show ?thesis
  proof (cases "el_index (es ! i) = ei")
    case True
    then have "sb_word es k = el_word (es ! i) k"
      using sb_word_mid[OF parts True, of k] es assms(2) by simp
    then show ?thesis using True \<open>i < length es\<close> by simp
  next
    case False
    have "\<forall>e \<in> set (take i es @ es ! i # drop (Suc i) es). el_index e \<noteq> k div 2"
      using parts False assms(2) by fastforce
    then have "sb_word es k = 0" using es sb_word_0 by metis
    then show ?thesis using False by simp
  qed
next
  case False
  have "\<forall>e \<in> set es. el_index e \<noteq> k div 2"
    using lb_pos_parts(1)[OF assms(1)] False assms(2) by fastforce
  then show ?thesis using False by (simp add: sb_word_0)
qed

lemma idx_split: "idx mod 128 div 64 = idx div 64 mod 2" "idx mod 128 mod 64 = idx mod 64"
    "idx div 64 div 2 = idx div 128" for idx :: nat
proof -
  show "idx mod 128 div 64 = idx div 64 mod 2"
    using mod_mult2_eq[of idx 64 2] by simp
  show "idx mod 128 mod 64 = idx mod 64" by (simp add: mod_mod_cancel)
  show "idx div 64 div 2 = idx div 128" by (simp add: div_mult2_eq[symmetric])
qed

lemma el_test_word:
  assumes "el_index e = idx div 128"
  shows "el_test e (idx mod 128) \<longleftrightarrow> bit (el_word e (idx div 64)) (idx mod 64)"
  using assms by (simp add: el_test_def el_word_def idx_split and_bit_mask_eq_0)

theorem sbv_test_ok:
  assumes "sb_inv s"
  shows "fst (sbv_test s idx) \<longleftrightarrow> idx \<in> sb_set s" "sb_inv (snd (sbv_test s idx))"
    and "sb_elems (snd (sbv_test s idx)) = sb_elems s"
proof -
  obtain i s' where f: "sbv_FindLowerBound s (idx div 128) = (i, s')" by fastforce
  have *: "lb_pos (sb_elems s) (idx div 128) i" "s' = s\<lparr>sb_curr := i\<rparr>" if "sb_elems s \<noteq> []"
    using FindLowerBound_ok[OF assms that, of "idx div 128"] f by simp_all
  have w: "sb_word (sb_elems s) (idx div 64) =
      (if i < length (sb_elems s) \<and> el_index (sb_elems s ! i) = idx div 128
       then el_word (sb_elems s ! i) (idx div 64) else 0)" if "sb_elems s \<noteq> []"
    using lb_pos_word[OF *(1)[OF that]] by (simp add: idx_split)
  have i: "i \<le> length (sb_elems s)" if "sb_elems s \<noteq> []" using *(1)[OF that] by (simp add: lb_pos_def)
  show "fst (sbv_test s idx) \<longleftrightarrow> idx \<in> sb_set s"
    using w i f by (auto simp: sbv_test_def sb_set_def mem_bits_of el_test_word)
  show "sb_inv (snd (sbv_test s idx))"
    using assms * i f by (auto simp: sbv_test_def sb_inv_def)
  show "sb_elems (snd (sbv_test s idx)) = sb_elems s"
    using * f by (auto simp: sbv_test_def)
qed

lemma el_set_ok:
  assumes "length (el_bits e) = 2" "el_index e = idx div 128"
  shows "length (el_bits (el_set e (idx mod 128))) = 2" "el_index (el_set e (idx mod 128)) = el_index e"
    and "\<not> el_empty (el_set e (idx mod 128))"
    and "el_word (el_set e (idx mod 128)) =
      (el_word e)(idx div 64 := el_word e (idx div 64) OR bit_mask (idx mod 64))"
proof -
  obtain a b where w: "el_bits e = [a, b]" using words2[OF assms(1)] by blast
  have nz: "x OR bit_mask (idx mod 64) \<noteq> 0" for x :: "64 word"
    using bit_bit_mask[of "idx mod 64" "idx mod 64"] by (metis bit_or_iff bit_0_eq bot_apply bot_bool_def mod_less_divisor zero_less_numeral)
  show "length (el_bits (el_set e (idx mod 128))) = 2" "el_index (el_set e (idx mod 128)) = el_index e"
    using assms(1) by (simp_all add: el_set_def)
  show "\<not> el_empty (el_set e (idx mod 128))"
    using w nz by (cases "idx div 64 mod 2 = 0") (auto simp: el_set_def el_empty_def idx_split mod2_eq_if)
  have "k = idx div 64" if "k div 2 = idx div 128" "k mod 2 = idx div 64 mod 2" for k
    using that by (metis idx_split(3) mult_div_mod_eq)
  then show "el_word (el_set e (idx mod 128)) =
      (el_word e)(idx div 64 := el_word e (idx div 64) OR bit_mask (idx mod 64))"
    using w assms(2) by (auto simp: el_set_def el_word_def fun_eq_iff idx_split mod2_eq_if nth_list_update)
qed

lemma el_reset_ok:
  assumes "length (el_bits e) = 2" "el_index e = idx div 128"
  shows "length (el_bits (el_reset e (idx mod 128))) = 2" "el_index (el_reset e (idx mod 128)) = el_index e"
    and "el_word (el_reset e (idx mod 128)) =
      (el_word e)(idx div 64 := el_word e (idx div 64) AND NOT (bit_mask (idx mod 64)))"
proof -
  obtain a b where w: "el_bits e = [a, b]" using words2[OF assms(1)] by blast
  show "length (el_bits (el_reset e (idx mod 128))) = 2" "el_index (el_reset e (idx mod 128)) = el_index e"
    using assms(1) by (simp_all add: el_reset_def)
  have "k = idx div 64" if "k div 2 = idx div 128" "k mod 2 = idx div 64 mod 2" for k
    using that by (metis idx_split(3) mult_div_mod_eq)
  then show "el_word (el_reset e (idx mod 128)) =
      (el_word e)(idx div 64 := el_word e (idx div 64) AND NOT (bit_mask (idx mod 64)))"
    using w assms(2)
    by (auto simp: el_reset_def el_word_def fun_eq_iff idx_split mod2_eq_if nth_list_update)
qed

text \<open>Replacing, inserting and removing the element of one index in the middle of the list.\<close>

lemma sb_mid_wf:
  assumes "sb_wf (A @ C)" "\<forall>e \<in> set A. el_index e < ei" "\<forall>e \<in> set C. ei < el_index e"
    "el_index e = ei" "ei < 2 ^ 25" "length (el_bits e) = 2" "\<not> el_empty e"
  shows "sb_wf (A @ e # C)"
  using assms by (auto simp: sb_wf_append el_wf_def)

lemma sb_mid_upd:
  assumes "\<forall>e \<in> set A. el_index e < ei" "\<forall>e \<in> set C. ei < el_index e"
    "el_index e = ei" "el_index e' = ei" "el_word e' = (el_word e)(k := v)" "k div 2 = ei"
  shows "sb_word (A @ e' # C) = (sb_word (A @ e # C))(k := v)"
  unfolding fun_eq_iff sb_word_mid[OF assms(1,2,3)] sb_word_mid[OF assms(1,2,4)]
  using assms(5,6) by (auto simp: sb_word_mid[OF assms(1,2,3)])

text \<open>The place where \<^verbatim>\<open>set\<close> finds its element, or inserts it.\<close>

lemma lb_pos_found:
  assumes "lb_pos es ei p" "p < length es" "el_index (es ! p) = ei"
  shows "es = take p es @ es ! p # drop (Suc p) es"
    "\<forall>e \<in> set (take p es). el_index e < ei" "\<forall>e \<in> set (drop (Suc p) es). ei < el_index e"
  using lb_pos_parts[OF assms(1)] id_take_nth_drop[OF assms(2)] by simp_all

lemma lb_pos_missing:
  assumes "lb_pos es ei p" "p = length es \<or> el_index (es ! p) \<noteq> ei"
    and "i = (if p \<noteq> length es \<and> el_index (es ! p) < ei then p + 1 else p)"
  shows "i \<le> length es" "\<forall>e \<in> set (take i es). el_index e < ei" "\<forall>e \<in> set (drop i es). ei < el_index e"
proof -
  show "i \<le> length es" using assms by (auto simp: lb_pos_def)
  show "\<forall>e \<in> set (take i es). el_index e < ei"
    using assms by (auto simp: lb_pos_def in_set_conv_nth less_Suc_eq split: if_splits)
  have "ei < el_index (es ! j)" if "i \<le> j" "j < length es" for j
    using assms that by (cases "p = j") (auto simp: lb_pos_def split: if_splits)
  then show "\<forall>e \<in> set (drop i es). ei < el_index e" by (auto simp: in_set_conv_nth)
qed

lemma sb_wf_dropmid: "sb_wf (A @ e # C) \<Longrightarrow> sb_wf (A @ C)"
  by (auto simp: sb_wf_append)

text \<open>The vector as it is when \<^verbatim>\<open>set\<close> writes the bit: the element \<open>e\<close> may still be zero.\<close>

lemma sbv_set_shape:
  assumes inv: "sb_inv s" and idx: "idx < 2 ^ 32"
  obtains A e C where "sb_elems (sbv_set s idx) = A @ el_set e (idx mod 128) # C"
    "sb_curr (sbv_set s idx) \<le> length (A @ C)" "sb_word (sb_elems s) = sb_word (A @ e # C)"
    "sb_wf (A @ C)" "\<forall>r \<in> set A. el_index r < idx div 128" "\<forall>r \<in> set C. idx div 128 < el_index r"
    "el_index e = idx div 128" "length (el_bits e) = 2"
proof -
  define es ei where "es = sb_elems s" and "ei = idx div 128"
  define p where "p = (if es = [] then 0 else fst (sbv_FindLowerBound s ei))"
  have wf: "sb_wf es" using inv by (simp add: es_def sb_inv_def)
  have lb: "lb_pos es ei p"
    using FindLowerBound_ok(1)[OF inv, of ei] by (auto simp: es_def p_def lb_pos_def)
  show ?thesis
  proof (cases "p = length es \<or> el_index (es ! p) \<noteq> ei")
    case True
    define i where "i = (if p \<noteq> length es \<and> el_index (es ! p) < ei then p + 1 else p)"
    note i = lb_pos_missing[OF lb True i_def]
    have c1: "sbv_set s idx = s\<lparr>sb_elems := (take i es @ el_new ei # drop i es)
        [i := el_set ((take i es @ el_new ei # drop i es) ! i) (idx mod 128)], sb_curr := i\<rparr>"
      using True by (auto simp: sbv_set_def es_def[symmetric] ei_def[symmetric] p_def i_def Let_def
          split: prod.splits)
    show ?thesis
    proof (rule that[of "take i es" "el_new ei" "drop i es"])
      show "sb_elems (sbv_set s idx) = take i es @ el_set (el_new ei) (idx mod 128) # drop i es"
        using i(1) by (simp add: c1 nth_append list_update_append)
      show "sb_word (sb_elems s) = sb_word (take i es @ el_new ei # drop i es)"
        unfolding es_def[symmetric] fun_eq_iff
        by (subst (1) append_take_drop_id[symmetric, of es i])
          (simp add: sb_word_append el_new_def el_word_def mod2_eq_if del: append_take_drop_id)
    qed (use i wf c1 in \<open>simp_all add: ei_def[symmetric], simp_all add: el_new_def\<close>)
  next
    case False
    then have pl: "p < length es" and pe: "el_index (es ! p) = ei"
      using lb by (auto simp: lb_pos_def)
    note f = lb_pos_found[OF lb pl pe]
    have c1: "sbv_set s idx = s\<lparr>sb_elems := es[p := el_set (es ! p) (idx mod 128)], sb_curr := p\<rparr>"
      using False pl by (auto simp: sbv_set_def es_def[symmetric] ei_def[symmetric] p_def Let_def
          split: prod.splits if_splits)
    show ?thesis
    proof (rule that[of "take p es" "es ! p" "drop (Suc p) es"])
      show "sb_elems (sbv_set s idx) = take p es @ el_set (es ! p) (idx mod 128) # drop (Suc p) es"
        using pl by (simp add: c1 upd_conv_take_nth_drop)
      show "sb_wf (take p es @ drop (Suc p) es)" using sb_wf_dropmid f(1) wf by metis
      show "length (el_bits (es ! p)) = 2" using wf pl by (simp add: sb_wf_def list_all_length el_wf_def)
    qed (use f pe pl c1 in \<open>simp_all add: ei_def[symmetric] es_def[symmetric]\<close>)
  qed
qed

theorem sbv_set_ok:
  assumes inv: "sb_inv s" and idx: "idx < 2 ^ 32"
  shows "sb_inv (sbv_set s idx)" "sb_set (sbv_set s idx) = insert idx (sb_set s)"
proof -
  obtain A e C where c: "sb_elems (sbv_set s idx) = A @ el_set e (idx mod 128) # C"
    "sb_curr (sbv_set s idx) \<le> length (A @ C)" "sb_word (sb_elems s) = sb_word (A @ e # C)"
    "sb_wf (A @ C)" and AC: "\<forall>r \<in> set A. el_index r < idx div 128" "\<forall>r \<in> set C. idx div 128 < el_index r"
    and e: "el_index e = idx div 128" "length (el_bits e) = 2"
    using sbv_set_shape[OF assms] by metis
  note es = el_set_ok[OF e(2,1)]
  have "sb_wf (A @ el_set e (idx mod 128) # C)"
    by (rule sb_mid_wf[OF c(4) AC]) (use es e idx in simp_all)
  then show "sb_inv (sbv_set s idx)" using c(1,2) by (simp add: sb_inv_def)
  have "sb_word (A @ el_set e (idx mod 128) # C) =
      (sb_word (A @ e # C))(idx div 64 := el_word e (idx div 64) OR bit_mask (idx mod 64))"
    by (rule sb_mid_upd[OF AC]) (use es e in \<open>simp_all add: idx_split\<close>)
  moreover have "el_word e (idx div 64) = sb_word (A @ e # C) (idx div 64)"
    by (simp add: sb_word_mid[OF AC e(1)] idx_split)
  ultimately show "sb_set (sbv_set s idx) = insert idx (sb_set s)"
    using c(1,3) by (simp add: sb_set_def bits_of_set_bit)
qed

theorem sbv_reset_ok:
  assumes inv: "sb_inv s"
  shows "sb_inv (sbv_reset s idx) \<and> sb_set (sbv_reset s idx) = sb_set s - {idx}"
proof (cases "sb_elems s = []")
  case True
  then show ?thesis using inv by (simp add: sbv_reset_def sb_set_def)
next
  case False
  define es ei p where "es = sb_elems s" and "ei = idx div 128" and "p = fst (sbv_FindLowerBound s ei)"
  have wf: "sb_wf es" using inv by (simp add: es_def sb_inv_def)
  have lb: "lb_pos es ei p" and fl: "sbv_FindLowerBound s ei = (p, s\<lparr>sb_curr := p\<rparr>)"
    using FindLowerBound_ok[OF inv False, of ei] by (simp_all add: es_def p_def prod_eq_iff)
  have ple: "p \<le> length es" using lb by (simp add: lb_pos_def)
  show ?thesis
  proof (cases "p = length es \<or> el_index (es ! p) \<noteq> ei")
    case True
    have "sb_word es (idx div 64) = 0"
      using lb_pos_word[OF lb, of "idx div 64"] True by (auto simp: ei_def idx_split)
    then have "idx \<notin> sb_set s" by (simp add: sb_set_def mem_bits_of es_def)
    moreover have "sbv_reset s idx = s\<lparr>sb_curr := p\<rparr>"
      using False True fl by (simp add: sbv_reset_def es_def ei_def)
    ultimately show ?thesis using inv ple by (simp add: sb_inv_def es_def)
  next
    case nTrue: False
    then have pl: "p < length es" and pe: "el_index (es ! p) = ei" using ple by auto
    note f = lb_pos_found[OF lb pl pe]
    define e where "e = el_reset (es ! p) (idx mod 128)"
    have we: "length (el_bits (es ! p)) = 2" and ei: "ei < 2 ^ 25"
      using wf pl pe by (auto simp: sb_wf_def list_all_length el_wf_def)
    note er = el_reset_ok[OF we, of idx, folded e_def]
    have "sb_word (take p es @ e # drop (Suc p) es) =
        (sb_word (take p es @ es ! p # drop (Suc p) es))
          (idx div 64 := el_word (es ! p) (idx div 64) AND NOT (bit_mask (idx mod 64)))"
      by (rule sb_mid_upd[OF f(2,3)]) (use er pe in \<open>simp_all add: ei_def idx_split\<close>)
    moreover have "el_word (es ! p) (idx div 64) = sb_word (take p es @ es ! p # drop (Suc p) es) (idx div 64)"
      by (simp add: sb_word_mid[OF f(2,3) pe]) (simp add: ei_def idx_split)
    ultimately have w: "bits_of (sb_word (take p es @ e # drop (Suc p) es)) = sb_set s - {idx}"
      by (simp add: bits_of_unset_bit flip: f(1)) (simp add: sb_set_def es_def)
    have ac: "sb_wf (take p es @ drop (Suc p) es)" using sb_wf_dropmid f(1) wf by metis
    show ?thesis
    proof (cases "el_empty e")
      case True
      have "sbv_reset s idx = s\<lparr>sb_elems := take p es @ drop (Suc p) es, sb_curr := p\<rparr>"
        using False nTrue fl True by (simp add: sbv_reset_def es_def ei_def e_def Let_def)
      moreover have "sb_word (take p es @ e # drop (Suc p) es) = sb_word (take p es @ drop (Suc p) es)"
        using True by (simp add: fun_eq_iff sb_word_append el_empty_iff)
      moreover have "p \<le> length es - 1" using pl by simp
      ultimately show ?thesis using w ac pl by (auto simp add: sb_inv_def sb_set_def)
    next
      case nempty: False
      have "sbv_reset s idx = s\<lparr>sb_elems := es[p := e], sb_curr := p\<rparr>"
        using False nTrue fl nempty by (simp add: sbv_reset_def es_def ei_def e_def Let_def)
      moreover have "sb_wf (take p es @ e # drop (Suc p) es)"
        by (rule sb_mid_wf[OF ac f(2,3)]) (use er pe ei nempty in \<open>simp_all add: ei_def\<close>)
      ultimately show ?thesis
        using w pl by (simp add: sb_inv_def upd_conv_take_nth_drop) (simp add: sb_set_def)
    qed
  qed
qed

theorem sbv_test_and_set_ok:
  assumes inv: "sb_inv s" and idx: "idx < 2 ^ 32"
  shows "sb_inv (snd (sbv_test_and_set s idx))"
    and "sb_set (snd (sbv_test_and_set s idx)) = insert idx (sb_set s)"
    and "fst (sbv_test_and_set s idx) \<longleftrightarrow> idx \<notin> sb_set s"
proof -
  obtain b s' where t: "sbv_test s idx = (b, s')" by fastforce
  have s': "b \<longleftrightarrow> idx \<in> sb_set s" "sb_inv s'" "sb_set s' = sb_set s"
    using sbv_test_ok[OF inv, of idx] t by (simp_all add: sb_set_def)
  show "sb_inv (snd (sbv_test_and_set s idx))"
    "sb_set (snd (sbv_test_and_set s idx)) = insert idx (sb_set s)"
    "fst (sbv_test_and_set s idx) \<longleftrightarrow> idx \<notin> sb_set s"
    using s' sbv_set_ok[OF s'(2) idx] by (auto simp: sbv_test_and_set_def t)
qed

subsection \<open>The iterator\<close>

text \<open>
  \<^verbatim>\<open>SparseBitVectorIterator\<close>. \<open>None\<close> is a read of an element past the end or a failed assertion
  of \<^verbatim>\<open>find_first\<close>.
\<close>

record sbv_iter =
  si_AtEnd :: bool
  si_pos :: nat
  si_BitNumber :: nat
  si_WordNumber :: nat
  si_Bits :: "64 word"

definition sbv_AdvanceToFirstNonZero :: "sbv \<Rightarrow> sbv_iter \<Rightarrow> sbv_iter option" where
  "sbv_AdvanceToFirstNonZero s it =
    (if si_AtEnd it then Some it
     else if sb_elems s = [] then Some (it\<lparr>si_AtEnd := True\<rparr>)
     else do {
       let e = sb_elems s ! 0;
       BitPos \<leftarrow> el_find_first e;
       let bn = (el_index e * 128 + BitPos) mod 2 ^ 32;
       let wn = (bn mod 128) div 64;
       Some (it\<lparr>si_pos := 0, si_BitNumber := bn, si_WordNumber := wn,
         si_Bits := drop_bit (BitPos mod 64) (el_bits e ! wn)\<rparr>) })"

text \<open>The loop \<^verbatim>\<open>while (Bits && !(Bits & 1))\<close>.\<close>

function skip_zeros :: "64 word \<Rightarrow> nat \<Rightarrow> 64 word \<times> nat" where
  "skip_zeros w n =
    (if w \<noteq> 0 \<and> w AND 1 = 0 then skip_zeros (drop_bit 1 w) ((n + 1) mod 2 ^ 32) else (w, n))"
  by pat_completeness auto
termination
proof (relation "measure (\<lambda>(w, n). unat w)", goal_cases)
  case (2 w n)
  then have "0 < unat w" by (simp add: unat_gt_0)
  then have "unat w div 2 < unat w" by simp
  then show ?case by (simp add: unat_drop_bit_eq drop_bit_eq_div unat_div)
qed simp

declare skip_zeros.simps [simp del]

definition sbv_enter_elem :: "sbv_elem \<Rightarrow> nat \<Rightarrow> sbv_iter \<Rightarrow> sbv_iter" where
  "sbv_enter_elem e next it =
    (let wn = (next mod 128) div 64
     in it\<lparr>si_BitNumber := (el_index e * 128 + next) mod 2 ^ 32, si_WordNumber := wn,
           si_Bits := drop_bit (next mod 64) (el_bits e ! wn)\<rparr>)"

definition sbv_AdvanceToNextNonZero :: "sbv \<Rightarrow> sbv_iter \<Rightarrow> sbv_iter option" where
  "sbv_AdvanceToNextNonZero s it =
    (if si_AtEnd it then Some it
     else case skip_zeros (si_Bits it) (si_BitNumber it) of (bits, bn) \<Rightarrow>
       let it = it\<lparr>si_Bits := bits, si_BitNumber := bn\<rparr>
       in if bits \<noteq> 0 then Some it
          else do {
            ensure (si_pos it < length (sb_elems s));
            let next = el_find_next (sb_elems s ! si_pos it) (bn mod 128);
            if next = None \<or> bn mod 128 = 0 then
              (let it = it\<lparr>si_pos := si_pos it + 1, si_WordNumber := 0\<rparr>
               in if si_pos it = length (sb_elems s) then Some (it\<lparr>si_AtEnd := True\<rparr>)
                  else do {
                    let e = sb_elems s ! si_pos it;
                    first \<leftarrow> el_find_first e;
                    Some (sbv_enter_elem e first it) })
            else do { n \<leftarrow> next; Some (sbv_enter_elem (sb_elems s ! si_pos it) n it) } })"

definition sbv_iter_next :: "sbv \<Rightarrow> sbv_iter \<Rightarrow> sbv_iter option" where
  "sbv_iter_next s it =
    sbv_AdvanceToNextNonZero s
      (it\<lparr>si_BitNumber := (si_BitNumber it + 1) mod 2 ^ 32, si_Bits := drop_bit 1 (si_Bits it)\<rparr>)"

definition sbv_iter_new :: "sbv \<Rightarrow> bool \<Rightarrow> sbv_iter option" where
  "sbv_iter_new s end' = sbv_AdvanceToFirstNonZero s
    \<lparr>si_AtEnd = end', si_pos = 0, si_BitNumber = 0, si_WordNumber = 2 ^ 32 - 1, si_Bits = 0\<rparr>"

definition sbv_iter_eq :: "sbv_iter \<Rightarrow> sbv_iter \<Rightarrow> bool" where
  "sbv_iter_eq it it' \<longleftrightarrow>
    (if si_AtEnd it \<and> si_AtEnd it' then True
     else si_AtEnd it = si_AtEnd it' \<and> si_BitNumber it' = si_BitNumber it)"

text \<open>A range \<^verbatim>\<open>for\<close> over the vector.\<close>

partial_function (option) sbv_elems_from :: "sbv \<Rightarrow> sbv_iter \<Rightarrow> sbv_iter \<Rightarrow> nat list option" where
  "sbv_elems_from s it end' =
    (if sbv_iter_eq it end' then Some []
     else do {
       it' \<leftarrow> sbv_iter_next s it;
       xs \<leftarrow> sbv_elems_from s it' end';
       Some (si_BitNumber it # xs) })"

definition sbv_elems :: "sbv \<Rightarrow> nat list option" where
  "sbv_elems s = do { it \<leftarrow> sbv_iter_new s False; end' \<leftarrow> sbv_iter_new s True; sbv_elems_from s it end' }"

lemma ctz_ok:
  assumes "w \<noteq> 0"
  shows "countTrailingZeros w < 64" "bit w (countTrailingZeros w)"
    and "i < countTrailingZeros w \<Longrightarrow> \<not> bit w i"
proof -
  have "\<exists>i < 64. bit w i" using assms by (auto simp: bit_eq_iff)
  then have "takeWhile (\<lambda>i. \<not> bit w i) [0..<64] \<noteq> [0..<64]"
    by (auto simp: takeWhile_eq_all_conv simp del: upt_rec_numeral)
  then show lt: "countTrailingZeros w < 64"
    unfolding countTrailingZeros_def
    by (metis length_takeWhile_le length_upt takeWhile_eq_take take_all_iff diff_zero le_eq_less_or_eq nat_less_le)
  then show "bit w (countTrailingZeros w)"
    unfolding countTrailingZeros_def
    using nth_length_takeWhile[of "\<lambda>i. \<not> bit w i" "[0..<64]"] by simp
  assume "i < countTrailingZeros w"
  then show "\<not> bit w i"
    unfolding countTrailingZeros_def
    using nth_mem[of i "takeWhile (\<lambda>i. \<not> bit w i) [0..<64]"]
      takeWhile_nth[of i "\<lambda>i. \<not> bit w i" "[0..<64]"] lt
    by (auto simp: countTrailingZeros_def dest: set_takeWhileD)
qed

definition el_mem :: "sbv_elem \<Rightarrow> nat \<Rightarrow> bool" where
  "el_mem e i \<longleftrightarrow> i < 128 \<and> bit (el_bits e ! (i div 64)) (i mod 64)"

text \<open>\<open>least P a n\<close>: \<open>n\<close> is the least number from \<open>a\<close> on with \<open>P\<close>.\<close>

definition least_from :: "(nat \<Rightarrow> bool) \<Rightarrow> nat \<Rightarrow> nat \<Rightarrow> bool" where
  "least_from P a n \<longleftrightarrow> a \<le> n \<and> P n \<and> (\<forall>i. a \<le> i \<longrightarrow> i < n \<longrightarrow> \<not> P i)"

lemma el_mem_word: "i < 64 \<Longrightarrow> j < 2 \<Longrightarrow> el_mem e (j * 64 + i) \<longleftrightarrow> bit (el_bits e ! j) i"
  by (auto simp: el_mem_def)

lemma ctz_least:
  assumes "el_bits e ! j \<noteq> 0" "j < 2" "j * 64 = a \<or> (\<forall>i. a \<le> i \<longrightarrow> i < j * 64 \<longrightarrow> \<not> el_mem e i) \<and> a \<le> j * 64"
  shows "least_from (el_mem e) a (j * 64 + countTrailingZeros (el_bits e ! j))"
proof -
  note c = ctz_ok[OF assms(1)]
  have "\<not> el_mem e i" if "j * 64 \<le> i" "i < j * 64 + countTrailingZeros (el_bits e ! j)" for i
    using el_mem_word[of "i - j * 64" j e] that c(1) c(3)[of "i - j * 64"] assms(2) by auto
  then show ?thesis
    using c(1,2) assms(2,3) by (auto simp: least_from_def el_mem_word not_le)
qed

lemma find_first_ok:
  assumes "el_wf e"
  shows "\<exists>n. el_find_first e = Some n \<and> least_from (el_mem e) 0 n"
proof -
  have z: "\<not> el_mem e i" if "el_bits e ! 0 = 0" "i < 64" for i
    using that el_mem_word[of i 0 e] by simp
  have "el_bits e ! 0 \<noteq> 0 \<or> el_bits e ! 1 \<noteq> 0" using assms by (auto simp: el_wf_def el_empty_def)
  then show ?thesis
    using ctz_least[of e 0 0] ctz_least[of e 1 0] z by (auto simp: el_find_first_def)
qed

lemma find_next_ok:
  assumes "cur < 128"
  shows "case el_find_next e cur of None \<Rightarrow> \<forall>i \<ge> cur. \<not> el_mem e i | Some n \<Rightarrow> least_from (el_mem e) cur n"
proof -
  let ?w = "cur div 64" and ?b = "cur mod 64"
  let ?copy = "el_bits e ! ?w AND push_bit ?b (NOT 0)"
  have w: "?w < 2" "cur = ?w * 64 + ?b" using assms by auto
  have bit_copy: "bit ?copy i \<longleftrightarrow> ?b \<le> i \<and> bit (el_bits e ! ?w) i" if "i < 64" for i
    using that by (auto simp: bit_and_iff bit_push_bit_iff bit_not_iff bit_mask_iff)
  have same: "el_mem e i \<longleftrightarrow> bit ?copy (i - ?w * 64)" if "cur \<le> i" "i < ?w * 64 + 64" for i
  proof -
    have "i - ?w * 64 < 64" "?b \<le> i - ?w * 64" "?w * 64 + (i - ?w * 64) = i" using that w(2) by linarith+
    then show ?thesis using w(1) el_mem_word[of "i - ?w * 64" ?w e] bit_copy[of "i - ?w * 64"] by metis
  qed
  show ?thesis
  proof (cases "?copy = 0")
    case False
    note c = ctz_ok[OF False]
    have "least_from (el_mem e) cur (?w * 64 + countTrailingZeros ?copy)"
    proof -
      have "?b \<le> countTrailingZeros ?copy" using bit_copy[OF c(1)] c(2) by simp
      then have ge: "cur \<le> ?w * 64 + countTrailingZeros ?copy" using w(2) by linarith
      have "\<not> el_mem e i" if "cur \<le> i" "i < ?w * 64 + countTrailingZeros ?copy" for i
        using same[of i] that c(1) c(3)[of "i - ?w * 64"] by linarith
      moreover have "el_mem e (?w * 64 + countTrailingZeros ?copy)"
        using same[OF ge] c(1,2) by simp
      ultimately show ?thesis using ge by (simp add: least_from_def)
    qed
    then show ?thesis using False assms by (simp add: el_find_next_def Let_def)
  next
    case True
    have none: "\<not> el_mem e i" if "cur \<le> i" "i < ?w * 64 + 64" for i
      using same[OF that] by (simp only: True bit_0_eq bot_fun_def bot_bool_def not_False_eq_True)
    show ?thesis
    proof (cases "?w = 0")
      case w0: True
      then have none': "\<not> el_mem e i" if "cur \<le> i" "i < 1 * 64" for i using none that by simp
      have "el_find_next e cur = (if el_bits e ! 1 \<noteq> 0 then Some (1 * 64 + countTrailingZeros (el_bits e ! 1)) else None)"
        using True assms w0 by (simp add: el_find_next_def Let_def upt_rec)
      moreover have "least_from (el_mem e) cur (1 * 64 + countTrailingZeros (el_bits e ! 1))"
        if "el_bits e ! 1 \<noteq> 0"
        by (rule ctz_least) (use that none' w w0 in auto)
      moreover have "\<not> el_mem e i" if "el_bits e ! 1 = 0" "cur \<le> i" for i
      proof (cases "64 \<le> i \<and> i < 128")
        case True
        then have "1 * 64 + (i - 64) = i" "i - 64 < 64" by auto
        then show ?thesis using el_mem_word[of "i - 64" 1 e] that(1) by simp
      qed (use none'[OF that(2)] in \<open>auto simp: el_mem_def\<close>)
      ultimately show ?thesis by auto
    next
      case False
      then have "?w = 1" using w(1) by linarith
      then have "el_find_next e cur = None" "\<forall>i \<ge> cur. \<not> el_mem e i"
        using True assms none by (auto simp: el_find_next_def Let_def el_mem_def not_le)
      then show ?thesis by simp
    qed
  qed
qed

lemma skip_zeros_ok:
  "w \<noteq> 0 \<Longrightarrow> n + countTrailingZeros w < 2 ^ 32 \<Longrightarrow>
   skip_zeros w n = (drop_bit (countTrailingZeros w) w, n + countTrailingZeros w)"
proof (induction w n rule: skip_zeros.induct)
  case (1 w n)
  note c = ctz_ok[OF 1(2)]
  show ?case
  proof (cases "bit w 0")
    case True
    then have "countTrailingZeros w = 0" using c(3) by blast
    moreover have "w AND 1 \<noteq> 0" using True by (simp add: and_one_eq bit_0 odd_iff_mod_2_eq_one)
    ultimately show ?thesis by (subst skip_zeros.simps) simp
  next
    case False
    then have a: "w AND 1 = 0" by (simp add: and_one_eq bit_0 even_iff_mod_2_eq_zero)
    have pos: "0 < countTrailingZeros w" using False c(2) by (metis gr0I)
    let ?d = "drop_bit 1 w"
    have nz: "?d \<noteq> 0"
      using c(1,2) pos by (auto simp: bit_eq_iff bit_drop_bit_eq intro!: exI[of _ "countTrailingZeros w - 1"])
    note d = ctz_ok[OF nz]
    have "countTrailingZeros ?d = countTrailingZeros w - 1"
    proof (rule antisym)
      show "countTrailingZeros ?d \<le> countTrailingZeros w - 1"
        using d(3)[of "countTrailingZeros w - 1"] c(2) pos by (force simp: bit_drop_bit_eq)
      show "countTrailingZeros w - 1 \<le> countTrailingZeros ?d"
        using c(3)[of "countTrailingZeros ?d + 1"] d(2) by (force simp: bit_drop_bit_eq)
    qed
    then show ?thesis
      using 1 a nz pos by (subst skip_zeros.simps) (simp add: drop_bit_drop_bit[symmetric] drop_bit_Suc flip: One_nat_def)
  qed
qed

lemma skip_zeros_0: "skip_zeros 0 n = (0, n)"
  by (simp add: skip_zeros.simps)

text \<open>Where the iterator stands: on a bit of its element, with the rest of the word in \<open>si_Bits\<close>.\<close>

definition si_ok :: "sbv \<Rightarrow> sbv_iter \<Rightarrow> bool" where
  "si_ok s it \<longleftrightarrow> \<not> si_AtEnd it \<and> si_pos it < length (sb_elems s) \<and>
    (let e = sb_elems s ! si_pos it; n = si_BitNumber it
     in n div 128 = el_index e \<and> el_mem e (n mod 128) \<and>
        si_Bits it = drop_bit (n mod 64) (el_bits e ! (n mod 128 div 64)))"

lemma si_ok_upd:
  assumes "\<not> si_AtEnd it" "si_pos it < length (sb_elems s)" "sb_elems s ! si_pos it = e"
    and "n div 128 = el_index e" "n mod 128 = y" "el_mem e y" "n mod 64 = k" "y div 64 = w"
    and "b = drop_bit k (el_bits e ! w)"
  shows "si_ok s (it\<lparr>si_Bits := b, si_BitNumber := n\<rparr>)"
  using assms by (simp add: si_ok_def)

lemma mem_sb_set:
  assumes "sb_inv s"
  shows "n \<in> sb_set s \<longleftrightarrow>
    (\<exists>p < length (sb_elems s). el_index (sb_elems s ! p) = n div 128 \<and> el_mem (sb_elems s ! p) (n mod 128))"
proof -
  have wf: "sb_wf (sb_elems s)" using assms by (simp add: sb_inv_def)
  have m: "el_mem e (n mod 128) \<longleftrightarrow> bit (el_word e (n div 64)) (n mod 64)" if "el_index e = n div 128" for e
    using that by (simp add: el_mem_def el_word_def idx_split)
  have "bit (sb_word es (n div 64)) i \<longleftrightarrow> (\<exists>e \<in> set es. el_index e = n div 128 \<and> bit (el_word e (n div 64)) i)"
    for es i
    by (induction es) (auto simp: bit_or_iff el_word_def idx_split)
  then show ?thesis
    unfolding sb_set_def mem_bits_of using m by (metis in_set_conv_nth)
qed

lemma mem_elem:
  assumes "sb_inv s" "p < length (sb_elems s)" "n div 128 = el_index (sb_elems s ! p)"
  shows "n \<in> sb_set s \<longleftrightarrow> el_mem (sb_elems s ! p) (n mod 128)"
proof -
  have wf: "sb_wf (sb_elems s)" using assms by (simp add: sb_inv_def)
  have "q = p" if "q < length (sb_elems s)" "el_index (sb_elems s ! q) = n div 128" for q
    using sb_wf_nth[OF wf, of p q] sb_wf_nth[OF wf, of q p] that assms(2,3) by (metis less_irrefl linorder_neqE_nat)
  then show ?thesis using mem_sb_set[OF assms(1)] assms(2,3) by metis
qed

lemma least_in_elem:
  assumes "sb_inv s" "p < length (sb_elems s)" "least_from (el_mem (sb_elems s ! p)) a n" 
  shows "least_from (\<lambda>m. m \<in> sb_set s) (el_index (sb_elems s ! p) * 128 + a) (el_index (sb_elems s ! p) * 128 + n)"
proof -
  let ?e = "sb_elems s ! p"
  have n: "n < 128" using assms(3) by (simp add: least_from_def el_mem_def)
  have in_e: "el_index ?e * 128 + i \<in> sb_set s \<longleftrightarrow> el_mem ?e i" if "i < 128" for i
    using mem_elem[OF assms(1,2), of "el_index ?e * 128 + i"] that by simp
  have "m \<notin> sb_set s" if "el_index ?e * 128 + a \<le> m" "m < el_index ?e * 128 + n" for m
    using in_e[of "m - el_index ?e * 128"] assms(3) that n by (auto simp: least_from_def)
  then show ?thesis using in_e[OF n] assms(3) by (auto simp: least_from_def)
qed

text \<open>From an element with nothing left to the next one.\<close>

lemma gap_after_elem:
  assumes inv: "sb_inv s" and p: "p < length (sb_elems s)" and none: "\<forall>i \<ge> a. \<not> el_mem (sb_elems s ! p) i"
    and m: "el_index (sb_elems s ! p) * 128 + a \<le> m" "m \<in> sb_set s"
  shows "Suc p < length (sb_elems s) \<and> el_index (sb_elems s ! Suc p) * 128 \<le> m"
proof -
  let ?e = "sb_elems s ! p"
  have wf: "sb_wf (sb_elems s)" using inv by (simp add: sb_inv_def)
  obtain q where q: "q < length (sb_elems s)" "el_index (sb_elems s ! q) = m div 128"
    "el_mem (sb_elems s ! q) (m mod 128)"
    using m(2) mem_sb_set[OF inv] by auto
  have "el_index ?e \<le> m div 128" using m(1) by linarith
  then have "\<not> q < p" using sb_wf_nth[OF wf, of q p] q(2) p by linarith
  moreover have "q \<noteq> p"
  proof
    assume "q = p"
    then have "a \<le> m mod 128" using m(1) q(2) by (metis add_le_cancel_left div_mult_mod_eq)
    then show False using none q(3) \<open>q = p\<close> by blast
  qed
  ultimately have "Suc p \<le> q" by simp
  then have "el_index (sb_elems s ! Suc p) \<le> el_index (sb_elems s ! q)"
    using sb_wf_nth[OF wf, of "Suc p" q] q(1) by (cases "q = Suc p") auto
  then show ?thesis using \<open>Suc p \<le> q\<close> q by linarith
qed

lemma least_enter:
  assumes "sb_inv s" "p < length (sb_elems s)" "least_from (el_mem (sb_elems s ! p)) 0 n"
    and "\<And>m. m \<in> sb_set s \<Longrightarrow> lo \<le> m \<Longrightarrow> el_index (sb_elems s ! p) * 128 \<le> m"
    and "lo \<le> el_index (sb_elems s ! p) * 128 + n"
  shows "least_from (\<lambda>m. m \<in> sb_set s) lo (el_index (sb_elems s ! p) * 128 + n)"
  using least_in_elem[OF assms(1-3)] assms(4,5) by (auto simp: least_from_def)

lemma enter_elem_ok:
  assumes "sb_inv s" "\<not> si_AtEnd it" "si_pos it < length (sb_elems s)" "el_mem (sb_elems s ! si_pos it) n"
  shows "si_ok s (sbv_enter_elem (sb_elems s ! si_pos it) n it)"
    "si_BitNumber (sbv_enter_elem (sb_elems s ! si_pos it) n it) = el_index (sb_elems s ! si_pos it) * 128 + n"
proof -
  let ?e = "sb_elems s ! si_pos it"
  have "el_index ?e < 2 ^ 25"
    using assms(1,3) by (auto simp: sb_inv_def sb_wf_def list_all_length el_wf_def)
  moreover have n: "n < 128" using assms(4) by (simp add: el_mem_def)
  ultimately have "el_index ?e * 128 + n < 2 ^ 32" by simp
  moreover have "(el_index ?e * 128 + n) mod 64 = n mod 64"
    using mod_mod_cancel[of 64 128 "el_index ?e * 128 + n"] n by simp
  ultimately show "si_ok s (sbv_enter_elem ?e n it)"
    "si_BitNumber (sbv_enter_elem ?e n it) = el_index ?e * 128 + n"
    using assms(2-4) n by (simp_all add: si_ok_def sbv_enter_elem_def Let_def)
qed

definition si_next_ok :: "sbv \<Rightarrow> nat \<Rightarrow> sbv_iter \<Rightarrow> bool" where
  "si_next_ok s a it \<longleftrightarrow>
    (if si_AtEnd it then \<forall>m \<in> sb_set s. m < a
     else si_ok s it \<and> least_from (\<lambda>m. m \<in> sb_set s) a (si_BitNumber it))"

lemma iter_new_ok:
  assumes "sb_inv s"
  shows "wp (sbv_iter_new s False) (si_next_ok s 0)" "wp (sbv_iter_new s True) si_AtEnd"
proof -
  let ?it = "\<lparr>si_AtEnd = False, si_pos = 0, si_BitNumber = 0, si_WordNumber = 2 ^ 32 - 1, si_Bits = 0\<rparr>"
  show "wp (sbv_iter_new s False) (si_next_ok s 0)"
  proof (cases "sb_elems s = []")
    case True
    then have "sb_set s = {}" by (simp add: sb_set_def)
    then show ?thesis
      using True by (simp add: sbv_iter_new_def sbv_AdvanceToFirstNonZero_def si_next_ok_def)
  next
    case False
    let ?e = "sb_elems s ! 0"
    have wf: "el_wf ?e" using assms False by (auto simp: sb_inv_def sb_wf_def list_all_length)
    obtain n where n: "el_find_first ?e = Some n" "least_from (el_mem ?e) 0 n"
      using find_first_ok[OF wf] by blast
    have "n < 128" using n(2) by (simp add: least_from_def el_mem_def)
    moreover have "el_index ?e < 2 ^ 25" using wf by (simp add: el_wf_def)
    ultimately have "sbv_iter_new s False = Some (sbv_enter_elem ?e n ?it)"
      using False n(1) by (simp add: sbv_iter_new_def sbv_AdvanceToFirstNonZero_def sbv_enter_elem_def Let_def)
    moreover have "si_ok s (sbv_enter_elem ?e n ?it)" "si_BitNumber (sbv_enter_elem ?e n ?it) = el_index ?e * 128 + n"
      using enter_elem_ok[OF assms, of ?it n] False n(2) by (simp_all add: least_from_def)
    moreover have "least_from (\<lambda>m. m \<in> sb_set s) 0 (el_index ?e * 128 + n)"
    proof (rule least_enter[OF assms _ n(2)])
      fix m assume "m \<in> sb_set s"
      then obtain q where q: "q < length (sb_elems s)" "el_index (sb_elems s ! q) = m div 128"
        using mem_sb_set[OF assms] by auto
      have "el_index ?e \<le> el_index (sb_elems s ! q)"
        using sb_wf_nth[of "sb_elems s" 0 q] assms q(1) by (cases q) (auto simp: sb_inv_def)
      then show "el_index ?e * 128 \<le> m" using q(2) by linarith
    qed (use False in simp_all)
    ultimately show ?thesis by (simp add: si_next_ok_def) (simp add: si_ok_def)
  qed
  show "wp (sbv_iter_new s True) si_AtEnd"
    by (simp add: sbv_iter_new_def sbv_AdvanceToFirstNonZero_def)
qed

lemma block_split:
  fixes m x y w b :: nat
  assumes "m = x * 128 + y" "y = w * 64 + b" "b < 64" "w < 2"
  shows "m div 128 = x" "m mod 128 = y" "m mod 64 = b" "y div 64 = w"
proof -
  have y: "y < 128" using assms(2-4) by linarith
  show d: "m div 128 = x" "m mod 128 = y" using assms(1) y by simp_all
  show "y div 64 = w" using assms(2,3) by simp
  have "y mod 64 = b" using assms(2,3) by simp
  then show "m mod 64 = b" using idx_split(2)[of m] d(2) by simp
qed

lemma iter_next_ok:
  assumes inv: "sb_inv s" and it: "si_ok s it"
  shows "wp (sbv_iter_next s it) (si_next_ok s (si_BitNumber it + 1))"
proof -
  define p n where "p = si_pos it" and "n = si_BitNumber it"
  define e where "e = sb_elems s ! p"
  define a where "a = n mod 128 + 1"
  let ?W = "el_bits e ! (n mod 128 div 64)"
  have p: "p < length (sb_elems s)" and ae: "\<not> si_AtEnd it" and idx: "n div 128 = el_index e"
    and bits: "si_Bits it = drop_bit (n mod 64) ?W" and mem: "el_mem e (n mod 128)"
    using it by (auto simp: si_ok_def Let_def e_def p_def n_def)
  have wf: "el_wf e" using inv p by (auto simp: sb_inv_def sb_wf_def list_all_length e_def)
  have n32: "n < 2 ^ 32" using idx wf by (auto simp: el_wf_def)
  have n128: "n = el_index e * 128 + n mod 128" using idx by (metis div_mult_mod_eq)
  have na: "n + 1 = el_index e * 128 + a" unfolding a_def using n128 by linarith
  have n64: "n mod 128 = n mod 128 div 64 * 64 + n mod 64" by (metis div_mult_mod_eq idx_split(2))
  have lift: "least_from (\<lambda>m. m \<in> sb_set s) (n + 1) (el_index e * 128 + k)"
    if "least_from (el_mem e) a k" for k
    unfolding na e_def by (rule least_in_elem[OF inv p that[unfolded e_def]])
  let ?B = "drop_bit 1 (si_Bits it)"
  have B: "bit ?B i \<longleftrightarrow> bit ?W (n mod 64 + 1 + i)" for i
    by (simp add: bits bit_drop_bit_eq add.assoc)
  show ?thesis
  proof (cases "?B = 0")
    case False
    let ?c = "countTrailingZeros ?B"
    note c = ctz_ok[OF False]
    have cl: "n mod 64 + 1 + ?c < 64"
    proof (rule ccontr)
      assume "\<not> n mod 64 + 1 + ?c < 64"
      then have "\<not> bit ?W (n mod 64 + 1 + ?c)" using bit_imp_le_length[of ?W] by force
      then show False using c(2) B by blast
    qed
    let ?n = "n + 1 + ?c" and ?w = "n mod 128 div 64"
    have w: "?w < 2" by simp
    have ac: "a + ?c = ?w * 64 + (n mod 64 + 1 + ?c)" unfolding a_def using n64 by linarith
    then have ac128: "a + ?c < 128" using cl w by linarith
    have n': "?n = el_index e * 128 + (a + ?c)" using na by simp
    then have split: "?n div 128 = el_index e" "?n mod 128 = a + ?c" "?n mod 64 = n mod 64 + 1 + ?c"
      "(a + ?c) div 64 = ?w"
      using block_split[OF n' ac cl w] by simp_all
    have "?n < 2 ^ 32" using wf n' ac128 by (simp add: el_wf_def)
    then have skip: "skip_zeros ?B ((n + 1) mod 2 ^ 32) = (drop_bit ?c ?B, ?n)"
      using skip_zeros_ok[OF False, of "n + 1"] by simp
    have m: "el_mem e (a + i) \<longleftrightarrow> bit ?B i" if "i \<le> ?c" for i
      using el_mem_word[of "n mod 64 + 1 + i" ?w e] that w cl ac B[of i] by (simp add: ac_simps)
    have "least_from (el_mem e) a (a + ?c)"
      unfolding least_from_def
    proof (intro conjI allI impI)
      show "el_mem e (a + ?c)" using m[of ?c] c(2) by simp
      fix i assume "a \<le> i" "i < a + ?c"
      then show "\<not> el_mem e i" using m[of "i - a"] c(3)[of "i - a"] by simp
    qed simp
    then have least: "least_from (\<lambda>m. m \<in> sb_set s) (n + 1) ?n"
      unfolding n' by (rule lift)
    let ?it = "it\<lparr>si_Bits := drop_bit ?c ?B, si_BitNumber := ?n\<rparr>"
    have nz: "drop_bit ?c ?B \<noteq> 0"
    proof
      assume "drop_bit ?c ?B = 0"
      then have "\<not> bit (drop_bit ?c ?B) 0" by simp
      then show False using c(2) by (simp only: bit_drop_bit_eq comp_def add_0_right)
    qed
    have "sbv_iter_next s it = Some ?it"
      using ae skip nz by (simp add: sbv_iter_next_def sbv_AdvanceToNextNonZero_def n_def Let_def)
    moreover have "si_ok s ?it"
    proof (rule si_ok_upd[OF ae p[unfolded p_def] _ split(1,2) _ split(3,4)])
      show "drop_bit ?c ?B = drop_bit (n mod 64 + 1 + ?c) ?W"
        unfolding bits drop_bit_drop_bit by (simp only: ac_simps)
      show "el_mem e (a + ?c)" using m[of ?c] c(2) by blast
    qed (simp add: e_def p_def)
    ultimately show ?thesis using least ae by (simp add: si_next_ok_def n_def)
  next
    case True
    let ?bn = "(n + 1) mod 2 ^ 32"
    let ?it = "it\<lparr>si_Bits := 0, si_BitNumber := ?bn\<rparr>"
    have bn: "?bn mod 128 = (n + 1) mod 128" by (simp add: mod_mod_cancel)
    have adv: "sbv_iter_next s it =
        (let next = el_find_next e (?bn mod 128)
         in if next = None \<or> ?bn mod 128 = 0
            then if Suc p = length (sb_elems s)
                 then Some (?it\<lparr>si_pos := Suc p, si_WordNumber := 0, si_AtEnd := True\<rparr>)
                 else do {
                   first \<leftarrow> el_find_first (sb_elems s ! Suc p);
                   Some (sbv_enter_elem (sb_elems s ! Suc p) first (?it\<lparr>si_pos := Suc p, si_WordNumber := 0\<rparr>)) }
            else do { k \<leftarrow> next; Some (sbv_enter_elem e k ?it) })"
      using ae p True
      by (simp add: sbv_iter_next_def sbv_AdvanceToNextNonZero_def skip_zeros_0 n_def[symmetric] Let_def
          e_def p_def)
    show ?thesis
    proof (cases "el_find_next e (?bn mod 128) = None \<or> ?bn mod 128 = 0")
      case True
      have none: "\<not> el_mem e i" if "a \<le> i" for i
      proof (cases "?bn mod 128 = 0")
        case True
        then have "a = 128" using bn by (simp add: a_def mod_Suc split: if_splits)
        then show ?thesis using that by (simp add: el_mem_def)
      next
        case False
        then have "?bn mod 128 = a" using bn by (simp add: a_def mod_Suc split: if_splits)
        then show ?thesis
          using find_next_ok[of a e] that True False bn by (simp add: a_def split: option.splits)
      qed
      have gap: "Suc p < length (sb_elems s) \<and> el_index (sb_elems s ! Suc p) * 128 \<le> m"
        if "n + 1 \<le> m" "m \<in> sb_set s" for m
        using gap_after_elem[OF inv p, of a m] none that na by (simp add: e_def)
      show ?thesis
      proof (cases "Suc p = length (sb_elems s)")
        case last: True
        have "m < n + 1" if "m \<in> sb_set s" for m
        proof (rule ccontr)
          assume "\<not> m < n + 1"
          then show False using gap[of m] that last by simp
        qed
        then show ?thesis using adv True last by (auto simp: si_next_ok_def n_def Let_def)
      next
        case False
        let ?f = "sb_elems s ! Suc p"
        have Sp: "Suc p < length (sb_elems s)" using False p by simp
        then have "el_wf ?f" using inv by (auto simp: sb_inv_def sb_wf_def list_all_length)
        then obtain k where k: "el_find_first ?f = Some k" "least_from (el_mem ?f) 0 k"
          using find_first_ok by blast
        have "el_index e < el_index ?f"
          unfolding e_def by (rule sb_wf_nth) (use inv Sp in \<open>simp_all add: sb_inv_def\<close>)
        then have "n + 1 \<le> el_index ?f * 128 + k" using idx by linarith
        then have least: "least_from (\<lambda>m. m \<in> sb_set s) (n + 1) (el_index ?f * 128 + k)"
          using least_enter[OF inv Sp k(2)] gap by blast
        have it': "sbv_iter_next s it = Some (sbv_enter_elem ?f k (?it\<lparr>si_pos := Suc p, si_WordNumber := 0\<rparr>))"
          using adv True False k(1) by (auto simp: Let_def)
        have "el_mem ?f k" using k(2) by (simp add: least_from_def)
        then have "si_ok s (sbv_enter_elem ?f k (?it\<lparr>si_pos := Suc p, si_WordNumber := 0\<rparr>))"
          "si_BitNumber (sbv_enter_elem ?f k (?it\<lparr>si_pos := Suc p, si_WordNumber := 0\<rparr>)) = el_index ?f * 128 + k"
          using enter_elem_ok[OF inv, of "?it\<lparr>si_pos := Suc p, si_WordNumber := 0\<rparr>" k] ae Sp by simp_all
        then show ?thesis using it' least by (simp add: si_next_ok_def n_def) (simp add: si_ok_def)
      qed
    next
      case False
      then obtain k where k: "el_find_next e (?bn mod 128) = Some k" "?bn mod 128 \<noteq> 0" by fastforce
      then have "?bn mod 128 = a" using bn by (simp add: a_def mod_Suc split: if_splits)
      moreover from this have "a < 128" by (metis mod_less_divisor zero_less_numeral)
      ultimately have least: "least_from (el_mem e) a k" using find_next_ok[of a e] k(1) by simp
      then have "least_from (\<lambda>m. m \<in> sb_set s) (n + 1) (el_index e * 128 + k)"
        by (rule lift)
      moreover have "el_mem e k" using least by (simp add: least_from_def)
      ultimately show ?thesis
        using adv k enter_elem_ok[OF inv, of ?it k] ae p
        by (simp add: si_next_ok_def e_def p_def n_def Let_def) (simp add: si_ok_def)
    qed
  qed
qed

lemma sbv_elems_from_ok:
  assumes "sb_inv s" "si_AtEnd end'" "\<forall>m \<in> sb_set s. m < N" "si_next_ok s a it"
  shows "sbv_elems_from s it end' = Some (filter (\<lambda>m. m \<in> sb_set s) [a..<N])"
  using assms(4)
proof (induction "N - a" arbitrary: a it rule: less_induct)
  case less
  show ?case
  proof (cases "si_AtEnd it")
    case True
    then have "filter (\<lambda>m. m \<in> sb_set s) [a..<N] = []"
      using less.prems by (auto simp: si_next_ok_def filter_empty_conv)
    then show ?thesis
      using True assms(2) by (subst sbv_elems_from.simps) (simp add: sbv_iter_eq_def)
  next
    case False
    let ?n = "si_BitNumber it"
    have it: "si_ok s it" "least_from (\<lambda>m. m \<in> sb_set s) a ?n"
      using less.prems False by (simp_all add: si_next_ok_def)
    then have n: "a \<le> ?n" "?n \<in> sb_set s" "?n < N" "\<And>i. a \<le> i \<Longrightarrow> i < ?n \<Longrightarrow> i \<notin> sb_set s"
      using assms(3) by (auto simp: least_from_def)
    obtain it' where it': "sbv_iter_next s it = Some it'" "si_next_ok s (?n + 1) it'"
      using iter_next_ok[OF assms(1) it(1)] by (auto simp: wp_iff)
    have "sbv_elems_from s it' end' = Some (filter (\<lambda>m. m \<in> sb_set s) [?n + 1..<N])"
      by (rule less.hyps[OF _ it'(2)]) (use n(1,3) in simp)
    moreover have "[a..<N] = [a..<?n] @ ?n # [?n + 1..<N]"
      using n(1,3) by (metis Suc_eq_plus1 upt_add_eq_append upt_conv_Cons le_iff_add less_imp_le)
    moreover have "filter (\<lambda>m. m \<in> sb_set s) [a..<?n] = []"
      using n(4) by (simp add: filter_empty_conv)
    ultimately show ?thesis
      using False assms(2) it'(1) n(2) by (subst sbv_elems_from.simps) (simp add: sbv_iter_eq_def)
  qed
qed

text \<open>A range \<^verbatim>\<open>for\<close> over a vector visits the set bits, each once, in increasing order.\<close>

theorem sbv_elems_ok:
  assumes "sb_inv s"
  shows "\<exists>xs. sbv_elems s = Some xs \<and> set xs = sb_set s \<and> sorted xs \<and> distinct xs"
proof -
  obtain it end' where it: "sbv_iter_new s False = Some it" "si_next_ok s 0 it"
    "sbv_iter_new s True = Some end'" "si_AtEnd end'"
    using iter_new_ok[OF assms] by (auto simp: wp_iff)
  obtain N :: nat where N: "\<forall>m \<in> sb_set s. m < N" using sb_set_bound[OF assms] by blast
  have "sbv_elems s = Some (filter (\<lambda>m. m \<in> sb_set s) [0..<N])"
    using it sbv_elems_from_ok[OF assms it(4) N it(2)] by (simp add: sbv_elems_def)
  then show ?thesis using N by (auto simp: sorted_wrt_filter)
qed

subsection \<open>Count, first and last element\<close>

lemma card_el_mem:
  assumes "length (el_bits e) = 2"
  shows "card {i. el_mem e i} = el_count e" "finite {i. el_mem e i}"
proof -
  let ?S = "\<lambda>j. {i. i < 64 \<and> bit (el_bits e ! j) i}"
  have eq: "{i. el_mem e i} = ?S 0 \<union> (+) 64 ` ?S 1"
  proof (intro set_eqI iffI)
    fix i assume i: "i \<in> {i. el_mem e i}"
    show "i \<in> ?S 0 \<union> (+) 64 ` ?S 1"
    proof (cases "i < 64")
      case False
      then have d: "i div 64 = 1" using i by (auto simp: el_mem_def)
      then have "i = 64 + i mod 64" using div_mult_mod_eq[of i 64] by linarith
      then show ?thesis using i d by (intro UnI2 image_eqI[of i _ "i mod 64"]) (simp_all add: el_mem_def)
    qed (use i in \<open>simp add: el_mem_def\<close>)
  qed (auto simp: el_mem_def div_add_self1)
  have card: "card (?S j) = countPopulation (el_bits e ! j)" for j
  proof -
    have "?S j = set (filter (bit (el_bits e ! j)) [0..<64])" by (simp only: set_filter set_upt) auto
    then show ?thesis unfolding countPopulation_def by (metis distinct_card distinct_filter distinct_upt)
  qed
  have "card (?S 0 \<union> (+) 64 ` ?S 1) = card (?S 0) + card ((+) 64 ` ?S 1)"
    by (rule card_Un_disjoint) auto
  also have "card ((+) 64 ` ?S 1) = card (?S 1)" by (simp add: card_image)
  finally show "card {i. el_mem e i} = el_count e"
    unfolding eq card by (simp add: el_count_def)
  show "finite {i. el_mem e i}" unfolding eq by simp
qed

lemma bits_of_el_word: "bits_of (el_word e) = (\<lambda>i. el_index e * 128 + i) ` {i. el_mem e i}"
proof (intro set_eqI iffI)
  fix n assume "n \<in> bits_of (el_word e)"
  then have n: "n div 128 = el_index e" "bit (el_bits e ! (n div 64 mod 2)) (n mod 64)"
    by (auto simp: mem_bits_of el_word_def idx_split split: if_splits)
  then have "el_mem e (n mod 128)" by (simp add: el_mem_def idx_split)
  moreover have "n = el_index e * 128 + n mod 128" using n(1) by (metis div_mult_mod_eq)
  ultimately show "n \<in> (\<lambda>i. el_index e * 128 + i) ` {i. el_mem e i}" by blast
next
  fix n assume "n \<in> (\<lambda>i. el_index e * 128 + i) ` {i. el_mem e i}"
  then obtain i where i: "n = el_index e * 128 + i" "el_mem e i" by blast
  then have "n div 128 = el_index e" "n mod 128 = i" by (simp_all add: el_mem_def)
  then show "n \<in> bits_of (el_word e)"
    using i(2) idx_split[of n] by (simp add: mem_bits_of el_word_def el_mem_def)
qed

lemma card_sb_word:
  "sb_wf es \<Longrightarrow> finite (bits_of (sb_word es)) \<and> card (bits_of (sb_word es)) = (\<Sum>e \<leftarrow> es. el_count e)"
proof (induction es)
  case (Cons e es)
  have "bits_of (el_word e) \<inter> bits_of (sb_word es) = {}"
  proof -
    have "el_word e k AND sb_word es k = 0" for k
      using sb_word_tl[OF Cons.prems, of k] by (cases "k div 2 = el_index e") simp_all
    then show ?thesis by (simp add: bits_of_and[symmetric] bits_of_eq_empty)
  qed
  moreover have "card (bits_of (el_word e)) = el_count e" "finite (bits_of (el_word e))"
    using Cons.prems card_el_mem[of e] unfolding bits_of_el_word
    by (auto simp: card_image inj_on_def el_wf_def)
  moreover have "sb_word (e # es) = (\<lambda>k. el_word e k OR sb_word es k)" by (simp add: fun_eq_iff)
  ultimately show ?case
    using Cons by (simp add: bits_of_or card_Un_disjoint)
qed simp

lemma fold_el_count:
  "fold (\<lambda>e n. (n + el_count e) mod 2 ^ 32) es n mod 2 ^ 32 = (n + (\<Sum>e \<leftarrow> es. el_count e)) mod 2 ^ 32"
  by (induction es arbitrary: n) (simp_all add: mod_add_left_eq add.assoc del: power_numeral)

theorem sbv_count_ok:
  assumes "sb_inv s"
  shows "sbv_count s = card (sb_set s) mod 2 ^ 32"
proof -
  have "sbv_count s mod 2 ^ 32 = card (sb_set s) mod 2 ^ 32"
    using card_sb_word[of "sb_elems s"] assms
    by (simp add: sbv_count_def fold_el_count sb_inv_def sb_set_def del: power_numeral)
  moreover have "fold (\<lambda>e n. (n + el_count e) mod 2 ^ 32) es n < 2 ^ 32" if "n < 2 ^ 32" for es n
    using that by (induction es arbitrary: n) auto
  then have "sbv_count s < 2 ^ 32" by (simp add: sbv_count_def)
  ultimately show ?thesis by simp
qed

theorem sbv_find_first_ok:
  assumes "sb_inv s"
  shows "sbv_find_first s = Some (if sb_set s = {} then - 1 else int (LEAST n. n \<in> sb_set s))"
proof (cases "sb_elems s")
  case Nil
  then have "sb_set s = {}" by (simp add: sb_set_def)
  then show ?thesis using Nil by (simp add: sbv_find_first_def)
next
  case (Cons e es)
  obtain it where it: "sbv_iter_new s False = Some it" "si_next_ok s 0 it"
    using iter_new_ok(1)[OF assms] by (auto simp: wp_iff)
  obtain n where n: "el_find_first e = Some n" "least_from (el_mem e) 0 n"
    using find_first_ok[of e] assms Cons by (auto simp: sb_inv_def)
  have "el_index e * 128 + n < 2 ^ 32"
    using n(2) assms Cons by (auto simp: least_from_def el_mem_def sb_inv_def el_wf_def)
  then have bn: "si_BitNumber it = el_index e * 128 + n" "\<not> si_AtEnd it"
    using it(1) Cons n(1) by (auto simp: sbv_iter_new_def sbv_AdvanceToFirstNonZero_def Let_def)
  then have "least_from (\<lambda>m. m \<in> sb_set s) 0 (el_index e * 128 + n)"
    using it(2) by (simp add: si_next_ok_def)
  then have "(LEAST m. m \<in> sb_set s) = el_index e * 128 + n" "sb_set s \<noteq> {}"
    by (auto simp: least_from_def not_less intro!: Least_equality intro: leI)
  then show ?thesis using Cons n(1) by (simp add: sbv_find_first_def)
qed

subsection \<open>Hashing agrees with equality\<close>

lemma find_last_some: "el_wf e \<Longrightarrow> el_find_last e \<noteq> None"
  by (auto simp: el_wf_def el_empty_def el_find_last_def split: list.splits if_splits)

theorem sbv_hash_ok:
  assumes "sb_inv s" "sb_inv t"
  shows "\<exists>k. sbv_hash h s = Some k \<and> (sb_set s = sb_set t \<longrightarrow> sbv_hash h t = Some k)"
proof -
  have "el_wf (last (sb_elems s))" if "sb_elems s \<noteq> []"
    using assms(1) last_in_set[OF that] by (auto simp: sb_inv_def sb_wf_def list_all_iff)
  then have "sbv_find_last s \<noteq> None"
    using find_last_some by (auto simp: sbv_find_last_def Let_def)
  then obtain k where "sbv_hash h s = Some k"
    using sbv_find_first_ok[OF assms(1)] by (auto simp: sbv_hash_def)
  moreover have "sbv_hash h t = sbv_hash h s" if "sb_set s = sb_set t"
  proof -
    have "sb_elems s = sb_elems t" using that sb_set_inject[OF assms] by simp
    then show ?thesis
      by (simp add: sbv_hash_def sbv_find_first_def sbv_find_last_def sbv_count_def)
  qed
  ultimately show ?thesis by auto
qed

end
