(* ===== verification/PointsTo.thy ===== *)
theory PointsTo
  imports Core_Bit_Vector Sparse_Bit_Vector
begin

text \<open>
  \<^verbatim>\<open>class PointsTo\<close> (\<^verbatim>\<open>svf/lib/MemoryModel/PointsTo.cpp\<close>): a points-to set held in one of
  three bit vectors, with an optional renaming of the nodes. \<open>pts_of E p\<close> is the set of
  (external) nodes, \<open>pt_inv E p\<close> the invariant; every operation is shown to do on \<open>pts_of\<close>
  what its comment in \<^verbatim>\<open>PointsTo.h\<close> says.

  A \<^verbatim>\<open>MappingPtr\<close> is an address, compared by \<^verbatim>\<open>==\<close> as a pointer; the environment holds
  the vectors at the addresses, the two static members and the options. The union of the three
  vectors is the datatype \<open>pt_store\<close>; reading another member than the one last written is
  undefined in C++ and \<open>None\<close> here, as is a failed assertion.
\<close>

subsection \<open>State\<close>

datatype pt_type = SBV | CBV | BV

datatype pt_store = St_SBV sbv | St_CBV cbv | St_BV cbv

record pt_env =
  pe_PtType :: pt_type
  pe_currentBestNodeMapping :: "nat option"
  pe_currentBestReverseNodeMapping :: "nat option"
  pe_vec :: "nat \<Rightarrow> nat list"
  pe_hash :: "64 word \<Rightarrow> 64 word"

record points_to =
  pt_store :: pt_store
  pt_nodeMapping :: "nat option"
  pt_reverseNodeMapping :: "nat option"

definition pt_new :: "pt_env \<Rightarrow> points_to" where
  "pt_new E =
    \<lparr>pt_store = (case pe_PtType E of SBV \<Rightarrow> St_SBV sbv_new | CBV \<Rightarrow> St_CBV (cbv_new 0) | BV \<Rightarrow> St_BV (bv_new 0)),
     pt_nodeMapping = pe_currentBestNodeMapping E,
     pt_reverseNodeMapping = pe_currentBestReverseNodeMapping E\<rparr>"

text \<open>Copy construction and copy assignment; the copy of a sparse vector starts at its beginning.\<close>

definition pt_copy :: "points_to \<Rightarrow> points_to" where
  "pt_copy p = p\<lparr>pt_store := (case pt_store p of
      St_SBV s \<Rightarrow> St_SBV (s\<lparr>sb_curr := 0\<rparr>) | St_CBV c \<Rightarrow> St_CBV c | St_BV c \<Rightarrow> St_BV c)\<rparr>"

definition pt_getInternalNode :: "pt_env \<Rightarrow> points_to \<Rightarrow> nat \<Rightarrow> nat option" where
  "pt_getInternalNode E p n = (case pt_nodeMapping p of
      None \<Rightarrow> Some n
    | Some a \<Rightarrow> do { ensure (n < length (pe_vec E a)); Some (pe_vec E a ! n) })"

definition pt_getExternalNode :: "pt_env \<Rightarrow> points_to \<Rightarrow> nat \<Rightarrow> nat option" where
  "pt_getExternalNode E p n = (case pt_reverseNodeMapping p of
      None \<Rightarrow> Some n
    | Some a \<Rightarrow> do { ensure (n < length (pe_vec E a)); Some (pe_vec E a ! n) })"

definition pt_metaSame :: "points_to \<Rightarrow> points_to \<Rightarrow> bool" where
  "pt_metaSame p q \<longleftrightarrow> pt_nodeMapping p = pt_nodeMapping q \<and>
    pt_reverseNodeMapping p = pt_reverseNodeMapping q"

subsection \<open>Operations on one set\<close>

definition pt_empty :: "points_to \<Rightarrow> bool" where
  "pt_empty p = (case pt_store p of
      St_CBV c \<Rightarrow> cbv_empty c | St_SBV s \<Rightarrow> sbv_empty s | St_BV c \<Rightarrow> cbv_empty c)"

definition pt_count :: "points_to \<Rightarrow> nat" where
  "pt_count p = (case pt_store p of
      St_CBV c \<Rightarrow> cbv_count c | St_SBV s \<Rightarrow> sbv_count s | St_BV c \<Rightarrow> cbv_count c)"

definition pt_clear :: "points_to \<Rightarrow> points_to" where
  "pt_clear p = p\<lparr>pt_store := (case pt_store p of
      St_CBV c \<Rightarrow> St_CBV (cbv_clear c) | St_SBV s \<Rightarrow> St_SBV (sbv_clear s) | St_BV c \<Rightarrow> St_BV (cbv_clear c))\<rparr>"

text \<open>\<^verbatim>\<open>test\<close> is a \<^verbatim>\<open>const\<close> method; the cached position that it moves is not a part of the set.\<close>

definition pt_test :: "pt_env \<Rightarrow> points_to \<Rightarrow> nat \<Rightarrow> bool option" where
  "pt_test E p n = do {
     n \<leftarrow> pt_getInternalNode E p n;
     Some (case pt_store p of
       St_CBV c \<Rightarrow> cbv_test c n | St_SBV s \<Rightarrow> fst (sbv_test s n) | St_BV c \<Rightarrow> cbv_test c n) }"

definition pt_test_and_set :: "pt_env \<Rightarrow> points_to \<Rightarrow> nat \<Rightarrow> (bool \<times> points_to) option" where
  "pt_test_and_set E p n = do {
     n \<leftarrow> pt_getInternalNode E p n;
     Some (case pt_store p of
       St_CBV c \<Rightarrow> (case cbv_test_and_set c n of (b, c') \<Rightarrow> (b, p\<lparr>pt_store := St_CBV c'\<rparr>))
     | St_SBV s \<Rightarrow> (case sbv_test_and_set s n of (b, s') \<Rightarrow> (b, p\<lparr>pt_store := St_SBV s'\<rparr>))
     | St_BV c \<Rightarrow> (case cbv_test_and_set c n of (b, c') \<Rightarrow> (b, p\<lparr>pt_store := St_BV c'\<rparr>))) }"

definition pt_set :: "pt_env \<Rightarrow> points_to \<Rightarrow> nat \<Rightarrow> points_to option" where
  "pt_set E p n = do {
     n \<leftarrow> pt_getInternalNode E p n;
     Some (p\<lparr>pt_store := (case pt_store p of
       St_CBV c \<Rightarrow> St_CBV (cbv_set c n) | St_SBV s \<Rightarrow> St_SBV (sbv_set s n) | St_BV c \<Rightarrow> St_BV (cbv_set c n))\<rparr>) }"

definition pt_reset :: "pt_env \<Rightarrow> points_to \<Rightarrow> nat \<Rightarrow> points_to option" where
  "pt_reset E p n = do {
     n \<leftarrow> pt_getInternalNode E p n;
     Some (p\<lparr>pt_store := (case pt_store p of
       St_CBV c \<Rightarrow> St_CBV (cbv_reset c n) | St_SBV s \<Rightarrow> St_SBV (sbv_reset s n) | St_BV c \<Rightarrow> St_BV (cbv_reset c n))\<rparr>) }"

definition pt_hash :: "pt_env \<Rightarrow> points_to \<Rightarrow> 64 word option" where
  "pt_hash E p = (case pt_store p of
      St_CBV c \<Rightarrow> Some (cbv_hash c) | St_SBV s \<Rightarrow> sbv_hash (pe_hash E) s | St_BV c \<Rightarrow> Some (cbv_hash c))"

subsection \<open>Operations on two sets\<close>

definition pt_contains :: "points_to \<Rightarrow> points_to \<Rightarrow> bool option" where
  "pt_contains p q = do {
     ensure (pt_metaSame p q);
     case (pt_store p, pt_store q) of
       (St_CBV a, St_CBV b) \<Rightarrow> cbv_contains a b
     | (St_SBV a, St_SBV b) \<Rightarrow> Some (sbv_contains a b)
     | (St_BV a, St_BV b) \<Rightarrow> cbv_contains a b
     | _ \<Rightarrow> None }"

definition pt_intersects :: "points_to \<Rightarrow> points_to \<Rightarrow> bool option" where
  "pt_intersects p q = do {
     ensure (pt_metaSame p q);
     case (pt_store p, pt_store q) of
       (St_CBV a, St_CBV b) \<Rightarrow> Some (cbv_intersects a b)
     | (St_SBV a, St_SBV b) \<Rightarrow> Some (sbv_intersects a b)
     | (St_BV a, St_BV b) \<Rightarrow> Some (cbv_intersects a b)
     | _ \<Rightarrow> None }"

definition pt_eq :: "points_to \<Rightarrow> points_to \<Rightarrow> bool option" where
  "pt_eq p q = do {
     ensure (pt_metaSame p q);
     case (pt_store p, pt_store q) of
       (St_CBV a, St_CBV b) \<Rightarrow> Some (cbv_eq a b)
     | (St_SBV a, St_SBV b) \<Rightarrow> Some (sbv_eq a b)
     | (St_BV a, St_BV b) \<Rightarrow> Some (cbv_eq a b)
     | _ \<Rightarrow> None }"

definition pt_or :: "points_to \<Rightarrow> points_to \<Rightarrow> (bool \<times> points_to) option" where
  "pt_or p q = do {
     ensure (pt_metaSame p q);
     case (pt_store p, pt_store q) of
       (St_CBV a, St_CBV b) \<Rightarrow> do { (ch, c) \<leftarrow> cbv_or a b; Some (ch, p\<lparr>pt_store := St_CBV c\<rparr>) }
     | (St_SBV a, St_SBV b) \<Rightarrow> (case sbv_or a b of (ch, s) \<Rightarrow> Some (ch, p\<lparr>pt_store := St_SBV s\<rparr>))
     | (St_BV a, St_BV b) \<Rightarrow> do { (ch, c) \<leftarrow> cbv_or a b; Some (ch, p\<lparr>pt_store := St_BV c\<rparr>) }
     | _ \<Rightarrow> None }"

definition pt_and :: "points_to \<Rightarrow> points_to \<Rightarrow> (bool \<times> points_to) option" where
  "pt_and p q = do {
     ensure (pt_metaSame p q);
     case (pt_store p, pt_store q) of
       (St_CBV a, St_CBV b) \<Rightarrow> do { (ch, c) \<leftarrow> cbv_and a b; Some (ch, p\<lparr>pt_store := St_CBV c\<rparr>) }
     | (St_SBV a, St_SBV b) \<Rightarrow> (case sbv_and a b of (ch, s) \<Rightarrow> Some (ch, p\<lparr>pt_store := St_SBV s\<rparr>))
     | (St_BV a, St_BV b) \<Rightarrow> do { (ch, c) \<leftarrow> cbv_and a b; Some (ch, p\<lparr>pt_store := St_BV c\<rparr>) }
     | _ \<Rightarrow> None }"

definition pt_intersectWithComplement :: "points_to \<Rightarrow> points_to \<Rightarrow> (bool \<times> points_to) option" where
  "pt_intersectWithComplement p q = do {
     ensure (pt_metaSame p q);
     case (pt_store p, pt_store q) of
       (St_CBV a, St_CBV b) \<Rightarrow>
         do { (ch, c) \<leftarrow> cbv_intersectWithComplement a b; Some (ch, p\<lparr>pt_store := St_CBV c\<rparr>) }
     | (St_SBV a, St_SBV b) \<Rightarrow>
         (case sbv_intersectWithComplement a b of (ch, s) \<Rightarrow> Some (ch, p\<lparr>pt_store := St_SBV s\<rparr>))
     | (St_BV a, St_BV b) \<Rightarrow>
         do { (ch, c) \<leftarrow> cbv_intersectWithComplement a b; Some (ch, p\<lparr>pt_store := St_BV c\<rparr>) }
     | _ \<Rightarrow> None }"

text \<open>\<^verbatim>\<open>operator-=\<close> has the same body.\<close>

definition pt_minus :: "points_to \<Rightarrow> points_to \<Rightarrow> (bool \<times> points_to) option" where
  "pt_minus p q = do {
     ensure (pt_metaSame p q);
     case (pt_store p, pt_store q) of
       (St_CBV a, St_CBV b) \<Rightarrow>
         do { (ch, c) \<leftarrow> cbv_intersectWithComplement a b; Some (ch, p\<lparr>pt_store := St_CBV c\<rparr>) }
     | (St_SBV a, St_SBV b) \<Rightarrow>
         (case sbv_intersectWithComplement a b of (ch, s) \<Rightarrow> Some (ch, p\<lparr>pt_store := St_SBV s\<rparr>))
     | (St_BV a, St_BV b) \<Rightarrow>
         do { (ch, c) \<leftarrow> cbv_intersectWithComplement a b; Some (ch, p\<lparr>pt_store := St_BV c\<rparr>) }
     | _ \<Rightarrow> None }"

definition pt_intersectWithComplement3 :: "points_to \<Rightarrow> points_to \<Rightarrow> points_to \<Rightarrow> points_to option" where
  "pt_intersectWithComplement3 p l r = do {
     ensure (pt_metaSame p r);
     ensure (pt_metaSame p l);
     case (pt_store p, pt_store l, pt_store r) of
       (St_CBV _, St_CBV a, St_CBV b) \<Rightarrow>
         do { c \<leftarrow> cbv_intersectWithComplement3 a b; Some (p\<lparr>pt_store := St_CBV c\<rparr>) }
     | (St_SBV _, St_SBV a, St_SBV b) \<Rightarrow>
         Some (p\<lparr>pt_store := St_SBV (sbv_intersectWithComplement3 a b)\<rparr>)
     | (St_BV _, St_BV a, St_BV b) \<Rightarrow>
         do { c \<leftarrow> cbv_intersectWithComplement3 a b; Some (p\<lparr>pt_store := St_BV c\<rparr>) }
     | _ \<Rightarrow> None }"

definition pt_union :: "points_to \<Rightarrow> points_to \<Rightarrow> points_to option" where
  "pt_union p q = map_option snd (pt_or (pt_copy p) q)"

definition pt_inter :: "points_to \<Rightarrow> points_to \<Rightarrow> points_to option" where
  "pt_inter p q = map_option snd (pt_and (pt_copy p) q)"

definition pt_diff :: "points_to \<Rightarrow> points_to \<Rightarrow> points_to option" where
  "pt_diff p q = map_option snd (pt_minus (pt_copy p) q)"

subsection \<open>The iterator, and the loops over a set\<close>

datatype pt_iter = It_SBV sbv_iter | It_CBV cbv_iter | It_BV cbv_iter

definition pt_iter_new :: "points_to \<Rightarrow> bool \<Rightarrow> pt_iter option" where
  "pt_iter_new p end' = (case pt_store p of
      St_CBV c \<Rightarrow> map_option It_CBV (if end' then Some (cbv_end c) else cbv_begin c)
    | St_SBV s \<Rightarrow> map_option It_SBV (sbv_iter_new s end')
    | St_BV c \<Rightarrow> map_option It_BV (if end' then Some (cbv_end c) else cbv_begin c))"

definition pt_iter_eq :: "points_to \<Rightarrow> pt_iter \<Rightarrow> pt_iter \<Rightarrow> bool option" where
  "pt_iter_eq p it it' = (case (pt_store p, it, it') of
      (St_CBV c, It_CBV a, It_CBV b) \<Rightarrow> Some (cbv_iter_eq c a b)
    | (St_SBV s, It_SBV a, It_SBV b) \<Rightarrow> Some (sbv_iter_eq a b)
    | (St_BV c, It_BV a, It_BV b) \<Rightarrow> Some (cbv_iter_eq c a b)
    | _ \<Rightarrow> None)"

definition pt_iter_atEnd :: "points_to \<Rightarrow> pt_iter \<Rightarrow> bool option" where
  "pt_iter_atEnd p it = do { e \<leftarrow> pt_iter_new p True; pt_iter_eq p it e }"

definition pt_iter_next :: "points_to \<Rightarrow> pt_iter \<Rightarrow> pt_iter option" where
  "pt_iter_next p it = do {
     e \<leftarrow> pt_iter_atEnd p it;
     ensure (\<not> e);
     case (pt_store p, it) of
       (St_CBV c, It_CBV i) \<Rightarrow> map_option It_CBV (cbv_iter_next c i)
     | (St_SBV s, It_SBV i) \<Rightarrow> map_option It_SBV (sbv_iter_next s i)
     | (St_BV c, It_BV i) \<Rightarrow> map_option It_BV (cbv_iter_next c i)
     | _ \<Rightarrow> None }"

definition pt_iter_deref :: "pt_env \<Rightarrow> points_to \<Rightarrow> pt_iter \<Rightarrow> nat option" where
  "pt_iter_deref E p it = do {
     e \<leftarrow> pt_iter_atEnd p it;
     ensure (\<not> e);
     case (pt_store p, it) of
       (St_CBV c, It_CBV i) \<Rightarrow> do { n \<leftarrow> cbv_iter_deref c i; pt_getExternalNode E p n }
     | (St_SBV s, It_SBV i) \<Rightarrow> pt_getExternalNode E p (si_BitNumber i)
     | (St_BV c, It_BV i) \<Rightarrow> do { n \<leftarrow> cbv_iter_deref c i; pt_getExternalNode E p n }
     | _ \<Rightarrow> None }"

text \<open>The nodes that \<^verbatim>\<open>for (NodeID o : p)\<close> visits, in order.\<close>

partial_function (option) pt_elems_from :: "pt_env \<Rightarrow> points_to \<Rightarrow> pt_iter \<Rightarrow> pt_iter \<Rightarrow> nat list option" where
  "pt_elems_from E p it end' = do {
     fin \<leftarrow> pt_iter_eq p it end';
     if fin then Some []
     else do {
       x \<leftarrow> pt_iter_deref E p it;
       it' \<leftarrow> pt_iter_next p it;
       xs \<leftarrow> pt_elems_from E p it' end';
       Some (x # xs) } }"

definition pt_elems :: "pt_env \<Rightarrow> points_to \<Rightarrow> nat list option" where
  "pt_elems E p = do {
     it \<leftarrow> pt_iter_new p False;
     end' \<leftarrow> pt_iter_new p True;
     pt_elems_from E p it end' }"

text \<open>A node number returned as \<^verbatim>\<open>int\<close>.\<close>

definition to_int32 :: "nat \<Rightarrow> int" where
  "to_int32 n = (if n < 2 ^ 31 then int n else int n - 2 ^ 32)"

definition pt_find_first :: "pt_env \<Rightarrow> points_to \<Rightarrow> int option" where
  "pt_find_first E p =
    (if pt_count p = 0 then Some (-1)
     else do { it \<leftarrow> pt_iter_new p False; n \<leftarrow> pt_iter_deref E p it; Some (to_int32 n) })"

definition pt_or_NodeBS :: "pt_env \<Rightarrow> points_to \<Rightarrow> sbv \<Rightarrow> (bool \<times> points_to) option" where
  "pt_or_NodeBS E p rhs = do {
     ns \<leftarrow> sbv_elems rhs;
     foldM (\<lambda>n (changed, p). if changed then do { p' \<leftarrow> pt_set E p n; Some (True, p') }
                            else pt_test_and_set E p n) ns (False, p) }"

definition pt_toNodeBS :: "pt_env \<Rightarrow> points_to \<Rightarrow> sbv option" where
  "pt_toNodeBS E p = do { ns \<leftarrow> pt_elems E p; Some (fold (\<lambda>n s. sbv_set s n) ns sbv_new) }"

definition pt_checkAndRemap :: "pt_env \<Rightarrow> points_to \<Rightarrow> points_to option" where
  "pt_checkAndRemap E p =
    (if pt_nodeMapping p \<noteq> pe_currentBestNodeMapping E
     then do { ns \<leftarrow> pt_elems E p; foldM (\<lambda>n q. pt_set E q n) ns (pt_new E) }
     else Some p)"

subsection \<open>The set of nodes\<close>

definition st_set :: "pt_store \<Rightarrow> nat set" where
  "st_set st = (case st of St_SBV s \<Rightarrow> sb_set s | St_CBV c \<Rightarrow> cb_set c | St_BV c \<Rightarrow> cb_set c)"

definition st_inv :: "pt_store \<Rightarrow> bool" where
  "st_inv st = (case st of St_SBV s \<Rightarrow> sb_inv s | St_CBV c \<Rightarrow> cb_inv c | St_BV c \<Rightarrow> cb_inv c)"

definition st_type :: "pt_store \<Rightarrow> pt_type" where
  "st_type st = (case st of St_SBV _ \<Rightarrow> SBV | St_CBV _ \<Rightarrow> CBV | St_BV _ \<Rightarrow> BV)"

text \<open>The nodes a mapping renames, their new numbers, and when the reverse mapping undoes it.\<close>

definition node_ok :: "pt_env \<Rightarrow> nat option \<Rightarrow> nat \<Rightarrow> bool" where
  "node_ok E m n = (case m of None \<Rightarrow> n < 2 ^ 32 | Some a \<Rightarrow> n < length (pe_vec E a))"

definition node_in :: "pt_env \<Rightarrow> nat option \<Rightarrow> nat \<Rightarrow> nat" where
  "node_in E m n = (case m of None \<Rightarrow> n | Some a \<Rightarrow> pe_vec E a ! n)"

definition maps_ok :: "pt_env \<Rightarrow> nat option \<Rightarrow> nat option \<Rightarrow> bool" where
  "maps_ok E m r = (case (m, r) of
      (None, None) \<Rightarrow> True
    | (Some a, Some b) \<Rightarrow> (\<forall>n < length (pe_vec E a).
        pe_vec E a ! n < 2 ^ 32 \<and> pe_vec E a ! n < length (pe_vec E b) \<and> pe_vec E b ! (pe_vec E a ! n) = n)
    | _ \<Rightarrow> False)"

definition pts_of :: "pt_env \<Rightarrow> points_to \<Rightarrow> nat set" where
  "pts_of E p = {n. node_ok E (pt_nodeMapping p) n \<and> node_in E (pt_nodeMapping p) n \<in> st_set (pt_store p)}"

definition pt_inv :: "pt_env \<Rightarrow> points_to \<Rightarrow> bool" where
  "pt_inv E p \<longleftrightarrow> st_inv (pt_store p) \<and> maps_ok E (pt_nodeMapping p) (pt_reverseNodeMapping p) \<and>
    st_set (pt_store p) \<subseteq> node_in E (pt_nodeMapping p) ` {n. node_ok E (pt_nodeMapping p) n}"

text \<open>Two sets of one run can be combined: same representation, same mapping.\<close>

definition pt_like :: "points_to \<Rightarrow> points_to \<Rightarrow> bool" where
  "pt_like p q \<longleftrightarrow> st_type (pt_store p) = st_type (pt_store q) \<and> pt_metaSame p q"

lemma node_in_inject:
  assumes "maps_ok E m r" "node_ok E m n" "node_ok E m n'"
  shows "node_in E m n = node_in E m n' \<longleftrightarrow> n = n'"
  using assms by (auto simp: maps_ok_def node_ok_def node_in_def split: option.splits) metis

lemma st_set_pts:
  assumes "pt_inv E p"
  shows "st_set (pt_store p) = node_in E (pt_nodeMapping p) ` pts_of E p"
  using assms by (auto simp: pt_inv_def pts_of_def)

lemma node_in_32: "maps_ok E m r \<Longrightarrow> node_ok E m n \<Longrightarrow> node_in E m n < 2 ^ 32"
  by (auto simp: maps_ok_def node_ok_def node_in_def split: option.splits)

lemma getInternalNode_ok:
  "node_ok E (pt_nodeMapping p) n \<Longrightarrow> pt_getInternalNode E p n = Some (node_in E (pt_nodeMapping p) n)"
  by (simp add: pt_getInternalNode_def node_ok_def node_in_def split: option.splits)

lemma getExternalNode_ok:
  assumes "maps_ok E (pt_nodeMapping p) (pt_reverseNodeMapping p)" "node_ok E (pt_nodeMapping p) n"
  shows "pt_getExternalNode E p (node_in E (pt_nodeMapping p) n) = Some n"
  using assms by (auto simp: pt_getExternalNode_def maps_ok_def node_ok_def node_in_def split: option.splits)

text \<open>The new set of an operation, when the stored bits have been combined with those of \<open>q\<close>.\<close>

lemma pts_store_upd:
  assumes "pt_inv E p" "st_inv st" "st_set st \<subseteq> node_in E (pt_nodeMapping p) ` {n. node_ok E (pt_nodeMapping p) n}"
  shows "pt_inv E (p\<lparr>pt_store := st\<rparr>)"
    "pts_of E (p\<lparr>pt_store := st\<rparr>) = {n. node_ok E (pt_nodeMapping p) n \<and> node_in E (pt_nodeMapping p) n \<in> st_set st}"
  using assms by (auto simp: pt_inv_def pts_of_def)

lemma cb_set_bound: "cb_inv c \<Longrightarrow> n \<in> cb_set c \<Longrightarrow> n < 2 ^ 32"
  using cb_inv_bound by blast

lemma st_set_bound: "st_inv st \<Longrightarrow> n \<in> st_set st \<Longrightarrow> n < 2 ^ 32"
  by (auto simp: st_inv_def st_set_def split: pt_store.splits dest: sb_set_bound cb_set_bound)

lemma pt_inv_no_mapping:
  "pt_nodeMapping p = None \<Longrightarrow> pt_reverseNodeMapping p = None \<Longrightarrow> st_inv (pt_store p) \<Longrightarrow> pt_inv E p"
  by (auto simp: pt_inv_def maps_ok_def node_in_def node_ok_def dest: st_set_bound)

lemma pts_of_no_mapping:
  "pt_nodeMapping p = None \<Longrightarrow> st_inv (pt_store p) \<Longrightarrow> pts_of E p = st_set (pt_store p)"
  by (auto simp: pts_of_def node_in_def node_ok_def dest: st_set_bound)

lemma pt_like_refl [simp]: "pt_like p p"
  by (simp add: pt_like_def pt_metaSame_def)

lemma pts_eq_iff:
  assumes "pt_inv E p" "pt_inv E q" "pt_like p q"
  shows "st_set (pt_store p) = st_set (pt_store q) \<longleftrightarrow> pts_of E p = pts_of E q"
  using assms st_set_pts[OF assms(1)] st_set_pts[OF assms(2)]
  by (auto simp: pt_like_def pt_metaSame_def pts_of_def)

lemma pts_subset_iff:
  assumes "pt_inv E p" "pt_inv E q" "pt_like p q"
  shows "st_set (pt_store p) \<subseteq> st_set (pt_store q) \<longleftrightarrow> pts_of E p \<subseteq> pts_of E q"
  unfolding st_set_pts[OF assms(1)] st_set_pts[OF assms(2)] using assms
  by (auto simp: pt_like_def pt_metaSame_def pts_of_def pt_inv_def node_in_inject)

lemma pts_disjoint_iff:
  assumes "pt_inv E p" "pt_inv E q" "pt_like p q"
  shows "st_set (pt_store p) \<inter> st_set (pt_store q) = {} \<longleftrightarrow> pts_of E p \<inter> pts_of E q = {}"
  unfolding st_set_pts[OF assms(1)] st_set_pts[OF assms(2)] using assms
  by (auto simp: pt_like_def pt_metaSame_def pts_of_def pt_inv_def node_in_inject)

theorem pt_new_ok:
  assumes "maps_ok E (pe_currentBestNodeMapping E) (pe_currentBestReverseNodeMapping E)"
  shows "pt_inv E (pt_new E)" "pts_of E (pt_new E) = {}"
proof -
  have "st_inv (pt_store (pt_new E))" "st_set (pt_store (pt_new E)) = {}"
    using bv_new_ok[of 0]
    by (simp_all add: pt_new_def st_inv_def st_set_def bv_inv_def split: pt_type.split)
  then show "pt_inv E (pt_new E)" "pts_of E (pt_new E) = {}"
    using assms by (simp_all add: pt_inv_def pts_of_def) (simp add: pt_new_def)
qed

lemma pt_copy_ok:
  assumes "pt_inv E p"
  shows "pt_inv E (pt_copy p)" "pts_of E (pt_copy p) = pts_of E p" "pt_like (pt_copy p) q = pt_like p q"
    "pt_like q (pt_copy p) = pt_like q p"
proof -
  have "st_inv (pt_store (pt_copy p))" "st_set (pt_store (pt_copy p)) = st_set (pt_store p)"
    using assms by (auto simp: pt_inv_def pt_copy_def st_inv_def st_set_def split: pt_store.splits)
  then show "pt_inv E (pt_copy p)" "pts_of E (pt_copy p) = pts_of E p"
    using assms by (simp_all add: pt_inv_def pts_of_def) (simp_all add: pt_copy_def)
  show "pt_like (pt_copy p) q = pt_like p q" "pt_like q (pt_copy p) = pt_like q p"
    by (auto simp: pt_like_def pt_copy_def st_type_def pt_metaSame_def split: pt_store.splits)
qed

theorem pt_empty_iff:
  assumes "pt_inv E p"
  shows "pt_empty p \<longleftrightarrow> pts_of E p = {}"
proof -
  have "pt_empty p \<longleftrightarrow> st_set (pt_store p) = {}"
    using assms by (auto simp: pt_inv_def pt_empty_def st_inv_def st_set_def sbv_empty_iff cbv_empty_iff
        split: pt_store.splits)
  then show ?thesis by (simp add: st_set_pts[OF assms])
qed

theorem pt_count_ok:
  assumes "pt_inv E p"
  shows "pt_count p = card (pts_of E p) mod 2 ^ 32"
proof -
  have "card (st_set (pt_store p)) = card (pts_of E p)"
    unfolding st_set_pts[OF assms]
    by (rule card_image) (use assms in \<open>auto simp: inj_on_def pts_of_def pt_inv_def node_in_inject\<close>)
  moreover have "pt_count p = card (st_set (pt_store p)) mod 2 ^ 32"
    using assms by (auto simp: pt_inv_def pt_count_def st_inv_def st_set_def sbv_count_ok cbv_count_ok
        split: pt_store.splits)
  ultimately show ?thesis by simp
qed

lemma pt_clear_ok:
  assumes "pt_inv E p"
  shows "pt_inv E (pt_clear p)" "pts_of E (pt_clear p) = {}" "pt_like p (pt_clear p)"
proof -
  have "st_inv (pt_store (pt_clear p))" "st_set (pt_store (pt_clear p)) = {}"
    using assms by (auto simp: pt_inv_def pt_clear_def st_inv_def st_set_def split: pt_store.splits)
  then show "pt_inv E (pt_clear p)" "pts_of E (pt_clear p) = {}"
    using assms by (simp_all add: pt_inv_def pts_of_def) (simp_all add: pt_clear_def)
  show "pt_like p (pt_clear p)"
    by (auto simp: pt_like_def pt_clear_def st_type_def pt_metaSame_def split: pt_store.splits)
qed

theorem pt_test_ok:
  assumes "pt_inv E p" "node_ok E (pt_nodeMapping p) n"
  shows "pt_test E p n = Some (n \<in> pts_of E p)"
  using assms by (auto simp: pt_test_def getInternalNode_ok pts_of_def st_set_def pt_inv_def st_inv_def
      sbv_test_ok cbv_test_iff split: pt_store.splits)

lemma pts_insert:
  assumes "pt_inv E p" "node_ok E (pt_nodeMapping p) n" "st_inv st" "st_type st = st_type (pt_store p)"
    and "st_set st = insert (node_in E (pt_nodeMapping p) n) (st_set (pt_store p))"
  shows "pt_inv E (p\<lparr>pt_store := st\<rparr>)" "pts_of E (p\<lparr>pt_store := st\<rparr>) = insert n (pts_of E p)"
    "pt_like p (p\<lparr>pt_store := st\<rparr>)"
  using assms by (auto simp: pt_inv_def pts_of_def node_in_inject pt_like_def pt_metaSame_def)

lemma pts_remove:
  assumes "pt_inv E p" "node_ok E (pt_nodeMapping p) n" "st_inv st" "st_type st = st_type (pt_store p)"
    and "st_set st = st_set (pt_store p) - {node_in E (pt_nodeMapping p) n}"
  shows "pt_inv E (p\<lparr>pt_store := st\<rparr>)" "pts_of E (p\<lparr>pt_store := st\<rparr>) = pts_of E p - {n}"
    "pt_like p (p\<lparr>pt_store := st\<rparr>)"
  using assms by (auto simp: pt_inv_def pts_of_def node_in_inject pt_like_def pt_metaSame_def)

theorem pt_set_ok:
  assumes "pt_inv E p" "node_ok E (pt_nodeMapping p) n"
  shows "wp (pt_set E p n) (\<lambda>p'. pt_inv E p' \<and> pts_of E p' = insert n (pts_of E p) \<and> pt_like p p')"
proof -
  let ?n = "node_in E (pt_nodeMapping p) n"
  have n: "?n < 2 ^ 32" by (rule node_in_32) (use assms in \<open>auto simp: pt_inv_def\<close>)
  obtain st where st: "pt_set E p n = Some (p\<lparr>pt_store := st\<rparr>)" "st_inv st"
      "st_type st = st_type (pt_store p)" "st_set st = insert ?n (st_set (pt_store p))"
    using assms n cbv_set_ok[OF _ n] sbv_set_ok[OF _ n]
    by (cases "pt_store p") (auto simp: pt_set_def getInternalNode_ok pt_inv_def st_inv_def st_set_def st_type_def)
  then show ?thesis using pts_insert[OF assms st(2-4)] by simp
qed

theorem pt_reset_ok:
  assumes "pt_inv E p" "node_ok E (pt_nodeMapping p) n"
  shows "wp (pt_reset E p n) (\<lambda>p'. pt_inv E p' \<and> pts_of E p' = pts_of E p - {n} \<and> pt_like p p')"
proof -
  let ?n = "node_in E (pt_nodeMapping p) n"
  obtain st where st: "pt_reset E p n = Some (p\<lparr>pt_store := st\<rparr>)" "st_inv st"
      "st_type st = st_type (pt_store p)" "st_set st = st_set (pt_store p) - {?n}"
    using assms cbv_reset_ok[of _ ?n] sbv_reset_ok[of _ ?n]
    by (cases "pt_store p") (auto simp: pt_reset_def getInternalNode_ok pt_inv_def st_inv_def st_set_def st_type_def)
  then show ?thesis using pts_remove[OF assms st(2-4)] by simp
qed

theorem pt_test_and_set_ok:
  assumes "pt_inv E p" "node_ok E (pt_nodeMapping p) n"
  shows "wp (pt_test_and_set E p n) (\<lambda>(b, p'). (b \<longleftrightarrow> n \<notin> pts_of E p) \<and> pt_inv E p' \<and>
    pts_of E p' = insert n (pts_of E p) \<and> pt_like p p')"
proof -
  let ?n = "node_in E (pt_nodeMapping p) n"
  have n: "?n < 2 ^ 32" by (rule node_in_32) (use assms in \<open>auto simp: pt_inv_def\<close>)
  have pn: "n \<in> pts_of E p \<longleftrightarrow> ?n \<in> st_set (pt_store p)" using assms by (simp add: pts_of_def)
  obtain b st where st: "pt_test_and_set E p n = Some (b, p\<lparr>pt_store := st\<rparr>)" "st_inv st"
      "st_type st = st_type (pt_store p)" "st_set st = insert ?n (st_set (pt_store p))"
      "b \<longleftrightarrow> n \<notin> pts_of E p"
  proof (cases "pt_store p")
    case (St_SBV x)
    then show ?thesis
      using assms pn sbv_test_and_set_ok[OF _ n, of x] that[of "fst (sbv_test_and_set x ?n)" "St_SBV (snd (sbv_test_and_set x ?n))"]
      by (simp add: pt_test_and_set_def getInternalNode_ok pt_inv_def st_inv_def st_set_def st_type_def split_beta)
  next
    case (St_CBV x)
    then show ?thesis
      using assms pn cbv_test_and_set_ok[OF _ n, of x] that[of "fst (cbv_test_and_set x ?n)" "St_CBV (snd (cbv_test_and_set x ?n))"]
      by (simp add: pt_test_and_set_def getInternalNode_ok pt_inv_def st_inv_def st_set_def st_type_def split_beta)
  next
    case (St_BV x)
    then show ?thesis
      using assms pn cbv_test_and_set_ok[OF _ n, of x] that[of "fst (cbv_test_and_set x ?n)" "St_BV (snd (cbv_test_and_set x ?n))"]
      by (simp add: pt_test_and_set_def getInternalNode_ok pt_inv_def st_inv_def st_set_def st_type_def split_beta)
  qed
  then show ?thesis using pts_insert[OF assms st(2-4)] by simp
qed

text \<open>An operation on the bits that works number by number works node by node.\<close>

lemma pts_combine:
  assumes "pt_inv E p" "pt_inv E q" "pt_like p q" "st_inv st" "st_type st = st_type (pt_store p)"
    and "st_set st = {k. F (k \<in> st_set (pt_store p)) (k \<in> st_set (pt_store q))}" "\<not> F False False"
  shows "pt_inv E (p\<lparr>pt_store := st\<rparr>)" "pt_like p (p\<lparr>pt_store := st\<rparr>)"
    and "pts_of E (p\<lparr>pt_store := st\<rparr>) = {n. F (n \<in> pts_of E p) (n \<in> pts_of E q)}"
    and "st_set st = st_set (pt_store p) \<longleftrightarrow> pts_of E (p\<lparr>pt_store := st\<rparr>) = pts_of E p"
proof -
  have m: "pt_nodeMapping q = pt_nodeMapping p" using assms(3) by (simp add: pt_like_def pt_metaSame_def)
  have "k \<in> st_set (pt_store p) \<or> k \<in> st_set (pt_store q)" if "k \<in> st_set st" for k
    using that assms(6,7) by (cases "k \<in> st_set (pt_store p)"; cases "k \<in> st_set (pt_store q)") simp_all
  then have "st_set st \<subseteq> node_in E (pt_nodeMapping p) ` {n. node_ok E (pt_nodeMapping p) n}"
    using assms(1,2) m by (auto simp: pt_inv_def)
  then show inv: "pt_inv E (p\<lparr>pt_store := st\<rparr>)" using assms(1,4) by (simp add: pt_inv_def)
  show like: "pt_like p (p\<lparr>pt_store := st\<rparr>)" using assms(5) by (simp add: pt_like_def pt_metaSame_def)
  show "pts_of E (p\<lparr>pt_store := st\<rparr>) = {n. F (n \<in> pts_of E p) (n \<in> pts_of E q)}"
  proof (rule set_eqI)
    fix n
    show "n \<in> pts_of E (p\<lparr>pt_store := st\<rparr>) \<longleftrightarrow> n \<in> {n. F (n \<in> pts_of E p) (n \<in> pts_of E q)}"
      using assms(6,7) m by (cases "node_ok E (pt_nodeMapping p) n") (simp_all add: pts_of_def)
  qed
  show "st_set st = st_set (pt_store p) \<longleftrightarrow> pts_of E (p\<lparr>pt_store := st\<rparr>) = pts_of E p"
    using pts_eq_iff[OF assms(1) inv like] by auto
qed

text \<open>
  The result of an in-place operation: exact sets, and a change flag that is exact for sparse
  vectors and never misses a change for the others.
\<close>

definition pt_result :: "pt_env \<Rightarrow> points_to \<Rightarrow> nat set \<Rightarrow> bool \<times> points_to \<Rightarrow> bool" where
  "pt_result E p S r = (case r of (ch, p') \<Rightarrow> pt_inv E p' \<and> pt_like p p' \<and> pts_of E p' = S \<and>
    (S \<noteq> pts_of E p \<longrightarrow> ch) \<and> (st_type (pt_store p) = SBV \<longrightarrow> (ch \<longleftrightarrow> S \<noteq> pts_of E p)))"

lemma pt_result_combine:
  assumes "pt_inv E p" "pt_inv E q" "pt_like p q" "\<not> F False False"
    and "st_inv st" "st_type st = st_type (pt_store p)"
    and "st_set st = {k. F (k \<in> st_set (pt_store p)) (k \<in> st_set (pt_store q))}"
    and "st_set st \<noteq> st_set (pt_store p) \<Longrightarrow> ch"
    "st_type (pt_store p) = SBV \<Longrightarrow> ch \<Longrightarrow> st_set st \<noteq> st_set (pt_store p)"
  shows "pt_result E p {n. F (n \<in> pts_of E p) (n \<in> pts_of E q)} (ch, p\<lparr>pt_store := st\<rparr>)"
proof -
  note c = pts_combine[OF assms(1-3,5-7,4)]
  show ?thesis using c assms(8,9) unfolding pt_result_def prod.case c(3)[symmetric] by blast
qed

lemma pt_binop:
  fixes fs :: "sbv \<Rightarrow> sbv \<Rightarrow> bool \<times> sbv" and fc :: "cbv \<Rightarrow> cbv \<Rightarrow> (bool \<times> cbv) option"
  assumes pq: "pt_inv E p" "pt_inv E q" "pt_like p q" and F: "\<not> F False False"
    and fs: "\<And>a b. sb_inv a \<Longrightarrow> sb_inv b \<Longrightarrow> sb_inv (snd (fs a b)) \<and>
      sb_set (snd (fs a b)) = {k. F (k \<in> sb_set a) (k \<in> sb_set b)} \<and>
      (fst (fs a b) \<longleftrightarrow> sb_set (snd (fs a b)) \<noteq> sb_set a)"
    and fc: "\<And>a b. cb_inv a \<Longrightarrow> cb_inv b \<Longrightarrow> wp (fc a b) (\<lambda>(ch, c). cb_inv c \<and>
      cb_set c = {k. F (k \<in> cb_set a) (k \<in> cb_set b)} \<and> (cb_set c \<noteq> cb_set a \<longrightarrow> ch))"
  shows "wp (do {
     ensure (pt_metaSame p q);
     case (pt_store p, pt_store q) of
       (St_CBV a, St_CBV b) \<Rightarrow> do { (ch, c) \<leftarrow> fc a b; Some (ch, p\<lparr>pt_store := St_CBV c\<rparr>) }
     | (St_SBV a, St_SBV b) \<Rightarrow> (case fs a b of (ch, s) \<Rightarrow> Some (ch, p\<lparr>pt_store := St_SBV s\<rparr>))
     | (St_BV a, St_BV b) \<Rightarrow> do { (ch, c) \<leftarrow> fc a b; Some (ch, p\<lparr>pt_store := St_BV c\<rparr>) }
     | _ \<Rightarrow> None }) (pt_result E p {n. F (n \<in> pts_of E p) (n \<in> pts_of E q)})"
proof -
  have ms: "pt_metaSame p q" and ty: "st_type (pt_store p) = st_type (pt_store q)"
    using pq(3) by (simp_all add: pt_like_def)
  have inv: "st_inv (pt_store p)" "st_inv (pt_store q)" using pq(1,2) by (simp_all add: pt_inv_def)
  note c = pt_result_combine[where F = F, OF pq F]
  show ?thesis
  proof (cases "pt_store p")
    case (St_SBV a)
    then obtain b where b: "pt_store q = St_SBV b" using ty by (cases "pt_store q") (auto simp: st_type_def)
    show ?thesis
      using St_SBV b inv ms fs[of a b] c[of "St_SBV (snd (fs a b))" "fst (fs a b)"]
      by (simp add: st_inv_def st_set_def st_type_def split_beta)
  next
    case (St_CBV a)
    then obtain b where b: "pt_store q = St_CBV b" using ty by (cases "pt_store q") (auto simp: st_type_def)
    then obtain ch r where r: "fc a b = Some (ch, r)" "cb_inv r"
      "cb_set r = {k. F (k \<in> cb_set a) (k \<in> cb_set b)}" "cb_set r \<noteq> cb_set a \<longrightarrow> ch"
      using fc[of a b] St_CBV inv by (auto simp: wp_iff st_inv_def)
    then show ?thesis
      using St_CBV b ms c[of "St_CBV r" ch] by (simp add: st_inv_def st_set_def st_type_def)
  next
    case (St_BV a)
    then obtain b where b: "pt_store q = St_BV b" using ty by (cases "pt_store q") (auto simp: st_type_def)
    then obtain ch r where r: "fc a b = Some (ch, r)" "cb_inv r"
      "cb_set r = {k. F (k \<in> cb_set a) (k \<in> cb_set b)}" "cb_set r \<noteq> cb_set a \<longrightarrow> ch"
      using fc[of a b] St_BV inv by (auto simp: wp_iff st_inv_def)
    then show ?thesis
      using St_BV b ms c[of "St_BV r" ch] by (simp add: st_inv_def st_set_def st_type_def)
  qed
qed

lemma cb_set_no_words: "cb_words c = [] \<Longrightarrow> cb_set c = {}"
  by (auto simp: cb_set_def cb_word_def bits_of_def Let_def)

theorem pt_or_ok:
  assumes "pt_inv E p" "pt_inv E q" "pt_like p q"
  shows "wp (pt_or p q) (pt_result E p (pts_of E p \<union> pts_of E q))"
  unfolding pt_or_def Un_def
proof (rule pt_binop[OF assms, of "(\<or>)"])
  fix a b assume inv: "cb_inv a" "cb_inv b"
  show "wp (cbv_or a b) (\<lambda>(ch, c). cb_inv c \<and> cb_set c = {k. k \<in> cb_set a \<or> k \<in> cb_set b} \<and>
      (cb_set c \<noteq> cb_set a \<longrightarrow> ch))"
    by (rule wp_mono[OF cbv_or_ok[OF inv]])
      (cases "cb_words a = []"; cases "cb_words b = []"; simp add: split_beta Un_def cb_set_no_words)
next
  fix a b assume "sb_inv a" "sb_inv b"
  then show "sb_inv (snd (sbv_or a b)) \<and>
      sb_set (snd (sbv_or a b)) = {k. k \<in> sb_set a \<or> k \<in> sb_set b} \<and>
      (fst (sbv_or a b) \<longleftrightarrow> sb_set (snd (sbv_or a b)) \<noteq> sb_set a)"
    using sbv_or_ok[of a b] by auto
qed simp

theorem pt_and_ok:
  assumes "pt_inv E p" "pt_inv E q" "pt_like p q"
  shows "wp (pt_and p q) (pt_result E p (pts_of E p \<inter> pts_of E q))"
  unfolding pt_and_def Int_def
proof (rule pt_binop[OF assms, of "(\<and>)"])
  fix a b assume inv: "cb_inv a" "cb_inv b"
  show "wp (cbv_and a b) (\<lambda>(ch, c). cb_inv c \<and> cb_set c = {k. k \<in> cb_set a \<and> k \<in> cb_set b} \<and>
      (cb_set c \<noteq> cb_set a \<longrightarrow> ch))"
    by (rule wp_mono[OF cbv_and_ok[OF inv]]) auto
next
  fix a b assume "sb_inv a" "sb_inv b"
  then show "sb_inv (snd (sbv_and a b)) \<and>
      sb_set (snd (sbv_and a b)) = {k. k \<in> sb_set a \<and> k \<in> sb_set b} \<and>
      (fst (sbv_and a b) \<longleftrightarrow> sb_set (snd (sbv_and a b)) \<noteq> sb_set a)"
    using sbv_and_ok[of a b] by auto
qed simp

theorem pt_intersectWithComplement_ok:
  assumes "pt_inv E p" "pt_inv E q" "pt_like p q"
  shows "wp (pt_intersectWithComplement p q) (pt_result E p (pts_of E p - pts_of E q))"
  unfolding pt_intersectWithComplement_def set_diff_eq
proof (rule pt_binop[OF assms, of "\<lambda>a b. a \<and> \<not> b"])
  fix a b assume inv: "cb_inv a" "cb_inv b"
  show "wp (cbv_intersectWithComplement a b) (\<lambda>(ch, c). cb_inv c \<and>
      cb_set c = {k. k \<in> cb_set a \<and> k \<notin> cb_set b} \<and> (cb_set c \<noteq> cb_set a \<longrightarrow> ch))"
    by (rule wp_mono[OF cbv_intersectWithComplement_ok[OF inv]]) auto
next
  fix a b assume "sb_inv a" "sb_inv b"
  then show "sb_inv (snd (sbv_intersectWithComplement a b)) \<and>
      sb_set (snd (sbv_intersectWithComplement a b)) = {k. k \<in> sb_set a \<and> k \<notin> sb_set b} \<and>
      (fst (sbv_intersectWithComplement a b) \<longleftrightarrow> sb_set (snd (sbv_intersectWithComplement a b)) \<noteq> sb_set a)"
    using sbv_intersectWithComplement_ok[of a b] by auto
qed simp

lemma pt_minus_eq: "pt_minus p q = pt_intersectWithComplement p q"
  by (simp add: pt_minus_def pt_intersectWithComplement_def)

lemmas pt_minus_ok = pt_intersectWithComplement_ok[folded pt_minus_eq]

text \<open>The operators that build a new set.\<close>

lemma pt_result_copy:
  assumes "pt_inv E p" "wp m (pt_result E (pt_copy p) S)"
  shows "wp (map_option snd m) (\<lambda>r. pt_inv E r \<and> pt_like p r \<and> pts_of E r = S)"
  unfolding wp_map_option
  by (rule wp_mono[OF assms(2)]) (simp add: pt_result_def split_beta pt_copy_ok[OF assms(1)])

lemma pt_union_ok:
  assumes "pt_inv E p" "pt_inv E q" "pt_like p q"
  shows "wp (pt_union p q) (\<lambda>r. pt_inv E r \<and> pt_like p r \<and> pts_of E r = pts_of E p \<union> pts_of E q)"
  unfolding pt_union_def using pt_or_ok[of E "pt_copy p" q] pt_copy_ok[OF assms(1)] assms
  by (intro pt_result_copy) simp_all

lemma pt_inter_ok:
  assumes "pt_inv E p" "pt_inv E q" "pt_like p q"
  shows "wp (pt_inter p q) (\<lambda>r. pt_inv E r \<and> pt_like p r \<and> pts_of E r = pts_of E p \<inter> pts_of E q)"
  unfolding pt_inter_def using pt_and_ok[of E "pt_copy p" q] pt_copy_ok[OF assms(1)] assms
  by (intro pt_result_copy) simp_all

lemma pt_diff_ok:
  assumes "pt_inv E p" "pt_inv E q" "pt_like p q"
  shows "wp (pt_diff p q) (\<lambda>r. pt_inv E r \<and> pt_like p r \<and> pts_of E r = pts_of E p - pts_of E q)"
  unfolding pt_diff_def using pt_minus_ok[of E "pt_copy p" q] pt_copy_ok[OF assms(1)] assms
  by (intro pt_result_copy) simp_all

lemma pt_like_simps: "pt_like p q \<longleftrightarrow> st_type (pt_store p) = st_type (pt_store q) \<and>
    pt_nodeMapping p = pt_nodeMapping q \<and> pt_reverseNodeMapping p = pt_reverseNodeMapping q"
  by (auto simp: pt_like_def pt_metaSame_def)

theorem pt_intersectWithComplement3_ok:
  assumes "pt_inv E l" "pt_inv E r" "pt_like p l" "pt_like p r"
  shows "wp (pt_intersectWithComplement3 p l r)
    (\<lambda>p'. pt_inv E p' \<and> pt_like p p' \<and> pts_of E p' = pts_of E l - pts_of E r)"
proof -
  have like: "pt_like l r" using assms(3,4) by (simp add: pt_like_simps)
  have upd: "p\<lparr>pt_store := st\<rparr> = l\<lparr>pt_store := st\<rparr>" for st
    using assms(3) by (simp add: pt_like_simps)
  have ms: "pt_metaSame p r" "pt_metaSame p l" using assms(3,4) by (simp_all add: pt_like_def)
  note c = pts_combine[where F = "\<lambda>a b. a \<and> \<not> b", OF assms(1,2) like]
  have fin: "pt_inv E (p\<lparr>pt_store := st\<rparr>) \<and> pt_like p (p\<lparr>pt_store := st\<rparr>) \<and>
      pts_of E (p\<lparr>pt_store := st\<rparr>) = pts_of E l - pts_of E r"
    if "st_inv st" "st_type st = st_type (pt_store l)" "st_set st = st_set (pt_store l) - st_set (pt_store r)" for st
    using that c[of st] assms(3) by (simp add: upd set_diff_eq) (simp add: pt_like_simps)
  show ?thesis
  proof (cases "pt_store l")
    case (St_SBV a)
    then obtain b z where b: "pt_store r = St_SBV b" "pt_store p = St_SBV z"
      using assms(3) like by (cases "pt_store r"; cases "pt_store p") (auto simp: pt_like_simps st_type_def)
    then show ?thesis
      using St_SBV assms(1,2) ms sbv_intersectWithComplement3_ok[of a b] fin[of "St_SBV (sbv_intersectWithComplement3 a b)"]
      by (simp add: pt_intersectWithComplement3_def st_inv_def st_set_def st_type_def pt_inv_def)
  next
    case (St_CBV a)
    then obtain b z where b: "pt_store r = St_CBV b" "pt_store p = St_CBV z"
      using assms(3) like by (cases "pt_store r"; cases "pt_store p") (auto simp: pt_like_simps st_type_def)
    obtain c where "cbv_intersectWithComplement3 a b = Some c" "cb_inv c" "cb_set c = cb_set a - cb_set b"
      using cbv_intersectWithComplement3_ok[of a b] assms(1,2) St_CBV b
      by (auto simp: wp_iff pt_inv_def st_inv_def)
    then show ?thesis
      using St_CBV b ms fin[of "St_CBV c"]
      by (simp add: pt_intersectWithComplement3_def st_inv_def st_set_def st_type_def)
  next
    case (St_BV a)
    then obtain b z where b: "pt_store r = St_BV b" "pt_store p = St_BV z"
      using assms(3) like by (cases "pt_store r"; cases "pt_store p") (auto simp: pt_like_simps st_type_def)
    obtain c where "cbv_intersectWithComplement3 a b = Some c" "cb_inv c" "cb_set c = cb_set a - cb_set b"
      using cbv_intersectWithComplement3_ok[of a b] assms(1,2) St_BV b
      by (auto simp: wp_iff pt_inv_def st_inv_def)
    then show ?thesis
      using St_BV b ms fin[of "St_BV c"]
      by (simp add: pt_intersectWithComplement3_def st_inv_def st_set_def st_type_def)
  qed
qed

text \<open>The comparisons.\<close>

lemma pt_like_stores:
  assumes "pt_like p q"
  obtains a b where "pt_store p = St_SBV a" "pt_store q = St_SBV b"
  | a b where "pt_store p = St_CBV a" "pt_store q = St_CBV b"
  | a b where "pt_store p = St_BV a" "pt_store q = St_BV b"
  using assms by (cases "pt_store p"; cases "pt_store q") (auto simp: pt_like_simps st_type_def)

theorem pt_eq_ok:
  assumes "pt_inv E p" "pt_inv E q" "pt_like p q"
  shows "pt_eq p q = Some (pts_of E p = pts_of E q)"
proof -
  have "pt_eq p q = Some (st_set (pt_store p) = st_set (pt_store q))"
    using assms(3)
    by (rule pt_like_stores)
      (use assms in \<open>simp_all add: pt_eq_def pt_like_def pt_inv_def st_inv_def st_set_def sbv_eq_iff cbv_eq_iff\<close>)
  then show ?thesis by (simp add: pts_eq_iff[OF assms])
qed

theorem pt_contains_ok:
  assumes "pt_inv E p" "pt_inv E q" "pt_like p q"
  shows "pt_contains p q = Some (pts_of E q \<subseteq> pts_of E p)"
proof -
  have "pt_contains p q = Some (st_set (pt_store q) \<subseteq> st_set (pt_store p))"
    using assms(3)
    by (rule pt_like_stores)
      (use assms in \<open>simp_all add: pt_contains_def pt_like_def pt_inv_def st_inv_def st_set_def
        sbv_contains_iff cbv_contains_ok\<close>)
  moreover have "pt_like q p" using assms(3) by (simp add: pt_like_simps)
  ultimately show ?thesis by (simp add: pts_subset_iff[OF assms(2,1)])
qed

theorem pt_intersects_ok:
  assumes "pt_inv E p" "pt_inv E q" "pt_like p q"
  shows "pt_intersects p q = Some (pts_of E p \<inter> pts_of E q \<noteq> {})"
proof -
  have "pt_intersects p q = Some (st_set (pt_store p) \<inter> st_set (pt_store q) \<noteq> {})"
    using assms(3)
    by (rule pt_like_stores)
      (use assms in \<open>simp_all add: pt_intersects_def pt_like_def pt_inv_def st_inv_def st_set_def
        sbv_intersects_iff cbv_intersects_iff\<close>)
  then show ?thesis by (simp add: pts_disjoint_iff[OF assms])
qed

theorem pt_hash_ok:
  assumes "pt_inv E p" "pt_inv E q" "pt_like p q" "st_type (pt_store p) = SBV"
  shows "\<exists>h. pt_hash E p = Some h \<and> (pts_of E p = pts_of E q \<longrightarrow> pt_hash E q = Some h)"
  using assms(3)
proof (rule pt_like_stores)
  fix a b assume ab: "pt_store p = St_SBV a" "pt_store q = St_SBV b"
  then have "pts_of E p = pts_of E q \<longleftrightarrow> sb_set a = sb_set b"
    using pts_eq_iff[OF assms(1-3)] by (simp add: st_set_def)
  then show ?thesis
    using sbv_hash_ok[of a b "pe_hash E"] assms(1,2) ab by (auto simp: pt_inv_def st_inv_def pt_hash_def)
qed (use assms(4) in \<open>simp_all add: st_type_def\<close>)

text \<open>The loops: each element once.\<close>

lemma pt_elems_from_SBV:
  assumes "pt_store p = St_SBV s" "si_AtEnd end'" "sbv_iter_new s True = Some e" "si_AtEnd e"
    and "sbv_elems_from s it end' = Some xs"
  shows "pt_elems_from E p (It_SBV it) (It_SBV end') = mapM (pt_getExternalNode E p) xs"
  using assms(5)
proof (induction xs arbitrary: it)
  case Nil
  then have "sbv_iter_eq it end'"
    by (subst (asm) sbv_elems_from.simps) (auto split: if_splits Option.bind_splits)
  then show ?case
    using assms(1) by (subst pt_elems_from.simps) (simp add: pt_iter_eq_def)
next
  case (Cons x xs)
  then obtain it' where ne: "\<not> sbv_iter_eq it end'" "sbv_iter_next s it = Some it'"
    "sbv_elems_from s it' end' = Some xs" "si_BitNumber it = x"
    by (subst (asm) sbv_elems_from.simps) (auto split: if_splits Option.bind_splits)
  then have "\<not> sbv_iter_eq it e" using assms(2,4) by (auto simp: sbv_iter_eq_def split: if_splits)
  then show ?case
    using ne Cons.IH[OF ne(3)] assms(1,3)
    by (subst pt_elems_from.simps)
      (simp add: pt_iter_eq_def pt_iter_deref_def pt_iter_next_def pt_iter_atEnd_def pt_iter_new_def)
qed

lemma pt_elems_from_CBV:
  assumes "pt_store p = St_CBV c" "cbv_elems_from c it = Some xs"
  shows "pt_elems_from E p (It_CBV it) (It_CBV (cbv_end c)) = mapM (pt_getExternalNode E p) xs"
  using assms(2)
proof (induction xs arbitrary: it)
  case Nil
  then have "cbv_iter_eq c it (cbv_end c)"
    by (subst (asm) cbv_elems_from.simps) (auto split: if_splits Option.bind_splits)
  then show ?case
    using assms(1) by (subst pt_elems_from.simps) (simp add: pt_iter_eq_def)
next
  case (Cons x xs)
  then obtain it' where ne: "\<not> cbv_iter_eq c it (cbv_end c)" "cbv_iter_next c it = Some it'"
    "cbv_elems_from c it' = Some xs" "cbv_iter_deref c it = Some x"
    by (subst (asm) cbv_elems_from.simps) (auto split: if_splits Option.bind_splits)
  then show ?case
    using Cons.IH[OF ne(3)] assms(1)
    by (subst pt_elems_from.simps)
      (simp add: pt_iter_eq_def pt_iter_deref_def pt_iter_next_def pt_iter_atEnd_def pt_iter_new_def)
qed

lemma pt_elems_from_BV:
  assumes "pt_store p = St_BV c" "cbv_elems_from c it = Some xs"
  shows "pt_elems_from E p (It_BV it) (It_BV (cbv_end c)) = mapM (pt_getExternalNode E p) xs"
  using assms(2)
proof (induction xs arbitrary: it)
  case Nil
  then have "cbv_iter_eq c it (cbv_end c)"
    by (subst (asm) cbv_elems_from.simps) (auto split: if_splits Option.bind_splits)
  then show ?case
    using assms(1) by (subst pt_elems_from.simps) (simp add: pt_iter_eq_def)
next
  case (Cons x xs)
  then obtain it' where ne: "\<not> cbv_iter_eq c it (cbv_end c)" "cbv_iter_next c it = Some it'"
    "cbv_elems_from c it' = Some xs" "cbv_iter_deref c it = Some x"
    by (subst (asm) cbv_elems_from.simps) (auto split: if_splits Option.bind_splits)
  then show ?case
    using Cons.IH[OF ne(3)] assms(1)
    by (subst pt_elems_from.simps)
      (simp add: pt_iter_eq_def pt_iter_deref_def pt_iter_next_def pt_iter_atEnd_def pt_iter_new_def)
qed

text \<open>The numbers in the bit vector, in the order in which the loop meets them.\<close>

lemma pt_elems_internal:
  assumes "st_inv (pt_store p)"
  shows "\<exists>xs. pt_elems E p = mapM (pt_getExternalNode E p) xs \<and> set xs = st_set (pt_store p) \<and> sorted xs \<and> distinct xs"
proof (cases "pt_store p")
  case (St_SBV s)
  then have inv: "sb_inv s" using assms by (simp add: st_inv_def)
  obtain xs where xs: "sbv_elems s = Some xs" "set xs = sb_set s" "sorted xs" "distinct xs"
    using sbv_elems_ok[OF inv] by blast
  obtain it e where it: "sbv_iter_new s False = Some it" "sbv_iter_new s True = Some e" "si_AtEnd e"
    using iter_new_ok[OF inv] by (auto simp: wp_iff)
  then have "sbv_elems_from s it e = Some xs" using xs(1) by (simp add: sbv_elems_def)
  then have "pt_elems E p = mapM (pt_getExternalNode E p) xs"
    using St_SBV it by (simp add: pt_elems_def pt_iter_new_def pt_elems_from_SBV)
  then show ?thesis using xs St_SBV by (auto simp: st_set_def)
next
  case (St_CBV c)
  then obtain xs where xs: "cbv_elems c = Some xs" "set xs = cb_set c" "sorted xs" "distinct xs"
    using cbv_elems_ok[of c] assms by (auto simp: st_inv_def)
  then obtain it where it: "cbv_begin c = Some it" "cbv_elems_from c it = Some xs"
    by (auto simp: cbv_elems_def split: Option.bind_splits)
  then have "pt_elems E p = mapM (pt_getExternalNode E p) xs"
    using St_CBV by (simp add: pt_elems_def pt_iter_new_def pt_elems_from_CBV)
  then show ?thesis using xs St_CBV by (auto simp: st_set_def)
next
  case (St_BV c)
  then obtain xs where xs: "cbv_elems c = Some xs" "set xs = cb_set c" "sorted xs" "distinct xs"
    using cbv_elems_ok[of c] assms by (auto simp: st_inv_def)
  then obtain it where it: "cbv_begin c = Some it" "cbv_elems_from c it = Some xs"
    by (auto simp: cbv_elems_def split: Option.bind_splits)
  then have "pt_elems E p = mapM (pt_getExternalNode E p) xs"
    using St_BV by (simp add: pt_elems_def pt_iter_new_def pt_elems_from_BV)
  then show ?thesis using xs St_BV by (auto simp: st_set_def)
qed

text \<open>
  The loop visits each node once, ordered by the renamed numbers.
\<close>

theorem pt_elems_ok:
  assumes "pt_inv E p"
  shows "\<exists>ns. pt_elems E p = Some ns \<and> set ns = pts_of E p \<and> distinct ns \<and>
    sorted (map (node_in E (pt_nodeMapping p)) ns)"
proof -
  let ?in = "node_in E (pt_nodeMapping p)"
  obtain xs where xs: "pt_elems E p = mapM (pt_getExternalNode E p) xs" "set xs = st_set (pt_store p)"
    "sorted xs" "distinct xs"
    using pt_elems_internal[of p E] assms by (auto simp: pt_inv_def)
  define ex where "ex = inv_into (pts_of E p) ?in"
  have ex: "ex x \<in> pts_of E p" "?in (ex x) = x" if "x \<in> set xs" for x
    using that xs(2) st_set_pts[OF assms] by (auto simp: ex_def inv_into_into f_inv_into_f)
  have "pt_getExternalNode E p x = Some (ex x)" if "x \<in> set xs" for x
    using getExternalNode_ok[of E p "ex x"] ex[OF that] assms by (simp add: pt_inv_def pts_of_def)
  then have e: "pt_elems E p = Some (map ex xs)"
    using xs(1) mapM_total[of xs "pt_getExternalNode E p" ex] by simp
  have inv_ex: "map ?in (map ex xs) = xs" using ex(2) by (simp add: map_idI)
  have inj: "inj_on ?in (pts_of E p)"
    using assms by (auto simp: inj_on_def pts_of_def pt_inv_def node_in_inject)
  have "set (map ex xs) = pts_of E p"
  proof
    show "pts_of E p \<subseteq> set (map ex xs)"
    proof
      fix n assume n: "n \<in> pts_of E p"
      then have "?in n \<in> set xs" using xs(2) st_set_pts[OF assms] by blast
      moreover have "ex (?in n) = n" using n inj by (simp add: ex_def)
      ultimately show "n \<in> set (map ex xs)" by force
    qed
  qed (use ex(1) in auto)
  moreover have "distinct (map ex xs)" using inv_ex xs(4) by (metis distinct_map)
  ultimately show ?thesis using e inv_ex xs(3) by simp
qed

lemma foldM_pt_set:
  assumes "pt_inv E p" "\<forall>n \<in> set ns. node_ok E (pt_nodeMapping p) n"
  shows "wp (foldM (\<lambda>n q. pt_set E q n) ns p)
    (\<lambda>q. pt_inv E q \<and> pts_of E q = pts_of E p \<union> set ns \<and> pt_like p q)"
proof (rule foldM_wp[where P = "\<lambda>ns q. pt_inv E q \<and> pts_of E q = pts_of E p \<union> set ns \<and> pt_like p q"])
  fix ys x zs q
  assume "ns = ys @ x # zs" and q: "pt_inv E q \<and> pts_of E q = pts_of E p \<union> set ys \<and> pt_like p q"
  then have "node_ok E (pt_nodeMapping q) x" using assms(2) by (simp add: pt_like_simps)
  then show "wp (pt_set E q x) (\<lambda>q. pt_inv E q \<and> pts_of E q = pts_of E p \<union> set (ys @ [x]) \<and> pt_like p q)"
    by (intro wp_mono[OF pt_set_ok]) (use q in \<open>auto simp: pt_like_simps\<close>)
qed (use assms(1) in simp)

text \<open>Remapping keeps the set and moves it to the current mapping.\<close>

theorem pt_checkAndRemap_ok:
  assumes "pt_inv E p" "maps_ok E (pe_currentBestNodeMapping E) (pe_currentBestReverseNodeMapping E)"
    and "\<forall>n \<in> pts_of E p. node_ok E (pe_currentBestNodeMapping E) n"
  shows "wp (pt_checkAndRemap E p) (\<lambda>q. pt_inv E q \<and> pts_of E q = pts_of E p \<and>
    pt_nodeMapping q = pe_currentBestNodeMapping E)"
proof (cases "pt_nodeMapping p = pe_currentBestNodeMapping E")
  case True
  then show ?thesis using assms(1) by (simp add: pt_checkAndRemap_def)
next
  case False
  obtain ns where ns: "pt_elems E p = Some ns" "set ns = pts_of E p"
    using pt_elems_ok[OF assms(1)] by blast
  note new = pt_new_ok[OF assms(2)]
  have map: "pt_nodeMapping (pt_new E) = pe_currentBestNodeMapping E" by (simp add: pt_new_def)
  have "wp (foldM (\<lambda>n q. pt_set E q n) ns (pt_new E))
      (\<lambda>q. pt_inv E q \<and> pts_of E q = pts_of E (pt_new E) \<union> set ns \<and> pt_like (pt_new E) q)"
    by (rule foldM_pt_set) (use new assms(3) ns(2) map in simp_all)
  then show ?thesis
    unfolding pt_checkAndRemap_def using False ns new map
    by (auto simp: wp_iff pt_like_simps)
qed

theorem pt_or_NodeBS_ok:
  assumes "pt_inv E p" "sb_inv rhs" "\<forall>n \<in> sb_set rhs. node_ok E (pt_nodeMapping p) n"
  shows "wp (pt_or_NodeBS E p rhs) (\<lambda>(ch, q). pt_inv E q \<and> pt_like p q \<and>
    pts_of E q = pts_of E p \<union> sb_set rhs \<and> (ch \<longleftrightarrow> \<not> sb_set rhs \<subseteq> pts_of E p))"
proof -
  obtain ns where ns: "sbv_elems rhs = Some ns" "set ns = sb_set rhs" using sbv_elems_ok[OF assms(2)] by blast
  let ?P = "\<lambda>ns (ch, q). pt_inv E q \<and> pt_like p q \<and> pts_of E q = pts_of E p \<union> set ns \<and>
    (ch \<longleftrightarrow> \<not> set ns \<subseteq> pts_of E p)"
  let ?f = "\<lambda>n (changed, p). if changed then do { p' \<leftarrow> pt_set E p n; Some (True, p') } else pt_test_and_set E p n"
  have "wp (foldM ?f ns (False, p)) (?P ns)"
  proof (rule foldM_wp[where P = ?P])
    fix ys x zs s assume split: "ns = ys @ x # zs" and s: "?P ys s"
    obtain ch q where sq: "s = (ch, q)" by fastforce
    have q: "pt_inv E q" "pt_like p q" "pts_of E q = pts_of E p \<union> set ys" "ch \<longleftrightarrow> \<not> set ys \<subseteq> pts_of E p"
      using s sq by auto
    have n: "node_ok E (pt_nodeMapping q) x" using assms(3) ns split q(2) by (auto simp: pt_like_simps)
    show "wp (?f x s) (?P (ys @ [x]))"
    proof (cases ch)
      case True
      have "wp (pt_set E q x) (\<lambda>q'. ?P (ys @ [x]) (True, q'))"
        by (rule wp_mono[OF pt_set_ok[OF q(1) n]]) (use q True in \<open>auto simp: pt_like_simps\<close>)
      then show ?thesis using True sq by simp
    next
      case False
      have "wp (pt_test_and_set E q x) (?P (ys @ [x]))"
        by (rule wp_mono[OF pt_test_and_set_ok[OF q(1) n]]) (use q False in \<open>auto simp: pt_like_simps\<close>)
      then show ?thesis using False sq by simp
    qed
  qed (use assms(1) in simp)
  then show ?thesis using ns by (simp add: pt_or_NodeBS_def)
qed

theorem pt_toNodeBS_ok:
  assumes "pt_inv E p" "\<forall>n \<in> pts_of E p. n < 2 ^ 32"
  shows "wp (pt_toNodeBS E p) (\<lambda>s. sb_inv s \<and> sb_set s = pts_of E p)"
proof -
  obtain ns where ns: "pt_elems E p = Some ns" "set ns = pts_of E p"
    using pt_elems_ok[OF assms(1)] by blast
  have "sb_inv (fold (\<lambda>n s. sbv_set s n) ns s) \<and> sb_set (fold (\<lambda>n s. sbv_set s n) ns s) = sb_set s \<union> set ns"
    if "sb_inv s" "\<forall>n \<in> set ns. n < 2 ^ 32" for s ns
    using that by (induction ns arbitrary: s) (auto simp: sbv_set_ok)
  from this[of sbv_new ns] show ?thesis using assms(2) ns by (simp add: pt_toNodeBS_def)
qed

text \<open>
  \<^verbatim>\<open>metaSame\<close> compares the mappings only. With different representations the operations read
  the wrong member of the union: its comment promises a check of the type that is not there.
\<close>

theorem pt_metaSame_ignores_type:
  "let p = \<lparr>pt_store = St_SBV sbv_new, pt_nodeMapping = None, pt_reverseNodeMapping = None\<rparr>;
       q = \<lparr>pt_store = St_CBV (cbv_new 0), pt_nodeMapping = None, pt_reverseNodeMapping = None\<rparr>
   in pt_metaSame p q \<and> pt_eq p q = None"
  by (simp add: pt_metaSame_def pt_eq_def)

end
