(* ===== verification/Data_Set.thy ===== *)
theory Data_Set
  imports PointsTo
begin

text \<open>
  The interface between the points-to tables and the sets they hold: the template parameter
  \<^verbatim>\<open>DataSet\<close> of \<^verbatim>\<open>PTData\<close> and \<^verbatim>\<open>PersistentPointsToCache\<close>. A client takes the operations of
  the type as a record \<open>data_ops\<close>. Locale \<open>data_set\<close> states what they promise of the set
  \<open>\<alpha> d\<close>; \<open>canonical_data_set\<close> adds what hash-consing needs, that two sets are one key of a
  \<^verbatim>\<open>std::unordered_map\<close> exactly when they have the same elements. \<^verbatim>\<open>PointsTo\<close> is the first
  with any representation, the second with sparse bit vectors (the default). The
  last part models \<^verbatim>\<open>Map<DataSet, V>\<close>.
\<close>

record ('d, 'e) data_ops =
  ds_new :: 'd
  ds_copy :: "'d \<Rightarrow> 'd"
  ds_hash :: "'d \<Rightarrow> 64 word option"
  ds_eq :: "'d \<Rightarrow> 'd \<Rightarrow> bool option"
  ds_empty :: "'d \<Rightarrow> bool"
  ds_test :: "'d \<Rightarrow> 'e \<Rightarrow> bool option"
  ds_set :: "'d \<Rightarrow> 'e \<Rightarrow> 'd option"
  ds_reset :: "'d \<Rightarrow> 'e \<Rightarrow> 'd option"
  ds_test_and_set :: "'d \<Rightarrow> 'e \<Rightarrow> (bool \<times> 'd) option"
  ds_clear :: "'d \<Rightarrow> 'd"
  ds_or :: "'d \<Rightarrow> 'd \<Rightarrow> (bool \<times> 'd) option"
  ds_and :: "'d \<Rightarrow> 'd \<Rightarrow> (bool \<times> 'd) option"
  ds_icomp3 :: "'d \<Rightarrow> 'd \<Rightarrow> 'd \<Rightarrow> 'd option"
  ds_union :: "'d \<Rightarrow> 'd \<Rightarrow> 'd option"
  ds_inter :: "'d \<Rightarrow> 'd \<Rightarrow> 'd option"
  ds_minus :: "'d \<Rightarrow> 'd \<Rightarrow> 'd option"
  ds_elems :: "'d \<Rightarrow> 'e list option"
  ds_remap :: "'d \<Rightarrow> 'd option"

text \<open>Equality of two keys of an unordered map: the hash codes, then \<^verbatim>\<open>operator==\<close>.\<close>

definition ds_same :: "('d, 'e) data_ops \<Rightarrow> 'd \<Rightarrow> 'd \<Rightarrow> bool option" where
  "ds_same D d d' = do {
     h \<leftarrow> ds_hash D d;
     h' \<leftarrow> ds_hash D d';
     if h \<noteq> h' then Some False else ds_eq D d d' }"

text \<open>\<^verbatim>\<open>Map<DataSet, V>\<close>: \<^verbatim>\<open>find\<close>, and \<^verbatim>\<open>m[k] = v\<close>, which stores a copy of a new key.\<close>

fun dfind :: "('d, 'e) data_ops \<Rightarrow> 'd \<Rightarrow> ('d \<times> 'v) list \<Rightarrow> 'v option option" where
  "dfind D k [] = Some None"
| "dfind D k ((k', v) # m) = do { s \<leftarrow> ds_same D k' k; if s then Some (Some v) else dfind D k m }"

fun dput :: "('d, 'e) data_ops \<Rightarrow> 'd \<Rightarrow> 'v \<Rightarrow> ('d \<times> 'v) list \<Rightarrow> ('d \<times> 'v) list option" where
  "dput D k v [] = Some [(ds_copy D k, v)]"
| "dput D k v ((k', v') # m) = do {
     s \<leftarrow> ds_same D k' k;
     if s then Some ((k', v) # m) else do { m' \<leftarrow> dput D k v m; Some ((k', v') # m') } }"

text \<open>What such a map is on the sets that its keys stand for.\<close>

definition dmap :: "('d \<Rightarrow> 's) \<Rightarrow> ('d \<times> 'v) list \<Rightarrow> 's \<Rightarrow> 'v option" where
  "dmap \<alpha> m = map_of (map (\<lambda>(k, v). (\<alpha> k, v)) m)"

definition dmap_inv :: "('d \<Rightarrow> bool) \<Rightarrow> ('d \<times> 'v) list \<Rightarrow> bool" where
  "dmap_inv I m \<longleftrightarrow> (\<forall>(k, v) \<in> set m. I k)"

lemma dmap_simps [simp]:
  "dmap \<alpha> [] = (\<lambda>_. None)" "dmap_inv I []"
  "dmap \<alpha> ((k, v) # m) = (dmap \<alpha> m)(\<alpha> k \<mapsto> v)" "dmap_inv I ((k, v) # m) \<longleftrightarrow> I k \<and> dmap_inv I m"
  by (auto simp: dmap_def dmap_inv_def fun_upd_def)

subsection \<open>What a type of sets promises\<close>

locale data_set =
  fixes D :: "('d, 'e) data_ops"
    and \<alpha> :: "'d \<Rightarrow> 'e set"
    and I :: "'d \<Rightarrow> bool"
    and ok :: "'e \<Rightarrow> bool"
  assumes new: "I (ds_new D)" "\<alpha> (ds_new D) = {}"
    and copy: "I d \<Longrightarrow> I (ds_copy D d)" "I d \<Longrightarrow> \<alpha> (ds_copy D d) = \<alpha> d"
    and mem_ok: "I d \<Longrightarrow> x \<in> \<alpha> d \<Longrightarrow> ok x"
    and empty: "I d \<Longrightarrow> ds_empty D d \<longleftrightarrow> \<alpha> d = {}"
    and test: "I d \<Longrightarrow> ok x \<Longrightarrow> ds_test D d x = Some (x \<in> \<alpha> d)"
    and set: "I d \<Longrightarrow> ok x \<Longrightarrow> wp (ds_set D d x) (\<lambda>d'. I d' \<and> \<alpha> d' = insert x (\<alpha> d))"
    and reset: "I d \<Longrightarrow> ok x \<Longrightarrow> wp (ds_reset D d x) (\<lambda>d'. I d' \<and> \<alpha> d' = \<alpha> d - {x})"
    and test_and_set: "I d \<Longrightarrow> ok x \<Longrightarrow>
      wp (ds_test_and_set D d x) (\<lambda>(b, d'). (b \<longleftrightarrow> x \<notin> \<alpha> d) \<and> I d' \<and> \<alpha> d' = insert x (\<alpha> d))"
    and clear: "I d \<Longrightarrow> I (ds_clear D d)" "I d \<Longrightarrow> \<alpha> (ds_clear D d) = {}"
    and union_into: "I d \<Longrightarrow> I d' \<Longrightarrow>
      wp (ds_or D d d') (\<lambda>(ch, r). I r \<and> \<alpha> r = \<alpha> d \<union> \<alpha> d' \<and> (\<alpha> r \<noteq> \<alpha> d \<longrightarrow> ch))"
    and inter_into: "I d \<Longrightarrow> I d' \<Longrightarrow>
      wp (ds_and D d d') (\<lambda>(ch, r). I r \<and> \<alpha> r = \<alpha> d \<inter> \<alpha> d' \<and> (\<alpha> r \<noteq> \<alpha> d \<longrightarrow> ch))"
    and icomp3: "I d \<Longrightarrow> I l \<Longrightarrow> I r \<Longrightarrow> wp (ds_icomp3 D d l r) (\<lambda>d'. I d' \<and> \<alpha> d' = \<alpha> l - \<alpha> r)"
    and union: "I d \<Longrightarrow> I d' \<Longrightarrow> wp (ds_union D d d') (\<lambda>r. I r \<and> \<alpha> r = \<alpha> d \<union> \<alpha> d')"
    and inter: "I d \<Longrightarrow> I d' \<Longrightarrow> wp (ds_inter D d d') (\<lambda>r. I r \<and> \<alpha> r = \<alpha> d \<inter> \<alpha> d')"
    and minus: "I d \<Longrightarrow> I d' \<Longrightarrow> wp (ds_minus D d d') (\<lambda>r. I r \<and> \<alpha> r = \<alpha> d - \<alpha> d')"
    and elems: "I d \<Longrightarrow> wp (ds_elems D d) (\<lambda>xs. distinct xs \<and> List.set xs = \<alpha> d)"
    and remap: "I d \<Longrightarrow> wp (ds_remap D d) (\<lambda>d'. I d' \<and> \<alpha> d' = \<alpha> d)"
begin

lemma finite_elems: "I d \<Longrightarrow> finite (\<alpha> d)"
  using elems[of d] by (metis (mono_tags, lifting) List.finite_set wp_iff)

end

text \<open>With the key law the change flag of \<^verbatim>\<open>|=\<close> is exact as well.\<close>

locale canonical_data_set = data_set D \<alpha> I ok
  for D :: "('d, 'e) data_ops" and \<alpha> :: "'d \<Rightarrow> 'e set" and I :: "'d \<Rightarrow> bool" and ok :: "'e \<Rightarrow> bool" +
  assumes same: "I d \<Longrightarrow> I d' \<Longrightarrow> ds_same D d d' = Some (\<alpha> d = \<alpha> d')"
    and union_flag: "I d \<Longrightarrow> I d' \<Longrightarrow> wp (ds_or D d d') (\<lambda>(ch, r). ch \<longleftrightarrow> \<not> \<alpha> d' \<subseteq> \<alpha> d)"
begin

lemma dfind_ok: "dmap_inv I m \<Longrightarrow> I k \<Longrightarrow> dfind D k m = Some (dmap \<alpha> m (\<alpha> k))"
  by (induction m) (auto simp: same)

lemma dput_ok:
  "dmap_inv I m \<Longrightarrow> I k \<Longrightarrow> wp (dput D k v m) (\<lambda>m'. dmap_inv I m' \<and> dmap \<alpha> m' = (dmap \<alpha> m)(\<alpha> k \<mapsto> v))"
proof (induction m)
  case Nil
  then show ?case by (simp add: copy fun_upd_def)
next
  case (Cons kv m)
  obtain k' v' where kv: "kv = (k', v')" by fastforce
  then show ?case
    using Cons by (cases "\<alpha> k' = \<alpha> k") (simp add: same, auto simp: same wp_iff fun_eq_iff)
qed

end

subsection \<open>\<^verbatim>\<open>PointsTo\<close> as a type of sets\<close>

definition pts_ops :: "pt_env \<Rightarrow> (points_to, nat) data_ops" where
  "pts_ops E = \<lparr>ds_new = pt_new E, ds_copy = pt_copy, ds_hash = pt_hash E, ds_eq = pt_eq,
     ds_empty = pt_empty, ds_test = pt_test E, ds_set = pt_set E, ds_reset = pt_reset E,
     ds_test_and_set = pt_test_and_set E, ds_clear = pt_clear, ds_or = pt_or, ds_and = pt_and,
     ds_icomp3 = pt_intersectWithComplement3, ds_union = pt_union, ds_inter = pt_inter,
     ds_minus = pt_diff, ds_elems = pt_elems E, ds_remap = pt_checkAndRemap E\<rparr>"

text \<open>The sets of a run: the representation of the options, the current mapping.\<close>

definition run_inv :: "pt_env \<Rightarrow> points_to \<Rightarrow> bool" where
  "run_inv E p \<longleftrightarrow> pt_inv E p \<and> pt_like (pt_new E) p"

definition run_ok :: "pt_env \<Rightarrow> nat \<Rightarrow> bool" where
  "run_ok E n \<longleftrightarrow> node_ok E (pe_currentBestNodeMapping E) n"

definition env_ok :: "pt_env \<Rightarrow> bool" where
  "env_ok E \<longleftrightarrow> maps_ok E (pe_currentBestNodeMapping E) (pe_currentBestReverseNodeMapping E)"

lemma run_like: "run_inv E p \<Longrightarrow> run_inv E q \<Longrightarrow> pt_like p q"
  by (simp add: run_inv_def pt_like_simps)

lemma run_like_trans: "run_inv E p \<Longrightarrow> pt_inv E q \<Longrightarrow> pt_like p q \<Longrightarrow> run_inv E q"
  by (simp add: run_inv_def pt_like_simps)

lemma run_inv_pt: "run_inv E p \<Longrightarrow> pt_inv E p"
  by (simp add: run_inv_def)

lemma run_mapping: "run_inv E p \<Longrightarrow> pt_nodeMapping p = pe_currentBestNodeMapping E"
  by (auto simp: run_inv_def pt_like_simps pt_new_def)

lemma run_inv_new: "env_ok E \<Longrightarrow> run_inv E (pt_new E)"
  by (simp add: run_inv_def env_ok_def pt_new_ok)

lemma run_inv_type: "run_inv E p \<Longrightarrow> st_type (pt_store p) = pe_PtType E"
  by (auto simp: run_inv_def pt_like_simps pt_new_def st_type_def split: pt_type.splits)

lemma run_node_ok: "run_inv E p \<Longrightarrow> run_ok E n \<longleftrightarrow> node_ok E (pt_nodeMapping p) n"
  by (simp add: run_mapping run_ok_def)

lemma pt_result_run:
  "run_inv E p \<Longrightarrow> pt_result E p S r \<Longrightarrow>
   (case r of (ch, q) \<Rightarrow> run_inv E q \<and> pts_of E q = S \<and> (pts_of E q \<noteq> pts_of E p \<longrightarrow> ch))"
  using run_like_trans by (auto simp: pt_result_def)

lemma pts_ops_data_set:
  assumes env: "env_ok E"
  shows "data_set (pts_ops E) (pts_of E) (run_inv E) (run_ok E)"
proof
  show "run_inv E (ds_new (pts_ops E))" "pts_of E (ds_new (pts_ops E)) = {}"
    using run_inv_new[OF env] pt_new_ok[of E] env by (simp_all add: pts_ops_def env_ok_def)
next
  fix d x assume d: "run_inv E d"
  note p = run_inv_pt[OF d]
  show "run_inv E (ds_copy (pts_ops E) d)"
    using pt_copy_ok[OF p] run_like_trans[OF d] by (simp add: pts_ops_def)
  show "pts_of E (ds_copy (pts_ops E) d) = pts_of E d"
    using pt_copy_ok[OF p] by (simp add: pts_ops_def)
  show "x \<in> pts_of E d \<Longrightarrow> run_ok E x" by (simp add: run_node_ok[OF d] pts_of_def)
  show "ds_empty (pts_ops E) d \<longleftrightarrow> pts_of E d = {}" by (simp add: pts_ops_def pt_empty_iff[OF p])
  show "run_inv E (ds_clear (pts_ops E) d)" "pts_of E (ds_clear (pts_ops E) d) = {}"
    using pt_clear_ok[OF p] run_like_trans[OF d] by (simp_all add: pts_ops_def)
  show "wp (ds_elems (pts_ops E) d) (\<lambda>xs. distinct xs \<and> set xs = pts_of E d)"
    using pt_elems_ok[OF p] by (auto simp: pts_ops_def)
  show "wp (ds_remap (pts_ops E) d) (\<lambda>d'. run_inv E d' \<and> pts_of E d' = pts_of E d)"
    using d run_mapping[OF d] by (simp add: pts_ops_def pt_checkAndRemap_def)
next
  fix d x assume d: "run_inv E d" and x: "run_ok E x"
  note p = run_inv_pt[OF d] and n = x[unfolded run_node_ok[OF d]]
  show "ds_test (pts_ops E) d x = Some (x \<in> pts_of E d)"
    by (simp add: pts_ops_def pt_test_ok[OF p n])
  show "wp (ds_set (pts_ops E) d x) (\<lambda>d'. run_inv E d' \<and> pts_of E d' = insert x (pts_of E d))"
    unfolding pts_ops_def by simp (rule wp_mono[OF pt_set_ok[OF p n]], simp add: run_like_trans[OF d])
  show "wp (ds_reset (pts_ops E) d x) (\<lambda>d'. run_inv E d' \<and> pts_of E d' = pts_of E d - {x})"
    unfolding pts_ops_def by simp (rule wp_mono[OF pt_reset_ok[OF p n]], simp add: run_like_trans[OF d])
  show "wp (ds_test_and_set (pts_ops E) d x)
      (\<lambda>(b, d'). (b \<longleftrightarrow> x \<notin> pts_of E d) \<and> run_inv E d' \<and> pts_of E d' = insert x (pts_of E d))"
    unfolding pts_ops_def
    by simp (rule wp_mono[OF pt_test_and_set_ok[OF p n]], simp add: run_like_trans[OF d] split_beta)
next
  fix d d' assume d: "run_inv E d" and d': "run_inv E d'"
  note p = run_inv_pt[OF d] run_inv_pt[OF d'] run_like[OF d d']
  show "wp (ds_or (pts_ops E) d d')
      (\<lambda>(ch, r). run_inv E r \<and> pts_of E r = pts_of E d \<union> pts_of E d' \<and> (pts_of E r \<noteq> pts_of E d \<longrightarrow> ch))"
    unfolding pts_ops_def by simp (rule wp_mono[OF pt_or_ok[OF p]], drule pt_result_run[OF d], simp add: split_beta)
  show "wp (ds_and (pts_ops E) d d')
      (\<lambda>(ch, r). run_inv E r \<and> pts_of E r = pts_of E d \<inter> pts_of E d' \<and> (pts_of E r \<noteq> pts_of E d \<longrightarrow> ch))"
    unfolding pts_ops_def by simp (rule wp_mono[OF pt_and_ok[OF p]], drule pt_result_run[OF d], simp add: split_beta)
  show "wp (ds_union (pts_ops E) d d') (\<lambda>r. run_inv E r \<and> pts_of E r = pts_of E d \<union> pts_of E d')"
    unfolding pts_ops_def by simp (rule wp_mono[OF pt_union_ok[OF p]], simp add: run_like_trans[OF d])
  show "wp (ds_inter (pts_ops E) d d') (\<lambda>r. run_inv E r \<and> pts_of E r = pts_of E d \<inter> pts_of E d')"
    unfolding pts_ops_def by simp (rule wp_mono[OF pt_inter_ok[OF p]], simp add: run_like_trans[OF d])
  show "wp (ds_minus (pts_ops E) d d') (\<lambda>r. run_inv E r \<and> pts_of E r = pts_of E d - pts_of E d')"
    unfolding pts_ops_def by simp (rule wp_mono[OF pt_diff_ok[OF p]], simp add: run_like_trans[OF d])
next
  fix d l r assume *: "run_inv E d" "run_inv E l" "run_inv E r"
  show "wp (ds_icomp3 (pts_ops E) d l r) (\<lambda>d'. run_inv E d' \<and> pts_of E d' = pts_of E l - pts_of E r)"
    unfolding pts_ops_def
    by simp (rule wp_mono[OF pt_intersectWithComplement3_ok[of E l r d]],
        use * in \<open>simp_all add: run_inv_pt run_like run_like_trans[of E d]\<close>)
qed

text \<open>The program starts without a mapping; the representation is the option \<^verbatim>\<open>-pt-type\<close>.\<close>

definition initial_env :: "pt_type \<Rightarrow> (64 word \<Rightarrow> 64 word) \<Rightarrow> pt_env" where
  "initial_env ty h = \<lparr>pe_PtType = ty, pe_currentBestNodeMapping = None,
     pe_currentBestReverseNodeMapping = None, pe_vec = (\<lambda>_. []), pe_hash = h\<rparr>"

lemma pts_ops_canonical:
  assumes env: "env_ok E" and ty: "pe_PtType E = SBV"
  shows "canonical_data_set (pts_ops E) (pts_of E) (run_inv E) (run_ok E)"
proof (rule canonical_data_set.intro[OF pts_ops_data_set[OF env] canonical_data_set_axioms.intro])
  fix d d' assume d: "run_inv E d" and d': "run_inv E d'"
  note p = run_inv_pt[OF d] run_inv_pt[OF d'] run_like[OF d d']
  have sbv: "st_type (pt_store d) = SBV" using run_inv_type[OF d] ty by simp
  obtain h where h: "pt_hash E d = Some h" "pts_of E d = pts_of E d' \<longrightarrow> pt_hash E d' = Some h"
    using pt_hash_ok[OF p sbv] by blast
  have like': "pt_like d' d" by (rule run_like[OF d' d])
  obtain h' where h': "pt_hash E d' = Some h'"
    using pt_hash_ok[OF p(2,1) like'] run_inv_type[OF d'] ty by auto
  show "ds_same (pts_ops E) d d' = Some (pts_of E d = pts_of E d')"
    using h h' by (auto simp: ds_same_def pts_ops_def pt_eq_ok[OF p])
  show "wp (ds_or (pts_ops E) d d') (\<lambda>(ch, r). ch \<longleftrightarrow> \<not> pts_of E d' \<subseteq> pts_of E d)"
    unfolding pts_ops_def
    by simp (rule wp_mono[OF pt_or_ok[OF p]], use sbv in \<open>auto simp: pt_result_def\<close>)
qed

lemma initial_env_ok [simp]: "env_ok (initial_env ty h)" "pe_PtType (initial_env ty h) = ty"
  by (simp_all add: env_ok_def maps_ok_def initial_env_def)

interpretation ptd: data_set "pts_ops (initial_env ty h)" "pts_of (initial_env ty h)"
    "run_inv (initial_env ty h)" "run_ok (initial_env ty h)" for ty h
  by (rule pts_ops_data_set) simp

interpretation pts: canonical_data_set "pts_ops (initial_env SBV h)" "pts_of (initial_env SBV h)"
    "run_inv (initial_env SBV h)" "run_ok (initial_env SBV h)" for h
  by (rule pts_ops_canonical) simp_all

end
