(* ===== verification/Points_To_Cache.thy ===== *)
theory Points_To_Cache
  imports Data_Set
begin

text \<open>
  \<^verbatim>\<open>PersistentPointsToCache\<close> (\<^verbatim>\<open>svf/include/MemoryModel/PersistentPointsToCache.h\<close>): points-to
  sets are interned and denoted by numbers, the results of union, difference and intersection
  are memoised, and further results are entered in the tables ahead of time. \<open>pc_inv\<close> says that
  the numbers and the sets are in bijection and that every memoised result is right; from it
  the three operations return the number of the right set, in whatever state the tables are.
\<close>

record 'd pt_cache =
  pc_idToPts :: "'d list"
  pc_ptsToId :: "('d \<times> nat) list"
  pc_unionCache :: "((nat \<times> nat) \<times> nat) list"
  pc_complementCache :: "((nat \<times> nat) \<times> nat) list"
  pc_intersectionCache :: "((nat \<times> nat) \<times> nat) list"
  pc_idCounter :: nat
  pc_totalUnions :: "64 word"
  pc_uniqueUnions :: "64 word"
  pc_propertyUnions :: "64 word"
  pc_lookupUnions :: "64 word"
  pc_preemptiveUnions :: "64 word"
  pc_totalComplements :: "64 word"
  pc_uniqueComplements :: "64 word"
  pc_propertyComplements :: "64 word"
  pc_lookupComplements :: "64 word"
  pc_preemptiveComplements :: "64 word"
  pc_totalIntersections :: "64 word"
  pc_uniqueIntersections :: "64 word"
  pc_propertyIntersections :: "64 word"
  pc_lookupIntersections :: "64 word"
  pc_preemptiveIntersections :: "64 word"

definition pc_initStats :: "'d pt_cache \<Rightarrow> 'd pt_cache" where
  "pc_initStats c = c\<lparr>pc_totalUnions := 0, pc_uniqueUnions := 0, pc_propertyUnions := 0,
     pc_lookupUnions := 0, pc_preemptiveUnions := 0, pc_totalComplements := 0,
     pc_uniqueComplements := 0, pc_propertyComplements := 0, pc_lookupComplements := 0,
     pc_preemptiveComplements := 0, pc_totalIntersections := 0, pc_uniqueIntersections := 0,
     pc_propertyIntersections := 0, pc_lookupIntersections := 0, pc_preemptiveIntersections := 0\<rparr>"

definition emptyPointsToId :: nat where
  "emptyPointsToId = 0"

definition pc_new :: "('d, 'e) data_ops \<Rightarrow> 'd pt_cache option" where
  "pc_new D = do {
     m \<leftarrow> dput D (ds_new D) emptyPointsToId [];
     Some (pc_initStats \<lparr>pc_idToPts = [ds_new D], pc_ptsToId = m, pc_unionCache = [],
       pc_complementCache = [], pc_intersectionCache = [], pc_idCounter = 1,
       pc_totalUnions = 0, pc_uniqueUnions = 0, pc_propertyUnions = 0, pc_lookupUnions = 0,
       pc_preemptiveUnions = 0, pc_totalComplements = 0, pc_uniqueComplements = 0,
       pc_propertyComplements = 0, pc_lookupComplements = 0, pc_preemptiveComplements = 0,
       pc_totalIntersections = 0, pc_uniqueIntersections = 0, pc_propertyIntersections = 0,
       pc_lookupIntersections = 0, pc_preemptiveIntersections = 0\<rparr>) }"

definition pc_clear :: "'d pt_cache \<Rightarrow> 'd pt_cache" where
  "pc_clear c = c\<lparr>pc_idToPts := [], pc_ptsToId := [], pc_unionCache := [], pc_complementCache := [],
     pc_intersectionCache := []\<rparr>"

definition pc_reset :: "('d, 'e) data_ops \<Rightarrow> 'd pt_cache \<Rightarrow> 'd pt_cache option" where
  "pc_reset D c = do {
     let c = pc_clear c;
     m \<leftarrow> dput D (ds_new D) emptyPointsToId (pc_ptsToId c);
     Some (pc_initStats (c\<lparr>pc_ptsToId := m, pc_idToPts := pc_idToPts c @ [ds_new D], pc_idCounter := 1\<rparr>)) }"

definition pc_remapAllPts :: "('d, 'e) data_ops \<Rightarrow> 'd pt_cache \<Rightarrow> 'd pt_cache option" where
  "pc_remapAllPts D c = do {
     ds \<leftarrow> mapM (ds_remap D) (pc_idToPts c);
     m \<leftarrow> foldM (\<lambda>i m. dput D (ds ! i) i m) [0..<length ds] [];
     Some (c\<lparr>pc_idToPts := ds, pc_ptsToId := m\<rparr>) }"

definition pc_newPointsToId :: "'d pt_cache \<Rightarrow> (nat \<times> 'd pt_cache) option" where
  "pc_newPointsToId c = do {
     ensure (pc_idCounter c \<noteq> emptyPointsToId);
     Some (pc_idCounter c, c\<lparr>pc_idCounter := (pc_idCounter c + 1) mod 2 ^ 32\<rparr>) }"

definition pc_emplacePts :: "('d, 'e) data_ops \<Rightarrow> 'd \<Rightarrow> 'd pt_cache \<Rightarrow> (nat \<times> 'd pt_cache) option" where
  "pc_emplacePts D pts c = do {
     found \<leftarrow> dfind D pts (pc_ptsToId c);
     case found of
       Some i \<Rightarrow> Some (i, c)
     | None \<Rightarrow> do {
         (i, c) \<leftarrow> pc_newPointsToId c;
         let c = c\<lparr>pc_idToPts := pc_idToPts c @ [ds_copy D pts]\<rparr>;
         m \<leftarrow> dput D pts i (pc_ptsToId c);
         Some (i, c\<lparr>pc_ptsToId := m\<rparr>) } }"

definition pc_getActualPts :: "nat \<Rightarrow> 'd pt_cache \<Rightarrow> 'd option" where
  "pc_getActualPts i c = do {
     ensure (length (pc_idToPts c) > i);
     Some (pc_idToPts c ! i) }"

text \<open>\<^verbatim>\<open>std::minmax\<close>.\<close>

definition minmax :: "nat \<Rightarrow> nat \<Rightarrow> nat \<times> nat" where
  "minmax a b = (if b < a then (b, a) else (a, b))"

text \<open>
  \<^verbatim>\<open>opPts\<close>: the table is a reference parameter, so it is returned; so is \<^verbatim>\<open>opPerformed\<close>.
\<close>

definition pc_opPts :: "('d, 'e) data_ops \<Rightarrow> nat \<Rightarrow> nat \<Rightarrow> ('d \<Rightarrow> 'd \<Rightarrow> 'd option) \<Rightarrow>
    ((nat \<times> nat) \<times> nat) list \<Rightarrow> bool \<Rightarrow> 'd pt_cache \<Rightarrow>
    (nat \<times> bool \<times> ((nat \<times> nat) \<times> nat) list \<times> 'd pt_cache) option" where
  "pc_opPts D lhs rhs dataOp opCache commutative c =
    (let operands = (if commutative then minmax lhs rhs else (lhs, rhs))
     in case map_of opCache operands of
       Some i \<Rightarrow> Some (i, False, opCache, c)
     | None \<Rightarrow> do {
         lhsPts \<leftarrow> pc_getActualPts lhs c;
         rhsPts \<leftarrow> pc_getActualPts rhs c;
         result \<leftarrow> dataOp lhsPts rhsPts;
         found \<leftarrow> dfind D result (pc_ptsToId c);
         (resultId, c) \<leftarrow> (case found of
             Some i \<Rightarrow> Some (i, c)
           | None \<Rightarrow> do {
               (i, c) \<leftarrow> pc_newPointsToId c;
               let c = c\<lparr>pc_idToPts := pc_idToPts c @ [ds_copy D result]\<rparr>;
               m \<leftarrow> dput D result i (pc_ptsToId c);
               Some (i, c\<lparr>pc_ptsToId := m\<rparr>) });
         Some (resultId, True, aput operands resultId opCache, c) })"

definition pc_unionPts :: "('d, 'e) data_ops \<Rightarrow> nat \<Rightarrow> nat \<Rightarrow> 'd pt_cache \<Rightarrow> (nat \<times> 'd pt_cache) option" where
  "pc_unionPts D lhs rhs c =
    (let c = c\<lparr>pc_totalUnions := pc_totalUnions c + 1\<rparr>;
         operands = minmax lhs rhs
     in if fst operands = emptyPointsToId
        then Some (snd operands, c\<lparr>pc_propertyUnions := pc_propertyUnions c + 1\<rparr>)
        else if fst operands = snd operands
        then Some (fst operands, c\<lparr>pc_propertyUnions := pc_propertyUnions c + 1\<rparr>)
        else do {
          (result, opPerformed, cache, c) \<leftarrow> pc_opPts D lhs rhs (ds_union D) (pc_unionCache c) True c;
          let c = c\<lparr>pc_unionCache := cache\<rparr>;
          if opPerformed then
            (let c = c\<lparr>pc_uniqueUnions := pc_uniqueUnions c + 1\<rparr>;
                 c = (if lhs \<noteq> result
                      then c\<lparr>pc_unionCache := aput (minmax lhs result) result (pc_unionCache c),
                             pc_preemptiveUnions := pc_preemptiveUnions c + 1,
                             pc_totalUnions := pc_totalUnions c + 1\<rparr>
                      else c);
                 c = (if rhs \<noteq> result
                      then c\<lparr>pc_unionCache := aput (minmax rhs result) result (pc_unionCache c),
                             pc_preemptiveUnions := pc_preemptiveUnions c + 1,
                             pc_totalUnions := pc_totalUnions c + 1\<rparr>
                      else c)
             in Some (result, c))
          else Some (result, c\<lparr>pc_lookupUnions := pc_lookupUnions c + 1\<rparr>) })"

definition pc_complementPts :: "('d, 'e) data_ops \<Rightarrow> nat \<Rightarrow> nat \<Rightarrow> 'd pt_cache \<Rightarrow> (nat \<times> 'd pt_cache) option" where
  "pc_complementPts D lhs rhs c =
    (let c = c\<lparr>pc_totalComplements := pc_totalComplements c + 1\<rparr>
     in if lhs = rhs
        then Some (emptyPointsToId, c\<lparr>pc_propertyComplements := pc_propertyComplements c + 1\<rparr>)
        else if rhs = emptyPointsToId
        then Some (lhs, c\<lparr>pc_propertyComplements := pc_propertyComplements c + 1\<rparr>)
        else if lhs = emptyPointsToId
        then Some (emptyPointsToId, c\<lparr>pc_propertyComplements := pc_propertyComplements c + 1\<rparr>)
        else do {
          (result, opPerformed, cache, c) \<leftarrow> pc_opPts D lhs rhs (ds_minus D) (pc_complementCache c) False c;
          let c = c\<lparr>pc_complementCache := cache\<rparr>;
          if opPerformed then
            (let c = c\<lparr>pc_uniqueComplements := pc_uniqueComplements c + 1\<rparr>
             in if result \<noteq> emptyPointsToId then
                  (let c = c\<lparr>pc_intersectionCache := aput (minmax result rhs) emptyPointsToId (pc_intersectionCache c),
                             pc_preemptiveIntersections := pc_preemptiveIntersections c + 1,
                             pc_totalIntersections := pc_totalIntersections c + 1\<rparr>;
                       c = c\<lparr>pc_intersectionCache := aput (minmax result lhs) result (pc_intersectionCache c),
                             pc_preemptiveIntersections := pc_preemptiveIntersections c + 1,
                             pc_totalIntersections := pc_totalIntersections c + 1\<rparr>;
                       c = c\<lparr>pc_complementCache := aput (result, rhs) result (pc_complementCache c),
                             pc_preemptiveComplements := pc_preemptiveComplements c + 1,
                             pc_totalComplements := pc_totalComplements c + 1\<rparr>
                   in Some (result, c))
                else Some (result, c))
          else Some (result, c\<lparr>pc_lookupComplements := pc_lookupComplements c + 1\<rparr>) })"

definition pc_intersectPts :: "('d, 'e) data_ops \<Rightarrow> nat \<Rightarrow> nat \<Rightarrow> 'd pt_cache \<Rightarrow> (nat \<times> 'd pt_cache) option" where
  "pc_intersectPts D lhs rhs c =
    (let c = c\<lparr>pc_totalIntersections := pc_totalIntersections c + 1\<rparr>;
         operands = minmax lhs rhs
     in if fst operands = emptyPointsToId
        then Some (emptyPointsToId, c\<lparr>pc_propertyIntersections := pc_propertyIntersections c + 1\<rparr>)
        else if fst operands = snd operands
        then Some (fst operands, c\<lparr>pc_propertyIntersections := pc_propertyIntersections c + 1\<rparr>)
        else do {
          (result, opPerformed, cache, c) \<leftarrow> pc_opPts D lhs rhs (ds_inter D) (pc_intersectionCache c) True c;
          let c = c\<lparr>pc_intersectionCache := cache\<rparr>;
          if opPerformed then
            (let c = c\<lparr>pc_uniqueIntersections := pc_uniqueIntersections c + 1\<rparr>
             in if result \<noteq> emptyPointsToId then
               (let c = (if result \<noteq> rhs
                      then c\<lparr>pc_intersectionCache := aput (minmax result rhs) result (pc_intersectionCache c),
                             pc_preemptiveIntersections := pc_preemptiveIntersections c + 1,
                             pc_totalIntersections := pc_totalIntersections c + 1\<rparr>
                      else c);
                    c = (if result \<noteq> lhs
                      then c\<lparr>pc_intersectionCache := aput (minmax result lhs) result (pc_intersectionCache c),
                             pc_preemptiveIntersections := pc_preemptiveIntersections c + 1,
                             pc_totalIntersections := pc_totalIntersections c + 1\<rparr>
                      else c);
                    c = (if result \<noteq> emptyPointsToId \<and> result \<noteq> lhs
                      then c\<lparr>pc_unionCache := aput (minmax lhs result) lhs (pc_unionCache c),
                             pc_preemptiveUnions := pc_preemptiveUnions c + 1,
                             pc_totalUnions := pc_totalUnions c + 1\<rparr>
                      else c);
                    c = (if result \<noteq> emptyPointsToId \<and> result \<noteq> rhs
                      then c\<lparr>pc_unionCache := aput (minmax rhs result) rhs (pc_unionCache c),
                             pc_preemptiveUnions := pc_preemptiveUnions c + 1,
                             pc_totalUnions := pc_totalUnions c + 1\<rparr>
                      else c)
                in Some (result, c))
             else Some (result, c))
          else Some (result, c\<lparr>pc_lookupIntersections := pc_lookupIntersections c + 1\<rparr>) })"

text \<open>\<^verbatim>\<open>getAllPts\<close>: every stored set, with the value 1.\<close>

definition pc_getAllPts :: "('d, 'e) data_ops \<Rightarrow> 'd pt_cache \<Rightarrow> ('d \<times> nat) list option" where
  "pc_getAllPts D c = foldM (\<lambda>d m. dput D d 1 m) (pc_idToPts c) []"

subsection \<open>The invariant\<close>

text \<open>Numbers and sets: \<open>ids\<close> is \<^verbatim>\<open>idToPts\<close>, \<open>m\<close> its inverse \<^verbatim>\<open>ptsToId\<close>, \<open>k\<close> the counter.\<close>

definition pc_core :: "('d \<Rightarrow> 'e set) \<Rightarrow> ('d \<Rightarrow> bool) \<Rightarrow> 'd list \<Rightarrow> ('d \<times> nat) list \<Rightarrow> nat \<Rightarrow> bool" where
  "pc_core \<alpha> I ids m k \<longleftrightarrow>
    ids \<noteq> [] \<and> list_all I ids \<and> \<alpha> (ids ! 0) = {} \<and> distinct (map \<alpha> ids) \<and>
    dmap_inv I m \<and> (\<forall>S i. dmap \<alpha> m S = Some i \<longleftrightarrow> i < length ids \<and> \<alpha> (ids ! i) = S) \<and>
    k = length ids mod 2 ^ 32 \<and> length ids \<le> 2 ^ 32"

text \<open>A table of memoised results of the operation \<open>F\<close>.\<close>

definition op_ok :: "('d \<Rightarrow> 'e set) \<Rightarrow> ('e set \<Rightarrow> 'e set \<Rightarrow> 'e set) \<Rightarrow> 'd list \<Rightarrow> ((nat \<times> nat) \<times> nat) list \<Rightarrow> bool" where
  "op_ok \<alpha> F ids t \<longleftrightarrow> (\<forall>a b r. map_of t (a, b) = Some r \<longrightarrow>
     a < length ids \<and> b < length ids \<and> r < length ids \<and> \<alpha> (ids ! r) = F (\<alpha> (ids ! a)) (\<alpha> (ids ! b)))"

definition pc_inv :: "('d \<Rightarrow> 'e set) \<Rightarrow> ('d \<Rightarrow> bool) \<Rightarrow> 'd pt_cache \<Rightarrow> bool" where
  "pc_inv \<alpha> I c \<longleftrightarrow> pc_core \<alpha> I (pc_idToPts c) (pc_ptsToId c) (pc_idCounter c) \<and>
     op_ok \<alpha> (\<union>) (pc_idToPts c) (pc_unionCache c) \<and>
     op_ok \<alpha> (-) (pc_idToPts c) (pc_complementCache c) \<and>
     op_ok \<alpha> (\<inter>) (pc_idToPts c) (pc_intersectionCache c)"

text \<open>The set with a number.\<close>

definition pc_has :: "('d \<Rightarrow> 'e set) \<Rightarrow> 'd pt_cache \<Rightarrow> nat \<Rightarrow> 'e set \<Rightarrow> bool" where
  "pc_has \<alpha> c i S \<longleftrightarrow> i < length (pc_idToPts c) \<and> \<alpha> (pc_idToPts c ! i) = S"

text \<open>Numbers once given stay.\<close>

definition pc_ext :: "'d pt_cache \<Rightarrow> 'd pt_cache \<Rightarrow> bool" where
  "pc_ext c c' \<longleftrightarrow> (\<exists>ds. pc_idToPts c' = pc_idToPts c @ ds)"

text \<open>Every request is answered by a property, a first computation or a look-up; entries made ahead of time count twice.\<close>

definition pc_stats_ok :: "'d pt_cache \<Rightarrow> bool" where
  "pc_stats_ok c \<longleftrightarrow>
     pc_totalUnions c = pc_propertyUnions c + pc_uniqueUnions c + pc_lookupUnions c + pc_preemptiveUnions c \<and>
     pc_totalComplements c = pc_propertyComplements c + pc_uniqueComplements c + pc_lookupComplements c +
       pc_preemptiveComplements c \<and>
     pc_totalIntersections c = pc_propertyIntersections c + pc_uniqueIntersections c +
       pc_lookupIntersections c + pc_preemptiveIntersections c"

lemma op_ok_Nil [simp]: "op_ok \<alpha> F ids []"
  by (simp add: op_ok_def)

lemma op_ok_append: "op_ok \<alpha> F ids t \<Longrightarrow> op_ok \<alpha> F (ids @ ds) t"
  unfolding op_ok_def by (fastforce simp: nth_append)

lemma op_ok_aput:
  "op_ok \<alpha> F ids t \<Longrightarrow> a < length ids \<Longrightarrow> b < length ids \<Longrightarrow> r < length ids \<Longrightarrow>
   \<alpha> (ids ! r) = F (\<alpha> (ids ! a)) (\<alpha> (ids ! b)) \<Longrightarrow> op_ok \<alpha> F ids (aput (a, b) r t)"
  by (auto simp: op_ok_def split: if_splits)

lemma op_ok_minmax:
  "op_ok \<alpha> F ids t \<Longrightarrow> a < length ids \<Longrightarrow> b < length ids \<Longrightarrow> r < length ids \<Longrightarrow>
   \<alpha> (ids ! r) = F (\<alpha> (ids ! a)) (\<alpha> (ids ! b)) \<Longrightarrow> (\<And>S T. F S T = F T S) \<Longrightarrow>
   op_ok \<alpha> F ids (aput (minmax a b) r t)"
  by (auto simp: minmax_def intro!: op_ok_aput)

lemma pc_ext_refl [simp]: "pc_ext c c"
  by (simp add: pc_ext_def)

lemma pc_ext_trans: "pc_ext a b \<Longrightarrow> pc_ext b c \<Longrightarrow> pc_ext a c"
  by (auto simp: pc_ext_def)

lemma pc_has_ext: "pc_ext c c' \<Longrightarrow> pc_has \<alpha> c i S \<Longrightarrow> pc_has \<alpha> c' i S"
  by (auto simp: pc_ext_def pc_has_def nth_append)

text \<open>One number for one set, one set for one number.\<close>

lemma pc_has_inject:
  assumes "pc_inv \<alpha> I c" "pc_has \<alpha> c i S" "pc_has \<alpha> c j T"
  shows "i = j \<longleftrightarrow> S = T"
proof -
  have "distinct (map \<alpha> (pc_idToPts c))" using assms(1) by (simp add: pc_inv_def pc_core_def)
  then show ?thesis using assms(2,3) by (auto simp: pc_has_def distinct_conv_nth)
qed

lemma pc_has_empty: "pc_inv \<alpha> I c \<Longrightarrow> pc_has \<alpha> c emptyPointsToId {}"
  by (auto simp: pc_inv_def pc_core_def pc_has_def emptyPointsToId_def)

lemma pc_getActualPts_ok:
  "pc_inv \<alpha> I c \<Longrightarrow> pc_has \<alpha> c i S \<Longrightarrow> wp (pc_getActualPts i c) (\<lambda>d. I d \<and> \<alpha> d = S)"
  by (auto simp: pc_getActualPts_def pc_has_def pc_inv_def pc_core_def list_all_length)

context canonical_data_set
begin

lemma core_add:
  assumes core: "pc_core \<alpha> I ids m k" and d: "I d" "\<And>i. i < length ids \<Longrightarrow> \<alpha> (ids ! i) \<noteq> \<alpha> d"
    and room: "length ids < 2 ^ 32"
  shows "k = length ids \<and> k \<noteq> 0 \<and>
    wp (dput D d k m) (\<lambda>m'. pc_core \<alpha> I (ids @ [ds_copy D d]) m' ((k + 1) mod 2 ^ 32))"
proof -
  have k: "k = length ids" "k \<noteq> 0" using core room by (auto simp: pc_core_def)
  have *: "dmap_inv I m" "\<And>S i. dmap \<alpha> m S = Some i \<longleftrightarrow> i < length ids \<and> \<alpha> (ids ! i) = S"
    using core by (auto simp: pc_core_def)
  have "pc_core \<alpha> I (ids @ [ds_copy D d]) m' ((k + 1) mod 2 ^ 32)"
    if m': "dmap_inv I m'" "dmap \<alpha> m' = (dmap \<alpha> m)(\<alpha> d \<mapsto> k)" for m'
    unfolding pc_core_def
  proof (intro conjI allI)
    show "list_all I (ids @ [ds_copy D d])" "ids @ [ds_copy D d] \<noteq> []" "\<alpha> ((ids @ [ds_copy D d]) ! 0) = {}"
      using core d(1) copy(1) by (auto simp: pc_core_def nth_append)
    have "\<alpha> d \<notin> \<alpha> ` set ids" using d(2) by (metis imageE in_set_conv_nth)
    then show "distinct (map \<alpha> (ids @ [ds_copy D d]))"
      using core d(1) copy(2) by (simp add: pc_core_def)
    show "(k + 1) mod 2 ^ 32 = length (ids @ [ds_copy D d]) mod 2 ^ 32" "length (ids @ [ds_copy D d]) \<le> 2 ^ 32"
      using k room by simp_all
    fix S i
    show "dmap \<alpha> m' S = Some i \<longleftrightarrow> i < length (ids @ [ds_copy D d]) \<and> \<alpha> ((ids @ [ds_copy D d]) ! i) = S"
      using *(2)[of S i] d copy(2)[OF d(1)] k m'(2) by (auto simp: nth_append less_Suc_eq)
  qed (rule m'(1))
  then show ?thesis using k wp_mono[OF dput_ok[OF *(1) d(1), of k]] by auto
qed

text \<open>Interning: the number of the set, old or new.\<close>

lemma emplace_ok:
  assumes inv: "pc_inv \<alpha> I c" and d: "I d" and room: "length (pc_idToPts c) < 2 ^ 32"
  shows "wp (pc_emplacePts D d c) (\<lambda>(i, c'). \<exists>ds m k. c' = c\<lparr>pc_idToPts := pc_idToPts c @ ds, pc_ptsToId := m, pc_idCounter := k\<rparr> \<and>
    length ds \<le> 1 \<and> pc_inv \<alpha> I c' \<and> pc_has \<alpha> c' i (\<alpha> d))"
proof -
  let ?ids = "pc_idToPts c" and ?m = "pc_ptsToId c" and ?k = "pc_idCounter c"
  have core: "pc_core \<alpha> I ?ids ?m ?k" using inv by (simp add: pc_inv_def)
  then have m: "\<And>S i. dmap \<alpha> ?m S = Some i \<longleftrightarrow> i < length ?ids \<and> \<alpha> (?ids ! i) = S"
    and f: "dfind D d ?m = Some (dmap \<alpha> ?m (\<alpha> d))"
    using d by (auto simp: pc_core_def dfind_ok)
  show ?thesis
  proof (cases "dmap \<alpha> ?m (\<alpha> d)")
    case (Some i)
    then have "i < length ?ids" "\<alpha> (?ids ! i) = \<alpha> d" using m by auto
    then show ?thesis
      using inv f Some
      by (simp add: pc_emplacePts_def pc_has_def) (rule exI[of _ "[]"], simp, intro exI[of _ "pc_ptsToId c"] exI[of _ "pc_idCounter c"], simp)
  next
    case None
    then have "\<alpha> (?ids ! i) \<noteq> \<alpha> d" if "i < length ?ids" for i using m[of "\<alpha> d" i] that by auto
    note add = core_add[OF core d this room]
    then have k: "?k = length ?ids" "?k \<noteq> 0" by blast+
    obtain m' where m': "dput D d ?k ?m = Some m'" "pc_core \<alpha> I (?ids @ [ds_copy D d]) m' ((?k + 1) mod 2 ^ 32)"
      using add unfolding wp_iff by blast
    let ?c = "c\<lparr>pc_idToPts := ?ids @ [ds_copy D d], pc_ptsToId := m', pc_idCounter := (?k + 1) mod 2 ^ 32\<rparr>"
    have "pc_emplacePts D d c = Some (?k, ?c)"
      using f None k m'(1)
      by (simp add: pc_emplacePts_def pc_newPointsToId_def emptyPointsToId_def Let_def)
    moreover have "pc_inv \<alpha> I ?c" using m'(2) inv by (simp add: pc_inv_def op_ok_append)
    moreover have "pc_has \<alpha> ?c ?k (\<alpha> d)" using k copy(2)[OF d] by (simp add: pc_has_def nth_append)
    moreover have "\<exists>ds m k. ?c = c\<lparr>pc_idToPts := ?ids @ ds, pc_ptsToId := m, pc_idCounter := k\<rparr> \<and> length ds \<le> 1"
      by (intro exI conjI, rule refl) simp
    ultimately show ?thesis by (simp only: wp_Some prod.case) blast
  qed
qed

lemma opPts_emplace:
  "pc_opPts D lhs rhs dataOp opCache commutative c =
    (let operands = (if commutative then minmax lhs rhs else (lhs, rhs))
     in case map_of opCache operands of
       Some i \<Rightarrow> Some (i, False, opCache, c)
     | None \<Rightarrow> do {
         lhsPts \<leftarrow> pc_getActualPts lhs c;
         rhsPts \<leftarrow> pc_getActualPts rhs c;
         result \<leftarrow> dataOp lhsPts rhsPts;
         (resultId, c) \<leftarrow> pc_emplacePts D result c;
         Some (resultId, True, aput operands resultId opCache, c) })"
  unfolding pc_opPts_def pc_emplacePts_def Option.bind_assoc by (rule refl)

text \<open>An operation through its table.\<close>

lemma opPts_ok:
  assumes inv: "pc_inv \<alpha> I c" and room: "length (pc_idToPts c) < 2 ^ 32"
    and lr: "pc_has \<alpha> c lhs S" "pc_has \<alpha> c rhs T" and t: "op_ok \<alpha> F (pc_idToPts c) t"
    and op: "\<And>d e. I d \<Longrightarrow> I e \<Longrightarrow> wp (dataOp d e) (\<lambda>r. I r \<and> \<alpha> r = F (\<alpha> d) (\<alpha> e))"
    and comm: "commutative \<Longrightarrow> (\<And>S T. F S T = F T S)"
  shows "wp (pc_opPts D lhs rhs dataOp t commutative c) (\<lambda>(i, perf, t', c').
    \<exists>ds m k. c' = c\<lparr>pc_idToPts := pc_idToPts c @ ds, pc_ptsToId := m, pc_idCounter := k\<rparr> \<and>
      length ds \<le> 1 \<and> pc_inv \<alpha> I c' \<and> pc_has \<alpha> c' i (F S T) \<and> op_ok \<alpha> F (pc_idToPts c') t')"
proof -
  define operands where "operands = (if commutative then minmax lhs rhs else (lhs, rhs))"
  show ?thesis
  proof (cases "map_of t operands")
    case (Some i)
    obtain a b where ab: "operands = (a, b)" by fastforce
    have "a < length (pc_idToPts c) \<and> b < length (pc_idToPts c) \<and> i < length (pc_idToPts c) \<and>
        \<alpha> (pc_idToPts c ! i) = F (\<alpha> (pc_idToPts c ! a)) (\<alpha> (pc_idToPts c ! b))"
      using t Some ab by (simp add: op_ok_def)
    moreover have "F (\<alpha> (pc_idToPts c ! a)) (\<alpha> (pc_idToPts c ! b)) = F S T"
      using ab lr comm by (auto simp: operands_def minmax_def pc_has_def split: if_splits)
    ultimately have "pc_has \<alpha> c i (F S T)" by (simp add: pc_has_def)
    then show ?thesis
      using inv t Some by (simp add: opPts_emplace operands_def[symmetric] Let_def)
        (rule exI[of _ "[]"], simp, intro exI[of _ "pc_ptsToId c"] exI[of _ "pc_idCounter c"], simp)
  next
    case None
    obtain d e where de: "pc_getActualPts lhs c = Some d" "I d" "\<alpha> d = S"
      "pc_getActualPts rhs c = Some e" "I e" "\<alpha> e = T"
      using pc_getActualPts_ok[OF inv lr(1)] pc_getActualPts_ok[OF inv lr(2)] by (auto simp: wp_iff)
    obtain r where r: "dataOp d e = Some r" "I r" "\<alpha> r = F S T"
      using op[OF de(2,5)] de by (auto simp: wp_iff)
    obtain i c' ds m k where em: "pc_emplacePts D r c = Some (i, c')"
      "c' = c\<lparr>pc_idToPts := pc_idToPts c @ ds, pc_ptsToId := m, pc_idCounter := k\<rparr>"
      "length ds \<le> 1" "pc_inv \<alpha> I c'" "pc_has \<alpha> c' i (F S T)"
      using emplace_ok[OF inv r(2) room] r(3) by (auto simp: wp_iff)
    let ?c' = c'
    have ext: "pc_ext c ?c'" using em(2) by (simp add: pc_ext_def)
    have t': "op_ok \<alpha> F (pc_idToPts ?c') t" using op_ok_append[OF t, of ds] em(2) by simp
    have "op_ok \<alpha> F (pc_idToPts ?c') (aput operands i t)"
    proof (cases commutative)
      case True
      then show ?thesis
        unfolding operands_def using em(5) pc_has_ext[OF ext lr(1)] pc_has_ext[OF ext lr(2)] comm t'
        by (auto simp: pc_has_def intro!: op_ok_minmax)
    next
      case False
      then show ?thesis
        unfolding operands_def using em(5) pc_has_ext[OF ext lr(1)] pc_has_ext[OF ext lr(2)] t'
        by (auto simp: pc_has_def intro!: op_ok_aput)
    qed
    moreover have "pc_opPts D lhs rhs dataOp t commutative c = Some (i, True, aput operands i t, c')"
      using None de(1,4) r(1) em(1) by (simp add: opPts_emplace operands_def[symmetric] Let_def)
    ultimately show ?thesis using em(2-5) by (simp only: wp_Some prod.case) blast
  qed
qed

end

subsection \<open>The operations\<close>

text \<open>What an operation promises: the number of the right set, in a cache that only grew.\<close>

definition pc_result :: "('d \<Rightarrow> 'e set) \<Rightarrow> ('d \<Rightarrow> bool) \<Rightarrow> 'd pt_cache \<Rightarrow> 'e set \<Rightarrow> nat \<times> 'd pt_cache \<Rightarrow> bool" where
  "pc_result \<alpha> I c S r = (case r of (i, c') \<Rightarrow> pc_inv \<alpha> I c' \<and> pc_ext c c' \<and> pc_has \<alpha> c' i S \<and>
     length (pc_idToPts c') \<le> length (pc_idToPts c) + 1 \<and> (pc_stats_ok c \<longrightarrow> pc_stats_ok c'))"

lemma minmax_0: "fst (minmax a b) = 0 \<longleftrightarrow> a = 0 \<or> b = 0"
  by (auto simp: minmax_def)

lemma minmax_eq: "fst (minmax a b) = snd (minmax a b) \<longleftrightarrow> a = b"
  by (auto simp: minmax_def)

lemma pc_has_0:
  assumes "pc_inv \<alpha> I c" "pc_has \<alpha> c 0 S"
  shows "S = {}"
  using assms by (auto simp: pc_inv_def pc_core_def pc_has_def)

lemma pc_has_not_0:
  assumes "pc_inv \<alpha> I c" "pc_has \<alpha> c i S"
  shows "i = 0 \<longleftrightarrow> S = {}"
  using pc_has_inject[OF assms, of emptyPointsToId "{}"] pc_has_empty[OF assms(1)]
  by (simp add: emptyPointsToId_def)

text \<open>An entry made ahead of time keeps all this when it is right.\<close>

lemma pc_has_upd:
  "pc_idToPts c' = pc_idToPts c \<Longrightarrow> pc_has \<alpha> c' = pc_has \<alpha> c"
  by (simp add: pc_has_def fun_eq_iff)

lemma pre_union:
  assumes "pc_result \<alpha> I c U (i, c')" "pc_has \<alpha> c' a S" "pc_has \<alpha> c' b T" "pc_has \<alpha> c' r (S \<union> T)"
  shows "pc_result \<alpha> I c U (i, c'\<lparr>pc_unionCache := aput (minmax a b) r (pc_unionCache c'),
    pc_preemptiveUnions := pc_preemptiveUnions c' + 1, pc_totalUnions := pc_totalUnions c' + 1\<rparr>)"
proof -
  have "op_ok \<alpha> (\<union>) (pc_idToPts c') (aput (minmax a b) r (pc_unionCache c'))"
    by (rule op_ok_minmax) (use assms in \<open>auto simp: pc_result_def pc_inv_def pc_has_def\<close>)
  then show ?thesis
    using assms(1) by (simp add: pc_result_def pc_inv_def pc_ext_def pc_has_def pc_stats_ok_def)
qed

lemma pre_inter:
  assumes "pc_result \<alpha> I c U (i, c')" "pc_has \<alpha> c' a S" "pc_has \<alpha> c' b T" "pc_has \<alpha> c' r (S \<inter> T)"
  shows "pc_result \<alpha> I c U (i, c'\<lparr>pc_intersectionCache := aput (minmax a b) r (pc_intersectionCache c'),
    pc_preemptiveIntersections := pc_preemptiveIntersections c' + 1,
    pc_totalIntersections := pc_totalIntersections c' + 1\<rparr>)"
proof -
  have "op_ok \<alpha> (\<inter>) (pc_idToPts c') (aput (minmax a b) r (pc_intersectionCache c'))"
    by (rule op_ok_minmax) (use assms in \<open>auto simp: pc_result_def pc_inv_def pc_has_def\<close>)
  then show ?thesis
    using assms(1) by (simp add: pc_result_def pc_inv_def pc_ext_def pc_has_def pc_stats_ok_def)
qed

lemma pre_complement:
  assumes "pc_result \<alpha> I c U (i, c')" "pc_has \<alpha> c' a S" "pc_has \<alpha> c' b T" "pc_has \<alpha> c' r (S - T)"
  shows "pc_result \<alpha> I c U (i, c'\<lparr>pc_complementCache := aput (a, b) r (pc_complementCache c'),
    pc_preemptiveComplements := pc_preemptiveComplements c' + 1,
    pc_totalComplements := pc_totalComplements c' + 1\<rparr>)"
proof -
  have "op_ok \<alpha> (-) (pc_idToPts c') (aput (a, b) r (pc_complementCache c'))"
    by (rule op_ok_aput) (use assms in \<open>auto simp: pc_result_def pc_inv_def pc_has_def\<close>)
  then show ?thesis
    using assms(1) by (simp add: pc_result_def pc_inv_def pc_ext_def pc_has_def pc_stats_ok_def)
qed

text \<open>A request that a property of the operation answers.\<close>

lemma property_result:
  assumes "pc_inv \<alpha> I c" "pc_has \<alpha> c i S"
  shows "pc_result \<alpha> I c S (i, c\<lparr>pc_totalUnions := pc_totalUnions c + 1, pc_propertyUnions := pc_propertyUnions c + 1\<rparr>)"
    "pc_result \<alpha> I c S (i, c\<lparr>pc_totalComplements := pc_totalComplements c + 1,
      pc_propertyComplements := pc_propertyComplements c + 1\<rparr>)"
    "pc_result \<alpha> I c S (i, c\<lparr>pc_totalIntersections := pc_totalIntersections c + 1,
      pc_propertyIntersections := pc_propertyIntersections c + 1\<rparr>)"
  using assms by (simp_all add: pc_result_def pc_inv_def pc_ext_def pc_has_def pc_stats_ok_def)

context canonical_data_set
begin

theorem emplacePts_ok:
  assumes "pc_inv \<alpha> I c" "I d" "length (pc_idToPts c) < 2 ^ 32"
  shows "wp (pc_emplacePts D d c) (pc_result \<alpha> I c (\<alpha> d))"
  by (rule wp_mono[OF emplace_ok[OF assms]]) (auto simp: pc_result_def pc_ext_def pc_stats_ok_def)

text \<open>A first computation or a look-up, with one request counted.\<close>

lemma opPts_start:
  assumes "pc_inv \<alpha> I c" "length (pc_idToPts c) < 2 ^ 32" "pc_has \<alpha> c lhs S" "pc_has \<alpha> c rhs T"
    and "op_ok \<alpha> F (pc_idToPts c) t"
    and "\<And>d e. I d \<Longrightarrow> I e \<Longrightarrow> wp (dataOp d e) (\<lambda>r. I r \<and> \<alpha> r = F (\<alpha> d) (\<alpha> e))"
    and "commutative \<Longrightarrow> (\<And>S T. F S T = F T S)"
  obtains i perf t' ds m k c' where "pc_opPts D lhs rhs dataOp t commutative c = Some (i, perf, t', c')"
    "c' = c\<lparr>pc_idToPts := pc_idToPts c @ ds, pc_ptsToId := m, pc_idCounter := k\<rparr>"
    "length ds \<le> 1" "pc_inv \<alpha> I c'" "pc_has \<alpha> c' i (F S T)" "op_ok \<alpha> F (pc_idToPts c') t'"
    "pc_has \<alpha> c' lhs S" "pc_has \<alpha> c' rhs T" "pc_ext c c'"
proof -
  obtain i perf t' ds m k c' where o: "pc_opPts D lhs rhs dataOp t commutative c = Some (i, perf, t', c')"
    "c' = c\<lparr>pc_idToPts := pc_idToPts c @ ds, pc_ptsToId := m, pc_idCounter := k\<rparr>"
    "length ds \<le> 1" "pc_inv \<alpha> I c'" "pc_has \<alpha> c' i (F S T)" "op_ok \<alpha> F (pc_idToPts c') t'"
    using opPts_ok[OF assms] unfolding wp_iff by blast
  moreover have "pc_ext c c'" using o(2) by (simp add: pc_ext_def)
  ultimately show ?thesis using that pc_has_ext assms(3,4) by blast
qed

theorem unionPts_ok:
  assumes inv: "pc_inv \<alpha> I c" and room: "length (pc_idToPts c) < 2 ^ 32"
    and lr: "pc_has \<alpha> c lhs S" "pc_has \<alpha> c rhs T"
  shows "wp (pc_unionPts D lhs rhs c) (pc_result \<alpha> I c (S \<union> T))"
proof -
  let ?c = "c\<lparr>pc_totalUnions := pc_totalUnions c + 1\<rparr>"
  have inv1: "pc_inv \<alpha> I ?c" and room1: "length (pc_idToPts ?c) < 2 ^ 32"
    and lr1: "pc_has \<alpha> ?c lhs S" "pc_has \<alpha> ?c rhs T"
    using inv room lr by (simp_all add: pc_inv_def pc_has_def)
  consider (empty) "lhs = 0 \<or> rhs = 0" | (same) "lhs = rhs" "lhs \<noteq> 0" | (op) "lhs \<noteq> 0" "rhs \<noteq> 0" "lhs \<noteq> rhs"
    by blast
  then show ?thesis
  proof cases
    case empty
    have "(if lhs = 0 then T else S) = S \<union> T" using empty pc_has_0[OF inv] lr by auto
    moreover have "pc_has \<alpha> c (if lhs = 0 then rhs else lhs) (if lhs = 0 then T else S)" using lr by simp
    ultimately have "pc_has \<alpha> c (if lhs = 0 then rhs else lhs) (S \<union> T)" by simp
    moreover have "pc_unionPts D lhs rhs c = Some (if lhs = 0 then rhs else lhs, c\<lparr>pc_totalUnions := pc_totalUnions c + 1,
        pc_propertyUnions := pc_propertyUnions c + 1\<rparr>)"
      using empty by (auto simp: pc_unionPts_def minmax_def emptyPointsToId_def Let_def)
    ultimately show ?thesis using property_result(1)[OF inv] by simp
  next
    case same
    have "pc_has \<alpha> c lhs (S \<union> T)" using same pc_has_inject[OF inv lr] lr by simp
    moreover have "pc_unionPts D lhs rhs c = Some (lhs, c\<lparr>pc_totalUnions := pc_totalUnions c + 1,
        pc_propertyUnions := pc_propertyUnions c + 1\<rparr>)"
      using same by (simp add: pc_unionPts_def minmax_def emptyPointsToId_def Let_def)
    ultimately show ?thesis using property_result(1)[OF inv] by simp
  next
    case op
    have "op_ok \<alpha> (\<union>) (pc_idToPts ?c) (pc_unionCache ?c)" using inv by (simp add: pc_inv_def)
    note start = opPts_start[OF inv1 room1 lr1 this, of "ds_union D" True, OF union Un_commute]
    obtain i perf t ds m k c' where o: "pc_opPts D lhs rhs (ds_union D) (pc_unionCache ?c) True ?c = Some (i, perf, t, c')"
      "c' = ?c\<lparr>pc_idToPts := pc_idToPts ?c @ ds, pc_ptsToId := m, pc_idCounter := k\<rparr>"
      "length ds \<le> 1" "pc_inv \<alpha> I c'" "pc_has \<alpha> c' i (S \<union> T)" "op_ok \<alpha> (\<union>) (pc_idToPts c') t"
      "pc_has \<alpha> c' lhs S" "pc_has \<alpha> c' rhs T"
      by (rule start)
    have code: "pc_unionPts D lhs rhs c = (let c = c'\<lparr>pc_unionCache := t\<rparr> in
        if perf then
            (let c = c\<lparr>pc_uniqueUnions := pc_uniqueUnions c + 1\<rparr>;
                 c = (if lhs \<noteq> i
                      then c\<lparr>pc_unionCache := aput (minmax lhs i) i (pc_unionCache c),
                             pc_preemptiveUnions := pc_preemptiveUnions c + 1,
                             pc_totalUnions := pc_totalUnions c + 1\<rparr>
                      else c);
                 c = (if rhs \<noteq> i
                      then c\<lparr>pc_unionCache := aput (minmax rhs i) i (pc_unionCache c),
                             pc_preemptiveUnions := pc_preemptiveUnions c + 1,
                             pc_totalUnions := pc_totalUnions c + 1\<rparr>
                      else c)
             in Some (i, c))
        else Some (i, c\<lparr>pc_lookupUnions := pc_lookupUnions c + 1\<rparr>))"
      using op o(1) by (simp add: pc_unionPts_def emptyPointsToId_def minmax_0 minmax_eq Let_def)
    define b where "b = c'\<lparr>pc_unionCache := t\<rparr>"
    define d where "d = b\<lparr>pc_uniqueUnions := pc_uniqueUnions b + 1\<rparr>"
    define l where "l = b\<lparr>pc_lookupUnions := pc_lookupUnions b + 1\<rparr>"
    have base: "pc_result \<alpha> I c (S \<union> T) (i, d)"
      "pc_result \<alpha> I c (S \<union> T) (i, l)"
      using o(2-6) by (auto simp: b_def d_def l_def pc_result_def pc_inv_def pc_ext_def pc_has_def pc_stats_ok_def)
    have d: "pc_has \<alpha> d = pc_has \<alpha> c'" by (rule pc_has_upd) (simp add: b_def d_def)
    have eqs: "S \<union> (S \<union> T) = S \<union> T" "T \<union> (S \<union> T) = S \<union> T" by auto
    define e where "e = (if lhs \<noteq> i then d\<lparr>pc_unionCache := aput (minmax lhs i) i (pc_unionCache d),
        pc_preemptiveUnions := pc_preemptiveUnions d + 1, pc_totalUnions := pc_totalUnions d + 1\<rparr> else d)"
    have e: "pc_result \<alpha> I c (S \<union> T) (i, e)"
      unfolding e_def using base(1) pre_union[OF base(1), of lhs S i "S \<union> T" i] o(5,7)
      by (auto simp: d eqs)
    have e': "pc_has \<alpha> e = pc_has \<alpha> c'" by (rule pc_has_upd) (simp add: b_def d_def e_def)
    define f where "f = (if rhs \<noteq> i then e\<lparr>pc_unionCache := aput (minmax rhs i) i (pc_unionCache e),
        pc_preemptiveUnions := pc_preemptiveUnions e + 1, pc_totalUnions := pc_totalUnions e + 1\<rparr> else e)"
    have f: "pc_result \<alpha> I c (S \<union> T) (i, f)"
      unfolding f_def using e pre_union[OF e, of rhs T i "S \<union> T" i] o(5,8) by (auto simp: e' eqs)
    have "pc_unionPts D lhs rhs c = Some (i, if perf then f else l)"
      unfolding code Let_def by (simp only: b_def[symmetric] d_def[symmetric] e_def[symmetric] f_def[symmetric] l_def[symmetric] split: if_split) simp
    then show ?thesis using base(2) f by simp
  qed
qed

end

context canonical_data_set
begin

theorem complementPts_ok:
  assumes inv: "pc_inv \<alpha> I c" and room: "length (pc_idToPts c) < 2 ^ 32"
    and lr: "pc_has \<alpha> c lhs S" "pc_has \<alpha> c rhs T"
  shows "wp (pc_complementPts D lhs rhs c) (pc_result \<alpha> I c (S - T))"
proof -
  let ?c = "c\<lparr>pc_totalComplements := pc_totalComplements c + 1\<rparr>"
  have inv1: "pc_inv \<alpha> I ?c" and room1: "length (pc_idToPts ?c) < 2 ^ 32"
    and lr1: "pc_has \<alpha> ?c lhs S" "pc_has \<alpha> ?c rhs T"
    using inv room lr by (simp_all add: pc_inv_def pc_has_def)
  have zero: "pc_has \<alpha> c 0 {}" using pc_has_empty[OF inv] by (simp add: emptyPointsToId_def)
  consider (trivial) "lhs = rhs \<or> rhs = 0 \<or> lhs = 0" | (op) "lhs \<noteq> 0" "rhs \<noteq> 0" "lhs \<noteq> rhs" by blast
  then show ?thesis
  proof cases
    case trivial
    have "lhs = rhs \<Longrightarrow> S = T" "rhs = 0 \<Longrightarrow> T = {}" "lhs = 0 \<Longrightarrow> S = {}"
      using pc_has_inject[OF inv lr] pc_has_0[OF inv] lr by auto
    then have "pc_has \<alpha> c (if lhs = rhs then 0 else if rhs = 0 then lhs else 0) (S - T)"
      using trivial zero lr by auto
    moreover have "pc_complementPts D lhs rhs c = Some (if lhs = rhs then 0 else if rhs = 0 then lhs else 0,
        c\<lparr>pc_totalComplements := pc_totalComplements c + 1, pc_propertyComplements := pc_propertyComplements c + 1\<rparr>)"
      using trivial by (auto simp: pc_complementPts_def emptyPointsToId_def Let_def)
    ultimately show ?thesis using property_result(2)[OF inv] by simp
  next
    case op
    have "op_ok \<alpha> (-) (pc_idToPts ?c) (pc_complementCache ?c)" using inv by (simp add: pc_inv_def)
    note start = opPts_start[OF inv1 room1 lr1 this, of "ds_minus D" False, OF minus]
    obtain i perf t ds m k c' where o: "pc_opPts D lhs rhs (ds_minus D) (pc_complementCache ?c) False ?c = Some (i, perf, t, c')"
      "c' = ?c\<lparr>pc_idToPts := pc_idToPts ?c @ ds, pc_ptsToId := m, pc_idCounter := k\<rparr>"
      "length ds \<le> 1" "pc_inv \<alpha> I c'" "pc_has \<alpha> c' i (S - T)" "op_ok \<alpha> (-) (pc_idToPts c') t"
      "pc_has \<alpha> c' lhs S" "pc_has \<alpha> c' rhs T"
      by (rule start) blast+
    have code: "pc_complementPts D lhs rhs c = (let c = c'\<lparr>pc_complementCache := t\<rparr> in
        if perf then
            (let c = c\<lparr>pc_uniqueComplements := pc_uniqueComplements c + 1\<rparr>
             in if i \<noteq> emptyPointsToId then
                  (let c = c\<lparr>pc_intersectionCache := aput (minmax i rhs) emptyPointsToId (pc_intersectionCache c),
                             pc_preemptiveIntersections := pc_preemptiveIntersections c + 1,
                             pc_totalIntersections := pc_totalIntersections c + 1\<rparr>;
                       c = c\<lparr>pc_intersectionCache := aput (minmax i lhs) i (pc_intersectionCache c),
                             pc_preemptiveIntersections := pc_preemptiveIntersections c + 1,
                             pc_totalIntersections := pc_totalIntersections c + 1\<rparr>;
                       c = c\<lparr>pc_complementCache := aput (i, rhs) i (pc_complementCache c),
                             pc_preemptiveComplements := pc_preemptiveComplements c + 1,
                             pc_totalComplements := pc_totalComplements c + 1\<rparr>
                   in Some (i, c))
                else Some (i, c))
        else Some (i, c\<lparr>pc_lookupComplements := pc_lookupComplements c + 1\<rparr>))"
      using op o(1) by (simp add: pc_complementPts_def emptyPointsToId_def Let_def)
    define b where "b = c'\<lparr>pc_complementCache := t\<rparr>"
    define d where "d = b\<lparr>pc_uniqueComplements := pc_uniqueComplements b + 1\<rparr>"
    define l where "l = b\<lparr>pc_lookupComplements := pc_lookupComplements b + 1\<rparr>"
    have base: "pc_result \<alpha> I c (S - T) (i, d)"
      "pc_result \<alpha> I c (S - T) (i, l)"
      using o(2-6) by (auto simp: b_def d_def l_def pc_result_def pc_inv_def pc_ext_def pc_has_def pc_stats_ok_def)
    have d: "pc_has \<alpha> d = pc_has \<alpha> c'" by (rule pc_has_upd) (simp add: b_def d_def)
    have eqs: "(S - T) \<inter> T = {}" "(S - T) \<inter> S = S - T" "(S - T) - T = S - T" by auto
    define e where "e = d\<lparr>pc_intersectionCache := aput (minmax i rhs) emptyPointsToId (pc_intersectionCache d),
        pc_preemptiveIntersections := pc_preemptiveIntersections d + 1, pc_totalIntersections := pc_totalIntersections d + 1\<rparr>"
    have e: "pc_result \<alpha> I c (S - T) (i, e)"
      unfolding e_def using pc_has_empty[OF o(4)]
      by (intro pre_inter[OF base(1), of i "S - T" rhs T]) (simp_all add: d eqs o(5,8))
    have e': "pc_has \<alpha> e = pc_has \<alpha> c'" by (rule pc_has_upd) (simp add: b_def d_def e_def)
    define f where "f = e\<lparr>pc_intersectionCache := aput (minmax i lhs) i (pc_intersectionCache e),
        pc_preemptiveIntersections := pc_preemptiveIntersections e + 1, pc_totalIntersections := pc_totalIntersections e + 1\<rparr>"
    have f: "pc_result \<alpha> I c (S - T) (i, f)"
      unfolding f_def by (intro pre_inter[OF e, of i "S - T" lhs S]) (simp_all add: e' eqs o(5,7))
    have f': "pc_has \<alpha> f = pc_has \<alpha> c'" by (rule pc_has_upd) (simp add: b_def d_def e_def f_def)
    define g where "g = f\<lparr>pc_complementCache := aput (i, rhs) i (pc_complementCache f),
        pc_preemptiveComplements := pc_preemptiveComplements f + 1, pc_totalComplements := pc_totalComplements f + 1\<rparr>"
    have g: "pc_result \<alpha> I c (S - T) (i, g)"
      unfolding g_def by (intro pre_complement[OF f, of i "S - T" rhs T]) (simp_all add: f' eqs o(5,8))
    have "pc_complementPts D lhs rhs c = Some (i, if perf then if i \<noteq> emptyPointsToId then g else d
        else l)"
      unfolding code Let_def by (simp only: b_def[symmetric] d_def[symmetric] e_def[symmetric] f_def[symmetric] g_def[symmetric] l_def[symmetric] split: if_split) simp
    then show ?thesis using base g by (cases perf; cases "i = emptyPointsToId") simp_all
  qed
qed

theorem intersectPts_ok:
  assumes inv: "pc_inv \<alpha> I c" and room: "length (pc_idToPts c) < 2 ^ 32"
    and lr: "pc_has \<alpha> c lhs S" "pc_has \<alpha> c rhs T"
  shows "wp (pc_intersectPts D lhs rhs c) (pc_result \<alpha> I c (S \<inter> T))"
proof -
  let ?c = "c\<lparr>pc_totalIntersections := pc_totalIntersections c + 1\<rparr>"
  have inv1: "pc_inv \<alpha> I ?c" and room1: "length (pc_idToPts ?c) < 2 ^ 32"
    and lr1: "pc_has \<alpha> ?c lhs S" "pc_has \<alpha> ?c rhs T"
    using inv room lr by (simp_all add: pc_inv_def pc_has_def)
  have zero: "pc_has \<alpha> c 0 {}" using pc_has_empty[OF inv] by (simp add: emptyPointsToId_def)
  consider (trivial) "lhs = rhs \<or> rhs = 0 \<or> lhs = 0" | (op) "lhs \<noteq> 0" "rhs \<noteq> 0" "lhs \<noteq> rhs" by blast
  then show ?thesis
  proof cases
    case trivial
    have "lhs = rhs \<Longrightarrow> S = T" "rhs = 0 \<Longrightarrow> T = {}" "lhs = 0 \<Longrightarrow> S = {}"
      using pc_has_inject[OF inv lr] pc_has_0[OF inv] lr by auto
    then have "pc_has \<alpha> c (if lhs = 0 \<or> rhs = 0 then 0 else lhs) (S \<inter> T)"
      using trivial zero lr by auto
    moreover have "pc_intersectPts D lhs rhs c = Some (if lhs = 0 \<or> rhs = 0 then 0 else lhs,
        c\<lparr>pc_totalIntersections := pc_totalIntersections c + 1, pc_propertyIntersections := pc_propertyIntersections c + 1\<rparr>)"
      using trivial by (auto simp: pc_intersectPts_def minmax_def emptyPointsToId_def Let_def)
    ultimately show ?thesis using property_result(3)[OF inv] by simp
  next
    case op
    have "op_ok \<alpha> (\<inter>) (pc_idToPts ?c) (pc_intersectionCache ?c)" using inv by (simp add: pc_inv_def)
    note start = opPts_start[OF inv1 room1 lr1 this, of "ds_inter D" True, OF inter Int_commute]
    obtain i perf t ds m k c' where o: "pc_opPts D lhs rhs (ds_inter D) (pc_intersectionCache ?c) True ?c = Some (i, perf, t, c')"
      "c' = ?c\<lparr>pc_idToPts := pc_idToPts ?c @ ds, pc_ptsToId := m, pc_idCounter := k\<rparr>"
      "length ds \<le> 1" "pc_inv \<alpha> I c'" "pc_has \<alpha> c' i (S \<inter> T)" "op_ok \<alpha> (\<inter>) (pc_idToPts c') t"
      "pc_has \<alpha> c' lhs S" "pc_has \<alpha> c' rhs T"
      by (rule start)
    have code: "pc_intersectPts D lhs rhs c = (let c = c'\<lparr>pc_intersectionCache := t\<rparr> in
        if perf then
            (let c = c\<lparr>pc_uniqueIntersections := pc_uniqueIntersections c + 1\<rparr>
             in if i \<noteq> emptyPointsToId then
               (let c = (if i \<noteq> rhs
                      then c\<lparr>pc_intersectionCache := aput (minmax i rhs) i (pc_intersectionCache c),
                             pc_preemptiveIntersections := pc_preemptiveIntersections c + 1,
                             pc_totalIntersections := pc_totalIntersections c + 1\<rparr>
                      else c);
                    c = (if i \<noteq> lhs
                      then c\<lparr>pc_intersectionCache := aput (minmax i lhs) i (pc_intersectionCache c),
                             pc_preemptiveIntersections := pc_preemptiveIntersections c + 1,
                             pc_totalIntersections := pc_totalIntersections c + 1\<rparr>
                      else c);
                    c = (if i \<noteq> emptyPointsToId \<and> i \<noteq> lhs
                      then c\<lparr>pc_unionCache := aput (minmax lhs i) lhs (pc_unionCache c),
                             pc_preemptiveUnions := pc_preemptiveUnions c + 1,
                             pc_totalUnions := pc_totalUnions c + 1\<rparr>
                      else c);
                    c = (if i \<noteq> emptyPointsToId \<and> i \<noteq> rhs
                      then c\<lparr>pc_unionCache := aput (minmax rhs i) rhs (pc_unionCache c),
                             pc_preemptiveUnions := pc_preemptiveUnions c + 1,
                             pc_totalUnions := pc_totalUnions c + 1\<rparr>
                      else c)
                in Some (i, c))
             else Some (i, c))
        else Some (i, c\<lparr>pc_lookupIntersections := pc_lookupIntersections c + 1\<rparr>))"
      using op o(1) by (simp add: pc_intersectPts_def emptyPointsToId_def minmax_0 minmax_eq Let_def)
    define b where "b = c'\<lparr>pc_intersectionCache := t\<rparr>"
    define d where "d = b\<lparr>pc_uniqueIntersections := pc_uniqueIntersections b + 1\<rparr>"
    define l where "l = b\<lparr>pc_lookupIntersections := pc_lookupIntersections b + 1\<rparr>"
    have base: "pc_result \<alpha> I c (S \<inter> T) (i, d)"
      "pc_result \<alpha> I c (S \<inter> T) (i, l)"
      using o(2-6) by (auto simp: b_def d_def l_def pc_result_def pc_inv_def pc_ext_def pc_has_def pc_stats_ok_def)
    have d: "pc_has \<alpha> d = pc_has \<alpha> c'" by (rule pc_has_upd) (simp add: b_def d_def)
    have eqs: "(S \<inter> T) \<inter> T = S \<inter> T" "(S \<inter> T) \<inter> S = S \<inter> T" "S \<union> (S \<inter> T) = S" "T \<union> (S \<inter> T) = T" by auto
    define e where "e = (if i \<noteq> rhs then d\<lparr>pc_intersectionCache := aput (minmax i rhs) i (pc_intersectionCache d),
        pc_preemptiveIntersections := pc_preemptiveIntersections d + 1, pc_totalIntersections := pc_totalIntersections d + 1\<rparr> else d)"
    have e: "pc_result \<alpha> I c (S \<inter> T) (i, e)"
      unfolding e_def using base(1) pre_inter[OF base(1), of i "S \<inter> T" rhs T i] o(5,8)
      by (auto simp only: d eqs split: if_split)
    have e': "pc_has \<alpha> e = pc_has \<alpha> c'" by (rule pc_has_upd) (simp add: b_def d_def e_def)
    define f where "f = (if i \<noteq> lhs then e\<lparr>pc_intersectionCache := aput (minmax i lhs) i (pc_intersectionCache e),
        pc_preemptiveIntersections := pc_preemptiveIntersections e + 1, pc_totalIntersections := pc_totalIntersections e + 1\<rparr> else e)"
    have f: "pc_result \<alpha> I c (S \<inter> T) (i, f)"
      unfolding f_def using e pre_inter[OF e, of i "S \<inter> T" lhs S i] o(5,7)
      by (auto simp only: e' eqs split: if_split)
    have f': "pc_has \<alpha> f = pc_has \<alpha> c'" by (rule pc_has_upd) (simp add: b_def d_def e_def f_def)
    define g where "g = (if i \<noteq> emptyPointsToId \<and> i \<noteq> lhs then f\<lparr>pc_unionCache := aput (minmax lhs i) lhs (pc_unionCache f),
        pc_preemptiveUnions := pc_preemptiveUnions f + 1, pc_totalUnions := pc_totalUnions f + 1\<rparr> else f)"
    have g: "pc_result \<alpha> I c (S \<inter> T) (i, g)"
      unfolding g_def using f pre_union[OF f, of lhs S i "S \<inter> T" lhs] o(5,7)
      by (auto simp only: f' eqs split: if_split)
    have g': "pc_has \<alpha> g = pc_has \<alpha> c'" by (rule pc_has_upd) (simp add: b_def d_def e_def f_def g_def)
    define h where "h = (if i \<noteq> emptyPointsToId \<and> i \<noteq> rhs then g\<lparr>pc_unionCache := aput (minmax rhs i) rhs (pc_unionCache g),
        pc_preemptiveUnions := pc_preemptiveUnions g + 1, pc_totalUnions := pc_totalUnions g + 1\<rparr> else g)"
    have h: "pc_result \<alpha> I c (S \<inter> T) (i, h)"
      unfolding h_def using g pre_union[OF g, of rhs T i "S \<inter> T" rhs] o(5,8)
      by (auto simp only: g' eqs split: if_split)
    have "pc_intersectPts D lhs rhs c = Some (i, if perf then if i \<noteq> emptyPointsToId then h else d
        else l)"
      unfolding code Let_def by (simp only: b_def[symmetric] d_def[symmetric] e_def[symmetric] f_def[symmetric] g_def[symmetric] h_def[symmetric] l_def[symmetric] split: if_split) simp
    then show ?thesis using base h by (cases perf; cases "i = emptyPointsToId") simp_all
  qed
qed

end

subsection \<open>Construction, reset, remapping\<close>

context canonical_data_set
begin

theorem new_ok: "wp (pc_new D) (\<lambda>c. pc_inv \<alpha> I c \<and> pc_stats_ok c \<and> length (pc_idToPts c) = 1)"
  by (auto simp: pc_new_def pc_inv_def pc_core_def pc_initStats_def pc_stats_ok_def emptyPointsToId_def
      new copy)

text \<open>After \<^verbatim>\<open>reset\<close> the cache is as newly constructed.\<close>

theorem reset_eq_new: "pc_reset D c = pc_new D"
  by (cases c) (simp add: pc_reset_def pc_new_def pc_clear_def pc_initStats_def)

text \<open>
  \<^verbatim>\<open>clear\<close> alone leaves the counter and drops the empty set: the next new set gets a number
  that does not index it.
\<close>

theorem clear_then_emplace:
  assumes "pc_inv \<alpha> I c" "I d" "length (pc_idToPts c) < 2 ^ 32"
  shows "wp (pc_emplacePts D d (pc_clear c)) (\<lambda>(i, c'). pc_getActualPts i c' = None)"
proof -
  have "pc_idCounter c = length (pc_idToPts c)" "pc_idToPts c \<noteq> []"
    using assms by (auto simp: pc_inv_def pc_core_def)
  then show ?thesis
    by (cases "pc_idToPts c")
      (simp_all add: pc_emplacePts_def pc_clear_def pc_newPointsToId_def pc_getActualPts_def emptyPointsToId_def)
qed

lemma rebuild_ok:
  assumes "list_all I ds" "distinct (map \<alpha> ds)"
  shows "wp (foldM (\<lambda>i m. dput D (ds ! i) i m) [0..<length ds] [])
    (\<lambda>m. dmap_inv I m \<and> (\<forall>S i. dmap \<alpha> m S = Some i \<longleftrightarrow> i < length ds \<and> \<alpha> (ds ! i) = S))"
proof -
  let ?P = "\<lambda>ys m. dmap_inv I m \<and> (\<forall>S i. dmap \<alpha> m S = Some i \<longleftrightarrow> i \<in> List.set ys \<and> \<alpha> (ds ! i) = S)"
  have "wp (foldM (\<lambda>i m. dput D (ds ! i) i m) [0..<length ds] []) (?P [0..<length ds])"
  proof (rule foldM_wp[where P = ?P])
    fix ys x zs m assume split: "[0..<length ds] = ys @ x # zs" and P: "?P ys m"
    have "List.set (ys @ x # zs) = {0..<length ds}" "distinct (ys @ x # zs)" using split[symmetric] by simp_all
    then have x: "x < length ds" "x \<notin> List.set ys" "\<forall>y \<in> List.set ys. y < length ds" by auto
    have ne: "\<alpha> (ds ! y) \<noteq> \<alpha> (ds ! x)" if "y \<in> List.set ys" for y
      using assms(2) x that by (metis (no_types, lifting) distinct_conv_nth length_map nth_map)
    have step: "?P (ys @ [x]) m'"
      if m': "dmap_inv I m' \<and> dmap \<alpha> m' = (dmap \<alpha> m)(\<alpha> (ds ! x) \<mapsto> x)" for m'
    proof (intro conjI allI)
      fix S i
      show "dmap \<alpha> m' S = Some i \<longleftrightarrow> i \<in> List.set (ys @ [x]) \<and> \<alpha> (ds ! i) = S"
      proof (cases "S = \<alpha> (ds ! x)")
        case True
        then show ?thesis using m' ne[of i] by auto
      next
        case False
        then have "dmap \<alpha> m' S = dmap \<alpha> m S" using m' by simp
        then show ?thesis using P False by auto
      qed
    qed (use m' in simp)
    have I: "I (ds ! x)" using assms(1) x by (simp add: list_all_length)
    have "dmap_inv I m" using P by blast
    from dput_ok[OF this I, of x] show "wp (dput D (ds ! x) x m) (?P (ys @ [x]))"
      by (rule wp_mono) (rule step)
  qed simp
  then show ?thesis by simp
qed

text \<open>
  Remapping under a new mapping: the sets are rebuilt, each keeps its number, and the memoised
  results stay right. \<open>I0\<close> is the invariant of the sets under the old mapping.
\<close>

theorem remapAllPts_ok:
  assumes "pc_inv \<alpha> I0 c"
    and remap_old: "\<And>d. d \<in> List.set (pc_idToPts c) \<Longrightarrow> I0 d \<Longrightarrow> wp (ds_remap D d) (\<lambda>d'. I d' \<and> \<alpha> d' = \<alpha> d)"
  shows "wp (pc_remapAllPts D c) (\<lambda>c'. pc_inv \<alpha> I c' \<and> (\<forall>i S. pc_has \<alpha> c' i S \<longleftrightarrow> pc_has \<alpha> c i S))"
proof -
  have core: "pc_core \<alpha> I0 (pc_idToPts c) (pc_ptsToId c) (pc_idCounter c)"
    using assms(1) by (simp add: pc_inv_def)
  have "wp (mapM (ds_remap D) (pc_idToPts c)) (list_all2 (\<lambda>d d'. I d' \<and> \<alpha> d' = \<alpha> d) (pc_idToPts c))"
    by (rule wp_mapM) (use core in \<open>auto simp: pc_core_def list_all_iff intro!: remap_old\<close>)
  then obtain ds where ds: "mapM (ds_remap D) (pc_idToPts c) = Some ds"
    "list_all2 (\<lambda>d d'. I d' \<and> \<alpha> d' = \<alpha> d) (pc_idToPts c) ds" by (auto simp: wp_iff)
  then have len: "length ds = length (pc_idToPts c)" and
    nth: "\<And>i. i < length ds \<Longrightarrow> I (ds ! i) \<and> \<alpha> (ds ! i) = \<alpha> (pc_idToPts c ! i)"
    by (auto simp: list_all2_conv_all_nth)
  have map: "map \<alpha> ds = map \<alpha> (pc_idToPts c)" using len nth by (simp add: list_eq_iff_nth_eq)
  have inv: "list_all I ds" using nth by (simp add: list_all_length)
  have dist: "distinct (map \<alpha> ds)" using core map by (simp add: pc_core_def)
  obtain m where m: "foldM (\<lambda>i m. dput D (ds ! i) i m) [0..<length ds] [] = Some m" "dmap_inv I m"
    "\<forall>S i. dmap \<alpha> m S = Some i \<longleftrightarrow> i < length ds \<and> \<alpha> (ds ! i) = S"
    using rebuild_ok[OF inv dist] by (auto simp: wp_iff)
  have op: "op_ok \<alpha> F ds t" if "op_ok \<alpha> F (pc_idToPts c) t" for F t
    using that len nth by (simp add: op_ok_def)
  have "pc_core \<alpha> I ds m (pc_idCounter c)"
    using core inv dist m(2,3) len nth by (auto simp: pc_core_def)
  then have "pc_inv \<alpha> I (c\<lparr>pc_idToPts := ds, pc_ptsToId := m\<rparr>)"
    using assms(1) op by (simp add: pc_inv_def)
  moreover have "pc_remapAllPts D c = Some (c\<lparr>pc_idToPts := ds, pc_ptsToId := m\<rparr>)"
    using ds(1) m(1) by (simp add: pc_remapAllPts_def)
  moreover have "pc_has \<alpha> (c\<lparr>pc_idToPts := ds, pc_ptsToId := m\<rparr>) i S \<longleftrightarrow> pc_has \<alpha> c i S" for i S
    using len nth by (auto simp: pc_has_def)
  ultimately show ?thesis by simp
qed

end

text \<open>The same for points-to sets, when the analysis installs a better mapping: the sets of the cache may have any
  mapping, and those that have the best one already are as the environment builds them.\<close>

definition remappable :: "pt_env \<Rightarrow> points_to \<Rightarrow> bool" where
  "remappable E p \<longleftrightarrow> pt_inv E p \<and> (pt_nodeMapping p = pe_currentBestNodeMapping E \<longrightarrow> run_inv E p)"

lemma remappable_remap:
  assumes env: "env_ok E" and p: "remappable E p" and nodes: "\<And>n. n \<in> pts_of E p \<Longrightarrow> run_ok E n"
  shows "wp (pt_checkAndRemap E p) (\<lambda>q. run_inv E q \<and> pts_of E q = pts_of E p)"
proof (cases "pt_nodeMapping p = pe_currentBestNodeMapping E")
  case True
  then show ?thesis using p by (simp add: pt_checkAndRemap_def remappable_def)
next
  case False
  have inv: "pt_inv E p" using p by (simp add: remappable_def)
  obtain ns where ns: "pt_elems E p = Some ns" "set ns = pts_of E p" using pt_elems_ok[OF inv] by blast
  have "wp (foldM (\<lambda>n q. pt_set E q n) ns (pt_new E))
      (\<lambda>q. pt_inv E q \<and> pts_of E q = pts_of E (pt_new E) \<union> set ns \<and> pt_like (pt_new E) q)"
    using nodes ns(2) run_inv_new[OF env]
    by (intro foldM_pt_set) (simp_all add: run_inv_def run_ok_def pt_new_def)
  then obtain q where "foldM (\<lambda>n q. pt_set E q n) ns (pt_new E) = Some q" "pt_inv E q"
    "pts_of E q = pts_of E (pt_new E) \<union> set ns" "pt_like (pt_new E) q" by (auto simp: wp_iff)
  then show ?thesis
    using False ns pt_new_ok(2)[of E] env by (simp add: pt_checkAndRemap_def run_inv_def env_ok_def)
qed

theorem remapAllPts_PointsTo:
  assumes env: "env_ok E" "pe_PtType E = SBV"
    and old: "pc_inv (pts_of E) (remappable E) c"
    and nodes: "\<And>p n. p \<in> set (pc_idToPts c) \<Longrightarrow> n \<in> pts_of E p \<Longrightarrow> run_ok E n"
  shows "wp (pc_remapAllPts (pts_ops E) c)
    (\<lambda>c'. pc_inv (pts_of E) (run_inv E) c' \<and> (\<forall>i S. pc_has (pts_of E) c' i S \<longleftrightarrow> pc_has (pts_of E) c i S))"
proof (rule canonical_data_set.remapAllPts_ok[OF pts_ops_canonical[OF env] old])
  fix p assume "p \<in> set (pc_idToPts c)" "remappable E p"
  then show "wp (ds_remap (pts_ops E) p) (\<lambda>q. run_inv E q \<and> pts_of E q = pts_of E p)"
    using remappable_remap[OF env(1), of p] nodes by (simp add: pts_ops_def)
qed

lemma pc_inv_mapped: "pc_inv \<alpha> (run_inv E) c \<Longrightarrow> list_all (\<lambda>p. pt_nodeMapping p = pe_currentBestNodeMapping E) (pc_idToPts c)"
  unfolding pc_inv_def pc_core_def using run_mapping[of E] by (auto simp: list_all_iff)

subsection \<open>A cache with two sets\<close>

lemma two_sets_cache:
  assumes "x < 2 ^ 32" "y < 2 ^ 32"
  shows "\<exists>c i j. pc_inv (pts_of (initial_env SBV h)) (run_inv (initial_env SBV h)) c \<and> pc_stats_ok c \<and>
    length (pc_idToPts c) \<le> 3 \<and> pc_has (pts_of (initial_env SBV h)) c i {x} \<and>
    pc_has (pts_of (initial_env SBV h)) c j {x, y}"
proof -
  let ?E = "initial_env SBV h"
  have ok: "run_ok ?E x" "run_ok ?E y" using assms by (simp_all add: run_ok_def node_ok_def initial_env_def)
  obtain c where c: "pc_inv (pts_of ?E) (run_inv ?E) c" "pc_stats_ok c" "length (pc_idToPts c) = 1"
    using pts.new_ok[of h] by (auto simp: wp_iff)
  obtain d where d: "run_inv ?E d" "pts_of ?E d = {x}"
    using ptd.set[OF ptd.new(1) ok(1)] ptd.new(2) by (auto simp: wp_iff)
  obtain e where e: "run_inv ?E e" "pts_of ?E e = {x, y}"
    using ptd.set[OF d(1) ok(2)] d(2) by (auto simp: wp_iff insert_commute)
  obtain i c1 where c1: "pc_result (pts_of ?E) (run_inv ?E) c {x} (i, c1)"
    using pts.emplacePts_ok[OF c(1) d(1)] c(3) d(2) by (auto simp: wp_iff)
  then have i1: "pc_inv (pts_of ?E) (run_inv ?E) c1" "pc_stats_ok c1" "length (pc_idToPts c1) \<le> 2"
    "pc_has (pts_of ?E) c1 i {x}" using c by (auto simp: pc_result_def)
  obtain j c2 where c2: "pc_result (pts_of ?E) (run_inv ?E) c1 {x, y} (j, c2)"
    using pts.emplacePts_ok[OF i1(1) e(1)] i1(3) e(2) by (auto simp: wp_iff)
  then have "pc_inv (pts_of ?E) (run_inv ?E) c2" "pc_stats_ok c2" "length (pc_idToPts c2) \<le> 3"
    "pc_has (pts_of ?E) c2 i {x}" "pc_has (pts_of ?E) c2 j {x, y}"
    using i1 by (auto simp: pc_result_def dest: pc_has_ext)
  then show ?thesis by blast
qed

end
