(* ===== verification/PT_Data.thy ===== *)
theory PT_Data
  imports Data_Set
begin

text \<open>
  The abstract points-to tables of \<^verbatim>\<open>svf/include/MemoryModel/AbstractPointsToDS.h\<close>. A class
  that derives from \<^verbatim>\<open>PTData\<close> is a record of its virtual methods, \<open>ptd_ops\<close>, over its own
  state. Locale \<open>pt_data\<close> is the contract of the class comment: a finite map from keys to sets
  of data, exact change flags, and reverse sets which are the inverse of the map. The contract
  is then followed through a whole run of operations, whatever the implementation;
  \<open>diff_pt_data\<close> adds the contract of \<^verbatim>\<open>DiffPTData\<close>.
\<close>

subsection \<open>\<^verbatim>\<open>Set<Key>\<close>\<close>

text \<open>\<^verbatim>\<open>SVFUtil::insertKey\<close> and \<^verbatim>\<open>SVFUtil::removeKey\<close>, on a list without duplicates.\<close>

definition insertKey :: "'k \<Rightarrow> 'k list \<Rightarrow> 'k list" where
  "insertKey key keySet = (if key \<in> set keySet then keySet else keySet @ [key])"

definition removeKey :: "'k \<Rightarrow> 'k list \<Rightarrow> 'k list" where
  "removeKey key keySet = filter (\<lambda>k. k \<noteq> key) keySet"

lemma insertKey_simps [simp]:
  "set (insertKey k ks) = insert k (set ks)" "distinct (insertKey k ks) \<longleftrightarrow> distinct ks"
  by (auto simp: insertKey_def)

lemma removeKey_simps [simp]:
  "set (removeKey k ks) = set ks - {k}" "distinct ks \<Longrightarrow> distinct (removeKey k ks)"
  by (auto simp: removeKey_def)

subsection \<open>The virtual methods\<close>

record ('k, 'e, 'd, 's) ptd_ops =
  ptd_rev :: "'s \<Rightarrow> bool"
  ptd_clear :: "'s \<Rightarrow> 's option"
  ptd_getPts :: "'k \<Rightarrow> 's \<Rightarrow> ('d \<times> 's) option"
  ptd_getRevPts :: "'e \<Rightarrow> 's \<Rightarrow> ('k list \<times> 's) option"
  ptd_addPts :: "'k \<Rightarrow> 'e \<Rightarrow> 's \<Rightarrow> (bool \<times> 's) option"
  ptd_unionPts :: "'k \<Rightarrow> 'k \<Rightarrow> 's \<Rightarrow> (bool \<times> 's) option"
  ptd_unionData :: "'k \<Rightarrow> 'd \<Rightarrow> 's \<Rightarrow> (bool \<times> 's) option"
  ptd_clearPts :: "'k \<Rightarrow> 'e \<Rightarrow> 's \<Rightarrow> 's option"
  ptd_clearFullPts :: "'k \<Rightarrow> 's \<Rightarrow> 's option"
  ptd_remapAllPts :: "'s \<Rightarrow> 's option"

record ('k, 'e, 'd, 's) diff_ops = "('k, 'e, 'd, 's) ptd_ops" +
  ptd_getDiffPts :: "'k \<Rightarrow> 's \<Rightarrow> ('d \<times> 's) option"
  ptd_computeDiffPts :: "'k \<Rightarrow> 'd \<Rightarrow> 's \<Rightarrow> (bool \<times> 's) option"
  ptd_updatePropaPtsMap :: "'k \<Rightarrow> 'k \<Rightarrow> 's \<Rightarrow> 's option"
  ptd_clearPropaPts :: "'k \<Rightarrow> 's \<Rightarrow> 's option"

subsection \<open>The contract\<close>

text \<open>
  A step to a state with the table \<open>f\<close>. \<open>room s n\<close> says that \<open>n\<close> more sets can be stored, which
  only matters where sets are numbered; an operation stores at most two.
\<close>

definition pt_step :: "('s \<Rightarrow> bool) \<Rightarrow> ('s \<Rightarrow> 'k \<Rightarrow> 'e set) \<Rightarrow> ('s \<Rightarrow> nat \<Rightarrow> bool) \<Rightarrow> ('s \<Rightarrow> bool) \<Rightarrow>
    's \<Rightarrow> ('k \<Rightarrow> 'e set) \<Rightarrow> 's \<Rightarrow> bool" where
  "pt_step J pts room rv s f s' \<longleftrightarrow>
     J s' \<and> pts s' = f \<and> rv s' = rv s \<and> (\<forall>n. room s (n + 2) \<longrightarrow> room s' n)"

locale pt_data =
  fixes P :: "('k, 'e, 'd, 's, 'm) ptd_ops_scheme"
    and \<alpha> :: "'d \<Rightarrow> 'e set"
    and I :: "'d \<Rightarrow> bool"
    and ok :: "'e \<Rightarrow> bool"
    and J :: "'s \<Rightarrow> bool"
    and pts :: "'s \<Rightarrow> 'k \<Rightarrow> 'e set"
    and room :: "'s \<Rightarrow> nat \<Rightarrow> bool"
  assumes room: "room s m \<Longrightarrow> n \<le> m \<Longrightarrow> room s n"
    and clear: "J s \<Longrightarrow> wp (ptd_clear P s) (pt_step J pts room (ptd_rev P) s (\<lambda>_. {}))"
    and getPts: "J s \<Longrightarrow> wp (ptd_getPts P k s)
      (\<lambda>(d, s'). I d \<and> \<alpha> d = pts s k \<and> pt_step J pts room (ptd_rev P) s (pts s) s')"
    and getRevPts: "J s \<Longrightarrow> ptd_rev P s \<Longrightarrow> wp (ptd_getRevPts P e s)
      (\<lambda>(ks, s'). distinct ks \<and> set ks = {k. e \<in> pts s k} \<and> pt_step J pts room (ptd_rev P) s (pts s) s')"
    and addPts: "J s \<Longrightarrow> ok e \<Longrightarrow> room s 2 \<Longrightarrow> wp (ptd_addPts P k e s)
      (\<lambda>(b, s'). (b \<longleftrightarrow> e \<notin> pts s k) \<and>
        pt_step J pts room (ptd_rev P) s ((pts s)(k := insert e (pts s k))) s')"
    and unionPts: "J s \<Longrightarrow> room s 2 \<Longrightarrow> wp (ptd_unionPts P k k' s)
      (\<lambda>(b, s'). (b \<longleftrightarrow> \<not> pts s k' \<subseteq> pts s k) \<and>
        pt_step J pts room (ptd_rev P) s ((pts s)(k := pts s k \<union> pts s k')) s')"
    and unionData: "J s \<Longrightarrow> I d \<Longrightarrow> room s 2 \<Longrightarrow> wp (ptd_unionData P k d s)
      (\<lambda>(b, s'). (b \<longleftrightarrow> \<not> \<alpha> d \<subseteq> pts s k) \<and>
        pt_step J pts room (ptd_rev P) s ((pts s)(k := pts s k \<union> \<alpha> d)) s')"
    and clearPts: "J s \<Longrightarrow> ok e \<Longrightarrow> room s 2 \<Longrightarrow> wp (ptd_clearPts P k e s)
      (pt_step J pts room (ptd_rev P) s ((pts s)(k := pts s k - {e})))"
    and clearFullPts: "J s \<Longrightarrow> wp (ptd_clearFullPts P k s)
      (pt_step J pts room (ptd_rev P) s ((pts s)(k := {})))"
    and remapAllPts: "J s \<Longrightarrow> wp (ptd_remapAllPts P s) (pt_step J pts room (ptd_rev P) s (pts s))"

subsection \<open>Runs\<close>

text \<open>A run of the client, the answer of one operation, and the same over plain sets.\<close>

datatype ('k, 'e, 'd) ptd_op =
  GetPts 'k | GetRevPts 'e | AddPts 'k 'e | UnionPts 'k 'k | UnionData 'k 'd | ClearPts 'k 'e
| ClearFullPts 'k | Clear | RemapAllPts

datatype ('k, 'e) ptd_answer = Done | Changed bool | Pts "'e set" | RevPts "'k set"

fun ptd_run1 :: "('k, 'e, 'd, 's, 'm) ptd_ops_scheme \<Rightarrow> ('d \<Rightarrow> 'e set) \<Rightarrow> ('k, 'e, 'd) ptd_op \<Rightarrow> 's \<Rightarrow>
    (('k, 'e) ptd_answer \<times> 's) option" where
  "ptd_run1 P \<alpha> (GetPts k) s = map_option (\<lambda>(d, s). (Pts (\<alpha> d), s)) (ptd_getPts P k s)"
| "ptd_run1 P \<alpha> (GetRevPts e) s = map_option (\<lambda>(ks, s). (RevPts (set ks), s)) (ptd_getRevPts P e s)"
| "ptd_run1 P \<alpha> (AddPts k e) s = map_option (\<lambda>(b, s). (Changed b, s)) (ptd_addPts P k e s)"
| "ptd_run1 P \<alpha> (UnionPts k k') s = map_option (\<lambda>(b, s). (Changed b, s)) (ptd_unionPts P k k' s)"
| "ptd_run1 P \<alpha> (UnionData k d) s = map_option (\<lambda>(b, s). (Changed b, s)) (ptd_unionData P k d s)"
| "ptd_run1 P \<alpha> (ClearPts k e) s = map_option (Pair Done) (ptd_clearPts P k e s)"
| "ptd_run1 P \<alpha> (ClearFullPts k) s = map_option (Pair Done) (ptd_clearFullPts P k s)"
| "ptd_run1 P \<alpha> Clear s = map_option (Pair Done) (ptd_clear P s)"
| "ptd_run1 P \<alpha> RemapAllPts s = map_option (Pair Done) (ptd_remapAllPts P s)"

fun ptd_run :: "('k, 'e, 'd, 's, 'm) ptd_ops_scheme \<Rightarrow> ('d \<Rightarrow> 'e set) \<Rightarrow> ('k, 'e, 'd) ptd_op list \<Rightarrow> 's \<Rightarrow>
    (('k, 'e) ptd_answer list \<times> 's) option" where
  "ptd_run P \<alpha> [] s = Some ([], s)"
| "ptd_run P \<alpha> (x # xs) s =
     do { (a, s) \<leftarrow> ptd_run1 P \<alpha> x s; (rs, s) \<leftarrow> ptd_run P \<alpha> xs s; Some (a # rs, s) }"

fun spec_run1 :: "('d \<Rightarrow> 'e set) \<Rightarrow> ('k, 'e, 'd) ptd_op \<Rightarrow> ('k \<Rightarrow> 'e set) \<Rightarrow> ('k, 'e) ptd_answer \<times> ('k \<Rightarrow> 'e set)" where
  "spec_run1 \<alpha> (GetPts k) f = (Pts (f k), f)"
| "spec_run1 \<alpha> (GetRevPts e) f = (RevPts {k. e \<in> f k}, f)"
| "spec_run1 \<alpha> (AddPts k e) f = (Changed (e \<notin> f k), f(k := insert e (f k)))"
| "spec_run1 \<alpha> (UnionPts k k') f = (Changed (\<not> f k' \<subseteq> f k), f(k := f k \<union> f k'))"
| "spec_run1 \<alpha> (UnionData k d) f = (Changed (\<not> \<alpha> d \<subseteq> f k), f(k := f k \<union> \<alpha> d))"
| "spec_run1 \<alpha> (ClearPts k e) f = (Done, f(k := f k - {e}))"
| "spec_run1 \<alpha> (ClearFullPts k) f = (Done, f(k := {}))"
| "spec_run1 \<alpha> Clear f = (Done, \<lambda>_. {})"
| "spec_run1 \<alpha> RemapAllPts f = (Done, f)"

fun spec_run :: "('d \<Rightarrow> 'e set) \<Rightarrow> ('k, 'e, 'd) ptd_op list \<Rightarrow> ('k \<Rightarrow> 'e set) \<Rightarrow> ('k, 'e) ptd_answer list \<times> ('k \<Rightarrow> 'e set)" where
  "spec_run \<alpha> [] f = ([], f)"
| "spec_run \<alpha> (x # xs) f =
     (let (a, f) = spec_run1 \<alpha> x f; (rs, f) = spec_run \<alpha> xs f in (a # rs, f))"

text \<open>What the caller must respect: elements and sets of the run, reverse sets only if kept.\<close>

fun ptd_op_ok :: "('e \<Rightarrow> bool) \<Rightarrow> ('d \<Rightarrow> bool) \<Rightarrow> bool \<Rightarrow> ('k, 'e, 'd) ptd_op \<Rightarrow> bool" where
  "ptd_op_ok ok I rv (GetRevPts e) = rv"
| "ptd_op_ok ok I rv (AddPts k e) = ok e"
| "ptd_op_ok ok I rv (ClearPts k e) = ok e"
| "ptd_op_ok ok I rv (UnionData k d) = I d"
| "ptd_op_ok ok I rv _ = True"

context pt_data
begin

lemma run1_ok:
  assumes "J s" "room s 2" "ptd_op_ok ok I (ptd_rev P s) x"
  shows "wp (ptd_run1 P \<alpha> x s) (\<lambda>(a, s'). a = fst (spec_run1 \<alpha> x (pts s)) \<and>
    pt_step J pts room (ptd_rev P) s (snd (spec_run1 \<alpha> x (pts s))) s')"
proof (cases x)
  case (GetPts k)
  then show ?thesis using getPts[OF assms(1), of k] by (auto simp: wp_iff)
next
  case (GetRevPts e)
  then show ?thesis using getRevPts[OF assms(1), of e] assms(3) by (auto simp: wp_iff)
next
  case (AddPts k e)
  then show ?thesis using addPts[OF assms(1) _ assms(2), of e k] assms(3) by (auto simp: wp_iff)
next
  case (UnionPts k k')
  then show ?thesis using unionPts[OF assms(1,2), of k k'] by (auto simp: wp_iff)
next
  case (UnionData k d)
  then show ?thesis using unionData[OF assms(1) _ assms(2), of d k] assms(3) by (auto simp: wp_iff)
next
  case (ClearPts k e)
  then show ?thesis using clearPts[OF assms(1) _ assms(2), of e k] assms(3) by (auto simp: wp_iff)
next
  case (ClearFullPts k)
  then show ?thesis using clearFullPts[OF assms(1), of k] by (auto simp: wp_iff)
next
  case Clear
  then show ?thesis using clear[OF assms(1)] by (auto simp: wp_iff)
next
  case RemapAllPts
  then show ?thesis using remapAllPts[OF assms(1)] by (auto simp: wp_iff)
qed

text \<open>Every run answers as the plain sets do.\<close>

lemma run_ok:
  "J s \<Longrightarrow> room s (2 * length xs) \<Longrightarrow> list_all (ptd_op_ok ok I (ptd_rev P s)) xs \<Longrightarrow>
   wp (ptd_run P \<alpha> xs s) (\<lambda>(rs, s'). (rs, pts s') = spec_run \<alpha> xs (pts s) \<and> J s' \<and>
     ptd_rev P s' = ptd_rev P s)"
proof (induction xs arbitrary: s)
  case (Cons x xs)
  have r2: "room s 2" by (rule room[OF Cons.prems(2)]) simp
  obtain s1 where s1: "ptd_run1 P \<alpha> x s = Some (fst (spec_run1 \<alpha> x (pts s)), s1)"
    "J s1" "pts s1 = snd (spec_run1 \<alpha> x (pts s))" "ptd_rev P s1 = ptd_rev P s"
    "room s1 (2 * length xs)"
    using run1_ok[OF Cons.prems(1) r2, of x] Cons.prems by (auto simp: wp_iff pt_step_def add.commute)
  have "list_all (ptd_op_ok ok I (ptd_rev P s1)) xs" using Cons.prems(3) s1(4) by simp
  from Cons.IH[OF s1(2,5) this] obtain rs s2 where s2: "ptd_run P \<alpha> xs s1 = Some (rs, s2)"
    "(rs, pts s2) = spec_run \<alpha> xs (pts s1)" "J s2" "ptd_rev P s2 = ptd_rev P s1"
    by (auto simp: wp_iff)
  show ?case using s1 s2(1,3,4) s2(2)[symmetric] by (simp add: split_beta Let_def)
qed simp

end

subsection \<open>Difference propagation\<close>

definition diff_step :: "('s \<Rightarrow> bool) \<Rightarrow> ('s \<Rightarrow> 'k \<Rightarrow> 'e set) \<Rightarrow> ('s \<Rightarrow> 'k \<Rightarrow> 'e set) \<Rightarrow> ('s \<Rightarrow> 'k \<Rightarrow> 'e set) \<Rightarrow>
    ('s \<Rightarrow> nat \<Rightarrow> bool) \<Rightarrow> ('s \<Rightarrow> bool) \<Rightarrow> 's \<Rightarrow> ('k \<Rightarrow> 'e set) \<Rightarrow> ('k \<Rightarrow> 'e set) \<Rightarrow> 's \<Rightarrow> bool" where
  "diff_step J pts diff propa room rv s g h s' \<longleftrightarrow>
     pt_step J pts room rv s (pts s) s' \<and> diff s' = g \<and> propa s' = h"

locale diff_pt_data = pt_data P \<alpha> I ok J pts room
  for P :: "('k, 'e, 'd, 's, 'm) diff_ops_scheme" and \<alpha> :: "'d \<Rightarrow> 'e set" and I :: "'d \<Rightarrow> bool"
    and ok :: "'e \<Rightarrow> bool" and J :: "'s \<Rightarrow> bool" and pts :: "'s \<Rightarrow> 'k \<Rightarrow> 'e set" and room :: "'s \<Rightarrow> nat \<Rightarrow> bool" +
  fixes diff :: "'s \<Rightarrow> 'k \<Rightarrow> 'e set"
    and propa :: "'s \<Rightarrow> 'k \<Rightarrow> 'e set"
  assumes getDiffPts: "J s \<Longrightarrow> wp (ptd_getDiffPts P k s)
      (\<lambda>(d, s'). I d \<and> \<alpha> d = diff s k \<and> diff_step J pts diff propa room (ptd_rev P) s (diff s) (propa s) s')"
    and computeDiffPts: "J s \<Longrightarrow> I d \<Longrightarrow> room s 2 \<Longrightarrow> wp (ptd_computeDiffPts P k d s)
      (\<lambda>(b, s'). (b \<longleftrightarrow> \<not> \<alpha> d \<subseteq> propa s k) \<and> diff_step J pts diff propa room (ptd_rev P) s
        ((diff s)(k := \<alpha> d - propa s k)) ((propa s)(k := \<alpha> d)) s')"
    and updatePropaPtsMap: "J s \<Longrightarrow> room s 2 \<Longrightarrow> wp (ptd_updatePropaPtsMap P src dst s)
      (diff_step J pts diff propa room (ptd_rev P) s (diff s) ((propa s)(dst := propa s dst \<inter> propa s src)))"
    and clearPropaPts: "J s \<Longrightarrow> wp (ptd_clearPropaPts P k s)
      (diff_step J pts diff propa room (ptd_rev P) s (diff s) ((propa s)(k := {})))"

text \<open>What a node hands to its successors when its set grows step by step.\<close>

fun propagate :: "('k, 'e, 'd, 's, 'm) diff_ops_scheme \<Rightarrow> 'k \<Rightarrow> 'd list \<Rightarrow> 's \<Rightarrow> ('d list \<times> 's) option" where
  "propagate P k [] s = Some ([], s)"
| "propagate P k (d # ds) s = do {
     (b, s) \<leftarrow> ptd_computeDiffPts P k d s;
     (x, s) \<leftarrow> ptd_getDiffPts P k s;
     (xs, s) \<leftarrow> propagate P k ds s;
     Some (x # xs, s) }"

text \<open>The successive differences of a chain of sets.\<close>

fun chain_diffs :: "'e set \<Rightarrow> 'e set list \<Rightarrow> 'e set list" where
  "chain_diffs A [] = []"
| "chain_diffs A (B # Bs) = (B - A) # chain_diffs B Bs"

lemma chain_diffs_partition:
  "sorted_wrt (\<subseteq>) (A # Bs) \<Longrightarrow>
   \<Union> (set (chain_diffs A Bs)) = last (A # Bs) - A \<and> sorted_wrt (\<lambda>X Y. X \<inter> Y = {}) (chain_diffs A Bs)"
proof (induction Bs arbitrary: A)
  case (Cons B Bs)
  have IH: "\<Union> (set (chain_diffs B Bs)) = last (B # Bs) - B" "sorted_wrt (\<lambda>X Y. X \<inter> Y = {}) (chain_diffs B Bs)"
    using Cons by simp_all
  have "last (B # Bs) \<in> set (B # Bs)" by (rule last_in_set) simp
  then have "A \<subseteq> B" "B \<subseteq> last (B # Bs)" using Cons.prems by auto
  moreover have "(B - A) \<inter> Y = {}" if "Y \<in> set (chain_diffs B Bs)" for Y using IH(1) that by auto
  ultimately show ?case using IH by auto
qed simp

context diff_pt_data
begin

lemma propagate_ok:
  "J s \<Longrightarrow> list_all I ds \<Longrightarrow> room s (4 * length ds) \<Longrightarrow>
   wp (propagate P k ds s) (\<lambda>(xs, s'). map \<alpha> xs = chain_diffs (propa s k) (map \<alpha> ds) \<and> J s' \<and> pts s' = pts s)"
proof (induction ds arbitrary: s)
  case (Cons d ds)
  have r2: "room s 2" by (rule room[OF Cons.prems(3)]) simp
  obtain b s1 where s1: "ptd_computeDiffPts P k d s = Some (b, s1)" "J s1" "pts s1 = pts s"
    "diff s1 k = \<alpha> d - propa s k" "propa s1 k = \<alpha> d" "\<And>n. room s (n + 2) \<Longrightarrow> room s1 n"
    using computeDiffPts[OF Cons.prems(1) _ r2, of d k] Cons.prems(2)
    by (auto simp: wp_iff diff_step_def pt_step_def)
  obtain x s2 where s2: "ptd_getDiffPts P k s1 = Some (x, s2)" "\<alpha> x = diff s1 k" "J s2" "pts s2 = pts s1"
    "propa s2 = propa s1" "\<And>n. room s1 (n + 2) \<Longrightarrow> room s2 n"
    using getDiffPts[OF s1(2), of k] by (auto simp: wp_iff diff_step_def pt_step_def)
  have "room s2 (4 * length ds)"
    by (rule s2(6), rule s1(6), rule room[OF Cons.prems(3)]) simp
  from Cons.IH[OF s2(3) _ this] Cons.prems(2) obtain xs s3 where
    "propagate P k ds s2 = Some (xs, s3)" "map \<alpha> xs = chain_diffs (propa s2 k) (map \<alpha> ds)" "J s3" "pts s3 = pts s2"
    by (auto simp: wp_iff)
  then show ?case using s1 s2 by simp
qed simp

text \<open>Every element is handed on exactly once.\<close>

lemma propagate_partition:
  assumes "J s" "list_all I ds" "room s (4 * length ds)" "sorted_wrt (\<subseteq>) (propa s k # map \<alpha> ds)"
  shows "wp (propagate P k ds s) (\<lambda>(xs, s'). \<Union> (set (map \<alpha> xs)) = last (propa s k # map \<alpha> ds) - propa s k \<and>
    sorted_wrt (\<lambda>X Y. X \<inter> Y = {}) (map \<alpha> xs))"
  by (rule wp_mono[OF propagate_ok[OF assms(1-3)]])
    (use chain_diffs_partition[OF assms(4)] in \<open>auto simp del: set_map last.simps\<close>)

end

end
