(* ===== verification/Mutable_PT_Data.thy ===== *)
theory Mutable_PT_Data
  imports PT_Data
begin

text \<open>
  The mutable tables of \<^verbatim>\<open>svf/include/MemoryModel/MutablePointsToDS.h\<close>: a set per key, updated in
  place. \<open>mp_\<close> is \<^verbatim>\<open>MutablePTData\<close>, \<open>md_\<close> \<^verbatim>\<open>MutableDiffPTData\<close>, \<open>mv_\<close> \<^verbatim>\<open>MutableVersionedPTData\<close>.
  They meet the contracts of theory \<^verbatim>\<open>PT_Data\<close> for every type of sets with an exact change flag,
  and are interpreted on \<^verbatim>\<open>PointsTo\<close>. \<^verbatim>\<open>operator[]\<close> enters a missing key (\<open>aref\<close>).
\<close>

subsection \<open>\<^verbatim>\<open>MutablePTData\<close>\<close>

record ('k, 'e, 'd) mut_ptd =
  mp_rev :: bool
  mp_ptsMap :: "('k \<times> 'd) list"
  mp_revPtsMap :: "('e \<times> 'k list) list"

definition mp_new :: "bool \<Rightarrow> ('k, 'e, 'd) mut_ptd" where
  "mp_new reversePT = \<lparr>mp_rev = reversePT, mp_ptsMap = [], mp_revPtsMap = []\<rparr>"

definition mp_clear :: "('k, 'e, 'd) mut_ptd \<Rightarrow> ('k, 'e, 'd) mut_ptd" where
  "mp_clear t = t\<lparr>mp_ptsMap := [], mp_revPtsMap := []\<rparr>"

definition mp_getPts :: "('d, 'e) data_ops \<Rightarrow> 'k \<Rightarrow> ('k, 'e, 'd) mut_ptd \<Rightarrow> 'd \<times> ('k, 'e, 'd) mut_ptd" where
  "mp_getPts D var t = (aget (ds_new D) (mp_ptsMap t) var, t\<lparr>mp_ptsMap := aref (ds_new D) (mp_ptsMap t) var\<rparr>)"

definition mp_getRevPts :: "'e \<Rightarrow> ('k, 'e, 'd) mut_ptd \<Rightarrow> ('k list \<times> ('k, 'e, 'd) mut_ptd) option" where
  "mp_getRevPts datum t = do {
     ensure (mp_rev t);
     Some (aget [] (mp_revPtsMap t) datum, t\<lparr>mp_revPtsMap := aref [] (mp_revPtsMap t) datum\<rparr>) }"

text \<open>The private helpers; the reference \<^verbatim>\<open>revPtsMap[e]\<close> is formed by the caller in every case.\<close>

definition mp_addSingleRevPts :: "'e \<Rightarrow> 'k \<Rightarrow> ('k, 'e, 'd) mut_ptd \<Rightarrow> ('k, 'e, 'd) mut_ptd" where
  "mp_addSingleRevPts e tgr t =
    (let m = aref [] (mp_revPtsMap t) e
     in t\<lparr>mp_revPtsMap := if mp_rev t then aput e (insertKey tgr (aget [] m e)) m else m\<rparr>)"

definition mp_clearSingleRevPts :: "'e \<Rightarrow> 'k \<Rightarrow> ('k, 'e, 'd) mut_ptd \<Rightarrow> ('k, 'e, 'd) mut_ptd" where
  "mp_clearSingleRevPts e k t =
    (let m = aref [] (mp_revPtsMap t) e
     in t\<lparr>mp_revPtsMap := if mp_rev t then aput e (removeKey k (aget [] m e)) m else m\<rparr>)"

definition mp_addRevPts :: "('d, 'e) data_ops \<Rightarrow> 'd \<Rightarrow> 'k \<Rightarrow> ('k, 'e, 'd) mut_ptd \<Rightarrow> ('k, 'e, 'd) mut_ptd option" where
  "mp_addRevPts D ptsData tgr t =
    (if mp_rev t then do { es \<leftarrow> ds_elems D ptsData; Some (fold (\<lambda>e. mp_addSingleRevPts e tgr) es t) }
     else Some t)"

definition mp_clearRevPts :: "('d, 'e) data_ops \<Rightarrow> 'd \<Rightarrow> 'k \<Rightarrow> ('k, 'e, 'd) mut_ptd \<Rightarrow> ('k, 'e, 'd) mut_ptd option" where
  "mp_clearRevPts D pts k t =
    (if mp_rev t then do { es \<leftarrow> ds_elems D pts; Some (fold (\<lambda>e. mp_clearSingleRevPts e k) es t) }
     else Some t)"

definition mp_addPts :: "('d, 'e) data_ops \<Rightarrow> 'k \<Rightarrow> 'e \<Rightarrow> ('k, 'e, 'd) mut_ptd \<Rightarrow> (bool \<times> ('k, 'e, 'd) mut_ptd) option" where
  "mp_addPts D dstKey element t = do {
     let t = mp_addSingleRevPts element dstKey t;
     (b, d) \<leftarrow> ds_test_and_set D (aget (ds_new D) (mp_ptsMap t) dstKey) element;
     Some (b, t\<lparr>mp_ptsMap := aput dstKey d (mp_ptsMap t)\<rparr>) }"

definition mp_unionData :: "('d, 'e) data_ops \<Rightarrow> 'k \<Rightarrow> 'd \<Rightarrow> ('k, 'e, 'd) mut_ptd \<Rightarrow> (bool \<times> ('k, 'e, 'd) mut_ptd) option" where
  "mp_unionData D dstKey srcDataSet t = do {
     t \<leftarrow> mp_addRevPts D srcDataSet dstKey t;
     (b, d) \<leftarrow> ds_or D (aget (ds_new D) (mp_ptsMap t) dstKey) srcDataSet;
     Some (b, t\<lparr>mp_ptsMap := aput dstKey d (mp_ptsMap t)\<rparr>) }"

definition mp_unionPts :: "('d, 'e) data_ops \<Rightarrow> 'k \<Rightarrow> 'k \<Rightarrow> ('k, 'e, 'd) mut_ptd \<Rightarrow> (bool \<times> ('k, 'e, 'd) mut_ptd) option" where
  "mp_unionPts D dstKey srcKey t = do {
     let (src, t) = mp_getPts D srcKey t;
     t \<leftarrow> mp_addRevPts D src dstKey t;
     let (src, t) = mp_getPts D srcKey t;
     (b, d) \<leftarrow> ds_or D (aget (ds_new D) (mp_ptsMap t) dstKey) src;
     Some (b, t\<lparr>mp_ptsMap := aput dstKey d (mp_ptsMap t)\<rparr>) }"

definition mp_clearPts :: "('d, 'e) data_ops \<Rightarrow> 'k \<Rightarrow> 'e \<Rightarrow> ('k, 'e, 'd) mut_ptd \<Rightarrow> ('k, 'e, 'd) mut_ptd option" where
  "mp_clearPts D var element t = do {
     let t = mp_clearSingleRevPts element var t;
     d \<leftarrow> ds_reset D (aget (ds_new D) (mp_ptsMap t) var) element;
     Some (t\<lparr>mp_ptsMap := aput var d (mp_ptsMap t)\<rparr>) }"

definition mp_clearFullPts :: "('d, 'e) data_ops \<Rightarrow> 'k \<Rightarrow> ('k, 'e, 'd) mut_ptd \<Rightarrow> ('k, 'e, 'd) mut_ptd option" where
  "mp_clearFullPts D var t = do {
     let (pts, t) = mp_getPts D var t;
     t \<leftarrow> mp_clearRevPts D pts var t;
     Some (t\<lparr>mp_ptsMap := aput var (ds_clear D pts) (mp_ptsMap t)\<rparr>) }"

text \<open>\<^verbatim>\<open>checkAndRemap\<close> on every set of a map.\<close>

definition remap_map :: "('d, 'e) data_ops \<Rightarrow> ('k \<times> 'd) list \<Rightarrow> ('k \<times> 'd) list option" where
  "remap_map D m = mapM (\<lambda>(k, d). do { d \<leftarrow> ds_remap D d; Some (k, d) }) m"

definition mp_remapAllPts :: "('d, 'e) data_ops \<Rightarrow> ('k, 'e, 'd) mut_ptd \<Rightarrow> ('k, 'e, 'd) mut_ptd option" where
  "mp_remapAllPts D t = do { m \<leftarrow> remap_map D (mp_ptsMap t); Some (t\<lparr>mp_ptsMap := m\<rparr>) }"

text \<open>\<^verbatim>\<open>++allPts[d]\<close> on a \<^verbatim>\<open>Map<DataSet, unsigned>\<close>, and \<^verbatim>\<open>getAllPts\<close>.\<close>

definition count_pts :: "('d, 'e) data_ops \<Rightarrow> 'd \<Rightarrow> ('d \<times> nat) list \<Rightarrow> ('d \<times> nat) list option" where
  "count_pts D d m = do {
     n \<leftarrow> dfind D d m;
     dput D d (case n of None \<Rightarrow> 1 | Some n \<Rightarrow> (n + 1) mod 2 ^ 32) m }"

definition count_map :: "('d, 'e) data_ops \<Rightarrow> ('k \<times> 'd) list \<Rightarrow> ('d \<times> nat) list \<Rightarrow> ('d \<times> nat) list option" where
  "count_map D m allPts = foldM (\<lambda>(k, d). count_pts D d) m allPts"

definition mp_getAllPts :: "('d, 'e) data_ops \<Rightarrow> ('k, 'e, 'd) mut_ptd \<Rightarrow> ('d \<times> nat) list option" where
  "mp_getAllPts D t = count_map D (mp_ptsMap t) []"

text \<open>The class.\<close>

definition mp_ops :: "('d, 'e) data_ops \<Rightarrow> ('k, 'e, 'd, ('k, 'e, 'd) mut_ptd) ptd_ops" where
  "mp_ops D = \<lparr>ptd_rev = mp_rev, ptd_clear = (\<lambda>t. Some (mp_clear t)), ptd_getPts = (\<lambda>k t. Some (mp_getPts D k t)),
     ptd_getRevPts = mp_getRevPts, ptd_addPts = mp_addPts D, ptd_unionPts = mp_unionPts D,
     ptd_unionData = mp_unionData D, ptd_clearPts = mp_clearPts D, ptd_clearFullPts = mp_clearFullPts D,
     ptd_remapAllPts = mp_remapAllPts D\<rparr>"

subsection \<open>What a table means\<close>

definition map_pts :: "('d \<Rightarrow> 'e set) \<Rightarrow> ('k \<times> 'd) list \<Rightarrow> 'k \<Rightarrow> 'e set" where
  "map_pts \<alpha> m k = (case map_of m k of None \<Rightarrow> {} | Some d \<Rightarrow> \<alpha> d)"

definition map_inv :: "('d \<Rightarrow> bool) \<Rightarrow> ('k \<times> 'd) list \<Rightarrow> bool" where
  "map_inv I m \<longleftrightarrow> distinct (map fst m) \<and> (\<forall>(k, d) \<in> set m. I d)"

text \<open>\<open>rm\<close> is the inverse of \<open>f\<close>.\<close>

definition rev_ok :: "bool \<Rightarrow> ('e \<times> 'k list) list \<Rightarrow> ('k \<Rightarrow> 'e set) \<Rightarrow> bool" where
  "rev_ok rv rm f \<longleftrightarrow> (rv \<longrightarrow> (\<forall>e. distinct (aget [] rm e) \<and> set (aget [] rm e) = {k. e \<in> f k}))"

definition mp_pts :: "('d \<Rightarrow> 'e set) \<Rightarrow> ('k, 'e, 'd) mut_ptd \<Rightarrow> 'k \<Rightarrow> 'e set" where
  "mp_pts \<alpha> t = map_pts \<alpha> (mp_ptsMap t)"

definition mp_inv :: "('d \<Rightarrow> 'e set) \<Rightarrow> ('d \<Rightarrow> bool) \<Rightarrow> ('k, 'e, 'd) mut_ptd \<Rightarrow> bool" where
  "mp_inv \<alpha> I t \<longleftrightarrow> map_inv I (mp_ptsMap t) \<and> rev_ok (mp_rev t) (mp_revPtsMap t) (mp_pts \<alpha> t)"

lemma map_pts_Nil [simp]: "map_pts \<alpha> [] = (\<lambda>_. {})"
  by (simp add: map_pts_def fun_eq_iff)

lemma map_pts_aput [simp]: "map_pts \<alpha> (aput k d m) = (map_pts \<alpha> m)(k := \<alpha> d)"
  by (auto simp: map_pts_def fun_eq_iff)

lemma map_inv_aput [simp]: "map_inv I m \<Longrightarrow> I d \<Longrightarrow> map_inv I (aput k d m)"
  using set_aput_subset[of k d m] by (auto simp: map_inv_def)

lemma map_inv_Nil [simp]: "map_inv I []"
  by (simp add: map_inv_def)

lemma rev_ok_new [simp]: "rev_ok rv [] (\<lambda>_. {})"
  by (simp add: rev_ok_def)

text \<open>Changes of the reverse map that follow a change of one key.\<close>

lemma rev_ok_insert:
  assumes "rev_ok rv rm f"
    and "\<And>e. rv \<Longrightarrow> aget [] rm' e = (if e \<in> A then insertKey k (aget [] rm e) else aget [] rm e)"
  shows "rev_ok rv rm' (f(k := f k \<union> A))"
  using assms by (auto simp: rev_ok_def)

lemma rev_ok_remove:
  assumes "rev_ok rv rm f"
    and "\<And>e. rv \<Longrightarrow> aget [] rm' e = (if e \<in> A then removeKey k (aget [] rm e) else aget [] rm e)"
  shows "rev_ok rv rm' (f(k := f k - A))"
  using assms by (auto simp: rev_ok_def)

lemma insertKey_idem [simp]: "insertKey k (insertKey k ks) = insertKey k ks"
  by (simp add: insertKey_def)

lemma removeKey_idem [simp]: "removeKey k (removeKey k ks) = removeKey k ks"
  by (simp add: removeKey_def)

lemma addSingleRevPts_simps [simp]:
  "mp_rev (mp_addSingleRevPts e k t) = mp_rev t" "mp_ptsMap (mp_addSingleRevPts e k t) = mp_ptsMap t"
  "mp_rev t \<Longrightarrow> aget [] (mp_revPtsMap (mp_addSingleRevPts e k t)) x =
     (if x = e then insertKey k (aget [] (mp_revPtsMap t) x) else aget [] (mp_revPtsMap t) x)"
  by (auto simp: mp_addSingleRevPts_def Let_def)

lemma clearSingleRevPts_simps [simp]:
  "mp_rev (mp_clearSingleRevPts e k t) = mp_rev t" "mp_ptsMap (mp_clearSingleRevPts e k t) = mp_ptsMap t"
  "mp_rev t \<Longrightarrow> aget [] (mp_revPtsMap (mp_clearSingleRevPts e k t)) x =
     (if x = e then removeKey k (aget [] (mp_revPtsMap t) x) else aget [] (mp_revPtsMap t) x)"
  by (auto simp: mp_clearSingleRevPts_def Let_def)

lemma fold_addSingleRevPts:
  "mp_rev (fold (\<lambda>e. mp_addSingleRevPts e k) es t) = mp_rev t"
  "mp_ptsMap (fold (\<lambda>e. mp_addSingleRevPts e k) es t) = mp_ptsMap t"
  "mp_rev t \<Longrightarrow> aget [] (mp_revPtsMap (fold (\<lambda>e. mp_addSingleRevPts e k) es t)) x =
     (if x \<in> set es then insertKey k (aget [] (mp_revPtsMap t) x) else aget [] (mp_revPtsMap t) x)"
  by (induction es arbitrary: t) auto

lemma fold_clearSingleRevPts:
  "mp_rev (fold (\<lambda>e. mp_clearSingleRevPts e k) es t) = mp_rev t"
  "mp_ptsMap (fold (\<lambda>e. mp_clearSingleRevPts e k) es t) = mp_ptsMap t"
  "mp_rev t \<Longrightarrow> aget [] (mp_revPtsMap (fold (\<lambda>e. mp_clearSingleRevPts e k) es t)) x =
     (if x \<in> set es then removeKey k (aget [] (mp_revPtsMap t) x) else aget [] (mp_revPtsMap t) x)"
  by (induction es arbitrary: t) auto

text \<open>A step of \<open>MutablePTData\<close>: there is always room.\<close>

definition mp_room :: "('k, 'e, 'd) mut_ptd \<Rightarrow> nat \<Rightarrow> bool" where
  "mp_room t n = True"

abbreviation mp_step :: "('d \<Rightarrow> 'e set) \<Rightarrow> ('d \<Rightarrow> bool) \<Rightarrow> ('k, 'e, 'd) mut_ptd \<Rightarrow> ('k \<Rightarrow> 'e set) \<Rightarrow> ('k, 'e, 'd) mut_ptd \<Rightarrow> bool" where
  "mp_step \<alpha> I \<equiv> pt_step (mp_inv \<alpha> I) (mp_pts \<alpha>) mp_room mp_rev"

lemma mp_step_iff:
  "mp_step \<alpha> I t f t' \<longleftrightarrow> map_inv I (mp_ptsMap t') \<and> map_pts \<alpha> (mp_ptsMap t') = f \<and>
     mp_rev t' = mp_rev t \<and> rev_ok (mp_rev t) (mp_revPtsMap t') f"
  by (auto simp: pt_step_def mp_inv_def mp_pts_def mp_room_def)

lemma mp_inv_iff:
  "mp_inv \<alpha> I t \<longleftrightarrow> map_inv I (mp_ptsMap t) \<and> rev_ok (mp_rev t) (mp_revPtsMap t) (map_pts \<alpha> (mp_ptsMap t))"
  by (auto simp: mp_inv_def mp_pts_def)

context data_set
begin

lemma map_aget:
  "map_inv I m \<Longrightarrow> I (aget (ds_new D) m k)" "map_inv I m \<Longrightarrow> \<alpha> (aget (ds_new D) m k) = map_pts \<alpha> m k"
  by (auto simp: map_inv_def map_pts_def aget_def new dest: map_of_SomeD split: option.splits)

lemma map_aref:
  "map_inv I m \<Longrightarrow> map_inv I (aref (ds_new D) m k)"
  "map_inv I m \<Longrightarrow> map_pts \<alpha> (aref (ds_new D) m k) = map_pts \<alpha> m"
  by (auto simp: aref_def map_aget)

lemma remap_map_ok:
  assumes "map_inv I m"
  shows "wp (remap_map D m) (\<lambda>m'. map_inv I m' \<and> map_pts \<alpha> m' = map_pts \<alpha> m \<and> map fst m' = map fst m)"
proof -
  have "wp (mapM (\<lambda>(k, d). do { d \<leftarrow> ds_remap D d; Some (k, d) }) m)
      (list_all2 (\<lambda>(k, d) (k', d'). k' = k \<and> I d' \<and> \<alpha> d' = \<alpha> d) m)"
  proof (rule wp_mapM)
    fix x assume "x \<in> List.set m"
    then have "I (snd x)" using assms by (auto simp: map_inv_def)
    from remap[OF this] show "wp (case x of (k, d) \<Rightarrow> do { d \<leftarrow> ds_remap D d; Some (k, d) })
        ((\<lambda>(k, d) (k', d'). k' = k \<and> I d' \<and> \<alpha> d' = \<alpha> d) x)"
      by (auto simp: split_beta)
  qed
  moreover have "map_inv I m' \<and> map_pts \<alpha> m' = map_pts \<alpha> m \<and> map fst m' = map fst m"
    if "list_all2 (\<lambda>(k, d) (k', d'). k' = k \<and> I d' \<and> \<alpha> d' = \<alpha> d) m m'" for m'
  proof -
    have *: "map fst m' = map fst m \<and> (\<forall>(k, d) \<in> List.set m'. I d) \<and> map_pts \<alpha> m' = map_pts \<alpha> m"
      using that by (induction rule: list_all2_induct) (auto simp: map_pts_def fun_eq_iff split: if_splits)
    then show ?thesis using assms by (auto simp: map_inv_def)
  qed
  ultimately show ?thesis unfolding remap_map_def by (rule wp_mono)
qed

lemma mp_clear_ok: "mp_step \<alpha> I t (\<lambda>_. {}) (mp_clear t)"
  by (simp add: mp_step_iff mp_clear_def)

lemma mp_getPts_ok:
  "mp_inv \<alpha> I t \<Longrightarrow> case mp_getPts D k t of (d, t') \<Rightarrow> I d \<and> \<alpha> d = mp_pts \<alpha> t k \<and> mp_step \<alpha> I t (mp_pts \<alpha> t) t'"
  by (simp add: mp_inv_iff mp_step_iff mp_getPts_def map_aget map_aref mp_pts_def)

lemma mp_getRevPts_ok:
  assumes "mp_inv \<alpha> I t" "mp_rev t"
  shows "wp (mp_getRevPts e t) (\<lambda>(ks, t'). distinct ks \<and> List.set ks = {k. e \<in> mp_pts \<alpha> t k} \<and>
    mp_step \<alpha> I t (mp_pts \<alpha> t) t')"
proof -
  have "distinct (aget [] (mp_revPtsMap t) x) \<and> List.set (aget [] (mp_revPtsMap t) x) = {k. x \<in> mp_pts \<alpha> t k}" for x
    using assms by (simp add: mp_inv_iff rev_ok_def mp_pts_def)
  then show ?thesis using assms by (simp add: mp_getRevPts_def mp_step_iff mp_inv_iff mp_pts_def rev_ok_def)
qed

lemma mp_addRevPts_ok:
  assumes "mp_inv \<alpha> I t" "I d"
  shows "wp (mp_addRevPts D d k t) (\<lambda>t'. mp_rev t' = mp_rev t \<and> mp_ptsMap t' = mp_ptsMap t \<and>
    rev_ok (mp_rev t) (mp_revPtsMap t') ((mp_pts \<alpha> t)(k := mp_pts \<alpha> t k \<union> \<alpha> d)))"
proof (cases "mp_rev t")
  case True
  obtain es where es: "ds_elems D d = Some es" "List.set es = \<alpha> d"
    using elems[OF assms(2)] by (auto simp: wp_iff)
  have "rev_ok (mp_rev t) (mp_revPtsMap (fold (\<lambda>e. mp_addSingleRevPts e k) es t))
      ((mp_pts \<alpha> t)(k := mp_pts \<alpha> t k \<union> \<alpha> d))"
    by (rule rev_ok_insert[of _ "mp_revPtsMap t"])
      (use assms(1) True in \<open>simp_all add: mp_inv_def fold_addSingleRevPts es(2)\<close>)
  then show ?thesis using True es(1) by (simp add: mp_addRevPts_def fold_addSingleRevPts)
qed (simp add: mp_addRevPts_def rev_ok_def)

lemma mp_clearRevPts_ok:
  assumes "mp_inv \<alpha> I t" "I d"
  shows "wp (mp_clearRevPts D d k t) (\<lambda>t'. mp_rev t' = mp_rev t \<and> mp_ptsMap t' = mp_ptsMap t \<and>
    rev_ok (mp_rev t) (mp_revPtsMap t') ((mp_pts \<alpha> t)(k := mp_pts \<alpha> t k - \<alpha> d)))"
proof (cases "mp_rev t")
  case True
  obtain es where es: "ds_elems D d = Some es" "List.set es = \<alpha> d"
    using elems[OF assms(2)] by (auto simp: wp_iff)
  have "rev_ok (mp_rev t) (mp_revPtsMap (fold (\<lambda>e. mp_clearSingleRevPts e k) es t))
      ((mp_pts \<alpha> t)(k := mp_pts \<alpha> t k - \<alpha> d))"
    by (rule rev_ok_remove[of _ "mp_revPtsMap t"])
      (use assms(1) True in \<open>simp_all add: mp_inv_def fold_clearSingleRevPts es(2)\<close>)
  then show ?thesis using True es(1) by (simp add: mp_clearRevPts_def fold_clearSingleRevPts)
qed (simp add: mp_clearRevPts_def rev_ok_def)

lemma mp_clearPts_ok:
  assumes "mp_inv \<alpha> I t" "ok e"
  shows "wp (mp_clearPts D k e t) (mp_step \<alpha> I t ((mp_pts \<alpha> t)(k := mp_pts \<alpha> t k - {e})))"
proof -
  have m: "map_inv I (mp_ptsMap t)" using assms(1) by (simp add: mp_inv_iff)
  have rv: "rev_ok (mp_rev t) (mp_revPtsMap (mp_clearSingleRevPts e k t)) ((mp_pts \<alpha> t)(k := mp_pts \<alpha> t k - {e}))"
    by (rule rev_ok_remove[of _ "mp_revPtsMap t"]) (use assms(1) in \<open>simp_all add: mp_inv_def\<close>)
  show ?thesis
    unfolding mp_clearPts_def Let_def
    by (simp, rule wp_mono[OF reset[OF map_aget(1)[OF m] assms(2)]])
      (use m rv in \<open>simp add: mp_step_iff map_aget mp_pts_def\<close>)
qed

lemma mp_clearFullPts_ok:
  assumes "mp_inv \<alpha> I t"
  shows "wp (mp_clearFullPts D k t) (mp_step \<alpha> I t ((mp_pts \<alpha> t)(k := {})))"
proof -
  obtain d t1 where t1: "mp_getPts D k t = (d, t1)" "I d" "\<alpha> d = mp_pts \<alpha> t k" "mp_inv \<alpha> I t1"
    "mp_pts \<alpha> t1 = mp_pts \<alpha> t" "mp_rev t1 = mp_rev t"
    using mp_getPts_ok[OF assms, of k] by (auto simp: pt_step_def)
  have "map_inv I (mp_ptsMap t1)" using t1(4) by (simp add: mp_inv_iff)
  then show ?thesis
    unfolding mp_clearFullPts_def t1(1)
    by (simp, intro wp_mono[OF mp_clearRevPts_ok[OF t1(4,2), of k]])
      (use t1 clear[OF t1(2)] in \<open>auto simp: mp_step_iff mp_pts_def\<close>)
qed

lemma mp_remapAllPts_ok:
  assumes "mp_inv \<alpha> I t"
  shows "wp (mp_remapAllPts D t) (mp_step \<alpha> I t (mp_pts \<alpha> t))"
proof -
  have "map_inv I (mp_ptsMap t)" using assms by (simp add: mp_inv_iff)
  from remap_map_ok[OF this] show ?thesis
    using assms by (auto simp: mp_remapAllPts_def wp_iff mp_step_iff mp_inv_iff mp_pts_def)
qed

lemma mp_addPts_ok:
  assumes "mp_inv \<alpha> I t" "ok e"
  shows "wp (mp_addPts D k e t) (\<lambda>(b, t'). (b \<longleftrightarrow> e \<notin> mp_pts \<alpha> t k) \<and>
    mp_step \<alpha> I t ((mp_pts \<alpha> t)(k := insert e (mp_pts \<alpha> t k))) t')"
proof -
  have m: "map_inv I (mp_ptsMap t)" using assms(1) by (simp add: mp_inv_iff)
  have "rev_ok (mp_rev t) (mp_revPtsMap (mp_addSingleRevPts e k t)) ((mp_pts \<alpha> t)(k := mp_pts \<alpha> t k \<union> {e}))"
    by (rule rev_ok_insert[of _ "mp_revPtsMap t"]) (use assms(1) in \<open>simp_all add: mp_inv_def\<close>)
  then show ?thesis
    unfolding mp_addPts_def Let_def
    by (simp, intro wp_mono[OF test_and_set[OF map_aget(1)[OF m] assms(2)]])
      (use m in \<open>simp add: split_beta mp_step_iff map_aget mp_pts_def\<close>)
qed

end

context canonical_data_set
begin

lemma or_ok: "I d \<Longrightarrow> I d' \<Longrightarrow> wp (ds_or D d d') (\<lambda>(ch, r). (ch \<longleftrightarrow> \<not> \<alpha> d' \<subseteq> \<alpha> d) \<and> I r \<and> \<alpha> r = \<alpha> d \<union> \<alpha> d')"
  using union_into[of d d'] union_flag[of d d'] by (auto simp: wp_iff)

lemma mp_unionData_ok:
  assumes "mp_inv \<alpha> I t" "I d"
  shows "wp (mp_unionData D k d t) (\<lambda>(b, t'). (b \<longleftrightarrow> \<not> \<alpha> d \<subseteq> mp_pts \<alpha> t k) \<and>
    mp_step \<alpha> I t ((mp_pts \<alpha> t)(k := mp_pts \<alpha> t k \<union> \<alpha> d)) t')"
proof -
  have m: "map_inv I (mp_ptsMap t)" using assms(1) by (simp add: mp_inv_iff)
  obtain t1 where t1: "mp_addRevPts D d k t = Some t1" "mp_rev t1 = mp_rev t" "mp_ptsMap t1 = mp_ptsMap t"
    "rev_ok (mp_rev t) (mp_revPtsMap t1) ((mp_pts \<alpha> t)(k := mp_pts \<alpha> t k \<union> \<alpha> d))"
    using mp_addRevPts_ok[OF assms, of k] by (auto simp: wp_iff)
  show ?thesis
    unfolding mp_unionData_def t1(1)
    by (simp, rule wp_mono[OF or_ok], use t1 m assms(2) in \<open>auto simp: map_aget mp_step_iff mp_pts_def\<close>)
qed

lemma mp_unionPts_ok:
  assumes "mp_inv \<alpha> I t"
  shows "wp (mp_unionPts D k k' t) (\<lambda>(b, t'). (b \<longleftrightarrow> \<not> mp_pts \<alpha> t k' \<subseteq> mp_pts \<alpha> t k) \<and>
    mp_step \<alpha> I t ((mp_pts \<alpha> t)(k := mp_pts \<alpha> t k \<union> mp_pts \<alpha> t k')) t')"
proof -
  obtain d t1 where t1: "mp_getPts D k' t = (d, t1)" "I d" "\<alpha> d = mp_pts \<alpha> t k'" "mp_inv \<alpha> I t1"
    "mp_pts \<alpha> t1 = mp_pts \<alpha> t" "mp_rev t1 = mp_rev t"
    using mp_getPts_ok[OF assms, of k'] by (auto simp: pt_step_def)
  obtain t2 where t2: "mp_addRevPts D d k t1 = Some t2" "mp_rev t2 = mp_rev t1" "mp_ptsMap t2 = mp_ptsMap t1"
    "rev_ok (mp_rev t1) (mp_revPtsMap t2) ((mp_pts \<alpha> t1)(k := mp_pts \<alpha> t1 k \<union> \<alpha> d))"
    using mp_addRevPts_ok[OF t1(4,2), of k] by (auto simp: wp_iff)
  have m: "map_inv I (mp_ptsMap t2)" using t1(4) t2(3) by (simp add: mp_inv_iff)
  have pts: "map_pts \<alpha> (mp_ptsMap t2) = mp_pts \<alpha> t" using t1(5) t2(3) by (simp add: mp_pts_def)
  note ar = map_aref[OF m]
  show ?thesis
    unfolding mp_unionPts_def t1(1)
    by (simp add: t2(1) mp_getPts_def, rule wp_mono[OF or_ok], use t1 t2 m pts ar in \<open>auto simp: map_aget mp_step_iff\<close>)
qed

lemma mp_pt_data: "pt_data (mp_ops D) \<alpha> I ok (mp_inv \<alpha> I) (mp_pts \<alpha>) mp_room"
proof
  fix s k assume s: "mp_inv \<alpha> I s"
  show "wp (ptd_getPts (mp_ops D) k s) (\<lambda>(d, s'). I d \<and> \<alpha> d = mp_pts \<alpha> s k \<and>
      pt_step (mp_inv \<alpha> I) (mp_pts \<alpha>) mp_room (ptd_rev (mp_ops D)) s (mp_pts \<alpha> s) s')"
    using mp_getPts_ok[OF s, of k] by (simp add: mp_ops_def split_beta)
qed (simp_all add: mp_ops_def mp_room_def mp_clear_ok mp_getRevPts_ok mp_addPts_ok mp_unionPts_ok
      mp_unionData_ok mp_clearPts_ok mp_clearFullPts_ok mp_remapAllPts_ok)

end

text \<open>The tables of the analyses: \<^verbatim>\<open>MutablePTData<NodeID, NodeSet, NodeID, PointsTo>\<close>.\<close>

interpretation mut: pt_data "mp_ops (pts_ops (initial_env SBV h))" "pts_of (initial_env SBV h)"
    "run_inv (initial_env SBV h)" "run_ok (initial_env SBV h)"
    "mp_inv (pts_of (initial_env SBV h)) (run_inv (initial_env SBV h))"
    "mp_pts (pts_of (initial_env SBV h))" mp_room for h
  by (rule pts.mp_pt_data)

lemma mp_new_ok [simp]: "mp_inv \<alpha> I (mp_new rv)" "mp_pts \<alpha> (mp_new rv) = (\<lambda>_. {})" "mp_rev (mp_new rv) = rv"
  by (simp_all add: mp_inv_iff mp_new_def mp_pts_def)

subsection \<open>\<^verbatim>\<open>MutableDiffPTData\<close>\<close>

record ('k, 'e, 'd) mut_diff =
  md_rev :: bool
  md_mutPTData :: "('k, 'e, 'd) mut_ptd"
  md_diffPtsMap :: "('k \<times> 'd) list"
  md_propaPtsMap :: "('k \<times> 'd) list"

definition md_new :: "bool \<Rightarrow> ('k, 'e, 'd) mut_diff" where
  "md_new reversePT = \<lparr>md_rev = reversePT, md_mutPTData = mp_new reversePT, md_diffPtsMap = [], md_propaPtsMap = []\<rparr>"

text \<open>The methods of the base class are forwarded to the backing table.\<close>

definition md_on :: "(('k, 'e, 'd) mut_ptd \<Rightarrow> ('a \<times> ('k, 'e, 'd) mut_ptd) option) \<Rightarrow>
    ('k, 'e, 'd) mut_diff \<Rightarrow> ('a \<times> ('k, 'e, 'd) mut_diff) option" where
  "md_on f t = do { (x, m) \<leftarrow> f (md_mutPTData t); Some (x, t\<lparr>md_mutPTData := m\<rparr>) }"

definition md_upd :: "(('k, 'e, 'd) mut_ptd \<Rightarrow> ('k, 'e, 'd) mut_ptd option) \<Rightarrow>
    ('k, 'e, 'd) mut_diff \<Rightarrow> ('k, 'e, 'd) mut_diff option" where
  "md_upd f t = do { m \<leftarrow> f (md_mutPTData t); Some (t\<lparr>md_mutPTData := m\<rparr>) }"

definition md_getRevPts :: "'e \<Rightarrow> ('k, 'e, 'd) mut_diff \<Rightarrow> ('k list \<times> ('k, 'e, 'd) mut_diff) option" where
  "md_getRevPts datum t = do { ensure (md_rev t); md_on (mp_getRevPts datum) t }"

definition md_remapAllPts :: "('d, 'e) data_ops \<Rightarrow> ('k, 'e, 'd) mut_diff \<Rightarrow> ('k, 'e, 'd) mut_diff option" where
  "md_remapAllPts D t = do {
     t \<leftarrow> md_upd (mp_remapAllPts D) t;
     g \<leftarrow> remap_map D (md_diffPtsMap t);
     h \<leftarrow> remap_map D (md_propaPtsMap t);
     Some (t\<lparr>md_diffPtsMap := g, md_propaPtsMap := h\<rparr>) }"

definition md_getDiffPts :: "('d, 'e) data_ops \<Rightarrow> 'k \<Rightarrow> ('k, 'e, 'd) mut_diff \<Rightarrow> 'd \<times> ('k, 'e, 'd) mut_diff" where
  "md_getDiffPts D var t =
    (aget (ds_new D) (md_diffPtsMap t) var, t\<lparr>md_diffPtsMap := aref (ds_new D) (md_diffPtsMap t) var\<rparr>)"

definition md_getPropaPts :: "('d, 'e) data_ops \<Rightarrow> 'k \<Rightarrow> ('k, 'e, 'd) mut_diff \<Rightarrow> 'd \<times> ('k, 'e, 'd) mut_diff" where
  "md_getPropaPts D var t =
    (aget (ds_new D) (md_propaPtsMap t) var, t\<lparr>md_propaPtsMap := aref (ds_new D) (md_propaPtsMap t) var\<rparr>)"

definition md_computeDiffPts :: "('d, 'e) data_ops \<Rightarrow> 'k \<Rightarrow> 'd \<Rightarrow> ('k, 'e, 'd) mut_diff \<Rightarrow> (bool \<times> ('k, 'e, 'd) mut_diff) option" where
  "md_computeDiffPts D var all t = do {
     let diff = ds_clear D (aget (ds_new D) (md_diffPtsMap t) var);
     let (propa, t) = md_getPropaPts D var t;
     diff \<leftarrow> ds_icomp3 D diff all propa;
     let t = t\<lparr>md_diffPtsMap := aput var diff (md_diffPtsMap t),
               md_propaPtsMap := aput var (ds_copy D all) (md_propaPtsMap t)\<rparr>;
     Some (\<not> ds_empty D diff, t) }"

definition md_updatePropaPtsMap :: "('d, 'e) data_ops \<Rightarrow> 'k \<Rightarrow> 'k \<Rightarrow> ('k, 'e, 'd) mut_diff \<Rightarrow> ('k, 'e, 'd) mut_diff option" where
  "md_updatePropaPtsMap D src dst t = do {
     let (srcPropa, t) = md_getPropaPts D src t;
     let (dstPropa, t) = md_getPropaPts D dst t;
     (_, d) \<leftarrow> ds_and D dstPropa srcPropa;
     Some (t\<lparr>md_propaPtsMap := aput dst d (md_propaPtsMap t)\<rparr>) }"

definition md_clearPropaPts :: "('d, 'e) data_ops \<Rightarrow> 'k \<Rightarrow> ('k, 'e, 'd) mut_diff \<Rightarrow> ('k, 'e, 'd) mut_diff" where
  "md_clearPropaPts D var t =
    (let (propa, t) = md_getPropaPts D var t
     in t\<lparr>md_propaPtsMap := aput var (ds_clear D propa) (md_propaPtsMap t)\<rparr>)"

definition md_ops :: "('d, 'e) data_ops \<Rightarrow> ('k, 'e, 'd, ('k, 'e, 'd) mut_diff) diff_ops" where
  "md_ops D = \<lparr>ptd_rev = md_rev, ptd_clear = md_upd (\<lambda>m. Some (mp_clear m)),
     ptd_getPts = (\<lambda>k. md_on (\<lambda>m. Some (mp_getPts D k m))),
     ptd_getRevPts = md_getRevPts, ptd_addPts = (\<lambda>k e. md_on (mp_addPts D k e)),
     ptd_unionPts = (\<lambda>k k'. md_on (mp_unionPts D k k')), ptd_unionData = (\<lambda>k d. md_on (mp_unionData D k d)),
     ptd_clearPts = (\<lambda>k e. md_upd (mp_clearPts D k e)), ptd_clearFullPts = (\<lambda>k. md_upd (mp_clearFullPts D k)),
     ptd_remapAllPts = md_remapAllPts D, ptd_getDiffPts = (\<lambda>k t. Some (md_getDiffPts D k t)),
     ptd_computeDiffPts = md_computeDiffPts D, ptd_updatePropaPtsMap = md_updatePropaPtsMap D,
     ptd_clearPropaPts = (\<lambda>k t. Some (md_clearPropaPts D k t))\<rparr>"

definition md_inv :: "('d \<Rightarrow> 'e set) \<Rightarrow> ('d \<Rightarrow> bool) \<Rightarrow> ('k, 'e, 'd) mut_diff \<Rightarrow> bool" where
  "md_inv \<alpha> I t \<longleftrightarrow> mp_inv \<alpha> I (md_mutPTData t) \<and> md_rev t = mp_rev (md_mutPTData t) \<and>
     map_inv I (md_diffPtsMap t) \<and> map_inv I (md_propaPtsMap t)"

definition md_pts :: "('d \<Rightarrow> 'e set) \<Rightarrow> ('k, 'e, 'd) mut_diff \<Rightarrow> 'k \<Rightarrow> 'e set" where
  "md_pts \<alpha> t = mp_pts \<alpha> (md_mutPTData t)"

definition md_diff :: "('d \<Rightarrow> 'e set) \<Rightarrow> ('k, 'e, 'd) mut_diff \<Rightarrow> 'k \<Rightarrow> 'e set" where
  "md_diff \<alpha> t = map_pts \<alpha> (md_diffPtsMap t)"

definition md_propa :: "('d \<Rightarrow> 'e set) \<Rightarrow> ('k, 'e, 'd) mut_diff \<Rightarrow> 'k \<Rightarrow> 'e set" where
  "md_propa \<alpha> t = map_pts \<alpha> (md_propaPtsMap t)"

definition md_room :: "('k, 'e, 'd) mut_diff \<Rightarrow> nat \<Rightarrow> bool" where
  "md_room t n = True"

lemma md_new_ok [simp]:
  "md_inv \<alpha> I (md_new rv)" "md_pts \<alpha> (md_new rv) = (\<lambda>_. {})" "md_diff \<alpha> (md_new rv) = (\<lambda>_. {})"
  "md_propa \<alpha> (md_new rv) = (\<lambda>_. {})" "md_rev (md_new rv) = rv"
  by (simp_all add: md_inv_def md_new_def md_pts_def md_diff_def md_propa_def)

lemma md_on_step:
  assumes "md_inv \<alpha> I t"
    and "wp (f (md_mutPTData t)) (\<lambda>(x, m'). Q x \<and> mp_step \<alpha> I (md_mutPTData t) g m')"
  shows "wp (md_on f t) (\<lambda>(x, t'). Q x \<and> pt_step (md_inv \<alpha> I) (md_pts \<alpha>) md_room md_rev t g t')"
  using assms by (auto simp: md_on_def wp_iff pt_step_def md_inv_def md_pts_def md_room_def)

lemma md_upd_step:
  assumes "md_inv \<alpha> I t" and "wp (f (md_mutPTData t)) (mp_step \<alpha> I (md_mutPTData t) g)"
  shows "wp (md_upd f t) (pt_step (md_inv \<alpha> I) (md_pts \<alpha>) md_room md_rev t g)"
  using assms by (auto simp: md_upd_def wp_iff pt_step_def md_inv_def md_pts_def md_room_def)

text \<open>A change of the difference maps alone.\<close>

lemma md_diff_step:
  "md_inv \<alpha> I t \<Longrightarrow> map_inv I g \<Longrightarrow> map_inv I h \<Longrightarrow>
   diff_step (md_inv \<alpha> I) (md_pts \<alpha>) (md_diff \<alpha>) (md_propa \<alpha>) md_room md_rev t (map_pts \<alpha> g) (map_pts \<alpha> h)
     (t\<lparr>md_diffPtsMap := g, md_propaPtsMap := h\<rparr>)"
  by (simp add: diff_step_def pt_step_def md_inv_def md_pts_def md_diff_def md_propa_def md_room_def)

context canonical_data_set
begin

lemma md_pt_data: "pt_data (md_ops D) \<alpha> I ok (md_inv \<alpha> I) (md_pts \<alpha>) md_room"
proof
  fix s :: "('k, 'e, 'd) mut_diff" and k k' and e and d
  assume s: "md_inv \<alpha> I s"
  note m = s[unfolded md_inv_def, THEN conjunct1]
  note pts = md_pts_def[of \<alpha> s]
  show "wp (ptd_clear (md_ops D) s) (pt_step (md_inv \<alpha> I) (md_pts \<alpha>) md_room (ptd_rev (md_ops D)) s (\<lambda>_. {}))"
    by (simp add: md_ops_def, rule md_upd_step[OF s], simp add: mp_clear_ok)
  show "wp (ptd_getPts (md_ops D) k s) (\<lambda>(d, s'). I d \<and> \<alpha> d = md_pts \<alpha> s k \<and>
      pt_step (md_inv \<alpha> I) (md_pts \<alpha>) md_room (ptd_rev (md_ops D)) s (md_pts \<alpha> s) s')"
    using md_on_step[OF s, of "\<lambda>m. Some (mp_getPts D k m)" "\<lambda>d. I d \<and> \<alpha> d = md_pts \<alpha> s k"] mp_getPts_ok[OF m, of k]
    by (simp add: md_ops_def pts split_beta)
  show "wp (ptd_getRevPts (md_ops D) e s) (\<lambda>(ks, s'). distinct ks \<and> List.set ks = {k. e \<in> md_pts \<alpha> s k} \<and>
      pt_step (md_inv \<alpha> I) (md_pts \<alpha>) md_room (ptd_rev (md_ops D)) s (md_pts \<alpha> s) s')"
    if "ptd_rev (md_ops D) s"
    using md_on_step[OF s, of "mp_getRevPts e" "\<lambda>ks. distinct ks \<and> List.set ks = {k. e \<in> md_pts \<alpha> s k}"]
      mp_getRevPts_ok[OF m, of e] s that
    by (simp add: md_ops_def pts md_getRevPts_def md_inv_def)
  show "wp (ptd_addPts (md_ops D) k e s) (\<lambda>(b, s'). (b \<longleftrightarrow> e \<notin> md_pts \<alpha> s k) \<and>
      pt_step (md_inv \<alpha> I) (md_pts \<alpha>) md_room (ptd_rev (md_ops D)) s ((md_pts \<alpha> s)(k := insert e (md_pts \<alpha> s k))) s')"
    if "ok e"
    by (simp add: md_ops_def pts, rule md_on_step[OF s], rule mp_addPts_ok[OF m that])
  show "wp (ptd_unionPts (md_ops D) k k' s) (\<lambda>(b, s'). (b \<longleftrightarrow> \<not> md_pts \<alpha> s k' \<subseteq> md_pts \<alpha> s k) \<and>
      pt_step (md_inv \<alpha> I) (md_pts \<alpha>) md_room (ptd_rev (md_ops D)) s
        ((md_pts \<alpha> s)(k := md_pts \<alpha> s k \<union> md_pts \<alpha> s k')) s')"
    by (simp add: md_ops_def pts, rule md_on_step[OF s], rule mp_unionPts_ok[OF m])
  show "wp (ptd_unionData (md_ops D) k d s) (\<lambda>(b, s'). (b \<longleftrightarrow> \<not> \<alpha> d \<subseteq> md_pts \<alpha> s k) \<and>
      pt_step (md_inv \<alpha> I) (md_pts \<alpha>) md_room (ptd_rev (md_ops D)) s ((md_pts \<alpha> s)(k := md_pts \<alpha> s k \<union> \<alpha> d)) s')"
    if "I d"
    by (simp add: md_ops_def pts, rule md_on_step[OF s], rule mp_unionData_ok[OF m that])
  show "wp (ptd_clearPts (md_ops D) k e s)
      (pt_step (md_inv \<alpha> I) (md_pts \<alpha>) md_room (ptd_rev (md_ops D)) s ((md_pts \<alpha> s)(k := md_pts \<alpha> s k - {e})))"
    if "ok e"
    by (simp add: md_ops_def pts, rule md_upd_step[OF s], rule mp_clearPts_ok[OF m that])
  show "wp (ptd_clearFullPts (md_ops D) k s)
      (pt_step (md_inv \<alpha> I) (md_pts \<alpha>) md_room (ptd_rev (md_ops D)) s ((md_pts \<alpha> s)(k := {})))"
    by (simp add: md_ops_def pts, rule md_upd_step[OF s], rule mp_clearFullPts_ok[OF m])
  have u: "wp (md_upd (mp_remapAllPts D) s) (pt_step (md_inv \<alpha> I) (md_pts \<alpha>) md_room md_rev s (md_pts \<alpha> s))"
    unfolding pts by (rule md_upd_step[OF s], rule mp_remapAllPts_ok[OF m])
  show "wp (ptd_remapAllPts (md_ops D) s)
      (pt_step (md_inv \<alpha> I) (md_pts \<alpha>) md_room (ptd_rev (md_ops D)) s (md_pts \<alpha> s))"
  proof -
    obtain t where t: "md_upd (mp_remapAllPts D) s = Some t" "md_inv \<alpha> I t" "md_pts \<alpha> t = md_pts \<alpha> s"
      "md_rev t = md_rev s" using u by (auto simp: wp_iff pt_step_def)
    have g: "map_inv I (md_diffPtsMap t)" and h: "map_inv I (md_propaPtsMap t)"
      using t(2) by (simp_all add: md_inv_def)
    show ?thesis
      using remap_map_ok[OF g] remap_map_ok[OF h] t
      by (auto simp: md_ops_def md_remapAllPts_def wp_iff pt_step_def md_inv_def md_pts_def md_room_def)
  qed
qed (simp add: md_room_def)

lemma md_computeDiffPts_ok:
  assumes "md_inv \<alpha> I s" "I d"
  shows "wp (md_computeDiffPts D k d s) (\<lambda>(b, s'). (b \<longleftrightarrow> \<not> \<alpha> d \<subseteq> md_propa \<alpha> s k) \<and>
    diff_step (md_inv \<alpha> I) (md_pts \<alpha>) (md_diff \<alpha>) (md_propa \<alpha>) md_room md_rev s
      ((md_diff \<alpha> s)(k := \<alpha> d - md_propa \<alpha> s k)) ((md_propa \<alpha> s)(k := \<alpha> d)) s')"
proof -
  have g: "map_inv I (md_diffPtsMap s)" and h: "map_inv I (md_propaPtsMap s)"
    using assms(1) by (simp_all add: md_inv_def)
  obtain r where r: "ds_icomp3 D (ds_clear D (aget (ds_new D) (md_diffPtsMap s) k)) d
      (aget (ds_new D) (md_propaPtsMap s) k) = Some r" "I r" "\<alpha> r = \<alpha> d - md_propa \<alpha> s k"
    using icomp3[OF clear(1)[OF map_aget(1)[OF g, of k]] assms(2) map_aget(1)[OF h, of k]] map_aget(2)[OF h, of k]
    by (auto simp: wp_iff md_propa_def)
  show ?thesis
    using md_diff_step[OF assms(1), of "aput k r (md_diffPtsMap s)" "aput k (ds_copy D d) (aref (ds_new D) (md_propaPtsMap s) k)"]
      r g map_aref[OF h] copy[OF assms(2)] empty[OF r(2)]
    by (simp add: md_computeDiffPts_def md_getPropaPts_def md_diff_def md_propa_def)
qed

lemma md_getDiffPts_ok:
  "md_inv \<alpha> I s \<Longrightarrow> case md_getDiffPts D k s of (d, s') \<Rightarrow> I d \<and> \<alpha> d = md_diff \<alpha> s k \<and>
    diff_step (md_inv \<alpha> I) (md_pts \<alpha>) (md_diff \<alpha>) (md_propa \<alpha>) md_room md_rev s (md_diff \<alpha> s) (md_propa \<alpha> s) s'"
  using md_diff_step[of \<alpha> I s "aref (ds_new D) (md_diffPtsMap s) k" "md_propaPtsMap s"]
  by (simp add: md_getDiffPts_def md_inv_def map_aget map_aref md_diff_def md_propa_def)

lemma md_clearPropaPts_ok:
  assumes "md_inv \<alpha> I s"
  shows "diff_step (md_inv \<alpha> I) (md_pts \<alpha>) (md_diff \<alpha>) (md_propa \<alpha>) md_room md_rev s
    (md_diff \<alpha> s) ((md_propa \<alpha> s)(k := {})) (md_clearPropaPts D k s)"
proof -
  have h: "map_inv I (md_propaPtsMap s)" using assms by (simp add: md_inv_def)
  show ?thesis
    using md_diff_step[OF assms, of "md_diffPtsMap s" "aput k (ds_clear D (aget (ds_new D) (md_propaPtsMap s) k))
        (aref (ds_new D) (md_propaPtsMap s) k)"] assms h map_aref[OF h, of k] clear[OF map_aget(1)[OF h]]
    by (simp add: md_clearPropaPts_def md_getPropaPts_def md_inv_def md_diff_def md_propa_def)
qed

lemma md_updatePropaPtsMap_ok:
  assumes "md_inv \<alpha> I s"
  shows "wp (md_updatePropaPtsMap D src dst s)
    (diff_step (md_inv \<alpha> I) (md_pts \<alpha>) (md_diff \<alpha>) (md_propa \<alpha>) md_room md_rev s
      (md_diff \<alpha> s) ((md_propa \<alpha> s)(dst := md_propa \<alpha> s dst \<inter> md_propa \<alpha> s src)))"
proof -
  have h: "map_inv I (md_propaPtsMap s)" using assms by (simp add: md_inv_def)
  let ?h1 = "aref (ds_new D) (md_propaPtsMap s) src"
  let ?h = "aref (ds_new D) ?h1 dst"
  have h2: "map_inv I ?h" "map_pts \<alpha> ?h = md_propa \<alpha> s"
    using map_aref[OF map_aref(1)[OF h]] map_aref(2)[OF h] by (simp_all add: md_propa_def)
  obtain ch r where r: "ds_and D (aget (ds_new D) ?h1 dst) (aget (ds_new D) (md_propaPtsMap s) src) = Some (ch, r)"
    "I r" "\<alpha> r = md_propa \<alpha> s dst \<inter> md_propa \<alpha> s src"
    using inter_into[OF map_aget(1)[OF h, of dst] map_aget(1)[OF h, of src]] map_aget(2)[OF h]
    by (auto simp: wp_iff md_propa_def)
  show ?thesis
    using md_diff_step[OF assms, of "md_diffPtsMap s" "aput dst r ?h"] h2 r assms
    by (simp add: md_updatePropaPtsMap_def md_getPropaPts_def md_inv_def md_diff_def)
qed

lemma md_diff_pt_data:
  "diff_pt_data (md_ops D) \<alpha> I ok (md_inv \<alpha> I) (md_pts \<alpha>) md_room (md_diff \<alpha>) (md_propa \<alpha>)"
proof (rule diff_pt_data.intro[OF md_pt_data diff_pt_data_axioms.intro])
  fix s :: "('k, 'e, 'd) mut_diff" and k
  assume s: "md_inv \<alpha> I s"
  show "wp (ptd_getDiffPts (md_ops D) k s) (\<lambda>(d, s'). I d \<and> \<alpha> d = md_diff \<alpha> s k \<and>
      diff_step (md_inv \<alpha> I) (md_pts \<alpha>) (md_diff \<alpha>) (md_propa \<alpha>) md_room (ptd_rev (md_ops D)) s
        (md_diff \<alpha> s) (md_propa \<alpha> s) s')"
    using md_getDiffPts_ok[OF s, of k] by (simp add: md_ops_def split_beta)
qed (simp_all add: md_ops_def md_computeDiffPts_ok md_updatePropaPtsMap_ok md_clearPropaPts_ok)

end

interpretation mut_diff: diff_pt_data "md_ops (pts_ops (initial_env SBV h))" "pts_of (initial_env SBV h)"
    "run_inv (initial_env SBV h)" "run_ok (initial_env SBV h)"
    "md_inv (pts_of (initial_env SBV h)) (run_inv (initial_env SBV h))"
    "md_pts (pts_of (initial_env SBV h))" md_room "md_diff (pts_of (initial_env SBV h))"
    "md_propa (pts_of (initial_env SBV h))" for h
  by (rule pts.md_diff_pt_data)

text \<open>\<^verbatim>\<open>clear\<close> empties the table and leaves the propagated sets, so what a key is given next is not a difference.\<close>

lemma md_clear_keeps_propa:
  "md_upd (\<lambda>m. Some (mp_clear m)) t = Some t' \<Longrightarrow>
   md_pts \<alpha> t' k = {} \<and> md_propa \<alpha> t' k = md_propa \<alpha> t k \<and> md_diff \<alpha> t' k = md_diff \<alpha> t k"
  by (auto simp: md_upd_def md_pts_def mp_pts_def mp_clear_def md_propa_def md_diff_def)

subsection \<open>\<^verbatim>\<open>MutableVersionedPTData\<close>\<close>

text \<open>
  One table for keys, one for versioned keys. The methods are overloaded on the kind of key, which
  is a sum here: \<open>Inl k\<close> is a \<^verbatim>\<open>Key\<close>, \<open>Inr vk\<close> a \<^verbatim>\<open>VersionedKey\<close>.
\<close>

record ('k, 'v, 'e, 'd) mut_versioned =
  mv_rev :: bool
  mv_tlPTData :: "('k, 'e, 'd) mut_ptd"
  mv_atPTData :: "('v, 'e, 'd) mut_ptd"

definition mv_new :: "bool \<Rightarrow> ('k, 'v, 'e, 'd) mut_versioned" where
  "mv_new reversePT = \<lparr>mv_rev = reversePT, mv_tlPTData = mp_new reversePT, mv_atPTData = mp_new reversePT\<rparr>"

definition mv_clear :: "('k, 'v, 'e, 'd) mut_versioned \<Rightarrow> ('k, 'v, 'e, 'd) mut_versioned" where
  "mv_clear t = t\<lparr>mv_tlPTData := mp_clear (mv_tlPTData t), mv_atPTData := mp_clear (mv_atPTData t)\<rparr>"

text \<open>A call on one of the two tables.\<close>

definition mv_tl :: "(('k, 'e, 'd) mut_ptd \<Rightarrow> ('a \<times> ('k, 'e, 'd) mut_ptd) option) \<Rightarrow>
    ('k, 'v, 'e, 'd) mut_versioned \<Rightarrow> ('a \<times> ('k, 'v, 'e, 'd) mut_versioned) option" where
  "mv_tl f t = do { (x, m) \<leftarrow> f (mv_tlPTData t); Some (x, t\<lparr>mv_tlPTData := m\<rparr>) }"

definition mv_at :: "(('v, 'e, 'd) mut_ptd \<Rightarrow> ('a \<times> ('v, 'e, 'd) mut_ptd) option) \<Rightarrow>
    ('k, 'v, 'e, 'd) mut_versioned \<Rightarrow> ('a \<times> ('k, 'v, 'e, 'd) mut_versioned) option" where
  "mv_at f t = do { (x, m) \<leftarrow> f (mv_atPTData t); Some (x, t\<lparr>mv_atPTData := m\<rparr>) }"

definition mv_getPts :: "('d, 'e) data_ops \<Rightarrow> 'k + 'v \<Rightarrow> ('k, 'v, 'e, 'd) mut_versioned \<Rightarrow> ('d \<times> ('k, 'v, 'e, 'd) mut_versioned) option" where
  "mv_getPts D x t = (case x of
     Inl k \<Rightarrow> mv_tl (\<lambda>m. Some (mp_getPts D k m)) t
   | Inr vk \<Rightarrow> mv_at (\<lambda>m. Some (mp_getPts D vk m)) t)"

definition mv_getRevPts :: "'e \<Rightarrow> ('k, 'v, 'e, 'd) mut_versioned \<Rightarrow> ('k list \<times> ('k, 'v, 'e, 'd) mut_versioned) option" where
  "mv_getRevPts datum t = do { ensure (mv_rev t); mv_tl (mp_getRevPts datum) t }"

definition mv_getVersionedKeyRevPts :: "'e \<Rightarrow> ('k, 'v, 'e, 'd) mut_versioned \<Rightarrow> ('v list \<times> ('k, 'v, 'e, 'd) mut_versioned) option" where
  "mv_getVersionedKeyRevPts datum t = do { ensure (mv_rev t); mv_at (mp_getRevPts datum) t }"

definition mv_addPts :: "('d, 'e) data_ops \<Rightarrow> 'k + 'v \<Rightarrow> 'e \<Rightarrow> ('k, 'v, 'e, 'd) mut_versioned \<Rightarrow> (bool \<times> ('k, 'v, 'e, 'd) mut_versioned) option" where
  "mv_addPts D x element t = (case x of
     Inl k \<Rightarrow> mv_tl (mp_addPts D k element) t
   | Inr vk \<Rightarrow> mv_at (mp_addPts D vk element) t)"

definition mv_unionData :: "('d, 'e) data_ops \<Rightarrow> 'k + 'v \<Rightarrow> 'd \<Rightarrow> ('k, 'v, 'e, 'd) mut_versioned \<Rightarrow> (bool \<times> ('k, 'v, 'e, 'd) mut_versioned) option" where
  "mv_unionData D dstVar srcDataSet t = (case dstVar of
     Inl k \<Rightarrow> mv_tl (mp_unionData D k srcDataSet) t
   | Inr vk \<Rightarrow> mv_at (mp_unionData D vk srcDataSet) t)"

definition mv_unionPts :: "('d, 'e) data_ops \<Rightarrow> 'k + 'v \<Rightarrow> 'k + 'v \<Rightarrow> ('k, 'v, 'e, 'd) mut_versioned \<Rightarrow> (bool \<times> ('k, 'v, 'e, 'd) mut_versioned) option" where
  "mv_unionPts D dstVar srcVar t = (case (dstVar, srcVar) of
     (Inl d, Inl s) \<Rightarrow> mv_tl (mp_unionPts D d s) t
   | (Inr d, Inr s) \<Rightarrow> mv_at (mp_unionPts D d s) t
   | (Inr d, Inl s) \<Rightarrow> do { (src, t) \<leftarrow> mv_getPts D (Inl s) t; mv_at (mp_unionData D d src) t }
   | (Inl d, Inr s) \<Rightarrow> do { (src, t) \<leftarrow> mv_getPts D (Inr s) t; mv_tl (mp_unionData D d src) t })"

definition mv_clearPts :: "('d, 'e) data_ops \<Rightarrow> 'k + 'v \<Rightarrow> 'e \<Rightarrow> ('k, 'v, 'e, 'd) mut_versioned \<Rightarrow> ('k, 'v, 'e, 'd) mut_versioned option" where
  "mv_clearPts D x element t = (case x of
     Inl k \<Rightarrow> do { m \<leftarrow> mp_clearPts D k element (mv_tlPTData t); Some (t\<lparr>mv_tlPTData := m\<rparr>) }
   | Inr vk \<Rightarrow> do { m \<leftarrow> mp_clearPts D vk element (mv_atPTData t); Some (t\<lparr>mv_atPTData := m\<rparr>) })"

definition mv_clearFullPts :: "('d, 'e) data_ops \<Rightarrow> 'k + 'v \<Rightarrow> ('k, 'v, 'e, 'd) mut_versioned \<Rightarrow> ('k, 'v, 'e, 'd) mut_versioned option" where
  "mv_clearFullPts D x t = (case x of
     Inl k \<Rightarrow> do { m \<leftarrow> mp_clearFullPts D k (mv_tlPTData t); Some (t\<lparr>mv_tlPTData := m\<rparr>) }
   | Inr vk \<Rightarrow> do { m \<leftarrow> mp_clearFullPts D vk (mv_atPTData t); Some (t\<lparr>mv_atPTData := m\<rparr>) })"

definition mv_remapAllPts :: "('d, 'e) data_ops \<Rightarrow> ('k, 'v, 'e, 'd) mut_versioned \<Rightarrow> ('k, 'v, 'e, 'd) mut_versioned option" where
  "mv_remapAllPts D t = do {
     m \<leftarrow> mp_remapAllPts D (mv_tlPTData t);
     let t = t\<lparr>mv_tlPTData := m\<rparr>;
     m \<leftarrow> mp_remapAllPts D (mv_atPTData t);
     Some (t\<lparr>mv_atPTData := m\<rparr>) }"

text \<open>Both kinds of keys that point to a datum.\<close>

definition mv_revPts :: "'e \<Rightarrow> ('k, 'v, 'e, 'd) mut_versioned \<Rightarrow> (('k + 'v) list \<times> ('k, 'v, 'e, 'd) mut_versioned) option" where
  "mv_revPts datum t = do {
     (ks, t) \<leftarrow> mv_getRevPts datum t;
     (vks, t) \<leftarrow> mv_getVersionedKeyRevPts datum t;
     Some (map Inl ks @ map Inr vks, t) }"

definition mv_ops :: "('d, 'e) data_ops \<Rightarrow> ('k + 'v, 'e, 'd, ('k, 'v, 'e, 'd) mut_versioned) ptd_ops" where
  "mv_ops D = \<lparr>ptd_rev = mv_rev, ptd_clear = (\<lambda>t. Some (mv_clear t)), ptd_getPts = mv_getPts D,
     ptd_getRevPts = mv_revPts, ptd_addPts = mv_addPts D, ptd_unionPts = mv_unionPts D,
     ptd_unionData = mv_unionData D, ptd_clearPts = mv_clearPts D, ptd_clearFullPts = mv_clearFullPts D,
     ptd_remapAllPts = mv_remapAllPts D\<rparr>"

definition mv_pts :: "('d \<Rightarrow> 'e set) \<Rightarrow> ('k, 'v, 'e, 'd) mut_versioned \<Rightarrow> 'k + 'v \<Rightarrow> 'e set" where
  "mv_pts \<alpha> t = case_sum (mp_pts \<alpha> (mv_tlPTData t)) (mp_pts \<alpha> (mv_atPTData t))"

definition mv_inv :: "('d \<Rightarrow> 'e set) \<Rightarrow> ('d \<Rightarrow> bool) \<Rightarrow> ('k, 'v, 'e, 'd) mut_versioned \<Rightarrow> bool" where
  "mv_inv \<alpha> I t \<longleftrightarrow> mp_inv \<alpha> I (mv_tlPTData t) \<and> mp_inv \<alpha> I (mv_atPTData t) \<and>
     mp_rev (mv_tlPTData t) = mv_rev t \<and> mp_rev (mv_atPTData t) = mv_rev t"

definition mv_room :: "('k, 'v, 'e, 'd) mut_versioned \<Rightarrow> nat \<Rightarrow> bool" where
  "mv_room t n = True"

lemma case_sum_upd:
  "case_sum (f(k := A)) g = (case_sum f g)(Inl k := A)" "case_sum f (g(v := A)) = (case_sum f g)(Inr v := A)"
  by (auto simp: fun_eq_iff split: sum.splits)

abbreviation mv_step :: "('d \<Rightarrow> 'e set) \<Rightarrow> ('d \<Rightarrow> bool) \<Rightarrow> ('k, 'v, 'e, 'd) mut_versioned \<Rightarrow> ('k + 'v \<Rightarrow> 'e set) \<Rightarrow>
    ('k, 'v, 'e, 'd) mut_versioned \<Rightarrow> bool" where
  "mv_step \<alpha> I \<equiv> pt_step (mv_inv \<alpha> I) (mv_pts \<alpha>) mv_room mv_rev"

lemma mv_tl_step:
  "mv_inv \<alpha> I t \<Longrightarrow> mp_step \<alpha> I (mv_tlPTData t) f m \<Longrightarrow>
   mv_step \<alpha> I t (case_sum f (mp_pts \<alpha> (mv_atPTData t))) (t\<lparr>mv_tlPTData := m\<rparr>)"
  by (simp add: pt_step_def mv_inv_def mv_pts_def mv_room_def)

lemma mv_at_step:
  "mv_inv \<alpha> I t \<Longrightarrow> mp_step \<alpha> I (mv_atPTData t) f m \<Longrightarrow>
   mv_step \<alpha> I t (case_sum (mp_pts \<alpha> (mv_tlPTData t)) f) (t\<lparr>mv_atPTData := m\<rparr>)"
  by (simp add: pt_step_def mv_inv_def mv_pts_def mv_room_def)

lemma mv_tl_ok:
  assumes "mv_inv \<alpha> I t" and "wp (f (mv_tlPTData t)) (\<lambda>(x, m'). Q x \<and> mp_step \<alpha> I (mv_tlPTData t) g m')"
    and "case_sum g (mp_pts \<alpha> (mv_atPTData t)) = h"
  shows "wp (mv_tl f t) (\<lambda>(x, t'). Q x \<and> mv_step \<alpha> I t h t')"
  using assms mv_tl_step[OF assms(1)] by (auto simp: mv_tl_def wp_iff)

lemma mv_at_ok:
  assumes "mv_inv \<alpha> I t" and "wp (f (mv_atPTData t)) (\<lambda>(x, m'). Q x \<and> mp_step \<alpha> I (mv_atPTData t) g m')"
    and "case_sum (mp_pts \<alpha> (mv_tlPTData t)) g = h"
  shows "wp (mv_at f t) (\<lambda>(x, t'). Q x \<and> mv_step \<alpha> I t h t')"
  using assms mv_at_step[OF assms(1)] by (auto simp: mv_at_def wp_iff)

lemma mv_tl_upd:
  assumes "mv_inv \<alpha> I t" and "wp (f (mv_tlPTData t)) (mp_step \<alpha> I (mv_tlPTData t) g)"
    and "case_sum g (mp_pts \<alpha> (mv_atPTData t)) = h"
  shows "wp (f (mv_tlPTData t)) (\<lambda>m. mv_step \<alpha> I t h (t\<lparr>mv_tlPTData := m\<rparr>))"
  using assms mv_tl_step[OF assms(1)] by (auto simp: wp_iff)

lemma mv_at_upd:
  assumes "mv_inv \<alpha> I t" and "wp (f (mv_atPTData t)) (mp_step \<alpha> I (mv_atPTData t) g)"
    and "case_sum (mp_pts \<alpha> (mv_tlPTData t)) g = h"
  shows "wp (f (mv_atPTData t)) (\<lambda>m. mv_step \<alpha> I t h (t\<lparr>mv_atPTData := m\<rparr>))"
  using assms mv_at_step[OF assms(1)] by (auto simp: wp_iff)

lemma mv_inv_parts:
  "mv_inv \<alpha> I t \<Longrightarrow> mp_inv \<alpha> I (mv_tlPTData t)" "mv_inv \<alpha> I t \<Longrightarrow> mp_inv \<alpha> I (mv_atPTData t)"
  "mv_inv \<alpha> I t \<Longrightarrow> mp_rev (mv_tlPTData t) = mv_rev t" "mv_inv \<alpha> I t \<Longrightarrow> mp_rev (mv_atPTData t) = mv_rev t"
  by (simp_all add: mv_inv_def)

lemma mv_new_ok [simp]: "mv_inv \<alpha> I (mv_new rv)" "mv_pts \<alpha> (mv_new rv) = (\<lambda>_. {})" "mv_rev (mv_new rv) = rv"
  by (auto simp: mv_inv_def mv_new_def mv_pts_def fun_eq_iff split: sum.splits)

lemma mv_pts_simps [simp]:
  "mv_pts \<alpha> t (Inl k) = mp_pts \<alpha> (mv_tlPTData t) k" "mv_pts \<alpha> t (Inr v) = mp_pts \<alpha> (mv_atPTData t) v"
  by (simp_all add: mv_pts_def)

context canonical_data_set
begin

lemma mv_getPts_ok:
  assumes s: "mv_inv \<alpha> I s"
  shows "wp (mv_getPts D x s) (\<lambda>(d, s'). (I d \<and> \<alpha> d = mv_pts \<alpha> s x) \<and> mv_step \<alpha> I s (mv_pts \<alpha> s) s')"
proof (cases x)
  case (Inl k)
  show ?thesis
    unfolding mv_getPts_def Inl sum.case
    by (rule mv_tl_ok[OF s, where g = "mp_pts \<alpha> (mv_tlPTData s)"])
      (use mp_getPts_ok[OF mv_inv_parts(1)[OF s], of k] in \<open>simp_all add: mv_pts_def split_beta\<close>)
next
  case (Inr k)
  show ?thesis
    unfolding mv_getPts_def Inr sum.case
    by (rule mv_at_ok[OF s, where g = "mp_pts \<alpha> (mv_atPTData s)"])
      (use mp_getPts_ok[OF mv_inv_parts(2)[OF s], of k] in \<open>simp_all add: mv_pts_def split_beta\<close>)
qed

lemma mv_addPts_ok:
  assumes s: "mv_inv \<alpha> I s" and e: "ok e"
  shows "wp (mv_addPts D x e s) (\<lambda>(b, s'). (b \<longleftrightarrow> e \<notin> mv_pts \<alpha> s x) \<and>
    mv_step \<alpha> I s ((mv_pts \<alpha> s)(x := insert e (mv_pts \<alpha> s x))) s')"
proof (cases x)
  case (Inl k)
  show ?thesis
    unfolding mv_addPts_def Inl sum.case mv_pts_simps
    by (rule mv_tl_ok[OF s], rule mp_addPts_ok[OF mv_inv_parts(1)[OF s] e]) (simp add: case_sum_upd mv_pts_def)
next
  case (Inr k)
  show ?thesis
    unfolding mv_addPts_def Inr sum.case mv_pts_simps
    by (rule mv_at_ok[OF s], rule mp_addPts_ok[OF mv_inv_parts(2)[OF s] e]) (simp add: case_sum_upd mv_pts_def)
qed

lemma mv_unionData_ok:
  assumes s: "mv_inv \<alpha> I s" and d: "I d"
  shows "wp (mv_unionData D x d s) (\<lambda>(b, s'). (b \<longleftrightarrow> \<not> \<alpha> d \<subseteq> mv_pts \<alpha> s x) \<and>
    mv_step \<alpha> I s ((mv_pts \<alpha> s)(x := mv_pts \<alpha> s x \<union> \<alpha> d)) s')"
proof (cases x)
  case (Inl k)
  show ?thesis
    unfolding mv_unionData_def Inl sum.case mv_pts_simps
    by (rule mv_tl_ok[OF s], rule mp_unionData_ok[OF mv_inv_parts(1)[OF s] d]) (simp add: case_sum_upd mv_pts_def)
next
  case (Inr k)
  show ?thesis
    unfolding mv_unionData_def Inr sum.case mv_pts_simps
    by (rule mv_at_ok[OF s], rule mp_unionData_ok[OF mv_inv_parts(2)[OF s] d]) (simp add: case_sum_upd mv_pts_def)
qed

lemma mv_step_trans:
  "mv_step \<alpha> I s (mv_pts \<alpha> s) s1 \<Longrightarrow> mv_step \<alpha> I s1 f s2 \<Longrightarrow> mv_step \<alpha> I s f s2"
  by (simp add: pt_step_def mv_room_def)

lemma mv_unionPts_ok:
  assumes s: "mv_inv \<alpha> I s"
  shows "wp (mv_unionPts D x y s) (\<lambda>(b, s'). (b \<longleftrightarrow> \<not> mv_pts \<alpha> s y \<subseteq> mv_pts \<alpha> s x) \<and>
    mv_step \<alpha> I s ((mv_pts \<alpha> s)(x := mv_pts \<alpha> s x \<union> mv_pts \<alpha> s y)) s')"
proof -
  have m: "mp_inv \<alpha> I (mv_tlPTData s)" "mp_inv \<alpha> I (mv_atPTData s)" using s by (simp_all add: mv_inv_def)
  obtain d s1 where s1: "mv_getPts D y s = Some (d, s1)" "I d" "\<alpha> d = mv_pts \<alpha> s y" "mv_inv \<alpha> I s1"
    "mv_pts \<alpha> s1 = mv_pts \<alpha> s" and st: "mv_step \<alpha> I s (mv_pts \<alpha> s) s1"
    using mv_getPts_ok[OF s, of y] by (auto simp: wp_iff pt_step_def)
  have cross: "wp (mv_unionData D x d s1) (\<lambda>(b, s'). (b \<longleftrightarrow> \<not> mv_pts \<alpha> s y \<subseteq> mv_pts \<alpha> s x) \<and>
      mv_step \<alpha> I s ((mv_pts \<alpha> s)(x := mv_pts \<alpha> s x \<union> mv_pts \<alpha> s y)) s')"
    by (rule wp_mono[OF mv_unionData_ok[OF s1(4,2), of x]]) (use s1 mv_step_trans[OF st] in auto)
  show ?thesis
  proof (cases x; cases y)
    fix k k' assume xy: "x = Inl k" "y = Inl k'"
    show ?thesis
      unfolding mv_unionPts_def xy prod.case sum.case mv_pts_simps
      by (rule mv_tl_ok[OF s], rule mp_unionPts_ok[OF m(1)]) (simp add: case_sum_upd mv_pts_def)
  next
    fix k k' assume xy: "x = Inr k" "y = Inr k'"
    show ?thesis
      unfolding mv_unionPts_def xy prod.case sum.case mv_pts_simps
      by (rule mv_at_ok[OF s], rule mp_unionPts_ok[OF m(2)]) (simp add: case_sum_upd mv_pts_def)
  next
    fix k k' assume xy: "x = Inl k" "y = Inr k'"
    then show ?thesis using cross s1(1) by (simp add: mv_unionPts_def mv_unionData_def)
  next
    fix k k' assume xy: "x = Inr k" "y = Inl k'"
    then show ?thesis using cross s1(1) by (simp add: mv_unionPts_def mv_unionData_def)
  qed
qed

lemma mv_clearPts_ok:
  assumes s: "mv_inv \<alpha> I s" and e: "ok e"
  shows "wp (mv_clearPts D x e s) (mv_step \<alpha> I s ((mv_pts \<alpha> s)(x := mv_pts \<alpha> s x - {e})))"
proof (cases x)
  case (Inl k)
  show ?thesis
    unfolding mv_clearPts_def Inl sum.case mv_pts_simps
    by (simp, rule mv_tl_upd[OF s], rule mp_clearPts_ok[OF mv_inv_parts(1)[OF s] e]) (auto simp: mv_pts_def fun_eq_iff split: sum.splits)
next
  case (Inr k)
  show ?thesis
    unfolding mv_clearPts_def Inr sum.case mv_pts_simps
    by (simp, rule mv_at_upd[OF s], rule mp_clearPts_ok[OF mv_inv_parts(2)[OF s] e]) (auto simp: mv_pts_def fun_eq_iff split: sum.splits)
qed

lemma mv_clearFullPts_ok:
  assumes s: "mv_inv \<alpha> I s"
  shows "wp (mv_clearFullPts D x s) (mv_step \<alpha> I s ((mv_pts \<alpha> s)(x := {})))"
proof (cases x)
  case (Inl k)
  show ?thesis
    unfolding mv_clearFullPts_def Inl sum.case mv_pts_simps
    by (simp, rule mv_tl_upd[OF s], rule mp_clearFullPts_ok[OF mv_inv_parts(1)[OF s]]) (auto simp: mv_pts_def fun_eq_iff split: sum.splits)
next
  case (Inr k)
  show ?thesis
    unfolding mv_clearFullPts_def Inr sum.case mv_pts_simps
    by (simp, rule mv_at_upd[OF s], rule mp_clearFullPts_ok[OF mv_inv_parts(2)[OF s]]) (auto simp: mv_pts_def fun_eq_iff split: sum.splits)
qed

lemma mv_revPts_ok:
  assumes s: "mv_inv \<alpha> I s" and rv: "mv_rev s"
  shows "wp (mv_revPts e s) (\<lambda>(xs, s'). (distinct xs \<and> List.set xs = {x. e \<in> mv_pts \<alpha> s x}) \<and> mv_step \<alpha> I s (mv_pts \<alpha> s) s')"
proof -
  have m: "mp_inv \<alpha> I (mv_tlPTData s)" "mp_rev (mv_tlPTData s)" using s rv by (simp_all add: mv_inv_def)
  have "wp (mv_getRevPts e s) (\<lambda>(ks, s'). (distinct ks \<and> List.set ks = {k. e \<in> mp_pts \<alpha> (mv_tlPTData s) k}) \<and>
      mv_step \<alpha> I s (mv_pts \<alpha> s) s')"
    by (simp only: mv_getRevPts_def rv ensure_True Option.bind.simps,
        rule mv_tl_ok[OF s, where g = "mp_pts \<alpha> (mv_tlPTData s)"])
      (use mp_getRevPts_ok[OF m, of e] in \<open>simp_all add: mv_pts_def\<close>)
  then obtain ks s1 where s1: "mv_getRevPts e s = Some (ks, s1)" "distinct ks"
    "List.set ks = {k. e \<in> mp_pts \<alpha> (mv_tlPTData s) k}" and st: "mv_step \<alpha> I s (mv_pts \<alpha> s) s1"
    by (auto simp: wp_iff)
  have s1': "mv_inv \<alpha> I s1" "mv_pts \<alpha> s1 = mv_pts \<alpha> s" "mv_rev s1" using st rv by (simp_all add: pt_step_def)
  then have m1: "mp_inv \<alpha> I (mv_atPTData s1)" "mp_rev (mv_atPTData s1)" by (simp_all add: mv_inv_def)
  have at: "mp_pts \<alpha> (mv_atPTData s1) k = mp_pts \<alpha> (mv_atPTData s) k" for k
    using fun_cong[OF s1'(2), of "Inr k"] by simp
  have "wp (mv_getVersionedKeyRevPts e s1) (\<lambda>(ks, s'). (distinct ks \<and> List.set ks = {k. e \<in> mp_pts \<alpha> (mv_atPTData s1) k}) \<and>
      mv_step \<alpha> I s1 (mv_pts \<alpha> s1) s')"
    by (simp only: mv_getVersionedKeyRevPts_def s1'(3) ensure_True Option.bind.simps,
        rule mv_at_ok[OF s1'(1), where g = "mp_pts \<alpha> (mv_atPTData s1)"])
      (use mp_getRevPts_ok[OF m1, of e] in \<open>simp_all add: mv_pts_def\<close>)
  then obtain vs s2 where s2: "mv_getVersionedKeyRevPts e s1 = Some (vs, s2)" "distinct vs"
    "List.set vs = {k. e \<in> mp_pts \<alpha> (mv_atPTData s) k}" "mv_step \<alpha> I s1 (mv_pts \<alpha> s1) s2"
    by (auto simp: wp_iff at)
  have "List.set (map Inl ks @ map Inr vs) = {x. e \<in> mv_pts \<alpha> s x}"
    unfolding set_append set_map s1(3) s2(3) by (rule set_eqI, rename_tac x, case_tac x) auto
  moreover have "distinct (map Inl ks @ map Inr vs)" using s1(2) s2(2) by (auto simp: distinct_map)
  moreover have "mv_step \<alpha> I s (mv_pts \<alpha> s) s2" using mv_step_trans[OF st] s2(4) s1'(2) by simp
  ultimately show ?thesis using s1(1) s2(1) by (simp add: mv_revPts_def)
qed

lemma mv_remapAllPts_ok:
  assumes s: "mv_inv \<alpha> I s"
  shows "wp (mv_remapAllPts D s) (mv_step \<alpha> I s (mv_pts \<alpha> s))"
proof -
  have m: "mp_inv \<alpha> I (mv_tlPTData s)" "mp_inv \<alpha> I (mv_atPTData s)" using s by (simp_all add: mv_inv_def)
  show ?thesis
    using mp_remapAllPts_ok[OF m(1)] mp_remapAllPts_ok[OF m(2)] s
    by (auto simp: mv_remapAllPts_def wp_iff pt_step_def mv_inv_def mv_pts_def mv_room_def)
qed

lemma mv_clear_ok: "mv_inv \<alpha> I s \<Longrightarrow> mv_step \<alpha> I s (\<lambda>_. {}) (mv_clear s)"
  using mp_clear_ok[of "mv_tlPTData s"] mp_clear_ok[of "mv_atPTData s"]
  by (auto simp: mv_clear_def pt_step_def mv_inv_def mv_pts_def mv_room_def fun_eq_iff split: sum.splits)

lemma mv_pt_data: "pt_data (mv_ops D) \<alpha> I ok (mv_inv \<alpha> I) (mv_pts \<alpha>) mv_room"
proof
  fix s :: "('k, 'v, 'e, 'd) mut_versioned" and x e
  assume s: "mv_inv \<alpha> I s"
  show "wp (ptd_getPts (mv_ops D) x s) (\<lambda>(d, s'). I d \<and> \<alpha> d = mv_pts \<alpha> s x \<and>
      pt_step (mv_inv \<alpha> I) (mv_pts \<alpha>) mv_room (ptd_rev (mv_ops D)) s (mv_pts \<alpha> s) s')"
    using mv_getPts_ok[OF s, of x] by (simp add: mv_ops_def)
  show "wp (ptd_getRevPts (mv_ops D) e s) (\<lambda>(xs, s'). distinct xs \<and> List.set xs = {x. e \<in> mv_pts \<alpha> s x} \<and>
      pt_step (mv_inv \<alpha> I) (mv_pts \<alpha>) mv_room (ptd_rev (mv_ops D)) s (mv_pts \<alpha> s) s')" if "ptd_rev (mv_ops D) s"
    using mv_revPts_ok[OF s, of e] that by (simp add: mv_ops_def)
qed (simp_all add: mv_ops_def mv_room_def mv_clear_ok mv_addPts_ok mv_unionPts_ok
      mv_unionData_ok mv_clearPts_ok mv_clearFullPts_ok mv_remapAllPts_ok)

end

interpretation mut_versioned: pt_data "mv_ops (pts_ops (initial_env SBV h))" "pts_of (initial_env SBV h)"
    "run_inv (initial_env SBV h)" "run_ok (initial_env SBV h)"
    "mv_inv (pts_of (initial_env SBV h)) (run_inv (initial_env SBV h))"
    "mv_pts (pts_of (initial_env SBV h))" mv_room for h
  by (rule pts.mv_pt_data)

end
