(* ===== verification/Persistent_PT_Data.thy ===== *)
theory Persistent_PT_Data
  imports Points_To_Cache Mutable_PT_Data
begin

text \<open>
  The persistent tables of \<^verbatim>\<open>svf/include/MemoryModel/PersistentPointsToDS.h\<close>: a table maps a key to
  the number of an interned set. The state of an operation is the cache, which several tables may
  share, and the table. \<open>pp_\<close> is \<^verbatim>\<open>PersistentPTData\<close>, \<open>pd_\<close> \<^verbatim>\<open>PersistentDiffPTData\<close>, \<open>pv_\<close>
  \<^verbatim>\<open>PersistentVersionedPTData\<close>. They meet the same contracts as the mutable tables, which makes
  the two implementations interchangeable.
\<close>

subsection \<open>\<^verbatim>\<open>PersistentPTData\<close>\<close>

record ('k, 'e) pers_ptd =
  pp_rev :: bool
  pp_ptsMap :: "('k \<times> nat) list"
  pp_revPtsMap :: "('e \<times> 'k list) list"

definition pp_new :: "bool \<Rightarrow> ('k, 'e) pers_ptd" where
  "pp_new reversePT = \<lparr>pp_rev = reversePT, pp_ptsMap = [], pp_revPtsMap = []\<rparr>"

definition pp_clear :: "('k, 'e) pers_ptd \<Rightarrow> ('k, 'e) pers_ptd" where
  "pp_clear t = t\<lparr>pp_ptsMap := [], pp_revPtsMap := []\<rparr>"

definition pp_getPts :: "'k \<Rightarrow> 'd pt_cache \<times> ('k, 'e) pers_ptd \<Rightarrow> ('d \<times> 'd pt_cache \<times> ('k, 'e) pers_ptd) option" where
  "pp_getPts var s = (case s of (c, t) \<Rightarrow> do {
     let i = aget 0 (pp_ptsMap t) var;
     let t = t\<lparr>pp_ptsMap := aref 0 (pp_ptsMap t) var\<rparr>;
     d \<leftarrow> pc_getActualPts i c;
     Some (d, c, t) })"

definition pp_getRevPts :: "'e \<Rightarrow> 'd pt_cache \<times> ('k, 'e) pers_ptd \<Rightarrow> ('k list \<times> 'd pt_cache \<times> ('k, 'e) pers_ptd) option" where
  "pp_getRevPts datum s = (case s of (c, t) \<Rightarrow> do {
     ensure (pp_rev t);
     Some (aget [] (pp_revPtsMap t) datum, c, t\<lparr>pp_revPtsMap := aref [] (pp_revPtsMap t) datum\<rparr>) })"

text \<open>\<^verbatim>\<open>SVFUtil::insertKey(k, revPtsMap[e])\<close> and \<^verbatim>\<open>clearSingleRevPts(revPtsMap[e], k)\<close>.\<close>

definition pp_insertRev :: "'k \<Rightarrow> 'e \<Rightarrow> ('k, 'e) pers_ptd \<Rightarrow> ('k, 'e) pers_ptd" where
  "pp_insertRev k e t =
    (let m = aref [] (pp_revPtsMap t) e in t\<lparr>pp_revPtsMap := aput e (insertKey k (aget [] m e)) m\<rparr>)"

definition pp_clearSingleRevPts :: "'e \<Rightarrow> 'k \<Rightarrow> ('k, 'e) pers_ptd \<Rightarrow> ('k, 'e) pers_ptd" where
  "pp_clearSingleRevPts e k t =
    (let m = aref [] (pp_revPtsMap t) e
     in t\<lparr>pp_revPtsMap := if pp_rev t then aput e (removeKey k (aget [] m e)) m else m\<rparr>)"

definition pp_clearRevPts :: "('d, 'e) data_ops \<Rightarrow> 'd \<Rightarrow> 'k \<Rightarrow> ('k, 'e) pers_ptd \<Rightarrow> ('k, 'e) pers_ptd option" where
  "pp_clearRevPts D pts k t =
    (if pp_rev t then do { es \<leftarrow> ds_elems D pts; Some (fold (\<lambda>e. pp_clearSingleRevPts e k) es t) }
     else Some t)"

definition pp_unionPtsFromId :: "('d, 'e) data_ops \<Rightarrow> 'k \<Rightarrow> nat \<Rightarrow> 'd pt_cache \<times> ('k, 'e) pers_ptd \<Rightarrow>
    (bool \<times> 'd pt_cache \<times> ('k, 'e) pers_ptd) option" where
  "pp_unionPtsFromId D dstKey srcId s = (case s of (c, t) \<Rightarrow> do {
     let dstId = aget 0 (pp_ptsMap t) dstKey;
     let t = t\<lparr>pp_ptsMap := aref 0 (pp_ptsMap t) dstKey\<rparr>;
     (newDstId, c) \<leftarrow> pc_unionPts D dstId srcId c;
     let changed = (newDstId \<noteq> dstId);
     if changed then do {
       let t = t\<lparr>pp_ptsMap := aput dstKey newDstId (pp_ptsMap t)\<rparr>;
       if pp_rev t then do {
         srcPts \<leftarrow> pc_getActualPts srcId c;
         es \<leftarrow> ds_elems D srcPts;
         Some (changed, c, fold (pp_insertRev dstKey) es t) }
       else Some (changed, c, t) }
     else Some (changed, c, t) })"

definition pp_addPts :: "('d, 'e) data_ops \<Rightarrow> 'k \<Rightarrow> 'e \<Rightarrow> 'd pt_cache \<times> ('k, 'e) pers_ptd \<Rightarrow>
    (bool \<times> 'd pt_cache \<times> ('k, 'e) pers_ptd) option" where
  "pp_addPts D dstKey element s = (case s of (c, t) \<Rightarrow> do {
     srcPts \<leftarrow> ds_set D (ds_new D) element;
     (srcId, c) \<leftarrow> pc_emplacePts D srcPts c;
     pp_unionPtsFromId D dstKey srcId (c, t) })"

definition pp_unionPts :: "('d, 'e) data_ops \<Rightarrow> 'k \<Rightarrow> 'k \<Rightarrow> 'd pt_cache \<times> ('k, 'e) pers_ptd \<Rightarrow>
    (bool \<times> 'd pt_cache \<times> ('k, 'e) pers_ptd) option" where
  "pp_unionPts D dstKey srcKey s = (case s of (c, t) \<Rightarrow>
     pp_unionPtsFromId D dstKey (aget 0 (pp_ptsMap t) srcKey)
       (c, t\<lparr>pp_ptsMap := aref 0 (pp_ptsMap t) srcKey\<rparr>))"

definition pp_unionData :: "('d, 'e) data_ops \<Rightarrow> 'k \<Rightarrow> 'd \<Rightarrow> 'd pt_cache \<times> ('k, 'e) pers_ptd \<Rightarrow>
    (bool \<times> 'd pt_cache \<times> ('k, 'e) pers_ptd) option" where
  "pp_unionData D dstKey srcData s = (case s of (c, t) \<Rightarrow> do {
     (srcId, c) \<leftarrow> pc_emplacePts D srcData c;
     pp_unionPtsFromId D dstKey srcId (c, t) })"

definition pp_clearPts :: "('d, 'e) data_ops \<Rightarrow> 'k \<Rightarrow> 'e \<Rightarrow> 'd pt_cache \<times> ('k, 'e) pers_ptd \<Rightarrow>
    ('d pt_cache \<times> ('k, 'e) pers_ptd) option" where
  "pp_clearPts D var element s = (case s of (c, t) \<Rightarrow> do {
     toRemoveData \<leftarrow> ds_set D (ds_new D) element;
     (toRemoveId, c) \<leftarrow> pc_emplacePts D toRemoveData c;
     let varId = aget 0 (pp_ptsMap t) var;
     let t = t\<lparr>pp_ptsMap := aref 0 (pp_ptsMap t) var\<rparr>;
     (complementId, c) \<leftarrow> pc_complementPts D varId toRemoveId c;
     if varId \<noteq> complementId then
       Some (c, pp_clearSingleRevPts element var (t\<lparr>pp_ptsMap := aput var complementId (pp_ptsMap t)\<rparr>))
     else Some (c, t) })"

definition pp_clearFullPts :: "('d, 'e) data_ops \<Rightarrow> 'k \<Rightarrow> 'd pt_cache \<times> ('k, 'e) pers_ptd \<Rightarrow>
    ('d pt_cache \<times> ('k, 'e) pers_ptd) option" where
  "pp_clearFullPts D var s = do {
     (pts, c, t) \<leftarrow> pp_getPts var s;
     t \<leftarrow> pp_clearRevPts D pts var t;
     Some (c, t\<lparr>pp_ptsMap := aput var emptyPointsToId (pp_ptsMap t)\<rparr>) }"

definition pp_remapAllPts :: "('d, 'e) data_ops \<Rightarrow> 'd pt_cache \<times> ('k, 'e) pers_ptd \<Rightarrow>
    ('d pt_cache \<times> ('k, 'e) pers_ptd) option" where
  "pp_remapAllPts D s = (case s of (c, t) \<Rightarrow> do { c \<leftarrow> pc_remapAllPts D c; Some (c, t) })"

text \<open>\<^verbatim>\<open>++allPts[ptCache.getActualPts(id)]\<close> for every key of a map, and \<^verbatim>\<open>getAllPts\<close>.\<close>

definition count_ids :: "('d, 'e) data_ops \<Rightarrow> 'd pt_cache \<Rightarrow> ('k \<times> nat) list \<Rightarrow> ('d \<times> nat) list \<Rightarrow> ('d \<times> nat) list option" where
  "count_ids D c m allPts =
    foldM (\<lambda>(k, i) allPts. do { d \<leftarrow> pc_getActualPts i c; count_pts D d allPts }) m allPts"

definition pp_getAllPts :: "('d, 'e) data_ops \<Rightarrow> bool \<Rightarrow> 'd pt_cache \<times> ('k, 'e) pers_ptd \<Rightarrow> ('d \<times> nat) list option" where
  "pp_getAllPts D liveOnly s = (case s of (c, t) \<Rightarrow>
     if liveOnly then count_ids D c (pp_ptsMap t) [] else pc_getAllPts D c)"

definition pp_ops :: "('d, 'e) data_ops \<Rightarrow> ('k, 'e, 'd, 'd pt_cache \<times> ('k, 'e) pers_ptd) ptd_ops" where
  "pp_ops D = \<lparr>ptd_rev = (\<lambda>(c, t). pp_rev t), ptd_clear = (\<lambda>(c, t). Some (c, pp_clear t)),
     ptd_getPts = pp_getPts, ptd_getRevPts = pp_getRevPts, ptd_addPts = pp_addPts D,
     ptd_unionPts = pp_unionPts D, ptd_unionData = pp_unionData D, ptd_clearPts = pp_clearPts D,
     ptd_clearFullPts = pp_clearFullPts D, ptd_remapAllPts = pp_remapAllPts D\<rparr>"

subsection \<open>What a table means over a cache\<close>

definition id_pts :: "('d \<Rightarrow> 'e set) \<Rightarrow> 'd pt_cache \<Rightarrow> ('k \<times> nat) list \<Rightarrow> 'k \<Rightarrow> 'e set" where
  "id_pts \<alpha> c m k = \<alpha> (pc_idToPts c ! aget 0 m k)"

definition id_inv :: "'d pt_cache \<Rightarrow> ('k \<times> nat) list \<Rightarrow> bool" where
  "id_inv c m \<longleftrightarrow> (\<forall>k. aget 0 m k < length (pc_idToPts c))"

definition pp_pts :: "('d \<Rightarrow> 'e set) \<Rightarrow> 'd pt_cache \<times> ('k, 'e) pers_ptd \<Rightarrow> 'k \<Rightarrow> 'e set" where
  "pp_pts \<alpha> s = (case s of (c, t) \<Rightarrow> id_pts \<alpha> c (pp_ptsMap t))"

definition pp_tab :: "('d \<Rightarrow> 'e set) \<Rightarrow> 'd pt_cache \<Rightarrow> ('k, 'e) pers_ptd \<Rightarrow> bool" where
  "pp_tab \<alpha> c t \<longleftrightarrow> id_inv c (pp_ptsMap t) \<and> rev_ok (pp_rev t) (pp_revPtsMap t) (id_pts \<alpha> c (pp_ptsMap t))"

definition pp_inv :: "('d \<Rightarrow> 'e set) \<Rightarrow> ('d \<Rightarrow> bool) \<Rightarrow> 'd pt_cache \<times> ('k, 'e) pers_ptd \<Rightarrow> bool" where
  "pp_inv \<alpha> I s \<longleftrightarrow> (case s of (c, t) \<Rightarrow> pc_inv \<alpha> I c \<and> pp_tab \<alpha> c t)"

text \<open>The 32-bit counter leaves room for \<open>n\<close> more sets.\<close>

definition pc_room :: "'d pt_cache \<Rightarrow> nat \<Rightarrow> bool" where
  "pc_room c n \<longleftrightarrow> length (pc_idToPts c) + n \<le> 2 ^ 32"

definition pp_room :: "'d pt_cache \<times> ('k, 'e) pers_ptd \<Rightarrow> nat \<Rightarrow> bool" where
  "pp_room s n \<longleftrightarrow> pc_room (fst s) n"

text \<open>Numbers keep their sets from one cache to the next; so tables keep their meaning.\<close>

definition pc_keeps :: "('d \<Rightarrow> 'e set) \<Rightarrow> 'd pt_cache \<Rightarrow> 'd pt_cache \<Rightarrow> bool" where
  "pc_keeps \<alpha> c c' \<longleftrightarrow> (\<forall>i S. pc_has \<alpha> c i S \<longrightarrow> pc_has \<alpha> c' i S)"

lemma pc_keeps_ext: "pc_ext c c' \<Longrightarrow> pc_keeps \<alpha> c c'"
  by (simp add: pc_keeps_def pc_has_ext)

lemma pc_keeps_refl [simp]: "pc_keeps \<alpha> c c"
  by (simp add: pc_keeps_def)

lemma pc_keeps_trans: "pc_keeps \<alpha> c c1 \<Longrightarrow> pc_keeps \<alpha> c1 c2 \<Longrightarrow> pc_keeps \<alpha> c c2"
  by (simp add: pc_keeps_def)

lemma id_has: "id_inv c m \<Longrightarrow> pc_has \<alpha> c (aget 0 m k) (id_pts \<alpha> c m k)"
  by (simp add: id_inv_def id_pts_def pc_has_def)

lemma id_keeps:
  assumes "id_inv c m" "pc_keeps \<alpha> c c'"
  shows "id_inv c' m" "id_pts \<alpha> c' m = id_pts \<alpha> c m"
proof -
  have "pc_has \<alpha> c' (aget 0 m k) (id_pts \<alpha> c m k)" for k
    using id_has[OF assms(1), of \<alpha> k] assms(2) by (simp add: pc_keeps_def)
  then show "id_inv c' m" "id_pts \<alpha> c' m = id_pts \<alpha> c m"
    by (auto simp: id_inv_def id_pts_def pc_has_def)
qed

lemma id_upd:
  assumes "id_inv c m" "pc_has \<alpha> c i S"
  shows "id_inv c (aput k i m)" "id_pts \<alpha> c (aput k i m) = (id_pts \<alpha> c m)(k := S)"
  using assms by (auto simp: id_inv_def id_pts_def pc_has_def fun_eq_iff)

lemma id_aref [simp]: "id_inv c (aref 0 m k) \<longleftrightarrow> id_inv c m" "id_pts \<alpha> c (aref 0 m k) = id_pts \<alpha> c m"
  by (simp_all add: id_inv_def id_pts_def fun_eq_iff)

lemma pp_tab_keeps: "pp_tab \<alpha> c t \<Longrightarrow> pc_keeps \<alpha> c c' \<Longrightarrow> pp_tab \<alpha> c' t"
  by (auto simp: pp_tab_def id_keeps(1)[of c "pp_ptsMap t" \<alpha> c'] id_keeps(2)[of c "pp_ptsMap t" \<alpha> c'])

lemma id_Nil [simp]: "pc_inv \<alpha> I c \<Longrightarrow> id_inv c []" "pc_inv \<alpha> I c \<Longrightarrow> id_pts \<alpha> c [] = (\<lambda>_. {})"
  using pc_has_empty[of \<alpha> I c] by (auto simp: id_inv_def id_pts_def pc_has_def emptyPointsToId_def)

text \<open>A step on one table that adds at most \<open>n\<close> sets to the cache.\<close>

definition pp_stepn :: "('d \<Rightarrow> 'e set) \<Rightarrow> ('d \<Rightarrow> bool) \<Rightarrow> nat \<Rightarrow> 'd pt_cache \<times> ('k, 'e) pers_ptd \<Rightarrow> ('k \<Rightarrow> 'e set) \<Rightarrow>
    'd pt_cache \<times> ('k, 'e) pers_ptd \<Rightarrow> bool" where
  "pp_stepn \<alpha> I n s f s' \<longleftrightarrow> pp_inv \<alpha> I s' \<and> pp_pts \<alpha> s' = f \<and> pp_rev (snd s') = pp_rev (snd s) \<and>
     pc_keeps \<alpha> (fst s) (fst s') \<and> length (pc_idToPts (fst s')) \<le> length (pc_idToPts (fst s)) + n"

abbreviation pp_step :: "('d \<Rightarrow> 'e set) \<Rightarrow> ('d \<Rightarrow> bool) \<Rightarrow> 'd pt_cache \<times> ('k, 'e) pers_ptd \<Rightarrow> ('k \<Rightarrow> 'e set) \<Rightarrow>
    'd pt_cache \<times> ('k, 'e) pers_ptd \<Rightarrow> bool" where
  "pp_step \<alpha> I \<equiv> pt_step (pp_inv \<alpha> I) (pp_pts \<alpha>) pp_room (\<lambda>(c, t). pp_rev t)"

lemma pp_stepn_step: "pp_stepn \<alpha> I n s f s' \<Longrightarrow> n \<le> 2 \<Longrightarrow> pp_step \<alpha> I s f s'"
  by (auto simp: pp_stepn_def pt_step_def pp_room_def pc_room_def split_beta)

lemma pp_stepn_trans:
  "pp_stepn \<alpha> I m s (pp_pts \<alpha> s) s1 \<Longrightarrow> pp_stepn \<alpha> I n s1 f s2 \<Longrightarrow> pp_stepn \<alpha> I (m + n) s f s2"
  by (auto simp: pp_stepn_def intro: pc_keeps_trans)

lemma pp_insertRev_simps [simp]:
  "pp_rev (pp_insertRev k e t) = pp_rev t" "pp_ptsMap (pp_insertRev k e t) = pp_ptsMap t"
  "aget [] (pp_revPtsMap (pp_insertRev k e t)) x =
     (if x = e then insertKey k (aget [] (pp_revPtsMap t) x) else aget [] (pp_revPtsMap t) x)"
  by (auto simp: pp_insertRev_def Let_def)

lemma pp_clearSingleRevPts_simps [simp]:
  "pp_rev (pp_clearSingleRevPts e k t) = pp_rev t" "pp_ptsMap (pp_clearSingleRevPts e k t) = pp_ptsMap t"
  "pp_rev t \<Longrightarrow> aget [] (pp_revPtsMap (pp_clearSingleRevPts e k t)) x =
     (if x = e then removeKey k (aget [] (pp_revPtsMap t) x) else aget [] (pp_revPtsMap t) x)"
  by (auto simp: pp_clearSingleRevPts_def Let_def)

lemma fold_pp_insertRev:
  "pp_rev (fold (pp_insertRev k) es t) = pp_rev t" "pp_ptsMap (fold (pp_insertRev k) es t) = pp_ptsMap t"
  "aget [] (pp_revPtsMap (fold (pp_insertRev k) es t)) x =
     (if x \<in> set es then insertKey k (aget [] (pp_revPtsMap t) x) else aget [] (pp_revPtsMap t) x)"
  by (induction es arbitrary: t) auto

lemma fold_pp_clearSingleRevPts:
  "pp_rev (fold (\<lambda>e. pp_clearSingleRevPts e k) es t) = pp_rev t"
  "pp_ptsMap (fold (\<lambda>e. pp_clearSingleRevPts e k) es t) = pp_ptsMap t"
  "pp_rev t \<Longrightarrow> aget [] (pp_revPtsMap (fold (\<lambda>e. pp_clearSingleRevPts e k) es t)) x =
     (if x \<in> set es then removeKey k (aget [] (pp_revPtsMap t) x) else aget [] (pp_revPtsMap t) x)"
  by (induction es arbitrary: t) auto

lemma pp_inv_parts:
  "pp_inv \<alpha> I (c, t) \<Longrightarrow> pc_inv \<alpha> I c" "pp_inv \<alpha> I (c, t) \<Longrightarrow> id_inv c (pp_ptsMap t)"
  "pp_inv \<alpha> I (c, t) \<Longrightarrow> rev_ok (pp_rev t) (pp_revPtsMap t) (pp_pts \<alpha> (c, t))"
  by (simp_all add: pp_inv_def pp_tab_def pp_pts_def)

lemma pp_stepnI:
  "pc_inv \<alpha> I c' \<Longrightarrow> pc_keeps \<alpha> c c' \<Longrightarrow> length (pc_idToPts c') \<le> length (pc_idToPts c) + n \<Longrightarrow>
   id_inv c' (pp_ptsMap t') \<Longrightarrow> id_pts \<alpha> c' (pp_ptsMap t') = f \<Longrightarrow> pp_rev t' = pp_rev t \<Longrightarrow>
   rev_ok (pp_rev t) (pp_revPtsMap t') f \<Longrightarrow> pp_stepn \<alpha> I n (c, t) f (c', t')"
  by (simp add: pp_stepn_def pp_inv_def pp_tab_def pp_pts_def)

context canonical_data_set
begin

lemma cache_step:
  "pc_result \<alpha> I c S (i, c') \<Longrightarrow>
   pc_inv \<alpha> I c' \<and> pc_keeps \<alpha> c c' \<and> pc_has \<alpha> c' i S \<and> length (pc_idToPts c') \<le> length (pc_idToPts c) + 1"
  by (simp add: pc_result_def pc_keeps_ext)

lemma pp_unionPtsFromId_ok:
  assumes inv: "pp_inv \<alpha> I (c, t)" and src: "pc_has \<alpha> c i S" and room: "pc_room c 1"
  shows "wp (pp_unionPtsFromId D k i (c, t)) (\<lambda>(b, s'). (b \<longleftrightarrow> \<not> S \<subseteq> pp_pts \<alpha> (c, t) k) \<and>
    pp_stepn \<alpha> I 1 (c, t) ((pp_pts \<alpha> (c, t))(k := pp_pts \<alpha> (c, t) k \<union> S)) s')"
proof -
  note p = pp_inv_parts[OF inv]
  let ?j = "aget 0 (pp_ptsMap t) k" and ?T = "pp_pts \<alpha> (c, t) k"
  have dst: "pc_has \<alpha> c ?j ?T" using id_has[OF p(2)] by (simp add: pp_pts_def)
  have len: "length (pc_idToPts c) < 2 ^ 32" using room by (simp add: pc_room_def)
  obtain r c1 where r: "pc_unionPts D ?j i c = Some (r, c1)" "pc_result \<alpha> I c (?T \<union> S) (r, c1)"
    using unionPts_ok[OF p(1) len dst src] by (auto simp: wp_iff)
  note c1 = cache_step[OF r(2)]
  have k1: "id_inv c1 (pp_ptsMap t)" "id_pts \<alpha> c1 (pp_ptsMap t) = pp_pts \<alpha> (c, t)"
    using id_keeps[OF p(2), of \<alpha> c1] c1 by (simp_all add: pp_pts_def)
  have flag: "r \<noteq> ?j \<longleftrightarrow> \<not> S \<subseteq> ?T"
    using pc_has_inject[of \<alpha> I c1 r "?T \<union> S" ?j ?T] c1 dst by (auto simp: pc_keeps_def)
  show ?thesis
  proof (cases "r = ?j")
    case True
    moreover have "(pp_pts \<alpha> (c, t))(k := ?T \<union> S) = pp_pts \<alpha> (c, t)"
      using flag True by (simp add: Un_absorb2)
    ultimately show ?thesis
      using r(1) flag c1 k1 p(3) by (simp add: pp_unionPtsFromId_def pp_stepnI)
  next
    case False
    have upd: "id_inv c1 (aput k r (aref 0 (pp_ptsMap t) k))"
      "id_pts \<alpha> c1 (aput k r (aref 0 (pp_ptsMap t) k)) = (pp_pts \<alpha> (c, t))(k := ?T \<union> S)"
      using id_upd[of c1 "aref 0 (pp_ptsMap t) k" \<alpha> r "?T \<union> S" k] k1 c1 by simp_all
    have ins: "rev_ok (pp_rev t) rm ((pp_pts \<alpha> (c, t))(k := ?T \<union> S))"
      if "\<And>e. pp_rev t \<Longrightarrow> aget [] rm e = (if e \<in> S then insertKey k (aget [] (pp_revPtsMap t) e) else aget [] (pp_revPtsMap t) e)"
      for rm using rev_ok_insert[OF p(3), of rm S k] that by simp
    obtain d es where d: "pc_getActualPts i c1 = Some d" "ds_elems D d = Some es" "List.set es = S"
      using pc_getActualPts_ok[of \<alpha> I c1 i S] c1 src elems by (fastforce simp: wp_iff pc_keeps_def)
    show ?thesis
    proof (cases "pp_rev t")
      case rv: True
      have rvm: "rev_ok True (pp_revPtsMap (fold (pp_insertRev k) es
          (t\<lparr>pp_ptsMap := aput k r (aref 0 (pp_ptsMap t) k)\<rparr>))) ((pp_pts \<alpha> (c, t))(k := ?T \<union> S))"
        using ins[of "pp_revPtsMap (fold (pp_insertRev k) es (t\<lparr>pp_ptsMap := aput k r (aref 0 (pp_ptsMap t) k)\<rparr>))"]
          rv d(3) by (simp add: fold_pp_insertRev)
      show ?thesis
        using r(1) False flag rv d c1 upd rvm
        by (simp add: pp_unionPtsFromId_def fold_pp_insertRev pp_stepnI)
    next
      case rv: False
      show ?thesis
        using r(1) False flag rv c1 upd by (simp add: pp_unionPtsFromId_def pp_stepnI rev_ok_def)
    qed
  qed
qed

end

context canonical_data_set
begin

text \<open>The set of one element, and the number of a set.\<close>

lemma singleton_ok: "ok e \<Longrightarrow> wp (ds_set D (ds_new D) e) (\<lambda>d. I d \<and> \<alpha> d = {e})"
  using set[OF new(1)] new(2) by (auto simp: wp_iff)

lemma emplace_step:
  assumes "pp_inv \<alpha> I (c, t)" "I d" "pc_room c 1"
  shows "wp (pc_emplacePts D d c) (\<lambda>(i, c1). pc_has \<alpha> c1 i (\<alpha> d) \<and> pp_stepn \<alpha> I 1 (c, t) (pp_pts \<alpha> (c, t)) (c1, t))"
proof -
  note p = pp_inv_parts[OF assms(1)]
  have len: "length (pc_idToPts c) < 2 ^ 32" using assms(3) by (simp add: pc_room_def)
  obtain i c1 where c1: "pc_emplacePts D d c = Some (i, c1)" "pc_result \<alpha> I c (\<alpha> d) (i, c1)"
    using emplacePts_ok[OF p(1) assms(2) len] by (auto simp: wp_iff)
  note st = cache_step[OF c1(2)]
  have "pp_stepn \<alpha> I 1 (c, t) (pp_pts \<alpha> (c, t)) (c1, t)"
    using id_keeps[OF p(2), of \<alpha> c1] st p by (intro pp_stepnI) (simp_all add: pp_pts_def)
  then show ?thesis using c1(1) st by simp
qed

lemma pc_room_stepn: "pp_stepn \<alpha> I m s f s' \<Longrightarrow> pc_room (fst s) (m + n) \<Longrightarrow> pc_room (fst s') n"
  by (simp add: pp_stepn_def pc_room_def)

lemma pp_unionData_ok:
  assumes inv: "pp_inv \<alpha> I (c, t)" and d: "I d" and room: "pc_room c 2"
  shows "wp (pp_unionData D k d (c, t)) (\<lambda>(b, s'). (b \<longleftrightarrow> \<not> \<alpha> d \<subseteq> pp_pts \<alpha> (c, t) k) \<and>
    pp_stepn \<alpha> I 2 (c, t) ((pp_pts \<alpha> (c, t))(k := pp_pts \<alpha> (c, t) k \<union> \<alpha> d)) s')"
proof -
  have r1: "pc_room c 1" using room by (simp add: pc_room_def)
  obtain i c1 where e: "pc_emplacePts D d c = Some (i, c1)" "pc_has \<alpha> c1 i (\<alpha> d)"
    "pp_stepn \<alpha> I 1 (c, t) (pp_pts \<alpha> (c, t)) (c1, t)"
    using emplace_step[OF inv d r1] by (auto simp: wp_iff)
  have c1: "pp_inv \<alpha> I (c1, t)" "pp_pts \<alpha> (c1, t) = pp_pts \<alpha> (c, t)" "pc_room c1 1"
    using e(3) pc_room_stepn[OF e(3), of 1] room by (simp_all add: pp_stepn_def numeral_2_eq_2)
  show ?thesis
    using e(1) pp_unionPtsFromId_ok[OF c1(1) e(2) c1(3), of k] pp_stepn_trans[OF e(3)] c1(2)
    by (fastforce simp: pp_unionData_def wp_iff numeral_2_eq_2)
qed

lemma pp_addPts_eq: "pp_addPts D k e s = do { d \<leftarrow> ds_set D (ds_new D) e; pp_unionData D k d s }"
  by (simp add: pp_addPts_def pp_unionData_def split_beta)

lemma pp_addPts_ok:
  assumes inv: "pp_inv \<alpha> I (c, t)" and e: "ok e" and room: "pc_room c 2"
  shows "wp (pp_addPts D k e (c, t)) (\<lambda>(b, s'). (b \<longleftrightarrow> e \<notin> pp_pts \<alpha> (c, t) k) \<and>
    pp_stepn \<alpha> I 2 (c, t) ((pp_pts \<alpha> (c, t))(k := insert e (pp_pts \<alpha> (c, t) k))) s')"
proof -
  obtain d where d: "ds_set D (ds_new D) e = Some d" "I d" "\<alpha> d = {e}"
    using singleton_ok[OF e] by (auto simp: wp_iff)
  show ?thesis using pp_unionData_ok[OF inv d(2) room, of k] d by (simp add: pp_addPts_eq)
qed

lemma pp_unionPts_ok:
  assumes inv: "pp_inv \<alpha> I (c, t)" and room: "pc_room c 1"
  shows "wp (pp_unionPts D k k' (c, t)) (\<lambda>(b, s'). (b \<longleftrightarrow> \<not> pp_pts \<alpha> (c, t) k' \<subseteq> pp_pts \<alpha> (c, t) k) \<and>
    pp_stepn \<alpha> I 1 (c, t) ((pp_pts \<alpha> (c, t))(k := pp_pts \<alpha> (c, t) k \<union> pp_pts \<alpha> (c, t) k')) s')"
proof -
  let ?t = "t\<lparr>pp_ptsMap := aref 0 (pp_ptsMap t) k'\<rparr>"
  note p = pp_inv_parts[OF inv]
  have t: "pp_inv \<alpha> I (c, ?t)" "pp_pts \<alpha> (c, ?t) = pp_pts \<alpha> (c, t)"
    using p by (simp_all add: pp_inv_def pp_tab_def pp_pts_def)
  have src: "pc_has \<alpha> c (aget 0 (pp_ptsMap t) k') (pp_pts \<alpha> (c, t) k')"
    using id_has[OF p(2)] by (simp add: pp_pts_def)
  show ?thesis
    using pp_unionPtsFromId_ok[OF t(1) src room, of k] t(2) by (simp add: pp_unionPts_def pp_stepn_def)
qed

lemma pp_clearPts_ok:
  assumes inv: "pp_inv \<alpha> I (c, t)" and e: "ok e" and room: "pc_room c 2"
  shows "wp (pp_clearPts D k e (c, t)) (pp_stepn \<alpha> I 2 (c, t) ((pp_pts \<alpha> (c, t))(k := pp_pts \<alpha> (c, t) k - {e})))"
proof -
  have r1: "pc_room c 1" using room by (simp add: pc_room_def)
  obtain d where d: "ds_set D (ds_new D) e = Some d" "I d" "\<alpha> d = {e}"
    using singleton_ok[OF e] by (auto simp: wp_iff)
  obtain i c1 where em: "pc_emplacePts D d c = Some (i, c1)" "pc_has \<alpha> c1 i {e}"
    "pp_stepn \<alpha> I 1 (c, t) (pp_pts \<alpha> (c, t)) (c1, t)"
    using emplace_step[OF inv d(2) r1] d(3) by (auto simp: wp_iff)
  have c1: "pp_inv \<alpha> I (c1, t)" "pp_pts \<alpha> (c1, t) = pp_pts \<alpha> (c, t)" "length (pc_idToPts c1) < 2 ^ 32"
    using em(3) pc_room_stepn[OF em(3), of 1] room by (simp_all add: pp_stepn_def pc_room_def)
  note p = pp_inv_parts[OF c1(1)]
  let ?j = "aget 0 (pp_ptsMap t) k" and ?T = "pp_pts \<alpha> (c, t) k"
  have var: "pc_has \<alpha> c1 ?j ?T" using id_has[OF p(2), of \<alpha> k] c1(2) by (simp add: pp_pts_def)
  obtain r c2 where r: "pc_complementPts D ?j i c1 = Some (r, c2)" "pc_result \<alpha> I c1 (?T - {e}) (r, c2)"
    using complementPts_ok[OF p(1) c1(3) var em(2)] by (auto simp: wp_iff)
  note c2 = cache_step[OF r(2)]
  have k2: "id_inv c2 (pp_ptsMap t)" "id_pts \<alpha> c2 (pp_ptsMap t) = pp_pts \<alpha> (c, t)"
    using id_keeps[OF p(2), of \<alpha> c2] c2 c1(2) by (simp_all add: pp_pts_def)
  have flag: "r = ?j \<longleftrightarrow> ?T - {e} = ?T"
    using pc_has_inject[of \<alpha> I c2 r "?T - {e}" ?j ?T] c2 var by (auto simp: pc_keeps_def)
  have upd: "id_inv c2 (aput k r (aref 0 (pp_ptsMap t) k))"
    "id_pts \<alpha> c2 (aput k r (aref 0 (pp_ptsMap t) k)) = (pp_pts \<alpha> (c, t))(k := ?T - {e})"
    using id_upd[of c2 "aref 0 (pp_ptsMap t) k" \<alpha> r "?T - {e}" k] k2 c2 by simp_all
  have rv: "rev_ok (pp_rev t) (pp_revPtsMap (pp_clearSingleRevPts e k t')) ((pp_pts \<alpha> (c, t))(k := ?T - {e}))"
    if "pp_rev t' = pp_rev t" "pp_revPtsMap t' = pp_revPtsMap t" for t'
    by (rule rev_ok_remove[of _ "pp_revPtsMap t"]) (use p(3) c1(2) that in simp_all)
  have st: "pp_stepn \<alpha> I 1 (c1, t) ((pp_pts \<alpha> (c, t))(k := ?T - {e}))
     (c2, if r = ?j then t\<lparr>pp_ptsMap := aref 0 (pp_ptsMap t) k\<rparr>
          else pp_clearSingleRevPts e k (t\<lparr>pp_ptsMap := aput k r (aref 0 (pp_ptsMap t) k)\<rparr>))"
    using c2 upd rv k2 p(3) c1(2) flag by (cases "r = ?j") (simp_all add: pp_stepnI)
  show ?thesis
    using pp_stepn_trans[OF em(3) st] d(1) em(1) r(1)
    by (auto simp: pp_clearPts_def numeral_2_eq_2)
qed

lemma pp_getPts_ok:
  assumes "pp_inv \<alpha> I s"
  shows "wp (pp_getPts k s) (\<lambda>(d, s'). (I d \<and> \<alpha> d = pp_pts \<alpha> s k) \<and> pp_stepn \<alpha> I 0 s (pp_pts \<alpha> s) s')"
proof -
  obtain c t where s: "s = (c, t)" by fastforce
  note p = pp_inv_parts[OF assms[unfolded s]]
  have "pc_has \<alpha> c (aget 0 (pp_ptsMap t) k) (pp_pts \<alpha> (c, t) k)"
    using id_has[OF p(2)] by (simp add: pp_pts_def)
  from pc_getActualPts_ok[OF p(1) this] show ?thesis
    using p by (auto simp: s pp_getPts_def wp_iff pp_pts_def intro!: pp_stepnI)
qed

lemma pp_getRevPts_ok:
  assumes "pp_inv \<alpha> I s" "pp_rev (snd s)"
  shows "wp (pp_getRevPts e s) (\<lambda>(ks, s'). (distinct ks \<and> List.set ks = {k. e \<in> pp_pts \<alpha> s k}) \<and>
    pp_stepn \<alpha> I 0 s (pp_pts \<alpha> s) s')"
proof -
  obtain c t where s: "s = (c, t)" by fastforce
  note p = pp_inv_parts[OF assms(1)[unfolded s]]
  have "pp_stepn \<alpha> I 0 (c, t) (pp_pts \<alpha> (c, t)) (c, t\<lparr>pp_revPtsMap := aref [] (pp_revPtsMap t) e\<rparr>)"
    using p by (intro pp_stepnI) (simp_all add: pp_pts_def rev_ok_def)
  then show ?thesis using p(3) assms(2) by (simp add: s pp_getRevPts_def rev_ok_def)
qed

lemma pp_clearRevPts_ok:
  assumes "rev_ok (pp_rev t) (pp_revPtsMap t) f" "I d"
  shows "wp (pp_clearRevPts D d k t) (\<lambda>t'. pp_rev t' = pp_rev t \<and> pp_ptsMap t' = pp_ptsMap t \<and>
    rev_ok (pp_rev t) (pp_revPtsMap t') (f(k := f k - \<alpha> d)))"
proof (cases "pp_rev t")
  case True
  obtain es where es: "ds_elems D d = Some es" "List.set es = \<alpha> d"
    using elems[OF assms(2)] by (auto simp: wp_iff)
  have "rev_ok (pp_rev t) (pp_revPtsMap (fold (\<lambda>e. pp_clearSingleRevPts e k) es t)) (f(k := f k - \<alpha> d))"
    by (rule rev_ok_remove[of _ "pp_revPtsMap t"])
      (use assms(1) True in \<open>simp_all add: fold_pp_clearSingleRevPts es(2)\<close>)
  then show ?thesis using True es(1) by (simp add: pp_clearRevPts_def fold_pp_clearSingleRevPts)
qed (simp add: pp_clearRevPts_def rev_ok_def)

lemma pp_clearFullPts_ok:
  assumes "pp_inv \<alpha> I s"
  shows "wp (pp_clearFullPts D k s) (pp_stepn \<alpha> I 0 s ((pp_pts \<alpha> s)(k := {})))"
proof -
  obtain d c t where g: "pp_getPts k s = Some (d, c, t)" "I d" "\<alpha> d = pp_pts \<alpha> s k"
    "pp_stepn \<alpha> I 0 s (pp_pts \<alpha> s) (c, t)"
    using pp_getPts_ok[OF assms, of k] by (auto simp: wp_iff)
  have ct: "pp_inv \<alpha> I (c, t)" "pp_pts \<alpha> (c, t) = pp_pts \<alpha> s" using g(4) by (simp_all add: pp_stepn_def)
  note p = pp_inv_parts[OF ct(1)]
  obtain t' where t': "pp_clearRevPts D d k t = Some t'" "pp_rev t' = pp_rev t" "pp_ptsMap t' = pp_ptsMap t"
    "rev_ok (pp_rev t) (pp_revPtsMap t') ((pp_pts \<alpha> s)(k := {}))"
    using pp_clearRevPts_ok[OF p(3) g(2), of k] g(3) ct(2) by (auto simp: wp_iff)
  have "pp_stepn \<alpha> I 0 (c, t) ((pp_pts \<alpha> s)(k := {})) (c, t'\<lparr>pp_ptsMap := aput k emptyPointsToId (pp_ptsMap t')\<rparr>)"
    using p t' id_upd[OF p(2) pc_has_empty[OF p(1)], of k] ct(2)
    by (intro pp_stepnI) (simp_all add: pp_pts_def)
  with pp_stepn_trans[OF g(4)] show ?thesis using g(1) t'(1) by (fastforce simp: pp_clearFullPts_def)
qed

lemma pp_remapAllPts_ok:
  assumes "pp_inv \<alpha> I s"
  shows "wp (pp_remapAllPts D s) (pp_stepn \<alpha> I 0 s (pp_pts \<alpha> s))"
proof -
  obtain c t where s: "s = (c, t)" by fastforce
  note p = pp_inv_parts[OF assms[unfolded s]]
  obtain c' where c': "pc_remapAllPts D c = Some c'" "pc_inv \<alpha> I c'" "\<And>i S. pc_has \<alpha> c' i S = pc_has \<alpha> c i S"
    using remapAllPts_ok[OF p(1) remap] by (auto simp: wp_iff)
  have keeps: "pc_keeps \<alpha> c c'" using c'(3) by (simp add: pc_keeps_def)
  have "\<not> length (pc_idToPts c) < length (pc_idToPts c')"
    using c'(3)[of "length (pc_idToPts c)" "\<alpha> (pc_idToPts c' ! length (pc_idToPts c))"]
    by (simp add: pc_has_def)
  then have "pp_stepn \<alpha> I 0 (c, t) (pp_pts \<alpha> (c, t)) (c', t)"
    using p c' keeps id_keeps[OF p(2) keeps] by (intro pp_stepnI) (simp_all add: pp_pts_def)
  then show ?thesis using c'(1) by (simp add: s pp_remapAllPts_def)
qed

lemma pp_clear_ok: "pp_inv \<alpha> I (c, t) \<Longrightarrow> pp_stepn \<alpha> I 0 (c, t) (\<lambda>_. {}) (c, pp_clear t)"
  using pp_inv_parts[of \<alpha> I c t] by (intro pp_stepnI) (simp_all add: pp_clear_def)

end

context canonical_data_set
begin

lemma pp_pt_data: "pt_data (pp_ops D) \<alpha> I ok (pp_inv \<alpha> I) (pp_pts \<alpha>) pp_room"
proof
  fix s :: "'d pt_cache \<times> ('k, 'e) pers_ptd" and k k' e d
  assume s: "pp_inv \<alpha> I s"
  obtain c t where ct: "s = (c, t)" by fastforce
  note inv = s[unfolded ct]
  note step2 = pp_stepn_step[of \<alpha> I 2 s, unfolded ct, OF _ order_refl]
    and step1 = pp_stepn_step[of \<alpha> I 1 s, unfolded ct, simplified]
    and step0 = pp_stepn_step[of \<alpha> I 0 s, simplified]
  show "wp (ptd_clear (pp_ops D) s) (pt_step (pp_inv \<alpha> I) (pp_pts \<alpha>) pp_room (ptd_rev (pp_ops D)) s (\<lambda>_. {}))"
    using step0 pp_clear_ok[OF inv] by (simp add: pp_ops_def ct)
  show "wp (ptd_getPts (pp_ops D) k s) (\<lambda>(d, s'). I d \<and> \<alpha> d = pp_pts \<alpha> s k \<and>
      pt_step (pp_inv \<alpha> I) (pp_pts \<alpha>) pp_room (ptd_rev (pp_ops D)) s (pp_pts \<alpha> s) s')"
    using wp_mono[OF pp_getPts_ok[OF s, of k]] step0 by (fastforce simp: pp_ops_def)
  show "wp (ptd_getRevPts (pp_ops D) e s) (\<lambda>(ks, s'). distinct ks \<and> List.set ks = {k. e \<in> pp_pts \<alpha> s k} \<and>
      pt_step (pp_inv \<alpha> I) (pp_pts \<alpha>) pp_room (ptd_rev (pp_ops D)) s (pp_pts \<alpha> s) s')"
    if "ptd_rev (pp_ops D) s"
  proof -
    have "pp_rev (snd s)" using that by (simp add: pp_ops_def ct)
    from pp_getRevPts_ok[OF s this, of e] show ?thesis using step0 by (auto simp: pp_ops_def wp_iff)
  qed
  show "wp (ptd_clearFullPts (pp_ops D) k s)
      (pt_step (pp_inv \<alpha> I) (pp_pts \<alpha>) pp_room (ptd_rev (pp_ops D)) s ((pp_pts \<alpha> s)(k := {})))"
    using wp_mono[OF pp_clearFullPts_ok[OF s, of k] step0] by (simp add: pp_ops_def)
  show "wp (ptd_remapAllPts (pp_ops D) s)
      (pt_step (pp_inv \<alpha> I) (pp_pts \<alpha>) pp_room (ptd_rev (pp_ops D)) s (pp_pts \<alpha> s))"
    using wp_mono[OF pp_remapAllPts_ok[OF s] step0] by (simp add: pp_ops_def)
  assume room: "pp_room s 2"
  then have r2: "pc_room c 2" and r1: "pc_room c 1" by (simp_all add: pp_room_def pc_room_def ct)
  show "wp (ptd_addPts (pp_ops D) k e s) (\<lambda>(b, s'). (b \<longleftrightarrow> e \<notin> pp_pts \<alpha> s k) \<and>
      pt_step (pp_inv \<alpha> I) (pp_pts \<alpha>) pp_room (ptd_rev (pp_ops D)) s ((pp_pts \<alpha> s)(k := insert e (pp_pts \<alpha> s k))) s')"
    if "ok e"
    using pp_addPts_ok[OF inv that r2, of k] step2 by (auto simp: pp_ops_def ct wp_iff)
  show "wp (ptd_unionPts (pp_ops D) k k' s) (\<lambda>(b, s'). (b \<longleftrightarrow> \<not> pp_pts \<alpha> s k' \<subseteq> pp_pts \<alpha> s k) \<and>
      pt_step (pp_inv \<alpha> I) (pp_pts \<alpha>) pp_room (ptd_rev (pp_ops D)) s
        ((pp_pts \<alpha> s)(k := pp_pts \<alpha> s k \<union> pp_pts \<alpha> s k')) s')"
    using pp_unionPts_ok[OF inv r1, of k k'] step1 by (auto simp: pp_ops_def ct wp_iff)
  show "wp (ptd_unionData (pp_ops D) k d s) (\<lambda>(b, s'). (b \<longleftrightarrow> \<not> \<alpha> d \<subseteq> pp_pts \<alpha> s k) \<and>
      pt_step (pp_inv \<alpha> I) (pp_pts \<alpha>) pp_room (ptd_rev (pp_ops D)) s ((pp_pts \<alpha> s)(k := pp_pts \<alpha> s k \<union> \<alpha> d)) s')"
    if "I d"
    using pp_unionData_ok[OF inv that r2, of k] step2 by (auto simp: pp_ops_def ct wp_iff)
  show "wp (ptd_clearPts (pp_ops D) k e s)
      (pt_step (pp_inv \<alpha> I) (pp_pts \<alpha>) pp_room (ptd_rev (pp_ops D)) s ((pp_pts \<alpha> s)(k := pp_pts \<alpha> s k - {e})))"
    if "ok e"
    using wp_mono[OF pp_clearPts_ok[OF inv that r2, of k] step2] by (simp add: pp_ops_def ct)
qed (simp add: pp_room_def pc_room_def)

end

interpretation pers: pt_data "pp_ops (pts_ops (initial_env SBV h))" "pts_of (initial_env SBV h)"
    "run_inv (initial_env SBV h)" "run_ok (initial_env SBV h)"
    "pp_inv (pts_of (initial_env SBV h)) (run_inv (initial_env SBV h))"
    "pp_pts (pts_of (initial_env SBV h))" pp_room for h
  by (rule pts.pp_pt_data)

lemma pp_new_ok:
  assumes "pc_inv \<alpha> I c"
  shows "pp_inv \<alpha> I (c, pp_new rv)" "pp_pts \<alpha> (c, pp_new rv) = (\<lambda>_. {})" "pp_rev (pp_new rv) = rv"
  using assms by (simp_all add: pp_inv_def pp_tab_def pp_new_def pp_pts_def)

subsection \<open>Both implementations answer alike\<close>

text \<open>A run on a new persistent table, and the same run on a new mutable one.\<close>

lemma pers_run_ok:
  assumes "pc_inv (pts_of (initial_env SBV h)) (run_inv (initial_env SBV h)) c"
    and "length (pc_idToPts c) + 2 * length xs \<le> 2 ^ 32"
    and "list_all (ptd_op_ok (run_ok (initial_env SBV h)) (run_inv (initial_env SBV h)) rv) xs"
  shows "map_option fst (ptd_run (pp_ops (pts_ops (initial_env SBV h))) (pts_of (initial_env SBV h)) xs (c, pp_new rv)) =
    Some (fst (spec_run (pts_of (initial_env SBV h)) xs (\<lambda>_. {})))"
proof -
  note n = pp_new_ok[OF assms(1), of rv]
  have room: "pp_room (c, pp_new rv) (2 * length xs)" using assms(2) by (simp add: pp_room_def pc_room_def)
  have ops: "list_all (ptd_op_ok (run_ok (initial_env SBV h)) (run_inv (initial_env SBV h))
      (ptd_rev (pp_ops (pts_ops (initial_env SBV h))) (c, pp_new rv))) xs"
    using assms(3) by (simp add: pp_ops_def n(3))
  obtain rs s where
    "ptd_run (pp_ops (pts_ops (initial_env SBV h))) (pts_of (initial_env SBV h)) xs (c, pp_new rv) = Some (rs, s)"
    "(rs, pp_pts (pts_of (initial_env SBV h)) s) = spec_run (pts_of (initial_env SBV h)) xs (\<lambda>_. {})"
    using pers.run_ok[OF n(1) room ops, unfolded n(2)] by (auto simp: wp_iff)
  then show ?thesis by (metis fst_conv option.simps(9))
qed

lemma mut_run_ok:
  assumes "list_all (ptd_op_ok (run_ok (initial_env SBV h)) (run_inv (initial_env SBV h)) rv) xs"
  shows "map_option fst (ptd_run (mp_ops (pts_ops (initial_env SBV h))) (pts_of (initial_env SBV h)) xs (mp_new rv)) =
    Some (fst (spec_run (pts_of (initial_env SBV h)) xs (\<lambda>_. {})))"
proof -
  have ops: "list_all (ptd_op_ok (run_ok (initial_env SBV h)) (run_inv (initial_env SBV h))
      (ptd_rev (mp_ops (pts_ops (initial_env SBV h))) (mp_new rv))) xs"
    using assms by (simp add: mp_ops_def)
  obtain rs s where
    "ptd_run (mp_ops (pts_ops (initial_env SBV h))) (pts_of (initial_env SBV h)) xs (mp_new rv) = Some (rs, s)"
    "(rs, mp_pts (pts_of (initial_env SBV h)) s) = spec_run (pts_of (initial_env SBV h)) xs (\<lambda>_. {})"
    using mut.run_ok[OF _ _ ops] by (auto simp: wp_iff mp_room_def)
  then show ?thesis by (metis fst_conv option.simps(9))
qed

subsection \<open>\<^verbatim>\<open>PersistentDiffPTData\<close>\<close>

record ('k, 'e) pers_diff =
  pd_rev :: bool
  pd_persPTData :: "('k, 'e) pers_ptd"
  pd_diffPtsMap :: "('k \<times> nat) list"
  pd_propaPtsMap :: "('k \<times> nat) list"

definition pd_new :: "bool \<Rightarrow> ('k, 'e) pers_diff" where
  "pd_new reversePT = \<lparr>pd_rev = reversePT, pd_persPTData = pp_new reversePT, pd_diffPtsMap = [], pd_propaPtsMap = []\<rparr>"

definition pd_clear :: "'d pt_cache \<times> ('k, 'e) pers_diff \<Rightarrow> 'd pt_cache \<times> ('k, 'e) pers_diff" where
  "pd_clear s = (case s of (c, t) \<Rightarrow>
     (c, t\<lparr>pd_persPTData := pp_clear (pd_persPTData t), pd_diffPtsMap := [], pd_propaPtsMap := []\<rparr>))"

text \<open>The methods of the base class are forwarded to the backing table.\<close>

definition pd_on :: "('d pt_cache \<times> ('k, 'e) pers_ptd \<Rightarrow> ('a \<times> 'd pt_cache \<times> ('k, 'e) pers_ptd) option) \<Rightarrow>
    'd pt_cache \<times> ('k, 'e) pers_diff \<Rightarrow> ('a \<times> 'd pt_cache \<times> ('k, 'e) pers_diff) option" where
  "pd_on f s = (case s of (c, t) \<Rightarrow> do { (x, c, p) \<leftarrow> f (c, pd_persPTData t); Some (x, c, t\<lparr>pd_persPTData := p\<rparr>) })"

definition pd_upd :: "('d pt_cache \<times> ('k, 'e) pers_ptd \<Rightarrow> ('d pt_cache \<times> ('k, 'e) pers_ptd) option) \<Rightarrow>
    'd pt_cache \<times> ('k, 'e) pers_diff \<Rightarrow> ('d pt_cache \<times> ('k, 'e) pers_diff) option" where
  "pd_upd f s = (case s of (c, t) \<Rightarrow> do { (c, p) \<leftarrow> f (c, pd_persPTData t); Some (c, t\<lparr>pd_persPTData := p\<rparr>) })"

definition pd_getRevPts :: "'e \<Rightarrow> 'd pt_cache \<times> ('k, 'e) pers_diff \<Rightarrow> ('k list \<times> 'd pt_cache \<times> ('k, 'e) pers_diff) option" where
  "pd_getRevPts datum s = do { ensure (pd_rev (snd s)); pd_on (pp_getRevPts datum) s }"

definition pd_remapAllPts :: "('d, 'e) data_ops \<Rightarrow> 'd pt_cache \<times> ('k, 'e) pers_diff \<Rightarrow> ('d pt_cache \<times> ('k, 'e) pers_diff) option" where
  "pd_remapAllPts D s = (case s of (c, t) \<Rightarrow> do { c \<leftarrow> pc_remapAllPts D c; Some (c, t) })"

definition pd_getDiffPts :: "'k \<Rightarrow> 'd pt_cache \<times> ('k, 'e) pers_diff \<Rightarrow> ('d \<times> 'd pt_cache \<times> ('k, 'e) pers_diff) option" where
  "pd_getDiffPts var s = (case s of (c, t) \<Rightarrow> do {
     let i = aget 0 (pd_diffPtsMap t) var;
     d \<leftarrow> pc_getActualPts i c;
     Some (d, c, t\<lparr>pd_diffPtsMap := aref 0 (pd_diffPtsMap t) var\<rparr>) })"

definition pd_computeDiffPts :: "('d, 'e) data_ops \<Rightarrow> 'k \<Rightarrow> 'd \<Rightarrow> 'd pt_cache \<times> ('k, 'e) pers_diff \<Rightarrow>
    (bool \<times> 'd pt_cache \<times> ('k, 'e) pers_diff) option" where
  "pd_computeDiffPts D var all s = (case s of (c, t) \<Rightarrow> do {
     let propaId = aget 0 (pd_propaPtsMap t) var;
     let t = t\<lparr>pd_propaPtsMap := aref 0 (pd_propaPtsMap t) var\<rparr>;
     (allId, c) \<leftarrow> pc_emplacePts D all c;
     (diffId, c) \<leftarrow> pc_complementPts D allId propaId c;
     let t = t\<lparr>pd_diffPtsMap := aput var diffId (pd_diffPtsMap t)\<rparr>;
     let t = t\<lparr>pd_propaPtsMap := aput var allId (pd_propaPtsMap t)\<rparr>;
     Some (diffId \<noteq> emptyPointsToId, c, t) })"

definition pd_updatePropaPtsMap :: "('d, 'e) data_ops \<Rightarrow> 'k \<Rightarrow> 'k \<Rightarrow> 'd pt_cache \<times> ('k, 'e) pers_diff \<Rightarrow>
    ('d pt_cache \<times> ('k, 'e) pers_diff) option" where
  "pd_updatePropaPtsMap D src dst s = (case s of (c, t) \<Rightarrow> do {
     let dstId = aget 0 (pd_propaPtsMap t) dst;
     let m = aref 0 (pd_propaPtsMap t) dst;
     let srcId = aget 0 m src;
     let m = aref 0 m src;
     (i, c) \<leftarrow> pc_intersectPts D dstId srcId c;
     Some (c, t\<lparr>pd_propaPtsMap := aput dst i m\<rparr>) })"

definition pd_clearPropaPts :: "'k \<Rightarrow> 'd pt_cache \<times> ('k, 'e) pers_diff \<Rightarrow> 'd pt_cache \<times> ('k, 'e) pers_diff" where
  "pd_clearPropaPts var s = (case s of (c, t) \<Rightarrow>
     (c, t\<lparr>pd_propaPtsMap := aput var emptyPointsToId (pd_propaPtsMap t)\<rparr>))"

definition pd_getAllPts :: "('d, 'e) data_ops \<Rightarrow> bool \<Rightarrow> 'd pt_cache \<times> ('k, 'e) pers_diff \<Rightarrow> ('d \<times> nat) list option" where
  "pd_getAllPts D liveOnly s = (case s of (c, t) \<Rightarrow> pp_getAllPts D liveOnly (c, pd_persPTData t))"

definition pd_ops :: "('d, 'e) data_ops \<Rightarrow> ('k, 'e, 'd, 'd pt_cache \<times> ('k, 'e) pers_diff) diff_ops" where
  "pd_ops D = \<lparr>ptd_rev = (\<lambda>(c, t). pd_rev t), ptd_clear = (\<lambda>s. Some (pd_clear s)),
     ptd_getPts = (\<lambda>k. pd_on (pp_getPts k)), ptd_getRevPts = pd_getRevPts,
     ptd_addPts = (\<lambda>k e. pd_on (pp_addPts D k e)), ptd_unionPts = (\<lambda>k k'. pd_on (pp_unionPts D k k')),
     ptd_unionData = (\<lambda>k d. pd_on (pp_unionData D k d)), ptd_clearPts = (\<lambda>k e. pd_upd (pp_clearPts D k e)),
     ptd_clearFullPts = (\<lambda>k. pd_upd (pp_clearFullPts D k)), ptd_remapAllPts = pd_remapAllPts D,
     ptd_getDiffPts = pd_getDiffPts, ptd_computeDiffPts = pd_computeDiffPts D,
     ptd_updatePropaPtsMap = pd_updatePropaPtsMap D, ptd_clearPropaPts = (\<lambda>k s. Some (pd_clearPropaPts k s))\<rparr>"

definition pd_pts :: "('d \<Rightarrow> 'e set) \<Rightarrow> 'd pt_cache \<times> ('k, 'e) pers_diff \<Rightarrow> 'k \<Rightarrow> 'e set" where
  "pd_pts \<alpha> s = pp_pts \<alpha> (fst s, pd_persPTData (snd s))"

definition pd_diff :: "('d \<Rightarrow> 'e set) \<Rightarrow> 'd pt_cache \<times> ('k, 'e) pers_diff \<Rightarrow> 'k \<Rightarrow> 'e set" where
  "pd_diff \<alpha> s = id_pts \<alpha> (fst s) (pd_diffPtsMap (snd s))"

definition pd_propa :: "('d \<Rightarrow> 'e set) \<Rightarrow> 'd pt_cache \<times> ('k, 'e) pers_diff \<Rightarrow> 'k \<Rightarrow> 'e set" where
  "pd_propa \<alpha> s = id_pts \<alpha> (fst s) (pd_propaPtsMap (snd s))"

definition pd_inv :: "('d \<Rightarrow> 'e set) \<Rightarrow> ('d \<Rightarrow> bool) \<Rightarrow> 'd pt_cache \<times> ('k, 'e) pers_diff \<Rightarrow> bool" where
  "pd_inv \<alpha> I s \<longleftrightarrow> pp_inv \<alpha> I (fst s, pd_persPTData (snd s)) \<and> pd_rev (snd s) = pp_rev (pd_persPTData (snd s)) \<and>
     id_inv (fst s) (pd_diffPtsMap (snd s)) \<and> id_inv (fst s) (pd_propaPtsMap (snd s))"

definition pd_room :: "'d pt_cache \<times> ('k, 'e) pers_diff \<Rightarrow> nat \<Rightarrow> bool" where
  "pd_room s n \<longleftrightarrow> pc_room (fst s) n"

abbreviation pd_step :: "('d \<Rightarrow> 'e set) \<Rightarrow> ('d \<Rightarrow> bool) \<Rightarrow> 'd pt_cache \<times> ('k, 'e) pers_diff \<Rightarrow> ('k \<Rightarrow> 'e set) \<Rightarrow>
    'd pt_cache \<times> ('k, 'e) pers_diff \<Rightarrow> bool" where
  "pd_step \<alpha> I \<equiv> pt_step (pd_inv \<alpha> I) (pd_pts \<alpha>) pd_room (\<lambda>(c, t). pd_rev t)"

lemma pd_back_step:
  assumes "pd_inv \<alpha> I (c, t)" "pp_stepn \<alpha> I n (c, pd_persPTData t) f (c', p)" "n \<le> 2"
  shows "pd_step \<alpha> I (c, t) f (c', t\<lparr>pd_persPTData := p\<rparr>)"
proof -
  have "id_inv c' (pd_diffPtsMap t)" "id_inv c' (pd_propaPtsMap t)"
    using assms id_keeps(1)[of c _ \<alpha> c'] by (auto simp: pd_inv_def pp_stepn_def)
  then show ?thesis
    using assms by (auto simp: pt_step_def pd_inv_def pp_stepn_def pd_pts_def pd_room_def pc_room_def)
qed

lemma pd_on_step:
  assumes "pd_inv \<alpha> I (c, t)" "wp (f (c, pd_persPTData t)) (\<lambda>(x, s'). Q x \<and> pp_stepn \<alpha> I n (c, pd_persPTData t) g s')" "n \<le> 2"
  shows "wp (pd_on f (c, t)) (\<lambda>(x, s'). Q x \<and> pd_step \<alpha> I (c, t) g s')"
  using assms(2) pd_back_step[OF assms(1) _ assms(3)] by (auto simp: pd_on_def wp_iff)

lemma pd_upd_step:
  assumes "pd_inv \<alpha> I (c, t)" "wp (f (c, pd_persPTData t)) (pp_stepn \<alpha> I n (c, pd_persPTData t) g)" "n \<le> 2"
  shows "wp (pd_upd f (c, t)) (pd_step \<alpha> I (c, t) g)"
  using assms(2) pd_back_step[OF assms(1) _ assms(3)] by (auto simp: pd_upd_def wp_iff)

text \<open>A change of the difference maps over a cache that has grown.\<close>

lemma pd_diff_stepI:
  assumes "pd_inv \<alpha> I (c, t)" "pc_inv \<alpha> I c'" "pc_keeps \<alpha> c c'" "length (pc_idToPts c') \<le> length (pc_idToPts c) + 2"
    and "id_inv c' g" "id_pts \<alpha> c' g = G" "id_inv c' h" "id_pts \<alpha> c' h = H"
  shows "diff_step (pd_inv \<alpha> I) (pd_pts \<alpha>) (pd_diff \<alpha>) (pd_propa \<alpha>) pd_room (\<lambda>(c, t). pd_rev t) (c, t) G H
    (c', t\<lparr>pd_diffPtsMap := g, pd_propaPtsMap := h\<rparr>)"
proof -
  have p: "pp_inv \<alpha> I (c, pd_persPTData t)" using assms(1) by (simp add: pd_inv_def)
  note q = pp_inv_parts[OF p]
  show ?thesis
    using assms q id_keeps[OF q(2) assms(3)]
    by (auto simp: diff_step_def pt_step_def pd_inv_def pd_pts_def pd_diff_def pd_propa_def pd_room_def pc_room_def
        pp_inv_def pp_tab_def pp_pts_def)
qed

lemma pd_new_ok:
  assumes "pc_inv \<alpha> I c"
  shows "pd_inv \<alpha> I (c, pd_new rv)" "pd_pts \<alpha> (c, pd_new rv) = (\<lambda>_. {})" "pd_propa \<alpha> (c, pd_new rv) = (\<lambda>_. {})"
    "pd_rev (pd_new rv) = rv"
  using assms by (simp_all add: pd_inv_def pd_new_def pd_pts_def pd_propa_def pp_new_ok)

context canonical_data_set
begin

lemma pd_computeDiffPts_ok:
  assumes s: "pd_inv \<alpha> I (c, t)" and d: "I d" and room: "pc_room c 2"
  shows "wp (pd_computeDiffPts D k d (c, t)) (\<lambda>(b, s'). (b \<longleftrightarrow> \<not> \<alpha> d \<subseteq> pd_propa \<alpha> (c, t) k) \<and>
    diff_step (pd_inv \<alpha> I) (pd_pts \<alpha>) (pd_diff \<alpha>) (pd_propa \<alpha>) pd_room (\<lambda>(c, t). pd_rev t) (c, t)
      ((pd_diff \<alpha> (c, t))(k := \<alpha> d - pd_propa \<alpha> (c, t) k)) ((pd_propa \<alpha> (c, t))(k := \<alpha> d)) s')"
proof -
  have m: "pc_inv \<alpha> I c" "id_inv c (pd_diffPtsMap t)" "id_inv c (pd_propaPtsMap t)"
    using s by (simp_all add: pd_inv_def pp_inv_def)
  let ?j = "aget 0 (pd_propaPtsMap t) k" and ?P = "pd_propa \<alpha> (c, t) k"
  obtain i c1 where i: "pc_emplacePts D d c = Some (i, c1)" "pc_result \<alpha> I c (\<alpha> d) (i, c1)"
    using emplacePts_ok[OF m(1) d] room by (auto simp: wp_iff pc_room_def)
  note c1 = cache_step[OF i(2)]
  have j: "pc_has \<alpha> c1 ?j ?P" using id_has[OF m(3), of \<alpha> k] c1 by (simp add: pc_keeps_def pd_propa_def)
  have len: "length (pc_idToPts c1) < 2 ^ 32" using c1 room by (simp add: pc_room_def)
  obtain r c2 where r: "pc_complementPts D i ?j c1 = Some (r, c2)" "pc_result \<alpha> I c1 (\<alpha> d - ?P) (r, c2)"
    using complementPts_ok[of c1 i "\<alpha> d" ?j ?P] c1 j len by (auto simp: wp_iff)
  note c2 = cache_step[OF r(2)]
  have keeps: "pc_keeps \<alpha> c c2" using c1 c2 pc_keeps_trans by blast
  note kd = id_keeps[OF m(2) keeps] and kp = id_keeps[OF m(3) keeps]
  have i2: "pc_has \<alpha> c2 i (\<alpha> d)" using c1 c2 by (simp add: pc_keeps_def)
  have flag: "r \<noteq> emptyPointsToId \<longleftrightarrow> \<not> \<alpha> d \<subseteq> ?P"
    using pc_has_not_0[of \<alpha> I c2 r "\<alpha> d - ?P"] c2 by (auto simp: emptyPointsToId_def)
  have "diff_step (pd_inv \<alpha> I) (pd_pts \<alpha>) (pd_diff \<alpha>) (pd_propa \<alpha>) pd_room (\<lambda>(c, t). pd_rev t) (c, t)
      ((pd_diff \<alpha> (c, t))(k := \<alpha> d - ?P)) ((pd_propa \<alpha> (c, t))(k := \<alpha> d))
      (c2, t\<lparr>pd_diffPtsMap := aput k r (pd_diffPtsMap t), pd_propaPtsMap := aput k i (aref 0 (pd_propaPtsMap t) k)\<rparr>)"
    using c2 c1 keeps id_upd[OF kd(1), of \<alpha> r "\<alpha> d - ?P" k] id_upd[of c2 "aref 0 (pd_propaPtsMap t) k" \<alpha> i "\<alpha> d" k] kd kp i2
    by (intro pd_diff_stepI[OF s]) (simp_all add: pd_diff_def pd_propa_def)
  then show ?thesis using i(1) r(1) flag by (simp add: pd_computeDiffPts_def)
qed

lemma pd_getDiffPts_ok:
  assumes s: "pd_inv \<alpha> I (c, t)"
  shows "wp (pd_getDiffPts k (c, t)) (\<lambda>(d, s'). (I d \<and> \<alpha> d = pd_diff \<alpha> (c, t) k) \<and>
    diff_step (pd_inv \<alpha> I) (pd_pts \<alpha>) (pd_diff \<alpha>) (pd_propa \<alpha>) pd_room (\<lambda>(c, t). pd_rev t) (c, t)
      (pd_diff \<alpha> (c, t)) (pd_propa \<alpha> (c, t)) s')"
proof -
  have m: "pc_inv \<alpha> I c" "id_inv c (pd_diffPtsMap t)" "id_inv c (pd_propaPtsMap t)"
    using s by (simp_all add: pd_inv_def pp_inv_def)
  have "pc_has \<alpha> c (aget 0 (pd_diffPtsMap t) k) (pd_diff \<alpha> (c, t) k)"
    using id_has[OF m(2)] by (simp add: pd_diff_def)
  then obtain d where d: "pc_getActualPts (aget 0 (pd_diffPtsMap t) k) c = Some d" "I d" "\<alpha> d = pd_diff \<alpha> (c, t) k"
    using pc_getActualPts_ok[OF m(1), of _ "pd_diff \<alpha> (c, t) k"] unfolding wp_iff by blast
  show ?thesis
    using d pd_diff_stepI[OF s m(1), of "aref 0 (pd_diffPtsMap t) k" _ "pd_propaPtsMap t"] m
    by (simp add: pd_getDiffPts_def pd_diff_def pd_propa_def)
qed

lemma pd_updatePropaPtsMap_ok:
  assumes s: "pd_inv \<alpha> I (c, t)" and room: "pc_room c 2"
  shows "wp (pd_updatePropaPtsMap D src dst (c, t)) (diff_step (pd_inv \<alpha> I) (pd_pts \<alpha>) (pd_diff \<alpha>) (pd_propa \<alpha>) pd_room
    (\<lambda>(c, t). pd_rev t) (c, t) (pd_diff \<alpha> (c, t))
    ((pd_propa \<alpha> (c, t))(dst := pd_propa \<alpha> (c, t) dst \<inter> pd_propa \<alpha> (c, t) src)))"
proof -
  have m: "pc_inv \<alpha> I c" "id_inv c (pd_diffPtsMap t)" "id_inv c (pd_propaPtsMap t)"
    using s by (simp_all add: pd_inv_def pp_inv_def)
  let ?S = "pd_propa \<alpha> (c, t) dst \<inter> pd_propa \<alpha> (c, t) src"
  have len: "length (pc_idToPts c) < 2 ^ 32" using room by (simp add: pc_room_def)
  have "pc_has \<alpha> c (aget 0 (pd_propaPtsMap t) k) (pd_propa \<alpha> (c, t) k)" for k
    using id_has[OF m(3)] by (simp add: pd_propa_def)
  from intersectPts_ok[OF m(1) len this this] obtain i c' where
    i: "pc_intersectPts D (aget 0 (pd_propaPtsMap t) dst) (aget 0 (pd_propaPtsMap t) src) c = Some (i, c')"
      "pc_result \<alpha> I c ?S (i, c')"
    by (fastforce simp: wp_iff)
  note c' = cache_step[OF i(2)]
  let ?m = "aref 0 (aref 0 (pd_propaPtsMap t) dst) src"
  have k: "id_inv c' ?m" "id_pts \<alpha> c' ?m = pd_propa \<alpha> (c, t)" "id_inv c' (pd_diffPtsMap t)"
    "id_pts \<alpha> c' (pd_diffPtsMap t) = pd_diff \<alpha> (c, t)"
    using id_keeps[OF m(3), of \<alpha> c'] id_keeps[OF m(2), of \<alpha> c'] c' by (simp_all add: pd_propa_def pd_diff_def)
  show ?thesis
    using i(1) pd_diff_stepI[OF s, of c' "pd_diffPtsMap t" "pd_diff \<alpha> (c, t)" "aput dst i ?m"] c' k id_upd[OF k(1), of \<alpha> i ?S dst]
    by (simp add: pd_updatePropaPtsMap_def)
qed

lemma pd_clearPropaPts_ok:
  assumes s: "pd_inv \<alpha> I (c, t)"
  shows "diff_step (pd_inv \<alpha> I) (pd_pts \<alpha>) (pd_diff \<alpha>) (pd_propa \<alpha>) pd_room (\<lambda>(c, t). pd_rev t) (c, t)
    (pd_diff \<alpha> (c, t)) ((pd_propa \<alpha> (c, t))(k := {})) (pd_clearPropaPts k (c, t))"
proof -
  have m: "pc_inv \<alpha> I c" "id_inv c (pd_diffPtsMap t)" "id_inv c (pd_propaPtsMap t)"
    using s by (simp_all add: pd_inv_def pp_inv_def)
  show ?thesis
    using pd_diff_stepI[OF s m(1), of "pd_diffPtsMap t" _ "aput k emptyPointsToId (pd_propaPtsMap t)"] m
      id_upd[OF m(3) pc_has_empty[OF m(1)], of k]
    by (simp add: pd_clearPropaPts_def pd_diff_def pd_propa_def)
qed

end

context canonical_data_set
begin

lemma pd_pt_data: "pt_data (pd_ops D) \<alpha> I ok (pd_inv \<alpha> I) (pd_pts \<alpha>) pd_room"
proof
  fix s :: "'d pt_cache \<times> ('k, 'e) pers_diff" and k k' e d
  assume "pd_inv \<alpha> I s"
  moreover obtain c t where ct: "s = (c, t)" by fastforce
  ultimately have s: "pd_inv \<alpha> I (c, t)" by simp
  then have p: "pp_inv \<alpha> I (c, pd_persPTData t)" and rv: "pd_rev t = pp_rev (pd_persPTData t)"
    by (simp_all add: pd_inv_def)
  have pts: "pd_pts \<alpha> (c, t) = pp_pts \<alpha> (c, pd_persPTData t)" by (simp add: pd_pts_def)
  note simps = pd_ops_def ct pts
  have "pd_step \<alpha> I (c, t) (\<lambda>_. {}) (c, t\<lparr>pd_persPTData := pp_clear (pd_persPTData t)\<rparr>)"
    using pd_back_step[OF s pp_clear_ok[OF p]] by simp
  then show "wp (ptd_clear (pd_ops D) s) (pt_step (pd_inv \<alpha> I) (pd_pts \<alpha>) pd_room (ptd_rev (pd_ops D)) s (\<lambda>_. {}))"
    using pp_inv_parts(1)[OF p] by (simp add: pd_ops_def ct pd_clear_def pt_step_def pd_inv_def pd_pts_def pd_room_def)
  show "wp (ptd_getPts (pd_ops D) k s) (\<lambda>(d, s'). I d \<and> \<alpha> d = pd_pts \<alpha> s k \<and>
      pt_step (pd_inv \<alpha> I) (pd_pts \<alpha>) pd_room (ptd_rev (pd_ops D)) s (pd_pts \<alpha> s) s')"
    using pd_on_step[where f = "pp_getPts k", OF s pp_getPts_ok[OF p, of k]] by (simp add: simps)
  show "wp (ptd_getRevPts (pd_ops D) e s) (\<lambda>(ks, s'). distinct ks \<and> List.set ks = {k. e \<in> pd_pts \<alpha> s k} \<and>
      pt_step (pd_inv \<alpha> I) (pd_pts \<alpha>) pd_room (ptd_rev (pd_ops D)) s (pd_pts \<alpha> s) s')"
    if "ptd_rev (pd_ops D) s"
    using pd_on_step[where f = "pp_getRevPts e", OF s pp_getRevPts_ok[OF p, of e]] that rv
    by (simp add: simps pd_getRevPts_def)
  show "wp (ptd_clearFullPts (pd_ops D) k s)
      (pt_step (pd_inv \<alpha> I) (pd_pts \<alpha>) pd_room (ptd_rev (pd_ops D)) s ((pd_pts \<alpha> s)(k := {})))"
    by (simp add: simps, rule pd_upd_step[OF s], rule pp_clearFullPts_ok[OF p]) simp
  have remap: "pd_remapAllPts D (c, t) = pd_upd (pp_remapAllPts D) (c, t)"
    by (simp add: pd_remapAllPts_def pd_upd_def pp_remapAllPts_def)
  show "wp (ptd_remapAllPts (pd_ops D) s)
      (pt_step (pd_inv \<alpha> I) (pd_pts \<alpha>) pd_room (ptd_rev (pd_ops D)) s (pd_pts \<alpha> s))"
    by (simp add: simps remap, rule pd_upd_step[OF s], rule pp_remapAllPts_ok[OF p]) simp
  assume room: "pd_room s 2"
  then have r2: "pc_room c 2" and r1: "pc_room c 1" by (simp_all add: pd_room_def pc_room_def ct)
  show "wp (ptd_addPts (pd_ops D) k e s) (\<lambda>(b, s'). (b \<longleftrightarrow> e \<notin> pd_pts \<alpha> s k) \<and>
      pt_step (pd_inv \<alpha> I) (pd_pts \<alpha>) pd_room (ptd_rev (pd_ops D)) s ((pd_pts \<alpha> s)(k := insert e (pd_pts \<alpha> s k))) s')"
    if "ok e"
    by (simp add: simps, rule pd_on_step[OF s], rule pp_addPts_ok[OF p that r2]) simp
  show "wp (ptd_unionPts (pd_ops D) k k' s) (\<lambda>(b, s'). (b \<longleftrightarrow> \<not> pd_pts \<alpha> s k' \<subseteq> pd_pts \<alpha> s k) \<and>
      pt_step (pd_inv \<alpha> I) (pd_pts \<alpha>) pd_room (ptd_rev (pd_ops D)) s
        ((pd_pts \<alpha> s)(k := pd_pts \<alpha> s k \<union> pd_pts \<alpha> s k')) s')"
    by (simp add: simps, rule pd_on_step[OF s], rule pp_unionPts_ok[OF p r1]) simp
  show "wp (ptd_unionData (pd_ops D) k d s) (\<lambda>(b, s'). (b \<longleftrightarrow> \<not> \<alpha> d \<subseteq> pd_pts \<alpha> s k) \<and>
      pt_step (pd_inv \<alpha> I) (pd_pts \<alpha>) pd_room (ptd_rev (pd_ops D)) s ((pd_pts \<alpha> s)(k := pd_pts \<alpha> s k \<union> \<alpha> d)) s')"
    if "I d"
    by (simp add: simps, rule pd_on_step[OF s], rule pp_unionData_ok[OF p that r2]) simp
  show "wp (ptd_clearPts (pd_ops D) k e s)
      (pt_step (pd_inv \<alpha> I) (pd_pts \<alpha>) pd_room (ptd_rev (pd_ops D)) s ((pd_pts \<alpha> s)(k := pd_pts \<alpha> s k - {e})))"
    if "ok e"
    by (simp add: simps, rule pd_upd_step[OF s], rule pp_clearPts_ok[OF p that r2]) simp
qed (simp add: pd_room_def pc_room_def)

lemma pd_diff_pt_data:
  "diff_pt_data (pd_ops D) \<alpha> I ok (pd_inv \<alpha> I) (pd_pts \<alpha>) pd_room (pd_diff \<alpha>) (pd_propa \<alpha>)"
proof (rule diff_pt_data.intro[OF pd_pt_data diff_pt_data_axioms.intro])
  fix s :: "'d pt_cache \<times> ('k, 'e) pers_diff" and k k' d
  assume "pd_inv \<alpha> I s"
  moreover obtain c t where ct: "s = (c, t)" by fastforce
  ultimately have s: "pd_inv \<alpha> I (c, t)" by simp
  show "wp (ptd_getDiffPts (pd_ops D) k s) (\<lambda>(d, s'). I d \<and> \<alpha> d = pd_diff \<alpha> s k \<and>
      diff_step (pd_inv \<alpha> I) (pd_pts \<alpha>) (pd_diff \<alpha>) (pd_propa \<alpha>) pd_room (ptd_rev (pd_ops D)) s (pd_diff \<alpha> s) (pd_propa \<alpha> s) s')"
    using pd_getDiffPts_ok[OF s, of k] by (simp add: pd_ops_def ct)
  show "wp (ptd_clearPropaPts (pd_ops D) k s) (diff_step (pd_inv \<alpha> I) (pd_pts \<alpha>) (pd_diff \<alpha>) (pd_propa \<alpha>) pd_room
      (ptd_rev (pd_ops D)) s (pd_diff \<alpha> s) ((pd_propa \<alpha> s)(k := {})))"
    using pd_clearPropaPts_ok[OF s, of k] by (simp add: pd_ops_def ct)
  assume room: "pd_room s 2"
  then have r2: "pc_room c 2" by (simp add: pd_room_def ct)
  show "wp (ptd_computeDiffPts (pd_ops D) k d s) (\<lambda>(b, s'). (b \<longleftrightarrow> \<not> \<alpha> d \<subseteq> pd_propa \<alpha> s k) \<and>
      diff_step (pd_inv \<alpha> I) (pd_pts \<alpha>) (pd_diff \<alpha>) (pd_propa \<alpha>) pd_room (ptd_rev (pd_ops D)) s
        ((pd_diff \<alpha> s)(k := \<alpha> d - pd_propa \<alpha> s k)) ((pd_propa \<alpha> s)(k := \<alpha> d)) s')" if "I d"
    using pd_computeDiffPts_ok[OF s that r2, of k] by (simp add: pd_ops_def ct)
  show "wp (ptd_updatePropaPtsMap (pd_ops D) k k' s) (diff_step (pd_inv \<alpha> I) (pd_pts \<alpha>) (pd_diff \<alpha>) (pd_propa \<alpha>) pd_room
      (ptd_rev (pd_ops D)) s (pd_diff \<alpha> s) ((pd_propa \<alpha> s)(k' := pd_propa \<alpha> s k' \<inter> pd_propa \<alpha> s k)))"
    using pd_updatePropaPtsMap_ok[OF s r2, of k k'] by (simp add: pd_ops_def ct)
qed

end

interpretation pers_diff: diff_pt_data "pd_ops (pts_ops (initial_env SBV h))" "pts_of (initial_env SBV h)"
    "run_inv (initial_env SBV h)" "run_ok (initial_env SBV h)"
    "pd_inv (pts_of (initial_env SBV h)) (run_inv (initial_env SBV h))"
    "pd_pts (pts_of (initial_env SBV h))" pd_room "pd_diff (pts_of (initial_env SBV h))"
    "pd_propa (pts_of (initial_env SBV h))" for h
  by (rule pts.pd_diff_pt_data)

subsection \<open>\<^verbatim>\<open>PersistentVersionedPTData\<close>\<close>

text \<open>A table for keys and one for versioned keys over one cache; \<open>Inl\<close> and \<open>Inr\<close> are the overloads.\<close>

record ('k, 'v, 'e) pers_versioned =
  pv_rev :: bool
  pv_tlPTData :: "('k, 'e) pers_ptd"
  pv_atPTData :: "('v, 'e) pers_ptd"

definition pv_new :: "bool \<Rightarrow> ('k, 'v, 'e) pers_versioned" where
  "pv_new reversePT = \<lparr>pv_rev = reversePT, pv_tlPTData = pp_new reversePT, pv_atPTData = pp_new reversePT\<rparr>"

definition pv_clear :: "('k, 'v, 'e) pers_versioned \<Rightarrow> ('k, 'v, 'e) pers_versioned" where
  "pv_clear t = t\<lparr>pv_tlPTData := pp_clear (pv_tlPTData t), pv_atPTData := pp_clear (pv_atPTData t)\<rparr>"

text \<open>A call on one of the two tables, with and without a result.\<close>

definition pv_tl :: "('d pt_cache \<times> ('k, 'e) pers_ptd \<Rightarrow> ('a \<times> 'd pt_cache \<times> ('k, 'e) pers_ptd) option) \<Rightarrow>
    'd pt_cache \<times> ('k, 'v, 'e) pers_versioned \<Rightarrow> ('a \<times> 'd pt_cache \<times> ('k, 'v, 'e) pers_versioned) option" where
  "pv_tl f s = (case s of (c, t) \<Rightarrow> do { (x, c, p) \<leftarrow> f (c, pv_tlPTData t); Some (x, c, t\<lparr>pv_tlPTData := p\<rparr>) })"

definition pv_at :: "('d pt_cache \<times> ('v, 'e) pers_ptd \<Rightarrow> ('a \<times> 'd pt_cache \<times> ('v, 'e) pers_ptd) option) \<Rightarrow>
    'd pt_cache \<times> ('k, 'v, 'e) pers_versioned \<Rightarrow> ('a \<times> 'd pt_cache \<times> ('k, 'v, 'e) pers_versioned) option" where
  "pv_at f s = (case s of (c, t) \<Rightarrow> do { (x, c, p) \<leftarrow> f (c, pv_atPTData t); Some (x, c, t\<lparr>pv_atPTData := p\<rparr>) })"

definition pv_tl_do :: "('d pt_cache \<times> ('k, 'e) pers_ptd \<Rightarrow> ('d pt_cache \<times> ('k, 'e) pers_ptd) option) \<Rightarrow>
    'd pt_cache \<times> ('k, 'v, 'e) pers_versioned \<Rightarrow> ('d pt_cache \<times> ('k, 'v, 'e) pers_versioned) option" where
  "pv_tl_do f s = map_option snd (pv_tl (\<lambda>s. map_option (Pair ()) (f s)) s)"

definition pv_at_do :: "('d pt_cache \<times> ('v, 'e) pers_ptd \<Rightarrow> ('d pt_cache \<times> ('v, 'e) pers_ptd) option) \<Rightarrow>
    'd pt_cache \<times> ('k, 'v, 'e) pers_versioned \<Rightarrow> ('d pt_cache \<times> ('k, 'v, 'e) pers_versioned) option" where
  "pv_at_do f s = map_option snd (pv_at (\<lambda>s. map_option (Pair ()) (f s)) s)"

definition pv_getPts :: "'k + 'v \<Rightarrow> 'd pt_cache \<times> ('k, 'v, 'e) pers_versioned \<Rightarrow>
    ('d \<times> 'd pt_cache \<times> ('k, 'v, 'e) pers_versioned) option" where
  "pv_getPts x s = (case x of Inl k \<Rightarrow> pv_tl (pp_getPts k) s | Inr vk \<Rightarrow> pv_at (pp_getPts vk) s)"

definition pv_getRevPts :: "'e \<Rightarrow> 'd pt_cache \<times> ('k, 'v, 'e) pers_versioned \<Rightarrow>
    ('k list \<times> 'd pt_cache \<times> ('k, 'v, 'e) pers_versioned) option" where
  "pv_getRevPts datum s = do { ensure (pv_rev (snd s)); pv_tl (pp_getRevPts datum) s }"

definition pv_getVersionedKeyRevPts :: "'e \<Rightarrow> 'd pt_cache \<times> ('k, 'v, 'e) pers_versioned \<Rightarrow>
    ('v list \<times> 'd pt_cache \<times> ('k, 'v, 'e) pers_versioned) option" where
  "pv_getVersionedKeyRevPts datum s = do { ensure (pv_rev (snd s)); pv_at (pp_getRevPts datum) s }"

definition pv_addPts :: "('d, 'e) data_ops \<Rightarrow> 'k + 'v \<Rightarrow> 'e \<Rightarrow> 'd pt_cache \<times> ('k, 'v, 'e) pers_versioned \<Rightarrow>
    (bool \<times> 'd pt_cache \<times> ('k, 'v, 'e) pers_versioned) option" where
  "pv_addPts D x element s = (case x of
     Inl k \<Rightarrow> pv_tl (pp_addPts D k element) s
   | Inr vk \<Rightarrow> pv_at (pp_addPts D vk element) s)"

text \<open>Across the two tables the number is handed over: they share the cache.\<close>

definition pv_unionPts :: "('d, 'e) data_ops \<Rightarrow> 'k + 'v \<Rightarrow> 'k + 'v \<Rightarrow> 'd pt_cache \<times> ('k, 'v, 'e) pers_versioned \<Rightarrow>
    (bool \<times> 'd pt_cache \<times> ('k, 'v, 'e) pers_versioned) option" where
  "pv_unionPts D dstVar srcVar s = (case s of (c, t) \<Rightarrow> case (dstVar, srcVar) of
     (Inl d, Inl r) \<Rightarrow> pv_tl (pp_unionPts D d r) s
   | (Inr d, Inr r) \<Rightarrow> pv_at (pp_unionPts D d r) s
   | (Inr d, Inl r) \<Rightarrow>
       let m = pp_ptsMap (pv_tlPTData t)
       in pv_at (pp_unionPtsFromId D d (aget 0 m r)) (c, t\<lparr>pv_tlPTData := (pv_tlPTData t)\<lparr>pp_ptsMap := aref 0 m r\<rparr>\<rparr>)
   | (Inl d, Inr r) \<Rightarrow>
       let m = pp_ptsMap (pv_atPTData t)
       in pv_tl (pp_unionPtsFromId D d (aget 0 m r)) (c, t\<lparr>pv_atPTData := (pv_atPTData t)\<lparr>pp_ptsMap := aref 0 m r\<rparr>\<rparr>))"

definition pv_unionData :: "('d, 'e) data_ops \<Rightarrow> 'k + 'v \<Rightarrow> 'd \<Rightarrow> 'd pt_cache \<times> ('k, 'v, 'e) pers_versioned \<Rightarrow>
    (bool \<times> 'd pt_cache \<times> ('k, 'v, 'e) pers_versioned) option" where
  "pv_unionData D dstVar srcDataSet s = (case dstVar of
     Inl k \<Rightarrow> pv_tl (pp_unionData D k srcDataSet) s
   | Inr vk \<Rightarrow> pv_at (pp_unionData D vk srcDataSet) s)"

definition pv_clearPts :: "('d, 'e) data_ops \<Rightarrow> 'k + 'v \<Rightarrow> 'e \<Rightarrow> 'd pt_cache \<times> ('k, 'v, 'e) pers_versioned \<Rightarrow>
    ('d pt_cache \<times> ('k, 'v, 'e) pers_versioned) option" where
  "pv_clearPts D x element s = (case x of
     Inl k \<Rightarrow> pv_tl_do (pp_clearPts D k element) s
   | Inr vk \<Rightarrow> pv_at_do (pp_clearPts D vk element) s)"

definition pv_clearFullPts :: "('d, 'e) data_ops \<Rightarrow> 'k + 'v \<Rightarrow> 'd pt_cache \<times> ('k, 'v, 'e) pers_versioned \<Rightarrow>
    ('d pt_cache \<times> ('k, 'v, 'e) pers_versioned) option" where
  "pv_clearFullPts D x s = (case x of
     Inl k \<Rightarrow> pv_tl_do (pp_clearFullPts D k) s
   | Inr vk \<Rightarrow> pv_at_do (pp_clearFullPts D vk) s)"

text \<open>Remapping one table remaps the cache, so both.\<close>

definition pv_remapAllPts :: "('d, 'e) data_ops \<Rightarrow> 'd pt_cache \<times> ('k, 'v, 'e) pers_versioned \<Rightarrow>
    ('d pt_cache \<times> ('k, 'v, 'e) pers_versioned) option" where
  "pv_remapAllPts D s = pv_tl_do (pp_remapAllPts D) s"

text \<open>Both kinds of keys that point to a datum.\<close>

definition pv_revPts :: "'e \<Rightarrow> 'd pt_cache \<times> ('k, 'v, 'e) pers_versioned \<Rightarrow>
    (('k + 'v) list \<times> 'd pt_cache \<times> ('k, 'v, 'e) pers_versioned) option" where
  "pv_revPts datum s = do {
     (ks, s) \<leftarrow> pv_getRevPts datum s;
     (vks, s) \<leftarrow> pv_getVersionedKeyRevPts datum s;
     Some (map Inl ks @ map Inr vks, s) }"

definition pv_ops :: "('d, 'e) data_ops \<Rightarrow> ('k + 'v, 'e, 'd, 'd pt_cache \<times> ('k, 'v, 'e) pers_versioned) ptd_ops" where
  "pv_ops D = \<lparr>ptd_rev = (\<lambda>(c, t). pv_rev t), ptd_clear = (\<lambda>(c, t). Some (c, pv_clear t)), ptd_getPts = pv_getPts,
     ptd_getRevPts = pv_revPts, ptd_addPts = pv_addPts D, ptd_unionPts = pv_unionPts D,
     ptd_unionData = pv_unionData D, ptd_clearPts = pv_clearPts D, ptd_clearFullPts = pv_clearFullPts D,
     ptd_remapAllPts = pv_remapAllPts D\<rparr>"

definition pv_pts :: "('d \<Rightarrow> 'e set) \<Rightarrow> 'd pt_cache \<times> ('k, 'v, 'e) pers_versioned \<Rightarrow> 'k + 'v \<Rightarrow> 'e set" where
  "pv_pts \<alpha> s = (case s of (c, t) \<Rightarrow> case_sum (pp_pts \<alpha> (c, pv_tlPTData t)) (pp_pts \<alpha> (c, pv_atPTData t)))"

definition pv_inv :: "('d \<Rightarrow> 'e set) \<Rightarrow> ('d \<Rightarrow> bool) \<Rightarrow> 'd pt_cache \<times> ('k, 'v, 'e) pers_versioned \<Rightarrow> bool" where
  "pv_inv \<alpha> I s \<longleftrightarrow> (case s of (c, t) \<Rightarrow> pp_inv \<alpha> I (c, pv_tlPTData t) \<and> pp_inv \<alpha> I (c, pv_atPTData t) \<and>
     pp_rev (pv_tlPTData t) = pv_rev t \<and> pp_rev (pv_atPTData t) = pv_rev t)"

definition pv_room :: "'d pt_cache \<times> ('k, 'v, 'e) pers_versioned \<Rightarrow> nat \<Rightarrow> bool" where
  "pv_room s n \<longleftrightarrow> pc_room (fst s) n"

abbreviation pv_step :: "('d \<Rightarrow> 'e set) \<Rightarrow> ('d \<Rightarrow> bool) \<Rightarrow> 'd pt_cache \<times> ('k, 'v, 'e) pers_versioned \<Rightarrow> ('k + 'v \<Rightarrow> 'e set) \<Rightarrow>
    'd pt_cache \<times> ('k, 'v, 'e) pers_versioned \<Rightarrow> bool" where
  "pv_step \<alpha> I \<equiv> pt_step (pv_inv \<alpha> I) (pv_pts \<alpha>) pv_room (\<lambda>(c, t). pv_rev t)"

lemma pv_pts_simps [simp]:
  "pv_pts \<alpha> (c, t) (Inl k) = pp_pts \<alpha> (c, pv_tlPTData t) k" "pv_pts \<alpha> (c, t) (Inr v) = pp_pts \<alpha> (c, pv_atPTData t) v"
  by (simp_all add: pv_pts_def)

lemma pv_inv_parts:
  "pv_inv \<alpha> I (c, t) \<Longrightarrow> pp_inv \<alpha> I (c, pv_tlPTData t)" "pv_inv \<alpha> I (c, t) \<Longrightarrow> pp_inv \<alpha> I (c, pv_atPTData t)"
  "pv_inv \<alpha> I (c, t) \<Longrightarrow> pp_rev (pv_tlPTData t) = pv_rev t" "pv_inv \<alpha> I (c, t) \<Longrightarrow> pp_rev (pv_atPTData t) = pv_rev t"
  by (simp_all add: pv_inv_def)

text \<open>A table keeps its meaning while the other one changes the cache.\<close>

lemma pp_other:
  assumes "pp_inv \<alpha> I (c, q)" "pc_inv \<alpha> I c'" "pc_keeps \<alpha> c c'"
  shows "pp_inv \<alpha> I (c', q)" "pp_pts \<alpha> (c', q) = pp_pts \<alpha> (c, q)"
  using assms pp_tab_keeps[of \<alpha> c q c'] id_keeps(2)[of c "pp_ptsMap q" \<alpha> c']
  by (auto simp: pp_inv_def pp_pts_def pp_tab_def)

lemma pv_tl_back:
  assumes s: "pv_inv \<alpha> I (c, t)" and st: "pp_stepn \<alpha> I n (c, pv_tlPTData t) g (c', p)" "n \<le> 2"
    and h: "case_sum g (pp_pts \<alpha> (c, pv_atPTData t)) = h"
  shows "pv_step \<alpha> I (c, t) h (c', t\<lparr>pv_tlPTData := p\<rparr>)"
proof -
  have c': "pc_inv \<alpha> I c'" "pc_keeps \<alpha> c c'" using st(1) by (simp_all add: pp_stepn_def pp_inv_def)
  show ?thesis
    using s st h pp_other[OF pv_inv_parts(2)[OF s] c']
    by (auto simp: pt_step_def pv_inv_def pv_pts_def pv_room_def pc_room_def pp_stepn_def)
qed

lemma pv_tl_ok:
  assumes "pv_inv \<alpha> I (c, t)"
    and "wp (f (c, pv_tlPTData t)) (\<lambda>(x, s'). Q x \<and> pp_stepn \<alpha> I n (c, pv_tlPTData t) g s')"
    and "n \<le> 2" "case_sum g (pp_pts \<alpha> (c, pv_atPTData t)) = h"
  shows "wp (pv_tl f (c, t)) (\<lambda>(x, s'). Q x \<and> pv_step \<alpha> I (c, t) h s')"
  using assms(2) pv_tl_back[OF assms(1) _ assms(3,4)] by (auto simp: pv_tl_def wp_iff)

lemma pv_tl_do_ok:
  assumes "pv_inv \<alpha> I (c, t)"
    and "wp (f (c, pv_tlPTData t)) (pp_stepn \<alpha> I n (c, pv_tlPTData t) g)"
    and "n \<le> 2" "case_sum g (pp_pts \<alpha> (c, pv_atPTData t)) = h"
  shows "wp (pv_tl_do f (c, t)) (pv_step \<alpha> I (c, t) h)"
  using assms(2) pv_tl_back[OF assms(1) _ assms(3,4)] by (auto simp: pv_tl_do_def pv_tl_def wp_iff)

lemma pv_at_back:
  assumes s: "pv_inv \<alpha> I (c, t)" and st: "pp_stepn \<alpha> I n (c, pv_atPTData t) g (c', p)" "n \<le> 2"
    and h: "case_sum (pp_pts \<alpha> (c, pv_tlPTData t)) g = h"
  shows "pv_step \<alpha> I (c, t) h (c', t\<lparr>pv_atPTData := p\<rparr>)"
proof -
  have c': "pc_inv \<alpha> I c'" "pc_keeps \<alpha> c c'" using st(1) by (simp_all add: pp_stepn_def pp_inv_def)
  show ?thesis
    using s st h pp_other[OF pv_inv_parts(1)[OF s] c']
    by (auto simp: pt_step_def pv_inv_def pv_pts_def pv_room_def pc_room_def pp_stepn_def)
qed

lemma pv_at_ok:
  assumes "pv_inv \<alpha> I (c, t)"
    and "wp (f (c, pv_atPTData t)) (\<lambda>(x, s'). Q x \<and> pp_stepn \<alpha> I n (c, pv_atPTData t) g s')"
    and "n \<le> 2" "case_sum (pp_pts \<alpha> (c, pv_tlPTData t)) g = h"
  shows "wp (pv_at f (c, t)) (\<lambda>(x, s'). Q x \<and> pv_step \<alpha> I (c, t) h s')"
  using assms(2) pv_at_back[OF assms(1) _ assms(3,4)] by (auto simp: pv_at_def wp_iff)

lemma pv_at_do_ok:
  assumes "pv_inv \<alpha> I (c, t)"
    and "wp (f (c, pv_atPTData t)) (pp_stepn \<alpha> I n (c, pv_atPTData t) g)"
    and "n \<le> 2" "case_sum (pp_pts \<alpha> (c, pv_tlPTData t)) g = h"
  shows "wp (pv_at_do f (c, t)) (pv_step \<alpha> I (c, t) h)"
  using assms(2) pv_at_back[OF assms(1) _ assms(3,4)] by (auto simp: pv_at_do_def pv_at_def wp_iff)

context canonical_data_set
begin

lemma pv_getPts_ok:
  assumes s: "pv_inv \<alpha> I (c, t)"
  shows "wp (pv_getPts x (c, t)) (\<lambda>(d, s'). (I d \<and> \<alpha> d = pv_pts \<alpha> (c, t) x) \<and> pv_step \<alpha> I (c, t) (pv_pts \<alpha> (c, t)) s')"
proof (cases x)
  case (Inl k)
  show ?thesis
    unfolding pv_getPts_def Inl sum.case pv_pts_simps
    by (rule pv_tl_ok[OF s], rule pp_getPts_ok[OF pv_inv_parts(1)[OF s]])
      (auto simp: pv_pts_def fun_eq_iff split: sum.splits)
next
  case (Inr k)
  show ?thesis
    unfolding pv_getPts_def Inr sum.case pv_pts_simps
    by (rule pv_at_ok[OF s], rule pp_getPts_ok[OF pv_inv_parts(2)[OF s]])
      (auto simp: pv_pts_def fun_eq_iff split: sum.splits)
qed

lemma pv_addPts_ok:
  assumes s: "pv_inv \<alpha> I (c, t)" and e: "ok e" and room: "pc_room c 2"
  shows "wp (pv_addPts D x e (c, t)) (\<lambda>(b, s'). (b \<longleftrightarrow> e \<notin> pv_pts \<alpha> (c, t) x) \<and> pv_step \<alpha> I (c, t) ((pv_pts \<alpha> (c, t))(x := insert e (pv_pts \<alpha> (c, t) x))) s')"
proof (cases x)
  case (Inl k)
  show ?thesis
    unfolding pv_addPts_def Inl sum.case pv_pts_simps
    by (rule pv_tl_ok[OF s], rule pp_addPts_ok[OF pv_inv_parts(1)[OF s] e room])
      (auto simp: pv_pts_def fun_eq_iff split: sum.splits)
next
  case (Inr k)
  show ?thesis
    unfolding pv_addPts_def Inr sum.case pv_pts_simps
    by (rule pv_at_ok[OF s], rule pp_addPts_ok[OF pv_inv_parts(2)[OF s] e room])
      (auto simp: pv_pts_def fun_eq_iff split: sum.splits)
qed

lemma pv_unionData_ok:
  assumes s: "pv_inv \<alpha> I (c, t)" and d: "I d" and room: "pc_room c 2"
  shows "wp (pv_unionData D x d (c, t)) (\<lambda>(b, s'). (b \<longleftrightarrow> \<not> \<alpha> d \<subseteq> pv_pts \<alpha> (c, t) x) \<and> pv_step \<alpha> I (c, t) ((pv_pts \<alpha> (c, t))(x := pv_pts \<alpha> (c, t) x \<union> \<alpha> d)) s')"
proof (cases x)
  case (Inl k)
  show ?thesis
    unfolding pv_unionData_def Inl sum.case pv_pts_simps
    by (rule pv_tl_ok[OF s], rule pp_unionData_ok[OF pv_inv_parts(1)[OF s] d room])
      (auto simp: pv_pts_def fun_eq_iff split: sum.splits)
next
  case (Inr k)
  show ?thesis
    unfolding pv_unionData_def Inr sum.case pv_pts_simps
    by (rule pv_at_ok[OF s], rule pp_unionData_ok[OF pv_inv_parts(2)[OF s] d room])
      (auto simp: pv_pts_def fun_eq_iff split: sum.splits)
qed

lemma pv_clearPts_ok:
  assumes s: "pv_inv \<alpha> I (c, t)" and e: "ok e" and room: "pc_room c 2"
  shows "wp (pv_clearPts D x e (c, t)) (pv_step \<alpha> I (c, t) ((pv_pts \<alpha> (c, t))(x := pv_pts \<alpha> (c, t) x - {e})))"
proof (cases x)
  case (Inl k)
  show ?thesis
    unfolding pv_clearPts_def Inl sum.case pv_pts_simps
    by (rule pv_tl_do_ok[OF s], rule pp_clearPts_ok[OF pv_inv_parts(1)[OF s] e room])
      (auto simp: pv_pts_def fun_eq_iff split: sum.splits)
next
  case (Inr k)
  show ?thesis
    unfolding pv_clearPts_def Inr sum.case pv_pts_simps
    by (rule pv_at_do_ok[OF s], rule pp_clearPts_ok[OF pv_inv_parts(2)[OF s] e room])
      (auto simp: pv_pts_def fun_eq_iff split: sum.splits)
qed

lemma pv_clearFullPts_ok:
  assumes s: "pv_inv \<alpha> I (c, t)"
  shows "wp (pv_clearFullPts D x (c, t)) (pv_step \<alpha> I (c, t) ((pv_pts \<alpha> (c, t))(x := {})))"
proof (cases x)
  case (Inl k)
  show ?thesis
    unfolding pv_clearFullPts_def Inl sum.case pv_pts_simps
    by (rule pv_tl_do_ok[OF s], rule pp_clearFullPts_ok[OF pv_inv_parts(1)[OF s]])
      (auto simp: pv_pts_def fun_eq_iff split: sum.splits)
next
  case (Inr k)
  show ?thesis
    unfolding pv_clearFullPts_def Inr sum.case pv_pts_simps
    by (rule pv_at_do_ok[OF s], rule pp_clearFullPts_ok[OF pv_inv_parts(2)[OF s]])
      (auto simp: pv_pts_def fun_eq_iff split: sum.splits)
qed

lemma pv_remapAllPts_ok:
  assumes s: "pv_inv \<alpha> I (c, t)"
  shows "wp (pv_remapAllPts D (c, t)) (pv_step \<alpha> I (c, t) (pv_pts \<alpha> (c, t)))"
  unfolding pv_remapAllPts_def
  by (rule pv_tl_do_ok[OF s], rule pp_remapAllPts_ok[OF pv_inv_parts(1)[OF s]]) (simp_all add: pv_pts_def)

lemma pv_clear_ok: "pv_inv \<alpha> I (c, t) \<Longrightarrow> pv_step \<alpha> I (c, t) (\<lambda>_. {}) (c, pv_clear t)"
  using pp_clear_ok[of c "pv_tlPTData t"] pp_clear_ok[of c "pv_atPTData t"]
  by (auto simp: pv_clear_def pt_step_def pp_stepn_def pv_inv_def pv_pts_def pv_room_def pc_room_def fun_eq_iff
      split: sum.splits)

text \<open>A union whose source number comes from the other table.\<close>

lemma pv_cross:
  assumes s: "pv_inv \<alpha> I (c, t)" and src: "pc_has \<alpha> c i S" and room: "pc_room c 1"
  shows "wp (pv_tl (pp_unionPtsFromId D k i) (c, t)) (\<lambda>(b, s'). (b \<longleftrightarrow> \<not> S \<subseteq> pv_pts \<alpha> (c, t) (Inl k)) \<and>
      pv_step \<alpha> I (c, t) ((pv_pts \<alpha> (c, t))(Inl k := pv_pts \<alpha> (c, t) (Inl k) \<union> S)) s')"
    and "wp (pv_at (pp_unionPtsFromId D v i) (c, t)) (\<lambda>(b, s'). (b \<longleftrightarrow> \<not> S \<subseteq> pv_pts \<alpha> (c, t) (Inr v)) \<and>
      pv_step \<alpha> I (c, t) ((pv_pts \<alpha> (c, t))(Inr v := pv_pts \<alpha> (c, t) (Inr v) \<union> S)) s')"
  unfolding pv_pts_simps
  by (rule pv_tl_ok[OF s], rule pp_unionPtsFromId_ok[OF pv_inv_parts(1)[OF s] src room],
      simp, auto simp: pv_pts_def fun_eq_iff split: sum.splits)
    (rule pv_at_ok[OF s], rule pp_unionPtsFromId_ok[OF pv_inv_parts(2)[OF s] src room],
      simp, auto simp: pv_pts_def fun_eq_iff split: sum.splits)

lemma pp_aref:
  assumes "pp_inv \<alpha> I (c, q)"
  shows "pp_inv \<alpha> I (c, q\<lparr>pp_ptsMap := aref 0 (pp_ptsMap q) k\<rparr>)"
    and "pp_pts \<alpha> (c, q\<lparr>pp_ptsMap := aref 0 (pp_ptsMap q) k\<rparr>) = pp_pts \<alpha> (c, q)"
    and "pc_has \<alpha> c (aget 0 (pp_ptsMap q) k) (pp_pts \<alpha> (c, q) k)"
  using pp_inv_parts[OF assms] id_has[of c "pp_ptsMap q" \<alpha> k] by (simp_all add: pp_inv_def pp_tab_def pp_pts_def)

lemma pv_unionPts_ok:
  assumes s: "pv_inv \<alpha> I (c, t)" and room: "pc_room c 1"
  shows "wp (pv_unionPts D x y (c, t)) (\<lambda>(b, s'). (b \<longleftrightarrow> \<not> pv_pts \<alpha> (c, t) y \<subseteq> pv_pts \<alpha> (c, t) x) \<and>
    pv_step \<alpha> I (c, t) ((pv_pts \<alpha> (c, t))(x := pv_pts \<alpha> (c, t) x \<union> pv_pts \<alpha> (c, t) y)) s')"
proof (cases x; cases y)
  fix k k' assume xy: "x = Inl k" "y = Inl k'"
  show ?thesis
    unfolding pv_unionPts_def xy prod.case sum.case pv_pts_simps
    by (rule pv_tl_ok[OF s], rule pp_unionPts_ok[OF pv_inv_parts(1)[OF s] room])
      (auto simp: pv_pts_def fun_eq_iff split: sum.splits)
next
  fix k k' assume xy: "x = Inr k" "y = Inr k'"
  show ?thesis
    unfolding pv_unionPts_def xy prod.case sum.case pv_pts_simps
    by (rule pv_at_ok[OF s], rule pp_unionPts_ok[OF pv_inv_parts(2)[OF s] room])
      (auto simp: pv_pts_def fun_eq_iff split: sum.splits)
next
  fix k k' assume xy: "x = Inl k" "y = Inr k'"
  let ?q = "pv_atPTData t" let ?t = "t\<lparr>pv_atPTData := ?q\<lparr>pp_ptsMap := aref 0 (pp_ptsMap ?q) k'\<rparr>\<rparr>"
  note q = pp_aref[OF pv_inv_parts(2)[OF s], of k']
  have t: "pv_inv \<alpha> I (c, ?t)" "pv_pts \<alpha> (c, ?t) = pv_pts \<alpha> (c, t)"
    using s q by (simp_all add: pv_inv_def pv_pts_def)
  show ?thesis
    using pv_cross(1)[OF t(1) q(3) room, of k] t(2)
    by (simp add: pv_unionPts_def xy pt_step_def pv_room_def)
next
  fix k k' assume xy: "x = Inr k" "y = Inl k'"
  let ?q = "pv_tlPTData t" let ?t = "t\<lparr>pv_tlPTData := ?q\<lparr>pp_ptsMap := aref 0 (pp_ptsMap ?q) k'\<rparr>\<rparr>"
  note q = pp_aref[OF pv_inv_parts(1)[OF s], of k']
  have t: "pv_inv \<alpha> I (c, ?t)" "pv_pts \<alpha> (c, ?t) = pv_pts \<alpha> (c, t)"
    using s q by (simp_all add: pv_inv_def pv_pts_def)
  show ?thesis
    using pv_cross(2)[OF t(1) q(3) room, of k] t(2)
    by (simp add: pv_unionPts_def xy pt_step_def pv_room_def)
qed

lemma pv_revPts_ok:
  assumes s: "pv_inv \<alpha> I (c, t)" and rv: "pv_rev t"
  shows "wp (pv_revPts e (c, t)) (\<lambda>(xs, s'). (distinct xs \<and> List.set xs = {x. e \<in> pv_pts \<alpha> (c, t) x}) \<and>
    pt_step (pv_inv \<alpha> I) (pv_pts \<alpha>) (\<lambda>s n. pv_room s n) (\<lambda>(c, t). pv_rev t) (c, t) (pv_pts \<alpha> (c, t)) s')"
proof -
  let ?T = "pv_tlPTData t" and ?A = "pv_atPTData t"
  have r: "pp_rev ?T" "pp_rev ?A" using pv_inv_parts(3,4)[OF s] rv by simp_all
  let ?t1 = "t\<lparr>pv_tlPTData := ?T\<lparr>pp_revPtsMap := aref [] (pp_revPtsMap ?T) e\<rparr>\<rparr>"
  let ?t2 = "?t1\<lparr>pv_atPTData := ?A\<lparr>pp_revPtsMap := aref [] (pp_revPtsMap ?A) e\<rparr>\<rparr>"
  let ?ks = "aget [] (pp_revPtsMap ?T) e" and ?vs = "aget [] (pp_revPtsMap ?A) e"
  have run: "pv_revPts e (c, t) = Some (map Inl ?ks @ map Inr ?vs, c, ?t2)"
    using r rv by (simp add: pv_revPts_def pv_getRevPts_def pv_getVersionedKeyRevPts_def pv_tl_def pv_at_def pp_getRevPts_def)
  have ks: "distinct ?ks" "List.set ?ks = {k. e \<in> pp_pts \<alpha> (c, ?T) k}"
    using pp_inv_parts(3)[OF pv_inv_parts(1)[OF s]] r by (simp_all add: rev_ok_def)
  have vs: "distinct ?vs" "List.set ?vs = {k. e \<in> pp_pts \<alpha> (c, ?A) k}"
    using pp_inv_parts(3)[OF pv_inv_parts(2)[OF s]] r by (simp_all add: rev_ok_def)
  have "List.set (map Inl ?ks @ map Inr ?vs) = {x. e \<in> pv_pts \<alpha> (c, t) x}"
    unfolding set_append set_map ks(2) vs(2) by (rule set_eqI, rename_tac x, case_tac x) auto
  moreover have "distinct (map Inl ?ks @ map Inr ?vs)" using ks(1) vs(1) by (auto simp: distinct_map)
  moreover have "pv_step \<alpha> I (c, t) (pv_pts \<alpha> (c, t)) (c, ?t2)"
    using s by (auto simp: pt_step_def pv_inv_def pv_pts_def pv_room_def pc_room_def pp_inv_def pp_tab_def pp_pts_def rev_ok_def)
  ultimately show ?thesis using run by simp
qed

lemma pv_pt_data: "pt_data (pv_ops D) \<alpha> I ok (pv_inv \<alpha> I) (pv_pts \<alpha>) pv_room"
proof
  fix s :: "'d pt_cache \<times> ('k, 'v, 'e) pers_versioned" and x y e d
  assume "pv_inv \<alpha> I s"
  moreover obtain c t where ct: "s = (c, t)" by fastforce
  ultimately have s: "pv_inv \<alpha> I (c, t)" by simp
  note simps = pv_ops_def ct
  show "wp (ptd_clear (pv_ops D) s) (pt_step (pv_inv \<alpha> I) (pv_pts \<alpha>) pv_room (ptd_rev (pv_ops D)) s (\<lambda>_. {}))"
    using pv_clear_ok[OF s] by (simp add: simps)
  show "wp (ptd_getPts (pv_ops D) x s) (\<lambda>(d, s'). I d \<and> \<alpha> d = pv_pts \<alpha> s x \<and>
      pt_step (pv_inv \<alpha> I) (pv_pts \<alpha>) pv_room (ptd_rev (pv_ops D)) s (pv_pts \<alpha> s) s')"
    using pv_getPts_ok[OF s, of x] by (simp add: simps)
  show "wp (ptd_getRevPts (pv_ops D) e s) (\<lambda>(xs, s'). distinct xs \<and> List.set xs = {x. e \<in> pv_pts \<alpha> s x} \<and>
      pt_step (pv_inv \<alpha> I) (pv_pts \<alpha>) pv_room (ptd_rev (pv_ops D)) s (pv_pts \<alpha> s) s')" if "ptd_rev (pv_ops D) s"
    using pv_revPts_ok[OF s, of e] that by (simp add: simps)
  show "wp (ptd_clearFullPts (pv_ops D) x s)
      (pt_step (pv_inv \<alpha> I) (pv_pts \<alpha>) pv_room (ptd_rev (pv_ops D)) s ((pv_pts \<alpha> s)(x := {})))"
    using pv_clearFullPts_ok[OF s, of x] by (simp add: simps)
  show "wp (ptd_remapAllPts (pv_ops D) s)
      (pt_step (pv_inv \<alpha> I) (pv_pts \<alpha>) pv_room (ptd_rev (pv_ops D)) s (pv_pts \<alpha> s))"
    using pv_remapAllPts_ok[OF s] by (simp add: simps)
  assume room: "pv_room s 2"
  then have r2: "pc_room c 2" and r1: "pc_room c 1" by (simp_all add: pv_room_def pc_room_def ct)
  show "wp (ptd_addPts (pv_ops D) x e s) (\<lambda>(b, s'). (b \<longleftrightarrow> e \<notin> pv_pts \<alpha> s x) \<and>
      pt_step (pv_inv \<alpha> I) (pv_pts \<alpha>) pv_room (ptd_rev (pv_ops D)) s ((pv_pts \<alpha> s)(x := insert e (pv_pts \<alpha> s x))) s')"
    if "ok e" using pv_addPts_ok[OF s that r2, of x] by (simp add: simps)
  show "wp (ptd_unionPts (pv_ops D) x y s) (\<lambda>(b, s'). (b \<longleftrightarrow> \<not> pv_pts \<alpha> s y \<subseteq> pv_pts \<alpha> s x) \<and>
      pt_step (pv_inv \<alpha> I) (pv_pts \<alpha>) pv_room (ptd_rev (pv_ops D)) s
        ((pv_pts \<alpha> s)(x := pv_pts \<alpha> s x \<union> pv_pts \<alpha> s y)) s')"
    using pv_unionPts_ok[OF s r1, of x y] by (simp add: simps)
  show "wp (ptd_unionData (pv_ops D) x d s) (\<lambda>(b, s'). (b \<longleftrightarrow> \<not> \<alpha> d \<subseteq> pv_pts \<alpha> s x) \<and>
      pt_step (pv_inv \<alpha> I) (pv_pts \<alpha>) pv_room (ptd_rev (pv_ops D)) s ((pv_pts \<alpha> s)(x := pv_pts \<alpha> s x \<union> \<alpha> d)) s')"
    if "I d" using pv_unionData_ok[OF s that r2, of x] by (simp add: simps)
  show "wp (ptd_clearPts (pv_ops D) x e s)
      (pt_step (pv_inv \<alpha> I) (pv_pts \<alpha>) pv_room (ptd_rev (pv_ops D)) s ((pv_pts \<alpha> s)(x := pv_pts \<alpha> s x - {e})))"
    if "ok e" using pv_clearPts_ok[OF s that r2, of x] by (simp add: simps)
qed (simp add: pv_room_def pc_room_def)

end

interpretation pers_versioned: pt_data "pv_ops (pts_ops (initial_env SBV h))" "pts_of (initial_env SBV h)"
    "run_inv (initial_env SBV h)" "run_ok (initial_env SBV h)"
    "pv_inv (pts_of (initial_env SBV h)) (run_inv (initial_env SBV h))"
    "pv_pts (pts_of (initial_env SBV h))" pv_room for h
  by (rule pts.pv_pt_data)

lemma pv_new_ok:
  assumes "pc_inv \<alpha> I c"
  shows "pv_inv \<alpha> I (c, pv_new rv)" "pv_pts \<alpha> (c, pv_new rv) = (\<lambda>_. {})" "pv_rev (pv_new rv) = rv"
  using assms by (auto simp: pv_inv_def pv_new_def pv_pts_def pp_new_ok fun_eq_iff split: sum.splits)

end
