(* ===== verification/Flow_PT_Data.thy ===== *)
theory Flow_PT_Data
  imports PT_Data
begin

text \<open>
  The contract of \<^verbatim>\<open>DFPTData\<close> (\<^verbatim>\<open>svf/include/MemoryModel/AbstractPointsToDS.h\<close>), the tables of the
  flow-sensitive analyses: besides the sets of the top-level pointers, every program point has an IN
  and an OUT set for each variable. A reference to one of these sets is a \<open>slot\<close>; every update is a
  union of one slot into another. The virtual methods are the record \<open>df_ops\<close>. \<open>full_run1\<close> says what
  they do over plain sets in the tables that always propagate, \<open>inc_run1\<close> in the incremental ones,
  which remember the variables whose IN or OUT set is new. The locales \<open>df_pt_data\<close> and
  \<open>inc_df_pt_data\<close> demand that of an implementation.
\<close>

subsection \<open>Slots and nested maps\<close>

datatype 'k slot = TLs 'k | INs nat 'k | OUTs nat 'k

text \<open>\<^verbatim>\<open>m[loc][var]\<close>, with the entries that forming the reference creates.\<close>

definition nget :: "'v \<Rightarrow> ('l \<times> ('k \<times> 'v) list) list \<Rightarrow> 'l \<Rightarrow> 'k \<Rightarrow> 'v" where
  "nget d m l k = aget d (aget [] m l) k"

definition nref :: "'v \<Rightarrow> ('l \<times> ('k \<times> 'v) list) list \<Rightarrow> 'l \<Rightarrow> 'k \<Rightarrow> ('l \<times> ('k \<times> 'v) list) list" where
  "nref d m l k = aput l (aref d (aget [] m l) k) m"

definition nput :: "'l \<Rightarrow> 'k \<Rightarrow> 'v \<Rightarrow> ('l \<times> ('k \<times> 'v) list) list \<Rightarrow> ('l \<times> ('k \<times> 'v) list) list" where
  "nput l k v m = aput l (aput k v (aget [] m l)) m"

lemma nget_nref [simp]: "nget d (nref d m l k) l' k' = nget d m l' k'"
  by (simp add: nget_def nref_def)

lemma nget_nput [simp]: "nget d (nput l k v m) l' k' = (if l' = l \<and> k' = k then v else nget d m l' k')"
  by (auto simp: nget_def nput_def)

lemma ahas_nref [simp]: "ahas (nref d m l k) l' \<longleftrightarrow> l' = l \<or> ahas m l'"
  by (auto simp: nref_def)

lemma ahas_nput [simp]: "ahas (nput l k v m) l' \<longleftrightarrow> l' = l \<or> ahas m l'"
  by (auto simp: nput_def)

lemma nget_not_ahas: "\<not> ahas m l \<Longrightarrow> nget d m l k = d"
  by (simp add: nget_def aget_not_ahas)

lemma nget_Nil [simp]: "nget d [] l k = d"
  by (simp add: nget_def)

subsection \<open>The virtual methods\<close>

record ('k, 'e, 'd, 's) df_ops =
  df_getPts :: "'k \<Rightarrow> 's \<Rightarrow> ('d \<times> 's) option"
  df_getDFInPtsSet :: "nat \<Rightarrow> 'k \<Rightarrow> 's \<Rightarrow> ('d \<times> 's) option"
  df_getDFOutPtsSet :: "nat \<Rightarrow> 'k \<Rightarrow> 's \<Rightarrow> ('d \<times> 's) option"
  df_addPts :: "'k \<Rightarrow> 'e \<Rightarrow> 's \<Rightarrow> (bool \<times> 's) option"
  df_unionPts :: "'k \<Rightarrow> 'k \<Rightarrow> 's \<Rightarrow> (bool \<times> 's) option"
  df_unionData :: "'k \<Rightarrow> 'd \<Rightarrow> 's \<Rightarrow> (bool \<times> 's) option"
  df_clearPts :: "'k \<Rightarrow> 'e \<Rightarrow> 's \<Rightarrow> 's option"
  df_clearFullPts :: "'k \<Rightarrow> 's \<Rightarrow> 's option"
  df_remapAllPts :: "'s \<Rightarrow> 's option"
  df_updateDFInFromIn :: "nat \<Rightarrow> 'k \<Rightarrow> nat \<Rightarrow> 'k \<Rightarrow> 's \<Rightarrow> (bool \<times> 's) option"
  df_updateAllDFInFromIn :: "nat \<Rightarrow> 'k \<Rightarrow> nat \<Rightarrow> 'k \<Rightarrow> 's \<Rightarrow> (bool \<times> 's) option"
  df_updateDFInFromOut :: "nat \<Rightarrow> 'k \<Rightarrow> nat \<Rightarrow> 'k \<Rightarrow> 's \<Rightarrow> (bool \<times> 's) option"
  df_updateAllDFInFromOut :: "nat \<Rightarrow> 'k \<Rightarrow> nat \<Rightarrow> 'k \<Rightarrow> 's \<Rightarrow> (bool \<times> 's) option"
  df_updateDFOutFromIn :: "nat \<Rightarrow> 'k \<Rightarrow> nat \<Rightarrow> 'k \<Rightarrow> 's \<Rightarrow> (bool \<times> 's) option"
  df_updateAllDFOutFromIn :: "nat \<Rightarrow> 'k \<Rightarrow> bool \<Rightarrow> 's \<Rightarrow> (bool \<times> 's) option"
  df_clearAllDFOutUpdatedVar :: "nat \<Rightarrow> 's \<Rightarrow> 's option"
  df_updateTLVPts :: "nat \<Rightarrow> 'k \<Rightarrow> 'k \<Rightarrow> 's \<Rightarrow> (bool \<times> 's) option"
  df_updateATVPts :: "'k \<Rightarrow> nat \<Rightarrow> 'k \<Rightarrow> 's \<Rightarrow> (bool \<times> 's) option"

subsection \<open>The operations of a client, over an implementation\<close>

datatype ('k, 'e, 'd) df_op =
  GetTL 'k | GetIN nat 'k | GetOUT nat 'k | AddTL 'k 'e | UnionTL 'k 'k | UnionDataTL 'k 'd | ClearTL 'k 'e
| ClearFullTL 'k | Remap | InFromIn nat 'k nat 'k | AllInFromIn nat 'k nat 'k | InFromOut nat 'k nat 'k
| AllInFromOut nat 'k nat 'k | OutFromIn nat 'k nat 'k | AllOutFromIn nat 'k bool | ClearOutUpdated nat
| UpdateTLV nat 'k 'k | UpdateATV 'k nat 'k

datatype 'e df_answer = DoneDF | ChangedDF bool | PtsDF "'e set"

fun df_run1 :: "('k, 'e, 'd, 's, 'm) df_ops_scheme \<Rightarrow> ('d \<Rightarrow> 'e set) \<Rightarrow> ('k, 'e, 'd) df_op \<Rightarrow> 's \<Rightarrow> ('e df_answer \<times> 's) option" where
  "df_run1 P \<alpha> (GetTL k) s = map_option (\<lambda>(d, s). (PtsDF (\<alpha> d), s)) (df_getPts P k s)"
| "df_run1 P \<alpha> (GetIN l k) s = map_option (\<lambda>(d, s). (PtsDF (\<alpha> d), s)) (df_getDFInPtsSet P l k s)"
| "df_run1 P \<alpha> (GetOUT l k) s = map_option (\<lambda>(d, s). (PtsDF (\<alpha> d), s)) (df_getDFOutPtsSet P l k s)"
| "df_run1 P \<alpha> (AddTL k e) s = map_option (\<lambda>(b, s). (ChangedDF b, s)) (df_addPts P k e s)"
| "df_run1 P \<alpha> (UnionTL k k') s = map_option (\<lambda>(b, s). (ChangedDF b, s)) (df_unionPts P k k' s)"
| "df_run1 P \<alpha> (UnionDataTL k d) s = map_option (\<lambda>(b, s). (ChangedDF b, s)) (df_unionData P k d s)"
| "df_run1 P \<alpha> (ClearTL k e) s = map_option (Pair DoneDF) (df_clearPts P k e s)"
| "df_run1 P \<alpha> (ClearFullTL k) s = map_option (Pair DoneDF) (df_clearFullPts P k s)"
| "df_run1 P \<alpha> Remap s = map_option (Pair DoneDF) (df_remapAllPts P s)"
| "df_run1 P \<alpha> (InFromIn l k l' k') s = map_option (\<lambda>(b, s). (ChangedDF b, s)) (df_updateDFInFromIn P l k l' k' s)"
| "df_run1 P \<alpha> (AllInFromIn l k l' k') s = map_option (\<lambda>(b, s). (ChangedDF b, s)) (df_updateAllDFInFromIn P l k l' k' s)"
| "df_run1 P \<alpha> (InFromOut l k l' k') s = map_option (\<lambda>(b, s). (ChangedDF b, s)) (df_updateDFInFromOut P l k l' k' s)"
| "df_run1 P \<alpha> (AllInFromOut l k l' k') s = map_option (\<lambda>(b, s). (ChangedDF b, s)) (df_updateAllDFInFromOut P l k l' k' s)"
| "df_run1 P \<alpha> (OutFromIn l k l' k') s = map_option (\<lambda>(b, s). (ChangedDF b, s)) (df_updateDFOutFromIn P l k l' k' s)"
| "df_run1 P \<alpha> (AllOutFromIn l k b) s = map_option (\<lambda>(b, s). (ChangedDF b, s)) (df_updateAllDFOutFromIn P l k b s)"
| "df_run1 P \<alpha> (ClearOutUpdated l) s = map_option (Pair DoneDF) (df_clearAllDFOutUpdatedVar P l s)"
| "df_run1 P \<alpha> (UpdateTLV l k k') s = map_option (\<lambda>(b, s). (ChangedDF b, s)) (df_updateTLVPts P l k k' s)"
| "df_run1 P \<alpha> (UpdateATV k l k') s = map_option (\<lambda>(b, s). (ChangedDF b, s)) (df_updateATVPts P k l k' s)"

fun df_run :: "('k, 'e, 'd, 's, 'm) df_ops_scheme \<Rightarrow> ('d \<Rightarrow> 'e set) \<Rightarrow> ('k, 'e, 'd) df_op list \<Rightarrow> 's \<Rightarrow>
    ('e df_answer list \<times> 's) option" where
  "df_run P \<alpha> [] s = Some ([], s)"
| "df_run P \<alpha> (x # xs) s = do { (a, s) \<leftarrow> df_run1 P \<alpha> x s; (rs, s) \<leftarrow> df_run P \<alpha> xs s; Some (a # rs, s) }"

subsection \<open>The same over plain sets\<close>

text \<open>One slot united into another; the OUT sets of a point after its IN sets have been united into them.\<close>

definition into :: "'k slot \<Rightarrow> 'e set \<Rightarrow> ('k slot \<Rightarrow> 'e set) \<Rightarrow> 'e df_answer \<times> ('k slot \<Rightarrow> 'e set)" where
  "into x A f = (ChangedDF (\<not> A \<subseteq> f x), f(x := f x \<union> A))"

definition outs_from_ins :: "nat \<Rightarrow> 'k set \<Rightarrow> ('k slot \<Rightarrow> 'e set) \<Rightarrow> 'k slot \<Rightarrow> 'e set" where
  "outs_from_ins l V f x = (case x of OUTs l' v \<Rightarrow> if l' = l \<and> v \<in> V then f x \<union> f (INs l v) else f x | _ \<Rightarrow> f x)"

definition new_outs :: "nat \<Rightarrow> 'k set \<Rightarrow> ('k slot \<Rightarrow> 'e set) \<Rightarrow> 'k set" where
  "new_outs l V f = {v \<in> V. \<not> f (INs l v) \<subseteq> f (OUTs l v)}"

fun full_run1 :: "('d \<Rightarrow> 'e set) \<Rightarrow> ('k, 'e, 'd) df_op \<Rightarrow> ('k slot \<Rightarrow> 'e set) \<Rightarrow> 'e df_answer \<times> ('k slot \<Rightarrow> 'e set)" where
  "full_run1 \<alpha> (GetTL k) f = (PtsDF (f (TLs k)), f)"
| "full_run1 \<alpha> (GetIN l k) f = (PtsDF (f (INs l k)), f)"
| "full_run1 \<alpha> (GetOUT l k) f = (PtsDF (f (OUTs l k)), f)"
| "full_run1 \<alpha> (AddTL k e) f = into (TLs k) {e} f"
| "full_run1 \<alpha> (UnionTL k k') f = into (TLs k) (f (TLs k')) f"
| "full_run1 \<alpha> (UnionDataTL k d) f = into (TLs k) (\<alpha> d) f"
| "full_run1 \<alpha> (ClearTL k e) f = (DoneDF, f(TLs k := f (TLs k) - {e}))"
| "full_run1 \<alpha> (ClearFullTL k) f = (DoneDF, f(TLs k := {}))"
| "full_run1 \<alpha> Remap f = (DoneDF, f)"
| "full_run1 \<alpha> (InFromIn l k l' k') f = into (INs l' k') (f (INs l k)) f"
| "full_run1 \<alpha> (AllInFromIn l k l' k') f = into (INs l' k') (f (INs l k)) f"
| "full_run1 \<alpha> (InFromOut l k l' k') f = into (INs l' k') (f (OUTs l k)) f"
| "full_run1 \<alpha> (AllInFromOut l k l' k') f = into (INs l' k') (f (OUTs l k)) f"
| "full_run1 \<alpha> (OutFromIn l k l' k') f = into (OUTs l' k') (f (INs l k)) f"
| "full_run1 \<alpha> (AllOutFromIn l k strong) f =
     (let V = (if strong then - {k} else UNIV) in (ChangedDF (new_outs l V f \<noteq> {}), outs_from_ins l V f))"
| "full_run1 \<alpha> (ClearOutUpdated l) f = (DoneDF, f)"
| "full_run1 \<alpha> (UpdateTLV l k k') f = into (TLs k') (f (INs l k)) f"
| "full_run1 \<alpha> (UpdateATV k l k') f = into (OUTs l k') (f (TLs k)) f"

text \<open>The incremental tables: the sets, and the variables that are new in the IN and the OUT of a point.\<close>

record ('k, 'e) inc_spec =
  is_pts :: "'k slot \<Rightarrow> 'e set"
  is_in :: "nat \<Rightarrow> 'k set"
  is_out :: "nat \<Rightarrow> 'k set"

definition into_in :: "nat \<Rightarrow> 'k \<Rightarrow> 'e set \<Rightarrow> ('k, 'e) inc_spec \<Rightarrow> 'e df_answer \<times> ('k, 'e) inc_spec" where
  "into_in l k A s = (if A \<subseteq> is_pts s (INs l k) then (ChangedDF False, s)
     else (ChangedDF True, s\<lparr>is_pts := (is_pts s)(INs l k := is_pts s (INs l k) \<union> A),
                             is_in := (is_in s)(l := insert k (is_in s l))\<rparr>))"

definition into_out :: "nat \<Rightarrow> 'k \<Rightarrow> 'e set \<Rightarrow> ('k, 'e) inc_spec \<Rightarrow> 'e df_answer \<times> ('k, 'e) inc_spec" where
  "into_out l k A s = (if A \<subseteq> is_pts s (OUTs l k) then (ChangedDF False, s)
     else (ChangedDF True, s\<lparr>is_pts := (is_pts s)(OUTs l k := is_pts s (OUTs l k) \<union> A),
                             is_out := (is_out s)(l := insert k (is_out s l))\<rparr>))"

definition drop_in :: "nat \<Rightarrow> 'k \<Rightarrow> ('k, 'e) inc_spec \<Rightarrow> ('k, 'e) inc_spec" where
  "drop_in l k s = s\<lparr>is_in := (is_in s)(l := is_in s l - {k})\<rparr>"

fun inc_run1 :: "('d \<Rightarrow> 'e set) \<Rightarrow> ('k, 'e, 'd) df_op \<Rightarrow> ('k, 'e) inc_spec \<Rightarrow> 'e df_answer \<times> ('k, 'e) inc_spec" where
  "inc_run1 \<alpha> (InFromIn l k l' k') s =
     (if k \<in> is_in s l then into_in l' k' (is_pts s (INs l k)) s else (ChangedDF False, s))"
| "inc_run1 \<alpha> (AllInFromIn l k l' k') s = into_in l' k' (is_pts s (INs l k)) s"
| "inc_run1 \<alpha> (InFromOut l k l' k') s =
     (if k \<in> is_out s l then into_in l' k' (is_pts s (OUTs l k)) s else (ChangedDF False, s))"
| "inc_run1 \<alpha> (AllInFromOut l k l' k') s = into_in l' k' (is_pts s (OUTs l k)) s"
| "inc_run1 \<alpha> (OutFromIn l k l' k') s =
     (if k \<in> is_in s l then into_out l' k' (is_pts s (INs l k)) (drop_in l k s) else (ChangedDF False, s))"
| "inc_run1 \<alpha> (AllOutFromIn l k strong) s =
     (let V = (if strong then is_in s l - {k} else is_in s l)
      in (ChangedDF (new_outs l V (is_pts s) \<noteq> {}),
          s\<lparr>is_pts := outs_from_ins l V (is_pts s), is_in := (is_in s)(l := is_in s l - V),
            is_out := (is_out s)(l := is_out s l \<union> new_outs l V (is_pts s))\<rparr>))"
| "inc_run1 \<alpha> (ClearOutUpdated l) s = (DoneDF, s\<lparr>is_out := (is_out s)(l := {})\<rparr>)"
| "inc_run1 \<alpha> (UpdateTLV l k k') s =
     (if k \<in> is_in s l
      then (ChangedDF (\<not> is_pts s (INs l k) \<subseteq> is_pts s (TLs k')),
            (drop_in l k s)\<lparr>is_pts := (is_pts s)(TLs k' := is_pts s (TLs k') \<union> is_pts s (INs l k))\<rparr>)
      else (ChangedDF False, s))"
| "inc_run1 \<alpha> (UpdateATV k l k') s = into_out l k' (is_pts s (TLs k)) s"
| "inc_run1 \<alpha> x s = (case full_run1 \<alpha> x (is_pts s) of (a, f) \<Rightarrow> (a, s\<lparr>is_pts := f\<rparr>))"

fun spec_df_run :: "(('k, 'e, 'd) df_op \<Rightarrow> 't \<Rightarrow> 'e df_answer \<times> 't) \<Rightarrow> ('k, 'e, 'd) df_op list \<Rightarrow> 't \<Rightarrow> 'e df_answer list \<times> 't" where
  "spec_df_run R [] s = ([], s)"
| "spec_df_run R (x # xs) s = (let (a, s) = R x s; (rs, s) = spec_df_run R xs s in (a # rs, s))"

text \<open>What the caller must respect.\<close>

fun df_op_ok :: "('e \<Rightarrow> bool) \<Rightarrow> ('d \<Rightarrow> bool) \<Rightarrow> ('k \<Rightarrow> bool) \<Rightarrow> ('k, 'e, 'd) df_op \<Rightarrow> bool" where
  "df_op_ok ok I kok (AddTL k e) = ok e"
| "df_op_ok ok I kok (ClearTL k e) = ok e"
| "df_op_ok ok I kok (UnionDataTL k d) = I d"
| "df_op_ok ok I kok (InFromIn l k l' k') = (kok k \<and> kok k')"
| "df_op_ok ok I kok (AllInFromIn l k l' k') = (kok k \<and> kok k')"
| "df_op_ok ok I kok (InFromOut l k l' k') = (kok k \<and> kok k')"
| "df_op_ok ok I kok (AllInFromOut l k l' k') = (kok k \<and> kok k')"
| "df_op_ok ok I kok (OutFromIn l k l' k') = (kok k \<and> kok k')"
| "df_op_ok ok I kok (UpdateTLV l k k') = kok k"
| "df_op_ok ok I kok (UpdateATV k l k') = kok k'"
| "df_op_ok ok I kok _ = True"

subsection \<open>The contract\<close>

text \<open>
  An implementation has an invariant \<open>J\<close> and a meaning \<open>sem\<close>, and each operation does what \<open>R\<close> says.
  \<open>entries s\<close> counts the IN entries, which bounds the sets that one operation can add; \<open>room\<close> is as
  for the other tables.
\<close>

definition df_step :: "('s \<Rightarrow> bool) \<Rightarrow> ('s \<Rightarrow> 't) \<Rightarrow> ('s \<Rightarrow> nat) \<Rightarrow> ('s \<Rightarrow> nat \<Rightarrow> bool) \<Rightarrow> 's \<Rightarrow> 't \<Rightarrow> 's \<Rightarrow> bool" where
  "df_step J sem entries room s t s' \<longleftrightarrow> J s' \<and> sem s' = t \<and> entries s' \<le> entries s + 2 \<and>
     (\<forall>n. room s (n + 2 + entries s) \<longrightarrow> room s' n)"

locale df_pt_data =
  fixes P :: "('k, 'e, 'd, 's, 'm) df_ops_scheme"
    and \<alpha> :: "'d \<Rightarrow> 'e set"
    and opok :: "('k, 'e, 'd) df_op \<Rightarrow> bool"
    and J :: "'s \<Rightarrow> bool"
    and sem :: "'s \<Rightarrow> 't"
    and entries :: "'s \<Rightarrow> nat"
    and room :: "'s \<Rightarrow> nat \<Rightarrow> bool"
    and R :: "('k, 'e, 'd) df_op \<Rightarrow> 't \<Rightarrow> 'e df_answer \<times> 't"
  assumes room: "room s m \<Longrightarrow> n \<le> m \<Longrightarrow> room s n"
    and run1: "J s \<Longrightarrow> room s (2 + entries s) \<Longrightarrow> opok x \<Longrightarrow> wp (df_run1 P \<alpha> x s)
      (\<lambda>(a, s'). a = fst (R x (sem s)) \<and> df_step J sem entries room s (snd (R x (sem s))) s')"
begin

lemma run_ok:
  "J s \<Longrightarrow> room s (length xs * (2 + entries s + 2 * length xs)) \<Longrightarrow> list_all opok xs \<Longrightarrow>
   wp (df_run P \<alpha> xs s) (\<lambda>(rs, s'). (rs, sem s') = spec_df_run R xs (sem s) \<and> J s')"
proof (induction xs arbitrary: s)
  case (Cons x xs)
  let ?n = "length xs"
  have r: "room s (2 + entries s)" by (rule room[OF Cons.prems(2)]) simp
  obtain a s1 where s1: "df_run1 P \<alpha> x s = Some (a, s1)" "(a, sem s1) = R x (sem s)" "J s1"
    "entries s1 \<le> entries s + 2" "\<And>n. room s (n + 2 + entries s) \<Longrightarrow> room s1 n"
    using run1[OF Cons.prems(1) r, of x] Cons.prems(3) by (auto simp: wp_iff df_step_def)
  have "?n * (2 + entries s1 + 2 * ?n) \<le> ?n * (2 + entries s + 2 * length (x # xs))"
    using s1(4) by (intro mult_le_mono) simp_all
  then have "room s1 (?n * (2 + entries s1 + 2 * ?n))"
    by (intro s1(5) room[OF Cons.prems(2)]) simp
  from Cons.IH[OF s1(3) this] Cons.prems(3) obtain rs s2 where
    s2: "df_run P \<alpha> xs s1 = Some (rs, s2)" "(rs, sem s2) = spec_df_run R xs (sem s1)" "J s2"
    by (auto simp: wp_iff)
  show ?case using s1(1) s2 s1(2)[symmetric] s2(2)[symmetric] by (simp add: split_beta Let_def)
qed simp

end

subsection \<open>What the incremental tables leave out\<close>

text \<open>They never hold more than the tables that always propagate.\<close>

lemma into_mono: "f x \<subseteq> g x \<Longrightarrow> A \<subseteq> B \<Longrightarrow> f x \<union> A \<subseteq> g x \<union> B"
  by blast

lemma inc_below_full1:
  assumes "is_pts s \<le> f"
  shows "is_pts (snd (inc_run1 \<alpha> x s)) \<le> snd (full_run1 \<alpha> x f)"
proof -
  have le: "is_pts s y \<subseteq> f y" for y using assms by (simp add: le_fun_def)
  have leD: "e \<in> is_pts s y \<Longrightarrow> e \<in> f y" for e y using le by blast
  have outs: "outs_from_ins l V (is_pts s) y \<subseteq> outs_from_ins l W f y" if "V \<subseteq> W" for l V W y
  proof (cases y)
    case (OUTs l' v)
    then show ?thesis using le[of y] le[of "INs l v"] that by (auto simp: outs_from_ins_def)
  qed (use le[of y] in \<open>simp_all add: outs_from_ins_def\<close>)
  show ?thesis
  proof (cases x)
    case (AllOutFromIn l k strong)
    then show ?thesis using outs by (auto simp: le_fun_def Let_def)
  next
    case (ClearTL k e)
    then show ?thesis using le by (fastforce simp: le_fun_def)
  qed (auto simp: le_fun_def into_def into_in_def into_out_def drop_in_def dest: leD split: if_splits)
qed

lemma inc_below_full:
  "is_pts s \<le> f \<Longrightarrow>
   is_pts (snd (spec_df_run (inc_run1 \<alpha>) xs s)) \<le> snd (spec_df_run (full_run1 \<alpha>) xs f)"
proof (induction xs arbitrary: s f)
  case (Cons x xs)
  from Cons.IH[OF inc_below_full1[OF Cons.prems, of \<alpha> x]] show ?case by (simp add: split_beta Let_def)
qed simp

text \<open>At a point, every variable whose IN set is not yet in the OUT set is marked.\<close>

definition settled :: "nat \<Rightarrow> ('k, 'e) inc_spec \<Rightarrow> bool" where
  "settled l s \<longleftrightarrow> (\<forall>v. v \<notin> is_in s l \<longrightarrow> is_pts s (INs l v) \<subseteq> is_pts s (OUTs l v))"

text \<open>
  The operations that keep this: all but those that take the mark of a variable of the point without
  updating its own OUT set there.
\<close>

fun keeps_settled :: "nat \<Rightarrow> ('k, 'e, 'd) df_op \<Rightarrow> bool" where
  "keeps_settled p (UpdateTLV l k k') = (l \<noteq> p)"
| "keeps_settled p (OutFromIn l k l' k') = (l = p \<longrightarrow> l' = l \<and> k' = k)"
| "keeps_settled p _ = True"

lemma settled1:
  assumes "settled p s" "keeps_settled p x"
  shows "settled p (snd (inc_run1 \<alpha> x s))"
proof (cases x)
  case (AllOutFromIn l k strong)
  then show ?thesis using assms by (auto simp: settled_def Let_def outs_from_ins_def)
qed (use assms in \<open>auto simp: settled_def into_def into_in_def into_out_def drop_in_def split: if_splits\<close>)

lemma settled_run:
  "settled p s \<Longrightarrow> list_all (keeps_settled p) xs \<Longrightarrow> settled p (snd (spec_df_run (inc_run1 \<alpha>) xs s))"
proof (induction xs arbitrary: s)
  case (Cons x xs)
  then show ?case using settled1[of p s x \<alpha>] Cons.IH[of "snd (inc_run1 \<alpha> x s)"] by (simp add: split_beta Let_def)
qed simp

text \<open>Then the incremental update of the OUT sets of the point does as much as the full one.\<close>

lemma inc_outs_complete:
  assumes "settled l s"
  shows "full_run1 \<alpha> (AllOutFromIn l k strong) (is_pts s) =
    (fst (inc_run1 \<alpha> (AllOutFromIn l k strong) s), is_pts (snd (inc_run1 \<alpha> (AllOutFromIn l k strong) s)))"
proof -
  have s: "v \<notin> is_in s l \<Longrightarrow> is_pts s (INs l v) \<subseteq> is_pts s (OUTs l v)" for v
    using assms by (simp add: settled_def)
  have o: "outs_from_ins l V (is_pts s) = outs_from_ins l (V \<inter> is_in s l) (is_pts s)" for V
    using s by (auto simp: outs_from_ins_def fun_eq_iff split: slot.splits)
  have n: "new_outs l V (is_pts s) = new_outs l (V \<inter> is_in s l) (is_pts s)" for V
    using s by (auto simp: new_outs_def)
  have m: "- {k} \<inter> is_in s l = is_in s l - {k}" by blast
  show ?thesis
    using o[of UNIV] o[of "- {k}"] n[of UNIV] n[of "- {k}"] by (cases strong) (simp_all add: Let_def m)
qed

end
