(* ===== verification/Slot_Store.thy ===== *)
theory Slot_Store
  imports Flow_PT_Data
begin

text \<open>
  What the data-flow tables share. \<^verbatim>\<open>MutableDFPTData\<close> and \<^verbatim>\<open>PersistentDFPTData\<close> update a set through
  references to two sets; \<open>slot_store\<close> is what they promise about that, and from it follows that they
  do what \<open>full_run1\<close> says. The incremental classes (\<^verbatim>\<open>MutableIncDFPTData\<close>, \<^verbatim>\<open>PersistentIncDFPTData\<close>)
  have the same text, over a table of the base class and a type of sets of variables: \<open>inc_ops\<close>; they
  do what \<open>inc_run1\<close> says.
\<close>

subsection \<open>The operations on references\<close>

record ('k, 's) slot_ops =
  so_union :: "'k slot \<Rightarrow> 'k slot \<Rightarrow> 's \<Rightarrow> (bool \<times> 's) option"
  so_tlv :: "nat \<Rightarrow> 'k \<Rightarrow> 'k \<Rightarrow> 's \<Rightarrow> (bool \<times> 's) option"
  so_hasIn :: "nat \<Rightarrow> 's \<Rightarrow> bool"
  so_hasOut :: "nat \<Rightarrow> 's \<Rightarrow> bool"
  so_vars :: "nat \<Rightarrow> 's \<Rightarrow> 'k list"

text \<open>The loop of \<^verbatim>\<open>updateAllDFOutFromIn\<close>.\<close>

definition out_loop :: "(nat \<Rightarrow> 'k \<Rightarrow> nat \<Rightarrow> 'k \<Rightarrow> 's \<Rightarrow> (bool \<times> 's) option) \<Rightarrow> nat \<Rightarrow> 'k \<Rightarrow> bool \<Rightarrow> 'k list \<Rightarrow> 's \<Rightarrow>
    (bool \<times> 's) option" where
  "out_loop upd loc singleton strongUpdates vars s =
    foldM (\<lambda>var (changed, s).
      if strongUpdates \<and> var = singleton then Some (changed, s)
      else do { (b, s) \<leftarrow> upd loc var loc var s; Some (changed \<or> b, s) }) vars (False, s)"

text \<open>The variables that the loop does not skip.\<close>

definition loop_vars :: "bool \<Rightarrow> 'k \<Rightarrow> 'k list \<Rightarrow> 'k set" where
  "loop_vars strong k vs = {v \<in> set vs. \<not> (strong \<and> v = k)}"

lemma outs_from_ins_insert:
  "v \<notin> V \<Longrightarrow> outs_from_ins l (insert v V) f =
     (outs_from_ins l V f)(OUTs l v := outs_from_ins l V f (OUTs l v) \<union> outs_from_ins l V f (INs l v))"
  by (auto simp: outs_from_ins_def fun_eq_iff split: slot.splits)

lemma outs_from_ins_simps [simp]:
  "outs_from_ins l {} f = f" "outs_from_ins l V f (INs l' v) = f (INs l' v)" "outs_from_ins l V f (TLs k) = f (TLs k)"
  "v \<notin> V \<Longrightarrow> outs_from_ins l V f (OUTs l v) = f (OUTs l v)"
  by (auto simp: outs_from_ins_def fun_eq_iff split: slot.splits)

lemma new_outs_simps [simp]:
  "new_outs l {} f = {}"
  "new_outs l (insert v V) f = (if f (INs l v) \<subseteq> f (OUTs l v) then new_outs l V f else insert v (new_outs l V f))"
  by (auto simp: new_outs_def)

text \<open>The calls that are not about a program point.\<close>

fun plain_op :: "('k, 'e, 'd) df_op \<Rightarrow> bool" where
  "plain_op (GetTL k) = True"
| "plain_op (GetIN l k) = True"
| "plain_op (GetOUT l k) = True"
| "plain_op (AddTL k e) = True"
| "plain_op (UnionTL k k') = True"
| "plain_op (UnionDataTL k d) = True"
| "plain_op (ClearTL k e) = True"
| "plain_op (ClearFullTL k) = True"
| "plain_op Remap = True"
| "plain_op _ = False"

text \<open>The IN entries among the slots that exist.\<close>

definition in_slots :: "'k slot set \<Rightarrow> (nat \<times> 'k) set" where
  "in_slots S = {(l, k). INs l k \<in> S}"

lemma in_slots_Un [simp]: "in_slots (S \<union> T) = in_slots S \<union> in_slots T"
  by (auto simp: in_slots_def)

lemma in_slots_insert [simp]:
  "in_slots (insert (INs l k) S) = insert (l, k) (in_slots S)" "in_slots (insert (TLs k) S) = in_slots S"
  "in_slots (insert (OUTs l k) S) = in_slots S" "in_slots {} = {}"
  by (auto simp: in_slots_def)

lemma in_slots_mono: "S \<subseteq> T \<Longrightarrow> in_slots S \<subseteq> in_slots T"
  by (auto simp: in_slots_def)

lemma mem_in_slots [simp]: "(l, k) \<in> in_slots S \<longleftrightarrow> INs l k \<in> S"
  by (simp add: in_slots_def)

definition slot_step :: "('s \<Rightarrow> bool) \<Rightarrow> ('s \<Rightarrow> 'k slot \<Rightarrow> 'e set) \<Rightarrow> ('s \<Rightarrow> 'k slot set) \<Rightarrow> ('s \<Rightarrow> nat \<Rightarrow> bool) \<Rightarrow> nat \<Rightarrow>
    's \<Rightarrow> ('k slot \<Rightarrow> 'e set) \<Rightarrow> 's \<Rightarrow> bool" where
  "slot_step J sem ents room n s f s' \<longleftrightarrow> J s' \<and> sem s' = f \<and> ents s \<subseteq> ents s' \<and> (\<forall>m. room s (m + n) \<longrightarrow> room s' m)"

locale slot_store =
  fixes P :: "('k, 'e, 'd, 's) df_ops"
    and B :: "('k, 's) slot_ops"
    and \<alpha> :: "'d \<Rightarrow> 'e set"
    and opok :: "('k, 'e, 'd) df_op \<Rightarrow> bool"
    and J :: "'s \<Rightarrow> bool"
    and sem :: "'s \<Rightarrow> 'k slot \<Rightarrow> 'e set"
    and ents :: "'s \<Rightarrow> 'k slot set"
    and room :: "'s \<Rightarrow> nat \<Rightarrow> bool"
  assumes room: "room s m \<Longrightarrow> n \<le> m \<Longrightarrow> room s n"
    and finite_ins: "J s \<Longrightarrow> finite (in_slots (ents s))"
    and outside: "J s \<Longrightarrow> x \<notin> ents s \<Longrightarrow> sem s x = {}"
    and union: "J s \<Longrightarrow> room s 1 \<Longrightarrow> wp (so_union B x y s) (\<lambda>(b, s').
      (b \<longleftrightarrow> \<not> sem s y \<subseteq> sem s x) \<and> slot_step J sem ents room 1 s ((sem s)(x := sem s x \<union> sem s y)) s' \<and>
      ents s' = ents s \<union> {x, y})"
    and tlv: "J s \<Longrightarrow> room s 2 \<Longrightarrow> wp (so_tlv B l k k' s) (\<lambda>(b, s').
      (b \<longleftrightarrow> \<not> sem s (INs l k) \<subseteq> sem s (TLs k')) \<and>
      slot_step J sem ents room 2 s ((sem s)(TLs k' := sem s (TLs k') \<union> sem s (INs l k))) s' \<and>
      ents s' = ents s \<union> {TLs k', INs l k})"
    and hasIn: "J s \<Longrightarrow> so_hasIn B l s \<longleftrightarrow> (\<exists>k. INs l k \<in> ents s)"
    and hasOut: "J s \<Longrightarrow> so_hasOut B l s \<longleftrightarrow> (\<exists>k. OUTs l k \<in> ents s)"
    and vars: "J s \<Longrightarrow> distinct (so_vars B l s)" "J s \<Longrightarrow> set (so_vars B l s) = {k. INs l k \<in> ents s}"
    and plain: "J s \<Longrightarrow> room s 2 \<Longrightarrow> plain_op c \<Longrightarrow> opok c \<Longrightarrow> wp (df_run1 P \<alpha> c s) (\<lambda>(a, s').
      a = fst (full_run1 \<alpha> c (sem s)) \<and> slot_step J sem ents room 2 s (snd (full_run1 \<alpha> c (sem s))) s' \<and>
      card (in_slots (ents s')) \<le> card (in_slots (ents s)) + 1)"
    and flow: "df_updateDFInFromIn P l k l' k' s = so_union B (INs l' k') (INs l k) s"
      "df_updateAllDFInFromIn P l k l' k' s = so_union B (INs l' k') (INs l k) s"
      "df_updateDFInFromOut P l k l' k' s = so_union B (INs l' k') (OUTs l k) s"
      "df_updateAllDFInFromOut P l k l' k' s = so_union B (INs l' k') (OUTs l k) s"
      "df_updateDFOutFromIn P l k l' k' s = so_union B (OUTs l' k') (INs l k) s"
      "df_updateAllDFOutFromIn P l k b s =
        (if so_hasIn B l s then out_loop (\<lambda>l v l' v'. so_union B (OUTs l' v') (INs l v)) l k b (so_vars B l s) s
         else Some (False, s))"
      "df_clearAllDFOutUpdatedVar P l s = Some s"
      "df_updateTLVPts P l k k' s = so_union B (TLs k') (INs l k) s"
      "df_updateATVPts P k l k' s = so_union B (OUTs l k') (TLs k) s"
begin

lemma card_vars:
  assumes "J s" "distinct vs" "set vs \<subseteq> {k. INs l k \<in> ents s}"
  shows "length vs \<le> card (in_slots (ents s))"
proof -
  have "card (Pair l ` set vs) \<le> card (in_slots (ents s))"
    by (rule card_mono[OF finite_ins[OF assms(1)]]) (use assms(3) in auto)
  then show ?thesis using assms(2) by (simp add: card_image distinct_card inj_on_def)
qed

lemma card_union:
  assumes "J s" "ents s' = ents s \<union> {x, y}"
  shows "card (in_slots (ents s')) \<le> card (in_slots (ents s)) + 2"
proof -
  have "in_slots {x, y} \<subseteq> (\<Union>z \<in> {x, y}. case z of INs l k \<Rightarrow> {(l, k)} | _ \<Rightarrow> {})"
    by (auto simp: in_slots_def)
  moreover have "finite (\<Union>z \<in> {x, y}. case z of INs l k \<Rightarrow> {(l, k)} | _ \<Rightarrow> {})"
    "card (\<Union>z \<in> {x, y}. case z of INs l k \<Rightarrow> {(l, k)} | _ \<Rightarrow> {}) \<le> 2"
    by (cases x; cases y; simp add: card_insert_if)+
  ultimately have "card (in_slots {x, y}) \<le> 2" by (meson card_mono le_trans)
  then show ?thesis
    using card_Un_le[of "in_slots (ents s)" "in_slots {x, y}"] unfolding assms(2) in_slots_Un by linarith
qed

text \<open>The loop over the variables of the IN set.\<close>

lemma out_loop_ok:
  assumes J: "J s" and vs: "distinct vs" "set vs \<subseteq> {v. INs l v \<in> ents s}" and rm: "room s (length vs)"
  shows "wp (out_loop (\<lambda>l v l' v'. so_union B (OUTs l' v') (INs l v)) l k strong vs s) (\<lambda>(b, s').
    (b \<longleftrightarrow> new_outs l (loop_vars strong k vs) (sem s) \<noteq> {}) \<and> J s' \<and> sem s' = outs_from_ins l (loop_vars strong k vs) (sem s) \<and>
    ents s \<subseteq> ents s' \<and> in_slots (ents s') = in_slots (ents s) \<and> (\<forall>n. room s (n + length vs) \<longrightarrow> room s' n))"
proof -
  define I where "I ys bs \<longleftrightarrow> (case bs of (b, s') \<Rightarrow>
    (b \<longleftrightarrow> new_outs l (loop_vars strong k ys) (sem s) \<noteq> {}) \<and> J s' \<and> sem s' = outs_from_ins l (loop_vars strong k ys) (sem s) \<and>
    ents s \<subseteq> ents s' \<and> in_slots (ents s') = in_slots (ents s) \<and> (\<forall>n. room s (n + length ys) \<longrightarrow> room s' n))"
    for ys and bs :: "bool \<times> 's"
  have "wp (out_loop (\<lambda>l v l' v'. so_union B (OUTs l' v') (INs l v)) l k strong vs s) (I vs)"
    unfolding out_loop_def
  proof (rule foldM_wp)
    show "I [] (False, s)" using J by (simp add: I_def loop_vars_def)
  next
    fix ys v zs bs
    assume split: "vs = ys @ v # zs" and "I ys bs"
    then obtain b s1 where bs: "bs = (b, s1)" and i: "b \<longleftrightarrow> new_outs l (loop_vars strong k ys) (sem s) \<noteq> {}" "J s1"
      "sem s1 = outs_from_ins l (loop_vars strong k ys) (sem s)" "ents s \<subseteq> ents s1" "in_slots (ents s1) = in_slots (ents s)"
      "\<And>n. room s (n + length ys) \<Longrightarrow> room s1 n"
      by (auto simp: I_def split: prod.splits)
    show "wp (case bs of (changed, s) \<Rightarrow> if strong \<and> v = k then Some (changed, s)
        else do { (b, s) \<leftarrow> so_union B (OUTs l v) (INs l v) s; Some (changed \<or> b, s) }) (I (ys @ [v]))"
    proof (cases "strong \<and> v = k")
      case True
      then have "loop_vars strong k (ys @ [v]) = loop_vars strong k ys" by (auto simp: loop_vars_def)
      moreover have "room s1 n" if "room s (n + length (ys @ [v]))" for n
        by (rule i(6), rule room[OF that]) simp
      ultimately show ?thesis using True i(1-5) by (simp add: bs I_def)
    next
      case False
      have v: "v \<notin> loop_vars strong k ys" "loop_vars strong k (ys @ [v]) = insert v (loop_vars strong k ys)" using False vs(1) split by (auto simp: loop_vars_def)
      have "room s1 1" by (rule i(6), rule room[OF rm]) (simp add: split)
      from union[OF i(2) this, of "OUTs l v" "INs l v"] obtain b' s2 where
        s2: "so_union B (OUTs l v) (INs l v) s1 = Some (b', s2)"
        "b' \<longleftrightarrow> \<not> sem s (INs l v) \<subseteq> sem s (OUTs l v)" "J s2"
        "sem s2 = outs_from_ins l (loop_vars strong k (ys @ [v])) (sem s)" "ents s2 = ents s1 \<union> {OUTs l v, INs l v}"
        "\<And>n. room s1 (n + 1) \<Longrightarrow> room s2 n"
        by (auto simp: wp_iff i(3) v slot_step_def outs_from_ins_insert)
      have "INs l v \<in> ents s1" using vs(2) split i(4) by auto
      then have "in_slots (ents s2) = in_slots (ents s)" using s2(5) i(5) by (auto simp: insert_absorb)
      moreover have "room s2 n" if "room s (n + length (ys @ [v]))" for n
        by (rule s2(6), rule i(6)) (use that in \<open>simp add: ac_simps\<close>)
      ultimately show ?thesis using False s2(1-5) i(1,4) v by (auto simp: bs I_def)
    qed
  qed
  then show ?thesis by (auto simp: I_def elim!: wp_mono)
qed

text \<open>The loop over all variables of the IN set updates the whole point.\<close>

lemma all_vars:
  assumes "J s"
  shows "new_outs l (loop_vars strong k (so_vars B l s)) (sem s) =
      new_outs l (if strong then - {k} else UNIV) (sem s)"
    and "outs_from_ins l (loop_vars strong k (so_vars B l s)) (sem s) =
      outs_from_ins l (if strong then - {k} else UNIV) (sem s)"
  using outside[OF assms] by (auto simp: loop_vars_def new_outs_def outs_from_ins_def vars[OF assms] fun_eq_iff split: slot.splits)

text \<open>The base classes do what \<open>full_run1\<close> says.\<close>

lemma full_run1_ok:
  assumes J: "J s" and rm: "room s (2 + card (in_slots (ents s)))" and c: "opok c"
  shows "wp (df_run1 P \<alpha> c s) (\<lambda>(a, s'). a = fst (full_run1 \<alpha> c (sem s)) \<and>
    df_step J sem (\<lambda>s. card (in_slots (ents s))) room s (snd (full_run1 \<alpha> c (sem s))) s')"
proof -
  have r1: "room s 1" and r2: "room s 2" by (rule room[OF rm], simp)+
  have un: "wp (map_option (\<lambda>(b, s). (ChangedDF b, s)) (so_union B x y s)) (\<lambda>(a, s'). a = fst (into x (sem s y) (sem s)) \<and>
    df_step J sem (\<lambda>s. card (in_slots (ents s))) room s (snd (into x (sem s y) (sem s))) s')" for x y
  proof -
    obtain b s' where u: "so_union B x y s = Some (b, s')" "b \<longleftrightarrow> \<not> sem s y \<subseteq> sem s x" "J s'"
      "sem s' = (sem s)(x := sem s x \<union> sem s y)" "ents s' = ents s \<union> {x, y}" "\<And>m. room s (Suc m) \<Longrightarrow> room s' m"
      using union[OF J r1, of x y] by (auto simp: wp_iff slot_step_def)
    have "room s' n" if "room s (n + 2 + card (in_slots (ents s)))" for n
      by (rule u(6), rule room[OF that]) simp
    then show ?thesis using u(1-5) card_union[OF J u(5)] by (simp add: into_def df_step_def)
  qed
  show ?thesis
  proof (cases "plain_op c")
    case True
    show ?thesis
      by (rule wp_mono[OF plain[OF J r2 True c]]) (auto simp: df_step_def slot_step_def intro: room)
  next
    case False
    show ?thesis
    proof (cases c)
      case (AllOutFromIn l k strong)
      let ?V = "if strong then - {k} else UNIV"
      have full: "full_run1 \<alpha> c (sem s) = (ChangedDF (new_outs l ?V (sem s) \<noteq> {}), outs_from_ins l ?V (sem s))"
        by (simp add: AllOutFromIn Let_def)
      show ?thesis
      proof (cases "so_hasIn B l s")
        case True
        have len: "length (so_vars B l s) \<le> card (in_slots (ents s))"
          by (rule card_vars[where l = l, OF J vars(1)[OF J]]) (simp add: vars[OF J])
        have rl: "room s (length (so_vars B l s))" by (rule room[OF rm]) (use len in simp)
        have "room s (n + length (so_vars B l s))" if "room s (n + 2 + card (in_slots (ents s)))" for n
          by (rule room[OF that]) (use len in simp)
        then show ?thesis
          using out_loop_ok[where l = l and k = k and strong = strong, OF J vars(1)[OF J, of l] _ rl] True unfolding full
          by (auto simp: AllOutFromIn flow vars[OF J] all_vars[OF J] wp_iff df_step_def)
      next
        case False
        then have "set (so_vars B l s) = {}" using hasIn[OF J] vars(2)[OF J] by auto
        then have none: "so_vars B l s = []" by simp
        show ?thesis
          using all_vars[where l = l and k = k and strong = strong, OF J] J False unfolding full
          by (auto simp: AllOutFromIn flow none loop_vars_def df_step_def intro: room)
      qed
    next
      case (ClearOutUpdated l)
      then show ?thesis using J by (auto simp: flow df_step_def intro: room)
    qed (use False un in \<open>simp_all add: flow\<close>)
  qed
qed

end

sublocale slot_store \<subseteq> full: df_pt_data P \<alpha> opok J sem "\<lambda>s. card (in_slots (ents s))" room "full_run1 \<alpha>"
  by unfold_locales (fact room, rule full_run1_ok)

end
