(* ===== verification/Inc_Slot_Store.thy ===== *)
theory Inc_Slot_Store
  imports Slot_Store
begin

text \<open>
  The incremental data-flow tables. \<^verbatim>\<open>MutableIncDFPTData\<close> and \<^verbatim>\<open>PersistentIncDFPTData\<close> extend their base
  class by two maps from locations to the variables whose IN or OUT set is new, and override the
  update methods with the same text. \<open>inc_ops\<close> is that text over the methods of the base class and a
  type of sets of variables; locale \<open>inc_store\<close> shows that it does what \<open>inc_run1\<close> says.
\<close>

subsection \<open>Sets of variables\<close>

record ('k, 'u) var_ops =
  vo_new :: 'u
  vo_set :: "'u \<Rightarrow> 'k \<Rightarrow> 'u option"
  vo_reset :: "'u \<Rightarrow> 'k \<Rightarrow> 'u option"
  vo_test :: "'u \<Rightarrow> 'k \<Rightarrow> bool option"
  vo_elems :: "'u \<Rightarrow> 'k list option"

locale var_set =
  fixes V :: "('k, 'u) var_ops"
    and \<beta> :: "'u \<Rightarrow> 'k set"
    and K :: "'u \<Rightarrow> bool"
    and kok :: "'k \<Rightarrow> bool"
  assumes new: "K (vo_new V)" "\<beta> (vo_new V) = {}"
    and set: "K u \<Longrightarrow> kok k \<Longrightarrow> wp (vo_set V u k) (\<lambda>u'. K u' \<and> \<beta> u' = insert k (\<beta> u))"
    and reset: "K u \<Longrightarrow> kok k \<Longrightarrow> wp (vo_reset V u k) (\<lambda>u'. K u' \<and> \<beta> u' = \<beta> u - {k})"
    and test: "K u \<Longrightarrow> kok k \<Longrightarrow> vo_test V u k = Some (k \<in> \<beta> u)"
    and elems: "K u \<Longrightarrow> wp (vo_elems V u) (\<lambda>ks. distinct ks \<and> List.set ks = \<beta> u)"
    and mem: "K u \<Longrightarrow> k \<in> \<beta> u \<Longrightarrow> kok k"

subsection \<open>The classes\<close>

record ('u, 's) inc_df =
  id_base :: 's
  id_outUpdatedVarMap :: "(nat \<times> 'u) list"
  id_inUpdatedVarMap :: "(nat \<times> 'u) list"

definition inc_setVarDFInSetUpdated :: "('k, 'u) var_ops \<Rightarrow> nat \<Rightarrow> 'k \<Rightarrow> ('u, 's) inc_df \<Rightarrow> ('u, 's) inc_df option" where
  "inc_setVarDFInSetUpdated V loc var t = do {
     u \<leftarrow> vo_set V (aget (vo_new V) (id_inUpdatedVarMap t) loc) var;
     Some (t\<lparr>id_inUpdatedVarMap := aput loc u (id_inUpdatedVarMap t)\<rparr>) }"

definition inc_removeVarFromDFInUpdatedSet :: "('k, 'u) var_ops \<Rightarrow> nat \<Rightarrow> 'k \<Rightarrow> ('u, 's) inc_df \<Rightarrow> ('u, 's) inc_df option" where
  "inc_removeVarFromDFInUpdatedSet V loc var t = (case map_of (id_inUpdatedVarMap t) loc of
     None \<Rightarrow> Some t
   | Some u \<Rightarrow> do { u \<leftarrow> vo_reset V u var; Some (t\<lparr>id_inUpdatedVarMap := aput loc u (id_inUpdatedVarMap t)\<rparr>) })"

definition inc_varHasNewDFInPts :: "('k, 'u) var_ops \<Rightarrow> nat \<Rightarrow> 'k \<Rightarrow> ('u, 's) inc_df \<Rightarrow> bool option" where
  "inc_varHasNewDFInPts V loc var t = (case map_of (id_inUpdatedVarMap t) loc of
     None \<Rightarrow> Some False | Some u \<Rightarrow> vo_test V u var)"

definition inc_getDFInUpdatedVar :: "('k, 'u) var_ops \<Rightarrow> nat \<Rightarrow> ('u, 's) inc_df \<Rightarrow> 'u \<times> ('u, 's) inc_df" where
  "inc_getDFInUpdatedVar V loc t = (aget (vo_new V) (id_inUpdatedVarMap t) loc,
     t\<lparr>id_inUpdatedVarMap := aref (vo_new V) (id_inUpdatedVarMap t) loc\<rparr>)"

definition inc_setVarDFOutSetUpdated :: "('k, 'u) var_ops \<Rightarrow> nat \<Rightarrow> 'k \<Rightarrow> ('u, 's) inc_df \<Rightarrow> ('u, 's) inc_df option" where
  "inc_setVarDFOutSetUpdated V loc var t = do {
     u \<leftarrow> vo_set V (aget (vo_new V) (id_outUpdatedVarMap t) loc) var;
     Some (t\<lparr>id_outUpdatedVarMap := aput loc u (id_outUpdatedVarMap t)\<rparr>) }"

definition inc_removeVarFromDFOutUpdatedSet :: "('k, 'u) var_ops \<Rightarrow> nat \<Rightarrow> 'k \<Rightarrow> ('u, 's) inc_df \<Rightarrow> ('u, 's) inc_df option" where
  "inc_removeVarFromDFOutUpdatedSet V loc var t = (case map_of (id_outUpdatedVarMap t) loc of
     None \<Rightarrow> Some t
   | Some u \<Rightarrow> do { u \<leftarrow> vo_reset V u var; Some (t\<lparr>id_outUpdatedVarMap := aput loc u (id_outUpdatedVarMap t)\<rparr>) })"

definition inc_varHasNewDFOutPts :: "('k, 'u) var_ops \<Rightarrow> nat \<Rightarrow> 'k \<Rightarrow> ('u, 's) inc_df \<Rightarrow> bool option" where
  "inc_varHasNewDFOutPts V loc var t = (case map_of (id_outUpdatedVarMap t) loc of
     None \<Rightarrow> Some False | Some u \<Rightarrow> vo_test V u var)"

definition inc_getDFOutUpdatedVar :: "('k, 'u) var_ops \<Rightarrow> nat \<Rightarrow> ('u, 's) inc_df \<Rightarrow> 'u \<times> ('u, 's) inc_df" where
  "inc_getDFOutUpdatedVar V loc t = (aget (vo_new V) (id_outUpdatedVarMap t) loc,
     t\<lparr>id_outUpdatedVarMap := aref (vo_new V) (id_outUpdatedVarMap t) loc\<rparr>)"

text \<open>A method of the base class; and a union into an IN or OUT set that marks the variable if the set grew.\<close>

definition inc_on :: "('s \<Rightarrow> ('x \<times> 's) option) \<Rightarrow> ('u, 's) inc_df \<Rightarrow> ('x \<times> ('u, 's) inc_df) option" where
  "inc_on f t = do { (x, s) \<leftarrow> f (id_base t); Some (x, t\<lparr>id_base := s\<rparr>) }"

definition inc_on_do :: "('s \<Rightarrow> 's option) \<Rightarrow> ('u, 's) inc_df \<Rightarrow> ('u, 's) inc_df option" where
  "inc_on_do f t = do { s \<leftarrow> f (id_base t); Some (t\<lparr>id_base := s\<rparr>) }"

definition inc_unionIn :: "('k, 's) slot_ops \<Rightarrow> ('k, 'u) var_ops \<Rightarrow> nat \<Rightarrow> 'k \<Rightarrow> 'k slot \<Rightarrow> ('u, 's) inc_df \<Rightarrow>
    (bool \<times> ('u, 's) inc_df) option" where
  "inc_unionIn B V dstLoc dstVar src t = do {
     (changed, t) \<leftarrow> inc_on (so_union B (INs dstLoc dstVar) src) t;
     if changed then do { t \<leftarrow> inc_setVarDFInSetUpdated V dstLoc dstVar t; Some (True, t) } else Some (False, t) }"

definition inc_unionOut :: "('k, 's) slot_ops \<Rightarrow> ('k, 'u) var_ops \<Rightarrow> nat \<Rightarrow> 'k \<Rightarrow> 'k slot \<Rightarrow> ('u, 's) inc_df \<Rightarrow>
    (bool \<times> ('u, 's) inc_df) option" where
  "inc_unionOut B V dstLoc dstVar src t = do {
     (changed, t) \<leftarrow> inc_on (so_union B (OUTs dstLoc dstVar) src) t;
     if changed then do { t \<leftarrow> inc_setVarDFOutSetUpdated V dstLoc dstVar t; Some (True, t) } else Some (False, t) }"

text \<open>The overridden methods.\<close>

definition inc_updateDFInFromIn :: "('k, 's) slot_ops \<Rightarrow> ('k, 'u) var_ops \<Rightarrow> nat \<Rightarrow> 'k \<Rightarrow> nat \<Rightarrow> 'k \<Rightarrow> ('u, 's) inc_df \<Rightarrow>
    (bool \<times> ('u, 's) inc_df) option" where
  "inc_updateDFInFromIn B V srcLoc srcVar dstLoc dstVar t = do {
     new \<leftarrow> inc_varHasNewDFInPts V srcLoc srcVar t;
     if new then inc_unionIn B V dstLoc dstVar (INs srcLoc srcVar) t else Some (False, t) }"

definition inc_updateDFInFromOut :: "('k, 's) slot_ops \<Rightarrow> ('k, 'u) var_ops \<Rightarrow> nat \<Rightarrow> 'k \<Rightarrow> nat \<Rightarrow> 'k \<Rightarrow> ('u, 's) inc_df \<Rightarrow>
    (bool \<times> ('u, 's) inc_df) option" where
  "inc_updateDFInFromOut B V srcLoc srcVar dstLoc dstVar t = do {
     new \<leftarrow> inc_varHasNewDFOutPts V srcLoc srcVar t;
     if new then inc_unionIn B V dstLoc dstVar (OUTs srcLoc srcVar) t else Some (False, t) }"

definition inc_updateDFOutFromIn :: "('k, 's) slot_ops \<Rightarrow> ('k, 'u) var_ops \<Rightarrow> nat \<Rightarrow> 'k \<Rightarrow> nat \<Rightarrow> 'k \<Rightarrow> ('u, 's) inc_df \<Rightarrow>
    (bool \<times> ('u, 's) inc_df) option" where
  "inc_updateDFOutFromIn B V srcLoc srcVar dstLoc dstVar t = do {
     new \<leftarrow> inc_varHasNewDFInPts V srcLoc srcVar t;
     if new then do {
       t \<leftarrow> inc_removeVarFromDFInUpdatedSet V srcLoc srcVar t;
       inc_unionOut B V dstLoc dstVar (INs srcLoc srcVar) t }
     else Some (False, t) }"

definition inc_updateAllDFInFromOut :: "('k, 's) slot_ops \<Rightarrow> ('k, 'u) var_ops \<Rightarrow> nat \<Rightarrow> 'k \<Rightarrow> nat \<Rightarrow> 'k \<Rightarrow> ('u, 's) inc_df \<Rightarrow>
    (bool \<times> ('u, 's) inc_df) option" where
  "inc_updateAllDFInFromOut B V srcLoc srcVar dstLoc dstVar t = inc_unionIn B V dstLoc dstVar (OUTs srcLoc srcVar) t"

definition inc_updateAllDFInFromIn :: "('k, 's) slot_ops \<Rightarrow> ('k, 'u) var_ops \<Rightarrow> nat \<Rightarrow> 'k \<Rightarrow> nat \<Rightarrow> 'k \<Rightarrow> ('u, 's) inc_df \<Rightarrow>
    (bool \<times> ('u, 's) inc_df) option" where
  "inc_updateAllDFInFromIn B V srcLoc srcVar dstLoc dstVar t = inc_unionIn B V dstLoc dstVar (INs srcLoc srcVar) t"

definition inc_updateAllDFOutFromIn :: "('k, 's) slot_ops \<Rightarrow> ('k, 'u) var_ops \<Rightarrow> nat \<Rightarrow> 'k \<Rightarrow> bool \<Rightarrow> ('u, 's) inc_df \<Rightarrow>
    (bool \<times> ('u, 's) inc_df) option" where
  "inc_updateAllDFOutFromIn B V loc singleton strongUpdates t =
    (if so_hasIn B loc (id_base t) then do {
       let (pts, t) = inc_getDFInUpdatedVar V loc t;
       vars \<leftarrow> vo_elems V pts;
       out_loop (inc_updateDFOutFromIn B V) loc singleton strongUpdates vars t }
     else Some (False, t))"

definition inc_updateTLVPts :: "('k, 's) slot_ops \<Rightarrow> ('k, 'u) var_ops \<Rightarrow> nat \<Rightarrow> 'k \<Rightarrow> 'k \<Rightarrow> ('u, 's) inc_df \<Rightarrow>
    (bool \<times> ('u, 's) inc_df) option" where
  "inc_updateTLVPts B V srcLoc srcVar dstVar t = do {
     new \<leftarrow> inc_varHasNewDFInPts V srcLoc srcVar t;
     if new then do {
       t \<leftarrow> inc_removeVarFromDFInUpdatedSet V srcLoc srcVar t;
       inc_on (so_tlv B srcLoc srcVar dstVar) t }
     else Some (False, t) }"

definition inc_updateATVPts :: "('k, 's) slot_ops \<Rightarrow> ('k, 'u) var_ops \<Rightarrow> 'k \<Rightarrow> nat \<Rightarrow> 'k \<Rightarrow> ('u, 's) inc_df \<Rightarrow>
    (bool \<times> ('u, 's) inc_df) option" where
  "inc_updateATVPts B V srcVar dstLoc dstVar t = inc_unionOut B V dstLoc dstVar (TLs srcVar) t"

definition inc_clearAllDFOutUpdatedVar :: "('k, 's) slot_ops \<Rightarrow> ('k, 'u) var_ops \<Rightarrow> nat \<Rightarrow> ('u, 's) inc_df \<Rightarrow>
    ('u, 's) inc_df option" where
  "inc_clearAllDFOutUpdatedVar B V loc t =
    (if so_hasOut B loc (id_base t) then do {
       let (pts, t) = inc_getDFOutUpdatedVar V loc t;
       vars \<leftarrow> vo_elems V pts;
       foldM (inc_removeVarFromDFOutUpdatedSet V loc) vars t }
     else Some t)"

text \<open>The class: the overridden methods, and the inherited ones on the part of the base class.\<close>

definition inc_ops :: "('k, 'e, 'd, 's) df_ops \<Rightarrow> ('k, 's) slot_ops \<Rightarrow> ('k, 'u) var_ops \<Rightarrow> ('k, 'e, 'd, ('u, 's) inc_df) df_ops" where
  "inc_ops P B V = \<lparr>df_getPts = (\<lambda>k. inc_on (df_getPts P k)),
     df_getDFInPtsSet = (\<lambda>l k. inc_on (df_getDFInPtsSet P l k)),
     df_getDFOutPtsSet = (\<lambda>l k. inc_on (df_getDFOutPtsSet P l k)),
     df_addPts = (\<lambda>k e. inc_on (df_addPts P k e)), df_unionPts = (\<lambda>k k'. inc_on (df_unionPts P k k')),
     df_unionData = (\<lambda>k d. inc_on (df_unionData P k d)), df_clearPts = (\<lambda>k e. inc_on_do (df_clearPts P k e)),
     df_clearFullPts = (\<lambda>k. inc_on_do (df_clearFullPts P k)), df_remapAllPts = inc_on_do (df_remapAllPts P),
     df_updateDFInFromIn = inc_updateDFInFromIn B V, df_updateAllDFInFromIn = inc_updateAllDFInFromIn B V,
     df_updateDFInFromOut = inc_updateDFInFromOut B V, df_updateAllDFInFromOut = inc_updateAllDFInFromOut B V,
     df_updateDFOutFromIn = inc_updateDFOutFromIn B V, df_updateAllDFOutFromIn = inc_updateAllDFOutFromIn B V,
     df_clearAllDFOutUpdatedVar = inc_clearAllDFOutUpdatedVar B V, df_updateTLVPts = inc_updateTLVPts B V,
     df_updateATVPts = inc_updateATVPts B V\<rparr>"

subsection \<open>What they mean\<close>

definition upd_vars :: "('k, 'u) var_ops \<Rightarrow> ('u \<Rightarrow> 'k set) \<Rightarrow> (nat \<times> 'u) list \<Rightarrow> nat \<Rightarrow> 'k set" where
  "upd_vars V \<beta> m l = \<beta> (aget (vo_new V) m l)"

definition upd_inv :: "('k, 'u) var_ops \<Rightarrow> ('u \<Rightarrow> bool) \<Rightarrow> (nat \<times> 'u) list \<Rightarrow> bool" where
  "upd_inv V K m \<longleftrightarrow> (\<forall>l. K (aget (vo_new V) m l))"

definition inc_sem :: "('s \<Rightarrow> 'k slot \<Rightarrow> 'e set) \<Rightarrow> ('k, 'u) var_ops \<Rightarrow> ('u \<Rightarrow> 'k set) \<Rightarrow> ('u, 's) inc_df \<Rightarrow> ('k, 'e) inc_spec" where
  "inc_sem sem V \<beta> t = \<lparr>is_pts = sem (id_base t), is_in = upd_vars V \<beta> (id_inUpdatedVarMap t),
     is_out = upd_vars V \<beta> (id_outUpdatedVarMap t)\<rparr>"

text \<open>A marked variable has an entry.\<close>

definition inc_inv :: "('s \<Rightarrow> bool) \<Rightarrow> ('s \<Rightarrow> 'k slot set) \<Rightarrow> ('k, 'u) var_ops \<Rightarrow> ('u \<Rightarrow> 'k set) \<Rightarrow> ('u \<Rightarrow> bool) \<Rightarrow>
    ('u, 's) inc_df \<Rightarrow> bool" where
  "inc_inv J ents V \<beta> K t \<longleftrightarrow> J (id_base t) \<and> upd_inv V K (id_inUpdatedVarMap t) \<and> upd_inv V K (id_outUpdatedVarMap t) \<and>
     (\<forall>l. \<forall>k \<in> upd_vars V \<beta> (id_inUpdatedVarMap t) l. INs l k \<in> ents (id_base t)) \<and>
     (\<forall>l. \<forall>k \<in> upd_vars V \<beta> (id_outUpdatedVarMap t) l. OUTs l k \<in> ents (id_base t))"

lemma upd_aput [simp]:
  "upd_vars V \<beta> (aput l u m) = (upd_vars V \<beta> m)(l := \<beta> u)" "upd_inv V K m \<Longrightarrow> K u \<Longrightarrow> upd_inv V K (aput l u m)"
  by (auto simp: upd_vars_def upd_inv_def fun_eq_iff)

lemma upd_aref [simp]:
  "upd_vars V \<beta> (aref (vo_new V) m l) = upd_vars V \<beta> m" "upd_inv V K (aref (vo_new V) m l) = upd_inv V K m"
  by (auto simp: upd_vars_def upd_inv_def fun_eq_iff)

context var_set
begin

lemma upd_get: "upd_inv V K m \<Longrightarrow> K (aget (vo_new V) m l)" "\<beta> (aget (vo_new V) m l) = upd_vars V \<beta> m l"
  by (simp_all add: upd_inv_def upd_vars_def)

lemma upd_found: "map_of m l = Some u \<Longrightarrow> aget (vo_new V) m l = u"
  by (simp add: aget_def)

lemma upd_missing: "map_of m l = None \<Longrightarrow> upd_vars V \<beta> m l = {}"
  by (simp add: upd_vars_def aget_def new)

lemma set_in_ok:
  assumes "upd_inv V K (id_inUpdatedVarMap t)" "kok k"
  shows "\<exists>m. inc_setVarDFInSetUpdated V l k t = Some (t\<lparr>id_inUpdatedVarMap := m\<rparr>) \<and> upd_inv V K m \<and>
    upd_vars V \<beta> m = (upd_vars V \<beta> (id_inUpdatedVarMap t))(l := insert k (upd_vars V \<beta> (id_inUpdatedVarMap t) l))"
  using set[OF upd_get(1)[OF assms(1)] assms(2), of l] assms(1)
  by (auto simp: wp_iff inc_setVarDFInSetUpdated_def upd_get(2))

lemma set_out_ok:
  assumes "upd_inv V K (id_outUpdatedVarMap t)" "kok k"
  shows "\<exists>m. inc_setVarDFOutSetUpdated V l k t = Some (t\<lparr>id_outUpdatedVarMap := m\<rparr>) \<and> upd_inv V K m \<and>
    upd_vars V \<beta> m = (upd_vars V \<beta> (id_outUpdatedVarMap t))(l := insert k (upd_vars V \<beta> (id_outUpdatedVarMap t) l))"
  using set[OF upd_get(1)[OF assms(1)] assms(2), of l] assms(1)
  by (auto simp: wp_iff inc_setVarDFOutSetUpdated_def upd_get(2))

lemma remove_in_ok:
  assumes "upd_inv V K (id_inUpdatedVarMap t)" "kok k"
  shows "\<exists>m. inc_removeVarFromDFInUpdatedSet V l k t = Some (t\<lparr>id_inUpdatedVarMap := m\<rparr>) \<and> upd_inv V K m \<and>
    upd_vars V \<beta> m = (upd_vars V \<beta> (id_inUpdatedVarMap t))(l := upd_vars V \<beta> (id_inUpdatedVarMap t) l - {k})"
proof (cases "map_of (id_inUpdatedVarMap t) l")
  case None
  then show ?thesis
    using assms by (intro exI[of _ "id_inUpdatedVarMap t"]) (simp add: inc_removeVarFromDFInUpdatedSet_def upd_missing fun_upd_idem)
next
  case (Some u)
  then show ?thesis
    using reset[OF upd_get(1)[OF assms(1)] assms(2), of l] assms(1) upd_get(2)[of "id_inUpdatedVarMap t" l]
    by (auto simp: wp_iff inc_removeVarFromDFInUpdatedSet_def upd_found[OF Some])
qed

lemma remove_out_ok:
  assumes "upd_inv V K (id_outUpdatedVarMap t)" "kok k"
  shows "\<exists>m. inc_removeVarFromDFOutUpdatedSet V l k t = Some (t\<lparr>id_outUpdatedVarMap := m\<rparr>) \<and> upd_inv V K m \<and>
    upd_vars V \<beta> m = (upd_vars V \<beta> (id_outUpdatedVarMap t))(l := upd_vars V \<beta> (id_outUpdatedVarMap t) l - {k})"
proof (cases "map_of (id_outUpdatedVarMap t) l")
  case None
  then show ?thesis
    using assms by (intro exI[of _ "id_outUpdatedVarMap t"]) (simp add: inc_removeVarFromDFOutUpdatedSet_def upd_missing fun_upd_idem)
next
  case (Some u)
  then show ?thesis
    using reset[OF upd_get(1)[OF assms(1)] assms(2), of l] assms(1) upd_get(2)[of "id_outUpdatedVarMap t" l]
    by (auto simp: wp_iff inc_removeVarFromDFOutUpdatedSet_def upd_found[OF Some])
qed

lemma has_in_ok:
  "upd_inv V K (id_inUpdatedVarMap t) \<Longrightarrow> kok k \<Longrightarrow>
   inc_varHasNewDFInPts V l k t = Some (k \<in> upd_vars V \<beta> (id_inUpdatedVarMap t) l)"
  using test[OF upd_get(1), of "id_inUpdatedVarMap t" k l] upd_get(2)[of "id_inUpdatedVarMap t" l]
  by (auto simp: inc_varHasNewDFInPts_def upd_missing upd_found split: option.split)

lemma has_out_ok:
  "upd_inv V K (id_outUpdatedVarMap t) \<Longrightarrow> kok k \<Longrightarrow>
   inc_varHasNewDFOutPts V l k t = Some (k \<in> upd_vars V \<beta> (id_outUpdatedVarMap t) l)"
  using test[OF upd_get(1), of "id_outUpdatedVarMap t" k l] upd_get(2)[of "id_outUpdatedVarMap t" l]
  by (auto simp: inc_varHasNewDFOutPts_def upd_missing upd_found split: option.split)

end

subsection \<open>They do what \<open>inc_run1\<close> says\<close>

locale inc_store = slot_store P B \<alpha> opok J sem ents room + var_set V \<beta> K kok
  for P :: "('k, 'e, 'd, 's) df_ops" and B :: "('k, 's) slot_ops" and \<alpha> :: "'d \<Rightarrow> 'e set"
    and opok :: "('k, 'e, 'd) df_op \<Rightarrow> bool" and J :: "'s \<Rightarrow> bool" and sem :: "'s \<Rightarrow> 'k slot \<Rightarrow> 'e set"
    and ents :: "'s \<Rightarrow> 'k slot set" and room :: "'s \<Rightarrow> nat \<Rightarrow> bool"
    and V :: "('k, 'u) var_ops" and \<beta> :: "'u \<Rightarrow> 'k set" and K :: "'u \<Rightarrow> bool" and kok :: "'k \<Rightarrow> bool" +
  fixes iok :: "('k, 'e, 'd) df_op \<Rightarrow> bool"
  assumes iok: "iok c \<Longrightarrow> opok c \<and> df_op_ok (\<lambda>_. True) (\<lambda>_. True) kok c"
begin

abbreviation "isem \<equiv> inc_sem sem V \<beta>"
abbreviation "iinv \<equiv> inc_inv J ents V \<beta> K"

lemma inv_parts:
  assumes "iinv t"
  shows "J (id_base t)" "upd_inv V K (id_inUpdatedVarMap t)" "upd_inv V K (id_outUpdatedVarMap t)"
    and "k \<in> upd_vars V \<beta> (id_inUpdatedVarMap t) l \<Longrightarrow> INs l k \<in> ents (id_base t)"
    and "k \<in> upd_vars V \<beta> (id_outUpdatedVarMap t) l \<Longrightarrow> OUTs l k \<in> ents (id_base t)"
  using assms by (auto simp: inc_inv_def)

text \<open>A step of the base class, with the marks as they are.\<close>

lemma base_step:
  assumes "iinv t" "J s" "ents (id_base t) \<subseteq> ents s"
  shows "iinv (t\<lparr>id_base := s\<rparr>)" "isem (t\<lparr>id_base := s\<rparr>) = (isem t)\<lparr>is_pts := sem s\<rparr>"
  using assms by (fastforce simp: inc_inv_def inc_sem_def)+

lemma union_in_ok:
  assumes t: "iinv t" and k: "kok k" and rm: "room (id_base t) 1"
  shows "wp (inc_unionIn B V l k y t) (\<lambda>(b, t'). into_in l k (sem (id_base t) y) (isem t) = (ChangedDF b, isem t') \<and> iinv t' \<and>
    ents (id_base t') = ents (id_base t) \<union> {INs l k, y} \<and> (\<forall>n. room (id_base t) (n + 1) \<longrightarrow> room (id_base t') n))"
proof -
  note p = inv_parts[OF t]
  obtain b s where s: "so_union B (INs l k) y (id_base t) = Some (b, s)" "J s"
    "b \<longleftrightarrow> \<not> sem (id_base t) y \<subseteq> sem (id_base t) (INs l k)" "ents s = ents (id_base t) \<union> {INs l k, y}"
    "sem s = (sem (id_base t))(INs l k := sem (id_base t) (INs l k) \<union> sem (id_base t) y)"
    "\<And>n. room (id_base t) (n + 1) \<Longrightarrow> room s n"
    using union[OF p(1) rm, of "INs l k" y] by (auto simp: wp_iff slot_step_def)
  have sub: "ents (id_base t) \<subseteq> ents s" using s(4) by blast
  note t1 = base_step[OF t s(2) sub]
  show ?thesis
  proof (cases b)
    case False
    then have "sem s = sem (id_base t)" using s(3,5) by (simp add: Un_absorb2)
    then show ?thesis using False s t1 by (simp add: inc_unionIn_def inc_on_def into_in_def inc_sem_def)
  next
    case True
    obtain m where m: "inc_setVarDFInSetUpdated V l k (t\<lparr>id_base := s\<rparr>) = Some (t\<lparr>id_base := s, id_inUpdatedVarMap := m\<rparr>)"
      "upd_inv V K m" "upd_vars V \<beta> m =
        (upd_vars V \<beta> (id_inUpdatedVarMap t))(l := insert k (upd_vars V \<beta> (id_inUpdatedVarMap t) l))"
      using set_in_ok[of "t\<lparr>id_base := s\<rparr>" k l] p(2) k by auto
    have "iinv (t\<lparr>id_base := s, id_inUpdatedVarMap := m\<rparr>)"
      using t1(1) m(2,3) s(4) by (auto simp: inc_inv_def)
    then show ?thesis
      using True s m by (simp add: inc_unionIn_def inc_on_def into_in_def inc_sem_def)
  qed
qed

lemma union_out_ok:
  assumes t: "iinv t" and k: "kok k" and rm: "room (id_base t) 1"
  shows "wp (inc_unionOut B V l k y t) (\<lambda>(b, t'). into_out l k (sem (id_base t) y) (isem t) = (ChangedDF b, isem t') \<and> iinv t' \<and>
    ents (id_base t') = ents (id_base t) \<union> {OUTs l k, y} \<and> (\<forall>n. room (id_base t) (n + 1) \<longrightarrow> room (id_base t') n))"
proof -
  note p = inv_parts[OF t]
  obtain b s where s: "so_union B (OUTs l k) y (id_base t) = Some (b, s)" "J s"
    "b \<longleftrightarrow> \<not> sem (id_base t) y \<subseteq> sem (id_base t) (OUTs l k)" "ents s = ents (id_base t) \<union> {OUTs l k, y}"
    "sem s = (sem (id_base t))(OUTs l k := sem (id_base t) (OUTs l k) \<union> sem (id_base t) y)"
    "\<And>n. room (id_base t) (n + 1) \<Longrightarrow> room s n"
    using union[OF p(1) rm, of "OUTs l k" y] by (auto simp: wp_iff slot_step_def)
  have sub: "ents (id_base t) \<subseteq> ents s" using s(4) by blast
  note t1 = base_step[OF t s(2) sub]
  show ?thesis
  proof (cases b)
    case False
    then have "sem s = sem (id_base t)" using s(3,5) by (simp add: Un_absorb2)
    then show ?thesis using False s t1 by (simp add: inc_unionOut_def inc_on_def into_out_def inc_sem_def)
  next
    case True
    obtain m where m: "inc_setVarDFOutSetUpdated V l k (t\<lparr>id_base := s\<rparr>) = Some (t\<lparr>id_base := s, id_outUpdatedVarMap := m\<rparr>)"
      "upd_inv V K m" "upd_vars V \<beta> m =
        (upd_vars V \<beta> (id_outUpdatedVarMap t))(l := insert k (upd_vars V \<beta> (id_outUpdatedVarMap t) l))"
      using set_out_ok[of "t\<lparr>id_base := s\<rparr>" k l] p(3) k by auto
    have "iinv (t\<lparr>id_base := s, id_outUpdatedVarMap := m\<rparr>)"
      using t1(1) m(2,3) s(4) by (auto simp: inc_inv_def)
    then show ?thesis
      using True s m by (simp add: inc_unionOut_def inc_on_def into_out_def inc_sem_def)
  qed
qed

text \<open>Taking the mark of a variable of the IN set.\<close>

lemma drop_ok:
  assumes t: "iinv t" and k: "kok k"
  shows "\<exists>t'. inc_removeVarFromDFInUpdatedSet V l k t = Some t' \<and> iinv t' \<and> isem t' = drop_in l k (isem t) \<and> id_base t' = id_base t"
proof -
  note p = inv_parts[OF t]
  obtain m where m: "inc_removeVarFromDFInUpdatedSet V l k t = Some (t\<lparr>id_inUpdatedVarMap := m\<rparr>)" "upd_inv V K m"
    "upd_vars V \<beta> m = (upd_vars V \<beta> (id_inUpdatedVarMap t))(l := upd_vars V \<beta> (id_inUpdatedVarMap t) l - {k})"
    using remove_in_ok[OF p(2) k] by blast
  then have "iinv (t\<lparr>id_inUpdatedVarMap := m\<rparr>)" using t by (auto simp: inc_inv_def)
  then show ?thesis using m by (simp add: inc_sem_def drop_in_def)
qed

lemma out_from_in_ok:
  assumes t: "iinv t" and k: "kok k" "kok k'" and rm: "room (id_base t) 1"
  shows "wp (inc_updateDFOutFromIn B V l k l' k' t) (\<lambda>(b, t').
    inc_run1 \<alpha> (OutFromIn l k l' k') (isem t) = (ChangedDF b, isem t') \<and> iinv t' \<and>
    ents (id_base t) \<subseteq> ents (id_base t') \<and> ents (id_base t') \<subseteq> ents (id_base t) \<union> {OUTs l' k', INs l k} \<and>
    (\<forall>n. room (id_base t) (n + 1) \<longrightarrow> room (id_base t') n))"
proof (cases "k \<in> upd_vars V \<beta> (id_inUpdatedVarMap t) l")
  case True
  obtain t1 where t1: "inc_removeVarFromDFInUpdatedSet V l k t = Some t1" "iinv t1"
    "isem t1 = drop_in l k (isem t)" "id_base t1 = id_base t"
    using drop_ok[OF t k(1)] by blast
  have pts: "is_pts (isem t) (INs l k) = sem (id_base t) (INs l k)" by (simp add: inc_sem_def)
  show ?thesis
    using union_out_ok[OF t1(2) k(2), of l' "INs l k"] rm True t1 has_in_ok[OF inv_parts(2)[OF t] k(1), of l]
    by (auto simp: inc_updateDFOutFromIn_def wp_iff pts, auto simp: inc_sem_def)
next
  case False
  then show ?thesis
    using t has_in_ok[OF inv_parts(2)[OF t] k(1), of l]
    by (auto simp: inc_updateDFOutFromIn_def intro: room, auto simp: inc_sem_def)
qed

end

context inc_store
begin

text \<open>The loop over the marked variables.\<close>

lemma inc_loop_ok:
  assumes t: "iinv t" and vs: "distinct vs" "set vs = upd_vars V \<beta> (id_inUpdatedVarMap t) l"
    and rm: "room (id_base t) (length vs)"
  shows "wp (out_loop (inc_updateDFOutFromIn B V) l k strong vs t) (\<lambda>(b, t').
    (b \<longleftrightarrow> new_outs l (loop_vars strong k vs) (is_pts (isem t)) \<noteq> {}) \<and> iinv t' \<and>
    isem t' = (isem t)\<lparr>is_pts := outs_from_ins l (loop_vars strong k vs) (is_pts (isem t)),
      is_in := (is_in (isem t))(l := is_in (isem t) l - loop_vars strong k vs),
      is_out := (is_out (isem t))(l := is_out (isem t) l \<union> new_outs l (loop_vars strong k vs) (is_pts (isem t)))\<rparr> \<and>
    in_slots (ents (id_base t')) = in_slots (ents (id_base t)) \<and>
    (\<forall>n. room (id_base t) (n + length vs) \<longrightarrow> room (id_base t') n))"
proof -
  let ?f = "is_pts (isem t)"
  have kin: "is_in (isem t) l = set vs" using vs(2) by (simp add: inc_sem_def)
  define I where "I ys bs \<longleftrightarrow> (case bs of (b, t') \<Rightarrow>
    (b \<longleftrightarrow> new_outs l (loop_vars strong k ys) ?f \<noteq> {}) \<and> iinv t' \<and>
    isem t' = (isem t)\<lparr>is_pts := outs_from_ins l (loop_vars strong k ys) ?f,
      is_in := (is_in (isem t))(l := is_in (isem t) l - loop_vars strong k ys),
      is_out := (is_out (isem t))(l := is_out (isem t) l \<union> new_outs l (loop_vars strong k ys) ?f)\<rparr> \<and>
    ents (id_base t) \<subseteq> ents (id_base t') \<and> in_slots (ents (id_base t')) = in_slots (ents (id_base t)) \<and>
    (\<forall>n. room (id_base t) (n + length ys) \<longrightarrow> room (id_base t') n))"
    for ys and bs :: "bool \<times> ('u, 's) inc_df"
  have "wp (out_loop (inc_updateDFOutFromIn B V) l k strong vs t) (I vs)"
    unfolding out_loop_def
  proof (rule foldM_wp)
    show "I [] (False, t)" using t by (simp add: I_def loop_vars_def)
  next
    fix ys v zs bs
    assume split: "vs = ys @ v # zs" and "I ys bs"
    then obtain b t1 where bs: "bs = (b, t1)" and i: "b \<longleftrightarrow> new_outs l (loop_vars strong k ys) ?f \<noteq> {}" "iinv t1"
      "isem t1 = (isem t)\<lparr>is_pts := outs_from_ins l (loop_vars strong k ys) ?f,
        is_in := (is_in (isem t))(l := is_in (isem t) l - loop_vars strong k ys),
        is_out := (is_out (isem t))(l := is_out (isem t) l \<union> new_outs l (loop_vars strong k ys) ?f)\<rparr>"
      "ents (id_base t) \<subseteq> ents (id_base t1)" "in_slots (ents (id_base t1)) = in_slots (ents (id_base t))"
      "\<And>n. room (id_base t) (n + length ys) \<Longrightarrow> room (id_base t1) n"
      by (auto simp: I_def split: prod.splits)
    have rooms: "room (id_base t1) n" if "room (id_base t) (n + length (ys @ [v]))" for n
      by (rule i(6), rule room[OF that]) simp
    show "wp (case bs of (changed, s) \<Rightarrow> if strong \<and> v = k then Some (changed, s)
        else do { (b, s) \<leftarrow> inc_updateDFOutFromIn B V l v l v s; Some (changed \<or> b, s) }) (I (ys @ [v]))"
    proof (cases "strong \<and> v = k")
      case True
      then have "loop_vars strong k (ys @ [v]) = loop_vars strong k ys" by (auto simp: loop_vars_def)
      then show ?thesis using True i(1-5) rooms by (simp add: bs I_def)
    next
      case False
      have v: "v \<notin> loop_vars strong k ys" "loop_vars strong k (ys @ [v]) = insert v (loop_vars strong k ys)"
        using False vs(1) split by (auto simp: loop_vars_def)
      have mark: "v \<in> upd_vars V \<beta> (id_inUpdatedVarMap t) l" using vs(2) split by auto
      then have entry: "INs l v \<in> ents (id_base t)" by (rule inv_parts(4)[OF t])
      have kv: "kok v" using mem[OF upd_get(1)[OF inv_parts(2)[OF t]]] mark upd_get(2) by blast
      have "room (id_base t1) 1" by (rule i(6), rule room[OF rm]) (simp add: split)
      from out_from_in_ok[OF i(2) kv kv this, of l l] obtain b' t2 where
        t2: "inc_updateDFOutFromIn B V l v l v t1 = Some (b', t2)"
        "inc_run1 \<alpha> (OutFromIn l v l v) (isem t1) = (ChangedDF b', isem t2)" "iinv t2"
        "ents (id_base t1) \<subseteq> ents (id_base t2)" "ents (id_base t2) \<subseteq> ents (id_base t1) \<union> {OUTs l v, INs l v}"
        "\<And>n. room (id_base t1) (n + 1) \<Longrightarrow> room (id_base t2) n"
        by (auto simp: wp_iff)
      have "v \<in> is_in (isem t1) l" using mark v(1) i(3) by (simp add: kin vs(2))
      moreover have "is_pts (isem t1) (INs l v) = ?f (INs l v)" "is_pts (isem t1) (OUTs l v) = ?f (OUTs l v)"
        using v(1) i(3) by simp_all
      ultimately have step: "(ChangedDF b', isem t2) = into_out l v (?f (INs l v)) (drop_in l v (isem t1))"
        using t2(2) by simp
      have b': "b' \<longleftrightarrow> \<not> ?f (INs l v) \<subseteq> ?f (OUTs l v)"
        using step v(1) i(3) by (auto simp: into_out_def drop_in_def split: if_splits)
      have upd: "isem t2 = (isem t)\<lparr>is_pts := outs_from_ins l (loop_vars strong k (ys @ [v])) ?f,
          is_in := (is_in (isem t))(l := is_in (isem t) l - loop_vars strong k (ys @ [v])),
          is_out := (is_out (isem t))(l := is_out (isem t) l \<union> new_outs l (loop_vars strong k (ys @ [v])) ?f)\<rparr>"
      proof (rule inc_spec.equality)
        have t2s: "isem t2 = snd (into_out l v (?f (INs l v)) (drop_in l v (isem t1)))" using step by (metis snd_conv)
        have old: "is_pts (isem t1) = outs_from_ins l (loop_vars strong k ys) ?f"
          "is_in (isem t1) = (is_in (isem t))(l := is_in (isem t) l - loop_vars strong k ys)"
          "is_out (isem t1) = (is_out (isem t))(l := is_out (isem t) l \<union> new_outs l (loop_vars strong k ys) ?f)"
          by (simp_all add: i(3))
        have same: "?f (INs l v) \<subseteq> ?f (OUTs l v) \<Longrightarrow>
            (outs_from_ins l (loop_vars strong k ys) ?f)(OUTs l v := ?f (OUTs l v)) = outs_from_ins l (loop_vars strong k ys) ?f"
          using v(1) by (simp add: fun_upd_idem)
        show "is_pts (isem t2) = is_pts ((isem t)\<lparr>is_pts := outs_from_ins l (loop_vars strong k (ys @ [v])) ?f,
          is_in := (is_in (isem t))(l := is_in (isem t) l - loop_vars strong k (ys @ [v])),
          is_out := (is_out (isem t))(l := is_out (isem t) l \<union> new_outs l (loop_vars strong k (ys @ [v])) ?f)\<rparr>)"
          unfolding t2s v(2) using v(1) same
          by (simp add: into_out_def drop_in_def old outs_from_ins_insert Un_absorb2)
        show "is_in (isem t2) = is_in ((isem t)\<lparr>is_pts := outs_from_ins l (loop_vars strong k (ys @ [v])) ?f,
          is_in := (is_in (isem t))(l := is_in (isem t) l - loop_vars strong k (ys @ [v])),
          is_out := (is_out (isem t))(l := is_out (isem t) l \<union> new_outs l (loop_vars strong k (ys @ [v])) ?f)\<rparr>)"
          unfolding t2s v(2) by (simp add: into_out_def drop_in_def old Diff_insert[of _ v "loop_vars strong k ys"])
        show "is_out (isem t2) = is_out ((isem t)\<lparr>is_pts := outs_from_ins l (loop_vars strong k (ys @ [v])) ?f,
          is_in := (is_in (isem t))(l := is_in (isem t) l - loop_vars strong k (ys @ [v])),
          is_out := (is_out (isem t))(l := is_out (isem t) l \<union> new_outs l (loop_vars strong k (ys @ [v])) ?f)\<rparr>)"
          unfolding t2s v(2) using v(1) by (simp add: into_out_def drop_in_def old)
      qed simp
      have slots: "in_slots (ents (id_base t2)) = in_slots (ents (id_base t))"
      proof -
        have "ents (id_base t2) \<subseteq> ents (id_base t1) \<union> {OUTs l v}" using t2(5) entry i(4) by blast
        from in_slots_mono[OF this] in_slots_mono[OF t2(4)] show ?thesis by (simp add: i(5))
      qed
      have "room (id_base t2) n" if "room (id_base t) (n + length (ys @ [v]))" for n
        by (rule t2(6), rule i(6)) (use that in \<open>simp add: ac_simps\<close>)
      then show ?thesis
        using False t2(1,3) i(1,4) v b' upd slots t2(4) by (auto simp: bs I_def)
    qed
  qed
  then show ?thesis by (auto simp: I_def elim!: wp_mono)
qed

end

text \<open>The inherited methods.\<close>

lemma inc_plain:
  "plain_op c \<Longrightarrow> df_run1 (inc_ops P B V) \<alpha> c t =
     map_option (\<lambda>(a, s). (a, t\<lparr>id_base := s\<rparr>)) (df_run1 P \<alpha> c (id_base t))"
  by (cases c) (auto simp: inc_ops_def inc_on_def inc_on_do_def split: Option.bind_split option.split)

lemma inc_run1_plain:
  "plain_op c \<Longrightarrow> inc_run1 \<alpha> c s = (fst (full_run1 \<alpha> c (is_pts s)), s\<lparr>is_pts := snd (full_run1 \<alpha> c (is_pts s))\<rparr>)"
  by (cases c) (simp_all add: split_beta)

context inc_store
begin

lemma clear_outs_ok:
  assumes "iinv t" "\<forall>k \<in> set ks. kok k"
  shows "wp (foldM (inc_removeVarFromDFOutUpdatedSet V l) ks t) (\<lambda>t'. iinv t' \<and> id_base t' = id_base t \<and>
    isem t' = (isem t)\<lparr>is_out := (is_out (isem t))(l := is_out (isem t) l - set ks)\<rparr>)"
  using assms
proof (induction ks arbitrary: t)
  case (Cons k ks)
  note p = inv_parts[OF Cons.prems(1)]
  obtain m where m: "inc_removeVarFromDFOutUpdatedSet V l k t = Some (t\<lparr>id_outUpdatedVarMap := m\<rparr>)" "upd_inv V K m"
    "upd_vars V \<beta> m = (upd_vars V \<beta> (id_outUpdatedVarMap t))(l := upd_vars V \<beta> (id_outUpdatedVarMap t) l - {k})"
    using remove_out_ok[OF p(3), of k l] Cons.prems(2) by auto
  let ?t = "t\<lparr>id_outUpdatedVarMap := m\<rparr>"
  have "iinv ?t" using Cons.prems(1) m by (auto simp: inc_inv_def)
  from Cons.IH[OF this] have "wp (foldM (inc_removeVarFromDFOutUpdatedSet V l) ks ?t)
    (\<lambda>t'. iinv t' \<and> id_base t' = id_base ?t \<and> isem t' = (isem ?t)\<lparr>is_out := (is_out (isem ?t))(l := is_out (isem ?t) l - set ks)\<rparr>)"
    using Cons.prems(2) by (simp del: fun_upd_apply)
  moreover have "isem ?t = (isem t)\<lparr>is_out := (is_out (isem t))(l := is_out (isem t) l - {k})\<rparr>"
    by (simp add: inc_sem_def m(3))
  moreover have "A - {k} - set ks = A - set (k # ks)" for A by auto
  ultimately show ?case by (simp add: m(1) fun_upd_same del: fun_upd_apply)
qed (simp add: inc_sem_def)

lemma iinv_aref:
  "iinv t \<Longrightarrow> iinv (t\<lparr>id_inUpdatedVarMap := aref (vo_new V) (id_inUpdatedVarMap t) l\<rparr>)"
  "isem (t\<lparr>id_inUpdatedVarMap := aref (vo_new V) (id_inUpdatedVarMap t) l\<rparr>) = isem t"
  "iinv t \<Longrightarrow> iinv (t\<lparr>id_outUpdatedVarMap := aref (vo_new V) (id_outUpdatedVarMap t) l\<rparr>)"
  "isem (t\<lparr>id_outUpdatedVarMap := aref (vo_new V) (id_outUpdatedVarMap t) l\<rparr>) = isem t"
  by (simp_all add: inc_inv_def inc_sem_def)

lemma all_outs_ok:
  assumes t: "iinv t" and rm: "room (id_base t) (card (in_slots (ents (id_base t))))"
  shows "wp (inc_updateAllDFOutFromIn B V l k strong t) (\<lambda>(b, t').
    inc_run1 \<alpha> (AllOutFromIn l k strong) (isem t) = (ChangedDF b, isem t') \<and> iinv t' \<and>
    in_slots (ents (id_base t')) = in_slots (ents (id_base t)) \<and>
    (\<forall>n. room (id_base t) (n + card (in_slots (ents (id_base t)))) \<longrightarrow> room (id_base t') n))"
proof -
  note p = inv_parts[OF t]
  let ?V = "if strong then is_in (isem t) l - {k} else is_in (isem t) l"
  show ?thesis
  proof (cases "so_hasIn B l (id_base t)")
    case True
    let ?t = "t\<lparr>id_inUpdatedVarMap := aref (vo_new V) (id_inUpdatedVarMap t) l\<rparr>"
    obtain vs where vs: "vo_elems V (aget (vo_new V) (id_inUpdatedVarMap t) l) = Some vs" "distinct vs"
      "set vs = upd_vars V \<beta> (id_inUpdatedVarMap t) l"
      using elems[OF upd_get(1)[OF p(2)], of l] by (auto simp: wp_iff upd_get(2))
    have len: "length vs \<le> card (in_slots (ents (id_base t)))"
      by (rule card_vars[where l = l, OF p(1) vs(2)]) (use vs(3) p(4) in auto)
    have lv: "loop_vars strong k vs = ?V" using vs(3) by (auto simp: loop_vars_def inc_sem_def)
    have rl: "room (id_base ?t) (length vs)" by (simp, rule room[OF rm len])
    have "room (id_base t) (n + length vs)" if "room (id_base t) (n + card (in_slots (ents (id_base t))))" for n
      by (rule room[OF that]) (use len in simp)
    then show ?thesis
      using inc_loop_ok[where l = l and k = k and strong = strong, OF iinv_aref(1)[OF t, of l] vs(2) _ rl] vs(1,3) True
      by (auto simp: inc_updateAllDFOutFromIn_def inc_getDFInUpdatedVar_def iinv_aref lv Let_def elim!: wp_mono)
  next
    case False
    have none: "is_in (isem t) l = {}" using False hasIn[OF p(1), of l] p(4)[of _ l] by (auto simp: inc_sem_def)
    then have same: "(is_in (isem t))(l := {}) = is_in (isem t)" by (simp add: fun_upd_idem)
    show ?thesis
      using False t none by (auto simp: inc_updateAllDFOutFromIn_def Let_def same intro: room)
  qed
qed

lemma clear_updated_ok:
  assumes t: "iinv t"
  shows "wp (inc_clearAllDFOutUpdatedVar B V l t) (\<lambda>t'. iinv t' \<and> id_base t' = id_base t \<and>
    isem t' = (isem t)\<lparr>is_out := (is_out (isem t))(l := {})\<rparr>)"
proof (cases "so_hasOut B l (id_base t)")
  case True
  let ?t = "t\<lparr>id_outUpdatedVarMap := aref (vo_new V) (id_outUpdatedVarMap t) l\<rparr>"
  note p = inv_parts[OF t]
  obtain vs where vs: "vo_elems V (aget (vo_new V) (id_outUpdatedVarMap t) l) = Some vs"
    "set vs = upd_vars V \<beta> (id_outUpdatedVarMap t) l"
    using elems[OF upd_get(1)[OF p(3)], of l] by (auto simp: wp_iff upd_get(2))
  then have ks: "\<forall>k \<in> set vs. kok k" using mem[OF upd_get(1)[OF p(3)], of _ l] upd_get(2) by auto
  have none: "is_out (isem t) l - set vs = {}" by (simp add: vs(2) inc_sem_def)
  show ?thesis
    using clear_outs_ok[OF iinv_aref(3)[OF t, of l] ks, of l, unfolded iinv_aref none] vs(1) True
    by (auto simp: inc_clearAllDFOutUpdatedVar_def inc_getDFOutUpdatedVar_def iinv_aref elim!: wp_mono)
next
  case False
  then have "is_out (isem t) l = {}" using hasOut[OF inv_parts(1)[OF t], of l] inv_parts(5)[OF t, of _ l] by (auto simp: inc_sem_def)
  then have "(is_out (isem t))(l := {}) = is_out (isem t)" by (simp add: fun_upd_idem)
  then show ?thesis using False t by (simp add: inc_clearAllDFOutUpdatedVar_def)
qed

end

text \<open>At most two new IN entries, and at most as many new sets as the room allows.\<close>

definition inc_grows :: "('s \<Rightarrow> 'k slot set) \<Rightarrow> ('s \<Rightarrow> nat \<Rightarrow> bool) \<Rightarrow> ('u, 's) inc_df \<Rightarrow> ('u, 's) inc_df \<Rightarrow> bool" where
  "inc_grows ents room t t' \<longleftrightarrow> card (in_slots (ents (id_base t'))) \<le> card (in_slots (ents (id_base t))) + 2 \<and>
     (\<forall>n. room (id_base t) (n + 2 + card (in_slots (ents (id_base t)))) \<longrightarrow> room (id_base t') n)"

context inc_store
begin

abbreviation "grows \<equiv> inc_grows ents room"

lemma inc_answer:
  assumes "wp m (\<lambda>(b, t'). g = (ChangedDF b, isem t') \<and> iinv t' \<and> grows t t')"
  shows "wp (map_option (\<lambda>(b, t). (ChangedDF b, t)) m) (\<lambda>(a, t'). a = fst g \<and>
    df_step iinv isem (\<lambda>t. card (in_slots (ents (id_base t)))) (\<lambda>t. room (id_base t)) t (snd g) t')"
  using assms by (auto simp: wp_iff df_step_def inc_grows_def)

lemma room1: "room s (2 + m) \<Longrightarrow> room s 1" "room s (2 + m) \<Longrightarrow> room s m" "room s (2 + m) \<Longrightarrow> room s 2"
  by (auto elim: room)

lemma grows_refl [simp]: "grows t t"
  unfolding inc_grows_def using room[of "id_base t"] by (meson le_add1 trans_le_add1)

lemma grows_union:
  assumes "J (id_base t)" "ents (id_base t') = insert x (insert y (ents (id_base t)))"
    and "\<forall>n. room (id_base t) (Suc n) \<longrightarrow> room (id_base t') n"
  shows "grows t t'"
proof -
  have "room (id_base t') n" if "room (id_base t) (n + 2 + card (in_slots (ents (id_base t))))" for n
    by (rule assms(3)[rule_format], rule room[OF that]) simp
  moreover have "ents (id_base t') = ents (id_base t) \<union> {x, y}" using assms(2) by simp
  ultimately show ?thesis using card_union[OF assms(1), of "id_base t'" x y] by (simp add: inc_grows_def)
qed

lemma grows_out:
  assumes "J (id_base t)" "ents (id_base t') \<subseteq> insert (OUTs l' k') (insert (INs l k) (ents (id_base t)))"
    and "\<forall>n. room (id_base t) (Suc n) \<longrightarrow> room (id_base t') n"
  shows "grows t t'"
proof -
  have "in_slots (ents (id_base t')) \<subseteq> insert (l, k) (in_slots (ents (id_base t)))"
    using in_slots_mono[OF assms(2)] by simp
  from card_mono[OF _ this] have "card (in_slots (ents (id_base t'))) \<le> card (in_slots (ents (id_base t))) + 2"
    using finite_ins[OF assms(1)] by (simp add: card_insert_if split: if_splits)
  moreover have "room (id_base t') n" if "room (id_base t) (n + 2 + card (in_slots (ents (id_base t))))" for n
    by (rule assms(3)[rule_format], rule room[OF that]) simp
  ultimately show ?thesis by (simp add: inc_grows_def)
qed

lemma grows_loop:
  assumes "in_slots (ents (id_base t')) = in_slots (ents (id_base t))"
    and "\<forall>n. room (id_base t) (n + card (in_slots (ents (id_base t)))) \<longrightarrow> room (id_base t') n"
  shows "grows t t'"
proof -
  have "room (id_base t') n" if "room (id_base t) (n + 2 + card (in_slots (ents (id_base t))))" for n
    by (rule assms(2)[rule_format], rule room[OF that]) simp
  then show ?thesis using assms(1) by (simp add: inc_grows_def)
qed

lemma grows_two:
  assumes "card (in_slots (ents s)) \<le> card (in_slots (ents (id_base t))) + 2"
    and "\<forall>n. room (id_base t) (n + 2) \<longrightarrow> room s n"
  shows "grows t (t'\<lparr>id_base := s\<rparr>)"
proof -
  have "room s n" if "room (id_base t) (n + 2 + card (in_slots (ents (id_base t))))" for n
    by (rule assms(2)[rule_format], rule room[OF that]) simp
  then show ?thesis using assms(1) by (simp add: inc_grows_def)
qed

lemma tlv_inc_ok:
  assumes t: "iinv t" and k: "kok k" and rm: "room (id_base t) 2"
  shows "wp (inc_updateTLVPts B V l k k' t) (\<lambda>(b, t'). inc_run1 \<alpha> (UpdateTLV l k k') (isem t) = (ChangedDF b, isem t') \<and>
    iinv t' \<and> grows t t')"
proof (cases "k \<in> upd_vars V \<beta> (id_inUpdatedVarMap t) l")
  case True
  obtain t1 where t1: "inc_removeVarFromDFInUpdatedSet V l k t = Some t1" "iinv t1"
    "isem t1 = drop_in l k (isem t)" "id_base t1 = id_base t"
    using drop_ok[OF t k] by blast
  note J = inv_parts(1)[OF t]
  obtain b s where s: "so_tlv B l k k' (id_base t) = Some (b, s)" "J s"
    "b \<longleftrightarrow> \<not> sem (id_base t) (INs l k) \<subseteq> sem (id_base t) (TLs k')" "ents s = ents (id_base t) \<union> {TLs k', INs l k}"
    "sem s = (sem (id_base t))(TLs k' := sem (id_base t) (TLs k') \<union> sem (id_base t) (INs l k))"
    "\<forall>n. room (id_base t) (n + 2) \<longrightarrow> room s n"
    using tlv[OF J rm, of l k k'] unfolding wp_iff slot_step_def by blast
  have sub: "ents (id_base t1) \<subseteq> ents s" using s(4) t1(4) by auto
  have pts: "is_pts (isem t) = sem (id_base t)" "is_in (isem t) = upd_vars V \<beta> (id_inUpdatedVarMap t)"
    by (simp_all add: inc_sem_def)
  have g: "grows t (t1\<lparr>id_base := s\<rparr>)" by (rule grows_two[OF card_union[OF J s(4)] s(6)])
  show ?thesis
    using True s(1,3,5) t1 g base_step[OF t1(2) s(2) sub] has_in_ok[OF inv_parts(2)[OF t] k, of l]
    by (simp add: inc_updateTLVPts_def inc_on_def pts)
next
  case False
  moreover have "is_in (isem t) = upd_vars V \<beta> (id_inUpdatedVarMap t)" by (simp add: inc_sem_def)
  ultimately show ?thesis
    using t has_in_ok[OF inv_parts(2)[OF t] k, of l] by (simp add: inc_updateTLVPts_def)
qed

theorem inc_run1_ok:
  assumes t: "iinv t" and rm: "room (id_base t) (2 + card (in_slots (ents (id_base t))))" and c: "iok c"
  shows "wp (df_run1 (inc_ops P B V) \<alpha> c t) (\<lambda>(a, t'). a = fst (inc_run1 \<alpha> c (isem t)) \<and>
    df_step iinv isem (\<lambda>t. card (in_slots (ents (id_base t)))) (\<lambda>t. room (id_base t)) t (snd (inc_run1 \<alpha> c (isem t))) t')"
proof -
  note p = inv_parts[OF t]
  have pts: "is_pts (isem t) = sem (id_base t)" "is_in (isem t) = upd_vars V \<beta> (id_inUpdatedVarMap t)"
    "is_out (isem t) = upd_vars V \<beta> (id_outUpdatedVarMap t)"
    by (simp_all add: inc_sem_def)
  have into: "wp (inc_unionIn B V l k y t)
      (\<lambda>(b, t'). into_in l k (sem (id_base t) y) (isem t) = (ChangedDF b, isem t') \<and> iinv t' \<and> grows t t')" if "kok k" for l k y
    by (rule wp_mono[OF union_in_ok[OF t that room1(1)[OF rm]]]) (auto intro: grows_union[OF p(1)])
  have outto: "wp (inc_unionOut B V l k y t)
      (\<lambda>(b, t'). into_out l k (sem (id_base t) y) (isem t) = (ChangedDF b, isem t') \<and> iinv t' \<and> grows t t')" if "kok k" for l k y
    by (rule wp_mono[OF union_out_ok[OF t that room1(1)[OF rm]]]) (auto intro: grows_union[OF p(1)])
  have ok: "opok c" "df_op_ok (\<lambda>_. True) (\<lambda>_. True) kok c" using iok[OF c] by blast+
  show ?thesis
  proof (cases "plain_op c")
    case True
    obtain a s where s: "df_run1 P \<alpha> c (id_base t) = Some (a, s)" "a = fst (full_run1 \<alpha> c (sem (id_base t)))" "J s"
      "sem s = snd (full_run1 \<alpha> c (sem (id_base t)))" "ents (id_base t) \<subseteq> ents s"
      "card (in_slots (ents s)) \<le> card (in_slots (ents (id_base t))) + 1" "\<forall>n. room (id_base t) (n + 2) \<longrightarrow> room s n"
      using plain[OF p(1) room1(3)[OF rm] True ok(1)] unfolding wp_iff slot_step_def by blast
    have g: "grows t (t\<lparr>id_base := s\<rparr>)" by (rule grows_two[OF _ s(7)]) (use s(6) in simp)
    show ?thesis
      using s(1,2,4) base_step[OF t s(3,5)] g
      by (simp add: inc_plain[OF True] inc_run1_plain[OF True] df_step_def inc_grows_def pts)
  next
    case False
    show ?thesis
    proof (cases c)
      case (InFromIn l k l' k')
      have "wp (inc_updateDFInFromIn B V l k l' k' t)
          (\<lambda>(b, t'). inc_run1 \<alpha> c (isem t) = (ChangedDF b, isem t') \<and> iinv t' \<and> grows t t')"
        using ok(2) into[of k' l' "INs l k"] has_in_ok[OF p(2), of k l] t
        by (simp add: InFromIn inc_updateDFInFromIn_def pts)
      from inc_answer[OF this] show ?thesis by (simp add: InFromIn inc_ops_def del: inc_run1.simps)
    next
      case (AllInFromIn l k l' k')
      have "wp (inc_updateAllDFInFromIn B V l k l' k' t)
          (\<lambda>(b, t'). inc_run1 \<alpha> c (isem t) = (ChangedDF b, isem t') \<and> iinv t' \<and> grows t t')"
        using ok(2) into[of k' l' "INs l k"] by (simp add: AllInFromIn inc_updateAllDFInFromIn_def pts)
      from inc_answer[OF this] show ?thesis by (simp add: AllInFromIn inc_ops_def del: inc_run1.simps)
    next
      case (InFromOut l k l' k')
      have "wp (inc_updateDFInFromOut B V l k l' k' t)
          (\<lambda>(b, t'). inc_run1 \<alpha> c (isem t) = (ChangedDF b, isem t') \<and> iinv t' \<and> grows t t')"
        using ok(2) into[of k' l' "OUTs l k"] has_out_ok[OF p(3), of k l] t
        by (simp add: InFromOut inc_updateDFInFromOut_def pts)
      from inc_answer[OF this] show ?thesis by (simp add: InFromOut inc_ops_def del: inc_run1.simps)
    next
      case (AllInFromOut l k l' k')
      have "wp (inc_updateAllDFInFromOut B V l k l' k' t)
          (\<lambda>(b, t'). inc_run1 \<alpha> c (isem t) = (ChangedDF b, isem t') \<and> iinv t' \<and> grows t t')"
        using ok(2) into[of k' l' "OUTs l k"] by (simp add: AllInFromOut inc_updateAllDFInFromOut_def pts)
      from inc_answer[OF this] show ?thesis by (simp add: AllInFromOut inc_ops_def del: inc_run1.simps)
    next
      case (OutFromIn l k l' k')
      have k: "kok k" "kok k'" using ok(2) by (simp_all add: OutFromIn)
      have "wp (inc_updateDFOutFromIn B V l k l' k' t)
          (\<lambda>(b, t'). inc_run1 \<alpha> c (isem t) = (ChangedDF b, isem t') \<and> iinv t' \<and> grows t t')"
        unfolding OutFromIn
        by (rule wp_mono[OF out_from_in_ok[OF t k room1(1)[OF rm]]])
          (auto simp del: inc_run1.simps intro: grows_out[OF p(1), of _ l' k' l k])
      from inc_answer[OF this] show ?thesis by (simp add: OutFromIn inc_ops_def del: inc_run1.simps)
    next
      case (AllOutFromIn l k strong)
      have "wp (inc_updateAllDFOutFromIn B V l k strong t)
          (\<lambda>(b, t'). inc_run1 \<alpha> c (isem t) = (ChangedDF b, isem t') \<and> iinv t' \<and> grows t t')"
        unfolding AllOutFromIn
        by (rule wp_mono[OF all_outs_ok[OF t room1(2)[OF rm], of l k strong]])
          (auto simp del: inc_run1.simps intro: grows_loop)
      from inc_answer[OF this] show ?thesis by (simp add: AllOutFromIn inc_ops_def del: inc_run1.simps)
    next
      case (ClearOutUpdated l)
      obtain t' where t': "inc_clearAllDFOutUpdatedVar B V l t = Some t'" "iinv t'" "id_base t' = id_base t"
        "isem t' = (isem t)\<lparr>is_out := (is_out (isem t))(l := {})\<rparr>"
        using clear_updated_ok[OF t, of l] unfolding wp_iff by blast
      have "grows t t'" using grows_refl[of t] by (simp add: inc_grows_def t'(3))
      then show ?thesis
        using t' by (simp add: ClearOutUpdated inc_ops_def df_step_def inc_grows_def)
    next
      case (UpdateTLV l k k')
      have k: "kok k" using ok(2) by (simp add: UpdateTLV)
      from inc_answer[OF tlv_inc_ok[OF t k room1(3)[OF rm], of l k']] show ?thesis
        by (simp add: UpdateTLV inc_ops_def del: inc_run1.simps)
    next
      case (UpdateATV k l k')
      have "wp (inc_updateATVPts B V k l k' t)
          (\<lambda>(b, t'). inc_run1 \<alpha> c (isem t) = (ChangedDF b, isem t') \<and> iinv t' \<and> grows t t')"
        using ok(2) outto[of k' l "TLs k"] by (simp add: UpdateATV inc_updateATVPts_def pts)
      from inc_answer[OF this] show ?thesis by (simp add: UpdateATV inc_ops_def del: inc_run1.simps)
    qed (use False in simp_all)
  qed
qed

end

sublocale inc_store \<subseteq> inc: df_pt_data "inc_ops P B V" \<alpha> iok "inc_inv J ents V \<beta> K" "inc_sem sem V \<beta>"
    "\<lambda>t. card (in_slots (ents (id_base t)))" "\<lambda>t. room (id_base t)" "inc_run1 \<alpha>"
  by unfold_locales (erule (1) room, rule inc_run1_ok)

end
