(* ===== verification/Mutable_DF_PT_Data.thy ===== *)
theory Mutable_DF_PT_Data
  imports Inc_Slot_Store Mutable_PT_Data
begin

text \<open>
  The mutable data-flow tables of \<^verbatim>\<open>svf/include/MemoryModel/MutablePointsToDS.h\<close>: \<open>mf_\<close> is
  \<^verbatim>\<open>MutableDFPTData\<close>, which keeps the sets of top-level pointers in a \<^verbatim>\<open>MutablePTData\<close> and IN and OUT
  maps of its own; \<open>mi_\<close> is \<^verbatim>\<open>MutableIncDFPTData\<close>, which keeps the marked variables in sets of the same
  type. They meet the contracts of the theories \<^verbatim>\<open>Slot_Store\<close> and \<^verbatim>\<open>Inc_Slot_Store\<close>.
\<close>

subsection \<open>Maps of maps\<close>

text \<open>Every inner map has an entry; the values satisfy \<open>Q\<close>.\<close>

definition nmap_ok :: "('v \<Rightarrow> bool) \<Rightarrow> ('l \<times> ('k \<times> 'v) list) list \<Rightarrow> bool" where
  "nmap_ok Q m \<longleftrightarrow> distinct (map fst m) \<and> (\<forall>(l, m') \<in> set m. m' \<noteq> [] \<and> map_inv Q m')"

definition nhas :: "('l \<times> ('k \<times> 'v) list) list \<Rightarrow> 'l \<Rightarrow> 'k \<Rightarrow> bool" where
  "nhas m l k \<longleftrightarrow> ahas (aget [] m l) k"

lemma aput_neq_Nil [simp]: "aput k v m \<noteq> []"
  by (cases m) (auto simp: aput_def)

lemma nmap_ok_Nil [simp]: "nmap_ok Q []" "\<not> nhas [] l k"
  by (simp_all add: nmap_ok_def nhas_def)

lemma nmap_ok_inner: "nmap_ok Q m \<Longrightarrow> map_inv Q (aget [] m l)"
  by (auto simp: nmap_ok_def aget_def dest: map_of_SomeD split: option.split)

lemma map_inv_get: "map_inv Q m \<Longrightarrow> Q d \<Longrightarrow> Q (aget d m k)"
  by (auto simp: map_inv_def aget_def dest: map_of_SomeD split: option.split)

lemma nmap_ok_get: "nmap_ok Q m \<Longrightarrow> Q d \<Longrightarrow> Q (nget d m l k)"
  by (simp add: nget_def map_inv_get nmap_ok_inner)

lemma nmap_ok_put:
  assumes "nmap_ok Q m" "Q v"
  shows "nmap_ok Q (nput l k v m)"
proof -
  let ?m = "aput k v (aget [] m l)"
  have m: "?m \<noteq> [] \<and> map_inv Q ?m" using nmap_ok_inner[OF assms(1)] assms(2) by simp
  have "m' \<noteq> [] \<and> map_inv Q m'" if "(l', m') \<in> set (aput l ?m m)" for l' m'
  proof -
    from set_aput_subset[of l ?m m] that have "(l', m') = (l, ?m) \<or> (l', m') \<in> set m" by blast
    then show ?thesis using m assms(1) by (auto simp: nmap_ok_def)
  qed
  then show ?thesis using assms(1) by (auto simp: nmap_ok_def nput_def)
qed

lemma nref_put: "nref d m l k = nput l k (nget d m l k) m"
  by (simp add: nref_def nput_def nget_def aref_def)

lemma nmap_ok_ref: "nmap_ok Q m \<Longrightarrow> Q d \<Longrightarrow> nmap_ok Q (nref d m l k)"
  by (simp add: nref_put nmap_ok_put nmap_ok_get)

lemma nhas_put [simp]: "nhas (nput l k v m) l' k' \<longleftrightarrow> l' = l \<and> k' = k \<or> nhas m l' k'"
  by (auto simp: nhas_def nput_def)

lemma nhas_ref [simp]: "nhas (nref d m l k) l' k' \<longleftrightarrow> l' = l \<and> k' = k \<or> nhas m l' k'"
  by (simp add: nref_put)

lemma nget_not_nhas: "\<not> nhas m l k \<Longrightarrow> nget d m l k = d"
  by (simp add: nhas_def nget_def aget_not_ahas)

lemma nmap_outer:
  assumes "nmap_ok Q m"
  shows "ahas m l \<longleftrightarrow> (\<exists>k. nhas m l k)"
proof
  assume "ahas m l"
  then obtain m' where m': "map_of m l = Some m'" by (auto simp: ahas_def)
  then have "m' \<noteq> []" using assms by (auto simp: nmap_ok_def dest: map_of_SomeD)
  then show "\<exists>k. nhas m l k" using m' by (cases m') (auto simp: nhas_def aget_def ahas_def)
next
  assume "\<exists>k. nhas m l k"
  then show "ahas m l" using aget_not_ahas[of m l "[]"] by (cases "ahas m l") (auto simp: nhas_def)
qed

lemma nmap_vars:
  assumes "nmap_ok Q m"
  shows "distinct (map fst (aget [] m l))" "set (map fst (aget [] m l)) = {k. nhas m l k}"
  using nmap_ok_inner[OF assms, of l] by (auto simp: map_inv_def nhas_def ahas_iff_fst)

lemma finite_nhas: "finite {(l, k). nhas m l k}"
proof (rule finite_subset)
  show "{(l, k). nhas m l k} \<subseteq> (\<Union>x \<in> set m. Pair (fst x) ` fst ` set (snd x))"
  proof clarify
    fix l k assume "nhas m l k"
    then obtain m' where m': "map_of m l = Some m'" "ahas m' k"
      by (auto simp: nhas_def aget_def split: option.splits)
    then have "(l, m') \<in> set m" "k \<in> fst ` set m'" by (auto simp: ahas_iff_fst dest: map_of_SomeD)
    then show "(l, k) \<in> (\<Union>x \<in> set m. Pair (fst x) ` fst ` set (snd x))" by force
  qed
qed auto

subsection \<open>\<^verbatim>\<open>MutableDFPTData\<close>\<close>

record ('k, 'e, 'd) mut_df =
  mf_rev :: bool
  mf_dfInPtsMap :: "(nat \<times> ('k \<times> 'd) list) list"
  mf_dfOutPtsMap :: "(nat \<times> ('k \<times> 'd) list) list"
  mf_mutPTData :: "('k, 'e, 'd) mut_ptd"

definition mf_new :: "bool \<Rightarrow> ('k, 'e, 'd) mut_df" where
  "mf_new reversePT = \<lparr>mf_rev = reversePT, mf_dfInPtsMap = [], mf_dfOutPtsMap = [], mf_mutPTData = mp_new reversePT\<rparr>"

definition mf_clear :: "('k, 'e, 'd) mut_df \<Rightarrow> ('k, 'e, 'd) mut_df" where
  "mf_clear t = t\<lparr>mf_mutPTData := mp_clear (mf_mutPTData t)\<rparr>"

definition mf_getPts :: "('d, 'e) data_ops \<Rightarrow> 'k \<Rightarrow> ('k, 'e, 'd) mut_df \<Rightarrow> 'd \<times> ('k, 'e, 'd) mut_df" where
  "mf_getPts D var t = (case mp_getPts D var (mf_mutPTData t) of (d, p) \<Rightarrow> (d, t\<lparr>mf_mutPTData := p\<rparr>))"

definition mf_getRevPts :: "'e \<Rightarrow> ('k, 'e, 'd) mut_df \<Rightarrow> ('k list \<times> ('k, 'e, 'd) mut_df) option" where
  "mf_getRevPts datum t = do {
     ensure (mf_rev t);
     (ks, p) \<leftarrow> mp_getRevPts datum (mf_mutPTData t);
     Some (ks, t\<lparr>mf_mutPTData := p\<rparr>) }"

definition mf_hasDFInSet :: "nat \<Rightarrow> ('k, 'e, 'd) mut_df \<Rightarrow> bool" where
  "mf_hasDFInSet loc t \<longleftrightarrow> ahas (mf_dfInPtsMap t) loc"

definition mf_hasDFOutSet :: "nat \<Rightarrow> ('k, 'e, 'd) mut_df \<Rightarrow> bool" where
  "mf_hasDFOutSet loc t \<longleftrightarrow> ahas (mf_dfOutPtsMap t) loc"

definition mf_hasDFInSetVar :: "nat \<Rightarrow> 'k \<Rightarrow> ('k, 'e, 'd) mut_df \<Rightarrow> bool" where
  "mf_hasDFInSetVar loc var t = (case map_of (mf_dfInPtsMap t) loc of None \<Rightarrow> False | Some m \<Rightarrow> ahas m var)"

definition mf_hasDFOutSetVar :: "nat \<Rightarrow> 'k \<Rightarrow> ('k, 'e, 'd) mut_df \<Rightarrow> bool" where
  "mf_hasDFOutSetVar loc var t = (case map_of (mf_dfOutPtsMap t) loc of None \<Rightarrow> False | Some m \<Rightarrow> ahas m var)"

definition mf_getDFInPtsSet :: "('d, 'e) data_ops \<Rightarrow> nat \<Rightarrow> 'k \<Rightarrow> ('k, 'e, 'd) mut_df \<Rightarrow> 'd \<times> ('k, 'e, 'd) mut_df" where
  "mf_getDFInPtsSet D loc var t = (nget (ds_new D) (mf_dfInPtsMap t) loc var,
     t\<lparr>mf_dfInPtsMap := nref (ds_new D) (mf_dfInPtsMap t) loc var\<rparr>)"

definition mf_getDFOutPtsSet :: "('d, 'e) data_ops \<Rightarrow> nat \<Rightarrow> 'k \<Rightarrow> ('k, 'e, 'd) mut_df \<Rightarrow> 'd \<times> ('k, 'e, 'd) mut_df" where
  "mf_getDFOutPtsSet D loc var t = (nget (ds_new D) (mf_dfOutPtsMap t) loc var,
     t\<lparr>mf_dfOutPtsMap := nref (ds_new D) (mf_dfOutPtsMap t) loc var\<rparr>)"

text \<open>A reference to a set: what it refers to, the entry it creates, an assignment through it.\<close>

definition mf_get :: "('d, 'e) data_ops \<Rightarrow> ('k, 'e, 'd) mut_df \<Rightarrow> 'k slot \<Rightarrow> 'd" where
  "mf_get D t x = (case x of
     TLs k \<Rightarrow> aget (ds_new D) (mp_ptsMap (mf_mutPTData t)) k
   | INs l k \<Rightarrow> fst (mf_getDFInPtsSet D l k t)
   | OUTs l k \<Rightarrow> fst (mf_getDFOutPtsSet D l k t))"

definition mf_ref :: "('d, 'e) data_ops \<Rightarrow> 'k slot \<Rightarrow> ('k, 'e, 'd) mut_df \<Rightarrow> ('k, 'e, 'd) mut_df" where
  "mf_ref D x t = (case x of
     TLs k \<Rightarrow> snd (mf_getPts D k t)
   | INs l k \<Rightarrow> snd (mf_getDFInPtsSet D l k t)
   | OUTs l k \<Rightarrow> snd (mf_getDFOutPtsSet D l k t))"

definition mf_put :: "'k slot \<Rightarrow> 'd \<Rightarrow> ('k, 'e, 'd) mut_df \<Rightarrow> ('k, 'e, 'd) mut_df" where
  "mf_put x d t = (case x of
     TLs k \<Rightarrow> t\<lparr>mf_mutPTData := (mf_mutPTData t)\<lparr>mp_ptsMap := aput k d (mp_ptsMap (mf_mutPTData t))\<rparr>\<rparr>
   | INs l k \<Rightarrow> t\<lparr>mf_dfInPtsMap := nput l k d (mf_dfInPtsMap t)\<rparr>
   | OUTs l k \<Rightarrow> t\<lparr>mf_dfOutPtsMap := nput l k d (mf_dfOutPtsMap t)\<rparr>)"

text \<open>The protected helpers \<^verbatim>\<open>unionPts\<close>, \<^verbatim>\<open>addPts\<close> on references; they leave the reverse sets alone.\<close>

definition mf_unionData :: "('d, 'e) data_ops \<Rightarrow> 'k slot \<Rightarrow> 'd \<Rightarrow> ('k, 'e, 'd) mut_df \<Rightarrow> (bool \<times> ('k, 'e, 'd) mut_df) option" where
  "mf_unionData D dst srcDataSet t = do {
     (changed, d) \<leftarrow> ds_or D (mf_get D t dst) srcDataSet;
     Some (changed, mf_put dst d t) }"

definition mf_union :: "('d, 'e) data_ops \<Rightarrow> 'k slot \<Rightarrow> 'k slot \<Rightarrow> ('k, 'e, 'd) mut_df \<Rightarrow> (bool \<times> ('k, 'e, 'd) mut_df) option" where
  "mf_union D dst src t = (let t = mf_ref D src (mf_ref D dst t) in mf_unionData D dst (mf_get D t src) t)"

definition mf_addPts :: "('d, 'e) data_ops \<Rightarrow> 'k \<Rightarrow> 'e \<Rightarrow> ('k, 'e, 'd) mut_df \<Rightarrow> (bool \<times> ('k, 'e, 'd) mut_df) option" where
  "mf_addPts D dstKey e t = do {
     (b, d) \<leftarrow> ds_test_and_set D (mf_get D t (TLs dstKey)) e;
     Some (b, mf_put (TLs dstKey) d t) }"

definition mf_unionPts :: "('d, 'e) data_ops \<Rightarrow> 'k \<Rightarrow> 'k \<Rightarrow> ('k, 'e, 'd) mut_df \<Rightarrow> (bool \<times> ('k, 'e, 'd) mut_df) option" where
  "mf_unionPts D dstKey srcKey = mf_union D (TLs dstKey) (TLs srcKey)"

definition mf_clearPts :: "('d, 'e) data_ops \<Rightarrow> 'k \<Rightarrow> 'e \<Rightarrow> ('k, 'e, 'd) mut_df \<Rightarrow> ('k, 'e, 'd) mut_df option" where
  "mf_clearPts D var element t = do { p \<leftarrow> mp_clearPts D var element (mf_mutPTData t); Some (t\<lparr>mf_mutPTData := p\<rparr>) }"

definition mf_clearFullPts :: "('d, 'e) data_ops \<Rightarrow> 'k \<Rightarrow> ('k, 'e, 'd) mut_df \<Rightarrow> ('k, 'e, 'd) mut_df option" where
  "mf_clearFullPts D var t = do { p \<leftarrow> mp_clearFullPts D var (mf_mutPTData t); Some (t\<lparr>mf_mutPTData := p\<rparr>) }"

definition remap_maps :: "('d, 'e) data_ops \<Rightarrow> ('l \<times> ('k \<times> 'd) list) list \<Rightarrow> ('l \<times> ('k \<times> 'd) list) list option" where
  "remap_maps D m = mapM (\<lambda>(l, m). do { m \<leftarrow> remap_map D m; Some (l, m) }) m"

definition mf_remapAllPts :: "('d, 'e) data_ops \<Rightarrow> ('k, 'e, 'd) mut_df \<Rightarrow> ('k, 'e, 'd) mut_df option" where
  "mf_remapAllPts D t = do {
     p \<leftarrow> mp_remapAllPts D (mf_mutPTData t);
     i \<leftarrow> remap_maps D (mf_dfInPtsMap t);
     u \<leftarrow> remap_maps D (mf_dfOutPtsMap t);
     Some (t\<lparr>mf_dfInPtsMap := i, mf_dfOutPtsMap := u, mf_mutPTData := p\<rparr>) }"

definition mf_getAllPts :: "('d, 'e) data_ops \<Rightarrow> ('k, 'e, 'd) mut_df \<Rightarrow> ('d \<times> nat) list option" where
  "mf_getAllPts D t = do {
     allPts \<leftarrow> mp_getAllPts D (mf_mutPTData t);
     allPts \<leftarrow> foldM (\<lambda>(l, m). count_map D m) (mf_dfInPtsMap t) allPts;
     foldM (\<lambda>(l, m). count_map D m) (mf_dfOutPtsMap t) allPts }"

text \<open>The updates along the edges of the value-flow graph.\<close>

definition mf_updateDFInFromIn :: "('d, 'e) data_ops \<Rightarrow> nat \<Rightarrow> 'k \<Rightarrow> nat \<Rightarrow> 'k \<Rightarrow> ('k, 'e, 'd) mut_df \<Rightarrow> (bool \<times> ('k, 'e, 'd) mut_df) option" where
  "mf_updateDFInFromIn D srcLoc srcVar dstLoc dstVar = mf_union D (INs dstLoc dstVar) (INs srcLoc srcVar)"

definition mf_updateDFInFromOut :: "('d, 'e) data_ops \<Rightarrow> nat \<Rightarrow> 'k \<Rightarrow> nat \<Rightarrow> 'k \<Rightarrow> ('k, 'e, 'd) mut_df \<Rightarrow> (bool \<times> ('k, 'e, 'd) mut_df) option" where
  "mf_updateDFInFromOut D srcLoc srcVar dstLoc dstVar = mf_union D (INs dstLoc dstVar) (OUTs srcLoc srcVar)"

definition mf_updateDFOutFromIn :: "('d, 'e) data_ops \<Rightarrow> nat \<Rightarrow> 'k \<Rightarrow> nat \<Rightarrow> 'k \<Rightarrow> ('k, 'e, 'd) mut_df \<Rightarrow> (bool \<times> ('k, 'e, 'd) mut_df) option" where
  "mf_updateDFOutFromIn D srcLoc srcVar dstLoc dstVar = mf_union D (OUTs dstLoc dstVar) (INs srcLoc srcVar)"

definition mf_updateAllDFInFromOut :: "('d, 'e) data_ops \<Rightarrow> nat \<Rightarrow> 'k \<Rightarrow> nat \<Rightarrow> 'k \<Rightarrow> ('k, 'e, 'd) mut_df \<Rightarrow> (bool \<times> ('k, 'e, 'd) mut_df) option" where
  "mf_updateAllDFInFromOut D = mf_updateDFInFromOut D"

definition mf_updateAllDFInFromIn :: "('d, 'e) data_ops \<Rightarrow> nat \<Rightarrow> 'k \<Rightarrow> nat \<Rightarrow> 'k \<Rightarrow> ('k, 'e, 'd) mut_df \<Rightarrow> (bool \<times> ('k, 'e, 'd) mut_df) option" where
  "mf_updateAllDFInFromIn D = mf_updateDFInFromIn D"

definition mf_updateAllDFOutFromIn :: "('d, 'e) data_ops \<Rightarrow> nat \<Rightarrow> 'k \<Rightarrow> bool \<Rightarrow> ('k, 'e, 'd) mut_df \<Rightarrow> (bool \<times> ('k, 'e, 'd) mut_df) option" where
  "mf_updateAllDFOutFromIn D loc singleton strongUpdates t =
    (if mf_hasDFInSet loc t
     then out_loop (mf_updateDFOutFromIn D) loc singleton strongUpdates (map fst (aget [] (mf_dfInPtsMap t) loc)) t
     else Some (False, t))"

definition mf_updateTLVPts :: "('d, 'e) data_ops \<Rightarrow> nat \<Rightarrow> 'k \<Rightarrow> 'k \<Rightarrow> ('k, 'e, 'd) mut_df \<Rightarrow> (bool \<times> ('k, 'e, 'd) mut_df) option" where
  "mf_updateTLVPts D srcLoc srcVar dstVar = mf_union D (TLs dstVar) (INs srcLoc srcVar)"

definition mf_updateATVPts :: "('d, 'e) data_ops \<Rightarrow> 'k \<Rightarrow> nat \<Rightarrow> 'k \<Rightarrow> ('k, 'e, 'd) mut_df \<Rightarrow> (bool \<times> ('k, 'e, 'd) mut_df) option" where
  "mf_updateATVPts D srcVar dstLoc dstVar = mf_union D (OUTs dstLoc dstVar) (TLs srcVar)"

definition mf_clearAllDFOutUpdatedVar :: "nat \<Rightarrow> ('k, 'e, 'd) mut_df \<Rightarrow> ('k, 'e, 'd) mut_df" where
  "mf_clearAllDFOutUpdatedVar loc t = t"

definition mf_ops :: "('d, 'e) data_ops \<Rightarrow> ('k, 'e, 'd, ('k, 'e, 'd) mut_df) df_ops" where
  "mf_ops D = \<lparr>df_getPts = (\<lambda>k t. Some (mf_getPts D k t)), df_getDFInPtsSet = (\<lambda>l k t. Some (mf_getDFInPtsSet D l k t)),
     df_getDFOutPtsSet = (\<lambda>l k t. Some (mf_getDFOutPtsSet D l k t)), df_addPts = mf_addPts D, df_unionPts = mf_unionPts D,
     df_unionData = (\<lambda>k. mf_unionData D (TLs k)), df_clearPts = mf_clearPts D, df_clearFullPts = mf_clearFullPts D,
     df_remapAllPts = mf_remapAllPts D,
     df_updateDFInFromIn = mf_updateDFInFromIn D, df_updateAllDFInFromIn = mf_updateAllDFInFromIn D,
     df_updateDFInFromOut = mf_updateDFInFromOut D, df_updateAllDFInFromOut = mf_updateAllDFInFromOut D,
     df_updateDFOutFromIn = mf_updateDFOutFromIn D, df_updateAllDFOutFromIn = mf_updateAllDFOutFromIn D,
     df_clearAllDFOutUpdatedVar = (\<lambda>l t. Some (mf_clearAllDFOutUpdatedVar l t)), df_updateTLVPts = mf_updateTLVPts D,
     df_updateATVPts = mf_updateATVPts D\<rparr>"

subsection \<open>\<^verbatim>\<open>MutableIncDFPTData\<close>\<close>

text \<open>
  Its methods on references: \<^verbatim>\<open>updateTLVPts\<close> calls the union of the backing \<^verbatim>\<open>MutablePTData\<close>, which keeps the
  reverse sets. The marked variables are a \<^verbatim>\<open>DataSet\<close>: keys and data are both node numbers.
\<close>

definition mi_tlv :: "('d, 'e) data_ops \<Rightarrow> nat \<Rightarrow> 'k \<Rightarrow> 'k \<Rightarrow> ('k, 'e, 'd) mut_df \<Rightarrow> (bool \<times> ('k, 'e, 'd) mut_df) option" where
  "mi_tlv D srcLoc srcVar dstVar t = do {
     let (d, t) = mf_getDFInPtsSet D srcLoc srcVar t;
     (b, p) \<leftarrow> mp_unionData D dstVar d (mf_mutPTData t);
     Some (b, t\<lparr>mf_mutPTData := p\<rparr>) }"

definition mf_slots :: "('d, 'e) data_ops \<Rightarrow> ('k, ('k, 'e, 'd) mut_df) slot_ops" where
  "mf_slots D = \<lparr>so_union = mf_union D, so_tlv = mi_tlv D, so_hasIn = mf_hasDFInSet, so_hasOut = mf_hasDFOutSet,
     so_vars = (\<lambda>l t. map fst (aget [] (mf_dfInPtsMap t) l))\<rparr>"

definition ds_vars :: "('d, 'e) data_ops \<Rightarrow> ('e, 'd) var_ops" where
  "ds_vars D = \<lparr>vo_new = ds_new D, vo_set = ds_set D, vo_reset = ds_reset D, vo_test = ds_test D, vo_elems = ds_elems D\<rparr>"

definition mi_new :: "bool \<Rightarrow> ('d, ('e, 'e, 'd) mut_df) inc_df" where
  "mi_new reversePT = \<lparr>id_base = mf_new reversePT, id_outUpdatedVarMap = [], id_inUpdatedVarMap = []\<rparr>"

definition mi_ops :: "('d, 'e) data_ops \<Rightarrow> ('e, 'e, 'd, ('d, ('e, 'e, 'd) mut_df) inc_df) df_ops" where
  "mi_ops D = inc_ops (mf_ops D) (mf_slots D) (ds_vars D)"

subsection \<open>What they mean\<close>

definition mf_sem :: "('d, 'e) data_ops \<Rightarrow> ('d \<Rightarrow> 'e set) \<Rightarrow> ('k, 'e, 'd) mut_df \<Rightarrow> 'k slot \<Rightarrow> 'e set" where
  "mf_sem D \<alpha> t x = \<alpha> (mf_get D t x)"

definition mf_inv :: "('d \<Rightarrow> bool) \<Rightarrow> ('k, 'e, 'd) mut_df \<Rightarrow> bool" where
  "mf_inv I t \<longleftrightarrow> map_inv I (mp_ptsMap (mf_mutPTData t)) \<and> nmap_ok I (mf_dfInPtsMap t) \<and> nmap_ok I (mf_dfOutPtsMap t)"

definition mf_ents :: "('k, 'e, 'd) mut_df \<Rightarrow> 'k slot set" where
  "mf_ents t = {x. case x of TLs k \<Rightarrow> True | INs l k \<Rightarrow> nhas (mf_dfInPtsMap t) l k | OUTs l k \<Rightarrow> nhas (mf_dfOutPtsMap t) l k}"

definition mf_room :: "('k, 'e, 'd) mut_df \<Rightarrow> nat \<Rightarrow> bool" where
  "mf_room t n = True"

lemma mem_mf_ents [simp]:
  "TLs k \<in> mf_ents t" "INs l k \<in> mf_ents t \<longleftrightarrow> nhas (mf_dfInPtsMap t) l k"
  "OUTs l k \<in> mf_ents t \<longleftrightarrow> nhas (mf_dfOutPtsMap t) l k"
  by (simp_all add: mf_ents_def)

lemma mf_ents_eqI:
  "(\<And>l k. nhas (mf_dfInPtsMap t) l k \<longleftrightarrow> INs l k \<in> S) \<Longrightarrow> (\<And>l k. nhas (mf_dfOutPtsMap t) l k \<longleftrightarrow> OUTs l k \<in> S) \<Longrightarrow>
   (\<And>k. TLs k \<in> S) \<Longrightarrow> mf_ents t = S"
  unfolding mf_ents_def by (rule set_eqI) (simp split: slot.split)

lemmas mf_slot_defs = mf_get_def mf_ref_def mf_put_def mf_getPts_def mf_getDFInPtsSet_def mf_getDFOutPtsSet_def mp_getPts_def

lemma mf_get_put [simp]: "mf_get D (mf_put x d t) = (mf_get D t)(x := d)"
  by (rule ext) (simp add: mf_slot_defs split: slot.split)

lemma mf_get_ref [simp]: "mf_get D (mf_ref D x t) = mf_get D t"
  by (rule ext) (simp add: mf_slot_defs split: slot.split)

lemma mf_ents_put [simp]: "mf_ents (mf_put x d t) = insert x (mf_ents t)"
  by (rule mf_ents_eqI) (auto simp: mf_slot_defs split: slot.split)

lemma mf_ents_ref [simp]: "mf_ents (mf_ref D x t) = insert x (mf_ents t)"
  by (rule mf_ents_eqI) (auto simp: mf_slot_defs split: slot.split)

lemma mf_inv_put: "mf_inv I t \<Longrightarrow> I d \<Longrightarrow> mf_inv I (mf_put x d t)"
  by (simp add: mf_inv_def mf_slot_defs nmap_ok_put split: slot.split)

context data_set
begin

lemma mf_inv_ref: "mf_inv I t \<Longrightarrow> mf_inv I (mf_ref D x t)"
  by (simp add: mf_inv_def mf_slot_defs nmap_ok_ref map_aref new split: slot.split)

lemma mf_inv_get: "mf_inv I t \<Longrightarrow> I (mf_get D t x)"
  by (simp add: mf_inv_def mf_slot_defs nmap_ok_get map_inv_get new split: slot.split)

lemma mf_outside: "x \<notin> mf_ents t \<Longrightarrow> mf_sem D \<alpha> t x = {}"
  by (cases x) (simp_all add: mf_sem_def mf_slot_defs nget_not_nhas new)

text \<open>Reverse sets are touched, the sets themselves are not.\<close>

lemma addRevPts_keeps: "I d \<Longrightarrow> wp (mp_addRevPts D d k p) (\<lambda>p'. mp_ptsMap p' = mp_ptsMap p)"
  using elems[of d] by (auto simp: mp_addRevPts_def wp_iff fold_addSingleRevPts)

lemma clearRevPts_keeps: "I d \<Longrightarrow> wp (mp_clearRevPts D d k p) (\<lambda>p'. mp_ptsMap p' = mp_ptsMap p)"
  using elems[of d] by (auto simp: mp_clearRevPts_def wp_iff fold_clearSingleRevPts)

lemma remap_maps_ok:
  assumes "nmap_ok I m"
  shows "wp (remap_maps D m) (\<lambda>m'. nmap_ok I m' \<and> (\<forall>l k. \<alpha> (nget (ds_new D) m' l k) = \<alpha> (nget (ds_new D) m l k)) \<and>
    (\<forall>l k. nhas m' l k = nhas m l k))"
proof -
  have "wp (remap_maps D m) (list_all2 (\<lambda>(l, n) (l', n'). l' = l \<and> map_inv I n' \<and> map_pts \<alpha> n' = map_pts \<alpha> n \<and> map fst n' = map fst n) m)"
    unfolding remap_maps_def
  proof (rule wp_mapM)
    fix x assume x: "x \<in> List.set m"
    then have "map_inv I (snd x)" using assms by (auto simp: nmap_ok_def)
    from remap_map_ok[OF this] show "wp (case x of (l, m) \<Rightarrow> do { m \<leftarrow> remap_map D m; Some (l, m) })
      ((\<lambda>(l, n) (l', n'). l' = l \<and> map_inv I n' \<and> map_pts \<alpha> n' = map_pts \<alpha> n \<and> map fst n' = map fst n) x)"
      by (auto simp: split_beta)
  qed
  moreover have "nmap_ok I m' \<and> (\<forall>l k. \<alpha> (nget (ds_new D) m' l k) = \<alpha> (nget (ds_new D) m l k)) \<and> (\<forall>l k. nhas m' l k = nhas m l k)"
    if r: "list_all2 (\<lambda>(l, n) (l', n'). l' = l \<and> map_inv I n' \<and> map_pts \<alpha> n' = map_pts \<alpha> n \<and> map fst n' = map fst n) m m'" for m'
  proof -
    have "map fst m' = map fst m \<and> (\<forall>(l, n) \<in> List.set m'. map_inv I n) \<and>
        (\<forall>l. map_pts \<alpha> (aget [] m' l) = map_pts \<alpha> (aget [] m l) \<and> map fst (aget [] m' l) = map fst (aget [] m l)) \<and>
        ((\<forall>(l, n) \<in> List.set m. n \<noteq> []) \<longrightarrow> (\<forall>(l, n) \<in> List.set m'. n \<noteq> []))"
      using r
    proof (induction rule: list_all2_induct)
      case (Cons x xs y ys)
      then show ?case by (cases x; cases y) (auto simp: aget_def dest: arg_cong[of _ _ length])
    qed simp
    then have a: "map fst m' = map fst m" "\<forall>(l, n) \<in> List.set m'. map_inv I n" "\<forall>(l, n) \<in> List.set m'. n \<noteq> []"
      "\<And>l. map_pts \<alpha> (aget [] m' l) = map_pts \<alpha> (aget [] m l)" "\<And>l. map fst (aget [] m' l) = map fst (aget [] m l)"
      using assms by (auto simp: nmap_ok_def)
    have ok: "nmap_ok I m'" using a(1-3) assms by (auto simp: nmap_ok_def)
    have "\<alpha> (nget (ds_new D) m' l k) = \<alpha> (nget (ds_new D) m l k)" for l k
      using map_aget(2)[OF nmap_ok_inner[OF ok]] map_aget(2)[OF nmap_ok_inner[OF assms]] a(4) by (simp add: nget_def)
    moreover have "nhas m' l k = nhas m l k" for l k
      using arg_cong[OF a(5)[of l], of set] by (auto simp: nhas_def ahas_iff_fst)
    ultimately show ?thesis using ok by blast
  qed
  ultimately show ?thesis by (rule wp_mono)
qed

end

subsection \<open>They meet the contracts\<close>

abbreviation mf_step :: "('d, 'e) data_ops \<Rightarrow> ('d \<Rightarrow> 'e set) \<Rightarrow> ('d \<Rightarrow> bool) \<Rightarrow> nat \<Rightarrow> ('k, 'e, 'd) mut_df \<Rightarrow> ('k slot \<Rightarrow> 'e set) \<Rightarrow>
    ('k, 'e, 'd) mut_df \<Rightarrow> bool" where
  "mf_step D \<alpha> I \<equiv> slot_step (mf_inv I) (mf_sem D \<alpha>) mf_ents mf_room"

lemma mf_sem_put: "mf_sem D \<alpha> (mf_put x d t) = (mf_sem D \<alpha> t)(x := \<alpha> d)"
  by (auto simp: mf_sem_def fun_eq_iff)

lemma mf_sem_ref [simp]: "mf_sem D \<alpha> (mf_ref D x t) = mf_sem D \<alpha> t"
  by (simp add: mf_sem_def fun_eq_iff)

lemma mf_step_ref: "mf_step D \<alpha> I n (mf_ref D x t) f t' \<Longrightarrow> mf_step D \<alpha> I n t f t'"
  by (simp add: slot_step_def mf_room_def)

text \<open>An update of the sets of top-level pointers by the backing table.\<close>

lemma mf_tl_step:
  assumes "map_inv I (mp_ptsMap p)" "mf_inv I t" "\<And>k. \<alpha> (aget (ds_new D) (mp_ptsMap p) k) = f (TLs k)"
    and "\<And>l k. mf_sem D \<alpha> t (INs l k) = f (INs l k)" "\<And>l k. mf_sem D \<alpha> t (OUTs l k) = f (OUTs l k)"
  shows "mf_step D \<alpha> I n t f (t\<lparr>mf_mutPTData := p\<rparr>)" "mf_ents (t\<lparr>mf_mutPTData := p\<rparr>) = mf_ents t"
proof -
  have "mf_sem D \<alpha> (t\<lparr>mf_mutPTData := p\<rparr>) x = f x" for x
    using assms(3-5) by (cases x) (simp_all add: mf_sem_def mf_slot_defs)
  moreover have "mf_ents (t\<lparr>mf_mutPTData := p\<rparr>) = mf_ents t" by (rule mf_ents_eqI) simp_all
  ultimately show "mf_step D \<alpha> I n t f (t\<lparr>mf_mutPTData := p\<rparr>)" "mf_ents (t\<lparr>mf_mutPTData := p\<rparr>) = mf_ents t"
    using assms(1,2) by (simp_all add: slot_step_def mf_inv_def mf_room_def fun_eq_iff)
qed

context canonical_data_set
begin

lemma mf_unionData_ok:
  assumes t: "mf_inv I t" and d: "I d"
  shows "wp (mf_unionData D x d t) (\<lambda>(b, t'). (b \<longleftrightarrow> \<not> \<alpha> d \<subseteq> mf_sem D \<alpha> t x) \<and>
    mf_step D \<alpha> I n t ((mf_sem D \<alpha> t)(x := mf_sem D \<alpha> t x \<union> \<alpha> d)) t' \<and> mf_ents t' = insert x (mf_ents t))"
proof -
  have g: "I (mf_get D t x)" by (rule mf_inv_get[OF t])
  obtain b r where "ds_or D (mf_get D t x) d = Some (b, r)" "I r" "\<alpha> r = \<alpha> (mf_get D t x) \<union> \<alpha> d"
    "b \<longleftrightarrow> \<not> \<alpha> d \<subseteq> \<alpha> (mf_get D t x)"
    using union_into[OF g d] union_flag[OF g d] by (auto simp: wp_iff)
  then show ?thesis
    using mf_inv_put[OF t, of r x] by (auto simp: mf_unionData_def slot_step_def mf_sem_put mf_room_def mf_sem_def)
qed

lemma mf_union_ok:
  assumes t: "mf_inv I t"
  shows "wp (mf_union D x y t) (\<lambda>(b, t'). (b \<longleftrightarrow> \<not> mf_sem D \<alpha> t y \<subseteq> mf_sem D \<alpha> t x) \<and>
    mf_step D \<alpha> I n t ((mf_sem D \<alpha> t)(x := mf_sem D \<alpha> t x \<union> mf_sem D \<alpha> t y)) t' \<and> mf_ents t' = mf_ents t \<union> {x, y})"
proof -
  let ?t = "mf_ref D y (mf_ref D x t)"
  have inv: "mf_inv I ?t" using t by (simp add: mf_inv_ref)
  have y: "\<alpha> (mf_get D ?t y) = mf_sem D \<alpha> t y" by (simp add: mf_sem_def)
  show ?thesis
    using mf_unionData_ok[OF inv mf_inv_get[OF inv, of y], of x n] unfolding mf_union_def
    by (auto simp: mf_sem_def wp_iff slot_step_def insert_commute mf_room_def)
qed

lemma mi_tlv_ok:
  assumes t: "mf_inv I t"
  shows "wp (mi_tlv D l k k' t) (\<lambda>(b, t'). (b \<longleftrightarrow> \<not> mf_sem D \<alpha> t (INs l k) \<subseteq> mf_sem D \<alpha> t (TLs k')) \<and>
    mf_step D \<alpha> I n t ((mf_sem D \<alpha> t)(TLs k' := mf_sem D \<alpha> t (TLs k') \<union> mf_sem D \<alpha> t (INs l k))) t' \<and>
    mf_ents t' = mf_ents t \<union> {TLs k', INs l k})"
proof -
  let ?t = "mf_ref D (INs l k) t" and ?d = "mf_get D t (INs l k)"
  have inv: "mf_inv I ?t" using t by (simp add: mf_inv_ref)
  have d: "I ?d" by (rule mf_inv_get[OF t])
  have eq: "mf_getDFInPtsSet D l k t = (?d, ?t)" by (simp add: mf_slot_defs)
  obtain p1 where p1: "mp_addRevPts D ?d k' (mf_mutPTData ?t) = Some p1" "mp_ptsMap p1 = mp_ptsMap (mf_mutPTData ?t)"
    using addRevPts_keeps[OF d, of k' "mf_mutPTData ?t"] by (auto simp: wp_iff)
  have g: "I (mf_get D t (TLs k'))" by (rule mf_inv_get[OF t])
  have get: "aget (ds_new D) (mp_ptsMap p1) k' = mf_get D t (TLs k')" by (simp add: p1(2) mf_slot_defs)
  obtain b r where r: "ds_or D (mf_get D t (TLs k')) ?d = Some (b, r)" "I r" "\<alpha> r = \<alpha> (mf_get D t (TLs k')) \<union> \<alpha> ?d"
    "b \<longleftrightarrow> \<not> \<alpha> ?d \<subseteq> \<alpha> (mf_get D t (TLs k'))"
    using union_into[OF g d] union_flag[OF g d] by (auto simp: wp_iff)
  let ?p = "p1\<lparr>mp_ptsMap := aput k' r (mp_ptsMap p1)\<rparr>"
  have "mf_step D \<alpha> I n ?t ((mf_sem D \<alpha> t)(TLs k' := mf_sem D \<alpha> t (TLs k') \<union> mf_sem D \<alpha> t (INs l k))) (?t\<lparr>mf_mutPTData := ?p\<rparr>)"
    "mf_ents (?t\<lparr>mf_mutPTData := ?p\<rparr>) = mf_ents ?t"
    using mf_tl_step[of I ?p ?t \<alpha> D "(mf_sem D \<alpha> t)(TLs k' := mf_sem D \<alpha> t (TLs k') \<union> mf_sem D \<alpha> t (INs l k))"]
      inv r(2,3) p1(2) by (auto simp: mf_inv_def mf_sem_def mf_slot_defs)
  then have "mf_step D \<alpha> I n t ((mf_sem D \<alpha> t)(TLs k' := mf_sem D \<alpha> t (TLs k') \<union> mf_sem D \<alpha> t (INs l k))) (?t\<lparr>mf_mutPTData := ?p\<rparr>)"
    "mf_ents (?t\<lparr>mf_mutPTData := ?p\<rparr>) = mf_ents t \<union> {TLs k', INs l k}"
    using mem_mf_ents(1)[of k' t] by (simp_all add: mf_step_ref insert_absorb)
  moreover have "mi_tlv D l k k' t = Some (b, ?t\<lparr>mf_mutPTData := ?p\<rparr>)"
    by (simp add: mi_tlv_def eq mp_unionData_def p1(1) get r(1))
  ultimately show ?thesis using r(4) by (simp add: mf_sem_def)
qed

lemma mf_plain:
  assumes t: "mf_inv I t" and c: "plain_op c" "df_op_ok ok I kok c"
  shows "wp (df_run1 (mf_ops D) \<alpha> c t) (\<lambda>(a, t'). a = fst (full_run1 \<alpha> c (mf_sem D \<alpha> t)) \<and>
    mf_step D \<alpha> I n t (snd (full_run1 \<alpha> c (mf_sem D \<alpha> t))) t' \<and>
    card (in_slots (mf_ents t')) \<le> card (in_slots (mf_ents t)) + 1)"
proof -
  have fin: "finite (in_slots (mf_ents t))" using finite_nhas by (simp add: in_slots_def)
  have one: "card (insert p (in_slots (mf_ents t))) \<le> Suc (card (in_slots (mf_ents t)))" for p
    using fin by (simp add: card_insert_if)
  have ref: "mf_step D \<alpha> I n t (mf_sem D \<alpha> t) (mf_ref D x t)" for x
    using t by (auto simp: slot_step_def mf_inv_ref mf_room_def)
  note m = t[unfolded mf_inv_def, THEN conjunct1]
  have tl: "mf_sem D \<alpha> t (TLs k) = \<alpha> (aget (ds_new D) (mp_ptsMap (mf_mutPTData t)) k)" for k
    by (simp add: mf_sem_def mf_slot_defs)
  show ?thesis
  proof (cases c)
    case (GetTL k)
    have "mf_getPts D k t = (mf_get D t (TLs k), mf_ref D (TLs k) t)" by (simp add: mf_slot_defs)
    then show ?thesis using ref[of "TLs k"] by (simp add: GetTL mf_ops_def mf_sem_def)
  next
    case (GetIN l k)
    have "mf_getDFInPtsSet D l k t = (mf_get D t (INs l k), mf_ref D (INs l k) t)" by (simp add: mf_slot_defs)
    then show ?thesis using ref[of "INs l k"] one by (simp add: GetIN mf_ops_def mf_sem_def)
  next
    case (GetOUT l k)
    have "mf_getDFOutPtsSet D l k t = (mf_get D t (OUTs l k), mf_ref D (OUTs l k) t)" by (simp add: mf_slot_defs)
    then show ?thesis using ref[of "OUTs l k"] by (simp add: GetOUT mf_ops_def mf_sem_def)
  next
    case (AddTL k e)
    then have e: "ok e" using c(2) by simp
    have g: "I (mf_get D t (TLs k))" by (rule mf_inv_get[OF t])
    obtain b r where r: "ds_test_and_set D (mf_get D t (TLs k)) e = Some (b, r)" "I r" "b \<longleftrightarrow> e \<notin> \<alpha> (mf_get D t (TLs k))"
      "\<alpha> r = insert e (\<alpha> (mf_get D t (TLs k)))"
      using test_and_set[OF g e] by (auto simp: wp_iff)
    then show ?thesis
      using mf_inv_put[OF t r(2), of "TLs k"]
      by (auto simp: AddTL mf_ops_def mf_addPts_def into_def slot_step_def mf_sem_put mf_room_def mf_sem_def)
  next
    case (UnionTL k k')
    then show ?thesis
      using mf_union_ok[OF t, of "TLs k" "TLs k'" n] by (auto simp: mf_ops_def mf_unionPts_def into_def wp_iff)
  next
    case (UnionDataTL k d)
    then have "I d" using c(2) by simp
    from mf_unionData_ok[OF t this, of "TLs k" n] show ?thesis by (auto simp: UnionDataTL mf_ops_def into_def wp_iff)
  next
    case (ClearTL k e)
    then have e: "ok e" using c(2) by simp
    have g: "I (aget (ds_new D) (mp_ptsMap (mf_mutPTData t)) k)" using map_aget(1)[OF m] .
    obtain r where r: "ds_reset D (aget (ds_new D) (mp_ptsMap (mf_mutPTData t)) k) e = Some r" "I r"
      "\<alpha> r = \<alpha> (aget (ds_new D) (mp_ptsMap (mf_mutPTData t)) k) - {e}"
      using reset[OF g e] by (auto simp: wp_iff)
    let ?p = "mp_clearSingleRevPts e k (mf_mutPTData t)"
    have p: "mp_clearPts D k e (mf_mutPTData t) = Some (?p\<lparr>mp_ptsMap := aput k r (mp_ptsMap (mf_mutPTData t))\<rparr>)"
      by (simp add: mp_clearPts_def r(1))
    show ?thesis
      using mf_tl_step[of I "?p\<lparr>mp_ptsMap := aput k r (mp_ptsMap (mf_mutPTData t))\<rparr>" t \<alpha> D
          "(mf_sem D \<alpha> t)(TLs k := mf_sem D \<alpha> t (TLs k) - {e})"] m r(2,3) t
      by (simp add: ClearTL mf_ops_def mf_clearPts_def p tl)
  next
    case (ClearFullTL k)
    let ?d = "aget (ds_new D) (mp_ptsMap (mf_mutPTData t)) k"
      and ?q = "(mf_mutPTData t)\<lparr>mp_ptsMap := aref (ds_new D) (mp_ptsMap (mf_mutPTData t)) k\<rparr>"
    have d: "I ?d" using map_aget(1)[OF m] .
    obtain p where p: "mp_clearRevPts D ?d k ?q = Some p" "mp_ptsMap p = aref (ds_new D) (mp_ptsMap (mf_mutPTData t)) k"
      using clearRevPts_keeps[OF d, of k ?q] by (auto simp: wp_iff)
    let ?p = "p\<lparr>mp_ptsMap := aput k (ds_clear D ?d) (mp_ptsMap p)\<rparr>"
    have "map_inv I (mp_ptsMap ?p)" using m clear(1)[OF d] p(2) by (simp add: map_aref)
    then show ?thesis
      using mf_tl_step[of I ?p t \<alpha> D "(mf_sem D \<alpha> t)(TLs k := {})"] t p clear(2)[OF d]
      by (simp add: ClearFullTL mf_ops_def mf_clearFullPts_def mp_clearFullPts_def mp_getPts_def tl)
  next
    case Remap
    obtain m' where m': "remap_map D (mp_ptsMap (mf_mutPTData t)) = Some m'" "map_inv I m'"
      "map_pts \<alpha> m' = map_pts \<alpha> (mp_ptsMap (mf_mutPTData t))"
      using remap_map_ok[OF m] by (auto simp: wp_iff)
    obtain i where i: "remap_maps D (mf_dfInPtsMap t) = Some i" "nmap_ok I i"
      "\<And>l k. \<alpha> (nget (ds_new D) i l k) = \<alpha> (nget (ds_new D) (mf_dfInPtsMap t) l k)"
      "\<And>l k. nhas i l k = nhas (mf_dfInPtsMap t) l k"
      using remap_maps_ok[of "mf_dfInPtsMap t"] t by (auto simp: wp_iff mf_inv_def)
    obtain u where u: "remap_maps D (mf_dfOutPtsMap t) = Some u" "nmap_ok I u"
      "\<And>l k. \<alpha> (nget (ds_new D) u l k) = \<alpha> (nget (ds_new D) (mf_dfOutPtsMap t) l k)"
      "\<And>l k. nhas u l k = nhas (mf_dfOutPtsMap t) l k"
      using remap_maps_ok[of "mf_dfOutPtsMap t"] t by (auto simp: wp_iff mf_inv_def)
    let ?t = "t\<lparr>mf_dfInPtsMap := i, mf_dfOutPtsMap := u, mf_mutPTData := (mf_mutPTData t)\<lparr>mp_ptsMap := m'\<rparr>\<rparr>"
    have "mf_sem D \<alpha> ?t x = mf_sem D \<alpha> t x" for x
      using map_aget(2)[OF m'(2)] map_aget(2)[OF m] m'(3) i(3) u(3) by (cases x) (simp_all add: mf_sem_def mf_slot_defs)
    moreover have "mf_ents ?t = mf_ents t" by (rule mf_ents_eqI) (simp_all add: i(4) u(4))
    ultimately show ?thesis
      using m' i u by (simp add: Remap mf_ops_def mf_remapAllPts_def mp_remapAllPts_def slot_step_def mf_inv_def mf_room_def fun_eq_iff)
  qed (use c(1) in simp_all)
qed

theorem mf_slot_store:
  "slot_store (mf_ops D) (mf_slots D) \<alpha> (df_op_ok ok I (kok :: 'k \<Rightarrow> bool)) (mf_inv I) (mf_sem D \<alpha>) mf_ents mf_room"
proof
  fix s :: "('k, 'e, 'd) mut_df" and x y :: "'k slot" and c :: "('k, 'e, 'd) df_op" and k k' :: 'k and l n m :: nat
  show "finite (in_slots (mf_ents s))" using finite_nhas by (simp add: in_slots_def)
  show "x \<notin> mf_ents s \<Longrightarrow> mf_sem D \<alpha> s x = {}" by (rule mf_outside)
  show "mf_room s n" by (simp add: mf_room_def)
  assume s: "mf_inv I s"
  show "wp (so_union (mf_slots D) x y s) (\<lambda>(b, s'). (b \<longleftrightarrow> \<not> mf_sem D \<alpha> s y \<subseteq> mf_sem D \<alpha> s x) \<and>
      mf_step D \<alpha> I 1 s ((mf_sem D \<alpha> s)(x := mf_sem D \<alpha> s x \<union> mf_sem D \<alpha> s y)) s' \<and> mf_ents s' = mf_ents s \<union> {x, y})"
    using mf_union_ok[OF s] by (simp add: mf_slots_def)
  show "wp (so_tlv (mf_slots D) l k k' s) (\<lambda>(b, s'). (b \<longleftrightarrow> \<not> mf_sem D \<alpha> s (INs l k) \<subseteq> mf_sem D \<alpha> s (TLs k')) \<and>
      mf_step D \<alpha> I 2 s ((mf_sem D \<alpha> s)(TLs k' := mf_sem D \<alpha> s (TLs k') \<union> mf_sem D \<alpha> s (INs l k))) s' \<and>
      mf_ents s' = mf_ents s \<union> {TLs k', INs l k})"
    using mi_tlv_ok[OF s] by (simp add: mf_slots_def)
  have i: "nmap_ok I (mf_dfInPtsMap s)" "nmap_ok I (mf_dfOutPtsMap s)" using s by (simp_all add: mf_inv_def)
  show "so_hasIn (mf_slots D) l s \<longleftrightarrow> (\<exists>k. INs l k \<in> mf_ents s)"
    using nmap_outer[OF i(1), of l] by (simp add: mf_slots_def mf_hasDFInSet_def)
  show "so_hasOut (mf_slots D) l s \<longleftrightarrow> (\<exists>k. OUTs l k \<in> mf_ents s)"
    using nmap_outer[OF i(2), of l] by (simp add: mf_slots_def mf_hasDFOutSet_def)
  show "distinct (so_vars (mf_slots D) l s)" "List.set (so_vars (mf_slots D) l s) = {k. INs l k \<in> mf_ents s}"
    using nmap_vars[OF i(1), of l] by (simp_all add: mf_slots_def)
  show "wp (df_run1 (mf_ops D) \<alpha> c s) (\<lambda>(a, s'). a = fst (full_run1 \<alpha> c (mf_sem D \<alpha> s)) \<and>
      mf_step D \<alpha> I 2 s (snd (full_run1 \<alpha> c (mf_sem D \<alpha> s))) s' \<and>
      card (in_slots (mf_ents s')) \<le> card (in_slots (mf_ents s)) + 1)"
    if "plain_op c" "df_op_ok ok I kok c"
    by (rule mf_plain[OF s that])
qed (simp_all add: mf_ops_def mf_slots_def mf_updateDFInFromIn_def mf_updateAllDFInFromIn_def mf_updateDFInFromOut_def
    mf_updateAllDFInFromOut_def mf_updateDFOutFromIn_def[abs_def] mf_updateAllDFOutFromIn_def mf_clearAllDFOutUpdatedVar_def
    mf_updateTLVPts_def mf_updateATVPts_def)

end

context data_set
begin

lemma ds_vars_var_set: "var_set (ds_vars D) \<alpha> I ok"
proof
  fix u k assume u: "I u" and k: "ok k"
  show "wp (vo_set (ds_vars D) u k) (\<lambda>u'. I u' \<and> \<alpha> u' = insert k (\<alpha> u))"
    using set[OF u k] by (simp add: ds_vars_def)
  show "wp (vo_reset (ds_vars D) u k) (\<lambda>u'. I u' \<and> \<alpha> u' = \<alpha> u - {k})"
    using reset[OF u k] by (simp add: ds_vars_def)
  show "vo_test (ds_vars D) u k = Some (k \<in> \<alpha> u)" using test[OF u k] by (simp add: ds_vars_def)
qed (simp_all add: ds_vars_def new elems mem_ok)

end

lemma df_op_ok_mono: "df_op_ok ok I kok c \<Longrightarrow> df_op_ok (\<lambda>_. True) (\<lambda>_. True) kok c"
  by (cases c) simp_all

context canonical_data_set
begin

theorem mi_inc_store:
  "inc_store (mf_ops D) (mf_slots D) \<alpha> (df_op_ok ok I ok) (mf_inv I) (mf_sem D \<alpha>) mf_ents mf_room (ds_vars D) \<alpha> I ok
    (df_op_ok ok I ok)"
  by (rule inc_store.intro[OF mf_slot_store ds_vars_var_set inc_store_axioms.intro]) (simp add: df_op_ok_mono)

end

interpretation mut_df: slot_store "mf_ops (pts_ops (initial_env SBV h))" "mf_slots (pts_ops (initial_env SBV h))"
    "pts_of (initial_env SBV h)" "df_op_ok (run_ok (initial_env SBV h)) (run_inv (initial_env SBV h)) (\<lambda>_. True)"
    "mf_inv (run_inv (initial_env SBV h))" "mf_sem (pts_ops (initial_env SBV h)) (pts_of (initial_env SBV h))"
    mf_ents mf_room for h
  by (rule pts.mf_slot_store)

interpretation mut_vars: var_set "ds_vars (pts_ops (initial_env SBV h))" "pts_of (initial_env SBV h)"
    "run_inv (initial_env SBV h)" "run_ok (initial_env SBV h)" for h
  by (rule ptd.ds_vars_var_set)

interpretation mut_inc: inc_store "mf_ops (pts_ops (initial_env SBV h))" "mf_slots (pts_ops (initial_env SBV h))"
    "pts_of (initial_env SBV h)"
    "df_op_ok (run_ok (initial_env SBV h)) (run_inv (initial_env SBV h)) (run_ok (initial_env SBV h))"
    "mf_inv (run_inv (initial_env SBV h))" "mf_sem (pts_ops (initial_env SBV h)) (pts_of (initial_env SBV h))"
    mf_ents mf_room "ds_vars (pts_ops (initial_env SBV h))" "pts_of (initial_env SBV h)"
    "run_inv (initial_env SBV h)" "run_ok (initial_env SBV h)"
    "df_op_ok (run_ok (initial_env SBV h)) (run_inv (initial_env SBV h)) (run_ok (initial_env SBV h))" for h
  by (rule pts.mi_inc_store)

subsection \<open>Runs on new tables\<close>

definition inc_spec_new :: "('k, 'e) inc_spec" where
  "inc_spec_new = \<lparr>is_pts = (\<lambda>_. {}), is_in = (\<lambda>_. {}), is_out = (\<lambda>_. {})\<rparr>"

lemma mf_run_sem:
  assumes "list_all (df_op_ok (run_ok (initial_env SBV h)) (run_inv (initial_env SBV h)) (\<lambda>_. True)) xs"
  obtains rs s where
    "df_run (mf_ops (pts_ops (initial_env SBV h))) (pts_of (initial_env SBV h)) xs (mf_new rv) = Some (rs, s)"
    "(rs, mf_sem (pts_ops (initial_env SBV h)) (pts_of (initial_env SBV h)) s) =
      spec_df_run (full_run1 (pts_of (initial_env SBV h))) xs (\<lambda>_. {})"
proof -
  let ?E = "initial_env SBV h"
  have inv: "mf_inv (run_inv ?E) (mf_new rv)" by (simp add: mf_inv_def mf_new_def mp_new_def)
  have sem: "mf_sem (pts_ops ?E) (pts_of ?E) (mf_new rv) = (\<lambda>_. {})"
    by (rule ext) (simp add: mf_sem_def mf_slot_defs mf_new_def mp_new_def ptd.new split: slot.split)
  show ?thesis
    using mut_df.full.run_ok[OF inv _ assms] that unfolding sem by (auto simp: wp_iff mf_room_def)
qed

lemma mf_run_ok:
  assumes "list_all (df_op_ok (run_ok (initial_env SBV h)) (run_inv (initial_env SBV h)) (\<lambda>_. True)) xs"
  shows "map_option fst (df_run (mf_ops (pts_ops (initial_env SBV h))) (pts_of (initial_env SBV h)) xs (mf_new rv)) =
    Some (fst (spec_df_run (full_run1 (pts_of (initial_env SBV h))) xs (\<lambda>_. {})))"
  using mf_run_sem[OF assms, of rv] by (metis fst_conv option.simps(9))

abbreviation mi_sem :: "(64 word \<Rightarrow> 64 word) \<Rightarrow> (points_to, (nat, nat, points_to) mut_df) inc_df \<Rightarrow> (nat, nat) inc_spec" where
  "mi_sem h \<equiv> inc_sem (mf_sem (pts_ops (initial_env SBV h)) (pts_of (initial_env SBV h))) (ds_vars (pts_ops (initial_env SBV h)))
     (pts_of (initial_env SBV h))"

abbreviation mi_inv :: "(64 word \<Rightarrow> 64 word) \<Rightarrow> (points_to, (nat, nat, points_to) mut_df) inc_df \<Rightarrow> bool" where
  "mi_inv h \<equiv> inc_inv (mf_inv (run_inv (initial_env SBV h))) mf_ents (ds_vars (pts_ops (initial_env SBV h)))
     (pts_of (initial_env SBV h)) (run_inv (initial_env SBV h))"

lemma mi_run_sem:
  assumes "list_all (df_op_ok (run_ok (initial_env SBV h)) (run_inv (initial_env SBV h)) (run_ok (initial_env SBV h))) xs"
  obtains rs s where
    "df_run (mi_ops (pts_ops (initial_env SBV h))) (pts_of (initial_env SBV h)) xs (mi_new rv) = Some (rs, s)"
    "(rs, mi_sem h s) = spec_df_run (inc_run1 (pts_of (initial_env SBV h))) xs inc_spec_new" "mi_inv h s"
proof -
  let ?E = "initial_env SBV h"
  have inv: "mi_inv h (mi_new rv)"
    by (simp add: inc_inv_def mi_new_def mf_inv_def mf_new_def mp_new_def upd_inv_def upd_vars_def mut_vars.new)
  have sem: "mi_sem h (mi_new rv) = inc_spec_new"
    by (simp add: inc_sem_def inc_spec_new_def mi_new_def upd_vars_def mut_vars.new fun_eq_iff mf_sem_def mf_slot_defs
        mf_new_def mp_new_def ptd.new split: slot.split)
  show ?thesis
    using mut_inc.inc.run_ok[OF inv _ assms] that unfolding sem mi_ops_def by (auto simp: wp_iff mf_room_def)
qed

lemma mi_run_ok:
  assumes "list_all (df_op_ok (run_ok (initial_env SBV h)) (run_inv (initial_env SBV h)) (run_ok (initial_env SBV h))) xs"
  shows "map_option fst (df_run (mi_ops (pts_ops (initial_env SBV h))) (pts_of (initial_env SBV h)) xs (mi_new rv)) =
    Some (fst (spec_df_run (inc_run1 (pts_of (initial_env SBV h))) xs inc_spec_new))"
  using mi_run_sem[OF assms, of rv] by (metis fst_conv option.simps(9))

text \<open>An update of the OUT sets of a point after a run.\<close>

lemma mi_outs_ok:
  assumes "mi_inv h s" "settled l (mi_sem h s)"
  shows "wp (df_updateAllDFOutFromIn (mi_ops (pts_ops (initial_env SBV h))) l k strong s) (\<lambda>(b, s').
    full_run1 (pts_of (initial_env SBV h)) (AllOutFromIn l k strong) (is_pts (mi_sem h s)) = (ChangedDF b, is_pts (mi_sem h s')))"
proof -
  have "wp (df_run1 (mi_ops (pts_ops (initial_env SBV h))) (pts_of (initial_env SBV h)) (AllOutFromIn l k strong) s) (\<lambda>(a, s').
      full_run1 (pts_of (initial_env SBV h)) (AllOutFromIn l k strong) (is_pts (mi_sem h s)) = (a, is_pts (mi_sem h s')))"
    unfolding mi_ops_def
    by (rule wp_mono[OF mut_inc.inc.run1[OF assms(1)]])
      (auto simp: mf_room_def df_step_def inc_outs_complete[OF assms(2)] simp del: full_run1.simps inc_run1.simps)
  then show ?thesis by (auto simp: wp_iff simp del: full_run1.simps)
qed

text \<open>\<^verbatim>\<open>clear()\<close> empties the sets of top-level pointers only.\<close>

lemma mf_clear_keeps_flow:
  "mf_sem D \<alpha> (mf_clear t) (INs l k) = mf_sem D \<alpha> t (INs l k)" "mf_sem D \<alpha> (mf_clear t) (OUTs l k) = mf_sem D \<alpha> t (OUTs l k)"
  "mf_sem D \<alpha> (mf_clear t) (TLs k) = \<alpha> (ds_new D)"
  by (simp_all add: mf_sem_def mf_clear_def mf_slot_defs mp_clear_def)

text \<open>The reverse sets do not learn of additions.\<close>

lemma mf_addPts_no_rev:
  "mf_addPts D k e t = Some (b, t') \<Longrightarrow> mp_revPtsMap (mf_mutPTData t') = mp_revPtsMap (mf_mutPTData t)"
  by (auto simp: mf_addPts_def mf_put_def split: Option.bind_splits)

end
