(* ===== verification/Persistent_DF_PT_Data.thy ===== *)
theory Persistent_DF_PT_Data
  imports Mutable_DF_PT_Data Persistent_PT_Data
begin

text \<open>
  The persistent data-flow tables of \<^verbatim>\<open>svf/include/MemoryModel/PersistentPointsToDS.h\<close>: IN and OUT map to
  numbers of interned sets, and a union of two references is one of the cache. \<open>pf_\<close> is
  \<^verbatim>\<open>PersistentDFPTData\<close>, \<open>pi_\<close> \<^verbatim>\<open>PersistentIncDFPTData\<close>, which keeps the marked variables in a
  \<^verbatim>\<open>KeySet\<close>. They meet the contracts of the theories \<^verbatim>\<open>Slot_Store\<close> and \<^verbatim>\<open>Inc_Slot_Store\<close>, so they
  answer as the mutable ones.
\<close>

subsection \<open>\<^verbatim>\<open>PersistentDFPTData\<close>\<close>

record ('k, 'e) pers_df =
  pf_rev :: bool
  pf_persPTData :: "('k, 'e) pers_ptd"
  pf_dfInPtsMap :: "(nat \<times> ('k \<times> nat) list) list"
  pf_dfOutPtsMap :: "(nat \<times> ('k \<times> nat) list) list"

definition pf_new :: "bool \<Rightarrow> ('k, 'e) pers_df" where
  "pf_new reversePT = \<lparr>pf_rev = reversePT, pf_persPTData = pp_new reversePT, pf_dfInPtsMap = [], pf_dfOutPtsMap = []\<rparr>"

definition pf_clear :: "('k, 'e) pers_df \<Rightarrow> ('k, 'e) pers_df" where
  "pf_clear t = t\<lparr>pf_dfInPtsMap := [], pf_dfOutPtsMap := [], pf_persPTData := pp_clear (pf_persPTData t)\<rparr>"

text \<open>The methods of the base class are forwarded to the backing table; reverse sets are not supported.\<close>

definition pf_on :: "('d pt_cache \<times> ('k, 'e) pers_ptd \<Rightarrow> ('a \<times> 'd pt_cache \<times> ('k, 'e) pers_ptd) option) \<Rightarrow>
    'd pt_cache \<times> ('k, 'e) pers_df \<Rightarrow> ('a \<times> 'd pt_cache \<times> ('k, 'e) pers_df) option" where
  "pf_on f s = (case s of (c, t) \<Rightarrow> do { (x, c, p) \<leftarrow> f (c, pf_persPTData t); Some (x, c, t\<lparr>pf_persPTData := p\<rparr>) })"

definition pf_upd :: "('d pt_cache \<times> ('k, 'e) pers_ptd \<Rightarrow> ('d pt_cache \<times> ('k, 'e) pers_ptd) option) \<Rightarrow>
    'd pt_cache \<times> ('k, 'e) pers_df \<Rightarrow> ('d pt_cache \<times> ('k, 'e) pers_df) option" where
  "pf_upd f s = (case s of (c, t) \<Rightarrow> do { (c, p) \<leftarrow> f (c, pf_persPTData t); Some (c, t\<lparr>pf_persPTData := p\<rparr>) })"

definition pf_getRevPts :: "'e \<Rightarrow> 'd pt_cache \<times> ('k, 'e) pers_df \<Rightarrow> ('k list \<times> 'd pt_cache \<times> ('k, 'e) pers_df) option" where
  "pf_getRevPts datum s = None"

definition pf_remapAllPts :: "('d, 'e) data_ops \<Rightarrow> 'd pt_cache \<times> ('k, 'e) pers_df \<Rightarrow> ('d pt_cache \<times> ('k, 'e) pers_df) option" where
  "pf_remapAllPts D s = (case s of (c, t) \<Rightarrow> do { c \<leftarrow> pc_remapAllPts D c; Some (c, t) })"

definition pf_hasDFInSet :: "nat \<Rightarrow> ('k, 'e) pers_df \<Rightarrow> bool" where
  "pf_hasDFInSet loc t \<longleftrightarrow> ahas (pf_dfInPtsMap t) loc"

definition pf_hasDFOutSet :: "nat \<Rightarrow> ('k, 'e) pers_df \<Rightarrow> bool" where
  "pf_hasDFOutSet loc t \<longleftrightarrow> ahas (pf_dfOutPtsMap t) loc"

definition pf_hasDFInSetVar :: "nat \<Rightarrow> 'k \<Rightarrow> ('k, 'e) pers_df \<Rightarrow> bool" where
  "pf_hasDFInSetVar loc var t = (case map_of (pf_dfInPtsMap t) loc of None \<Rightarrow> False | Some m \<Rightarrow> ahas m var)"

definition pf_hasDFOutSetVar :: "nat \<Rightarrow> 'k \<Rightarrow> ('k, 'e) pers_df \<Rightarrow> bool" where
  "pf_hasDFOutSetVar loc var t = (case map_of (pf_dfOutPtsMap t) loc of None \<Rightarrow> False | Some m \<Rightarrow> ahas m var)"

definition pf_getDFInPtsSet :: "nat \<Rightarrow> 'k \<Rightarrow> 'd pt_cache \<times> ('k, 'e) pers_df \<Rightarrow> ('d \<times> 'd pt_cache \<times> ('k, 'e) pers_df) option" where
  "pf_getDFInPtsSet loc var s = (case s of (c, t) \<Rightarrow> do {
     d \<leftarrow> pc_getActualPts (nget 0 (pf_dfInPtsMap t) loc var) c;
     Some (d, c, t\<lparr>pf_dfInPtsMap := nref 0 (pf_dfInPtsMap t) loc var\<rparr>) })"

definition pf_getDFOutPtsSet :: "nat \<Rightarrow> 'k \<Rightarrow> 'd pt_cache \<times> ('k, 'e) pers_df \<Rightarrow> ('d \<times> 'd pt_cache \<times> ('k, 'e) pers_df) option" where
  "pf_getDFOutPtsSet loc var s = (case s of (c, t) \<Rightarrow> do {
     d \<leftarrow> pc_getActualPts (nget 0 (pf_dfOutPtsMap t) loc var) c;
     Some (d, c, t\<lparr>pf_dfOutPtsMap := nref 0 (pf_dfOutPtsMap t) loc var\<rparr>) })"

text \<open>
  \<^verbatim>\<open>PointsToID\<close> references: \<^verbatim>\<open>getDFInPtIdRef\<close>, \<^verbatim>\<open>getDFOutPtIdRef\<close> and \<^verbatim>\<open>persPTData.ptsMap[var]\<close>; what they
  refer to, the entry they create, an assignment through them.
\<close>

definition pf_id :: "('k, 'e) pers_df \<Rightarrow> 'k slot \<Rightarrow> nat" where
  "pf_id t x = (case x of
     TLs k \<Rightarrow> aget 0 (pp_ptsMap (pf_persPTData t)) k
   | INs l k \<Rightarrow> nget 0 (pf_dfInPtsMap t) l k
   | OUTs l k \<Rightarrow> nget 0 (pf_dfOutPtsMap t) l k)"

definition pf_ref :: "'k slot \<Rightarrow> ('k, 'e) pers_df \<Rightarrow> ('k, 'e) pers_df" where
  "pf_ref x t = (case x of
     TLs k \<Rightarrow> t\<lparr>pf_persPTData := (pf_persPTData t)\<lparr>pp_ptsMap := aref 0 (pp_ptsMap (pf_persPTData t)) k\<rparr>\<rparr>
   | INs l k \<Rightarrow> t\<lparr>pf_dfInPtsMap := nref 0 (pf_dfInPtsMap t) l k\<rparr>
   | OUTs l k \<Rightarrow> t\<lparr>pf_dfOutPtsMap := nref 0 (pf_dfOutPtsMap t) l k\<rparr>)"

definition pf_put :: "'k slot \<Rightarrow> nat \<Rightarrow> ('k, 'e) pers_df \<Rightarrow> ('k, 'e) pers_df" where
  "pf_put x i t = (case x of
     TLs k \<Rightarrow> t\<lparr>pf_persPTData := (pf_persPTData t)\<lparr>pp_ptsMap := aput k i (pp_ptsMap (pf_persPTData t))\<rparr>\<rparr>
   | INs l k \<Rightarrow> t\<lparr>pf_dfInPtsMap := nput l k i (pf_dfInPtsMap t)\<rparr>
   | OUTs l k \<Rightarrow> t\<lparr>pf_dfOutPtsMap := nput l k i (pf_dfOutPtsMap t)\<rparr>)"

definition pf_unionPtsThroughIds :: "('d, 'e) data_ops \<Rightarrow> 'k slot \<Rightarrow> 'k slot \<Rightarrow> 'd pt_cache \<times> ('k, 'e) pers_df \<Rightarrow>
    (bool \<times> 'd pt_cache \<times> ('k, 'e) pers_df) option" where
  "pf_unionPtsThroughIds D dst src s = (case s of (c, t) \<Rightarrow> do {
     let t = pf_ref src (pf_ref dst t);
     let oldDst = pf_id t dst;
     (newDst, c) \<leftarrow> pc_unionPts D (pf_id t dst) (pf_id t src) c;
     Some (oldDst \<noteq> newDst, c, pf_put dst newDst t) })"

definition pf_updateDFInFromIn :: "('d, 'e) data_ops \<Rightarrow> nat \<Rightarrow> 'k \<Rightarrow> nat \<Rightarrow> 'k \<Rightarrow> 'd pt_cache \<times> ('k, 'e) pers_df \<Rightarrow>
    (bool \<times> 'd pt_cache \<times> ('k, 'e) pers_df) option" where
  "pf_updateDFInFromIn D srcLoc srcVar dstLoc dstVar = pf_unionPtsThroughIds D (INs dstLoc dstVar) (INs srcLoc srcVar)"

definition pf_updateAllDFInFromIn :: "('d, 'e) data_ops \<Rightarrow> nat \<Rightarrow> 'k \<Rightarrow> nat \<Rightarrow> 'k \<Rightarrow> 'd pt_cache \<times> ('k, 'e) pers_df \<Rightarrow>
    (bool \<times> 'd pt_cache \<times> ('k, 'e) pers_df) option" where
  "pf_updateAllDFInFromIn D = pf_updateDFInFromIn D"

definition pf_updateDFInFromOut :: "('d, 'e) data_ops \<Rightarrow> nat \<Rightarrow> 'k \<Rightarrow> nat \<Rightarrow> 'k \<Rightarrow> 'd pt_cache \<times> ('k, 'e) pers_df \<Rightarrow>
    (bool \<times> 'd pt_cache \<times> ('k, 'e) pers_df) option" where
  "pf_updateDFInFromOut D srcLoc srcVar dstLoc dstVar = pf_unionPtsThroughIds D (INs dstLoc dstVar) (OUTs srcLoc srcVar)"

definition pf_updateAllDFInFromOut :: "('d, 'e) data_ops \<Rightarrow> nat \<Rightarrow> 'k \<Rightarrow> nat \<Rightarrow> 'k \<Rightarrow> 'd pt_cache \<times> ('k, 'e) pers_df \<Rightarrow>
    (bool \<times> 'd pt_cache \<times> ('k, 'e) pers_df) option" where
  "pf_updateAllDFInFromOut D = pf_updateDFInFromOut D"

definition pf_updateDFOutFromIn :: "('d, 'e) data_ops \<Rightarrow> nat \<Rightarrow> 'k \<Rightarrow> nat \<Rightarrow> 'k \<Rightarrow> 'd pt_cache \<times> ('k, 'e) pers_df \<Rightarrow>
    (bool \<times> 'd pt_cache \<times> ('k, 'e) pers_df) option" where
  "pf_updateDFOutFromIn D srcLoc srcVar dstLoc dstVar = pf_unionPtsThroughIds D (OUTs dstLoc dstVar) (INs srcLoc srcVar)"

definition pf_updateAllDFOutFromIn :: "('d, 'e) data_ops \<Rightarrow> nat \<Rightarrow> 'k \<Rightarrow> bool \<Rightarrow> 'd pt_cache \<times> ('k, 'e) pers_df \<Rightarrow>
    (bool \<times> 'd pt_cache \<times> ('k, 'e) pers_df) option" where
  "pf_updateAllDFOutFromIn D loc singleton strongUpdates s =
    (if pf_hasDFInSet loc (snd s)
     then out_loop (pf_updateDFOutFromIn D) loc singleton strongUpdates (map fst (aget [] (pf_dfInPtsMap (snd s)) loc)) s
     else Some (False, s))"

definition pf_clearAllDFOutUpdatedVar :: "nat \<Rightarrow> 'd pt_cache \<times> ('k, 'e) pers_df \<Rightarrow> 'd pt_cache \<times> ('k, 'e) pers_df" where
  "pf_clearAllDFOutUpdatedVar loc s = s"

definition pf_updateTLVPts :: "('d, 'e) data_ops \<Rightarrow> nat \<Rightarrow> 'k \<Rightarrow> 'k \<Rightarrow> 'd pt_cache \<times> ('k, 'e) pers_df \<Rightarrow>
    (bool \<times> 'd pt_cache \<times> ('k, 'e) pers_df) option" where
  "pf_updateTLVPts D srcLoc srcVar dstVar = pf_unionPtsThroughIds D (TLs dstVar) (INs srcLoc srcVar)"

definition pf_updateATVPts :: "('d, 'e) data_ops \<Rightarrow> 'k \<Rightarrow> nat \<Rightarrow> 'k \<Rightarrow> 'd pt_cache \<times> ('k, 'e) pers_df \<Rightarrow>
    (bool \<times> 'd pt_cache \<times> ('k, 'e) pers_df) option" where
  "pf_updateATVPts D srcVar dstLoc dstVar = pf_unionPtsThroughIds D (OUTs dstLoc dstVar) (TLs srcVar)"

text \<open>
  \<^verbatim>\<open>getAllPts\<close>. The loop that is to subtract one from every count runs over copies of the entries
  (\<^verbatim>\<open>for (... value_type pto : allPts) pto.second -= 1;\<close>) and changes nothing.
\<close>

definition mergePtsOccMaps :: "('d, 'e) data_ops \<Rightarrow> ('d \<times> nat) list \<Rightarrow> ('d \<times> nat) list \<Rightarrow> ('d \<times> nat) list option" where
  "mergePtsOccMaps D to from =
    foldM (\<lambda>(d, n) to. do {
      old \<leftarrow> dfind D d to;
      dput D d (((case old of None \<Rightarrow> 0 | Some m \<Rightarrow> m) + n) mod 2 ^ 32) to }) from to"

definition pf_getAllPts :: "('d, 'e) data_ops \<Rightarrow> bool \<Rightarrow> 'd pt_cache \<times> ('k, 'e) pers_df \<Rightarrow> ('d \<times> nat) list option" where
  "pf_getAllPts D liveOnly s = (case s of (c, t) \<Rightarrow> do {
     allPts \<leftarrow> pp_getAllPts D liveOnly (c, pf_persPTData t);
     allPts \<leftarrow> foldM (\<lambda>(l, m). count_ids D c m) (pf_dfInPtsMap t) allPts;
     allPts \<leftarrow> foldM (\<lambda>(l, m). count_ids D c m) (pf_dfOutPtsMap t) allPts;
     if liveOnly then Some allPts else do { cached \<leftarrow> pc_getAllPts D c; mergePtsOccMaps D allPts cached } })"

definition pf_ops :: "('d, 'e) data_ops \<Rightarrow> ('k, 'e, 'd, 'd pt_cache \<times> ('k, 'e) pers_df) df_ops" where
  "pf_ops D = \<lparr>df_getPts = (\<lambda>k. pf_on (pp_getPts k)), df_getDFInPtsSet = pf_getDFInPtsSet,
     df_getDFOutPtsSet = pf_getDFOutPtsSet, df_addPts = (\<lambda>k e. pf_on (pp_addPts D k e)),
     df_unionPts = (\<lambda>k k'. pf_on (pp_unionPts D k k')), df_unionData = (\<lambda>k d. pf_on (pp_unionData D k d)),
     df_clearPts = (\<lambda>k e. pf_upd (pp_clearPts D k e)), df_clearFullPts = (\<lambda>k. pf_upd (pp_clearFullPts D k)),
     df_remapAllPts = pf_remapAllPts D,
     df_updateDFInFromIn = pf_updateDFInFromIn D, df_updateAllDFInFromIn = pf_updateAllDFInFromIn D,
     df_updateDFInFromOut = pf_updateDFInFromOut D, df_updateAllDFInFromOut = pf_updateAllDFInFromOut D,
     df_updateDFOutFromIn = pf_updateDFOutFromIn D, df_updateAllDFOutFromIn = pf_updateAllDFOutFromIn D,
     df_clearAllDFOutUpdatedVar = (\<lambda>l s. Some (pf_clearAllDFOutUpdatedVar l s)), df_updateTLVPts = pf_updateTLVPts D,
     df_updateATVPts = pf_updateATVPts D\<rparr>"

subsection \<open>\<^verbatim>\<open>PersistentIncDFPTData\<close>\<close>

definition pf_slots :: "('d, 'e) data_ops \<Rightarrow> ('k, 'd pt_cache \<times> ('k, 'e) pers_df) slot_ops" where
  "pf_slots D = \<lparr>so_union = pf_unionPtsThroughIds D,
     so_tlv = (\<lambda>srcLoc srcVar dstVar. pf_unionPtsThroughIds D (TLs dstVar) (INs srcLoc srcVar)),
     so_hasIn = (\<lambda>l (c, t). pf_hasDFInSet l t), so_hasOut = (\<lambda>l (c, t). pf_hasDFOutSet l t),
     so_vars = (\<lambda>l (c, t). map fst (aget [] (pf_dfInPtsMap t) l))\<rparr>"

definition key_vars :: "('k, 'k list) var_ops" where
  "key_vars = \<lparr>vo_new = [], vo_set = (\<lambda>u k. Some (insertKey k u)), vo_reset = (\<lambda>u k. Some (removeKey k u)),
     vo_test = (\<lambda>u k. Some (k \<in> set u)), vo_elems = Some\<rparr>"

definition pi_new :: "'d pt_cache \<Rightarrow> bool \<Rightarrow> ('k list, 'd pt_cache \<times> ('k, 'e) pers_df) inc_df" where
  "pi_new cache reversePT = \<lparr>id_base = (cache, pf_new reversePT), id_outUpdatedVarMap = [], id_inUpdatedVarMap = []\<rparr>"

definition pi_clear :: "('k list, 'd pt_cache \<times> ('k, 'e) pers_df) inc_df \<Rightarrow> ('k list, 'd pt_cache \<times> ('k, 'e) pers_df) inc_df" where
  "pi_clear t = t\<lparr>id_outUpdatedVarMap := [], id_inUpdatedVarMap := [], id_base := apsnd pf_clear (id_base t)\<rparr>"

definition pi_ops :: "('d, 'e) data_ops \<Rightarrow> ('k, 'e, 'd, ('k list, 'd pt_cache \<times> ('k, 'e) pers_df) inc_df) df_ops" where
  "pi_ops D = inc_ops (pf_ops D) (pf_slots D) key_vars"

subsection \<open>What the tables mean over a cache\<close>

text \<open>
  \<^verbatim>\<open>unionPtsThroughIds\<close> does not keep reverse sets, so the tables are those without: the pointer analyses build
  them with \<^verbatim>\<open>reversePT\<close> false.
\<close>

definition pf_sem :: "('d \<Rightarrow> 'e set) \<Rightarrow> 'd pt_cache \<times> ('k, 'e) pers_df \<Rightarrow> 'k slot \<Rightarrow> 'e set" where
  "pf_sem \<alpha> s x = \<alpha> (pc_idToPts (fst s) ! pf_id (snd s) x)"

definition pf_ids :: "'d pt_cache \<Rightarrow> ('k, 'e) pers_df \<Rightarrow> bool" where
  "pf_ids c t \<longleftrightarrow> nmap_ok (\<lambda>i. i < length (pc_idToPts c)) (pf_dfInPtsMap t) \<and>
     nmap_ok (\<lambda>i. i < length (pc_idToPts c)) (pf_dfOutPtsMap t)"

definition pf_inv :: "('d \<Rightarrow> 'e set) \<Rightarrow> ('d \<Rightarrow> bool) \<Rightarrow> 'd pt_cache \<times> ('k, 'e) pers_df \<Rightarrow> bool" where
  "pf_inv \<alpha> I s \<longleftrightarrow> (case s of (c, t) \<Rightarrow>
     pp_inv \<alpha> I (c, pf_persPTData t) \<and> \<not> pp_rev (pf_persPTData t) \<and> pf_ids c t)"

definition pf_ents :: "'d pt_cache \<times> ('k, 'e) pers_df \<Rightarrow> 'k slot set" where
  "pf_ents s = {x. case x of TLs k \<Rightarrow> True | INs l k \<Rightarrow> nhas (pf_dfInPtsMap (snd s)) l k
     | OUTs l k \<Rightarrow> nhas (pf_dfOutPtsMap (snd s)) l k}"

definition pf_room :: "'d pt_cache \<times> ('k, 'e) pers_df \<Rightarrow> nat \<Rightarrow> bool" where
  "pf_room s n \<longleftrightarrow> pc_room (fst s) n"

abbreviation pf_step :: "('d \<Rightarrow> 'e set) \<Rightarrow> ('d \<Rightarrow> bool) \<Rightarrow> nat \<Rightarrow> 'd pt_cache \<times> ('k, 'e) pers_df \<Rightarrow> ('k slot \<Rightarrow> 'e set) \<Rightarrow>
    'd pt_cache \<times> ('k, 'e) pers_df \<Rightarrow> bool" where
  "pf_step \<alpha> I \<equiv> slot_step (pf_inv \<alpha> I) (pf_sem \<alpha>) pf_ents pf_room"

lemma mem_pf_ents [simp]:
  "TLs k \<in> pf_ents s" "INs l k \<in> pf_ents s \<longleftrightarrow> nhas (pf_dfInPtsMap (snd s)) l k"
  "OUTs l k \<in> pf_ents s \<longleftrightarrow> nhas (pf_dfOutPtsMap (snd s)) l k"
  by (simp_all add: pf_ents_def)

lemma pf_ents_eqI:
  "(\<And>l k. nhas (pf_dfInPtsMap t) l k \<longleftrightarrow> INs l k \<in> S) \<Longrightarrow> (\<And>l k. nhas (pf_dfOutPtsMap t) l k \<longleftrightarrow> OUTs l k \<in> S) \<Longrightarrow>
   (\<And>k. TLs k \<in> S) \<Longrightarrow> pf_ents (c, t) = S"
  unfolding pf_ents_def by (rule set_eqI) (simp split: slot.split)

lemma pf_ents_cache: "pf_ents (c, t) = pf_ents (c', t)"
  by (simp only: pf_ents_def snd_conv)

lemmas pf_slot_defs = pf_id_def pf_ref_def pf_put_def

lemma pf_id_put [simp]: "pf_id (pf_put x i t) = (pf_id t)(x := i)"
  by (rule ext) (simp add: pf_slot_defs split: slot.split)

lemma pf_id_ref [simp]: "pf_id (pf_ref x t) = pf_id t"
  by (rule ext) (simp add: pf_slot_defs split: slot.split)

lemma pf_ents_put [simp]: "pf_ents (c, pf_put x i t) = insert x (pf_ents (c, t))"
  by (rule pf_ents_eqI) (auto simp: pf_slot_defs split: slot.split)

lemma pf_ents_ref [simp]: "pf_ents (c, pf_ref x t) = insert x (pf_ents (c, t))"
  by (rule pf_ents_eqI) (auto simp: pf_slot_defs split: slot.split)

lemma nmap_ok_mono: "nmap_ok P m \<Longrightarrow> (\<And>v. P v \<Longrightarrow> Q v) \<Longrightarrow> nmap_ok Q m"
  by (fastforce simp: nmap_ok_def map_inv_def)

lemma pf_has:
  assumes "pf_inv \<alpha> I (c, t)"
  shows "pc_has \<alpha> c (pf_id t x) (pf_sem \<alpha> (c, t) x)"
proof -
  have p: "pc_inv \<alpha> I c" "id_inv c (pp_ptsMap (pf_persPTData t))"
    using assms pp_inv_parts(1,2)[of \<alpha> I c "pf_persPTData t"] by (simp_all add: pf_inv_def)
  have "0 < length (pc_idToPts c)" using pc_has_empty[OF p(1)] by (simp add: pc_has_def emptyPointsToId_def)
  then have "nget 0 (pf_dfInPtsMap t) l k < length (pc_idToPts c) \<and> nget 0 (pf_dfOutPtsMap t) l k < length (pc_idToPts c)" for l k
    using assms by (simp add: pf_inv_def pf_ids_def nmap_ok_get[where Q = "\<lambda>i. i < length (pc_idToPts c)"])
  then have "pf_id t x < length (pc_idToPts c)"
    using p(2) by (simp add: pf_id_def id_inv_def split: slot.split)
  then show ?thesis by (simp add: pf_sem_def pc_has_def)
qed

lemma pf_ids_keeps:
  assumes "pf_ids c t" "pc_keeps \<alpha> c c'"
  shows "pf_ids c' t"
proof -
  have "i < length (pc_idToPts c')" if "i < length (pc_idToPts c)" for i
    using assms(2) that by (auto simp: pc_keeps_def pc_has_def)
  then show ?thesis using assms(1) by (auto simp: pf_ids_def elim!: nmap_ok_mono)
qed

text \<open>The table of top-level pointers after a step of its own.\<close>

lemma pf_tl_step:
  assumes t: "pf_inv \<alpha> I (c, t)" and st: "pp_stepn \<alpha> I n (c, pf_persPTData t) g (c', p)"
    and f: "\<And>k. f (TLs k) = g k" "\<And>l k. f (INs l k) = pf_sem \<alpha> (c, t) (INs l k)" "\<And>l k. f (OUTs l k) = pf_sem \<alpha> (c, t) (OUTs l k)"
  shows "pf_step \<alpha> I n (c, t) f (c', t\<lparr>pf_persPTData := p\<rparr>)" "pf_ents (c', t\<lparr>pf_persPTData := p\<rparr>) = pf_ents (c, t)"
proof -
  let ?t = "t\<lparr>pf_persPTData := p\<rparr>"
  have s: "pp_inv \<alpha> I (c', p)" "pp_pts \<alpha> (c', p) = g" "pp_rev p = pp_rev (pf_persPTData t)" "pc_keeps \<alpha> c c'"
    "length (pc_idToPts c') \<le> length (pc_idToPts c) + n"
    using st by (simp_all add: pp_stepn_def)
  have k: "pc_has \<alpha> c' (pf_id t x) (pf_sem \<alpha> (c, t) x)" for x
    using pf_has[OF t, of x] s(4) by (simp add: pc_keeps_def)
  have "pf_ids c t" using t by (simp add: pf_inv_def)
  from pf_ids_keeps[OF this s(4)] have "pf_ids c' t" .
  then have "pf_inv \<alpha> I (c', ?t)" using s t by (simp add: pf_inv_def pf_ids_def)
  moreover have "pf_sem \<alpha> (c', ?t) x = f x" for x
    using k[of x] f s(2) by (cases x) (auto simp: pf_sem_def pf_id_def pc_has_def pp_pts_def id_pts_def)
  moreover show "pf_ents (c', ?t) = pf_ents (c, t)" by (rule pf_ents_eqI) simp_all
  ultimately show "pf_step \<alpha> I n (c, t) f (c', ?t)"
    using s(5) by (auto simp: slot_step_def fun_eq_iff pf_room_def pc_room_def)
qed

text \<open>An assignment through a reference.\<close>

lemma pf_put_inv:
  assumes t: "pf_inv \<alpha> I (c, t)" and i: "pc_has \<alpha> c i S"
  shows "pf_inv \<alpha> I (c, pf_put x i t)" "pf_sem \<alpha> (c, pf_put x i t) = (pf_sem \<alpha> (c, t))(x := S)"
proof -
  have p: "pc_inv \<alpha> I c" "id_inv c (pp_ptsMap (pf_persPTData t))"
    using t pp_inv_parts(1,2)[of \<alpha> I c "pf_persPTData t"] by (simp_all add: pf_inv_def)
  show "pf_inv \<alpha> I (c, pf_put x i t)"
    using t i id_upd(1)[OF p(2) i] p(1)
    by (simp add: pf_inv_def pf_ids_def pf_put_def nmap_ok_put pc_has_def pp_inv_def pp_tab_def rev_ok_def split: slot.split)
  show "pf_sem \<alpha> (c, pf_put x i t) = (pf_sem \<alpha> (c, t))(x := S)"
    using i by (auto simp: pf_sem_def fun_eq_iff pc_has_def)
qed

lemma pf_ref_inv:
  assumes t: "pf_inv \<alpha> I (c, t)"
  shows "pf_inv \<alpha> I (c, pf_ref x t)" "pf_sem \<alpha> (c, pf_ref x t) = pf_sem \<alpha> (c, t)"
proof -
  have p: "pc_inv \<alpha> I c" "id_inv c (pp_ptsMap (pf_persPTData t))"
    using t pp_inv_parts(1,2)[of \<alpha> I c "pf_persPTData t"] by (simp_all add: pf_inv_def)
  have "0 < length (pc_idToPts c)" using pc_has_empty[OF p(1)] by (simp add: pc_has_def emptyPointsToId_def)
  then show "pf_inv \<alpha> I (c, pf_ref x t)"
    using t p by (simp add: pf_inv_def pf_ids_def pf_ref_def nmap_ok_ref pp_inv_def pp_tab_def rev_ok_def split: slot.split)
  show "pf_sem \<alpha> (c, pf_ref x t) = pf_sem \<alpha> (c, t)" by (simp add: pf_sem_def fun_eq_iff)
qed

context canonical_data_set
begin

lemma pf_union_ok:
  assumes t: "pf_inv \<alpha> I (c, t)" and room: "pc_room c 1"
  shows "wp (pf_unionPtsThroughIds D x y (c, t)) (\<lambda>(b, s'). (b \<longleftrightarrow> \<not> pf_sem \<alpha> (c, t) y \<subseteq> pf_sem \<alpha> (c, t) x) \<and>
    pf_step \<alpha> I 1 (c, t) ((pf_sem \<alpha> (c, t))(x := pf_sem \<alpha> (c, t) x \<union> pf_sem \<alpha> (c, t) y)) s' \<and>
    pf_ents s' = pf_ents (c, t) \<union> {x, y})"
proof -
  let ?t = "pf_ref y (pf_ref x t)" and ?S = "pf_sem \<alpha> (c, t) x" and ?T = "pf_sem \<alpha> (c, t) y"
  have r: "pf_inv \<alpha> I (c, ?t)" "pf_sem \<alpha> (c, ?t) = pf_sem \<alpha> (c, t)"
    using pf_ref_inv[OF t, of x] pf_ref_inv[of \<alpha> I c "pf_ref x t" y] by simp_all
  have pc: "pc_inv \<alpha> I c" using t pp_inv_parts(1) by (auto simp: pf_inv_def)
  have len: "length (pc_idToPts c) < 2 ^ 32" using room by (simp add: pc_room_def)
  have x: "pc_has \<alpha> c (pf_id t x) ?S" and y: "pc_has \<alpha> c (pf_id t y) ?T" by (rule pf_has[OF t])+
  obtain i c1 where u: "pc_unionPts D (pf_id t x) (pf_id t y) c = Some (i, c1)" "pc_result \<alpha> I c (?S \<union> ?T) (i, c1)"
    using unionPts_ok[OF pc len x y] by (auto simp: wp_iff)
  note c1 = cache_step[OF u(2)]
  have flag: "pf_id t x \<noteq> i \<longleftrightarrow> \<not> ?T \<subseteq> ?S"
    using pc_has_inject[of \<alpha> I c1 i "?S \<union> ?T" "pf_id t x" ?S] c1 x by (auto simp: pc_keeps_def)
  have tab: "pp_stepn \<alpha> I 1 (c, pf_persPTData ?t) (pp_pts \<alpha> (c, pf_persPTData ?t)) (c1, pf_persPTData ?t)"
    using r(1) c1 pp_inv_parts[of \<alpha> I c "pf_persPTData ?t"] id_keeps[of c "pp_ptsMap (pf_persPTData ?t)" \<alpha> c1]
    by (intro pp_stepnI) (simp_all add: pf_inv_def pp_pts_def)
  have sem: "pp_pts \<alpha> (c, pf_persPTData ?t) k = pf_sem \<alpha> (c, ?t) (TLs k)" for k
    by (simp only: pp_pts_def id_pts_def pf_sem_def pf_id_def slot.case fst_conv snd_conv prod.case)
  have st: "pf_step \<alpha> I 1 (c, ?t) (pf_sem \<alpha> (c, t)) (c1, ?t)"
    using pf_tl_step(1)[OF r(1) tab, of "pf_sem \<alpha> (c, t)"] sem r(2) by simp
  have inv1: "pf_inv \<alpha> I (c1, ?t)" "pf_sem \<alpha> (c1, ?t) = pf_sem \<alpha> (c, t)" using st by (simp_all add: slot_step_def)
  have has: "pc_has \<alpha> c1 i (?S \<union> ?T)" using c1 by blast
  note put = pf_put_inv[OF inv1(1) has, of x]
  have ents: "pf_ents (c1, pf_put x i ?t) = pf_ents (c, t) \<union> {x, y}"
    using pf_ents_cache[of c1 t c] by auto
  have room': "pf_room (c, t) (n + 1) \<longrightarrow> pf_room (c1, pf_put x i ?t) n" for n
    using c1 by (simp add: pf_room_def pc_room_def)
  have "pf_step \<alpha> I 1 (c, t) ((pf_sem \<alpha> (c, t))(x := ?S \<union> ?T)) (c1, pf_put x i ?t)"
    using put inv1(2) room' ents by (auto simp: slot_step_def)
  moreover have "pf_unionPtsThroughIds D x y (c, t) = Some (pf_id t x \<noteq> i, c1, pf_put x i ?t)"
    using u(1) by (simp add: pf_unionPtsThroughIds_def Let_def)
  ultimately show ?thesis using flag ents by simp
qed

end

subsection \<open>They meet the contracts\<close>

context canonical_data_set
begin

text \<open>A reference that is only read.\<close>

lemma pf_read_ok:
  assumes t: "pf_inv \<alpha> I (c, t)"
  shows "wp (pc_getActualPts (pf_id t x) c) (\<lambda>d. \<alpha> d = pf_sem \<alpha> (c, t) x \<and>
    pf_step \<alpha> I n (c, t) (pf_sem \<alpha> (c, t)) (c, pf_ref x t) \<and> pf_ents (c, pf_ref x t) = insert x (pf_ents (c, t)))"
proof -
  have pc: "pc_inv \<alpha> I c" using t pp_inv_parts(1) by (auto simp: pf_inv_def)
  have st: "pf_step \<alpha> I n (c, t) (pf_sem \<alpha> (c, t)) (c, pf_ref x t)"
    using pf_ref_inv[OF t, of x] by (auto simp: slot_step_def pf_room_def pc_room_def)
  show ?thesis by (rule wp_mono[OF pc_getActualPts_ok[OF pc pf_has[OF t, of x]]]) (simp add: st)
qed

text \<open>A step of the backing table of at most two new sets.\<close>

lemma pf_step_le: "pf_step \<alpha> I n s f s' \<Longrightarrow> n \<le> m \<Longrightarrow> pf_step \<alpha> I m s f s'"
  by (auto simp: slot_step_def pf_room_def pc_room_def)

lemma pf_on_ok:
  assumes t: "pf_inv \<alpha> I (c, t)" and n: "n \<le> 2"
    and m: "wp (m (c, pf_persPTData t)) (\<lambda>(a, s'). Q a \<and> pp_stepn \<alpha> I n (c, pf_persPTData t) g s')"
    and f: "\<And>k. f (TLs k) = g k" "\<And>l k. f (INs l k) = pf_sem \<alpha> (c, t) (INs l k)" "\<And>l k. f (OUTs l k) = pf_sem \<alpha> (c, t) (OUTs l k)"
  shows "wp (pf_on m (c, t)) (\<lambda>(a, s'). Q a \<and> pf_step \<alpha> I 2 (c, t) f s' \<and> pf_ents s' = pf_ents (c, t))"
proof -
  obtain a c' p where r: "m (c, pf_persPTData t) = Some (a, c', p)" "Q a" "pp_stepn \<alpha> I n (c, pf_persPTData t) g (c', p)"
    using m by (auto simp: wp_iff)
  have "pf_step \<alpha> I 2 (c, t) f (c', t\<lparr>pf_persPTData := p\<rparr>)" by (rule pf_step_le[OF pf_tl_step(1)[OF t r(3) f] n])
  then show ?thesis using r(1,2) pf_tl_step(2)[OF t r(3) f] by (simp add: pf_on_def)
qed

lemma pf_upd_ok:
  assumes t: "pf_inv \<alpha> I (c, t)" and n: "n \<le> 2"
    and m: "wp (m (c, pf_persPTData t)) (pp_stepn \<alpha> I n (c, pf_persPTData t) g)"
    and f: "\<And>k. f (TLs k) = g k" "\<And>l k. f (INs l k) = pf_sem \<alpha> (c, t) (INs l k)" "\<And>l k. f (OUTs l k) = pf_sem \<alpha> (c, t) (OUTs l k)"
  shows "wp (pf_upd m (c, t)) (\<lambda>s'. pf_step \<alpha> I 2 (c, t) f s' \<and> pf_ents s' = pf_ents (c, t))"
proof -
  obtain c' p where r: "m (c, pf_persPTData t) = Some (c', p)" "pp_stepn \<alpha> I n (c, pf_persPTData t) g (c', p)"
    using m by (auto simp: wp_iff)
  have "pf_step \<alpha> I 2 (c, t) f (c', t\<lparr>pf_persPTData := p\<rparr>)" by (rule pf_step_le[OF pf_tl_step(1)[OF t r(2) f] n])
  then show ?thesis using r(1) pf_tl_step(2)[OF t r(2) f] by (simp add: pf_upd_def)
qed

lemma pf_sem_TLs: "pp_pts \<alpha> (c, pf_persPTData t) k = pf_sem \<alpha> (c, t) (TLs k)"
  by (simp only: pp_pts_def id_pts_def pf_sem_def pf_id_def slot.case fst_conv snd_conv prod.case)

lemma pf_remap_ok:
  assumes t: "pf_inv \<alpha> I (c, t)"
  shows "wp (pf_remapAllPts D (c, t)) (\<lambda>s'. pf_step \<alpha> I 2 (c, t) (pf_sem \<alpha> (c, t)) s' \<and> pf_ents s' = pf_ents (c, t))"
proof -
  have "pp_inv \<alpha> I (c, pf_persPTData t)" using t by (simp add: pf_inv_def)
  from pp_remapAllPts_ok[OF this] obtain c' p where
    r: "pp_remapAllPts D (c, pf_persPTData t) = Some (c', p)"
    "pp_stepn \<alpha> I 0 (c, pf_persPTData t) (pp_pts \<alpha> (c, pf_persPTData t)) (c', p)"
    by (auto simp: wp_iff)
  then have p: "p = pf_persPTData t" "pc_remapAllPts D c = Some c'"
    by (auto simp: pp_remapAllPts_def split: Option.bind_splits)
  have "pf_step \<alpha> I 0 (c, t) (pf_sem \<alpha> (c, t)) (c', t\<lparr>pf_persPTData := p\<rparr>)"
    by (rule pf_tl_step(1)[OF t r(2)]) (simp_all only: pf_sem_TLs)
  then show ?thesis using p pf_step_le[of 0 "(c, t)" _ _ 2] pf_ents_cache[of c' t c] by (simp add: pf_remapAllPts_def)
qed

lemma pf_plain:
  assumes t: "pf_inv \<alpha> I (s :: 'd pt_cache \<times> ('k, 'e) pers_df)" and room: "pf_room s 2"
    and c: "plain_op x" "df_op_ok ok I kok x"
  shows "wp (df_run1 (pf_ops D) \<alpha> x s) (\<lambda>(a, s'). a = fst (full_run1 \<alpha> x (pf_sem \<alpha> s)) \<and>
    pf_step \<alpha> I 2 s (snd (full_run1 \<alpha> x (pf_sem \<alpha> s))) s' \<and> card (in_slots (pf_ents s')) \<le> card (in_slots (pf_ents s)) + 1)"
proof -
  obtain c u where s: "s = (c, u)" by fastforce
  note t = t[unfolded s]
  have p: "pp_inv \<alpha> I (c, pf_persPTData u)" using t by (simp add: pf_inv_def)
  have r: "pc_room c 2" "pc_room c 1" using room by (simp_all add: s pf_room_def pc_room_def)
  have "finite (in_slots (pf_ents (c, u)))" using finite_nhas by (simp add: in_slots_def)
  then have one: "card (insert q (in_slots (pf_ents (c, u)))) \<le> Suc (card (in_slots (pf_ents (c, u))))" for q
    by (simp add: card_insert_if)
  have read: "wp (pf_on (pp_getPts k) (c, u)) (\<lambda>(d, s'). (I d \<and> \<alpha> d = pf_sem \<alpha> (c, u) (TLs k)) \<and>
      pf_step \<alpha> I 2 (c, u) (pf_sem \<alpha> (c, u)) s' \<and> pf_ents s' = pf_ents (c, u))" for k
    using pp_getPts_ok[OF p, of k] by (intro pf_on_ok[OF t, where n = 0 and g = "pp_pts \<alpha> (c, pf_persPTData u)"]) (simp_all add: pf_sem_TLs)
  have into: "wp (map_option (\<lambda>(b, s). (ChangedDF b, s)) (pf_on m (c, u))) (\<lambda>(a, s'). a = fst (into (TLs k) A (pf_sem \<alpha> (c, u))) \<and>
      pf_step \<alpha> I 2 (c, u) (snd (into (TLs k) A (pf_sem \<alpha> (c, u)))) s' \<and> card (in_slots (pf_ents s')) \<le> card (in_slots (pf_ents (c, u))) + 1)"
    if "n \<le> 2" and m: "wp (m (c, pf_persPTData u)) (\<lambda>(b, s'). (b \<longleftrightarrow> \<not> A \<subseteq> pp_pts \<alpha> (c, pf_persPTData u) k) \<and>
      pp_stepn \<alpha> I n (c, pf_persPTData u) ((pp_pts \<alpha> (c, pf_persPTData u))(k := pp_pts \<alpha> (c, pf_persPTData u) k \<union> A)) s')"
    for n m k A
  proof -
    have "wp (pf_on m (c, u)) (\<lambda>(b, s'). (b \<longleftrightarrow> \<not> A \<subseteq> pp_pts \<alpha> (c, pf_persPTData u) k) \<and>
      pf_step \<alpha> I 2 (c, u) ((pf_sem \<alpha> (c, u))(TLs k := pf_sem \<alpha> (c, u) (TLs k) \<union> A)) s' \<and> pf_ents s' = pf_ents (c, u))"
      by (rule pf_on_ok[where m = m and g = "(pp_pts \<alpha> (c, pf_persPTData u))(k := pp_pts \<alpha> (c, pf_persPTData u) k \<union> A)", OF t that(1)])
        (use m in \<open>simp_all add: pf_sem_TLs\<close>)
    then show ?thesis by (auto simp: into_def wp_iff pf_sem_TLs)
  qed
  have upd: "wp (map_option (Pair DoneDF) (pf_upd m (c, u))) (\<lambda>(a, s'). a = (DoneDF :: 'e df_answer) \<and>
      pf_step \<alpha> I 2 (c, u) ((pf_sem \<alpha> (c, u))(TLs k := A)) s' \<and> card (in_slots (pf_ents s')) \<le> card (in_slots (pf_ents (c, u))) + 1)"
    if "n \<le> 2" and m: "wp (m (c, pf_persPTData u)) (pp_stepn \<alpha> I n (c, pf_persPTData u) ((pp_pts \<alpha> (c, pf_persPTData u))(k := A)))"
    for n m k A
  proof -
    have "wp (pf_upd m (c, u)) (\<lambda>s'. pf_step \<alpha> I 2 (c, u) ((pf_sem \<alpha> (c, u))(TLs k := A)) s' \<and> pf_ents s' = pf_ents (c, u))"
      by (rule pf_upd_ok[where m = m and g = "(pp_pts \<alpha> (c, pf_persPTData u))(k := A)", OF t that(1)])
        (use m in \<open>simp_all add: pf_sem_TLs\<close>)
    then show ?thesis by (auto simp: wp_iff)
  qed
  show ?thesis
  proof (cases x)
    case (GetTL k)
    then show ?thesis using read[of k] by (auto simp: s pf_ops_def wp_iff)
  next
    case (GetIN l k)
    then show ?thesis
      using pf_read_ok[OF t, of "INs l k" 2] one by (auto simp: s pf_ops_def wp_iff pf_getDFInPtsSet_def pf_id_def pf_ref_def)
  next
    case (GetOUT l k)
    then show ?thesis
      using pf_read_ok[OF t, of "OUTs l k" 2] by (auto simp: s pf_ops_def wp_iff pf_getDFOutPtsSet_def pf_id_def pf_ref_def)
  next
    case (AddTL k e)
    then show ?thesis using into[where n = 2 and m = "pp_addPts D k e" and k = k and A = "{e}"] pp_addPts_ok[OF p _ r(1), of e k] c(2) by (simp add: s pf_ops_def)
  next
    case (UnionTL k k')
    then show ?thesis using into[where n = 1 and m = "pp_unionPts D k k'" and k = k and A = "pp_pts \<alpha> (c, pf_persPTData u) k'"] pp_unionPts_ok[OF p r(2), of k k'] by (simp add: s pf_ops_def pf_sem_TLs)
  next
    case (UnionDataTL k d)
    then show ?thesis using into[where n = 2 and m = "pp_unionData D k d" and k = k and A = "\<alpha> d"] pp_unionData_ok[OF p _ r(1), of d k] c(2) by (simp add: s pf_ops_def)
  next
    case (ClearTL k e)
    then show ?thesis using upd[where n = 2 and m = "pp_clearPts D k e" and k = k and A = "pp_pts \<alpha> (c, pf_persPTData u) k - {e}"] pp_clearPts_ok[OF p _ r(1), of e k] c(2) by (simp add: s pf_ops_def pf_sem_TLs)
  next
    case (ClearFullTL k)
    then show ?thesis using upd[where n = 0 and m = "pp_clearFullPts D k" and k = k and A = "{}"] pp_clearFullPts_ok[OF p, of k] by (simp add: s pf_ops_def)
  next
    case Remap
    then show ?thesis using pf_remap_ok[OF t] by (auto simp: s pf_ops_def wp_iff)
  qed (use c in simp_all)
qed

end

context canonical_data_set
begin

theorem pf_slot_store:
  "slot_store (pf_ops D) (pf_slots D) \<alpha> (df_op_ok ok I (kok :: 'k \<Rightarrow> bool)) (pf_inv \<alpha> I) (pf_sem \<alpha>) pf_ents pf_room"
proof
  fix s :: "'d pt_cache \<times> ('k, 'e) pers_df" and x y :: "'k slot" and c :: "('k, 'e, 'd) df_op" and k k' :: 'k and l n m :: nat
  obtain h t where s: "s = (h, t)" by fastforce
  show "pf_room s m \<Longrightarrow> n \<le> m \<Longrightarrow> pf_room s n" by (simp add: pf_room_def pc_room_def)
  show "finite (in_slots (pf_ents s))" using finite_nhas by (simp add: in_slots_def)
  assume inv: "pf_inv \<alpha> I s"
  note t = inv[unfolded s]
  have un: "wp (pf_unionPtsThroughIds D x y (h, t)) (\<lambda>(b, s'). (b \<longleftrightarrow> \<not> pf_sem \<alpha> s y \<subseteq> pf_sem \<alpha> s x) \<and>
      pf_step \<alpha> I 1 s ((pf_sem \<alpha> s)(x := pf_sem \<alpha> s x \<union> pf_sem \<alpha> s y)) s' \<and> pf_ents s' = pf_ents s \<union> {x, y})"
    if "pf_room s 1" for x y using pf_union_ok[OF t, of x y] that by (simp add: s pf_room_def)
  have "pc_has \<alpha> h 0 {}" using pc_has_empty[of \<alpha> I h] t pp_inv_parts(1)[of \<alpha> I h "pf_persPTData t"]
    by (simp add: pf_inv_def emptyPointsToId_def)
  then have zero: "\<alpha> (pc_idToPts h ! 0) = {}" by (simp add: pc_has_def)
  show "x \<notin> pf_ents s \<Longrightarrow> pf_sem \<alpha> s x = {}"
    using zero by (cases x) (simp_all add: s pf_sem_def pf_id_def nget_not_nhas)
  show "wp (so_union (pf_slots D) x y s) (\<lambda>(b, s'). (b \<longleftrightarrow> \<not> pf_sem \<alpha> s y \<subseteq> pf_sem \<alpha> s x) \<and>
      pf_step \<alpha> I 1 s ((pf_sem \<alpha> s)(x := pf_sem \<alpha> s x \<union> pf_sem \<alpha> s y)) s' \<and> pf_ents s' = pf_ents s \<union> {x, y})"
    if "pf_room s 1" using un[OF that] by (simp add: pf_slots_def s)
  show "wp (so_tlv (pf_slots D) l k k' s) (\<lambda>(b, s'). (b \<longleftrightarrow> \<not> pf_sem \<alpha> s (INs l k) \<subseteq> pf_sem \<alpha> s (TLs k')) \<and>
      pf_step \<alpha> I 2 s ((pf_sem \<alpha> s)(TLs k' := pf_sem \<alpha> s (TLs k') \<union> pf_sem \<alpha> s (INs l k))) s' \<and>
      pf_ents s' = pf_ents s \<union> {TLs k', INs l k})"
    if "pf_room s 2"
  proof -
    have "pf_room s 1" using that by (simp add: pf_room_def pc_room_def)
    from un[OF this] pf_step_le[of 1 s _ _ 2] show ?thesis by (fastforce simp: pf_slots_def s wp_iff)
  qed
  have i: "nmap_ok (\<lambda>i. i < length (pc_idToPts h)) (pf_dfInPtsMap t)" "nmap_ok (\<lambda>i. i < length (pc_idToPts h)) (pf_dfOutPtsMap t)"
    using t by (simp_all add: pf_inv_def pf_ids_def)
  show "so_hasIn (pf_slots D) l s \<longleftrightarrow> (\<exists>k. INs l k \<in> pf_ents s)"
    using nmap_outer[OF i(1), of l] by (simp add: pf_slots_def pf_hasDFInSet_def s)
  show "so_hasOut (pf_slots D) l s \<longleftrightarrow> (\<exists>k. OUTs l k \<in> pf_ents s)"
    using nmap_outer[OF i(2), of l] by (simp add: pf_slots_def pf_hasDFOutSet_def s)
  show "distinct (so_vars (pf_slots D) l s)" "List.set (so_vars (pf_slots D) l s) = {k. INs l k \<in> pf_ents s}"
    using nmap_vars[OF i(1), of l] by (simp_all add: pf_slots_def s)
  show "wp (df_run1 (pf_ops D) \<alpha> c s) (\<lambda>(a, s'). a = fst (full_run1 \<alpha> c (pf_sem \<alpha> s)) \<and>
      pf_step \<alpha> I 2 s (snd (full_run1 \<alpha> c (pf_sem \<alpha> s))) s' \<and>
      card (in_slots (pf_ents s')) \<le> card (in_slots (pf_ents s)) + 1)"
    if "pf_room s 2" "plain_op c" "df_op_ok ok I kok c"
    by (rule pf_plain[OF inv that])
qed (simp_all add: pf_ops_def pf_slots_def pf_updateDFInFromIn_def pf_updateAllDFInFromIn_def pf_updateDFInFromOut_def
    pf_updateAllDFInFromOut_def pf_updateDFOutFromIn_def[abs_def] pf_updateAllDFOutFromIn_def pf_clearAllDFOutUpdatedVar_def
    pf_updateTLVPts_def pf_updateATVPts_def split_beta)

end

lemma df_op_ok_True: "df_op_ok (\<lambda>_. True) (\<lambda>_. True) (\<lambda>_. True) c"
  by (cases c) simp_all

lemma key_vars_var_set: "var_set key_vars set (\<lambda>u. distinct u) (\<lambda>_. True)"
  by unfold_locales (simp_all add: key_vars_def)

context canonical_data_set
begin

theorem pi_inc_store:
  "inc_store (pf_ops D) (pf_slots D) \<alpha> (df_op_ok ok I (kok :: 'k \<Rightarrow> bool)) (pf_inv \<alpha> I) (pf_sem \<alpha>) pf_ents pf_room key_vars
    List.set (\<lambda>u. distinct u) (\<lambda>_. True) (df_op_ok ok I kok)"
  by (rule inc_store.intro[OF pf_slot_store key_vars_var_set inc_store_axioms.intro]) (simp add: df_op_ok_True)

end

interpretation pers_df: slot_store "pf_ops (pts_ops (initial_env SBV h))" "pf_slots (pts_ops (initial_env SBV h))"
    "pts_of (initial_env SBV h)" "df_op_ok (run_ok (initial_env SBV h)) (run_inv (initial_env SBV h)) (\<lambda>_. True)"
    "pf_inv (pts_of (initial_env SBV h)) (run_inv (initial_env SBV h))" "pf_sem (pts_of (initial_env SBV h))" pf_ents pf_room for h
  by (rule pts.pf_slot_store)

interpretation key_set: var_set key_vars set "\<lambda>u. distinct u" "\<lambda>_. True"
  by (rule key_vars_var_set)

interpretation pers_inc: inc_store "pf_ops (pts_ops (initial_env SBV h))" "pf_slots (pts_ops (initial_env SBV h))"
    "pts_of (initial_env SBV h)" "df_op_ok (run_ok (initial_env SBV h)) (run_inv (initial_env SBV h)) (\<lambda>_. True)"
    "pf_inv (pts_of (initial_env SBV h)) (run_inv (initial_env SBV h))" "pf_sem (pts_of (initial_env SBV h))" pf_ents pf_room
    key_vars set "\<lambda>u. distinct u" "\<lambda>_. True"
    "df_op_ok (run_ok (initial_env SBV h)) (run_inv (initial_env SBV h)) (\<lambda>_. True)" for h
  by (rule pts.pi_inc_store)

subsection \<open>Runs on new tables\<close>

text \<open>The 32-bit numbers must leave room for the sets that a run of \<open>n\<close> operations can make.\<close>

definition df_room :: "'d pt_cache \<Rightarrow> nat \<Rightarrow> bool" where
  "df_room c n \<longleftrightarrow> length (pc_idToPts c) + n * (2 + 2 * n) \<le> 2 ^ 32"

lemma pf_new_ok:
  assumes "pc_inv \<alpha> I c"
  shows "pf_inv \<alpha> I (c, pf_new False)" "pf_sem \<alpha> (c, pf_new False) = (\<lambda>_. {})" "in_slots (pf_ents (c, pf_new rv)) = {}"
    "INs l k \<notin> pf_ents (c, pf_new rv)" "OUTs l k \<notin> pf_ents (c, pf_new rv)"
proof -
  have "pc_has \<alpha> c 0 {}" using pc_has_empty[OF assms] by (simp add: emptyPointsToId_def)
  then have "pf_sem \<alpha> (c, pf_new False) x = {}" for x
    by (simp add: pf_sem_def pf_id_def pf_new_def pp_new_def pc_has_def nget_def split: slot.split)
  then show "pf_sem \<alpha> (c, pf_new False) = (\<lambda>_. {})" by blast
qed (use pp_new_ok[OF assms, of False] in \<open>simp_all add: pf_inv_def pf_new_def pf_ids_def in_slots_def\<close>)

lemma pf_run_ok:
  assumes "pc_inv (pts_of (initial_env SBV h)) (run_inv (initial_env SBV h)) c" "df_room c (length xs)"
    and "list_all (df_op_ok (run_ok (initial_env SBV h)) (run_inv (initial_env SBV h)) (\<lambda>_. True)) xs"
  shows "map_option fst (df_run (pf_ops (pts_ops (initial_env SBV h))) (pts_of (initial_env SBV h)) xs (c, pf_new False)) =
    Some (fst (spec_df_run (full_run1 (pts_of (initial_env SBV h))) xs (\<lambda>_. {})))"
proof -
  let ?E = "initial_env SBV h"
  note n = pf_new_ok[OF assms(1)]
  have room: "pf_room (c, pf_new False) (length xs * (2 + card (in_slots (pf_ents (c, pf_new False))) + 2 * length xs))"
    using assms(2) by (simp add: n(3) df_room_def pf_room_def pc_room_def)
  obtain rs s where "df_run (pf_ops (pts_ops ?E)) (pts_of ?E) xs (c, pf_new False) = Some (rs, s)"
    "(rs, pf_sem (pts_of ?E) s) = spec_df_run (full_run1 (pts_of ?E)) xs (\<lambda>_. {})"
    using pers_df.full.run_ok[OF n(1) room assms(3)] unfolding n(2) by (auto simp: wp_iff)
  then show ?thesis by (metis fst_conv option.simps(9))
qed

lemma pi_run_ok:
  assumes "pc_inv (pts_of (initial_env SBV h)) (run_inv (initial_env SBV h)) c" "df_room c (length xs)"
    and "list_all (df_op_ok (run_ok (initial_env SBV h)) (run_inv (initial_env SBV h)) (\<lambda>_. True)) xs"
  shows "map_option fst (df_run (pi_ops (pts_ops (initial_env SBV h))) (pts_of (initial_env SBV h)) xs (pi_new c False)) =
    Some (fst (spec_df_run (inc_run1 (pts_of (initial_env SBV h))) xs inc_spec_new))"
proof -
  let ?E = "initial_env SBV h"
  note n = pf_new_ok[OF assms(1)]
  have none: "upd_vars key_vars set [] l = {}" for l by (simp add: upd_vars_def key_vars_def)
  have inv: "inc_inv (pf_inv (pts_of ?E) (run_inv ?E)) pf_ents key_vars set (\<lambda>u. distinct u) (pi_new c False)"
    using n(1) by (simp add: inc_inv_def pi_new_def upd_inv_def none key_set.new)
  have sem: "inc_sem (pf_sem (pts_of ?E)) key_vars set (pi_new c False) = inc_spec_new"
    using n(2) by (simp add: inc_sem_def inc_spec_new_def pi_new_def fun_eq_iff none)
  have room: "pf_room (id_base (pi_new c False)) (length xs * (2 + card (in_slots (pf_ents (id_base (pi_new c False)))) + 2 * length xs))"
    using assms(2) by (simp add: n(3) df_room_def pf_room_def pc_room_def pi_new_def)
  obtain rs s where "df_run (pi_ops (pts_ops ?E)) (pts_of ?E) xs (pi_new c False) = Some (rs, s)"
    "(rs, inc_sem (pf_sem (pts_of ?E)) key_vars set s) = spec_df_run (inc_run1 (pts_of ?E)) xs inc_spec_new"
    using pers_inc.inc.run_ok[OF inv room assms(3)] unfolding sem pi_ops_def by (auto simp: wp_iff)
  then show ?thesis by (metis fst_conv option.simps(9))
qed

text \<open>A run with restricted keys is one without.\<close>

lemma df_ops_ok_keys: "list_all (df_op_ok ok I kok) xs \<Longrightarrow> list_all (df_op_ok ok I (\<lambda>_. True)) xs"
proof (induction xs)
  case (Cons x xs)
  then show ?case by (cases x) simp_all
qed simp

end
