(* ===== verification/Points_To_Counts.thy ===== *)
theory Points_To_Counts
  imports Persistent_DF_PT_Data
begin

text \<open>
  \<^verbatim>\<open>getAllPts\<close>: how often each set is stored, on which the clustering of node numbers is based. The counts
  are \<^verbatim>\<open>unsigned\<close> and wrap around. The tables that are modelled in other theories have their \<^verbatim>\<open>getAllPts\<close>
  there; those of the versioned tables, which merge the counts of two tables, are here.
\<close>

subsection \<open>The versioned tables\<close>

definition mv_getAllPts :: "('d, 'e) data_ops \<Rightarrow> ('k, 'v, 'e, 'd) mut_versioned \<Rightarrow> ('d \<times> nat) list option" where
  "mv_getAllPts D t = do {
     allPts \<leftarrow> mp_getAllPts D (mv_tlPTData t);
     atPts \<leftarrow> mp_getAllPts D (mv_atPTData t);
     mergePtsOccMaps D allPts atPts }"

definition pv_getAllPts :: "('d, 'e) data_ops \<Rightarrow> bool \<Rightarrow> 'd pt_cache \<times> ('k, 'v, 'e) pers_versioned \<Rightarrow>
    ('d \<times> nat) list option" where
  "pv_getAllPts D liveOnly s = (case s of (c, t) \<Rightarrow> do {
     allPts \<leftarrow> pp_getAllPts D True (c, pv_tlPTData t);
     atPts \<leftarrow> pp_getAllPts D True (c, pv_atPTData t);
     allPts \<leftarrow> mergePtsOccMaps D allPts atPts;
     if liveOnly then Some allPts
     else do {
       cached \<leftarrow> pc_getAllPts D c;
       mergePtsOccMaps D (map (\<lambda>(d, n). (d, (n + (2 ^ 32 - 1)) mod 2 ^ 32)) allPts) cached } })"

subsection \<open>What a map of counts means\<close>

definition occ :: "('d \<Rightarrow> 'e set) \<Rightarrow> ('d \<times> nat) list \<Rightarrow> 'e set \<Rightarrow> nat" where
  "occ \<alpha> m S = (case dmap \<alpha> m S of None \<Rightarrow> 0 | Some n \<Rightarrow> n)"

text \<open>Keys stand for different sets, counts fit.\<close>

definition occ_inv :: "('d \<Rightarrow> 'e set) \<Rightarrow> ('d \<Rightarrow> bool) \<Rightarrow> ('d \<times> nat) list \<Rightarrow> bool" where
  "occ_inv \<alpha> I m \<longleftrightarrow> dmap_inv I m \<and> distinct (map (\<alpha> \<circ> fst) m) \<and> (\<forall>S. occ \<alpha> m S < 2 ^ 32)"

lemma occ_Nil [simp]: "occ \<alpha> [] S = 0" "occ_inv \<alpha> I []"
  by (simp_all add: occ_def occ_inv_def)

lemma dmap_dom: "dmap \<alpha> m S \<noteq> None \<longleftrightarrow> S \<in> set (map (\<alpha> \<circ> fst) m)"
  by (induction m) (auto simp: split_beta)

lemma occ_upd: "dmap \<alpha> m' = (dmap \<alpha> m)(S \<mapsto> n) \<Longrightarrow> occ \<alpha> m' T = (if T = S then n else occ \<alpha> m T)"
  by (simp add: occ_def)

context canonical_data_set
begin

lemma dput_distinct:
  "dmap_inv I m \<Longrightarrow> I k \<Longrightarrow> distinct (map (\<alpha> \<circ> fst) m) \<Longrightarrow>
   wp (dput D k v m) (\<lambda>m'. distinct (map (\<alpha> \<circ> fst) m') \<and> set (map (\<alpha> \<circ> fst) m') = insert (\<alpha> k) (set (map (\<alpha> \<circ> fst) m)))"
proof (induction m)
  case Nil
  then show ?case by (simp add: copy)
next
  case (Cons kv m)
  obtain k' v' where kv: "kv = (k', v')" by fastforce
  then show ?case
    using Cons by (cases "\<alpha> k' = \<alpha> k") (auto simp: same wp_iff)
qed

text \<open>One count set.\<close>

lemma dput_occ:
  assumes m: "occ_inv \<alpha> I m" and k: "I k" and n: "n < 2 ^ 32"
  shows "wp (dput D k n m) (\<lambda>m'. occ_inv \<alpha> I m' \<and> (\<forall>S. occ \<alpha> m' S = (if S = \<alpha> k then n else occ \<alpha> m S)) \<and>
    set (map (\<alpha> \<circ> fst) m') = insert (\<alpha> k) (set (map (\<alpha> \<circ> fst) m)))"
proof -
  have p: "dmap_inv I m" "distinct (map (\<alpha> \<circ> fst) m)" "\<And>S. occ \<alpha> m S < 2 ^ 32" using m by (simp_all add: occ_inv_def)
  obtain m' where m': "dput D k n m = Some m'" "dmap_inv I m'" "dmap \<alpha> m' = (dmap \<alpha> m)(\<alpha> k \<mapsto> n)"
    "distinct (map (\<alpha> \<circ> fst) m')" "set (map (\<alpha> \<circ> fst) m') = insert (\<alpha> k) (set (map (\<alpha> \<circ> fst) m))"
    using dput_ok[OF p(1) k, of n] dput_distinct[OF p(1) k p(2), of n] unfolding wp_iff by force
  then show ?thesis using p(3) n by (simp add: occ_inv_def occ_upd[OF m'(3)])
qed

lemma count_pts_ok:
  assumes m: "occ_inv \<alpha> I m" and d: "I d"
  shows "wp (count_pts D d m) (\<lambda>m'. occ_inv \<alpha> I m' \<and>
    (\<forall>S. occ \<alpha> m' S = (if S = \<alpha> d then (occ \<alpha> m S + 1) mod 2 ^ 32 else occ \<alpha> m S)) \<and>
    set (map (\<alpha> \<circ> fst) m') = insert (\<alpha> d) (set (map (\<alpha> \<circ> fst) m)))"
proof -
  have p: "dmap_inv I m" using m by (simp add: occ_inv_def)
  let ?n = "case dmap \<alpha> m (\<alpha> d) of None \<Rightarrow> 1 | Some n \<Rightarrow> (n + 1) mod 2 ^ 32"
  have n: "?n = (occ \<alpha> m (\<alpha> d) + 1) mod 2 ^ 32" by (simp add: occ_def split: option.split)
  then have "?n < 2 ^ 32" by simp
  from dput_occ[OF m d this] show ?thesis
    unfolding count_pts_def by (simp add: dfind_ok[OF p d]) (erule wp_mono, simp add: occ_def split: option.split)
qed

text \<open>The sets of a list counted.\<close>

lemma count_all_ok:
  assumes m: "occ_inv \<alpha> I m" and ds: "\<And>x. x \<in> List.set xs \<Longrightarrow> wp (f x) (\<lambda>d. I d \<and> \<alpha> d = g x)"
  shows "wp (foldM (\<lambda>x m. do { d \<leftarrow> f x; count_pts D d m }) xs m) (\<lambda>m'. occ_inv \<alpha> I m' \<and>
    (\<forall>S. occ \<alpha> m' S = (occ \<alpha> m S + count_list (map g xs) S) mod 2 ^ 32) \<and>
    set (map (\<alpha> \<circ> fst) m') = set (map (\<alpha> \<circ> fst) m) \<union> g ` List.set xs)"
proof (rule foldM_wp)
  show "occ_inv \<alpha> I m \<and> (\<forall>S. occ \<alpha> m S = (occ \<alpha> m S + count_list (map g []) S) mod 2 ^ 32) \<and>
      set (map (\<alpha> \<circ> fst) m) = set (map (\<alpha> \<circ> fst) m) \<union> g ` List.set []"
    using m by (simp add: occ_inv_def)
next
  fix ys x zs t
  assume xs: "xs = ys @ x # zs" and t: "occ_inv \<alpha> I t \<and> (\<forall>S. occ \<alpha> t S = (occ \<alpha> m S + count_list (map g ys) S) mod 2 ^ 32) \<and>
    set (map (\<alpha> \<circ> fst) t) = set (map (\<alpha> \<circ> fst) m) \<union> g ` List.set ys"
  have "x \<in> List.set xs" by (simp add: xs)
  from ds[OF this] obtain d where d: "f x = Some d" "I d" "\<alpha> d = g x" by (auto simp: wp_iff)
  from t have "occ_inv \<alpha> I t" by blast
  from count_pts_ok[OF this d(2)] show "wp (do { d \<leftarrow> f x; count_pts D d t }) (\<lambda>m'. occ_inv \<alpha> I m' \<and>
      (\<forall>S. occ \<alpha> m' S = (occ \<alpha> m S + count_list (map g (ys @ [x])) S) mod 2 ^ 32) \<and>
      set (map (\<alpha> \<circ> fst) m') = set (map (\<alpha> \<circ> fst) m) \<union> g ` List.set (ys @ [x]))"
    using t d(1,3) by (auto simp: wp_iff mod_simps)
qed

end

context canonical_data_set
begin

lemma occ_snoc:
  assumes "\<alpha> d \<notin> set (map (\<alpha> \<circ> fst) m)"
  shows "occ \<alpha> (m @ [(d, n)]) S = (if S = \<alpha> d then n else occ \<alpha> m S)"
proof -
  have "dmap \<alpha> m (\<alpha> d) = None" using assms dmap_dom[of \<alpha> m "\<alpha> d"] by blast
  then show ?thesis by (simp add: occ_def dmap_def map_add_def split: option.split)
qed

text \<open>Counts merged.\<close>

lemma merge_ok:
  assumes "occ_inv \<alpha> I m" and "occ_inv \<alpha> I m'"
  shows "wp (mergePtsOccMaps D m m') (\<lambda>r. occ_inv \<alpha> I r \<and> (\<forall>S. occ \<alpha> r S = (occ \<alpha> m S + occ \<alpha> m' S) mod 2 ^ 32) \<and>
    set (map (\<alpha> \<circ> fst) r) = set (map (\<alpha> \<circ> fst) m) \<union> set (map (\<alpha> \<circ> fst) m'))"
  unfolding mergePtsOccMaps_def
proof (rule foldM_wp)
  show "occ_inv \<alpha> I m \<and> (\<forall>S. occ \<alpha> m S = (occ \<alpha> m S + occ \<alpha> [] S) mod 2 ^ 32) \<and>
      set (map (\<alpha> \<circ> fst) m) = set (map (\<alpha> \<circ> fst) m) \<union> set (map (\<alpha> \<circ> fst) [])"
    using assms(1) by (simp add: occ_inv_def)
next
  fix ys x zs t
  assume split: "m' = ys @ x # zs" and t: "occ_inv \<alpha> I t \<and> (\<forall>S. occ \<alpha> t S = (occ \<alpha> m S + occ \<alpha> ys S) mod 2 ^ 32) \<and>
    set (map (\<alpha> \<circ> fst) t) = set (map (\<alpha> \<circ> fst) m) \<union> set (map (\<alpha> \<circ> fst) ys)"
  obtain d n where x: "x = (d, n)" by fastforce
  have d: "I d" "\<alpha> d \<notin> set (map (\<alpha> \<circ> fst) ys)"
    using assms(2) by (auto simp: occ_inv_def split x dmap_inv_def)
  have ti: "occ_inv \<alpha> I t" "dmap_inv I t" using t by (simp_all add: occ_inv_def)
  have "dmap \<alpha> ys (\<alpha> d) = None" using d(2) dmap_dom[of \<alpha> ys "\<alpha> d"] by blast
  then have z: "occ \<alpha> t (\<alpha> d) = occ \<alpha> m (\<alpha> d) mod 2 ^ 32" using t by (simp add: occ_def)
  let ?n = "((case dmap \<alpha> t (\<alpha> d) of None \<Rightarrow> 0 | Some k \<Rightarrow> k) + n) mod 2 ^ 32"
  have n: "?n = (occ \<alpha> m (\<alpha> d) + n) mod 2 ^ 32" using z by (simp add: occ_def[symmetric] mod_simps)
  have "?n < 2 ^ 32" by simp
  from dput_occ[OF ti(1) d(1) this] have
    "wp (dput D d ?n t) (\<lambda>r. occ_inv \<alpha> I r \<and> (\<forall>S. occ \<alpha> r S = (occ \<alpha> m S + occ \<alpha> (ys @ [x]) S) mod 2 ^ 32) \<and>
      set (map (\<alpha> \<circ> fst) r) = set (map (\<alpha> \<circ> fst) m) \<union> set (map (\<alpha> \<circ> fst) (ys @ [x])))"
    by (rule wp_mono) (use t n in \<open>auto simp: x occ_snoc[OF d(2)]\<close>)
  then show "wp ((case x of (d, n) \<Rightarrow> \<lambda>to. do { old \<leftarrow> dfind D d to;
      dput D d (((case old of None \<Rightarrow> 0 | Some m \<Rightarrow> m) + n) mod 2 ^ 32) to }) t) (\<lambda>r. occ_inv \<alpha> I r \<and>
      (\<forall>S. occ \<alpha> r S = (occ \<alpha> m S + occ \<alpha> (ys @ [x]) S) mod 2 ^ 32) \<and>
      set (map (\<alpha> \<circ> fst) r) = set (map (\<alpha> \<circ> fst) m) \<union> set (map (\<alpha> \<circ> fst) (ys @ [x])))"
    by (simp add: x dfind_ok[OF ti(2) d(1)])
qed

text \<open>Every set of the cache once.\<close>

lemma cache_counts_ok:
  assumes "list_all I ds"
  shows "wp (foldM (\<lambda>d m. dput D d 1 m) ds []) (\<lambda>m. occ_inv \<alpha> I m \<and>
    (\<forall>S. occ \<alpha> m S = (if S \<in> \<alpha> ` List.set ds then 1 else 0)) \<and> set (map (\<alpha> \<circ> fst) m) = \<alpha> ` List.set ds)"
proof (rule foldM_wp)
  fix ys x zs t
  assume split: "ds = ys @ x # zs" and t: "occ_inv \<alpha> I t \<and> (\<forall>S. occ \<alpha> t S = (if S \<in> \<alpha> ` List.set ys then 1 else 0)) \<and>
    set (map (\<alpha> \<circ> fst) t) = \<alpha> ` List.set ys"
  have "I x" using assms split by simp
  moreover from t have "occ_inv \<alpha> I t" by blast
  ultimately have "wp (dput D x 1 t) (\<lambda>m'. occ_inv \<alpha> I m' \<and> (\<forall>S. occ \<alpha> m' S = (if S = \<alpha> x then 1 else occ \<alpha> t S)) \<and>
      set (map (\<alpha> \<circ> fst) m') = insert (\<alpha> x) (set (map (\<alpha> \<circ> fst) t)))"
    using dput_occ[of t x 1] by simp
  then show "wp (dput D x 1 t) (\<lambda>m. occ_inv \<alpha> I m \<and> (\<forall>S. occ \<alpha> m S = (if S \<in> \<alpha> ` List.set (ys @ [x]) then 1 else 0)) \<and>
      set (map (\<alpha> \<circ> fst) m) = \<alpha> ` List.set (ys @ [x]))"
    by (rule wp_mono) (use t in auto)
qed simp

lemma pc_getAllPts_ok:
  "pc_inv \<alpha> I c \<Longrightarrow> wp (pc_getAllPts D c) (\<lambda>m. occ_inv \<alpha> I m \<and>
    (\<forall>S. occ \<alpha> m S = (if \<exists>i. pc_has \<alpha> c i S then 1 else 0)) \<and> set (map (\<alpha> \<circ> fst) m) = {S. \<exists>i. pc_has \<alpha> c i S})"
proof -
  assume "pc_inv \<alpha> I c"
  then have I: "list_all I (pc_idToPts c)" by (simp add: pc_inv_def pc_core_def)
  have eq: "\<alpha> ` List.set (pc_idToPts c) = {S. \<exists>i. pc_has \<alpha> c i S}"
    by (auto simp: pc_has_def set_conv_nth)
  show ?thesis unfolding pc_getAllPts_def using cache_counts_ok[OF I] by (simp add: eq)
qed

text \<open>The entries of one map of a table.\<close>

lemma count_map_ok:
  assumes "occ_inv \<alpha> I m" "\<forall>(k, d) \<in> List.set xs. I d"
  shows "wp (count_map D xs m) (\<lambda>m'. occ_inv \<alpha> I m' \<and>
    (\<forall>S. occ \<alpha> m' S = (occ \<alpha> m S + count_list (map (\<alpha> \<circ> snd) xs) S) mod 2 ^ 32) \<and>
    set (map (\<alpha> \<circ> fst) m') = set (map (\<alpha> \<circ> fst) m) \<union> (\<alpha> \<circ> snd) ` List.set xs)"
proof -
  have eq: "count_map D xs m = foldM (\<lambda>x m. do { d \<leftarrow> Some (snd x); count_pts D d m }) xs m"
    by (simp add: count_map_def split_def)
  show ?thesis unfolding eq by (rule count_all_ok[OF assms(1)]) (use assms(2) in auto)
qed

lemma count_ids_ok:
  assumes "pc_inv \<alpha> I c" "occ_inv \<alpha> I m" "\<forall>(k, i) \<in> List.set xs. i < length (pc_idToPts c)"
  shows "wp (count_ids D c xs m) (\<lambda>m'. occ_inv \<alpha> I m' \<and>
    (\<forall>S. occ \<alpha> m' S = (occ \<alpha> m S + count_list (map (\<lambda>x. \<alpha> (pc_idToPts c ! snd x)) xs) S) mod 2 ^ 32) \<and>
    set (map (\<alpha> \<circ> fst) m') = set (map (\<alpha> \<circ> fst) m) \<union> (\<lambda>x. \<alpha> (pc_idToPts c ! snd x)) ` List.set xs)"
proof -
  have eq: "count_ids D c xs m = foldM (\<lambda>x m. do { d \<leftarrow> pc_getActualPts (snd x) c; count_pts D d m }) xs m"
    by (simp add: count_ids_def split_def)
  show ?thesis unfolding eq
  proof (rule count_all_ok[OF assms(2)])
    fix x assume "x \<in> List.set xs"
    then have "pc_has \<alpha> c (snd x) (\<alpha> (pc_idToPts c ! snd x))" using assms(3) by (auto simp: pc_has_def)
    from pc_getActualPts_ok[OF assms(1) this]
    show "wp (pc_getActualPts (snd x) c) (\<lambda>d. I d \<and> \<alpha> d = \<alpha> (pc_idToPts c ! snd x))" .
  qed
qed

end

subsection \<open>The counts of the tables\<close>

text \<open>How many keys of a map have the set; the maps have one entry for each key.\<close>

definition key_count :: "('k \<Rightarrow> 'e set) \<Rightarrow> ('k \<times> 'v) list \<Rightarrow> 'e set \<Rightarrow> nat" where
  "key_count f m S = card {k \<in> fst ` set m. f k = S}"

lemma count_list_keys:
  assumes "distinct (map fst m)" "\<And>k v. (k, v) \<in> set m \<Longrightarrow> f k = g v"
  shows "count_list (map (\<lambda>x. g (snd x)) m) S = key_count f m S"
  using assms
proof (induction m)
  case (Cons x m)
  obtain k v where x: "x = (k, v)" by fastforce
  have k: "k \<notin> fst ` set m" "f k = g v" using Cons.prems by (auto simp: x)
  have "key_count f (x # m) S = (if g v = S then Suc (key_count f m S) else key_count f m S)"
  proof (cases "g v = S")
    case True
    then have "{k' \<in> fst ` set (x # m). f k' = S} = insert k {k' \<in> fst ` set m. f k' = S}" using k by (auto simp: x)
    then show ?thesis using True k by (simp add: key_count_def)
  next
    case False
    then have "{k' \<in> fst ` set (x # m). f k' = S} = {k' \<in> fst ` set m. f k' = S}" using k by (auto simp: x)
    then show ?thesis using False by (simp add: key_count_def)
  qed
  then show ?case using Cons by (auto simp: x)
qed (simp add: key_count_def)

lemma key_count_pos: "(\<exists>k \<in> fst ` set m. f k = S) \<longleftrightarrow> 0 < key_count f m S"
  by (auto simp: key_count_def card_gt_0_iff)

context canonical_data_set
begin

lemma mp_counts_ok:
  assumes "mp_inv \<alpha> I t"
  shows "wp (mp_getAllPts D t) (\<lambda>m. occ_inv \<alpha> I m \<and>
    (\<forall>S. occ \<alpha> m S = key_count (mp_pts \<alpha> t) (mp_ptsMap t) S mod 2 ^ 32))"
proof -
  have i: "distinct (map fst (mp_ptsMap t))" "\<forall>(k, d) \<in> List.set (mp_ptsMap t). I d"
    using assms by (simp_all add: mp_inv_def map_inv_def)
  have "mp_pts \<alpha> t k = \<alpha> d" if "(k, d) \<in> List.set (mp_ptsMap t)" for k d
    using map_of_is_SomeI[OF i(1) that] by (simp add: mp_pts_def map_pts_def)
  from count_list_keys[OF i(1), of "mp_pts \<alpha> t" \<alpha>, OF this] count_map_ok[OF _ i(2), of "[]"] show ?thesis
    by (auto simp: mp_getAllPts_def comp_def elim!: wp_mono)
qed

lemma mv_counts_ok:
  assumes "mv_inv \<alpha> I t"
  shows "wp (mv_getAllPts D t) (\<lambda>m. occ_inv \<alpha> I m \<and>
    (\<forall>S. occ \<alpha> m S = (key_count (mp_pts \<alpha> (mv_tlPTData t)) (mp_ptsMap (mv_tlPTData t)) S +
      key_count (mp_pts \<alpha> (mv_atPTData t)) (mp_ptsMap (mv_atPTData t)) S) mod 2 ^ 32))"
proof -
  have i: "mp_inv \<alpha> I (mv_tlPTData t)" "mp_inv \<alpha> I (mv_atPTData t)" using assms by (simp_all add: mv_inv_def)
  obtain m m' where "mp_getAllPts D (mv_tlPTData t) = Some m" "mp_getAllPts D (mv_atPTData t) = Some m'"
    "occ_inv \<alpha> I m" "occ_inv \<alpha> I m'"
    "\<And>S. occ \<alpha> m S = key_count (mp_pts \<alpha> (mv_tlPTData t)) (mp_ptsMap (mv_tlPTData t)) S mod 2 ^ 32"
    "\<And>S. occ \<alpha> m' S = key_count (mp_pts \<alpha> (mv_atPTData t)) (mp_ptsMap (mv_atPTData t)) S mod 2 ^ 32"
    using mp_counts_ok[OF i(1)] mp_counts_ok[OF i(2)] unfolding wp_iff by blast
  with merge_ok[of m m'] show ?thesis by (auto simp: mv_getAllPts_def mod_simps elim!: wp_mono)
qed

lemma pp_entry:
  assumes "pp_inv \<alpha> I (c, t)" "distinct (map fst (pp_ptsMap t))" "(k, i) \<in> List.set (pp_ptsMap t)"
  shows "i < length (pc_idToPts c)" "pp_pts \<alpha> (c, t) k = \<alpha> (pc_idToPts c ! i)"
proof -
  have e: "aget 0 (pp_ptsMap t) k = i" using map_of_is_SomeI[OF assms(2,3)] by (simp add: aget_def)
  show "i < length (pc_idToPts c)" using pp_inv_parts(2)[OF assms(1)] e by (auto simp: id_inv_def)
  show "pp_pts \<alpha> (c, t) k = \<alpha> (pc_idToPts c ! i)" using e by (simp add: pp_pts_def id_pts_def)
qed

lemma pp_live_counts_ok:
  assumes inv: "pp_inv \<alpha> I (c, t)" and d: "distinct (map fst (pp_ptsMap t))"
  shows "wp (pp_getAllPts D True (c, t)) (\<lambda>m. occ_inv \<alpha> I m \<and>
    (\<forall>S. occ \<alpha> m S = key_count (pp_pts \<alpha> (c, t)) (pp_ptsMap t) S mod 2 ^ 32) \<and>
    set (map (\<alpha> \<circ> fst) m) = {S. 0 < key_count (pp_pts \<alpha> (c, t)) (pp_ptsMap t) S})"
proof -
  note e = pp_entry[OF inv d]
  have all: "\<forall>(k, i) \<in> List.set (pp_ptsMap t). i < length (pc_idToPts c)" using e(1) by auto
  have count: "count_list (map (\<lambda>x. \<alpha> (pc_idToPts c ! snd x)) (pp_ptsMap t)) S = key_count (pp_pts \<alpha> (c, t)) (pp_ptsMap t) S" for S
    by (rule count_list_keys[OF d, of _ "\<lambda>i. \<alpha> (pc_idToPts c ! i)"]) (rule e(2))
  have "(\<lambda>x. \<alpha> (pc_idToPts c ! snd x)) ` List.set (pp_ptsMap t) = (\<lambda>x. pp_pts \<alpha> (c, t) (fst x)) ` List.set (pp_ptsMap t)"
    by (rule image_cong) (use e(2) in auto)
  also have "\<dots> = {S. 0 < key_count (pp_pts \<alpha> (c, t)) (pp_ptsMap t) S}"
    by (auto simp: key_count_pos[symmetric])
  finally show ?thesis
    using count_ids_ok[OF pp_inv_parts(1)[OF inv] _ all, of "[]"] by (simp add: pp_getAllPts_def count)
qed

lemma dec_ok:
  assumes "occ_inv \<alpha> I m"
  shows "occ_inv \<alpha> I (map (\<lambda>(d, n). (d, (n + (2 ^ 32 - 1)) mod 2 ^ 32)) m)"
    "occ \<alpha> (map (\<lambda>(d, n). (d, (n + (2 ^ 32 - 1)) mod 2 ^ 32)) m) S =
      (if S \<in> set (map (\<alpha> \<circ> fst) m) then (occ \<alpha> m S + (2 ^ 32 - 1)) mod 2 ^ 32 else 0)"
    "map (\<alpha> \<circ> fst) (map (\<lambda>(d, n). (d, (n + (2 ^ 32 - 1)) mod 2 ^ 32)) m) = map (\<alpha> \<circ> fst) m"
proof -
  let ?m = "map (\<lambda>(d, n). (d, (n + (2 ^ 32 - 1)) mod 2 ^ 32)) m"
  have d: "dmap \<alpha> ?m T = map_option (\<lambda>n. (n + (2 ^ 32 - 1)) mod 2 ^ 32) (dmap \<alpha> m T)" for T
    by (induction m) auto
  have o: "occ \<alpha> ?m T = (if T \<in> set (map (\<alpha> \<circ> fst) m) then (occ \<alpha> m T + (2 ^ 32 - 1)) mod 2 ^ 32 else 0)" for T
    using dmap_dom[of \<alpha> m T] unfolding occ_def d by (cases "dmap \<alpha> m T") simp_all
  show k: "map (\<alpha> \<circ> fst) ?m = map (\<alpha> \<circ> fst) m" by auto
  show "occ \<alpha> ?m S = (if S \<in> set (map (\<alpha> \<circ> fst) m) then (occ \<alpha> m S + (2 ^ 32 - 1)) mod 2 ^ 32 else 0)" by (rule o)
  show "occ_inv \<alpha> I ?m" unfolding occ_inv_def
  proof (intro conjI allI)
    show "dmap_inv I ?m" using assms by (auto simp: occ_inv_def dmap_inv_def)
    show "distinct (map (\<alpha> \<circ> fst) ?m)" unfolding k using assms by (simp add: occ_inv_def)
    show "occ \<alpha> ?m T < 2 ^ 32" for T unfolding o by simp
  qed
qed

end

text \<open>The versioned table: how many keys and versioned keys have the set.\<close>

definition pv_count :: "('d \<Rightarrow> 'e set) \<Rightarrow> 'd pt_cache \<times> ('k, 'v, 'e) pers_versioned \<Rightarrow> 'e set \<Rightarrow> nat" where
  "pv_count \<alpha> s S = (case s of (c, t) \<Rightarrow> key_count (pp_pts \<alpha> (c, pv_tlPTData t)) (pp_ptsMap (pv_tlPTData t)) S +
     key_count (pp_pts \<alpha> (c, pv_atPTData t)) (pp_ptsMap (pv_atPTData t)) S)"

text \<open>The IN or OUT entries with the set, point by point.\<close>

definition flow_count :: "(nat \<Rightarrow> 'k \<Rightarrow> 'e set) \<Rightarrow> (nat \<times> ('k \<times> 'v) list) list \<Rightarrow> 'e set \<Rightarrow> nat" where
  "flow_count f m S = (\<Sum>(l, m') \<leftarrow> m. key_count (f l) m' S)"

context canonical_data_set
begin

lemma live_cached:
  assumes inv: "pp_inv \<alpha> I (c, t)" and "0 < key_count (pp_pts \<alpha> (c, t)) (pp_ptsMap t) S"
  shows "\<exists>i. pc_has \<alpha> c i S"
proof -
  obtain k where "pp_pts \<alpha> (c, t) k = S" using assms(2) by (auto simp: key_count_pos[symmetric])
  then show ?thesis using id_has[OF pp_inv_parts(2)[OF inv], of \<alpha> k] by (auto simp: pp_pts_def)
qed

lemma pv_counts_ok:
  assumes inv: "pv_inv \<alpha> I (c, t)"
    and d: "distinct (map fst (pp_ptsMap (pv_tlPTData t)))" "distinct (map fst (pp_ptsMap (pv_atPTData t)))"
  shows "wp (pv_getAllPts D liveOnly (c, t)) (\<lambda>m. \<forall>S. occ \<alpha> m S =
    (if liveOnly \<or> 0 < pv_count \<alpha> (c, t) S then pv_count \<alpha> (c, t) S mod 2 ^ 32
     else if \<exists>i. pc_has \<alpha> c i S then 1 else 0))"
proof -
  have i: "pp_inv \<alpha> I (c, pv_tlPTData t)" "pp_inv \<alpha> I (c, pv_atPTData t)" using inv by (simp_all add: pv_inv_def)
  obtain m m' where m: "pp_getAllPts D True (c, pv_tlPTData t) = Some m" "pp_getAllPts D True (c, pv_atPTData t) = Some m'"
    "occ_inv \<alpha> I m" "occ_inv \<alpha> I m'"
    "\<And>S. occ \<alpha> m S = key_count (pp_pts \<alpha> (c, pv_tlPTData t)) (pp_ptsMap (pv_tlPTData t)) S mod 2 ^ 32"
    "\<And>S. occ \<alpha> m' S = key_count (pp_pts \<alpha> (c, pv_atPTData t)) (pp_ptsMap (pv_atPTData t)) S mod 2 ^ 32"
    "set (map (\<alpha> \<circ> fst) m) = {S. 0 < key_count (pp_pts \<alpha> (c, pv_tlPTData t)) (pp_ptsMap (pv_tlPTData t)) S}"
    "set (map (\<alpha> \<circ> fst) m') = {S. 0 < key_count (pp_pts \<alpha> (c, pv_atPTData t)) (pp_ptsMap (pv_atPTData t)) S}"
    using pp_live_counts_ok[OF i(1) d(1)] pp_live_counts_ok[OF i(2) d(2)] unfolding wp_iff by blast
  obtain r where r: "mergePtsOccMaps D m m' = Some r" "occ_inv \<alpha> I r" "\<And>S. occ \<alpha> r S = pv_count \<alpha> (c, t) S mod 2 ^ 32"
    "set (map (\<alpha> \<circ> fst) r) = {S. 0 < pv_count \<alpha> (c, t) S}"
  proof -
    obtain r where r: "mergePtsOccMaps D m m' = Some r" "occ_inv \<alpha> I r" "\<And>S. occ \<alpha> r S = (occ \<alpha> m S + occ \<alpha> m' S) mod 2 ^ 32"
      "set (map (\<alpha> \<circ> fst) r) = set (map (\<alpha> \<circ> fst) m) \<union> set (map (\<alpha> \<circ> fst) m')"
      using merge_ok[OF m(3,4)] unfolding wp_iff by blast
    have "occ \<alpha> r S = pv_count \<alpha> (c, t) S mod 2 ^ 32" for S unfolding r(3) m(5,6) pv_count_def by (simp add: mod_simps)
    moreover have "set (map (\<alpha> \<circ> fst) r) = {S. 0 < pv_count \<alpha> (c, t) S}"
      unfolding r(4) m(7,8) pv_count_def by auto
    ultimately show thesis using that r(1,2) by blast
  qed
  show ?thesis
  proof (cases liveOnly)
    case True
    then show ?thesis using m(1,2) r(1,3) by (simp add: pv_getAllPts_def)
  next
    case False
    let ?r = "map (\<lambda>(d, n). (d, (n + (2 ^ 32 - 1)) mod 2 ^ 32)) r"
    note dec = dec_ok[OF r(2)]
    obtain ca where ca: "pc_getAllPts D c = Some ca" "occ_inv \<alpha> I ca" "\<And>S. occ \<alpha> ca S = (if \<exists>i. pc_has \<alpha> c i S then 1 else 0)"
      using pc_getAllPts_ok[OF pp_inv_parts(1)[OF i(1)]] unfolding wp_iff by blast
    have "(occ \<alpha> ?r S + occ \<alpha> ca S) mod 2 ^ 32 = (if 0 < pv_count \<alpha> (c, t) S then pv_count \<alpha> (c, t) S mod 2 ^ 32
        else if \<exists>i. pc_has \<alpha> c i S then 1 else 0)" for S
    proof (cases "0 < pv_count \<alpha> (c, t) S")
      case True
      then have "\<exists>i. pc_has \<alpha> c i S" using live_cached[OF i(1)] live_cached[OF i(2)] by (auto simp: pv_count_def)
      moreover have "((n mod 2 ^ 32 + (2 ^ 32 - 1)) mod 2 ^ 32 + 1) mod 2 ^ 32 = n mod 2 ^ 32" for n :: nat by (simp add: mod_simps)
      ultimately show ?thesis using True unfolding dec(2) r(3,4) ca(3) by simp
    next
      case False
      then show ?thesis unfolding dec(2) r(3,4) ca(3) by simp
    qed
    with merge_ok[OF dec(1) ca(2)] show ?thesis using m(1,2) r(1) ca(1) False by (auto simp: pv_getAllPts_def elim!: wp_mono)
  qed
qed

end

lemma nmap_entry:
  assumes "nmap_ok Q m" "(l, n) \<in> set m" "(k, i) \<in> set n"
  shows "Q i \<and> nget d m l k = i"
proof -
  have "map_of m l = Some n" using assms(1,2) by (simp add: nmap_ok_def)
  moreover have "map_of n k = Some i" "Q i" using assms by (auto simp: nmap_ok_def map_inv_def)
  ultimately show ?thesis by (simp add: nget_def aget_def)
qed

context canonical_data_set
begin

lemma flow_counts_ok:
  assumes c: "pc_inv \<alpha> I c" and m: "occ_inv \<alpha> I m" and xs: "\<forall>(l, n) \<in> List.set xs. distinct (map fst n)"
    and ids: "\<forall>(l, n) \<in> List.set xs. \<forall>(k, i) \<in> List.set n. i < length (pc_idToPts c) \<and> f l k = \<alpha> (pc_idToPts c ! i)"
  shows "wp (foldM (\<lambda>(l, n). count_ids D c n) xs m) (\<lambda>m'. occ_inv \<alpha> I m' \<and>
    (\<forall>S. occ \<alpha> m' S = (occ \<alpha> m S + flow_count f xs S) mod 2 ^ 32))"
proof (rule foldM_wp)
  show "occ_inv \<alpha> I m \<and> (\<forall>S. occ \<alpha> m S = (occ \<alpha> m S + flow_count f [] S) mod 2 ^ 32)"
    using m by (simp add: occ_inv_def flow_count_def)
next
  fix ys x zs t
  assume split: "xs = ys @ x # zs" and t: "occ_inv \<alpha> I t \<and> (\<forall>S. occ \<alpha> t S = (occ \<alpha> m S + flow_count f ys S) mod 2 ^ 32)"
  obtain l n where x: "x = (l, n)" by fastforce
  have n: "distinct (map fst n)" "\<And>k i. (k, i) \<in> List.set n \<Longrightarrow> i < length (pc_idToPts c) \<and> f l k = \<alpha> (pc_idToPts c ! i)"
    using xs ids by (auto simp: split x)
  have "count_list (map (\<lambda>x. \<alpha> (pc_idToPts c ! snd x)) n) S = key_count (f l) n S" for S
    by (rule count_list_keys[OF n(1), of "f l" "\<lambda>i. \<alpha> (pc_idToPts c ! i)"]) (use n(2) in blast)
  moreover have "flow_count f (ys @ [x]) S = flow_count f ys S + key_count (f l) n S" for S
    by (simp add: flow_count_def x)
  moreover have "\<forall>(k, i) \<in> List.set n. i < length (pc_idToPts c)" using n(2) by blast
  ultimately show "wp ((case x of (l, n) \<Rightarrow> count_ids D c n) t) (\<lambda>m'. occ_inv \<alpha> I m' \<and>
      (\<forall>S. occ \<alpha> m' S = (occ \<alpha> m S + flow_count f (ys @ [x]) S) mod 2 ^ 32))"
    using count_ids_ok[OF c, of t n] t by (auto simp: x mod_simps ac_simps elim!: wp_mono)
qed

text \<open>
  The counts of \<^verbatim>\<open>PersistentDFPTData\<close> for all sets: the subtraction has no effect and the sets of top-level
  pointers are not counted, so each set of the cache is counted twice, and once more for each IN and OUT entry.
\<close>

lemma pf_counts_ok:
  assumes "pf_inv \<alpha> I (c, t)"
  shows "wp (pf_getAllPts D False (c, t)) (\<lambda>m. \<forall>S. occ \<alpha> m S =
    ((if \<exists>i. pc_has \<alpha> c i S then 2 else 0) + flow_count (\<lambda>l k. pf_sem \<alpha> (c, t) (INs l k)) (pf_dfInPtsMap t) S +
      flow_count (\<lambda>l k. pf_sem \<alpha> (c, t) (OUTs l k)) (pf_dfOutPtsMap t) S) mod 2 ^ 32)"
proof -
  have c: "pc_inv \<alpha> I c" using assms pp_inv_parts(1)[of \<alpha> I c "pf_persPTData t"] by (simp add: pf_inv_def)
  have n: "nmap_ok (\<lambda>i. i < length (pc_idToPts c)) (pf_dfInPtsMap t)" "nmap_ok (\<lambda>i. i < length (pc_idToPts c)) (pf_dfOutPtsMap t)"
    using assms by (simp_all add: pf_inv_def pf_ids_def)
  obtain ca where ca: "pc_getAllPts D c = Some ca" "occ_inv \<alpha> I ca" "\<And>S. occ \<alpha> ca S = (if \<exists>i. pc_has \<alpha> c i S then 1 else 0)"
    using pc_getAllPts_ok[OF c] unfolding wp_iff by blast
  obtain m1 where m1: "foldM (\<lambda>(l, n). count_ids D c n) (pf_dfInPtsMap t) ca = Some m1" "occ_inv \<alpha> I m1"
    "\<And>S. occ \<alpha> m1 S = (occ \<alpha> ca S + flow_count (\<lambda>l k. pf_sem \<alpha> (c, t) (INs l k)) (pf_dfInPtsMap t) S) mod 2 ^ 32"
  proof -
    have d: "\<forall>(l, n) \<in> List.set (pf_dfInPtsMap t). distinct (map fst n)" using n(1) by (auto simp: nmap_ok_def map_inv_def)
    have e: "\<forall>(l, n) \<in> List.set (pf_dfInPtsMap t). \<forall>(k, i) \<in> List.set n. i < length (pc_idToPts c) \<and>
        pf_sem \<alpha> (c, t) (INs l k) = \<alpha> (pc_idToPts c ! i)"
      by clarify (drule (1) nmap_entry[where d = 0, OF n(1)], simp add: pf_sem_def pf_id_def)
    show thesis using flow_counts_ok[OF c ca(2) d e] that unfolding wp_iff by blast
  qed
  obtain m2 where m2: "foldM (\<lambda>(l, n). count_ids D c n) (pf_dfOutPtsMap t) m1 = Some m2" "occ_inv \<alpha> I m2"
    "\<And>S. occ \<alpha> m2 S = (occ \<alpha> m1 S + flow_count (\<lambda>l k. pf_sem \<alpha> (c, t) (OUTs l k)) (pf_dfOutPtsMap t) S) mod 2 ^ 32"
  proof -
    have d: "\<forall>(l, n) \<in> List.set (pf_dfOutPtsMap t). distinct (map fst n)" using n(2) by (auto simp: nmap_ok_def map_inv_def)
    have e: "\<forall>(l, n) \<in> List.set (pf_dfOutPtsMap t). \<forall>(k, i) \<in> List.set n. i < length (pc_idToPts c) \<and>
        pf_sem \<alpha> (c, t) (OUTs l k) = \<alpha> (pc_idToPts c ! i)"
      by clarify (drule (1) nmap_entry[where d = 0, OF n(2)], simp add: pf_sem_def pf_id_def)
    show thesis using flow_counts_ok[OF c m1(2) d e] that unfolding wp_iff by blast
  qed
  have "pf_getAllPts D False (c, t) = mergePtsOccMaps D m2 ca"
    using ca(1) m1(1) m2(1) by (simp add: pf_getAllPts_def pp_getAllPts_def)
  with merge_ok[OF m2(2) ca(2)] show ?thesis by (auto simp: m2(3) m1(3) ca(3) mod_simps elim!: wp_mono)
qed

end

end
