(* ===== verification/Type_Info.thy ===== *)
theory Type_Info
  imports SVF_Prelude
begin

text \<open>
  Types and their flattening. \<^verbatim>\<open>StInfo\<close> of \<^verbatim>\<open>svf/include/SVFIR/SVFType.h\<close> holds, for a type, its fields
  with arrays taken for one element and its elements with arrays unfolded; \<^verbatim>\<open>collectTypeInfo\<close> of
  \<^verbatim>\<open>svf-llvm/lib/LLVMModule.cpp\<close> computes it. The reference definitions are the lists of scalar types that a
  type consists of.
\<close>

subsection \<open>Types\<close>

text \<open>A type with its size in bytes, which the data layout gives; pointers are opaque.\<close>

datatype ty =
  TInt nat
| TPtr nat
| TFun
| TOther nat bool
| TStruct nat "ty list"
| TArr nat nat ty

fun byte_size :: "ty \<Rightarrow> nat" where
  "byte_size (TInt b) = b"
| "byte_size (TPtr b) = b"
| "byte_size TFun = 1"
| "byte_size (TOther b sv) = b"
| "byte_size (TStruct b ts) = b"
| "byte_size (TArr b n e) = b"

fun isPointerTy :: "ty \<Rightarrow> bool" where
  "isPointerTy (TPtr b) = True"
| "isPointerTy t = False"

fun isSingleValueType :: "ty \<Rightarrow> bool" where
  "isSingleValueType (TInt b) = True"
| "isSingleValueType (TPtr b) = True"
| "isSingleValueType (TOther b sv) = sv"
| "isSingleValueType t = False"

subsection \<open>The flattened information of a type\<close>

record st_info =
  si_fldIdx :: "nat list"
  si_elemIdx :: "nat list"
  si_types :: "nat \<rightharpoonup> ty"
  si_finfo :: "ty list"
  si_stride :: nat
  si_numElems :: nat
  si_numFields :: nat
  si_elemTypes :: "ty list"

definition u32 :: "nat \<Rightarrow> nat" where
  "u32 n = n mod 2 ^ 32"

definition u64 :: "nat \<Rightarrow> nat" where
  "u64 n = n mod 2 ^ 64"

definition si_new :: "nat \<Rightarrow> st_info" where
  "si_new s = \<lparr>si_fldIdx = [], si_elemIdx = [], si_types = Map.empty, si_finfo = [], si_stride = s, si_numElems = s,
     si_numFields = s, si_elemTypes = []\<rparr>"

definition addFldWithType :: "nat \<Rightarrow> ty \<Rightarrow> nat \<Rightarrow> st_info \<Rightarrow> st_info" where
  "addFldWithType fldIdx t elemIdx i = i\<lparr>si_fldIdx := si_fldIdx i @ [fldIdx], si_elemIdx := si_elemIdx i @ [elemIdx],
     si_types := (si_types i)(fldIdx \<mapsto> t)\<rparr>"

definition setNumOfFieldsAndElems :: "nat \<Rightarrow> nat \<Rightarrow> st_info \<Rightarrow> st_info" where
  "setNumOfFieldsAndElems nf ne i = i\<lparr>si_numFields := nf, si_numElems := ne\<rparr>"

definition si_push_field :: "ty \<Rightarrow> st_info \<Rightarrow> st_info" where
  "si_push_field t i = i\<lparr>si_finfo := si_finfo i @ [t]\<rparr>"

definition si_push_elem :: "ty \<Rightarrow> st_info \<Rightarrow> st_info" where
  "si_push_elem t i = i\<lparr>si_elemTypes := si_elemTypes i @ [t]\<rparr>"

definition si_getOriginalElemType :: "st_info \<Rightarrow> nat \<Rightarrow> ty option" where
  "si_getOriginalElemType i fldIdx = si_types i fldIdx"

subsection \<open>Collecting it\<close>

definition collectSimpleTypeInfo :: "ty \<Rightarrow> st_info" where
  "collectSimpleTypeInfo t =
     setNumOfFieldsAndElems 1 1 (si_push_elem t (si_push_field t (addFldWithType 0 t 0 (si_new 1))))"

text \<open>The number of elements of nested arrays, a 64-bit product, and the type of the innermost ones.\<close>

fun array_shape :: "nat \<Rightarrow> ty \<Rightarrow> nat \<times> ty" where
  "array_shape tot (TArr b n e) = array_shape (u64 (tot * n)) e"
| "array_shape tot t = (tot, t)"

text \<open>The first \<open>n\<close> entries of a vector.\<close>

definition entries :: "nat \<Rightarrow> 'a list \<Rightarrow> 'a list option" where
  "entries n xs = do { ensure (n \<le> length xs); Some (take n xs) }"

text \<open>The loop over the elements counts in 32 bits and does not end for a larger number.\<close>

definition collectArrayInfo :: "nat \<Rightarrow> nat \<Rightarrow> ty \<Rightarrow> st_info option \<Rightarrow> st_info option" where
  "collectArrayInfo numElements totalElemNum elemTy elemInfo =
    (let i = si_new (u32 totalElemNum) in
     if totalElemNum = 0
     then Some (si_push_elem elemTy (si_push_field elemTy (setNumOfFieldsAndElems 1 1 (addFldWithType 0 elemTy 0 i))))
     else do {
       elemStInfo \<leftarrow> elemInfo;
       let nfF = si_numFields elemStInfo;
       let nfE = si_numElems elemStInfo;
       fieldTys \<leftarrow> entries nfF (si_finfo elemStInfo);
       let i = fold si_push_field fieldTys i;
       let outArrayElemNum = u32 numElements;
       let i = fold (\<lambda>k. addFldWithType 0 elemTy (u32 (u64 (u32 (k * nfE) * totalElemNum) div outArrayElemNum)))
         [0..<outArrayElemNum] i;
       ensure (totalElemNum < 2 ^ 32);
       elemTys \<leftarrow> entries nfE (si_elemTypes elemStInfo);
       let i = fold si_push_elem (concat (replicate totalElemNum elemTys)) i;
       ensure (length (si_elemTypes i) = u64 (nfE * totalElemNum));
       Some (setNumOfFieldsAndElems nfF (u32 (u64 (nfE * totalElemNum))) i) })"

text \<open>One element of a struct: an aggregate gives its own fields and elements, another type is one of each.\<close>

definition is_aggregate :: "ty \<Rightarrow> bool" where
  "is_aggregate t \<longleftrightarrow> (case t of TStruct _ _ \<Rightarrow> True | TArr _ _ _ \<Rightarrow> True | _ \<Rightarrow> False)"

definition collect_element :: "ty \<Rightarrow> st_info option \<Rightarrow> st_info \<times> nat \<times> nat \<Rightarrow> (st_info \<times> nat \<times> nat) option" where
  "collect_element elemTy sub = (\<lambda>(i, numFields, strideOffset).
     let i = addFldWithType numFields elemTy strideOffset i in
     if is_aggregate elemTy
     then do {
       subStInfo \<leftarrow> sub;
       let nfF = si_numFields subStInfo;
       let nfE = si_numElems subStInfo;
       fieldTys \<leftarrow> entries nfF (si_finfo subStInfo);
       elemTys \<leftarrow> entries nfE (si_elemTypes subStInfo);
       Some (fold si_push_elem elemTys (fold si_push_field fieldTys i), u32 (numFields + nfF), u32 (strideOffset + nfE)) }
     else Some (si_push_elem elemTy (si_push_field elemTy i), u32 (numFields + 1), u32 (strideOffset + 1)))"

fun collectStructInfo :: "(ty \<times> st_info option) list \<Rightarrow> st_info \<times> nat \<times> nat \<Rightarrow> st_info option" where
  "collectStructInfo [] (i, numFields, strideOffset) = do {
     ensure (length (si_elemTypes i) = strideOffset);
     Some (setNumOfFieldsAndElems numFields strideOffset i) }"
| "collectStructInfo ((t, sub) # rest) acc = do { acc \<leftarrow> collect_element t sub acc; collectStructInfo rest acc }"

lemma array_shape_size: "size (snd (array_shape n t)) \<le> size t"
  by (induction n t rule: array_shape.induct) auto

function collectTypeInfo :: "ty \<Rightarrow> st_info option" where
  "collectTypeInfo (TArr b n e) =
    (case array_shape (u64 n) e of (tot, t) \<Rightarrow> collectArrayInfo n tot t (collectTypeInfo t))"
| "collectTypeInfo (TStruct b ts) = collectStructInfo (map (\<lambda>t. (t, collectTypeInfo t)) ts) (si_new 1, 0, 0)"
| "collectTypeInfo (TInt b) = Some (collectSimpleTypeInfo (TInt b))"
| "collectTypeInfo (TPtr b) = Some (collectSimpleTypeInfo (TPtr b))"
| "collectTypeInfo TFun = Some (collectSimpleTypeInfo TFun)"
| "collectTypeInfo (TOther b sv) = Some (collectSimpleTypeInfo (TOther b sv))"
  by pat_completeness auto
termination
proof (relation "measure size", simp_all)
  fix n e tot t
  assume "(tot, t) = array_shape (u64 n) e"
  then show "size t < Suc (size e)" using array_shape_size[of "u64 n" e] by (metis le_imp_less_Suc snd_conv)
next
  fix ts and x :: ty
  assume "x \<in> set ts"
  then show "size x < Suc (size_list size ts)" by (induction ts) auto
qed

subsection \<open>What a type consists of\<close>

fun innermost :: "ty \<Rightarrow> ty" where
  "innermost (TArr b n e) = innermost e"
| "innermost t = t"

fun dims :: "ty \<Rightarrow> nat" where
  "dims (TArr b n e) = n * dims e"
| "dims t = 1"

text \<open>The scalars in order of their place, and the same with an array taken for one of its elements. An array
  without elements counts for one of the innermost type.\<close>

fun leaves :: "ty \<Rightarrow> ty list" where
  "leaves (TArr b n e) = (if n * dims e = 0 then [innermost e] else concat (replicate n (leaves e)))"
| "leaves (TStruct b ts) = concat (map leaves ts)"
| "leaves t = [t]"

fun ty_fields :: "ty \<Rightarrow> ty list" where
  "ty_fields (TArr b n e) = (if n * dims e = 0 then [innermost e] else ty_fields e)"
| "ty_fields (TStruct b ts) = concat (map ty_fields ts)"
| "ty_fields t = [t]"

abbreviation num_leaves :: "ty \<Rightarrow> nat" where
  "num_leaves t \<equiv> length (leaves t)"

abbreviation num_fields :: "ty \<Rightarrow> nat" where
  "num_fields t \<equiv> length (ty_fields t)"

text \<open>The types whose numbers of elements fit in 32 bits.\<close>

fun ty_ok :: "ty \<Rightarrow> bool" where
  "ty_ok (TArr b n e) \<longleftrightarrow> n < 2 ^ 32 \<and> n * dims e < 2 ^ 32 \<and> num_leaves (TArr b n e) < 2 ^ 32 \<and> ty_ok e"
| "ty_ok (TStruct b ts) \<longleftrightarrow> list_all ty_ok ts \<and> length ts < 2 ^ 32 \<and> num_leaves (TStruct b ts) < 2 ^ 32"
| "ty_ok t \<longleftrightarrow> True"

text \<open>Where each of a row of parts starts.\<close>

definition starts :: "('a \<Rightarrow> nat) \<Rightarrow> 'a list \<Rightarrow> nat list" where
  "starts f xs = map (\<lambda>i. sum_list (map f (take i xs))) [0..<length xs]"

lemma starts_simps [simp]: "starts f [] = []" "length (starts f xs) = length xs" "starts f xs = [] \<longleftrightarrow> xs = []"
  "starts f (xs @ [x]) = starts f xs @ [sum_list (map f xs)]"
  by (auto simp: starts_def)

lemma starts_nth: "i < length xs \<Longrightarrow> starts f xs ! i = sum_list (map f (take i xs))"
  by (simp add: starts_def)

lemma starts_replicate: "starts f (replicate n x) = map (\<lambda>i. i * f x) [0..<n]"
  by (auto simp: starts_def sum_list_replicate min_def intro!: map_cong)

lemma u_small [simp]: "n < 2 ^ 32 \<Longrightarrow> u32 n = n" "n < 2 ^ 64 \<Longrightarrow> u64 n = n" "n < 2 ^ 32 \<Longrightarrow> u64 n = n"
  by (simp_all add: u32_def u64_def)

lemma u64_mult: "u64 (u64 a * b) = u64 (a * b)"
  by (simp add: u64_def mod_mult_left_eq)

lemma u64_idem [simp]: "u64 (u64 a) = u64 a"
  by (simp add: u64_def)

lemma array_shape_eq: "array_shape (u64 n) t = (u64 (n * dims t), innermost t)"
proof (induction t arbitrary: n)
  case (TArr b m e)
  have "array_shape (u64 n) (TArr b m e) = array_shape (u64 (n * m)) e" by (simp add: u64_mult)
  then show ?case using TArr[of "n * m"] by (simp add: mult.assoc)
qed simp_all

lemma innermost_simps [simp]: "innermost (innermost t) = innermost t" "dims (innermost t) = 1"
  by (induction t) simp_all

lemma innermost_ok: "ty_ok t \<Longrightarrow> ty_ok (innermost t)"
  by (induction t) simp_all

lemma concat_replicate_concat: "concat (replicate n (concat (replicate m xs))) = concat (replicate (n * m) xs)"
  by (induction n) (simp_all add: replicate_add)

lemma leaves_array: "dims t \<noteq> 0 \<Longrightarrow> leaves t = concat (replicate (dims t) (leaves (innermost t)))"
proof (induction t)
  case (TArr b n e)
  then show ?case by (simp add: concat_replicate_concat)
qed simp_all

lemma fields_array: "dims t \<noteq> 0 \<Longrightarrow> ty_fields t = ty_fields (innermost t)"
  by (induction t) simp_all

lemma length_concat_replicate [simp]: "length (concat (replicate n xs)) = n * length xs"
  by (induction n) simp_all

lemma num_fields_le: "num_fields t \<le> num_leaves t"
proof (induction t)
  case (TStruct b ts)
  then show ?case by (induction ts) (auto simp: add_mono)
next
  case (TArr b n e)
  have "num_fields e \<le> n * num_leaves e" if "0 < n"
    by (rule le_trans[OF TArr]) (use that in simp)
  then show ?case by simp
qed simp_all

text \<open>The parts of a type, one for each index.\<close>

fun parts :: "ty \<Rightarrow> ty list" where
  "parts (TStruct b ts) = ts"
| "parts (TArr b n e) = (if n * dims e = 0 then [innermost e] else replicate n e)"
| "parts t = [t]"

definition info_ok :: "ty \<Rightarrow> st_info \<Rightarrow> bool" where
  "info_ok t i \<longleftrightarrow> si_elemTypes i = leaves t \<and> si_numElems i = num_leaves t \<and> si_finfo i = ty_fields t \<and>
     si_numFields i = num_fields t \<and>
     (case t of TStruct b ts \<Rightarrow> si_elemIdx i = starts num_leaves ts \<and> si_fldIdx i = starts num_fields ts \<and>
         si_types i = map_of (rev (zip (starts num_fields ts) ts))
      | TArr b n e \<Rightarrow> si_elemIdx i = (if n * dims e = 0 then [0] else starts num_leaves (replicate n e)) \<and>
         si_fldIdx i = replicate (length (si_elemIdx i)) 0
      | _ \<Rightarrow> si_elemIdx i = [0] \<and> si_fldIdx i = [0])"

lemma fold_push [simp]:
  "fold si_push_elem xs i = i\<lparr>si_elemTypes := si_elemTypes i @ xs\<rparr>"
  "fold si_push_field xs i = i\<lparr>si_finfo := si_finfo i @ xs\<rparr>"
  by (induction xs arbitrary: i) (simp_all add: si_push_elem_def si_push_field_def)

lemma fold_addFld:
  "fold (\<lambda>k. addFldWithType 0 t (g k)) ks i =
     i\<lparr>si_fldIdx := si_fldIdx i @ replicate (length ks) 0, si_elemIdx := si_elemIdx i @ map g ks,
       si_types := if ks = [] then si_types i else (si_types i)(0 \<mapsto> t)\<rparr>"
  by (induction ks arbitrary: i) (simp_all add: addFldWithType_def)

subsection \<open>Correctness\<close>

lemma entries_all [simp]: "n = length xs \<Longrightarrow> entries n xs = Some xs"
  by (simp add: entries_def)

lemma simple_info: "\<not> is_aggregate t \<Longrightarrow> info_ok t (collectSimpleTypeInfo t) \<and> collectTypeInfo t = Some (collectSimpleTypeInfo t)"
  by (cases t) (auto simp: is_aggregate_def info_ok_def collectSimpleTypeInfo_def si_new_def addFldWithType_def
      si_push_elem_def si_push_field_def setNumOfFieldsAndElems_def)

text \<open>A struct: what has been collected after the parts \<open>ds\<close>.\<close>

definition struct_inv :: "ty list \<Rightarrow> st_info \<times> nat \<times> nat \<Rightarrow> bool" where
  "struct_inv ds = (\<lambda>(i, nf, so). si_elemTypes i = concat (map leaves ds) \<and> si_finfo i = concat (map ty_fields ds) \<and>
     so = sum_list (map num_leaves ds) \<and> nf = sum_list (map num_fields ds) \<and>
     si_elemIdx i = starts num_leaves ds \<and> si_fldIdx i = starts num_fields ds \<and>
     si_types i = map_of (rev (zip (starts num_fields ds) ds)))"

lemma sum_fields_le: "sum_list (map num_fields ts) \<le> sum_list (map num_leaves ts)"
  using num_fields_le by (intro sum_list_mono) auto

lemma collect_element_ok:
  assumes inv: "struct_inv ds acc" and b: "sum_list (map num_leaves (ds @ [t])) < 2 ^ 32"
    and sub: "wp sub (info_ok t)"
  shows "wp (collect_element t sub acc) (struct_inv (ds @ [t]))"
proof -
  obtain i nf so where acc: "acc = (i, nf, so)" by (cases acc)
  have nf: "sum_list (map num_fields (ds @ [t])) < 2 ^ 32" using sum_fields_le[of "ds @ [t]"] b by linarith
  obtain s where s: "sub = Some s" "info_ok t s" using sub unfolding wp_iff by blast
  show ?thesis
  proof (cases "is_aggregate t")
    case True
    have "entries (si_numFields s) (si_finfo s) = Some (ty_fields t)" "entries (si_numElems s) (si_elemTypes s) = Some (leaves t)"
      "si_numFields s = num_fields t" "si_numElems s = num_leaves t"
      using s(2) by (simp_all add: info_ok_def)
    then show ?thesis
      using inv b nf True by (simp add: collect_element_def acc s(1) struct_inv_def addFldWithType_def Let_def)
  next
    case False
    then have "ty_fields t = [t]" "leaves t = [t]" by (cases t; simp add: is_aggregate_def)+
    then show ?thesis
      using inv b nf False
      by (simp add: collect_element_def acc struct_inv_def addFldWithType_def si_push_elem_def si_push_field_def Let_def)
  qed
qed

lemma collectStructInfo_ok:
  assumes "struct_inv ds acc" "sum_list (map num_leaves (ds @ ts)) < 2 ^ 32" "\<And>t. t \<in> set ts \<Longrightarrow> wp (f t) (info_ok t)"
  shows "wp (collectStructInfo (map (\<lambda>t. (t, f t)) ts) acc) (info_ok (TStruct b (ds @ ts)))"
  using assms
proof (induction ts arbitrary: ds acc)
  case Nil
  obtain i nf so where acc: "acc = (i, nf, so)" by (cases acc)
  show ?case
    using Nil(1) by (simp add: acc struct_inv_def info_ok_def setNumOfFieldsAndElems_def length_concat o_def)
next
  case (Cons t ts)
  have "wp (collect_element t (f t) acc) (struct_inv (ds @ [t]))"
    using Cons.prems by (intro collect_element_ok) simp_all
  then obtain acc' where acc': "collect_element t (f t) acc = Some acc'" "struct_inv (ds @ [t]) acc'" unfolding wp_iff by blast
  then show ?case using Cons.IH[OF acc'(2)] Cons.prems(2,3) by simp
qed

lemma array_index:
  assumes "k < n" "n * d < 2 ^ 32" "n * d * l < 2 ^ 32" "0 < d"
  shows "u32 (u64 (u32 (k * l) * (n * d)) div n) = k * (d * l)"
proof -
  have "k * (d * l) \<le> n * (d * l)" using assms(1) by (intro mult_le_mono1) simp
  then have kdl: "k * (d * l) < 2 ^ 32" using assms(3) unfolding mult.assoc by (rule le_less_trans)
  have "k * l \<le> k * l * d" using assms(4) by simp
  moreover have "k * l * d = k * (d * l)" by simp
  ultimately have kl: "k * l < 2 ^ 32" using kdl by linarith
  have "(k * l) * (n * d) < 2 ^ 32 * 2 ^ 32" using kl assms(2) by (intro mult_strict_mono) simp_all
  then have "u64 ((k * l) * (n * d)) = n * (k * (d * l))" by (simp add: mult.assoc mult.left_commute mult.commute[of d])
  then show ?thesis using kl kdl assms(1) by simp
qed

lemma collectArrayInfo_ok:
  assumes t: "ty_ok (TArr b n e)" and sub: "wp sub (info_ok (innermost e))"
  shows "wp (collectArrayInfo n (n * dims e) (innermost e) sub) (info_ok (TArr b n e))"
proof (cases "n * dims e = 0")
  case True
  then show ?thesis
    by (auto simp: collectArrayInfo_def info_ok_def si_new_def addFldWithType_def si_push_elem_def si_push_field_def
        setNumOfFieldsAndElems_def)
next
  case False
  let ?l = "num_leaves (innermost e)"
  have n: "n < 2 ^ 32" "n * dims e < 2 ^ 32" "0 < n" "0 < dims e" using t False by simp_all
  have e: "leaves e = concat (replicate (dims e) (leaves (innermost e)))" using n(4) by (intro leaves_array) simp
  have lv: "leaves (TArr b n e) = concat (replicate (n * dims e) (leaves (innermost e)))"
    using False by (simp add: e concat_replicate_concat)
  have big: "n * dims e * ?l < 2 ^ 32" using t False by (simp add: e mult.assoc)
  obtain s where s: "sub = Some s" "info_ok (innermost e) s" using sub unfolding wp_iff by blast
  have ent: "si_finfo s = ty_fields (innermost e)" "si_elemTypes s = leaves (innermost e)"
    "si_numFields s = num_fields (innermost e)" "si_numElems s = ?l"
    using s(2) by (simp_all add: info_ok_def)
  have idx: "map (\<lambda>k. u32 (u64 (u32 (k * ?l) * (n * dims e)) div n)) [0..<n] = starts num_leaves (replicate n e)"
    using array_index[OF _ n(2) big n(4)] by (simp add: starts_replicate e mult.assoc)
  have fe: "ty_fields (innermost e) = ty_fields e" using fields_array[of e] n(4) by simp
  have sz: "?l * (n * dims e) < 2 ^ 32" using big by (simp add: mult.commute)
  show ?thesis
    using False n sz lv fe
    by (simp add: collectArrayInfo_def s(1) ent fold_addFld idx si_new_def info_ok_def setNumOfFieldsAndElems_def Let_def
        mult.commute[of ?l])
qed

theorem collectTypeInfo_ok: "ty_ok t \<Longrightarrow> wp (collectTypeInfo t) (info_ok t)"
proof (induction t rule: collectTypeInfo.induct)
  case (1 b n e)
  have "array_shape n e = (n * dims e, innermost e)" using 1(2) array_shape_eq[of n e] by simp
  then show ?case using collectArrayInfo_ok[OF 1(2) 1(1)] 1(2) by (simp add: innermost_ok)
next
  case (2 b ts)
  have b: "sum_list (map num_leaves ts) < 2 ^ 32" "list_all ty_ok ts" using 2(2) by (simp_all add: length_concat o_def)
  have "struct_inv [] (si_new 1, 0, 0)" by (simp add: struct_inv_def si_new_def)
  from collectStructInfo_ok[OF this, of ts collectTypeInfo b] 2(1) b show ?case by (simp add: list_all_iff)
qed (use simple_info in \<open>auto simp: is_aggregate_def\<close>)

subsection \<open>The place of a part\<close>

lemma slice_concat:
  assumes "i < length xs"
  shows "take (length (f (xs ! i))) (drop (starts (\<lambda>x. length (f x)) xs ! i) (concat (map f xs))) = f (xs ! i)"
proof -
  have "xs = take i xs @ xs ! i # drop (Suc i) xs" using assms by (rule id_take_nth_drop)
  then have "concat (map f xs) = concat (map f (take i xs)) @ f (xs ! i) @ concat (map f (drop (Suc i) xs))"
    by (metis concat.simps(2) concat_append list.simps(9) map_append)
  moreover have "starts (\<lambda>x. length (f x)) xs ! i = length (concat (map f (take i xs)))"
    using assms by (simp add: starts_nth length_concat o_def)
  ultimately show ?thesis by simp
qed

lemma starts_room:
  assumes "i < length xs"
  shows "starts f xs ! i + f (xs ! i) \<le> sum_list (map f xs)"
proof -
  have "xs = take i xs @ xs ! i # drop (Suc i) xs" using assms by (rule id_take_nth_drop)
  then have "sum_list (map f xs) = sum_list (map f (take i xs)) + (f (xs ! i) + sum_list (map f (drop (Suc i) xs)))"
    by (metis list.simps(9) map_append sum_list.Cons sum_list_append)
  then show ?thesis using assms by (simp add: starts_nth)
qed

text \<open>The aggregates with an element for every index.\<close>

definition solid :: "ty \<Rightarrow> bool" where
  "solid t \<longleftrightarrow> (case t of TStruct b ts \<Rightarrow> True | TArr b n e \<Rightarrow> n * dims e \<noteq> 0 | _ \<Rightarrow> False)"

lemma leaves_parts: "solid t \<Longrightarrow> leaves t = concat (map leaves (parts t))"
  by (cases t) (auto simp: solid_def map_replicate_const)

lemma ty_ok_part: "solid t \<Longrightarrow> ty_ok t \<Longrightarrow> i < length (parts t) \<Longrightarrow> ty_ok (parts t ! i)"
  by (cases t) (auto simp: solid_def list_all_iff split: if_splits)

lemma parts_small: "ty_ok t \<Longrightarrow> solid t \<Longrightarrow> length (parts t) < 2 ^ 32"
  by (cases t) (auto simp: solid_def)

lemma elemIdx_parts: "solid t \<Longrightarrow> info_ok t i \<Longrightarrow> si_elemIdx i = starts num_leaves (parts t)"
  by (cases t) (auto simp: solid_def info_ok_def)

lemma fldIdx_struct: "info_ok (TStruct b ts) i \<Longrightarrow> si_fldIdx i = starts num_fields ts"
  by (simp add: info_ok_def)

text \<open>The type of a field of a struct is found under its index when every field before the next has an index of
  its own.\<close>

lemma starts_mono: "i \<le> j \<Longrightarrow> j < length xs \<Longrightarrow> starts f xs ! i \<le> starts f xs ! j"
proof -
  assume h: "i \<le> j" "j < length xs"
  then have "take j xs = take i xs @ take (j - i) (drop i xs)" by (metis le_add_diff_inverse take_add)
  then show ?thesis using h by (simp add: starts_nth)
qed

lemma starts_strict:
  assumes "i < j" "j < length xs" "0 < f (xs ! i)"
  shows "starts f xs ! i < starts f xs ! j"
proof -
  have "starts f xs ! Suc i \<le> starts f xs ! j" using assms(1,2) by (intro starts_mono) auto
  moreover have "starts f xs ! Suc i = starts f xs ! i + f (xs ! i)" using assms(1,2) by (simp add: starts_nth take_Suc_conv_app_nth)
  ultimately show ?thesis using assms(3) by linarith
qed

lemma field_type:
  assumes "info_ok (TStruct b ts) i" "k < length ts" "\<forall>t\<in>set ts. 0 < num_fields t"
  shows "si_getOriginalElemType i (si_fldIdx i ! k) = Some (ts ! k)"
proof -
  let ?s = "starts num_fields ts"
  have "inj_on ((!) ?s) {..<length ts}"
  proof (rule linorder_inj_onI)
    fix x y assume "x < y" "x \<in> {..<length ts}" "y \<in> {..<length ts}"
    then show "?s ! x \<noteq> ?s ! y" using starts_strict[of x y ts num_fields] assms(3) by simp
  qed (use linear in auto)
  then have d: "distinct ?s" unfolding distinct_conv_nth inj_on_def by (metis lessThan_iff starts_simps(2))
  then have "distinct (map fst (rev (zip ?s ts)))" by (simp flip: rev_map)
  moreover have "(?s ! k, ts ! k) \<in> set (rev (zip ?s ts))" using assms(2) by (auto simp: set_zip)
  ultimately have "map_of (rev (zip ?s ts)) (?s ! k) = Some (ts ! k)" by (rule map_of_is_SomeI)
  then show ?thesis using assms(1) by (simp add: info_ok_def si_getOriginalElemType_def)
qed

text \<open>A field of an empty type shares its index with the next one, whose type is then taken for its own.\<close>

lemma empty_field_type:
  "\<exists>i. collectTypeInfo (TStruct 4 [TStruct 0 [], TInt 4]) = Some i \<and> si_fldIdx i = [0, 0] \<and>
     si_getOriginalElemType i 0 = Some (TInt 4)"
  by (simp add: is_aggregate_def collect_element_def si_new_def addFldWithType_def setNumOfFieldsAndElems_def
      si_push_elem_def si_push_field_def si_getOriginalElemType_def u32_def Let_def entries_def)

end
