(* ===== verification/Bounded_Int.thy ===== *)
theory Bounded_Int
  imports SVF_Prelude "HOL-Library.Signed_Division"
begin

text \<open>
  \<^verbatim>\<open>BoundedInt\<close> of \<^verbatim>\<open>svf/include/AE/Core/NumericValue.h\<close>: a 64-bit integer or an infinity. The integer is an
  \<open>int\<close>; an operation whose signed result does not fit, a failed assertion and a shift by 64 or more have no
  result. The lemmas relate every operation to one on the extended integers.
\<close>

unbundle bit_operations_syntax

subsection \<open>Signed 64-bit integers\<close>

abbreviation i64_max :: int where
  "i64_max \<equiv> 9223372036854775807"

definition s64 :: "int \<Rightarrow> int option" where
  "s64 i = (if - i64_max - 1 \<le> i \<and> i \<le> i64_max then Some i else None)"

text \<open>The values that have a negation.\<close>

definition fits :: "int \<Rightarrow> bool" where
  "fits i \<longleftrightarrow> - i64_max \<le> i \<and> i \<le> i64_max"

lemma s64_fits [simp]: "fits i \<Longrightarrow> s64 i = Some i"
  by (simp add: s64_def fits_def)

subsection \<open>The class\<close>

record bounded_int =
  bi_iVal :: int
  bi_isInf :: bool

definition bi_fin :: "int \<Rightarrow> bounded_int" where
  "bi_fin fVal = \<lparr>bi_iVal = fVal, bi_isInf = False\<rparr>"

definition is_plus_infinity :: "bounded_int \<Rightarrow> bool" where
  "is_plus_infinity b \<longleftrightarrow> bi_isInf b \<and> bi_iVal b = 1"

definition is_minus_infinity :: "bounded_int \<Rightarrow> bool" where
  "is_minus_infinity b \<longleftrightarrow> bi_isInf b \<and> bi_iVal b = - 1"

definition is_infinity :: "bounded_int \<Rightarrow> bool" where
  "is_infinity b \<longleftrightarrow> is_plus_infinity b \<or> is_minus_infinity b"

definition plus_infinity :: bounded_int where
  "plus_infinity = \<lparr>bi_iVal = 1, bi_isInf = True\<rparr>"

definition minus_infinity :: bounded_int where
  "minus_infinity = \<lparr>bi_iVal = - 1, bi_isInf = True\<rparr>"

definition bi_is_zero :: "bounded_int \<Rightarrow> bool" where
  "bi_is_zero b \<longleftrightarrow> bi_iVal b = 0"

definition bi_equal :: "bounded_int \<Rightarrow> bounded_int \<Rightarrow> bool" where
  "bi_equal a b \<longleftrightarrow> bi_iVal a = bi_iVal b \<and> bi_isInf a = bi_isInf b"

definition bi_leq :: "bounded_int \<Rightarrow> bounded_int \<Rightarrow> bool" where
  "bi_leq a b =
    (if is_infinity a \<noteq> is_infinity b
     then if is_infinity a then is_minus_infinity a else is_plus_infinity b
     else if is_infinity a \<and> is_infinity b
     then if is_minus_infinity a then True else is_plus_infinity b
     else bi_iVal a \<le> bi_iVal b)"

definition bi_geq :: "bounded_int \<Rightarrow> bounded_int \<Rightarrow> bool" where
  "bi_geq a b =
    (if is_infinity a \<noteq> is_infinity b
     then if is_infinity a then is_plus_infinity a else is_minus_infinity b
     else if is_infinity a \<and> is_infinity b
     then if is_plus_infinity a then True else is_minus_infinity b
     else bi_iVal a \<ge> bi_iVal b)"

text \<open>The comparison operators return a \<^verbatim>\<open>BoundedInt\<close>.\<close>

definition bi_of_bool :: "bool \<Rightarrow> bounded_int" where
  "bi_of_bool b = bi_fin (if b then 1 else 0)"

definition bi_gt :: "bounded_int \<Rightarrow> bounded_int \<Rightarrow> bounded_int" where
  "bi_gt a b = bi_of_bool (\<not> bi_leq a b)"

definition bi_lt :: "bounded_int \<Rightarrow> bounded_int \<Rightarrow> bounded_int" where
  "bi_lt a b = bi_of_bool (\<not> bi_geq a b)"

definition bi_le :: "bounded_int \<Rightarrow> bounded_int \<Rightarrow> bounded_int" where
  "bi_le a b = bi_of_bool (bi_leq a b)"

definition bi_ge :: "bounded_int \<Rightarrow> bounded_int \<Rightarrow> bounded_int" where
  "bi_ge a b = bi_of_bool (bi_geq a b)"

definition bi_eq_op :: "bounded_int \<Rightarrow> bounded_int \<Rightarrow> bounded_int" where
  "bi_eq_op a b = bi_of_bool (bi_equal a b)"

definition bi_ne_op :: "bounded_int \<Rightarrow> bounded_int \<Rightarrow> bounded_int" where
  "bi_ne_op a b = bi_of_bool (\<not> bi_equal a b)"

definition bi_safeAdd :: "bounded_int \<Rightarrow> bounded_int \<Rightarrow> bounded_int option" where
  "bi_safeAdd a b = do {
     ensure (\<not> (is_plus_infinity a \<and> is_minus_infinity b \<or> is_minus_infinity a \<and> is_plus_infinity b));
     if is_plus_infinity a \<or> is_plus_infinity b then Some plus_infinity
     else if is_minus_infinity a \<or> is_minus_infinity b then Some minus_infinity
     else if bi_iVal a > 0 \<and> bi_iVal b > 0 \<and> i64_max - bi_iVal a < bi_iVal b then Some plus_infinity
     else if bi_iVal a < 0 \<and> bi_iVal b < 0 \<and> - i64_max - bi_iVal a > bi_iVal b then Some minus_infinity
     else map_option bi_fin (s64 (bi_iVal a + bi_iVal b)) }"

definition bi_neg :: "bounded_int \<Rightarrow> bounded_int option" where
  "bi_neg a = do { v \<leftarrow> s64 (- bi_iVal a); Some \<lparr>bi_iVal = v, bi_isInf = bi_isInf a\<rparr> }"

definition bi_sub :: "bounded_int \<Rightarrow> bounded_int \<Rightarrow> bounded_int option" where
  "bi_sub a b = do { n \<leftarrow> bi_neg b; bi_safeAdd a n }"

definition bi_safeMul :: "bounded_int \<Rightarrow> bounded_int \<Rightarrow> bounded_int option" where
  "bi_safeMul a b =
    (let l = bi_iVal a; r = bi_iVal b in
     if l = 0 \<or> r = 0 then Some (bi_fin 0)
     else if is_infinity a \<or> is_infinity b
     then do { p \<leftarrow> s64 (l * r); Some (if p > 0 then plus_infinity else minus_infinity) }
     else if l > 0 \<and> r > 0 \<and> i64_max sdiv l < r then Some plus_infinity
     else if l < 0 \<and> r < 0 \<and> i64_max sdiv l > r then Some plus_infinity
     else if l > 0 \<and> r < 0 \<and> - i64_max sdiv l > r \<or> l < 0 \<and> r > 0 \<and> - i64_max sdiv r > l then Some minus_infinity
     else map_option bi_fin (s64 (l * r)))"

definition bi_ite :: "bool \<Rightarrow> bounded_int \<Rightarrow> bounded_int \<Rightarrow> bounded_int" where
  "bi_ite c a b = (if c then a else b)"

text \<open>The negation in the arguments of \<^verbatim>\<open>ite\<close> is evaluated in every case; that of an infinity fits.\<close>

definition bi_mod :: "bounded_int \<Rightarrow> bounded_int \<Rightarrow> bounded_int option" where
  "bi_mod a b =
    (if bi_is_zero b then None
     else if \<not> is_infinity a \<and> \<not> is_infinity b
     then do { q \<leftarrow> s64 (bi_iVal a sdiv bi_iVal b); Some (bi_fin (bi_iVal a smod bi_iVal b)) }
     else if \<not> is_infinity a \<and> is_infinity b then Some (bi_fin 0)
     else if is_infinity a \<and> \<not> is_infinity b then do { n \<leftarrow> bi_neg a; Some (bi_ite (bi_iVal b > 0) a n) }
     else Some (if bi_equal a b then plus_infinity else minus_infinity))"

definition bi_div :: "bounded_int \<Rightarrow> bounded_int \<Rightarrow> bounded_int option" where
  "bi_div a b =
    (if bi_is_zero b then None
     else if \<not> is_infinity a \<and> \<not> is_infinity b then map_option bi_fin (s64 (bi_iVal a sdiv bi_iVal b))
     else if \<not> is_infinity a \<and> is_infinity b then Some (bi_fin 0)
     else if is_infinity a \<and> \<not> is_infinity b then do { n \<leftarrow> bi_neg a; Some (bi_ite (bi_iVal b \<ge> 0) a n) }
     else Some (if bi_equal a b then plus_infinity else minus_infinity))"

definition bi_xor :: "bounded_int \<Rightarrow> bounded_int \<Rightarrow> bounded_int" where
  "bi_xor a b = bi_fin (bi_iVal a XOR bi_iVal b)"

definition bi_and :: "bounded_int \<Rightarrow> bounded_int \<Rightarrow> bounded_int" where
  "bi_and a b = bi_fin (bi_iVal a AND bi_iVal b)"

definition bi_or :: "bounded_int \<Rightarrow> bounded_int \<Rightarrow> bounded_int" where
  "bi_or a b = bi_fin (bi_iVal a OR bi_iVal b)"

definition bi_land :: "bounded_int \<Rightarrow> bounded_int \<Rightarrow> bounded_int" where
  "bi_land a b = bi_of_bool (bi_iVal a \<noteq> 0 \<and> bi_iVal b \<noteq> 0)"

definition bi_lor :: "bounded_int \<Rightarrow> bounded_int \<Rightarrow> bounded_int" where
  "bi_lor a b = bi_of_bool (bi_iVal a \<noteq> 0 \<or> bi_iVal b \<noteq> 0)"

definition bi_not :: "bounded_int \<Rightarrow> bounded_int" where
  "bi_not a = bi_of_bool (bi_iVal a = 0)"

definition bi_shr :: "bounded_int \<Rightarrow> bounded_int \<Rightarrow> bounded_int option" where
  "bi_shr a b = do {
     ensure (bi_geq b (bi_fin 0));
     if bi_is_zero a then Some a
     else if is_infinity a then Some a
     else if is_infinity b then Some (if bi_geq a (bi_fin 0) then bi_fin 0 else bi_fin (- 1))
     else do { ensure (bi_iVal b < 64); Some (bi_fin (bi_iVal a div 2 ^ nat (bi_iVal b))) } }"

definition bi_shl :: "bounded_int \<Rightarrow> bounded_int \<Rightarrow> bounded_int option" where
  "bi_shl a b = do {
     ensure (bi_geq b (bi_fin 0));
     if bi_is_zero a then Some a
     else if is_infinity a then Some a
     else if is_infinity b then Some (if bi_geq a (bi_fin 0) then plus_infinity else minus_infinity)
     else do {
       ensure (bi_iVal b < 64 \<and> 0 \<le> bi_iVal a);
       map_option bi_fin (s64 (bi_iVal a * 2 ^ nat (bi_iVal b))) } }"

definition bi_min :: "bounded_int \<Rightarrow> bounded_int \<Rightarrow> bounded_int" where
  "bi_min a b =
    (if is_minus_infinity a \<or> is_minus_infinity b then minus_infinity
     else if is_plus_infinity a then b
     else if is_plus_infinity b then a
     else bi_fin (min (bi_iVal a) (bi_iVal b)))"

definition bi_max :: "bounded_int \<Rightarrow> bounded_int \<Rightarrow> bounded_int" where
  "bi_max a b =
    (if is_plus_infinity a \<or> is_plus_infinity b then plus_infinity
     else if is_minus_infinity a then b
     else if is_minus_infinity b then a
     else bi_fin (max (bi_iVal a) (bi_iVal b)))"

text \<open>The minimum and maximum of a vector, with the early return.\<close>

fun bi_min_from :: "bounded_int \<Rightarrow> bounded_int list \<Rightarrow> bounded_int" where
  "bi_min_from r [] = r"
| "bi_min_from r (b # bs) =
    (if is_minus_infinity b then minus_infinity else bi_min_from (if \<not> bi_geq b r then b else r) bs)"

fun bi_max_from :: "bounded_int \<Rightarrow> bounded_int list \<Rightarrow> bounded_int" where
  "bi_max_from r [] = r"
| "bi_max_from r (b # bs) =
    (if is_plus_infinity b then plus_infinity else bi_max_from (if \<not> bi_leq b r then b else r) bs)"

definition bi_min_list :: "bounded_int list \<Rightarrow> bounded_int" where
  "bi_min_list bs = bi_min_from plus_infinity bs"

definition bi_max_list :: "bounded_int list \<Rightarrow> bounded_int" where
  "bi_max_list bs = bi_max_from minus_infinity bs"

definition bi_abs :: "bounded_int \<Rightarrow> bounded_int option" where
  "bi_abs a = (if bi_leq a (bi_fin 0) then bi_neg a else Some a)"

definition bi_is_true :: "bounded_int \<Rightarrow> bool" where
  "bi_is_true a \<longleftrightarrow> bi_iVal a \<noteq> 0"

definition bi_getNumeral :: "bounded_int \<Rightarrow> int" where
  "bi_getNumeral a =
    (if is_minus_infinity a then - i64_max - 1 else if is_plus_infinity a then i64_max else bi_iVal a)"

subsection \<open>The values as extended integers\<close>

text \<open>An infinity is an integer far beyond the products of 64-bit integers, so the order is that of the integers.\<close>

abbreviation big :: int where
  "big \<equiv> 1361129467683753853853498429727072845824"

definition bi_val :: "bounded_int \<Rightarrow> int" where
  "bi_val b = (if is_plus_infinity b then big else if is_minus_infinity b then - big else bi_iVal b)"

text \<open>Only the two infinities carry the flag; the other values have a negation.\<close>

definition bi_ok :: "bounded_int \<Rightarrow> bool" where
  "bi_ok b \<longleftrightarrow> (if bi_isInf b then bi_iVal b = 1 \<or> bi_iVal b = - 1 else fits (bi_iVal b))"

text \<open>What does not fit becomes an infinity.\<close>

definition sat :: "int \<Rightarrow> int" where
  "sat z = (if i64_max < z then big else if z < - i64_max then - big else z)"

lemma bi_inf_simps [simp]:
  "is_plus_infinity plus_infinity" "\<not> is_minus_infinity plus_infinity" "is_infinity plus_infinity"
  "is_minus_infinity minus_infinity" "\<not> is_plus_infinity minus_infinity" "is_infinity minus_infinity"
  "\<not> is_plus_infinity (bi_fin v)" "\<not> is_minus_infinity (bi_fin v)" "\<not> is_infinity (bi_fin v)"
  "bi_iVal (bi_fin v) = v" "bi_iVal plus_infinity = 1" "bi_iVal minus_infinity = - 1"
  "bi_isInf plus_infinity" "bi_isInf minus_infinity" "\<not> bi_isInf (bi_fin v)"
  "bi_fin v = bi_fin w \<longleftrightarrow> v = w" "bi_fin v \<noteq> plus_infinity" "bi_fin v \<noteq> minus_infinity"
  "plus_infinity \<noteq> bi_fin v" "minus_infinity \<noteq> bi_fin v"
  "plus_infinity \<noteq> minus_infinity" "minus_infinity \<noteq> plus_infinity"
  by (auto simp: is_infinity_def is_plus_infinity_def is_minus_infinity_def plus_infinity_def minus_infinity_def bi_fin_def)

lemma bi_val_simps [simp]:
  "bi_val plus_infinity = big" "bi_val minus_infinity = - big" "bi_val (bi_fin v) = v"
  "bi_ok plus_infinity" "bi_ok minus_infinity" "bi_ok (bi_fin v) \<longleftrightarrow> fits v"
  by (simp_all add: bi_val_def bi_ok_def)

lemma bi_cases:
  assumes "bi_ok b"
  obtains "b = plus_infinity" | "b = minus_infinity" | v where "b = bi_fin v" "fits v"
proof (cases "bi_isInf b")
  case True
  then have "b = plus_infinity \<or> b = minus_infinity"
    using assms by (cases b) (auto simp: bi_ok_def plus_infinity_def minus_infinity_def)
  then show ?thesis using that by blast
next
  case False
  then have "b = bi_fin (bi_iVal b)" "fits (bi_iVal b)"
    using assms by (auto simp: bi_ok_def bi_fin_def)
  then show ?thesis using that by blast
qed

lemma bi_val_range: "bi_ok b \<Longrightarrow> - big \<le> bi_val b \<and> bi_val b \<le> big"
  by (erule bi_cases) (auto simp: fits_def)

text \<open>A value of the type itself lies strictly between the infinities.\<close>

lemma bi_val_fits: "bi_ok b \<Longrightarrow> fits (bi_val b) \<longleftrightarrow> \<not> is_infinity b"
  by (erule bi_cases) (auto simp: fits_def)

lemma bi_leq_iff: "bi_ok a \<Longrightarrow> bi_ok b \<Longrightarrow> bi_leq a b \<longleftrightarrow> bi_val a \<le> bi_val b"
  by (erule bi_cases; erule bi_cases) (auto simp: bi_leq_def fits_def)

lemma bi_geq_iff: "bi_ok a \<Longrightarrow> bi_ok b \<Longrightarrow> bi_geq a b \<longleftrightarrow> bi_val b \<le> bi_val a"
  by (erule bi_cases; erule bi_cases) (auto simp: bi_geq_def fits_def)

lemma bi_equal_iff: "bi_equal a b \<longleftrightarrow> a = b"
  by (cases a; cases b) (auto simp: bi_equal_def)

lemma bi_val_inject: "bi_ok a \<Longrightarrow> bi_ok b \<Longrightarrow> bi_val a = bi_val b \<longleftrightarrow> a = b"
  by (erule bi_cases; erule bi_cases) (auto simp: fits_def)

lemma bi_plus_iff: "bi_ok a \<Longrightarrow> is_plus_infinity a \<longleftrightarrow> a = plus_infinity"
  by (erule bi_cases) auto

lemma bi_minus_iff: "bi_ok a \<Longrightarrow> is_minus_infinity a \<longleftrightarrow> a = minus_infinity"
  by (erule bi_cases) auto

lemma bi_min_ok: "bi_ok a \<Longrightarrow> bi_ok b \<Longrightarrow> bi_ok (bi_min a b) \<and> bi_val (bi_min a b) = min (bi_val a) (bi_val b)"
  by (erule bi_cases; erule bi_cases) (auto simp: bi_min_def fits_def)

lemma bi_max_ok: "bi_ok a \<Longrightarrow> bi_ok b \<Longrightarrow> bi_ok (bi_max a b) \<and> bi_val (bi_max a b) = max (bi_val a) (bi_val b)"
  by (erule bi_cases; erule bi_cases) (auto simp: bi_max_def fits_def)

lemma bi_min_from_ok:
  "bi_ok r \<Longrightarrow> list_all bi_ok bs \<Longrightarrow>
   bi_ok (bi_min_from r bs) \<and> bi_val (bi_min_from r bs) = Min (insert (bi_val r) (bi_val ` set bs))"
proof (induction bs arbitrary: r)
  case (Cons b bs)
  have b: "bi_ok b" "list_all bi_ok bs" using Cons.prems(2) by simp_all
  show ?case
  proof (cases "is_minus_infinity b")
    case True
    then have v: "bi_val b = - big" by (simp add: bi_minus_iff[OF b(1)])
    have "Min (insert (bi_val r) (bi_val ` set (b # bs))) = - big"
    proof (rule Min_eqI)
      fix y assume "y \<in> insert (bi_val r) (bi_val ` set (b # bs))"
      then have "\<exists>c. bi_ok c \<and> y = bi_val c" using Cons.prems b by (auto simp: list_all_iff)
      then show "- big \<le> y" using bi_val_range by blast
    qed (use v in auto)
    then show ?thesis using True by simp
  next
    case False
    let ?r = "if \<not> bi_geq b r then b else r"
    have r: "bi_ok ?r" "bi_val ?r = min (bi_val r) (bi_val b)" using Cons.prems(1) b(1) by (auto simp: bi_geq_iff)
    have "Min (insert (bi_val ?r) (bi_val ` set bs)) = Min (insert (bi_val r) (bi_val ` set (b # bs)))"
      unfolding r(2) by (cases bs) (simp_all add: min.assoc)
    then show ?thesis using False Cons.IH[OF r(1) b(2)] by simp
  qed
qed simp

lemma bi_max_from_ok:
  "bi_ok r \<Longrightarrow> list_all bi_ok bs \<Longrightarrow>
   bi_ok (bi_max_from r bs) \<and> bi_val (bi_max_from r bs) = Max (insert (bi_val r) (bi_val ` set bs))"
proof (induction bs arbitrary: r)
  case (Cons b bs)
  have b: "bi_ok b" "list_all bi_ok bs" using Cons.prems(2) by simp_all
  show ?case
  proof (cases "is_plus_infinity b")
    case True
    then have v: "bi_val b = big" by (simp add: bi_plus_iff[OF b(1)])
    have "Max (insert (bi_val r) (bi_val ` set (b # bs))) = big"
    proof (rule Max_eqI)
      fix y assume "y \<in> insert (bi_val r) (bi_val ` set (b # bs))"
      then have "\<exists>c. bi_ok c \<and> y = bi_val c" using Cons.prems b by (auto simp: list_all_iff)
      then show "y \<le> big" using bi_val_range by blast
    qed (use v in auto)
    then show ?thesis using True by simp
  next
    case False
    let ?r = "if \<not> bi_leq b r then b else r"
    have r: "bi_ok ?r" "bi_val ?r = max (bi_val r) (bi_val b)" using Cons.prems(1) b(1) by (auto simp: bi_leq_iff)
    have "Max (insert (bi_val ?r) (bi_val ` set bs)) = Max (insert (bi_val r) (bi_val ` set (b # bs)))"
      unfolding r(2) by (cases bs) (simp_all add: max.assoc)
    then show ?thesis using False Cons.IH[OF r(1) b(2)] by simp
  qed
qed simp

text \<open>The minimum and maximum of four values.\<close>

lemma bi_min_list_ok:
  assumes "bi_ok a" "bi_ok b" "bi_ok c" "bi_ok d"
  shows "bi_ok (bi_min_list [a, b, c, d])"
    "bi_val (bi_min_list [a, b, c, d]) = min (min (bi_val a) (bi_val b)) (min (bi_val c) (bi_val d))"
  using bi_min_from_ok[of plus_infinity "[a, b, c, d]"] assms bi_val_range[OF assms(1)]
  by (auto simp: bi_min_list_def min_def)

lemma bi_max_list_ok:
  assumes "bi_ok a" "bi_ok b" "bi_ok c" "bi_ok d"
  shows "bi_ok (bi_max_list [a, b, c, d])"
    "bi_val (bi_max_list [a, b, c, d]) = max (max (bi_val a) (bi_val b)) (max (bi_val c) (bi_val d))"
  using bi_max_from_ok[of minus_infinity "[a, b, c, d]"] assms bi_val_range[OF assms(1)]
  by (auto simp: bi_max_list_def max_def)

subsection \<open>The operations on values\<close>

lemma sat_simps [simp]: "fits z \<Longrightarrow> sat z = z" "sat big = big" "sat (- big) = - big"
  by (auto simp: sat_def fits_def)

lemma sat_mono: "x \<le> y \<Longrightarrow> sat x \<le> sat y"
  by (auto simp: sat_def)

lemma sat_cases: "i64_max < z \<and> sat z = big \<or> z < - i64_max \<and> sat z = - big \<or> fits z \<and> sat z = z"
  by (auto simp: sat_def fits_def)

text \<open>Addition: opposite infinities have no sum, the others the saturated one.\<close>

lemma bi_safeAdd_ok:
  assumes "bi_ok a" "bi_ok b" "\<not> (bi_val a = big \<and> bi_val b = - big)" "\<not> (bi_val a = - big \<and> bi_val b = big)"
  shows "wp (bi_safeAdd a b) (\<lambda>r. bi_ok r \<and> bi_val r = sat (bi_val a + bi_val b))"
  using assms(3,4)
  by (cases rule: bi_cases[OF assms(1)]; cases rule: bi_cases[OF assms(2)])
    (auto simp: bi_safeAdd_def sat_def fits_def s64_def)

lemma bi_safeAdd_None: "bi_safeAdd plus_infinity minus_infinity = None" "bi_safeAdd minus_infinity plus_infinity = None"
  by (simp_all add: bi_safeAdd_def)

lemma bi_neg_ok: "bi_ok a \<Longrightarrow> wp (bi_neg a) (\<lambda>r. bi_ok r \<and> bi_val r = - bi_val a)"
  by (erule bi_cases)
    (auto simp: bi_neg_def s64_def fits_def bi_fin_def plus_infinity_def minus_infinity_def bi_val_def bi_ok_def
      is_plus_infinity_def is_minus_infinity_def)

lemma bi_sub_ok:
  assumes "bi_ok a" "bi_ok b" "\<not> (bi_val a = big \<and> bi_val b = big)" "\<not> (bi_val a = - big \<and> bi_val b = - big)"
  shows "wp (bi_sub a b) (\<lambda>r. bi_ok r \<and> bi_val r = sat (bi_val a - bi_val b))"
proof -
  obtain n where n: "bi_neg b = Some n" "bi_ok n" "bi_val n = - bi_val b" using bi_neg_ok[OF assms(2)] by (auto simp: wp_iff)
  have "\<not> (bi_val a = big \<and> bi_val n = - big)" "\<not> (bi_val a = - big \<and> bi_val n = big)" using assms(3,4) n(3) by auto
  from bi_safeAdd_ok[OF assms(1) n(2) this] show ?thesis using n by (simp add: bi_sub_def)
qed

text \<open>The tests before a multiplication decide whether the product fits.\<close>

lemma div_less_iff:
  assumes "0 < (l :: int)"
  shows "a div l < r \<longleftrightarrow> a < r * l"
proof
  assume "a div l < r"
  then have "(a div l + 1) * l \<le> r * l" using assms by (intro mult_right_mono) simp_all
  moreover have "a < (a div l + 1) * l"
    unfolding distrib_right using div_mult_mod_eq[of a l] pos_mod_bound[OF assms, of a] by linarith
  ultimately show "a < r * l" by simp
next
  assume a: "a < r * l"
  show "a div l < r"
  proof (rule ccontr)
    assume "\<not> a div l < r"
    then have "r * l \<le> a div l * l" using assms by (intro mult_right_mono) simp_all
    also have "\<dots> \<le> a" using div_mult_mod_eq[of a l] pos_mod_sign[OF assms, of a] by linarith
    finally show False using a by simp
  qed
qed

lemma mul_test_pp: "0 < l \<Longrightarrow> 0 < r \<Longrightarrow> i64_max sdiv l < r \<longleftrightarrow> i64_max < l * r"
  by (simp add: signed_divide_int_def div_less_iff mult.commute)

lemma mul_test_nn: "l < 0 \<Longrightarrow> r < 0 \<Longrightarrow> r < i64_max sdiv l \<longleftrightarrow> i64_max < l * r"
  using div_less_iff[of "- l" i64_max "- r"] by (auto simp: signed_divide_int_def mult.commute)

lemma mul_test_pn: "0 < l \<Longrightarrow> r < 0 \<Longrightarrow> r < - (i64_max sdiv l) \<longleftrightarrow> l * r < - i64_max"
  using div_less_iff[of l i64_max "- r"] by (auto simp: signed_divide_int_def mult.commute)

lemma big_mult: "v \<noteq> 0 \<Longrightarrow> 0 < v \<and> big \<le> big * v \<and> i64_max < big * v \<or> v < 0 \<and> big * v \<le> - big \<and> big * v < - i64_max" for v :: int
  by (cases "0 < v") auto

lemma bi_safeMul_ok:
  assumes "bi_ok a" "bi_ok b"
  shows "wp (bi_safeMul a b) (\<lambda>r. bi_ok r \<and> bi_val r = sat (bi_val a * bi_val b))"
proof (cases rule: bi_cases[OF assms(1)]; cases rule: bi_cases[OF assms(2)])
  fix v w assume a: "a = bi_fin v" "fits v" and b: "b = bi_fin w" "fits w"
  consider "v = 0 \<or> w = 0" | "0 < v" "0 < w" | "v < 0" "w < 0" | "0 < v" "w < 0" | "v < 0" "0 < w" by linarith
  then show ?thesis
  proof cases
    case 1
    then show ?thesis by (auto simp: a b bi_safeMul_def fits_def)
  next
    case 2
    then have "0 < v * w" by (rule mult_pos_pos)
    then have p: "\<not> v * w < - i64_max" by linarith
    show ?thesis using 2 p by (simp add: a b bi_safeMul_def mul_test_pp sat_def s64_def) (simp add: fits_def)
  next
    case 3
    then have "0 < v * w" by (simp add: mult_neg_neg)
    then have p: "\<not> v * w < - i64_max" by linarith
    show ?thesis using 3 p by (simp add: a b bi_safeMul_def mul_test_nn sat_def s64_def) (simp add: fits_def)
  next
    case 4
    then have "v * w < 0" by (simp add: mult_pos_neg)
    then have p: "\<not> i64_max < v * w" by linarith
    show ?thesis using 4 p by (simp add: a b bi_safeMul_def mul_test_pn sat_def s64_def) (simp add: fits_def)
  next
    case 5
    then have "v * w < 0" by (simp add: mult_neg_pos)
    then have p: "\<not> i64_max < v * w" by linarith
    show ?thesis using 5 p mul_test_pn[OF 5(2,1)] by (simp add: a b bi_safeMul_def sat_def s64_def mult.commute) (simp add: fits_def)
  qed
next
  fix w assume a: "a = plus_infinity" and b: "b = bi_fin w" "fits w"
  show ?thesis using big_mult[of w] b(2) by (auto simp: a b(1) bi_safeMul_def sat_def s64_def fits_def)
next
  fix w assume a: "a = minus_infinity" and b: "b = bi_fin w" "fits w"
  show ?thesis using big_mult[of w] b(2) by (auto simp: a b(1) bi_safeMul_def sat_def s64_def fits_def)
next
  fix v assume a: "a = bi_fin v" "fits v" and b: "b = plus_infinity"
  show ?thesis using big_mult[of v] a(2) by (auto simp: a(1) b bi_safeMul_def sat_def s64_def fits_def mult.commute)
next
  fix v assume a: "a = bi_fin v" "fits v" and b: "b = minus_infinity"
  show ?thesis using big_mult[of v] a(2) by (auto simp: a(1) b bi_safeMul_def sat_def s64_def fits_def mult.commute)
qed (simp_all add: bi_safeMul_def sat_def s64_def)

text \<open>Truncated division.\<close>

lemma int_div_le: "0 \<le> x \<Longrightarrow> 0 < y \<Longrightarrow> x div y \<le> x" for x y :: int
  using zdiv_mono2[of x 1 y] by simp

lemma sdiv_abs_le: "\<bar>x sdiv y\<bar> \<le> \<bar>x\<bar>" for x y :: int
proof -
  have "\<bar>x\<bar> div \<bar>y\<bar> \<le> \<bar>x\<bar>" by (cases "y = 0") (simp_all add: int_div_le)
  moreover have "0 \<le> \<bar>x\<bar> div \<bar>y\<bar>" by (cases "y = 0") (simp_all add: pos_imp_zdiv_nonneg_iff)
  ultimately show ?thesis by (cases "x = 0"; cases "y = 0") (auto simp: signed_divide_int_def abs_mult sgn_if)
qed

lemma fits_sdiv: "fits x \<Longrightarrow> fits (x sdiv y)"
  using sdiv_abs_le[of x y] by (auto simp: fits_def)

lemma sdiv_big: "fits x \<Longrightarrow> x sdiv big = 0" "fits x \<Longrightarrow> x sdiv - big = 0"
  by (auto simp: signed_divide_int_def fits_def div_pos_pos_trivial)

lemma big_sdiv: "fits y \<Longrightarrow> 0 < y \<Longrightarrow> sat (big sdiv y) = big \<and> sat (- big sdiv y) = - big"
  "fits y \<Longrightarrow> y < 0 \<Longrightarrow> sat (big sdiv y) = - big \<and> sat (- big sdiv y) = big"
proof -
  have d: "i64_max < big div \<bar>y\<bar>" if "fits y" "y \<noteq> 0"
  proof -
    have "big div i64_max \<le> big div \<bar>y\<bar>" using that by (intro zdiv_mono2) (auto simp: fits_def)
    then show ?thesis by simp
  qed
  show "fits y \<Longrightarrow> 0 < y \<Longrightarrow> sat (big sdiv y) = big \<and> sat (- big sdiv y) = - big"
    using d by (simp add: signed_divide_int_def sat_def)
  show "fits y \<Longrightarrow> y < 0 \<Longrightarrow> sat (big sdiv y) = - big \<and> sat (- big sdiv y) = big"
    using d by (simp add: signed_divide_int_def sat_def)
qed

lemma bi_neg_inf [simp]: "bi_neg plus_infinity = Some minus_infinity" "bi_neg minus_infinity = Some plus_infinity"
  by (simp_all add: bi_neg_def s64_def plus_infinity_def minus_infinity_def)

text \<open>The quotient of two infinities is an infinity.\<close>

lemma bi_div_ok:
  assumes "bi_ok a" "bi_ok b" "bi_val b \<noteq> 0"
  shows "wp (bi_div a b) (\<lambda>r. bi_ok r \<and> (\<not> (is_infinity a \<and> is_infinity b) \<longrightarrow> bi_val r = sat (bi_val a sdiv bi_val b)))"
proof (cases rule: bi_cases[OF assms(1)]; cases rule: bi_cases[OF assms(2)])
  fix v w assume a: "a = bi_fin v" "fits v" and b: "b = bi_fin w" "fits w"
  show ?thesis using fits_sdiv[OF a(2), of w] assms(3) by (simp add: a b bi_div_def bi_is_zero_def)
next
  fix w assume a: "a = plus_infinity" and b: "b = bi_fin w" "fits w"
  then show ?thesis using big_sdiv[OF b(2)] assms(3) by (cases "0 < w") (auto simp: bi_div_def bi_is_zero_def bi_ite_def)
next
  fix w assume a: "a = minus_infinity" and b: "b = bi_fin w" "fits w"
  then show ?thesis using big_sdiv[OF b(2)] assms(3) by (cases "0 < w") (auto simp: bi_div_def bi_is_zero_def bi_ite_def)
next
  fix v assume a: "a = bi_fin v" "fits v" and b: "b = plus_infinity"
  then show ?thesis using sdiv_big[OF a(2)] by (simp add: bi_div_def bi_is_zero_def fits_def)
next
  fix v assume a: "a = bi_fin v" "fits v" and b: "b = minus_infinity"
  then show ?thesis using sdiv_big[OF a(2)] by (simp add: bi_div_def bi_is_zero_def fits_def)
qed (simp_all add: bi_div_def bi_is_zero_def)

lemma bi_mod_fin: "fits v \<Longrightarrow> w \<noteq> 0 \<Longrightarrow> bi_mod (bi_fin v) (bi_fin w) = Some (bi_fin (v smod w))"
  using fits_sdiv[of v w] by (simp add: bi_mod_def bi_is_zero_def)

lemma bi_abs_ok:
  assumes "bi_ok a"
  shows "wp (bi_abs a) (\<lambda>r. bi_ok r \<and> bi_val r = \<bar>bi_val a\<bar>)"
proof -
  have "bi_ok (bi_fin 0)" by (simp add: fits_def)
  then have "bi_leq a (bi_fin 0) \<longleftrightarrow> bi_val a \<le> 0" using bi_leq_iff[OF assms] by simp
  then show ?thesis using bi_neg_ok[OF assms] assms by (auto simp: bi_abs_def wp_iff)
qed

lemma bi_getNumeral_nonneg: "bi_ok a \<Longrightarrow> 0 \<le> bi_getNumeral a \<longleftrightarrow> 0 \<le> bi_val a"
  by (erule bi_cases) (auto simp: bi_getNumeral_def)

lemma bi_getNumeral_pos: "bi_ok a \<Longrightarrow> 0 < bi_getNumeral a \<longleftrightarrow> 0 < bi_val a"
  by (erule bi_cases) (auto simp: bi_getNumeral_def)

lemma bi_getNumeral_fin: "bi_ok a \<Longrightarrow> \<not> is_infinity a \<Longrightarrow> bi_getNumeral a = bi_val a"
  by (erule bi_cases) (auto simp: bi_getNumeral_def)

text \<open>The arithmetic shift to the right.\<close>

lemma fits_shr: "fits v \<Longrightarrow> fits (v div 2 ^ n)"
proof -
  assume v: "fits v"
  have p: "(1 :: int) \<le> 2 ^ n" by simp
  show ?thesis
  proof (cases "0 \<le> v")
    case True
    then have "v div 2 ^ n \<le> v" "0 \<le> v div 2 ^ n" using p by (simp_all add: int_div_le pos_imp_zdiv_nonneg_iff)
    then show ?thesis using v by (auto simp: fits_def)
  next
    case False
    have "v div 1 \<le> v div 2 ^ n" using False by (intro zdiv_mono2_neg) simp_all
    moreover have "v div 2 ^ n < 0" using False by (simp add: pos_imp_zdiv_neg_iff)
    ultimately show ?thesis using v by (auto simp: fits_def)
  qed
qed

lemma bi_shr_ok:
  assumes "bi_ok a" "bi_ok b" "0 \<le> bi_val b" "bi_val b < 64 \<or> is_infinity b"
  shows "wp (bi_shr a b) (\<lambda>r. bi_ok r \<and> bi_val r =
    (if is_infinity a \<or> bi_val a = 0 then bi_val a else if is_infinity b then (if 0 \<le> bi_val a then 0 else - 1)
     else bi_val a div 2 ^ nat (bi_val b)))"
proof -
  have z: "bi_ok (bi_fin 0)" by (simp add: fits_def)
  have geq: "bi_geq b (bi_fin 0)" "bi_geq a (bi_fin 0) \<longleftrightarrow> 0 \<le> bi_val a"
    using bi_geq_iff[OF assms(2) z] bi_geq_iff[OF assms(1) z] assms(3) by simp_all
  show ?thesis
  proof (cases rule: bi_cases[OF assms(1)]; cases rule: bi_cases[OF assms(2)])
    fix v w assume a: "a = bi_fin v" "fits v" and b: "b = bi_fin w" "fits w"
    show ?thesis using geq assms(4) fits_shr[OF a(2)] a(2) by (auto simp: a(1) b(1) bi_shr_def bi_is_zero_def)
  next
    fix v assume a: "a = bi_fin v" "fits v" and b: "b = plus_infinity"
    show ?thesis using geq a(2) by (auto simp: a(1) b bi_shr_def bi_is_zero_def fits_def)
  qed (use geq assms(3) in \<open>auto simp: bi_shr_def bi_is_zero_def\<close>)
qed

end
