(* ===== verification/Access_Path.thy ===== *)
theory Access_Path
  imports Type_Info Bounded_Int
begin

text \<open>
  \<^verbatim>\<open>AccessPath\<close> of \<^verbatim>\<open>svf/include/MemoryModel/AccessPath.h\<close> and \<^verbatim>\<open>svf/lib/MemoryModel/AccessPath.cpp\<close>: the
  indices of a \<^verbatim>\<open>getelementptr\<close>, and the field or byte they designate. The flag \<open>ma\<close> is the option to model
  arrays, \<open>lim\<close> the limit on fields. The main result is that constant indices lead to the place of the element
  they designate in the flattened type.
\<close>

subsection \<open>The class\<close>

text \<open>An index is a variable, a constant one with its value; it is paired with the type it indexes, which is null in
  paths made for library functions.\<close>

datatype ap_var = ConstIntValVar (var_id: "32 word") int | ValVar (var_id: "32 word")

record access_path =
  ap_fldIdx :: int
  ap_pairs :: "(ap_var \<times> ty option) list"
  ap_pointee :: "ty option"

definition ap_new :: "int \<Rightarrow> ty option \<Rightarrow> access_path" where
  "ap_new o' srcTy = \<lparr>ap_fldIdx = o', ap_pairs = [], ap_pointee = srcTy\<rparr>"

definition addOffsetVarAndGepTypePair :: "access_path \<Rightarrow> ap_var \<Rightarrow> ty option \<Rightarrow> access_path" where
  "addOffsetVarAndGepTypePair ap v t = ap\<lparr>ap_pairs := ap_pairs ap @ [(v, t)]\<rparr>"

definition is_ConstInt :: "ap_var \<Rightarrow> bool" where
  "is_ConstInt v \<longleftrightarrow> (case v of ConstIntValVar _ _ \<Rightarrow> True | _ \<Rightarrow> False)"

definition isConstantOffset :: "access_path \<Rightarrow> bool" where
  "isConstantOffset ap \<longleftrightarrow> list_all (\<lambda>(v, t). is_ConstInt v) (ap_pairs ap)"

definition getSExtValue :: "ap_var \<Rightarrow> int option" where
  "getSExtValue v = (case v of ConstIntValVar _ n \<Rightarrow> Some n | _ \<Rightarrow> None)"

text \<open>The conversion of a signed integer to an unsigned one of 32 bits.\<close>

definition to_u32 :: "int \<Rightarrow> nat" where
  "to_u32 n = nat (n mod 2 ^ 32)"

definition getFlattenedElemIdx :: "bool \<Rightarrow> ty \<Rightarrow> nat \<Rightarrow> nat option" where
  "getFlattenedElemIdx ma t origId = do {
     i \<leftarrow> collectTypeInfo t;
     if ma then do {
       let so = si_elemIdx i;
       ensure (origId < length so \<and> so \<noteq> []);
       Some (so ! origId) }
     else (case t of
       TStruct b ts \<Rightarrow> do {
         let so = si_fldIdx i;
         ensure (origId < length so \<and> so \<noteq> []);
         Some (so ! origId) }
     | TArr b n e \<Rightarrow> Some 0
     | _ \<Rightarrow> None) }"

definition getNumOfFlattenElements :: "bool \<Rightarrow> ty \<Rightarrow> nat option" where
  "getNumOfFlattenElements ma t = do {
     i \<leftarrow> collectTypeInfo t;
     Some (if ma then si_numElems i else si_numFields i) }"

definition getElementNum :: "bool \<Rightarrow> nat \<Rightarrow> ty \<Rightarrow> nat option" where
  "getElementNum ma lim t =
    (if is_aggregate t then getNumOfFlattenElements ma t
     else if isPointerTy t then Some lim
     else if isSingleValueType t \<or> t = TFun then Some 1
     else None)"

text \<open>The sizes of the fields before the one of an index; alignment is not looked at.\<close>

definition field_size :: "st_info \<Rightarrow> nat \<Rightarrow> nat option" where
  "field_size i structField = do {
     ensure (structField < length (si_fldIdx i));
     t \<leftarrow> si_getOriginalElemType i (si_fldIdx i ! structField);
     Some (byte_size t) }"

definition getStructFieldOffset :: "ap_var \<Rightarrow> ty \<Rightarrow> nat option" where
  "getStructFieldOffset v t = do {
     n \<leftarrow> getSExtValue v;
     i \<leftarrow> collectTypeInfo t;
     foldM (\<lambda>structField off. do { s \<leftarrow> field_size i structField; Some (u32 (off + s)) }) [0..<to_u32 n] 0 }"

definition byte_step :: "access_path \<Rightarrow> ap_var \<times> ty option \<Rightarrow> int \<Rightarrow> int option" where
  "byte_step ap = (\<lambda>(v, t) tot. do {
     t \<leftarrow> t;
     type2 \<leftarrow> (case t of TArr b n e \<Rightarrow> Some e | _ \<Rightarrow> if isPointerTy t then ap_pointee ap else Some t);
     n \<leftarrow> getSExtValue v;
     (case t of
       TStruct b ts \<Rightarrow> do {
         i \<leftarrow> collectTypeInfo t;
         foldM (\<lambda>structField tot. do { s \<leftarrow> field_size i structField; s64 (tot + int s) }) [0..<to_u32 n] tot }
     | _ \<Rightarrow> do { p \<leftarrow> s64 (n * int (byte_size type2)); s64 (tot + p) }) })"

definition computeConstantByteOffset :: "nat \<Rightarrow> access_path \<Rightarrow> int option" where
  "computeConstantByteOffset lim ap = do {
     ensure (isConstantOffset ap);
     tot \<leftarrow> foldM (byte_step ap) (rev (ap_pairs ap)) 0;
     Some (if int lim > tot then tot else int lim) }"

text \<open>An index beyond the end is taken for the last one, a negative one is left out.\<close>

definition offset_step :: "bool \<Rightarrow> nat \<Rightarrow> access_path \<Rightarrow> ap_var \<times> ty option \<Rightarrow> int \<Rightarrow> int option" where
  "offset_step ma lim ap = (\<lambda>(v, t) tot. do {
     constOffset \<leftarrow> getSExtValue v;
     (case t of
       None \<Rightarrow> s64 (tot + constOffset)
     | Some t \<Rightarrow>
       if isPointerTy t
       then do {
         p \<leftarrow> ap_pointee ap;
         num \<leftarrow> getElementNum ma lim p;
         m \<leftarrow> s64 (constOffset * int num);
         s64 (tot + m) }
       else if constOffset \<ge> 0
       then do {
         i \<leftarrow> collectTypeInfo t;
         let so = si_elemIdx i;
         let offset = (if constOffset \<ge> int (length so) then int (length so) - 1 else constOffset);
         flattenOffset \<leftarrow> getFlattenedElemIdx ma t (to_u32 offset);
         s64 (tot + int flattenOffset) }
       else Some tot) })"

definition computeConstantOffset :: "bool \<Rightarrow> nat \<Rightarrow> access_path \<Rightarrow> int option" where
  "computeConstantOffset ma lim ap = do {
     ensure (isConstantOffset ap);
     if ap_pairs ap = [] then Some (ap_fldIdx ap)
     else foldM (offset_step ma lim ap) (rev (ap_pairs ap)) 0 }"

definition computeAllLocations :: "access_path \<Rightarrow> nat set" where
  "computeAllLocations ap = {to_u32 (ap_fldIdx ap)}"

definition ap_intersects :: "access_path \<Rightarrow> access_path \<Rightarrow> bool" where
  "ap_intersects l r \<longleftrightarrow> computeAllLocations l \<inter> computeAllLocations r \<noteq> {}"

datatype ls_relation = NonOverlap | Overlap | Subset | Superset | Same

definition checkRelation :: "access_path \<Rightarrow> access_path \<Rightarrow> ls_relation" where
  "checkRelation l r =
    (let ls = computeAllLocations l; rs = computeAllLocations r in
     if ls \<inter> rs \<noteq> {}
     then if ls = rs then Same
       else if rs \<subseteq> ls then Superset
       else if ls \<subseteq> rs then Subset
       else Overlap
     else NonOverlap)"

definition ap_eq :: "access_path \<Rightarrow> access_path \<Rightarrow> bool" where
  "ap_eq l r \<longleftrightarrow> ap_fldIdx l = ap_fldIdx r \<and> ap_pairs l = ap_pairs r \<and> ap_pointee l = ap_pointee r"

text \<open>The order; \<open>lt\<close> is that of the pairs of pointers. The loop over the pairs returns in its first turn.\<close>

definition ap_less :: "(ap_var \<times> ty option \<Rightarrow> ap_var \<times> ty option \<Rightarrow> bool) \<Rightarrow> access_path \<Rightarrow> access_path \<Rightarrow> bool" where
  "ap_less lt l r =
    (if ap_fldIdx l \<noteq> ap_fldIdx r then ap_fldIdx l < ap_fldIdx r
     else if length (ap_pairs l) \<noteq> length (ap_pairs r) then length (ap_pairs l) < length (ap_pairs r)
     else case (ap_pairs l, ap_pairs r) of (p # _, q # _) \<Rightarrow> lt p q | _ \<Rightarrow> False)"

subsection \<open>Where constant indices lead\<close>

text \<open>The flattened type that an option looks at, and the type that indices lead to from a type.\<close>

definition flat :: "bool \<Rightarrow> ty \<Rightarrow> ty list" where
  "flat ma t = (if ma then leaves t else ty_fields t)"

fun walk :: "ty \<Rightarrow> (ap_var \<times> ty option) list \<Rightarrow> ty option" where
  "walk t [] = Some t"
| "walk t ((ConstIntValVar v n, Some u) # ps) =
    (if u = t \<and> solid t \<and> 0 \<le> n \<and> n < int (length (parts t)) then walk (parts t ! nat n) ps else None)"
| "walk t (_ # ps) = None"

text \<open>Where that type starts: each index adds the flattened lengths of the parts before the one it selects; the elements
  of an array lie on top of each other when arrays are not modelled.\<close>

definition laid_out :: "bool \<Rightarrow> ty \<Rightarrow> ty list" where
  "laid_out ma t = (if ma then parts t else case t of TStruct b ts \<Rightarrow> ts | _ \<Rightarrow> [])"

fun elem_at :: "bool \<Rightarrow> ty \<Rightarrow> (ap_var \<times> ty option) list \<Rightarrow> nat" where
  "elem_at ma t [] = 0"
| "elem_at ma t ((ConstIntValVar v n, _) # ps) =
    sum_list (map (\<lambda>p. length (flat ma p)) (take (nat n) (laid_out ma t))) + elem_at ma (parts t ! nat n) ps"
| "elem_at ma t (_ # ps) = 0"

lemma is_aggregate_simps [simp]: "is_aggregate (TStruct b ts)" "is_aggregate (TArr b n e)" "\<not> is_aggregate (TInt b)"
  "\<not> is_aggregate (TPtr b)" "\<not> is_aggregate TFun" "\<not> is_aggregate (TOther b s)"
  by (simp_all add: is_aggregate_def)

lemma solid_aggregate: "solid t \<Longrightarrow> is_aggregate t \<and> \<not> isPointerTy t"
  by (cases t) (simp_all add: solid_def)

lemma flat_le: "length (flat ma t) \<le> num_leaves t"
  by (simp add: flat_def num_fields_le)

lemma parts_lt: "ty_ok t \<Longrightarrow> solid t \<Longrightarrow> i < length (parts t) \<Longrightarrow> \<exists>s. collectTypeInfo t = Some s \<and> info_ok t s \<and> length (si_elemIdx s) = length (parts t)"
  using collectTypeInfo_ok[of t] elemIdx_parts[of t] unfolding wp_iff by fastforce

text \<open>One index: the part it selects takes up the elements from the flattened index on.\<close>

lemma flattened_part:
  assumes t: "ty_ok t" "solid t" "i < length (parts t)"
  shows "\<exists>k. k = sum_list (map (\<lambda>p. length (flat ma p)) (take i (laid_out ma t))) \<and>
    getFlattenedElemIdx ma t i = Some k \<and> k + length (flat ma (parts t ! i)) \<le> length (flat ma t) \<and>
    take (length (flat ma (parts t ! i))) (drop k (flat ma t)) = flat ma (parts t ! i)"
proof -
  obtain s where s: "collectTypeInfo t = Some s" "info_ok t s" "length (si_elemIdx s) = length (parts t)"
    using parts_lt[OF t] by blast
  have ne: "parts t \<noteq> []" using t(3) by auto
  have slice: "starts (\<lambda>x. length (f x)) (parts t) ! i + length (f (parts t ! i)) \<le> length (concat (map f (parts t))) \<and>
      take (length (f (parts t ! i))) (drop (starts (\<lambda>x. length (f x)) (parts t) ! i) (concat (map f (parts t)))) = f (parts t ! i)"
    for f :: "ty \<Rightarrow> ty list"
    using slice_concat[OF t(3), of f] starts_room[OF t(3), of "\<lambda>x. length (f x)"] by (simp add: length_concat o_def)
  show ?thesis
  proof (cases ma)
    case True
    have "getFlattenedElemIdx ma t i = Some (starts num_leaves (parts t) ! i)"
      using s t(2,3) elemIdx_parts[OF t(2) s(2)] True ne by (simp add: getFlattenedElemIdx_def Let_def)
    moreover have "starts num_leaves (parts t) ! i = sum_list (map (\<lambda>p. length (flat ma p)) (take i (laid_out ma t)))"
      using starts_nth[OF t(3)] True by (simp add: flat_def laid_out_def)
    ultimately show ?thesis using slice[of leaves] True by (simp add: flat_def leaves_parts[OF t(2)])
  next
    case False
    show ?thesis
    proof (cases t)
      case (TStruct b ts)
      have "length (si_fldIdx s) = length ts" using s(2) by (simp add: TStruct info_ok_def)
      then have "getFlattenedElemIdx ma t i = Some (starts num_fields ts ! i)"
        using s False t(3) ne fldIdx_struct[of b ts s] by (simp add: getFlattenedElemIdx_def Let_def TStruct)
      moreover have "starts num_fields ts ! i = sum_list (map (\<lambda>p. length (flat ma p)) (take i (laid_out ma t)))"
        using starts_nth[of i ts] t(3) False by (simp add: flat_def laid_out_def TStruct)
      ultimately show ?thesis using slice[of ty_fields] False by (simp add: flat_def TStruct)
    next
      case (TArr b n e)
      then have "getFlattenedElemIdx ma t i = Some 0" using s(1) False by (simp add: getFlattenedElemIdx_def)
      moreover have "ty_fields t = ty_fields e" "parts t ! i = e" using t(2,3) by (simp_all add: TArr solid_def)
      ultimately show ?thesis using False by (simp add: flat_def laid_out_def TArr)
    qed (use t(2) in \<open>simp_all add: solid_def\<close>)
  qed
qed

lemma to_u32_small: "0 \<le> n \<Longrightarrow> n < 2 ^ 32 \<Longrightarrow> to_u32 n = nat n"
  by (simp add: to_u32_def)

lemma slice_slice:
  assumes "take c (drop j xs) = ys" "take u (drop k ys) = zs" "k + u \<le> c"
  shows "take u (drop (k + j) xs) = zs"
proof -
  have "take u (drop k (take c (drop j xs))) = take u (drop (k + j) xs)"
    using assms(3) by (simp add: drop_take min_def)
  then show ?thesis using assms(1,2) by simp
qed

lemma s64_range: "0 \<le> n \<Longrightarrow> n \<le> i64_max \<Longrightarrow> s64 n = Some n"
  by (simp add: s64_def)

lemma walk_offset:
  assumes "ty_ok t" "walk t ps = Some u" "0 \<le> a" "a + int (length (flat ma t)) \<le> i64_max"
  shows "foldM (offset_step ma lim ap) (rev ps) a = Some (a + int (elem_at ma t ps)) \<and>
    elem_at ma t ps + length (flat ma u) \<le> length (flat ma t) \<and>
    take (length (flat ma u)) (drop (elem_at ma t ps) (flat ma t)) = flat ma u"
  using assms(1,2,4)
proof (induction t ps rule: walk.induct)
  case (2 t v n u' ps)
  have w: "u' = t" "solid t" "0 \<le> n" "nat n < length (parts t)" "walk (parts t ! nat n) ps = Some u"
    using 2(3) by (auto split: if_splits)
  let ?c = "parts t ! nat n"
  let ?k = "elem_at ma ?c ps"
  obtain j where j: "j = sum_list (map (\<lambda>p. length (flat ma p)) (take (nat n) (laid_out ma t)))"
      "getFlattenedElemIdx ma t (nat n) = Some j" "j + length (flat ma ?c) \<le> length (flat ma t)"
      "take (length (flat ma ?c)) (drop j (flat ma t)) = flat ma ?c"
    using flattened_part[OF 2(2) w(2,4), of ma] by blast
  have c: "ty_ok ?c" by (rule ty_ok_part[OF w(2) 2(2) w(4)])
  have k: "foldM (offset_step ma lim ap) (rev ps) a = Some (a + int ?k)" "?k + length (flat ma u) \<le> length (flat ma ?c)"
      "take (length (flat ma u)) (drop ?k (flat ma ?c)) = flat ma u"
    using 2(1)[OF _ c w(5)] w 2(4) j(3) by force+
  have e: "elem_at ma t ((ConstIntValVar v n, Some u') # ps) = ?k + j" by (simp add: j(1))
  obtain s where s: "collectTypeInfo t = Some s" "length (si_elemIdx s) = length (parts t)"
    using parts_lt[OF 2(2) w(2,4)] by blast
  have n32: "n < 2 ^ 32" "to_u32 n = nat n" using parts_small[OF 2(2) w(2)] w(3,4) by (auto intro: to_u32_small)
  have nl: "\<not> int (length (parts t)) \<le> n" using w(3,4) by linarith
  have "0 \<le> a + int ?k + int j" "a + int ?k + int j \<le> i64_max" using assms(3) 2(4) j(3) k(2) by linarith+
  then have "offset_step ma lim ap (ConstIntValVar v n, Some t) (a + int ?k) = Some (a + int (?k + j))"
    using w(3,4) nl s j(2) n32 solid_aggregate[OF w(2)]
    by (simp add: offset_step_def getSExtValue_def Let_def s64_range add.assoc)
  moreover have "take (length (flat ma u)) (drop (?k + j) (flat ma t)) = flat ma u" by (rule slice_slice[OF j(4) k(3,2)])
  ultimately show ?case using k(1,2) j(3) w(1) unfolding e by (simp add: foldM_append)
qed simp_all

lemma getElementNum_flat:
  assumes "ty_ok t" "\<not> isPointerTy t" "is_aggregate t \<or> isSingleValueType t \<or> t = TFun"
  shows "getElementNum ma lim t = Some (length (flat ma t))"
proof (cases "is_aggregate t")
  case True
  then show ?thesis
    using collectTypeInfo_ok[OF assms(1)] unfolding wp_iff
    by (auto simp: getElementNum_def getNumOfFlattenElements_def flat_def info_ok_def)
next
  case False
  then show ?thesis using assms(2,3) by (cases t) (auto simp: getElementNum_def flat_def)
qed

lemma slice_replicate:
  assumes "take u (drop k xs) = ys" "k + u \<le> length xs" "n < m"
  shows "take u (drop (k + n * length xs) (concat (replicate m xs))) = ys"
proof -
  have m: "replicate m xs = replicate n xs @ xs # replicate (m - Suc n) xs"
    using assms(3) by (metis Suc_diff_Suc add_diff_inverse_nat less_imp_not_less replicate_Suc replicate_add)
  show ?thesis using assms(1,2) by (simp add: m)
qed

text \<open>A constant path from a pointer: the offset is that of the element in the flattened array the pointer points to.\<close>

lemma constant_offset_walk:
  assumes ap: "ap_pairs ap = (ConstIntValVar v n, Some (TPtr b)) # ps" "ap_pointee ap = Some t" "isConstantOffset ap"
    and t: "ty_ok t" "walk t ps = Some u" "\<not> isPointerTy t" "is_aggregate t \<or> isSingleValueType t \<or> t = TFun"
    and n: "0 \<le> n" "(n + 1) * int (length (flat ma t)) \<le> i64_max" "nat n < m"
  shows "computeConstantOffset ma lim ap = Some (n * int (length (flat ma t)) + int (elem_at ma t ps)) \<and>
    take (length (flat ma u)) (drop (nat n * length (flat ma t) + elem_at ma t ps) (concat (replicate m (flat ma t)))) = flat ma u"
proof -
  let ?l = "int (length (flat ma t))"
  let ?k = "elem_at ma t ps"
  have l: "n * ?l + ?l \<le> i64_max" "0 \<le> n * ?l" using n(1,2) by (simp_all add: algebra_simps)
  have k: "foldM (offset_step ma lim ap) (rev ps) 0 = Some (int ?k)" "?k + length (flat ma u) \<le> length (flat ma t)"
      "take (length (flat ma u)) (drop ?k (flat ma t)) = flat ma u"
    using walk_offset[OF t(1,2), of 0 ma lim ap] l by auto
  have "offset_step ma lim ap (ConstIntValVar v n, Some (TPtr b)) (int ?k) = Some (n * ?l + int ?k)"
    using l k(2) n(1) by (simp add: offset_step_def getSExtValue_def ap(2) getElementNum_flat[OF t(1,3,4)] s64_range)
  then have "computeConstantOffset ma lim ap = Some (n * ?l + int ?k)"
    using k(1) ap(1,3) by (simp add: computeConstantOffset_def foldM_append)
  then show ?thesis using slice_replicate[OF k(3,2) n(3)] by (simp add: add.commute)
qed

subsection \<open>Indices out of range\<close>

lemma offset_negative: "n < 0 \<Longrightarrow> \<not> isPointerTy t \<Longrightarrow> offset_step ma lim ap (ConstIntValVar v n, Some t) a = Some a"
  by (simp add: offset_step_def getSExtValue_def)

lemma offset_beyond:
  assumes "ty_ok t" "solid t" "parts t \<noteq> []" "int (length (parts t)) \<le> n"
  shows "offset_step ma lim ap (ConstIntValVar v n, Some t) a =
    offset_step ma lim ap (ConstIntValVar v (int (length (parts t)) - 1), Some t) a"
proof -
  have p: "0 < length (parts t)" using assms(3) by simp
  obtain s where "collectTypeInfo t = Some s" "length (si_elemIdx s) = length (parts t)"
    using parts_lt[OF assms(1,2) p] by blast
  moreover have "0 \<le> n" "0 \<le> int (length (parts t)) - 1" using p assms(4) by linarith+
  ultimately show ?thesis
    using assms(4) solid_aggregate[OF assms(2)] by (simp add: offset_step_def getSExtValue_def Let_def)
qed

subsection \<open>Bytes\<close>

text \<open>The distance in bytes for a layout without padding.\<close>

fun byte_at :: "ty \<Rightarrow> (ap_var \<times> ty option) list \<Rightarrow> nat" where
  "byte_at t ((ConstIntValVar v n, _) # ps) =
    (case t of TStruct b ts \<Rightarrow> sum_list (map byte_size (take (nat n) ts)) | TArr b k e \<Rightarrow> nat n * byte_size e | _ \<Rightarrow> 0) +
    byte_at (parts t ! nat n) ps"
| "byte_at t _ = 0"

text \<open>Every field of the structs on the way has an index of its own.\<close>

fun own_index :: "ty \<Rightarrow> (ap_var \<times> ty option) list \<Rightarrow> bool" where
  "own_index t ((ConstIntValVar v n, _) # ps) \<longleftrightarrow>
    (case t of TStruct b ts \<Rightarrow> \<forall>u\<in>set ts. 0 < num_fields u | _ \<Rightarrow> True) \<and> own_index (parts t ! nat n) ps"
| "own_index t _ \<longleftrightarrow> True"

lemma field_size_ok:
  assumes "info_ok (TStruct b ts) i" "k < length ts" "\<forall>t\<in>set ts. 0 < num_fields t"
  shows "field_size i k = Some (byte_size (ts ! k))"
  using field_type[OF assms] assms(1,2) by (simp add: field_size_def info_ok_def)

lemma field_sizes:
  assumes "info_ok (TStruct b ts) i" "\<forall>t\<in>set ts. 0 < num_fields t" "n \<le> length ts" "0 \<le> a"
    "a + int (sum_list (map byte_size (take n ts))) \<le> i64_max"
  shows "foldM (\<lambda>k tot. do { s \<leftarrow> field_size i k; s64 (tot + int s) }) [0..<n] a =
    Some (a + int (sum_list (map byte_size (take n ts))))"
  using assms(3,5)
proof (induction n)
  case (Suc n)
  have "a + int (sum_list (map byte_size (take n ts))) + int (byte_size (ts ! n)) \<le> i64_max"
    using Suc.prems by (simp add: take_Suc_conv_app_nth)
  then show ?case
    using Suc field_size_ok[OF assms(1) _ assms(2), of n] assms(4)
    by (simp add: foldM_append take_Suc_conv_app_nth s64_range)
qed simp

lemma walk_bytes:
  assumes "ty_ok t" "walk t ps = Some u" "own_index t ps" "0 \<le> a" "a + int (byte_at t ps) \<le> i64_max"
  shows "foldM (byte_step ap) (rev ps) a = Some (a + int (byte_at t ps))"
  using assms(1-3,5)
proof (induction t ps rule: walk.induct)
  case (2 t v n u' ps)
  have w: "u' = t" "solid t" "0 \<le> n" "nat n < length (parts t)" "walk (parts t ! nat n) ps = Some u"
    using 2(3) by (auto split: if_splits)
  let ?c = "parts t ! nat n"
  have n32: "to_u32 n = nat n" using parts_small[OF 2(2) w(2)] w(3,4) by (auto intro: to_u32_small)
  have c: "ty_ok ?c" by (rule ty_ok_part[OF w(2) 2(2) w(4)])
  have ih: "foldM (byte_step ap) (rev ps) a = Some (a + int (byte_at ?c ps))"
  proof (rule 2(1)[OF _ c w(5)])
    show "u' = t \<and> solid t \<and> 0 \<le> n \<and> n < int (length (parts t))" using w by linarith
    show "own_index ?c ps" using 2(4) by simp
    have "byte_at ?c ps \<le> byte_at t ((ConstIntValVar v n, Some u') # ps)" by simp
    then show "a + int (byte_at ?c ps) \<le> i64_max" using 2(5) by linarith
  qed
  have "byte_step ap (ConstIntValVar v n, Some t) (a + int (byte_at ?c ps)) =
      Some (a + int (byte_at t ((ConstIntValVar v n, Some t) # ps)))"
  proof (cases t)
    case (TStruct b ts)
    obtain s where s: "collectTypeInfo t = Some s" "info_ok t s" using parts_lt[OF 2(2) w(2,4)] by blast
    have nf: "\<forall>t\<in>set ts. 0 < num_fields t" "nat n \<le> length ts" using 2(4) w(4) TStruct by simp_all
    have "foldM (\<lambda>k tot. do { s \<leftarrow> field_size s k; s64 (tot + int s) }) [0..<nat n] (a + int (byte_at ?c ps)) =
        Some (a + int (byte_at ?c ps) + int (sum_list (map byte_size (take (nat n) ts))))"
      using field_sizes[OF s(2)[unfolded TStruct] nf, of "a + int (byte_at ?c ps)"] assms(4) 2(5) TStruct by simp
    then show ?thesis using s(1) n32 by (simp add: byte_step_def getSExtValue_def TStruct)
  next
    case (TArr b k e)
    have "int (nat n * byte_size e) = n * int (byte_size e)" using w(3) by simp
    moreover have "0 \<le> n * int (byte_size e)" using w(3) by simp
    moreover have "a + int (byte_at ?c ps) + n * int (byte_size e) \<le> i64_max" using 2(5) w(3) TArr by simp
    ultimately show ?thesis using assms(4) w(3) by (simp add: byte_step_def getSExtValue_def TArr s64_range)
  qed (use w(2) in \<open>simp_all add: solid_def\<close>)
  then show ?case using ih w(1) by (simp add: foldM_append)
qed simp_all

lemma constant_byte_offset:
  assumes ap: "ap_pairs ap = (ConstIntValVar v n, Some (TPtr b)) # ps" "ap_pointee ap = Some t" "isConstantOffset ap"
    and t: "ty_ok t" "walk t ps = Some u" "own_index t ps"
    and n: "0 \<le> n" "n * int (byte_size t) + int (byte_at t ps) \<le> i64_max"
  shows "computeConstantByteOffset lim ap = Some (min (int lim) (n * int (byte_size t) + int (byte_at t ps)))"
proof -
  have b: "0 \<le> n * int (byte_size t)" using n(1) by simp
  have "foldM (byte_step ap) (rev ps) 0 = Some (int (byte_at t ps))" using walk_bytes[OF t, of 0 ap] n b by simp
  then show ?thesis
    using ap n b by (simp add: computeConstantByteOffset_def foldM_append byte_step_def getSExtValue_def s64_range add.commute)
qed

text \<open>With padding the sum is not the offset: the second field of a struct of a byte and a word starts at byte four.\<close>

lemma struct_offset_no_padding: "getStructFieldOffset (ConstIntValVar v 1) (TStruct 8 [TInt 1, TInt 4]) = Some 1"
  by (simp add: getStructFieldOffset_def getSExtValue_def is_aggregate_def collect_element_def si_new_def addFldWithType_def
      setNumOfFieldsAndElems_def si_push_elem_def si_push_field_def si_getOriginalElemType_def u32_def Let_def to_u32_def
      field_size_def)

subsection \<open>Relations and order\<close>

lemma checkRelation_cases: "checkRelation l r = (if ap_intersects l r then Same else NonOverlap)"
  by (auto simp: checkRelation_def ap_intersects_def computeAllLocations_def Let_def)

text \<open>Paths that differ in the second pair only are not ordered, though they are not equal.\<close>

lemma ap_less_partial:
  assumes "\<And>p. \<not> lt p p"
  shows "\<exists>l r. \<not> ap_eq l r \<and> \<not> ap_less lt l r \<and> \<not> ap_less lt r l"
proof -
  let ?ap = "\<lambda>n. \<lparr>ap_fldIdx = 0, ap_pairs = [(ConstIntValVar 1 0, None), (ConstIntValVar 2 n, None)], ap_pointee = None\<rparr>"
  have "\<not> ap_eq (?ap 1) (?ap 2) \<and> \<not> ap_less lt (?ap 1) (?ap 2) \<and> \<not> ap_less lt (?ap 2) (?ap 1)"
    using assms by (simp add: ap_eq_def ap_less_def)
  then show ?thesis by blast
qed

end
