(* ===== verification/Abstract_Domain.thy ===== *)
theory Abstract_Domain
  imports SVF_Prelude
begin

text \<open>
  The contracts of the abstract interpreter's values: what a join promises, and what a widening promises so that
  an iteration ends. \<open>ok\<close> is the invariant of the values, \<open>gam\<close> gives what a value stands for. Intervals,
  abstract values and abstract states provide them.
\<close>

subsection \<open>Joins\<close>

locale join_domain =
  fixes ok :: "'a \<Rightarrow> bool" and gam :: "'a \<Rightarrow> 'v set" and bot :: 'a and join :: "'a \<Rightarrow> 'a \<Rightarrow> 'a option"
  assumes bot_ok: "ok bot"
    and bot_empty: "gam bot = {}"
    and join_law: "ok a \<Longrightarrow> ok b \<Longrightarrow> wp (join a b) (\<lambda>c. ok c \<and> gam a \<subseteq> gam c \<and> gam b \<subseteq> gam c \<and>
      (\<forall>d. ok d \<longrightarrow> gam a \<subseteq> gam d \<longrightarrow> gam b \<subseteq> gam d \<longrightarrow> gam c \<subseteq> gam d))"
begin

text \<open>Joining a list into a value gives the least value above all of them, whatever their order.\<close>

lemma join_list:
  "ok a \<Longrightarrow> list_all ok xs \<Longrightarrow> wp (foldM (\<lambda>x s. join s x) xs a) (\<lambda>c. ok c \<and> gam a \<subseteq> gam c \<and>
     (\<forall>x\<in>set xs. gam x \<subseteq> gam c) \<and>
     (\<forall>d. ok d \<longrightarrow> gam a \<subseteq> gam d \<longrightarrow> (\<forall>x\<in>set xs. gam x \<subseteq> gam d) \<longrightarrow> gam c \<subseteq> gam d))"
proof (induction xs arbitrary: a)
  case (Cons x xs)
  obtain c where c: "join a x = Some c" "ok c" "gam a \<subseteq> gam c" "gam x \<subseteq> gam c"
    and least: "\<And>d. ok d \<Longrightarrow> gam a \<subseteq> gam d \<Longrightarrow> gam x \<subseteq> gam d \<Longrightarrow> gam c \<subseteq> gam d"
    using join_law[of a x] Cons.prems unfolding wp_iff by auto
  obtain e where e: "foldM (\<lambda>x s. join s x) xs c = Some e" "ok e" "gam c \<subseteq> gam e" "\<forall>x\<in>set xs. gam x \<subseteq> gam e"
    and least': "\<And>d. ok d \<Longrightarrow> gam c \<subseteq> gam d \<Longrightarrow> \<forall>x\<in>set xs. gam x \<subseteq> gam d \<Longrightarrow> gam e \<subseteq> gam d"
    using Cons.IH[OF c(2)] Cons.prems(2) unfolding wp_iff by auto
  have "gam e \<subseteq> gam d" if "ok d" "gam a \<subseteq> gam d" "gam x \<subseteq> gam d" "\<forall>x\<in>set xs. gam x \<subseteq> gam d" for d
    by (rule least'[OF that(1) least[OF that(1-3)] that(4)])
  moreover have "gam a \<subseteq> gam e" "gam x \<subseteq> gam e" using c e by blast+
  ultimately show ?case using c(1) e by simp
qed simp

end

subsection \<open>Widening\<close>

locale widen_domain = join_domain +
  fixes widen :: "'a \<Rightarrow> 'a \<Rightarrow> 'a option" and rank :: "'a \<Rightarrow> nat"
  assumes widen_law: "ok a \<Longrightarrow> ok b \<Longrightarrow> wp (widen a b) (\<lambda>c. ok c \<and> gam a \<subseteq> gam c \<and> (c = a \<or> rank c < rank a))"
begin

lemma widen_step:
  assumes "ok a" "ok b" "widen a b = Some c"
  shows "ok c" "gam a \<subseteq> gam c" "c = a \<or> rank c < rank a"
  using widen_law[OF assms(1,2)] assms(3) by simp_all

text \<open>Along a sequence of widenings the value changes at most as often as its rank says.\<close>

lemma widen_chain_aux:
  assumes "ok (x 0)" "\<And>n. ok (y n)" "\<And>n. widen (x n) (y n) = Some (x (Suc n))"
  shows "ok (x n) \<and> card {k. k < n \<and> x (Suc k) \<noteq> x k} + rank (x n) \<le> rank (x 0)"
proof (induction n)
  case (Suc n)
  have step: "ok (x (Suc n))" "x (Suc n) = x n \<or> rank (x (Suc n)) < rank (x n)"
    using widen_step[OF _ assms(2) assms(3)] Suc by auto
  have split: "{k. k < Suc n \<and> x (Suc k) \<noteq> x k} =
      {k. k < n \<and> x (Suc k) \<noteq> x k} \<union> (if x (Suc n) \<noteq> x n then {n} else {})"
    by (auto simp: less_Suc_eq)
  show ?case
  proof (cases "x (Suc n) = x n")
    case True
    then show ?thesis using Suc step(1) unfolding split True by simp
  next
    case False
    then have "card {k. k < Suc n \<and> x (Suc k) \<noteq> x k} = Suc (card {k. k < n \<and> x (Suc k) \<noteq> x k})"
      unfolding split by simp
    then show ?thesis using False Suc step by linarith
  qed
next
  case 0
  have "{k. k < (0 :: nat) \<and> x (Suc k) \<noteq> x k} = {}" by blast
  then show ?case using assms(1) by (metis card.empty add_0 order_refl)
qed

lemma widen_chain:
  assumes "ok (x 0)" "\<And>n. ok (y n)" "\<And>n. widen (x n) (y n) = Some (x (Suc n))"
  shows "finite {n. x (Suc n) \<noteq> x n} \<and> card {n. x (Suc n) \<noteq> x n} \<le> rank (x 0)"
proof (rule finite_if_finite_subsets_card_bdd)
  fix F assume F: "F \<subseteq> {n. x (Suc n) \<noteq> x n}" "finite F"
  obtain n where n: "\<forall>k\<in>F. k < n" by (rule exE[OF iffD1[OF finite_nat_set_iff_bounded F(2)]])
  have "F \<subseteq> {k. k < n \<and> x (Suc k) \<noteq> x k}" using F(1) n by fast
  then have "card F \<le> card {k. k < n \<and> x (Suc k) \<noteq> x k}" by (rule card_mono[rotated]) simp
  also have "\<dots> \<le> rank (x 0)" using widen_chain_aux[of x y n, OF assms] by linarith
  finally show "card F \<le> rank (x 0)" .
qed

text \<open>So from some point on it does not change any more.\<close>

lemma widen_settles:
  assumes "ok (x 0)" "\<And>n. ok (y n)" "\<And>n. widen (x n) (y n) = Some (x (Suc n))"
  shows "\<exists>m. \<forall>n\<ge>m. x n = x m"
proof -
  have "finite {n. x (Suc n) \<noteq> x n}" using widen_chain[of x y, OF assms] by (rule conjunct1)
  then obtain m where m: "\<forall>k\<in>{n. x (Suc n) \<noteq> x n}. k < m" unfolding finite_nat_set_iff_bounded by (rule exE)
  have "x n = x m" if "m \<le> n" for n
    using that
  proof (induction rule: dec_induct)
    case (step n)
    then show ?case using m by (metis (mono_tags, lifting) linorder_not_less mem_Collect_eq)
  qed simp
  then show ?thesis by blast
qed

end

end
