(* ===== verification/Interval_Value.thy ===== *)
theory Interval_Value
  imports Bounded_Int Abstract_Domain
begin

text \<open>
  \<^verbatim>\<open>IntervalValue\<close> of \<^verbatim>\<open>svf/include/AE/Core/IntervalValue.h\<close>: the interval domain of the abstract interpreter,
  with its lattice operations, widening, narrowing and the comparisons, which return an interval of truth
  values. An operation that fails an assertion has no result.
\<close>

subsection \<open>The class\<close>

record interval =
  iv_lb :: bounded_int
  iv_ub :: bounded_int

definition iv_isTop :: "interval \<Rightarrow> bool" where
  "iv_isTop i \<longleftrightarrow> is_minus_infinity (iv_lb i) \<and> is_plus_infinity (iv_ub i)"

definition iv_isBottom :: "interval \<Rightarrow> bool" where
  "iv_isBottom i \<longleftrightarrow> is_plus_infinity (iv_lb i) \<and> is_minus_infinity (iv_ub i)"

definition iv_top :: interval where
  "iv_top = \<lparr>iv_lb = minus_infinity, iv_ub = plus_infinity\<rparr>"

definition iv_bottom :: interval where
  "iv_bottom = \<lparr>iv_lb = plus_infinity, iv_ub = minus_infinity\<rparr>"

text \<open>The constructors: of one number, of two bounds with the assertion, of two numbers.\<close>

definition iv_num :: "int \<Rightarrow> interval" where
  "iv_num n = \<lparr>iv_lb = bi_fin n, iv_ub = bi_fin n\<rparr>"

definition iv_make :: "bounded_int \<Rightarrow> bounded_int \<Rightarrow> interval option" where
  "iv_make lb ub = do {
     let i = \<lparr>iv_lb = lb, iv_ub = ub\<rparr>;
     ensure (iv_isBottom i \<or> bi_leq (iv_lb i) (iv_ub i));
     Some i }"

definition iv_range :: "int \<Rightarrow> int \<Rightarrow> interval option" where
  "iv_range lb ub = iv_make (bi_fin lb) (bi_fin ub)"

definition iv_create :: "bounded_int \<Rightarrow> bounded_int \<Rightarrow> interval option" where
  "iv_create lb ub = (if \<not> bi_leq lb ub then Some iv_bottom else iv_make lb ub)"

text \<open>The assertion of \<^verbatim>\<open>setValue\<close> is about the old bounds.\<close>

definition iv_setValue :: "interval \<Rightarrow> bounded_int \<Rightarrow> bounded_int \<Rightarrow> interval option" where
  "iv_setValue i lb ub = do {
     ensure (iv_isBottom i \<or> bi_leq (iv_lb i) (iv_ub i));
     Some (i\<lparr>iv_lb := lb, iv_ub := ub\<rparr>) }"

definition iv_get_lb :: "interval \<Rightarrow> bounded_int option" where
  "iv_get_lb i = do { ensure (\<not> iv_isBottom i); Some (iv_lb i) }"

definition iv_get_ub :: "interval \<Rightarrow> bounded_int option" where
  "iv_get_ub i = do { ensure (\<not> iv_isBottom i); Some (iv_ub i) }"

definition iv_is_zero :: "interval \<Rightarrow> bool" where
  "iv_is_zero i \<longleftrightarrow> bi_is_zero (iv_lb i) \<and> bi_is_zero (iv_ub i)"

definition iv_is_infinite :: "interval \<Rightarrow> bool" where
  "iv_is_infinite i \<longleftrightarrow> is_infinity (iv_lb i) \<or> is_infinity (iv_ub i)"

definition iv_is_numeral :: "interval \<Rightarrow> bool" where
  "iv_is_numeral i \<longleftrightarrow> bi_equal (iv_lb i) (iv_ub i)"

definition iv_getNumeral :: "interval \<Rightarrow> int option" where
  "iv_getNumeral i = do { ensure (iv_is_numeral i); Some (bi_getNumeral (iv_lb i)) }"

definition iv_contains :: "interval \<Rightarrow> int \<Rightarrow> bool" where
  "iv_contains i n \<longleftrightarrow> bi_leq (iv_lb i) (bi_fin n) \<and> bi_geq (iv_ub i) (bi_fin n)"

definition iv_containedWithin :: "interval \<Rightarrow> interval \<Rightarrow> bool" where
  "iv_containedWithin a b =
    (if iv_isBottom a then True else if iv_isBottom b then False
     else bi_leq (iv_lb b) (iv_lb a) \<and> bi_leq (iv_ub a) (iv_ub b))"

definition iv_contain :: "interval \<Rightarrow> interval \<Rightarrow> bool" where
  "iv_contain a b =
    (if iv_isBottom a then True else if iv_isBottom b then False
     else bi_geq (iv_lb b) (iv_lb a) \<and> bi_geq (iv_ub a) (iv_ub b))"

definition iv_leq :: "interval \<Rightarrow> interval \<Rightarrow> bool" where
  "iv_leq a b =
    (if iv_isBottom a then True else if iv_isBottom b then False else bi_leq (iv_ub a) (iv_lb b))"

definition iv_geq :: "interval \<Rightarrow> interval \<Rightarrow> bool" where
  "iv_geq a b =
    (if iv_isBottom a then True else if iv_isBottom b then False else bi_geq (iv_lb a) (iv_ub b))"

text \<open>No \<^verbatim>\<open>BoundedInt\<close> is real, so the branches of \<^verbatim>\<open>equals\<close> for mixed bounds, which fail, are not reached.\<close>

definition iv_equals :: "interval \<Rightarrow> interval \<Rightarrow> bool" where
  "iv_equals a b =
    (if iv_isBottom a then iv_isBottom b else if iv_isBottom b then False
     else bi_equal (iv_lb a) (iv_lb b) \<and> bi_equal (iv_ub a) (iv_ub b))"

definition iv_join_with :: "interval \<Rightarrow> interval \<Rightarrow> interval option" where
  "iv_join_with a b =
    (if iv_isBottom a then if iv_isBottom b then Some a else iv_setValue a (iv_lb b) (iv_ub b)
     else if iv_isBottom b then Some a
     else iv_setValue a (bi_min (iv_lb a) (iv_lb b)) (bi_max (iv_ub a) (iv_ub b)))"

definition iv_widen_with :: "interval \<Rightarrow> interval \<Rightarrow> interval option" where
  "iv_widen_with a b =
    (if iv_isBottom a then Some (a\<lparr>iv_lb := iv_lb b, iv_ub := iv_ub b\<rparr>)
     else if iv_isBottom b then Some a
     else iv_setValue a (if \<not> bi_leq (iv_lb a) (iv_lb b) then minus_infinity else iv_lb a)
       (if \<not> bi_geq (iv_ub a) (iv_ub b) then plus_infinity else iv_ub a))"

definition iv_narrow_with :: "interval \<Rightarrow> interval \<Rightarrow> interval option" where
  "iv_narrow_with a b =
    (if iv_isBottom a \<or> iv_isBottom b then Some iv_bottom
     else iv_setValue a (if is_infinity (iv_lb a) then iv_lb b else iv_lb a)
       (if is_infinity (iv_ub a) then iv_ub b else iv_ub a))"

definition iv_meet_with :: "interval \<Rightarrow> interval \<Rightarrow> interval option" where
  "iv_meet_with a b =
    (if iv_isBottom a \<or> iv_isBottom b then Some iv_bottom
     else if \<not> bi_leq (bi_max (iv_lb a) (iv_lb b)) (bi_min (iv_ub a) (iv_ub b)) then Some iv_bottom
     else iv_setValue a (bi_max (iv_lb a) (iv_lb b)) (bi_min (iv_ub a) (iv_ub b)))"

subsection \<open>The comparisons\<close>

definition iv_eq :: "interval \<Rightarrow> interval \<Rightarrow> interval option" where
  "iv_eq a b =
    (if iv_isBottom a \<or> iv_isBottom b then Some iv_bottom
     else if iv_isTop a \<or> iv_isTop b then Some iv_top
     else if iv_is_numeral a \<and> iv_is_numeral b
     then if bi_equal (iv_lb a) (iv_lb b) then iv_range 1 1 else iv_range 0 0
     else do { v \<leftarrow> iv_meet_with a b; if iv_isBottom v then iv_range 0 0 else iv_range 0 1 })"

definition iv_ne :: "interval \<Rightarrow> interval \<Rightarrow> interval option" where
  "iv_ne a b =
    (if iv_isBottom a \<or> iv_isBottom b then Some iv_bottom
     else if iv_isTop a \<or> iv_isTop b then Some iv_top
     else if iv_is_numeral a \<and> iv_is_numeral b
     then if bi_equal (iv_lb a) (iv_lb b) then iv_range 0 0 else iv_range 1 1
     else do { v \<leftarrow> iv_meet_with a b; if \<not> iv_isBottom v then iv_range 0 1 else iv_range 1 1 })"

definition iv_gt :: "interval \<Rightarrow> interval \<Rightarrow> interval option" where
  "iv_gt a b =
    (if iv_isBottom a \<or> iv_isBottom b then Some iv_bottom
     else if iv_isTop a \<or> iv_isTop b then Some iv_top
     else if iv_is_numeral a \<and> iv_is_numeral b
     then if bi_leq (iv_lb a) (iv_lb b) then iv_range 0 0 else iv_range 1 1
     else if \<not> bi_leq (iv_lb a) (iv_ub b) then iv_range 1 1
     else if bi_leq (iv_ub a) (iv_lb b) then iv_range 0 0
     else iv_range 0 1)"

definition iv_lt :: "interval \<Rightarrow> interval \<Rightarrow> interval option" where
  "iv_lt a b =
    (if iv_isBottom a \<or> iv_isBottom b then Some iv_bottom
     else if iv_isTop a \<or> iv_isTop b then Some iv_top
     else if iv_is_numeral a \<and> iv_is_numeral b
     then if bi_geq (iv_lb a) (iv_lb b) then iv_range 0 0 else iv_range 1 1
     else if \<not> bi_geq (iv_ub a) (iv_lb b) then iv_range 1 1
     else if bi_geq (iv_lb a) (iv_ub b) then iv_range 0 0
     else iv_range 0 1)"

definition iv_ge :: "interval \<Rightarrow> interval \<Rightarrow> interval option" where
  "iv_ge a b =
    (if iv_isBottom a \<or> iv_isBottom b then Some iv_bottom
     else if iv_isTop a \<or> iv_isTop b then Some iv_top
     else if iv_is_numeral a \<and> iv_is_numeral b
     then if bi_geq (iv_lb a) (iv_lb b) then iv_range 1 1 else iv_range 0 0
     else if bi_geq (iv_lb a) (iv_ub b) then iv_range 1 1
     else if \<not> bi_geq (iv_ub a) (iv_lb b) then iv_range 0 0
     else iv_range 0 1)"

definition iv_le :: "interval \<Rightarrow> interval \<Rightarrow> interval option" where
  "iv_le a b =
    (if iv_isBottom a \<or> iv_isBottom b then Some iv_bottom
     else if iv_isTop a \<or> iv_isTop b then Some iv_top
     else if iv_is_numeral a \<and> iv_is_numeral b
     then if bi_leq (iv_lb a) (iv_lb b) then iv_range 1 1 else iv_range 0 0
     else if bi_leq (iv_ub a) (iv_lb b) then iv_range 1 1
     else if \<not> bi_leq (iv_lb a) (iv_ub b) then iv_range 0 0
     else iv_range 0 1)"

subsection \<open>The values of an interval\<close>

definition iv_set :: "interval \<Rightarrow> int set" where
  "iv_set i = {x. fits x \<and> bi_val (iv_lb i) \<le> x \<and> x \<le> bi_val (iv_ub i)}"

text \<open>Bottom, or bounds in order with a value between them.\<close>

definition iv_ok :: "interval \<Rightarrow> bool" where
  "iv_ok i \<longleftrightarrow> bi_ok (iv_lb i) \<and> bi_ok (iv_ub i) \<and>
     (iv_isBottom i \<or> bi_val (iv_lb i) \<le> bi_val (iv_ub i) \<and> bi_val (iv_lb i) \<noteq> big \<and> bi_val (iv_ub i) \<noteq> - big)"

lemma mem_iv_set: "x \<in> iv_set i \<longleftrightarrow> fits x \<and> bi_val (iv_lb i) \<le> x \<and> x \<le> bi_val (iv_ub i)"
  by (simp add: iv_set_def)

lemma iv_const_simps [simp]:
  "iv_isBottom iv_bottom" "iv_isTop iv_top" "\<not> iv_isTop iv_bottom" "\<not> iv_isBottom iv_top"
  "iv_ok iv_bottom" "iv_ok iv_top" "iv_set iv_bottom = {}" "iv_set iv_top = {x. fits x}"
  by (auto simp: iv_isBottom_def iv_isTop_def iv_bottom_def iv_top_def iv_ok_def iv_set_def fits_def)

lemma iv_bottom_iff: "iv_ok i \<Longrightarrow> iv_isBottom i \<longleftrightarrow> i = iv_bottom"
  by (cases i) (auto simp: iv_ok_def iv_isBottom_def iv_bottom_def bi_plus_iff bi_minus_iff)

lemma iv_top_iff: "iv_ok i \<Longrightarrow> iv_isTop i \<longleftrightarrow> i = iv_top"
  by (cases i) (auto simp: iv_ok_def iv_isTop_def iv_top_def bi_plus_iff bi_minus_iff)

text \<open>An interval that is not bottom.\<close>

lemma iv_ok_cases:
  assumes "iv_ok i"
  obtains "i = iv_bottom" | "\<not> iv_isBottom i" "bi_ok (iv_lb i)" "bi_ok (iv_ub i)" "bi_val (iv_lb i) \<le> bi_val (iv_ub i)"
    "bi_val (iv_lb i) < big" "- big < bi_val (iv_ub i)"
proof (cases "iv_isBottom i")
  case True
  then show ?thesis using that(1) iv_bottom_iff[OF assms] by blast
next
  case False
  then show ?thesis
    using that(2) assms bi_val_range[of "iv_lb i"] bi_val_range[of "iv_ub i"] by (auto simp: iv_ok_def)
qed

lemma iv_set_nonempty:
  assumes "iv_ok i"
  shows "iv_set i = {} \<longleftrightarrow> iv_isBottom i"
proof (cases rule: iv_ok_cases[OF assms])
  case 2
  let ?x = "if is_infinity (iv_lb i) then if is_infinity (iv_ub i) then 0 else bi_val (iv_ub i) else bi_val (iv_lb i)"
  have "?x \<in> iv_set i"
    using 2(4-6) by (cases rule: bi_cases[OF 2(2)]; cases rule: bi_cases[OF 2(3)]) (auto simp: mem_iv_set fits_def)
  then show ?thesis using 2(1) by blast
qed simp

text \<open>An interval with a value, made from two good bounds.\<close>

lemma iv_okI: "bi_ok l \<Longrightarrow> bi_ok u \<Longrightarrow> fits x \<Longrightarrow> bi_val l \<le> x \<Longrightarrow> x \<le> bi_val u \<Longrightarrow> iv_ok \<lparr>iv_lb = l, iv_ub = u\<rparr>"
  by (auto simp: iv_ok_def fits_def)

lemma iv_make_ok:
  assumes "bi_ok l" "bi_ok u" "bi_val l \<le> bi_val u"
  shows "iv_make l u = Some \<lparr>iv_lb = l, iv_ub = u\<rparr>"
  using assms by (simp add: iv_make_def bi_leq_iff)

lemma iv_range_ok:
  assumes "fits l" "fits u" "l \<le> u"
  shows "wp (iv_range l u) (\<lambda>i. iv_ok i \<and> iv_set i = {l..u})"
proof -
  have "iv_make (bi_fin l) (bi_fin u) = Some \<lparr>iv_lb = bi_fin l, iv_ub = bi_fin u\<rparr>"
    using assms by (intro iv_make_ok) simp_all
  then show ?thesis using assms by (auto simp: iv_range_def iv_ok_def iv_set_def fits_def)
qed

lemma iv_num_ok: "fits n \<Longrightarrow> iv_ok (iv_num n) \<and> iv_set (iv_num n) = {n}"
  by (auto simp: iv_num_def iv_ok_def iv_set_def fits_def)

lemma iv_contains_iff: "iv_ok i \<Longrightarrow> fits n \<Longrightarrow> iv_contains i n \<longleftrightarrow> n \<in> iv_set i"
  by (auto simp: iv_ok_def iv_contains_def mem_iv_set bi_leq_iff bi_geq_iff)

lemma iv_setValue_ok:
  assumes "iv_ok i"
  shows "iv_setValue i l u = Some \<lparr>iv_lb = l, iv_ub = u\<rparr>"
proof -
  have "iv_isBottom i \<or> bi_leq (iv_lb i) (iv_ub i)" using assms by (auto simp: iv_ok_def bi_leq_iff)
  moreover have "i\<lparr>iv_lb := l, iv_ub := u\<rparr> = \<lparr>iv_lb = l, iv_ub = u\<rparr>" by (cases i) simp
  ultimately show ?thesis by (simp add: iv_setValue_def)
qed

subsection \<open>The lattice operations\<close>

text \<open>The smallest and the largest value of an interval.\<close>

lemma iv_ends:
  assumes "iv_ok i" "\<not> iv_isBottom i"
  shows "max (- i64_max) (bi_val (iv_lb i)) \<in> iv_set i" "min i64_max (bi_val (iv_ub i)) \<in> iv_set i"
proof -
  have o: "bi_ok (iv_lb i)" "bi_ok (iv_ub i)" "bi_val (iv_lb i) \<le> bi_val (iv_ub i)"
    "bi_val (iv_lb i) \<noteq> big" "bi_val (iv_ub i) \<noteq> - big"
    using assms by (auto simp: iv_ok_def)
  show "max (- i64_max) (bi_val (iv_lb i)) \<in> iv_set i" "min i64_max (bi_val (iv_ub i)) \<in> iv_set i"
    using o(3-5) by (cases rule: bi_cases[OF o(1)]; cases rule: bi_cases[OF o(2)]; simp add: mem_iv_set fits_def)+
qed

lemma iv_subset_iff:
  assumes "iv_ok a" "\<not> iv_isBottom a"
  shows "iv_set a \<subseteq> iv_set b \<longleftrightarrow>
    bi_val (iv_lb b) \<le> max (- i64_max) (bi_val (iv_lb a)) \<and> min i64_max (bi_val (iv_ub a)) \<le> bi_val (iv_ub b)"
proof
  assume "iv_set a \<subseteq> iv_set b"
  from iv_ends[OF assms, THEN subsetD[OF this]]
  show "bi_val (iv_lb b) \<le> max (- i64_max) (bi_val (iv_lb a)) \<and> min i64_max (bi_val (iv_ub a)) \<le> bi_val (iv_ub b)"
    by (simp add: mem_iv_set)
qed (auto simp: mem_iv_set fits_def)

lemma iv_okD:
  assumes "iv_ok i" "\<not> iv_isBottom i"
  shows "bi_ok (iv_lb i)" "bi_ok (iv_ub i)" "bi_val (iv_lb i) \<le> bi_val (iv_ub i)"
    "bi_val (iv_lb i) < big" "- big < bi_val (iv_ub i)"
  using assms bi_val_range[of "iv_lb i"] bi_val_range[of "iv_ub i"] by (auto simp: iv_ok_def)

lemma iv_new_ok:
  assumes "bi_ok l" "bi_ok u" "bi_val l \<le> bi_val u" "bi_val l < big" "- big < bi_val u"
  shows "iv_ok \<lparr>iv_lb = l, iv_ub = u\<rparr>" "\<not> iv_isBottom \<lparr>iv_lb = l, iv_ub = u\<rparr>"
  using assms by (auto simp: iv_ok_def iv_isBottom_def bi_plus_iff bi_minus_iff)

text \<open>Join gives the smallest interval that contains both.\<close>

lemma iv_join_ok:
  assumes "iv_ok a" "iv_ok b"
  shows "wp (iv_join_with a b) (\<lambda>c. iv_ok c \<and> iv_set a \<subseteq> iv_set c \<and> iv_set b \<subseteq> iv_set c \<and>
     (\<forall>d. iv_ok d \<longrightarrow> iv_set a \<subseteq> iv_set d \<longrightarrow> iv_set b \<subseteq> iv_set d \<longrightarrow> iv_set c \<subseteq> iv_set d))"
proof (cases "iv_isBottom a \<or> iv_isBottom b")
  case True
  have b: "\<lparr>iv_lb = iv_lb b, iv_ub = iv_ub b\<rparr> = b" by (cases b) simp
  have e: "iv_isBottom c \<Longrightarrow> iv_ok c \<Longrightarrow> iv_set c = {}" for c using iv_set_nonempty by blast
  show ?thesis
    using True assms e[OF _ assms(1)] e[OF _ assms(2)]
    by (cases "iv_isBottom a"; cases "iv_isBottom b") (simp_all add: iv_join_with_def iv_setValue_ok b)
next
  case False
  then have ab: "\<not> iv_isBottom a" "\<not> iv_isBottom b" by simp_all
  note o = iv_okD[OF assms(1) ab(1)] iv_okD[OF assms(2) ab(2)]
  let ?l = "bi_min (iv_lb a) (iv_lb b)" and ?u = "bi_max (iv_ub a) (iv_ub b)"
  let ?c = "\<lparr>iv_lb = ?l, iv_ub = ?u\<rparr>"
  note l = bi_min_ok[OF o(1,6)] and u = bi_max_ok[OF o(2,7)]
  have c: "iv_join_with a b = Some ?c" using ab by (simp add: iv_join_with_def iv_setValue_ok[OF assms(1)])
  have n: "iv_ok ?c" "\<not> iv_isBottom ?c" using l u o by (intro iv_new_ok; auto)+
  moreover have "iv_set a \<subseteq> iv_set ?c" "iv_set b \<subseteq> iv_set ?c" using l u by (auto simp: mem_iv_set)
  moreover have "iv_set ?c \<subseteq> iv_set d" if "iv_set a \<subseteq> iv_set d" "iv_set b \<subseteq> iv_set d" for d
    using that l u iv_subset_iff[OF assms(1) ab(1), of d] iv_subset_iff[OF assms(2) ab(2), of d]
      iv_subset_iff[OF n, of d] by auto
  ultimately show ?thesis using c by simp
qed

text \<open>Meet gives the intersection.\<close>

lemma iv_meet_ok:
  assumes "iv_ok a" "iv_ok b"
  shows "wp (iv_meet_with a b) (\<lambda>c. iv_ok c \<and> iv_set c = iv_set a \<inter> iv_set b)"
proof (cases "iv_isBottom a \<or> iv_isBottom b")
  case True
  then show ?thesis using assms iv_set_nonempty by (auto simp: iv_meet_with_def)
next
  case False
  then have ab: "\<not> iv_isBottom a" "\<not> iv_isBottom b" by simp_all
  note o = iv_okD[OF assms(1) ab(1)] iv_okD[OF assms(2) ab(2)]
  let ?l = "bi_max (iv_lb a) (iv_lb b)" and ?u = "bi_min (iv_ub a) (iv_ub b)"
  note l = bi_max_ok[OF o(1,6)] and u = bi_min_ok[OF o(2,7)]
  have leq: "bi_leq ?l ?u \<longleftrightarrow> bi_val ?l \<le> bi_val ?u" using l u by (intro bi_leq_iff) auto
  have s: "iv_set \<lparr>iv_lb = ?l, iv_ub = ?u\<rparr> = iv_set a \<inter> iv_set b" using l u by (auto simp: mem_iv_set)
  show ?thesis
  proof (cases "bi_val ?l \<le> bi_val ?u")
    case True
    have "iv_ok \<lparr>iv_lb = ?l, iv_ub = ?u\<rparr>" using l u o True by (intro iv_new_ok) auto
    then show ?thesis using s ab True by (simp add: iv_meet_with_def leq iv_setValue_ok[OF assms(1)])
  next
    case False
    then have "iv_set a \<inter> iv_set b = {}" using l u by (auto simp: mem_iv_set)
    then show ?thesis using ab False by (simp add: iv_meet_with_def leq)
  qed
qed

subsection \<open>Widening and narrowing\<close>

text \<open>How often a bound can still be given up.\<close>

definition iv_rank :: "interval \<Rightarrow> nat" where
  "iv_rank i = (if iv_isBottom i then 3
     else (if is_minus_infinity (iv_lb i) then 0 else 1) + (if is_plus_infinity (iv_ub i) then 0 else 1))"

lemma iv_eta [simp]: "\<lparr>iv_lb = iv_lb i, iv_ub = iv_ub i\<rparr> = i" for i :: interval
  by (cases i) simp

lemma iv_widen_ok:
  assumes "iv_ok a" "iv_ok b"
  shows "wp (iv_widen_with a b) (\<lambda>c. iv_ok c \<and> iv_set a \<subseteq> iv_set c \<and> iv_set b \<subseteq> iv_set c \<and>
     (c = a \<or> iv_rank c < iv_rank a))"
proof (cases "iv_isBottom a \<or> iv_isBottom b")
  case True
  have e: "iv_isBottom c \<Longrightarrow> iv_ok c \<Longrightarrow> iv_set c = {}" for c using iv_set_nonempty by blast
  have u: "a\<lparr>iv_lb := iv_lb b, iv_ub := iv_ub b\<rparr> = b" by (cases a; cases b) simp
  show ?thesis
  proof (cases "iv_isBottom a")
    case True
    have "b = a \<or> iv_rank b < iv_rank a"
      using True iv_bottom_iff[OF assms(1)] iv_bottom_iff[OF assms(2)] by (auto simp: iv_rank_def)
    moreover have "iv_widen_with a b = Some b" using True unfolding iv_widen_with_def u by simp
    ultimately show ?thesis using assms e[OF True assms(1)] by simp
  next
    case False
    then show ?thesis using True assms e[OF _ assms(2)] by (simp add: iv_widen_with_def)
  qed
next
  case False
  then have ab: "\<not> iv_isBottom a" "\<not> iv_isBottom b" by simp_all
  note o = iv_okD[OF assms(1) ab(1)] iv_okD[OF assms(2) ab(2)]
  let ?l = "if \<not> bi_leq (iv_lb a) (iv_lb b) then minus_infinity else iv_lb a"
  let ?u = "if \<not> bi_geq (iv_ub a) (iv_ub b) then plus_infinity else iv_ub a"
  let ?c = "\<lparr>iv_lb = ?l, iv_ub = ?u\<rparr>"
  have leq: "bi_leq (iv_lb a) (iv_lb b) \<longleftrightarrow> bi_val (iv_lb a) \<le> bi_val (iv_lb b)"
    "bi_geq (iv_ub a) (iv_ub b) \<longleftrightarrow> bi_val (iv_ub b) \<le> bi_val (iv_ub a)"
    using o by (simp_all add: bi_leq_iff bi_geq_iff)
  have r: "- big \<le> bi_val (iv_ub a)" "bi_val (iv_lb a) \<le> big" "- big \<le> bi_val (iv_lb b)" "bi_val (iv_ub b) \<le> big"
    using bi_val_range o by auto
  have n: "iv_ok ?c" "\<not> iv_isBottom ?c" using o r by (intro iv_new_ok; simp add: leq)+
  have "iv_set a \<subseteq> iv_set ?c" "iv_set b \<subseteq> iv_set ?c" using leq by (auto simp: mem_iv_set fits_def)
  moreover have "?c = a \<or> iv_rank ?c < iv_rank a"
  proof (cases "bi_leq (iv_lb a) (iv_lb b) \<and> bi_geq (iv_ub a) (iv_ub b)")
    case True
    then show ?thesis by simp
  next
    case False
    have "is_minus_infinity (iv_lb a) \<Longrightarrow> bi_leq (iv_lb a) (iv_lb b)" "is_plus_infinity (iv_ub a) \<Longrightarrow> bi_geq (iv_ub a) (iv_ub b)"
      using leq r by (auto simp: bi_minus_iff[OF o(1)] bi_plus_iff[OF o(2)])
    then show ?thesis using False ab(1) n(2) by (auto simp: iv_rank_def)
  qed
  ultimately show ?thesis using n ab by (simp add: iv_widen_with_def iv_setValue_ok[OF assms(1)])
qed

text \<open>Narrowing by an interval inside gives up infinite bounds only, and stays above that interval.\<close>

lemma iv_containedWithin_subset:
  assumes "iv_ok a" "iv_ok b" "iv_containedWithin a b"
  shows "iv_set a \<subseteq> iv_set b"
proof (cases "iv_isBottom a")
  case True
  then show ?thesis using iv_set_nonempty[OF assms(1)] by simp
next
  case False
  then have nb: "\<not> iv_isBottom b" using assms(3) by (auto simp: iv_containedWithin_def split: if_splits)
  note o = iv_okD[OF assms(1) False] iv_okD[OF assms(2) nb]
  then show ?thesis using assms(3) False nb by (auto simp: iv_containedWithin_def mem_iv_set bi_leq_iff)
qed

lemma iv_narrow_ok:
  assumes "iv_ok a" "iv_ok b" "iv_containedWithin b a"
  shows "wp (iv_narrow_with a b) (\<lambda>c. iv_ok c \<and> iv_containedWithin b c \<and> iv_containedWithin c a)"
proof (cases "iv_isBottom a \<or> iv_isBottom b")
  case True
  then have "iv_isBottom b" using assms(3) by (auto simp: iv_containedWithin_def split: if_splits)
  then show ?thesis by (simp add: iv_narrow_with_def iv_containedWithin_def)
next
  case False
  then have ab: "\<not> iv_isBottom a" "\<not> iv_isBottom b" by simp_all
  note o = iv_okD[OF assms(1) ab(1)] iv_okD[OF assms(2) ab(2)]
  let ?l = "if is_infinity (iv_lb a) then iv_lb b else iv_lb a"
  let ?u = "if is_infinity (iv_ub a) then iv_ub b else iv_ub a"
  let ?c = "\<lparr>iv_lb = ?l, iv_ub = ?u\<rparr>"
  have s: "bi_val (iv_lb a) \<le> bi_val (iv_lb b)" "bi_val (iv_ub b) \<le> bi_val (iv_ub a)"
    using assms(3) ab o by (auto simp: iv_containedWithin_def bi_leq_iff)
  have lu: "bi_ok ?l" "bi_ok ?u" "bi_val (iv_lb a) \<le> bi_val ?l" "bi_val ?l \<le> bi_val (iv_lb b)"
    "bi_val (iv_ub b) \<le> bi_val ?u" "bi_val ?u \<le> bi_val (iv_ub a)"
    using o s by auto
  have n: "iv_ok ?c" "\<not> iv_isBottom ?c" using lu o by (intro iv_new_ok; linarith | assumption)+
  then show ?thesis
    using ab lu o by (simp add: iv_narrow_with_def iv_setValue_ok[OF assms(1)] iv_containedWithin_def bi_leq_iff)
qed

text \<open>The two tests for containment agree with each other on intervals that are not bottom.\<close>

lemma iv_contain_iff:
  assumes "iv_ok a" "iv_ok b" "\<not> iv_isBottom a"
  shows "iv_contain a b \<longleftrightarrow> iv_containedWithin b a \<and> \<not> iv_isBottom b"
  using assms iv_okD[OF assms(1,3)] iv_okD[OF assms(2)]
  by (auto simp: iv_contain_def iv_containedWithin_def bi_leq_iff bi_geq_iff)

subsection \<open>The comparisons are sound\<close>

definition truth :: "bool \<Rightarrow> int" where
  "truth b = (if b then 1 else 0)"

text \<open>The three answers: no, yes, and both.\<close>

lemma iv_truth [simp]:
  "iv_range 0 0 = Some (iv_num 0)" "iv_range 1 1 = Some (iv_num 1)"
  "iv_range 0 1 = Some \<lparr>iv_lb = bi_fin 0, iv_ub = bi_fin 1\<rparr>"
  "iv_ok (iv_num 0)" "iv_ok (iv_num 1)" "iv_ok \<lparr>iv_lb = bi_fin 0, iv_ub = bi_fin 1\<rparr>"
  "iv_set (iv_num 0) = {0}" "iv_set (iv_num 1) = {1}" "truth b \<in> iv_set \<lparr>iv_lb = bi_fin 0, iv_ub = bi_fin 1\<rparr>"
  "truth b \<in> iv_set iv_top" "fits (truth b)" "truth b = 0 \<longleftrightarrow> \<not> b" "truth b = 1 \<longleftrightarrow> b"
  by (auto simp: iv_range_def iv_make_def iv_num_def bi_leq_def iv_ok_def iv_set_def fits_def truth_def ensure_def iv_top_def)

lemma iv_mem_not_bottom: "x \<in> iv_set i \<Longrightarrow> iv_ok i \<Longrightarrow> \<not> iv_isBottom i"
  using iv_set_nonempty by blast

lemma iv_mem_num:
  assumes "iv_ok i" "x \<in> iv_set i" "iv_is_numeral i"
  shows "bi_val (iv_lb i) = x" "bi_val (iv_ub i) = x"
  using assms by (auto simp: iv_is_numeral_def mem_iv_set bi_equal_iff)

text \<open>Two intervals with a value each.\<close>

lemma iv_pair_cases:
  assumes "iv_ok a" "iv_ok b" "x \<in> iv_set a" "y \<in> iv_set b"
  shows "\<not> iv_isBottom a" "\<not> iv_isBottom b" "bi_ok (iv_lb a)" "bi_ok (iv_ub a)" "bi_ok (iv_lb b)" "bi_ok (iv_ub b)"
    "bi_val (iv_lb a) \<le> x" "x \<le> bi_val (iv_ub a)" "bi_val (iv_lb b) \<le> y" "y \<le> bi_val (iv_ub b)" "fits x" "fits y"
  using iv_mem_not_bottom[OF assms(3,1)] iv_mem_not_bottom[OF assms(4,2)] assms by (auto simp: mem_iv_set iv_ok_def)

lemma iv_gt_ok:
  assumes "iv_ok a" "iv_ok b" "x \<in> iv_set a" "y \<in> iv_set b"
  shows "wp (iv_gt a b) (\<lambda>c. iv_ok c \<and> truth (x > y) \<in> iv_set c)"
  using iv_pair_cases[OF assms] iv_mem_num[OF assms(1,3)] iv_mem_num[OF assms(2,4)] by (auto simp: iv_gt_def bi_leq_iff)

lemma iv_lt_ok:
  assumes "iv_ok a" "iv_ok b" "x \<in> iv_set a" "y \<in> iv_set b"
  shows "wp (iv_lt a b) (\<lambda>c. iv_ok c \<and> truth (x < y) \<in> iv_set c)"
  using iv_pair_cases[OF assms] iv_mem_num[OF assms(1,3)] iv_mem_num[OF assms(2,4)] by (auto simp: iv_lt_def bi_geq_iff)

lemma iv_ge_ok:
  assumes "iv_ok a" "iv_ok b" "x \<in> iv_set a" "y \<in> iv_set b"
  shows "wp (iv_ge a b) (\<lambda>c. iv_ok c \<and> truth (x \<ge> y) \<in> iv_set c)"
  using iv_pair_cases[OF assms] iv_mem_num[OF assms(1,3)] iv_mem_num[OF assms(2,4)] by (auto simp: iv_ge_def bi_geq_iff)

lemma iv_le_ok:
  assumes "iv_ok a" "iv_ok b" "x \<in> iv_set a" "y \<in> iv_set b"
  shows "wp (iv_le a b) (\<lambda>c. iv_ok c \<and> truth (x \<le> y) \<in> iv_set c)"
  using iv_pair_cases[OF assms] iv_mem_num[OF assms(1,3)] iv_mem_num[OF assms(2,4)] by (auto simp: iv_le_def bi_leq_iff)

lemma iv_eq_ok:
  assumes "iv_ok a" "iv_ok b" "x \<in> iv_set a" "y \<in> iv_set b"
  shows "wp (iv_eq a b) (\<lambda>c. iv_ok c \<and> truth (x = y) \<in> iv_set c)"
proof -
  note p = iv_pair_cases[OF assms] and n = iv_mem_num[OF assms(1,3)] iv_mem_num[OF assms(2,4)]
  obtain v where v: "iv_meet_with a b = Some v" "iv_ok v" "iv_set v = iv_set a \<inter> iv_set b"
    using iv_meet_ok[OF assms(1,2)] unfolding wp_iff by blast
  have "x \<noteq> y" if "iv_isBottom v" using that v assms(3,4) iv_set_nonempty[OF v(2)] by auto
  then show ?thesis using p n v(1) by (auto simp: iv_eq_def bi_equal_iff bi_val_inject[symmetric])
qed

lemma iv_ne_ok:
  assumes "iv_ok a" "iv_ok b" "x \<in> iv_set a" "y \<in> iv_set b"
  shows "wp (iv_ne a b) (\<lambda>c. iv_ok c \<and> truth (x \<noteq> y) \<in> iv_set c)"
proof -
  note p = iv_pair_cases[OF assms] and n = iv_mem_num[OF assms(1,3)] iv_mem_num[OF assms(2,4)]
  obtain v where v: "iv_meet_with a b = Some v" "iv_ok v" "iv_set v = iv_set a \<inter> iv_set b"
    using iv_meet_ok[OF assms(1,2)] unfolding wp_iff by blast
  have "x \<noteq> y" if "iv_isBottom v" using that v assms(3,4) iv_set_nonempty[OF v(2)] by auto
  then show ?thesis using p n v(1) by (auto simp: iv_ne_def bi_equal_iff bi_val_inject[symmetric])
qed

subsection \<open>The intervals as an abstract domain\<close>

interpretation iv_dom: widen_domain iv_ok iv_set iv_bottom iv_join_with iv_widen_with iv_rank
proof
  fix a b assume "iv_ok a" "iv_ok b"
  then show "wp (iv_widen_with a b) (\<lambda>c. iv_ok c \<and> iv_set a \<subseteq> iv_set c \<and> (c = a \<or> iv_rank c < iv_rank a))"
    by (rule wp_mono[OF iv_widen_ok]) simp
qed (use iv_join_ok in auto)

lemma iv_rank_le: "iv_rank i \<le> 3"
  by (simp add: iv_rank_def)

text \<open>Two good intervals are equal only when their bounds are.\<close>

lemma iv_equals_iff:
  assumes "iv_ok a" "iv_ok b"
  shows "iv_equals a b \<longleftrightarrow> a = b"
proof (cases "iv_isBottom a \<or> iv_isBottom b")
  case True
  then show ?thesis using iv_bottom_iff[OF assms(1)] iv_bottom_iff[OF assms(2)] by (auto simp: iv_equals_def)
next
  case False
  then show ?thesis by (cases a; cases b) (simp add: iv_equals_def bi_equal_iff)
qed

end
