(* ===== verification/Interval_Arith.thy ===== *)
theory Interval_Arith
  imports Interval_Value
begin

text \<open>
  The arithmetic, shift and bitwise operators of \<^verbatim>\<open>svf/include/AE/Core/IntervalValue.h\<close>. Each is sound: the
  interval contains the value the program computes from two values of the operands, when that value fits the
  64-bit type. Division and right shift call themselves on the parts of an interval on each side of zero.
\<close>

subsection \<open>Addition, subtraction, multiplication\<close>

definition iv_add :: "interval \<Rightarrow> interval \<Rightarrow> interval option" where
  "iv_add a b =
    (if iv_isBottom a \<or> iv_isBottom b then Some iv_bottom
     else if iv_isTop a \<or> iv_isTop b then Some iv_top
     else do { l \<leftarrow> bi_safeAdd (iv_lb a) (iv_lb b); u \<leftarrow> bi_safeAdd (iv_ub a) (iv_ub b); iv_make l u })"

definition iv_sub :: "interval \<Rightarrow> interval \<Rightarrow> interval option" where
  "iv_sub a b =
    (if iv_isBottom a \<or> iv_isBottom b then Some iv_bottom
     else if iv_isTop a \<or> iv_isTop b then Some iv_top
     else do { l \<leftarrow> bi_sub (iv_lb a) (iv_ub b); u \<leftarrow> bi_sub (iv_ub a) (iv_lb b); iv_make l u })"

text \<open>The interval of the four corners.\<close>

definition iv_corners ::
  "(bounded_int \<Rightarrow> bounded_int \<Rightarrow> bounded_int option) \<Rightarrow> interval \<Rightarrow> interval \<Rightarrow> interval option" where
  "iv_corners f a b = do {
     ll \<leftarrow> f (iv_lb a) (iv_lb b);
     lu \<leftarrow> f (iv_lb a) (iv_ub b);
     ul \<leftarrow> f (iv_ub a) (iv_lb b);
     uu \<leftarrow> f (iv_ub a) (iv_ub b);
     iv_make (bi_min_list [ll, lu, ul, uu]) (bi_max_list [ll, lu, ul, uu]) }"

definition iv_mul :: "interval \<Rightarrow> interval \<Rightarrow> interval option" where
  "iv_mul a b = (if iv_isBottom a \<or> iv_isBottom b then Some iv_bottom else iv_corners bi_safeMul a b)"

subsection \<open>Division and remainder\<close>

partial_function (option) iv_div :: "interval \<Rightarrow> interval \<Rightarrow> interval option" where
  "iv_div a b =
    (if iv_isBottom a \<or> iv_isBottom b then Some iv_bottom
     else if iv_contains b 0
     then do {
       lb \<leftarrow> iv_create (iv_lb b) (bi_fin (- 1));
       ub \<leftarrow> iv_create (bi_fin 1) (iv_ub b);
       l_res \<leftarrow> iv_div a lb;
       r_res \<leftarrow> iv_div a ub;
       iv_join_with l_res r_res }
     else if iv_contains a 0
     then do {
       lb \<leftarrow> iv_create (iv_lb a) (bi_fin (- 1));
       ub \<leftarrow> iv_create (bi_fin 1) (iv_ub a);
       l_res \<leftarrow> iv_div lb b;
       r_res \<leftarrow> iv_div ub b;
       l_res \<leftarrow> iv_join_with l_res r_res;
       iv_join_with l_res (iv_num 0) }
     else iv_corners bi_div a b)"

definition iv_mod :: "interval \<Rightarrow> interval \<Rightarrow> interval option" where
  "iv_mod a b =
    (if iv_isBottom a \<or> iv_isBottom b then Some iv_bottom
     else if iv_contains b 0 then if iv_is_zero a then iv_range 0 0 else Some iv_top
     else if iv_is_numeral a \<and> iv_is_numeral b
     then do { l \<leftarrow> bi_mod (iv_lb a) (iv_lb b); u \<leftarrow> bi_mod (iv_lb a) (iv_lb b); iv_make l u }
     else do {
       al \<leftarrow> bi_abs (iv_lb a);
       au \<leftarrow> bi_abs (iv_ub a);
       bl \<leftarrow> bi_abs (iv_lb b);
       d_ub \<leftarrow> bi_sub (bi_max bl (iv_ub b)) (bi_fin 1);
       let ub = bi_min (bi_max al au) d_ub;
       if bi_getNumeral (iv_lb a) < 0
       then do { n \<leftarrow> bi_neg ub; if bi_getNumeral (iv_ub a) > 0 then iv_make n ub else iv_make n (bi_fin 0) }
       else iv_make (bi_fin 0) ub })"

subsection \<open>Shifts\<close>

text \<open>The cast to a 32-bit \<^verbatim>\<open>int\<close>, and \<^verbatim>\<open>1 << s\<close> on such integers: a shift by a negative amount or by 32 and
  more is undefined, by 31 it gives the least integer.\<close>

definition s32 :: "int \<Rightarrow> int" where
  "s32 n = (n + 2147483648) mod 4294967296 - 2147483648"

definition one_shl :: "int \<Rightarrow> int option" where
  "one_shl s = (if 0 \<le> s \<and> s \<le> 31 then Some (s32 (2 ^ nat s)) else None)"

definition iv_shift_coeff :: "interval \<Rightarrow> interval option" where
  "iv_shift_coeff shift = do {
     lb \<leftarrow> (if s32 (bi_getNumeral (iv_lb shift)) \<ge> 32 \<or> is_infinity (iv_lb shift) then Some minus_infinity
       else map_option bi_fin (one_shl (s32 (bi_getNumeral (iv_lb shift)))));
     ub \<leftarrow> (if is_infinity (iv_ub shift) then Some plus_infinity
       else map_option bi_fin (one_shl (s32 (bi_getNumeral (iv_ub shift)))));
     iv_make lb ub }"

definition iv_shl :: "interval \<Rightarrow> interval \<Rightarrow> interval option" where
  "iv_shl a b =
    (if iv_isBottom a \<or> iv_isBottom b then Some iv_bottom
     else if iv_isTop a \<and> iv_isTop b then Some iv_top
     else do {
       nonneg \<leftarrow> iv_make (bi_fin 0) plus_infinity;
       shift \<leftarrow> iv_meet_with b nonneg;
       if iv_isBottom shift then Some iv_bottom
       else do { coeff \<leftarrow> iv_shift_coeff shift; iv_mul a coeff } })"

partial_function (option) iv_shr :: "interval \<Rightarrow> interval \<Rightarrow> interval option" where
  "iv_shr a b =
    (if iv_isBottom a \<or> iv_isBottom b then Some iv_bottom
     else if iv_isTop a \<and> iv_isTop b then Some iv_top
     else do {
       nonneg \<leftarrow> iv_make (bi_fin 0) plus_infinity;
       shift \<leftarrow> iv_meet_with b nonneg;
       if iv_isBottom shift then Some iv_bottom
       else if iv_contains a 0
       then do {
         l \<leftarrow> iv_create (iv_lb a) (bi_fin (- 1));
         u \<leftarrow> iv_create (bi_fin 1) (iv_ub a);
         tmp \<leftarrow> iv_shr l b;
         u_res \<leftarrow> iv_shr u b;
         tmp \<leftarrow> iv_join_with tmp u_res;
         iv_join_with tmp (iv_num 0) }
       else iv_corners bi_shr a shift })"

subsection \<open>Bitwise operators\<close>

definition iv_and :: "interval \<Rightarrow> interval \<Rightarrow> interval option" where
  "iv_and a b =
    (if iv_isBottom a \<or> iv_isBottom b then Some iv_bottom
     else if iv_is_numeral a \<and> iv_is_numeral b then iv_make (bi_and (iv_lb a) (iv_lb b)) (bi_and (iv_lb a) (iv_lb b))
     else if bi_getNumeral (iv_lb a) \<ge> 0 \<and> bi_getNumeral (iv_lb b) \<ge> 0 then iv_make (bi_fin 0) (bi_min (iv_ub a) (iv_ub b))
     else if bi_getNumeral (iv_lb a) \<ge> 0 then iv_make (bi_fin 0) (iv_ub a)
     else if bi_getNumeral (iv_lb b) \<ge> 0 then iv_make (bi_fin 0) (iv_ub b)
     else Some iv_top)"

text \<open>\<^verbatim>\<open>next_power_of_2\<close>: the loop counts the bits of a 64-bit integer, the result is an \<^verbatim>\<open>int\<close>. On a negative
  integer the loop shifts by 64, which is undefined.\<close>

function count_bits :: "int \<Rightarrow> nat \<Rightarrow> nat option" where
  "count_bits num i =
    (if 64 \<le> i then None else if num div 2 ^ i \<noteq> 0 then count_bits num (Suc i) else Some i)"
  by pat_completeness auto
termination by (relation "measure (\<lambda>(num, i). 64 - i)") auto

definition next_power_of_2 :: "int \<Rightarrow> int option" where
  "next_power_of_2 num = do { i \<leftarrow> count_bits num 1; one_shl (int i) }"

text \<open>\<^verbatim>\<open>next_power_of_2(m) - 1\<close> is computed on \<^verbatim>\<open>int\<close>: at the least integer it overflows.\<close>

definition iv_bits_bound :: "interval \<Rightarrow> interval \<Rightarrow> interval option" where
  "iv_bits_bound a b = do {
     p \<leftarrow> next_power_of_2 (max (bi_getNumeral (iv_ub a)) (bi_getNumeral (iv_ub b)));
     ensure (- 2147483648 \<le> p - 1);
     iv_range 0 (p - 1) }"

definition iv_or :: "interval \<Rightarrow> interval \<Rightarrow> interval option" where
  "iv_or a b =
    (if iv_isBottom a \<or> iv_isBottom b then Some iv_bottom
     else if iv_is_numeral a \<and> iv_is_numeral b then iv_make (bi_or (iv_lb a) (iv_lb b)) (bi_or (iv_lb a) (iv_lb b))
     else if bi_getNumeral (iv_lb a) \<ge> 0 \<and> \<not> is_infinity (iv_ub a) \<and> bi_getNumeral (iv_lb b) \<ge> 0 \<and> \<not> is_infinity (iv_ub b)
     then iv_bits_bound a b
     else Some iv_top)"

definition iv_xor :: "interval \<Rightarrow> interval \<Rightarrow> interval option" where
  "iv_xor a b =
    (if iv_isBottom a \<or> iv_isBottom b then Some iv_bottom
     else if iv_is_numeral a \<and> iv_is_numeral b then iv_make (bi_xor (iv_lb a) (iv_lb b)) (bi_xor (iv_lb a) (iv_lb b))
     else if bi_getNumeral (iv_lb a) \<ge> 0 \<and> \<not> is_infinity (iv_ub a) \<and> bi_getNumeral (iv_lb b) \<ge> 0 \<and> \<not> is_infinity (iv_ub b)
     then iv_bits_bound a b
     else Some iv_top)"

subsection \<open>Making the result\<close>

text \<open>Two good bounds around a value make a good interval with the value in it.\<close>

lemma iv_make_mem:
  assumes "bi_ok l" "bi_ok u" "fits z" "bi_val l \<le> z" "z \<le> bi_val u"
  shows "wp (iv_make l u) (\<lambda>c. iv_ok c \<and> z \<in> iv_set c)"
  using assms iv_make_ok[of l u] iv_okI[of l u z] by (simp add: mem_iv_set)

lemma iv_make_wp:
  assumes "wp m (\<lambda>l. bi_ok l \<and> bi_val l \<le> z)" "wp n (\<lambda>u. bi_ok u \<and> z \<le> bi_val u)" "fits z"
  shows "wp (do { l \<leftarrow> m; u \<leftarrow> n; iv_make l u }) (\<lambda>c. iv_ok c \<and> z \<in> iv_set c)"
  using assms iv_make_mem by (auto simp: wp_iff)

lemma iv_create_ok:
  assumes "bi_ok l" "bi_ok u" "bi_val l < big" "- big < bi_val u"
  shows "wp (iv_create l u) (\<lambda>c. iv_ok c \<and> iv_set c = {x. fits x \<and> bi_val l \<le> x \<and> x \<le> bi_val u})"
proof (cases "bi_val l \<le> bi_val u")
  case True
  then show ?thesis
    using assms iv_new_ok[of l u] iv_make_ok[of l u] by (simp add: iv_create_def bi_leq_iff iv_set_def)
next
  case False
  then have "{x. fits x \<and> bi_val l \<le> x \<and> x \<le> bi_val u} = {}" by auto
  then show ?thesis using assms False by (simp add: iv_create_def bi_leq_iff)
qed

text \<open>The parts of an interval on each side of zero.\<close>

lemma iv_split_ok:
  assumes "iv_ok i" "\<not> iv_isBottom i" "0 \<in> iv_set i"
  shows "wp (iv_create (iv_lb i) (bi_fin (- 1))) (\<lambda>c. iv_ok c \<and> iv_set c = {x \<in> iv_set i. x < 0})"
    "wp (iv_create (bi_fin 1) (iv_ub i)) (\<lambda>c. iv_ok c \<and> iv_set c = {x \<in> iv_set i. 0 < x})"
proof -
  note o = iv_okD[OF assms(1,2)]
  have z: "bi_val (iv_lb i) \<le> 0" "0 \<le> bi_val (iv_ub i)" using assms(3) by (auto simp: mem_iv_set)
  have f: "fits 1" "fits (- 1)" by (simp_all add: fits_def)
  have e: "{x. fits x \<and> bi_val (iv_lb i) \<le> x \<and> x \<le> - 1} = {x \<in> iv_set i. x < 0}"
    "{x. fits x \<and> 1 \<le> x \<and> x \<le> bi_val (iv_ub i)} = {x \<in> iv_set i. 0 < x}"
    using z by (auto simp: mem_iv_set)
  show "wp (iv_create (iv_lb i) (bi_fin (- 1))) (\<lambda>c. iv_ok c \<and> iv_set c = {x \<in> iv_set i. x < 0})"
    using iv_create_ok[of "iv_lb i" "bi_fin (- 1)"] o f e(1) by simp
  show "wp (iv_create (bi_fin 1) (iv_ub i)) (\<lambda>c. iv_ok c \<and> iv_set c = {x \<in> iv_set i. 0 < x})"
    using iv_create_ok[of "bi_fin 1" "iv_ub i"] o f e(2) by simp
qed

text \<open>A corner below and a corner above are enough.\<close>

lemma iv_corners_ok:
  assumes f: "\<And>p q. p \<in> {iv_lb a, iv_ub a} \<Longrightarrow> q \<in> {iv_lb b, iv_ub b} \<Longrightarrow> wp (f p q) (\<lambda>r. bi_ok r \<and> Q p q r)"
    and z: "fits z"
    and lo: "p \<in> {iv_lb a, iv_ub a}" "q \<in> {iv_lb b, iv_ub b}" "\<And>r. bi_ok r \<Longrightarrow> Q p q r \<Longrightarrow> bi_val r \<le> z"
    and hi: "p' \<in> {iv_lb a, iv_ub a}" "q' \<in> {iv_lb b, iv_ub b}" "\<And>r. bi_ok r \<Longrightarrow> Q p' q' r \<Longrightarrow> z \<le> bi_val r"
  shows "wp (iv_corners f a b) (\<lambda>c. iv_ok c \<and> z \<in> iv_set c)"
proof -
  obtain ll where ll: "f (iv_lb a) (iv_lb b) = Some ll" "bi_ok ll" "Q (iv_lb a) (iv_lb b) ll" using f unfolding wp_iff by blast
  obtain lu where lu: "f (iv_lb a) (iv_ub b) = Some lu" "bi_ok lu" "Q (iv_lb a) (iv_ub b) lu" using f unfolding wp_iff by blast
  obtain ul where ul: "f (iv_ub a) (iv_lb b) = Some ul" "bi_ok ul" "Q (iv_ub a) (iv_lb b) ul" using f unfolding wp_iff by blast
  obtain uu where uu: "f (iv_ub a) (iv_ub b) = Some uu" "bi_ok uu" "Q (iv_ub a) (iv_ub b) uu" using f unfolding wp_iff by blast
  note r = ll(2) lu(2) ul(2) uu(2)
  have "bi_val ll \<le> z \<or> bi_val lu \<le> z \<or> bi_val ul \<le> z \<or> bi_val uu \<le> z"
    using lo ll lu ul uu by blast
  then have "bi_val (bi_min_list [ll, lu, ul, uu]) \<le> z" unfolding bi_min_list_ok(2)[OF r] by linarith
  moreover have "z \<le> bi_val ll \<or> z \<le> bi_val lu \<or> z \<le> bi_val ul \<or> z \<le> bi_val uu"
    using hi ll lu ul uu by blast
  then have "z \<le> bi_val (bi_max_list [ll, lu, ul, uu])" unfolding bi_max_list_ok(2)[OF r] by linarith
  ultimately have "wp (iv_make (bi_min_list [ll, lu, ul, uu]) (bi_max_list [ll, lu, ul, uu])) (\<lambda>c. iv_ok c \<and> z \<in> iv_set c)"
    by (intro iv_make_mem bi_min_list_ok(1) bi_max_list_ok(1) r z)
  then show ?thesis using ll(1) lu(1) ul(1) uu(1) by (simp add: iv_corners_def)
qed

subsection \<open>Addition, subtraction and multiplication are sound\<close>

lemma iv_add_ok:
  assumes "iv_ok a" "iv_ok b" "x \<in> iv_set a" "y \<in> iv_set b" "fits (x + y)"
  shows "wp (iv_add a b) (\<lambda>c. iv_ok c \<and> x + y \<in> iv_set c)"
proof -
  note p = iv_pair_cases[OF assms(1-4)]
  note r = iv_okD[OF assms(1) p(1)] iv_okD[OF assms(2) p(2)]
  have l: "wp (bi_safeAdd (iv_lb a) (iv_lb b)) (\<lambda>l. bi_ok l \<and> bi_val l \<le> x + y)"
    using bi_safeAdd_ok[OF r(1,6)] r sat_mono[of "bi_val (iv_lb a) + bi_val (iv_lb b)" "x + y"] p(7-10) assms(5)
    by (auto elim!: wp_mono)
  have u: "wp (bi_safeAdd (iv_ub a) (iv_ub b)) (\<lambda>u. bi_ok u \<and> x + y \<le> bi_val u)"
    using bi_safeAdd_ok[OF r(2,7)] r sat_mono[of "x + y" "bi_val (iv_ub a) + bi_val (iv_ub b)"] p(7-10) assms(5)
    by (auto elim!: wp_mono)
  show ?thesis using iv_make_wp[OF l u assms(5)] assms(5) p(1,2) by (simp add: iv_add_def)
qed

lemma iv_sub_ok:
  assumes "iv_ok a" "iv_ok b" "x \<in> iv_set a" "y \<in> iv_set b" "fits (x - y)"
  shows "wp (iv_sub a b) (\<lambda>c. iv_ok c \<and> x - y \<in> iv_set c)"
proof -
  note p = iv_pair_cases[OF assms(1-4)]
  note r = iv_okD[OF assms(1) p(1)] iv_okD[OF assms(2) p(2)]
  have l: "wp (bi_sub (iv_lb a) (iv_ub b)) (\<lambda>l. bi_ok l \<and> bi_val l \<le> x - y)"
    using bi_sub_ok[OF r(1,7)] r sat_mono[of "bi_val (iv_lb a) - bi_val (iv_ub b)" "x - y"] p(7-10) assms(5)
    by (auto elim!: wp_mono)
  have u: "wp (bi_sub (iv_ub a) (iv_lb b)) (\<lambda>u. bi_ok u \<and> x - y \<le> bi_val u)"
    using bi_sub_ok[OF r(2,6)] r sat_mono[of "x - y" "bi_val (iv_ub a) - bi_val (iv_lb b)"] p(7-10) assms(5)
    by (auto elim!: wp_mono)
  show ?thesis using iv_make_wp[OF l u assms(5)] assms(5) p(1,2) by (simp add: iv_sub_def)
qed

lemma mult_between: "l \<le> x \<Longrightarrow> x \<le> u \<Longrightarrow> (l * y \<le> x * y \<or> u * y \<le> x * y) \<and> (x * y \<le> l * y \<or> x * y \<le> u * y)" for y :: int
  by (cases "0 \<le> y") (simp_all add: mult_right_mono mult_right_mono_neg)

lemma iv_mul_ok:
  assumes "iv_ok a" "iv_ok b" "x \<in> iv_set a" "y \<in> iv_set b" "fits (x * y)"
  shows "wp (iv_mul a b) (\<lambda>c. iv_ok c \<and> x * y \<in> iv_set c)"
proof -
  note p = iv_pair_cases[OF assms(1-4)]
  let ?A = "{iv_lb a, iv_ub a}" and ?B = "{iv_lb b, iv_ub b}"
  have f: "wp (bi_safeMul v w) (\<lambda>r. bi_ok r \<and> bi_val r = sat (bi_val v * bi_val w))" if "v \<in> ?A" "w \<in> ?B" for v w
    using that p by (intro bi_safeMul_ok) auto
  have x: "\<exists>v\<in>?A. bi_val v * y \<le> x * y" "\<exists>v\<in>?A. x * y \<le> bi_val v * y" using mult_between[OF p(7,8), of y] by auto
  have y: "\<exists>w\<in>?B. v * bi_val w \<le> v * y" "\<exists>w\<in>?B. v * y \<le> v * bi_val w" for v
    using mult_between[OF p(9,10), of v] by (auto simp: mult.commute)
  obtain v w where lo: "v \<in> ?A" "w \<in> ?B" "bi_val v * bi_val w \<le> x * y" using x(1) y(1) order_trans by meson
  obtain v' w' where hi: "v' \<in> ?A" "w' \<in> ?B" "x * y \<le> bi_val v' * bi_val w'" using x(2) y(2) order_trans by meson
  have s: "sat (bi_val v * bi_val w) \<le> x * y" "x * y \<le> sat (bi_val v' * bi_val w')"
    using sat_mono[OF lo(3)] sat_mono[OF hi(3)] assms(5) by simp_all
  have "wp (iv_corners bi_safeMul a b) (\<lambda>c. iv_ok c \<and> x * y \<in> iv_set c)"
    by (rule iv_corners_ok[where Q = "\<lambda>p q r. bi_val r = sat (bi_val p * bi_val q)", OF f assms(5) lo(1,2) _ hi(1,2)])
      (use s in auto)
  then show ?thesis using p(1,2) by (simp add: iv_mul_def)
qed

text \<open>When no sum fits, the result has no value, and a later addition may fail.\<close>

lemma iv_add_overflow:
  "iv_add (iv_num i64_max) (iv_num 1) = Some \<lparr>iv_lb = plus_infinity, iv_ub = plus_infinity\<rparr>"
  "iv_add \<lparr>iv_lb = plus_infinity, iv_ub = plus_infinity\<rparr> \<lparr>iv_lb = minus_infinity, iv_ub = bi_fin 0\<rparr> = None"
  by (simp_all add: iv_add_def iv_num_def iv_isBottom_def iv_isTop_def bi_safeAdd_def iv_make_def bi_leq_def)

subsection \<open>Division is sound\<close>

lemma wp_all:
  assumes "wp m (\<lambda>c. P c)" "\<And>x y. x \<in> A \<Longrightarrow> y \<in> B \<Longrightarrow> Q x y \<Longrightarrow> wp m (R x y)"
  shows "wp m (\<lambda>c. P c \<and> (\<forall>x\<in>A. \<forall>y\<in>B. Q x y \<longrightarrow> R x y c))"
  using assms by (auto simp: wp_iff)

lemma div_between: "0 \<le> p \<Longrightarrow> p \<le> q \<Longrightarrow> 0 < s \<Longrightarrow> s \<le> t \<Longrightarrow> p div t \<le> q div s" for p :: int
  using zdiv_mono1[of p q t] zdiv_mono2[of q s t] by simp

text \<open>Where neither operand has zero, the two corners that bound the quotient are never both infinite.\<close>

lemma sdiv_corners:
  fixes x y :: int
  assumes "la \<le> x" "x \<le> ua" "lb \<le> y" "y \<le> ub"
  shows "0 < la \<Longrightarrow> 0 < lb \<Longrightarrow> la sdiv ub \<le> x sdiv y \<and> x sdiv y \<le> ua sdiv lb"
    "0 < la \<Longrightarrow> ub < 0 \<Longrightarrow> ua sdiv ub \<le> x sdiv y \<and> x sdiv y \<le> la sdiv lb"
    "ua < 0 \<Longrightarrow> 0 < lb \<Longrightarrow> la sdiv lb \<le> x sdiv y \<and> x sdiv y \<le> ua sdiv ub"
    "ua < 0 \<Longrightarrow> ub < 0 \<Longrightarrow> ua sdiv lb \<le> x sdiv y \<and> x sdiv y \<le> la sdiv ub"
proof -
  have d: "p sdiv q = p div q" if "0 < p" "0 < q" for p q :: int using that by (simp add: signed_divide_int_def)
  have d1: "p sdiv q = - (p div - q)" if "0 < p" "q < 0" for p q :: int using that by (simp add: signed_divide_int_def)
  have d2: "p sdiv q = - (- p div q)" if "p < 0" "0 < q" for p q :: int using that by (simp add: signed_divide_int_def)
  have d3: "p sdiv q = - p div - q" if "p < 0" "q < 0" for p q :: int using that by (simp add: signed_divide_int_def)
  show "0 < la \<Longrightarrow> 0 < lb \<Longrightarrow> la sdiv ub \<le> x sdiv y \<and> x sdiv y \<le> ua sdiv lb"
    using assms div_between[of la x y ub] div_between[of x ua lb y] by (simp add: d)
  show "0 < la \<Longrightarrow> ub < 0 \<Longrightarrow> ua sdiv ub \<le> x sdiv y \<and> x sdiv y \<le> la sdiv lb"
    using assms div_between[of x ua "- ub" "- y"] div_between[of la x "- y" "- lb"] by (simp add: d1)
  show "ua < 0 \<Longrightarrow> 0 < lb \<Longrightarrow> la sdiv lb \<le> x sdiv y \<and> x sdiv y \<le> ua sdiv ub"
    using assms div_between[of "- x" "- la" lb y] div_between[of "- ua" "- x" y ub] by (simp add: d2)
  show "ua < 0 \<Longrightarrow> ub < 0 \<Longrightarrow> ua sdiv lb \<le> x sdiv y \<and> x sdiv y \<le> la sdiv ub"
    using assms div_between[of "- ua" "- x" "- y" "- lb"] div_between[of "- x" "- la" "- ub" "- y"] by (simp add: d3)
qed

definition iv_div_sound :: "interval \<Rightarrow> interval \<Rightarrow> bool" where
  "iv_div_sound a b \<longleftrightarrow>
    wp (iv_div a b) (\<lambda>c. iv_ok c \<and> (\<forall>x\<in>iv_set a. \<forall>y\<in>iv_set b. y \<noteq> 0 \<longrightarrow> x sdiv y \<in> iv_set c))"

lemma iv_div_bottom: "iv_ok a \<Longrightarrow> iv_ok b \<Longrightarrow> iv_isBottom a \<or> iv_isBottom b \<Longrightarrow> iv_div_sound a b"
  using iv_set_nonempty by (auto simp: iv_div_sound_def iv_div.simps[of a b])

lemma iv_no_zero:
  assumes "iv_ok i" "\<not> iv_isBottom i" "\<not> iv_contains i 0"
  shows "0 < bi_val (iv_lb i) \<or> bi_val (iv_ub i) < 0" "bi_val (iv_lb i) \<noteq> 0" "bi_val (iv_ub i) \<noteq> 0"
proof -
  have "0 \<notin> iv_set i" using iv_contains_iff[OF assms(1), of 0] assms(3) by (simp add: fits_def)
  then show "0 < bi_val (iv_lb i) \<or> bi_val (iv_ub i) < 0" by (auto simp: mem_iv_set fits_def)
  then show "bi_val (iv_lb i) \<noteq> 0" "bi_val (iv_ub i) \<noteq> 0" using iv_okD(3)[OF assms(1,2)] by auto
qed

lemma iv_div_direct_mem:
  assumes a: "iv_ok a" "\<not> iv_isBottom a" "\<not> iv_contains a 0" and b: "iv_ok b" "\<not> iv_isBottom b" "\<not> iv_contains b 0"
    and x: "x \<in> iv_set a" and y: "y \<in> iv_set b"
  shows "wp (iv_corners bi_div a b) (\<lambda>c. iv_ok c \<and> x sdiv y \<in> iv_set c)"
proof -
  note p = iv_pair_cases[OF a(1) b(1) x y]
  note r = iv_okD[OF a(1,2)] iv_okD[OF b(1,2)]
  note za = iv_no_zero[OF a] and zb = iv_no_zero[OF b]
  let ?A = "{iv_lb a, iv_ub a}" and ?B = "{iv_lb b, iv_ub b}"
  let ?Q = "\<lambda>p q r. \<not> (is_infinity p \<and> is_infinity q) \<longrightarrow> bi_val r = sat (bi_val p sdiv bi_val q)"
  have f: "wp (bi_div v w) (\<lambda>r. bi_ok r \<and> ?Q v w r)" if "v \<in> ?A" "w \<in> ?B" for v w
    using that p zb by (intro bi_div_ok) auto
  have z: "fits (x sdiv y)" by (rule fits_sdiv[OF p(11)])
  have fin: "\<not> is_infinity c" if "bi_ok c" "bi_val c < big" "- big < bi_val c" for c
    using that by (cases rule: bi_cases[OF that(1)]) auto
  have corner: "wp (iv_corners bi_div a b) (\<lambda>c. iv_ok c \<and> x sdiv y \<in> iv_set c)"
    if c: "v \<in> ?A" "w \<in> ?B" "\<not> is_infinity v \<or> \<not> is_infinity w" "bi_val v sdiv bi_val w \<le> x sdiv y"
      "v' \<in> ?A" "w' \<in> ?B" "\<not> is_infinity v' \<or> \<not> is_infinity w'" "x sdiv y \<le> bi_val v' sdiv bi_val w'" for v w v' w'
    by (rule iv_corners_ok[where Q = ?Q, OF f z c(1,2) _ c(5,6)])
      (use c sat_mono[OF c(4)] sat_mono[OF c(8)] z in auto)
  note s = sdiv_corners[OF p(7-10)]
  have fins: "0 < bi_val (iv_lb a) \<Longrightarrow> \<not> is_infinity (iv_lb a)" "bi_val (iv_ub a) < 0 \<Longrightarrow> \<not> is_infinity (iv_ub a)"
    "0 < bi_val (iv_lb b) \<Longrightarrow> \<not> is_infinity (iv_lb b)" "bi_val (iv_ub b) < 0 \<Longrightarrow> \<not> is_infinity (iv_ub b)"
    by (rule fin; use r in linarith)+
  consider "0 < bi_val (iv_lb a)" "0 < bi_val (iv_lb b)" | "0 < bi_val (iv_lb a)" "bi_val (iv_ub b) < 0"
    | "bi_val (iv_ub a) < 0" "0 < bi_val (iv_lb b)" | "bi_val (iv_ub a) < 0" "bi_val (iv_ub b) < 0"
    using za(1) zb(1) by blast
  then show ?thesis
  proof cases
    case 1
    then show ?thesis using s(1) fins by (intro corner[of "iv_lb a" "iv_ub b" "iv_ub a" "iv_lb b"]) auto
  next
    case 2
    then show ?thesis using s(2) fins by (intro corner[of "iv_ub a" "iv_ub b" "iv_lb a" "iv_lb b"]) auto
  next
    case 3
    then show ?thesis using s(3) fins by (intro corner[of "iv_lb a" "iv_lb b" "iv_ub a" "iv_ub b"]) auto
  next
    case 4
    then show ?thesis using s(4) fins by (intro corner[of "iv_ub a" "iv_lb b" "iv_lb a" "iv_ub b"]) auto
  qed
qed

lemma iv_div_direct:
  assumes a: "iv_ok a" "\<not> iv_isBottom a" "\<not> iv_contains a 0" and b: "iv_ok b" "\<not> iv_isBottom b" "\<not> iv_contains b 0"
  shows "iv_div_sound a b"
proof -
  obtain x y where xy: "x \<in> iv_set a" "y \<in> iv_set b" using iv_set_nonempty[OF a(1)] iv_set_nonempty[OF b(1)] a(2) b(2) by blast
  have "wp (iv_corners bi_div a b) iv_ok" using iv_div_direct_mem[OF a b xy] by (rule wp_mono) simp
  then have "wp (iv_corners bi_div a b) (\<lambda>c. iv_ok c \<and> (\<forall>x\<in>iv_set a. \<forall>y\<in>iv_set b. y \<noteq> 0 \<longrightarrow> x sdiv y \<in> iv_set c))"
    by (rule wp_all[where Q = "\<lambda>x y. y \<noteq> 0" and R = "\<lambda>x y c. x sdiv y \<in> iv_set c"])
      (rule wp_mono[OF iv_div_direct_mem[OF a b]], auto)
  then show ?thesis using a b by (simp add: iv_div_sound_def iv_div.simps[of a b])
qed

text \<open>The part of an interval on one side of zero has no zero.\<close>

lemma iv_part_no_zero: "iv_ok c \<Longrightarrow> iv_set c = {x \<in> A. x < 0} \<or> iv_set c = {x \<in> A. 0 < x} \<Longrightarrow> \<not> iv_contains c 0"
  using iv_contains_iff[of c 0] by (auto simp: fits_def)

lemma iv_div_left:
  assumes a: "iv_ok a" "\<not> iv_isBottom a" and b: "iv_ok b" "\<not> iv_isBottom b" "\<not> iv_contains b 0"
  shows "iv_div_sound a b"
proof (cases "iv_contains a 0")
  case True
  then have z: "0 \<in> iv_set a" using iv_contains_iff[OF a(1), of 0] by (simp add: fits_def)
  obtain l where l: "iv_create (iv_lb a) (bi_fin (- 1)) = Some l" "iv_ok l" "iv_set l = {x \<in> iv_set a. x < 0}"
    using iv_split_ok(1)[OF a z] unfolding wp_iff by blast
  obtain u where u: "iv_create (bi_fin 1) (iv_ub a) = Some u" "iv_ok u" "iv_set u = {x \<in> iv_set a. 0 < x}"
    using iv_split_ok(2)[OF a z] unfolding wp_iff by blast
  have sound: "iv_div_sound c b" if "iv_ok c" "\<not> iv_contains c 0" for c
    using iv_div_direct[OF that(1) _ that(2) b] iv_div_bottom[OF that(1) b(1)] by blast
  obtain cl where cl: "iv_div l b = Some cl" "iv_ok cl" "\<forall>x\<in>iv_set l. \<forall>y\<in>iv_set b. y \<noteq> 0 \<longrightarrow> x sdiv y \<in> iv_set cl"
    using sound[OF l(2) iv_part_no_zero[OF l(2) disjI1[OF l(3)]]] unfolding iv_div_sound_def wp_iff by (elim exE conjE)
  obtain cu where cu: "iv_div u b = Some cu" "iv_ok cu" "\<forall>x\<in>iv_set u. \<forall>y\<in>iv_set b. y \<noteq> 0 \<longrightarrow> x sdiv y \<in> iv_set cu"
    using sound[OF u(2) iv_part_no_zero[OF u(2) disjI2[OF u(3)]]] unfolding iv_div_sound_def wp_iff by (elim exE conjE)
  obtain j where j: "iv_join_with cl cu = Some j" "iv_ok j" "iv_set cl \<subseteq> iv_set j" "iv_set cu \<subseteq> iv_set j"
    using iv_join_ok[OF cl(2) cu(2)] unfolding wp_iff by blast
  obtain c where c: "iv_join_with j (iv_num 0) = Some c" "iv_ok c" "iv_set j \<subseteq> iv_set c" "0 \<in> iv_set c"
    using iv_join_ok[OF j(2), of "iv_num 0"] unfolding wp_iff by auto
  have "x sdiv y \<in> iv_set c" if "x \<in> iv_set a" "y \<in> iv_set b" "y \<noteq> 0" for x y
  proof -
    have "x = 0 \<or> x \<in> iv_set l \<or> x \<in> iv_set u"
      using that(1) unfolding l(3) u(3) by (cases x "0 :: int" rule: linorder_cases) simp_all
    then show ?thesis
    proof (elim disjE)
      assume "x = 0"
      then have "x sdiv y = 0" by (simp add: signed_divide_int_def)
      then show ?thesis using c(4) by simp
    next
      assume "x \<in> iv_set l"
      then have "x sdiv y \<in> iv_set cl" using cl(3) that(2,3) by blast
      then show ?thesis by (rule subsetD[OF c(3) subsetD[OF j(3)]])
    next
      assume "x \<in> iv_set u"
      then have "x sdiv y \<in> iv_set cu" using cu(3) that(2,3) by blast
      then show ?thesis by (rule subsetD[OF c(3) subsetD[OF j(4)]])
    qed
  qed
  then show ?thesis
    using a b True l(1) u(1) cl(1) cu(1) j(1) c by (simp add: iv_div_sound_def iv_div.simps[of a b])
qed (rule iv_div_direct[OF a _ b])

lemma iv_div_ok:
  assumes "iv_ok a" "iv_ok b"
  shows "iv_div_sound a b"
proof -
  consider "iv_isBottom a \<or> iv_isBottom b" | "\<not> iv_isBottom a" "\<not> iv_isBottom b" "\<not> iv_contains b 0"
    | "\<not> iv_isBottom a" "\<not> iv_isBottom b" "iv_contains b 0" by blast
  then show ?thesis
  proof cases
    case 3
    then have z: "0 \<in> iv_set b" using iv_contains_iff[OF assms(2), of 0] by (simp add: fits_def)
    obtain l where l: "iv_create (iv_lb b) (bi_fin (- 1)) = Some l" "iv_ok l" "iv_set l = {x \<in> iv_set b. x < 0}"
      using iv_split_ok(1)[OF assms(2) 3(2) z] unfolding wp_iff by blast
    obtain u where u: "iv_create (bi_fin 1) (iv_ub b) = Some u" "iv_ok u" "iv_set u = {x \<in> iv_set b. 0 < x}"
      using iv_split_ok(2)[OF assms(2) 3(2) z] unfolding wp_iff by blast
    have sound: "iv_div_sound a c" if "iv_ok c" "\<not> iv_contains c 0" for c
      using iv_div_left[OF assms(1) 3(1) that(1) _ that(2)] iv_div_bottom[OF assms(1) that(1)] by blast
    obtain cl where cl: "iv_div a l = Some cl" "iv_ok cl" "\<forall>x\<in>iv_set a. \<forall>y\<in>iv_set l. y \<noteq> 0 \<longrightarrow> x sdiv y \<in> iv_set cl"
      using sound[OF l(2) iv_part_no_zero[OF l(2) disjI1[OF l(3)]]] unfolding iv_div_sound_def wp_iff by (elim exE conjE)
    obtain cu where cu: "iv_div a u = Some cu" "iv_ok cu" "\<forall>x\<in>iv_set a. \<forall>y\<in>iv_set u. y \<noteq> 0 \<longrightarrow> x sdiv y \<in> iv_set cu"
      using sound[OF u(2) iv_part_no_zero[OF u(2) disjI2[OF u(3)]]] unfolding iv_div_sound_def wp_iff by (elim exE conjE)
    obtain j where j: "iv_join_with cl cu = Some j" "iv_ok j" "iv_set cl \<subseteq> iv_set j" "iv_set cu \<subseteq> iv_set j"
      using iv_join_ok[OF cl(2) cu(2)] unfolding wp_iff by blast
    have "x sdiv y \<in> iv_set j" if "x \<in> iv_set a" "y \<in> iv_set b" "y \<noteq> 0" for x y
    proof -
      have "y \<in> iv_set l \<or> y \<in> iv_set u"
        using that(2,3) unfolding l(3) u(3) by (cases y "0 :: int" rule: linorder_cases) simp_all
      then show ?thesis using that(1,3) cl(3) cu(3) subsetD[OF j(3)] subsetD[OF j(4)] by blast
    qed
    then show ?thesis
      using 3 l(1) u(1) cl(1) cu(1) j(1,2) by (simp add: iv_div_sound_def iv_div.simps[of a b])
  qed (use assms iv_div_bottom iv_div_left in auto)
qed

subsection \<open>Remainder is sound\<close>

lemma smod_bounds:
  fixes x y :: int
  assumes "y \<noteq> 0"
  shows "\<bar>x smod y\<bar> \<le> \<bar>x\<bar>" "\<bar>x smod y\<bar> \<le> \<bar>y\<bar> - 1" "0 \<le> x \<Longrightarrow> 0 \<le> x smod y" "x \<le> 0 \<Longrightarrow> x smod y \<le> 0"
proof -
  have m: "x smod y = sgn x * (\<bar>x\<bar> mod \<bar>y\<bar>)" by (simp add: signed_modulo_int_def)
  have r: "0 \<le> \<bar>x\<bar> mod \<bar>y\<bar>" "\<bar>x\<bar> mod \<bar>y\<bar> < \<bar>y\<bar>" "\<bar>x\<bar> mod \<bar>y\<bar> \<le> \<bar>x\<bar>"
    using assms by (simp_all add: zmod_le_nonneg_dividend)
  have a: "\<bar>x smod y\<bar> \<le> \<bar>x\<bar> mod \<bar>y\<bar>" using r(1) unfolding m by (cases x "0 :: int" rule: linorder_cases) simp_all
  show "\<bar>x smod y\<bar> \<le> \<bar>x\<bar>" "\<bar>x smod y\<bar> \<le> \<bar>y\<bar> - 1" using a r(2,3) by linarith+
  show "0 \<le> x \<Longrightarrow> 0 \<le> x smod y" using r(1) unfolding m by (cases x "0 :: int" rule: linorder_cases) simp_all
  show "x \<le> 0 \<Longrightarrow> x smod y \<le> 0" using r(1) unfolding m by (cases x "0 :: int" rule: linorder_cases) simp_all
qed

lemma iv_mod_ok:
  assumes "iv_ok a" "iv_ok b" "x \<in> iv_set a" "y \<in> iv_set b" "y \<noteq> 0"
  shows "wp (iv_mod a b) (\<lambda>c. iv_ok c \<and> x smod y \<in> iv_set c)"
proof -
  note p = iv_pair_cases[OF assms(1-4)]
  note r = iv_okD[OF assms(1) p(1)] iv_okD[OF assms(2) p(2)]
  note m = smod_bounds[OF assms(5), of x]
  have fz: "fits (x smod y)" using m(1) p(11) by (auto simp: fits_def)
  have fa: "fits \<bar>x smod y\<bar>" using fz by (auto simp: fits_def)
  have f01: "fits 0" "fits 1" by (simp_all add: fits_def)
  consider "iv_contains b 0" | "\<not> iv_contains b 0" "iv_is_numeral a \<and> iv_is_numeral b"
    | "\<not> iv_contains b 0" "\<not> (iv_is_numeral a \<and> iv_is_numeral b)" by blast
  then show ?thesis
  proof cases
    case 1
    have "x = 0" if "iv_is_zero a"
    proof -
      have "bi_iVal (iv_lb a) = 0" "bi_iVal (iv_ub a) = 0" using that by (simp_all add: iv_is_zero_def bi_is_zero_def)
      then have "bi_val (iv_lb a) = 0" "bi_val (iv_ub a) = 0" by (simp_all add: bi_val_def is_plus_infinity_def is_minus_infinity_def)
      then show ?thesis using p(7,8) by simp
    qed
    then show ?thesis using 1 p(1,2) fz by (simp add: iv_mod_def signed_modulo_int_def)
  next
    case 2
    have "iv_lb a = bi_fin x" "iv_lb b = bi_fin y"
      using iv_mem_num[OF assms(1,3)] iv_mem_num[OF assms(2,4)] 2(2) p
      by (auto simp: bi_val_inject[symmetric])
    then show ?thesis
      using 2 p(1,2) bi_mod_fin[OF p(11) assms(5)] iv_make_mem[of "bi_fin (x smod y)" "bi_fin (x smod y)" "x smod y"] fz
      by (simp add: iv_mod_def)
  next
    case 3
    obtain al where al: "bi_abs (iv_lb a) = Some al" "bi_ok al" "bi_val al = \<bar>bi_val (iv_lb a)\<bar>"
      using bi_abs_ok[OF r(1)] unfolding wp_iff by blast
    obtain au where au: "bi_abs (iv_ub a) = Some au" "bi_ok au" "bi_val au = \<bar>bi_val (iv_ub a)\<bar>"
      using bi_abs_ok[OF r(2)] unfolding wp_iff by blast
    obtain bl where bl: "bi_abs (iv_lb b) = Some bl" "bi_ok bl" "bi_val bl = \<bar>bi_val (iv_lb b)\<bar>"
      using bi_abs_ok[OF r(6)] unfolding wp_iff by blast
    have bm: "bi_ok (bi_max bl (iv_ub b))" "bi_val (bi_max bl (iv_ub b)) = max (bi_val bl) (bi_val (iv_ub b))"
      using bi_max_ok[OF bl(2) r(7)] by simp_all
    have one: "bi_ok (bi_fin 1)" using f01 by simp
    have "\<not> bi_val (bi_max bl (iv_ub b)) = - big" using bm(2) bl(3) by auto
    then obtain d where d: "bi_sub (bi_max bl (iv_ub b)) (bi_fin 1) = Some d" "bi_ok d"
        "bi_val d = sat (max (bi_val bl) (bi_val (iv_ub b)) - 1)"
      using bi_sub_ok[OF bm(1) one] bm(2) unfolding wp_iff by auto
    have n: "bi_ok (bi_max al au)" "bi_val (bi_max al au) = max (bi_val al) (bi_val au)"
      using bi_max_ok[OF al(2) au(2)] by simp_all
    define ub where "ub = bi_min (bi_max al au) d"
    have ub: "bi_ok ub" "bi_val ub = min (max (bi_val al) (bi_val au)) (bi_val d)"
      unfolding ub_def using bi_min_ok[OF n(1) d(2)] n(2) by simp_all
    have "\<bar>x smod y\<bar> \<le> max (bi_val al) (bi_val au)" using m(1) p(7,8) al(3) au(3) by linarith
    moreover have "\<bar>x smod y\<bar> \<le> max (bi_val bl) (bi_val (iv_ub b)) - 1" using m(2) p(9,10) bl(3) by linarith
    from sat_mono[OF this] have "\<bar>x smod y\<bar> \<le> bi_val d" using d(3) fa by simp
    ultimately have le: "\<bar>x smod y\<bar> \<le> bi_val ub" using ub(2) by simp
    obtain ng where ng: "bi_neg ub = Some ng" "bi_ok ng" "bi_val ng = - bi_val ub"
      using bi_neg_ok[OF ub(1)] unfolding wp_iff by blast
    have z: "bi_ok (bi_fin 0)" using f01 by simp
    have sg: "\<not> 0 < bi_getNumeral (iv_ub a) \<Longrightarrow> x smod y \<le> 0" "\<not> bi_getNumeral (iv_lb a) < 0 \<Longrightarrow> 0 \<le> x smod y"
      using bi_getNumeral_pos[OF r(2)] bi_getNumeral_nonneg[OF r(1)] p(7,8) m(3,4) by auto
    have "wp (iv_make ng ub) (\<lambda>c. iv_ok c \<and> x smod y \<in> iv_set c)"
      using le ng by (intro iv_make_mem ub(1) fz) auto
    moreover have "wp (iv_make ng (bi_fin 0)) (\<lambda>c. iv_ok c \<and> x smod y \<in> iv_set c)" if "\<not> 0 < bi_getNumeral (iv_ub a)"
      using le ng sg(1)[OF that] by (intro iv_make_mem z fz) auto
    moreover have "wp (iv_make (bi_fin 0) ub) (\<lambda>c. iv_ok c \<and> x smod y \<in> iv_set c)" if "\<not> bi_getNumeral (iv_lb a) < 0"
      using le sg(2)[OF that] by (intro iv_make_mem z ub(1) fz) auto
    ultimately show ?thesis
      using 3 p(1,2) al(1) au(1) bl(1) d(1) ng(1) by (simp add: iv_mod_def ub_def[symmetric] if_not_P[OF 3(2)])
  qed
qed

subsection \<open>Shifts are sound\<close>

lemma iv_nonneg: "iv_make (bi_fin 0) plus_infinity = Some \<lparr>iv_lb = bi_fin 0, iv_ub = plus_infinity\<rparr>"
  "iv_ok \<lparr>iv_lb = bi_fin 0, iv_ub = plus_infinity\<rparr>"
  "iv_set \<lparr>iv_lb = bi_fin 0, iv_ub = plus_infinity\<rparr> = {x. fits x \<and> 0 \<le> x}"
proof -
  show "iv_make (bi_fin 0) plus_infinity = Some \<lparr>iv_lb = bi_fin 0, iv_ub = plus_infinity\<rparr>"
    by (rule iv_make_ok) (simp_all add: fits_def)
  show "iv_ok \<lparr>iv_lb = bi_fin 0, iv_ub = plus_infinity\<rparr>" by (rule iv_new_ok) (simp_all add: fits_def)
  show "iv_set \<lparr>iv_lb = bi_fin 0, iv_ub = plus_infinity\<rparr> = {x. fits x \<and> 0 \<le> x}" by (auto simp: mem_iv_set fits_def)
qed

text \<open>The amounts a shift uses: the nonnegative part, with its bounds.\<close>

lemma iv_shift_part:
  assumes "iv_ok b" "y \<in> iv_set b" "0 \<le> y"
  obtains s where "iv_meet_with b \<lparr>iv_lb = bi_fin 0, iv_ub = plus_infinity\<rparr> = Some s" "iv_ok s" "\<not> iv_isBottom s"
    "y \<in> iv_set s" "bi_val (iv_lb s) = max (bi_val (iv_lb b)) 0" "iv_ub s = iv_ub b"
proof -
  let ?n = "\<lparr>iv_lb = bi_fin 0, iv_ub = plus_infinity\<rparr>"
  have nb: "\<not> iv_isBottom b" using iv_mem_not_bottom[OF assms(2,1)] .
  note r = iv_okD[OF assms(1) nb]
  have n: "\<not> iv_isBottom ?n" by (simp add: iv_isBottom_def)
  have z: "bi_ok (bi_fin 0)" by (simp add: fits_def)
  note l = bi_max_ok[OF r(1) z] and u = bi_min_ok[OF r(2) bi_val_simps(4)]
  have ub: "bi_min (iv_ub b) plus_infinity = iv_ub b"
    using u bi_val_range[OF r(2)] bi_val_inject[OF conjunct1[OF u] r(2)] by simp
  have y: "bi_val (iv_lb b) \<le> y" "y \<le> bi_val (iv_ub b)" "fits y" using assms(2) by (simp_all add: mem_iv_set)
  have leq: "bi_leq (bi_max (iv_lb b) (bi_fin 0)) (iv_ub b)"
    using l r(1-3) y assms(3) bi_leq_iff[OF conjunct1[OF l] r(2)] by auto
  show thesis
  proof
    show "iv_meet_with b ?n = Some \<lparr>iv_lb = bi_max (iv_lb b) (bi_fin 0), iv_ub = iv_ub b\<rparr>"
      using nb n ub leq by (simp add: iv_meet_with_def iv_setValue_ok[OF assms(1)])
    have "bi_val (bi_max (iv_lb b) (bi_fin 0)) < big" using l r(4) by simp
    moreover have "bi_val (bi_max (iv_lb b) (bi_fin 0)) \<le> bi_val (iv_ub b)" using leq bi_leq_iff[OF conjunct1[OF l] r(2)] by simp
    ultimately show "iv_ok \<lparr>iv_lb = bi_max (iv_lb b) (bi_fin 0), iv_ub = iv_ub b\<rparr>"
      "\<not> iv_isBottom \<lparr>iv_lb = bi_max (iv_lb b) (bi_fin 0), iv_ub = iv_ub b\<rparr>"
      by (rule iv_new_ok[OF conjunct1[OF l] r(2) _ _ r(5), rotated]; assumption)+
    show "y \<in> iv_set \<lparr>iv_lb = bi_max (iv_lb b) (bi_fin 0), iv_ub = iv_ub b\<rparr>"
      using l y assms(3) by (simp add: mem_iv_set)
  qed (use l in simp_all)
qed

text \<open>The amounts a right shift is defined for.\<close>

definition shr_room :: "interval \<Rightarrow> bool" where
  "shr_room b \<longleftrightarrow> iv_isBottom b \<or> bi_val (iv_lb b) < 64 \<and> (is_infinity (iv_ub b) \<or> bi_val (iv_ub b) < 64)"

definition iv_shr_sound :: "interval \<Rightarrow> interval \<Rightarrow> bool" where
  "iv_shr_sound a b \<longleftrightarrow>
    wp (iv_shr a b) (\<lambda>c. iv_ok c \<and> (\<forall>x\<in>iv_set a. \<forall>y\<in>iv_set b. 0 \<le> y \<longrightarrow> x div 2 ^ nat y \<in> iv_set c))"

definition shr_val :: "bounded_int \<Rightarrow> bounded_int \<Rightarrow> int" where
  "shr_val p q =
    (if is_infinity p \<or> bi_val p = 0 then bi_val p
     else if is_infinity q then (if 0 \<le> bi_val p then 0 else - 1)
     else bi_val p div 2 ^ nat (bi_val q))"

lemma div_pow_pos: "0 \<le> p \<Longrightarrow> p \<le> q \<Longrightarrow> m \<le> n \<Longrightarrow> p div 2 ^ n \<le> q div 2 ^ m" for p :: int
  by (rule div_between) (simp_all add: power_increasing)

lemma div_pow_neg:
  fixes p q :: int
  assumes "q < 0" "p \<le> q" "m \<le> n"
  shows "p div 2 ^ m \<le> q div 2 ^ n"
proof -
  have "p div 2 ^ m \<le> q div 2 ^ m" using assms(2) by (rule zdiv_mono1) simp
  also have "\<dots> \<le> q div 2 ^ n" using assms(1,3) by (intro zdiv_mono2_neg) (simp_all add: power_increasing)
  finally show ?thesis .
qed

lemma div_pow_sign: "x < 0 \<Longrightarrow> x div 2 ^ n \<le> - 1" "0 < x \<Longrightarrow> 0 \<le> x div 2 ^ n" for x :: int
  using pos_imp_zdiv_neg_iff[of "2 ^ n" x] by (simp_all add: pos_imp_zdiv_nonneg_iff)

lemma finite_val: "bi_ok c \<Longrightarrow> is_infinity c \<longleftrightarrow> bi_val c = big \<or> bi_val c = - big"
  by (erule bi_cases) (auto simp: fits_def)

lemma shr_corners:
  assumes ok: "bi_ok la" "bi_ok ua" "bi_ok ls" "bi_ok us" and x: "bi_val la \<le> x" "x \<le> bi_val ua" "fits x"
    and y: "bi_val ls \<le> y" "y \<le> bi_val us" "fits y" and ls: "0 \<le> bi_val ls"
  shows "0 < bi_val la \<Longrightarrow> shr_val la us \<le> x div 2 ^ nat y \<and> x div 2 ^ nat y \<le> shr_val ua ls"
    "bi_val ua < 0 \<Longrightarrow> shr_val la ls \<le> x div 2 ^ nat y \<and> x div 2 ^ nat y \<le> shr_val ua us"
proof -
  have f: "fits (x div 2 ^ nat y)" by (rule fits_shr[OF x(3)])
  have b: "- big < x" "x < big" "- big < y" "y < big" "- big < x div 2 ^ nat y" "x div 2 ^ nat y < big"
    using f x(3) y(3) by (simp_all add: fits_def)
  have lsf: "\<not> is_infinity ls" using finite_val[OF ok(3)] ls b(4) y(1) by auto
  have ny: "nat (bi_val ls) \<le> nat y" "nat y \<le> nat (bi_val us)" using y by simp_all
  show "shr_val la us \<le> x div 2 ^ nat y \<and> x div 2 ^ nat y \<le> shr_val ua ls" if "0 < bi_val la"
  proof
    have "\<not> is_infinity la" using finite_val[OF ok(1)] that b(2) x(1) by auto
    then show "shr_val la us \<le> x div 2 ^ nat y"
      using that div_pow_sign(2)[of x "nat y"] div_pow_pos[of "bi_val la" x "nat y" "nat (bi_val us)"] x(1) ny(2)
      by (auto simp: shr_val_def)
    show "x div 2 ^ nat y \<le> shr_val ua ls"
      using that lsf finite_val[OF ok(2)] b(6) div_pow_pos[of x "bi_val ua" "nat (bi_val ls)" "nat y"] x(1,2) ny(1)
      by (auto simp: shr_val_def)
  qed
  show "shr_val la ls \<le> x div 2 ^ nat y \<and> x div 2 ^ nat y \<le> shr_val ua us" if "bi_val ua < 0"
  proof
    have "\<not> is_infinity ua" using finite_val[OF ok(2)] that b(1) x(2) by auto
    then show "x div 2 ^ nat y \<le> shr_val ua us"
      using that div_pow_sign(1)[of x "nat y"] div_pow_neg[of "bi_val ua" x "nat y" "nat (bi_val us)"] x(2) ny(2)
      by (auto simp: shr_val_def)
    show "shr_val la ls \<le> x div 2 ^ nat y"
      using that lsf finite_val[OF ok(1)] b(5) div_pow_neg[of x "bi_val la" "nat (bi_val ls)" "nat y"] x(1,2) ny(1)
      by (auto simp: shr_val_def)
  qed
qed

lemma iv_shr_direct_mem:
  assumes a: "iv_ok a" "\<not> iv_isBottom a" "\<not> iv_contains a 0" and s: "iv_ok s" "\<not> iv_isBottom s" "shr_room s" "0 \<le> bi_val (iv_lb s)"
    and x: "x \<in> iv_set a" and y: "y \<in> iv_set s"
  shows "wp (iv_corners bi_shr a s) (\<lambda>c. iv_ok c \<and> x div 2 ^ nat y \<in> iv_set c)"
proof -
  note p = iv_pair_cases[OF a(1) s(1) x y]
  note r = iv_okD[OF a(1,2)] iv_okD[OF s(1,2)]
  note z = iv_no_zero[OF a] and fx = fits_shr[OF p(11), of "nat y"]
  let ?A = "{iv_lb a, iv_ub a}" and ?S = "{iv_lb s, iv_ub s}"
  have f: "wp (bi_shr v w) (\<lambda>r. bi_ok r \<and> bi_val r = shr_val v w)" if "v \<in> ?A" "w \<in> ?S" for v w
    unfolding shr_val_def using that p s r by (intro bi_shr_ok) (auto simp: shr_room_def)
  note c = shr_corners[OF p(3-6,7,8,11,9,10,12) s(4)]
  show ?thesis
  proof (cases "0 < bi_val (iv_lb a)")
    case True
    show ?thesis
      by (rule iv_corners_ok[where Q = "\<lambda>p q r. bi_val r = shr_val p q" and p = "iv_lb a" and q = "iv_ub s" and p' = "iv_ub a" and q' = "iv_lb s",
          OF f fx])
        (use c(1)[OF True] in auto)
  next
    case False
    then have n: "bi_val (iv_ub a) < 0" using z(1) by blast
    show ?thesis
      by (rule iv_corners_ok[where Q = "\<lambda>p q r. bi_val r = shr_val p q" and p = "iv_lb a" and q = "iv_lb s" and p' = "iv_ub a" and q' = "iv_ub s",
          OF f fx])
        (use c(2)[OF n] in auto)
  qed
qed

text \<open>The cases in which a right shift ends at once.\<close>

lemma iv_shr_short:
  assumes "iv_ok a" "iv_ok b"
  shows "iv_isBottom a \<or> iv_isBottom b \<Longrightarrow> iv_shr_sound a b"
    "iv_isTop a \<and> iv_isTop b \<Longrightarrow> iv_shr_sound a b"
    "\<not> iv_isBottom a \<Longrightarrow> \<not> iv_isBottom b \<Longrightarrow> \<not> (iv_isTop a \<and> iv_isTop b) \<Longrightarrow> \<forall>y\<in>iv_set b. y < 0 \<Longrightarrow> iv_shr_sound a b"
proof -
  show "iv_isBottom a \<or> iv_isBottom b \<Longrightarrow> iv_shr_sound a b"
    using iv_set_nonempty assms by (auto simp: iv_shr_sound_def iv_shr.simps[of a b])
  show "iv_shr_sound a b" if t: "iv_isTop a \<and> iv_isTop b"
  proof -
    have e: "a = iv_top" "b = iv_top" using t iv_top_iff assms by auto
    have "iv_shr a b = Some iv_top" by (subst iv_shr.simps) (simp add: e)
    then show ?thesis using e(1) by (simp add: iv_shr_sound_def fits_shr)
  qed
  show "iv_shr_sound a b" if "\<not> iv_isBottom a" "\<not> iv_isBottom b" "\<not> (iv_isTop a \<and> iv_isTop b)" "\<forall>y\<in>iv_set b. y < 0"
  proof -
    obtain s where s: "iv_meet_with b \<lparr>iv_lb = bi_fin 0, iv_ub = plus_infinity\<rparr> = Some s" "iv_ok s"
      "iv_set s = iv_set b \<inter> {x. fits x \<and> 0 \<le> x}"
      using iv_meet_ok[OF assms(2) iv_nonneg(2)] unfolding wp_iff iv_nonneg(3) by blast
    have "iv_set s = {}" using that(4) unfolding s(3) by auto
    then have "iv_isBottom s" using iv_set_nonempty[OF s(2)] by simp
    then show ?thesis using that s(1) by (auto simp: iv_shr_sound_def iv_shr.simps[of a b] iv_nonneg(1))
  qed
qed

lemma iv_shr_direct:
  assumes a: "iv_ok a" "\<not> iv_contains a 0" and b: "iv_ok b" "shr_room b"
  shows "iv_shr_sound a b"
proof -
  have t: "\<not> iv_isTop a" using iv_top_iff[OF a(1)] iv_contains_iff[OF a(1), of 0] a(2) by (auto simp: fits_def)
  consider "iv_isBottom a \<or> iv_isBottom b" | "\<not> iv_isBottom a" "\<not> iv_isBottom b" "\<forall>y\<in>iv_set b. y < 0"
    | y0 where "\<not> iv_isBottom a" "\<not> iv_isBottom b" "y0 \<in> iv_set b" "0 \<le> y0" by force
  then show ?thesis
  proof cases
    case 3
    obtain s where s: "iv_meet_with b \<lparr>iv_lb = bi_fin 0, iv_ub = plus_infinity\<rparr> = Some s" "iv_ok s" "\<not> iv_isBottom s"
        "y0 \<in> iv_set s" "bi_val (iv_lb s) = max (bi_val (iv_lb b)) 0" "iv_ub s = iv_ub b"
      by (rule iv_shift_part[OF b(1) 3(3,4)])
    have room: "shr_room s" "0 \<le> bi_val (iv_lb s)" using b(2) s(3,5,6) 3(2) by (auto simp: shr_room_def)
    have mem: "y \<in> iv_set s" if "y \<in> iv_set b" "0 \<le> y" for y using that s(5,6) by (simp add: mem_iv_set)
    obtain x0 where x0: "x0 \<in> iv_set a" using iv_set_nonempty[OF a(1)] 3(1) by blast
    note direct = iv_shr_direct_mem[OF a(1) 3(1) a(2) s(2,3) room]
    have "wp (iv_corners bi_shr a s) iv_ok" using direct[OF x0 s(4)] by (rule wp_mono) simp
    then have "wp (iv_corners bi_shr a s) (\<lambda>c. iv_ok c \<and> (\<forall>x\<in>iv_set a. \<forall>y\<in>iv_set b. 0 \<le> y \<longrightarrow> x div 2 ^ nat y \<in> iv_set c))"
      by (rule wp_all[where Q = "\<lambda>x y. 0 \<le> y" and R = "\<lambda>x y c. x div 2 ^ nat y \<in> iv_set c"])
        (rule wp_mono[OF direct[OF _ mem]], (assumption | erule conjunct2)+)
    moreover have "iv_shr a b = iv_corners bi_shr a s"
      using 3(1,2) t a(2) s(1,3) by (subst iv_shr.simps) (simp add: iv_nonneg(1))
    ultimately show ?thesis by (simp add: iv_shr_sound_def)
  qed (use iv_shr_short[OF a(1) b(1)] t in blast)+
qed

lemma iv_shr_ok:
  assumes "iv_ok a" "iv_ok b" "shr_room b"
  shows "iv_shr_sound a b"
proof (cases "iv_contains a 0")
  case True
  then have z: "0 \<in> iv_set a" using iv_contains_iff[OF assms(1), of 0] by (simp add: fits_def)
  have na: "\<not> iv_isBottom a" by (rule iv_mem_not_bottom[OF z assms(1)])
  consider "iv_isBottom b \<or> (iv_isTop a \<and> iv_isTop b)" | "\<not> iv_isBottom b" "\<not> (iv_isTop a \<and> iv_isTop b)" "\<forall>y\<in>iv_set b. y < 0"
    | y0 where "\<not> iv_isBottom b" "\<not> (iv_isTop a \<and> iv_isTop b)" "y0 \<in> iv_set b" "0 \<le> y0" by force
  then show ?thesis
  proof cases
    case 3
    obtain s where s: "iv_meet_with b \<lparr>iv_lb = bi_fin 0, iv_ub = plus_infinity\<rparr> = Some s" "\<not> iv_isBottom s"
      by (rule iv_shift_part[OF assms(2) 3(3,4)])
    obtain l where l: "iv_create (iv_lb a) (bi_fin (- 1)) = Some l" "iv_ok l" "iv_set l = {x \<in> iv_set a. x < 0}"
      using iv_split_ok(1)[OF assms(1) na z] unfolding wp_iff by blast
    obtain u where u: "iv_create (bi_fin 1) (iv_ub a) = Some u" "iv_ok u" "iv_set u = {x \<in> iv_set a. 0 < x}"
      using iv_split_ok(2)[OF assms(1) na z] unfolding wp_iff by blast
    obtain cl where cl: "iv_shr l b = Some cl" "iv_ok cl" "\<forall>x\<in>iv_set l. \<forall>y\<in>iv_set b. 0 \<le> y \<longrightarrow> x div 2 ^ nat y \<in> iv_set cl"
      using iv_shr_direct[OF l(2) iv_part_no_zero[OF l(2) disjI1[OF l(3)]] assms(2,3)]
      unfolding iv_shr_sound_def wp_iff by (elim exE conjE)
    obtain cu where cu: "iv_shr u b = Some cu" "iv_ok cu" "\<forall>x\<in>iv_set u. \<forall>y\<in>iv_set b. 0 \<le> y \<longrightarrow> x div 2 ^ nat y \<in> iv_set cu"
      using iv_shr_direct[OF u(2) iv_part_no_zero[OF u(2) disjI2[OF u(3)]] assms(2,3)]
      unfolding iv_shr_sound_def wp_iff by (elim exE conjE)
    obtain j where j: "iv_join_with cl cu = Some j" "iv_ok j" "iv_set cl \<subseteq> iv_set j" "iv_set cu \<subseteq> iv_set j"
      using iv_join_ok[OF cl(2) cu(2)] unfolding wp_iff by blast
    obtain c where c: "iv_join_with j (iv_num 0) = Some c" "iv_ok c" "iv_set j \<subseteq> iv_set c" "0 \<in> iv_set c"
      using iv_join_ok[OF j(2), of "iv_num 0"] unfolding wp_iff by auto
    have "x div 2 ^ nat y \<in> iv_set c" if "x \<in> iv_set a" "y \<in> iv_set b" "0 \<le> y" for x y
    proof -
      have "x = 0 \<or> x \<in> iv_set l \<or> x \<in> iv_set u"
        using that(1) unfolding l(3) u(3) by (cases x "0 :: int" rule: linorder_cases) simp_all
      then show ?thesis
      proof (elim disjE)
        assume "x \<in> iv_set l"
        then have "x div 2 ^ nat y \<in> iv_set cl" using cl(3) that(2,3) by blast
        then show ?thesis by (rule subsetD[OF c(3) subsetD[OF j(3)]])
      next
        assume "x \<in> iv_set u"
        then have "x div 2 ^ nat y \<in> iv_set cu" using cu(3) that(2,3) by blast
        then show ?thesis by (rule subsetD[OF c(3) subsetD[OF j(4)]])
      qed (use c(4) in simp)
    qed
    moreover have "iv_shr a b = Some c"
      using na 3(1,2) True s l(1) u(1) cl(1) cu(1) j(1) c(1) by (subst iv_shr.simps) (simp add: iv_nonneg(1) if_not_P[OF 3(2)])
    ultimately show ?thesis using c(2) by (simp add: iv_shr_sound_def)
  qed (use iv_shr_short[OF assms(1,2)] na in blast)+
qed (rule iv_shr_direct[OF assms(1) _ assms(2,3)])

text \<open>Left shift multiplies by the interval of powers of two. A finite bound above 30 has no sensible power: 31
  gives the least \<^verbatim>\<open>int\<close>, more is undefined.\<close>

definition shl_room :: "interval \<Rightarrow> bool" where
  "shl_room b \<longleftrightarrow> bi_val (iv_lb b) < 2147483648 \<and> (is_infinity (iv_ub b) \<or> bi_val (iv_ub b) \<le> 30)"

lemma s32_small [simp]: "- 2147483648 \<le> n \<Longrightarrow> n < 2147483648 \<Longrightarrow> s32 n = n"
  by (simp add: s32_def)

lemma pow_le_30: "n \<le> 30 \<Longrightarrow> (2 :: int) ^ n \<le> 1073741824"
  using power_increasing[of n 30 "2 :: int"] by simp

lemma one_shl_small: "0 \<le> s \<Longrightarrow> s \<le> 30 \<Longrightarrow> one_shl s = Some (2 ^ nat s)"
proof -
  assume s: "0 \<le> s" "s \<le> 30"
  have "(2 :: int) ^ nat s \<le> 1073741824" using s by (intro pow_le_30) simp
  moreover have "(0 :: int) < 2 ^ nat s" by simp
  ultimately have "s32 (2 ^ nat s) = 2 ^ nat s" by (intro s32_small) linarith+
  then show ?thesis using s by (simp add: one_shl_def)
qed

lemma one_shl_31: "one_shl 31 = Some (- 2147483648)"
  by (simp add: one_shl_def s32_def)

lemma iv_shift_coeff_ok:
  assumes s: "iv_ok s" "\<not> iv_isBottom s" "shl_room s" "0 \<le> bi_val (iv_lb s)"
    and v: "fits v" "0 \<le> v" "bi_val (iv_lb s) \<le> 30 \<Longrightarrow> 2 ^ nat (bi_val (iv_lb s)) \<le> v"
      "\<not> is_infinity (iv_ub s) \<Longrightarrow> v \<le> 2 ^ nat (bi_val (iv_ub s))"
  shows "wp (iv_shift_coeff s) (\<lambda>c. iv_ok c \<and> v \<in> iv_set c)"
proof -
  note r = iv_okD[OF s(1,2)]
  have lf: "\<not> is_infinity (iv_lb s)" using finite_val[OF r(1)] r(4) s(4) by auto
  define l where "l = bi_val (iv_lb s)"
  have l: "0 \<le> l" "l < 2147483648" "s32 (bi_getNumeral (iv_lb s)) = l"
    using s(3,4) bi_getNumeral_fin[OF r(1) lf] by (simp_all add: shl_room_def l_def)
  have fit: "fits (2 ^ nat i)" if "i \<le> 30" for i
  proof -
    have "(0 :: int) \<le> 2 ^ nat i" by simp
    then show ?thesis using pow_le_30[of "nat i"] that unfolding fits_def by linarith
  qed
  let ?lb = "if l \<ge> 32 \<or> is_infinity (iv_lb s) then Some minus_infinity else map_option bi_fin (one_shl l)"
  have lo: "wp ?lb (\<lambda>b. bi_ok b \<and> bi_val b \<le> v)"
  proof -
    consider "32 \<le> l" | "l = 31" | "l \<le> 30" by linarith
    then show ?thesis
    proof cases
      case 1
      then show ?thesis using v(2) by simp
    next
      case 2
      then show ?thesis using lf one_shl_31 v(2) by (simp add: fits_def)
    next
      case 3
      then show ?thesis using l lf fit[OF 3] v(3) one_shl_small[OF l(1) 3] by (simp add: l_def)
    qed
  qed
  let ?ub = "if is_infinity (iv_ub s) then Some plus_infinity else map_option bi_fin (one_shl (s32 (bi_getNumeral (iv_ub s))))"
  have hi: "wp ?ub (\<lambda>b. bi_ok b \<and> v \<le> bi_val b)"
  proof (cases "is_infinity (iv_ub s)")
    case True
    then show ?thesis using v(1) by (simp add: fits_def)
  next
    case False
    then have u: "0 \<le> bi_val (iv_ub s)" "bi_val (iv_ub s) \<le> 30" "bi_getNumeral (iv_ub s) = bi_val (iv_ub s)"
      using s(3,4) r(3) bi_getNumeral_fin[OF r(2)] by (auto simp: shl_room_def)
    then show ?thesis using False fit[OF u(2)] v(4)[OF False] one_shl_small[OF u(1,2)] by simp
  qed
  show ?thesis unfolding iv_shift_coeff_def l(3) by (rule iv_make_wp[OF lo hi v(1)])
qed

lemma iv_shl_ok:
  assumes a: "iv_ok a" and b: "iv_ok b" "shl_room b" and x: "x \<in> iv_set a" and y: "y \<in> iv_set b" "0 \<le> y"
    and z: "fits (x * 2 ^ nat y)"
  shows "wp (iv_shl a b) (\<lambda>c. iv_ok c \<and> x * 2 ^ nat y \<in> iv_set c)"
proof -
  note p = iv_pair_cases[OF a b(1) x y(1)]
  obtain s where s: "iv_meet_with b \<lparr>iv_lb = bi_fin 0, iv_ub = plus_infinity\<rparr> = Some s" "iv_ok s" "\<not> iv_isBottom s"
      "y \<in> iv_set s" "bi_val (iv_lb s) = max (bi_val (iv_lb b)) 0" "iv_ub s = iv_ub b"
    by (rule iv_shift_part[OF b(1) y])
  have room: "shl_room s" "0 \<le> bi_val (iv_lb s)" using b(2) s(5,6) by (auto simp: shl_room_def)
  note r = iv_okD[OF s(2,3)]
  have bounds: "bi_val (iv_lb s) \<le> y" "y \<le> bi_val (iv_ub s)" using s(4) by (simp_all add: mem_iv_set)
  define v where "v = (if x \<noteq> 0 then 2 ^ nat y else if bi_val (iv_lb s) \<le> 30 then 2 ^ nat (bi_val (iv_lb s)) else 0 :: int)"
  have v: "x * v = x * 2 ^ nat y" "0 \<le> v" by (simp_all add: v_def)
  have up: "(2 :: int) ^ nat (bi_val (iv_lb s)) \<le> 2 ^ nat y" "(2 :: int) ^ nat y \<le> 2 ^ nat (bi_val (iv_ub s))"
    using bounds by (auto intro!: power_increasing)
  have "v \<le> i64_max"
  proof (cases "x = 0")
    case True
    have "(2 :: int) ^ nat (bi_val (iv_lb s)) \<le> i64_max" if "bi_val (iv_lb s) \<le> 30"
      using pow_le_30[of "nat (bi_val (iv_lb s))"] that by linarith
    then show ?thesis using True by (simp add: v_def)
  next
    case False
    have "(1 :: int) * 2 ^ nat y \<le> \<bar>x\<bar> * 2 ^ nat y" using False by (intro mult_right_mono) simp_all
    also have "\<dots> = \<bar>x * 2 ^ nat y\<bar>" by (simp add: abs_mult)
    also have "\<dots> \<le> i64_max" using z by (auto simp: fits_def)
    finally show ?thesis using False by (simp add: v_def)
  qed
  then have "fits v" using v(2) by (simp add: fits_def)
  moreover have "bi_val (iv_lb s) \<le> 30 \<Longrightarrow> 2 ^ nat (bi_val (iv_lb s)) \<le> v" using up(1) unfolding v_def by (cases "x = 0") simp_all
  moreover have "v \<le> 2 ^ nat (bi_val (iv_ub s))"
    using up order_trans[OF up] unfolding v_def by (cases "x = 0"; cases "bi_val (iv_lb s) \<le> 30") simp_all
  ultimately obtain c where c: "iv_shift_coeff s = Some c" "iv_ok c" "v \<in> iv_set c"
    using iv_shift_coeff_ok[OF s(2,3) room _ v(2)] unfolding wp_iff by blast
  have "wp (iv_mul a c) (\<lambda>c. iv_ok c \<and> x * 2 ^ nat y \<in> iv_set c)"
    using iv_mul_ok[OF a c(2) x c(3)] z v(1) by simp
  then show ?thesis using p(1,2) s(1,3) c(1) z by (simp add: iv_shl_def iv_nonneg(1))
qed

text \<open>A shift by exactly 31 multiplies by the least \<^verbatim>\<open>int\<close>: the sign is wrong.\<close>

lemma iv_shl_31: "iv_shl (iv_num 1) (iv_num 31) = Some (iv_num (- 2147483648))"
  by (simp add: iv_shl_def iv_nonneg(1) iv_num_def iv_isBottom_def iv_isTop_def iv_meet_with_def bi_max_def bi_min_def
      bi_leq_def iv_setValue_def ensure_def iv_shift_coeff_def bi_getNumeral_def one_shl_def s32_def iv_make_def
      iv_mul_def iv_corners_def bi_safeMul_def s64_def bi_min_list_def bi_max_list_def bi_geq_def signed_divide_int_def)

subsection \<open>The bitwise operators are sound\<close>

declare count_bits.simps [simp del]

lemma div_pow_eq_0: "0 \<le> m \<Longrightarrow> m div 2 ^ i = 0 \<longleftrightarrow> m < 2 ^ i" for m :: int
proof -
  assume m: "0 \<le> m"
  have "(0 :: int) < 2 ^ i" by simp
  then show ?thesis unfolding zdiv_eq_0_iff using m by linarith
qed

lemma count_bits_step:
  assumes "0 \<le> m" "i < 64"
  shows "count_bits m i = (if m < 2 ^ i then Some i else count_bits m (Suc i))"
  using assms by (subst count_bits.simps) (simp add: div_pow_eq_0)

lemma count_bits_ok:
  assumes "0 \<le> m" "m < 2 ^ n" "n < 64" "i \<le> n"
  shows "\<exists>k. count_bits m i = Some k \<and> i \<le> k \<and> k \<le> n \<and> m < 2 ^ k"
  using assms(4)
proof (induction rule: inc_induct)
  case base
  then show ?case using assms by (simp add: count_bits_step)
next
  case (step i)
  then show ?case using assms count_bits_step[OF assms(1), of i] by (cases "m < 2 ^ i") (auto intro: Suc_leD)
qed

lemma next_power_of_2_ok:
  assumes "0 \<le> m" "m < 1073741824"
  shows "\<exists>k. next_power_of_2 m = Some (2 ^ k) \<and> 1 \<le> k \<and> k \<le> 30 \<and> m < 2 ^ k"
proof -
  have "m < 2 ^ 30" using assms(2) by simp
  then obtain k where k: "count_bits m 1 = Some k" "1 \<le> k" "k \<le> 30" "m < 2 ^ k"
    using count_bits_ok[OF assms(1), of 30 1] by auto
  then show ?thesis using one_shl_small[of "int k"] by (auto simp: next_power_of_2_def)
qed

lemma iv_bits_bound_ok:
  assumes "0 \<le> x" "0 \<le> y" "x \<le> bi_getNumeral (iv_ub a)" "y \<le> bi_getNumeral (iv_ub b)"
    "bi_getNumeral (iv_ub a) < 1073741824" "bi_getNumeral (iv_ub b) < 1073741824"
  shows "wp (iv_bits_bound a b) (\<lambda>c. iv_ok c \<and> x OR y \<in> iv_set c \<and> x XOR y \<in> iv_set c)"
proof -
  define m where "m = max (bi_getNumeral (iv_ub a)) (bi_getNumeral (iv_ub b))"
  have "0 \<le> m" "m < 1073741824" using assms unfolding m_def by linarith+
  then obtain k where k: "next_power_of_2 m = Some (2 ^ k)" "k \<le> 30" "m < 2 ^ k"
    using next_power_of_2_ok by blast
  have xy: "x < 2 ^ k" "y < 2 ^ k" using assms k(3) by (auto simp: m_def)
  have p: "(0 :: int) < 2 ^ k" "(2 :: int) ^ k \<le> 1073741824" using pow_le_30[OF k(2)] by simp_all
  have "0 \<le> (2 :: int) ^ k - 1" "fits 0" "fits (2 ^ k - 1)" using p unfolding fits_def by linarith+
  then obtain c where c: "iv_range 0 (2 ^ k - 1) = Some c" "iv_ok c" "iv_set c = {0..2 ^ k - 1}"
    using iv_range_ok[of 0 "2 ^ k - 1"] unfolding wp_iff by blast
  have "x OR y < 2 ^ k" "x XOR y < 2 ^ k" "0 \<le> x OR y" "0 \<le> x XOR y"
    using OR_upper[OF assms(1) xy] XOR_upper[OF assms(1) xy] assms(1,2) by (simp_all add: or_nonnegative_int_iff xor_nonnegative_int_iff)
  then have "x OR y \<in> iv_set c" "x XOR y \<in> iv_set c" using c(3) by auto
  moreover have "- 2147483648 \<le> (2 :: int) ^ k - 1" using p by linarith
  ultimately show ?thesis using k(1) c(1,2) by (simp add: iv_bits_bound_def m_def)
qed

lemma iv_num_operands:
  assumes "iv_ok a" "iv_ok b" "x \<in> iv_set a" "y \<in> iv_set b" "iv_is_numeral a \<and> iv_is_numeral b"
  shows "bi_iVal (iv_lb a) = x" "bi_iVal (iv_lb b) = y"
proof -
  note p = iv_pair_cases[OF assms(1-4)]
  have "bi_val (iv_lb a) = x" "bi_val (iv_lb b) = y"
    using iv_mem_num[OF assms(1,3)] iv_mem_num[OF assms(2,4)] assms(5) by simp_all
  then have "iv_lb a = bi_fin x" "iv_lb b = bi_fin y" using p by (auto simp: bi_val_inject[symmetric])
  then show "bi_iVal (iv_lb a) = x" "bi_iVal (iv_lb b) = y" by simp_all
qed

lemma iv_and_ok:
  assumes "iv_ok a" "iv_ok b" "x \<in> iv_set a" "y \<in> iv_set b" "fits (x AND y)"
  shows "wp (iv_and a b) (\<lambda>c. iv_ok c \<and> x AND y \<in> iv_set c)"
proof -
  note p = iv_pair_cases[OF assms(1-4)]
  have z: "bi_ok (bi_fin 0)" by (simp add: fits_def)
  note n = bi_min_ok[OF p(4,6)]
  have num: "wp (iv_make (bi_and (iv_lb a) (iv_lb b)) (bi_and (iv_lb a) (iv_lb b))) (\<lambda>c. iv_ok c \<and> x AND y \<in> iv_set c)"
    if "iv_is_numeral a \<and> iv_is_numeral b"
    unfolding bi_and_def iv_num_operands[OF assms(1-4) that] using assms(5) by (intro iv_make_mem) simp_all
  have l: "0 \<le> x AND y" "x AND y \<le> x" if "0 \<le> bi_getNumeral (iv_lb a)"
    using that bi_getNumeral_nonneg[OF p(3)] p(7) by (simp_all add: AND_upper1)
  have r: "0 \<le> x AND y" "x AND y \<le> y" if "0 \<le> bi_getNumeral (iv_lb b)"
    using that bi_getNumeral_nonneg[OF p(5)] p(9) by (simp_all add: AND_upper2)
  have both: "wp (iv_make (bi_fin 0) (bi_min (iv_ub a) (iv_ub b))) (\<lambda>c. iv_ok c \<and> x AND y \<in> iv_set c)"
    if "0 \<le> bi_getNumeral (iv_lb a)" "0 \<le> bi_getNumeral (iv_lb b)"
    using n l[OF that(1)] r[OF that(2)] p(8,10) by (intro iv_make_mem z assms(5)) auto
  have left: "wp (iv_make (bi_fin 0) (iv_ub a)) (\<lambda>c. iv_ok c \<and> x AND y \<in> iv_set c)" if "0 \<le> bi_getNumeral (iv_lb a)"
    using l[OF that] p(8) by (intro iv_make_mem z p(4) assms(5)) auto
  have right: "wp (iv_make (bi_fin 0) (iv_ub b)) (\<lambda>c. iv_ok c \<and> x AND y \<in> iv_set c)" if "0 \<le> bi_getNumeral (iv_lb b)"
    using r[OF that] p(10) by (intro iv_make_mem z p(6) assms(5)) auto
  show ?thesis using p(1,2) num both left right assms(5) unfolding iv_and_def by simp
qed

text \<open>The operands of \<^verbatim>\<open>|\<close> and \<^verbatim>\<open>^\<close>: beyond \<open>2 ^ 30\<close> the power of two does not fit an \<^verbatim>\<open>int\<close>.\<close>

definition bits_room :: "interval \<Rightarrow> bool" where
  "bits_room i \<longleftrightarrow> is_infinity (iv_ub i) \<or> bi_val (iv_ub i) < 1073741824"

lemma iv_bits_operands:
  assumes "iv_ok a" "iv_ok b" "x \<in> iv_set a" "y \<in> iv_set b" "bits_room a" "bits_room b"
    "bi_getNumeral (iv_lb a) \<ge> 0 \<and> \<not> is_infinity (iv_ub a) \<and> bi_getNumeral (iv_lb b) \<ge> 0 \<and> \<not> is_infinity (iv_ub b)"
  shows "wp (iv_bits_bound a b) (\<lambda>c. iv_ok c \<and> x OR y \<in> iv_set c \<and> x XOR y \<in> iv_set c)"
proof -
  note p = iv_pair_cases[OF assms(1-4)]
  show ?thesis
    using p(7-10) assms(5-7) bi_getNumeral_nonneg[OF p(3)] bi_getNumeral_nonneg[OF p(5)]
      bi_getNumeral_fin[OF p(4)] bi_getNumeral_fin[OF p(6)]
    by (intro iv_bits_bound_ok) (auto simp: bits_room_def)
qed

lemma iv_or_ok:
  assumes "iv_ok a" "iv_ok b" "x \<in> iv_set a" "y \<in> iv_set b" "bits_room a" "bits_room b" "fits (x OR y)"
  shows "wp (iv_or a b) (\<lambda>c. iv_ok c \<and> x OR y \<in> iv_set c)"
proof -
  note p = iv_pair_cases[OF assms(1-4)]
  have num: "wp (iv_make (bi_or (iv_lb a) (iv_lb b)) (bi_or (iv_lb a) (iv_lb b))) (\<lambda>c. iv_ok c \<and> x OR y \<in> iv_set c)"
    if "iv_is_numeral a \<and> iv_is_numeral b"
    unfolding bi_or_def iv_num_operands[OF assms(1-4) that] using assms(7) by (intro iv_make_mem) simp_all
  have pos: "wp (iv_bits_bound a b) (\<lambda>c. iv_ok c \<and> x OR y \<in> iv_set c)"
    if "bi_getNumeral (iv_lb a) \<ge> 0 \<and> \<not> is_infinity (iv_ub a) \<and> bi_getNumeral (iv_lb b) \<ge> 0 \<and> \<not> is_infinity (iv_ub b)"
    using iv_bits_operands[OF assms(1-6) that] by (rule wp_mono) blast
  show ?thesis using p(1,2) num pos assms(7) unfolding iv_or_def by simp
qed

lemma iv_xor_ok:
  assumes "iv_ok a" "iv_ok b" "x \<in> iv_set a" "y \<in> iv_set b" "bits_room a" "bits_room b" "fits (x XOR y)"
  shows "wp (iv_xor a b) (\<lambda>c. iv_ok c \<and> x XOR y \<in> iv_set c)"
proof -
  note p = iv_pair_cases[OF assms(1-4)]
  have num: "wp (iv_make (bi_xor (iv_lb a) (iv_lb b)) (bi_xor (iv_lb a) (iv_lb b))) (\<lambda>c. iv_ok c \<and> x XOR y \<in> iv_set c)"
    if "iv_is_numeral a \<and> iv_is_numeral b"
    unfolding bi_xor_def iv_num_operands[OF assms(1-4) that] using assms(7) by (intro iv_make_mem) simp_all
  have pos: "wp (iv_bits_bound a b) (\<lambda>c. iv_ok c \<and> x XOR y \<in> iv_set c)"
    if "bi_getNumeral (iv_lb a) \<ge> 0 \<and> \<not> is_infinity (iv_ub a) \<and> bi_getNumeral (iv_lb b) \<ge> 0 \<and> \<not> is_infinity (iv_ub b)"
    using iv_bits_operands[OF assms(1-6) that] by (rule wp_mono) blast
  show ?thesis using p(1,2) num pos assms(7) unfolding iv_xor_def by simp
qed

lemma iv_or_undefined: "iv_or (iv_num 0) \<lparr>iv_lb = bi_fin 0, iv_ub = bi_fin 1073741824\<rparr> = None"
proof -
  have "count_bits 1073741824 i = Some 31" if "i \<le> 31" for i
    using that
  proof (induction rule: inc_induct)
    case (step i)
    then have "(2 :: int) ^ i \<le> 1073741824" by (intro pow_le_30) simp
    then show ?case using step count_bits_step[of 1073741824 i] by simp
  qed (simp add: count_bits_step)
  then have "count_bits 1073741824 1 = Some 31" by simp
  then show ?thesis
    by (simp add: iv_or_def iv_num_def iv_isBottom_def iv_is_numeral_def bi_equal_def bi_getNumeral_def iv_bits_bound_def
        next_power_of_2_def one_shl_31)
qed

end
