(* ===== verification/Abstract_Value.thy ===== *)
theory Abstract_Value
  imports Interval_Value
begin

text \<open>
  \<^verbatim>\<open>AddressValue\<close> and \<^verbatim>\<open>AbstractValue\<close> of \<^verbatim>\<open>svf/include/AE/Core\<close>: a set of 32-bit addresses, and a pair of an
  interval and such a set. The hash set is a list without repetitions, in some order of its own. An abstract
  value stands for the numbers of its interval and the addresses of its set.
\<close>

unbundle bit_operations_syntax

subsection \<open>Addresses\<close>

type_synonym address = "32 word"
type_synonym addr_set = "address list"

definition AddressMask :: address where
  "AddressMask = 0x7f000000"

definition FlippedAddressMask :: address where
  "FlippedAddressMask = AddressMask XOR 0xffffffff"

definition BlackHoleAddr :: address where
  "BlackHoleAddr = 0x7f000000 + 2"

definition getVirtualMemAddress :: "address \<Rightarrow> address option" where
  "getVirtualMemAddress idx = do { ensure (idx \<noteq> 0); Some (AddressMask + idx) }"

definition isVirtualMemAddress :: "address \<Rightarrow> bool" where
  "isVirtualMemAddress v \<longleftrightarrow> v AND 0xff000000 = AddressMask \<and> v \<noteq> AddressMask + 0"

definition getInternalID :: "address \<Rightarrow> address" where
  "getInternalID idx = idx AND FlippedAddressMask"

definition isNullPtr :: "address \<Rightarrow> bool" where
  "isNullPtr a \<longleftrightarrow> getInternalID a = 0"

subsection \<open>Sets of addresses\<close>

definition ad_equals :: "addr_set \<Rightarrow> addr_set \<Rightarrow> bool" where
  "ad_equals a b \<longleftrightarrow> set a = set b"

definition ad_empty :: "addr_set \<Rightarrow> bool" where
  "ad_empty a \<longleftrightarrow> a = []"

definition ad_size :: "addr_set \<Rightarrow> nat" where
  "ad_size a = length a"

definition ad_insert :: "address \<Rightarrow> addr_set \<Rightarrow> addr_set \<times> bool" where
  "ad_insert i a = (if i \<in> set a then (a, False) else (a @ [i], True))"

definition ad_contains :: "addr_set \<Rightarrow> address \<Rightarrow> bool" where
  "ad_contains a i \<longleftrightarrow> i \<in> set a"

fun ad_join_from :: "addr_set \<Rightarrow> addr_set \<times> bool \<Rightarrow> addr_set \<times> bool" where
  "ad_join_from [] r = r"
| "ad_join_from (x # xs) (a, changed) =
    ad_join_from xs
      (if x \<notin> set a then case ad_insert x a of (a', ins) \<Rightarrow> (a', if ins then True else changed) else (a, changed))"

definition ad_join_with :: "addr_set \<Rightarrow> addr_set \<Rightarrow> addr_set \<times> bool" where
  "ad_join_with a b = ad_join_from b (a, False)"

definition ad_meet_with :: "addr_set \<Rightarrow> addr_set \<Rightarrow> addr_set \<times> bool" where
  "ad_meet_with a b = (let s = filter (\<lambda>i. i \<in> set a) b in (s, set a \<noteq> set s))"

definition ad_hasIntersect :: "addr_set \<Rightarrow> addr_set \<Rightarrow> bool" where
  "ad_hasIntersect a b \<longleftrightarrow> \<not> ad_empty (fst (ad_meet_with a b))"

text \<open>\<^verbatim>\<open>isTop\<close> reads the first element, which a set without elements does not have.\<close>

definition ad_isTop :: "addr_set \<Rightarrow> bool option" where
  "ad_isTop a = (case a of [] \<Rightarrow> None | x # _ \<Rightarrow> Some (x = BlackHoleAddr))"

definition ad_isBottom :: "addr_set \<Rightarrow> bool" where
  "ad_isBottom a \<longleftrightarrow> ad_empty a"

definition ad_top :: addr_set where
  "ad_top = [BlackHoleAddr]"

definition ad_bottom :: addr_set where
  "ad_bottom = []"

subsection \<open>Abstract values\<close>

record abstract_value =
  av_interval :: interval
  av_addrs :: addr_set

definition av_default :: abstract_value where
  "av_default = \<lparr>av_interval = iv_bottom, av_addrs = []\<rparr>"

definition av_of_interval :: "interval \<Rightarrow> abstract_value" where
  "av_of_interval i = \<lparr>av_interval = i, av_addrs = []\<rparr>"

definition av_of_addrs :: "addr_set \<Rightarrow> abstract_value" where
  "av_of_addrs a = \<lparr>av_interval = iv_bottom, av_addrs = a\<rparr>"

definition av_isInterval :: "abstract_value \<Rightarrow> bool" where
  "av_isInterval v \<longleftrightarrow> \<not> iv_isBottom (av_interval v)"

definition av_isAddr :: "abstract_value \<Rightarrow> bool" where
  "av_isAddr v \<longleftrightarrow> \<not> ad_isBottom (av_addrs v)"

definition av_equals :: "abstract_value \<Rightarrow> abstract_value \<Rightarrow> bool" where
  "av_equals v w \<longleftrightarrow> iv_equals (av_interval v) (av_interval w) \<and> ad_equals (av_addrs v) (av_addrs w)"

definition av_join_with :: "abstract_value \<Rightarrow> abstract_value \<Rightarrow> abstract_value option" where
  "av_join_with v w = do {
     i \<leftarrow> iv_join_with (av_interval v) (av_interval w);
     Some \<lparr>av_interval = i, av_addrs = fst (ad_join_with (av_addrs v) (av_addrs w))\<rparr> }"

definition av_meet_with :: "abstract_value \<Rightarrow> abstract_value \<Rightarrow> abstract_value option" where
  "av_meet_with v w = do {
     i \<leftarrow> iv_meet_with (av_interval v) (av_interval w);
     Some \<lparr>av_interval = i, av_addrs = fst (ad_meet_with (av_addrs v) (av_addrs w))\<rparr> }"

text \<open>Widening and narrowing leave the addresses.\<close>

definition av_widen_with :: "abstract_value \<Rightarrow> abstract_value \<Rightarrow> abstract_value option" where
  "av_widen_with v w = do {
     i \<leftarrow> iv_widen_with (av_interval v) (av_interval w);
     Some (v\<lparr>av_interval := i\<rparr>) }"

definition av_narrow_with :: "abstract_value \<Rightarrow> abstract_value \<Rightarrow> abstract_value option" where
  "av_narrow_with v w = do {
     i \<leftarrow> iv_narrow_with (av_interval v) (av_interval w);
     Some (v\<lparr>av_interval := i\<rparr>) }"

subsection \<open>The values an abstract value stands for\<close>

datatype cval = Num int | Adr address

definition av_gam :: "abstract_value \<Rightarrow> cval set" where
  "av_gam v = Num ` iv_set (av_interval v) \<union> Adr ` set (av_addrs v)"

definition av_ok :: "abstract_value \<Rightarrow> bool" where
  "av_ok v \<longleftrightarrow> iv_ok (av_interval v) \<and> distinct (av_addrs v)"

lemma mem_av_gam [simp]:
  "Num x \<in> av_gam v \<longleftrightarrow> x \<in> iv_set (av_interval v)" "Adr a \<in> av_gam v \<longleftrightarrow> a \<in> set (av_addrs v)"
  by (auto simp: av_gam_def)

lemma av_gam_subset: "av_gam v \<subseteq> av_gam w \<longleftrightarrow>
    iv_set (av_interval v) \<subseteq> iv_set (av_interval w) \<and> set (av_addrs v) \<subseteq> set (av_addrs w)"
  by (auto simp: av_gam_def)

lemma av_simps [simp]:
  "av_ok av_default" "av_gam av_default = {}" "av_ok (av_of_interval i) \<longleftrightarrow> iv_ok i" "av_ok (av_of_addrs a) \<longleftrightarrow> distinct a"
  "av_gam (av_of_interval i) = Num ` iv_set i" "av_gam (av_of_addrs a) = Adr ` set a"
  by (auto simp: av_ok_def av_gam_def av_default_def av_of_interval_def av_of_addrs_def)

lemma ad_join_from_ok:
  "distinct a \<Longrightarrow> distinct (fst (ad_join_from xs (a, c))) \<and> set (fst (ad_join_from xs (a, c))) = set a \<union> set xs \<and>
     snd (ad_join_from xs (a, c)) = (c \<or> \<not> set xs \<subseteq> set a)"
  by (induction xs "(a, c)" arbitrary: a c rule: ad_join_from.induct) (auto simp: ad_insert_def)

lemma ad_join_ok:
  assumes "distinct a"
  shows "distinct (fst (ad_join_with a b))" "set (fst (ad_join_with a b)) = set a \<union> set b"
    "snd (ad_join_with a b) \<longleftrightarrow> set (fst (ad_join_with a b)) \<noteq> set a"
  using ad_join_from_ok[OF assms, of b False] by (auto simp: ad_join_with_def)

lemma ad_meet_ok: "distinct b \<Longrightarrow> distinct (fst (ad_meet_with a b))" "set (fst (ad_meet_with a b)) = set a \<inter> set b"
  "snd (ad_meet_with a b) \<longleftrightarrow> set (fst (ad_meet_with a b)) \<noteq> set a"
  by (auto simp: ad_meet_with_def Let_def)

lemma ad_hasIntersect_iff: "ad_hasIntersect a b \<longleftrightarrow> set a \<inter> set b \<noteq> {}"
  unfolding ad_hasIntersect_def ad_empty_def ad_meet_ok(2)[symmetric] by simp

text \<open>Equal values stand for the same.\<close>

lemma av_equals_gam: "av_ok v \<Longrightarrow> av_ok w \<Longrightarrow> av_equals v w \<Longrightarrow> av_gam v = av_gam w"
  by (simp add: av_ok_def av_equals_def iv_equals_iff ad_equals_def av_gam_def)

lemma av_join_ok:
  assumes "av_ok v" "av_ok w"
  shows "wp (av_join_with v w) (\<lambda>u. av_ok u \<and> av_gam v \<subseteq> av_gam u \<and> av_gam w \<subseteq> av_gam u \<and>
    (\<forall>d. av_ok d \<longrightarrow> av_gam v \<subseteq> av_gam d \<longrightarrow> av_gam w \<subseteq> av_gam d \<longrightarrow> av_gam u \<subseteq> av_gam d))"
proof -
  have o: "iv_ok (av_interval v)" "iv_ok (av_interval w)" "distinct (av_addrs v)" using assms by (auto simp: av_ok_def)
  show ?thesis
    using iv_join_ok[OF o(1,2)] ad_join_ok[OF o(3), of "av_addrs w"]
    by (auto simp: av_join_with_def av_ok_def av_gam_subset elim!: wp_mono)
qed

lemma av_meet_ok:
  assumes "av_ok v" "av_ok w"
  shows "wp (av_meet_with v w) (\<lambda>u. av_ok u \<and> av_gam u = av_gam v \<inter> av_gam w)"
proof -
  have o: "iv_ok (av_interval v)" "iv_ok (av_interval w)" "distinct (av_addrs w)" using assms by (auto simp: av_ok_def)
  show ?thesis
    using iv_meet_ok[OF o(1,2)] ad_meet_ok(1)[OF o(3), of "av_addrs v"] ad_meet_ok(2)[of "av_addrs v" "av_addrs w"]
    by (auto simp: av_meet_with_def av_ok_def av_gam_def elim!: wp_mono)
qed

interpretation av_dom: join_domain av_ok av_gam av_default av_join_with
  by unfold_locales (use av_join_ok in auto)

text \<open>The number of changes a value still has before it under widening.\<close>

abbreviation av_rank :: "abstract_value \<Rightarrow> nat" where
  "av_rank v \<equiv> iv_rank (av_interval v)"

lemma av_widen_ok:
  assumes "av_ok v" "av_ok w"
  shows "wp (av_widen_with v w) (\<lambda>u. av_ok u \<and> av_gam v \<subseteq> av_gam u \<and> (u = v \<or> av_rank u < av_rank v))"
proof -
  have o: "iv_ok (av_interval v)" "iv_ok (av_interval w)" using assms by (auto simp: av_ok_def)
  have "v\<lparr>av_interval := av_interval v\<rparr> = v" by (cases v) simp
  then show ?thesis
    using iv_widen_ok[OF o] assms by (auto simp: av_widen_with_def av_ok_def av_gam_subset elim!: wp_mono)
qed

interpretation av_widen: widen_domain av_ok av_gam av_default av_join_with av_widen_with av_rank
  by unfold_locales (rule av_widen_ok)

subsection \<open>Addresses and numbers of objects\<close>

lemma mask_bits:
  "AddressMask = push_bit 24 (mask 7)" "0xff000000 = (push_bit 24 (mask 8) :: address)"
  "FlippedAddressMask = push_bit 31 (mask 1) OR mask 24"
  by (simp_all add: AddressMask_def FlippedAddressMask_def push_bit_eq_mult mask_eq_exp_minus_1)

lemma bit_masks:
  "n < 32 \<Longrightarrow> bit AddressMask n \<longleftrightarrow> 24 \<le> n \<and> n < 31" "n < 32 \<Longrightarrow> bit (0xff000000 :: address) n \<longleftrightarrow> 24 \<le> n"
  "n < 32 \<Longrightarrow> bit FlippedAddressMask n \<longleftrightarrow> n < 24 \<or> n = 31"
proof -
  have len: "LENGTH(32) = 32" by simp
  show "n < 32 \<Longrightarrow> bit AddressMask n \<longleftrightarrow> 24 \<le> n \<and> n < 31" "n < 32 \<Longrightarrow> bit (0xff000000 :: address) n \<longleftrightarrow> 24 \<le> n"
    "n < 32 \<Longrightarrow> bit FlippedAddressMask n \<longleftrightarrow> n < 24 \<or> n = 31"
    unfolding mask_bits bit_or_iff bit_push_bit_iff bit_mask_iff possible_bit_word len by presburger+
qed

lemma small_bits_iff: "idx < 0x1000000 \<longleftrightarrow> (\<forall>n. bit idx n \<longrightarrow> n < 24)" for idx :: address
proof
  assume "idx < 0x1000000"
  then have "uint idx < 2 ^ 24" by (simp add: word_less_def)
  then have t: "take_bit 24 (uint idx) = uint idx" by (simp add: take_bit_int_eq_self)
  show "\<forall>n. bit idx n \<longrightarrow> n < 24"
  proof (intro allI impI)
    fix n assume b: "bit idx n"
    then have "bit (uint idx) n" using bit_imp_le_length[OF b] by (simp add: bit_uint_iff)
    then have "bit (take_bit 24 (uint idx)) n" unfolding t .
    then show "n < 24" by (simp add: bit_take_bit_iff)
  qed
next
  assume n: "\<forall>n. bit idx n \<longrightarrow> n < 24"
  have "take_bit 24 (uint idx) = uint idx"
    by (rule bit_eqI) (use n in \<open>auto simp: bit_take_bit_iff bit_uint_iff\<close>)
  then have "uint idx < 2 ^ 24" using take_bit_int_less_exp[of 24 "uint idx"] by simp
  then show "idx < 0x1000000" by (simp add: word_less_def)
qed

lemma small_bits: "idx < 0x1000000 \<Longrightarrow> bit idx n \<Longrightarrow> n < 24" for idx :: address
  by (simp add: small_bits_iff)

lemma mask_plus_small:
  assumes "idx < 0x1000000"
  shows "AddressMask + idx = AddressMask OR idx"
proof -
  have "AddressMask AND idx = 0"
    by (rule bit_word_eqI) (auto simp: bit_and_iff bit_masks dest: small_bits[OF assms])
  then show ?thesis using word_plus_and_or[of AddressMask idx] by simp
qed

text \<open>Up to \<open>2 ^ 24\<close> the number of an object can be read back from its address.\<close>

lemma address_of_id:
  assumes "idx \<noteq> 0" "idx < 0x1000000"
  shows "wp (getVirtualMemAddress idx) (\<lambda>a. isVirtualMemAddress a \<and> getInternalID a = idx)"
proof -
  have "(AddressMask OR idx) AND 0xff000000 = AddressMask"
  proof (rule bit_word_eqI)
    fix n assume "n < LENGTH(32)"
    then have n: "n < 32" by simp
    show "bit ((AddressMask OR idx) AND 0xff000000) n \<longleftrightarrow> bit AddressMask n"
      unfolding bit_and_iff bit_or_iff bit_masks(1,2)[OF n] using small_bits[OF assms(2), of n] by auto
  qed
  moreover have "(AddressMask OR idx) AND FlippedAddressMask = idx"
    by (rule bit_word_eqI) (auto simp: bit_and_iff bit_or_iff bit_masks(1,3) dest: small_bits[OF assms(2)])
  ultimately show ?thesis
    using assms by (simp add: getVirtualMemAddress_def isVirtualMemAddress_def getInternalID_def mask_plus_small[symmetric])
qed

lemma id_of_address:
  assumes "isVirtualMemAddress a"
  shows "getInternalID a \<noteq> 0" "getInternalID a < 0x1000000" "getVirtualMemAddress (getInternalID a) = Some a"
proof -
  have hi: "a AND 0xff000000 = AddressMask" and ne: "a \<noteq> AddressMask" using assms by (simp_all add: isVirtualMemAddress_def)
  have bits: "bit a n \<longleftrightarrow> n < 31" if "24 \<le> n" "n < 32" for n
    using arg_cong[OF hi, of "\<lambda>w. bit w n"] that unfolding bit_and_iff bit_masks(1,2)[OF that(2)] by simp
  have "n < 24" if "bit (getInternalID a) n" for n
    using that bits[of n] bit_imp_le_length[OF that] by (auto simp: getInternalID_def bit_and_iff bit_masks)
  then show small: "getInternalID a < 0x1000000" by (simp add: small_bits_iff)
  have e: "AddressMask OR getInternalID a = a"
    by (rule bit_word_eqI) (use bits in \<open>auto simp: getInternalID_def bit_or_iff bit_and_iff bit_masks\<close>)
  then show nz: "getInternalID a \<noteq> 0" using ne by auto
  show "getVirtualMemAddress (getInternalID a) = Some a" using nz e by (simp add: getVirtualMemAddress_def mask_plus_small[OF small])
qed

text \<open>So the address of the null pointer is never virtual, and that of object \<open>2 ^ 24\<close> is not either.\<close>

lemma virtual_not_null: "isVirtualMemAddress a \<Longrightarrow> \<not> isNullPtr a"
  using id_of_address(1) by (simp add: isNullPtr_def)

lemma large_id_not_virtual: "wp (getVirtualMemAddress 0x1000000) (\<lambda>a. \<not> isVirtualMemAddress a)"
  by (simp add: getVirtualMemAddress_def isVirtualMemAddress_def AddressMask_def)

end
