(* ===== verification/Abstract_State.thy ===== *)
theory Abstract_State
  imports Abstract_Value
begin

text \<open>
  \<^verbatim>\<open>AbstractState\<close> of \<^verbatim>\<open>svf/include/AE/Core/AbstractState.h\<close> and \<^verbatim>\<open>svf/lib/AE/Core/AbstractState.cpp\<close>: the abstract
  values of the variables and of the objects in memory, in two hash maps (association lists, in an order of
  their own). A missing key stands for no value. The state is related to the concrete values that its
  variables and objects may have.
\<close>

type_synonym abs_map = "(address \<times> abstract_value) list"

record abstract_state =
  as_vars :: abs_map
  as_mem :: abs_map

subsection \<open>Operations on one map\<close>

definition am_has_addr :: "abs_map \<Rightarrow> address \<Rightarrow> bool" where
  "am_has_addr m i = (case map_of m i of None \<Rightarrow> False | Some v \<Rightarrow> av_isAddr v)"

definition am_has_interval :: "abs_map \<Rightarrow> address \<Rightarrow> bool" where
  "am_has_interval m i = (case map_of m i of None \<Rightarrow> False | Some v \<Rightarrow> av_isInterval v)"

text \<open>The loops of \<^verbatim>\<open>widening\<close> and \<^verbatim>\<open>narrowing\<close>: a key of both maps with intervals in both is updated.\<close>

definition am_update ::
  "(abstract_value \<Rightarrow> abstract_value \<Rightarrow> abstract_value option) \<Rightarrow> abs_map \<Rightarrow> abs_map \<Rightarrow> abs_map option" where
  "am_update f m other = mapM (\<lambda>(k, v).
     case map_of other k of
       None \<Rightarrow> Some (k, v)
     | Some w \<Rightarrow> if av_isInterval v \<and> av_isInterval w then do { u \<leftarrow> f v w; Some (k, u) } else Some (k, v)) m"

text \<open>The bodies of the loops of \<^verbatim>\<open>joinWith\<close> and \<^verbatim>\<open>meetWith\<close>.\<close>

fun am_join1 :: "address \<times> abstract_value \<Rightarrow> abs_map \<Rightarrow> abs_map option" where
  "am_join1 (k, w) m = (case map_of m k of
     Some v \<Rightarrow> do { u \<leftarrow> av_join_with v w; Some (aput k u m) }
   | None \<Rightarrow> Some (aput k w m))"

definition am_join :: "abs_map \<Rightarrow> abs_map \<Rightarrow> abs_map option" where
  "am_join m other = foldM am_join1 other m"

fun am_meet1 :: "address \<times> abstract_value \<Rightarrow> abs_map \<Rightarrow> abs_map option" where
  "am_meet1 (k, w) m = (case map_of m k of
     Some v \<Rightarrow> do { u \<leftarrow> av_meet_with v w; Some (aput k u m) }
   | None \<Rightarrow> Some m)"

definition am_meet :: "abs_map \<Rightarrow> abs_map \<Rightarrow> abs_map option" where
  "am_meet m other = foldM am_meet1 other m"

definition eqVarToValMap :: "abs_map \<Rightarrow> abs_map \<Rightarrow> bool" where
  "eqVarToValMap lhs rhs \<longleftrightarrow> length lhs = length rhs \<and>
     list_all (\<lambda>(k, v). case map_of rhs k of None \<Rightarrow> False | Some w \<Rightarrow> av_equals v w) lhs"

definition lessThanVarToValMap :: "abs_map \<Rightarrow> abs_map \<Rightarrow> bool" where
  "lessThanVarToValMap lhs rhs =
    (if lhs = [] then rhs \<noteq> []
     else list_all (\<lambda>(k, v). case map_of rhs k of None \<Rightarrow> False
       | Some w \<Rightarrow> \<not> iv_contain (av_interval v) (av_interval w)) lhs)"

definition geqVarToValMap :: "abs_map \<Rightarrow> abs_map \<Rightarrow> bool" where
  "geqVarToValMap lhs rhs =
    (if rhs = [] then True
     else list_all (\<lambda>(k, w). case map_of lhs k of None \<Rightarrow> False
       | Some v \<Rightarrow> iv_contain (av_interval v) (av_interval w)) rhs)"

subsection \<open>Operations on the state\<close>

definition as_new :: abstract_state where
  "as_new = \<lparr>as_vars = [], as_mem = []\<rparr>"

definition as_bottom :: "abstract_state \<Rightarrow> abstract_state" where
  "as_bottom s = s\<lparr>as_vars := map (\<lambda>(k, v).
     (k, if av_isInterval v then v\<lparr>av_interval := iv_bottom\<rparr> else v)) (as_vars s)\<rparr>"

definition as_top :: "abstract_state \<Rightarrow> abstract_state" where
  "as_top s = s\<lparr>as_vars := map (\<lambda>(k, v).
     (k, if av_isInterval v then v\<lparr>av_interval := iv_top\<rparr> else v)) (as_vars s)\<rparr>"

text \<open>\<^verbatim>\<open>operator[]\<close> inserts a default value, the constant one fails on a missing key.\<close>

definition as_index :: "abstract_state \<Rightarrow> address \<Rightarrow> abstract_state \<times> abstract_value" where
  "as_index s i = (s\<lparr>as_vars := aref av_default (as_vars s) i\<rparr>, aget av_default (as_vars s) i)"

definition as_at :: "abstract_state \<Rightarrow> address \<Rightarrow> abstract_value option" where
  "as_at s i = map_of (as_vars s) i"

definition as_assign :: "abstract_state \<Rightarrow> address \<Rightarrow> abstract_value \<Rightarrow> abstract_state" where
  "as_assign s i v = s\<lparr>as_vars := aput i v (as_vars s)\<rparr>"

definition as_sliceState :: "abstract_state \<Rightarrow> address list \<Rightarrow> abstract_state \<times> abstract_state" where
  "as_sliceState s sl = foldl (\<lambda>(s, inv) i. case as_index s i of (s', v) \<Rightarrow> (s', as_assign inv i v)) (s, as_new) sl"

definition inVarToAddrsTable :: "abstract_state \<Rightarrow> address \<Rightarrow> bool" where
  "inVarToAddrsTable s i = am_has_addr (as_vars s) i"

definition inVarToValTable :: "abstract_state \<Rightarrow> address \<Rightarrow> bool" where
  "inVarToValTable s i = am_has_interval (as_vars s) i"

definition inAddrToAddrsTable :: "abstract_state \<Rightarrow> address \<Rightarrow> bool" where
  "inAddrToAddrsTable s i = am_has_addr (as_mem s) i"

definition inAddrToValTable :: "abstract_state \<Rightarrow> address \<Rightarrow> bool" where
  "inAddrToValTable s i = am_has_interval (as_mem s) i"

definition as_widening :: "abstract_state \<Rightarrow> abstract_state \<Rightarrow> abstract_state option" where
  "as_widening s other = do {
     vs \<leftarrow> am_update av_widen_with (as_vars s) (as_vars other);
     ms \<leftarrow> am_update av_widen_with (as_mem s) (as_mem other);
     Some \<lparr>as_vars = vs, as_mem = ms\<rparr> }"

definition as_narrowing :: "abstract_state \<Rightarrow> abstract_state \<Rightarrow> abstract_state option" where
  "as_narrowing s other = do {
     vs \<leftarrow> am_update av_narrow_with (as_vars s) (as_vars other);
     ms \<leftarrow> am_update av_narrow_with (as_mem s) (as_mem other);
     Some \<lparr>as_vars = vs, as_mem = ms\<rparr> }"

definition as_joinWith :: "abstract_state \<Rightarrow> abstract_state \<Rightarrow> abstract_state option" where
  "as_joinWith s other = do {
     vs \<leftarrow> am_join (as_vars s) (as_vars other);
     ms \<leftarrow> am_join (as_mem s) (as_mem other);
     Some \<lparr>as_vars = vs, as_mem = ms\<rparr> }"

definition as_meetWith :: "abstract_state \<Rightarrow> abstract_state \<Rightarrow> abstract_state option" where
  "as_meetWith s other = do {
     vs \<leftarrow> am_meet (as_vars s) (as_vars other);
     ms \<leftarrow> am_meet (as_mem s) (as_mem other);
     Some \<lparr>as_vars = vs, as_mem = ms\<rparr> }"

definition as_store :: "abstract_state \<Rightarrow> address \<Rightarrow> abstract_value \<Rightarrow> abstract_state option" where
  "as_store s addr v = do {
     ensure (isVirtualMemAddress addr);
     if isNullPtr addr then Some s
     else Some (s\<lparr>as_mem := aput (getInternalID addr) v (as_mem s)\<rparr>) }"

definition as_load :: "abstract_state \<Rightarrow> address \<Rightarrow> (abstract_state \<times> abstract_value) option" where
  "as_load s addr = do {
     ensure (isVirtualMemAddress addr);
     let objId = getInternalID addr;
     Some (s\<lparr>as_mem := aref av_default (as_mem s) objId\<rparr>, aget av_default (as_mem s) objId) }"

definition as_loadValue :: "abstract_state \<Rightarrow> address \<Rightarrow> (abstract_state \<times> abstract_value) option" where
  "as_loadValue s varId = (case as_index s varId of (s, p) \<Rightarrow>
     foldM (\<lambda>addr (s, res). do {
       (s, v) \<leftarrow> as_load s addr;
       res \<leftarrow> av_join_with res v;
       Some (s, res) }) (av_addrs p) (s, av_default))"

definition as_storeValue :: "abstract_state \<Rightarrow> address \<Rightarrow> abstract_value \<Rightarrow> abstract_state option" where
  "as_storeValue s varId val = (case as_index s varId of (s, p) \<Rightarrow>
     foldM (\<lambda>addr s. as_store s addr val) (av_addrs p) s)"

definition as_eq :: "abstract_state \<Rightarrow> abstract_state \<Rightarrow> bool" where
  "as_eq s t \<longleftrightarrow> eqVarToValMap (as_vars s) (as_vars t) \<and> eqVarToValMap (as_mem s) (as_mem t)"

definition as_ne :: "abstract_state \<Rightarrow> abstract_state \<Rightarrow> bool" where
  "as_ne s t \<longleftrightarrow> \<not> as_eq s t"

definition as_ge :: "abstract_state \<Rightarrow> abstract_state \<Rightarrow> bool" where
  "as_ge s t \<longleftrightarrow> geqVarToValMap (as_vars s) (as_vars t) \<and> geqVarToValMap (as_mem s) (as_mem t)"

definition as_lt :: "abstract_state \<Rightarrow> abstract_state \<Rightarrow> bool" where
  "as_lt s t \<longleftrightarrow> \<not> as_ge s t"

definition as_clear :: "abstract_state \<Rightarrow> abstract_state" where
  "as_clear s = s\<lparr>as_mem := [], as_vars := []\<rparr>"

subsection \<open>What a map stands for\<close>

abbreviation am_get :: "abs_map \<Rightarrow> address \<Rightarrow> abstract_value" where
  "am_get m \<equiv> aget av_default m"

definition am_gam :: "abs_map \<Rightarrow> (address \<times> cval) set" where
  "am_gam m = {(k, c). c \<in> av_gam (am_get m k)}"

definition am_ok :: "abs_map \<Rightarrow> bool" where
  "am_ok m \<longleftrightarrow> distinct (map fst m) \<and> (\<forall>v\<in>snd ` set m. av_ok v)"

lemma mem_am_gam [simp]: "(k, c) \<in> am_gam m \<longleftrightarrow> c \<in> av_gam (am_get m k)"
  by (simp add: am_gam_def)

lemma am_gam_subset: "am_gam m \<subseteq> am_gam n \<longleftrightarrow> (\<forall>k. av_gam (am_get m k) \<subseteq> av_gam (am_get n k))"
  by (auto simp: am_gam_def)

lemma am_empty [simp]: "am_ok []" "am_gam [] = {}"
  by (auto simp: am_ok_def am_gam_def)

lemma map_of_am_get: "map_of m k = Some v \<Longrightarrow> am_get m k = v" "map_of m k = None \<Longrightarrow> am_get m k = av_default"
  by (simp_all add: aget_def)

lemma am_ok_get: "am_ok m \<Longrightarrow> av_ok (am_get m k)"
proof (cases "map_of m k")
  case (Some v)
  assume "am_ok m"
  then show ?thesis using map_of_SomeD[OF Some] Some by (force simp: am_ok_def aget_def)
qed (simp add: aget_def)

lemma am_ok_aput: "am_ok m \<Longrightarrow> av_ok v \<Longrightarrow> am_ok (aput k v m)"
  using set_aput_subset[of k v m] by (fastforce simp: am_ok_def)

lemma am_ok_aref: "am_ok m \<Longrightarrow> am_ok (aref av_default m k)"
  unfolding aref_def by (intro am_ok_aput am_ok_get)

lemma am_gam_aref [simp]: "am_gam (aref av_default m k) = am_gam m"
  by (auto simp: am_gam_def)

lemma am_ok_entry: "am_ok m \<Longrightarrow> (k, v) \<in> set m \<Longrightarrow> av_ok v \<and> map_of m k = Some v"
  by (force simp: am_ok_def)

text \<open>Joining gives the least map above both.\<close>

lemma am_join_step:
  assumes "am_ok m" "av_ok w"
  shows "wp (am_join1 (k, w) m) (\<lambda>m'. am_ok m' \<and> am_gam m \<subseteq> am_gam m' \<and> av_gam w \<subseteq> av_gam (am_get m' k) \<and>
      (\<forall>d. am_ok d \<longrightarrow> am_gam m \<subseteq> am_gam d \<longrightarrow> av_gam w \<subseteq> av_gam (am_get d k) \<longrightarrow> am_gam m' \<subseteq> am_gam d))"
proof (cases "map_of m k")
  case None
  then show ?thesis using assms am_ok_aput by (auto simp: am_gam_subset map_of_am_get split: if_splits)
next
  case (Some v)
  have v: "av_ok v" "am_get m k = v" using am_ok_get[OF assms(1), of k] Some by (simp_all add: map_of_am_get)
  obtain u where u: "av_join_with v w = Some u" "av_ok u" "av_gam v \<subseteq> av_gam u" "av_gam w \<subseteq> av_gam u"
    and least: "\<And>d. av_ok d \<Longrightarrow> av_gam v \<subseteq> av_gam d \<Longrightarrow> av_gam w \<subseteq> av_gam d \<Longrightarrow> av_gam u \<subseteq> av_gam d"
    using av_join_ok[OF v(1) assms(2)] unfolding wp_iff by auto
  have "am_gam (aput k u m) \<subseteq> am_gam d" if "am_ok d" "am_gam m \<subseteq> am_gam d" "av_gam w \<subseteq> av_gam (am_get d k)" for d
    using that least[OF am_ok_get[OF that(1)], of k] v(2) by (auto simp: am_gam_subset)
  then show ?thesis using Some u am_ok_aput[OF assms(1) u(2), of k] v(2) by (simp add: am_gam_subset)
qed

lemma am_entries_gam:
  assumes "am_ok n"
  shows "(\<forall>(k, w)\<in>set n. av_gam w \<subseteq> av_gam (am_get d k)) \<longleftrightarrow> am_gam n \<subseteq> am_gam d"
proof
  assume h: "\<forall>(k, w)\<in>set n. av_gam w \<subseteq> av_gam (am_get d k)"
  show "am_gam n \<subseteq> am_gam d"
    unfolding am_gam_subset
  proof
    fix k
    show "av_gam (am_get n k) \<subseteq> av_gam (am_get d k)"
      using h map_of_SomeD[of n k] by (cases "map_of n k") (auto simp: map_of_am_get)
  qed
next
  assume "am_gam n \<subseteq> am_gam d"
  then show "\<forall>(k, w)\<in>set n. av_gam w \<subseteq> av_gam (am_get d k)"
    using am_ok_entry[OF assms] by (fastforce simp: am_gam_subset map_of_am_get)
qed

lemma am_join_ok:
  assumes "am_ok m" "am_ok other"
  shows "wp (am_join m other) (\<lambda>m'. am_ok m' \<and> am_gam m \<subseteq> am_gam m' \<and> am_gam other \<subseteq> am_gam m' \<and>
    (\<forall>d. am_ok d \<longrightarrow> am_gam m \<subseteq> am_gam d \<longrightarrow> am_gam other \<subseteq> am_gam d \<longrightarrow> am_gam m' \<subseteq> am_gam d))"
proof -
  let ?P = "\<lambda>ys m'. am_ok m' \<and> am_gam m \<subseteq> am_gam m' \<and> (\<forall>(k, w)\<in>set ys. av_gam w \<subseteq> av_gam (am_get m' k)) \<and>
    (\<forall>d. am_ok d \<longrightarrow> am_gam m \<subseteq> am_gam d \<longrightarrow> (\<forall>(k, w)\<in>set ys. av_gam w \<subseteq> av_gam (am_get d k)) \<longrightarrow> am_gam m' \<subseteq> am_gam d)"
  have "wp (am_join m other) (?P other)"
    unfolding am_join_def
  proof (rule foldM_wp)
    fix ys x zs m' assume xs: "other = ys @ x # zs" and P: "?P ys m'"
    obtain k w where x: "x = (k, w)" by (cases x)
    have "av_ok w" using am_ok_entry[OF assms(2), of k w] xs x by simp
    then obtain n where e: "am_join1 (k, w) m' = Some n" and n: "am_ok n" "am_gam m' \<subseteq> am_gam n"
        "av_gam w \<subseteq> av_gam (am_get n k)"
        "\<forall>d. am_ok d \<longrightarrow> am_gam m' \<subseteq> am_gam d \<longrightarrow> av_gam w \<subseteq> av_gam (am_get d k) \<longrightarrow> am_gam n \<subseteq> am_gam d"
      using am_join_step[OF conjunct1[OF P], of w k] unfolding wp_iff by blast
    have "?P (ys @ [(k, w)]) n"
    proof (intro conjI)
      show "am_ok n" by (rule n(1))
      show "am_gam m \<subseteq> am_gam n" using P n(2) by blast
      have "av_gam (am_get m' i) \<subseteq> av_gam (am_get n i)" for i using n(2) by (simp add: am_gam_subset)
      then show "\<forall>(k, w)\<in>set (ys @ [(k, w)]). av_gam w \<subseteq> av_gam (am_get n k)" using P n(3) by fastforce
      show "\<forall>d. am_ok d \<longrightarrow> am_gam m \<subseteq> am_gam d \<longrightarrow>
          (\<forall>(k, w)\<in>set (ys @ [(k, w)]). av_gam w \<subseteq> av_gam (am_get d k)) \<longrightarrow> am_gam n \<subseteq> am_gam d"
        using P n(4) by simp
    qed
    then show "wp (am_join1 x m') (?P (ys @ [x]))" unfolding x e wp_Some .
  qed (use assms(1) in simp)
  then show ?thesis by (simp add: am_entries_gam[OF assms(2)])
qed

text \<open>Meeting cuts the values of the keys that both maps have, and leaves the others.\<close>

lemma am_meet_ok:
  assumes "am_ok m" "am_ok other"
  shows "wp (am_meet m other) (\<lambda>m'. am_ok m' \<and> (\<forall>k. av_gam (am_get m' k) =
    (if k \<in> fst ` set other then av_gam (am_get m k) \<inter> av_gam (am_get other k) else av_gam (am_get m k))))"
  unfolding am_meet_def
proof (rule foldM_wp[where P = "\<lambda>ys m'. am_ok m' \<and> (\<forall>k. av_gam (am_get m' k) =
    (if k \<in> fst ` set ys then av_gam (am_get m k) \<inter> av_gam (am_get other k) else av_gam (am_get m k)))"])
  fix ys x zs m'
  assume xs: "other = ys @ x # zs" and P: "am_ok m' \<and> (\<forall>k. av_gam (am_get m' k) =
    (if k \<in> fst ` set ys then av_gam (am_get m k) \<inter> av_gam (am_get other k) else av_gam (am_get m k)))"
  obtain k w where x: "x = (k, w)" by (cases x)
  have w: "av_ok w" "am_get other k = w"
    using am_ok_entry[OF assms(2), of k w] xs x by (simp_all add: map_of_am_get)
  have k: "k \<notin> fst ` set ys" using assms(2) xs x by (auto simp: am_ok_def)
  show "wp (am_meet1 x m') (\<lambda>m'. am_ok m' \<and> (\<forall>k. av_gam (am_get m' k) =
    (if k \<in> fst ` set (ys @ [x]) then av_gam (am_get m k) \<inter> av_gam (am_get other k) else av_gam (am_get m k))))"
  proof (cases "map_of m' k")
    case None
    have "av_gam (am_get m k) = {}" using P k None by (metis map_of_am_get(2) av_simps(2))
    then show ?thesis using P None by (simp add: x)
  next
    case (Some v)
    have v: "av_ok v" "am_get m' k = v" using am_ok_get[of m' k] P Some by (simp_all add: map_of_am_get)
    obtain u where u: "av_meet_with v w = Some u" "av_ok u" "av_gam u = av_gam v \<inter> av_gam w"
      using av_meet_ok[OF v(1) w(1)] unfolding wp_iff by blast
    have "av_gam v = av_gam (am_get m k)" using P k v(2) by metis
    then have "\<forall>i. av_gam (am_get (aput k u m') i) =
      (if i \<in> fst ` set (ys @ [x]) then av_gam (am_get m i) \<inter> av_gam (am_get other i) else av_gam (am_get m i))"
      using P u(3) w(2) by (simp add: x)
    then show ?thesis using Some u(1) am_ok_aput[OF conjunct1[OF P] u(2), of k] by (simp add: x)
  qed
qed (use assms(1) in simp)

text \<open>Updating key by key: what holds of one update holds of each entry.\<close>

lemma am_update_wp:
  assumes "am_ok m" "am_ok other"
    and f: "\<And>k v w. (k, v) \<in> set m \<Longrightarrow> map_of other k = Some w \<Longrightarrow> av_ok v \<Longrightarrow> av_ok w \<Longrightarrow>
      av_isInterval v \<Longrightarrow> av_isInterval w \<Longrightarrow> wp (f v w) (R v w)"
    and same: "\<And>v w. av_ok v \<Longrightarrow> \<not> (av_isInterval v \<and> av_isInterval w) \<Longrightarrow> R v w v"
    and only: "\<And>v. av_ok v \<Longrightarrow> R v av_default v"
  shows "wp (am_update f m other) (list_all2 (\<lambda>(k, v) (k', u). k' = k \<and> R v (am_get other k) u) m)"
  unfolding am_update_def
proof (rule wp_mapM)
  fix x assume x: "x \<in> set m"
  obtain k v where kv: "x = (k, v)" by (cases x)
  have v: "av_ok v" using am_ok_entry[OF assms(1)] x kv by blast
  show "wp (case x of (k, v) \<Rightarrow> case map_of other k of None \<Rightarrow> Some (k, v)
      | Some w \<Rightarrow> if av_isInterval v \<and> av_isInterval w then do { u \<leftarrow> f v w; Some (k, u) } else Some (k, v))
    ((\<lambda>(k, v) (k', u). k' = k \<and> R v (am_get other k) u) x)"
  proof (cases "map_of other k")
    case None
    then show ?thesis using only[OF v] by (simp add: kv map_of_am_get)
  next
    case (Some w)
    have w: "av_ok w" using am_ok_get[OF assms(2), of k] Some by (simp add: map_of_am_get)
    show ?thesis using f[OF _ Some v w] x same[OF v, of w] Some by (auto simp: kv map_of_am_get elim!: wp_mono)
  qed
qed

lemma list_all2_map_of:
  assumes "list_all2 (\<lambda>(k, v) (k', u). k' = k \<and> R k v u) m m'"
  shows "map fst m' = map fst m" "map_of m k = Some v \<Longrightarrow> \<exists>u. map_of m' k = Some u \<and> R k v u"
    "map_of m k = None \<Longrightarrow> map_of m' k = None"
  using assms by (induction rule: list_all2_induct) auto

definition am_rank :: "abs_map \<Rightarrow> nat" where
  "am_rank m = sum_list (map (\<lambda>(k, v). av_rank v) m)"

lemma am_rank_le: "am_rank m \<le> 3 * length m"
proof (induction m)
  case (Cons a m)
  then show ?case using iv_rank_le[of "av_interval (snd a)"] by (cases a) (simp add: am_rank_def)
qed (simp add: am_rank_def)

lemma am_widen_ok:
  assumes "am_ok m" "am_ok other"
  shows "wp (am_update av_widen_with m other) (\<lambda>m'. am_ok m' \<and> am_gam m \<subseteq> am_gam m' \<and> (m' = m \<or> am_rank m' < am_rank m))"
proof -
  let ?R = "\<lambda>v u. av_ok u \<and> av_gam v \<subseteq> av_gam u \<and> (u = v \<or> av_rank u < av_rank v)"
  have "wp (am_update av_widen_with m other) (list_all2 (\<lambda>(k, v) (k', u). k' = k \<and> ?R v u) m)"
    by (rule am_update_wp[OF assms, where R = "\<lambda>v w u. ?R v u"]) (use av_widen_ok in auto)
  then obtain m' where m': "am_update av_widen_with m other = Some m'"
    and all: "list_all2 (\<lambda>(k, v) (k', u). k' = k \<and> ?R v u) m m'" unfolding wp_iff by blast
  note keys = list_all2_map_of(1)[OF all] and some = list_all2_map_of(2)[OF all] and none = list_all2_map_of(3)[OF all]
  have "\<forall>v\<in>snd ` set m'. av_ok v" using all by (induction rule: list_all2_induct) auto
  then have "am_ok m'" using assms(1) keys by (simp add: am_ok_def)
  moreover have "av_gam (am_get m k) \<subseteq> av_gam (am_get m' k)" for k
    using some[of k] none[of k] by (cases "map_of m k") (auto simp: map_of_am_get)
  then have "am_gam m \<subseteq> am_gam m'" by (simp add: am_gam_subset)
  moreover have "am_rank m' \<le> am_rank m \<and> (m' = m \<or> am_rank m' < am_rank m)"
    using all by (induction rule: list_all2_induct) (auto simp: am_rank_def)
  ultimately show ?thesis using m' by simp
qed

subsection \<open>What a state stands for\<close>

datatype place = PVar address | PMem address

definition st_gam :: "abstract_state \<Rightarrow> (place \<times> cval) set" where
  "st_gam s = {(p, c). case p of PVar i \<Rightarrow> c \<in> av_gam (am_get (as_vars s) i) | PMem i \<Rightarrow> c \<in> av_gam (am_get (as_mem s) i)}"

definition st_ok :: "abstract_state \<Rightarrow> bool" where
  "st_ok s \<longleftrightarrow> am_ok (as_vars s) \<and> am_ok (as_mem s)"

definition st_rank :: "abstract_state \<Rightarrow> nat" where
  "st_rank s = am_rank (as_vars s) + am_rank (as_mem s)"

lemma mem_st_gam [simp]:
  "(PVar i, c) \<in> st_gam s \<longleftrightarrow> c \<in> av_gam (am_get (as_vars s) i)"
  "(PMem i, c) \<in> st_gam s \<longleftrightarrow> c \<in> av_gam (am_get (as_mem s) i)"
  by (simp_all add: st_gam_def)

lemma st_gam_subset: "st_gam s \<subseteq> st_gam t \<longleftrightarrow>
    am_gam (as_vars s) \<subseteq> am_gam (as_vars t) \<and> am_gam (as_mem s) \<subseteq> am_gam (as_mem t)"
proof
  assume h: "st_gam s \<subseteq> st_gam t"
  have "(PVar k, c) \<in> st_gam s \<Longrightarrow> (PVar k, c) \<in> st_gam t" "(PMem k, c) \<in> st_gam s \<Longrightarrow> (PMem k, c) \<in> st_gam t" for k c
    using subsetD[OF h] by blast+
  then show "am_gam (as_vars s) \<subseteq> am_gam (as_vars t) \<and> am_gam (as_mem s) \<subseteq> am_gam (as_mem t)" by auto
qed (force simp: st_gam_def am_gam_subset split: place.splits)

lemma as_new_simps [simp]: "st_ok as_new" "st_gam as_new = {}"
  by (auto simp: as_new_def st_ok_def st_gam_def aget_def split: place.splits)

lemma as_join_ok:
  assumes "st_ok s" "st_ok t"
  shows "wp (as_joinWith s t) (\<lambda>u. st_ok u \<and> st_gam s \<subseteq> st_gam u \<and> st_gam t \<subseteq> st_gam u \<and>
    (\<forall>d. st_ok d \<longrightarrow> st_gam s \<subseteq> st_gam d \<longrightarrow> st_gam t \<subseteq> st_gam d \<longrightarrow> st_gam u \<subseteq> st_gam d))"
proof -
  have o: "am_ok (as_vars s)" "am_ok (as_mem s)" "am_ok (as_vars t)" "am_ok (as_mem t)" using assms by (simp_all add: st_ok_def)
  obtain vs where vs: "am_join (as_vars s) (as_vars t) = Some vs" "am_ok vs" "am_gam (as_vars s) \<subseteq> am_gam vs"
    "am_gam (as_vars t) \<subseteq> am_gam vs"
    "\<forall>d. am_ok d \<longrightarrow> am_gam (as_vars s) \<subseteq> am_gam d \<longrightarrow> am_gam (as_vars t) \<subseteq> am_gam d \<longrightarrow> am_gam vs \<subseteq> am_gam d"
    using am_join_ok[OF o(1,3)] unfolding wp_iff by blast
  obtain ms where ms: "am_join (as_mem s) (as_mem t) = Some ms" "am_ok ms" "am_gam (as_mem s) \<subseteq> am_gam ms"
    "am_gam (as_mem t) \<subseteq> am_gam ms"
    "\<forall>d. am_ok d \<longrightarrow> am_gam (as_mem s) \<subseteq> am_gam d \<longrightarrow> am_gam (as_mem t) \<subseteq> am_gam d \<longrightarrow> am_gam ms \<subseteq> am_gam d"
    using am_join_ok[OF o(2,4)] unfolding wp_iff by blast
  show ?thesis using vs ms by (simp add: as_joinWith_def st_ok_def st_gam_subset)
qed

lemma as_widen_ok:
  assumes "st_ok s" "st_ok t"
  shows "wp (as_widening s t) (\<lambda>u. st_ok u \<and> st_gam s \<subseteq> st_gam u \<and> (u = s \<or> st_rank u < st_rank s))"
proof -
  have o: "am_ok (as_vars s)" "am_ok (as_mem s)" "am_ok (as_vars t)" "am_ok (as_mem t)" using assms by (simp_all add: st_ok_def)
  obtain vs where vs: "am_update av_widen_with (as_vars s) (as_vars t) = Some vs" "am_ok vs" "am_gam (as_vars s) \<subseteq> am_gam vs"
    "vs = as_vars s \<or> am_rank vs < am_rank (as_vars s)"
    using am_widen_ok[OF o(1,3)] unfolding wp_iff by blast
  obtain ms where ms: "am_update av_widen_with (as_mem s) (as_mem t) = Some ms" "am_ok ms" "am_gam (as_mem s) \<subseteq> am_gam ms"
    "ms = as_mem s \<or> am_rank ms < am_rank (as_mem s)"
    using am_widen_ok[OF o(2,4)] unfolding wp_iff by blast
  show ?thesis using vs ms by (cases s) (auto simp: as_widening_def st_ok_def st_gam_subset st_rank_def)
qed

interpretation st_dom: widen_domain st_ok st_gam as_new as_joinWith as_widening st_rank
  by unfold_locales (use as_join_ok as_widen_ok in auto)

subsection \<open>Reading and writing\<close>

text \<open>The concrete values of some variables and objects, all of them among those the state allows.\<close>

definition models :: "abstract_state \<Rightarrow> (place \<rightharpoonup> cval) \<Rightarrow> bool" where
  "models s env \<longleftrightarrow> (\<forall>p c. env p = Some c \<longrightarrow> (p, c) \<in> st_gam s)"

lemma models_mono: "models s env \<Longrightarrow> st_gam s \<subseteq> st_gam t \<Longrightarrow> models t env"
  by (auto simp: models_def)

lemma as_index_ok: "as_index s i = (s', v) \<Longrightarrow> st_ok s \<Longrightarrow>
    st_ok s' \<and> st_gam s' = st_gam s \<and> as_mem s' = as_mem s \<and> av_ok v \<and> v = am_get (as_vars s) i"
  using am_ok_aref[of "as_vars s" i] am_ok_get[of "as_vars s" i]
  by (auto simp: as_index_def st_ok_def st_gam_def split: place.splits)

lemma as_assign_ok: "st_ok s \<Longrightarrow> av_ok v \<Longrightarrow> st_ok (as_assign s i v)"
  by (simp add: as_assign_def st_ok_def am_ok_aput)

lemma models_assign: "models s env \<Longrightarrow> c \<in> av_gam v \<Longrightarrow> models (as_assign s i v) (env(PVar i \<mapsto> c))"
  by (auto simp: models_def as_assign_def st_gam_def split: place.splits)

lemma as_load_ok: "isVirtualMemAddress a \<Longrightarrow> st_ok s \<Longrightarrow> wp (as_load s a) (\<lambda>(s', v). st_ok s' \<and> st_gam s' = st_gam s \<and>
    as_vars s' = as_vars s \<and> v = am_get (as_mem s) (getInternalID a) \<and> av_ok v)"
  using am_ok_aref[of "as_mem s" "getInternalID a"] am_ok_get[of "as_mem s" "getInternalID a"]
  by (auto simp: as_load_def st_ok_def st_gam_def Let_def split: place.splits)

lemma st_gam_mem_eq: "st_gam s = st_gam t \<Longrightarrow> av_gam (am_get (as_mem s) i) = av_gam (am_get (as_mem t) i)"
proof (rule set_eqI)
  fix c assume "st_gam s = st_gam t"
  then have "(PMem i, c) \<in> st_gam s \<longleftrightarrow> (PMem i, c) \<in> st_gam t" by simp
  then show "c \<in> av_gam (am_get (as_mem s) i) \<longleftrightarrow> c \<in> av_gam (am_get (as_mem t) i)" by simp
qed

text \<open>The addresses a variable holds can be read and written.\<close>

definition targets :: "abstract_state \<Rightarrow> address \<Rightarrow> address set" where
  "targets s i = set (av_addrs (am_get (as_vars s) i))"

text \<open>A load gives the least value above those of the objects the pointer may point to.\<close>

lemma as_loadValue_ok:
  assumes "st_ok s" "\<forall>a\<in>targets s i. isVirtualMemAddress a"
  shows "wp (as_loadValue s i) (\<lambda>(s', v). st_ok s' \<and> st_gam s' = st_gam s \<and> av_ok v \<and>
    (\<forall>a\<in>targets s i. av_gam (am_get (as_mem s) (getInternalID a)) \<subseteq> av_gam v) \<and>
    (\<forall>d. av_ok d \<longrightarrow> (\<forall>a\<in>targets s i. av_gam (am_get (as_mem s) (getInternalID a)) \<subseteq> av_gam d) \<longrightarrow> av_gam v \<subseteq> av_gam d))"
proof -
  obtain s1 p where ix: "as_index s i = (s1, p)" by (cases "as_index s i")
  note s1 = as_index_ok[OF ix assms(1)]
  let ?m = "\<lambda>a. av_gam (am_get (as_mem s) (getInternalID a))"
  let ?P = "\<lambda>ys (s', v). st_ok s' \<and> st_gam s' = st_gam s \<and> av_ok v \<and> (\<forall>a\<in>set ys. ?m a \<subseteq> av_gam v) \<and>
    (\<forall>d. av_ok d \<longrightarrow> (\<forall>a\<in>set ys. ?m a \<subseteq> av_gam d) \<longrightarrow> av_gam v \<subseteq> av_gam d)"
  let ?body = "\<lambda>addr (s, res). do { (s, v) \<leftarrow> as_load s addr; res \<leftarrow> av_join_with res v; Some (s, res) }"
  have "wp (foldM ?body (av_addrs p) (s1, av_default)) (?P (av_addrs p))"
  proof (rule foldM_wp)
    fix ys x zs r assume xs: "av_addrs p = ys @ x # zs" and P: "?P ys r"
    obtain t res where r: "r = (t, res)" by (cases r)
    have P': "st_ok t" "st_gam t = st_gam s" "av_ok res" "\<forall>a\<in>set ys. ?m a \<subseteq> av_gam res"
      "\<forall>d. av_ok d \<longrightarrow> (\<forall>a\<in>set ys. ?m a \<subseteq> av_gam d) \<longrightarrow> av_gam res \<subseteq> av_gam d" using P r by simp_all
    have "isVirtualMemAddress x" using assms(2) s1 xs by (simp add: targets_def)
    then obtain t' v where l: "as_load t x = Some (t', v)" "st_ok t'" "st_gam t' = st_gam t" "av_ok v"
        "v = am_get (as_mem t) (getInternalID x)"
      using as_load_ok[OF _ P'(1), of x] unfolding wp_iff by auto
    have v: "av_gam v = ?m x" unfolding l(5) by (rule st_gam_mem_eq[OF P'(2)])
    obtain u where u: "av_join_with res v = Some u" "av_ok u" "av_gam res \<subseteq> av_gam u" "av_gam v \<subseteq> av_gam u"
        "\<forall>d. av_ok d \<longrightarrow> av_gam res \<subseteq> av_gam d \<longrightarrow> av_gam v \<subseteq> av_gam d \<longrightarrow> av_gam u \<subseteq> av_gam d"
      using av_join_ok[OF P'(3) l(4)] unfolding wp_iff by blast
    have "?P (ys @ [x]) (t', u)"
      using l(2,3) P'(2) u(2) subset_trans[OF _ u(3)] P'(4) u(4) v P'(5) u(5) by simp
    then show "wp (?body x r) (?P (ys @ [x]))" using r l(1) u(1) by simp
  qed (use s1 in simp)
  moreover have "set (av_addrs p) = targets s i" using s1 by (simp add: targets_def)
  ultimately show ?thesis using ix by (simp add: as_loadValue_def case_prod_unfold)
qed

text \<open>A store gives every object the pointer may point to exactly the new value.\<close>

lemma as_storeValue_ok:
  assumes "st_ok s" "av_ok v" "\<forall>a\<in>targets s i. isVirtualMemAddress a"
  shows "wp (as_storeValue s i v) (\<lambda>s'. st_ok s' \<and>
    (\<forall>k. av_gam (am_get (as_vars s') k) = av_gam (am_get (as_vars s) k)) \<and>
    (\<forall>k. am_get (as_mem s') k = (if k \<in> getInternalID ` targets s i then v else am_get (as_mem s) k)))"
proof -
  obtain s1 p where ix: "as_index s i = (s1, p)" by (cases "as_index s i")
  note s1 = as_index_ok[OF ix assms(1)]
  have vars: "av_gam (am_get (as_vars s1) k) = av_gam (am_get (as_vars s) k)" for k
    using ix by (auto simp: as_index_def)
  let ?P = "\<lambda>ys s'. st_ok s' \<and> as_vars s' = as_vars s1 \<and>
    (\<forall>k. am_get (as_mem s') k = (if k \<in> getInternalID ` set ys then v else am_get (as_mem s) k))"
  have "wp (foldM (\<lambda>addr s. as_store s addr v) (av_addrs p) s1) (?P (av_addrs p))"
  proof (rule foldM_wp)
    fix ys x zs t assume xs: "av_addrs p = ys @ x # zs" and P: "?P ys t"
    have x: "isVirtualMemAddress x" using assms(3) s1 xs by (simp add: targets_def)
    show "wp (as_store t x v) (?P (ys @ [x]))"
      using P x virtual_not_null[OF x] assms(2) by (auto simp: as_store_def st_ok_def am_ok_aput)
  qed (use s1 in simp)
  moreover have "set (av_addrs p) = targets s i" using s1 by (simp add: targets_def)
  ultimately show ?thesis using ix vars by (auto simp: as_storeValue_def elim!: wp_mono)
qed

lemma as_store_load:
  assumes "st_ok s" "av_ok v" "targets s i = {a}" "isVirtualMemAddress a"
  shows "wp (do { s \<leftarrow> as_storeValue s i v; as_loadValue s i }) (\<lambda>(s', w). av_gam w = av_gam v)"
proof -
  obtain s1 where s1: "as_storeValue s i v = Some s1" "st_ok s1" "av_gam (am_get (as_vars s1) i) = av_gam (am_get (as_vars s) i)"
      "am_get (as_mem s1) (getInternalID a) = v"
    using as_storeValue_ok[OF assms(1,2), of i] assms(3,4) unfolding wp_iff by auto
  have "b \<in> targets s1 i \<longleftrightarrow> b \<in> targets s i" for b
    using s1(3) unfolding targets_def mem_av_gam(2)[symmetric] by simp
  then have t: "targets s1 i = {a}" using assms(3) by auto
  have "wp (as_loadValue s1 i) (\<lambda>(s', w). st_ok s' \<and> st_gam s' = st_gam s1 \<and> av_ok w \<and>
    (\<forall>a\<in>targets s1 i. av_gam (am_get (as_mem s1) (getInternalID a)) \<subseteq> av_gam w) \<and>
    (\<forall>d. av_ok d \<longrightarrow> (\<forall>a\<in>targets s1 i. av_gam (am_get (as_mem s1) (getInternalID a)) \<subseteq> av_gam d) \<longrightarrow> av_gam w \<subseteq> av_gam d))"
    by (rule as_loadValue_ok[OF s1(2)]) (simp add: t assms(4))
  then have "wp (as_loadValue s1 i) (\<lambda>(s', w). av_gam w = av_gam v)"
    by (rule wp_mono) (use t s1(4) assms(2) in \<open>auto intro!: equalityI\<close>)
  then show ?thesis using s1(1) by simp
qed

lemma models_store:
  assumes "models s env" "\<forall>k. av_gam (am_get (as_vars s') k) = av_gam (am_get (as_vars s) k)"
    "\<forall>k. am_get (as_mem s') k = (if k = o' then v else am_get (as_mem s) k)" "c \<in> av_gam v"
  shows "models s' (env(PMem o' \<mapsto> c))"
  using assms by (auto simp: models_def st_gam_def split: place.splits)

subsection \<open>Meeting, narrowing and comparing states\<close>

text \<open>A meet keeps every environment that both states allow.\<close>

lemma as_meet_ok:
  assumes "st_ok s" "st_ok t"
  shows "wp (as_meetWith s t) (\<lambda>u. st_ok u \<and> st_gam u \<subseteq> st_gam s \<and> st_gam s \<inter> st_gam t \<subseteq> st_gam u)"
proof -
  have o: "am_ok (as_vars s)" "am_ok (as_mem s)" "am_ok (as_vars t)" "am_ok (as_mem t)" using assms by (simp_all add: st_ok_def)
  obtain vs where vs: "am_meet (as_vars s) (as_vars t) = Some vs" "am_ok vs" "\<forall>k. av_gam (am_get vs k) =
      (if k \<in> fst ` set (as_vars t) then av_gam (am_get (as_vars s) k) \<inter> av_gam (am_get (as_vars t) k)
       else av_gam (am_get (as_vars s) k))"
    using am_meet_ok[OF o(1,3)] unfolding wp_iff by blast
  obtain ms where ms: "am_meet (as_mem s) (as_mem t) = Some ms" "am_ok ms" "\<forall>k. av_gam (am_get ms k) =
      (if k \<in> fst ` set (as_mem t) then av_gam (am_get (as_mem s) k) \<inter> av_gam (am_get (as_mem t) k)
       else av_gam (am_get (as_mem s) k))"
    using am_meet_ok[OF o(2,4)] unfolding wp_iff by blast
  show ?thesis
    using vs ms by (auto simp: as_meetWith_def st_ok_def st_gam_def split: place.splits if_splits)
qed

text \<open>Narrowing by a state whose intervals lie inside.\<close>

definition narrow_room :: "abs_map \<Rightarrow> abs_map \<Rightarrow> bool" where
  "narrow_room m other \<longleftrightarrow> (\<forall>(k, v)\<in>set m. \<forall>w. map_of other k = Some w \<longrightarrow> av_isInterval v \<longrightarrow> av_isInterval w \<longrightarrow>
     iv_containedWithin (av_interval w) (av_interval v))"

lemma av_narrow_ok:
  assumes "av_ok v" "av_ok w" "iv_containedWithin (av_interval w) (av_interval v)"
  shows "wp (av_narrow_with v w) (\<lambda>u. av_ok u \<and> av_gam u \<subseteq> av_gam v \<and> (av_gam w \<subseteq> av_gam v \<longrightarrow> av_gam w \<subseteq> av_gam u))"
proof -
  have o: "iv_ok (av_interval v)" "iv_ok (av_interval w)" using assms by (auto simp: av_ok_def)
  obtain c where c: "iv_narrow_with (av_interval v) (av_interval w) = Some c" "iv_ok c"
      "iv_containedWithin (av_interval w) c" "iv_containedWithin c (av_interval v)"
    using iv_narrow_ok[OF o assms(3)] unfolding wp_iff by blast
  show ?thesis
    using c(1,2) assms(1) iv_containedWithin_subset[OF o(2) c(2,3)] iv_containedWithin_subset[OF c(2) o(1) c(4)]
    by (simp add: av_narrow_with_def av_ok_def av_gam_subset)
qed

lemma am_narrow_ok:
  assumes "am_ok m" "am_ok other" "narrow_room m other"
  shows "wp (am_update av_narrow_with m other)
    (\<lambda>m'. am_ok m' \<and> am_gam m' \<subseteq> am_gam m \<and> (am_gam other \<subseteq> am_gam m \<longrightarrow> am_gam other \<subseteq> am_gam m'))"
proof -
  let ?R = "\<lambda>v w u. av_ok u \<and> av_gam u \<subseteq> av_gam v \<and> (av_gam w \<subseteq> av_gam v \<longrightarrow> av_gam w \<subseteq> av_gam u)"
  have "wp (am_update av_narrow_with m other) (list_all2 (\<lambda>(k, v) (k', u). k' = k \<and> ?R v (am_get other k) u) m)"
    by (rule am_update_wp[OF assms(1,2), where R = ?R])
      (use av_narrow_ok assms(3) in \<open>fastforce simp: narrow_room_def\<close>)+
  then obtain m' where m': "am_update av_narrow_with m other = Some m'"
    and all: "list_all2 (\<lambda>(k, v) (k', u). k' = k \<and> ?R v (am_get other k) u) m m'" unfolding wp_iff by blast
  note keys = list_all2_map_of(1)[OF all] and some = list_all2_map_of(2)[OF all] and none = list_all2_map_of(3)[OF all]
  have "\<forall>v\<in>snd ` set m'. av_ok v" using all by (induction rule: list_all2_induct) auto
  then have "am_ok m'" using assms(1) keys by (simp add: am_ok_def)
  moreover have "av_gam (am_get m' k) \<subseteq> av_gam (am_get m k) \<and>
      (av_gam (am_get other k) \<subseteq> av_gam (am_get m k) \<longrightarrow> av_gam (am_get other k) \<subseteq> av_gam (am_get m' k))" for k
    using some[of k] none[of k] by (cases "map_of m k") (auto simp: map_of_am_get)
  ultimately show ?thesis using m' by (simp add: am_gam_subset)
qed

lemma as_narrow_ok:
  assumes "st_ok s" "st_ok t" "narrow_room (as_vars s) (as_vars t)" "narrow_room (as_mem s) (as_mem t)"
  shows "wp (as_narrowing s t) (\<lambda>u. st_ok u \<and> st_gam u \<subseteq> st_gam s \<and> (st_gam t \<subseteq> st_gam s \<longrightarrow> st_gam t \<subseteq> st_gam u))"
proof -
  have o: "am_ok (as_vars s)" "am_ok (as_mem s)" "am_ok (as_vars t)" "am_ok (as_mem t)" using assms by (simp_all add: st_ok_def)
  obtain vs where vs: "am_update av_narrow_with (as_vars s) (as_vars t) = Some vs" "am_ok vs" "am_gam vs \<subseteq> am_gam (as_vars s)"
    "am_gam (as_vars t) \<subseteq> am_gam (as_vars s) \<longrightarrow> am_gam (as_vars t) \<subseteq> am_gam vs"
    using am_narrow_ok[OF o(1,3) assms(3)] unfolding wp_iff by blast
  obtain ms where ms: "am_update av_narrow_with (as_mem s) (as_mem t) = Some ms" "am_ok ms" "am_gam ms \<subseteq> am_gam (as_mem s)"
    "am_gam (as_mem t) \<subseteq> am_gam (as_mem s) \<longrightarrow> am_gam (as_mem t) \<subseteq> am_gam ms"
    using am_narrow_ok[OF o(2,4) assms(4)] unfolding wp_iff by blast
  show ?thesis using vs ms by (simp add: as_narrowing_def st_ok_def st_gam_subset)
qed

text \<open>Equality compares the maps regardless of their order.\<close>

lemma eqVarToValMap_gam:
  assumes "am_ok m" "am_ok n" "eqVarToValMap m n"
  shows "am_gam m = am_gam n"
proof -
  have sub: "fst ` set m \<subseteq> fst ` set n"
  proof
    fix k assume "k \<in> fst ` set m"
    then obtain v where v: "(k, v) \<in> set m" by auto
    have "\<forall>(k, v)\<in>set m. case map_of n k of None \<Rightarrow> False | Some w \<Rightarrow> av_equals v w"
      using assms(3) by (simp add: eqVarToValMap_def list_all_iff)
    then have "map_of n k \<noteq> None" using v by (cases "map_of n k") auto
    then show "k \<in> fst ` set n" by (simp add: map_of_eq_None_iff)
  qed
  have "card (fst ` set m) = length m" "card (fst ` set n) = length n"
    using assms(1,2) distinct_card[of "map fst m"] distinct_card[of "map fst n"] by (simp_all add: am_ok_def)
  then have keys: "fst ` set m = fst ` set n"
    using sub assms(3) by (intro card_subset_eq) (simp_all add: eqVarToValMap_def)
  have "av_gam (am_get m k) = av_gam (am_get n k)" for k
  proof (cases "map_of m k")
    case None
    then have "map_of n k = None" using keys by (simp add: map_of_eq_None_iff)
    then show ?thesis using None by (simp add: map_of_am_get)
  next
    case (Some v)
    then obtain w where w: "map_of n k = Some w" "av_equals v w"
      using assms(3) map_of_SomeD[OF Some] by (fastforce simp: eqVarToValMap_def list_all_iff split: option.splits)
    have "av_ok v" "av_ok w" using am_ok_get[OF assms(1), of k] am_ok_get[OF assms(2), of k] Some w by (simp_all add: map_of_am_get)
    then show ?thesis using av_equals_gam[OF _ _ w(2)] Some w by (simp add: map_of_am_get)
  qed
  then show ?thesis by (simp add: am_gam_def)
qed

lemma as_eq_gam: "st_ok s \<Longrightarrow> st_ok t \<Longrightarrow> as_eq s t \<Longrightarrow> st_gam s = st_gam t"
  using eqVarToValMap_gam[of "as_vars s" "as_vars t"] eqVarToValMap_gam[of "as_mem s" "as_mem t"]
  by (intro subset_antisym) (simp_all add: st_ok_def as_eq_def st_gam_subset)

lemma eqVarToValMap_refl: "am_ok m \<Longrightarrow> eqVarToValMap m m"
  using am_ok_entry[of m] by (fastforce simp: eqVarToValMap_def list_all_iff av_equals_def iv_equals_def ad_equals_def bi_equal_def)

lemma as_eq_refl: "st_ok s \<Longrightarrow> as_eq s s"
  by (simp add: as_eq_def st_ok_def eqVarToValMap_refl)

text \<open>The order does not look at addresses, and takes a bottom interval for one that contains every other.\<close>

lemma as_ge_unsound:
  "\<exists>s t. st_ok s \<and> st_ok t \<and> as_ge s t \<and> \<not> st_gam t \<subseteq> st_gam s"
proof (intro exI conjI)
  let ?s = "\<lparr>as_vars = [(1, av_of_addrs [])], as_mem = []\<rparr>" and ?t = "\<lparr>as_vars = [(1, av_of_interval (iv_num 5))], as_mem = []\<rparr>"
  show "st_ok ?s" "st_ok ?t" using iv_num_ok[of 5] by (simp_all add: st_ok_def am_ok_def fits_def)
  show "as_ge ?s ?t" by (simp add: as_ge_def geqVarToValMap_def av_of_addrs_def iv_contain_def)
  have "(PVar 1, Num 5) \<in> st_gam ?t" "(PVar 1, Num 5) \<notin> st_gam ?s"
    using iv_num_ok[of 5] by (auto simp: aget_def fits_def)
  then show "\<not> st_gam ?t \<subseteq> st_gam ?s" by blast
qed

text \<open>A widening leaves the addresses: those that only the other state has are lost.\<close>

lemma as_widening_drops_addresses:
  "\<exists>s t u. st_ok s \<and> st_ok t \<and> as_widening s t = Some u \<and> \<not> st_gam t \<subseteq> st_gam u"
proof (intro exI conjI)
  let ?s = "\<lparr>as_vars = [(1, av_of_addrs [5])], as_mem = []\<rparr>" and ?t = "\<lparr>as_vars = [(1, av_of_addrs [6])], as_mem = []\<rparr>"
  show "st_ok ?s" "st_ok ?t" by (simp_all add: st_ok_def am_ok_def)
  show "as_widening ?s ?t = Some ?s" by (simp add: as_widening_def am_update_def av_isInterval_def av_of_addrs_def)
  have "(PVar 1, Adr 6) \<in> st_gam ?t" "(PVar 1, Adr 6) \<notin> st_gam ?s" by (auto simp: aget_def)
  then show "\<not> st_gam ?t \<subseteq> st_gam ?s" by blast
qed

text \<open>A store through a pointer with two targets forgets the old value of both.\<close>

lemma as_storeValue_forgets:
  "\<exists>s s' v env. st_ok s \<and> av_ok v \<and> models s env \<and> env (PVar 1) = Some (Adr 0x7f000002) \<and> as_storeValue s 1 v = Some s' \<and>
     \<not> models s' (env(PMem 2 \<mapsto> Num 7))"
proof (intro exI conjI)
  let ?s = "\<lparr>as_vars = [(1, av_of_addrs [0x7f000002, 0x7f000003])], as_mem = [(3, av_of_interval (iv_num 5))]\<rparr>"
  let ?v = "av_of_interval (iv_num 7)"
  let ?env = "[PVar 1 \<mapsto> Adr 0x7f000002, PMem 3 \<mapsto> Num 5]"
  let ?t = "\<lparr>as_vars = [(1, av_of_addrs [0x7f000002, 0x7f000003])], as_mem = [(3, ?v), (2, ?v)]\<rparr>"
  show "st_ok ?s" "av_ok ?v" using iv_num_ok[of 5] iv_num_ok[of 7] by (simp_all add: st_ok_def am_ok_def fits_def)
  show "models ?s ?env" using iv_num_ok[of 5] by (auto simp: models_def aget_def fits_def)
  have a: "isVirtualMemAddress 0x7f000002" "getInternalID 0x7f000002 = 2" "isVirtualMemAddress 0x7f000003" "getInternalID 0x7f000003 = 3"
    by (simp_all add: isVirtualMemAddress_def AddressMask_def getInternalID_def FlippedAddressMask_def)
  have i: "as_index ?s 1 = (?s, av_of_addrs [0x7f000002, 0x7f000003])" by (simp add: as_index_def aref_def aget_def aput_def)
  have st: "as_store s 0x7f000002 ?v = Some (s\<lparr>as_mem := aput 2 ?v (as_mem s)\<rparr>)"
    "as_store s 0x7f000003 ?v = Some (s\<lparr>as_mem := aput 3 ?v (as_mem s)\<rparr>)" for s
    unfolding as_store_def isNullPtr_def a(2,4) using a(1,3) by simp_all
  have "as_storeValue ?s 1 ?v = foldM (\<lambda>addr s. as_store s addr ?v) [0x7f000002, 0x7f000003] ?s"
    unfolding as_storeValue_def i by (simp add: av_of_addrs_def)
  also have "\<dots> = Some ?t" unfolding foldM.simps st by (simp add: aput_def)
  finally show "as_storeValue ?s 1 ?v = Some ?t" .
  have "(PMem 3, Num 5) \<notin> st_gam ?t" using iv_num_ok[of 7] by (auto simp: aget_def fits_def)
  moreover have "(?env(PMem 2 \<mapsto> Num 7)) (PMem 3) = Some (Num 5)" by simp
  ultimately show "\<not> models ?t (?env(PMem 2 \<mapsto> Num 7))" unfolding models_def by blast
qed simp

end
