(* ===== verification/Abstract_Gep.thy ===== *)
theory Abstract_Gep
  imports Abstract_State Interval_Arith Access_Path
begin

text \<open>
  Pointers to fields in the abstract state: the interval of a \<^verbatim>\<open>getelementptr\<close>'s offset
  (\<^verbatim>\<open>getElementIndex\<close> and \<^verbatim>\<open>getByteOffset\<close> of \<^verbatim>\<open>svf/lib/AE/Core/AbstractState.cpp\<close>) and the addresses it
  yields (\<^verbatim>\<open>getGepObjAddrs\<close>, and \<^verbatim>\<open>updateStateOnGep\<close> of the interpreter).
\<close>

text \<open>What these read from the program: whether arrays are modelled, the limit on fields, and the object of a field
  of an object, if the identifier is that of an object.\<close>

record gep_env =
  ge_arrays :: bool
  ge_limit :: nat
  ge_field :: "address \<Rightarrow> int \<Rightarrow> address option"

text \<open>The bounds of an index.\<close>

definition idx_bounds :: "abstract_state \<Rightarrow> ap_var \<Rightarrow> abstract_state \<times> int \<times> int" where
  "idx_bounds s v = (case v of
     ConstIntValVar _ n \<Rightarrow> (s, n, n)
   | ValVar i \<Rightarrow> (case as_index s i of (s, v) \<Rightarrow>
       let itv = av_interval v in
       if iv_isBottom itv then (s, 0, 0) else (s, bi_getNumeral (iv_lb itv), bi_getNumeral (iv_ub itv))))"

text \<open>An index of a pointer, scaled by the number of elements of what it points to; the division in doubles is exact
  enough to compare the product with the limit.\<close>

definition scale_index :: "nat \<Rightarrow> nat \<Rightarrow> int \<Rightarrow> int option" where
  "scale_index lim num i = (if int lim < i * int num then Some (int lim) else s64 (i * int num))"

definition aggregate_index :: "gep_env \<Rightarrow> ty \<Rightarrow> int \<times> int \<Rightarrow> (int \<times> int) option" where
  "aggregate_index g t = (\<lambda>(lb, ub).
     if ge_arrays g
     then do {
       i \<leftarrow> collectTypeInfo t;
       let so = si_elemIdx i;
       if so = [] \<or> ub \<ge> int (length so) \<or> lb < 0 then Some (0, 0)
       else do {
         l \<leftarrow> getFlattenedElemIdx True t (to_u32 lb);
         u \<leftarrow> getFlattenedElemIdx True t (to_u32 ub);
         Some (int l, int u) } }
     else Some (0, 0))"

definition elem_index_step :: "gep_env \<Rightarrow> access_path \<Rightarrow> ap_var \<times> ty option \<Rightarrow> abstract_state \<times> interval \<Rightarrow>
    (abstract_state \<times> interval) option" where
  "elem_index_step g ap = (\<lambda>(v, t) (s, res). case idx_bounds s v of (s, lb, ub) \<Rightarrow> do {
     t \<leftarrow> t;
     (lb, ub) \<leftarrow> (if isPointerTy t
       then do {
         p \<leftarrow> ap_pointee ap;
         num \<leftarrow> getElementNum (ge_arrays g) (ge_limit g) p;
         l \<leftarrow> scale_index (ge_limit g) num lb;
         u \<leftarrow> scale_index (ge_limit g) num ub;
         Some (l, u) }
       else aggregate_index g t (lb, ub));
     r \<leftarrow> iv_range lb ub;
     res \<leftarrow> iv_add res r;
     Some (s, res) })"

definition getElementIndex :: "gep_env \<Rightarrow> abstract_state \<Rightarrow> access_path \<Rightarrow> (abstract_state \<times> interval) option" where
  "getElementIndex g s ap =
    (if isConstantOffset ap
     then do { n \<leftarrow> computeConstantOffset (ge_arrays g) (ge_limit g) ap; Some (s, iv_num n) }
     else do {
       (s, res) \<leftarrow> foldM (elem_index_step g ap) (rev (ap_pairs ap)) (s, iv_num 0);
       r \<leftarrow> iv_range 0 (int (ge_limit g));
       res \<leftarrow> iv_meet_with res r;
       Some (s, if iv_isBottom res then iv_num 0 else res) })"

text \<open>The bytes of an index, cut at zero and at the limit.\<close>

definition byte_index :: "nat \<Rightarrow> nat \<Rightarrow> int \<Rightarrow> int" where
  "byte_index lim bytes i = (if i < 0 then 0 else if int lim \<ge> i * int bytes then int bytes * i else int lim)"

definition byte_offset_step :: "gep_env \<Rightarrow> access_path \<Rightarrow> ap_var \<times> ty option \<Rightarrow> abstract_state \<times> interval \<Rightarrow>
    (abstract_state \<times> interval) option" where
  "byte_offset_step g ap = (\<lambda>(v, t) (s, res). do {
     t \<leftarrow> t;
     (s, r) \<leftarrow> (case t of
       TStruct b ts \<Rightarrow> do { n \<leftarrow> getStructFieldOffset v t; Some (s, iv_num (int n)) }
     | _ \<Rightarrow> do {
         elemByteSize \<leftarrow> (case t of TArr b n e \<Rightarrow> Some (byte_size e)
           | TPtr b \<Rightarrow> map_option byte_size (ap_pointee ap) | _ \<Rightarrow> None);
         (case v of
           ConstIntValVar _ n \<Rightarrow> do {
             lb \<leftarrow> (if int (ge_limit g) \<ge> n * int elemByteSize then s64 (n * int elemByteSize) else Some (int (ge_limit g)));
             r \<leftarrow> iv_range lb lb;
             Some (s, r) }
         | ValVar i \<Rightarrow> (case as_index s i of (s, v) \<Rightarrow>
             let itv = av_interval v in
             if iv_isBottom itv then do { r \<leftarrow> iv_range 0 0; Some (s, r) }
             else do {
               r \<leftarrow> iv_range (byte_index (ge_limit g) elemByteSize (bi_getNumeral (iv_lb itv)))
                 (byte_index (ge_limit g) elemByteSize (bi_getNumeral (iv_ub itv)));
               Some (s, r) })) });
     res \<leftarrow> iv_add res r;
     Some (s, res) })"

definition getByteOffset :: "gep_env \<Rightarrow> abstract_state \<Rightarrow> access_path \<Rightarrow> (abstract_state \<times> interval) option" where
  "getByteOffset g s ap =
    (if isConstantOffset ap
     then do { n \<leftarrow> computeConstantByteOffset (ge_limit g) ap; Some (s, iv_num n) }
     else foldM (byte_offset_step g ap) (rev (ap_pairs ap)) (s, iv_num 0))"

subsection \<open>The addresses of fields\<close>

text \<open>The offsets of an interval, cut at the limit.\<close>

definition offsets :: "gep_env \<Rightarrow> interval \<Rightarrow> int list option" where
  "offsets g i = do {
     l \<leftarrow> iv_get_lb i;
     u \<leftarrow> iv_get_ub i;
     let lim = int (ge_limit g);
     let lb = (if bi_getNumeral l < lim then bi_getNumeral l else lim);
     let ub = (if bi_getNumeral u < lim then bi_getNumeral u else lim);
     Some [lb..ub] }"

text \<open>The object of the field is given its own address.\<close>

definition gep_field :: "gep_env \<Rightarrow> int \<Rightarrow> address \<Rightarrow> abstract_state \<times> addr_set \<Rightarrow> (abstract_state \<times> addr_set) option" where
  "gep_field g i addr = (\<lambda>(s, gepAddrs). do {
     gepObj \<leftarrow> ge_field g (getInternalID addr) i;
     a \<leftarrow> getVirtualMemAddress gepObj;
     Some (as_assign s gepObj (av_of_addrs [a]), fst (ad_insert a gepAddrs)) })"

definition gep_offset :: "gep_env \<Rightarrow> address \<Rightarrow> int \<Rightarrow> abstract_state \<times> addr_set \<Rightarrow> (abstract_state \<times> addr_set) option" where
  "gep_offset g pointer i = (\<lambda>(s, gepAddrs). case as_index s pointer of (s, v) \<Rightarrow>
     foldM (gep_field g i) (av_addrs v) (s, gepAddrs))"

definition getGepObjAddrs :: "gep_env \<Rightarrow> abstract_state \<Rightarrow> address \<Rightarrow> interval \<Rightarrow> (abstract_state \<times> addr_set) option" where
  "getGepObjAddrs g s pointer offset = do {
     is \<leftarrow> offsets g offset;
     foldM (gep_offset g pointer) is (s, []) }"

definition updateStateOnGep :: "gep_env \<Rightarrow> abstract_state \<Rightarrow> address \<Rightarrow> address \<Rightarrow> access_path \<Rightarrow> abstract_state option" where
  "updateStateOnGep g s lhs rhs ap = do {
     (s, offsetPair) \<leftarrow> getElementIndex g s ap;
     is \<leftarrow> offsets g offsetPair;
     (s, gepAddrs) \<leftarrow> foldM (\<lambda>i (s, gepAddrs). do {
       (s, addrs) \<leftarrow> getGepObjAddrs g s rhs (iv_num i);
       v \<leftarrow> av_join_with gepAddrs (av_of_addrs addrs);
       Some (s, v) }) is (s, av_default);
     Some (as_assign s lhs gepAddrs) }"

subsection \<open>The interval of the offset\<close>

text \<open>Reading a variable keeps what the state says.\<close>

definition same_state :: "abstract_state \<Rightarrow> abstract_state \<Rightarrow> bool" where
  "same_state s s' \<longleftrightarrow> st_ok s' \<and> (\<forall>k. am_get (as_vars s') k = am_get (as_vars s) k) \<and> as_mem s' = as_mem s"

lemma same_state_index: "st_ok s \<Longrightarrow> as_index s i = (s', v) \<Longrightarrow> same_state s s' \<and> v = am_get (as_vars s) i"
proof -
  assume h: "st_ok s" "as_index s i = (s', v)"
  have "s' = fst (as_index s i)" using h(2) by simp
  then have "am_get (as_vars s') k = am_get (as_vars s) k" for k by (simp add: as_index_def)
  then show ?thesis using as_index_ok[OF h(2,1)] by (simp add: same_state_def)
qed

lemma same_state_trans: "same_state s t \<Longrightarrow> same_state t u \<Longrightarrow> same_state s u"
  by (simp add: same_state_def)

lemma same_state_models: "same_state s s' \<Longrightarrow> models s env \<Longrightarrow> models s' env"
  by (auto simp: same_state_def models_def st_gam_def split: place.splits)

lemma idx_bounds_same:
  assumes "st_ok s" "idx_bounds s v = (s', l, u)"
  shows "same_state s s'" "same_state s0 s \<Longrightarrow> snd (idx_bounds s0 v) = (l, u)"
proof -
  have "same_state s s' \<and> (same_state s0 s \<longrightarrow> snd (idx_bounds s0 v) = (l, u))"
  proof (cases v)
    case (ConstIntValVar i n)
    then show ?thesis using assms by (simp add: idx_bounds_def same_state_def)
  next
    case (ValVar i)
    obtain s1 w where ix: "as_index s i = (s1, w)" by (cases "as_index s i")
    note si = same_state_index[OF assms(1) ix]
    have "s1 = s'" using assms(2) by (simp add: idx_bounds_def ValVar ix Let_def split: if_splits)
    moreover have "snd (idx_bounds s0 v) = (l, u)" if "same_state s0 s"
      using assms(2) si that by (simp add: idx_bounds_def ValVar ix Let_def as_index_def[of s0] same_state_def split: if_splits)
    ultimately show ?thesis using si by simp
  qed
  then show "same_state s s'" "same_state s0 s \<Longrightarrow> snd (idx_bounds s0 v) = (l, u)" by simp_all
qed

text \<open>The contribution \<open>c\<close> of an index with the value \<open>x\<close>: that many objects of the pointed-to type, or the place of that
  part of an aggregate; nothing when arrays are one element.\<close>

definition contribution :: "gep_env \<Rightarrow> access_path \<Rightarrow> ty \<Rightarrow> int \<Rightarrow> int \<Rightarrow> bool" where
  "contribution g ap t x c \<longleftrightarrow>
     (if isPointerTy t
      then \<exists>p num. ap_pointee ap = Some p \<and> getElementNum (ge_arrays g) (ge_limit g) p = Some num \<and> c = x * int num
      else if ge_arrays g then c = int (starts num_leaves (parts t) ! nat x)
      else c = 0)"

text \<open>What the code needs of the bounds of the index, and not of its value only: that both bounds are indices of the
  aggregate, as the code takes element zero otherwise; and, for a pointer index, that its contribution is within the
  limit, at which the code cuts off, and that the lower bound does not overflow when it is scaled.\<close>

definition index_room :: "gep_env \<Rightarrow> access_path \<Rightarrow> ty \<Rightarrow> int \<times> int \<Rightarrow> int \<Rightarrow> bool" where
  "index_room g ap t b c \<longleftrightarrow>
     (if isPointerTy t
      then c \<le> int (ge_limit g) \<and> (\<forall>p num. ap_pointee ap = Some p \<longrightarrow> getElementNum (ge_arrays g) (ge_limit g) p = Some num \<longrightarrow>
        fits (fst b * int num))
      else ge_arrays g \<longrightarrow> solid t \<and> ty_ok t \<and> 0 \<le> fst b \<and> snd b < int (length (parts t)))"

definition between :: "int \<times> int \<Rightarrow> int \<Rightarrow> bool" where
  "between b x \<longleftrightarrow> fst b \<le> x \<and> x \<le> snd b"

text \<open>An index of the path with a value and its contribution: the value is between the bounds that the state has for
  the variable.\<close>

definition index_at :: "gep_env \<Rightarrow> access_path \<Rightarrow> abstract_state \<Rightarrow> ap_var \<times> ty option \<Rightarrow> int \<times> int \<Rightarrow> bool" where
  "index_at g ap s = (\<lambda>(v, t) (x, c). \<exists>u. t = Some u \<and> between (snd (idx_bounds s v)) x \<and> contribution g ap u x c)"

definition index_fits :: "gep_env \<Rightarrow> access_path \<Rightarrow> abstract_state \<Rightarrow> ap_var \<times> ty option \<Rightarrow> int \<times> int \<Rightarrow> bool" where
  "index_fits g ap s = (\<lambda>(v, t) (x, c). \<forall>u. t = Some u \<longrightarrow> index_room g ap u (snd (idx_bounds s v)) c)"

lemma scale_index_ok:
  assumes "fits (l * int num)" "l \<le> x" "x \<le> u" "x * int num \<le> int lim" "lim < 2 ^ 32"
  shows "\<exists>a b. scale_index lim num l = Some a \<and> scale_index lim num u = Some b \<and> fits a \<and> fits b \<and>
    a \<le> x * int num \<and> x * int num \<le> b"
proof -
  have le: "l * int num \<le> x * int num" "x * int num \<le> u * int num" using assms(2,3) by (simp_all add: mult_right_mono)
  have lim: "fits (int lim)" using assms(5) by (simp add: fits_def)
  have "scale_index lim num l = Some (l * int num)" using le assms(1,4) by (simp add: scale_index_def)
  moreover have "fits (u * int num)" if "u * int num \<le> int lim" using that lim assms(1) le by (simp add: fits_def)
  ultimately show ?thesis using le lim assms(1,4) by (auto simp: scale_index_def)
qed

lemma aggregate_index_ok:
  assumes t: "solid t" "ty_ok t" "0 \<le> l" "u < int (length (parts t))" "l \<le> x" "x \<le> u" "ge_arrays g"
  shows "\<exists>a b. aggregate_index g t (l, u) = Some (a, b) \<and> fits a \<and> fits b \<and>
    a \<le> int (starts num_leaves (parts t) ! nat x) \<and> int (starts num_leaves (parts t) ! nat x) \<le> b"
proof -
  let ?s = "starts num_leaves (parts t)"
  have n: "nat l < length (parts t)" "nat u < length (parts t)" "nat l \<le> nat x" "nat x \<le> nat u" using t(3-6) by linarith+
  have p: "length (parts t) < 2 ^ 32" by (rule parts_small[OF t(2,1)])
  obtain s where s: "collectTypeInfo t = Some s" "info_ok t s" "length (si_elemIdx s) = length (parts t)"
    using parts_lt[OF t(2,1) n(1)] by blast
  have e: "si_elemIdx s = ?s" by (rule elemIdx_parts[OF t(1) s(2)])
  have f: "getFlattenedElemIdx True t i = Some (?s ! i)" if "i < length (parts t)" for i
  proof -
    have "parts t \<noteq> []" using that by auto
    then show ?thesis using s that e by (simp add: getFlattenedElemIdx_def Let_def)
  qed
  have "0 \<le> u" using t(3,5,6) by linarith
  then have u32: "to_u32 l = nat l" "to_u32 u = nat u" using t(3,4) n p by (auto intro!: to_u32_small)
  have "num_leaves t < 2 ^ 32" using t(1,2) by (cases t) (auto simp: solid_def)
  moreover have "?s ! i \<le> num_leaves t" if "i < length (parts t)" for i
    using starts_room[OF that, of num_leaves] by (simp add: leaves_parts[OF t(1)] length_concat o_def)
  ultimately have b: "fits (int (?s ! i))" if "i < length (parts t)" for i using that unfolding fits_def by force
  have m: "?s ! nat l \<le> ?s ! nat x" "?s ! nat x \<le> ?s ! nat u" using n by (auto intro!: starts_mono)
  have ne: "si_elemIdx s \<noteq> []" using s(3) n(1) by auto
  have "aggregate_index g t (l, u) = Some (int (?s ! nat l), int (?s ! nat u))"
    using s(1,3) ne t(3,4,7) f n(1,2) u32 by (simp add: aggregate_index_def Let_def)
  then show ?thesis using b n(1,2) m by auto
qed

lemma elem_index_step_ok:
  assumes "st_ok s" "index_at g ap s (v, Some t) (x, c)" "index_fits g ap s (v, Some t) (x, c)"
    and "iv_ok res" "n \<in> iv_set res" "fits (n + c)" "ge_limit g < 2 ^ 32"
  shows "wp (elem_index_step g ap (v, Some t) (s, res)) (\<lambda>(s', r). same_state s s' \<and> iv_ok r \<and> n + c \<in> iv_set r)"
proof -
  obtain s' l u where ib: "idx_bounds s v = (s', l, u)" by (cases "idx_bounds s v")
  have s': "same_state s s'" by (rule idx_bounds_same(1)[OF assms(1) ib])
  have b: "between (l, u) x" "contribution g ap t x c" "index_room g ap t (l, u) c"
    using assms(2,3) by (simp_all add: index_at_def index_fits_def ib)
  have x: "l \<le> x" "x \<le> u" using b(1) by (simp_all add: between_def)
  have pt: "\<exists>p num. ap_pointee ap = Some p \<and> getElementNum (ge_arrays g) (ge_limit g) p = Some num \<and>
      c = x * int num \<and> c \<le> int (ge_limit g) \<and> fits (l * int num)" if "isPointerTy t"
    using b(2,3) that by (auto simp: contribution_def index_room_def)
  have ag: "solid t \<and> ty_ok t \<and> 0 \<le> l \<and> u < int (length (parts t)) \<and> c = int (starts num_leaves (parts t) ! nat x)"
    if "\<not> isPointerTy t" "ge_arrays g"
    using b(2,3) that by (auto simp: contribution_def index_room_def)
  have na: "c = 0" if "\<not> isPointerTy t" "\<not> ge_arrays g" using b(2) that by (simp add: contribution_def)
  have fin: "wp (do { r \<leftarrow> iv_range a b; res \<leftarrow> iv_add res r; Some (s', res) })
      (\<lambda>(s', r). same_state s s' \<and> iv_ok r \<and> n + c \<in> iv_set r)" if ab: "fits a" "fits b" "a \<le> c" "c \<le> b" for a b
  proof -
    obtain r where r: "iv_range a b = Some r" "iv_ok r" "iv_set r = {a..b}"
      using iv_range_ok[OF ab(1,2) order_trans[OF ab(3,4)]] unfolding wp_iff by blast
    then have "c \<in> iv_set r" using ab by simp
    from iv_add_ok[OF assms(4) r(2) assms(5) this assms(6)] show ?thesis using r(1) s' unfolding wp_iff by auto
  qed
  show ?thesis
  proof (cases "isPointerTy t")
    case True
    then obtain p num where p: "ap_pointee ap = Some p" "getElementNum (ge_arrays g) (ge_limit g) p = Some num"
        "c = x * int num" "c \<le> int (ge_limit g)" "fits (l * int num)" using pt by blast
    then obtain a b where "scale_index (ge_limit g) num l = Some a" "scale_index (ge_limit g) num u = Some b" "fits a" "fits b"
        "a \<le> c" "c \<le> b" using scale_index_ok[of l num x u "ge_limit g"] x assms(7) by auto
    then show ?thesis using fin p(1,2) True by (simp add: elem_index_step_def ib)
  next
    case False
    have "\<exists>a b. aggregate_index g t (l, u) = Some (a, b) \<and> fits a \<and> fits b \<and> a \<le> c \<and> c \<le> b"
    proof (cases "ge_arrays g")
      case True
      then show ?thesis using aggregate_index_ok[of t l u x g] ag[OF False] x by auto
    next
      case not: False
      then show ?thesis using na[OF False] by (simp add: aggregate_index_def fits_def)
    qed
    then show ?thesis using fin False by (auto simp: elem_index_step_def ib)
  qed
qed

lemma iv_num_exact: "fits n \<Longrightarrow> iv_ok (iv_num n) \<and> iv_set (iv_num n) = {n} \<and> \<not> iv_isBottom (iv_num n)"
  using iv_range_ok[of n n] by (auto simp: iv_num_def iv_ok_def iv_set_def iv_isBottom_def fits_def)

lemma index_same_state:
  assumes "same_state s0 s"
  shows "index_at g ap s0 (v, t) = index_at g ap s (v, t)" "index_fits g ap s0 (v, t) = index_fits g ap s (v, t)"
proof -
  obtain s1 l u where ib: "idx_bounds s v = (s1, l, u)" by (cases "idx_bounds s v")
  have "st_ok s" using assms by (simp add: same_state_def)
  from idx_bounds_same(2)[OF this ib assms] have "snd (idx_bounds s0 v) = snd (idx_bounds s v)" using ib by simp
  then show "index_at g ap s0 (v, t) = index_at g ap s (v, t)" "index_fits g ap s0 (v, t) = index_fits g ap s (v, t)"
    by (simp_all add: index_at_def index_fits_def)
qed

lemma elem_index_fold:
  assumes "list_all2 (index_at g ap s0) ps xs" "list_all2 (index_fits g ap s0) ps xs"
    and "same_state s0 s" "iv_ok res" "n \<in> iv_set res" "\<forall>k\<le>length xs. fits (n + sum_list (map snd (take k xs)))" "ge_limit g < 2 ^ 32"
  shows "wp (foldM (elem_index_step g ap) ps (s, res))
    (\<lambda>(s', r). same_state s0 s' \<and> iv_ok r \<and> n + sum_list (map snd xs) \<in> iv_set r)"
  using assms(1-6)
proof (induction ps xs arbitrary: s res n rule: list_all2_induct)
  case Nil
  then show ?case by simp
next
  case (Cons p ps xc xs)
  obtain x c where xc: "xc = (x, c)" by fastforce
  obtain v t where p: "p = (v, Some t)" "index_at g ap s0 (v, Some t) (x, c)" using Cons.hyps(1) by (auto simp: index_at_def xc)
  have s: "st_ok s" using Cons.prems(2) by (simp add: same_state_def)
  have fit: "index_fits g ap s0 (v, Some t) (x, c)" "list_all2 (index_fits g ap s0) ps xs" using Cons.prems(1) by (simp_all add: p(1) xc)
  have c: "index_at g ap s (v, Some t) (x, c)" "index_fits g ap s (v, Some t) (x, c)"
    using p(2) fit(1) index_same_state[OF Cons.prems(2), of g ap v "Some t"] by simp_all
  have f: "fits (n + c)" using Cons.prems(5)[rule_format, of 1] by (simp add: xc)
  obtain s' r where r: "elem_index_step g ap p (s, res) = Some (s', r)" "same_state s s'" "iv_ok r" "n + c \<in> iv_set r"
    using elem_index_step_ok[OF s c Cons.prems(3,4) f assms(7)] unfolding wp_iff p(1) by auto
  have "\<forall>k\<le>length xs. fits (n + c + sum_list (map snd (take k xs)))"
    using Cons.prems(5)[rule_format, of "Suc k" for k] by (simp add: xc add.assoc)
  from Cons.IH[OF fit(2) same_state_trans[OF Cons.prems(2) r(2)] r(3,4) this] show ?case
    using r(1) by (simp add: add.assoc xc)
qed

text \<open>The interval contains the offset and lies within the limit.\<close>

lemma getElementIndex_ok:
  assumes "st_ok s" "\<not> isConstantOffset ap"
    and "list_all2 (index_at g ap s) (rev (ap_pairs ap)) xs" "list_all2 (index_fits g ap s) (rev (ap_pairs ap)) xs"
    and "\<forall>k\<le>length xs. fits (sum_list (map snd (take k xs)))"
    and "sum_list (map snd xs) \<in> {0..int (ge_limit g)}" "ge_limit g < 2 ^ 32"
  shows "wp (getElementIndex g s ap)
    (\<lambda>(s', r). same_state s s' \<and> iv_ok r \<and> sum_list (map snd xs) \<in> iv_set r \<and> iv_set r \<subseteq> {0..int (ge_limit g)})"
proof -
  let ?c = "sum_list (map snd xs)"
  have s: "same_state s s" using assms(1) by (simp add: same_state_def)
  have z: "iv_ok (iv_num 0)" "0 \<in> iv_set (iv_num 0)" using iv_num_exact[of 0] by (simp_all add: fits_def)
  obtain s' res where f: "foldM (elem_index_step g ap) (rev (ap_pairs ap)) (s, iv_num 0) = Some (s', res)" "same_state s s'"
      "iv_ok res" "?c \<in> iv_set res"
    using elem_index_fold[OF assms(3,4) s z _ assms(7)] assms(5) unfolding wp_iff by auto
  have lim: "fits (int (ge_limit g))" using assms(7) by (simp add: fits_def)
  obtain r where r: "iv_range 0 (int (ge_limit g)) = Some r" "iv_ok r" "iv_set r = {0..int (ge_limit g)}"
    using iv_range_ok[of 0 "int (ge_limit g)"] lim unfolding wp_iff by (auto simp: fits_def)
  obtain m where m: "iv_meet_with res r = Some m" "iv_ok m" "iv_set m = iv_set res \<inter> iv_set r"
    using iv_meet_ok[OF f(3) r(2)] unfolding wp_iff by blast
  have n: "?c \<in> iv_set m" using f(4) r(3) m(3) assms(6) by simp
  then have "\<not> iv_isBottom m" using iv_mem_not_bottom m(2) by blast
  then show ?thesis using assms(2) f(1,2) r m n by (simp add: getElementIndex_def)
qed

text \<open>When the bounds of an index go beyond the aggregate the code takes element zero, although the index may be
  another one.\<close>

lemma element_index_lost:
  assumes "solid t" "ty_ok t" "0 \<le> l" "l < int (length (parts t))" "int (length (parts t)) \<le> u" "ge_arrays g"
  shows "aggregate_index g t (l, u) = Some (0, 0)"
proof -
  have n: "nat l < length (parts t)" using assms(3,4) by linarith
  obtain s where "collectTypeInfo t = Some s" "length (si_elemIdx s) = length (parts t)"
    using parts_lt[OF assms(2,1) n] by blast
  then show ?thesis using assms(5,6) by (simp add: aggregate_index_def)
qed

subsection \<open>The addresses\<close>

lemma offsets_ok:
  assumes "iv_ok i" "iv_set i \<noteq> {}" "iv_set i \<subseteq> {0..int (ge_limit g)}" "ge_limit g < 2 ^ 32"
  shows "\<exists>is. offsets g i = Some is \<and> set is = iv_set i"
proof -
  let ?M = "i64_max"
  have nb: "\<not> iv_isBottom i" using assms(1,2) iv_bottom_iff[of i] by auto
  note o = iv_okD[OF assms(1) nb]
  have "max (- ?M) (bi_val (iv_lb i)) \<in> {0..int (ge_limit g)}" "min ?M (bi_val (iv_ub i)) \<in> {0..int (ge_limit g)}"
    using iv_ends[OF assms(1) nb] assms(3) by blast+
  then have v: "0 \<le> bi_val (iv_lb i)" "bi_val (iv_lb i) \<le> int (ge_limit g)" "0 \<le> bi_val (iv_ub i)" "bi_val (iv_ub i) \<le> int (ge_limit g)"
    using assms(4) by (auto simp: max_def min_def split: if_splits)
  then have "fits (bi_val (iv_lb i))" "fits (bi_val (iv_ub i))" using assms(4) by (auto simp: fits_def)
  then have "bi_getNumeral (iv_lb i) = bi_val (iv_lb i)" "bi_getNumeral (iv_ub i) = bi_val (iv_ub i)"
    using bi_val_fits[OF o(1)] bi_val_fits[OF o(2)] bi_getNumeral_fin[OF o(1)] bi_getNumeral_fin[OF o(2)] by auto
  then have "offsets g i = Some [bi_val (iv_lb i)..bi_val (iv_ub i)]"
    using nb v by (auto simp: offsets_def iv_get_lb_def iv_get_ub_def Let_def)
  moreover have "iv_set i = {bi_val (iv_lb i)..bi_val (iv_ub i)}"
    using v assms(4) by (auto simp: iv_set_def fits_def)
  ultimately show ?thesis by simp
qed

text \<open>The address of the field at an offset of the object at an address.\<close>

definition field_addr :: "gep_env \<Rightarrow> int \<Rightarrow> address \<Rightarrow> address option" where
  "field_addr g i a = Option.bind (ge_field g (getInternalID a) i) getVirtualMemAddress"

text \<open>The fields exist, none has the number of the pointer, and an environment has no other value for them.\<close>

definition gep_room :: "gep_env \<Rightarrow> (place \<rightharpoonup> cval) \<Rightarrow> address \<Rightarrow> address set \<Rightarrow> int set \<Rightarrow> bool" where
  "gep_room g env p as is \<longleftrightarrow> (\<forall>a\<in>as. \<forall>i\<in>is. \<exists>f b. ge_field g (getInternalID a) i = Some f \<and> getVirtualMemAddress f = Some b \<and>
     f \<noteq> p \<and> (env (PVar f) = None \<or> env (PVar f) = Some (Adr b)))"

definition gep_post :: "abstract_state \<Rightarrow> (place \<rightharpoonup> cval) \<Rightarrow> address \<Rightarrow> address set \<Rightarrow> abstract_state \<times> addr_set \<Rightarrow> bool" where
  "gep_post s env p B = (\<lambda>(s', acc). st_ok s' \<and> models s' env \<and> am_get (as_vars s') p = am_get (as_vars s) p \<and>
     distinct acc \<and> set acc = B)"

lemma gep_field_ok:
  assumes "gep_post s env p B (s', acc)" "gep_room g env p {a} {i}"
  shows "wp (gep_field g i a (s', acc)) (gep_post s env p (B \<union> {b. field_addr g i a = Some b}))"
proof -
  obtain f b where f: "ge_field g (getInternalID a) i = Some f" "getVirtualMemAddress f = Some b" "f \<noteq> p"
      "env (PVar f) = None \<or> env (PVar f) = Some (Adr b)"
    using assms(2) unfolding gep_room_def by blast
  let ?s = "as_assign s' f (av_of_addrs [b])"
  have s': "st_ok s'" "models s' env" "am_get (as_vars s') p = am_get (as_vars s) p" "distinct acc" "set acc = B"
    using assms(1) by (simp_all add: gep_post_def)
  have "models ?s (env(PVar f \<mapsto> Adr b))" by (rule models_assign[OF s'(2)]) simp
  then have "models ?s env" using f(4) unfolding models_def by (metis fun_upd_apply option.distinct(1))
  moreover have "st_ok ?s" by (rule as_assign_ok[OF s'(1)]) simp
  moreover have "am_get (as_vars ?s) p = am_get (as_vars s) p" using f(3) s'(3) by (simp add: as_assign_def)
  ultimately show ?thesis
    using s' f by (auto simp: gep_field_def gep_post_def field_addr_def ad_insert_def)
qed

lemma gep_offset_ok:
  assumes "gep_post s env p B (s', acc)" "gep_room g env p (targets s p) {i}"
  shows "wp (gep_offset g p i (s', acc)) (gep_post s env p (B \<union> {b. \<exists>a\<in>targets s p. field_addr g i a = Some b}))"
proof -
  obtain s1 v where ix: "as_index s' p = (s1, v)" by (cases "as_index s' p")
  have s': "st_ok s'" "models s' env" "am_get (as_vars s') p = am_get (as_vars s) p" using assms(1) by (simp_all add: gep_post_def)
  have i: "same_state s' s1" "v = am_get (as_vars s') p" using same_state_index[OF s'(1) ix] by simp_all
  have tg: "set (av_addrs v) = targets s p" using i(2) s'(3) by (simp add: targets_def)
  have p1: "gep_post s env p B (s1, acc)"
    using assms(1) i(1) same_state_models[OF i(1) s'(2)] by (simp add: gep_post_def same_state_def)
  have "wp (foldM (gep_field g i) (av_addrs v) (s1, acc))
      (gep_post s env p (B \<union> {b. \<exists>a\<in>set (av_addrs v). field_addr g i a = Some b}))"
  proof (rule foldM_wp[where P = "\<lambda>ys. gep_post s env p (B \<union> {b. \<exists>a\<in>set ys. field_addr g i a = Some b})"])
    show "gep_post s env p (B \<union> {b. \<exists>a\<in>set []. field_addr g i a = Some b}) (s1, acc)" using p1 by simp
    fix ys a zs t
    assume a: "av_addrs v = ys @ a # zs" and t: "gep_post s env p (B \<union> {b. \<exists>a\<in>set ys. field_addr g i a = Some b}) t"
    obtain t1 ta where tt: "t = (t1, ta)" by (cases t)
    have "a \<in> targets s p" using tg a by auto
    then have "gep_room g env p {a} {i}" using assms(2) unfolding gep_room_def by blast
    from gep_field_ok[OF t[unfolded tt] this]
    have "wp (gep_field g i a t) (gep_post s env p ((B \<union> {b. \<exists>a\<in>set ys. field_addr g i a = Some b}) \<union> {b. field_addr g i a = Some b}))"
      by (simp add: tt)
    moreover have "(B \<union> {b. \<exists>a\<in>set ys. field_addr g i a = Some b}) \<union> {b. field_addr g i a = Some b} =
        B \<union> {b. \<exists>a\<in>set (ys @ [a]). field_addr g i a = Some b}" by auto
    ultimately show "wp (gep_field g i a t) (gep_post s env p (B \<union> {b. \<exists>a\<in>set (ys @ [a]). field_addr g i a = Some b}))" by metis
  qed
  then show ?thesis by (simp add: gep_offset_def ix tg)
qed

lemma getGepObjAddrs_ok:
  assumes "gep_post s env p B (s', acc)" "gep_room g env p (targets s p) {n}" "0 \<le> n" "n \<le> int (ge_limit g)" "ge_limit g < 2 ^ 32"
  shows "wp (getGepObjAddrs g s' p (iv_num n)) (gep_post s env p {b. \<exists>a\<in>targets s p. field_addr g n a = Some b})"
proof -
  have n: "fits n" using assms(3-5) by (simp add: fits_def)
  have "offsets g (iv_num n) = Some [n]"
    using iv_num_exact[OF n] assms(4) n
    by (auto simp: offsets_def iv_get_lb_def iv_get_ub_def iv_num_def Let_def bi_getNumeral_def bi_fin_def
        is_plus_infinity_def is_minus_infinity_def)
  moreover have "gep_post s env p {} (s', [])" using assms(1) by (simp add: gep_post_def)
  ultimately show ?thesis using gep_offset_ok[of s env p "{}" s' "[]"] assms(2) by (simp add: getGepObjAddrs_def)
qed

lemma av_join_addrs:
  fixes v :: abstract_value
  assumes "av_interval v = iv_bottom" "distinct (av_addrs v)"
  shows "wp (av_join_with v (av_of_addrs a)) (\<lambda>u. av_interval u = iv_bottom \<and> distinct (av_addrs u) \<and>
    set (av_addrs u) = set (av_addrs v) \<union> set a)"
proof -
  have "iv_join_with iv_bottom iv_bottom = Some iv_bottom" by (simp add: iv_join_with_def)
  then show ?thesis using assms ad_join_ok[OF assms(2), of a] by (simp add: av_join_with_def av_of_addrs_def)
qed

text \<open>The pointer gets the addresses of the fields of the objects it points to, at the offsets of the interval.\<close>

lemma updateStateOnGep_ok:
  assumes "st_ok s" "models s env" "gep_room g env rhs (targets s rhs) {0..int (ge_limit g)}" "ge_limit g < 2 ^ 32"
    and idx: "getElementIndex g s ap = Some (s1, r)" "same_state s s1" "iv_ok r" "n \<in> iv_set r" "iv_set r \<subseteq> {0..int (ge_limit g)}"
  shows "wp (updateStateOnGep g s lhs rhs ap) (\<lambda>s'. st_ok s' \<and>
    targets s' lhs = {b. \<exists>i\<in>iv_set r. \<exists>a\<in>targets s rhs. field_addr g i a = Some b} \<and>
    (\<forall>a b. a \<in> targets s rhs \<longrightarrow> field_addr g n a = Some b \<longrightarrow> models s' (env(PVar lhs \<mapsto> Adr b))))"
proof -
  let ?F = "\<lambda>ks. {b. \<exists>i\<in>ks. \<exists>a\<in>targets s rhs. field_addr g i a = Some b}"
  let ?step = "\<lambda>i (s, gepAddrs). do {
       (s, addrs) \<leftarrow> getGepObjAddrs g s rhs (iv_num i);
       v \<leftarrow> av_join_with gepAddrs (av_of_addrs addrs);
       Some (s, v) }"
  have "iv_set r \<noteq> {}" using idx(4) by blast
  then obtain ks where ks': "offsets g r = Some ks" "set ks = iv_set r"
    using offsets_ok[OF idx(3) _ idx(5) assms(4)] by blast
  let ?P = "\<lambda>ys (t, v :: abstract_value). gep_post s env rhs (set (av_addrs v)) (t, av_addrs v) \<and> av_interval v = iv_bottom \<and>
    set (av_addrs v) = ?F (set ys)"
  have "wp (foldM ?step ks (s1, av_default)) (?P ks)"
  proof (rule foldM_wp[where P = ?P])
    show "?P [] (s1, av_default)"
      using idx(2) same_state_models[OF idx(2) assms(2)] by (simp add: gep_post_def same_state_def av_default_def)
    fix ys i zs t
    assume i: "ks = ys @ i # zs" and P: "?P ys t"
    obtain t1 v where t: "t = (t1, v)" by (cases t)
    have i0: "0 \<le> i" "i \<le> int (ge_limit g)" using i ks'(2) idx(5) by auto
    have room: "gep_room g env rhs (targets s rhs) {i}"
      using assms(3) i0 unfolding gep_room_def by (metis atLeastAtMost_iff singletonD)
    have p: "gep_post s env rhs (set (av_addrs v)) (t1, av_addrs v)" "av_interval v = iv_bottom" "set (av_addrs v) = ?F (set ys)"
      using P unfolding t prod.case by blast+
    obtain t2 addrs where g: "getGepObjAddrs g t1 rhs (iv_num i) = Some (t2, addrs)"
        "gep_post s env rhs {b. \<exists>a\<in>targets s rhs. field_addr g i a = Some b} (t2, addrs)"
      using getGepObjAddrs_ok[OF p(1) room i0 assms(4)] unfolding wp_iff by auto
    have "distinct (av_addrs v)" using p(1) by (simp add: gep_post_def)
    then obtain u where u: "av_join_with v (av_of_addrs addrs) = Some u" "av_interval u = iv_bottom" "distinct (av_addrs u)"
        "set (av_addrs u) = set (av_addrs v) \<union> set addrs"
      using av_join_addrs[OF p(2)] unfolding wp_iff by blast
    have "set (av_addrs u) = ?F (set (ys @ [i]))" using u(4) p(3) g(2) by (auto simp: gep_post_def)
    then show "wp (?step i t) (?P (ys @ [i]))" using g u by (simp add: t gep_post_def)
  qed
  then obtain s2 v where v: "foldM ?step ks (s1, av_default) = Some (s2, v)" "gep_post s env rhs (set (av_addrs v)) (s2, av_addrs v)"
      "av_interval v = iv_bottom" "set (av_addrs v) = ?F (iv_set r)"
    unfolding wp_iff using ks'(2) by auto
  have s2: "st_ok s2" "models s2 env" "distinct (av_addrs v)" using v(2) by (simp_all add: gep_post_def)
  have ok: "st_ok (as_assign s2 lhs v)" using s2 v(3) by (intro as_assign_ok) (simp_all add: av_ok_def)
  have "models (as_assign s2 lhs v) (env(PVar lhs \<mapsto> Adr b))" if "a \<in> targets s rhs" "field_addr g n a = Some b" for a b
    using that idx(4) v(4) by (intro models_assign[OF s2(2)]) auto
  moreover have "targets (as_assign s2 lhs v) lhs = ?F (iv_set r)" using v(4) by (simp add: targets_def as_assign_def)
  ultimately show ?thesis using ok idx(1) ks'(1) v(1) by (simp add: updateStateOnGep_def)
qed

text \<open>An index that may be arbitrarily small has the least 64-bit integer for its bound, and scaling that overflows.\<close>

lemma scale_index_infinite: "scale_index lim 2 (bi_getNumeral minus_infinity) = None"
  by (simp add: scale_index_def bi_getNumeral_def s64_def minus_infinity_def is_minus_infinity_def)

end
