(* ===== verification/Abstract_Exec.thy ===== *)
theory Abstract_Exec
  imports Abstract_Gep
begin

text \<open>
  The statements of \<^verbatim>\<open>svf/lib/AE/Svfexe/AbstractInterpretation.cpp\<close>: how each one changes the abstract state of its
  node, and how a branch refines the state it is taken in. A statement carries what its handler reads from the
  intermediate representation: identifiers, operators, types. The concrete meaning of a statement is stated
  beside, on environments.
\<close>

subsection \<open>Statements\<close>

datatype opcode =
  Add | FAdd | Sub | FSub | Mul | FMul | UDiv | SDiv | FDiv | URem | SRem | FRem | Shl | LShr | AShr | OpAnd | OpOr | OpXor

datatype predicate =
  FCMP_FALSE | FCMP_OEQ | FCMP_OGT | FCMP_OGE | FCMP_OLT | FCMP_OLE | FCMP_ONE | FCMP_ORD | FCMP_UNO | FCMP_UEQ
| FCMP_UGT | FCMP_UGE | FCMP_ULT | FCMP_ULE | FCMP_UNE | FCMP_TRUE
| ICMP_EQ | ICMP_NE | ICMP_UGT | ICMP_UGE | ICMP_ULT | ICMP_ULE | ICMP_SGT | ICMP_SGE | ICMP_SLT | ICMP_SLE

datatype copy_kind =
  COPYVAL | ZEXT | SEXT | BITCAST | TRUNC | FPTRUNC | FPTOUI | FPTOSI | UITOFP | SITOFP | INTTOPTR | PTRTOINT

text \<open>Types with their size in bytes: an integer with its sign, a \<^verbatim>\<open>SVFOtherType\<close>, another.\<close>

datatype svf_type = IntegerType (byteSize: nat) bool | OtherType (byteSize: nat) | RestType (byteSize: nat)

text \<open>Objects, with what \<^verbatim>\<open>initObjVar\<close> asks of them; a double is given by its conversion to a 64-bit integer.\<close>

datatype obj_class = ConstIntObj int | ConstFPObj "int option" | ConstNullPtrObj | GlobalObj | RestObj

record obj_var =
  ov_id :: address
  ov_type :: svf_type
  ov_class :: obj_class
  ov_constData :: bool
  ov_constArray :: bool
  ov_constStruct :: bool

datatype stmt =
  SAddr (s_lhs: address) obj_var
| SBinary opcode address address (s_res: address)
| SCmp predicate address address (s_res: address)
| SUnary | SBranch
| SLoad address address
| SStore address address
| SCopy copy_kind address address svf_type svf_type
| SSelect address address address address
| SGep address address access_path
| SPhi address "(address \<times> nat) list"
| SCall address address
| SRet address address

subsection \<open>Their handlers\<close>

definition initObjVar :: "abstract_state \<Rightarrow> obj_var \<Rightarrow> abstract_state option" where
  "initObjVar s obj =
    (if ov_constData obj \<or> ov_constArray obj \<or> ov_constStruct obj
     then case ov_class obj of
         ConstIntObj n \<Rightarrow> do { i \<leftarrow> iv_range n n; Some (as_assign s (ov_id obj) (av_of_interval i)) }
       | ConstFPObj d \<Rightarrow> do { n \<leftarrow> d; i \<leftarrow> iv_range n n; Some (as_assign s (ov_id obj) (av_of_interval i)) }
       | ConstNullPtrObj \<Rightarrow> do { i \<leftarrow> iv_range 0 0; Some (as_assign s (ov_id obj) (av_of_interval i)) }
       | GlobalObj \<Rightarrow> do { a \<leftarrow> getVirtualMemAddress (ov_id obj); Some (as_assign s (ov_id obj) (av_of_addrs [a])) }
       | RestObj \<Rightarrow> Some (as_assign s (ov_id obj) (av_of_interval iv_top))
     else do { a \<leftarrow> getVirtualMemAddress (ov_id obj); Some (as_assign s (ov_id obj) (av_of_addrs [a])) })"

definition getRangeLimitFromType :: "svf_type \<Rightarrow> interval option" where
  "getRangeLimitFromType ty = (case ty of
     IntegerType bytes sg \<Rightarrow>
       (let bits = bytes * 8 in
        if bits \<ge> 32 then if sg then iv_range (- 2147483648) 2147483647 else iv_range 0 4294967295
        else if bits = 16 then if sg then iv_range (- 32768) 32767 else iv_range 0 65535
        else if bits = 8 then if sg then iv_range (- 128) 127 else iv_range 0 255
        else iv_range 0 0)
   | OtherType _ \<Rightarrow> iv_range (- 2147483648) 2147483647
   | RestType _ \<Rightarrow> Some iv_top)"

definition is_integer_type :: "svf_type \<Rightarrow> bool" where
  "is_integer_type ty \<longleftrightarrow> (case ty of IntegerType _ _ \<Rightarrow> True | _ \<Rightarrow> False)"

text \<open>\<^verbatim>\<open>as[i].getInterval().meet_with(j)\<close> and the like: reading inserts the default value first.\<close>

definition as_update_interval ::
  "abstract_state \<Rightarrow> address \<Rightarrow> (interval \<Rightarrow> interval option) \<Rightarrow> abstract_state option" where
  "as_update_interval s i f = (case as_index s i of (s, v) \<Rightarrow> do {
     j \<leftarrow> f (av_interval v);
     Some (as_assign s i (v\<lparr>av_interval := j\<rparr>)) })"

definition as_copy :: "abstract_state \<Rightarrow> address \<Rightarrow> address \<Rightarrow> abstract_state" where
  "as_copy s lhs rhs = (case as_index s rhs of (s, v) \<Rightarrow> as_assign s lhs v)"

definition updateStateOnAddr :: "abstract_state \<Rightarrow> address \<Rightarrow> obj_var \<Rightarrow> abstract_state option" where
  "updateStateOnAddr s lhs obj = do {
     s \<leftarrow> initObjVar s obj;
     s \<leftarrow> (if is_integer_type (ov_type obj)
       then do { r \<leftarrow> getRangeLimitFromType (ov_type obj); as_update_interval s (ov_id obj) (\<lambda>i. iv_meet_with i r) }
       else Some s);
     Some (as_copy s lhs (ov_id obj)) }"

definition binary_op :: "opcode \<Rightarrow> interval \<Rightarrow> interval \<Rightarrow> interval option" where
  "binary_op oc a b =
    (if oc \<in> {Add, FAdd} then iv_add a b
     else if oc \<in> {Sub, FSub} then iv_sub a b
     else if oc \<in> {Mul, FMul} then iv_mul a b
     else if oc \<in> {SDiv, FDiv, UDiv} then iv_div a b
     else if oc \<in> {SRem, FRem, URem} then iv_mod a b
     else if oc = OpXor then iv_xor a b
     else if oc = OpAnd then iv_and a b
     else if oc = OpOr then iv_or a b
     else if oc = AShr then iv_shr a b
     else if oc = Shl then iv_shl a b
     else iv_shr a b)"

definition top_if_no_interval :: "abstract_state \<Rightarrow> address \<Rightarrow> abstract_state" where
  "top_if_no_interval s i = (if \<not> inVarToValTable s i then as_assign s i (av_of_interval iv_top) else s)"

definition updateStateOnBinary :: "abstract_state \<Rightarrow> opcode \<Rightarrow> address \<Rightarrow> address \<Rightarrow> address \<Rightarrow> abstract_state option" where
  "updateStateOnBinary s oc op0 op1 res = (
     let s = top_if_no_interval s op0;
         s = top_if_no_interval s op1
     in case as_index s op0 of (s, v) \<Rightarrow> case as_index s op1 of (s, w) \<Rightarrow> do {
       resVal \<leftarrow> binary_op oc (av_interval v) (av_interval w);
       Some (as_assign s res (av_of_interval resVal)) })"

text \<open>\<^verbatim>\<open>FCMP_ORD\<close> and \<^verbatim>\<open>FCMP_UNO\<close> are not handled.\<close>

definition compare_op :: "predicate \<Rightarrow> interval \<Rightarrow> interval \<Rightarrow> interval option" where
  "compare_op p a b =
    (if p \<in> {ICMP_EQ, FCMP_OEQ, FCMP_UEQ} then iv_eq a b
     else if p \<in> {ICMP_NE, FCMP_ONE, FCMP_UNE} then iv_ne a b
     else if p \<in> {ICMP_UGT, ICMP_SGT, FCMP_OGT, FCMP_UGT} then iv_gt a b
     else if p \<in> {ICMP_UGE, ICMP_SGE, FCMP_OGE, FCMP_UGE} then iv_ge a b
     else if p \<in> {ICMP_ULT, ICMP_SLT, FCMP_OLT, FCMP_ULT} then iv_lt a b
     else if p \<in> {ICMP_ULE, ICMP_SLE, FCMP_OLE, FCMP_ULE} then iv_le a b
     else if p = FCMP_FALSE then iv_range 0 0
     else if p = FCMP_TRUE then iv_range 1 1
     else None)"

text \<open>Two variables with addresses are compared by their sets, whatever the predicate. Otherwise both have an
  interval after the assignments of top, so the last part of the handler, on addresses, is not reached.\<close>

definition updateStateOnCmp :: "abstract_state \<Rightarrow> predicate \<Rightarrow> address \<Rightarrow> address \<Rightarrow> address \<Rightarrow> abstract_state option" where
  "updateStateOnCmp s p op0 op1 res =
    (if inVarToAddrsTable s op0 \<and> inVarToAddrsTable s op1
     then case as_index s op0 of (s, v) \<Rightarrow> case as_index s op1 of (s, w) \<Rightarrow> do {
       resVal \<leftarrow> (if ad_equals (av_addrs v) (av_addrs w) then iv_range 1 1
         else if ad_hasIntersect (av_addrs v) (av_addrs w) then iv_range 0 1
         else iv_range 0 0);
       Some (as_assign s res (av_of_interval resVal)) }
     else
       let s = top_if_no_interval s op0;
           s = top_if_no_interval s op1
       in if inVarToValTable s op0 \<and> inVarToValTable s op1
       then case as_index s op0 of (s, v) \<Rightarrow> case as_index s op1 of (s, w) \<Rightarrow> do {
         resVal \<leftarrow> compare_op p (av_interval v) (av_interval w);
         Some (as_assign s res (av_of_interval resVal)) }
       else Some s)"

definition updateStateOnLoad :: "abstract_state \<Rightarrow> address \<Rightarrow> address \<Rightarrow> abstract_state option" where
  "updateStateOnLoad s lhs rhs = do {
     (s, v) \<leftarrow> as_loadValue s rhs;
     Some (as_assign s lhs v) }"

definition updateStateOnStore :: "abstract_state \<Rightarrow> address \<Rightarrow> address \<Rightarrow> abstract_state option" where
  "updateStateOnStore s lhs rhs = (case as_index s rhs of (s, v) \<Rightarrow> as_storeValue s lhs v)"

text \<open>Casts of integers to \<open>bits\<close> bits: to the signed range and to the unsigned one.\<close>

definition scast :: "nat \<Rightarrow> int \<Rightarrow> int" where
  "scast bits v = (v + 2 ^ (bits - 1)) mod 2 ^ bits - 2 ^ (bits - 1)"

definition ucast_int :: "nat \<Rightarrow> int \<Rightarrow> int" where
  "ucast_int bits v = v mod 2 ^ bits"

definition getZExtValue :: "abstract_state \<Rightarrow> address \<Rightarrow> svf_type \<Rightarrow> (abstract_state \<times> interval) option" where
  "getZExtValue s i ty = (case ty of
     IntegerType bytes sg \<Rightarrow>
       (let bits = bytes * 8 in case as_index s i of (s, v) \<Rightarrow>
        if iv_is_numeral (av_interval v)
        then do {
          n \<leftarrow> iv_getNumeral (av_interval v);
          if bits = 8 \<or> bits = 16 \<or> bits = 32
          then do { r \<leftarrow> iv_range (ucast_int bits (scast bits n)) (ucast_int bits (scast bits n)); Some (s, r) }
          else if bits = 64 then do { r \<leftarrow> iv_range n n; Some (s, r) }
          else None }
        else Some (s, iv_top))
   | _ \<Rightarrow> Some (s, iv_top))"

definition getTruncValue :: "abstract_state \<Rightarrow> address \<Rightarrow> svf_type \<Rightarrow> interval option" where
  "getTruncValue s i dstType = do {
     v \<leftarrow> as_at s i;
     let itv = av_interval v;
     if iv_isBottom itv then Some itv
     else do {
       let int_lb = bi_getNumeral (iv_lb itv);
       let int_ub = bi_getNumeral (iv_ub itv);
       let dst_bits = byteSize dstType * 8;
       if dst_bits = 8 \<or> dst_bits = 16 \<or> dst_bits = 32
       then if scast dst_bits int_lb > scast dst_bits int_ub then getRangeLimitFromType dstType
         else iv_range (scast dst_bits int_lb) (scast dst_bits int_ub)
       else None } }"

text \<open>The kinds that only take the interval over.\<close>

definition interval_copies :: "copy_kind set" where
  "interval_copies = {SEXT, FPTOSI, FPTOUI, SITOFP, UITOFP, FPTRUNC}"

definition updateStateOnCopy ::
  "abstract_state \<Rightarrow> copy_kind \<Rightarrow> address \<Rightarrow> address \<Rightarrow> svf_type \<Rightarrow> svf_type \<Rightarrow> abstract_state option" where
  "updateStateOnCopy s kind lhs rhs lhs_ty rhs_ty =
    (if kind = COPYVAL then Some (as_copy s lhs rhs)
     else if kind = ZEXT then do { (s, r) \<leftarrow> getZExtValue s rhs rhs_ty; Some (as_assign s lhs (av_of_interval r)) }
     else if kind \<in> interval_copies
     then case as_index s rhs of (s, v) \<Rightarrow> Some (as_assign s lhs (av_of_interval (av_interval v)))
     else if kind = TRUNC then do { r \<leftarrow> getTruncValue s rhs lhs_ty; Some (as_assign s lhs (av_of_interval r)) }
     else if kind = INTTOPTR then Some s
     else if kind = PTRTOINT then Some (as_assign s lhs (av_of_interval iv_top))
     else case as_index s rhs of (s, v) \<Rightarrow> if av_isAddr v then Some (as_assign s lhs v) else Some s)"

definition updateStateOnSelect ::
  "abstract_state \<Rightarrow> address \<Rightarrow> address \<Rightarrow> address \<Rightarrow> address \<Rightarrow> abstract_state option" where
  "updateStateOnSelect s res tval fval cond = (case as_index s cond of (s, c) \<Rightarrow>
     if iv_is_numeral (av_interval c)
     then Some (if iv_is_zero (av_interval c) then as_copy s res fval else as_copy s res tval)
     else
       let s = as_copy s res tval
       in case as_index s res of (s, r) \<Rightarrow> case as_index s fval of (s, f) \<Rightarrow> do {
         u \<leftarrow> av_join_with r f;
         Some (as_assign s res u) })"

definition updateStateOnCall :: "abstract_state \<Rightarrow> address \<Rightarrow> address \<Rightarrow> abstract_state option" where
  "updateStateOnCall s lhs rhs = Some (as_copy s lhs rhs)"

definition updateStateOnRet :: "abstract_state \<Rightarrow> address \<Rightarrow> address \<Rightarrow> abstract_state option" where
  "updateStateOnRet s lhs rhs = Some (as_copy s lhs rhs)"

text \<open>The statements that work on the state of their node alone; a phi reads those of other nodes as well.\<close>

definition handle_on_state :: "gep_env \<Rightarrow> stmt \<Rightarrow> abstract_state \<Rightarrow> abstract_state option" where
  "handle_on_state g st s = (case st of
     SAddr lhs obj \<Rightarrow> updateStateOnAddr s lhs obj
   | SBinary oc op0 op1 res \<Rightarrow> updateStateOnBinary s oc op0 op1 res
   | SCmp p op0 op1 res \<Rightarrow> updateStateOnCmp s p op0 op1 res
   | SUnary \<Rightarrow> Some s
   | SBranch \<Rightarrow> Some s
   | SLoad lhs rhs \<Rightarrow> updateStateOnLoad s lhs rhs
   | SStore lhs rhs \<Rightarrow> updateStateOnStore s lhs rhs
   | SCopy kind lhs rhs lhs_ty rhs_ty \<Rightarrow> updateStateOnCopy s kind lhs rhs lhs_ty rhs_ty
   | SGep lhs rhs ap \<Rightarrow> updateStateOnGep g s lhs rhs ap
   | SSelect res tval fval cond \<Rightarrow> updateStateOnSelect s res tval fval cond
   | SPhi res ops \<Rightarrow> None
   | SCall lhs rhs \<Rightarrow> updateStateOnCall s lhs rhs
   | SRet lhs rhs \<Rightarrow> updateStateOnRet s lhs rhs)"

subsection \<open>What statements do to values\<close>

text \<open>The results of the operators on numbers; the unsigned ones are given on numbers that are not negative.\<close>

definition op_sem :: "opcode \<Rightarrow> int \<Rightarrow> int \<Rightarrow> int option" where
  "op_sem oc x y = (case oc of
     Add \<Rightarrow> Some (x + y) | Sub \<Rightarrow> Some (x - y) | Mul \<Rightarrow> Some (x * y)
   | SDiv \<Rightarrow> if y \<noteq> 0 then Some (x sdiv y) else None
   | UDiv \<Rightarrow> if 0 \<le> x \<and> 0 < y then Some (x sdiv y) else None
   | SRem \<Rightarrow> if y \<noteq> 0 then Some (x smod y) else None
   | URem \<Rightarrow> if 0 \<le> x \<and> 0 < y then Some (x smod y) else None
   | OpXor \<Rightarrow> Some (x XOR y) | OpAnd \<Rightarrow> Some (x AND y) | OpOr \<Rightarrow> Some (x OR y)
   | AShr \<Rightarrow> if 0 \<le> y then Some (x div 2 ^ nat y) else None
   | LShr \<Rightarrow> if 0 \<le> x \<and> 0 \<le> y then Some (x div 2 ^ nat y) else None
   | Shl \<Rightarrow> if 0 \<le> y then Some (x * 2 ^ nat y) else None
   | _ \<Rightarrow> None)"

definition pred_sem :: "predicate \<Rightarrow> int \<Rightarrow> int \<Rightarrow> bool option" where
  "pred_sem p x y = (case p of
     ICMP_EQ \<Rightarrow> Some (x = y) | ICMP_NE \<Rightarrow> Some (x \<noteq> y)
   | ICMP_SGT \<Rightarrow> Some (x > y) | ICMP_SGE \<Rightarrow> Some (x \<ge> y) | ICMP_SLT \<Rightarrow> Some (x < y) | ICMP_SLE \<Rightarrow> Some (x \<le> y)
   | ICMP_UGT \<Rightarrow> if 0 \<le> x \<and> 0 \<le> y then Some (x > y) else None
   | ICMP_UGE \<Rightarrow> if 0 \<le> x \<and> 0 \<le> y then Some (x \<ge> y) else None
   | ICMP_ULT \<Rightarrow> if 0 \<le> x \<and> 0 \<le> y then Some (x < y) else None
   | ICMP_ULE \<Rightarrow> if 0 \<le> x \<and> 0 \<le> y then Some (x \<le> y) else None
   | _ \<Rightarrow> None)"

text \<open>The operand intervals for which an operator has a result.\<close>

definition op_room :: "opcode \<Rightarrow> interval \<Rightarrow> interval \<Rightarrow> bool" where
  "op_room oc a b =
    (if oc = Shl then shl_room b else if oc \<in> {AShr, LShr} then shr_room b
     else if oc \<in> {OpOr, OpXor} then bits_room a \<and> bits_room b else True)"

lemma binary_op_ok:
  assumes ab: "iv_ok a" "iv_ok b" "x \<in> iv_set a" "y \<in> iv_set b"
    and z: "op_sem oc x y = Some z" "fits z" "op_room oc a b"
  shows "wp (binary_op oc a b) (\<lambda>c. iv_ok c \<and> z \<in> iv_set c)"
proof -
  have div: "y \<noteq> 0 \<Longrightarrow> wp (iv_div a b) (\<lambda>c. iv_ok c \<and> x sdiv y \<in> iv_set c)"
    using iv_div_ok[OF ab(1,2)] ab(3,4) by (auto simp: iv_div_sound_def elim!: wp_mono)
  have shr: "shr_room b \<Longrightarrow> 0 \<le> y \<Longrightarrow> wp (iv_shr a b) (\<lambda>c. iv_ok c \<and> x div 2 ^ nat y \<in> iv_set c)"
    using iv_shr_ok[OF ab(1,2)] ab(3,4) by (auto simp: iv_shr_sound_def elim!: wp_mono)
  show ?thesis
    using z iv_add_ok[OF ab] iv_sub_ok[OF ab] iv_mul_ok[OF ab] div iv_mod_ok[OF ab] iv_xor_ok[OF ab] iv_and_ok[OF ab]
      iv_or_ok[OF ab] shr iv_shl_ok[OF ab(1,2) _ ab(3,4)]
    by (cases oc) (auto simp: op_sem_def op_room_def binary_op_def split: if_splits)
qed

lemma compare_op_ok:
  assumes ab: "iv_ok a" "iv_ok b" "x \<in> iv_set a" "y \<in> iv_set b" and z: "pred_sem p x y = Some t"
  shows "wp (compare_op p a b) (\<lambda>c. iv_ok c \<and> truth t \<in> iv_set c)"
  using z iv_eq_ok[OF ab] iv_ne_ok[OF ab] iv_gt_ok[OF ab] iv_ge_ok[OF ab] iv_lt_ok[OF ab] iv_le_ok[OF ab]
  by (cases p) (auto simp: pred_sem_def compare_op_def split: if_splits)

text \<open>One statement on an environment.\<close>

inductive cstep :: "stmt \<Rightarrow> (place \<rightharpoonup> cval) \<Rightarrow> (place \<rightharpoonup> cval) \<Rightarrow> bool" where
  Obj: "\<not> (ov_constData obj \<or> ov_constArray obj \<or> ov_constStruct obj) \<Longrightarrow> getVirtualMemAddress (ov_id obj) = Some a \<Longrightarrow>
    cstep (SAddr lhs obj) env (env(PVar (ov_id obj) \<mapsto> Adr a, PVar lhs \<mapsto> Adr a))"
| Const: "ov_constData obj \<Longrightarrow> ov_class obj = ConstIntObj n \<Longrightarrow> fits n \<Longrightarrow>
    cstep (SAddr lhs obj) env (env(PVar (ov_id obj) \<mapsto> Num n, PVar lhs \<mapsto> Num n))"
| Binary: "env (PVar op0) = Some (Num x) \<Longrightarrow> env (PVar op1) = Some (Num y) \<Longrightarrow> op_sem oc x y = Some z \<Longrightarrow> fits z \<Longrightarrow>
    cstep (SBinary oc op0 op1 res) env (env(PVar res \<mapsto> Num z))"
| Cmp: "env (PVar op0) = Some (Num x) \<Longrightarrow> env (PVar op1) = Some (Num y) \<Longrightarrow> pred_sem p x y = Some t \<Longrightarrow>
    cstep (SCmp p op0 op1 res) env (env(PVar res \<mapsto> Num (truth t)))"
| Branch: "cstep SBranch env env"
| Load: "env (PVar rhs) = Some (Adr a) \<Longrightarrow> env (PMem (getInternalID a)) = Some c \<Longrightarrow>
    cstep (SLoad lhs rhs) env (env(PVar lhs \<mapsto> c))"
| Store: "env (PVar lhs) = Some (Adr a) \<Longrightarrow> env (PVar rhs) = Some c \<Longrightarrow>
    cstep (SStore lhs rhs) env (env(PMem (getInternalID a) \<mapsto> c))"
| Copy: "env (PVar rhs) = Some c \<Longrightarrow> cstep (SCopy COPYVAL lhs rhs t u) env (env(PVar lhs \<mapsto> c))"
| Sext: "env (PVar rhs) = Some (Num x) \<Longrightarrow> cstep (SCopy SEXT lhs rhs t u) env (env(PVar lhs \<mapsto> Num x))"
| Zext: "env (PVar rhs) = Some (Num x) \<Longrightarrow>
    cstep (SCopy ZEXT lhs rhs t u) env (env(PVar lhs \<mapsto> Num (ucast_int (byteSize u * 8) x)))"
| Trunc: "env (PVar rhs) = Some (Num x) \<Longrightarrow>
    cstep (SCopy TRUNC lhs rhs t u) env (env(PVar lhs \<mapsto> Num (scast (byteSize t * 8) x)))"
| Ptrtoint: "fits n \<Longrightarrow> cstep (SCopy PTRTOINT lhs rhs t u) env (env(PVar lhs \<mapsto> Num n))"
| Bitcast: "env (PVar rhs) = Some (Adr a) \<Longrightarrow> cstep (SCopy BITCAST lhs rhs t u) env (env(PVar lhs \<mapsto> Adr a))"
| Select: "env (PVar cond) = Some (Num n) \<Longrightarrow> env (PVar (if n \<noteq> 0 then tval else fval)) = Some c \<Longrightarrow> res \<noteq> fval \<Longrightarrow>
    cstep (SSelect res tval fval cond) env (env(PVar res \<mapsto> c))"
| Call: "env (PVar rhs) = Some c \<Longrightarrow> cstep (SCall lhs rhs) env (env(PVar lhs \<mapsto> c))"
| Ret: "env (PVar rhs) = Some c \<Longrightarrow> cstep (SRet lhs rhs) env (env(PVar lhs \<mapsto> c))"

inductive_cases cstep_addrE: "cstep (SAddr lhs obj) env env'"
inductive_cases cstep_binaryE: "cstep (SBinary oc op0 op1 res) env env'"
inductive_cases cstep_cmpE: "cstep (SCmp p op0 op1 res) env env'"
inductive_cases cstep_copyE: "cstep (SCopy k lhs rhs t u) env env'"

subsection \<open>The handlers are sound\<close>

lemma models_gam: "st_gam t = st_gam s \<Longrightarrow> models s env \<Longrightarrow> models t env"
  by (simp add: models_def)

lemma models_var: "models s env \<Longrightarrow> env (PVar i) = Some c \<Longrightarrow> c \<in> av_gam (am_get (as_vars s) i)"
  and models_mem: "models s env \<Longrightarrow> env (PMem i) = Some c \<Longrightarrow> c \<in> av_gam (am_get (as_mem s) i)"
  unfolding models_def by (metis mem_st_gam(1), metis mem_st_gam(2))

lemma models_num: "models s env \<Longrightarrow> env (PVar i) = Some (Num x) \<Longrightarrow> x \<in> iv_set (av_interval (am_get (as_vars s) i))"
  and models_adr: "models s env \<Longrightarrow> env (PVar i) = Some (Adr a) \<Longrightarrow> a \<in> targets s i"
  by (force simp: models_def targets_def)+

lemma has_interval:
  assumes "st_ok s" "models s env" "env (PVar i) = Some (Num x)"
  shows "inVarToValTable s i"
proof -
  have x: "x \<in> iv_set (av_interval (am_get (as_vars s) i))" by (rule models_num[OF assms(2,3)])
  then obtain v where "map_of (as_vars s) i = Some v"
    by (cases "map_of (as_vars s) i") (simp_all add: map_of_am_get(2), simp add: av_default_def)
  moreover have "iv_ok (av_interval (am_get (as_vars s) i))"
    using am_ok_get[of "as_vars s" i] assms(1) by (simp add: st_ok_def av_ok_def)
  ultimately show ?thesis
    using iv_mem_not_bottom[OF x] by (simp add: inVarToValTable_def am_has_interval_def av_isInterval_def map_of_am_get)
qed

lemma assign_sound:
  assumes "st_ok s" "models s env" "av_ok v" "c \<in> av_gam v"
  shows "st_ok (as_assign s i v) \<and> models (as_assign s i v) (env(PVar i \<mapsto> c))"
  using as_assign_ok[OF assms(1,3)] models_assign[OF assms(2,4)] by blast

lemma assign_interval_sound:
  assumes "st_ok s" "models s env" "wp m (\<lambda>r. iv_ok r \<and> z \<in> iv_set r)"
  shows "wp (do { r \<leftarrow> m; Some (as_assign s i (av_of_interval r)) }) (\<lambda>s'. st_ok s' \<and> models s' (env(PVar i \<mapsto> Num z)))"
proof -
  obtain r where r: "m = Some r" "iv_ok r" "z \<in> iv_set r" using assms(3) unfolding wp_iff by blast
  then show ?thesis using assign_sound[OF assms(1,2), of "av_of_interval r" "Num z"] by simp
qed

lemma as_index_sound:
  assumes "st_ok s" "models s env" "as_index s i = (s', v)"
  shows "st_ok s'" "models s' env" "av_ok v" "v = am_get (as_vars s) i" "am_get (as_vars s') k = am_get (as_vars s) k"
  using as_index_ok[OF assms(3,1)] models_gam[OF _ assms(2)] assms(3) by (auto simp: as_index_def)

lemma as_copy_sound:
  assumes "st_ok s" "models s env" "env (PVar rhs) = Some c"
  shows "st_ok (as_copy s lhs rhs) \<and> models (as_copy s lhs rhs) (env(PVar lhs \<mapsto> c))"
proof -
  obtain s' v where ix: "as_index s rhs = (s', v)" by (cases "as_index s rhs")
  note i = as_index_sound[OF assms(1,2) ix]
  have "c \<in> av_gam v" using models_var[OF assms(2,3)] i(4) by simp
  then show ?thesis using assign_sound[OF i(1-3)] ix by (simp add: as_copy_def)
qed

lemma updateStateOnBinary_sound:
  assumes "st_ok s" "models s env" "env (PVar op0) = Some (Num x)" "env (PVar op1) = Some (Num y)"
    and z: "op_sem oc x y = Some z" "fits z" "op_room oc (av_interval (am_get (as_vars s) op0)) (av_interval (am_get (as_vars s) op1))"
  shows "wp (updateStateOnBinary s oc op0 op1 res) (\<lambda>s'. st_ok s' \<and> models s' (env(PVar res \<mapsto> Num z)))"
proof -
  have top: "top_if_no_interval s op0 = s" "top_if_no_interval s op1 = s"
    using has_interval[OF assms(1,2)] assms(3,4) by (simp_all add: top_if_no_interval_def)
  obtain s1 v where ix: "as_index s op0 = (s1, v)" by (cases "as_index s op0")
  note i = as_index_sound[OF assms(1,2) ix]
  obtain s2 w where jx: "as_index s1 op1 = (s2, w)" by (cases "as_index s1 op1")
  note j = as_index_sound[OF i(1,2) jx]
  have w: "w = am_get (as_vars s) op1" using i(5) j(4) by simp
  have "wp (binary_op oc (av_interval v) (av_interval w)) (\<lambda>c. iv_ok c \<and> z \<in> iv_set c)"
    using i(3) j(3) models_num[OF assms(2,3)] models_num[OF assms(2,4)] z i(4) w
    by (intro binary_op_ok) (auto simp: av_ok_def)
  from assign_interval_sound[OF j(1,2) this] show ?thesis by (simp add: updateStateOnBinary_def top ix jx Let_def)
qed

lemma updateStateOnCmp_sound:
  assumes "st_ok s" "models s env" "env (PVar op0) = Some (Num x)" "env (PVar op1) = Some (Num y)"
    and z: "pred_sem p x y = Some t" "\<not> (inVarToAddrsTable s op0 \<and> inVarToAddrsTable s op1)"
  shows "wp (updateStateOnCmp s p op0 op1 res) (\<lambda>s'. st_ok s' \<and> models s' (env(PVar res \<mapsto> Num (truth t))))"
proof -
  have has: "inVarToValTable s op0" "inVarToValTable s op1"
    using has_interval[OF assms(1,2)] assms(3,4) by simp_all
  then have top: "top_if_no_interval s op0 = s" "top_if_no_interval s op1 = s" by (simp_all add: top_if_no_interval_def)
  obtain s1 v where ix: "as_index s op0 = (s1, v)" by (cases "as_index s op0")
  note i = as_index_sound[OF assms(1,2) ix]
  obtain s2 w where jx: "as_index s1 op1 = (s2, w)" by (cases "as_index s1 op1")
  note j = as_index_sound[OF i(1,2) jx]
  have w: "w = am_get (as_vars s) op1" using i(5) j(4) by simp
  have "wp (compare_op p (av_interval v) (av_interval w)) (\<lambda>c. iv_ok c \<and> truth t \<in> iv_set c)"
    using i(3) j(3) models_num[OF assms(2,3)] models_num[OF assms(2,4)] z(1) i(4) w
    by (intro compare_op_ok) (auto simp: av_ok_def)
  from assign_interval_sound[OF j(1,2) this] show ?thesis
    using z(2) has by (simp add: updateStateOnCmp_def if_not_P[OF z(2)] top ix jx Let_def)
qed

lemma updateStateOnLoad_sound:
  assumes "st_ok s" "models s env" "env (PVar rhs) = Some (Adr a)" "env (PMem (getInternalID a)) = Some c"
    and "\<forall>a\<in>targets s rhs. isVirtualMemAddress a"
  shows "wp (updateStateOnLoad s lhs rhs) (\<lambda>s'. st_ok s' \<and> models s' (env(PVar lhs \<mapsto> c)))"
proof -
  obtain s' v where l: "as_loadValue s rhs = Some (s', v)" "st_ok s'" "st_gam s' = st_gam s" "av_ok v"
      "\<forall>a\<in>targets s rhs. av_gam (am_get (as_mem s) (getInternalID a)) \<subseteq> av_gam v"
    using as_loadValue_ok[OF assms(1,5)] unfolding wp_iff by auto
  have "c \<in> av_gam (am_get (as_mem s) (getInternalID a))" by (rule models_mem[OF assms(2,4)])
  then have "c \<in> av_gam v" using l(5) models_adr[OF assms(2,3)] by blast
  then show ?thesis using assign_sound[OF l(2) models_gam[OF l(3) assms(2)] l(4)] l(1) by (simp add: updateStateOnLoad_def)
qed

lemma updateStateOnStore_sound:
  assumes "st_ok s" "models s env" "env (PVar lhs) = Some (Adr a)" "env (PVar rhs) = Some c"
    and "targets s lhs = {a}" "isVirtualMemAddress a"
  shows "wp (updateStateOnStore s lhs rhs) (\<lambda>s'. st_ok s' \<and> models s' (env(PMem (getInternalID a) \<mapsto> c)))"
proof -
  obtain s1 v where ix: "as_index s rhs = (s1, v)" by (cases "as_index s rhs")
  note i = as_index_sound[OF assms(1,2) ix]
  have c: "c \<in> av_gam v" using models_var[OF assms(2,4)] i(4) by simp
  have t: "targets s1 lhs = {a}" using i(5) assms(5) by (simp add: targets_def)
  have "\<forall>a\<in>targets s1 lhs. isVirtualMemAddress a" using t assms(6) by simp
  then obtain s' where s': "as_storeValue s1 lhs v = Some s'" "st_ok s'"
      "\<forall>k. av_gam (am_get (as_vars s') k) = av_gam (am_get (as_vars s1) k)"
      "\<forall>k. am_get (as_mem s') k = (if k = getInternalID a then v else am_get (as_mem s1) k)"
    using as_storeValue_ok[OF i(1,3), of lhs] unfolding wp_iff by (auto simp: t)
  then show ?thesis using models_store[OF i(2) s'(3,4) c] ix by (simp add: updateStateOnStore_def)
qed

lemma updateStateOnSelect_sound:
  assumes "st_ok s" "models s env" "env (PVar cond) = Some (Num n)" "env (PVar (if n \<noteq> 0 then tval else fval)) = Some c" "res \<noteq> fval"
  shows "wp (updateStateOnSelect s res tval fval cond) (\<lambda>s'. st_ok s' \<and> models s' (env(PVar res \<mapsto> c)))"
proof -
  obtain s1 v where ix: "as_index s cond = (s1, v)" by (cases "as_index s cond")
  note i = as_index_sound[OF assms(1,2) ix]
  have n: "n \<in> iv_set (av_interval v)" "iv_ok (av_interval v)" using models_num[OF assms(2,3)] i(3,4) by (simp_all add: av_ok_def)
  show ?thesis
  proof (cases "iv_is_numeral (av_interval v)")
    case True
    have b: "bi_val (iv_lb (av_interval v)) = n" "bi_val (iv_ub (av_interval v)) = n" by (rule iv_mem_num[OF n(2,1) True])+
    have "bi_iVal (iv_lb (av_interval v)) = 0 \<longleftrightarrow> n = 0" "bi_iVal (iv_ub (av_interval v)) = 0 \<longleftrightarrow> n = 0"
      using b n(1) by (auto simp: bi_val_def mem_iv_set fits_def is_plus_infinity_def is_minus_infinity_def split: if_splits)
    then have "iv_is_zero (av_interval v) \<longleftrightarrow> n = 0" by (simp add: iv_is_zero_def bi_is_zero_def)
    then show ?thesis
      using as_copy_sound[OF i(1,2)] assms(4) True ix by (cases "n = 0") (simp_all add: updateStateOnSelect_def)
  next
    case False
    obtain s2 t where tx: "as_index s1 tval = (s2, t)" by (cases "as_index s1 tval")
    note ti = as_index_sound[OF i(1,2) tx]
    let ?s = "as_assign s2 res t"
    have cp: "as_copy s1 res tval = ?s" by (simp add: as_copy_def tx)
    have sok: "st_ok ?s" by (rule as_assign_ok[OF ti(1,3)])
    obtain s3 r where rx: "as_index ?s res = (s3, r)" by (cases "as_index ?s res")
    obtain s4 f where fx: "as_index s3 fval = (s4, f)" by (cases "as_index s3 fval")
    have env': "models ?s (env(PVar res := None))"
      using ti(2) by (auto simp: models_def as_assign_def st_gam_def split: place.splits if_splits)
    note ri = as_index_sound[OF sok env' rx]
    note fi = as_index_sound[OF ri(1,2) fx]
    have r: "r = am_get (as_vars s) tval" using ri(4) ti(4) i(5) by (simp add: as_assign_def)
    have f: "f = am_get (as_vars s) fval" using fi(4) ri(5) ti(5) i(5) assms(5) by (simp add: as_assign_def)
    have c: "c \<in> av_gam r \<union> av_gam f" using models_var[OF assms(2,4)] r f by (cases "n = 0") simp_all
    obtain u where u: "av_join_with r f = Some u" "av_ok u" "av_gam r \<subseteq> av_gam u" "av_gam f \<subseteq> av_gam u"
      using av_join_ok[OF ri(3) fi(3)] unfolding wp_iff by blast
    have "c \<in> av_gam u" using c u(3,4) by blast
    from assign_sound[OF fi(1,2) u(2) this, of res]
    show ?thesis using False ix cp rx fx u(1) by (simp add: updateStateOnSelect_def Let_def)
  qed
qed

text \<open>Casts: the signed value is in range, and the cast keeps the order of numbers that are less than the modulus
  apart unless it wraps between them.\<close>

lemma scast_range: "1 \<le> b \<Longrightarrow> - (2 ^ (b - 1)) \<le> scast b v \<and> scast b v \<le> 2 ^ (b - 1) - 1"
proof -
  assume b: "1 \<le> b"
  have "(2::int) ^ b = 2 * 2 ^ (b - 1)" using b by (cases b) simp_all
  moreover have "0 \<le> (v + 2 ^ (b - 1)) mod 2 ^ b" "(v + 2 ^ (b - 1)) mod 2 ^ b < (2::int) ^ b" by simp_all
  ultimately show ?thesis by (simp add: scast_def)
qed

lemma scast_fits: "1 \<le> b \<Longrightarrow> b \<le> 32 \<Longrightarrow> fits (scast b v)"
proof -
  assume b: "1 \<le> b" "b \<le> 32"
  have "(2::int) ^ (b - 1) \<le> 2 ^ 31" using b by (intro power_increasing) auto
  then show ?thesis using scast_range[OF b(1), of v] unfolding fits_def by simp
qed

lemma ucast_scast: "1 \<le> b \<Longrightarrow> ucast_int b (scast b v) = ucast_int b v"
  by (simp add: ucast_int_def scast_def mod_diff_left_eq)

lemma ucast_fits: "b \<le> 32 \<Longrightarrow> fits (ucast_int b v)"
proof -
  assume b: "b \<le> 32"
  have "(2::int) ^ b \<le> 2 ^ 32" using b by (intro power_increasing) auto
  moreover have "0 \<le> ucast_int b v" "ucast_int b v < 2 ^ b" by (simp_all add: ucast_int_def)
  ultimately show ?thesis unfolding fits_def by simp
qed

lemma mod_between:
  fixes l x u m :: int
  assumes "0 < m" "l \<le> x" "x \<le> u" "u - l < m" "l mod m \<le> u mod m"
  shows "l mod m \<le> x mod m \<and> x mod m \<le> u mod m"
proof -
  have d: "l div m \<le> x div m" "x div m \<le> u div m" using assms(1-3) by (simp_all add: zdiv_mono1)
  have e: "l = m * (l div m) + l mod m" "u = m * (u div m) + u mod m" "x = m * (x div m) + x mod m" by simp_all
  have "m * (u div m) - m * (l div m) < m" using e(1,2) assms(4,5) by linarith
  then have "m * (u div m - l div m) < m * 1" by (simp add: right_diff_distrib)
  then have "u div m - l div m < 1" using assms(1) mult_less_cancel_left_pos by blast
  then have "l div m = x div m" "u div m = x div m" using d by linarith+
  then show ?thesis using e assms(2,3) by (metis add_le_cancel_left)
qed

lemma scast_between:
  assumes "1 \<le> b" "l \<le> x" "x \<le> u" "u - l < 2 ^ b" "scast b l \<le> scast b u"
  shows "scast b l \<le> scast b x \<and> scast b x \<le> scast b u"
  using mod_between[of "2 ^ b" "l + 2 ^ (b - 1)" "x + 2 ^ (b - 1)" "u + 2 ^ (b - 1)"] assms by (simp add: scast_def)

text \<open>The range of a type.\<close>

lemma range_limit_ok:
  assumes "getRangeLimitFromType t = Some r"
  shows "iv_ok r"
proof -
  have i: "iv_ok r" if "iv_range l u = Some r" "fits l" "fits u" "l \<le> u" for l u
    using iv_range_ok[OF that(2-4)] that(1) by simp
  show ?thesis
    using assms unfolding getRangeLimitFromType_def
    by (cases t) (auto simp: Let_def fits_def intro: i split: if_splits)
qed

lemma range_limit_signed:
  assumes "b = 8 \<or> b = 16 \<or> b = 32" "bytes * 8 = b"
  shows "wp (getRangeLimitFromType (IntegerType bytes True)) (\<lambda>r. iv_ok r \<and> iv_set r = {- (2 ^ (b - 1))..2 ^ (b - 1) - 1})"
  using assms iv_range_ok[of "- 2147483648" 2147483647] iv_range_ok[of "- 32768" 32767] iv_range_ok[of "- 128" 127]
  by (auto simp: getRangeLimitFromType_def Let_def fits_def)

definition trunc_room :: "nat \<Rightarrow> interval \<Rightarrow> bool" where
  "trunc_room bits i \<longleftrightarrow> \<not> is_infinity (iv_lb i) \<and> \<not> is_infinity (iv_ub i) \<and> bi_val (iv_ub i) - bi_val (iv_lb i) < 2 ^ bits"

text \<open>What a cast needs: a size that is handled, and for a truncation a signed type and bounds less than the
  modulus apart.\<close>

definition copy_room :: "copy_kind \<Rightarrow> interval \<Rightarrow> svf_type \<Rightarrow> svf_type \<Rightarrow> bool" where
  "copy_room kind i lhs_ty rhs_ty \<longleftrightarrow>
     (kind = ZEXT \<longrightarrow> byteSize rhs_ty * 8 \<in> {8, 16, 32}) \<and>
     (kind = TRUNC \<longrightarrow> (\<exists>n. lhs_ty = IntegerType n True) \<and> byteSize lhs_ty * 8 \<in> {8, 16, 32} \<and> trunc_room (byteSize lhs_ty * 8) i)"

lemma iv_numeral_get:
  assumes "iv_ok i" "x \<in> iv_set i" "iv_is_numeral i"
  shows "iv_getNumeral i = Some x"
proof -
  have "bi_val (iv_lb i) = x" "fits x" using iv_mem_num[OF assms] assms(2) by (simp_all add: mem_iv_set)
  then have "bi_getNumeral (iv_lb i) = x"
    using assms(1) by (intro trans[OF bi_getNumeral_fin]) (auto simp: iv_ok_def fits_def bi_val_def is_infinity_def split: if_splits)
  then show ?thesis using assms(3) by (simp add: iv_getNumeral_def)
qed

lemma getZExtValue_ok:
  assumes "st_ok s" "models s env" "env (PVar i) = Some (Num x)" "byteSize ty * 8 \<in> {8, 16, 32}"
  shows "wp (getZExtValue s i ty)
    (\<lambda>(s', r). st_ok s' \<and> models s' env \<and> iv_ok r \<and> ucast_int (byteSize ty * 8) x \<in> iv_set r)"
proof -
  define b where "b = byteSize ty * 8"
  have b: "b = 8 \<or> b = 16 \<or> b = 32" using assms(4) by (auto simp: b_def)
  have f: "fits (ucast_int b x)" using b by (intro ucast_fits) auto
  obtain s' v where ix: "as_index s i = (s', v)" by (cases "as_index s i")
  note ai = as_index_sound[OF assms(1,2) ix]
  have x: "x \<in> iv_set (av_interval v)" "iv_ok (av_interval v)" using models_num[OF assms(2,3)] ai(3,4) by (simp_all add: av_ok_def)
  show ?thesis
  proof (cases "is_integer_type ty \<and> iv_is_numeral (av_interval v)")
    case True
    have c: "ucast_int b (scast b x) = ucast_int b x" using b by (intro ucast_scast) auto
    obtain n where n: "byteSize ty = n" by simp
    obtain sg where ty: "ty = IntegerType n sg" using True n by (cases ty) (auto simp: is_integer_type_def)
    obtain r where r: "iv_range (ucast_int b x) (ucast_int b x) = Some r" "iv_ok r" "iv_set r = {ucast_int b x..ucast_int b x}"
      using iv_range_ok[OF f f] unfolding wp_iff by auto
    have bn: "n * 8 = b" by (simp add: b_def n)
    have "getZExtValue s i ty = Some (s', r)"
      using True b c r(1) iv_numeral_get[OF x(2,1)] by (simp add: getZExtValue_def ty ix Let_def bn)
    then show ?thesis using r ai(1,2) by (simp add: ty bn)
  next
    case False
    then have "getZExtValue s i ty = Some (s', iv_top) \<or> getZExtValue s i ty = Some (s, iv_top)"
      by (cases ty) (auto simp: getZExtValue_def ix Let_def is_integer_type_def)
    then show ?thesis using ai(1,2) assms(1,2) f by (auto simp: b_def)
  qed
qed

lemma getTruncValue_ok:
  assumes "st_ok s" "models s env" "env (PVar i) = Some (Num x)" "byteSize ty * 8 \<in> {8, 16, 32}" "ty = IntegerType n True"
    and "trunc_room (byteSize ty * 8) (av_interval (am_get (as_vars s) i))"
  shows "wp (getTruncValue s i ty) (\<lambda>r. iv_ok r \<and> scast (byteSize ty * 8) x \<in> iv_set r)"
proof -
  define b where "b = byteSize ty * 8"
  have b: "b = 8 \<or> b = 16 \<or> b = 32" using assms(4) by (auto simp: b_def)
  then have b1: "1 \<le> b" "b \<le> 32" by auto
  define j where "j = av_interval (am_get (as_vars s) i)"
  have x: "x \<in> iv_set j" using models_num[OF assms(2,3)] by (simp add: j_def)
  have j: "iv_ok j" unfolding j_def using am_ok_get[of "as_vars s" i] assms(1) by (simp add: st_ok_def av_ok_def)
  have nb: "\<not> iv_isBottom j" using iv_mem_not_bottom[OF x] j by simp
  have at: "as_at s i = Some (am_get (as_vars s) i)"
    using has_interval[OF assms(1-3)] by (auto simp: as_at_def inVarToValTable_def am_has_interval_def aget_def split: option.splits)
  have num: "bi_getNumeral (iv_lb j) = bi_val (iv_lb j)" "bi_getNumeral (iv_ub j) = bi_val (iv_ub j)"
    using assms(6) j by (simp_all add: trunc_room_def bi_getNumeral_fin iv_ok_def flip: j_def)
  define l u where "l = bi_val (iv_lb j)" and "u = bi_val (iv_ub j)"
  have lu: "l \<le> x" "x \<le> u" "u - l < 2 ^ b"
    using x assms(6) by (simp_all add: l_def u_def mem_iv_set trunc_room_def b_def flip: j_def)
  have eq: "getTruncValue s i ty = (if scast b l > scast b u then getRangeLimitFromType ty else iv_range (scast b l) (scast b u))"
    using b nb num by (auto simp: getTruncValue_def at Let_def l_def u_def simp flip: j_def b_def)
  have "wp (getTruncValue s i ty) (\<lambda>r. iv_ok r \<and> scast b x \<in> iv_set r)"
  proof (cases "scast b l > scast b u")
    case True
    have "n * 8 = b" by (simp add: b_def assms(5))
    then obtain r where "getRangeLimitFromType ty = Some r" "iv_ok r" "iv_set r = {- (2 ^ (b - 1))..2 ^ (b - 1) - 1}"
      using range_limit_signed[OF b, of n] assms(5) unfolding wp_iff by auto
    then show ?thesis using scast_range[OF b1(1), of x] True by (simp add: eq)
  next
    case False
    then have le: "scast b l \<le> scast b u" by simp
    obtain r where "iv_range (scast b l) (scast b u) = Some r" "iv_ok r" "iv_set r = {scast b l..scast b u}"
      using iv_range_ok[OF scast_fits[OF b1] scast_fits[OF b1] le] unfolding wp_iff by blast
    then show ?thesis using scast_between[OF b1(1) lu le] False by (simp add: eq)
  qed
  then show ?thesis by (simp add: b_def)
qed

lemma updateStateOnCopy_sound:
  assumes "st_ok s" "models s env" "cstep (SCopy kind lhs rhs t u) env env'"
    and room: "copy_room kind (av_interval (am_get (as_vars s) rhs)) t u"
  shows "wp (updateStateOnCopy s kind lhs rhs t u) (\<lambda>s'. st_ok s' \<and> models s' env')"
proof -
  obtain s1 v where ix: "as_index s rhs = (s1, v)" by (cases "as_index s rhs")
  note ai = as_index_sound[OF assms(1,2) ix]
  show ?thesis
    using assms(3)
  proof cases
    case (Copy c)
    then show ?thesis using as_copy_sound[OF assms(1,2)] by (simp add: updateStateOnCopy_def)
  next
    case (Sext x)
    have "Num x \<in> av_gam (av_of_interval (av_interval v))" using models_num[OF assms(2) Sext(3)] ai(4) by simp
    moreover have "iv_ok (av_interval v)" using ai(3) unfolding av_ok_def by blast
    then have "av_ok (av_of_interval (av_interval v))" by simp
    ultimately show ?thesis
      using assign_sound[OF ai(1,2), of "av_of_interval (av_interval v)" "Num x" lhs] Sext by (simp add: updateStateOnCopy_def interval_copies_def ix)
  next
    case (Zext x)
    obtain s' r where z: "getZExtValue s rhs u = Some (s', r)" "st_ok s'" "models s' env" "iv_ok r"
        "ucast_int (byteSize u * 8) x \<in> iv_set r"
      using getZExtValue_ok[OF assms(1,2) Zext(3), of u] room Zext(1) unfolding wp_iff copy_room_def by auto
    then show ?thesis using assign_sound[OF z(2,3), of "av_of_interval r" "Num (ucast_int (byteSize u * 8) x)" lhs] Zext by (simp add: updateStateOnCopy_def)
  next
    case (Trunc x)
    obtain n where t: "t = IntegerType n True" "byteSize t * 8 \<in> {8, 16, 32}"
        "trunc_room (byteSize t * 8) (av_interval (am_get (as_vars s) rhs))"
      using room Trunc(1) unfolding copy_room_def by blast
    have "wp (getTruncValue s rhs t) (\<lambda>r. iv_ok r \<and> scast (byteSize t * 8) x \<in> iv_set r)"
      using getTruncValue_ok[OF assms(1,2) Trunc(3) t(2,1,3)] .
    from assign_interval_sound[OF assms(1,2) this] show ?thesis
      using Trunc by (simp add: updateStateOnCopy_def interval_copies_def)
  next
    case (Ptrtoint n)
    then show ?thesis
      using assign_sound[OF assms(1,2), of "av_of_interval iv_top" "Num n" lhs]
      by (simp add: updateStateOnCopy_def interval_copies_def)
  next
    case (Bitcast a)
    have m: "Adr a \<in> av_gam v" using models_var[OF assms(2) Bitcast(3)] ai(4) by simp
    then have "av_isAddr v" by (auto simp: av_isAddr_def ad_isBottom_def ad_empty_def)
    then show ?thesis
      using assign_sound[OF ai(1-3) m] Bitcast by (simp add: updateStateOnCopy_def interval_copies_def ix)
  qed
qed

text \<open>A constant must be in the range that its type is given.\<close>

definition addr_room :: "obj_var \<Rightarrow> bool" where
  "addr_room obj \<longleftrightarrow> (is_integer_type (ov_type obj) \<longrightarrow> (\<exists>r. getRangeLimitFromType (ov_type obj) = Some r \<and>
     (\<forall>n. ov_class obj = ConstIntObj n \<longrightarrow> n \<in> iv_set r)))"

lemma initObjVar_sound:
  assumes "st_ok s" "models s env" "cstep (SAddr lhs obj) env env'"
  obtains s' c where "initObjVar s obj = Some s'" "st_ok s'" "models s' (env(PVar (ov_id obj) \<mapsto> c))"
    "env' = env(PVar (ov_id obj) \<mapsto> c, PVar lhs \<mapsto> c)" "(\<exists>a. c = Adr a) \<or> (\<exists>n. c = Num n \<and> ov_class obj = ConstIntObj n)"
  using assms(3)
proof cases
  case (Obj a)
  then show ?thesis
    using that[of "as_assign s (ov_id obj) (av_of_addrs [a])" "Adr a"] assign_sound[OF assms(1,2), of "av_of_addrs [a]" "Adr a"]
    by (simp add: initObjVar_def)
next
  case (Const n)
  then obtain i where i: "iv_range n n = Some i" "iv_ok i" "iv_set i = {n..n}" using iv_range_ok[of n n] unfolding wp_iff by auto
  then show ?thesis
    using that[of "as_assign s (ov_id obj) (av_of_interval i)" "Num n"] assign_sound[OF assms(1,2), of "av_of_interval i" "Num n"] Const
    by (simp add: initObjVar_def)
qed

lemma as_update_interval_sound:
  assumes "st_ok s" "models s env" "env (PVar i) = Some c" "iv_ok r" "\<And>n. c = Num n \<Longrightarrow> n \<in> iv_set r"
  shows "wp (as_update_interval s i (\<lambda>j. iv_meet_with j r)) (\<lambda>s'. st_ok s' \<and> models s' env)"
proof -
  obtain s1 v where ix: "as_index s i = (s1, v)" by (cases "as_index s i")
  note ai = as_index_sound[OF assms(1,2) ix]
  have v: "iv_ok (av_interval v)" "distinct (av_addrs v)" using ai(3) by (simp_all add: av_ok_def)
  obtain j where j: "iv_meet_with (av_interval v) r = Some j" "iv_ok j" "iv_set j = iv_set (av_interval v) \<inter> iv_set r"
    using iv_meet_ok[OF v(1) assms(4)] unfolding wp_iff by blast
  have c: "c \<in> av_gam v" using models_var[OF assms(2,3)] ai(4) by simp
  have "c \<in> av_gam (v\<lparr>av_interval := j\<rparr>)" using c assms(5) j(3) by (cases c) simp_all
  moreover have "av_ok (v\<lparr>av_interval := j\<rparr>)" using v j by (simp add: av_ok_def)
  moreover have "env(PVar i \<mapsto> c) = env" using assms(3) by (rule map_upd_triv)
  ultimately show ?thesis
    using assign_sound[OF ai(1,2), of "v\<lparr>av_interval := j\<rparr>" c i] j(1) by (simp add: as_update_interval_def ix)
qed

lemma updateStateOnAddr_sound:
  assumes "st_ok s" "models s env" "cstep (SAddr lhs obj) env env'" "addr_room obj"
  shows "wp (updateStateOnAddr s lhs obj) (\<lambda>s'. st_ok s' \<and> models s' env')"
proof -
  obtain s1 c where s1: "initObjVar s obj = Some s1" "st_ok s1" "models s1 (env(PVar (ov_id obj) \<mapsto> c))"
      "env' = env(PVar (ov_id obj) \<mapsto> c, PVar lhs \<mapsto> c)" "(\<exists>a. c = Adr a) \<or> (\<exists>n. c = Num n \<and> ov_class obj = ConstIntObj n)"
    by (rule initObjVar_sound[OF assms(1-3)])
  let ?env = "env(PVar (ov_id obj) \<mapsto> c)"
  have copy: "st_ok s2 \<Longrightarrow> models s2 ?env \<Longrightarrow> st_ok (as_copy s2 lhs (ov_id obj)) \<and> models (as_copy s2 lhs (ov_id obj)) env'" for s2
    using as_copy_sound[of s2 ?env "ov_id obj" c lhs] s1(4) by simp
  show ?thesis
  proof (cases "is_integer_type (ov_type obj)")
    case False
    then show ?thesis using s1(1) copy[OF s1(2,3)] by (simp add: updateStateOnAddr_def)
  next
    case True
    then obtain r where r: "getRangeLimitFromType (ov_type obj) = Some r" "\<forall>n. ov_class obj = ConstIntObj n \<longrightarrow> n \<in> iv_set r"
      using assms(4) unfolding addr_room_def by blast
    have "n \<in> iv_set r" if "c = Num n" for n using that s1(5) r(2) by auto
    then obtain s2 where "as_update_interval s1 (ov_id obj) (\<lambda>j. iv_meet_with j r) = Some s2" "st_ok s2" "models s2 ?env"
      using as_update_interval_sound[OF s1(2,3) _ range_limit_ok[OF r(1)], of "ov_id obj" c] unfolding wp_iff by auto
    then show ?thesis using True r(1) s1(1) copy by (simp add: updateStateOnAddr_def)
  qed
qed

text \<open>What a statement needs of the state it is executed in, for its handler to be sound.\<close>

definition stmt_room :: "abstract_state \<Rightarrow> stmt \<Rightarrow> bool" where
  "stmt_room s st \<longleftrightarrow> (let itv = \<lambda>i. av_interval (am_get (as_vars s) i) in case st of
     SAddr lhs obj \<Rightarrow> addr_room obj
   | SBinary oc op0 op1 res \<Rightarrow> op_room oc (itv op0) (itv op1)
   | SCmp p op0 op1 res \<Rightarrow> \<not> (inVarToAddrsTable s op0 \<and> inVarToAddrsTable s op1)
   | SLoad lhs rhs \<Rightarrow> \<forall>a\<in>targets s rhs. isVirtualMemAddress a
   | SStore lhs rhs \<Rightarrow> (\<exists>a. targets s lhs = {a} \<and> isVirtualMemAddress a)
   | SCopy kind lhs rhs t u \<Rightarrow> copy_room kind (itv rhs) t u
   | _ \<Rightarrow> True)"

inductive_cases cstep_loadE: "cstep (SLoad lhs rhs) env env'"
inductive_cases cstep_storeE: "cstep (SStore lhs rhs) env env'"
inductive_cases cstep_selectE: "cstep (SSelect res tval fval cond) env env'"
inductive_cases cstep_passE: "cstep (SCall lhs rhs) env env'" "cstep (SRet lhs rhs) env env'"
inductive_simps cstep_none [simp]: "cstep SUnary env env'" "cstep SBranch env env'" "cstep (SGep lhs rhs ap) env env'"
  "cstep (SPhi res ops) env env'"

lemma handler_sound:
  assumes "st_ok s" "models s env" "cstep st env env'" "stmt_room s st"
  shows "wp (handle_on_state g st s) (\<lambda>s'. st_ok s' \<and> models s' env')"
proof (cases st)
  case (SAddr lhs obj)
  then show ?thesis using updateStateOnAddr_sound[OF assms(1,2)] assms(3,4) by (simp add: handle_on_state_def stmt_room_def)
next
  case (SBinary oc op0 op1 res)
  then show ?thesis
    using assms(3,4) updateStateOnBinary_sound[OF assms(1,2)]
    by (auto simp: handle_on_state_def stmt_room_def Let_def elim!: cstep_binaryE)
next
  case (SCmp p op0 op1 res)
  then show ?thesis
    using assms(3,4) updateStateOnCmp_sound[OF assms(1,2)]
    by (auto simp: handle_on_state_def stmt_room_def elim!: cstep_cmpE)
next
  case (SLoad lhs rhs)
  then show ?thesis
    using assms(3,4) updateStateOnLoad_sound[OF assms(1,2)]
    by (auto simp: handle_on_state_def stmt_room_def elim!: cstep_loadE)
next
  case (SStore lhs rhs)
  then obtain a where t: "targets s lhs = {a}" "isVirtualMemAddress a" using assms(4) by (auto simp: stmt_room_def)
  obtain b c where e: "env (PVar lhs) = Some (Adr b)" "env (PVar rhs) = Some c" "env' = env(PMem (getInternalID b) \<mapsto> c)"
    using assms(3) SStore by (auto elim!: cstep_storeE)
  moreover have "b = a" using models_adr[OF assms(2) e(1)] t(1) by simp
  ultimately show ?thesis
    using updateStateOnStore_sound[OF assms(1,2) _ _ t] SStore by (simp add: handle_on_state_def)
next
  case (SCopy kind lhs rhs t u)
  then show ?thesis
    using updateStateOnCopy_sound[OF assms(1,2)] assms(3,4) by (simp add: handle_on_state_def stmt_room_def Let_def)
next
  case (SSelect res tval fval cond)
  then obtain n c where "env (PVar cond) = Some (Num n)" "env (PVar (if n \<noteq> 0 then tval else fval)) = Some c"
      "res \<noteq> fval" "env' = env(PVar res \<mapsto> c)"
    using assms(3) by (blast elim!: cstep_selectE)
  then show ?thesis using updateStateOnSelect_sound[OF assms(1,2)] SSelect by (simp add: handle_on_state_def)
next
  case (SCall lhs rhs)
  then obtain c where "env (PVar rhs) = Some c" "env' = env(PVar lhs \<mapsto> c)" using assms(3) by (blast elim!: cstep_passE)
  then show ?thesis using as_copy_sound[OF assms(1,2)] SCall by (simp add: handle_on_state_def updateStateOnCall_def)
next
  case (SRet lhs rhs)
  then obtain c where "env (PVar rhs) = Some c" "env' = env(PVar lhs \<mapsto> c)" using assms(3) by (blast elim!: cstep_passE)
  then show ?thesis using as_copy_sound[OF assms(1,2)] SRet by (simp add: handle_on_state_def updateStateOnRet_def)
qed (use assms in \<open>simp_all add: handle_on_state_def\<close>)

text \<open>Cases in which the result misses a value. A truncation whose lower bound is infinite, one of an interval that
  is wider than the target, and comparisons of addresses, where the predicate is not looked at.\<close>

lemma trunc_misses_value:
  "\<exists>s r. st_ok s \<and> models s [PVar 1 \<mapsto> Num 128] \<and> getTruncValue s 1 (IntegerType 1 True) = Some r \<and>
     scast 8 128 \<notin> iv_set r"
proof -
  let ?i = "\<lparr>iv_lb = bi_fin 0, iv_ub = bi_fin 256\<rparr>"
  let ?s = "as_assign as_new 1 (av_of_interval ?i)"
  have "st_ok ?s" "models ?s [PVar 1 \<mapsto> Num 128]"
    using assign_sound[of as_new "\<lambda>_. None" "av_of_interval ?i" "Num 128" 1]
    by (auto simp: models_def iv_ok_def iv_isBottom_def mem_iv_set fits_def)
  moreover have "getTruncValue ?s 1 (IntegerType 1 True) = Some \<lparr>iv_lb = bi_fin 0, iv_ub = bi_fin 0\<rparr>"
    by code_simp
  ultimately show ?thesis by (intro exI[of _ ?s]) (auto simp: mem_iv_set scast_def)
qed

lemma compare_addresses_misses_value:
  "\<exists>s r. st_ok s \<and> models s [PVar 1 \<mapsto> Adr 0x7f000001, PVar 2 \<mapsto> Adr 0x7f000002] \<and>
     updateStateOnCmp s ICMP_NE 1 2 3 = Some r \<and> truth (0x7f000001 \<noteq> (0x7f000002 :: address)) \<notin> iv_set (av_interval (am_get (as_vars r) 3))"
proof -
  let ?s = "as_assign (as_assign as_new 1 (av_of_addrs [0x7f000001])) 2 (av_of_addrs [0x7f000002])"
  have s1: "st_ok (as_assign as_new 1 (av_of_addrs [0x7f000001]))"
    "models (as_assign as_new 1 (av_of_addrs [0x7f000001])) [PVar 1 \<mapsto> Adr 0x7f000001]"
    using assign_sound[of as_new "\<lambda>_. None" "av_of_addrs [0x7f000001]" "Adr 0x7f000001" 1] by (auto simp: models_def)
  have s: "st_ok ?s" "models ?s [PVar 1 \<mapsto> Adr 0x7f000001, PVar 2 \<mapsto> Adr 0x7f000002]"
    using assign_sound[OF s1, of "av_of_addrs [0x7f000002]" "Adr 0x7f000002" 2] by simp_all
  have "updateStateOnCmp ?s ICMP_NE 1 2 3 = Some (as_assign ?s 3 (av_of_interval (iv_num 0)))"
    by code_simp
  moreover have "av_interval (am_get (as_vars (as_assign ?s 3 (av_of_interval (iv_num 0)))) 3) = iv_num 0"
    by (simp add: as_assign_def av_of_interval_def)
  ultimately show ?thesis using s iv_num_exact[of 0] by (intro exI[of _ ?s] exI[of _ "as_assign ?s 3 (av_of_interval (iv_num 0))"]) (simp add: truth_def fits_def)
qed

text \<open>A 64-bit constant outside 32 bits: its object is left without a value.\<close>

lemma wide_constant_lost:
  "map_option (\<lambda>s. av_interval (am_get (as_vars s) 1)) (updateStateOnAddr as_new 1 \<lparr>ov_id = 2, ov_type = IntegerType 8 True, ov_class = ConstIntObj 4294967296,
     ov_constData = True, ov_constArray = False, ov_constStruct = False\<rparr>) = Some iv_bottom"
  by code_simp

end
