(* ===== verification/Abstract_Branch.thy ===== *)
theory Abstract_Branch
  imports Abstract_Exec
begin

text \<open>
  Branches of \<^verbatim>\<open>svf/lib/AE/Svfexe/AbstractInterpretation.cpp\<close>: whether the successor of a branch can be taken in a
  state, and what the state says when it is. A comparison with a constant narrows the interval of the other
  operand, and those of the objects it has been loaded from.
\<close>

text \<open>The tables of predicates; a predicate that is not in the table gives the first of the enumeration.\<close>

definition reverse_predicate :: "predicate \<Rightarrow> predicate" where
  "reverse_predicate p = (case p of
     FCMP_OEQ \<Rightarrow> FCMP_ONE | FCMP_UEQ \<Rightarrow> FCMP_UNE | FCMP_OGT \<Rightarrow> FCMP_OLE | FCMP_OGE \<Rightarrow> FCMP_OLT
   | FCMP_OLT \<Rightarrow> FCMP_OGE | FCMP_OLE \<Rightarrow> FCMP_OGT | FCMP_ONE \<Rightarrow> FCMP_OEQ | FCMP_UNE \<Rightarrow> FCMP_UEQ
   | ICMP_EQ \<Rightarrow> ICMP_NE | ICMP_NE \<Rightarrow> ICMP_EQ | ICMP_UGT \<Rightarrow> ICMP_ULE | ICMP_ULT \<Rightarrow> ICMP_UGE
   | ICMP_UGE \<Rightarrow> ICMP_ULT | ICMP_SGT \<Rightarrow> ICMP_SLE | ICMP_SLT \<Rightarrow> ICMP_SGE | ICMP_SGE \<Rightarrow> ICMP_SLT
   | _ \<Rightarrow> FCMP_FALSE)"

definition switch_lhsrhs_predicate :: "predicate \<Rightarrow> predicate" where
  "switch_lhsrhs_predicate p = (case p of
     FCMP_OEQ \<Rightarrow> FCMP_OEQ | FCMP_UEQ \<Rightarrow> FCMP_UEQ | FCMP_OGT \<Rightarrow> FCMP_OLT | FCMP_OGE \<Rightarrow> FCMP_OLE
   | FCMP_OLT \<Rightarrow> FCMP_OGT | FCMP_OLE \<Rightarrow> FCMP_OGE | FCMP_ONE \<Rightarrow> FCMP_ONE | FCMP_UNE \<Rightarrow> FCMP_UNE
   | ICMP_EQ \<Rightarrow> ICMP_EQ | ICMP_NE \<Rightarrow> ICMP_NE | ICMP_UGT \<Rightarrow> ICMP_ULT | ICMP_ULT \<Rightarrow> ICMP_UGT
   | ICMP_UGE \<Rightarrow> ICMP_ULE | ICMP_SGT \<Rightarrow> ICMP_SLT | ICMP_SLT \<Rightarrow> ICMP_SGT | ICMP_SGE \<Rightarrow> ICMP_SLE
   | _ \<Rightarrow> FCMP_FALSE)"

text \<open>The pointer that a variable has been loaded from, through a copy or not, by the first statement that defines
  it.\<close>

definition load_pointer :: "(address \<Rightarrow> stmt list) \<Rightarrow> address \<Rightarrow> address option" where
  "load_pointer in_edges op = (case in_edges op of
     SLoad lhs rhs # _ \<Rightarrow> Some rhs
   | SCopy k lhs rhs t u # _ \<Rightarrow> (case in_edges rhs of SLoad l r # _ \<Rightarrow> Some r | _ \<Rightarrow> None)
   | _ \<Rightarrow> None)"

text \<open>The interval that the other operand is met with; the first option is a failure, the second says that there is
  nothing to meet with.\<close>

definition branch_range :: "predicate \<Rightarrow> interval \<Rightarrow> interval option option" where
  "branch_range p rhs =
    (if p \<in> {ICMP_EQ, FCMP_OEQ, FCMP_UEQ} then Some (Some rhs)
     else if p \<in> {ICMP_NE, FCMP_ONE, FCMP_UNE} then Some None
     else if p \<in> {ICMP_UGT, ICMP_SGT, FCMP_OGT, FCMP_UGT} then do {
       l \<leftarrow> iv_get_lb rhs; l \<leftarrow> bi_safeAdd l (bi_fin 1); r \<leftarrow> iv_make l plus_infinity; Some (Some r) }
     else if p \<in> {ICMP_UGE, ICMP_SGE, FCMP_OGE, FCMP_UGE} then do {
       l \<leftarrow> iv_get_lb rhs; r \<leftarrow> iv_make l plus_infinity; Some (Some r) }
     else if p \<in> {ICMP_ULT, ICMP_SLT, FCMP_OLT, FCMP_ULT} then do {
       u \<leftarrow> iv_get_ub rhs; u \<leftarrow> bi_sub u (bi_fin 1); r \<leftarrow> iv_make minus_infinity u; Some (Some r) }
     else if p \<in> {ICMP_ULE, ICMP_SLE, FCMP_OLE, FCMP_ULE} then do {
       u \<leftarrow> iv_get_ub rhs; r \<leftarrow> iv_make minus_infinity u; Some (Some r) }
     else if p \<in> {FCMP_FALSE, FCMP_TRUE} then Some None
     else None)"

text \<open>An object that has an interval is met with a value of that interval and without addresses.\<close>

definition meet_object :: "interval \<Rightarrow> address \<Rightarrow> abstract_state \<Rightarrow> abstract_state option" where
  "meet_object r addr s = (let objId = getInternalID addr in
     if inAddrToValTable s objId
     then do {
       (s, v) \<leftarrow> as_load s addr;
       u \<leftarrow> av_meet_with v (av_of_interval r);
       Some (s\<lparr>as_mem := aput objId u (as_mem s)\<rparr>) }
     else Some s)"

text \<open>The operand that is not constant, and the objects it has been loaded from, are narrowed.\<close>

definition refine_operand ::
  "address option \<Rightarrow> address \<Rightarrow> interval \<Rightarrow> predicate \<Rightarrow> abstract_state \<Rightarrow> (bool \<times> abstract_state) option" where
  "refine_operand load_op op rhs p new_es = do {
     let (new_es, addrs) = (case load_op of
       Some r \<Rightarrow> if inVarToAddrsTable new_es r
         then (case as_index new_es r of (new_es, v) \<Rightarrow> (new_es, av_addrs v)) else (new_es, [])
     | None \<Rightarrow> (new_es, []));
     m \<leftarrow> branch_range p rhs;
     (case m of
       None \<Rightarrow> Some (True, new_es)
     | Some r \<Rightarrow> do {
         new_es \<leftarrow> as_update_interval new_es op (\<lambda>i. iv_meet_with i r);
         new_es \<leftarrow> foldM (meet_object r) addrs new_es;
         Some (True, new_es) }) }"

text \<open>A failing comparison leaves the state it is given.\<close>

definition isCmpBranchFeasible ::
  "(address \<Rightarrow> stmt list) \<Rightarrow> predicate \<Rightarrow> address \<Rightarrow> address \<Rightarrow> address \<Rightarrow> int \<Rightarrow> abstract_state \<Rightarrow>
     (bool \<times> abstract_state) option" where
  "isCmpBranchFeasible in_edges p op0 op1 res_id succ as =
    (if inVarToAddrsTable as op0 \<or> inVarToAddrsTable as op1 then Some (True, as)
     else
       let load_op0 = load_pointer in_edges op0;
           load_op1 = load_pointer in_edges op1
       in case as_index as res_id of (new_es, res) \<Rightarrow> do {
         j \<leftarrow> iv_range succ succ;
         resVal \<leftarrow> iv_meet_with (av_interval res) j;
         if iv_isBottom resVal then Some (False, as)
         else case as_index new_es op0 of (new_es, v0) \<Rightarrow> case as_index new_es op1 of (new_es, v1) \<Rightarrow>
           let b0 = iv_is_numeral (av_interval v0);
               b1 = iv_is_numeral (av_interval v1)
           in if b0 = b1 then Some (True, new_es)
           else
             let (op0, op1, load_op0, rhs, p) =
               (if b0 then (op1, op0, load_op1, av_interval v0, switch_lhsrhs_predicate p)
                else (op0, op1, load_op0, av_interval v1, p));
               p = (if succ = 0 then reverse_predicate p else p)
             in refine_operand load_op0 op0 rhs p new_es })"

text \<open>A switch: the variable has the value of the case.\<close>

definition switch_stmt :: "address \<Rightarrow> interval \<Rightarrow> interval \<Rightarrow> stmt \<Rightarrow> abstract_state \<Rightarrow> abstract_state option" where
  "switch_stmt var j switch_cond st s = (case st of
     SCopy k l r t u \<Rightarrow> as_update_interval s var (\<lambda>i. iv_meet_with i j)
   | SLoad l r \<Rightarrow>
       if inVarToAddrsTable s r
       then (case as_index s r of (s, v) \<Rightarrow> foldM (meet_object switch_cond) (av_addrs v) s)
       else Some s
   | _ \<Rightarrow> Some s)"

definition isSwitchBranchFeasible ::
  "(address \<Rightarrow> stmt list) \<Rightarrow> address \<Rightarrow> int \<Rightarrow> abstract_state \<Rightarrow> (bool \<times> abstract_state) option" where
  "isSwitchBranchFeasible in_edges var succ as = (case as_index as var of (new_es, v) \<Rightarrow> do {
     j \<leftarrow> iv_range succ succ;
     switch_cond \<leftarrow> iv_meet_with (av_interval v) j;
     let new_es = as_assign new_es var (v\<lparr>av_interval := switch_cond\<rparr>);
     if iv_isBottom switch_cond then Some (False, as)
     else do {
       new_es \<leftarrow> foldM (switch_stmt var j switch_cond) (in_edges var) new_es;
       Some (True, new_es) } })"

definition isBranchFeasible ::
  "(address \<Rightarrow> stmt list) \<Rightarrow> address \<Rightarrow> int \<Rightarrow> abstract_state \<Rightarrow> (bool \<times> abstract_state) option" where
  "isBranchFeasible in_edges cmpVar succ as = (case in_edges cmpVar of
     SCmp p op0 op1 res # _ \<Rightarrow> isCmpBranchFeasible in_edges p op0 op1 res succ as
   | _ \<Rightarrow> isSwitchBranchFeasible in_edges cmpVar succ as)"

subsection \<open>Branches that are taken are feasible\<close>

lemma reverse_predicate_sem:
  "pred_sem p x y = Some False \<Longrightarrow> pred_sem (reverse_predicate p) x y = Some True \<or> reverse_predicate p = FCMP_FALSE"
  by (cases p) (auto simp: pred_sem_def reverse_predicate_def split: if_splits)

lemma switch_predicate_sem:
  "pred_sem p x y = Some t \<Longrightarrow> pred_sem (switch_lhsrhs_predicate p) y x = Some t \<or> switch_lhsrhs_predicate p = FCMP_FALSE"
  by (cases p) (auto simp: pred_sem_def switch_lhsrhs_predicate_def split: if_splits)

lemma iv_numeral_bounds:
  assumes "iv_ok r" "y \<in> iv_set r" "iv_is_numeral r"
  shows "bi_ok (iv_lb r)" "bi_ok (iv_ub r)" "bi_val (iv_lb r) = y" "bi_val (iv_ub r) = y" "\<not> iv_isBottom r" "fits y"
  using iv_mem_num[OF assms] iv_mem_not_bottom[OF assms(2,1)] assms(1,2) by (simp_all add: iv_ok_def mem_iv_set)

lemma above_ok: "bi_ok l \<Longrightarrow> bi_val l < big \<Longrightarrow> wp (iv_make l plus_infinity) (\<lambda>r. iv_ok r \<and> iv_set r = {x. fits x \<and> bi_val l \<le> x})"
  using iv_make_ok[of l plus_infinity] bi_val_range[of l] iv_new_ok(1)[of l plus_infinity]
  by (auto simp: iv_set_def fits_def)

lemma below_ok: "bi_ok u \<Longrightarrow> - big < bi_val u \<Longrightarrow> wp (iv_make minus_infinity u) (\<lambda>r. iv_ok r \<and> iv_set r = {x. fits x \<and> x \<le> bi_val u})"
  using iv_make_ok[of minus_infinity u] bi_val_range[of u] iv_new_ok(1)[of minus_infinity u]
  by (auto simp: iv_set_def fits_def)

text \<open>For a constant \<open>y\<close>, the interval is that of the numbers for which the predicate holds.\<close>

lemma branch_range_ok:
  assumes r: "iv_ok r" "y \<in> iv_set r" "iv_is_numeral r" and x: "fits x"
    and p: "pred_sem p x y = Some True \<or> p = FCMP_FALSE"
  shows "wp (branch_range p r) (\<lambda>m. case m of None \<Rightarrow> True | Some i \<Rightarrow> iv_ok i \<and> x \<in> iv_set i)"
proof -
  note b = iv_numeral_bounds[OF r]
  have one: "bi_ok (bi_fin 1)" "bi_val (bi_fin 1) = 1" by (simp_all add: fits_def)
  have gt: "wp (do { l \<leftarrow> iv_get_lb r; l \<leftarrow> bi_safeAdd l (bi_fin 1); r \<leftarrow> iv_make l plus_infinity; Some (Some r) })
      (\<lambda>m. case m of None \<Rightarrow> True | Some i \<Rightarrow> iv_ok i \<and> x \<in> iv_set i)" if "y < x"
  proof -
    have f: "fits (y + 1)" using b(6) x that by (simp add: fits_def)
    obtain l where l: "bi_safeAdd (iv_lb r) (bi_fin 1) = Some l" "bi_ok l" "bi_val l = y + 1"
      using bi_safeAdd_ok[OF b(1) one(1)] b(3,6) f one(2) unfolding wp_iff by (auto simp: fits_def)
    have "bi_val l < big" using f l(3) by (simp add: fits_def)
    from above_ok[OF l(2) this] show ?thesis using b(5) l x that by (auto simp: iv_get_lb_def wp_iff)
  qed
  have lt: "wp (do { u \<leftarrow> iv_get_ub r; u \<leftarrow> bi_sub u (bi_fin 1); r \<leftarrow> iv_make minus_infinity u; Some (Some r) })
      (\<lambda>m. case m of None \<Rightarrow> True | Some i \<Rightarrow> iv_ok i \<and> x \<in> iv_set i)" if "x < y"
  proof -
    have f: "fits (y - 1)" using b(6) x that by (simp add: fits_def)
    obtain u where u: "bi_sub (iv_ub r) (bi_fin 1) = Some u" "bi_ok u" "bi_val u = y - 1"
      using bi_sub_ok[OF b(2) one(1)] b(4,6) f one(2) unfolding wp_iff by (auto simp: fits_def)
    have "- big < bi_val u" using f u(3) by (simp add: fits_def)
    from below_ok[OF u(2) this] show ?thesis using b(5) u x that by (auto simp: iv_get_ub_def wp_iff)
  qed
  have ge: "wp (do { l \<leftarrow> iv_get_lb r; r \<leftarrow> iv_make l plus_infinity; Some (Some r) })
      (\<lambda>m. case m of None \<Rightarrow> True | Some i \<Rightarrow> iv_ok i \<and> x \<in> iv_set i)" if "y \<le> x"
    using above_ok[OF b(1)] b(3,5,6) x that by (auto simp: iv_get_lb_def wp_iff fits_def)
  have le: "wp (do { u \<leftarrow> iv_get_ub r; r \<leftarrow> iv_make minus_infinity u; Some (Some r) })
      (\<lambda>m. case m of None \<Rightarrow> True | Some i \<Rightarrow> iv_ok i \<and> x \<in> iv_set i)" if "x \<le> y"
    using below_ok[OF b(2)] b(4,5,6) x that by (auto simp: iv_get_ub_def wp_iff fits_def)
  show ?thesis
    using p gt lt ge le r(1,2) unfolding branch_range_def
    by (cases p) (simp_all add: pred_sem_def split: if_splits)
qed

text \<open>Objects that hold the value, or are not described, may be met with an interval that has it.\<close>

definition holds :: "(place \<rightharpoonup> cval) \<Rightarrow> int \<Rightarrow> address \<Rightarrow> bool" where
  "holds env x a \<longleftrightarrow> isVirtualMemAddress a \<and> (env (PMem (getInternalID a)) = None \<or> env (PMem (getInternalID a)) = Some (Num x))"

lemma meet_object_ok:
  assumes "st_ok s" "models s env" "iv_ok r" "x \<in> iv_set r" "holds env x a"
  shows "wp (meet_object r a s) (\<lambda>s'. st_ok s' \<and> models s' env \<and> as_vars s' = as_vars s)"
proof (cases "inAddrToValTable s (getInternalID a)")
  case True
  let ?o = "getInternalID a"
  have a: "isVirtualMemAddress a" using assms(5) by (simp add: holds_def)
  obtain s1 v where l: "as_load s a = Some (s1, v)" "st_ok s1" "st_gam s1 = st_gam s" "as_vars s1 = as_vars s"
      "v = am_get (as_mem s) ?o" "av_ok v"
    using as_load_ok[OF a assms(1)] unfolding wp_iff by auto
  have "av_ok (av_of_interval r)" using assms(3) by simp
  then obtain u where u: "av_meet_with v (av_of_interval r) = Some u" "av_ok u" "av_gam u = av_gam v \<inter> av_gam (av_of_interval r)"
    using av_meet_ok[OF l(6)] unfolding wp_iff by blast
  let ?s = "s1\<lparr>as_mem := aput ?o u (as_mem s1)\<rparr>"
  have m1: "models s1 env" by (rule models_gam[OF l(3) assms(2)])
  have "c \<in> av_gam u" if "env (PMem ?o) = Some c" for c
  proof -
    have "c = Num x" using that assms(5) by (simp add: holds_def)
    moreover have "c \<in> av_gam v" using models_mem[OF assms(2) that] l(5) by simp
    ultimately show ?thesis using u(3) assms(4) by simp
  qed
  then have "models ?s env" using m1 by (auto simp: models_def st_gam_def split: place.splits if_splits)
  moreover have "st_ok ?s" using l(2) u(2) by (simp add: st_ok_def am_ok_aput)
  ultimately show ?thesis using True l(1,4) u(1) by (simp add: meet_object_def Let_def)
qed (use assms in \<open>simp add: meet_object_def\<close>)

lemma meet_objects_ok:
  assumes "st_ok s" "models s env" "iv_ok r" "x \<in> iv_set r" "\<forall>a\<in>set as. holds env x a"
  shows "wp (foldM (meet_object r) as s) (\<lambda>s'. st_ok s' \<and> models s' env \<and> as_vars s' = as_vars s)"
  using assms(1,2,5)
proof (induction as arbitrary: s)
  case (Cons a as)
  obtain s1 where "meet_object r a s = Some s1" "st_ok s1" "models s1 env" "as_vars s1 = as_vars s"
    using meet_object_ok[OF Cons.prems(1,2) assms(3,4), of a] Cons.prems(3) unfolding wp_iff by auto
  then show ?case using Cons.IH[of s1] Cons.prems(3) by simp
qed simp

definition loaded :: "abstract_state \<Rightarrow> (place \<rightharpoonup> cval) \<Rightarrow> int \<Rightarrow> address option \<Rightarrow> bool" where
  "loaded s env x p \<longleftrightarrow> (\<forall>r. p = Some r \<longrightarrow> (\<forall>a\<in>targets s r. holds env x a))"

lemma refine_operand_ok:
  assumes s: "st_ok s" "models s env" "env (PVar op) = Some (Num x)" "loaded s env x p"
    and r: "iv_ok rhs" "y \<in> iv_set rhs" "iv_is_numeral rhs" "pred_sem q x y = Some True \<or> q = FCMP_FALSE"
  shows "wp (refine_operand p op rhs q s) (\<lambda>(b, s'). b \<and> st_ok s' \<and> models s' env)"
proof -
  define sa where "sa = (case p of
       Some r \<Rightarrow> if inVarToAddrsTable s r then (case as_index s r of (s', v) \<Rightarrow> (s', av_addrs v)) else (s, [])
     | None \<Rightarrow> (s, []))"
  obtain s1 as where sa': "sa = (s1, as)" by (cases sa)
  have s1: "st_ok s1 \<and> models s1 env \<and> (\<forall>a\<in>set as. holds env x a)"
  proof (cases p)
    case (Some r)
    obtain s' v where ix: "as_index s r = (s', v)" by (cases "as_index s r")
    show ?thesis
      using s sa' as_index_sound[OF s(1,2) ix] by (auto simp: sa_def Some ix loaded_def targets_def split: if_splits)
  qed (use s sa' in \<open>simp add: sa_def\<close>)
  have x: "fits x" using models_num[OF s(2,3)] by (simp add: mem_iv_set)
  obtain m where m: "branch_range q rhs = Some m" "case m of None \<Rightarrow> True | Some i \<Rightarrow> iv_ok i \<and> x \<in> iv_set i"
    using branch_range_ok[OF r(1-3) x r(4)] unfolding wp_iff by blast
  have eq: "refine_operand p op rhs q s = (case m of None \<Rightarrow> Some (True, s1) | Some i \<Rightarrow> do {
         t \<leftarrow> as_update_interval s1 op (\<lambda>j. iv_meet_with j i);
         t \<leftarrow> foldM (meet_object i) as t;
         Some (True, t) })"
    using sa' by (simp add: refine_operand_def m(1) flip: sa_def)
  show ?thesis
  proof (cases m)
    case None
    then show ?thesis using s1 by (simp add: eq)
  next
    case (Some i)
    have i: "iv_ok i" "x \<in> iv_set i" using m(2) Some by simp_all
    obtain t where t: "as_update_interval s1 op (\<lambda>j. iv_meet_with j i) = Some t" "st_ok t" "models t env"
      using as_update_interval_sound[of s1 env op "Num x" i] s1 s(3) i unfolding wp_iff by auto
    obtain u where "foldM (meet_object i) as t = Some u" "st_ok u" "models u env"
      using meet_objects_ok[OF t(2,3) i, of as] s1 unfolding wp_iff by blast
    then show ?thesis using t(1) by (simp add: eq Some)
  qed
qed

lemma loaded_index: "st_ok s \<Longrightarrow> as_index s i = (s', v) \<Longrightarrow> loaded s env x p \<Longrightarrow> loaded s' env x p"
  using same_state_index[of s i s' v] by (simp add: loaded_def targets_def same_state_def)

text \<open>The branch of a comparison that an environment takes is found feasible, and the new state still describes it.\<close>

lemma cmp_branch_sound:
  assumes s: "st_ok s" "models s env" "env (PVar op0) = Some (Num x)" "env (PVar op1) = Some (Num y)"
      "env (PVar res) = Some (Num (truth t))" "pred_sem p x y = Some t"
    and l: "loaded s env x (load_pointer ie op0)" "loaded s env y (load_pointer ie op1)"
  shows "wp (isCmpBranchFeasible ie p op0 op1 res (truth t) s) (\<lambda>(b, s'). b \<and> st_ok s' \<and> models s' env)"
proof (cases "inVarToAddrsTable s op0 \<or> inVarToAddrsTable s op1")
  case True
  then show ?thesis using s(1,2) by (simp add: isCmpBranchFeasible_def)
next
  case False
  obtain s1 r where rx: "as_index s res = (s1, r)" by (cases "as_index s res")
  note ri = as_index_sound[OF s(1,2) rx]
  obtain s2 v0 where vx: "as_index s1 op0 = (s2, v0)" by (cases "as_index s1 op0")
  note vi = as_index_sound[OF ri(1,2) vx]
  obtain s3 v1 where wx: "as_index s2 op1 = (s3, v1)" by (cases "as_index s2 op1")
  note wi = as_index_sound[OF vi(1,2) wx]
  have l3: "loaded s3 env z q" if "loaded s env z q" for z q
    using that loaded_index[OF s(1) rx] loaded_index[OF ri(1) vx] loaded_index[OF vi(1) wx] by blast
  have ft: "fits (truth t)" by (simp add: truth_def fits_def)
  obtain j where j: "iv_range (truth t) (truth t) = Some j" "iv_ok j" "iv_set j = {truth t}"
    using iv_range_ok[OF ft ft] unfolding wp_iff by auto
  have rr: "iv_ok (av_interval r)" "truth t \<in> iv_set (av_interval r)"
    using ri(3) models_num[OF s(2,5)] ri(4) by (simp_all add: av_ok_def)
  obtain m where m: "iv_meet_with (av_interval r) j = Some m" "iv_ok m" "iv_set m = iv_set (av_interval r) \<inter> iv_set j"
    using iv_meet_ok[OF rr(1) j(2)] unfolding wp_iff by blast
  have nb: "\<not> iv_isBottom m" using iv_mem_not_bottom[of "truth t" m] m rr(2) j(3) by simp
  have v0: "iv_ok (av_interval v0)" "x \<in> iv_set (av_interval v0)"
    using vi(3,4) ri(5) models_num[OF s(2,3)] by (simp_all add: av_ok_def)
  have v1: "iv_ok (av_interval v1)" "y \<in> iv_set (av_interval v1)"
    using wi(3,4) vi(5) ri(5) models_num[OF s(2,4)] by (simp_all add: av_ok_def)
  have sem: "pred_sem (if truth t = 0 then reverse_predicate q else q) a b = Some True \<or>
      (if truth t = 0 then reverse_predicate q else q) = FCMP_FALSE"
    if "pred_sem q a b = Some t \<or> q = FCMP_FALSE" for q a b
    using that reverse_predicate_sem[of q a b] by (cases t) (auto simp: truth_def reverse_predicate_def)
  let ?b0 = "iv_is_numeral (av_interval v0)" and ?b1 = "iv_is_numeral (av_interval v1)"
  consider "?b0 = ?b1" | "?b0" "\<not> ?b1" | "\<not> ?b0" "?b1" by blast
  then show ?thesis
  proof cases
    case 1
    then show ?thesis using False wi(1,2) nb j(1) m(1) by (simp add: isCmpBranchFeasible_def rx vx wx)
  next
    case 2
    have "wp (refine_operand (load_pointer ie op1) op1 (av_interval v0)
        (if truth t = 0 then reverse_predicate (switch_lhsrhs_predicate p) else switch_lhsrhs_predicate p) s3)
      (\<lambda>(b, s'). b \<and> st_ok s' \<and> models s' env)"
      using refine_operand_ok[OF wi(1,2) s(4) l3[OF l(2)] v0 2(1) sem] switch_predicate_sem[OF s(6)] by blast
    then show ?thesis using False nb j(1) m(1) 2 by (simp add: isCmpBranchFeasible_def rx vx wx)
  next
    case 3
    have "wp (refine_operand (load_pointer ie op0) op0 (av_interval v1)
        (if truth t = 0 then reverse_predicate p else p) s3) (\<lambda>(b, s'). b \<and> st_ok s' \<and> models s' env)"
      using refine_operand_ok[OF wi(1,2) s(3) l3[OF l(1)] v1 3(2) sem] s(6) by blast
    then show ?thesis using False nb j(1) m(1) 3 by (simp add: isCmpBranchFeasible_def rx vx wx)
  qed
qed

text \<open>A branch of a comparison that cannot have the outcome is infeasible.\<close>

lemma cmp_branch_infeasible:
  assumes "st_ok s" "\<not> inVarToAddrsTable s op0" "\<not> inVarToAddrsTable s op1" "fits n"
    and "n \<notin> iv_set (av_interval (am_get (as_vars s) res))"
  shows "isCmpBranchFeasible ie p op0 op1 res n s = Some (False, s)"
proof -
  obtain s1 r where rx: "as_index s res = (s1, r)" by (cases "as_index s res")
  have r: "iv_ok (av_interval r)" "n \<notin> iv_set (av_interval r)"
    using as_index_ok[OF rx assms(1)] assms(5) unfolding av_ok_def by blast+
  obtain j where j: "iv_range n n = Some j" "iv_ok j" "iv_set j = {n}"
    using iv_range_ok[OF assms(4,4)] unfolding wp_iff by auto
  obtain m where m: "iv_meet_with (av_interval r) j = Some m" "iv_ok m" "iv_set m = {}"
    using iv_meet_ok[OF r(1) j(2)] r(2) j(3) unfolding wp_iff by auto
  have "iv_isBottom m" using iv_set_nonempty m(2,3) by blast
  then show ?thesis using assms(2,3) j(1) m(1) by (simp add: isCmpBranchFeasible_def rx)
qed

text \<open>Switches.\<close>

definition targets_same :: "abstract_state \<Rightarrow> abstract_state \<Rightarrow> bool" where
  "targets_same s t \<longleftrightarrow> (\<forall>k. targets t k = targets s k)"

lemma targets_same_assign: "as_index s i = (s1, v) \<Longrightarrow> targets_same s (as_assign s1 i (v\<lparr>av_interval := j\<rparr>))"
  by (auto simp: targets_same_def targets_def as_index_def as_assign_def)

lemma switch_stmt_ok:
  assumes s: "st_ok s" "models s env" "env (PVar var) = Some (Num n)"
    and j: "iv_ok j" "n \<in> iv_set j" "iv_ok c" "n \<in> iv_set c"
    and l: "\<And>l r. st = SLoad l r \<Longrightarrow> \<forall>a\<in>targets s r. holds env n a"
  shows "wp (switch_stmt var j c st s) (\<lambda>t. st_ok t \<and> models t env \<and> targets_same s t)"
proof -
  have same: "targets_same s s" by (simp add: targets_same_def)
  have upd: "wp (as_update_interval s var (\<lambda>i. iv_meet_with i j)) (\<lambda>t. st_ok t \<and> models t env \<and> targets_same s t)"
  proof -
    obtain s1 v where ix: "as_index s var = (s1, v)" by (cases "as_index s var")
    obtain t where t: "as_update_interval s var (\<lambda>i. iv_meet_with i j) = Some t" "st_ok t" "models t env"
      using as_update_interval_sound[OF s j(1)] j(2) unfolding wp_iff by auto
    then obtain k where "t = as_assign s1 var (v\<lparr>av_interval := k\<rparr>)"
      by (auto simp: as_update_interval_def ix split: Option.bind_splits)
    then show ?thesis using t targets_same_assign[OF ix] by simp
  qed
  have load: "wp (switch_stmt var j c (SLoad l r) s) (\<lambda>t. st_ok t \<and> models t env \<and> targets_same s t)"
    if "st = SLoad l r" for l r
  proof (cases "inVarToAddrsTable s r")
    case True
    obtain s1 v where ix: "as_index s r = (s1, v)" by (cases "as_index s r")
    note i = as_index_sound[OF s(1,2) ix]
    have h: "\<forall>a\<in>set (av_addrs v). holds env n a" using l[OF that] i(4) by (simp add: targets_def)
    have "targets_same s s1" using i(5) by (simp add: targets_same_def targets_def)
    then show ?thesis
      using meet_objects_ok[OF i(1,2) j(3,4) h] True
      by (auto simp: switch_stmt_def ix targets_same_def targets_def elim!: wp_mono)
  qed (use s same in \<open>simp add: switch_stmt_def\<close>)
  show ?thesis
    using upd load s(1,2) same by (cases st) (auto simp: switch_stmt_def)
qed

lemma switch_branch_sound:
  assumes s: "st_ok s" "models s env" "env (PVar var) = Some (Num n)"
    and l: "\<forall>l r. SLoad l r \<in> set (ie var) \<longrightarrow> (\<forall>a\<in>targets s r. holds env n a)"
  shows "wp (isSwitchBranchFeasible ie var n s) (\<lambda>(b, s'). b \<and> st_ok s' \<and> models s' env)"
proof -
  obtain s1 v where ix: "as_index s var = (s1, v)" by (cases "as_index s var")
  note i = as_index_sound[OF s(1,2) ix]
  have v: "n \<in> iv_set (av_interval v)" "iv_ok (av_interval v)" "distinct (av_addrs v)"
    using models_num[OF s(2,3)] i(3,4) by (simp_all add: av_ok_def)
  have f: "fits n" using v(1) by (simp add: mem_iv_set)
  obtain j where j: "iv_range n n = Some j" "iv_ok j" "iv_set j = {n}"
    using iv_range_ok[OF f f] unfolding wp_iff by auto
  obtain c where c: "iv_meet_with (av_interval v) j = Some c" "iv_ok c" "iv_set c = iv_set (av_interval v) \<inter> iv_set j"
    using iv_meet_ok[OF v(2) j(2)] unfolding wp_iff by blast
  have n: "n \<in> iv_set c" "n \<in> iv_set j" using c(3) j(3) v(1) by simp_all
  then have nb: "\<not> iv_isBottom c" using iv_mem_not_bottom c(2) by blast
  let ?s = "as_assign s1 var (v\<lparr>av_interval := c\<rparr>)"
  have "env(PVar var \<mapsto> Num n) = env" using s(3) by (rule map_upd_triv)
  then have s': "st_ok ?s" "models ?s env" "targets_same s ?s"
    using assign_sound[OF i(1,2), of "v\<lparr>av_interval := c\<rparr>" "Num n" var] c(2) v(3) n(1) targets_same_assign[OF ix]
    by (simp_all add: av_ok_def)
  have "wp (foldM (switch_stmt var j c) (ie var) ?s) (\<lambda>t. st_ok t \<and> models t env \<and> targets_same s t)"
  proof (rule foldM_wp[where P = "\<lambda>_ t. st_ok t \<and> models t env \<and> targets_same s t"])
    fix ys st zs t
    assume st: "ie var = ys @ st # zs" and t: "st_ok t \<and> models t env \<and> targets_same s t"
    have "\<forall>a\<in>targets t r. holds env n a" if "st = SLoad l' r" for l' r
      using l that st t by (auto simp: targets_same_def)
    then show "wp (switch_stmt var j c st t) (\<lambda>t. st_ok t \<and> models t env \<and> targets_same s t)"
      using switch_stmt_ok[of t env var n j c st] t s(3) j(2) n c(2) by (auto simp: targets_same_def elim!: wp_mono)
  qed (use s' in simp)
  then show ?thesis using j(1) c(1) nb by (auto simp: isSwitchBranchFeasible_def ix wp_iff)
qed

text \<open>An environment takes the branch on \<open>var\<close> with the value \<open>n\<close>.\<close>

definition takes_branch :: "(address \<Rightarrow> stmt list) \<Rightarrow> (place \<rightharpoonup> cval) \<Rightarrow> address \<Rightarrow> int \<Rightarrow> bool" where
  "takes_branch ie env var n \<longleftrightarrow> (case ie var of
     SCmp p op0 op1 res # _ \<Rightarrow> \<exists>x y t. env (PVar op0) = Some (Num x) \<and> env (PVar op1) = Some (Num y) \<and>
       env (PVar res) = Some (Num (truth t)) \<and> pred_sem p x y = Some t \<and> n = truth t
   | _ \<Rightarrow> env (PVar var) = Some (Num n))"

text \<open>What the code takes for granted when it narrows objects: where the condition is on variables that have been
  loaded, every object that the pointer may target in the state holds the value of the variable, and not only the object
  that has been read. It holds of a pointer with one target that nobody has written since the load; without it the
  refinement is not sound (\<open>branch_narrows_all_objects\<close>).\<close>

definition all_targets_read :: "(address \<Rightarrow> stmt list) \<Rightarrow> abstract_state \<Rightarrow> (place \<rightharpoonup> cval) \<Rightarrow> address \<Rightarrow> bool" where
  "all_targets_read ie s env var \<longleftrightarrow> (case ie var of
     SCmp p op0 op1 res # _ \<Rightarrow> (\<forall>op\<in>{op0, op1}. \<forall>x. env (PVar op) = Some (Num x) \<longrightarrow> loaded s env x (load_pointer ie op))
   | _ \<Rightarrow> (\<forall>l r n. SLoad l r \<in> set (ie var) \<longrightarrow> env (PVar var) = Some (Num n) \<longrightarrow> (\<forall>a\<in>targets s r. holds env n a)))"

lemma branch_sound:
  assumes "st_ok s" "models s env" "takes_branch ie env var n" "all_targets_read ie s env var"
  shows "wp (isBranchFeasible ie var n s) (\<lambda>(b, s'). b \<and> st_ok s' \<and> models s' env)"
proof -
  consider p op0 op1 res rest where "ie var = SCmp p op0 op1 res # rest"
    | "isBranchFeasible ie var n s = isSwitchBranchFeasible ie var n s" "env (PVar var) = Some (Num n)"
      "\<forall>l r. SLoad l r \<in> set (ie var) \<longrightarrow> (\<forall>a\<in>targets s r. holds env n a)"
  proof (cases "ie var")
    case Nil
    then show ?thesis using that(2) assms(3) by (simp add: isBranchFeasible_def takes_branch_def)
  next
    case (Cons st rest)
    then show ?thesis using that assms(3,4)
      by (cases st) (auto simp: isBranchFeasible_def takes_branch_def all_targets_read_def)
  qed
  then show ?thesis
  proof cases
    case 1
    then show ?thesis using cmp_branch_sound[OF assms(1,2)] assms(3,4)
      by (auto simp: isBranchFeasible_def takes_branch_def all_targets_read_def)
  next
    case 2
    then show ?thesis using switch_branch_sound[OF assms(1,2)] by simp
  qed
qed

text \<open>With two objects the pointer may point to, both are narrowed, the one that has not been read as well: after the
  branch the second is at most four, though it may hold ten.\<close>

lemma branch_narrows_all_objects:
  "map_option (\<lambda>(b, s). (b, am_get (as_mem s) 2)) (isCmpBranchFeasible ((\<lambda>_. [])(2 := [SLoad 2 1])) ICMP_SLT 2 3 4 1
     \<lparr>as_vars = [(1, av_of_addrs [0x7f000001, 0x7f000002]), (2, av_of_interval \<lparr>iv_lb = bi_fin 0, iv_ub = bi_fin 10\<rparr>),
        (3, av_of_interval (iv_num 5)), (4, av_of_interval \<lparr>iv_lb = bi_fin 0, iv_ub = bi_fin 1\<rparr>)],
      as_mem = [(1, av_of_interval \<lparr>iv_lb = bi_fin 0, iv_ub = bi_fin 10\<rparr>), (2, av_of_interval (iv_num 10))]\<rparr>) =
   Some (True, av_of_interval iv_bottom)"
  by code_simp

text \<open>A predicate that is not in the table of the reversed ones is not used: the branch in which \<open>x <= 5\<close> is false
  says nothing about \<open>x\<close>.\<close>

lemma reverse_sle_missing: "reverse_predicate ICMP_SLE = FCMP_FALSE" "reverse_predicate ICMP_ULE = FCMP_FALSE"
  by (simp_all add: reverse_predicate_def)

end
