(* ===== verification/Weak_Order.thy ===== *)
theory Weak_Order
  imports SVF_Prelude "HOL-Library.Sublist"
begin

text \<open>
  Weak topological orders: \<^verbatim>\<open>svf/include/Graphs/WTO.h\<close> and, for the control-flow graph,
  \<^verbatim>\<open>svf/include/AE/Core/ICFGWTO.h\<close>. A graph is given by the function \<open>S\<close> that lists the
  successors of a node in the order of \<^verbatim>\<open>forEachSuccessor\<close>; nodes are their numbers. A component is a value, the
  stack has its top first. The recursion of \<open>visit\<close> may not end on an infinite graph, so it is a partial function;
  \<open>visit_ok\<close> shows that it returns on finite ones, and what.
\<close>

subsection \<open>The depth of a node in cycles\<close>

text \<open>\<^verbatim>\<open>WTOCycleDepth\<close>: the heads of the cycles around a node, from the outermost.\<close>

type_synonym cycle_depth = "nat list"

definition cd_add :: "nat \<Rightarrow> cycle_depth \<Rightarrow> cycle_depth" where
  "cd_add head d = d @ [head]"

fun cd_common :: "cycle_depth \<Rightarrow> cycle_depth \<Rightarrow> cycle_depth" where
  "cd_common (a # this) (b # other) = (if a = b then a # cd_common this other else [])"
| "cd_common _ _ = []"

fun cd_compare :: "cycle_depth \<Rightarrow> cycle_depth \<Rightarrow> int" where
  "cd_compare [] [] = 0"
| "cd_compare [] (b # other) = -1"
| "cd_compare (a # this) [] = 1"
| "cd_compare (a # this) (b # other) = (if a = b then cd_compare this other else 2)"

definition cd_less :: "cycle_depth \<Rightarrow> cycle_depth \<Rightarrow> bool" where
  "cd_less a b \<longleftrightarrow> cd_compare a b = -1"

definition cd_le :: "cycle_depth \<Rightarrow> cycle_depth \<Rightarrow> bool" where
  "cd_le a b \<longleftrightarrow> cd_compare a b \<le> 0"

definition cd_eq :: "cycle_depth \<Rightarrow> cycle_depth \<Rightarrow> bool" where
  "cd_eq a b \<longleftrightarrow> cd_compare a b = 0"

definition cd_greater :: "cycle_depth \<Rightarrow> cycle_depth \<Rightarrow> bool" where
  "cd_greater a b \<longleftrightarrow> cd_compare a b = 1"

subsection \<open>Components and the state of the construction\<close>

datatype wto_comp = Singleton nat | Cycle nat "wto_comp list"

record wto =
  wt_components :: "wto_comp list"
  wt_heads :: "(nat \<times> wto_comp) list"
  wt_depth :: "(nat \<times> cycle_depth) list"
  wt_cdn :: "(nat \<times> 32 word) list"
  wt_num :: "32 word"
  wt_stack :: "nat list"

definition wto_new :: wto where
  "wto_new = \<lparr>wt_components = [], wt_heads = [], wt_depth = [], wt_cdn = [], wt_num = 0, wt_stack = []\<rparr>"

definition isHead :: "nat \<Rightarrow> wto \<Rightarrow> bool" where
  "isHead n w \<longleftrightarrow> ahas (wt_heads w) n"

definition cycleDepth :: "nat \<Rightarrow> wto \<Rightarrow> cycle_depth option" where
  "cycleDepth n w = map_of (wt_depth w) n"

definition in_cycleDepth_table :: "nat \<Rightarrow> wto \<Rightarrow> bool" where
  "in_cycleDepth_table n w \<longleftrightarrow> ahas (wt_depth w) n"

definition getCDN :: "wto \<Rightarrow> nat \<Rightarrow> 32 word" where
  "getCDN w n = aget 0 (wt_cdn w) n"

definition setCDN :: "nat \<Rightarrow> 32 word \<Rightarrow> wto \<Rightarrow> wto" where
  "setCDN n dfn w = w\<lparr>wt_cdn := aput n dfn (wt_cdn w)\<rparr>"

definition wt_pop :: "wto \<Rightarrow> (nat \<times> wto) option" where
  "wt_pop w = (case wt_stack w of [] \<Rightarrow> None | n # st \<Rightarrow> Some (n, w\<lparr>wt_stack := st\<rparr>))"

definition wt_push :: "nat \<Rightarrow> wto \<Rightarrow> wto" where
  "wt_push n w = w\<lparr>wt_stack := n # wt_stack w\<rparr>"

subsection \<open>The construction\<close>

type_synonym visitor = "nat \<Rightarrow> wto_comp list \<Rightarrow> wto \<Rightarrow> (32 word \<times> wto_comp list \<times> wto) option"

text \<open>The body of the loop over the successors in \<open>visit\<close>, and that in \<open>component\<close>; \<open>vis\<close> is \<open>visit\<close>.\<close>

definition visit_successor ::
  "visitor \<Rightarrow> nat \<Rightarrow> 32 word \<times> bool \<times> wto_comp list \<times> wto \<Rightarrow> (32 word \<times> bool \<times> wto_comp list \<times> wto) option" where
  "visit_successor vis succ = (\<lambda>(head, loop, part, w). do {
     let succ_dfn = getCDN w succ;
     (m, part, w) \<leftarrow> (if succ_dfn = 0 then vis succ part w else Some (succ_dfn, part, w));
     Some (if m \<le> head then (m, True, part, w) else (head, loop, part, w)) })"

definition component_successor :: "visitor \<Rightarrow> nat \<Rightarrow> wto_comp list \<times> wto \<Rightarrow> (wto_comp list \<times> wto) option" where
  "component_successor vis succ = (\<lambda>(part, w).
     if getCDN w succ = 0 then do { r \<leftarrow> vis succ part w; Some (snd r) } else Some (part, w))"

definition component :: "visitor \<Rightarrow> (nat \<Rightarrow> nat list) \<Rightarrow> nat \<Rightarrow> wto \<Rightarrow> (wto_comp \<times> wto) option" where
  "component vis S node w = do {
     (part, w) \<leftarrow> foldM (component_successor vis) (S node) ([], w);
     let c = Cycle node part;
     Some (c, if ahas (wt_heads w) node then w else w\<lparr>wt_heads := aput node c (wt_heads w)\<rparr>) }"

text \<open>The elements above a node are taken off the stack and may be visited again.\<close>

fun unwind :: "nat \<Rightarrow> nat \<Rightarrow> nat list \<Rightarrow> wto \<Rightarrow> wto option" where
  "unwind node element [] w = (if element = node then Some (w\<lparr>wt_stack := []\<rparr>) else None)"
| "unwind node element (x # st) w =
     (if element = node then Some (w\<lparr>wt_stack := x # st\<rparr>) else unwind node x st (setCDN element 0 w))"

lemma visit_successor_mono [partial_function_mono]:
  assumes "\<And>n p w. mono_option (\<lambda>f. V f n p w)"
  shows "mono_option (\<lambda>f. visit_successor (V f) x s)"
  unfolding visit_successor_def by (cases s) (auto intro!: partial_function_mono assms simp: Let_def)

lemma component_mono [partial_function_mono]:
  assumes "\<And>n p w. mono_option (\<lambda>f. V f n p w)"
  shows "mono_option (\<lambda>f. component (V f) S x w)"
proof -
  have "mono_option (\<lambda>f. component_successor (V f) y s)" for y s
    unfolding component_successor_def by (cases s) (auto intro!: partial_function_mono assms)
  then show ?thesis unfolding component_def by (intro partial_function_mono)
qed

partial_function (option) visit :: "(nat \<Rightarrow> nat list) \<Rightarrow> visitor" where
  "visit S node part w = do {
     let w = wt_push node w;
     let w = w\<lparr>wt_num := wt_num w + 1\<rparr>;
     let head = wt_num w;
     let w = setCDN node head w;
     (head, loop, part, w) \<leftarrow> foldM (visit_successor (visit S)) (S node) (head, False, part, w);
     if head = getCDN w node then do {
       let w = setCDN node (-1) w;
       (element, w) \<leftarrow> wt_pop w;
       if loop then do {
         w \<leftarrow> unwind node element (wt_stack w) w;
         (c, w) \<leftarrow> component (visit S) S node w;
         Some (head, c # part, w) }
       else Some (head, Singleton node # part, w) }
     else Some (head, part, w) }"

text \<open>\<^verbatim>\<open>WTOCycleDepthBuilder\<close>: \<^verbatim>\<open>insert\<close> keeps an entry that is there already.\<close>

fun build_depth :: "wto_comp \<Rightarrow> cycle_depth \<Rightarrow> (nat \<times> cycle_depth) list \<Rightarrow> (nat \<times> cycle_depth) list" where
  "build_depth (Singleton n) d m = (if ahas m n then m else aput n d m)"
| "build_depth (Cycle h cs) d m =
     fold (\<lambda>c. build_depth c (cd_add h d)) cs (if ahas m h then m else aput h d m)"

definition buildNodeToDepth :: "wto \<Rightarrow> wto" where
  "buildNodeToDepth w = w\<lparr>wt_depth := fold (\<lambda>c. build_depth c []) (wt_components w) (wt_depth w)\<rparr>"

definition wto_init :: "(nat \<Rightarrow> nat list) \<Rightarrow> nat \<Rightarrow> wto \<Rightarrow> wto option" where
  "wto_init S entry w = do {
     (_, cs, w) \<leftarrow> visit S entry (wt_components w) w;
     Some (buildNodeToDepth (w\<lparr>wt_components := cs, wt_cdn := [], wt_stack := []\<rparr>)) }"

subsection \<open>What a weak topological order is\<close>

text \<open>The nodes of components in their order, and the cycles in them.\<close>

fun comp_nodes :: "wto_comp \<Rightarrow> nat list" and nodes_of :: "wto_comp list \<Rightarrow> nat list" where
  "comp_nodes (Singleton n) = [n]"
| "comp_nodes (Cycle h cs) = h # nodes_of cs"
| "nodes_of [] = []"
| "nodes_of (c # cs) = comp_nodes c @ nodes_of cs"

fun comp_cycles :: "wto_comp \<Rightarrow> (nat \<times> wto_comp) list" and cycles_of :: "wto_comp list \<Rightarrow> (nat \<times> wto_comp) list" where
  "comp_cycles (Singleton n) = []"
| "comp_cycles (Cycle h cs) = (h, Cycle h cs) # cycles_of cs"
| "cycles_of [] = []"
| "cycles_of (c # cs) = comp_cycles c @ cycles_of cs"

lemma nodes_of_append [simp]: "nodes_of (cs @ ds) = nodes_of cs @ nodes_of ds"
  by (induction cs) simp_all

lemma cycles_of_append [simp]: "cycles_of (cs @ ds) = cycles_of cs @ cycles_of ds"
  by (induction cs) simp_all

text \<open>An edge between two of the nodes leads forward, or back to the head of a cycle around its source.\<close>

definition weak_order :: "(nat \<Rightarrow> nat list) \<Rightarrow> wto_comp list \<Rightarrow> bool" where
  "weak_order S cs \<longleftrightarrow> (\<forall>u\<in>set (nodes_of cs). \<forall>x\<in>set (S u). x \<in> set (nodes_of cs) \<longrightarrow>
     precedes (nodes_of cs) u x \<or> (\<exists>c. (x, c) \<in> set (cycles_of cs) \<and> u \<in> set (comp_nodes c)))"

lemma weak_order_Nil [simp]: "weak_order S []"
  by (simp add: weak_order_def)

lemma weak_order_append:
  assumes "weak_order S cs" "weak_order S ds"
    and "\<And>u x. u \<in> set (nodes_of ds) \<Longrightarrow> x \<in> set (S u) \<Longrightarrow> x \<notin> set (nodes_of cs)"
  shows "weak_order S (cs @ ds)"
  unfolding weak_order_def
proof (intro ballI impI)
  fix u x assume u: "u \<in> set (nodes_of (cs @ ds))" and x: "x \<in> set (S u)" "x \<in> set (nodes_of (cs @ ds))"
  consider "u \<in> set (nodes_of cs)" "x \<in> set (nodes_of cs)" | "u \<in> set (nodes_of cs)" "x \<in> set (nodes_of ds)" | "u \<in> set (nodes_of ds)" "x \<in> set (nodes_of ds)"
    using assms(3)[of u x] u x by auto
  then show "precedes (nodes_of (cs @ ds)) u x \<or> (\<exists>c. (x, c) \<in> set (cycles_of (cs @ ds)) \<and> u \<in> set (comp_nodes c))"
  proof cases
    case 1
    then show ?thesis
      using assms(1) x(1) precedes_append1[of "nodes_of cs" u x "nodes_of ds"] unfolding weak_order_def nodes_of_append cycles_of_append set_append by blast
  next
    case 2
    then show ?thesis using precedes_parts[of u "nodes_of cs" x "nodes_of ds"] by simp
  next
    case 3
    then show ?thesis
      using assms(2) x(1) precedes_append2[of "nodes_of ds" u x "nodes_of cs"] unfolding weak_order_def nodes_of_append cycles_of_append set_append by blast
  qed
qed

lemma weak_order_singleton:
  assumes "n \<notin> set (S n)"
  shows "weak_order S [Singleton n]"
  using assms by (simp add: weak_order_def)

lemma weak_order_cycle:
  assumes "weak_order S cs"
  shows "weak_order S [Cycle h cs]"
  unfolding weak_order_def
proof (intro ballI impI)
  fix u x assume u: "u \<in> set (nodes_of [Cycle h cs])" and x: "x \<in> set (S u)" "x \<in> set (nodes_of [Cycle h cs])"
  show "precedes (nodes_of [Cycle h cs]) u x \<or> (\<exists>c. (x, c) \<in> set (cycles_of [Cycle h cs]) \<and> u \<in> set (comp_nodes c))"
  proof (cases "x = h")
    case True
    have "(x, Cycle h cs) \<in> set (cycles_of [Cycle h cs])" "u \<in> set (comp_nodes (Cycle h cs))" using u True by simp_all
    then show ?thesis by blast
  next
    case False
    then have x': "x \<in> set (nodes_of cs)" using x by simp
    show ?thesis
    proof (cases "u = h")
      case True
      then show ?thesis using precedes_parts[of u "[h]" x "nodes_of cs"] x' by simp
    next
      case False
      then have "u \<in> set (nodes_of cs)" using u by simp
      then show ?thesis using assms x(1) x' precedes_append2[of "nodes_of cs" u x "[h]"] by (fastforce simp: weak_order_def)
    qed
  qed
qed

subsection \<open>The invariant of the construction\<close>

abbreviation limit :: nat where
  "limit \<equiv> 4294967295"

definition dn :: "wto \<Rightarrow> nat \<Rightarrow> nat" where
  "dn w n = unat (getCDN w n)"

text \<open>Nodes that are in a component have the largest number; the others that have been visited are on the stack.\<close>

definition placed :: "wto \<Rightarrow> nat set" where
  "placed w = {n. dn w n = limit}"

definition potential :: "nat set \<Rightarrow> wto \<Rightarrow> nat" where
  "potential N w = card {n \<in> N. dn w n = 0} + (\<Sum>i<card (N - placed w). i)"

text \<open>\<open>H\<close> are the heads of the cycles under construction: only they may have successors that are not in a component.\<close>

definition wt_inv :: "(nat \<Rightarrow> nat list) \<Rightarrow> nat set \<Rightarrow> nat set \<Rightarrow> wto \<Rightarrow> bool" where
  "wt_inv S N H w \<longleftrightarrow> (\<forall>n\<in>N. set (S n) \<subseteq> N) \<and>
     (\<forall>n. n \<in> set (wt_stack w) \<longleftrightarrow> 0 < dn w n \<and> dn w n < limit) \<and>
     sorted_wrt (\<lambda>a b. dn w b < dn w a) (wt_stack w) \<and>
     (\<forall>n\<in>set (wt_stack w). dn w n \<le> unat (wt_num w)) \<and>
     (\<forall>n. dn w n \<noteq> 0 \<longrightarrow> n \<in> N) \<and>
     H \<subseteq> placed w \<and> (\<forall>u\<in>placed w - H. set (S u) \<subseteq> placed w) \<and>
     (\<forall>k c. map_of (wt_heads w) k = Some c \<longrightarrow> k \<in> placed w)"

text \<open>From a state to a later one: components \<open>cs\<close> have been made and nodes \<open>G\<close> left on the stack.\<close>

definition wt_run :: "(nat \<Rightarrow> nat list) \<Rightarrow> nat set \<Rightarrow> nat set \<Rightarrow> wto \<Rightarrow> wto \<Rightarrow> wto_comp list \<Rightarrow> nat list \<Rightarrow> bool" where
  "wt_run S N H w w' cs G \<longleftrightarrow> wt_inv S N H w' \<and>
     unat (wt_num w) \<le> unat (wt_num w') \<and> unat (wt_num w') + potential N w' \<le> unat (wt_num w) + potential N w \<and>
     wt_stack w' = G @ wt_stack w \<and>
     (\<forall>n. dn w n \<noteq> 0 \<longrightarrow> dn w' n = dn w n) \<and>
     distinct (nodes_of cs) \<and> set (nodes_of cs) = placed w' - placed w \<and> weak_order S cs \<and>
     (\<forall>u\<in>set G. \<forall>x\<in>set (S u). dn w' x \<noteq> 0) \<and>
     (\<forall>k c. map_of (wt_heads w') k = Some c \<longleftrightarrow> map_of (wt_heads w) k = Some c \<or> (k, c) \<in> set (cycles_of cs)) \<and>
     wt_components w' = wt_components w \<and> wt_depth w' = wt_depth w"

text \<open>What \<open>visit\<close> of \<open>v\<close> with result \<open>h\<close> promises.\<close>

definition reaches_back :: "(nat \<Rightarrow> nat list) \<Rightarrow> wto \<Rightarrow> nat list \<Rightarrow> nat \<Rightarrow> bool" where
  "reaches_back S w G h \<longleftrightarrow>
     (\<forall>u\<in>set G. \<forall>x\<in>set (S u) \<inter> set (wt_stack w). h \<le> dn w x) \<and>
     (\<exists>u\<in>set G. \<exists>x\<in>set (S u) \<inter> set (wt_stack w). dn w x = h)"

definition visited_within :: "(nat \<Rightarrow> nat list) \<Rightarrow> nat set \<Rightarrow> wto \<Rightarrow> wto \<Rightarrow> bool" where
  "visited_within S ys w w' \<longleftrightarrow> (\<forall>X. (\<forall>y\<in>ys. dn w y = 0 \<longrightarrow> y \<in> X) \<longrightarrow> (\<forall>u\<in>X. \<forall>x\<in>set (S u). dn w x = 0 \<longrightarrow> x \<in> X) \<longrightarrow>
     (\<forall>n. dn w n = 0 \<and> dn w' n \<noteq> 0 \<longrightarrow> n \<in> X))"

definition visit_post ::
  "(nat \<Rightarrow> nat list) \<Rightarrow> nat set \<Rightarrow> nat set \<Rightarrow> nat \<Rightarrow> wto_comp list \<Rightarrow> wto \<Rightarrow> 32 word \<times> wto_comp list \<times> wto \<Rightarrow> bool" where
  "visit_post S N H v part w = (\<lambda>(h, part', w'). \<exists>cs G. part' = cs @ part \<and> wt_run S N H w w' cs G \<and> dn w' v \<noteq> 0 \<and>
     (if G = [] then \<forall>x\<in>set (wt_stack w). dn w x < unat h else reaches_back S w G (unat h)) \<and>
     visited_within S {v} w w')"

lemma dn_simps [simp]:
  "dn (setCDN n d w) k = (if k = n then unat d else dn w k)"
  "dn (wt_push n w) k = dn w k"
  "dn (w\<lparr>wt_num := x\<rparr>) k = dn w k" "dn (w\<lparr>wt_stack := st\<rparr>) k = dn w k" "dn (w\<lparr>wt_heads := hs\<rparr>) k = dn w k"
  "wt_stack (setCDN n d w) = wt_stack w" "wt_num (setCDN n d w) = wt_num w" "wt_heads (setCDN n d w) = wt_heads w"
  "wt_components (setCDN n d w) = wt_components w" "wt_depth (setCDN n d w) = wt_depth w"
  "wt_stack (wt_push n w) = n # wt_stack w" "wt_num (wt_push n w) = wt_num w" "wt_heads (wt_push n w) = wt_heads w"
  "wt_components (wt_push n w) = wt_components w" "wt_depth (wt_push n w) = wt_depth w"
  by (auto simp: dn_def getCDN_def setCDN_def wt_push_def)

lemma dn_0_iff: "getCDN w n = 0 \<longleftrightarrow> dn w n = 0"
  by (simp add: dn_def unat_eq_0)

lemma dn_le: "dn w n \<le> limit"
  using unsigned_less[of "getCDN w n", where 'a = nat] by (simp add: dn_def)

lemma unat_UINT_MAX [simp]: "unat (-1 :: 32 word) = limit"
  by (simp add: unsigned_minus_1_eq_mask mask_eq_exp_minus_1)

lemma placed_simps [simp]:
  "placed (w\<lparr>wt_num := x\<rparr>) = placed w" "placed (w\<lparr>wt_stack := st\<rparr>) = placed w" "placed (w\<lparr>wt_heads := hs\<rparr>) = placed w"
  by (simp_all add: placed_def)

lemma wt_invD:
  assumes "wt_inv S N H w"
  shows "n \<in> N \<Longrightarrow> set (S n) \<subseteq> N" "n \<in> set (wt_stack w) \<longleftrightarrow> 0 < dn w n \<and> dn w n < limit"
    "sorted_wrt (\<lambda>a b. dn w b < dn w a) (wt_stack w)" "n \<in> set (wt_stack w) \<Longrightarrow> dn w n \<le> unat (wt_num w)"
    "dn w n \<noteq> 0 \<Longrightarrow> n \<in> N" "H \<subseteq> placed w" "n \<in> placed w \<Longrightarrow> n \<notin> H \<Longrightarrow> set (S n) \<subseteq> placed w"
    "map_of (wt_heads w) n = Some c \<Longrightarrow> n \<in> placed w"
  using assms unfolding wt_inv_def by blast+

lemma wt_inv_finite_stack:
  assumes "wt_inv S N H w"
  shows "dn w n \<noteq> 0 \<longleftrightarrow> n \<in> set (wt_stack w) \<or> n \<in> placed w"
  using wt_invD(2)[OF assms, of n] dn_le[of w n] by (auto simp: placed_def)

lemma wt_run_refl: "wt_inv S N H w \<Longrightarrow> wt_run S N H w w [] []"
  by (simp add: wt_run_def)

lemma wt_run_placed: "wt_run S N H w w' cs G \<Longrightarrow> placed w \<subseteq> placed w'"
  by (auto simp: wt_run_def placed_def)

lemma wt_run_trans:
  assumes a: "wt_run S N H w w1 cs G" and b: "wt_run S N H w1 w2 ds K" and H: "H \<subseteq> placed w"
  shows "wt_run S N H w w2 (ds @ cs) (K @ G)"
proof -
  have p: "placed w \<subseteq> placed w1" "placed w1 \<subseteq> placed w2" using a b wt_run_placed by blast+
  have n: "set (nodes_of cs) = placed w1 - placed w" "set (nodes_of ds) = placed w2 - placed w1"
    using a b by (simp_all add: wt_run_def)
  have closed: "set (S u) \<subseteq> placed w1" if "u \<in> set (nodes_of cs)" for u
  proof -
    have "u \<in> placed w1 - H" using that n H by auto
    then show ?thesis using a unfolding wt_run_def wt_inv_def by blast
  qed
  have "x \<notin> set (nodes_of ds)" if "u \<in> set (nodes_of cs)" "x \<in> set (S u)" for u x
    using closed[OF that(1)] that(2) n(2) by blast
  moreover have "weak_order S cs" "weak_order S ds" using a b by (simp_all add: wt_run_def)
  ultimately have "weak_order S (ds @ cs)" using weak_order_append[of S ds cs] by blast
  moreover have "distinct (nodes_of (ds @ cs))" "set (nodes_of (ds @ cs)) = placed w2 - placed w"
    using a b n p by (auto simp: wt_run_def)
  moreover have "dn w2 n = dn w n" if "dn w n \<noteq> 0" for n
    using a b that unfolding wt_run_def by metis
  moreover have "dn w2 x \<noteq> 0" if "u \<in> set (K @ G)" "x \<in> set (S u)" for u x
  proof (cases "u \<in> set K")
    case False
    then have "dn w1 x \<noteq> 0" using a that by (auto simp: wt_run_def)
    then show ?thesis using b unfolding wt_run_def by metis
  qed (use b that in \<open>auto simp: wt_run_def\<close>)
  ultimately show ?thesis using a b unfolding wt_run_def by auto
qed

subsection \<open>Entering a node\<close>

definition enter :: "nat \<Rightarrow> wto \<Rightarrow> wto" where
  "enter v w = setCDN v (wt_num w + 1) ((wt_push v w)\<lparr>wt_num := wt_num w + 1\<rparr>)"

lemma enter_ok:
  assumes i: "wt_inv S N H w" and v: "v \<in> N" "dn w v = 0" and N: "finite N" and b: "unat (wt_num w) + potential N w < limit"
  shows "wt_inv S N H (enter v w)" "unat (wt_num (enter v w)) = unat (wt_num w) + 1"
    "potential N (enter v w) + 1 = potential N w" "wt_stack (enter v w) = v # wt_stack w"
    "\<And>n. dn (enter v w) n = (if n = v then unat (wt_num w) + 1 else dn w n)" "placed (enter v w) = placed w"
    "\<And>x. x \<in> set (wt_stack w) \<Longrightarrow> dn w x < unat (wt_num w) + 1" "unat (wt_num w) + 1 < limit"
    "wt_heads (enter v w) = wt_heads w" "wt_components (enter v w) = wt_components w" "wt_depth (enter v w) = wt_depth w"
proof -
  have "v \<in> {n \<in> N. dn w n = 0}" using v by simp
  then have c: "card {n \<in> N. dn w n = 0} = Suc (card ({n \<in> N. dn w n = 0} - {v}))"
    using N by (intro card.remove) auto
  then show l: "unat (wt_num w) + 1 < limit" using b by (simp add: potential_def)
  then have u: "unat (wt_num w + 1) = unat (wt_num w) + 1"
    by (subst unat_add_lem[THEN iffD1]) auto
  then show n: "unat (wt_num (enter v w)) = unat (wt_num w) + 1" by (simp add: enter_def)
  show dn': "dn (enter v w) n = (if n = v then unat (wt_num w) + 1 else dn w n)" for n
    using u by (simp add: enter_def)
  show p: "placed (enter v w) = placed w" using dn' l v by (auto simp: placed_def)
  have "{n \<in> N. dn (enter v w) n = 0} = {n \<in> N. dn w n = 0} - {v}" using dn' by auto
  then show "potential N (enter v w) + 1 = potential N w" using c p by (simp add: potential_def)
  show s: "wt_stack (enter v w) = v # wt_stack w" "wt_heads (enter v w) = wt_heads w" "wt_components (enter v w) = wt_components w"
    "wt_depth (enter v w) = wt_depth w" by (simp_all add: enter_def)
  show st: "x \<in> set (wt_stack w) \<Longrightarrow> dn w x < unat (wt_num w) + 1" for x using wt_invD(4)[OF i, of x] by simp
  show "wt_inv S N H (enter v w)"
    unfolding wt_inv_def p n s
  proof (intro conjI)
    show "\<forall>m. m \<in> set (v # wt_stack w) \<longleftrightarrow> 0 < dn (enter v w) m \<and> dn (enter v w) m < limit"
      using wt_invD(2)[OF i] v(2) l by (auto simp: dn')
    show "sorted_wrt (\<lambda>a b. dn (enter v w) b < dn (enter v w) a) (v # wt_stack w)"
    proof -
      have "v \<notin> set (wt_stack w)" using wt_invD(2)[OF i] v(2) by simp
      then have "sorted_wrt (\<lambda>a b. dn (enter v w) b < dn (enter v w) a) (wt_stack w)"
        by (intro sorted_wrt_mono_rel[OF _ wt_invD(3)[OF i]]) (auto simp: dn')
      then show ?thesis using st \<open>v \<notin> set (wt_stack w)\<close> by (auto simp: dn')
    qed
    show "\<forall>m\<in>set (v # wt_stack w). dn (enter v w) m \<le> unat (wt_num w) + 1" using st by (auto simp: dn' less_imp_le)
    show "\<forall>m. dn (enter v w) m \<noteq> 0 \<longrightarrow> m \<in> N" using wt_invD(5)[OF i] v by (auto simp: dn')
  qed (use i in \<open>unfold wt_inv_def, blast+\<close>)
qed

lemma wt_runD:
  assumes "wt_run S N H w w' cs G"
  shows "wt_inv S N H w'" "unat (wt_num w) \<le> unat (wt_num w')" "unat (wt_num w') + potential N w' \<le> unat (wt_num w) + potential N w"
    "wt_stack w' = G @ wt_stack w" "dn w n \<noteq> 0 \<Longrightarrow> dn w' n = dn w n" "dn w' n = 0 \<Longrightarrow> dn w n = 0"
    "distinct (nodes_of cs)" "set (nodes_of cs) = placed w' - placed w" "weak_order S cs"
    "u \<in> set G \<Longrightarrow> x \<in> set (S u) \<Longrightarrow> dn w' x \<noteq> 0"
    "map_of (wt_heads w') k = Some c \<longleftrightarrow> map_of (wt_heads w) k = Some c \<or> (k, c) \<in> set (cycles_of cs)"
    "wt_components w' = wt_components w" "wt_depth w' = wt_depth w" "potential N w' \<le> potential N w"
proof -
  show "dn w' n = 0 \<Longrightarrow> dn w n = 0" using assms unfolding wt_run_def by metis
  show "potential N w' \<le> potential N w" using assms by (simp add: wt_run_def)
qed (use assms in \<open>unfold wt_run_def, blast+\<close>)

lemma visited_withinD:
  assumes "visited_within S ys w w'" "\<And>y. y \<in> ys \<Longrightarrow> dn w y = 0 \<Longrightarrow> y \<in> X"
    "\<And>u x. u \<in> X \<Longrightarrow> x \<in> set (S u) \<Longrightarrow> dn w x = 0 \<Longrightarrow> x \<in> X" "dn w n = 0" "dn w' n \<noteq> 0"
  shows "n \<in> X"
  using assms(1)[unfolded visited_within_def, rule_format, of X n] assms(2-5) by blast

lemma visited_within_mono: "visited_within S A w w' \<Longrightarrow> A \<subseteq> B \<Longrightarrow> visited_within S B w w'"
  unfolding visited_within_def by (meson subsetD)

lemma visited_within_trans:
  assumes "visited_within S A w w1" "visited_within S {y} w1 w2" "\<And>n. dn w1 n = 0 \<Longrightarrow> dn w n = 0"
  shows "visited_within S (insert y A) w w2"
  unfolding visited_within_def
proof (intro allI impI)
  fix X n assume X: "\<forall>y\<in>insert y A. dn w y = 0 \<longrightarrow> y \<in> X" "\<forall>u\<in>X. \<forall>x\<in>set (S u). dn w x = 0 \<longrightarrow> x \<in> X"
    and n: "dn w n = 0 \<and> dn w2 n \<noteq> 0"
  show "n \<in> X"
  proof (cases "dn w1 n = 0")
    case True
    have "\<forall>y\<in>{y}. dn w1 y = 0 \<longrightarrow> y \<in> X" "\<forall>u\<in>X. \<forall>x\<in>set (S u). dn w1 x = 0 \<longrightarrow> x \<in> X" using X assms(3) by auto
    then show ?thesis using assms(2) True n unfolding visited_within_def by blast
  next
    case False
    have "\<forall>y\<in>A. dn w y = 0 \<longrightarrow> y \<in> X" using X by blast
    then show ?thesis using assms(1) X(2) n False unfolding visited_within_def by blast
  qed
qed

text \<open>The loop over the successors of \<open>v\<close>, where \<open>st\<close> is the stack below \<open>v\<close>.\<close>

abbreviation leads_to :: "(nat \<Rightarrow> nat list) \<Rightarrow> nat list \<Rightarrow> nat list \<Rightarrow> nat \<Rightarrow> bool" where
  "leads_to S ys G x \<equiv> x \<in> set ys \<or> (\<exists>u\<in>set G. x \<in> set (S u))"

definition loop_inv ::
  "(nat \<Rightarrow> nat list) \<Rightarrow> nat set \<Rightarrow> nat set \<Rightarrow> nat \<Rightarrow> nat list \<Rightarrow> wto_comp list \<Rightarrow> wto \<Rightarrow> nat list \<Rightarrow>
     32 word \<times> bool \<times> wto_comp list \<times> wto \<Rightarrow> bool" where
  "loop_inv S N H v st part w0 ys = (\<lambda>(head, loop, part', w1). \<exists>cs G. part' = cs @ part \<and> wt_run S N H w0 w1 cs G \<and>
     (\<forall>y\<in>set ys. dn w1 y \<noteq> 0) \<and>
     (if loop then unat head \<le> dn w0 v else unat head = dn w0 v \<and> G = [] \<and> set ys \<subseteq> placed w1) \<and>
     (\<forall>x\<in>set st. leads_to S ys G x \<longrightarrow> unat head \<le> dn w0 x) \<and>
     (unat head < dn w0 v \<longrightarrow> (\<exists>x\<in>set st. dn w0 x = unat head \<and> leads_to S ys G x)) \<and>
     visited_within S (set ys) w0 w1)"

lemma stack_order:
  assumes "wt_run S N H w0 w1 cs G" "wt_stack w0 = v # st" "wt_inv S N H w0"
  shows "x \<in> set G \<Longrightarrow> dn w0 v < dn w1 x" "x \<in> set st \<Longrightarrow> dn w0 x < dn w0 v" "x \<in> set st \<Longrightarrow> dn w1 x = dn w0 x" "dn w1 v = dn w0 v"
    "0 < dn w0 v" "dn w0 v < limit"
proof -
  have v: "0 < dn w0 v \<and> dn w0 v < limit" using wt_invD(2)[OF assms(3), of v] assms(2) by simp
  then show "0 < dn w0 v" "dn w0 v < limit" by simp_all
  show e: "dn w1 v = dn w0 v" using wt_runD(5)[OF assms(1), of v] v by simp
  have "sorted_wrt (\<lambda>a b. dn w1 b < dn w1 a) (G @ v # st)"
    using wt_invD(3)[OF wt_runD(1)[OF assms(1)]] wt_runD(4)[OF assms(1)] assms(2) by simp
  then show "x \<in> set G \<Longrightarrow> dn w0 v < dn w1 x" using e by (auto simp: sorted_wrt_append)
  show "x \<in> set st \<Longrightarrow> dn w0 x < dn w0 v" using wt_invD(3)[OF assms(3)] assms(2) by simp
  show "x \<in> set st \<Longrightarrow> dn w1 x = dn w0 x" using wt_runD(5)[OF assms(1), of x] wt_invD(2)[OF assms(3), of x] assms(2) by simp
qed

lemma loop_invI:
  assumes "part' = cs @ part" "wt_run S N H w0 w1 cs G" "\<forall>y\<in>set ys. dn w1 y \<noteq> 0"
    "if loop then unat head \<le> dn w0 v else unat head = dn w0 v \<and> G = [] \<and> set ys \<subseteq> placed w1"
    "\<forall>x\<in>set st. leads_to S ys G x \<longrightarrow> unat head \<le> dn w0 x"
    "unat head < dn w0 v \<longrightarrow> (\<exists>x\<in>set st. dn w0 x = unat head \<and> leads_to S ys G x)"
    "visited_within S (set ys) w0 w1"
  shows "loop_inv S N H v st part w0 ys (head, loop, part', w1)"
  using assms unfolding loop_inv_def by blast

lemma visit_successor_seen:
  "dn w1 y \<noteq> 0 \<Longrightarrow> visit_successor vis y (head, loop, part', w1) =
     Some (if getCDN w1 y \<le> head then (getCDN w1 y, True, part', w1) else (head, loop, part', w1))"
  by (simp add: visit_successor_def dn_0_iff)

lemma successor_seen:
  assumes w0: "wt_inv S N H w0" "wt_stack w0 = v # st" and l: "loop_inv S N H v st part w0 ys (head, loop, part', w1)"
    and y: "dn w1 y \<noteq> 0"
  shows "wp (visit_successor vis y (head, loop, part', w1)) (loop_inv S N H v st part w0 (ys @ [y]))"
proof -
  obtain cs G where c: "part' = cs @ part" and r: "wt_run S N H w0 w1 cs G" and ys: "\<forall>y\<in>set ys. dn w1 y \<noteq> 0"
    and lp: "if loop then unat head \<le> dn w0 v else unat head = dn w0 v \<and> G = [] \<and> set ys \<subseteq> placed w1"
    and lo: "\<forall>x\<in>set st. leads_to S ys G x \<longrightarrow> unat head \<le> dn w0 x"
    and at: "unat head < dn w0 v \<longrightarrow> (\<exists>x\<in>set st. dn w0 x = unat head \<and> leads_to S ys G x)"
    and vw: "visited_within S (set ys) w0 w1"
    using l unfolding loop_inv_def by auto
  note o = stack_order[OF r w0(2,1)]
  have vw': "visited_within S (set (ys @ [y])) w0 w1" by (rule visited_within_mono[OF vw]) auto
  have "y \<in> set G \<or> y = v \<or> y \<in> set st \<or> y \<in> placed w1"
    using wt_inv_finite_stack[OF wt_runD(1)[OF r], of y] y wt_runD(4)[OF r] w0(2) by auto
  then consider "dn w0 v < dn w1 y" "y \<notin> set st" "y \<in> placed w1 \<or> loop" | "y = v" | "y \<in> set st"
  proof (elim disjE)
    assume "y \<in> set G"
    then have "dn w0 v < dn w1 y" "loop" using o(1) lp by (auto split: if_splits)
    then show thesis using that(1) o(2,3)[of y] by fastforce
  next
    assume "y \<in> placed w1"
    then have "dn w0 v < dn w1 y" using o(6) by (simp add: placed_def)
    then show thesis using that(1) \<open>y \<in> placed w1\<close> o(2,3)[of y] by fastforce
  qed (use that in auto)
  then show ?thesis
  proof cases
    case 1
    then have "\<not> getCDN w1 y \<le> head" using lp by (auto simp: word_le_nat_alt dn_def split: if_splits)
    then have e: "visit_successor vis y (head, loop, part', w1) = Some (head, loop, part', w1)"
      using visit_successor_seen[OF y] by simp
    show ?thesis unfolding e wp_Some by (rule loop_invI[OF c r _ _ _ _ vw']) (use y ys lp lo at 1 in auto)
  next
    case 2
    have vst: "v \<notin> set st" using o(2) by auto
    have "getCDN w1 y \<le> head \<longleftrightarrow> unat head = dn w0 v" "unat (getCDN w1 y) = dn w0 v"
      using lp o(4) 2 by (auto simp: word_le_nat_alt dn_def split: if_splits)
    then obtain h l where e: "visit_successor vis y (head, loop, part', w1) = Some (h, l, part', w1)"
        "unat h = unat head" "l \<longleftrightarrow> unat head = dn w0 v \<or> loop"
      using visit_successor_seen[OF y, of vis head loop part'] by (cases "unat head = dn w0 v") auto
    show ?thesis unfolding e(1) wp_Some by (rule loop_invI[OF c r _ _ _ _ vw']) (use y ys lp lo at 2 vst e(2,3) in \<open>auto split: if_splits\<close>)
  next
    case 3
    have m: "unat (getCDN w1 y) = dn w0 y" "dn w0 y < dn w0 v" using o(2,3)[of y] 3 by (auto simp: dn_def)
    show ?thesis
    proof (cases "getCDN w1 y \<le> head")
      case True
      then have "dn w0 y \<le> unat head" using m by (simp add: word_le_nat_alt)
      then have "\<forall>x\<in>set st. leads_to S (ys @ [y]) G x \<longrightarrow> dn w0 y \<le> dn w0 x" using lo by auto
      moreover have e: "visit_successor vis y (head, loop, part', w1) = Some (getCDN w1 y, True, part', w1)"
        using visit_successor_seen[OF y] True by simp
      ultimately show ?thesis unfolding e wp_Some by (intro loop_invI[OF c r _ _ _ _ vw']) (use y ys 3 m in auto)
    next
      case False
      then have h: "unat head < dn w0 y" using m by (simp add: word_le_nat_alt)
      then have "loop" using lp m by (auto split: if_splits)
      moreover have e: "visit_successor vis y (head, loop, part', w1) = Some (head, loop, part', w1)"
        using visit_successor_seen[OF y] False by simp
      ultimately show ?thesis unfolding e wp_Some by (intro loop_invI[OF c r _ _ _ _ vw']) (use y ys lp lo at 3 m h in auto)
    qed
  qed
qed

lemma successor_unseen:
  assumes w0: "wt_inv S N H w0" "wt_stack w0 = v # st" and H: "H \<subseteq> placed w0"
    and l: "loop_inv S N H v st part w0 ys (head, loop, part', w1)"
    and y: "dn w1 y = 0" and vis: "wp (vis y part' w1) (visit_post S N H y part' w1)"
  shows "wp (visit_successor vis y (head, loop, part', w1)) (loop_inv S N H v st part w0 (ys @ [y]))"
proof -
  obtain cs G where c: "part' = cs @ part" and r: "wt_run S N H w0 w1 cs G" and ys: "\<forall>y\<in>set ys. dn w1 y \<noteq> 0"
    and lp: "if loop then unat head \<le> dn w0 v else unat head = dn w0 v \<and> G = [] \<and> set ys \<subseteq> placed w1"
    and lo: "\<forall>x\<in>set st. leads_to S ys G x \<longrightarrow> unat head \<le> dn w0 x"
    and at: "unat head < dn w0 v \<longrightarrow> (\<exists>x\<in>set st. dn w0 x = unat head \<and> leads_to S ys G x)"
    and vw: "visited_within S (set ys) w0 w1"
    using l unfolding loop_inv_def by auto
  note o = stack_order[OF r w0(2,1)] and st1 = wt_runD(4)[OF r]
  obtain h part2 w2 cs2 G2 where e: "vis y part' w1 = Some (h, part2, w2)" and c2: "part2 = cs2 @ part'"
    and r2: "wt_run S N H w1 w2 cs2 G2" and y2: "dn w2 y \<noteq> 0"
    and b: "if G2 = [] then \<forall>x\<in>set (wt_stack w1). dn w1 x < unat h else reaches_back S w1 G2 (unat h)"
    and vw2: "visited_within S {y} w1 w2"
    using vis unfolding wp_iff visit_post_def by auto
  have eq: "visit_successor vis y (head, loop, part', w1) =
      Some (if h \<le> head then (h, True, part2, w2) else (head, loop, part2, w2))"
    using y e by (simp add: visit_successor_def dn_0_iff)
  note R = wt_run_trans[OF r r2 H]
  have P: "part2 = (cs2 @ cs) @ part" using c c2 by simp
  have V: "visited_within S (set (ys @ [y])) w0 w2"
    using visited_within_trans[OF vw vw2] wt_runD(6)[OF r] by simp
  have Y: "\<forall>z\<in>set (ys @ [y]). dn w2 z \<noteq> 0" using ys y2 wt_runD(6)[OF r2] by fastforce
  have head: "unat head \<le> dn w0 v" using lp by (auto split: if_splits)
  have yst: "y \<notin> set st" using o(2,3)[of y] y wt_invD(2)[OF w0(1), of y] w0(2) by fastforce
  show ?thesis
  proof (cases "G2 = []")
    case True
    then have "dn w0 v < unat h" using b st1 w0(2) o(4) by auto
    then have h: "\<not> h \<le> head" using head by (simp add: word_le_nat_alt)
    have "y \<notin> set (wt_stack w2)" using wt_runD(4)[OF r2] True wt_invD(2)[OF wt_runD(1)[OF r], of y] y by simp
    then have "y \<in> placed w2" using wt_inv_finite_stack[OF wt_runD(1)[OF r2], of y] y2 by simp
    moreover have "set ys \<subseteq> placed w2" if "\<not> loop" using that lp order_trans[OF _ wt_run_placed[OF r2]] by simp
    ultimately have "\<not> loop \<longrightarrow> set (ys @ [y]) \<subseteq> placed w2" by simp
    then have e': "loop_inv S N H v st part w0 (ys @ [y]) (head, loop, part2, w2)"
      by (intro loop_invI[OF P R Y _ _ _ V]) (use True lp lo at yst in \<open>auto split: if_splits\<close>)
    show ?thesis unfolding eq using h e' by simp
  next
    case False
    then have rb: "reaches_back S w1 G2 (unat h)" using b by simp
    have rb1: "u \<in> set G2 \<Longrightarrow> x \<in> set (S u) \<Longrightarrow> x \<in> set (wt_stack w1) \<Longrightarrow> unat h \<le> dn w1 x" for u x
      using rb unfolding reaches_back_def by blast
    have up: "unat h \<le> dn w0 x" if xs: "x \<in> set st" and xu: "\<exists>u\<in>set G2. x \<in> set (S u)" for x
    proof -
      obtain u where "u \<in> set G2" "x \<in> set (S u)" using xu by blast
      moreover have "x \<in> set (wt_stack w1)" using st1 w0(2) xs by simp
      ultimately show ?thesis using rb1[of u x] o(3)[OF xs] by simp
    qed
    obtain u x where x: "u \<in> set G2" "x \<in> set (S u)" "x \<in> set (G @ v # st)" "dn w1 x = unat h"
      using rb st1 w0(2) unfolding reaches_back_def by auto
    show ?thesis
    proof (cases "h \<le> head")
      case True
      then have h: "unat h \<le> unat head" by (simp add: word_le_nat_alt)
      have lo': "unat h \<le> dn w0 z" if "z \<in> set st" "leads_to S (ys @ [y]) (G2 @ G) z" for z
      proof (cases "\<exists>u\<in>set G2. z \<in> set (S u)")
        case False
        then have "leads_to S ys G z" using that yst by auto
        then show ?thesis using lo that(1) h by fastforce
      qed (use up that in blast)
      have at': "\<exists>z\<in>set st. dn w0 z = unat h \<and> leads_to S (ys @ [y]) (G2 @ G) z" if "unat h < dn w0 v"
      proof -
        have "x \<in> set st" using x(3,4) that o(1)[of x] o(4) by auto
        then show ?thesis using x o(3)[of x] by auto
      qed
      have "loop_inv S N H v st part w0 (ys @ [y]) (h, True, part2, w2)"
        by (rule loop_invI[OF P R Y _ _ _ V]) (use h head lo' at' in auto)
      then show ?thesis unfolding eq using True by simp
    next
      case no: False
      then have h: "unat head < unat h" by (simp add: word_le_nat_alt)
      have loop
      proof (rule ccontr)
        assume "\<not> loop"
        then have "x \<in> set (v # st)" "unat head = dn w0 v" using lp x(3) by auto
        then have "dn w1 x \<le> unat head" using o(2,3)[of x] o(4) by fastforce
        then show False using x(4) h by simp
      qed
      have lo': "unat head \<le> dn w0 z" if "z \<in> set st" "leads_to S (ys @ [y]) (G2 @ G) z" for z
      proof (cases "\<exists>u\<in>set G2. z \<in> set (S u)")
        case True
        then show ?thesis using up[OF that(1)] h by simp
      next
        case False
        then have "leads_to S ys G z" using that yst by auto
        then show ?thesis using lo that(1) by fastforce
      qed
      have "loop_inv S N H v st part w0 (ys @ [y]) (head, loop, part2, w2)"
        by (rule loop_invI[OF P R Y _ _ _ V]) (use \<open>loop\<close> head lo' at in auto)
      then show ?thesis unfolding eq using no by simp
    qed
  qed
qed

subsection \<open>Leaving a node\<close>

lemma left_was_unseen:
  assumes "wt_run S N H w w' cs G" "wt_inv S N H w" "g \<in> set G"
  shows "dn w g = 0" "dn w' g \<noteq> 0"
proof -
  note st = wt_runD(4)[OF assms(1)] and i = wt_runD(1)[OF assms(1)]
  show g: "dn w' g \<noteq> 0" using wt_invD(2)[OF i, of g] st assms(3) by simp
  have "g \<notin> set (wt_stack w)" using wt_invD(3)[OF i] st assms(3) by (auto simp: sorted_wrt_append)
  moreover have "dn w' g < limit" using wt_invD(2)[OF i, of g] st assms(3) by simp
  ultimately show "dn w g = 0" using wt_runD(5)[OF assms(1), of g] wt_invD(2)[OF assms(2), of g] by fastforce
qed

lemma unwind_ok:
  "v \<notin> set G \<Longrightarrow> g # rest = G @ v # st \<Longrightarrow> unwind v g rest w = Some ((fold (\<lambda>n. setCDN n 0) G w)\<lparr>wt_stack := st\<rparr>)"
proof (induction G arbitrary: g rest w)
  case Nil
  then show ?case by (cases st) simp_all
next
  case (Cons a G)
  then obtain x xs where x: "rest = x # xs" "x # xs = G @ v # st" "g = a" "a \<noteq> v" by (cases rest) auto
  have "v \<notin> set G" using Cons.prems by simp
  from Cons.IH[OF this x(2), of "setCDN a 0 w"] show ?case using x(1,3,4) by simp
qed

lemma dn_fold_0:
  "dn (fold (\<lambda>n. setCDN n 0) G w) k = (if k \<in> set G then 0 else dn w k)"
  "wt_num (fold (\<lambda>n. setCDN n 0) G w) = wt_num w" "wt_heads (fold (\<lambda>n. setCDN n 0) G w) = wt_heads w"
  "wt_components (fold (\<lambda>n. setCDN n 0) G w) = wt_components w" "wt_depth (fold (\<lambda>n. setCDN n 0) G w) = wt_depth w"
  by (induction G arbitrary: w) auto

text \<open>The state in which the nodes \<open>G\<close> are to be visited again, and \<open>v\<close> has a component. With \<open>G\<close> empty it is the
  state after a node without a cycle.\<close>

definition left_state :: "nat \<Rightarrow> nat list \<Rightarrow> nat list \<Rightarrow> wto \<Rightarrow> wto" where
  "left_state v G st w = (fold (\<lambda>n. setCDN n 0) G (setCDN v (-1) w))\<lparr>wt_stack := st\<rparr>"

lemma left_state_ok:
  assumes i: "wt_inv S N H w" and st: "wt_stack w = G @ v # st" and N: "finite N"
  defines "t \<equiv> left_state v G st w"
  shows "v \<notin> set G" "v \<notin> placed w" "wt_inv S N (insert v H) t" "potential N t \<le> potential N w" "wt_stack t = st"
    "\<And>k. dn t k = (if k \<in> set G then 0 else if k = v then limit else dn w k)" "placed t = insert v (placed w)"
    "wt_num t = wt_num w" "wt_heads t = wt_heads w" "wt_components t = wt_components w" "wt_depth t = wt_depth w"
proof -
  have so: "sorted_wrt (\<lambda>a b. dn w b < dn w a) (G @ v # st)" using wt_invD(3)[OF i] st by simp
  then show vG: "v \<notin> set G" by (auto simp: sorted_wrt_append)
  show simps: "wt_stack t = st" "wt_num t = wt_num w" "wt_heads t = wt_heads w" "wt_components t = wt_components w" "wt_depth t = wt_depth w"
    by (simp_all add: t_def left_state_def dn_fold_0)
  show d: "dn t k = (if k \<in> set G then 0 else if k = v then limit else dn w k)" for k
    using vG by (simp add: t_def left_state_def dn_fold_0)
  have m: "0 < dn w n \<and> dn w n < limit" if "n \<in> set G \<or> n = v \<or> n \<in> set st" for n
    using wt_invD(2)[OF i, of n] st that by auto
  show vp: "v \<notin> placed w" using m[of v] by (simp add: placed_def)
  have g: "dn w x \<noteq> limit" if "x \<in> set G" for x using m[of x] that by simp
  then have G: "set G \<inter> placed w = {}" by (auto simp: placed_def)
  have "x \<in> placed t \<longleftrightarrow> x \<in> insert v (placed w)" for x using vG g[of x] d[of x] by (auto simp: placed_def)
  then show p: "placed t = insert v (placed w)" by blast
  have inN: "set G \<subseteq> N" "v \<in> N" using m wt_invD(5)[OF i] by (auto simp: subset_iff)
  have lt: "card (set G) < card (N - placed w)"
    by (rule psubset_card_mono) (use N inN vG vp G in auto)
  have "N - placed w = insert v (N - placed t)" "v \<notin> N - placed t" using p vp inN by auto
  then have f: "card (N - placed w) = Suc (card (N - placed t))" using N by simp
  have "card {n \<in> N. dn t n = 0} \<le> card {n \<in> N. dn w n = 0} + card (set G)"
  proof -
    have "{n \<in> N. dn t n = 0} \<subseteq> {n \<in> N. dn w n = 0} \<union> set G" using d by (auto split: if_splits)
    moreover have "finite ({n \<in> N. dn w n = 0} \<union> set G)" using N by simp
    ultimately have "card {n \<in> N. dn t n = 0} \<le> card ({n \<in> N. dn w n = 0} \<union> set G)" by (rule card_mono[rotated])
    then show ?thesis using card_Un_le[of "{n \<in> N. dn w n = 0}" "set G"] by simp
  qed
  then show "potential N t \<le> potential N w" using lt unfolding potential_def f lessThan_Suc by simp
  have out: "n \<notin> set G" "n \<noteq> v" if "n \<in> set st" for n using so that by (auto simp: sorted_wrt_append)
  show "wt_inv S N (insert v H) t"
    unfolding wt_inv_def p simps
  proof (intro conjI)
    show "\<forall>n\<in>N. set (S n) \<subseteq> N" using wt_invD(1)[OF i] by blast
    show "\<forall>n. n \<in> set st \<longleftrightarrow> 0 < dn t n \<and> dn t n < limit"
      using wt_invD(2)[OF i] st out by (auto simp: d)
    have "sorted_wrt (\<lambda>a b. dn w b < dn w a) st" using so by (simp add: sorted_wrt_append)
    then show "sorted_wrt (\<lambda>a b. dn t b < dn t a) st"
      by (rule sorted_wrt_mono_rel[rotated]) (use out in \<open>auto simp: d\<close>)
    show "\<forall>n\<in>set st. dn t n \<le> unat (wt_num w)" using wt_invD(4)[OF i] st out by (auto simp: d)
    show "\<forall>n. dn t n \<noteq> 0 \<longrightarrow> n \<in> N" using wt_invD(5)[OF i] inN by (auto simp: d)
    show "insert v H \<subseteq> insert v (placed w)" using wt_invD(6)[OF i] by blast
    show "\<forall>u\<in>insert v (placed w) - insert v H. set (S u) \<subseteq> insert v (placed w)" using wt_invD(7)[OF i] by blast
    show "\<forall>k c. map_of (wt_heads w) k = Some c \<longrightarrow> k \<in> insert v (placed w)" using wt_invD(8)[OF i] by blast
  qed
qed

lemma component_loop:
  assumes i: "wt_inv S N (insert v H) t0" and v: "v \<in> N" and b: "unat (wt_num t0) + potential N t0 < limit"
    and closed: "\<And>u x. u \<in> insert v (set G) \<Longrightarrow> x \<in> set (S u) \<Longrightarrow> dn t0 x = 0 \<Longrightarrow> x \<in> set G"
    and apart: "\<And>u x. u \<in> set G \<Longrightarrow> x \<in> set (S u) \<Longrightarrow> x \<notin> set (wt_stack t0)"
    and vis: "\<And>y part t. wt_inv S N (insert v H) t \<Longrightarrow> y \<in> N \<Longrightarrow> dn t y = 0 \<Longrightarrow> unat (wt_num t) + potential N t < limit \<Longrightarrow>
      potential N t \<le> potential N t0 \<Longrightarrow> wp (vis y part t) (visit_post S N (insert v H) y part t)"
  shows "wp (foldM (component_successor vis) (S v) ([], t0)) (\<lambda>(cs, t). wt_run S N (insert v H) t0 t cs [] \<and>
    (\<forall>y\<in>set (S v). dn t y \<noteq> 0) \<and> (\<forall>n. dn t0 n = 0 \<and> dn t n \<noteq> 0 \<longrightarrow> n \<in> set G))"
proof -
  define P where "P = (\<lambda>ys (cs, t). wt_run S N (insert v H) t0 t cs [] \<and>
    (\<forall>y\<in>set ys. dn t y \<noteq> 0) \<and> (\<forall>n. dn t0 n = 0 \<and> dn t n \<noteq> 0 \<longrightarrow> n \<in> set G))"
  have "wp (foldM (component_successor vis) (S v) ([], t0)) (P (S v))"
  proof (rule foldM_wp)
    show "P [] ([], t0)" using wt_run_refl[OF i] by (auto simp: P_def)
    fix ys y zs s assume ys: "S v = ys @ y # zs" and "P ys s"
    moreover obtain cs t where s: "s = (cs, t)" by fastforce
    ultimately have r: "wt_run S N (insert v H) t0 t cs []" and Y: "\<forall>y\<in>set ys. dn t y \<noteq> 0"
      and V: "\<forall>n. dn t0 n = 0 \<and> dn t n \<noteq> 0 \<longrightarrow> n \<in> set G" by (simp_all add: P_def)
    show "wp (component_successor vis y s) (P (ys @ [y]))"
    proof (cases "dn t y = 0")
      case False
      then show ?thesis using r Y V by (simp add: component_successor_def s dn_0_iff P_def)
    next
      case True
      have "y \<in> N" using wt_invD(1)[OF i v] ys by auto
      then have "wp (vis y cs t) (visit_post S N (insert v H) y cs t)"
        using vis[OF wt_runD(1)[OF r] _ True] wt_runD(3,14)[OF r] b by simp
      then obtain h part2 t2 cs2 G2 where e: "vis y cs t = Some (h, part2, t2)" and c2: "part2 = cs2 @ cs"
        and r2: "wt_run S N (insert v H) t t2 cs2 G2" and y2: "dn t2 y \<noteq> 0"
        and rb: "if G2 = [] then \<forall>x\<in>set (wt_stack t). dn t x < unat h else reaches_back S t G2 (unat h)"
        and vw: "visited_within S {y} t t2"
        unfolding wp_iff visit_post_def by auto
      have white: "dn t n = 0 \<Longrightarrow> dn t0 n = 0" for n by (rule wt_runD(6)[OF r])
      have "y \<in> set G" using closed[of v y] white[OF True] ys by simp
      then have seen: "n \<in> set G" if "dn t n = 0" "dn t2 n \<noteq> 0" for n
        using visited_withinD[OF vw, of "set G" n] that closed white by blast
      have "G2 = []"
      proof (rule ccontr)
        assume "G2 \<noteq> []"
        then obtain u x where u: "u \<in> set G2" "x \<in> set (S u)" "x \<in> set (wt_stack t)"
          using rb unfolding reaches_back_def by auto
        then have "u \<in> set G" using seen left_was_unseen[OF r2 wt_runD(1)[OF r]] by blast
        then show False using apart u wt_runD(4)[OF r] by auto
      qed
      then have R: "wt_run S N (insert v H) t0 t2 part2 []" using wt_run_trans[OF r r2 wt_invD(6)[OF i]] c2 by simp
      have "n \<in> set G" if "dn t0 n = 0" "dn t2 n \<noteq> 0" for n using V seen that by blast
      moreover have "\<forall>z\<in>set (ys @ [y]). dn t2 z \<noteq> 0" using Y y2 wt_runD(6)[OF r2] by fastforce
      ultimately show ?thesis using e True R by (simp add: component_successor_def s dn_0_iff P_def)
    qed
  qed
  then show ?thesis by (rule wp_mono) (auto simp: P_def)
qed

lemma placed_ok:
  assumes i: "wt_inv S N H w" and v: "v \<in> N" "dn w v = 0" and N: "finite N" and b: "unat (wt_num w) + potential N w < limit"
    and r: "wt_run S N H (enter v w) w1 cs G" and vw: "visited_within S (set (S v)) (enter v w) w1"
    and r2: "wt_run S N (insert v H) (left_state v G (wt_stack w) w1) t cs2 []"
    and seen: "\<And>n. dn (left_state v G (wt_stack w) w1) n = 0 \<Longrightarrow> dn t n \<noteq> 0 \<Longrightarrow> n \<in> set G"
    and Sv: "set (S v) \<subseteq> placed t"
    and c: "comp_nodes c = v # nodes_of cs2" "weak_order S [c]" "set (cycles_of cs2) \<subseteq> set (comp_cycles c)"
    and hs: "\<And>k x. map_of hs k = Some x \<longleftrightarrow> map_of (wt_heads t) k = Some x \<or> (k, x) \<in> set (comp_cycles c)"
    and cy: "\<And>k x. (k, x) \<in> set (comp_cycles c) \<Longrightarrow> k \<in> placed t"
    and h: "unat h = unat (wt_num w) + 1"
  shows "visit_post S N H v part w (h, c # cs @ part, t\<lparr>wt_heads := hs\<rparr>)"
proof -
  note w0 = enter_ok[OF i v N b]
  have st1: "wt_stack w1 = G @ v # wt_stack w" using wt_runD(4)[OF r] w0(4) by simp
  note t0 = left_state_ok[OF wt_runD(1)[OF r] st1 N]
  note it = wt_runD(1)[OF r2]
  have p: "placed w \<subseteq> placed w1" "insert v (placed w1) \<subseteq> placed t"
    using wt_run_placed[OF r] wt_run_placed[OF r2] w0(6) t0(7) by simp_all
  have n: "set (nodes_of cs) = placed w1 - placed w" "set (nodes_of cs2) = placed t - insert v (placed w1)"
    using wt_runD(8)[OF r] wt_runD(8)[OF r2] w0(6) t0(7) by simp_all
  have closed: "set (S u) \<subseteq> placed w1" if "u \<in> set (nodes_of cs)" for u
    using wt_invD(7)[OF wt_runD(1)[OF r], of u] wt_invD(6)[OF i] that n(1) by blast
  have keep: "dn t n = dn w n" if "dn w n \<noteq> 0" for n
  proof -
    have e: "dn (enter v w) n \<noteq> 0" "dn (enter v w) n = dn w n" "n \<noteq> v" using that w0(5) v(2) by auto
    have "n \<notin> set G" using left_was_unseen(1)[OF r w0(1), of n] e(1) by auto
    then have "dn (left_state v G (wt_stack w) w1) n = dn w n" using t0(6) e wt_runD(5)[OF r e(1)] by simp
    then show ?thesis using wt_runD(5)[OF r2, of n] that by simp
  qed
  have "wt_inv S N H (t\<lparr>wt_heads := hs\<rparr>)"
    unfolding wt_inv_def
  proof (intro conjI)
    show "H \<subseteq> placed (t\<lparr>wt_heads := hs\<rparr>)" using wt_invD(6)[OF it] by simp
    show "\<forall>u\<in>placed (t\<lparr>wt_heads := hs\<rparr>) - H. set (S u) \<subseteq> placed (t\<lparr>wt_heads := hs\<rparr>)"
      using wt_invD(7)[OF it] Sv by (metis DiffD1 DiffD2 insertE placed_simps(3))
    show "\<forall>k x. map_of (wt_heads (t\<lparr>wt_heads := hs\<rparr>)) k = Some x \<longrightarrow> k \<in> placed (t\<lparr>wt_heads := hs\<rparr>)"
      using hs cy wt_invD(8)[OF it] by auto
  qed (use it in \<open>simp_all add: wt_inv_def\<close>)
  moreover have "unat (wt_num w) \<le> unat (wt_num t)" "unat (wt_num t) + potential N t \<le> unat (wt_num w) + potential N w"
    using wt_runD(2,3)[OF r] wt_runD(2,3)[OF r2] w0(2,3) t0(4,8) by simp_all
  moreover have "potential N (t\<lparr>wt_heads := hs\<rparr>) = potential N t" by (simp add: potential_def)
  moreover have "wt_stack t = wt_stack w" using wt_runD(4)[OF r2] t0(5) by simp
  moreover have "distinct (nodes_of (c # cs))"
    using wt_runD(7)[OF r] wt_runD(7)[OF r2] c(1) n t0(2) by auto
  moreover have "set (nodes_of (c # cs)) = placed t - placed w" using n p c(1) t0(2) by auto
  moreover have "weak_order S (c # cs)"
  proof -
    have "x \<notin> set (nodes_of [c])" if "u \<in> set (nodes_of cs)" "x \<in> set (S u)" for u x
      using closed[OF that(1)] that(2) n(2) t0(2) c(1) by auto
    then show ?thesis using weak_order_append[OF c(2) wt_runD(9)[OF r]] by simp
  qed
  moreover have "map_of hs k = Some x \<longleftrightarrow> map_of (wt_heads w) k = Some x \<or> (k, x) \<in> set (cycles_of (c # cs))" for k x
    using hs[of k x] wt_runD(11)[OF r, of k x] wt_runD(11)[OF r2, of k x] c(3) t0(9) w0(9) by auto
  moreover have "wt_components t = wt_components w" "wt_depth t = wt_depth w"
    using wt_runD(12,13)[OF r] wt_runD(12,13)[OF r2] t0(10,11) w0(10,11) by simp_all
  ultimately have run: "wt_run S N H w (t\<lparr>wt_heads := hs\<rparr>) (c # cs) []"
    using keep by (simp add: wt_run_def)
  have vis: "visited_within S {v} w (t\<lparr>wt_heads := hs\<rparr>)"
    unfolding visited_within_def
  proof (intro allI impI)
    fix X n assume X: "\<forall>y\<in>{v}. dn w y = 0 \<longrightarrow> y \<in> X" "\<forall>u\<in>X. \<forall>x\<in>set (S u). dn w x = 0 \<longrightarrow> x \<in> X"
      and n: "dn w n = 0 \<and> dn (t\<lparr>wt_heads := hs\<rparr>) n \<noteq> 0"
    have e: "dn (enter v w) x = 0 \<Longrightarrow> dn w x = 0" for x using w0(5)[of x] by (simp split: if_splits)
    have "v \<in> X" using X(1) v(2) by simp
    then have X0: "\<forall>y\<in>set (S v). dn (enter v w) y = 0 \<longrightarrow> y \<in> X" "\<forall>u\<in>X. \<forall>x\<in>set (S u). dn (enter v w) x = 0 \<longrightarrow> x \<in> X"
      using X(2) e by blast+
    show "n \<in> X"
    proof (cases "n = v")
      case False
      have "dn w1 n \<noteq> 0"
      proof
        assume "dn w1 n = 0"
        then have "dn (left_state v G (wt_stack w) w1) n = 0" unfolding t0(6) using False by simp
        then have "n \<in> set G" using seen[of n] n by simp
        then show False using left_was_unseen(2)[OF r w0(1)] \<open>dn w1 n = 0\<close> by blast
      qed
      moreover have "dn (enter v w) n = 0" using w0(5)[of n] False n by simp
      ultimately show ?thesis using vw X0 unfolding visited_within_def by blast
    qed (use \<open>v \<in> X\<close> in simp)
  qed
  have "dn t v \<noteq> 0" using p(2) by (auto simp: placed_def)
  then show ?thesis unfolding visit_post_def using run vis w0(7) h
    by (auto intro!: exI[of _ "c # cs"] exI[of _ "[]"])
qed

subsection \<open>Visiting a node\<close>

lemma cycles_are_nodes:
  shows "(k, c) \<in> set (comp_cycles d) \<Longrightarrow> k \<in> set (comp_nodes d)" "(k, c) \<in> set (cycles_of cs) \<Longrightarrow> k \<in> set (nodes_of cs)"
  by (induction d and cs rule: comp_cycles_cycles_of.induct) auto

lemma fold_0_stack: "fold (\<lambda>n. setCDN n 0) G (w\<lparr>wt_stack := st\<rparr>) = (fold (\<lambda>n. setCDN n 0) G w)\<lparr>wt_stack := st\<rparr>"
proof (induction G arbitrary: w)
  case (Cons n G)
  have "setCDN n 0 (w\<lparr>wt_stack := st\<rparr>) = (setCDN n 0 w)\<lparr>wt_stack := st\<rparr>" by (simp add: setCDN_def)
  then show ?case using Cons by simp
qed simp

lemma unwind_left:
  assumes "v \<notin> set G" "wt_stack w = G @ v # st"
  shows "\<exists>element w'. wt_pop (setCDN v (-1) w) = Some (element, w') \<and>
    unwind v element (wt_stack w') w' = Some (left_state v G st w) \<and> (G = [] \<longrightarrow> w' = left_state v [] st w)"
proof -
  obtain g rest where g: "g # rest = G @ v # st" by (cases G) auto
  define w' where "w' = (setCDN v (-1) w)\<lparr>wt_stack := rest\<rparr>"
  have "wt_pop (setCDN v (-1) w) = Some (g, w')" using assms(2) g[symmetric] by (simp add: wt_pop_def w'_def)
  moreover have "unwind v g rest w' = Some (left_state v G st w)"
    using unwind_ok[OF assms(1) g, of w'] by (simp add: w'_def fold_0_stack left_state_def)
  ultimately show ?thesis using g by (auto simp: w'_def left_state_def)
qed

text \<open>The three ways to leave a node: with a cycle, without one, and with the node still on the stack.\<close>

lemma cycle_ok:
  assumes i: "wt_inv S N H w" and v: "v \<in> N" "dn w v = 0" and N: "finite N" and b: "unat (wt_num w) + potential N w < limit"
    and r: "wt_run S N H (enter v w) w1 cs G" and vw: "visited_within S (set (S v)) (enter v w) w1"
    and ys: "\<forall>y\<in>set (S v). dn w1 y \<noteq> 0" and apart: "\<And>x. leads_to S (S v) G x \<Longrightarrow> x \<notin> set (wt_stack w)"
    and h: "unat h = unat (wt_num w) + 1"
    and IH: "\<And>K y p t. wt_inv S N K t \<Longrightarrow> y \<in> N \<Longrightarrow> dn t y = 0 \<Longrightarrow> unat (wt_num t) + potential N t < limit \<Longrightarrow>
      potential N t \<le> potential N (enter v w) \<Longrightarrow> wp (vis y p t) (visit_post S N K y p t)"
  shows "wp (component vis S v (left_state v G (wt_stack w) w1)) (\<lambda>(c, t). visit_post S N H v part w (h, c # cs @ part, t))"
proof -
  note w0 = enter_ok[OF i v N b]
  let ?st = "wt_stack w" and ?t0 = "left_state v G (wt_stack w) w1"
  have st1: "wt_stack w1 = G @ v # ?st" using wt_runD(4)[OF r] w0(4) by simp
  note t0 = left_state_ok[OF wt_runD(1)[OF r] st1 N]
  have b0: "unat (wt_num ?t0) + potential N ?t0 < limit"
    using t0(4,8) wt_runD(3)[OF r] w0(2,3) b by simp
  have closed: "x \<in> set G" if "u \<in> insert v (set G)" "x \<in> set (S u)" "dn ?t0 x = 0" for u x
  proof (rule ccontr)
    assume "x \<notin> set G"
    then have "dn w1 x = 0" using that(3) unfolding t0(6) by (simp split: if_splits)
    then show False using that(1,2) ys wt_runD(10)[OF r, of u x] by auto
  qed
  have "wp (foldM (component_successor vis) (S v) ([], ?t0)) (\<lambda>(cs, t). wt_run S N (insert v H) ?t0 t cs [] \<and>
      (\<forall>y\<in>set (S v). dn t y \<noteq> 0) \<and> (\<forall>n. dn ?t0 n = 0 \<and> dn t n \<noteq> 0 \<longrightarrow> n \<in> set G))"
  proof (rule component_loop[OF t0(3) v(1) b0 closed])
    show "x \<notin> set (wt_stack ?t0)" if "u \<in> set G" "x \<in> set (S u)" for u x using apart that unfolding t0(5) by blast
    show "wp (vis y part t) (visit_post S N (insert v H) y part t)"
      if "wt_inv S N (insert v H) t" "y \<in> N" "dn t y = 0" "unat (wt_num t) + potential N t < limit" "potential N t \<le> potential N ?t0"
      for y part t
      using IH[OF that(1-4)] that(5) t0(4) wt_runD(14)[OF r] by simp
  qed
  then obtain cs2 t where f: "foldM (component_successor vis) (S v) ([], ?t0) = Some (cs2, t)"
      and r2: "wt_run S N (insert v H) ?t0 t cs2 []" and sn: "\<forall>y\<in>set (S v). dn t y \<noteq> 0"
      and seen: "\<And>n. dn ?t0 n = 0 \<Longrightarrow> dn t n \<noteq> 0 \<Longrightarrow> n \<in> set G"
    unfolding wp_iff by auto
  have Sv: "set (S v) \<subseteq> placed t"
  proof
    fix y assume y: "y \<in> set (S v)"
    then have "y \<notin> set ?st" using apart by blast
    then show "y \<in> placed t"
      using wt_inv_finite_stack[OF wt_runD(1)[OF r2], of y] sn y wt_runD(4)[OF r2] t0(5) by simp
  qed
  have vt: "v \<in> placed t" "v \<notin> set (nodes_of cs2)"
    using wt_run_placed[OF r2] wt_runD(8)[OF r2] t0(7) by auto
  have none: "map_of (wt_heads t) v = None"
  proof (rule ccontr)
    assume "map_of (wt_heads t) v \<noteq> None"
    then obtain c where "map_of (wt_heads w1) v = Some c" using wt_runD(11)[OF r2, of v] t0(9) vt(2) cycles_are_nodes(2) by fastforce
    then show False using wt_invD(8)[OF wt_runD(1)[OF r]] t0(2) by blast
  qed
  let ?c = "Cycle v cs2"
  have "visit_post S N H v part w (h, ?c # cs @ part, t\<lparr>wt_heads := aput v ?c (wt_heads t)\<rparr>)"
  proof (rule placed_ok[OF i v N b r vw r2 seen Sv _ _ _ _ _ h])
    show "weak_order S [?c]" by (rule weak_order_cycle[OF wt_runD(9)[OF r2]])
    show "map_of (aput v ?c (wt_heads t)) k = Some x \<longleftrightarrow> map_of (wt_heads t) k = Some x \<or> (k, x) \<in> set (comp_cycles ?c)" for k x
      using none wt_runD(11)[OF r2, of k x] vt(2) cycles_are_nodes(2)[of v x cs2] by auto
    show "k \<in> placed t" if "(k, x) \<in> set (comp_cycles ?c)" for k x
      using that vt(1) cycles_are_nodes(2)[of k x cs2] wt_runD(8)[OF r2] by auto
  qed auto
  then show ?thesis using f none by (simp add: component_def ahas_def Let_def)
qed

lemma no_cycle_ok:
  assumes i: "wt_inv S N H w" and v: "v \<in> N" "dn w v = 0" and N: "finite N" and b: "unat (wt_num w) + potential N w < limit"
    and r: "wt_run S N H (enter v w) w1 cs []" and vw: "visited_within S (set (S v)) (enter v w) w1"
    and Sv: "set (S v) \<subseteq> placed w1" and h: "unat h = unat (wt_num w) + 1"
  shows "visit_post S N H v part w (h, Singleton v # cs @ part, left_state v [] (wt_stack w) w1)"
proof -
  let ?t0 = "left_state v [] (wt_stack w) w1"
  have st1: "wt_stack w1 = [] @ v # wt_stack w" using wt_runD(4)[OF r] enter_ok(4)[OF i v N b] by simp
  note t0 = left_state_ok[OF wt_runD(1)[OF r] st1 N]
  have r2: "wt_run S N (insert v H) ?t0 ?t0 [] []" by (rule wt_run_refl[OF t0(3)])
  have "visit_post S N H v part w (h, Singleton v # cs @ part, ?t0\<lparr>wt_heads := wt_heads ?t0\<rparr>)"
  proof (rule placed_ok[OF i v N b r vw r2 _ _ _ _ _ _ _ h])
    show "set (S v) \<subseteq> placed ?t0" using Sv t0(7) by auto
    show "weak_order S [Singleton v]" by (rule weak_order_singleton) (use Sv t0(2) in auto)
  qed auto
  then show ?thesis by simp
qed

lemma stays_ok:
  assumes i: "wt_inv S N H w" and v: "v \<in> N" "dn w v = 0" and N: "finite N" and b: "unat (wt_num w) + potential N w < limit"
    and r: "wt_run S N H (enter v w) w1 cs G" and vw: "visited_within S (set (S v)) (enter v w) w1"
    and ys: "\<forall>y\<in>set (S v). dn w1 y \<noteq> 0"
    and lo: "\<forall>x\<in>set (wt_stack w). leads_to S (S v) G x \<longrightarrow> unat head \<le> dn (enter v w) x"
    and at: "\<exists>x\<in>set (wt_stack w). dn (enter v w) x = unat head \<and> leads_to S (S v) G x"
  shows "visit_post S N H v part w (head, cs @ part, w1)"
proof -
  note w0 = enter_ok[OF i v N b]
  let ?w0 = "enter v w"
  note o = stack_order[OF r w0(4,1)]
  have st1: "wt_stack w1 = G @ v # wt_stack w" using wt_runD(4)[OF r] w0(4) by simp
  have run: "wt_run S N H w w1 cs (G @ [v])"
  proof -
    have "dn w1 n = dn w n" if "dn w n \<noteq> 0" for n
      using that w0(5)[of n] wt_runD(5)[OF r, of n] v(2) by (auto split: if_splits)
    moreover have "dn w1 x \<noteq> 0" if "u \<in> set (G @ [v])" "x \<in> set (S u)" for u x
      using that wt_runD(10)[OF r, of u x] ys by auto
    ultimately show ?thesis using r w0 st1 unfolding wt_run_def by simp
  qed
  have e: "dn ?w0 x = dn w x" if "x \<in> set (wt_stack w)" for x using w0(5)[of x] o(2)[OF that] by auto
  obtain x where x: "x \<in> set (wt_stack w)" "dn ?w0 x = unat head" "leads_to S (S v) G x" using at by blast
  have "reaches_back S w (G @ [v]) (unat head)"
    unfolding reaches_back_def using lo x e by auto
  moreover have "visited_within S {v} w w1"
    unfolding visited_within_def
  proof (intro allI impI)
    fix X n assume X: "\<forall>y\<in>{v}. dn w y = 0 \<longrightarrow> y \<in> X" "\<forall>u\<in>X. \<forall>x\<in>set (S u). dn w x = 0 \<longrightarrow> x \<in> X"
      and n: "dn w n = 0 \<and> dn w1 n \<noteq> 0"
    have z: "dn ?w0 x = 0 \<Longrightarrow> dn w x = 0" for x using w0(5)[of x] by (simp split: if_splits)
    have vX: "v \<in> X" using X(1) v(2) by simp
    show "n \<in> X"
    proof (cases "n = v")
      case False
      then have z0: "dn ?w0 n = 0" using n w0(5)[of n] by simp
      have "y \<in> X" if "y \<in> set (S v)" "dn ?w0 y = 0" for y using X(2) vX z[OF that(2)] that(1) by blast
      moreover have "x \<in> X" if "u \<in> X" "x \<in> set (S u)" "dn ?w0 x = 0" for u x using X(2) z[OF that(3)] that(1,2) by blast
      ultimately show ?thesis using visited_withinD[OF vw _ _ z0, of X] n by auto
    qed (use vX in simp)
  qed
  moreover have "dn w1 v \<noteq> 0" using o(4,5) by simp
  ultimately show ?thesis unfolding visit_post_def prod.case using run
    by (intro exI[of _ cs] exI[of _ "G @ [v]"] conjI) simp_all
qed

lemma visit_ok:
  assumes "finite N"
  shows "wt_inv S N H w \<Longrightarrow> v \<in> N \<Longrightarrow> dn w v = 0 \<Longrightarrow> unat (wt_num w) + potential N w < limit \<Longrightarrow>
    wp (visit S v part w) (visit_post S N H v part w)"
proof (induction "potential N w" arbitrary: w v part H rule: less_induct)
  case less
  note i = less.prems(1) and v = less.prems(2,3) and b = less.prems(4)
  note w0 = enter_ok[OF i v assms b]
  let ?w0 = "enter v w" and ?st = "wt_stack w" and ?d = "wt_num w + 1"
  have H: "H \<subseteq> placed ?w0" using wt_invD(6)[OF i] w0(6) by simp
  have IH: "wp (visit S y p t) (visit_post S N K y p t)"
    if "wt_inv S N K t" "y \<in> N" "dn t y = 0" "unat (wt_num t) + potential N t < limit" "potential N t \<le> potential N ?w0" for K y p t
    using less.hyps[OF _ that(1-4)] that(5) w0(3) by simp
  have d: "unat ?d = dn ?w0 v" by (simp add: enter_def)
  have start: "loop_inv S N H v ?st part ?w0 [] (?d, False, part, ?w0)"
    by (rule loop_invI[of _ "[]", OF _ wt_run_refl[OF w0(1)]]) (auto simp: d visited_within_def)
  have "wp (foldM (visit_successor (visit S)) (S v) (?d, False, part, ?w0)) (loop_inv S N H v ?st part ?w0 (S v))"
  proof (rule foldM_wp)
    show "loop_inv S N H v ?st part ?w0 [] (?d, False, part, ?w0)" by (rule start)
    fix ys y zs s assume y: "S v = ys @ y # zs" and l: "loop_inv S N H v ?st part ?w0 ys s"
    obtain head lp p w1 where s: "s = (head, lp, p, w1)" by (cases s) auto
    show "wp (visit_successor (visit S) y s) (loop_inv S N H v ?st part ?w0 (ys @ [y]))"
    proof (cases "dn w1 y = 0")
      case True
      obtain cs G where r: "wt_run S N H ?w0 w1 cs G" using l unfolding s loop_inv_def by auto
      have "y \<in> N" using wt_invD(1)[OF i v(1)] y by auto
      moreover have "unat (wt_num w1) + potential N w1 < limit" using wt_runD(3)[OF r] w0(2,3) b by simp
      ultimately have "wp (visit S y p w1) (visit_post S N H y p w1)"
        using IH[OF wt_runD(1)[OF r] _ True] wt_runD(14)[OF r] by simp
      then show ?thesis using successor_unseen[OF w0(1,4) H l[unfolded s] True] by (simp add: s)
    next
      case False
      then show ?thesis using successor_seen[OF w0(1,4) l[unfolded s]] by (simp add: s)
    qed
  qed
  then obtain head lp p w1 where e: "foldM (visit_successor (visit S)) (S v) (?d, False, part, ?w0) = Some (head, lp, p, w1)"
    and l: "loop_inv S N H v ?st part ?w0 (S v) (head, lp, p, w1)"
    unfolding wp_iff by (metis prod_cases4)
  then obtain cs G where p: "p = cs @ part" and r: "wt_run S N H ?w0 w1 cs G" and ys: "\<forall>y\<in>set (S v). dn w1 y \<noteq> 0"
    and lp: "if lp then unat head \<le> dn ?w0 v else unat head = dn ?w0 v \<and> G = [] \<and> set (S v) \<subseteq> placed w1"
    and lo: "\<forall>x\<in>set ?st. leads_to S (S v) G x \<longrightarrow> unat head \<le> dn ?w0 x"
    and at: "unat head < dn ?w0 v \<longrightarrow> (\<exists>x\<in>set ?st. dn ?w0 x = unat head \<and> leads_to S (S v) G x)"
    and vw: "visited_within S (set (S v)) ?w0 w1"
    unfolding loop_inv_def prod.case by blast
  note o = stack_order[OF r w0(4,1)]
  have st1: "wt_stack w1 = G @ v # ?st" using wt_runD(4)[OF r] w0(4) by simp
  note t0 = left_state_ok[OF wt_runD(1)[OF r] st1 assms]
  let ?t0 = "left_state v G ?st w1"
  obtain element w' where u: "wt_pop (setCDN v (-1) w1) = Some (element, w')"
      "unwind v element (wt_stack w') w' = Some ?t0" "G = [] \<longrightarrow> w' = left_state v [] ?st w1"
    using unwind_left[OF t0(1) st1] by blast
  have "head = getCDN w1 v \<longleftrightarrow> unat head = dn ?w0 v" using o(4) by (simp add: dn_def word_unat_eq_iff)
  then have step: "visit S v part w =
    (if unat head = dn ?w0 v then
       (if lp then do { (c, w) \<leftarrow> component (visit S) S v ?t0; Some (head, c # p, w) }
        else Some (head, Singleton v # p, w'))
     else Some (head, p, w1))"
    using e u(1,2) by (subst visit.simps) (simp add: Let_def enter_def)
  show ?case
  proof (cases "unat head = dn ?w0 v")
    case hd: True
    have h: "unat head = unat (wt_num w) + 1" using hd w0(5) by simp
    have apart: "x \<notin> set ?st" if "leads_to S (S v) G x" for x
      using lo that o(2)[of x] hd by fastforce
    show ?thesis
    proof (cases lp)
      case True
      have "wp (component (visit S) S v ?t0) (\<lambda>(c, t). visit_post S N H v part w (head, c # cs @ part, t))"
        by (rule cycle_ok[OF i v assms b r vw ys apart h IH])
      then obtain c t where "component (visit S) S v ?t0 = Some (c, t)" "visit_post S N H v part w (head, c # cs @ part, t)"
        unfolding wp_iff by auto
      then show ?thesis using step hd True p by simp
    next
      case False
      then have "G = []" "set (S v) \<subseteq> placed w1" using lp by simp_all
      then show ?thesis using no_cycle_ok[OF i v assms b _ vw _ h, of cs part] r step hd False u(3) p by simp
    qed
  next
    case False
    then have "unat head < dn ?w0 v" using lp by (auto split: if_splits)
    then show ?thesis using stays_ok[OF i v assms b r vw ys lo, of part] at step False p by simp
  qed
qed

subsection \<open>The whole construction\<close>

lemma visit_entry:
  assumes N: "finite N" "\<And>n. n \<in> N \<Longrightarrow> set (S n) \<subseteq> N" and v: "v \<in> N" and b: "card N + (\<Sum>i<card N. i) < limit"
  shows "\<exists>h cs w. visit S v [] wto_new = Some (h, cs, w) \<and> distinct (nodes_of cs) \<and> set (nodes_of cs) = reachable S v \<and>
    weak_order S cs \<and> (\<forall>k c. map_of (wt_heads w) k = Some c \<longleftrightarrow> (k, c) \<in> set (cycles_of cs)) \<and>
    wt_depth w = [] \<and> wt_stack w = []"
proof -
  have dn: "dn wto_new n = 0" for n by (simp add: dn_def getCDN_def wto_new_def)
  then have p: "placed wto_new = {}" by (simp add: placed_def)
  have i: "wt_inv S N {} wto_new" using N(2) by (simp add: wt_inv_def dn p) (simp add: wto_new_def)
  have "potential N wto_new = card N + (\<Sum>i<card N. i)" by (simp add: potential_def dn p)
  then have "unat (wt_num wto_new) + potential N wto_new < limit" using b by (simp add: wto_new_def)
  from visit_ok[OF N(1) i v dn this, of "[]"] obtain h cs w G where
    e: "visit S v [] wto_new = Some (h, cs, w)" and r: "wt_run S N {} wto_new w cs G" and vn: "dn w v \<noteq> 0"
    and rb: "if G = [] then \<forall>x\<in>set (wt_stack wto_new). dn wto_new x < unat h else reaches_back S wto_new G (unat h)"
    and vw: "visited_within S {v} wto_new w"
    unfolding wp_iff visit_post_def by auto
  have "\<not> reaches_back S wto_new G (unat h)" by (simp add: reaches_back_def wto_new_def)
  then have "G = []" using rb by (simp split: if_splits)
  then have st: "wt_stack w = []" using wt_runD(4)[OF r] by (simp add: wto_new_def)
  then have seen: "dn w n \<noteq> 0 \<longleftrightarrow> n \<in> placed w" for n using wt_inv_finite_stack[OF wt_runD(1)[OF r], of n] by simp
  have "reachable S v \<subseteq> placed w"
    by (rule reachable_least) (use seen vn wt_invD(7)[OF wt_runD(1)[OF r]] in auto)
  moreover have "n \<in> reachable S v" if "n \<in> placed w" for n
  proof (rule visited_withinD[OF vw])
    show "y \<in> reachable S v" if "y \<in> {v}" for y using that by (simp add: reachable_def)
    show "x \<in> reachable S v" if "u \<in> reachable S v" "x \<in> set (S u)" for u x using reachable_step that by blast
  qed (use dn seen that in simp_all)
  ultimately have "set (nodes_of cs) = reachable S v" using wt_runD(8)[OF r] p by auto
  moreover have "map_of (wt_heads w) k = Some c \<longleftrightarrow> (k, c) \<in> set (cycles_of cs)" for k c
    using wt_runD(11)[OF r, of k c] by (simp add: wto_new_def)
  moreover have "wt_depth w = []" using wt_runD(13)[OF r] by (simp add: wto_new_def)
  ultimately show ?thesis using e st wt_runD(7,9)[OF r] by blast
qed

subsection \<open>The table of depths\<close>

text \<open>Some cycles lie around a node: those it is in without being their head.\<close>

definition around :: "wto_comp list \<Rightarrow> nat \<Rightarrow> nat set" where
  "around cs n = {h. h \<noteq> n \<and> (\<exists>c. (h, c) \<in> set (cycles_of cs) \<and> n \<in> set (comp_nodes c))}"

lemma cycle_nodes_sub:
  "(h, c) \<in> set (comp_cycles d) \<Longrightarrow> set (comp_nodes c) \<subseteq> set (comp_nodes d)"
  "(h, c) \<in> set (cycles_of cs) \<Longrightarrow> set (comp_nodes c) \<subseteq> set (nodes_of cs)"
  by (induction d and cs rule: comp_cycles_cycles_of.induct) auto

lemma build_depth_ok:
  "distinct (comp_nodes c) \<Longrightarrow> (\<forall>n\<in>set (comp_nodes c). \<not> ahas m n) \<Longrightarrow>
     (\<forall>n. if n \<in> set (comp_nodes c) then \<exists>e. map_of (build_depth c d m) n = Some (d @ e) \<and> set e = around [c] n
        else map_of (build_depth c d m) n = map_of m n)"
  "distinct (nodes_of cs) \<Longrightarrow> (\<forall>n\<in>set (nodes_of cs). \<not> ahas m n) \<Longrightarrow>
     (\<forall>n. if n \<in> set (nodes_of cs) then \<exists>e. map_of (fold (\<lambda>c. build_depth c d) cs m) n = Some (d @ e) \<and> set e = around cs n
        else map_of (fold (\<lambda>c. build_depth c d) cs m) n = map_of m n)"
proof (induction c and cs arbitrary: d m and d m rule: comp_nodes_nodes_of.induct)
  case (1 n)
  then show ?case by (simp add: around_def)
next
  case (2 h cs)
  have a: "around [Cycle h cs] n = (if n = h then {} else insert h (around cs n))" if "n \<in> set (comp_nodes (Cycle h cs))" for n
    using that 2(2) cycle_nodes_sub(2)[of _ _ cs] by (auto simp: around_def)
  have "distinct (nodes_of cs)" "\<forall>n\<in>set (nodes_of cs). \<not> ahas (aput h d m) n" using 2(2,3) by auto
  from 2(1)[OF this, of "cd_add h d"] show ?case
  proof (intro allI)
    fix n
    assume *: "\<forall>n. if n \<in> set (nodes_of cs) then \<exists>e. map_of (fold (\<lambda>c. build_depth c (cd_add h d)) cs (aput h d m)) n = Some (cd_add h d @ e) \<and> set e = around cs n
        else map_of (fold (\<lambda>c. build_depth c (cd_add h d)) cs (aput h d m)) n = map_of (aput h d m) n"
    have h: "h \<notin> set (nodes_of cs)" "\<not> ahas m h" using 2(2,3) by auto
    show "if n \<in> set (comp_nodes (Cycle h cs)) then \<exists>e. map_of (build_depth (Cycle h cs) d m) n = Some (d @ e) \<and> set e = around [Cycle h cs] n
        else map_of (build_depth (Cycle h cs) d m) n = map_of m n"
    proof (cases "n \<in> set (nodes_of cs)")
      case True
      then obtain e where "map_of (fold (\<lambda>c. build_depth c (cd_add h d)) cs (aput h d m)) n = Some (cd_add h d @ e)" "set e = around cs n"
        using spec[OF *, of n] by auto
      then show ?thesis using True h a[of n] by (auto simp: cd_add_def intro!: exI[of _ "h # e"])
    next
      case False
      then have "map_of (fold (\<lambda>c. build_depth c (cd_add h d)) cs (aput h d m)) n = map_of (aput h d m) n" using spec[OF *, of n] by auto
      then show ?thesis using False h a[of n] by auto
    qed
  qed
next
  case 3
  then show ?case by simp
next
  case (4 c cs)
  let ?m = "build_depth c d m"
  have d: "distinct (comp_nodes c)" "distinct (nodes_of cs)" "set (comp_nodes c) \<inter> set (nodes_of cs) = {}" using 4(3) by auto
  have c: "if n \<in> set (comp_nodes c) then \<exists>e. map_of ?m n = Some (d @ e) \<and> set e = around [c] n else map_of ?m n = map_of m n" for n
    using 4(1)[OF d(1), of m d] 4(4) by simp
  have "\<forall>n\<in>set (nodes_of cs). \<not> ahas ?m n"
  proof
    fix n assume n: "n \<in> set (nodes_of cs)"
    then have "n \<notin> set (comp_nodes c)" using d(3) by blast
    then show "\<not> ahas ?m n" using c[of n] n 4(4) by (simp add: ahas_def)
  qed
  from 4(2)[OF d(2) this, of d]
  have cs: "if n \<in> set (nodes_of cs) then \<exists>e. map_of (fold (\<lambda>c. build_depth c d) cs ?m) n = Some (d @ e) \<and> set e = around cs n
      else map_of (fold (\<lambda>c. build_depth c d) cs ?m) n = map_of ?m n" for n by blast
  have "n \<notin> set (comp_nodes b)" if "(x, b) \<in> set (cycles_of cs)" "n \<in> set (comp_nodes c)" for n x b
    using cycle_nodes_sub(2)[OF that(1)] that(2) d(3) by blast
  moreover have "n \<in> set (comp_nodes c)" if "(x, b) \<in> set (comp_cycles c)" "n \<in> set (comp_nodes b)" for n x b
    using cycle_nodes_sub(1)[OF that(1)] that(2) by blast
  ultimately have "around (c # cs) n = (if n \<in> set (comp_nodes c) then around [c] n else around cs n)" for n
    unfolding around_def by auto
  note a = this
  show ?case
  proof (intro allI)
    fix n
    have "n \<notin> set (comp_nodes c) \<or> n \<notin> set (nodes_of cs)" using d(3) by blast
    then show "if n \<in> set (nodes_of (c # cs)) then \<exists>e. map_of (fold (\<lambda>c. build_depth c d) (c # cs) m) n = Some (d @ e) \<and> set e = around (c # cs) n
        else map_of (fold (\<lambda>c. build_depth c d) (c # cs) m) n = map_of m n"
      using c[of n] cs[of n] a[of n] by (cases "n \<in> set (comp_nodes c)") simp_all
  qed
qed

lemma wto_init_ok:
  assumes N: "finite N" "\<And>n. n \<in> N \<Longrightarrow> set (S n) \<subseteq> N" and v: "v \<in> N" and b: "card N + (\<Sum>i<card N. i) < limit"
  shows "wp (wto_init S v wto_new) (\<lambda>w. distinct (nodes_of (wt_components w)) \<and>
    set (nodes_of (wt_components w)) = reachable S v \<and> weak_order S (wt_components w) \<and>
    (\<forall>n. isHead n w \<longleftrightarrow> (\<exists>c. (n, c) \<in> set (cycles_of (wt_components w)))) \<and>
    (\<forall>n. in_cycleDepth_table n w \<longleftrightarrow> n \<in> reachable S v) \<and>
    (\<forall>n\<in>reachable S v. wp (cycleDepth n w) (\<lambda>d. set d = around (wt_components w) n)))"
proof -
  obtain h cs w where e: "visit S v [] wto_new = Some (h, cs, w)" "distinct (nodes_of cs)" "set (nodes_of cs) = reachable S v"
    "weak_order S cs" "\<forall>k c. map_of (wt_heads w) k = Some c \<longleftrightarrow> (k, c) \<in> set (cycles_of cs)" "wt_depth w = []"
    using visit_entry[where S = S, OF N v b] by blast
  let ?m = "fold (\<lambda>c. build_depth c []) cs []"
  have i: "wto_init S v wto_new = Some (buildNodeToDepth (w\<lparr>wt_components := cs, wt_cdn := [], wt_stack := []\<rparr>))"
    using e(1) by (simp add: wto_init_def wto_new_def)
  have d: "if n \<in> set (nodes_of cs) then \<exists>e. map_of ?m n = Some ([] @ e) \<and> set e = around cs n else map_of ?m n = None" for n
    using spec[OF build_depth_ok(2)[OF e(2), of "[]" "[]"], of n] by (auto split: if_splits)
  have "isHead n (buildNodeToDepth (w\<lparr>wt_components := cs, wt_cdn := [], wt_stack := []\<rparr>)) \<longleftrightarrow> (\<exists>c. (n, c) \<in> set (cycles_of cs))" for n
    using e(5) by (auto simp: isHead_def buildNodeToDepth_def ahas_def)
  moreover have "ahas ?m n \<longleftrightarrow> n \<in> reachable S v" for n using d[of n] e(3) by (auto simp: ahas_def split: if_splits)
  moreover have "wp (map_of ?m n) (\<lambda>d. set d = around cs n)" if "n \<in> reachable S v" for n using d[of n] e(3) that by auto
  ultimately show ?thesis using e(2,3,4,6) i
    by (simp add: in_cycleDepth_table_def cycleDepth_def buildNodeToDepth_def)
qed

text \<open>Which edges may lead back can be read off the depths.\<close>

lemma back_edge_depth:
  "(x, c) \<in> set (cycles_of cs) \<Longrightarrow> u \<in> set (comp_nodes c) \<Longrightarrow> x = u \<or> x \<in> around cs u"
  by (auto simp: around_def)

subsection \<open>Comparing depths\<close>

lemma cd_common_prefix: "cd_common a b = longest_common_prefix a b"
  by (induction a b rule: cd_common.induct) auto

lemma cd_compare_cases:
  "cd_compare a b = (if a = b then 0 else if strict_prefix a b then -1 else if strict_prefix b a then 1 else 2)"
  by (induction a b rule: cd_compare.induct) (auto simp: strict_prefix_def)

lemma cd_order:
  "cd_le a b \<longleftrightarrow> prefix a b" "cd_less a b \<longleftrightarrow> strict_prefix a b" "cd_eq a b \<longleftrightarrow> a = b" "cd_greater a b \<longleftrightarrow> strict_prefix b a"
  by (auto simp: cd_le_def cd_less_def cd_eq_def cd_greater_def cd_compare_cases strict_prefix_def)

subsection \<open>The control-flow graph\<close>

text \<open>What \<^verbatim>\<open>ICFGWTO\<close> asks of a node: its return node if it is a call, its function, and its outgoing edges, each with
  whether it stays in the function.\<close>

record icfg_node =
  in_ret :: "nat option"
  in_fun :: nat
  in_out :: "(bool \<times> nat) list"

definition icfg_successors :: "(nat \<Rightarrow> icfg_node) \<Rightarrow> nat \<Rightarrow> nat list" where
  "icfg_successors g n = (case in_ret (g n) of
     Some r \<Rightarrow> [r]
   | None \<Rightarrow> map snd (filter (\<lambda>(intra, d). intra \<and> in_fun (g n) = in_fun (g d)) (in_out (g n))))"

text \<open>From the entry of a function only its nodes are reached.\<close>

lemma icfg_same_function:
  assumes "\<And>n r. in_ret (g n) = Some r \<Longrightarrow> in_fun (g r) = in_fun (g n)" "x \<in> reachable (icfg_successors g) v"
  shows "in_fun (g x) = in_fun (g v)"
proof -
  have "reachable (icfg_successors g) v \<subseteq> {x. in_fun (g x) = in_fun (g v)}"
    by (rule reachable_least) (auto simp: icfg_successors_def assms(1) split: option.splits)
  then show ?thesis using assms(2) by blast
qed

end
