(* ===== verification/Abstract_Interp.thy ===== *)
theory Abstract_Interp
  imports Abstract_Branch Weak_Order
begin

text \<open>
  The interpreter of \<^verbatim>\<open>svf/lib/AE/Svfexe/AbstractInterpretation.cpp\<close>: the trace of abstract states, the merge of
  those of the predecessors of a node, the phi statements, and the run over the weak topological order of a
  function with widening, narrowing and calls.
\<close>

subsection \<open>Programs and runs\<close>

text \<open>An edge of the control-flow graph, with the condition and its value where it is a branch.\<close>

record icfg_edge =
  ed_src :: nat
  ed_intra :: bool
  ed_cond :: "(address \<times> int) option"

text \<open>A call: the function it names, whether that is a library function, the variable of an indirect call, the return
  node, its first statement when that takes the result over (with the variable and whether it is an integer that
  may be set), whether the return node has at most one successor, and the stores of the callee with whether the
  stored value is an integer that may be set.\<close>

record call_site =
  cs_function :: "nat option"
  cs_ext :: bool
  cs_indirect :: "address option"
  cs_ret :: nat
  cs_result :: "(address \<times> bool) option"
  cs_one_succ :: bool
  cs_stores :: "(address \<times> bool) list"

record program =
  pg_gep :: gep_env
  pg_in_edges :: "nat \<Rightarrow> icfg_edge list"
  pg_stmts :: "nat \<Rightarrow> stmt list"
  pg_sub :: "nat \<Rightarrow> nat list"
  pg_rep :: "nat \<Rightarrow> nat"
  pg_def :: "address \<Rightarrow> stmt list"
  pg_call :: "nat \<Rightarrow> call_site option"
  pg_wto :: "nat \<Rightarrow> wto_comp list option"
  pg_recursive :: "nat \<Rightarrow> bool"
  pg_object_function :: "address \<Rightarrow> nat option"
  pg_widen_delay :: nat
  pg_global :: nat
  pg_null_ptr :: address
  pg_blk_ptr :: address
  pg_main :: "nat option"

type_synonym trace = "nat \<rightharpoonup> abstract_state"

record run =
  rn_trace :: trace
  rn_stack :: "nat list"

text \<open>How a run goes on: out of fuel, ended by an assertion, or with a result.\<close>

datatype 'a outcome = Timeout | Abort | Done 'a

fun obind :: "'a outcome \<Rightarrow> ('a \<Rightarrow> 'b outcome) \<Rightarrow> 'b outcome" where
  "obind Timeout f = Timeout"
| "obind Abort f = Abort"
| "obind (Done a) f = f a"

definition of_option :: "'a option \<Rightarrow> 'a outcome" where
  "of_option m = (case m of None \<Rightarrow> Abort | Some a \<Rightarrow> Done a)"

definition set_state :: "nat \<Rightarrow> abstract_state \<Rightarrow> run \<Rightarrow> run" where
  "set_state n s r = r\<lparr>rn_trace := (rn_trace r)(n \<mapsto> s)\<rparr>"

text \<open>\<^verbatim>\<open>operator[]\<close> of the trace.\<close>

definition trace_ref :: "nat \<Rightarrow> run \<Rightarrow> run \<times> abstract_state" where
  "trace_ref n r = (case rn_trace r n of Some s \<Rightarrow> (r, s) | None \<Rightarrow> (set_state n as_new r, as_new))"

subsection \<open>Merging predecessors\<close>

definition getAbsStateFromTrace :: "program \<Rightarrow> nat \<Rightarrow> run \<Rightarrow> abstract_state option" where
  "getAbsStateFromTrace p n r = rn_trace r (pg_rep p n)"

definition hasAbsStateFromTrace :: "program \<Rightarrow> nat \<Rightarrow> run \<Rightarrow> bool" where
  "hasAbsStateFromTrace p n r \<longleftrightarrow> rn_trace r (pg_rep p n) \<noteq> None"

text \<open>What an edge contributes: nothing when its source has no state or its branch is infeasible.\<close>

definition edge_state :: "program \<Rightarrow> trace \<Rightarrow> icfg_edge \<Rightarrow> abstract_state list option" where
  "edge_state p tr e = (case tr (ed_src e) of
     None \<Rightarrow> Some []
   | Some s \<Rightarrow> (case (ed_intra e, ed_cond e) of
       (True, Some (var, succ)) \<Rightarrow> do {
         (ok, s) \<leftarrow> isBranchFeasible (pg_def p) var succ s;
         Some (if ok then [s] else []) }
     | _ \<Rightarrow> Some [s]))"

definition mergeStatesFromPredecessors :: "program \<Rightarrow> nat \<Rightarrow> run \<Rightarrow> (bool \<times> run) option" where
  "mergeStatesFromPredecessors p n r = do {
     ss \<leftarrow> mapM (edge_state p (rn_trace r)) (pg_in_edges p n);
     let workList = concat ss;
     if workList = [] then Some (False, r)
     else do {
       preAs \<leftarrow> foldM (\<lambda>s acc. as_joinWith acc s) (rev workList) as_new;
       Some (True, set_state n preAs r) } }"

subsection \<open>Statements in the trace\<close>

definition intra_edge :: "program \<Rightarrow> nat \<Rightarrow> nat \<Rightarrow> icfg_edge option" where
  "intra_edge p src dst = List.find (\<lambda>e. ed_intra e \<and> ed_src e = src) (pg_in_edges p dst)"

text \<open>One operand of a phi: its value in the state of its node is joined when the edge may be taken.\<close>

definition phi_operand :: "program \<Rightarrow> nat \<Rightarrow> address \<times> nat \<Rightarrow> run \<times> abstract_value \<Rightarrow> (run \<times> abstract_value) option" where
  "phi_operand p n = (\<lambda>(cur, opNode) (r, rhs).
     if hasAbsStateFromTrace p opNode r
     then do {
       let (r, tmpEs) = trace_ref opNode r;
       opAs \<leftarrow> getAbsStateFromTrace p opNode r;
       (ok, _) \<leftarrow> (case intra_edge p opNode n of
         Some e \<Rightarrow> (case ed_cond e of
             Some (var, succ) \<Rightarrow> isBranchFeasible (pg_def p) var succ tmpEs
           | None \<Rightarrow> Some (True, tmpEs))
       | None \<Rightarrow> Some (True, tmpEs));
       if ok
       then case as_index opAs cur of (opAs, v) \<Rightarrow> do {
         rhs \<leftarrow> av_join_with rhs v;
         Some (set_state (pg_rep p opNode) opAs r, rhs) }
       else Some (r, rhs) }
     else Some (r, rhs))"

definition updateStateOnPhi :: "program \<Rightarrow> nat \<Rightarrow> address \<Rightarrow> (address \<times> nat) list \<Rightarrow> run \<Rightarrow> run option" where
  "updateStateOnPhi p n res ops r = do {
     _ \<leftarrow> getAbsStateFromTrace p n r;
     (r, rhs) \<leftarrow> foldM (phi_operand p n) ops (r, av_default);
     as \<leftarrow> getAbsStateFromTrace p n r;
     Some (set_state (pg_rep p n) (as_assign as res rhs) r) }"

definition handleSVFStatement :: "program \<Rightarrow> nat \<Rightarrow> stmt \<Rightarrow> run \<Rightarrow> run option" where
  "handleSVFStatement p n st r = (case st of
     SPhi res ops \<Rightarrow> updateStateOnPhi p n res ops r
   | SUnary \<Rightarrow> Some r
   | SBranch \<Rightarrow> Some r
   | _ \<Rightarrow> do {
       as \<leftarrow> getAbsStateFromTrace p n r;
       as \<leftarrow> handle_on_state (pg_gep p) st as;
       Some (set_state (pg_rep p n) as r) })"

subsection \<open>Calls\<close>

text \<open>Library functions are handled by \<^verbatim>\<open>AbsExtAPI\<close> and the detectors, an argument of the model.\<close>

type_synonym ext_api = "nat \<Rightarrow> run \<Rightarrow> run option"

definition push_call :: "nat \<Rightarrow> run \<Rightarrow> run" where
  "push_call n r = r\<lparr>rn_stack := n # rn_stack r\<rparr>"

definition pop_call :: "run \<Rightarrow> run" where
  "pop_call r = r\<lparr>rn_stack := tl (rn_stack r)\<rparr>"

definition extCallPass :: "ext_api \<Rightarrow> nat \<Rightarrow> run \<Rightarrow> run option" where
  "extCallPass ext n r = do { r \<leftarrow> ext n (push_call n r); Some (pop_call r) }"

text \<open>The stores of the callee are taken to write anything.\<close>

definition havoc_store :: "address \<times> bool \<Rightarrow> abstract_state \<Rightarrow> abstract_state option" where
  "havoc_store = (\<lambda>(lhs, settable) s.
     if inVarToAddrsTable s lhs \<and> settable
     then case as_index s lhs of (s, v) \<Rightarrow>
       foldM (\<lambda>a s. as_store s a (av_of_interval iv_top)) (av_addrs v) s
     else Some s)"

definition SkipRecursiveCall :: "program \<Rightarrow> nat \<Rightarrow> call_site \<Rightarrow> run \<Rightarrow> run option" where
  "SkipRecursiveCall p n c r = do {
     as \<leftarrow> getAbsStateFromTrace p n r;
     if cs_one_succ c
     then do { as \<leftarrow> foldM havoc_store (cs_stores c) as; Some (set_state (pg_rep p n) as r) }
     else Some r }"

definition recursiveCallPass :: "program \<Rightarrow> nat \<Rightarrow> call_site \<Rightarrow> run \<Rightarrow> run option" where
  "recursiveCallPass p n c r = do {
     r \<leftarrow> SkipRecursiveCall p n c r;
     as \<leftarrow> getAbsStateFromTrace p n r;
     let as = (case cs_result c of
       Some (lhs, True) \<Rightarrow> as_assign as lhs (av_of_interval iv_top)
     | _ \<Rightarrow> as);
     Some (set_state (cs_ret c) as (set_state (pg_rep p n) as r)) }"

text \<open>The callee is analysed at the call; \<open>comps\<close> is the run over its components.\<close>

definition call_function :: "program \<Rightarrow> (wto_comp list \<Rightarrow> run \<Rightarrow> run outcome) \<Rightarrow> nat \<Rightarrow> call_site \<Rightarrow> nat \<Rightarrow> run \<Rightarrow> run outcome" where
  "call_function p comps n c f r =
    obind (of_option (getAbsStateFromTrace p n r)) (\<lambda>as.
    obind (of_option (pg_wto p f)) (\<lambda>wto.
    obind (comps wto (set_state n as (push_call n r))) (\<lambda>r.
    case trace_ref n (pop_call r) of (r, s) \<Rightarrow> Done (set_state (cs_ret c) s r))))"

text \<open>An indirect call follows the first of the addresses; other than for direct calls, functions that call themselves
  are not told apart.\<close>

definition indirectCallFunPass ::
  "program \<Rightarrow> (wto_comp list \<Rightarrow> run \<Rightarrow> run outcome) \<Rightarrow> nat \<Rightarrow> call_site \<Rightarrow> address \<Rightarrow> run \<Rightarrow> run outcome" where
  "indirectCallFunPass p comps n c call_id r =
    obind (of_option (getAbsStateFromTrace p n r)) (\<lambda>as.
    if \<not> inVarToAddrsTable as call_id then Done r
    else case av_addrs (snd (as_index as call_id)) of
      [] \<Rightarrow> Abort
    | addr # _ \<Rightarrow> (case pg_object_function p (getInternalID addr) of
        None \<Rightarrow> Done r
      | Some f \<Rightarrow> call_function p comps n c f r))"

definition handleCallSite ::
  "program \<Rightarrow> ext_api \<Rightarrow> (wto_comp list \<Rightarrow> run \<Rightarrow> run outcome) \<Rightarrow> nat \<Rightarrow> call_site \<Rightarrow> run \<Rightarrow> run outcome" where
  "handleCallSite p ext comps n c r =
    (if cs_ext c then of_option (extCallPass ext n r)
     else case cs_function c of
       Some f \<Rightarrow>
         if pg_recursive p f then of_option (recursiveCallPass p n c r)
         else if pg_wto p f \<noteq> None then call_function p comps n c f r
         else (case cs_indirect c of Some i \<Rightarrow> indirectCallFunPass p comps n c i r | None \<Rightarrow> Abort)
     | None \<Rightarrow> (case cs_indirect c of Some i \<Rightarrow> indirectCallFunPass p comps n c i r | None \<Rightarrow> Abort))"

subsection \<open>The run over the components\<close>

fun foldO :: "('a \<Rightarrow> 's \<Rightarrow> 's outcome) \<Rightarrow> 'a list \<Rightarrow> 's \<Rightarrow> 's outcome" where
  "foldO f [] s = Done s"
| "foldO f (x # xs) s = obind (f x s) (foldO f xs)"

text \<open>The loop of a cycle. \<open>merge_head\<close> merges into the head and executes it, \<open>exec_head\<close> only executes it, \<open>body\<close> runs
  over the rest. Before the delay is over the head is not merged.\<close>

fun cycle_loop ::
  "nat \<Rightarrow> nat \<Rightarrow> nat \<Rightarrow> (run \<Rightarrow> run outcome) \<Rightarrow> (run \<Rightarrow> run outcome) \<Rightarrow> (run \<Rightarrow> run outcome) \<Rightarrow> bool \<Rightarrow> nat \<Rightarrow> run \<Rightarrow> run outcome" where
  "cycle_loop 0 delay h merge_head exec_head body increasing cur_iter r = Timeout"
| "cycle_loop (Suc n) delay h merge_head exec_head body increasing cur_iter r =
    (if cur_iter \<ge> delay
     then case trace_ref h r of (r, prev) \<Rightarrow> obind (merge_head r) (\<lambda>r.
       case trace_ref h r of (r, cur) \<Rightarrow>
       if increasing
       then obind (of_option (as_widening prev cur)) (\<lambda>w.
         let r = set_state h w r in
         if as_eq w prev then cycle_loop n delay h merge_head exec_head body False (cur_iter + 1) r
         else obind (body r) (cycle_loop n delay h merge_head exec_head body increasing (cur_iter + 1)))
       else obind (of_option (as_narrowing prev cur)) (\<lambda>w.
         let r = set_state h w r in
         if as_eq w prev then Done r
         else obind (body r) (cycle_loop n delay h merge_head exec_head body increasing (cur_iter + 1))))
     else obind (exec_head r) (\<lambda>r. obind (body r)
       (cycle_loop n delay h merge_head exec_head body increasing (cur_iter + 1))))"

fun handleWTOComponent :: "nat \<Rightarrow> program \<Rightarrow> ext_api \<Rightarrow> wto_comp \<Rightarrow> run \<Rightarrow> run outcome"
and handleSingletonWTO :: "nat \<Rightarrow> program \<Rightarrow> ext_api \<Rightarrow> nat \<Rightarrow> run \<Rightarrow> run outcome" where
  "handleWTOComponent 0 p ext cp r = Timeout"
| "handleWTOComponent (Suc n) p ext (Singleton v) r =
    obind (of_option (mergeStatesFromPredecessors p v r)) (\<lambda>(ok, r).
      if ok then handleSingletonWTO n p ext v r else Done r)"
| "handleWTOComponent (Suc n) p ext (Cycle h body) r =
    obind (of_option (mergeStatesFromPredecessors p h r)) (\<lambda>(ok, r).
      if ok
      then cycle_loop n (pg_widen_delay p) h (\<lambda>r. handleWTOComponent n p ext (Singleton h) r)
        (\<lambda>r. handleSingletonWTO n p ext h r) (foldO (\<lambda>cp r. handleWTOComponent n p ext cp r) body) True 0 r
      else Done r)"
| "handleSingletonWTO 0 p ext v r = Timeout"
| "handleSingletonWTO (Suc n) p ext v r = foldO (\<lambda>cur r.
     obind (of_option (foldM (handleSVFStatement p cur) (pg_stmts p cur) r)) (\<lambda>r.
     case pg_call p cur of
       None \<Rightarrow> Done r
     | Some c \<Rightarrow> handleCallSite p ext (foldO (\<lambda>cp r. handleWTOComponent n p ext cp r)) cur c r)) (pg_sub p v) r"

abbreviation handleWTOComponents :: "nat \<Rightarrow> program \<Rightarrow> ext_api \<Rightarrow> wto_comp list \<Rightarrow> run \<Rightarrow> run outcome" where
  "handleWTOComponents n p ext \<equiv> foldO (\<lambda>cp r. handleWTOComponent n p ext cp r)"

definition handleGlobalNode :: "program \<Rightarrow> run \<Rightarrow> run option" where
  "handleGlobalNode p r = (let n = pg_global p in
     foldM (handleSVFStatement p n) (pg_stmts p n)
       (set_state n (as_assign as_new (pg_null_ptr p) (av_of_addrs [])) r))"

definition analyse :: "nat \<Rightarrow> program \<Rightarrow> ext_api \<Rightarrow> run \<Rightarrow> run outcome" where
  "analyse n p ext r =
    obind (of_option (handleGlobalNode p r)) (\<lambda>r.
    obind (of_option (getAbsStateFromTrace p (pg_global p) r)) (\<lambda>as.
    let r = set_state (pg_rep p (pg_global p)) (as_assign as (pg_blk_ptr p) (av_of_interval iv_top)) r in
    case pg_main p of
      None \<Rightarrow> Done r
    | Some f \<Rightarrow> obind (of_option (pg_wto p f)) (\<lambda>wto. handleWTOComponents n p ext wto r)))"

end
