(* ===== verification/Abstract_Run.thy ===== *)
theory Abstract_Run
  imports Abstract_Interp
begin

text \<open>
  What a run of the abstract interpreter guarantees: more fuel does not change a result, a cycle whose parts do
  their work ends, and merging and executing nodes keeps describing the environments that take the same way.
\<close>

subsection \<open>Narrowing ends\<close>

text \<open>The number of infinite bounds, which narrowing only reduces.\<close>

definition iv_inf :: "interval \<Rightarrow> nat" where
  "iv_inf i = (if is_infinity (iv_lb i) then 1 else 0) + (if is_infinity (iv_ub i) then 1 else 0)"

definition am_inf :: "abs_map \<Rightarrow> nat" where
  "am_inf m = sum_list (map (\<lambda>(k, v). iv_inf (av_interval v)) m)"

definition st_inf :: "abstract_state \<Rightarrow> nat" where
  "st_inf s = am_inf (as_vars s) + am_inf (as_mem s)"

lemma iv_narrow_rank:
  assumes "iv_ok a" "iv_ok b" "iv_containedWithin b a" "\<not> iv_isBottom a" "\<not> iv_isBottom b"
  shows "wp (iv_narrow_with a b) (\<lambda>c. c = a \<or> iv_inf c < iv_inf a)"
proof -
  note o = iv_okD[OF assms(1,4)] iv_okD[OF assms(2,5)]
  let ?l = "if is_infinity (iv_lb a) then iv_lb b else iv_lb a"
  let ?u = "if is_infinity (iv_ub a) then iv_ub b else iv_ub a"
  have l: "?l = iv_lb a \<or> is_infinity (iv_lb a) \<and> \<not> is_infinity ?l"
    using o(4,9) by (cases rule: bi_cases[OF o(1)]; cases rule: bi_cases[OF o(6)]) (auto simp: is_infinity_def)
  have u: "?u = iv_ub a \<or> is_infinity (iv_ub a) \<and> \<not> is_infinity ?u"
    using o(5,10) by (cases rule: bi_cases[OF o(2)]; cases rule: bi_cases[OF o(7)]) (auto simp: is_infinity_def)
  have "iv_narrow_with a b = Some (a\<lparr>iv_lb := ?l, iv_ub := ?u\<rparr>)"
    using assms(4,5) by (simp add: iv_narrow_with_def iv_setValue_ok[OF assms(1)])
  moreover have "a\<lparr>iv_lb := ?l, iv_ub := ?u\<rparr> = a \<or> iv_inf (a\<lparr>iv_lb := ?l, iv_ub := ?u\<rparr>) < iv_inf a"
    using l u by (cases a) (auto simp: iv_inf_def)
  ultimately show ?thesis by simp
qed

lemma am_narrow_rank:
  assumes "am_ok m" "am_ok other" "narrow_room m other"
  shows "wp (am_update av_narrow_with m other) (\<lambda>m'. m' = m \<or> am_inf m' < am_inf m)"
proof -
  let ?R = "\<lambda>v u. u = v \<or> iv_inf (av_interval u) < iv_inf (av_interval v)"
  have f: "wp (av_narrow_with v w) (?R v)"
    if kv: "(k, v) \<in> set m" "map_of other k = Some w" "av_ok v" "av_ok w" "av_isInterval v" "av_isInterval w" for k v w
  proof -
    have c: "iv_containedWithin (av_interval w) (av_interval v)" using assms(3) kv by (auto simp: narrow_room_def)
    obtain j where "iv_narrow_with (av_interval v) (av_interval w) = Some j" "j = av_interval v \<or> iv_inf j < iv_inf (av_interval v)"
      using iv_narrow_rank[OF _ _ c] kv(3-6) unfolding wp_iff av_ok_def av_isInterval_def by blast
    then show ?thesis by (cases v) (auto simp: av_narrow_with_def)
  qed
  have "wp (am_update av_narrow_with m other) (list_all2 (\<lambda>(k, v) (k', u). k' = k \<and> ?R v u) m)"
    by (rule am_update_wp[OF assms(1,2), where R = "\<lambda>v w u. ?R v u"]) (use f in auto)
  then obtain m' where m': "am_update av_narrow_with m other = Some m'"
    and all: "list_all2 (\<lambda>(k, v) (k', u). k' = k \<and> ?R v u) m m'" unfolding wp_iff by blast
  have "am_inf m' \<le> am_inf m \<and> (m' = m \<or> am_inf m' < am_inf m)"
    using all by (induction rule: list_all2_induct) (auto simp: am_inf_def)
  then show ?thesis using m' by simp
qed

lemma as_narrow_rank:
  assumes "st_ok s" "st_ok t" "narrow_room (as_vars s) (as_vars t)" "narrow_room (as_mem s) (as_mem t)"
  shows "wp (as_narrowing s t) (\<lambda>u. st_ok u \<and> (u = s \<or> st_inf u < st_inf s))"
proof -
  have o: "am_ok (as_vars s)" "am_ok (as_mem s)" "am_ok (as_vars t)" "am_ok (as_mem t)" using assms by (simp_all add: st_ok_def)
  obtain vs where vs: "am_update av_narrow_with (as_vars s) (as_vars t) = Some vs" "vs = as_vars s \<or> am_inf vs < am_inf (as_vars s)"
    using am_narrow_rank[OF o(1,3) assms(3)] unfolding wp_iff by blast
  obtain ms where ms: "am_update av_narrow_with (as_mem s) (as_mem t) = Some ms" "ms = as_mem s \<or> am_inf ms < am_inf (as_mem s)"
    using am_narrow_rank[OF o(2,4) assms(4)] unfolding wp_iff by blast
  have "as_narrowing s t = Some (s\<lparr>as_vars := vs, as_mem := ms\<rparr>)" using vs ms by (simp add: as_narrowing_def)
  moreover have "wp (as_narrowing s t) st_ok" using as_narrow_ok[OF assms] by (auto elim: wp_mono)
  ultimately show ?thesis using vs(2) ms(2) by (cases s) (auto simp: st_inf_def)
qed

subsection \<open>Cycles end\<close>

definition st_size :: "abstract_state \<Rightarrow> nat" where
  "st_size s = length (as_vars s) + length (as_mem s)"

lemma am_inf_le: "am_inf m \<le> 2 * length m"
  by (induction m) (auto simp: am_inf_def iv_inf_def)

lemma st_inf_le: "st_inf s \<le> 2 * st_size s"
  using am_inf_le[of "as_vars s"] am_inf_le[of "as_mem s"] by (simp add: st_inf_def st_size_def)

lemma mapM_length: "mapM f xs = Some ys \<Longrightarrow> length ys = length xs"
  by (induction xs arbitrary: ys) (auto split: Option.bind_splits)

lemma as_widening_size: "as_widening s t = Some u \<Longrightarrow> st_size u = st_size s"
  by (auto simp: as_widening_def am_update_def st_size_def dest!: mapM_length split: Option.bind_splits)

text \<open>What the parts of a cycle with head \<open>h\<close> promise on the runs \<open>I\<close> of its widening phase and the runs \<open>J\<close> of its
  narrowing phase: they return, the rest of the cycle leaves the state of the head alone, and in the narrowing
  phase the intervals that arrive at the head lie within those it has.\<close>

definition cycle_contract ::
  "nat \<Rightarrow> (run \<Rightarrow> run outcome) \<Rightarrow> (run \<Rightarrow> run outcome) \<Rightarrow> (run \<Rightarrow> run outcome) \<Rightarrow> (run \<Rightarrow> bool) \<Rightarrow> (run \<Rightarrow> bool) \<Rightarrow> bool" where
  "cycle_contract h merge_head exec_head body I J \<longleftrightarrow>
     (\<forall>r. I r \<or> J r \<longrightarrow> (\<exists>s. rn_trace r h = Some s \<and> st_ok s)) \<and>
     (\<forall>r. I r \<longrightarrow> (\<exists>r1 r2. exec_head r = Done r1 \<and> body r1 = Done r2 \<and> I r2)) \<and>
     (\<forall>r prev. I r \<and> rn_trace r h = Some prev \<longrightarrow> (\<exists>r1 cur. merge_head r = Done r1 \<and> rn_trace r1 h = Some cur \<and> st_ok cur \<and>
        (\<forall>w. as_widening prev cur = Some w \<longrightarrow>
          (if as_eq w prev then J (set_state h w r1)
           else \<exists>r2. body (set_state h w r1) = Done r2 \<and> I r2 \<and> rn_trace r2 h = Some w)))) \<and>
     (\<forall>r prev. J r \<and> rn_trace r h = Some prev \<longrightarrow> (\<exists>r1 cur. merge_head r = Done r1 \<and> rn_trace r1 h = Some cur \<and> st_ok cur \<and>
        narrow_room (as_vars prev) (as_vars cur) \<and> narrow_room (as_mem prev) (as_mem cur) \<and>
        (\<forall>w. as_narrowing prev cur = Some w \<longrightarrow> \<not> as_eq w prev \<longrightarrow>
          (\<exists>r2. body (set_state h w r1) = Done r2 \<and> J r2 \<and> rn_trace r2 h = Some w))))"

lemma trace_ref_Some: "rn_trace r n = Some s \<Longrightarrow> trace_ref n r = (r, s)"
  by (simp add: trace_ref_def)

lemma narrow_phase_ends:
  assumes c: "cycle_contract h mh eh body I J"
  shows "J r \<Longrightarrow> rn_trace r h = Some s \<Longrightarrow> delay \<le> i \<Longrightarrow> st_inf s < n \<Longrightarrow>
    \<exists>r'. cycle_loop n delay h mh eh body False i r = Done r'"
proof (induction n arbitrary: r s i)
  case (Suc n)
  have s: "st_ok s" using c Suc.prems(1,2) unfolding cycle_contract_def by fastforce
  obtain r1 cur where m: "mh r = Done r1" "rn_trace r1 h = Some cur" "st_ok cur" "narrow_room (as_vars s) (as_vars cur)"
      "narrow_room (as_mem s) (as_mem cur)" "\<And>w. as_narrowing s cur = Some w \<Longrightarrow> \<not> as_eq w s \<Longrightarrow>
          \<exists>r2. body (set_state h w r1) = Done r2 \<and> J r2 \<and> rn_trace r2 h = Some w"
    using c Suc.prems(1,2) unfolding cycle_contract_def by blast
  obtain w where w: "as_narrowing s cur = Some w" "st_ok w" "w = s \<or> st_inf w < st_inf s"
    using as_narrow_rank[OF s m(3-5)] unfolding wp_iff by blast
  show ?case
  proof (cases "as_eq w s")
    case True
    then show ?thesis using Suc.prems(2,3) m(1,2) w(1) by (simp add: trace_ref_Some of_option_def Let_def)
  next
    case False
    obtain r2 where r2: "body (set_state h w r1) = Done r2" "J r2" "rn_trace r2 h = Some w" using m(6)[OF w(1) False] by blast
    have "st_inf w < n" using w(3) False as_eq_refl[OF s] Suc.prems(4) by auto
    then obtain r' where "cycle_loop n delay h mh eh body False (i + 1) r2 = Done r'"
      using Suc.IH[OF r2(2,3), of "i + 1"] Suc.prems(3) by auto
    then show ?thesis using Suc.prems(2,3) m(1,2) w(1) False r2(1) by (simp add: trace_ref_Some of_option_def Let_def)
  qed
qed simp

lemma widen_phase_ends:
  assumes c: "cycle_contract h mh eh body I J"
  shows "I r \<Longrightarrow> rn_trace r h = Some s \<Longrightarrow> delay \<le> i \<Longrightarrow> st_rank s + 2 * st_size s + 1 < n \<Longrightarrow>
    \<exists>r'. cycle_loop n delay h mh eh body True i r = Done r'"
proof (induction n arbitrary: r s i)
  case (Suc n)
  have s: "st_ok s" using c Suc.prems(1,2) unfolding cycle_contract_def by fastforce
  obtain r1 cur where m: "mh r = Done r1" "rn_trace r1 h = Some cur" "st_ok cur" "\<And>w. as_widening s cur = Some w \<Longrightarrow>
          (if as_eq w s then J (set_state h w r1)
           else \<exists>r2. body (set_state h w r1) = Done r2 \<and> I r2 \<and> rn_trace r2 h = Some w)"
    using c Suc.prems(1,2) unfolding cycle_contract_def by blast
  obtain w where w: "as_widening s cur = Some w" "st_ok w" "w = s \<or> st_rank w < st_rank s"
    using as_widen_ok[OF s m(3)] unfolding wp_iff by blast
  have sz: "st_size w = st_size s" by (rule as_widening_size[OF w(1)])
  show ?case
  proof (cases "as_eq w s")
    case True
    have "J (set_state h w r1)" using m(4)[OF w(1)] True by simp
    moreover have "rn_trace (set_state h w r1) h = Some w" by (simp add: set_state_def)
    moreover have "st_inf w < n" using st_inf_le[of w] sz Suc.prems(4) by linarith
    ultimately obtain r' where "cycle_loop n delay h mh eh body False (i + 1) (set_state h w r1) = Done r'"
      using narrow_phase_ends[OF c, of "set_state h w r1" w delay "i + 1" n] Suc.prems(3) by auto
    then show ?thesis using Suc.prems(2,3) m(1,2) w(1) True by (simp add: trace_ref_Some of_option_def Let_def)
  next
    case False
    obtain r2 where r2: "body (set_state h w r1) = Done r2" "I r2" "rn_trace r2 h = Some w" using m(4)[OF w(1)] False by auto
    have "st_rank w + 2 * st_size w + 1 < n" using w(3) False as_eq_refl[OF s] sz Suc.prems(4) by auto
    then obtain r' where "cycle_loop n delay h mh eh body True (i + 1) r2 = Done r'"
      using Suc.IH[OF r2(2,3), of "i + 1"] Suc.prems(3) by auto
    then show ?thesis using Suc.prems(2,3) m(1,2) w(1) False r2(1) by (simp add: trace_ref_Some of_option_def Let_def)
  qed
qed simp

text \<open>The whole loop.\<close>

lemma cycle_ends:
  assumes c: "cycle_contract h mh eh body I J"
  shows "I r \<Longrightarrow> \<exists>n r'. cycle_loop n delay h mh eh body True i r = Done r'"
proof (induction "delay - i" arbitrary: i r)
  case 0
  obtain s where s: "rn_trace r h = Some s" using c 0(2) unfolding cycle_contract_def by blast
  have d: "delay \<le> i" "st_rank s + 2 * st_size s + 1 < st_rank s + 2 * st_size s + 2" using 0(1) by simp_all
  show ?case using widen_phase_ends[OF c 0(2) s d] by blast
next
  case (Suc d)
  obtain r1 r2 where r2: "eh r = Done r1" "body r1 = Done r2" "I r2" using c Suc(3) unfolding cycle_contract_def by blast
  obtain n r' where "cycle_loop n delay h mh eh body True (i + 1) r2 = Done r'" proof -
    have "d = delay - (i + 1)" using Suc(2) by simp
    from Suc(1)[OF this r2(3)] show ?thesis using that by blast
  qed
  moreover have "\<not> delay \<le> i" using Suc(2) by simp
  ultimately have "cycle_loop (Suc n) delay h mh eh body True i r = Done r'" using r2(1,2) by simp
  then show ?case by blast
qed

subsection \<open>Fuel\<close>

text \<open>With more fuel a run that came to an end comes to the same end.\<close>

definition extends :: "'a outcome \<Rightarrow> 'a outcome \<Rightarrow> bool" where
  "extends b a \<longleftrightarrow> a = Timeout \<or> b = a"

lemma extends_refl [simp]: "extends a a" "extends a Timeout"
  by (simp_all add: extends_def)

lemma extends_obind: "extends b a \<Longrightarrow> (\<And>x. extends (g x) (f x)) \<Longrightarrow> extends (obind b g) (obind a f)"
  by (cases a) (auto simp: extends_def)

lemma extends_foldO: "(\<And>x s. extends (g x s) (f x s)) \<Longrightarrow> extends (foldO g xs s) (foldO f xs s)"
  by (induction xs arbitrary: s) (auto intro: extends_obind)

lemma extends_if: "(b \<Longrightarrow> extends x u) \<Longrightarrow> (\<not> b \<Longrightarrow> extends y v) \<Longrightarrow> extends (if b then x else y) (if b then u else v)"
  by simp

lemma extends_pair: "(\<And>a b. extends (g a b) (f a b)) \<Longrightarrow> extends (case p of (a, b) \<Rightarrow> g a b) (case p of (a, b) \<Rightarrow> f a b)"
  by (cases p) simp

lemma extends_cycle_loop:
  assumes "\<And>r. extends (mh' r) (mh r)" "\<And>r. extends (eh' r) (eh r)" "\<And>r. extends (body' r) (body r)"
  shows "n \<le> m \<Longrightarrow> extends (cycle_loop m delay h mh' eh' body' inc i r) (cycle_loop n delay h mh eh body inc i r)"
proof (induction n arbitrary: m inc i r)
  case (Suc n)
  then obtain k where m: "m = Suc k" "n \<le> k" by (cases m) auto
  note ih = Suc.IH[OF m(2)]
  show ?case
    unfolding m(1) cycle_loop.simps Let_def
    by (intro extends_if extends_pair extends_obind assms ih extends_refl)
qed simp

lemma extends_call_function:
  assumes "\<And>cs r. extends (comps' cs r) (comps cs r)"
  shows "extends (call_function p comps' n c f r) (call_function p comps n c f r)"
  unfolding call_function_def by (intro extends_obind assms extends_refl)

lemma extends_indirect:
  assumes "\<And>cs r. extends (comps' cs r) (comps cs r)"
  shows "extends (indirectCallFunPass p comps' n c i r) (indirectCallFunPass p comps n c i r)"
  unfolding indirectCallFunPass_def
  by (intro extends_obind extends_if extends_refl)
    (auto split: list.split option.split intro: extends_call_function[OF assms])

lemma extends_handleCallSite:
  assumes "\<And>cs r. extends (comps' cs r) (comps cs r)"
  shows "extends (handleCallSite p ext comps' n c r) (handleCallSite p ext comps n c r)"
  using extends_call_function[of comps' comps, OF assms] extends_indirect[of comps' comps, OF assms]
  by (auto simp: handleCallSite_def split: option.split)

lemma more_fuel_aux:
  "n \<le> m \<Longrightarrow> extends (handleWTOComponent m p ext cp r) (handleWTOComponent n p ext cp r) \<and>
     extends (handleSingletonWTO m p ext v r) (handleSingletonWTO n p ext v r)"
proof (induction n arbitrary: m cp v r)
  case (Suc n)
  then obtain k where m: "m = Suc k" "n \<le> k" by (cases m) auto
  have comp: "extends (handleWTOComponent k p ext cp r) (handleWTOComponent n p ext cp r)"
    and single: "extends (handleSingletonWTO k p ext v r) (handleSingletonWTO n p ext v r)" for cp v r
    using Suc.IH[OF m(2)] by blast+
  have comps: "extends (handleWTOComponents k p ext cs r) (handleWTOComponents n p ext cs r)" for cs r
    by (rule extends_foldO) (rule comp)
  have 1: "extends (handleWTOComponent m p ext cp r) (handleWTOComponent (Suc n) p ext cp r)"
    unfolding m(1)
    by (cases cp; simp only: handleWTOComponent.simps)
      (intro extends_obind extends_pair extends_if extends_cycle_loop comp single comps m(2) extends_refl)+
  have 2: "extends (handleSingletonWTO m p ext v r) (handleSingletonWTO (Suc n) p ext v r)"
    unfolding m(1) handleSingletonWTO.simps
    by (intro extends_foldO extends_obind extends_refl)
      (auto split: option.split intro: extends_handleCallSite comps)
  show ?case using 1 2 by blast
qed simp

lemma more_fuel: "n \<le> m \<Longrightarrow> handleWTOComponents n p ext cs r = o' \<Longrightarrow> o' \<noteq> Timeout \<Longrightarrow> handleWTOComponents m p ext cs r = o'"
proof -
  assume h: "n \<le> m" "handleWTOComponents n p ext cs r = o'" "o' \<noteq> Timeout"
  have "extends (handleWTOComponents m p ext cs r) (handleWTOComponents n p ext cs r)"
    by (rule extends_foldO) (use more_fuel_aux[OF h(1)] in blast)
  then show ?thesis using h(2,3) by (simp add: extends_def)
qed

lemma analyse_fuel: "n \<le> m \<Longrightarrow> analyse n p ext r = o' \<Longrightarrow> o' \<noteq> Timeout \<Longrightarrow> analyse m p ext r = o'"
proof -
  assume h: "n \<le> m" "analyse n p ext r = o'" "o' \<noteq> Timeout"
  have comps: "extends (handleWTOComponents m p ext cs r) (handleWTOComponents n p ext cs r)" for cs r
    by (rule extends_foldO) (use more_fuel_aux[OF h(1)] in blast)
  have "extends (analyse m p ext r) (analyse n p ext r)"
    unfolding analyse_def Let_def
    by (intro extends_obind extends_refl) (auto split: option.split intro!: extends_obind comps)
  then show ?thesis using h(2,3) by (simp add: extends_def)
qed

subsection \<open>Merging is sound and precise\<close>

text \<open>Every edge into a node contributes well-formed states.\<close>

definition edges_ok :: "program \<Rightarrow> trace \<Rightarrow> nat \<Rightarrow> bool" where
  "edges_ok p tr n \<longleftrightarrow> (\<forall>e\<in>set (pg_in_edges p n). \<exists>ss. edge_state p tr e = Some ss \<and> list_all st_ok ss)"

text \<open>An environment comes over an edge: the state at the source describes it, and it takes the branch of the edge. Of a
  branch on loaded variables the code expects, besides, that each object the pointer may target holds the value.\<close>

definition comes_over :: "program \<Rightarrow> trace \<Rightarrow> icfg_edge \<Rightarrow> (place \<rightharpoonup> cval) \<Rightarrow> bool" where
  "comes_over p tr e env \<longleftrightarrow> (\<exists>s. tr (ed_src e) = Some s \<and> st_ok s \<and> models s env) \<and>
     (\<forall>var n. ed_intra e \<longrightarrow> ed_cond e = Some (var, n) \<longrightarrow> takes_branch (pg_def p) env var n)"

definition reads_back :: "program \<Rightarrow> trace \<Rightarrow> icfg_edge \<Rightarrow> (place \<rightharpoonup> cval) \<Rightarrow> bool" where
  "reads_back p tr e env \<longleftrightarrow> (\<forall>s var n. tr (ed_src e) = Some s \<longrightarrow> ed_intra e \<longrightarrow> ed_cond e = Some (var, n) \<longrightarrow>
     all_targets_read (pg_def p) s env var)"

lemma edge_state_sound:
  assumes "comes_over p tr e env" "reads_back p tr e env"
  shows "wp (edge_state p tr e) (\<lambda>ss. \<exists>s\<in>set ss. models s env)"
proof -
  obtain s where s: "tr (ed_src e) = Some s" "st_ok s" "models s env"
    and b: "\<And>var n. ed_intra e \<Longrightarrow> ed_cond e = Some (var, n) \<Longrightarrow> takes_branch (pg_def p) env var n"
    using assms(1) unfolding comes_over_def by blast
  show ?thesis
  proof (cases "ed_intra e \<and> ed_cond e \<noteq> None")
    case True
    then obtain var n where e: "ed_intra e" "ed_cond e = Some (var, n)" by auto
    have "all_targets_read (pg_def p) s env var" using assms(2) s(1) e unfolding reads_back_def by blast
    then obtain s' where "isBranchFeasible (pg_def p) var n s = Some (True, s')" "models s' env"
      using branch_sound[OF s(2,3) b[OF e]] unfolding wp_iff by auto
    then show ?thesis using s(1) e by (simp add: edge_state_def)
  next
    case False
    then have "edge_state p tr e = Some [s]" using s(1) by (auto simp: edge_state_def split: bool.split option.split)
    then show ?thesis using s(3) by simp
  qed
qed

lemma list_all2_concat:
  "list_all2 (\<lambda>e ss. f e = Some ss \<and> list_all P ss) es sss \<Longrightarrow> list_all P (concat sss) \<and>
     (\<forall>e\<in>set es. \<exists>ss. f e = Some ss \<and> set ss \<subseteq> set (concat sss))"
  by (induction rule: list_all2_induct) (auto, blast)

lemma merge_contributions:
  assumes "edges_ok p tr n"
  obtains sss where "mapM (edge_state p tr) (pg_in_edges p n) = Some sss" "list_all st_ok (concat sss)"
    "\<forall>e\<in>set (pg_in_edges p n). \<exists>ss. edge_state p tr e = Some ss \<and> set ss \<subseteq> set (concat sss)"
proof -
  have "wp (mapM (edge_state p tr) (pg_in_edges p n))
      (list_all2 (\<lambda>e ss. edge_state p tr e = Some ss \<and> list_all st_ok ss) (pg_in_edges p n))"
    by (rule wp_mapM) (use assms in \<open>auto simp: edges_ok_def wp_iff\<close>)
  then obtain sss where "mapM (edge_state p tr) (pg_in_edges p n) = Some sss"
      "list_all2 (\<lambda>e ss. edge_state p tr e = Some ss \<and> list_all st_ok ss) (pg_in_edges p n) sss"
    unfolding wp_iff by blast
  then show ?thesis using that list_all2_concat by blast
qed

lemma join_all:
  assumes "list_all st_ok ss"
  shows "wp (foldM (\<lambda>s acc. as_joinWith acc s) (rev ss) as_new) (\<lambda>t. st_ok t \<and> (\<forall>s\<in>set ss. st_gam s \<subseteq> st_gam t) \<and>
    (\<forall>d. st_ok d \<longrightarrow> (\<forall>s\<in>set ss. st_gam s \<subseteq> st_gam d) \<longrightarrow> st_gam t \<subseteq> st_gam d))"
  using st_dom.join_list[of as_new "rev ss"] assms by (auto simp: list_all_iff elim!: wp_mono)

text \<open>The state of the node becomes the least one above what the edges contribute.\<close>

lemma merge_least:
  assumes "edges_ok p (rn_trace r) n"
  shows "wp (mergeStatesFromPredecessors p n r) (\<lambda>(ok, r'). \<exists>sss. mapM (edge_state p (rn_trace r)) (pg_in_edges p n) = Some sss \<and>
    (ok \<longleftrightarrow> concat sss \<noteq> []) \<and> (\<not> ok \<longrightarrow> r' = r) \<and>
    (ok \<longrightarrow> (\<exists>t. r' = set_state n t r \<and> st_ok t \<and> (\<forall>s\<in>set (concat sss). st_gam s \<subseteq> st_gam t) \<and>
      (\<forall>d. st_ok d \<longrightarrow> (\<forall>s\<in>set (concat sss). st_gam s \<subseteq> st_gam d) \<longrightarrow> st_gam t \<subseteq> st_gam d))))"
proof -
  obtain sss where sss: "mapM (edge_state p (rn_trace r)) (pg_in_edges p n) = Some sss" "list_all st_ok (concat sss)"
    by (rule merge_contributions[OF assms])
  show ?thesis
  proof (cases "concat sss = []")
    case True
    then show ?thesis by (simp add: mergeStatesFromPredecessors_def sss(1))
  next
    case False
    obtain t where t: "foldM (\<lambda>s acc. as_joinWith acc s) (rev (concat sss)) as_new = Some t" "st_ok t"
        "\<forall>s\<in>set (concat sss). st_gam s \<subseteq> st_gam t"
        "\<forall>d. st_ok d \<longrightarrow> (\<forall>s\<in>set (concat sss). st_gam s \<subseteq> st_gam d) \<longrightarrow> st_gam t \<subseteq> st_gam d"
      using join_all[OF sss(2)] unfolding wp_iff by blast
    have "mergeStatesFromPredecessors p n r = Some (True, set_state n t r)"
      using False by (simp add: mergeStatesFromPredecessors_def sss(1) t(1) Let_def del: set_concat concat_eq_Nil_conv)
    then show ?thesis using sss(1) False t(2-4) by (simp del: set_concat concat_eq_Nil_conv) blast
  qed
qed

lemma merge_sound:
  assumes "edges_ok p (rn_trace r) n" "e \<in> set (pg_in_edges p n)" "comes_over p (rn_trace r) e env"
    and "reads_back p (rn_trace r) e env"
  shows "wp (mergeStatesFromPredecessors p n r) (\<lambda>(ok, r'). ok \<and> (\<exists>t. r' = set_state n t r \<and> st_ok t \<and> models t env))"
proof -
  obtain sss where sss: "mapM (edge_state p (rn_trace r)) (pg_in_edges p n) = Some sss"
    "\<forall>e\<in>set (pg_in_edges p n). \<exists>ss. edge_state p (rn_trace r) e = Some ss \<and> set ss \<subseteq> set (concat sss)"
    by (rule merge_contributions[OF assms(1)])
  obtain s where s: "s \<in> set (concat sss)" "models s env"
    using edge_state_sound[OF assms(3,4)] sss(2) assms(2) unfolding wp_iff by fastforce
  then have ne: "concat sss \<noteq> []" by force
  obtain ok r' where m: "mergeStatesFromPredecessors p n r = Some (ok, r')" "ok"
      "\<exists>t. r' = set_state n t r \<and> st_ok t \<and> (\<forall>s\<in>set (concat sss). st_gam s \<subseteq> st_gam t)"
    using merge_least[OF assms(1)] sss(1) ne unfolding wp_iff by auto
  then show ?thesis using s models_mono by (simp del: set_concat) blast
qed

subsection \<open>Nodes\<close>

text \<open>The statements of a node lead from one environment to another, each within what its handler needs of the state
  it meets.\<close>

inductive covered :: "gep_env \<Rightarrow> abstract_state \<Rightarrow> stmt list \<Rightarrow> (place \<rightharpoonup> cval) \<Rightarrow> (place \<rightharpoonup> cval) \<Rightarrow> bool" for g where
  Nil: "covered g s [] env env"
| Cons: "cstep st env env1 \<Longrightarrow> stmt_room s st \<Longrightarrow> (\<And>s1. handle_on_state g st s = Some s1 \<Longrightarrow> covered g s1 sts env1 env2) \<Longrightarrow>
    covered g s (st # sts) env env2"

inductive_cases covered_ConsE: "covered g s (st # sts) env env2"
inductive_simps covered_Nil [simp]: "covered g s [] env env2"

lemma handleSVFStatement_state:
  assumes "cstep st env env1" "rn_trace r (pg_rep p n) = Some s" "handle_on_state (pg_gep p) st s = Some s1"
  shows "handleSVFStatement p n st r = Some (set_state (pg_rep p n) s1 r)"
proof -
  have same: "set_state (pg_rep p n) s r = r" using assms(2) by (simp add: set_state_def fun_upd_idem)
  show ?thesis
  proof (cases "st = SBranch \<or> st = SUnary")
    case True
    then have "s1 = s" using assms(3) by (auto simp: handle_on_state_def)
    then show ?thesis using True same assms(2) by (auto simp: handleSVFStatement_def getAbsStateFromTrace_def)
  next
    case False
    then show ?thesis using assms by (cases st) (auto simp: handleSVFStatement_def getAbsStateFromTrace_def handle_on_state_def)
  qed
qed

lemma set_state_twice [simp]: "set_state n s (set_state n t r) = set_state n s r"
  by (simp add: set_state_def)

lemma statements_sound:
  assumes "st_ok s" "models s env" "covered (pg_gep p) s sts env env'" "rn_trace r (pg_rep p n) = Some s"
  shows "wp (foldM (handleSVFStatement p n) sts r) (\<lambda>r'. \<exists>t. r' = set_state (pg_rep p n) t r \<and> st_ok t \<and> models t env')"
  using assms
proof (induction sts arbitrary: s env r)
  case Nil
  have "set_state (pg_rep p n) s r = r" using Nil.prems(4) by (simp add: set_state_def fun_upd_idem)
  then show ?case using Nil.prems by (auto intro!: exI[of _ s])
next
  case (Cons st sts)
  obtain env1 where e: "cstep st env env1" "stmt_room s st"
      "\<And>s1. handle_on_state (pg_gep p) st s = Some s1 \<Longrightarrow> covered (pg_gep p) s1 sts env1 env'"
    using Cons.prems(3) by (rule covered_ConsE) blast
  obtain s1 where s1: "handle_on_state (pg_gep p) st s = Some s1" "st_ok s1" "models s1 env1"
    using handler_sound[OF Cons.prems(1,2) e(1,2)] unfolding wp_iff by blast
  have "rn_trace (set_state (pg_rep p n) s1 r) (pg_rep p n) = Some s1" by (simp add: set_state_def)
  from Cons.IH[OF s1(2,3) e(3)[OF s1(1)] this]
  show ?case using handleSVFStatement_state[OF e(1) Cons.prems(4) s1(1)] by simp
qed

text \<open>An environment that comes over an edge into a node without calls, and that its statements lead to another from the
  state that the merge leaves at the node: the state of the node describes that one afterwards.\<close>

lemma node_sound:
  assumes "pg_sub p n = [n]" "pg_rep p n = n" "pg_call p n = None"
    and "edges_ok p (rn_trace r) n" "e \<in> set (pg_in_edges p n)" "comes_over p (rn_trace r) e env" "reads_back p (rn_trace r) e env"
    and "\<And>t. mergeStatesFromPredecessors p n r = Some (True, set_state n t r) \<Longrightarrow> covered (pg_gep p) t (pg_stmts p n) env env'"
  shows "\<exists>t. handleWTOComponent (Suc (Suc k)) p ext (Singleton n) r = Done (set_state n t r) \<and> st_ok t \<and> models t env'"
proof -
  obtain t where t: "mergeStatesFromPredecessors p n r = Some (True, set_state n t r)" "st_ok t" "models t env"
    using merge_sound[OF assms(4-7)] unfolding wp_iff by auto
  have r: "rn_trace (set_state n t r) (pg_rep p n) = Some t" by (simp add: set_state_def assms(2))
  obtain u where "foldM (handleSVFStatement p n) (pg_stmts p n) (set_state n t r) = Some (set_state n u (set_state n t r))"
      "st_ok u" "models u env'"
    using statements_sound[OF t(2,3) assms(8)[OF t(1)] r] unfolding wp_iff assms(2) by blast
  then show ?thesis using t(1) assms(1,3) by (intro exI[of _ u]) (simp add: of_option_def)
qed

subsection \<open>A function that calls itself through a pointer\<close>

text \<open>The global node takes the address of function 7, whose object is 10, into variable 5. Node 1 is the body of
  the function, which is \<^verbatim>\<open>main\<close>, and calls through that variable.\<close>

definition self_object :: obj_var where
  "self_object = \<lparr>ov_id = 10, ov_type = RestType 8, ov_class = RestObj, ov_constData = False, ov_constArray = False,
     ov_constStruct = False\<rparr>"

definition self_state :: abstract_state where
  "self_state = \<lparr>as_vars = [(3, av_of_addrs []), (10, av_of_addrs [0x7f00000a]), (5, av_of_addrs [0x7f00000a]),
     (2, av_of_interval iv_top)], as_mem = []\<rparr>"

definition self_call :: call_site where
  "self_call = \<lparr>cs_function = None, cs_ext = False, cs_indirect = Some 5, cs_ret = 2, cs_result = None, cs_one_succ = True,
     cs_stores = []\<rparr>"

definition self_program :: program where
  "self_program = \<lparr>pg_gep = \<lparr>ge_arrays = False, ge_limit = 512, ge_field = \<lambda>_ _. None\<rparr>,
     pg_in_edges = (\<lambda>_. [])(1 := [\<lparr>ed_src = 0, ed_intra = False, ed_cond = None\<rparr>, \<lparr>ed_src = 1, ed_intra = False, ed_cond = None\<rparr>]),
     pg_stmts = (\<lambda>_. [])(0 := [SAddr 5 self_object]), pg_sub = \<lambda>n. [n], pg_rep = \<lambda>n. n, pg_def = \<lambda>_. [],
     pg_call = (\<lambda>_. None)(1 \<mapsto> self_call),
     pg_wto = (\<lambda>_. None)(7 \<mapsto> [Singleton 1]), pg_recursive = \<lambda>f. f = 7, pg_object_function = (\<lambda>_. None)(10 \<mapsto> 7),
     pg_widen_delay = 3, pg_global = 0, pg_null_ptr = 3, pg_blk_ptr = 2, pg_main = Some 7\<rparr>"

lemma self_join: "as_joinWith as_new self_state = Some self_state" "as_joinWith self_state self_state = Some self_state"
  by code_simp+

lemma self_global: "map_option (\<lambda>s. as_assign s 2 (av_of_interval iv_top))
    (handle_on_state (pg_gep self_program) (SAddr 5 self_object) (as_assign as_new 3 (av_of_addrs []))) = Some self_state"
  by code_simp

lemma self_merge:
  assumes "rn_trace r 0 = Some self_state" "rn_trace r 1 \<in> {None, Some self_state}"
  shows "mergeStatesFromPredecessors self_program 1 r = Some (True, set_state 1 self_state r)"
  using assms self_join by (auto simp: mergeStatesFromPredecessors_def self_program_def edge_state_def)

lemma self_facts:
  "pg_sub self_program 1 = [1]" "pg_stmts self_program 1 = []" "pg_rep self_program 0 = 0" "pg_stmts self_program 0 = [SAddr 5 self_object]" "pg_rep self_program 1 = 1" "pg_call self_program 1 = Some self_call"
  "pg_wto self_program 7 = Some [Singleton 1]" "pg_object_function self_program 10 = Some 7" "pg_main self_program = Some 7" "pg_global self_program = 0"
  "pg_null_ptr self_program = 3" "pg_blk_ptr self_program = 2"
  by (simp_all add: self_program_def)

lemma self_lookup: "inVarToAddrsTable self_state 5" "av_addrs (snd (as_index self_state 5)) = [0x7f00000a]" "getInternalID 0x7f00000a = 10"
  by code_simp+

lemma self_call_runs:
  "rn_trace r 0 = Some self_state \<Longrightarrow> rn_trace r 1 \<in> {None, Some self_state} \<Longrightarrow>
     handleWTOComponent n self_program ext (Singleton 1) r = Timeout"
proof (induction n arbitrary: r rule: less_induct)
  case (less n)
  consider "n = 0" | "n = Suc 0" | k where "n = Suc (Suc k)" by (metis not0_implies_Suc)
  then show ?case
  proof cases
    case 2
    then show ?thesis using self_merge[OF less.prems] by (simp add: of_option_def)
  next
    case 3
    let ?r = "set_state 1 self_state (push_call 1 (set_state 1 self_state r))"
    have "rn_trace ?r 0 = Some self_state" "rn_trace ?r 1 \<in> {None, Some self_state}"
      using less.prems(1) by (simp_all add: set_state_def push_call_def)
    then have t: "handleWTOComponent k self_program ext (Singleton 1) ?r = Timeout" using less.IH 3 by simp
    have tr: "rn_trace (set_state 1 self_state r) 1 = Some self_state" by (simp add: set_state_def)
    have call: "handleCallSite self_program ext (handleWTOComponents k self_program ext) 1 self_call (set_state 1 self_state r) = Timeout"
      using t tr
      by (simp add: handleCallSite_def self_call_def indirectCallFunPass_def getAbsStateFromTrace_def self_facts self_lookup
          of_option_def call_function_def del: One_nat_def)
    show ?thesis
      using self_merge[OF less.prems] call by (simp add: 3 of_option_def self_facts del: One_nat_def)
  qed simp
qed

lemma self_analyse:
  assumes "rn_trace r 1 = None"
  shows "analyse n self_program ext r = Timeout"
proof -
  obtain s where s: "handle_on_state (pg_gep self_program) (SAddr 5 self_object) (as_assign as_new 3 (av_of_addrs [])) = Some s"
      "as_assign s 2 (av_of_interval iv_top) = self_state"
    using self_global by auto
  let ?r = "set_state 0 self_state (set_state 0 s (set_state 0 (as_assign as_new 3 (av_of_addrs [])) r))"
  have g: "handleGlobalNode self_program r = Some (set_state 0 s (set_state 0 (as_assign as_new 3 (av_of_addrs [])) r))"
    using s(1) by (simp add: handleGlobalNode_def handleSVFStatement_def getAbsStateFromTrace_def self_facts set_state_def Let_def
        del: One_nat_def)
  have "handleWTOComponent n self_program ext (Singleton 1) ?r = Timeout"
    by (rule self_call_runs) (use assms in \<open>simp_all add: set_state_def\<close>)
  then show ?thesis
    using g s(2) by (simp add: analyse_def of_option_def getAbsStateFromTrace_def self_facts set_state_def Let_def del: One_nat_def)
qed

end
