(* ===== verification/CFL_Grammar.thy ===== *)
theory CFL_Grammar
  imports Work_List
begin

text \<open>
  Grammars of the reachability analyses, after \<^verbatim>\<open>svf/include/CFL/CFGrammar.h\<close> and the
  last two steps of \<^verbatim>\<open>svf/lib/CFL/CFGNormalizer.cpp\<close>: a \<^verbatim>\<open>Symbol\<close> is a word of 32 bits cut
  into a kind, an attribute and a variable attribute; \<open>fillAttribute\<close> replaces the
  variable attributes of the raw productions by all attributes that occur
  (\<open>getFilledProductions\<close>) and \<open>insertToCFLGrammar\<close> files each production under its length and
  its symbols, the index the solvers read.

  A \<^verbatim>\<open>Productions\<close> is a hash set: it is a list without duplicates in the order in which it is
  iterated, and no result here depends on that order. \<^verbatim>\<open>CFLFIFOWorkList\<close> is, word for word, the
  queue of \<open>Work_List\<close>.
\<close>

subsection \<open>Symbols\<close>

record symbol =
  sy_kind :: "8 word"
  sy_attribute :: "16 word"
  sy_variableAttribute :: "8 word"

definition sym_new :: symbol where
  "sym_new = \<lparr>sy_kind = 0, sy_attribute = 0, sy_variableAttribute = 0\<rparr>"

definition sym_of_num :: "32 word \<Rightarrow> symbol" where
  "sym_of_num num = \<lparr>sy_kind = ucast (num AND 0xFF), sy_attribute = ucast (drop_bit 8 num AND 0xFFFF),
     sy_variableAttribute = ucast (drop_bit 24 num)\<rparr>"

definition num_of_sym :: "symbol \<Rightarrow> 32 word" where
  "num_of_sym s = push_bit 24 (ucast (sy_variableAttribute s)) + push_bit 8 (ucast (sy_attribute s)) + ucast (sy_kind s)"

text \<open>Assignment of a number writes the three fields of an existing symbol.\<close>

definition sym_assign :: "symbol \<Rightarrow> 32 word \<Rightarrow> symbol" where
  "sym_assign s i = s\<lparr>sy_kind := ucast (0xFF AND i), sy_attribute := ucast (drop_bit 8 i),
     sy_variableAttribute := ucast (drop_bit 24 i)\<rparr>"

definition sym_less :: "symbol \<Rightarrow> symbol \<Rightarrow> bool" where
  "sym_less s t \<longleftrightarrow> num_of_sym s < num_of_sym t"

definition getAttributedKind :: "32 word \<Rightarrow> 32 word \<Rightarrow> 32 word" where
  "getAttributedKind attribute kind = push_bit 8 attribute OR kind"

definition getVariabledKind :: "32 word \<Rightarrow> 32 word \<Rightarrow> 32 word" where
  "getVariabledKind variableAttribute kind = push_bit 24 variableAttribute OR kind"

lemma mask_numerals: "0xFF = (mask 8 :: 32 word)" "0xFFFF = (mask 16 :: 32 word)"
  by (simp_all add: mask_eq_exp_minus_1)

lemma num_of_sym_or:
  "num_of_sym s = push_bit 24 (ucast (sy_variableAttribute s)) OR push_bit 8 (ucast (sy_attribute s)) OR ucast (sy_kind s)"
  (is "_ = ?v OR ?a OR ?k")
proof -
  have "?v AND ?a = 0" "(?v OR ?a) AND ?k = 0"
    by (rule bit_word_eqI; auto simp: bit_simps dest: bit_imp_le_length)+
  then show ?thesis by (simp only: num_of_sym_def disjunctive_add_eq_or or.assoc)
qed

text \<open>The two conversions are inverse to each other.\<close>

lemma sym_of_num_of_sym [simp]: "sym_of_num (num_of_sym s) = s"
proof -
  have "ucast (num_of_sym s AND mask 8) = sy_kind s"
    unfolding num_of_sym_or by (rule bit_word_eqI) (auto simp: bit_simps)
  moreover have "ucast (drop_bit 8 (num_of_sym s) AND mask 16) = sy_attribute s"
    unfolding num_of_sym_or by (rule bit_word_eqI) (auto simp: bit_simps dest: bit_imp_le_length)
  moreover have "ucast (drop_bit 24 (num_of_sym s)) = sy_variableAttribute s"
    unfolding num_of_sym_or by (rule bit_word_eqI) (auto simp: bit_simps dest: bit_imp_le_length)
  ultimately show ?thesis by (simp add: sym_of_num_def mask_numerals)
qed

lemma num_of_sym_of_num [simp]: "num_of_sym (sym_of_num n) = n"
  unfolding num_of_sym_or
proof (rule bit_word_eqI)
  fix i assume "i < LENGTH(32)"
  moreover have "24 \<le> i \<Longrightarrow> 24 + (i - 24) = i" "8 \<le> i \<Longrightarrow> 8 + (i - 8) = i" "i < 24 \<Longrightarrow> i - 8 < 16" by simp_all
  ultimately show "bit (push_bit 24 (ucast (sy_variableAttribute (sym_of_num n))) OR push_bit 8 (ucast (sy_attribute (sym_of_num n)))
      OR ucast (sy_kind (sym_of_num n)) :: 32 word) i = bit n i"
    unfolding sym_of_num_def mask_numerals by (cases "24 \<le> i"; cases "8 \<le> i") (simp_all add: bit_simps; linarith?)+
qed

lemma num_of_sym_eq_iff [simp]: "num_of_sym s = num_of_sym t \<longleftrightarrow> s = t"
  by (metis sym_of_num_of_sym)

lemma sym_assign_eq: "sym_assign s n = sym_of_num n"
proof -
  have "ucast (mask 8 AND n) = (ucast (n AND mask 8) :: 8 word)" by (simp add: and.commute)
  moreover have "(ucast (drop_bit 8 n) :: 16 word) = ucast (drop_bit 8 n AND mask 16)"
    by (rule bit_word_eqI) (auto simp: bit_simps)
  ultimately show ?thesis by (simp add: sym_assign_def sym_of_num_def mask_numerals)
qed

subsection \<open>The normalised grammar\<close>

type_synonym production = "symbol list"

definition prod_at :: "production \<Rightarrow> nat \<Rightarrow> symbol option" where
  "prod_at pr pos = (if pos < length pr then Some (pr ! pos) else None)"

record grammar =
  gr_epsilonProds :: "production list"
  gr_singleRHSToProds :: "(symbol \<times> production list) list"
  gr_firstRHSToProds :: "(symbol \<times> production list) list"
  gr_secondRHSToProds :: "(symbol \<times> production list) list"

definition gr_new :: grammar where
  "gr_new = \<lparr>gr_epsilonProds = [], gr_singleRHSToProds = [], gr_firstRHSToProds = [], gr_secondRHSToProds = []\<rparr>"

text \<open>Insertion into a hash set of productions.\<close>

definition prods_insert :: "production \<Rightarrow> production list \<Rightarrow> production list" where
  "prods_insert pr ps = (if pr \<in> set ps then ps else ps @ [pr])"

definition file_under :: "symbol \<Rightarrow> production \<Rightarrow> (symbol \<times> production list) list \<Rightarrow> (symbol \<times> production list) list" where
  "file_under s pr m = aput s (prods_insert pr (aget [] m s)) m"

definition hasProdsFromSingleRHS :: "grammar \<Rightarrow> symbol \<Rightarrow> bool" where
  "hasProdsFromSingleRHS g sy = ahas (gr_singleRHSToProds g) sy"

definition hasProdsFromFirstRHS :: "grammar \<Rightarrow> symbol \<Rightarrow> bool" where
  "hasProdsFromFirstRHS g sy = ahas (gr_firstRHSToProds g) sy"

definition hasProdsFromSecondRHS :: "grammar \<Rightarrow> symbol \<Rightarrow> bool" where
  "hasProdsFromSecondRHS g sy = ahas (gr_secondRHSToProds g) sy"

definition getProdsFromSingleRHS :: "grammar \<Rightarrow> symbol \<Rightarrow> production list option" where
  "getProdsFromSingleRHS g sy = map_of (gr_singleRHSToProds g) sy"

definition getProdsFromFirstRHS :: "grammar \<Rightarrow> symbol \<Rightarrow> production list option" where
  "getProdsFromFirstRHS g sy = map_of (gr_firstRHSToProds g) sy"

definition getProdsFromSecondRHS :: "grammar \<Rightarrow> symbol \<Rightarrow> production list option" where
  "getProdsFromSecondRHS g sy = map_of (gr_secondRHSToProds g) sy"

definition getLHSSymbol :: "production \<Rightarrow> symbol option" where
  "getLHSSymbol pr = prod_at pr 0"

definition getFirstRHSSymbol :: "production \<Rightarrow> symbol option" where
  "getFirstRHSSymbol pr = prod_at pr 1"

definition getSecondRHSSymbol :: "production \<Rightarrow> symbol option" where
  "getSecondRHSSymbol pr = prod_at pr 2"

text \<open>\<open>eps\<close> is the number of the kind named \<^verbatim>\<open>epsilon\<close>. A production of two symbols one of which is
  epsilon is an epsilon production; a production of another length than two or three is dropped.\<close>

definition insertToCFLGrammar :: "32 word \<Rightarrow> production \<Rightarrow> grammar \<Rightarrow> grammar" where
  "insertToCFLGrammar eps pr g = (case pr of
     [a, b] \<Rightarrow>
       if num_of_sym a = eps \<or> num_of_sym b = eps
       then g\<lparr>gr_epsilonProds := prods_insert pr (gr_epsilonProds g)\<rparr>
       else g\<lparr>gr_singleRHSToProds := file_under b pr (gr_singleRHSToProds g)\<rparr>
   | [a, b, c] \<Rightarrow>
       g\<lparr>gr_firstRHSToProds := file_under b pr (gr_firstRHSToProds g),
         gr_secondRHSToProds := file_under c pr (gr_secondRHSToProds g)\<rparr>
   | _ \<Rightarrow> g)"

subsection \<open>Variable attributes\<close>

text \<open>The first symbol with a variable attribute chooses the attribute to expand.\<close>

fun first_variable :: "production \<Rightarrow> 8 word" where
  "first_variable [] = 0"
| "first_variable (s # ss) = (if sy_variableAttribute s = 0 then first_variable ss else sy_variableAttribute s)"

definition fill_symbol :: "8 word \<Rightarrow> 32 word \<Rightarrow> symbol \<Rightarrow> symbol" where
  "fill_symbol v attribute s = (if sy_variableAttribute s = v
     then s\<lparr>sy_attribute := ucast attribute, sy_variableAttribute := 0\<rparr> else s)"

definition fill_step :: "production \<Rightarrow> 8 word \<Rightarrow> 32 word \<Rightarrow> production fifo \<times> production list \<Rightarrow> production fifo \<times> production list" where
  "fill_step cur v attribute = (\<lambda>(w, out).
     let filling = map (fill_symbol v attribute) cur
     in if list_ex (\<lambda>s. sy_variableAttribute s \<noteq> 0) filling
        then (snd (fifo_push filling w), out)
        else (w, prods_insert filling out))"

definition open_symbols :: "production \<Rightarrow> nat" where
  "open_symbols p = length (filter (\<lambda>s. sy_variableAttribute s \<noteq> 0) p)"

text \<open>What is left to do: a production with \<open>n\<close> open symbols stands for at most \<open>(1 + N) ^ n\<close> turns.\<close>

definition fill_work :: "32 word list \<Rightarrow> production list \<Rightarrow> nat" where
  "fill_work attrs ps = (\<Sum>p\<leftarrow>ps. Suc (length attrs) ^ open_symbols p)"

lemma open_symbols_simps [simp]:
  "open_symbols [] = 0"
  "open_symbols (s # ss) = (if sy_variableAttribute s = 0 then 0 else 1) + open_symbols ss"
  by (simp_all add: open_symbols_def)

lemma variable_fill_symbol [simp]:
  "sy_variableAttribute (fill_symbol v a s) = (if sy_variableAttribute s = v then 0 else sy_variableAttribute s)"
  by (simp add: fill_symbol_def)

lemma open_symbols_fill:
  assumes "v = first_variable cur" "v \<noteq> 0"
  shows "open_symbols (map (fill_symbol v a) cur) < open_symbols cur"
proof -
  have le: "open_symbols (map (fill_symbol v a) xs) \<le> open_symbols xs" for xs
    using assms(2) by (induction xs) simp_all
  show ?thesis
    using assms
  proof (induction cur)
    case (Cons s ss)
    then show ?case using le[of ss] by (cases "sy_variableAttribute s = 0") simp_all
  qed simp
qed

lemma fill_work_push: "fill_work attrs (fifo_list (snd (fifo_push p w))) \<le>
    fill_work attrs (fifo_list w) + Suc (length attrs) ^ open_symbols p"
  by (simp add: fifo_push_def fill_work_def)

lemma fill_work_fold:
  assumes "v = first_variable cur" "v \<noteq> 0"
  shows "fill_work attrs (fifo_list (fst (fold (fill_step cur v) as (w, out)))) \<le>
    fill_work attrs (fifo_list w) + length as * Suc (length attrs) ^ (open_symbols cur - 1)"
proof (induction as arbitrary: w out)
  case (Cons a as)
  let ?p = "map (fill_symbol v a) cur"
  have "open_symbols ?p \<le> open_symbols cur - 1" using open_symbols_fill[OF assms, of a] by linarith
  then have p: "Suc (length attrs) ^ open_symbols ?p \<le> Suc (length attrs) ^ (open_symbols cur - 1)"
    by (rule power_increasing) simp
  obtain w' out' where s: "fill_step cur v a (w, out) = (w', out')" by fastforce
  then have "w' = w \<or> w' = snd (fifo_push ?p w)" by (auto simp: fill_step_def Let_def split: if_splits)
  then have "fill_work attrs (fifo_list w') \<le> fill_work attrs (fifo_list w) + Suc (length attrs) ^ (open_symbols cur - 1)"
    using fill_work_push[of attrs ?p w] p by auto
  then show ?case using Cons.IH[of w' out'] s by (simp add: algebra_simps)
qed simp

lemma open_first: "first_variable p \<noteq> 0 \<Longrightarrow> 0 < open_symbols p"
  by (induction p) (auto split: if_splits)

lemma fill_work_pop:
  assumes "fifo_pop w = Some (cur, w')"
  shows "fill_work attrs (fifo_list w') < fill_work attrs (fifo_list w)"
    and "first_variable cur \<noteq> 0 \<Longrightarrow>
      fill_work attrs (fifo_list (fst (fold (fill_step cur (first_variable cur)) attrs (w', out)))) < fill_work attrs (fifo_list w)"
proof -
  let ?N = "Suc (length attrs)" and ?f = "fold (fill_step cur (first_variable cur)) attrs (w', out)"
  have w: "fifo_list w = cur # fifo_list w'" using assms by (auto simp: fifo_pop_def split: list.splits)
  then show "fill_work attrs (fifo_list w') < fill_work attrs (fifo_list w)" by (simp add: fill_work_def)
  assume v: "first_variable cur \<noteq> 0"
  have "length attrs * ?N ^ (open_symbols cur - 1) < ?N * ?N ^ (open_symbols cur - 1)" by simp
  also have "\<dots> = ?N ^ open_symbols cur" using open_first[OF v] by (metis Suc_diff_1 power_Suc)
  finally show "fill_work attrs (fifo_list (fst ?f)) < fill_work attrs (fifo_list w)"
    using fill_work_fold[OF refl v, of attrs attrs w' out] w by (simp add: fill_work_def)
qed

function fill_loop :: "32 word list \<Rightarrow> production fifo \<times> production list \<Rightarrow> production list" where
  "fill_loop attrs (w, out) = (case fifo_pop w of
     None \<Rightarrow> out
   | Some (cur, w) \<Rightarrow>
       let v = first_variable cur
       in if v = 0 then fill_loop attrs (w, prods_insert cur out)
          else fill_loop attrs (fold (fill_step cur v) attrs (w, out)))"
  by pat_completeness auto
termination
  by (relation "measure (\<lambda>(attrs, w, out). fill_work attrs (fifo_list w))") (auto simp: fill_work_pop split_beta)

declare fill_loop.simps [simp del]

definition getFilledProductions :: "production \<Rightarrow> 32 word list \<Rightarrow> production list" where
  "getFilledProductions pr nodeSet = fill_loop nodeSet (snd (fifo_push pr fifo_new), [])"

definition nodeSet_of :: "(32 word \<times> 32 word list) list \<Rightarrow> 32 word list" where
  "nodeSet_of kindToAttrsMap = remdups (concat (map snd kindToAttrsMap))"

text \<open>The raw productions of a head do not contain the head: it is put in front.\<close>

definition fillAttribute ::
  "32 word \<Rightarrow> (32 word \<times> 32 word list) list \<Rightarrow> (symbol \<times> production list) list \<Rightarrow> grammar \<Rightarrow> grammar" where
  "fillAttribute eps kindToAttrsMap raw g =
    fold (\<lambda>(h, ps). fold (\<lambda>p. fold (insertToCFLGrammar eps) (getFilledProductions (h # p) (nodeSet_of kindToAttrsMap))) ps) raw g"

subsection \<open>What is filled in\<close>

text \<open>The instances of a production: every variable attribute replaced, everywhere, by an attribute.\<close>

definition fill_all :: "(8 word \<Rightarrow> 32 word) \<Rightarrow> symbol \<Rightarrow> symbol" where
  "fill_all \<sigma> s = (if sy_variableAttribute s = 0 then s
     else s\<lparr>sy_attribute := ucast (\<sigma> (sy_variableAttribute s)), sy_variableAttribute := 0\<rparr>)"

definition instances :: "32 word set \<Rightarrow> production \<Rightarrow> production set" where
  "instances N p = {map (fill_all \<sigma>) p | \<sigma>. \<forall>s\<in>set p. sy_variableAttribute s \<noteq> 0 \<longrightarrow> \<sigma> (sy_variableAttribute s) \<in> N}"

lemma first_variable_0: "first_variable p = 0 \<longleftrightarrow> (\<forall>s\<in>set p. sy_variableAttribute s = 0)"
  by (induction p) auto

lemma first_variable_mem: "first_variable p \<noteq> 0 \<Longrightarrow> \<exists>s\<in>set p. sy_variableAttribute s = first_variable p"
  by (induction p) (auto split: if_splits)

lemma instances_closed: "\<forall>s\<in>set p. sy_variableAttribute s = 0 \<Longrightarrow> instances N p = {p}"
  by (auto simp: instances_def fill_all_def map_idI)

lemma fill_all_fill: "v \<noteq> 0 \<Longrightarrow> fill_all \<sigma> (fill_symbol v a s) = fill_all (\<sigma>(v := a)) s"
  by (simp add: fill_all_def fill_symbol_def)

lemma instances_step:
  assumes "first_variable p = v" "v \<noteq> 0"
  shows "instances N p = (\<Union>a\<in>N. instances N (map (fill_symbol v a) p))"
proof
  show "instances N p \<subseteq> (\<Union>a\<in>N. instances N (map (fill_symbol v a) p))"
  proof
    fix q assume "q \<in> instances N p"
    then obtain \<sigma> where s: "q = map (fill_all \<sigma>) p" "\<forall>s\<in>set p. sy_variableAttribute s \<noteq> 0 \<longrightarrow> \<sigma> (sy_variableAttribute s) \<in> N"
      by (auto simp: instances_def)
    have "\<sigma> v \<in> N" using first_variable_mem[of p] assms s(2) by metis
    moreover have "q \<in> instances N (map (fill_symbol v (\<sigma> v)) p)"
      unfolding instances_def using s assms(2)
      by (intro CollectI exI[of _ \<sigma>]) (auto simp: fill_all_fill)
    ultimately show "q \<in> (\<Union>a\<in>N. instances N (map (fill_symbol v a) p))" by blast
  qed
  show "(\<Union>a\<in>N. instances N (map (fill_symbol v a) p)) \<subseteq> instances N p"
  proof (rule UN_least)
    fix a assume a: "a \<in> N"
    show "instances N (map (fill_symbol v a) p) \<subseteq> instances N p"
    proof
      fix q assume "q \<in> instances N (map (fill_symbol v a) p)"
      then obtain \<sigma> where "q = map (fill_all \<sigma>) (map (fill_symbol v a) p)"
          "\<forall>s\<in>set (map (fill_symbol v a) p). sy_variableAttribute s \<noteq> 0 \<longrightarrow> \<sigma> (sy_variableAttribute s) \<in> N"
        unfolding instances_def by blast
      then show "q \<in> instances N p"
        unfolding instances_def using a assms(2)
        by (intro CollectI exI[of _ "\<sigma>(v := a)"]) (auto simp: fill_all_fill)
    qed
  qed
qed

lemma fifo_pop_Some:
  assumes "fifo_inv w" "fifo_pop w = Some (d, w')"
  shows "fifo_inv w'" "set (fifo_list w) = insert d (set (fifo_list w'))" "d \<notin> set (fifo_list w')"
proof -
  obtain ds where w: "fifo_list w = d # ds" "w' = w\<lparr>fifo_list := ds, fifo_set := fifo_set w - {d}\<rparr>"
    using assms(2) by (cases "fifo_list w") (simp_all add: fifo_pop_def)
  then show "fifo_inv w'" "set (fifo_list w) = insert d (set (fifo_list w'))" "d \<notin> set (fifo_list w')"
    using assms(1) unfolding fifo_inv_def by auto
qed

lemma set_prods_insert [simp]: "set (prods_insert p ps) = insert p (set ps)"
  by (auto simp: prods_insert_def)

lemma fill_step_ok:
  assumes "fifo_inv w" "fill_step cur v a (w, out) = (w', out')"
  shows "fifo_inv w' \<and> set out' \<union> (\<Union>p\<in>set (fifo_list w'). instances N p) =
    set out \<union> (\<Union>p\<in>set (fifo_list w). instances N p) \<union> instances N (map (fill_symbol v a) cur)"
proof (cases "list_ex (\<lambda>s. sy_variableAttribute s \<noteq> 0) (map (fill_symbol v a) cur)")
  case True
  then have "out' = out" "w' = snd (fifo_push (map (fill_symbol v a) cur) w)" using assms(2) by (simp_all add: fill_step_def Let_def)
  moreover have "fifo_inv w'" "set (fifo_list w') = insert (map (fill_symbol v a) cur) (set (fifo_list w))"
    using assms(1) calculation(2) by (auto simp: fifo_push_def fifo_inv_def fifo_find_def)
  ultimately show ?thesis by auto
next
  case False
  then have "\<forall>s\<in>set (map (fill_symbol v a) cur). sy_variableAttribute s = 0" by (auto simp: list_ex_iff)
  note instances_closed[OF this]
  then show ?thesis using assms False by (auto simp: fill_step_def Let_def)
qed

lemma fill_fold_ok:
  assumes "fifo_inv w" "fold (fill_step cur v) as (w, out) = (w', out')"
  shows "fifo_inv w' \<and> set out' \<union> (\<Union>p\<in>set (fifo_list w'). instances N p) =
    set out \<union> (\<Union>p\<in>set (fifo_list w). instances N p) \<union> (\<Union>a\<in>set as. instances N (map (fill_symbol v a) cur))"
  using assms
proof (induction as arbitrary: w out)
  case (Cons a as)
  obtain w1 out1 where s: "fill_step cur v a (w, out) = (w1, out1)" by fastforce
  note k = fill_step_ok[OF Cons.prems(1) s, of N]
  have "fold (fill_step cur v) as (w1, out1) = (w', out')" using Cons.prems(2) s by simp
  from Cons.IH[OF conjunct1[OF k] this] k show ?case by (simp add: Un_assoc Un_left_commute Un_commute)
qed simp

lemma fill_loop_ok:
  "fifo_inv w \<Longrightarrow> set (fill_loop attrs (w, out)) = set out \<union> (\<Union>p\<in>set (fifo_list w). instances (set attrs) p)"
proof (induction attrs "(w, out)" arbitrary: w out rule: fill_loop.induct)
  case (1 attrs w out)
  show ?case
  proof (cases "fifo_pop w")
    case None
    then have "fifo_list w = []" by (simp add: fifo_pop_def split: list.splits)
    then show ?thesis using None by (simp add: fill_loop.simps[of attrs w out])
  next
    case (Some a)
    obtain cur w1 where a: "a = (cur, w1)" by fastforce
    have w1: "fifo_inv w1" "set (fifo_list w) = insert cur (set (fifo_list w1))"
      using fifo_pop_Some(1,2)[OF 1(3)] Some a by auto
    show ?thesis
    proof (cases "first_variable cur = 0")
      case True
      then have "instances (set attrs) cur = {cur}" by (simp add: first_variable_0 instances_closed)
      moreover have "fill_loop attrs (w, out) = fill_loop attrs (w1, prods_insert cur out)"
        using Some a True by (simp add: fill_loop.simps[of attrs w out])
      ultimately show ?thesis using 1(1)[OF Some a[symmetric] refl True w1(1)] w1(2) by simp
    next
      case False
      obtain w2 out2 where f: "fold (fill_step cur (first_variable cur)) attrs (w1, out) = (w2, out2)" by fastforce
      note k = fill_fold_ok[OF w1(1) f, of "set attrs"]
      have e: "fill_loop attrs (w, out) = fill_loop attrs (w2, out2)"
        using Some a False f by (simp add: fill_loop.simps[of attrs w out] Let_def)
      have "set (fill_loop attrs (w2, out2)) = set out2 \<union> (\<Union>p\<in>set (fifo_list w2). instances (set attrs) p)"
        using 1(2)[OF Some a[symmetric] refl False f] k by blast
      also have "\<dots> = set out \<union> (\<Union>p\<in>set (fifo_list w1). instances (set attrs) p) \<union> instances (set attrs) cur"
        using k instances_step[OF refl False, of "set attrs"] by simp
      finally show ?thesis unfolding e w1(2) by auto
    qed
  qed
qed

lemma getFilledProductions_ok: "set (getFilledProductions p attrs) = instances (set attrs) p"
  by (simp add: getFilledProductions_def fill_loop_ok fifo_push_def fifo_new_def fifo_inv_def fifo_find_def)

subsection \<open>What a normalised grammar holds\<close>

definition filed :: "32 word \<Rightarrow> production set \<Rightarrow> grammar \<Rightarrow> bool" where
  "filed eps R g \<longleftrightarrow>
     set (gr_epsilonProds g) = {[a, b] | a b. [a, b] \<in> R \<and> (num_of_sym a = eps \<or> num_of_sym b = eps)} \<and>
     (\<forall>s. set (aget [] (gr_singleRHSToProds g) s) = {[a, s] | a. [a, s] \<in> R \<and> num_of_sym a \<noteq> eps \<and> num_of_sym s \<noteq> eps}) \<and>
     (\<forall>s. set (aget [] (gr_firstRHSToProds g) s) = {[a, s, c] | a c. [a, s, c] \<in> R}) \<and>
     (\<forall>s. set (aget [] (gr_secondRHSToProds g) s) = {[a, b, s] | a b. [a, b, s] \<in> R})"

lemma filed_new: "filed eps {} gr_new"
  by (simp add: filed_def gr_new_def)

lemma set_file_under:
  "set (aget [] (file_under b p m) s) = (if s = b then insert p (set (aget [] m s)) else set (aget [] m s))"
  by (simp add: file_under_def)

lemma filed_insert:
  assumes "filed eps R g"
  shows "filed eps (insert p R) (insertToCFLGrammar eps p g)"
proof -
  consider "p = []" | a where "p = [a]" | a b where "p = [a, b]" | a b c where "p = [a, b, c]" | a b c d r where "p = a # b # c # d # r"
    by (metis list.exhaust)
  then show ?thesis
    by cases (use assms in \<open>auto simp: filed_def insertToCFLGrammar_def set_file_under\<close>)
qed

lemma filed_fold: "filed eps R g \<Longrightarrow> filed eps (R \<union> set ps) (fold (insertToCFLGrammar eps) ps g)"
proof (induction ps arbitrary: R g)
  case (Cons p ps)
  from Cons.IH[OF filed_insert[OF Cons.prems, of p]] show ?case by simp
qed simp

lemma filed_productions:
  fixes ps :: "production list"
  shows "filed eps R g \<Longrightarrow> filed eps (R \<union> (\<Union>p\<in>set ps. instances (set ns) (h # p)))
     (fold (\<lambda>p. fold (insertToCFLGrammar eps) (getFilledProductions (h # p) ns)) ps g)"
proof (induction ps arbitrary: R g)
  case (Cons p ps)
  from Cons.IH[OF filed_fold[OF Cons.prems, of "getFilledProductions (h # p) ns"]]
  show ?case by (simp add: getFilledProductions_ok Un_assoc)
qed simp

lemma filed_raw:
  "filed eps R g \<Longrightarrow> filed eps (R \<union> (\<Union>(h, ps)\<in>set raw. \<Union>p\<in>set ps. instances (set ns) (h # p)))
     (fold (\<lambda>(h, ps). fold (\<lambda>p. fold (insertToCFLGrammar eps) (getFilledProductions (h # p) ns)) ps) raw g)"
proof (induction raw arbitrary: R g)
  case (Cons x raw)
  obtain h ps where x: "x = (h, ps)" by fastforce
  from Cons.IH[OF filed_productions[OF Cons.prems, of ns h ps]] show ?case by (simp add: x Un_assoc)
qed simp

lemma fillAttribute_files:
  "filed eps (\<Union>(h, ps)\<in>set raw. \<Union>p\<in>set ps. instances (\<Union>(k, as)\<in>set m. set as) (h # p)) (fillAttribute eps m raw gr_new)"
proof -
  have "set (nodeSet_of m) = (\<Union>(k, as)\<in>set m. set as)" by (auto simp: nodeSet_of_def)
  then show ?thesis using filed_raw[OF filed_new, of eps "nodeSet_of m" raw] by (simp add: fillAttribute_def)
qed

end
