(* ===== verification/CFL_Graph.thy ===== *)
theory CFL_Graph
  imports CFL_Grammar "HOL-Library.Product_Lexorder"
begin

text \<open>
  The edge-labelled graph of \<^verbatim>\<open>svf/include/Graphs/CFLGraph.h\<close> and
  \<^verbatim>\<open>svf/lib/Graphs/CFLGraph.cpp\<close>. The sets of edges are ordered by label, source and
  destination (\<^verbatim>\<open>equalGEdge\<close>): they are sorted lists, and insertion is \<open>insort_insert\<close>. A node
  is its number; it keeps its edges twice, all of them and split by symbol.
\<close>

subsection \<open>Edges\<close>

datatype cfl_edge = CFLEdge (e_src: nat) (e_flag: "64 word") (e_dst: nat)

instantiation cfl_edge :: linorder
begin

definition less_eq_cfl_edge :: "cfl_edge \<Rightarrow> cfl_edge \<Rightarrow> bool" where
  "less_eq_cfl_edge a b \<longleftrightarrow> (e_flag a, e_src a, e_dst a) \<le> (e_flag b, e_src b, e_dst b)"

definition less_cfl_edge :: "cfl_edge \<Rightarrow> cfl_edge \<Rightarrow> bool" where
  "less_cfl_edge a b \<longleftrightarrow> (e_flag a, e_src a, e_dst a) < (e_flag b, e_src b, e_dst b)"

instance
  by standard (auto simp: less_eq_cfl_edge_def less_cfl_edge_def cfl_edge.expand)

end

text \<open>The comparison the sets use, as it is written.\<close>

definition equalGEdge :: "cfl_edge \<Rightarrow> cfl_edge \<Rightarrow> bool" where
  "equalGEdge lhs rhs =
    (if e_flag lhs \<noteq> e_flag rhs then e_flag lhs < e_flag rhs
     else if e_src lhs \<noteq> e_src rhs then e_src lhs < e_src rhs
     else e_dst lhs < e_dst rhs)"

lemma equalGEdge_less: "equalGEdge a b \<longleftrightarrow> a < b"
  by (auto simp: equalGEdge_def less_cfl_edge_def less_prod_def)

text \<open>A label is read as a symbol through its lower 32 bits; a symbol becomes a label of 64 bits.\<close>

definition edge_symbol :: "cfl_edge \<Rightarrow> symbol" where
  "edge_symbol e = sym_of_num (ucast (e_flag e))"

definition flag_of :: "symbol \<Rightarrow> 64 word" where
  "flag_of s = ucast (num_of_sym s)"

lemma ucast_flag_of: "ucast (flag_of s) = num_of_sym s"
  unfolding flag_of_def by (rule bit_word_eqI) (auto simp: bit_simps)

lemma edge_symbol_flag_of [simp]: "edge_symbol (CFLEdge i (flag_of s) j) = s"
  by (simp add: edge_symbol_def ucast_flag_of)

lemma flag_of_eq_iff [simp]: "flag_of s = flag_of t \<longleftrightarrow> s = t"
  by (metis ucast_flag_of num_of_sym_eq_iff)

subsection \<open>The graph\<close>

record cfl_graph =
  cg_nodes :: "nat list"
  cg_edgeSet :: "cfl_edge list"
  cg_InEdges :: "nat \<Rightarrow> cfl_edge list"
  cg_OutEdges :: "nat \<Rightarrow> cfl_edge list"
  cg_inCFLEdges :: "nat \<Rightarrow> symbol \<Rightarrow> cfl_edge list"
  cg_outCFLEdges :: "nat \<Rightarrow> symbol \<Rightarrow> cfl_edge list"

definition cg_new :: cfl_graph where
  "cg_new = \<lparr>cg_nodes = [], cg_edgeSet = [], cg_InEdges = (\<lambda>_. []), cg_OutEdges = (\<lambda>_. []),
     cg_inCFLEdges = (\<lambda>_ _. []), cg_outCFLEdges = (\<lambda>_ _. [])\<rparr>"

text \<open>A node is added under a number that is not in use: a second node of the same number would
  take the place of the first, with no edges.\<close>

definition addCFLNode :: "nat \<Rightarrow> cfl_graph \<Rightarrow> cfl_graph" where
  "addCFLNode i g = g\<lparr>cg_nodes := insort_insert i (cg_nodes g)\<rparr>"

definition getOutEdgeWithTy :: "cfl_graph \<Rightarrow> nat \<Rightarrow> symbol \<Rightarrow> cfl_edge list" where
  "getOutEdgeWithTy g i s = cg_outCFLEdges g i s"

definition getInEdgeWithTy :: "cfl_graph \<Rightarrow> nat \<Rightarrow> symbol \<Rightarrow> cfl_edge list" where
  "getInEdgeWithTy g i s = cg_inCFLEdges g i s"

definition addOutEdgeWithKind :: "nat \<Rightarrow> cfl_edge \<Rightarrow> symbol \<Rightarrow> cfl_graph \<Rightarrow> (bool \<times> cfl_graph) option" where
  "addOutEdgeWithKind n e s g = do {
     ensure (e_src e = n);
     let added1 = e \<notin> set (cg_OutEdges g n);
     let added2 = e \<notin> set (cg_outCFLEdges g n s);
     Some (added1 \<and> added2,
       g\<lparr>cg_OutEdges := (cg_OutEdges g)(n := insort_insert e (cg_OutEdges g n)),
         cg_outCFLEdges := (cg_outCFLEdges g)(n := (cg_outCFLEdges g n)(s := insort_insert e (cg_outCFLEdges g n s)))\<rparr>) }"

definition addInEdgeWithKind :: "nat \<Rightarrow> cfl_edge \<Rightarrow> symbol \<Rightarrow> cfl_graph \<Rightarrow> (bool \<times> cfl_graph) option" where
  "addInEdgeWithKind n e s g = do {
     ensure (e_dst e = n);
     let added1 = e \<notin> set (cg_InEdges g n);
     let added2 = e \<notin> set (cg_inCFLEdges g n s);
     Some (added1 \<and> added2,
       g\<lparr>cg_InEdges := (cg_InEdges g)(n := insort_insert e (cg_InEdges g n)),
         cg_inCFLEdges := (cg_inCFLEdges g)(n := (cg_inCFLEdges g n)(s := insort_insert e (cg_inCFLEdges g n s)))\<rparr>) }"

definition addOutgoingEdge :: "nat \<Rightarrow> cfl_edge \<Rightarrow> cfl_graph \<Rightarrow> (bool \<times> cfl_graph) option" where
  "addOutgoingEdge n e g = addOutEdgeWithKind n e (edge_symbol e) g"

definition addIngoingEdge :: "nat \<Rightarrow> cfl_edge \<Rightarrow> cfl_graph \<Rightarrow> (bool \<times> cfl_graph) option" where
  "addIngoingEdge n e g = addInEdgeWithKind n e (edge_symbol e) g"

definition addCFLEdge :: "nat \<Rightarrow> nat \<Rightarrow> 64 word \<Rightarrow> cfl_graph \<Rightarrow> (cfl_edge option \<times> cfl_graph) option" where
  "addCFLEdge src dst label g =
    (let edge = CFLEdge src label dst
     in if edge \<notin> set (cg_edgeSet g)
        then do {
          let g = g\<lparr>cg_edgeSet := insort_insert edge (cg_edgeSet g)\<rparr>;
          (_, g) \<leftarrow> addOutgoingEdge src edge g;
          (_, g) \<leftarrow> addIngoingEdge dst edge g;
          Some (Some edge, g) }
        else Some (None, g))"

definition cg_hasEdge :: "nat \<Rightarrow> nat \<Rightarrow> 64 word \<Rightarrow> cfl_graph \<Rightarrow> cfl_edge option" where
  "cg_hasEdge src dst label g = (let edge = CFLEdge src label dst in if edge \<in> set (cg_edgeSet g) then Some edge else None)"

text \<open>Removal from a node asserts that the node has the edge; \<^verbatim>\<open>cflEdgeSet\<close> is not touched.\<close>

definition removeCFLOutEdge :: "nat \<Rightarrow> cfl_edge \<Rightarrow> cfl_graph \<Rightarrow> (bool \<times> cfl_graph) option" where
  "removeCFLOutEdge n e g = do {
     ensure (e \<in> set (cg_OutEdges g n));
     let s = edge_symbol e;
     Some (e \<in> set (cg_outCFLEdges g n s),
       g\<lparr>cg_OutEdges := (cg_OutEdges g)(n := remove1 e (cg_OutEdges g n)),
         cg_outCFLEdges := (cg_outCFLEdges g)(n := (cg_outCFLEdges g n)(s := remove1 e (cg_outCFLEdges g n s)))\<rparr>) }"

definition removeCFLInEdge :: "nat \<Rightarrow> cfl_edge \<Rightarrow> cfl_graph \<Rightarrow> (bool \<times> cfl_graph) option" where
  "removeCFLInEdge n e g = do {
     ensure (e \<in> set (cg_InEdges g n));
     let s = edge_symbol e;
     Some (e \<in> set (cg_inCFLEdges g n s),
       g\<lparr>cg_InEdges := (cg_InEdges g)(n := remove1 e (cg_InEdges g n)),
         cg_inCFLEdges := (cg_inCFLEdges g)(n := (cg_inCFLEdges g n)(s := remove1 e (cg_inCFLEdges g n s)))\<rparr>) }"

subsection \<open>The invariant\<close>

definition edges :: "cfl_graph \<Rightarrow> cfl_edge set" where
  "edges g = set (cg_edgeSet g)"

text \<open>The lists of a node hold exactly its edges, each list sorted and without duplicates.\<close>

definition cg_inv :: "cfl_graph \<Rightarrow> bool" where
  "cg_inv g \<longleftrightarrow> sorted (cg_edgeSet g) \<and> distinct (cg_edgeSet g) \<and>
     (\<forall>n. set (cg_OutEdges g n) = {e \<in> edges g. e_src e = n} \<and>
          set (cg_InEdges g n) = {e \<in> edges g. e_dst e = n} \<and>
          (\<forall>s. set (cg_outCFLEdges g n s) = {e \<in> edges g. e_src e = n \<and> edge_symbol e = s} \<and>
               set (cg_inCFLEdges g n s) = {e \<in> edges g. e_dst e = n \<and> edge_symbol e = s}))"

lemma cg_new_ok [simp]: "cg_inv cg_new" "edges cg_new = {}"
  by (simp_all add: cg_inv_def cg_new_def edges_def)

lemma addCFLNode_ok [simp]: "cg_inv (addCFLNode i g) \<longleftrightarrow> cg_inv g" "edges (addCFLNode i g) = edges g"
    "set (cg_nodes (addCFLNode i g)) = insert i (set (cg_nodes g))"
  by (simp_all add: addCFLNode_def cg_inv_def edges_def set_insort_insert)

lemma addCFLEdge_ok:
  assumes "cg_inv g"
  shows "wp (addCFLEdge i j l g) (\<lambda>(r, g'). cg_inv g' \<and> cg_nodes g' = cg_nodes g \<and>
    edges g' = insert (CFLEdge i l j) (edges g) \<and> r = (if CFLEdge i l j \<in> edges g then None else Some (CFLEdge i l j)))"
proof (cases "CFLEdge i l j \<in> edges g")
  case True
  then show ?thesis using assms by (auto simp: addCFLEdge_def edges_def)
next
  case False
  then show ?thesis using assms
    by (auto simp: addCFLEdge_def addOutgoingEdge_def addIngoingEdge_def addOutEdgeWithKind_def addInEdgeWithKind_def
      edges_def cg_inv_def set_insort_insert sorted_insort_insert distinct_insort_insert Let_def) (metis cfl_edge.sel)+
qed

lemma out_with_ty: "cg_inv g \<Longrightarrow> set (getOutEdgeWithTy g n s) = {e \<in> edges g. e_src e = n \<and> edge_symbol e = s}"
  by (simp add: getOutEdgeWithTy_def cg_inv_def)

lemma in_with_ty: "cg_inv g \<Longrightarrow> set (getInEdgeWithTy g n s) = {e \<in> edges g. e_dst e = n \<and> edge_symbol e = s}"
  by (simp add: getInEdgeWithTy_def cg_inv_def)

end
