(* ===== verification/CFL_Solver.thy ===== *)
theory CFL_Solver
  imports CFL_Graph
begin

text \<open>
  The worklist solver of \<^verbatim>\<open>svf/lib/CFL/CFLSolver.cpp\<close>. Every edge is put into the queue once;
  an edge taken out is combined with the edges at its two ends. What the solvers compute is
  stated twice: as the least set closed under the productions (\<open>cfl_reach\<close>), and as the pairs of
  nodes joined by a path whose labels spell a word of the language (\<open>derives\<close>, \<open>cfl_path\<close>).

  The loop of \<^verbatim>\<open>solve\<close> is shared by the solvers of the program; what it needs of
  \<^verbatim>\<open>processCFLEdge\<close> is the locale \<open>cfl_process\<close>.

  A loop over the edges of one label at a node adds edges while it runs. It is modelled over the
  set as it is when the loop starts: an edge that is added is of the set only when it is already in
  it (\<open>add_keeps_out\<close>, \<open>add_keeps_in\<close>).
\<close>

subsection \<open>What is computed\<close>

definition eps_production :: "32 word \<Rightarrow> symbol \<Rightarrow> symbol \<Rightarrow> bool" where
  "eps_production eps a b \<longleftrightarrow> num_of_sym a = eps \<or> num_of_sym b = eps"

inductive_set cfl_reach :: "32 word \<Rightarrow> production set \<Rightarrow> nat set \<Rightarrow> cfl_edge set \<Rightarrow> cfl_edge set"
  for eps R V E where
  given: "e \<in> E \<Longrightarrow> e \<in> cfl_reach eps R V E"
| empty: "[a, b] \<in> R \<Longrightarrow> eps_production eps a b \<Longrightarrow> i \<in> V \<Longrightarrow> CFLEdge i (flag_of a) i \<in> cfl_reach eps R V E"
| single: "e \<in> cfl_reach eps R V E \<Longrightarrow> [a, edge_symbol e] \<in> R \<Longrightarrow> \<not> eps_production eps a (edge_symbol e) \<Longrightarrow>
    CFLEdge (e_src e) (flag_of a) (e_dst e) \<in> cfl_reach eps R V E"
| binary: "e \<in> cfl_reach eps R V E \<Longrightarrow> f \<in> cfl_reach eps R V E \<Longrightarrow> e_dst e = e_src f \<Longrightarrow>
    [a, edge_symbol e, edge_symbol f] \<in> R \<Longrightarrow> CFLEdge (e_src e) (flag_of a) (e_dst f) \<in> cfl_reach eps R V E"

lemma cfl_reach_mono: "E \<subseteq> cfl_reach eps R V E' \<Longrightarrow> V' \<subseteq> V \<Longrightarrow> cfl_reach eps R V' E \<subseteq> cfl_reach eps R V E'"
proof
  fix e assume "E \<subseteq> cfl_reach eps R V E'" "V' \<subseteq> V" "e \<in> cfl_reach eps R V' E"
  from this(3,1,2) show "e \<in> cfl_reach eps R V E'"
    by (induction rule: cfl_reach.induct) (auto intro: cfl_reach.intros)
qed

lemma subset_cfl_reach: "E \<subseteq> cfl_reach eps R V E"
  by (auto intro: cfl_reach.given)

text \<open>Ends of edges are ends of given edges, or nodes with an empty path.\<close>

lemma cfl_reach_ends:
  "e \<in> cfl_reach eps R V E \<Longrightarrow> (\<And>e. e \<in> E \<Longrightarrow> e_src e \<in> P \<and> e_dst e \<in> P) \<Longrightarrow> V \<subseteq> P \<Longrightarrow> e_src e \<in> P \<and> e_dst e \<in> P"
  by (induction rule: cfl_reach.induct) auto

lemma cfl_reach_flag:
  "e \<in> cfl_reach eps R V E \<Longrightarrow> (\<And>e. e \<in> E \<Longrightarrow> e_flag e = flag_of (edge_symbol e)) \<Longrightarrow> e_flag e = flag_of (edge_symbol e)"
  by (induction rule: cfl_reach.induct) auto

text \<open>A word of a symbol and a path that spells it.\<close>

inductive derives :: "32 word \<Rightarrow> production set \<Rightarrow> symbol \<Rightarrow> symbol list \<Rightarrow> bool" for eps R where
  itself: "derives eps R a [a]"
| no_symbol: "[a, b] \<in> R \<Longrightarrow> eps_production eps a b \<Longrightarrow> derives eps R a []"
| one: "[a, b] \<in> R \<Longrightarrow> \<not> eps_production eps a b \<Longrightarrow> derives eps R b w \<Longrightarrow> derives eps R a w"
| two: "[a, b, c] \<in> R \<Longrightarrow> derives eps R b u \<Longrightarrow> derives eps R c v \<Longrightarrow> derives eps R a (u @ v)"

fun cfl_path :: "cfl_edge set \<Rightarrow> nat \<Rightarrow> symbol list \<Rightarrow> nat \<Rightarrow> bool" where
  "cfl_path E i [] j \<longleftrightarrow> i = j"
| "cfl_path E i (s # ss) j \<longleftrightarrow> (\<exists>e\<in>E. e_src e = i \<and> edge_symbol e = s \<and> cfl_path E (e_dst e) ss j)"

lemma cfl_path_append: "cfl_path E i (u @ v) j \<longleftrightarrow> (\<exists>k. cfl_path E i u k \<and> cfl_path E k v j)"
  by (induction u arbitrary: i) auto

lemma cfl_path_end: "cfl_path E i w j \<Longrightarrow> i \<in> V \<Longrightarrow> (\<And>e. e \<in> E \<Longrightarrow> e_dst e \<in> V) \<Longrightarrow> j \<in> V"
  by (induction w arbitrary: i) auto

lemma reach_path:
  "e \<in> cfl_reach eps R V E \<Longrightarrow> \<exists>w. derives eps R (edge_symbol e) w \<and> cfl_path E (e_src e) w (e_dst e)"
proof (induction rule: cfl_reach.induct)
  case (given e)
  then show ?case using derives.itself[of eps R "edge_symbol e"] by (intro exI[of _ "[edge_symbol e]"]) auto
next
  case (empty a b i)
  then show ?case by (intro exI[of _ "[]"]) (auto intro: derives.no_symbol)
next
  case (single e a)
  then show ?case by (auto intro: derives.one)
next
  case (binary e f a)
  then obtain u v where "derives eps R (edge_symbol e) u" "cfl_path E (e_src e) u (e_dst e)"
      "derives eps R (edge_symbol f) v" "cfl_path E (e_src f) v (e_dst f)" by blast
  with binary show ?case
    by (intro exI[of _ "u @ v"]) (auto simp: cfl_path_append intro: derives.two)
qed

lemma path_reach:
  assumes "derives eps R a w" "cfl_path E i w j" "i \<in> V"
    and E: "\<And>e. e \<in> E \<Longrightarrow> e_dst e \<in> V \<and> e_flag e = flag_of (edge_symbol e)"
  shows "CFLEdge i (flag_of a) j \<in> cfl_reach eps R V E"
  using assms(1-3)
proof (induction arbitrary: i j rule: derives.induct)
  case (itself a)
  then obtain e where "e \<in> E" "e_src e = i" "edge_symbol e = a" "e_dst e = j" by auto
  then have "e = CFLEdge i (flag_of a) j" using E[of e] by (cases e) auto
  then show ?case using \<open>e \<in> E\<close> by (simp add: cfl_reach.given)
next
  case (no_symbol a b)
  then show ?case by (auto intro: cfl_reach.empty)
next
  case (one a b w)
  have "CFLEdge i (flag_of b) j \<in> cfl_reach eps R V E" by (rule one.IH[OF one.prems])
  from cfl_reach.single[OF this, of a] one.hyps show ?case by simp
next
  case (two a b c u v)
  then obtain k where k: "cfl_path E i u k" "cfl_path E k v j" by (auto simp: cfl_path_append)
  have "k \<in> V" using cfl_path_end[OF k(1) two.prems(2)] E by blast
  with two k have "CFLEdge i (flag_of b) k \<in> cfl_reach eps R V E" "CFLEdge k (flag_of c) j \<in> cfl_reach eps R V E" by blast+
  from cfl_reach.binary[OF this, of a] two.hyps(1) show ?case by simp
qed

lemma reach_iff_path:
  assumes "i \<in> V" "\<And>e. e \<in> E \<Longrightarrow> e_dst e \<in> V \<and> e_flag e = flag_of (edge_symbol e)"
  shows "CFLEdge i (flag_of a) j \<in> cfl_reach eps R V E \<longleftrightarrow> (\<exists>w. derives eps R a w \<and> cfl_path E i w j)"
  using reach_path[of "CFLEdge i (flag_of a) j" eps R V E] path_reach[of eps R a _ E i j V] assms by auto

subsection \<open>The solver\<close>

record solver =
  sv_graph :: cfl_graph
  sv_worklist :: "cfl_edge fifo"

definition solver_new :: "cfl_graph \<Rightarrow> solver" where
  "solver_new g = \<lparr>sv_graph = g, sv_worklist = fifo_new\<rparr>"

definition pushIntoWorklist :: "cfl_edge \<Rightarrow> 'm solver_scheme \<Rightarrow> 'm solver_scheme" where
  "pushIntoWorklist e s = s\<lparr>sv_worklist := snd (fifo_push e (sv_worklist s))\<rparr>"

definition isWorklistEmpty :: "'m solver_scheme \<Rightarrow> bool" where
  "isWorklistEmpty s = fifo_empty (sv_worklist s)"

definition popFromWorklist :: "'m solver_scheme \<Rightarrow> (cfl_edge \<times> 'm solver_scheme) option" where
  "popFromWorklist s = map_option (\<lambda>(e, w). (e, s\<lparr>sv_worklist := w\<rparr>)) (fifo_pop (sv_worklist s))"

text \<open>\<^verbatim>\<open>if(const CFLEdge* newEdge = graph->addCFLEdge(i, j, X)) pushIntoWorklist(newEdge)\<close>\<close>

definition add_and_push :: "nat \<Rightarrow> nat \<Rightarrow> symbol \<Rightarrow> 'm solver_scheme \<Rightarrow> 'm solver_scheme option" where
  "add_and_push i j X s = do {
     (newEdge, g) \<leftarrow> addCFLEdge i j (flag_of X) (sv_graph s);
     let s = s\<lparr>sv_graph := g\<rparr>;
     Some (case newEdge of None \<Rightarrow> s | Some e \<Rightarrow> pushIntoWorklist e s) }"

definition cfl_initialize :: "grammar \<Rightarrow> 'm solver_scheme \<Rightarrow> 'm solver_scheme option" where
  "cfl_initialize gr s =
    (let s = fold (\<lambda>n s. fold pushIntoWorklist (cg_OutEdges (sv_graph s) n) s) (cg_nodes (sv_graph s)) s
     in foldM (\<lambda>p s. foldM (\<lambda>i s. do { X \<leftarrow> getLHSSymbol p; add_and_push i i X s }) (cg_nodes (sv_graph s)) s)
          (gr_epsilonProds gr) s)"

definition single_rule :: "nat \<Rightarrow> nat \<Rightarrow> production \<Rightarrow> 'm solver_scheme \<Rightarrow> 'm solver_scheme option" where
  "single_rule i j p s = do { X \<leftarrow> getLHSSymbol p; add_and_push i j X s }"

definition first_rule :: "nat \<Rightarrow> nat \<Rightarrow> production \<Rightarrow> 'm solver_scheme \<Rightarrow> 'm solver_scheme option" where
  "first_rule i j p s = do {
     X \<leftarrow> getLHSSymbol p;
     Z \<leftarrow> getSecondRHSSymbol p;
     foldM (\<lambda>Z_edge. add_and_push i (e_dst Z_edge) X) (getOutEdgeWithTy (sv_graph s) j Z) s }"

definition second_rule :: "nat \<Rightarrow> nat \<Rightarrow> production \<Rightarrow> 'm solver_scheme \<Rightarrow> 'm solver_scheme option" where
  "second_rule i j p s = do {
     X \<leftarrow> getLHSSymbol p;
     Z \<leftarrow> getFirstRHSSymbol p;
     foldM (\<lambda>Z_edge. add_and_push (e_src Z_edge) j X) (getInEdgeWithTy (sv_graph s) i Z) s }"

text \<open>The three loops over the productions of the label of an edge, each behind its \<^verbatim>\<open>hasProds\<close>.\<close>

definition process_with ::
  "grammar \<Rightarrow> (nat \<Rightarrow> nat \<Rightarrow> production \<Rightarrow> 's \<Rightarrow> 's option) \<Rightarrow> (nat \<Rightarrow> nat \<Rightarrow> production \<Rightarrow> 's \<Rightarrow> 's option) \<Rightarrow>
     (nat \<Rightarrow> nat \<Rightarrow> production \<Rightarrow> 's \<Rightarrow> 's option) \<Rightarrow> cfl_edge \<Rightarrow> 's \<Rightarrow> 's option" where
  "process_with gr r1 r2 r3 Y_edge s =
    (let i = e_src Y_edge; j = e_dst Y_edge; Y = edge_symbol Y_edge in do {
     s \<leftarrow> (if hasProdsFromSingleRHS gr Y
        then do { ps \<leftarrow> getProdsFromSingleRHS gr Y; foldM (r1 i j) ps s } else Some s);
     s \<leftarrow> (if hasProdsFromFirstRHS gr Y
        then do { ps \<leftarrow> getProdsFromFirstRHS gr Y; foldM (r2 i j) ps s } else Some s);
     (if hasProdsFromSecondRHS gr Y
        then do { ps \<leftarrow> getProdsFromSecondRHS gr Y; foldM (r3 i j) ps s } else Some s) })"

definition cfl_processCFLEdge :: "grammar \<Rightarrow> cfl_edge \<Rightarrow> 'm solver_scheme \<Rightarrow> 'm solver_scheme option" where
  "cfl_processCFLEdge gr = process_with gr single_rule first_rule second_rule"

partial_function (option) drain ::
  "(cfl_edge \<Rightarrow> 'm solver_scheme \<Rightarrow> 'm solver_scheme option) \<Rightarrow> 'm solver_scheme \<Rightarrow> 'm solver_scheme option" where
  "drain process s =
    (if isWorklistEmpty s then Some s
     else do { (Y_edge, s) \<leftarrow> popFromWorklist s; s \<leftarrow> process Y_edge s; drain process s })"

definition cfl_solve :: "grammar \<Rightarrow> 'm solver_scheme \<Rightarrow> 'm solver_scheme option" where
  "cfl_solve gr s = do { s \<leftarrow> cfl_initialize gr s; drain (cfl_processCFLEdge gr) s }"

subsection \<open>The contract of \<^verbatim>\<open>processCFLEdge\<close>\<close>

abbreviation sv_edges :: "'m solver_scheme \<Rightarrow> cfl_edge set" where
  "sv_edges s \<equiv> edges (sv_graph s)"

abbreviation sv_waiting :: "'m solver_scheme \<Rightarrow> cfl_edge set" where
  "sv_waiting s \<equiv> set (fifo_list (sv_worklist s))"

definition consequences :: "32 word \<Rightarrow> production set \<Rightarrow> cfl_edge \<Rightarrow> cfl_edge set \<Rightarrow> cfl_edge set" where
  "consequences eps R e E =
     {CFLEdge (e_src e) (flag_of a) (e_dst e) | a. [a, edge_symbol e] \<in> R \<and> \<not> eps_production eps a (edge_symbol e)} \<union>
     {CFLEdge (e_src e) (flag_of a) (e_dst f) | a f. f \<in> E \<and> e_dst e = e_src f \<and> [a, edge_symbol e, edge_symbol f] \<in> R} \<union>
     {CFLEdge (e_src f) (flag_of a) (e_dst e) | a f. f \<in> E \<and> e_dst f = e_src e \<and> [a, edge_symbol f, edge_symbol e] \<in> R}"

lemma consequences_reach: "e \<in> E \<Longrightarrow> consequences eps R e E \<subseteq> cfl_reach eps R V E"
  unfolding consequences_def by (auto intro: cfl_reach.intros)

text \<open>The solver may have moved from \<open>s\<close> to \<open>s'\<close>: edges have been derived, and each is waiting.\<close>

definition grown :: "('m solver_scheme \<Rightarrow> bool) \<Rightarrow> 32 word \<Rightarrow> production set \<Rightarrow> nat set \<Rightarrow>
    'm solver_scheme \<Rightarrow> 'm solver_scheme \<Rightarrow> bool" where
  "grown I eps R V s s' \<longleftrightarrow> I s' \<and> fifo_inv (sv_worklist s') \<and> cg_nodes (sv_graph s') = cg_nodes (sv_graph s) \<and>
     sv_edges s \<subseteq> sv_edges s' \<and> sv_edges s' \<subseteq> cfl_reach eps R V (sv_edges s) \<and>
     sv_waiting s' = sv_waiting s \<union> (sv_edges s' - sv_edges s)"

lemma grown_refl: "I s \<Longrightarrow> fifo_inv (sv_worklist s) \<Longrightarrow> grown I eps R V s s"
  by (simp add: grown_def subset_cfl_reach)

lemma grown_trans: "grown I eps R V s s' \<Longrightarrow> grown I eps R V s' s'' \<Longrightarrow> grown I eps R V s s''"
  unfolding grown_def using cfl_reach_mono[of "sv_edges s'" eps R V "sv_edges s" V] by auto

text \<open>A loop whose body derives edges, one goal for each element.\<close>

lemma grown_foldM:
  assumes "\<And>x t. x \<in> set xs \<Longrightarrow> grown I eps R V s t \<Longrightarrow> wp (f x t) (\<lambda>t'. grown I eps R V t t' \<and> G x \<subseteq> sv_edges t')"
    and "I s" "fifo_inv (sv_worklist s)"
  shows "wp (foldM f xs s) (\<lambda>t. grown I eps R V s t \<and> (\<Union>x\<in>set xs. G x) \<subseteq> sv_edges t)"
proof (rule foldM_wp[where P = "\<lambda>ys t. grown I eps R V s t \<and> (\<Union>x\<in>set ys. G x) \<subseteq> sv_edges t"])
  fix ys x zs t
  assume xs: "xs = ys @ x # zs" and t: "grown I eps R V s t \<and> (\<Union>x\<in>set ys. G x) \<subseteq> sv_edges t"
  have "wp (f x t) (\<lambda>t'. grown I eps R V t t' \<and> G x \<subseteq> sv_edges t')" using assms(1) xs t by simp
  then show "wp (f x t) (\<lambda>t'. grown I eps R V s t' \<and> (\<Union>x\<in>set (ys @ [x]). G x) \<subseteq> sv_edges t')"
  proof (rule wp_mono)
    fix t' assume "grown I eps R V t t' \<and> G x \<subseteq> sv_edges t'"
    then show "grown I eps R V s t' \<and> (\<Union>x\<in>set (ys @ [x]). G x) \<subseteq> sv_edges t'"
      using t grown_trans[of I eps R V s t t'] by (auto simp: grown_def)
  qed
qed (simp add: grown_refl assms)

text \<open>Every pair of edges that are not waiting has been combined.\<close>

definition covered_edges :: "32 word \<Rightarrow> production set \<Rightarrow> 'm solver_scheme \<Rightarrow> bool" where
  "covered_edges eps R s \<longleftrightarrow> sv_waiting s \<subseteq> sv_edges s \<and>
     (\<forall>e \<in> sv_edges s - sv_waiting s. consequences eps R e (sv_edges s - sv_waiting s) \<subseteq> sv_edges s)"

lemma covered_edges_closed:
  assumes "covered_edges eps R s" "sv_waiting s = {}"
  shows "cfl_reach eps R {} (sv_edges s) = sv_edges s"
proof
  show "cfl_reach eps R {} (sv_edges s) \<subseteq> sv_edges s"
  proof
    fix e assume "e \<in> cfl_reach eps R {} (sv_edges s)"
    then show "e \<in> sv_edges s"
    proof (induction rule: cfl_reach.induct)
      case (single e a)
      then have "CFLEdge (e_src e) (flag_of a) (e_dst e) \<in> consequences eps R e (sv_edges s)" by (auto simp: consequences_def)
      then show ?case using assms single(4) by (auto simp: covered_edges_def)
    next
      case (binary e f a)
      then have "CFLEdge (e_src e) (flag_of a) (e_dst f) \<in> consequences eps R e (sv_edges s)" by (auto simp: consequences_def)
      then show ?case using assms binary(5) by (auto simp: covered_edges_def)
    qed auto
  qed
qed (rule subset_cfl_reach)

text \<open>A solver applies the productions \<open>used R\<close> of a grammar that holds \<open>R\<close>.\<close>

locale cfl_process =
  fixes process :: "grammar \<Rightarrow> cfl_edge \<Rightarrow> 'm solver_scheme \<Rightarrow> 'm solver_scheme option"
    and used :: "production set \<Rightarrow> production set"
    and I :: "'m solver_scheme \<Rightarrow> bool"
  assumes I_worklist: "I (s\<lparr>sv_worklist := w\<rparr>) \<longleftrightarrow> I s"
    and process_ok: "filed eps R gr \<Longrightarrow> I s \<Longrightarrow> fifo_inv (sv_worklist s) \<Longrightarrow> e \<in> sv_edges s \<Longrightarrow> sv_waiting s \<subseteq> sv_edges s \<Longrightarrow>
      wp (process gr e s) (\<lambda>s'. grown I eps (used R) {} s s' \<and> consequences eps (used R) e (sv_edges s) \<subseteq> sv_edges s')"
begin

lemma step_settled:
  assumes "I s" "fifo_inv (sv_worklist s)" "covered_edges eps (used R) s" "popFromWorklist s = Some (e, t)" and F: "filed eps R gr"
  shows "wp (process gr e t) (\<lambda>s'. I s' \<and> fifo_inv (sv_worklist s') \<and> covered_edges eps (used R) s' \<and> sv_edges s \<subseteq> sv_edges s' \<and>
    cg_nodes (sv_graph s') = cg_nodes (sv_graph s) \<and>
    sv_edges s' \<subseteq> cfl_reach eps (used R) {} (sv_edges s) \<and> sv_waiting s' = sv_waiting s - {e} \<union> (sv_edges s' - sv_edges s) \<and> e \<in> sv_waiting s)"
proof -
  obtain w where p: "fifo_pop (sv_worklist s) = Some (e, w)" "t = s\<lparr>sv_worklist := w\<rparr>"
    using assms(4) by (auto simp: popFromWorklist_def)
  note w = fifo_pop_Some[OF assms(2) p(1)]
  have e: "e \<in> sv_edges t" using w(2) assms(3) p(2) by (auto simp: covered_edges_def)
  have t: "I t" "fifo_inv (sv_worklist t)" "sv_edges t = sv_edges s" "cg_nodes (sv_graph t) = cg_nodes (sv_graph s)"
      "sv_waiting t = sv_waiting s - {e}" "sv_waiting t \<subseteq> sv_edges t"
    using assms(1,3) I_worklist w p(2) by (auto simp: covered_edges_def)
  show ?thesis
  proof (rule wp_mono[OF process_ok[OF F t(1,2) e t(6)]])
    fix s' assume s': "grown I eps (used R) {} t s' \<and> consequences eps (used R) e (sv_edges t) \<subseteq> sv_edges s'"
    have E: "sv_edges s' - sv_waiting s' = insert e (sv_edges s - sv_waiting s)"
      using s' e t w(2) assms(3) by (auto simp: grown_def covered_edges_def)
    have "consequences eps (used R) f (sv_edges s' - sv_waiting s') \<subseteq> sv_edges s'" if "f \<in> sv_edges s' - sv_waiting s'" for f
    proof (cases "f = e")
      case True
      have "sv_edges s' - sv_waiting s' \<subseteq> sv_edges t" using E e t(3) by auto
      then have "consequences eps (used R) e (sv_edges s' - sv_waiting s') \<subseteq> consequences eps (used R) e (sv_edges t)"
        unfolding consequences_def by blast
      then show ?thesis using True s' by blast
    next
      case False
      then have f: "f \<in> sv_edges s - sv_waiting s" using that E by auto
      then have "consequences eps (used R) f (sv_edges s - sv_waiting s) \<subseteq> sv_edges s'"
        using assms(3) s' t(3) by (force simp: covered_edges_def grown_def)
      moreover have "consequences eps (used R) f {e} \<subseteq> consequences eps (used R) e (sv_edges t) \<union> consequences eps (used R) f (sv_edges s - sv_waiting s)"
        using f t(3) unfolding consequences_def by blast
      moreover have "consequences eps (used R) f (insert e A) \<subseteq> consequences eps (used R) f {e} \<union> consequences eps (used R) f A" for A
        unfolding consequences_def by blast
      ultimately show ?thesis unfolding E using s' by blast
    qed
    then show "I s' \<and> fifo_inv (sv_worklist s') \<and> covered_edges eps (used R) s' \<and> sv_edges s \<subseteq> sv_edges s' \<and> cg_nodes (sv_graph s') = cg_nodes (sv_graph s) \<and>
      sv_edges s' \<subseteq> cfl_reach eps (used R) {} (sv_edges s) \<and> sv_waiting s' = sv_waiting s - {e} \<union> (sv_edges s' - sv_edges s) \<and> e \<in> sv_waiting s"
      using s' t w(2) assms(3) by (auto simp: grown_def covered_edges_def)
  qed
qed

text \<open>The edges between the nodes of the given edges bound the run.\<close>

lemma drain_ok:
  assumes "I s" "fifo_inv (sv_worklist s)" "covered_edges eps (used R) s" "finite P" "\<And>e. e \<in> sv_edges s \<Longrightarrow> e_src e \<in> P \<and> e_dst e \<in> P"
    and F: "filed eps R gr"
  shows "\<exists>s'. drain (process gr) s = Some s' \<and> I s' \<and> sv_edges s' = cfl_reach eps (used R) {} (sv_edges s) \<and>
    cg_nodes (sv_graph s') = cg_nodes (sv_graph s)"
  using assms(1-3,5)
proof (induction "2 * card ({CFLEdge i l j | i l j. i \<in> P \<and> j \<in> P} - sv_edges s) + card (sv_waiting s)" arbitrary: s rule: less_induct)
  case less
  show ?case
  proof (cases "isWorklistEmpty s")
    case True
    then have "sv_waiting s = {}" by (simp add: isWorklistEmpty_def fifo_empty_def)
    from covered_edges_closed[OF less.prems(3) this] show ?thesis using True less.prems(1) by (subst drain.simps) auto
  next
    case False
    then obtain e t where p: "popFromWorklist s = Some (e, t)"
      by (cases "fifo_list (sv_worklist s)") (auto simp: isWorklistEmpty_def fifo_empty_def popFromWorklist_def fifo_pop_def)
    obtain s' where s': "process gr e t = Some s'" "I s'" "fifo_inv (sv_worklist s')" "covered_edges eps (used R) s'" "sv_edges s \<subseteq> sv_edges s'"
        "cg_nodes (sv_graph s') = cg_nodes (sv_graph s)" "sv_edges s' \<subseteq> cfl_reach eps (used R) {} (sv_edges s)"
        "sv_waiting s' = sv_waiting s - {e} \<union> (sv_edges s' - sv_edges s)" "e \<in> sv_waiting s"
      using step_settled[OF less.prems(1-3) p F] unfolding wp_iff by blast
    let ?U = "{CFLEdge i l j | i l j. i \<in> P \<and> j \<in> P}"
    have ends: "e_src f \<in> P \<and> e_dst f \<in> P" if "f \<in> sv_edges s'" for f
      using that cfl_reach_ends[of f eps "used R" "{}" "sv_edges s" P] less.prems(4) s'(7) by auto
    have "?U = (\<lambda>(i, l, j). CFLEdge i l j) ` (P \<times> UNIV \<times> P)" by (auto simp: image_iff)
    then have U: "finite ?U" using assms(4) by (simp add: finite_cartesian_product)
    have sub: "sv_edges s' \<subseteq> ?U"
    proof
      fix f assume "f \<in> sv_edges s'"
      then show "f \<in> ?U" using ends[of f] by (cases f) auto
    qed
    let ?N = "sv_edges s' - sv_edges s"
    have fin: "finite ?N" "finite (sv_waiting s)" using finite_subset[OF sub U] by auto
    have "card (?U - sv_edges s) = card (?U - sv_edges s') + card ?N"
    proof -
      have "?U - sv_edges s = (?U - sv_edges s') \<union> ?N" using sub s'(5) by blast
      moreover have "(?U - sv_edges s') \<inter> ?N = {}" by blast
      ultimately show ?thesis using card_Un_disjoint[of "?U - sv_edges s'" ?N] U fin by auto
    qed
    moreover have "card (sv_waiting s') \<le> card (sv_waiting s) - 1 + card ?N"
      using card_Un_le[of "sv_waiting s - {e}" ?N] s'(8,9) fin by simp
    moreover have "0 < card (sv_waiting s)" using s'(9) by (auto simp: card_gt_0_iff)
    ultimately have m: "2 * card (?U - sv_edges s') + card (sv_waiting s') < 2 * card (?U - sv_edges s) + card (sv_waiting s)"
      by linarith
    obtain s'' where s'': "drain (process gr) s' = Some s''" "I s''" "sv_edges s'' = cfl_reach eps (used R) {} (sv_edges s')"
        "cg_nodes (sv_graph s'') = cg_nodes (sv_graph s')"
      using less.hyps[OF m s'(2-4) ends] by blast
    have "cfl_reach eps (used R) {} (sv_edges s') = cfl_reach eps (used R) {} (sv_edges s)"
      using cfl_reach_mono[OF s'(7), of "{}"] cfl_reach_mono[of "sv_edges s" eps "used R" "{}" "sv_edges s'" "{}"]
        subset_cfl_reach[of "sv_edges s'"] s'(5) by blast
    then show ?thesis using False p s'(1,6) s'' by (subst drain.simps) auto
  qed
qed

end

subsection \<open>The first solver\<close>

definition graph_inv :: "'m solver_scheme \<Rightarrow> bool" where
  "graph_inv s \<longleftrightarrow> cg_inv (sv_graph s)"

lemma add_and_push_ok:
  assumes "graph_inv s" "fifo_inv (sv_worklist s)" "CFLEdge i (flag_of X) j \<in> cfl_reach eps R V (sv_edges s)" "sv_waiting s \<subseteq> sv_edges s"
  shows "wp (add_and_push i j X s) (\<lambda>s'. grown graph_inv eps R V s s' \<and> {CFLEdge i (flag_of X) j} \<subseteq> sv_edges s')"
proof -
  obtain r g where g: "addCFLEdge i j (flag_of X) (sv_graph s) = Some (r, g)" "cg_inv g" "cg_nodes g = cg_nodes (sv_graph s)"
      "edges g = insert (CFLEdge i (flag_of X) j) (sv_edges s)"
      "r = (if CFLEdge i (flag_of X) j \<in> sv_edges s then None else Some (CFLEdge i (flag_of X) j))"
    using addCFLEdge_ok[of "sv_graph s" i j "flag_of X"] assms(1) unfolding wp_iff graph_inv_def by auto
  have sub: "edges g \<subseteq> cfl_reach eps R V (sv_edges s)"
    using assms(3) subset_cfl_reach[of "sv_edges s"] unfolding g(4) by auto
  show ?thesis
  proof (cases "CFLEdge i (flag_of X) j \<in> sv_edges s")
    case True
    then show ?thesis using g assms(2) sub by (simp add: add_and_push_def grown_def graph_inv_def insert_absorb)
  next
    case False
    then have "CFLEdge i (flag_of X) j \<notin> fifo_set (sv_worklist s)" using assms(2,4) by (auto simp: fifo_inv_def)
    then show ?thesis using False g assms(2) sub
      by (auto simp: add_and_push_def grown_def graph_inv_def pushIntoWorklist_def fifo_push_def fifo_find_def fifo_inv_def)
  qed
qed

text \<open>An edge added inside a loop over the edges of one label is not new to the set it runs over.\<close>

lemma add_keeps_out:
  assumes "cg_inv g" "e \<in> set (getOutEdgeWithTy g j Z)" "e_flag e = flag_of Z" "addCFLEdge i (e_dst e) (flag_of X) g = Some (r, g')"
  shows "set (getOutEdgeWithTy g' j Z) = set (getOutEdgeWithTy g j Z)"
proof -
  have "cg_inv g'" "edges g' = insert (CFLEdge i (flag_of X) (e_dst e)) (edges g)"
    using addCFLEdge_ok[OF assms(1), of i "e_dst e" "flag_of X"] assms(4) by auto
  moreover have "CFLEdge j (flag_of Z) (e_dst e) \<in> edges g"
    using assms(2,3) unfolding out_with_ty[OF assms(1)] by (cases e) auto
  ultimately show ?thesis using out_with_ty[OF assms(1)] out_with_ty[of g'] by auto
qed

lemma add_keeps_in:
  assumes "cg_inv g" "e \<in> set (getInEdgeWithTy g i Z)" "e_flag e = flag_of Z" "addCFLEdge (e_src e) j (flag_of X) g = Some (r, g')"
  shows "set (getInEdgeWithTy g' i Z) = set (getInEdgeWithTy g i Z)"
proof -
  have "cg_inv g'" "edges g' = insert (CFLEdge (e_src e) (flag_of X) j) (edges g)"
    using addCFLEdge_ok[OF assms(1), of "e_src e" j "flag_of X"] assms(4) by auto
  moreover have "CFLEdge (e_src e) (flag_of Z) i \<in> edges g"
    using assms(2,3) unfolding in_with_ty[OF assms(1)] by (cases e) auto
  ultimately show ?thesis using in_with_ty[OF assms(1)] in_with_ty[of g'] by auto
qed

text \<open>What the solvers read from a grammar that holds the productions \<open>R\<close>.\<close>

lemma foldM_Nil: "foldM f [] = Some"
  by (rule ext) simp

lemma prods_or_none:
  "(if b then Option.bind m (\<lambda>ps. foldM f ps s) else Some s) = Option.bind (if b then m else Some []) (\<lambda>ps. foldM f ps s)"
  by simp

lemma process_with_eq:
  "process_with gr r1 r2 r3 e s = do {
     s \<leftarrow> foldM (r1 (e_src e) (e_dst e)) (aget [] (gr_singleRHSToProds gr) (edge_symbol e)) s;
     s \<leftarrow> foldM (r2 (e_src e) (e_dst e)) (aget [] (gr_firstRHSToProds gr) (edge_symbol e)) s;
     foldM (r3 (e_src e) (e_dst e)) (aget [] (gr_secondRHSToProds gr) (edge_symbol e)) s }"
  unfolding process_with_def Let_def prods_or_none
  by (auto simp: hasProdsFromSingleRHS_def getProdsFromSingleRHS_def hasProdsFromFirstRHS_def getProdsFromFirstRHS_def
    hasProdsFromSecondRHS_def getProdsFromSecondRHS_def ahas_def aget_def foldM_Nil split: option.splits)

text \<open>A solver is described by what its three loop bodies derive; \<open>J\<close> is its own invariant.\<close>

lemma process_with_ok:
  assumes f: "filed eps R gr" and R': "R' \<subseteq> R" and s: "J s" "fifo_inv (sv_worklist s)" "e \<in> sv_edges s"
    and r1: "\<And>p t. p \<in> {[a, edge_symbol e] | a. [a, edge_symbol e] \<in> R \<and> \<not> eps_production eps a (edge_symbol e)} \<Longrightarrow>
      grown J eps R' {} s t \<Longrightarrow>
      wp (r1 (e_src e) (e_dst e) p t) (\<lambda>t'. grown J eps R' {} t t' \<and> (if p \<in> R' then {CFLEdge (e_src e) (flag_of (hd p)) (e_dst e)} else {}) \<subseteq> sv_edges t')"
    and r2: "\<And>a c t. [a, edge_symbol e, c] \<in> R \<Longrightarrow> grown J eps R' {} s t \<Longrightarrow>
      wp (r2 (e_src e) (e_dst e) [a, edge_symbol e, c] t) (\<lambda>t'. grown J eps R' {} t t' \<and>
        {CFLEdge (e_src e) (flag_of a) (e_dst f) | f. [a, edge_symbol e, c] \<in> R' \<and> f \<in> sv_edges t \<and> e_src f = e_dst e \<and> edge_symbol f = c} \<subseteq> sv_edges t')"
    and r3: "\<And>a b t. [a, b, edge_symbol e] \<in> R \<Longrightarrow> grown J eps R' {} s t \<Longrightarrow>
      wp (r3 (e_src e) (e_dst e) [a, b, edge_symbol e] t) (\<lambda>t'. grown J eps R' {} t t' \<and>
        {CFLEdge (e_src f) (flag_of a) (e_dst e) | f. [a, b, edge_symbol e] \<in> R' \<and> f \<in> sv_edges t \<and> e_dst f = e_src e \<and> edge_symbol f = b} \<subseteq> sv_edges t')"
  shows "wp (process_with gr r1 r2 r3 e s) (\<lambda>s'. grown J eps R' {} s s' \<and> consequences eps R' e (sv_edges s) \<subseteq> sv_edges s')"
proof -
  let ?Y = "edge_symbol e"
  let ?G1 = "\<lambda>p. if p \<in> R' then {CFLEdge (e_src e) (flag_of (hd p)) (e_dst e)} else {}"
  let ?G2 = "\<lambda>p. {CFLEdge (e_src e) (flag_of (hd p)) (e_dst f) | f. p \<in> R' \<and> f \<in> sv_edges s \<and> e_src f = e_dst e \<and> edge_symbol f = p ! 2}"
  let ?G3 = "\<lambda>p. {CFLEdge (e_src f) (flag_of (hd p)) (e_dst e) | f. p \<in> R' \<and> f \<in> sv_edges s \<and> e_dst f = e_src e \<and> edge_symbol f = p ! 1}"
  have p1: "set (aget [] (gr_singleRHSToProds gr) ?Y) = {[a, ?Y] | a. [a, ?Y] \<in> R \<and> \<not> eps_production eps a ?Y}"
    and p2: "set (aget [] (gr_firstRHSToProds gr) ?Y) = {[a, ?Y, c] | a c. [a, ?Y, c] \<in> R}"
    and p3: "set (aget [] (gr_secondRHSToProds gr) ?Y) = {[a, b, ?Y] | a b. [a, b, ?Y] \<in> R}"
    using f by (simp_all add: filed_def eps_production_def)
  have b1: "wp (r1 (e_src e) (e_dst e) p t) (\<lambda>t'. grown J eps R' {} t t' \<and> ?G1 p \<subseteq> sv_edges t')"
    if pm: "p \<in> set (aget [] (gr_singleRHSToProds gr) ?Y)" and pt: "grown J eps R' {} s t" for p t
    by (rule r1[OF _ pt]) (use pm p1 in simp)
  obtain t1 where t1: "foldM (r1 (e_src e) (e_dst e)) (aget [] (gr_singleRHSToProds gr) ?Y) s = Some t1"
      "grown J eps R' {} s t1" "(\<Union>p\<in>set (aget [] (gr_singleRHSToProds gr) ?Y). ?G1 p) \<subseteq> sv_edges t1"
    using grown_foldM[where G = ?G1 and xs = "aget [] (gr_singleRHSToProds gr) ?Y", OF b1 s(1,2)] unfolding wp_iff by blast
  have i1: "J t1" "fifo_inv (sv_worklist t1)" "sv_edges s \<subseteq> sv_edges t1" using t1(2) by (auto simp: grown_def)
  have b2: "wp (r2 (e_src e) (e_dst e) p t) (\<lambda>t'. grown J eps R' {} t t' \<and> ?G2 p \<subseteq> sv_edges t')"
    if pm: "p \<in> set (aget [] (gr_firstRHSToProds gr) ?Y)" and pt: "grown J eps R' {} t1 t" for p t
  proof -
    obtain a c where p: "p = [a, ?Y, c]" "[a, ?Y, c] \<in> R" using pm unfolding p2 by auto
    have g: "grown J eps R' {} s t" by (rule grown_trans[OF t1(2) pt])
    have "?G2 p \<subseteq> {CFLEdge (e_src e) (flag_of a) (e_dst f) | f. [a, edge_symbol e, c] \<in> R' \<and> f \<in> sv_edges t \<and> e_src f = e_dst e \<and> edge_symbol f = c}"
      using g unfolding grown_def p(1) by auto
    then show ?thesis unfolding p(1) by (intro wp_mono[OF r2[OF p(2) g]]) blast
  qed
  obtain t2 where t2: "foldM (r2 (e_src e) (e_dst e)) (aget [] (gr_firstRHSToProds gr) ?Y) t1 = Some t2"
      "grown J eps R' {} t1 t2" "(\<Union>p\<in>set (aget [] (gr_firstRHSToProds gr) ?Y). ?G2 p) \<subseteq> sv_edges t2"
    using grown_foldM[where G = ?G2 and xs = "aget [] (gr_firstRHSToProds gr) ?Y", OF b2 i1(1,2)] unfolding wp_iff by blast
  have g2: "grown J eps R' {} s t2" by (rule grown_trans[OF t1(2) t2(2)])
  have i2: "J t2" "fifo_inv (sv_worklist t2)" using t2(2) by (auto simp: grown_def)
  have b3: "wp (r3 (e_src e) (e_dst e) p t) (\<lambda>t'. grown J eps R' {} t t' \<and> ?G3 p \<subseteq> sv_edges t')"
    if pm: "p \<in> set (aget [] (gr_secondRHSToProds gr) ?Y)" and pt: "grown J eps R' {} t2 t" for p t
  proof -
    obtain a b where p: "p = [a, b, ?Y]" "[a, b, ?Y] \<in> R" using pm unfolding p3 by auto
    have g: "grown J eps R' {} s t" by (rule grown_trans[OF g2 pt])
    have "?G3 p \<subseteq> {CFLEdge (e_src f) (flag_of a) (e_dst e) | f. [a, b, edge_symbol e] \<in> R' \<and> f \<in> sv_edges t \<and> e_dst f = e_src e \<and> edge_symbol f = b}"
      using g unfolding grown_def p(1) by auto
    then show ?thesis unfolding p(1) by (intro wp_mono[OF r3[OF p(2) g]]) blast
  qed
  obtain t3 where t3: "foldM (r3 (e_src e) (e_dst e)) (aget [] (gr_secondRHSToProds gr) ?Y) t2 = Some t3"
      "grown J eps R' {} t2 t3" "(\<Union>p\<in>set (aget [] (gr_secondRHSToProds gr) ?Y). ?G3 p) \<subseteq> sv_edges t3"
    using grown_foldM[where G = ?G3 and xs = "aget [] (gr_secondRHSToProds gr) ?Y", OF b3 i2] unfolding wp_iff by blast
  have "consequences eps R' e (sv_edges s) \<subseteq> sv_edges t3"
  proof -
    have m: "sv_edges t1 \<subseteq> sv_edges t3" "sv_edges t2 \<subseteq> sv_edges t3" using t2(2) t3(2) by (auto simp: grown_def)
    have "\<Union> (?G1 ` set (aget [] (gr_singleRHSToProds gr) ?Y)) \<union> \<Union> (?G2 ` set (aget [] (gr_firstRHSToProds gr) ?Y)) \<union>
        \<Union> (?G3 ` set (aget [] (gr_secondRHSToProds gr) ?Y)) \<subseteq> sv_edges t3"
      by (rule Un_least[OF Un_least[OF subset_trans[OF t1(3) m(1)] subset_trans[OF t2(3) m(2)]] t3(3)])
    moreover have "x \<in> \<Union> (?G1 ` set (aget [] (gr_singleRHSToProds gr) ?Y)) \<union> \<Union> (?G2 ` set (aget [] (gr_firstRHSToProds gr) ?Y)) \<union>
        \<Union> (?G3 ` set (aget [] (gr_secondRHSToProds gr) ?Y))" if x: "x \<in> consequences eps R' e (sv_edges s)" for x
    proof -
      from x consider a where "x = CFLEdge (e_src e) (flag_of a) (e_dst e)" "[a, ?Y] \<in> R'" "\<not> eps_production eps a ?Y"
        | a f where "x = CFLEdge (e_src e) (flag_of a) (e_dst f)" "f \<in> sv_edges s" "e_dst e = e_src f" "[a, ?Y, edge_symbol f] \<in> R'"
        | a f where "x = CFLEdge (e_src f) (flag_of a) (e_dst e)" "f \<in> sv_edges s" "e_dst f = e_src e" "[a, edge_symbol f, ?Y] \<in> R'"
        unfolding consequences_def by blast
      then show ?thesis
      proof cases
        case (1 a)
        then have "x \<in> \<Union> (?G1 ` set (aget [] (gr_singleRHSToProds gr) ?Y))" by (intro UN_I[of "[a, ?Y]"]) (use R' in \<open>auto simp: p1\<close>)
        then show ?thesis by blast
      next
        case (2 a f)
        then have "x \<in> \<Union> (?G2 ` set (aget [] (gr_firstRHSToProds gr) ?Y))" by (intro UN_I[of "[a, ?Y, edge_symbol f]"]) (use R' in \<open>auto simp: p2\<close>)
        then show ?thesis by blast
      next
        case (3 a f)
        then have "x \<in> \<Union> (?G3 ` set (aget [] (gr_secondRHSToProds gr) ?Y))" by (intro UN_I[of "[a, edge_symbol f, ?Y]"]) (use R' in \<open>auto simp: p3\<close>)
        then show ?thesis by blast
      qed
    qed
    ultimately show ?thesis by (meson subsetD subsetI)
  qed
  then show ?thesis using t1(1) t2(1) t3(1) grown_trans[OF g2 t3(2)] by (simp add: process_with_eq)
qed

lemma loop_adds:
  assumes "\<And>f. f \<in> set fs \<Longrightarrow> CFLEdge (src f) (flag_of a) (dst f) \<in> cfl_reach eps R V (sv_edges t)"
    and "graph_inv t" "fifo_inv (sv_worklist t)" "sv_waiting t \<subseteq> sv_edges t"
  shows "wp (foldM (\<lambda>f. add_and_push (src f) (dst f) a) fs t)
    (\<lambda>t'. grown graph_inv eps R V t t' \<and> (\<Union>f\<in>set fs. {CFLEdge (src f) (flag_of a) (dst f)}) \<subseteq> sv_edges t')"
proof (rule grown_foldM[where I = graph_inv and G = "\<lambda>f. {CFLEdge (src f) (flag_of a) (dst f)}"])
  fix f u assume f: "f \<in> set fs" and u: "grown graph_inv eps R V t u"
  have "cfl_reach eps R V (sv_edges t) \<subseteq> cfl_reach eps R V (sv_edges u)"
    by (rule cfl_reach_mono) (use u in \<open>auto simp: grown_def intro: cfl_reach.given\<close>)
  then show "wp (add_and_push (src f) (dst f) a u)
      (\<lambda>t'. grown graph_inv eps R V u t' \<and> {CFLEdge (src f) (flag_of a) (dst f)} \<subseteq> sv_edges t')"
    by (intro add_and_push_ok) (use u f assms in \<open>auto simp: grown_def\<close>)
qed (rule assms)+

lemma cfl_process_ok:
  assumes f: "filed eps R gr" and s: "graph_inv s" "fifo_inv (sv_worklist s)" "e \<in> sv_edges s" "sv_waiting s \<subseteq> sv_edges s"
  shows "wp (cfl_processCFLEdge gr e s) (\<lambda>s'. grown graph_inv eps R {} s s' \<and> consequences eps R e (sv_edges s) \<subseteq> sv_edges s')"
  unfolding cfl_processCFLEdge_def
proof (rule process_with_ok[where J = graph_inv, OF f subset_refl s(1-3)])
  fix p and t :: "'a solver_scheme"
  assume p: "p \<in> {[a, edge_symbol e] | a. [a, edge_symbol e] \<in> R \<and> \<not> eps_production eps a (edge_symbol e)}"
    and t: "grown graph_inv eps R {} s t"
  have "CFLEdge (e_src e) (flag_of (hd p)) (e_dst e) \<in> cfl_reach eps R {} (sv_edges t)"
    using cfl_reach.single[OF cfl_reach.given, of e "sv_edges t" "hd p" R eps] p t s(3) by (auto simp: grown_def)
  from add_and_push_ok[OF _ _ this] show "wp (single_rule (e_src e) (e_dst e) p t)
      (\<lambda>t'. grown graph_inv eps R {} t t' \<and> (if p \<in> R then {CFLEdge (e_src e) (flag_of (hd p)) (e_dst e)} else {}) \<subseteq> sv_edges t')"
    using p t s(4) by (auto simp: single_rule_def getLHSSymbol_def prod_at_def grown_def)
next
  fix a c and t :: "'a solver_scheme"
  assume p: "[a, edge_symbol e, c] \<in> R" and t: "grown graph_inv eps R {} s t"
  then have i: "cg_inv (sv_graph t)" by (simp add: grown_def graph_inv_def)
  have "CFLEdge (e_src e) (flag_of a) (e_dst f) \<in> cfl_reach eps R {} (sv_edges t)"
    if "f \<in> set (getOutEdgeWithTy (sv_graph t) (e_dst e) c)" for f
    using cfl_reach.binary[OF cfl_reach.given cfl_reach.given, of e "sv_edges t" f a R eps] that p t s(3) out_with_ty[OF i]
    by (auto simp: grown_def)
  from loop_adds[where src = "\<lambda>_. e_src e" and dst = e_dst, OF this]
  have "wp (first_rule (e_src e) (e_dst e) [a, edge_symbol e, c] t) (\<lambda>t'. grown graph_inv eps R {} t t' \<and>
      (\<Union>f\<in>set (getOutEdgeWithTy (sv_graph t) (e_dst e) c). {CFLEdge (e_src e) (flag_of a) (e_dst f)}) \<subseteq> sv_edges t')"
    using t s(4) by (auto simp: first_rule_def getLHSSymbol_def getSecondRHSSymbol_def prod_at_def grown_def)
  then show "wp (first_rule (e_src e) (e_dst e) [a, edge_symbol e, c] t) (\<lambda>t'. grown graph_inv eps R {} t t' \<and>
      {CFLEdge (e_src e) (flag_of a) (e_dst f) | f. [a, edge_symbol e, c] \<in> R \<and> f \<in> sv_edges t \<and> e_src f = e_dst e \<and> edge_symbol f = c} \<subseteq> sv_edges t')"
    by (rule wp_mono) (use out_with_ty[OF i] in auto)
next
  fix a b and t :: "'a solver_scheme"
  assume p: "[a, b, edge_symbol e] \<in> R" and t: "grown graph_inv eps R {} s t"
  then have i: "cg_inv (sv_graph t)" by (simp add: grown_def graph_inv_def)
  have "CFLEdge (e_src f) (flag_of a) (e_dst e) \<in> cfl_reach eps R {} (sv_edges t)"
    if "f \<in> set (getInEdgeWithTy (sv_graph t) (e_src e) b)" for f
    using cfl_reach.binary[OF cfl_reach.given cfl_reach.given, of f "sv_edges t" e a R eps] that p t s(3) in_with_ty[OF i]
    by (auto simp: grown_def)
  from loop_adds[where src = e_src and dst = "\<lambda>_. e_dst e", OF this]
  have "wp (second_rule (e_src e) (e_dst e) [a, b, edge_symbol e] t) (\<lambda>t'. grown graph_inv eps R {} t t' \<and>
      (\<Union>f\<in>set (getInEdgeWithTy (sv_graph t) (e_src e) b). {CFLEdge (e_src f) (flag_of a) (e_dst e)}) \<subseteq> sv_edges t')"
    using t s(4) by (auto simp: second_rule_def getLHSSymbol_def getFirstRHSSymbol_def prod_at_def grown_def)
  then show "wp (second_rule (e_src e) (e_dst e) [a, b, edge_symbol e] t) (\<lambda>t'. grown graph_inv eps R {} t t' \<and>
      {CFLEdge (e_src f) (flag_of a) (e_dst e) | f. [a, b, edge_symbol e] \<in> R \<and> f \<in> sv_edges t \<and> e_dst f = e_src e \<and> edge_symbol f = b} \<subseteq> sv_edges t')"
    by (rule wp_mono) (use in_with_ty[OF i] in auto)
qed

interpretation first_solver: cfl_process cfl_processCFLEdge "\<lambda>R. R" graph_inv
  by unfold_locales (simp add: graph_inv_def, rule cfl_process_ok)

text \<open>The edges of all nodes wait; then the loops of the epsilon productions are added.\<close>

lemma push_ok:
  "fifo_inv (sv_worklist s) \<Longrightarrow> fifo_inv (sv_worklist (pushIntoWorklist e s)) \<and>
     sv_waiting (pushIntoWorklist e s) = insert e (sv_waiting s) \<and> sv_graph (pushIntoWorklist e s) = sv_graph s"
  by (auto simp: pushIntoWorklist_def fifo_push_def fifo_find_def fifo_inv_def)

lemma push_edges_ok:
  "fifo_inv (sv_worklist s) \<Longrightarrow> fifo_inv (sv_worklist (fold pushIntoWorklist es s)) \<and>
     sv_waiting (fold pushIntoWorklist es s) = set es \<union> sv_waiting s \<and> sv_graph (fold pushIntoWorklist es s) = sv_graph s"
  by (induction es arbitrary: s) (use push_ok in auto)

lemma push_nodes_ok:
  "fifo_inv (sv_worklist s) \<Longrightarrow>
     fifo_inv (sv_worklist (fold (\<lambda>n s. fold pushIntoWorklist (cg_OutEdges (sv_graph s) n) s) ns s)) \<and>
     sv_waiting (fold (\<lambda>n s. fold pushIntoWorklist (cg_OutEdges (sv_graph s) n) s) ns s) =
       (\<Union>n\<in>set ns. set (cg_OutEdges (sv_graph s) n)) \<union> sv_waiting s \<and>
     sv_graph (fold (\<lambda>n s. fold pushIntoWorklist (cg_OutEdges (sv_graph s) n) s) ns s) = sv_graph s"
proof (induction ns arbitrary: s)
  case (Cons n ns)
  note k = push_edges_ok[OF Cons.prems, of "cg_OutEdges (sv_graph s) n"]
  from Cons.IH[OF conjunct1[OF k]] k show ?case by auto
qed simp

definition loops :: "32 word \<Rightarrow> production set \<Rightarrow> nat set \<Rightarrow> cfl_edge set" where
  "loops eps R V = {CFLEdge i (flag_of a) i | a b i. [a, b] \<in> R \<and> eps_production eps a b \<and> i \<in> V}"

lemma cfl_reach_loops: "cfl_reach eps R V E = cfl_reach eps R {} (E \<union> loops eps R V)"
proof
  show "cfl_reach eps R V E \<subseteq> cfl_reach eps R {} (E \<union> loops eps R V)"
  proof
    fix e assume "e \<in> cfl_reach eps R V E"
    then show "e \<in> cfl_reach eps R {} (E \<union> loops eps R V)"
      by (induction rule: cfl_reach.induct) (auto intro: cfl_reach.intros simp: loops_def)
  qed
  show "cfl_reach eps R {} (E \<union> loops eps R V) \<subseteq> cfl_reach eps R V E"
    by (rule cfl_reach_mono) (auto intro: cfl_reach.intros simp: loops_def)
qed

lemma cfl_initialize_ok:
  assumes f: "filed eps R gr" and s: "graph_inv s" "fifo_list (sv_worklist s) = []" "fifo_inv (sv_worklist s)"
    and n: "\<And>e. e \<in> sv_edges s \<Longrightarrow> e_src e \<in> set (cg_nodes (sv_graph s))"
  shows "wp (cfl_initialize gr s) (\<lambda>t. graph_inv t \<and> fifo_inv (sv_worklist t) \<and> sv_waiting t = sv_edges t \<and>
    sv_edges t = sv_edges s \<union> loops eps R (set (cg_nodes (sv_graph s))) \<and> cg_nodes (sv_graph t) = cg_nodes (sv_graph s))"
proof -
  let ?V = "set (cg_nodes (sv_graph s))"
  let ?s = "fold (\<lambda>n s. fold pushIntoWorklist (cg_OutEdges (sv_graph s) n) s) (cg_nodes (sv_graph s)) s"
  have p: "fifo_inv (sv_worklist ?s)" "sv_waiting ?s = (\<Union>n\<in>?V. set (cg_OutEdges (sv_graph s) n))" "sv_graph ?s = sv_graph s"
    using push_nodes_ok[OF s(3), of "cg_nodes (sv_graph s)"] s(2) by auto
  have w: "sv_waiting ?s = sv_edges s" using s(1) n unfolding p(2) graph_inv_def cg_inv_def by auto
  let ?Q = "\<lambda>ps t. graph_inv t \<and> fifo_inv (sv_worklist t) \<and> sv_waiting t = sv_edges t \<and>
    sv_edges t = sv_edges s \<union> {CFLEdge i (flag_of (hd q)) i | q i. (q, i) \<in> ps} \<and> cg_nodes (sv_graph t) = cg_nodes (sv_graph s)"
  have body: "wp (do { X \<leftarrow> getLHSSymbol q; add_and_push i i X t }) (?Q (insert (q, i) ps))"
    if t: "?Q ps t" and q: "q \<noteq> []" for q i ps and t :: "'a solver_scheme"
  proof -
    have l: "getLHSSymbol q = Some (hd q)" using q by (simp add: getLHSSymbol_def prod_at_def hd_conv_nth)
    obtain r g where g: "addCFLEdge i i (flag_of (hd q)) (sv_graph t) = Some (r, g)" "cg_inv g" "cg_nodes g = cg_nodes (sv_graph t)"
        "edges g = insert (CFLEdge i (flag_of (hd q)) i) (sv_edges t)"
        "r = (if CFLEdge i (flag_of (hd q)) i \<in> sv_edges t then None else Some (CFLEdge i (flag_of (hd q)) i))"
      using addCFLEdge_ok[of "sv_graph t" i i "flag_of (hd q)"] t unfolding wp_iff graph_inv_def by auto
    show ?thesis
      using push_ok[of "t\<lparr>sv_graph := g\<rparr>" "CFLEdge i (flag_of (hd q)) i"] t g
      by (auto simp: l add_and_push_def graph_inv_def)
  qed
  have rows: "wp (foldM (\<lambda>i s. do { X \<leftarrow> getLHSSymbol q; add_and_push i i X s }) ns t) (?Q (ps \<union> {q} \<times> set ns))"
    if "?Q ps t" "q \<noteq> []" for q ns ps and t :: "'a solver_scheme"
    using that(1)
  proof (induction ns arbitrary: ps t)
    case (Cons i ns)
    show ?case
    proof (simp only: foldM.simps, subst wp_bind, rule wp_mono[OF body[OF Cons.prems that(2)]])
      fix t' :: "'a solver_scheme" assume "?Q (insert (q, i) ps) t'"
      from Cons.IH[OF this] show "wp (foldM (\<lambda>i s. do { X \<leftarrow> getLHSSymbol q; add_and_push i i X s }) ns t') (?Q (ps \<union> {q} \<times> set (i # ns)))"
        by (simp add: insert_Times_insert)
    qed
  qed simp
  have all: "wp (foldM (\<lambda>p s. foldM (\<lambda>i s. do { X \<leftarrow> getLHSSymbol p; add_and_push i i X s }) (cg_nodes (sv_graph s)) s) qs t)
      (?Q (ps \<union> set qs \<times> ?V))" if "?Q ps t" "\<And>q. q \<in> set qs \<Longrightarrow> q \<noteq> []" for qs ps and t :: "'a solver_scheme"
    using that
  proof (induction qs arbitrary: ps t)
    case (Cons q qs)
    have e: "cg_nodes (sv_graph t) = cg_nodes (sv_graph s)" using Cons.prems(1) by simp
    show ?case
      unfolding foldM.simps wp_bind e
    proof (rule wp_mono[OF rows[OF Cons.prems(1)]])
      show "q \<noteq> []" using Cons.prems(2) by simp
      fix t' :: "'a solver_scheme" assume "?Q (ps \<union> {q} \<times> ?V) t'"
      have u: "ps \<union> set (q # qs) \<times> ?V = (ps \<union> {q} \<times> ?V) \<union> set qs \<times> ?V" by auto
      show "wp (foldM (\<lambda>p s. foldM (\<lambda>i s. do { X \<leftarrow> getLHSSymbol p; add_and_push i i X s }) (cg_nodes (sv_graph s)) s) qs t')
          (?Q (ps \<union> set (q # qs) \<times> ?V))"
        unfolding u by (rule Cons.IH[OF \<open>?Q (ps \<union> {q} \<times> ?V) t'\<close>]) (use Cons.prems(2) in simp)
    qed
  qed simp
  have e: "set (gr_epsilonProds gr) = {[a, b] | a b. [a, b] \<in> R \<and> eps_production eps a b}"
    using f by (simp add: filed_def eps_production_def)
  have "?Q {} ?s" using p w s(1) by (simp add: graph_inv_def)
  from all[OF this, of "gr_epsilonProds gr"] e
  have "wp (cfl_initialize gr s) (?Q (set (gr_epsilonProds gr) \<times> ?V))" by (auto simp: cfl_initialize_def Let_def)
  moreover have "{CFLEdge i (flag_of (hd q)) i | q i. (q, i) \<in> set (gr_epsilonProds gr) \<times> ?V} = loops eps R ?V"
    unfolding e loops_def by force
  ultimately show ?thesis by simp
qed

theorem cfl_solve_ok:
  assumes "filed eps R gr" "cg_inv g" "\<And>e. e \<in> edges g \<Longrightarrow> e_src e \<in> set (cg_nodes g) \<and> e_dst e \<in> set (cg_nodes g)"
  shows "\<exists>s. cfl_solve gr (solver_new g) = Some s \<and> cg_inv (sv_graph s) \<and> cg_nodes (sv_graph s) = cg_nodes g \<and>
    sv_edges s = cfl_reach eps R (set (cg_nodes g)) (edges g)"
proof -
  obtain t where t: "cfl_initialize gr (solver_new g) = Some t" "graph_inv t" "fifo_inv (sv_worklist t)" "sv_waiting t = sv_edges t"
      "sv_edges t = edges g \<union> loops eps R (set (cg_nodes g))" "cg_nodes (sv_graph t) = cg_nodes g"
    using cfl_initialize_ok[OF assms(1), of "solver_new g"] assms(2,3)
    unfolding wp_iff by (auto simp: solver_new_def graph_inv_def fifo_new_def fifo_inv_def)
  have "covered_edges eps R t" using t(4) by (simp add: covered_edges_def)
  moreover have "e_src e \<in> set (cg_nodes g) \<and> e_dst e \<in> set (cg_nodes g)" if "e \<in> sv_edges t" for e
    using that assms(3) unfolding t(5) loops_def by auto
  ultimately show ?thesis
    using first_solver.drain_ok[OF t(2,3) _ _ _ assms(1), of "set (cg_nodes g)"] t(1,5,6)
    by (auto simp: cfl_solve_def cfl_reach_loops[of eps R "set (cg_nodes g)"] graph_inv_def)
qed

end
