(* ===== verification/CFL_POCR.thy ===== *)
theory CFL_POCR
  imports CFL_Solver
begin

text \<open>
  The solvers that keep the successors and predecessors of each node as bit sets:
  \<^verbatim>\<open>POCRSolver\<close> and \<^verbatim>\<open>POCRHybridSolver\<close> of \<^verbatim>\<open>svf/include/CFL/CFLSolver.h\<close> and
  \<^verbatim>\<open>svf/lib/CFL/CFLSolver.cpp\<close>. Both satisfy the contract \<open>cfl_process\<close> of the first solver, so
  that their results are characterised by the same closure, with two differences: the empty paths
  are added at the nodes that have a successor only, and the hybrid solver never applies the
  production \<^verbatim>\<open>F -> F F\<close>.

  A \<^verbatim>\<open>NodeBS\<close> stands for the set it holds and is iterated in increasing order.
\<close>

subsection \<open>\<^verbatim>\<open>DataMap\<close>\<close>

type_synonym data_map = "(nat \<times> (symbol \<times> nat set) list) list"

definition dm_get :: "data_map \<Rightarrow> nat \<Rightarrow> symbol \<Rightarrow> nat set" where
  "dm_get m key ty = aget {} (aget [] m key) ty"

definition dm_put :: "nat \<Rightarrow> symbol \<Rightarrow> nat set \<Rightarrow> data_map \<Rightarrow> data_map" where
  "dm_put key ty v m = aput key (aput ty v (aget [] m key)) m"

text \<open>\<^verbatim>\<open>m[key][ty]\<close> as a value makes the entries it does not find.\<close>

definition dm_ref :: "data_map \<Rightarrow> nat \<Rightarrow> symbol \<Rightarrow> data_map" where
  "dm_ref m key ty = dm_put key ty (dm_get m key ty) m"

lemma dm_get_put [simp]: "dm_get (dm_put k t v m) k' t' = (if k = k' \<and> t = t' then v else dm_get m k' t')"
  by (simp add: dm_get_def dm_put_def)

lemma dm_get_ref [simp]: "dm_get (dm_ref m k t) k' t' = dm_get m k' t'"
  by (simp add: dm_ref_def)

lemma ahas_dm_put [simp]: "ahas (dm_put k t v m) k' \<longleftrightarrow> k = k' \<or> ahas m k'"
  by (simp add: dm_put_def)

record pocr_solver = solver +
  pc_succMap :: data_map
  pc_predMap :: data_map

definition addPred :: "nat \<Rightarrow> nat \<Rightarrow> symbol \<Rightarrow> 'm pocr_solver_scheme \<Rightarrow> bool \<times> 'm pocr_solver_scheme" where
  "addPred key src ty s = (let d = dm_get (pc_predMap s) key ty
     in (src \<notin> d, s\<lparr>pc_predMap := dm_put key ty (insert src d) (pc_predMap s)\<rparr>))"

definition addSucc :: "nat \<Rightarrow> nat \<Rightarrow> symbol \<Rightarrow> 'm pocr_solver_scheme \<Rightarrow> bool \<times> 'm pocr_solver_scheme" where
  "addSucc key dst ty s = (let d = dm_get (pc_succMap s) key ty
     in (dst \<notin> d, s\<lparr>pc_succMap := dm_put key ty (insert dst d) (pc_succMap s)\<rparr>))"

definition addPreds :: "nat \<Rightarrow> nat set \<Rightarrow> symbol \<Rightarrow> 'm pocr_solver_scheme \<Rightarrow> bool \<times> 'm pocr_solver_scheme" where
  "addPreds key data ty s =
    (if data = {} then (False, s)
     else let d = dm_get (pc_predMap s) key ty
       in (\<not> data \<subseteq> d, s\<lparr>pc_predMap := dm_put key ty (d \<union> data) (pc_predMap s)\<rparr>))"

definition addSuccs :: "nat \<Rightarrow> nat set \<Rightarrow> symbol \<Rightarrow> 'm pocr_solver_scheme \<Rightarrow> bool \<times> 'm pocr_solver_scheme" where
  "addSuccs key data ty s =
    (if data = {} then (False, s)
     else let d = dm_get (pc_succMap s) key ty
       in (\<not> data \<subseteq> d, s\<lparr>pc_succMap := dm_put key ty (d \<union> data) (pc_succMap s)\<rparr>))"

definition pc_addEdge :: "nat \<Rightarrow> nat \<Rightarrow> symbol \<Rightarrow> 'm pocr_solver_scheme \<Rightarrow> bool \<times> 'm pocr_solver_scheme" where
  "pc_addEdge src dst ty s = addPred dst src ty (snd (addSucc src dst ty s))"

text \<open>The two \<^verbatim>\<open>addEdges\<close>, for the destinations of a source and for the sources of a destination.\<close>

definition pred_step :: "nat \<Rightarrow> symbol \<Rightarrow> nat \<Rightarrow> nat set \<times> 'm pocr_solver_scheme \<Rightarrow> nat set \<times> 'm pocr_solver_scheme" where
  "pred_step src ty datum = (\<lambda>(newDsts, s). case addPred datum src ty s of (new, s) \<Rightarrow>
     (if new then insert datum newDsts else newDsts, s))"

definition succ_step :: "nat \<Rightarrow> symbol \<Rightarrow> nat \<Rightarrow> nat set \<times> 'm pocr_solver_scheme \<Rightarrow> nat set \<times> 'm pocr_solver_scheme" where
  "succ_step dst ty datum = (\<lambda>(newSrcs, s). case addSucc datum dst ty s of (new, s) \<Rightarrow>
     (if new then insert datum newSrcs else newSrcs, s))"

definition addEdges_dsts :: "nat \<Rightarrow> nat set \<Rightarrow> symbol \<Rightarrow> 'm pocr_solver_scheme \<Rightarrow> nat set \<times> 'm pocr_solver_scheme" where
  "addEdges_dsts src dstData ty s =
    (case addSuccs src dstData ty s of (changed, s) \<Rightarrow>
       if changed
       then fold (pred_step src ty) (sorted_list_of_set dstData) ({}, s)
       else ({}, s))"

definition addEdges_srcs :: "nat set \<Rightarrow> nat \<Rightarrow> symbol \<Rightarrow> 'm pocr_solver_scheme \<Rightarrow> nat set \<times> 'm pocr_solver_scheme" where
  "addEdges_srcs srcData dst ty s =
    (case addPreds dst srcData ty s of (changed, s) \<Rightarrow>
       if changed
       then fold (succ_step dst ty) (sorted_list_of_set srcData) ({}, s)
       else ({}, s))"

definition pc_hasEdge :: "nat \<Rightarrow> nat \<Rightarrow> symbol \<Rightarrow> 'm pocr_solver_scheme \<Rightarrow> bool" where
  "pc_hasEdge src dst ty s \<longleftrightarrow> (case map_of (pc_succMap s) src of
      None \<Rightarrow> False
    | Some tm \<Rightarrow> (case map_of tm ty of None \<Rightarrow> False | Some d \<Rightarrow> dst \<in> d))"

definition pocr_clear :: "'m pocr_solver_scheme \<Rightarrow> 'm pocr_solver_scheme" where
  "pocr_clear s = s\<lparr>pc_succMap := [], pc_predMap := []\<rparr>"

definition clearEdges :: "nat \<Rightarrow> 'm pocr_solver_scheme \<Rightarrow> 'm pocr_solver_scheme" where
  "clearEdges key s = s\<lparr>pc_succMap := aput key [] (pc_succMap s), pc_predMap := aput key [] (pc_predMap s)\<rparr>"

definition buildCFLData :: "'m pocr_solver_scheme \<Rightarrow> 'm pocr_solver_scheme" where
  "buildCFLData s = fold (\<lambda>e s. snd (pc_addEdge (e_src e) (e_dst e) (edge_symbol e) s)) (cg_edgeSet (sv_graph s)) s"

definition pocr_new :: "cfl_graph \<Rightarrow> pocr_solver" where
  "pocr_new g = buildCFLData \<lparr>sv_graph = g, sv_worklist = fifo_new, pc_succMap = [], pc_predMap = []\<rparr>"

subsection \<open>The solver\<close>

text \<open>The new edge is pushed without a test. Were it null, the loop would dereference it when it is
  taken out; the model fails where it is pushed.\<close>

definition add_new :: "nat \<Rightarrow> nat \<Rightarrow> symbol \<Rightarrow> 'm solver_scheme \<Rightarrow> 'm solver_scheme option" where
  "add_new i j X s = do {
     (newEdge, g) \<leftarrow> addCFLEdge i j (flag_of X) (sv_graph s);
     e \<leftarrow> newEdge;
     Some (pushIntoWorklist e (s\<lparr>sv_graph := g\<rparr>)) }"

definition getGNode :: "nat \<Rightarrow> 'm solver_scheme \<Rightarrow> nat option" where
  "getGNode i s = do { ensure (i \<in> set (cg_nodes (sv_graph s))); Some i }"

definition pocr_single :: "nat \<Rightarrow> nat \<Rightarrow> production \<Rightarrow> 'm pocr_solver_scheme \<Rightarrow> 'm pocr_solver_scheme option" where
  "pocr_single i j p s = do {
     X \<leftarrow> getLHSSymbol p;
     case pc_addEdge i j X s of (new, s) \<Rightarrow> if new then add_new i j X s else Some s }"

definition pocr_first :: "nat \<Rightarrow> nat \<Rightarrow> production \<Rightarrow> 'm pocr_solver_scheme \<Rightarrow> 'm pocr_solver_scheme option" where
  "pocr_first i j p s = do {
     X \<leftarrow> getLHSSymbol p;
     Z \<leftarrow> getSecondRHSSymbol p;
     let s = s\<lparr>pc_succMap := dm_ref (pc_succMap s) j Z\<rparr>;
     case addEdges_dsts i (dm_get (pc_succMap s) j Z) X s of (diffDsts, s) \<Rightarrow>
       foldM (\<lambda>diffDst s. do { k \<leftarrow> getGNode diffDst s; add_new i k X s }) (sorted_list_of_set diffDsts) s }"

definition pocr_second :: "nat \<Rightarrow> nat \<Rightarrow> production \<Rightarrow> 'm pocr_solver_scheme \<Rightarrow> 'm pocr_solver_scheme option" where
  "pocr_second i j p s = do {
     X \<leftarrow> getLHSSymbol p;
     Z \<leftarrow> getFirstRHSSymbol p;
     let s = s\<lparr>pc_predMap := dm_ref (pc_predMap s) i Z\<rparr>;
     case addEdges_srcs (dm_get (pc_predMap s) i Z) j X s of (diffSrcs, s) \<Rightarrow>
       foldM (\<lambda>diffSrc s. do { k \<leftarrow> getGNode diffSrc s; add_new k j X s }) (sorted_list_of_set diffSrcs) s }"

definition pocr_processCFLEdge :: "grammar \<Rightarrow> cfl_edge \<Rightarrow> 'm pocr_solver_scheme \<Rightarrow> 'm pocr_solver_scheme option" where
  "pocr_processCFLEdge gr = process_with gr pocr_single pocr_first pocr_second"

text \<open>The empty paths are added at the keys of \<^verbatim>\<open>succMap\<close>.\<close>

definition pocr_epsilon :: "grammar \<Rightarrow> 'm pocr_solver_scheme \<Rightarrow> 'm pocr_solver_scheme option" where
  "pocr_epsilon gr = foldM (\<lambda>p s. foldM (\<lambda>k s. do {
      X \<leftarrow> getLHSSymbol p;
      case pc_addEdge k k X s of (new, s) \<Rightarrow>
        if new then do { i \<leftarrow> getGNode k s; add_new i i X s } else Some s })
    (map fst (pc_succMap s)) s) (gr_epsilonProds gr)"

definition pocr_initialize :: "grammar \<Rightarrow> 'm pocr_solver_scheme \<Rightarrow> 'm pocr_solver_scheme option" where
  "pocr_initialize gr s = pocr_epsilon gr (fold pushIntoWorklist (cg_edgeSet (sv_graph s)) s)"

definition pocr_solve :: "grammar \<Rightarrow> 'm pocr_solver_scheme \<Rightarrow> 'm pocr_solver_scheme option" where
  "pocr_solve gr s = do { s \<leftarrow> pocr_initialize gr s; drain (pocr_processCFLEdge gr) s }"

subsection \<open>The maps mirror the edges\<close>

definition mirrors :: "'m pocr_solver_scheme \<Rightarrow> cfl_edge set \<Rightarrow> bool" where
  "mirrors s E \<longleftrightarrow> (\<forall>i j X. (j \<in> dm_get (pc_succMap s) i X \<longleftrightarrow> CFLEdge i (flag_of X) j \<in> E) \<and>
     (i \<in> dm_get (pc_predMap s) j X \<longleftrightarrow> CFLEdge i (flag_of X) j \<in> E))"

definition pocr_inv :: "'m pocr_solver_scheme \<Rightarrow> bool" where
  "pocr_inv s \<longleftrightarrow> graph_inv s \<and> mirrors s (sv_edges s) \<and>
     (\<forall>e \<in> sv_edges s. e_flag e = flag_of (edge_symbol e) \<and> e_src e \<in> set (cg_nodes (sv_graph s)) \<and> e_dst e \<in> set (cg_nodes (sv_graph s)))"

lemma pc_addEdge_ok:
  assumes "mirrors s E"
  shows "\<exists>s'. pc_addEdge i j X s = (CFLEdge i (flag_of X) j \<notin> E, s') \<and> mirrors s' (insert (CFLEdge i (flag_of X) j) E) \<and>
    sv_graph s' = sv_graph s \<and> sv_worklist s' = sv_worklist s \<and> (\<forall>k. ahas (pc_succMap s') k \<longleftrightarrow> k = i \<or> ahas (pc_succMap s) k)"
  using assms by (auto simp: pc_addEdge_def addPred_def addSucc_def mirrors_def Let_def)

text \<open>All the pairs that are missing are added, and exactly these are reported.\<close>

lemma addPred_fold:
  "fold (pred_step src ty) ds (N, s) =
   (N', s') \<Longrightarrow> N' = N \<union> {d \<in> set ds. src \<notin> dm_get (pc_predMap s) d ty} \<and>
     (\<forall>k t. dm_get (pc_predMap s') k t = dm_get (pc_predMap s) k t \<union> (if t = ty \<and> k \<in> set ds then {src} else {})) \<and>
     pc_succMap s' = pc_succMap s \<and> sv_graph s' = sv_graph s \<and> sv_worklist s' = sv_worklist s"
proof (induction ds arbitrary: N s)
  case (Cons d ds)
  obtain N1 s1 where st: "pred_step src ty d (N, s) = (N1, s1)" by fastforce
  have "fold (pred_step src ty) ds (N1, s1) = (N', s')" using Cons.prems st by simp
  from Cons.IH[OF this] st show ?case by (auto simp: pred_step_def addPred_def Let_def split: if_splits)
qed auto

lemma addSucc_fold:
  "fold (succ_step dst ty) ds (N, s) =
   (N', s') \<Longrightarrow> N' = N \<union> {d \<in> set ds. dst \<notin> dm_get (pc_succMap s) d ty} \<and>
     (\<forall>k t. dm_get (pc_succMap s') k t = dm_get (pc_succMap s) k t \<union> (if t = ty \<and> k \<in> set ds then {dst} else {})) \<and>
     pc_predMap s' = pc_predMap s \<and> sv_graph s' = sv_graph s \<and> sv_worklist s' = sv_worklist s"
proof (induction ds arbitrary: N s)
  case (Cons d ds)
  obtain N1 s1 where st: "succ_step dst ty d (N, s) = (N1, s1)" by fastforce
  have "fold (succ_step dst ty) ds (N1, s1) = (N', s')" using Cons.prems st by simp
  from Cons.IH[OF this] st show ?case by (auto simp: succ_step_def addSucc_def Let_def split: if_splits)
qed auto

lemma addEdges_dsts_ok:
  assumes "mirrors s E" "finite D"
  shows "\<exists>N s'. addEdges_dsts i D X s = (N, s') \<and> N = {d \<in> D. CFLEdge i (flag_of X) d \<notin> E} \<and>
    mirrors s' (E \<union> (\<lambda>d. CFLEdge i (flag_of X) d) ` D) \<and> sv_graph s' = sv_graph s \<and> sv_worklist s' = sv_worklist s"
proof (cases "D \<subseteq> dm_get (pc_succMap s) i X")
  case True
  then have "CFLEdge i (flag_of X) d \<in> E" if "d \<in> D" for d using that assms(1) by (auto simp: mirrors_def)
  then have n: "{d \<in> D. CFLEdge i (flag_of X) d \<notin> E} = {}" "E \<union> (\<lambda>d. CFLEdge i (flag_of X) d) ` D = E" by auto
  have "dm_get (pc_succMap s) i X \<union> D = dm_get (pc_succMap s) i X" using True by auto
  then show ?thesis using assms(1) True unfolding n
    by (auto simp: addEdges_dsts_def addSuccs_def mirrors_def Let_def)
next
  case False
  let ?s = "s\<lparr>pc_succMap := dm_put i X (dm_get (pc_succMap s) i X \<union> D) (pc_succMap s)\<rparr>"
  obtain N s' where f: "fold (pred_step i X) (sorted_list_of_set D) ({}, ?s) = (N, s')" by fastforce
  note k = addPred_fold[OF f]
  have e: "addEdges_dsts i D X s = (N, s')" using False f by (auto simp: addEdges_dsts_def addSuccs_def Let_def)
  show ?thesis using k assms by (intro exI[of _ N] exI[of _ s']) (auto simp: e mirrors_def)
qed

lemma addEdges_srcs_ok:
  assumes "mirrors s E" "finite D"
  shows "\<exists>N s'. addEdges_srcs D j X s = (N, s') \<and> N = {d \<in> D. CFLEdge d (flag_of X) j \<notin> E} \<and>
    mirrors s' (E \<union> (\<lambda>d. CFLEdge d (flag_of X) j) ` D) \<and> sv_graph s' = sv_graph s \<and> sv_worklist s' = sv_worklist s"
proof (cases "D \<subseteq> dm_get (pc_predMap s) j X")
  case True
  then have "CFLEdge d (flag_of X) j \<in> E" if "d \<in> D" for d using that assms(1) by (auto simp: mirrors_def)
  then have n: "{d \<in> D. CFLEdge d (flag_of X) j \<notin> E} = {}" "E \<union> (\<lambda>d. CFLEdge d (flag_of X) j) ` D = E" by auto
  have "dm_get (pc_predMap s) j X \<union> D = dm_get (pc_predMap s) j X" using True by auto
  then show ?thesis using assms(1) True unfolding n
    by (auto simp: addEdges_srcs_def addPreds_def mirrors_def Let_def)
next
  case False
  let ?s = "s\<lparr>pc_predMap := dm_put j X (dm_get (pc_predMap s) j X \<union> D) (pc_predMap s)\<rparr>"
  obtain N s' where f: "fold (succ_step j X) (sorted_list_of_set D) ({}, ?s) = (N, s')" by fastforce
  note k = addSucc_fold[OF f]
  have e: "addEdges_srcs D j X s = (N, s')" using False f by (auto simp: addEdges_srcs_def addPreds_def Let_def)
  show ?thesis using k assms by (intro exI[of _ N] exI[of _ s']) (auto simp: e mirrors_def)
qed

subsection \<open>The contract\<close>

lemma add_new_loop:
  fixes t :: "'m pocr_solver_scheme"
  assumes "graph_inv t" "fifo_inv (sv_worklist t)" "sv_waiting t \<subseteq> sv_edges t" "distinct ds"
    and "\<And>d. d \<in> set ds \<Longrightarrow> d \<in> set (cg_nodes (sv_graph t)) \<and> CFLEdge (src d) (flag_of X) (dst d) \<notin> sv_edges t"
    and "inj_on (\<lambda>d. CFLEdge (src d) (flag_of X) (dst d)) (set ds)"
  shows "wp (foldM (\<lambda>d s. do { k \<leftarrow> getGNode d s; add_new (src k) (dst k) X s }) ds t) (\<lambda>t'.
    graph_inv t' \<and> fifo_inv (sv_worklist t') \<and> cg_nodes (sv_graph t') = cg_nodes (sv_graph t) \<and>
    sv_edges t' = sv_edges t \<union> (\<lambda>d. CFLEdge (src d) (flag_of X) (dst d)) ` set ds \<and>
    sv_waiting t' = sv_waiting t \<union> (\<lambda>d. CFLEdge (src d) (flag_of X) (dst d)) ` set ds \<and>
    pc_succMap t' = pc_succMap t \<and> pc_predMap t' = pc_predMap t)"
  using assms
proof (induction ds arbitrary: t)
  case (Cons d ds)
  let ?e = "CFLEdge (src d) (flag_of X) (dst d)"
  obtain g where g: "addCFLEdge (src d) (dst d) (flag_of X) (sv_graph t) = Some (Some ?e, g)" "cg_inv g"
      "cg_nodes g = cg_nodes (sv_graph t)" "edges g = insert ?e (sv_edges t)"
    using addCFLEdge_ok[of "sv_graph t" "src d" "dst d" "flag_of X"] Cons.prems(1,5) unfolding wp_iff graph_inv_def by auto
  let ?t = "pushIntoWorklist ?e (t\<lparr>sv_graph := g\<rparr>)"
  have s: "getGNode d t = Some d" using Cons.prems(5)[of d] by (simp add: getGNode_def)
  have n: "graph_inv ?t" "fifo_inv (sv_worklist ?t)" "sv_waiting ?t = insert ?e (sv_waiting t)" "sv_edges ?t = insert ?e (sv_edges t)"
      "cg_nodes (sv_graph ?t) = cg_nodes (sv_graph t)" "pc_succMap ?t = pc_succMap t" "pc_predMap ?t = pc_predMap t"
    using push_ok[of "t\<lparr>sv_graph := g\<rparr>" ?e] g Cons.prems(2) by (auto simp: graph_inv_def pushIntoWorklist_def)
  have l: "sv_waiting ?t \<subseteq> sv_edges ?t" "distinct ds" "inj_on (\<lambda>d. CFLEdge (src d) (flag_of X) (dst d)) (set ds)"
    using n Cons.prems(3,4,6) by auto
  have m: "d' \<in> set (cg_nodes (sv_graph ?t)) \<and> CFLEdge (src d') (flag_of X) (dst d') \<notin> sv_edges ?t" if "d' \<in> set ds" for d'
    using that n(4,5) Cons.prems(4,5,6) by (auto simp: inj_on_def)
  from Cons.IH[OF n(1,2) l(1,2) m l(3)] show ?case using n(3-7) by (simp add: s add_new_def g)
qed simp

lemma finite_targets: "finite {k. CFLEdge j f k \<in> edges g}" "finite {k. CFLEdge k f j \<in> edges g}"
proof -
  have "{k. CFLEdge j f k \<in> edges g} \<subseteq> e_dst ` edges g" "{k. CFLEdge k f j \<in> edges g} \<subseteq> e_src ` edges g" by force+
  moreover have "finite (edges g)" by (simp add: edges_def)
  ultimately show "finite {k. CFLEdge j f k \<in> edges g}" "finite {k. CFLEdge k f j \<in> edges g}"
    by (auto intro: finite_subset finite_imageI)
qed

lemma pocr_grown:
  assumes t: "pocr_inv t" "sv_waiting t \<subseteq> sv_edges t" and A: "A \<subseteq> cfl_reach eps R V (sv_edges t)" "V \<subseteq> set (cg_nodes (sv_graph t))"
    and t': "graph_inv t'" "fifo_inv (sv_worklist t')" "cg_nodes (sv_graph t') = cg_nodes (sv_graph t)"
      "sv_edges t' = sv_edges t \<union> A" "sv_waiting t' = sv_waiting t \<union> (A - sv_edges t)" "mirrors t' (sv_edges t \<union> A)"
  shows "grown pocr_inv eps R V t t'"
proof -
  have "e_flag e = flag_of (edge_symbol e) \<and> e_src e \<in> set (cg_nodes (sv_graph t)) \<and> e_dst e \<in> set (cg_nodes (sv_graph t))"
    if "e \<in> sv_edges t'" for e
  proof -
    have "e \<in> cfl_reach eps R V (sv_edges t)" using that A t'(4) by (auto intro: cfl_reach.given)
    then show ?thesis
      using cfl_reach_flag[of e eps R V "sv_edges t"] cfl_reach_ends[of e eps R V "sv_edges t" "set (cg_nodes (sv_graph t))"] t(1) A(2)
      by (auto simp: pocr_inv_def)
  qed
  then have "pocr_inv t'" using t' by (auto simp: pocr_inv_def)
  moreover have "sv_edges t' \<subseteq> cfl_reach eps R V (sv_edges t)" using A t'(4) by (auto intro: cfl_reach.given)
  ultimately show ?thesis using t(2) t' by (auto simp: grown_def)
qed

lemma pocr_add_ok:
  assumes t: "pocr_inv t" "fifo_inv (sv_worklist t)" "sv_waiting t \<subseteq> sv_edges t"
    and e: "CFLEdge i (flag_of X) j \<in> cfl_reach eps R V (sv_edges t)" "V \<subseteq> set (cg_nodes (sv_graph t))"
  shows "wp (case pc_addEdge i j X t of (new, s) \<Rightarrow> if new then add_new i j X s else Some s)
    (\<lambda>t'. grown pocr_inv eps R V t t' \<and> {CFLEdge i (flag_of X) j} \<subseteq> sv_edges t')"
proof -
  let ?e = "CFLEdge i (flag_of X) j"
  have m: "mirrors t (sv_edges t)" and g: "graph_inv t" using t(1) by (auto simp: pocr_inv_def)
  obtain s' where s': "pc_addEdge i j X t = (?e \<notin> sv_edges t, s')" "mirrors s' (insert ?e (sv_edges t))"
      "sv_graph s' = sv_graph t" "sv_worklist s' = sv_worklist t"
    using pc_addEdge_ok[OF m, of i j X] by blast
  show ?thesis
  proof (cases "?e \<in> sv_edges t")
    case True
    then have "grown pocr_inv eps R V t s'"
      by (intro pocr_grown[where A = "{}"] t e(2)) (use s' t g in \<open>auto simp: graph_inv_def insert_absorb\<close>)
    then show ?thesis using True s' by simp
  next
    case False
    obtain g' where g': "addCFLEdge i j (flag_of X) (sv_graph t) = Some (Some ?e, g')" "cg_inv g'" "cg_nodes g' = cg_nodes (sv_graph t)"
        "edges g' = insert ?e (sv_edges t)"
      using addCFLEdge_ok[of "sv_graph t" i j "flag_of X"] g False unfolding wp_iff graph_inv_def by auto
    let ?t = "pushIntoWorklist ?e (s'\<lparr>sv_graph := g'\<rparr>)"
    have "grown pocr_inv eps R V t ?t"
      by (rule pocr_grown[where A = "{?e}", OF t(1,3) _ e(2)])
        (use push_ok[of "s'\<lparr>sv_graph := g'\<rparr>" ?e] s' t g' e(1) False in \<open>auto simp: graph_inv_def mirrors_def pushIntoWorklist_def\<close>)
    moreover have "sv_edges ?t = insert ?e (sv_edges t)" using g'(4) by (simp add: pushIntoWorklist_def)
    ultimately show ?thesis using s'(1,3) g'(1) False by (simp add: add_new_def)
  qed
qed

lemma pocr_first_ok:
  assumes t: "pocr_inv t" "fifo_inv (sv_worklist t)" "sv_waiting t \<subseteq> sv_edges t"
    and e: "\<And>f. f \<in> sv_edges t \<Longrightarrow> e_src f = j \<Longrightarrow> edge_symbol f = c \<Longrightarrow> CFLEdge i (flag_of a) (e_dst f) \<in> cfl_reach eps R {} (sv_edges t)"
  shows "wp (pocr_first i j [a, b, c] t) (\<lambda>t'. grown pocr_inv eps R {} t t' \<and>
    {CFLEdge i (flag_of a) (e_dst f) | f. f \<in> sv_edges t \<and> e_src f = j \<and> edge_symbol f = c} \<subseteq> sv_edges t')"
proof -
  let ?D = "{k. CFLEdge j (flag_of c) k \<in> sv_edges t}" and ?c = "\<lambda>d. CFLEdge i (flag_of a) d"
  let ?u = "t\<lparr>pc_succMap := dm_ref (pc_succMap t) j c\<rparr>"
  have D: "{CFLEdge i (flag_of a) (e_dst f) | f. f \<in> sv_edges t \<and> e_src f = j \<and> edge_symbol f = c} = ?c ` ?D"
  proof -
    have "f = CFLEdge j (flag_of c) (e_dst f)" if "f \<in> sv_edges t" "e_src f = j" "edge_symbol f = c" for f
      using that t(1) by (cases f) (auto simp: pocr_inv_def)
    then show ?thesis by (fastforce simp: image_iff)
  qed
  have g: "graph_inv t" and m: "mirrors ?u (sv_edges t)" and d: "dm_get (pc_succMap ?u) j c = ?D"
    using t(1) by (auto simp: pocr_inv_def mirrors_def)
  obtain N s' where s': "addEdges_dsts i ?D a ?u = (N, s')" "N = {d \<in> ?D. ?c d \<notin> sv_edges t}"
      "mirrors s' (sv_edges t \<union> ?c ` ?D)" "sv_graph s' = sv_graph t" "sv_worklist s' = sv_worklist t"
    using addEdges_dsts_ok[OF m, of ?D i a] finite_targets(1)[of j "flag_of c" "sv_graph t"] by auto
  have N: "finite N" using s'(2) finite_targets(1)[of j "flag_of c" "sv_graph t"] by simp
  have n: "k \<in> set (cg_nodes (sv_graph s')) \<and> ?c k \<notin> sv_edges s'" if "k \<in> set (sorted_list_of_set N)" for k
    using that N s'(2,4) t(1) by (force simp: pocr_inv_def)
  obtain t' where t': "foldM (\<lambda>d s. do { k \<leftarrow> getGNode d s; add_new i k a s }) (sorted_list_of_set N) s' = Some t'"
      "graph_inv t'" "fifo_inv (sv_worklist t')" "cg_nodes (sv_graph t') = cg_nodes (sv_graph t)" "sv_edges t' = sv_edges t \<union> ?c ` N"
      "sv_waiting t' = sv_waiting t \<union> ?c ` N" "pc_succMap t' = pc_succMap s'" "pc_predMap t' = pc_predMap s'"
    using add_new_loop[where src = "\<lambda>_. i" and dst = "\<lambda>k. k" and X = a and ds = "sorted_list_of_set N" and t = s', OF _ _ _ _ n]
      g t s' N unfolding wp_iff by (force simp: graph_inv_def inj_on_def)
  have E: "sv_edges t' = sv_edges t \<union> ?c ` ?D" using t'(5) s'(2) by auto
  have "?c ` ?D \<subseteq> cfl_reach eps R {} (sv_edges t)" unfolding D[symmetric] using e by auto
  then have "grown pocr_inv eps R {} t t'"
    by (rule pocr_grown[OF t(1,3)]) (use t' s'(2,3) E in \<open>auto simp: mirrors_def\<close>)
  then show ?thesis using t'(1) s'(1) E d
    by (simp add: pocr_first_def getLHSSymbol_def getSecondRHSSymbol_def prod_at_def D Let_def del: dm_get_ref)
qed

lemma pocr_second_ok:
  assumes t: "pocr_inv t" "fifo_inv (sv_worklist t)" "sv_waiting t \<subseteq> sv_edges t"
    and e: "\<And>f. f \<in> sv_edges t \<Longrightarrow> e_dst f = i \<Longrightarrow> edge_symbol f = b \<Longrightarrow> CFLEdge (e_src f) (flag_of a) j \<in> cfl_reach eps R {} (sv_edges t)"
  shows "wp (pocr_second i j [a, b, c] t) (\<lambda>t'. grown pocr_inv eps R {} t t' \<and>
    {CFLEdge (e_src f) (flag_of a) j | f. f \<in> sv_edges t \<and> e_dst f = i \<and> edge_symbol f = b} \<subseteq> sv_edges t')"
proof -
  let ?D = "{k. CFLEdge k (flag_of b) i \<in> sv_edges t}" and ?c = "\<lambda>d. CFLEdge d (flag_of a) j"
  let ?u = "t\<lparr>pc_predMap := dm_ref (pc_predMap t) i b\<rparr>"
  have D: "{CFLEdge (e_src f) (flag_of a) j | f. f \<in> sv_edges t \<and> e_dst f = i \<and> edge_symbol f = b} = ?c ` ?D"
  proof -
    have "f = CFLEdge (e_src f) (flag_of b) i" if "f \<in> sv_edges t" "e_dst f = i" "edge_symbol f = b" for f
      using that t(1) by (cases f) (auto simp: pocr_inv_def)
    then show ?thesis by (fastforce simp: image_iff)
  qed
  have g: "graph_inv t" and m: "mirrors ?u (sv_edges t)" and d: "dm_get (pc_predMap ?u) i b = ?D"
    using t(1) by (auto simp: pocr_inv_def mirrors_def)
  obtain N s' where s': "addEdges_srcs ?D j a ?u = (N, s')" "N = {d \<in> ?D. ?c d \<notin> sv_edges t}"
      "mirrors s' (sv_edges t \<union> ?c ` ?D)" "sv_graph s' = sv_graph t" "sv_worklist s' = sv_worklist t"
    using addEdges_srcs_ok[OF m, of ?D j a] finite_targets(2)[of "flag_of b" i "sv_graph t"] by auto
  have N: "finite N" using s'(2) finite_targets(2)[of "flag_of b" i "sv_graph t"] by simp
  have n: "k \<in> set (cg_nodes (sv_graph s')) \<and> ?c k \<notin> sv_edges s'" if "k \<in> set (sorted_list_of_set N)" for k
    using that N s'(2,4) t(1) by (force simp: pocr_inv_def)
  obtain t' where t': "foldM (\<lambda>d s. do { k \<leftarrow> getGNode d s; add_new k j a s }) (sorted_list_of_set N) s' = Some t'"
      "graph_inv t'" "fifo_inv (sv_worklist t')" "cg_nodes (sv_graph t') = cg_nodes (sv_graph t)" "sv_edges t' = sv_edges t \<union> ?c ` N"
      "sv_waiting t' = sv_waiting t \<union> ?c ` N" "pc_succMap t' = pc_succMap s'" "pc_predMap t' = pc_predMap s'"
    using add_new_loop[where src = "\<lambda>k. k" and dst = "\<lambda>_. j" and X = a and ds = "sorted_list_of_set N" and t = s', OF _ _ _ _ n]
      g t s' N unfolding wp_iff by (force simp: graph_inv_def inj_on_def)
  have E: "sv_edges t' = sv_edges t \<union> ?c ` ?D" using t'(5) s'(2) by auto
  have "?c ` ?D \<subseteq> cfl_reach eps R {} (sv_edges t)" unfolding D[symmetric] using e by auto
  then have "grown pocr_inv eps R {} t t'"
    by (rule pocr_grown[OF t(1,3)]) (use t' s'(2,3) E in \<open>auto simp: mirrors_def\<close>)
  then show ?thesis using t'(1) s'(1) E d
    by (simp add: pocr_second_def getLHSSymbol_def getFirstRHSSymbol_def prod_at_def D Let_def del: dm_get_ref)
qed

text \<open>One proof for the two solvers: \<open>r2\<close> and \<open>r3\<close> do what the loops of \<^verbatim>\<open>POCRSolver\<close> do for the
  productions in \<open>R'\<close>, and nothing for the others.\<close>

lemma pocr_process_with_ok:
  assumes f: "filed eps R gr" and R': "R' \<subseteq> R" "\<And>a b. [a, b] \<in> R \<Longrightarrow> [a, b] \<in> R'"
    and s: "pocr_inv s" "fifo_inv (sv_worklist s)" "e \<in> sv_edges s" "sv_waiting s \<subseteq> sv_edges s"
    and r2: "\<And>a b c t. [a, b, c] \<in> R \<Longrightarrow> b = edge_symbol e \<Longrightarrow> pocr_inv t \<Longrightarrow> e \<in> sv_edges t \<Longrightarrow>
      r2 (e_src e) (e_dst e) [a, b, c] t = (if [a, b, c] \<in> R' then pocr_first (e_src e) (e_dst e) [a, b, c] t else Some t)"
    and r3: "\<And>a b c t. [a, b, c] \<in> R \<Longrightarrow> c = edge_symbol e \<Longrightarrow> pocr_inv t \<Longrightarrow> e \<in> sv_edges t \<Longrightarrow>
      r3 (e_src e) (e_dst e) [a, b, c] t = (if [a, b, c] \<in> R' then pocr_second (e_src e) (e_dst e) [a, b, c] t else Some t)"
  shows "wp (process_with gr pocr_single r2 r3 e s) (\<lambda>s'. grown pocr_inv eps R' {} s s' \<and> consequences eps R' e (sv_edges s) \<subseteq> sv_edges s')"
proof (rule process_with_ok[where J = pocr_inv, OF f R'(1) s(1-3)])
  fix p and t :: "'a pocr_solver_scheme"
  assume p: "p \<in> {[a, edge_symbol e] | a. [a, edge_symbol e] \<in> R \<and> \<not> eps_production eps a (edge_symbol e)}"
    and t: "grown pocr_inv eps R' {} s t"
  obtain a where a: "p = [a, edge_symbol e]" "[a, edge_symbol e] \<in> R'" "\<not> eps_production eps a (edge_symbol e)"
    using p R'(2) by auto
  have i: "pocr_inv t" "fifo_inv (sv_worklist t)" "sv_waiting t \<subseteq> sv_edges t" "e \<in> sv_edges t"
    using t s(3,4) by (auto simp: grown_def)
  have "CFLEdge (e_src e) (flag_of a) (e_dst e) \<in> cfl_reach eps R' {} (sv_edges t)"
    by (rule cfl_reach.single[OF cfl_reach.given[OF i(4)] a(2,3)])
  from pocr_add_ok[OF i(1-3) this] a show "wp (pocr_single (e_src e) (e_dst e) p t)
      (\<lambda>t'. grown pocr_inv eps R' {} t t' \<and> (if p \<in> R' then {CFLEdge (e_src e) (flag_of (hd p)) (e_dst e)} else {}) \<subseteq> sv_edges t')"
    by (simp add: pocr_single_def getLHSSymbol_def prod_at_def)
next
  fix a c and t :: "'a pocr_solver_scheme"
  assume p: "[a, edge_symbol e, c] \<in> R" and t: "grown pocr_inv eps R' {} s t"
  then have i: "pocr_inv t" "fifo_inv (sv_worklist t)" "sv_waiting t \<subseteq> sv_edges t" "e \<in> sv_edges t"
    using s(3,4) by (auto simp: grown_def)
  show "wp (r2 (e_src e) (e_dst e) [a, edge_symbol e, c] t) (\<lambda>t'. grown pocr_inv eps R' {} t t' \<and>
      {CFLEdge (e_src e) (flag_of a) (e_dst f) | f. [a, edge_symbol e, c] \<in> R' \<and> f \<in> sv_edges t \<and> e_src f = e_dst e \<and> edge_symbol f = c} \<subseteq> sv_edges t')"
  proof (cases "[a, edge_symbol e, c] \<in> R'")
    case True
    then have "CFLEdge (e_src e) (flag_of a) (e_dst f) \<in> cfl_reach eps R' {} (sv_edges t)"
      if "f \<in> sv_edges t" "e_src f = e_dst e" "edge_symbol f = c" for f
      using cfl_reach.binary[OF cfl_reach.given cfl_reach.given, of e "sv_edges t" f a R' eps] that i(4) by auto
    from pocr_first_ok[OF i(1-3) this] show ?thesis using True r2[OF p refl i(1,4)] by simp
  qed (simp add: r2[OF p refl i(1,4)] grown_refl i)
next
  fix a b and t :: "'a pocr_solver_scheme"
  assume p: "[a, b, edge_symbol e] \<in> R" and t: "grown pocr_inv eps R' {} s t"
  then have i: "pocr_inv t" "fifo_inv (sv_worklist t)" "sv_waiting t \<subseteq> sv_edges t" "e \<in> sv_edges t"
    using s(3,4) by (auto simp: grown_def)
  show "wp (r3 (e_src e) (e_dst e) [a, b, edge_symbol e] t) (\<lambda>t'. grown pocr_inv eps R' {} t t' \<and>
      {CFLEdge (e_src f) (flag_of a) (e_dst e) | f. [a, b, edge_symbol e] \<in> R' \<and> f \<in> sv_edges t \<and> e_dst f = e_src e \<and> edge_symbol f = b} \<subseteq> sv_edges t')"
  proof (cases "[a, b, edge_symbol e] \<in> R'")
    case True
    then have "CFLEdge (e_src f) (flag_of a) (e_dst e) \<in> cfl_reach eps R' {} (sv_edges t)"
      if "f \<in> sv_edges t" "e_dst f = e_src e" "edge_symbol f = b" for f
      using cfl_reach.binary[OF cfl_reach.given cfl_reach.given, of f "sv_edges t" e a R' eps] that i(4) by auto
    from pocr_second_ok[OF i(1-3) this] show ?thesis using True r3[OF p refl i(1,4)] by simp
  qed (simp add: r3[OF p refl i(1,4)] grown_refl i)
qed

lemma pocr_process_ok:
  assumes "filed eps R gr" "pocr_inv s" "fifo_inv (sv_worklist s)" "e \<in> sv_edges s" "sv_waiting s \<subseteq> sv_edges s"
  shows "wp (pocr_processCFLEdge gr e s) (\<lambda>s'. grown pocr_inv eps R {} s s' \<and> consequences eps R e (sv_edges s) \<subseteq> sv_edges s')"
  unfolding pocr_processCFLEdge_def by (rule pocr_process_with_ok[OF assms(1) subset_refl _ assms(2-5)]) auto

lemma pocr_inv_worklist: "pocr_inv (s\<lparr>sv_worklist := w\<rparr>) \<longleftrightarrow> pocr_inv s"
  by (simp add: pocr_inv_def graph_inv_def mirrors_def)

interpretation pocr: cfl_process pocr_processCFLEdge "\<lambda>R. R" pocr_inv
  by unfold_locales (rule pocr_inv_worklist, rule pocr_process_ok)

subsection \<open>The start\<close>

lemma buildCFLData_fold:
  assumes "mirrors s E" "\<And>e. e \<in> set es \<Longrightarrow> e_flag e = flag_of (edge_symbol e)"
  shows "\<exists>s'. fold (\<lambda>e s. snd (pc_addEdge (e_src e) (e_dst e) (edge_symbol e) s)) es s = s' \<and> mirrors s' (E \<union> set es) \<and>
    sv_graph s' = sv_graph s \<and> sv_worklist s' = sv_worklist s \<and> (\<forall>k. ahas (pc_succMap s') k \<longleftrightarrow> k \<in> e_src ` set es \<or> ahas (pc_succMap s) k)"
  using assms
proof (induction es arbitrary: s E)
  case (Cons e es)
  obtain s1 where s1: "snd (pc_addEdge (e_src e) (e_dst e) (edge_symbol e) s) = s1"
      "mirrors s1 (insert (CFLEdge (e_src e) (flag_of (edge_symbol e)) (e_dst e)) E)" "sv_graph s1 = sv_graph s"
      "sv_worklist s1 = sv_worklist s" "\<forall>k. ahas (pc_succMap s1) k \<longleftrightarrow> k = e_src e \<or> ahas (pc_succMap s) k"
    using pc_addEdge_ok[OF Cons.prems(1), of "e_src e" "e_dst e" "edge_symbol e"] by auto
  have "CFLEdge (e_src e) (flag_of (edge_symbol e)) (e_dst e) = e" using Cons.prems(2)[of e] by (cases e) simp
  then have "mirrors s1 (insert e E)" using s1(2) by simp
  from Cons.IH[OF this] Cons.prems(2) s1 show ?case by auto
qed simp

lemma pocr_build_ok:
  assumes "cg_inv (sv_graph s)" "pc_succMap s = []" "pc_predMap s = []"
    and "\<And>e. e \<in> sv_edges s \<Longrightarrow> e_flag e = flag_of (edge_symbol e) \<and> e_src e \<in> set (cg_nodes (sv_graph s)) \<and> e_dst e \<in> set (cg_nodes (sv_graph s))"
  shows "pocr_inv (buildCFLData s) \<and> sv_graph (buildCFLData s) = sv_graph s \<and> sv_worklist (buildCFLData s) = sv_worklist s \<and>
    {k. ahas (pc_succMap (buildCFLData s)) k} = e_src ` sv_edges s"
proof -
  have "mirrors s {}" using assms(2,3) by (simp add: mirrors_def dm_get_def)
  from buildCFLData_fold[OF this, of "cg_edgeSet (sv_graph s)"] assms
  show ?thesis by (auto simp: buildCFLData_def pocr_inv_def graph_inv_def edges_def)
qed

text \<open>The loops of the epsilon productions, at the keys.\<close>

definition keyed :: "nat set \<Rightarrow> 'm pocr_solver_scheme \<Rightarrow> bool" where
  "keyed K s \<longleftrightarrow> pocr_inv s \<and> {k. ahas (pc_succMap s) k} = K \<and> K \<subseteq> set (cg_nodes (sv_graph s))"

lemma add_new_maps: "add_new i j X s = Some t \<Longrightarrow> pc_succMap t = pc_succMap s" for s t :: "'m pocr_solver_scheme"
  by (auto simp: add_new_def pushIntoWorklist_def split: Option.bind_splits)

lemma epsilon_step_ok:
  assumes t: "keyed K t" "fifo_inv (sv_worklist t)" "sv_waiting t \<subseteq> sv_edges t" and k: "k \<in> K"
    and q: "[a, b] \<in> R" "eps_production eps a b"
  shows "wp (do { X \<leftarrow> getLHSSymbol [a, b];
      case pc_addEdge k k X t of (new, s) \<Rightarrow> if new then do { i \<leftarrow> getGNode k s; add_new i i X s } else Some s })
    (\<lambda>t'. grown (keyed K) eps R K t t' \<and> {CFLEdge k (flag_of a) k} \<subseteq> sv_edges t')" (is "wp ?m _")
proof -
  have i: "pocr_inv t" "mirrors t (sv_edges t)" using t(1) by (auto simp: keyed_def pocr_inv_def)
  obtain s where s: "pc_addEdge k k a t = (CFLEdge k (flag_of a) k \<notin> sv_edges t, s)" "sv_graph s = sv_graph t"
      "\<forall>k'. ahas (pc_succMap s) k' \<longleftrightarrow> k' = k \<or> ahas (pc_succMap t) k'"
    using pc_addEdge_ok[OF i(2), of k k a] by blast
  have g: "getGNode k s = Some k" using t(1) k s(2) by (auto simp: getGNode_def keyed_def)
  then have e: "?m = (case pc_addEdge k k a t of (new, s) \<Rightarrow> if new then add_new k k a s else Some s)"
    by (simp add: getLHSSymbol_def prod_at_def s(1))
  have "CFLEdge k (flag_of a) k \<in> cfl_reach eps R K (sv_edges t)" by (rule cfl_reach.empty[OF q k])
  from pocr_add_ok[OF i(1) t(2,3) this] t(1)
  have "wp ?m (\<lambda>t'. grown pocr_inv eps R K t t' \<and> {CFLEdge k (flag_of a) k} \<subseteq> sv_edges t')" by (simp add: e keyed_def)
  moreover have "wp ?m (\<lambda>t'. pc_succMap t' = pc_succMap s)" if "wp ?m (\<lambda>_. True)"
    using that by (auto simp: e s(1) wp_iff add_new_maps split: if_splits)
  moreover have "{k'. ahas (pc_succMap s) k'} = K" using s(3) t(1) k by (auto simp: keyed_def)
  ultimately show ?thesis using t(1) by (auto simp: wp_iff grown_def keyed_def)
qed

lemma filed_epsilon:
  "filed eps R gr \<Longrightarrow> set (gr_epsilonProds gr) = {[a, b] | a b. [a, b] \<in> R \<and> eps_production eps a b}"
  by (simp add: filed_def eps_production_def)

lemma pocr_epsilon_ok:
  assumes e: "set (gr_epsilonProds gr) = {[a, b] | a b. [a, b] \<in> R \<and> eps_production eps a b}"
    and s: "keyed K s" "fifo_inv (sv_worklist s)" "sv_waiting s \<subseteq> sv_edges s"
  shows "wp (pocr_epsilon gr s) (\<lambda>t. grown (keyed K) eps R K s t \<and> loops eps R K \<subseteq> sv_edges t)"
proof -
  let ?b = "\<lambda>p k s. do { X \<leftarrow> getLHSSymbol p;
      case pc_addEdge k k X s of (new, s) \<Rightarrow> if new then do { i \<leftarrow> getGNode k s; add_new i i X s } else Some s }"
  have keys: "set (map fst (pc_succMap t)) = K" if "keyed K t" for t :: "'a pocr_solver_scheme"
    using that by (auto simp: keyed_def ahas_iff_fst)
  have row: "wp (foldM (?b p) (map fst (pc_succMap t)) t)
      (\<lambda>t'. grown (keyed K) eps R K t t' \<and> (\<Union>k\<in>K. {CFLEdge k (flag_of (hd p)) k}) \<subseteq> sv_edges t')"
    if p: "p \<in> set (gr_epsilonProds gr)" and t: "grown (keyed K) eps R K s t" for p and t :: "'a pocr_solver_scheme"
  proof -
    obtain a b where ab: "p = [a, b]" "[a, b] \<in> R" "eps_production eps a b" using p unfolding e by blast
    have i: "keyed K t" "fifo_inv (sv_worklist t)" "sv_waiting t \<subseteq> sv_edges t" using t s(3) by (auto simp: grown_def)
    have "wp (?b p k u) (\<lambda>t'. grown (keyed K) eps R K u t' \<and> {CFLEdge k (flag_of (hd p)) k} \<subseteq> sv_edges t')"
      if "k \<in> set (map fst (pc_succMap t))" "grown (keyed K) eps R K t u" for k u
      unfolding ab(1) list.sel
      by (rule epsilon_step_ok[OF _ _ _ _ ab(2,3)]) (use that keys[OF i(1)] i(3) in \<open>auto simp: grown_def\<close>)
    from grown_foldM[where G = "\<lambda>k. {CFLEdge k (flag_of (hd p)) k}" and xs = "map fst (pc_succMap t)", OF this i(1,2)] show ?thesis unfolding keys[OF i(1)] .
  qed
  have "(\<Union>p\<in>set (gr_epsilonProds gr). \<Union>k\<in>K. {CFLEdge k (flag_of (hd p)) k}) = loops eps R K"
    unfolding e loops_def by force
  then show ?thesis
    using grown_foldM[where G = "\<lambda>p. \<Union>k\<in>K. {CFLEdge k (flag_of (hd p)) k}" and xs = "gr_epsilonProds gr", OF row s(1,2)] by (simp add: pocr_epsilon_def)
qed

text \<open>From the start to the end: \<open>process\<close> is one of the two solvers.\<close>

lemma start_and_drain:
  assumes proc: "cfl_process process used pocr_inv" and f: "filed eps R gr"
    and g: "pocr_inv s" "fifo_inv (sv_worklist s)" "sv_waiting s \<subseteq> sv_edges s"
    and k: "K \<subseteq> set (cg_nodes (sv_graph s))"
    and t: "grown (keyed K) eps (used R) K s t" "loops eps (used R) K \<subseteq> sv_edges t" "sv_waiting s = sv_edges s"
  shows "\<exists>s'. drain (process gr) t = Some s' \<and> pocr_inv s' \<and> sv_edges s' = cfl_reach eps (used R) K (sv_edges s) \<and>
    cg_nodes (sv_graph s') = cg_nodes (sv_graph s)"
proof -
  have i: "pocr_inv t" "fifo_inv (sv_worklist t)" "sv_waiting t = sv_edges t" "sv_edges s \<subseteq> sv_edges t"
      "cg_nodes (sv_graph t) = cg_nodes (sv_graph s)" "sv_edges t \<subseteq> cfl_reach eps (used R) K (sv_edges s)" using t(1,3) by (auto simp: grown_def keyed_def)
  have "covered_edges eps (used R) t" using i(3) by (simp add: covered_edges_def)
  moreover have "e_src e \<in> set (cg_nodes (sv_graph t)) \<and> e_dst e \<in> set (cg_nodes (sv_graph t))" if "e \<in> sv_edges t" for e
    using that i(1) by (auto simp: pocr_inv_def)
  moreover have "cfl_reach eps (used R) {} (sv_edges t) = cfl_reach eps (used R) K (sv_edges s)"
  proof
    show "cfl_reach eps (used R) {} (sv_edges t) \<subseteq> cfl_reach eps (used R) K (sv_edges s)"
      by (rule cfl_reach_mono[OF i(6)]) simp
    have "sv_edges s \<union> loops eps (used R) K \<subseteq> cfl_reach eps (used R) {} (sv_edges t)"
      using i(4) t(2) by (auto intro: cfl_reach.given)
    then show "cfl_reach eps (used R) K (sv_edges s) \<subseteq> cfl_reach eps (used R) {} (sv_edges t)"
      unfolding cfl_reach_loops[of eps "used R" K] by (rule cfl_reach_mono) simp
  qed
  ultimately show ?thesis
    using cfl_process.drain_ok[OF proc i(1,2) _ _ _ f, of "set (cg_nodes (sv_graph t))"] i(5) by auto
qed

lemma pushed_all:
  assumes "pocr_inv s" "sv_worklist s = fifo_new"
  shows "let t = fold pushIntoWorklist (cg_edgeSet (sv_graph s)) s in pocr_inv t \<and> fifo_inv (sv_worklist t) \<and>
    sv_waiting t = sv_edges t \<and> sv_graph t = sv_graph s \<and> pc_succMap t = pc_succMap s"
proof -
  have m: "pc_succMap (fold pushIntoWorklist es s) = pc_succMap s \<and> pc_predMap (fold pushIntoWorklist es s) = pc_predMap s" for es
    by (induction es arbitrary: s) (auto simp: pushIntoWorklist_def)
  have "fifo_inv (sv_worklist s)" "sv_waiting s = {}" using assms(2) by (simp_all add: fifo_new_def fifo_inv_def)
  with push_edges_ok[of s "cg_edgeSet (sv_graph s)"] m assms(1)
  show ?thesis by (auto simp: Let_def pocr_inv_def graph_inv_def mirrors_def edges_def)
qed

theorem pocr_solve_ok:
  assumes "filed eps R gr" "cg_inv g"
    and "\<And>e. e \<in> edges g \<Longrightarrow> e_flag e = flag_of (edge_symbol e) \<and> e_src e \<in> set (cg_nodes g) \<and> e_dst e \<in> set (cg_nodes g)"
  shows "\<exists>s. pocr_solve gr (pocr_new g) = Some s \<and> pocr_inv s \<and> cg_nodes (sv_graph s) = cg_nodes g \<and>
    sv_edges s = cfl_reach eps R (e_src ` edges g) (edges g)"
proof -
  let ?s = "pocr_new g" and ?K = "e_src ` edges g"
  have b: "pocr_inv ?s" "sv_graph ?s = g" "sv_worklist ?s = fifo_new" "{k. ahas (pc_succMap ?s) k} = ?K"
    using pocr_build_ok[of "\<lparr>sv_graph = g, sv_worklist = fifo_new, pc_succMap = [], pc_predMap = []\<rparr>"] assms(2,3)
    by (auto simp: pocr_new_def)
  obtain t where t: "t = fold pushIntoWorklist (cg_edgeSet (sv_graph ?s)) ?s" "pocr_inv t" "fifo_inv (sv_worklist t)"
      "sv_waiting t = sv_edges t" "sv_graph t = g" "pc_succMap t = pc_succMap ?s"
    using pushed_all[OF b(1,3)] b(2) by (auto simp: Let_def)
  have k: "keyed ?K t" using t b(4) assms(3) by (auto simp: keyed_def)
  obtain u where u: "pocr_epsilon gr t = Some u" "grown (keyed ?K) eps R ?K t u" "loops eps R ?K \<subseteq> sv_edges u"
    using pocr_epsilon_ok[OF filed_epsilon[OF assms(1)] k t(3)] t(4) unfolding wp_iff by auto
  from start_and_drain[OF pocr.cfl_process_axioms assms(1) t(2,3) _ _ u(2,3) t(4)] t(4,5) assms(3)
  show ?thesis using t(1) u(1) by (auto simp: pocr_solve_def pocr_initialize_def)
qed

end
