(* ===== verification/CFL_Hybrid.thy ===== *)
theory CFL_Hybrid
  imports CFL_POCR
begin

text \<open>
  \<^verbatim>\<open>POCRHybridSolver\<close> of \<^verbatim>\<open>svf/include/CFL/CFLSolver.h\<close> and \<^verbatim>\<open>svf/lib/CFL/CFLSolver.cpp\<close>.
  It is meant to keep the transitive closure of \<^verbatim>\<open>F\<close> in trees of descendants and calls \<open>addArc\<close>
  in place of the loops of the production \<^verbatim>\<open>F -> F F\<close>. \<open>addArc\<close> returns at once when the maps have
  the edge already, and they always have it: an edge enters the maps before it is processed. So the
  trees never grow and the production is never applied (\<open>hybrid_solve_ok\<close>).

  A \<^verbatim>\<open>TreeNode*\<close> is the index of a node in a heap. The loops over the children of a node and over an
  entry of \<^verbatim>\<open>indMap\<close> run over these as they are when the loop starts; what the code does
  when they change meanwhile does not matter, because the loops are not reached.
\<close>

record tree_node =
  tn_id :: nat
  tn_children :: "nat list"

record hybrid_solver = pocr_solver +
  hy_indMap :: "(nat \<times> (nat \<times> nat option) list) list"
  hy_heap :: "tree_node list"

definition deref :: "nat option \<Rightarrow> 'm hybrid_solver_scheme \<Rightarrow> tree_node option" where
  "deref p s = do { a \<leftarrow> p; ensure (a < length (hy_heap s)); Some (hy_heap s ! a) }"

definition hasInd_h :: "nat \<Rightarrow> nat \<Rightarrow> 'm hybrid_solver_scheme \<Rightarrow> bool" where
  "hasInd_h src dst s \<longleftrightarrow> (case map_of (hy_indMap s) dst of None \<Rightarrow> False | Some m \<Rightarrow> ahas m src)"

definition addInd_h :: "nat \<Rightarrow> nat \<Rightarrow> 'm hybrid_solver_scheme \<Rightarrow> nat option \<times> 'm hybrid_solver_scheme" where
  "addInd_h src dst s =
    (let m = aget [] (hy_indMap s) dst in
     if ahas m src then (None, s)
     else let a = length (hy_heap s) in
       (Some a, s\<lparr>hy_heap := hy_heap s @ [\<lparr>tn_id = dst, tn_children = []\<rparr>],
                 hy_indMap := aput dst (aput src (Some a) m) (hy_indMap s)\<rparr>))"

text \<open>\<^verbatim>\<open>indMap[dst][src]\<close> makes a null entry where there is none.\<close>

definition getNode_h :: "nat \<Rightarrow> nat \<Rightarrow> 'm hybrid_solver_scheme \<Rightarrow> nat option \<times> 'm hybrid_solver_scheme" where
  "getNode_h src dst s =
    (let m = aget [] (hy_indMap s) dst
     in (aget None m src, s\<lparr>hy_indMap := aput dst (aref None m src) (hy_indMap s)\<rparr>))"

definition insertEdge_h :: "nat option \<Rightarrow> nat \<Rightarrow> 'm hybrid_solver_scheme \<Rightarrow> 'm hybrid_solver_scheme option" where
  "insertEdge_h u v s = do {
     a \<leftarrow> u;
     n \<leftarrow> deref u s;
     Some (s\<lparr>hy_heap := (hy_heap s)[a := n\<lparr>tn_children := if v \<in> set (tn_children n) then tn_children n else tn_children n @ [v]\<rparr>]\<rparr>) }"

partial_function (option) meld_h ::
  "nat \<Rightarrow> nat option \<Rightarrow> nat option \<Rightarrow> 'm hybrid_solver_scheme \<Rightarrow> 'm hybrid_solver_scheme option" where
  "meld_h x uNode vNode s = do {
     n \<leftarrow> deref vNode s;
     (case addInd_h x (tn_id n) s of
       (None, s) \<Rightarrow> Some s
     | (Some newVNode, s) \<Rightarrow> do {
         s \<leftarrow> insertEdge_h uNode newVNode s;
         n \<leftarrow> deref vNode s;
         foldM (\<lambda>vChild s. meld_h x (Some newVNode) (Some vChild) s) (tn_children n) s }) }"

text \<open>\<open>meld\<close> is the first step of \<open>meld_h\<close> with a counter of checks.\<close>

definition meld :: "nat \<Rightarrow> nat option \<Rightarrow> nat option \<Rightarrow> 'm hybrid_solver_scheme \<Rightarrow> 'm hybrid_solver_scheme option" where
  "meld x uNode vNode s = do {
     n \<leftarrow> deref vNode s;
     (case addInd_h x (tn_id n) s of
       (None, s) \<Rightarrow> Some s
     | (Some newVNode, s) \<Rightarrow> do {
         s \<leftarrow> insertEdge_h uNode newVNode s;
         n \<leftarrow> deref vNode s;
         foldM (\<lambda>vChild s. meld_h x (Some newVNode) (Some vChild) s) (tn_children n) s }) }"

definition addArc :: "symbol \<Rightarrow> nat \<Rightarrow> nat \<Rightarrow> 'm hybrid_solver_scheme \<Rightarrow> 'm hybrid_solver_scheme option" where
  "addArc F src dst s =
    (if pc_hasEdge src dst F s then Some s
     else foldM (\<lambda>x s. case getNode_h x src s of (u, s) \<Rightarrow> case getNode_h dst dst s of (v, s) \<Rightarrow> meld x u v s)
       (map fst (aget [] (hy_indMap s) src)) s)"

definition addArc_h :: "nat \<Rightarrow> nat \<Rightarrow> 'm hybrid_solver_scheme \<Rightarrow> 'm hybrid_solver_scheme option" where
  "addArc_h src dst s =
    (if hasInd_h src dst s then Some s
     else foldM (\<lambda>x s. case getNode_h x src s of (u, s) \<Rightarrow> case getNode_h dst dst s of (v, s) \<Rightarrow> meld_h x u v s)
       (map fst (aget [] (hy_indMap s) src)) s)"

definition hybrid_first :: "symbol \<Rightarrow> symbol \<Rightarrow> nat \<Rightarrow> nat \<Rightarrow> production \<Rightarrow> 'm hybrid_solver_scheme \<Rightarrow> 'm hybrid_solver_scheme option" where
  "hybrid_first F Y i j p s = do {
     X \<leftarrow> getLHSSymbol p;
     Z \<leftarrow> getSecondRHSSymbol p;
     (if X = F \<and> Y = F \<and> Z = F then addArc F i j s else pocr_first i j p s) }"

definition hybrid_second :: "symbol \<Rightarrow> symbol \<Rightarrow> nat \<Rightarrow> nat \<Rightarrow> production \<Rightarrow> 'm hybrid_solver_scheme \<Rightarrow> 'm hybrid_solver_scheme option" where
  "hybrid_second F Y i j p s = do {
     X \<leftarrow> getLHSSymbol p;
     Z \<leftarrow> getFirstRHSSymbol p;
     (if X = F \<and> Y = F \<and> Z = F then addArc F i j s else pocr_second i j p s) }"

definition hybrid_processCFLEdge ::
  "symbol \<Rightarrow> grammar \<Rightarrow> cfl_edge \<Rightarrow> 'm hybrid_solver_scheme \<Rightarrow> 'm hybrid_solver_scheme option" where
  "hybrid_processCFLEdge F gr e =
    process_with gr pocr_single (hybrid_first F (edge_symbol e)) (hybrid_second F (edge_symbol e)) e"

definition hybrid_new :: "cfl_graph \<Rightarrow> hybrid_solver" where
  "hybrid_new g = buildCFLData \<lparr>sv_graph = g, sv_worklist = fifo_new, pc_succMap = [], pc_predMap = [], hy_indMap = [], hy_heap = []\<rparr>"

definition hybrid_initialize :: "grammar \<Rightarrow> 'm hybrid_solver_scheme \<Rightarrow> 'm hybrid_solver_scheme option" where
  "hybrid_initialize gr s =
    (let s = fold pushIntoWorklist (cg_edgeSet (sv_graph s)) s;
         s = fold (\<lambda>nId s. snd (addInd_h nId nId s)) (cg_nodes (sv_graph s)) s
     in pocr_epsilon gr s)"

definition hybrid_solve :: "symbol \<Rightarrow> grammar \<Rightarrow> 'm hybrid_solver_scheme \<Rightarrow> 'm hybrid_solver_scheme option" where
  "hybrid_solve F gr s = do { s \<leftarrow> hybrid_initialize gr s; drain (hybrid_processCFLEdge F gr) s }"

subsection \<open>The trees never grow\<close>

lemma pc_hasEdge_iff: "pc_hasEdge i j X s \<longleftrightarrow> j \<in> dm_get (pc_succMap s) i X"
  by (auto simp: pc_hasEdge_def dm_get_def aget_def split: option.splits)

lemma addArc_returns:
  assumes "pocr_inv s" "e \<in> sv_edges s" "edge_symbol e = F"
  shows "addArc F (e_src e) (e_dst e) s = Some s"
proof -
  have "CFLEdge (e_src e) (flag_of F) (e_dst e) = e" using assms by (cases e) (auto simp: pocr_inv_def)
  then have "e_dst e \<in> dm_get (pc_succMap s) (e_src e) F" using assms(1,2) by (simp add: pocr_inv_def mirrors_def)
  then show ?thesis by (simp add: addArc_def pc_hasEdge_iff)
qed

lemma hybrid_process_ok:
  assumes "filed eps R gr" "pocr_inv s" "fifo_inv (sv_worklist s)" "e \<in> sv_edges s" "sv_waiting s \<subseteq> sv_edges s"
  shows "wp (hybrid_processCFLEdge F gr e s) (\<lambda>s'. grown pocr_inv eps (R - {[F, F, F]}) {} s s' \<and>
    consequences eps (R - {[F, F, F]}) e (sv_edges s) \<subseteq> sv_edges s')"
  unfolding hybrid_processCFLEdge_def
proof (rule pocr_process_with_ok[OF assms(1) _ _ assms(2-5)])
  fix a b c and t :: "'a hybrid_solver_scheme"
  assume t: "[a, b, c] \<in> R" "b = edge_symbol e" "pocr_inv t" "e \<in> sv_edges t"
  then show "hybrid_first F (edge_symbol e) (e_src e) (e_dst e) [a, b, c] t =
      (if [a, b, c] \<in> R - {[F, F, F]} then pocr_first (e_src e) (e_dst e) [a, b, c] t else Some t)"
    using addArc_returns[OF t(3,4)] by (auto simp: hybrid_first_def getLHSSymbol_def getSecondRHSSymbol_def prod_at_def)
next
  fix a b c and t :: "'a hybrid_solver_scheme"
  assume t: "[a, b, c] \<in> R" "c = edge_symbol e" "pocr_inv t" "e \<in> sv_edges t"
  then show "hybrid_second F (edge_symbol e) (e_src e) (e_dst e) [a, b, c] t =
      (if [a, b, c] \<in> R - {[F, F, F]} then pocr_second (e_src e) (e_dst e) [a, b, c] t else Some t)"
    using addArc_returns[OF t(3,4)] by (auto simp: hybrid_second_def getLHSSymbol_def getFirstRHSSymbol_def prod_at_def)
qed auto

interpretation hybrid: cfl_process "hybrid_processCFLEdge F" "\<lambda>R. R - {[F, F, F]}" pocr_inv for F
  by unfold_locales (rule pocr_inv_worklist, rule hybrid_process_ok)

lemma addInd_fields:
  "sv_graph (snd (addInd_h i j s)) = sv_graph s \<and> sv_worklist (snd (addInd_h i j s)) = sv_worklist s \<and>
   pc_succMap (snd (addInd_h i j s)) = pc_succMap s \<and> pc_predMap (snd (addInd_h i j s)) = pc_predMap s"
  by (simp add: addInd_h_def Let_def)

lemma addInd_fold:
  "sv_graph (fold (\<lambda>n s. snd (addInd_h n n s)) ns s) = sv_graph s \<and> sv_worklist (fold (\<lambda>n s. snd (addInd_h n n s)) ns s) = sv_worklist s \<and>
   pc_succMap (fold (\<lambda>n s. snd (addInd_h n n s)) ns s) = pc_succMap s \<and> pc_predMap (fold (\<lambda>n s. snd (addInd_h n n s)) ns s) = pc_predMap s"
  by (induction ns arbitrary: s) (simp_all add: addInd_fields)

theorem hybrid_solve_ok:
  assumes "filed eps R gr" "cg_inv g"
    and "\<And>e. e \<in> edges g \<Longrightarrow> e_flag e = flag_of (edge_symbol e) \<and> e_src e \<in> set (cg_nodes g) \<and> e_dst e \<in> set (cg_nodes g)"
  shows "\<exists>s. hybrid_solve F gr (hybrid_new g) = Some s \<and> pocr_inv s \<and> cg_nodes (sv_graph s) = cg_nodes g \<and>
    sv_edges s = cfl_reach eps (R - {[F, F, F]}) (e_src ` edges g) (edges g)"
proof -
  let ?s = "hybrid_new g" and ?K = "e_src ` edges g"
  have b: "pocr_inv ?s" "sv_graph ?s = g" "sv_worklist ?s = fifo_new" "{k. ahas (pc_succMap ?s) k} = ?K"
    using pocr_build_ok[of "\<lparr>sv_graph = g, sv_worklist = fifo_new, pc_succMap = [], pc_predMap = [], hy_indMap = [], hy_heap = []\<rparr>"] assms(2,3)
    by (auto simp: hybrid_new_def)
  obtain t0 where t0: "t0 = fold pushIntoWorklist (cg_edgeSet (sv_graph ?s)) ?s" "pocr_inv t0" "fifo_inv (sv_worklist t0)"
      "sv_waiting t0 = sv_edges t0" "sv_graph t0 = g" "pc_succMap t0 = pc_succMap ?s"
    using pushed_all[OF b(1,3)] b(2) by (auto simp: Let_def)
  let ?t = "fold (\<lambda>nId s. snd (addInd_h nId nId s)) (cg_nodes (sv_graph t0)) t0"
  have t: "pocr_inv ?t" "fifo_inv (sv_worklist ?t)" "sv_waiting ?t = sv_edges ?t" "sv_graph ?t = g" "pc_succMap ?t = pc_succMap ?s"
    using addInd_fold[of "cg_nodes (sv_graph t0)" t0] t0(2-6) by (auto simp: pocr_inv_def graph_inv_def mirrors_def)
  have k: "keyed ?K ?t" using t b(4) assms(3) by (auto simp: keyed_def)
  have e: "set (gr_epsilonProds gr) = {[a, b] | a b. [a, b] \<in> R - {[F, F, F]} \<and> eps_production eps a b}"
    using filed_epsilon[OF assms(1)] by simp
  obtain u where u: "pocr_epsilon gr ?t = Some u" "grown (keyed ?K) eps (R - {[F, F, F]}) ?K ?t u"
      "loops eps (R - {[F, F, F]}) ?K \<subseteq> sv_edges u"
    using pocr_epsilon_ok[OF e k t(2)] t(3) unfolding wp_iff by auto
  from start_and_drain[OF hybrid.cfl_process_axioms assms(1) t(1,2) _ _ u(2,3) t(3)] t(3,4) assms(3)
  show ?thesis using t0(1) u(1) by (auto simp: hybrid_solve_def hybrid_initialize_def Let_def)
qed

end
