(* ===== verification/Components.thy ===== *)
theory Components
  imports Work_List
begin

text \<open>
  Strongly connected components: the class \<^verbatim>\<open>SCCDetection\<close> of \<^verbatim>\<open>svf/include/Graphs/SCC.h\<close>, Nuutila's
  version of Tarjan's algorithm. A graph is given by the function \<open>S\<close> that lists the successors of a node in the order
  of \<^verbatim>\<open>direct_child_begin\<close>. Stacks have their top first, sets of nodes are sets. Reading an entry of a map makes a
  default one; \<open>visit\<close> overwrites it at once, so reading is modelled without it.
\<close>

subsection \<open>The state\<close>

record scc_info =
  si_visited :: bool
  si_inSCC :: bool
  si_rep :: nat
  si_subNodes :: "nat set"

abbreviation no_rep :: nat where
  "no_rep \<equiv> 4294967295"

definition new_info :: scc_info where
  "new_info = \<lparr>si_visited = False, si_inSCC = False, si_rep = no_rep, si_subNodes = {}\<rparr>"

record scc =
  sc_info :: "(nat \<times> scc_info) list"
  sc_I :: "32 word"
  sc_D :: "(nat \<times> 32 word) list"
  sc_SS :: "nat list"
  sc_T :: "nat list"
  sc_repNodes :: "nat set"

definition scc_new :: scc where
  "scc_new = \<lparr>sc_info = [], sc_I = 0, sc_D = [], sc_SS = [], sc_T = [], sc_repNodes = {}\<rparr>"

definition sc_get :: "scc \<Rightarrow> nat \<Rightarrow> scc_info" where
  "sc_get s n = aget new_info (sc_info s) n"

definition upd_info :: "nat \<Rightarrow> (scc_info \<Rightarrow> scc_info) \<Rightarrow> scc \<Rightarrow> scc" where
  "upd_info n f s = s\<lparr>sc_info := aput n (f (sc_get s n)) (sc_info s)\<rparr>"

definition sc_visited :: "scc \<Rightarrow> nat \<Rightarrow> bool" where
  "sc_visited s n = si_visited (sc_get s n)"

definition sc_inSCC :: "scc \<Rightarrow> nat \<Rightarrow> bool" where
  "sc_inSCC s n = si_inSCC (sc_get s n)"

definition sc_rep :: "scc \<Rightarrow> nat \<Rightarrow> nat" where
  "sc_rep s n = si_rep (sc_get s n)"

definition setVisited :: "nat \<Rightarrow> bool \<Rightarrow> scc \<Rightarrow> scc" where
  "setVisited n v = upd_info n (\<lambda>i. i\<lparr>si_visited := v\<rparr>)"

definition setInSCC :: "nat \<Rightarrow> bool \<Rightarrow> scc \<Rightarrow> scc" where
  "setInSCC n v = upd_info n (\<lambda>i. i\<lparr>si_inSCC := v\<rparr>)"

definition set_rep :: "nat \<Rightarrow> nat \<Rightarrow> scc \<Rightarrow> scc" where
  "set_rep n r s =
    (let s = upd_info n (\<lambda>i. i\<lparr>si_rep := r\<rparr>) s;
         s = upd_info r (\<lambda>i. i\<lparr>si_subNodes := insert n (si_subNodes i)\<rparr>) s
     in if n \<noteq> r
        then (upd_info n (\<lambda>i. i\<lparr>si_subNodes := {}\<rparr>) s)\<lparr>sc_repNodes := insert r (sc_repNodes s - {n})\<rparr>
        else s)"

definition sc_number :: "scc \<Rightarrow> nat \<Rightarrow> 32 word" where
  "sc_number s n = aget 0 (sc_D s) n"

subsection \<open>The search\<close>

definition scc_child :: "(nat \<Rightarrow> scc \<Rightarrow> scc option) \<Rightarrow> nat \<Rightarrow> nat \<Rightarrow> scc \<Rightarrow> scc option" where
  "scc_child vis v w s = do {
     s \<leftarrow> (if sc_visited s w then Some s else vis w s);
     if sc_inSCC s w then Some s
     else let r = (if sc_number s (sc_rep s v) < sc_number s (sc_rep s w) then sc_rep s v else sc_rep s w)
          in Some (set_rep v r s) }"

fun scc_collect :: "nat \<Rightarrow> nat list \<Rightarrow> scc \<Rightarrow> scc" where
  "scc_collect v [] s = s\<lparr>sc_SS := []\<rparr>"
| "scc_collect v (w # ss) s =
     (if sc_number s w \<le> sc_number s v then s\<lparr>sc_SS := w # ss\<rparr>
      else scc_collect v ss (set_rep w v (setInSCC w True s)))"

definition scc_enter :: "nat \<Rightarrow> scc \<Rightarrow> scc" where
  "scc_enter v s =
    (let s = s\<lparr>sc_I := sc_I s + 1\<rparr>;
         s = s\<lparr>sc_D := aput v (sc_I s) (sc_D s)\<rparr>
     in setVisited v True (set_rep v v s))"

definition scc_leave :: "nat \<Rightarrow> scc \<Rightarrow> scc" where
  "scc_leave v s =
    (if sc_rep s v = v
     then let s = setInSCC v True s;
              s = scc_collect v (sc_SS s) s
          in s\<lparr>sc_T := v # sc_T s\<rparr>
     else s\<lparr>sc_SS := v # sc_SS s\<rparr>)"

lemma scc_child_mono [partial_function_mono]:
  assumes "\<And>n s. mono_option (\<lambda>f. V f n s)"
  shows "mono_option (\<lambda>f. scc_child (V f) v w s)"
  unfolding scc_child_def Let_def by (intro partial_function_mono assms)

partial_function (option) scc_visit :: "(nat \<Rightarrow> nat list) \<Rightarrow> nat \<Rightarrow> scc \<Rightarrow> scc option" where
  "scc_visit S v s = do {
     s \<leftarrow> foldM (scc_child (scc_visit S) v) (S v) (scc_enter v s);
     Some (scc_leave v s) }"

definition scc_clear :: "scc \<Rightarrow> scc" where
  "scc_clear s = s\<lparr>sc_info := [], sc_I := 0, sc_D := [], sc_repNodes := {}, sc_SS := [], sc_T := []\<rparr>"

lemma scc_clear_new [simp]: "scc_clear s = scc_new"
  by (simp add: scc_clear_def scc_new_def)

text \<open>\<^verbatim>\<open>find\<close> goes over all nodes of the graph, or over candidates, in the order of the list.\<close>

definition scc_root :: "(nat \<Rightarrow> nat list) \<Rightarrow> nat \<Rightarrow> scc \<Rightarrow> scc option" where
  "scc_root S n s =
    (if \<not> sc_visited s n \<and> (sc_rep s n = no_rep \<or> sc_rep s n = n) then scc_visit S n s else Some s)"

definition scc_find :: "(nat \<Rightarrow> nat list) \<Rightarrow> nat list \<Rightarrow> scc \<Rightarrow> scc option" where
  "scc_find S nodes s = foldM (scc_root S) nodes (scc_clear s)"

subsection \<open>Queries\<close>

definition repNode :: "scc \<Rightarrow> nat \<Rightarrow> nat option" where
  "repNode s n = do {
     i \<leftarrow> map_of (sc_info s) n;
     Some (if si_rep i \<noteq> no_rep then si_rep i else n) }"

definition subNodes :: "scc \<Rightarrow> nat \<Rightarrow> nat set option" where
  "subNodes s n = do { i \<leftarrow> map_of (sc_info s) n; Some (si_subNodes i) }"

definition isInCycle :: "(nat \<Rightarrow> nat list) \<Rightarrow> scc \<Rightarrow> nat \<Rightarrow> bool option" where
  "isInCycle S s n = do {
     r \<leftarrow> repNode s n;
     sub \<leftarrow> subNodes s r;
     Some (card sub > 1 \<or> r \<in> set (S r)) }"

definition topoNodeStack :: "scc \<Rightarrow> nat list" where
  "topoNodeStack s = sc_T s"

text \<open>\<^verbatim>\<open>revTopoNodeStack\<close> moves the stack into a first-in first-out list.\<close>

definition revTopoNodeStack :: "scc \<Rightarrow> nat fifo" where
  "revTopoNodeStack s = fold (\<lambda>n w. snd (fifo_push n w)) (sc_T s) fifo_new"

definition getRepNodes :: "scc \<Rightarrow> nat set" where
  "getRepNodes s = sc_repNodes s"

subsection \<open>What the search keeps\<close>

definition sc_num :: "scc \<Rightarrow> nat \<Rightarrow> nat" where
  "sc_num s n = unat (sc_number s n)"

definition sc_sub :: "scc \<Rightarrow> nat \<Rightarrow> nat set" where
  "sc_sub s n = si_subNodes (sc_get s n)"

text \<open>Nodes that have been visited and are not in a component yet.\<close>

definition active :: "scc \<Rightarrow> nat \<Rightarrow> bool" where
  "active s n \<longleftrightarrow> sc_visited s n \<and> \<not> sc_inSCC s n"

definition mutual :: "(nat \<Rightarrow> nat list) \<Rightarrow> nat \<Rightarrow> nat \<Rightarrow> bool" where
  "mutual S u x \<longleftrightarrow> x \<in> reachable S u \<and> u \<in> reachable S x"

definition scc_core :: "(nat \<Rightarrow> nat list) \<Rightarrow> nat set \<Rightarrow> scc \<Rightarrow> bool" where
  "scc_core S N s \<longleftrightarrow> (\<forall>n. sc_visited s n \<longrightarrow> n \<in> N) \<and> (\<forall>n. sc_inSCC s n \<longrightarrow> sc_visited s n) \<and>
     (\<forall>n. \<not> sc_visited s n \<longrightarrow> sc_get s n = new_info) \<and>
     (\<forall>n. sc_visited s n \<longrightarrow> sc_num s n \<le> unat (sc_I s)) \<and> inj_on (sc_num s) {n. sc_visited s n} \<and>
     card {n. sc_visited s n} = unat (sc_I s) \<and>
     (\<forall>u x. sc_inSCC s u \<longrightarrow> x \<in> set (S u) \<longrightarrow> sc_inSCC s x) \<and>
     (\<forall>u. active s u \<longrightarrow> active s (sc_rep s u) \<and> sc_num s (sc_rep s u) \<le> sc_num s u \<and> sc_rep s u \<in> reachable S u) \<and>
     (\<forall>u\<in>set (sc_SS s). active s u \<and> sc_rep s u \<noteq> u) \<and> (\<forall>n. ahas (sc_info s) n \<longleftrightarrow> sc_visited s n)"

text \<open>Nodes of components have the representative of their class; the set at a representative is its class, the sets at nodes
  that are not in a component hold visited nodes that lead there; \<^verbatim>\<open>repNodes\<close> marks the representatives of several nodes;
  and the stack of representatives is in topological order.\<close>

definition class_reps :: "(nat \<Rightarrow> nat list) \<Rightarrow> scc \<Rightarrow> bool" where
  "class_reps S s \<longleftrightarrow>
     (\<forall>u. sc_inSCC s u \<longrightarrow> mutual S u (sc_rep s u) \<and> (\<forall>x. mutual S u x \<longrightarrow> sc_inSCC s x \<and> sc_rep s x = sc_rep s u))"

definition class_subs :: "(nat \<Rightarrow> nat list) \<Rightarrow> scc \<Rightarrow> bool" where
  "class_subs S s \<longleftrightarrow>
     (\<forall>r. sc_inSCC s r \<longrightarrow> sc_sub s r = (if sc_rep s r = r then {u. mutual S r u} else {})) \<and>
     (\<forall>r u. \<not> sc_inSCC s r \<longrightarrow> u \<in> sc_sub s r \<longrightarrow> sc_visited s u \<and> r \<in> reachable S u \<and> sc_num s r \<le> sc_num s u) \<and>
     (\<forall>r. active s r \<longrightarrow> sc_rep s r = r \<longrightarrow> r \<in> sc_sub s r)"

definition class_marks :: "(nat \<Rightarrow> nat list) \<Rightarrow> scc \<Rightarrow> bool" where
  "class_marks S s \<longleftrightarrow>
     (\<forall>r. sc_inSCC s r \<longrightarrow> (r \<in> sc_repNodes s \<longleftrightarrow> sc_rep s r = r \<and> (\<exists>u. mutual S r u \<and> u \<noteq> r))) \<and>
     (\<forall>r\<in>sc_repNodes s. \<not> sc_inSCC s r \<longrightarrow> (\<exists>u\<in>sc_sub s r. u \<noteq> r))"

definition class_order :: "(nat \<Rightarrow> nat list) \<Rightarrow> scc \<Rightarrow> bool" where
  "class_order S s \<longleftrightarrow> distinct (sc_T s) \<and> set (sc_T s) = {r. sc_inSCC s r \<and> sc_rep s r = r} \<and>
     (\<forall>u x. sc_inSCC s u \<longrightarrow> x \<in> set (S u) \<longrightarrow> sc_rep s u \<noteq> sc_rep s x \<longrightarrow> precedes (sc_T s) (sc_rep s u) (sc_rep s x))"

definition scc_classes :: "(nat \<Rightarrow> nat list) \<Rightarrow> scc \<Rightarrow> bool" where
  "scc_classes S s \<longleftrightarrow> class_reps S s \<and> class_subs S s \<and> class_marks S s \<and> class_order S s"

lemma scc_coreD:
  assumes "scc_core S N s"
  shows "sc_visited s n \<Longrightarrow> n \<in> N" "sc_inSCC s n \<Longrightarrow> sc_visited s n" "\<not> sc_visited s n \<Longrightarrow> sc_get s n = new_info"
    "sc_visited s n \<Longrightarrow> sc_num s n \<le> unat (sc_I s)" "inj_on (sc_num s) {n. sc_visited s n}"
    "card {n. sc_visited s n} = unat (sc_I s)"
    "sc_inSCC s u \<Longrightarrow> x \<in> set (S u) \<Longrightarrow> sc_inSCC s x"
    "active s u \<Longrightarrow> active s (sc_rep s u)" "active s u \<Longrightarrow> sc_num s (sc_rep s u) \<le> sc_num s u"
    "active s u \<Longrightarrow> sc_rep s u \<in> reachable S u"
    "u \<in> set (sc_SS s) \<Longrightarrow> active s u" "u \<in> set (sc_SS s) \<Longrightarrow> sc_rep s u \<noteq> u"
    "ahas (sc_info s) n \<longleftrightarrow> sc_visited s n"
  using assms unfolding scc_core_def by blast+

lemma scc_classesD:
  assumes "scc_classes S s"
  shows "sc_inSCC s u \<Longrightarrow> mutual S u (sc_rep s u)" "sc_inSCC s u \<Longrightarrow> mutual S u x \<Longrightarrow> sc_inSCC s x"
    "sc_inSCC s u \<Longrightarrow> mutual S u x \<Longrightarrow> sc_rep s x = sc_rep s u"
    "sc_inSCC s r \<Longrightarrow> sc_sub s r = (if sc_rep s r = r then {u. mutual S r u} else {})"
    "\<not> sc_inSCC s r \<Longrightarrow> u \<in> sc_sub s r \<Longrightarrow> sc_visited s u" "\<not> sc_inSCC s r \<Longrightarrow> u \<in> sc_sub s r \<Longrightarrow> r \<in> reachable S u"
    "\<not> sc_inSCC s r \<Longrightarrow> u \<in> sc_sub s r \<Longrightarrow> sc_num s r \<le> sc_num s u"
    "sc_inSCC s r \<Longrightarrow> r \<in> sc_repNodes s \<longleftrightarrow> sc_rep s r = r \<and> (\<exists>u. mutual S r u \<and> u \<noteq> r)"
    "r \<in> sc_repNodes s \<Longrightarrow> \<not> sc_inSCC s r \<Longrightarrow> \<exists>u\<in>sc_sub s r. u \<noteq> r"
    "distinct (sc_T s)" "set (sc_T s) = {r. sc_inSCC s r \<and> sc_rep s r = r}"
    "sc_inSCC s u \<Longrightarrow> x \<in> set (S u) \<Longrightarrow> sc_rep s u \<noteq> sc_rep s x \<Longrightarrow> precedes (sc_T s) (sc_rep s u) (sc_rep s x)"
    "active s r \<Longrightarrow> sc_rep s r = r \<Longrightarrow> r \<in> sc_sub s r"
proof -
  have h: "class_reps S s" "class_subs S s" "class_marks S s" "class_order S s" using assms by (simp_all add: scc_classes_def)
  show "sc_inSCC s u \<Longrightarrow> mutual S u (sc_rep s u)" "sc_inSCC s u \<Longrightarrow> mutual S u x \<Longrightarrow> sc_inSCC s x"
    "sc_inSCC s u \<Longrightarrow> mutual S u x \<Longrightarrow> sc_rep s x = sc_rep s u"
    using h(1) unfolding class_reps_def by blast+
  show "sc_inSCC s r \<Longrightarrow> sc_sub s r = (if sc_rep s r = r then {u. mutual S r u} else {})"
    "\<not> sc_inSCC s r \<Longrightarrow> u \<in> sc_sub s r \<Longrightarrow> sc_visited s u" "\<not> sc_inSCC s r \<Longrightarrow> u \<in> sc_sub s r \<Longrightarrow> r \<in> reachable S u"
    "\<not> sc_inSCC s r \<Longrightarrow> u \<in> sc_sub s r \<Longrightarrow> sc_num s r \<le> sc_num s u" "active s r \<Longrightarrow> sc_rep s r = r \<Longrightarrow> r \<in> sc_sub s r"
    using h(2) unfolding class_subs_def by blast+
  show "sc_inSCC s r \<Longrightarrow> r \<in> sc_repNodes s \<longleftrightarrow> sc_rep s r = r \<and> (\<exists>u. mutual S r u \<and> u \<noteq> r)"
    "r \<in> sc_repNodes s \<Longrightarrow> \<not> sc_inSCC s r \<Longrightarrow> \<exists>u\<in>sc_sub s r. u \<noteq> r"
    using h(3) unfolding class_marks_def by blast+
  show "distinct (sc_T s)" "set (sc_T s) = {r. sc_inSCC s r \<and> sc_rep s r = r}"
    "sc_inSCC s u \<Longrightarrow> x \<in> set (S u) \<Longrightarrow> sc_rep s u \<noteq> sc_rep s x \<Longrightarrow> precedes (sc_T s) (sc_rep s u) (sc_rep s x)"
    using h(4) unfolding class_order_def by blast+
qed

lemma mutual_refl [simp]: "mutual S u u"
  by (simp add: mutual_def reachable_def)

lemma reachable_trans: "x \<in> reachable S u \<Longrightarrow> y \<in> reachable S x \<Longrightarrow> y \<in> reachable S u"
  unfolding reachable_def by (auto intro: rtrancl_trans)

lemma mutual_sym: "mutual S u x \<longleftrightarrow> mutual S x u"
  by (auto simp: mutual_def)

lemma mutual_trans: "mutual S u x \<Longrightarrow> mutual S x y \<Longrightarrow> mutual S u y"
  by (meson mutual_def reachable_trans)

lemma closed_reachable:
  "u \<in> X \<Longrightarrow> (\<And>u x. u \<in> X \<Longrightarrow> x \<in> set (S u) \<Longrightarrow> x \<in> X) \<Longrightarrow> x \<in> reachable S u \<Longrightarrow> x \<in> X"
  using reachable_least[of u X S] by blast

lemma inSCC_reachable: "scc_core S N s \<Longrightarrow> sc_inSCC s u \<Longrightarrow> x \<in> reachable S u \<Longrightarrow> sc_inSCC s x"
  using closed_reachable[of u "Collect (sc_inSCC s)" S x] scc_coreD(7)[of S N s] unfolding mem_Collect_eq by blast

text \<open>How the operations change what is read from the state.\<close>

lemma upd_info_get [simp]: "sc_get (upd_info n f s) u = (if u = n then f (sc_get s n) else sc_get s u)"
  by (simp add: upd_info_def sc_get_def)

lemma upd_info_fields [simp]:
  "sc_I (upd_info n f s) = sc_I s" "sc_D (upd_info n f s) = sc_D s" "sc_SS (upd_info n f s) = sc_SS s" "sc_T (upd_info n f s) = sc_T s"
  "sc_repNodes (upd_info n f s) = sc_repNodes s" "ahas (sc_info (upd_info n f s)) u \<longleftrightarrow> n = u \<or> ahas (sc_info s) u"
  by (simp_all add: upd_info_def)

lemma set_repNodes_get [simp]: "sc_get (s\<lparr>sc_repNodes := R\<rparr>) = sc_get s"
  by (simp add: sc_get_def fun_eq_iff)

lemma set_rep_simps [simp]:
  "sc_visited (set_rep n r s) = sc_visited s" "sc_inSCC (set_rep n r s) = sc_inSCC s"
  "sc_rep (set_rep n r s) u = (if u = n then r else sc_rep s u)"
  "sc_sub (set_rep n r s) u = (if u = r then insert n (sc_sub s r) else if u = n then {} else sc_sub s u)"
  "sc_num (set_rep n r s) = sc_num s" "sc_number (set_rep n r s) = sc_number s" "sc_I (set_rep n r s) = sc_I s"
  "sc_SS (set_rep n r s) = sc_SS s"
  "sc_T (set_rep n r s) = sc_T s"
  "sc_repNodes (set_rep n r s) = (if n = r then sc_repNodes s else insert r (sc_repNodes s - {n}))"
  "ahas (sc_info (set_rep n r s)) u \<longleftrightarrow> u = n \<or> u = r \<or> ahas (sc_info s) u"
  by (simp_all add: set_rep_def sc_visited_def sc_inSCC_def sc_rep_def sc_sub_def sc_num_def sc_number_def Let_def fun_eq_iff) blast+

lemma set_rep_get: "u \<noteq> n \<Longrightarrow> u \<noteq> r \<Longrightarrow> sc_get (set_rep n r s) u = sc_get s u"
  by (simp add: set_rep_def Let_def)

lemma setInSCC_simps [simp]:
  "sc_visited (setInSCC n b s) = sc_visited s" "sc_inSCC (setInSCC n b s) u = (if u = n then b else sc_inSCC s u)"
  "sc_rep (setInSCC n b s) u = sc_rep s u" "sc_sub (setInSCC n b s) u = sc_sub s u"
  "sc_num (setInSCC n b s) = sc_num s" "sc_number (setInSCC n b s) = sc_number s" "sc_I (setInSCC n b s) = sc_I s"
  "sc_SS (setInSCC n b s) = sc_SS s" "sc_T (setInSCC n b s) = sc_T s" "sc_repNodes (setInSCC n b s) = sc_repNodes s"
  "ahas (sc_info (setInSCC n b s)) u \<longleftrightarrow> u = n \<or> ahas (sc_info s) u"
  by (simp_all add: setInSCC_def sc_visited_def sc_inSCC_def sc_rep_def sc_sub_def sc_num_def sc_number_def fun_eq_iff) blast+

lemma setInSCC_get: "u \<noteq> n \<Longrightarrow> sc_get (setInSCC n b s) u = sc_get s u"
  by (simp add: setInSCC_def)

lemma scc_update_simps [simp]:
  "sc_get (s\<lparr>sc_SS := ss\<rparr>) = sc_get s" "sc_visited (s\<lparr>sc_SS := ss\<rparr>) = sc_visited s" "sc_inSCC (s\<lparr>sc_SS := ss\<rparr>) = sc_inSCC s"
  "sc_rep (s\<lparr>sc_SS := ss\<rparr>) = sc_rep s" "sc_sub (s\<lparr>sc_SS := ss\<rparr>) = sc_sub s" "sc_num (s\<lparr>sc_SS := ss\<rparr>) = sc_num s"
  "sc_number (s\<lparr>sc_SS := ss\<rparr>) = sc_number s"
  "sc_get (s\<lparr>sc_T := ss\<rparr>) = sc_get s" "sc_visited (s\<lparr>sc_T := ss\<rparr>) = sc_visited s" "sc_inSCC (s\<lparr>sc_T := ss\<rparr>) = sc_inSCC s"
  "sc_rep (s\<lparr>sc_T := ss\<rparr>) = sc_rep s" "sc_sub (s\<lparr>sc_T := ss\<rparr>) = sc_sub s" "sc_num (s\<lparr>sc_T := ss\<rparr>) = sc_num s"
  "sc_number (s\<lparr>sc_T := ss\<rparr>) = sc_number s"
  by (simp_all add: sc_get_def sc_visited_def sc_inSCC_def sc_rep_def sc_sub_def sc_num_def sc_number_def fun_eq_iff)

lemma active_simps [simp]:
  "active (set_rep n r s) u = active s u" "active (s\<lparr>sc_SS := ss\<rparr>) u = active s u" "active (s\<lparr>sc_T := ss\<rparr>) u = active s u"
  by (simp_all add: active_def)

subsection \<open>The steps of the search\<close>

lemma enter_simps [simp]:
  "sc_visited (scc_enter v s) u \<longleftrightarrow> u = v \<or> sc_visited s u" "sc_inSCC (scc_enter v s) u = sc_inSCC s u"
  "sc_rep (scc_enter v s) u = (if u = v then v else sc_rep s u)"
  "sc_sub (scc_enter v s) u = (if u = v then insert v (sc_sub s v) else sc_sub s u)"
  "sc_number (scc_enter v s) u = (if u = v then sc_I s + 1 else sc_number s u)"
  "sc_num (scc_enter v s) u = (if u = v then unat (sc_I s + 1) else sc_num s u)"
  "sc_I (scc_enter v s) = sc_I s + 1" "sc_SS (scc_enter v s) = sc_SS s" "sc_T (scc_enter v s) = sc_T s"
  "sc_repNodes (scc_enter v s) = sc_repNodes s" "ahas (sc_info (scc_enter v s)) u \<longleftrightarrow> u = v \<or> ahas (sc_info s) u"
  by (auto simp: scc_enter_def setVisited_def set_rep_def sc_visited_def sc_inSCC_def sc_rep_def sc_sub_def sc_num_def sc_number_def Let_def
      upd_info_def sc_get_def)

lemma enter_get: "u \<noteq> v \<Longrightarrow> sc_get (scc_enter v s) u = sc_get s u"
  by (simp add: scc_enter_def setVisited_def set_rep_def Let_def upd_info_def sc_get_def)

lemma unvisited:
  assumes "scc_core S N s" "\<not> sc_visited s v"
  shows "\<not> sc_inSCC s v" "sc_sub s v = {}" "sc_rep s v = no_rep" "\<not> active s v"
  using scc_coreD(2)[OF assms(1), of v] scc_coreD(3)[OF assms] assms(2)
  by (auto simp: sc_sub_def sc_rep_def new_info_def active_def)

lemma enter_ok':
  assumes c: "scc_core S N s" and k: "scc_classes S s" and v: "v \<in> N" "\<not> sc_visited s v" and N: "finite N" "card N < 2 ^ 32"
  shows "unat (sc_I (scc_enter v s)) = unat (sc_I s) + 1" "scc_core S N (scc_enter v s)" "scc_classes S (scc_enter v s)"
    "active (scc_enter v s) u \<longleftrightarrow> u = v \<or> active s u"
proof -
  have sub: "{n. sc_visited s n} \<subseteq> N - {v}" using scc_coreD(1)[OF c] v by auto
  then have fin: "finite {n. sc_visited s n}" using N finite_subset by blast
  have "card {n. sc_visited s n} < card N" using sub v(1) N(1) by (intro psubset_card_mono) auto
  then have lt: "unat (sc_I s) + 1 < 2 ^ 32" using N(2) scc_coreD(6)[OF c] by simp
  then have u1: "unat (sc_I s + 1) = unat (sc_I s) + 1" by (subst unat_add_lem[THEN iffD1]) auto
  then show "unat (sc_I (scc_enter v s)) = unat (sc_I s) + 1" by simp
  note un = unvisited[OF c v(2)]
  show act: "active (scc_enter v s) u \<longleftrightarrow> u = v \<or> active s u" for u using un(1) by (auto simp: active_def)
  have ne: "u \<noteq> v" if "sc_visited s u" for u using that v(2) by blast
  have ar: "active s u \<Longrightarrow> sc_rep s u \<noteq> v" for u using scc_coreD(8)[OF c, of u] un(4) by blast
  show "scc_core S N (scc_enter v s)"
    unfolding scc_core_def
  proof (intro conjI)
    show "\<forall>n. sc_visited (scc_enter v s) n \<longrightarrow> n \<in> N" using scc_coreD(1)[OF c] v by auto
    show "\<forall>n. sc_inSCC (scc_enter v s) n \<longrightarrow> sc_visited (scc_enter v s) n" using scc_coreD(2)[OF c] by auto
    show "\<forall>n. \<not> sc_visited (scc_enter v s) n \<longrightarrow> sc_get (scc_enter v s) n = new_info"
      using scc_coreD(3)[OF c] by (auto simp: enter_get)
    show "\<forall>n. sc_visited (scc_enter v s) n \<longrightarrow> sc_num (scc_enter v s) n \<le> unat (sc_I (scc_enter v s))"
      using scc_coreD(4)[OF c] u1 by (auto intro: le_SucI)
    have "sc_num s u \<noteq> unat (sc_I s) + 1" if "sc_visited s u" for u using scc_coreD(4)[OF c that] by simp
    note new = this
    show "inj_on (sc_num (scc_enter v s)) {n. sc_visited (scc_enter v s) n}"
    proof (rule inj_onI)
      fix a b assume "a \<in> {n. sc_visited (scc_enter v s) n}" "b \<in> {n. sc_visited (scc_enter v s) n}"
        and e: "sc_num (scc_enter v s) a = sc_num (scc_enter v s) b"
      then consider "a = v" "b = v" | "a = v" "sc_visited s b" "b \<noteq> v" | "b = v" "sc_visited s a" "a \<noteq> v"
        | "sc_visited s a" "sc_visited s b" "a \<noteq> v" "b \<noteq> v" by auto
      then show "a = b"
      proof cases
        case 2
        then show ?thesis using new[of b] e u1 by simp
      next
        case 3
        then show ?thesis using new[of a] e u1 by simp
      next
        case 4
        then show ?thesis using inj_onD[OF scc_coreD(5)[OF c], of a b] e by simp
      qed simp
    qed
    have "{n. sc_visited (scc_enter v s) n} = insert v {n. sc_visited s n}" by auto
    then show "card {n. sc_visited (scc_enter v s) n} = unat (sc_I (scc_enter v s))"
      using scc_coreD(6)[OF c] u1 v(2) fin by simp
    show "\<forall>u x. sc_inSCC (scc_enter v s) u \<longrightarrow> x \<in> set (S u) \<longrightarrow> sc_inSCC (scc_enter v s) x" using scc_coreD(7)[OF c] by simp
    show "\<forall>u. active (scc_enter v s) u \<longrightarrow> active (scc_enter v s) (sc_rep (scc_enter v s) u) \<and>
        sc_num (scc_enter v s) (sc_rep (scc_enter v s) u) \<le> sc_num (scc_enter v s) u \<and> sc_rep (scc_enter v s) u \<in> reachable S u"
    proof (intro allI impI)
      fix u assume u: "active (scc_enter v s) u"
      show "active (scc_enter v s) (sc_rep (scc_enter v s) u) \<and>
        sc_num (scc_enter v s) (sc_rep (scc_enter v s) u) \<le> sc_num (scc_enter v s) u \<and> sc_rep (scc_enter v s) u \<in> reachable S u"
        using scc_coreD(8-10)[OF c, of u] u ar[of u] un(4) unfolding act by (auto simp: reachable_def)
    qed
    show "\<forall>u\<in>set (sc_SS (scc_enter v s)). active (scc_enter v s) u \<and> sc_rep (scc_enter v s) u \<noteq> u"
      using scc_coreD(11,12)[OF c] un(4) unfolding act by auto
    show "\<forall>n. ahas (sc_info (scc_enter v s)) n \<longleftrightarrow> sc_visited (scc_enter v s) n" using scc_coreD(13)[OF c] by simp
  qed
  have iv: "sc_inSCC s u \<Longrightarrow> u \<noteq> v" for u using un(1) by blast
  show "scc_classes S (scc_enter v s)"
    unfolding scc_classes_def class_reps_def class_subs_def class_marks_def class_order_def
  proof (intro conjI)
    show "\<forall>u. sc_inSCC (scc_enter v s) u \<longrightarrow> mutual S u (sc_rep (scc_enter v s) u) \<and>
        (\<forall>x. mutual S u x \<longrightarrow> sc_inSCC (scc_enter v s) x \<and> sc_rep (scc_enter v s) x = sc_rep (scc_enter v s) u)"
      using scc_classesD(1-3)[OF k] iv by (metis enter_simps(2,3))
    show "\<forall>r. sc_inSCC (scc_enter v s) r \<longrightarrow> sc_sub (scc_enter v s) r = (if sc_rep (scc_enter v s) r = r then {u. mutual S r u} else {})"
      using scc_classesD(4)[OF k] iv by auto
    show "\<forall>r u. \<not> sc_inSCC (scc_enter v s) r \<longrightarrow> u \<in> sc_sub (scc_enter v s) r \<longrightarrow>
        sc_visited (scc_enter v s) u \<and> r \<in> reachable S u \<and> sc_num (scc_enter v s) r \<le> sc_num (scc_enter v s) u"
    proof (intro allI impI)
      fix r u assume a: "\<not> sc_inSCC (scc_enter v s) r" "u \<in> sc_sub (scc_enter v s) r"
      show "sc_visited (scc_enter v s) u \<and> r \<in> reachable S u \<and> sc_num (scc_enter v s) r \<le> sc_num (scc_enter v s) u"
      proof (cases "r = v")
        case True
        then show ?thesis using a un(2) by (simp add: reachable_def)
      next
        case False
        then show ?thesis using a scc_classesD(5-7)[OF k, of r u] ne[of u] by auto
      qed
    qed
    show "\<forall>r. active (scc_enter v s) r \<longrightarrow> sc_rep (scc_enter v s) r = r \<longrightarrow> r \<in> sc_sub (scc_enter v s) r"
      using scc_classesD(13)[OF k] by (simp add: act)
    show "\<forall>r. sc_inSCC (scc_enter v s) r \<longrightarrow> (r \<in> sc_repNodes (scc_enter v s) \<longleftrightarrow> sc_rep (scc_enter v s) r = r \<and> (\<exists>u. mutual S r u \<and> u \<noteq> r))"
      using scc_classesD(8)[OF k] iv by auto
    show "\<forall>r\<in>sc_repNodes (scc_enter v s). \<not> sc_inSCC (scc_enter v s) r \<longrightarrow> (\<exists>u\<in>sc_sub (scc_enter v s) r. u \<noteq> r)"
      using scc_classesD(9)[OF k] un(2) by fastforce
    show "distinct (sc_T (scc_enter v s))" using scc_classesD(10)[OF k] by simp
    show "set (sc_T (scc_enter v s)) = {r. sc_inSCC (scc_enter v s) r \<and> sc_rep (scc_enter v s) r = r}"
      using scc_classesD(11)[OF k] iv by auto
    show "\<forall>u x. sc_inSCC (scc_enter v s) u \<longrightarrow> x \<in> set (S u) \<longrightarrow> sc_rep (scc_enter v s) u \<noteq> sc_rep (scc_enter v s) x \<longrightarrow>
        precedes (sc_T (scc_enter v s)) (sc_rep (scc_enter v s) u) (sc_rep (scc_enter v s) x)"
      using scc_classesD(12)[OF k] iv scc_coreD(7)[OF c] by (metis enter_simps(2,3,9))
  qed
qed

lemma set_rep_ok:
  assumes c: "scc_core S N s" and k: "scc_classes S s" and v: "active s v" "v \<notin> set (sc_SS s)"
    and r: "active s r" "sc_num s r \<le> sc_num s v" "r \<in> reachable S v"
  shows "scc_core S N (set_rep v r s)" "scc_classes S (set_rep v r s)"
proof -
  have vv: "sc_visited s v" "sc_visited s r" "\<not> sc_inSCC s v" "\<not> sc_inSCC s r" using v r by (simp_all add: active_def)
  show "scc_core S N (set_rep v r s)"
    unfolding scc_core_def
  proof (intro conjI)
    show "\<forall>n. \<not> sc_visited (set_rep v r s) n \<longrightarrow> sc_get (set_rep v r s) n = new_info"
    proof (intro allI impI)
      fix n assume "\<not> sc_visited (set_rep v r s) n"
      then show "sc_get (set_rep v r s) n = new_info"
        using vv scc_coreD(3)[OF c, of n] set_rep_get[of n v r s] by auto
    qed
    show "\<forall>u. active (set_rep v r s) u \<longrightarrow> active (set_rep v r s) (sc_rep (set_rep v r s) u) \<and>
        sc_num (set_rep v r s) (sc_rep (set_rep v r s) u) \<le> sc_num (set_rep v r s) u \<and> sc_rep (set_rep v r s) u \<in> reachable S u"
      using scc_coreD(8-10)[OF c] r by simp
    show "\<forall>u\<in>set (sc_SS (set_rep v r s)). active (set_rep v r s) u \<and> sc_rep (set_rep v r s) u \<noteq> u"
      using scc_coreD(11,12)[OF c] v(2) by auto
    show "\<forall>n. ahas (sc_info (set_rep v r s)) n \<longleftrightarrow> sc_visited (set_rep v r s) n" using scc_coreD(13)[OF c] vv by auto
  qed (use c in \<open>simp_all only: set_rep_simps, (unfold scc_core_def, blast)+\<close>)
  have ne: "u \<noteq> v \<and> u \<noteq> r" if "sc_inSCC s u" for u using that vv by blast
  show "scc_classes S (set_rep v r s)"
    unfolding scc_classes_def class_reps_def class_subs_def class_marks_def class_order_def
  proof (intro conjI)
    show "\<forall>u. sc_inSCC (set_rep v r s) u \<longrightarrow> mutual S u (sc_rep (set_rep v r s) u) \<and>
        (\<forall>x. mutual S u x \<longrightarrow> sc_inSCC (set_rep v r s) x \<and> sc_rep (set_rep v r s) x = sc_rep (set_rep v r s) u)"
      using scc_classesD(1-3)[OF k] ne by (metis set_rep_simps(2,3))
    show "\<forall>q. sc_inSCC (set_rep v r s) q \<longrightarrow> sc_sub (set_rep v r s) q = (if sc_rep (set_rep v r s) q = q then {u. mutual S q u} else {})"
      using scc_classesD(4)[OF k] ne by auto
    show "\<forall>q u. \<not> sc_inSCC (set_rep v r s) q \<longrightarrow> u \<in> sc_sub (set_rep v r s) q \<longrightarrow>
        sc_visited (set_rep v r s) u \<and> q \<in> reachable S u \<and> sc_num (set_rep v r s) q \<le> sc_num (set_rep v r s) u"
      using scc_classesD(5-7)[OF k] vv r by auto
    show "\<forall>q. active (set_rep v r s) q \<longrightarrow> sc_rep (set_rep v r s) q = q \<longrightarrow> q \<in> sc_sub (set_rep v r s) q"
      using scc_classesD(13)[OF k] by auto
    show "\<forall>q. sc_inSCC (set_rep v r s) q \<longrightarrow> (q \<in> sc_repNodes (set_rep v r s) \<longleftrightarrow> sc_rep (set_rep v r s) q = q \<and> (\<exists>u. mutual S q u \<and> u \<noteq> q))"
      using scc_classesD(8)[OF k] ne by auto
    show "\<forall>q\<in>sc_repNodes (set_rep v r s). \<not> sc_inSCC (set_rep v r s) q \<longrightarrow> (\<exists>u\<in>sc_sub (set_rep v r s) q. u \<noteq> q)"
    proof (intro ballI impI)
      fix q assume q: "q \<in> sc_repNodes (set_rep v r s)" "\<not> sc_inSCC (set_rep v r s) q"
      consider "v \<noteq> r" "q = r" | "q \<in> sc_repNodes s" "v = r \<or> q \<noteq> v" using q by (auto split: if_splits)
      then show "\<exists>u\<in>sc_sub (set_rep v r s) q. u \<noteq> q"
      proof cases
        case 2
        then show ?thesis using scc_classesD(9)[OF k, of q] q(2) by auto
      qed auto
    qed
    show "distinct (sc_T (set_rep v r s))" using scc_classesD(10)[OF k] by simp
    show "set (sc_T (set_rep v r s)) = {q. sc_inSCC (set_rep v r s) q \<and> sc_rep (set_rep v r s) q = q}"
      using scc_classesD(11)[OF k] ne by auto
    show "\<forall>u x. sc_inSCC (set_rep v r s) u \<longrightarrow> x \<in> set (S u) \<longrightarrow> sc_rep (set_rep v r s) u \<noteq> sc_rep (set_rep v r s) x \<longrightarrow>
        precedes (sc_T (set_rep v r s)) (sc_rep (set_rep v r s) u) (sc_rep (set_rep v r s) x)"
      using scc_classesD(12)[OF k] ne scc_coreD(7)[OF c] by (metis set_rep_simps(2,3,9))
  qed
qed

lemma push_SS_ok:
  assumes "scc_core S N s" "scc_classes S s" "active s v" "sc_rep s v \<noteq> v"
  shows "scc_core S N (s\<lparr>sc_SS := v # sc_SS s\<rparr>)" "scc_classes S (s\<lparr>sc_SS := v # sc_SS s\<rparr>)"
proof -
  let ?s = "s\<lparr>sc_SS := v # sc_SS s\<rparr>"
  have "class_reps S ?s = class_reps S s" "class_subs S ?s = class_subs S s" "class_marks S ?s = class_marks S s"
    "class_order S ?s = class_order S s"
    by (simp_all add: class_reps_def class_subs_def class_marks_def class_order_def)
  then show "scc_classes S ?s" using assms(2) by (simp add: scc_classes_def)
  have "\<forall>u\<in>set (sc_SS ?s). active ?s u \<and> sc_rep ?s u \<noteq> u" using scc_coreD(11,12)[OF assms(1)] assms(3,4) by auto
  then show "scc_core S N ?s" using assms(1) unfolding scc_core_def scc_update_simps active_simps by simp
qed

text \<open>Taking the members of a component off the stack.\<close>

definition collected :: "nat \<Rightarrow> nat list \<Rightarrow> scc \<Rightarrow> scc" where
  "collected v G s = fold (\<lambda>w s. set_rep w v (setInSCC w True s)) G s"

lemma collected_simps:
  assumes "v \<notin> set G"
  shows "sc_visited (collected v G s) u = sc_visited s u" "sc_inSCC (collected v G s) u \<longleftrightarrow> u \<in> set G \<or> sc_inSCC s u"
    "sc_rep (collected v G s) u = (if u \<in> set G then v else sc_rep s u)"
    "sc_sub (collected v G s) u = (if u = v then sc_sub s v \<union> set G else if u \<in> set G then {} else sc_sub s u)"
    "sc_num (collected v G s) = sc_num s" "sc_number (collected v G s) = sc_number s" "sc_I (collected v G s) = sc_I s"
    "sc_SS (collected v G s) = sc_SS s" "sc_T (collected v G s) = sc_T s"
    "sc_repNodes (collected v G s) = (if G = [] then sc_repNodes s else insert v (sc_repNodes s - set G))"
    "ahas (sc_info (collected v G s)) u \<longleftrightarrow> u \<in> set G \<or> G \<noteq> [] \<and> u = v \<or> ahas (sc_info s) u"
    "u \<noteq> v \<Longrightarrow> u \<notin> set G \<Longrightarrow> sc_get (collected v G s) u = sc_get s u"
proof -
  have v: "v \<notin> set G" by (rule assms)
  show "sc_num (collected v G s) = sc_num s" "sc_number (collected v G s) = sc_number s" "sc_I (collected v G s) = sc_I s"
    "sc_SS (collected v G s) = sc_SS s" "sc_T (collected v G s) = sc_T s" "sc_visited (collected v G s) u = sc_visited s u"
    unfolding collected_def by (induction G arbitrary: s) simp_all
  show "sc_inSCC (collected v G s) u \<longleftrightarrow> u \<in> set G \<or> sc_inSCC s u"
    unfolding collected_def by (induction G arbitrary: s) auto
  show "sc_rep (collected v G s) u = (if u \<in> set G then v else sc_rep s u)"
    unfolding collected_def by (induction G arbitrary: s) auto
  show "sc_sub (collected v G s) u = (if u = v then sc_sub s v \<union> set G else if u \<in> set G then {} else sc_sub s u)"
    using v unfolding collected_def by (induction G arbitrary: s) auto
  show "sc_repNodes (collected v G s) = (if G = [] then sc_repNodes s else insert v (sc_repNodes s - set G))"
    using v unfolding collected_def by (induction G arbitrary: s) auto
  show "ahas (sc_info (collected v G s)) u \<longleftrightarrow> u \<in> set G \<or> G \<noteq> [] \<and> u = v \<or> ahas (sc_info s) u"
    unfolding collected_def by (induction G arbitrary: s) auto
  show "u \<noteq> v \<Longrightarrow> u \<notin> set G \<Longrightarrow> sc_get (collected v G s) u = sc_get s u"
    unfolding collected_def by (induction G arbitrary: s) (simp_all add: set_rep_get setInSCC_get)
qed

lemma collect_eq:
  assumes "v \<notin> set G" "\<And>w. w \<in> set G \<Longrightarrow> sc_num s v < sc_num s w" "\<And>w. w \<in> set ss \<Longrightarrow> sc_num s w \<le> sc_num s v"
  shows "scc_collect v (G @ ss) s = (collected v G s)\<lparr>sc_SS := ss\<rparr>"
  using assms
proof (induction G arbitrary: s)
  case Nil
  then show ?case by (cases ss) (auto simp: collected_def sc_num_def word_le_nat_alt)
next
  case (Cons w G)
  have "\<not> sc_number s w \<le> sc_number s v" using Cons.prems(2)[of w] by (simp add: sc_num_def word_le_nat_alt)
  then show ?case using Cons.IH[of "set_rep w v (setInSCC w True s)"] Cons.prems by (simp add: collected_def)
qed

text \<open>The component of \<open>v\<close> is \<open>v\<close> with the nodes \<open>G\<close> above it on the stack.\<close>

definition component_root :: "(nat \<Rightarrow> nat list) \<Rightarrow> nat set \<Rightarrow> scc \<Rightarrow> nat \<Rightarrow> nat list \<Rightarrow> nat list \<Rightarrow> bool" where
  "component_root S N s v G ss \<longleftrightarrow> scc_core S N s \<and> scc_classes S s \<and> active s v \<and> sc_rep s v = v \<and> sc_SS s = G @ ss \<and>
     (\<forall>w\<in>set G. sc_num s v < sc_num s w) \<and> (\<forall>w\<in>set ss. sc_num s w < sc_num s v) \<and>
     (\<forall>w. active s w \<longrightarrow> sc_num s v < sc_num s w \<longrightarrow> w \<in> set G) \<and>
     (\<forall>u\<in>insert v (set G). \<forall>x\<in>set (S u). x \<in> insert v (set G) \<or> sc_inSCC s x) \<and> (\<forall>u\<in>set G. mutual S v u)"

lemma rootD:
  assumes "component_root S N s v G ss"
  shows "scc_core S N s" "scc_classes S s" "active s v" "sc_rep s v = v" "sc_SS s = G @ ss"
    "w \<in> set G \<Longrightarrow> sc_num s v < sc_num s w" "w \<in> set ss \<Longrightarrow> sc_num s w < sc_num s v"
    "active s w \<Longrightarrow> sc_num s v < sc_num s w \<Longrightarrow> w \<in> set G"
    "u \<in> insert v (set G) \<Longrightarrow> x \<in> set (S u) \<Longrightarrow> x \<in> insert v (set G) \<or> sc_inSCC s x" "u \<in> set G \<Longrightarrow> mutual S v u"
  using assms unfolding component_root_def by blast+

lemma v_notin:
  assumes root: "component_root S N s v G ss"
  shows "v \<notin> set G"
  using rootD(6)[OF root] by blast

lemma root_active:
  assumes root: "component_root S N s v G ss"
  shows "u \<in> insert v (set G) \<Longrightarrow> sc_visited s u \<and> \<not> sc_inSCC s u"
  using rootD(3)[OF root] scc_coreD(11)[OF rootD(1)[OF root], of u] rootD(5)[OF root] by (auto simp: active_def)

lemma class_iff:
  assumes root: "component_root S N s v G ss"
  shows "mutual S v u \<longleftrightarrow> u \<in> insert v (set G)"
proof
  note core = rootD(1)[OF root] and classes = rootD(2)[OF root] and v = rootD(3,4)[OF root] and stack = rootD(5)[OF root]
    and newer = rootD(6)[OF root] and older = rootD(7)[OF root] and all_newer = rootD(8)[OF root] and closed = rootD(9)[OF root]
    and members = rootD(10)[OF root]
  note inactive = root_active[OF root]
  assume m: "mutual S v u"
  have "u \<in> insert v (set G) \<union> {u. sc_inSCC s u}"
  proof (rule closed_reachable[of v])
    show "u \<in> reachable S v" using m by (simp add: mutual_def)
    show "y \<in> insert v (set G) \<union> {u. sc_inSCC s u}" if "x \<in> insert v (set G) \<union> {u. sc_inSCC s u}" "y \<in> set (S x)" for x y
      using that closed[of x y] scc_coreD(7)[OF core, of x y] by blast
  qed simp
  moreover have "\<not> sc_inSCC s u"
    using inSCC_reachable[OF core, of u v] m inactive[of v] by (auto simp: mutual_def)
  ultimately show "u \<in> insert v (set G)" by simp
qed (use rootD(10)[OF root] in auto)

lemma not_older:
  assumes root: "component_root S N s v G ss"
  shows "active s u \<Longrightarrow> u \<notin> insert v (set G) \<Longrightarrow> sc_rep s u \<notin> insert v (set G)"
proof
  note core = rootD(1)[OF root] and classes = rootD(2)[OF root] and v = rootD(3,4)[OF root] and stack = rootD(5)[OF root]
    and newer = rootD(6)[OF root] and older = rootD(7)[OF root] and all_newer = rootD(8)[OF root] and closed = rootD(9)[OF root]
    and members = rootD(10)[OF root]
  assume u: "active s u" "u \<notin> insert v (set G)" and r: "sc_rep s u \<in> insert v (set G)"
  have "sc_num s v \<le> sc_num s u" using r newer scc_coreD(9)[OF core u(1)] by force
  moreover have "sc_num s v \<noteq> sc_num s u"
    using inj_onD[OF scc_coreD(5)[OF core], of v u] u v(1) by (auto simp: active_def)
  ultimately show False using all_newer[OF u(1)] u(2) by simp
qed

definition left_component :: "nat \<Rightarrow> nat list \<Rightarrow> nat list \<Rightarrow> scc \<Rightarrow> scc" where
  "left_component v G ss s = (collected v G (setInSCC v True s))\<lparr>sc_SS := ss, sc_T := v # sc_T s\<rparr>"

lemma leave_eq:
  assumes root: "component_root S N s v G ss"
  shows "scc_leave v s = left_component v G ss s"
proof -
  note core = rootD(1)[OF root] and classes = rootD(2)[OF root] and v = rootD(3,4)[OF root] and stack = rootD(5)[OF root]
    and newer = rootD(6)[OF root] and older = rootD(7)[OF root] and all_newer = rootD(8)[OF root] and closed = rootD(9)[OF root]
    and members = rootD(10)[OF root]
  note v_notin = v_notin[OF root]
  have "scc_collect v (G @ ss) (setInSCC v True s) = (collected v G (setInSCC v True s))\<lparr>sc_SS := ss\<rparr>"
    by (rule collect_eq[OF v_notin]) (use newer older in \<open>auto simp: less_imp_le\<close>)
  then show ?thesis using v(2) stack by (simp add: scc_leave_def left_component_def collected_simps[OF v_notin])
qed

lemma left_simps:
  assumes root: "component_root S N s v G ss"
  shows
  "sc_visited (left_component v G ss s) u = sc_visited s u" "sc_inSCC (left_component v G ss s) u \<longleftrightarrow> u \<in> insert v (set G) \<or> sc_inSCC s u"
  "sc_rep (left_component v G ss s) u = (if u \<in> insert v (set G) then v else sc_rep s u)"
  "sc_sub (left_component v G ss s) u = (if u = v then sc_sub s v \<union> set G else if u \<in> set G then {} else sc_sub s u)"
  "sc_num (left_component v G ss s) = sc_num s" "sc_I (left_component v G ss s) = sc_I s" "sc_SS (left_component v G ss s) = ss" "sc_T (left_component v G ss s) = v # sc_T s"
  "sc_repNodes (left_component v G ss s) = (if G = [] then sc_repNodes s else insert v (sc_repNodes s - set G))"
  "ahas (sc_info (left_component v G ss s)) u \<longleftrightarrow> u \<in> insert v (set G) \<or> ahas (sc_info s) u"
  "u \<notin> insert v (set G) \<Longrightarrow> sc_get (left_component v G ss s) u = sc_get s u"
  "active (left_component v G ss s) u \<longleftrightarrow> active s u \<and> u \<notin> insert v (set G)"
  using rootD(4)[OF root] by (auto simp: left_component_def collected_simps[OF v_notin[OF root]] active_def setInSCC_get)

lemma left_core:
  assumes root: "component_root S N s v G ss"
  shows "scc_core S N (left_component v G ss s)"
  unfolding scc_core_def
proof (intro conjI)
  note core = rootD(1)[OF root] and classes = rootD(2)[OF root] and v = rootD(3,4)[OF root] and stack = rootD(5)[OF root]
    and newer = rootD(6)[OF root] and older = rootD(7)[OF root] and all_newer = rootD(8)[OF root] and closed = rootD(9)[OF root]
    and members = rootD(10)[OF root]
  note inactive = root_active[OF root] and left_simps = left_simps[OF root]
  show "\<forall>n. sc_visited (left_component v G ss s) n \<longrightarrow> n \<in> N" unfolding left_simps using scc_coreD(1)[OF core] by blast
  show "\<forall>n. sc_inSCC (left_component v G ss s) n \<longrightarrow> sc_visited (left_component v G ss s) n" unfolding left_simps using scc_coreD(2)[OF core] inactive by blast
  show "\<forall>n. \<not> sc_visited (left_component v G ss s) n \<longrightarrow> sc_get (left_component v G ss s) n = new_info"
  proof (intro allI impI)
    fix n assume "\<not> sc_visited (left_component v G ss s) n"
    then show "sc_get (left_component v G ss s) n = new_info"
      using scc_coreD(3)[OF core, of n] left_simps(11)[of n] inactive[of n] unfolding left_simps(1) by metis
  qed
  show "\<forall>n. sc_visited (left_component v G ss s) n \<longrightarrow> sc_num (left_component v G ss s) n \<le> unat (sc_I (left_component v G ss s))" unfolding left_simps using scc_coreD(4)[OF core] by blast
  show "inj_on (sc_num (left_component v G ss s)) {n. sc_visited (left_component v G ss s) n}" unfolding left_simps by (rule scc_coreD(5)[OF core])
  show "card {n. sc_visited (left_component v G ss s) n} = unat (sc_I (left_component v G ss s))" unfolding left_simps by (rule scc_coreD(6)[OF core])
  show "\<forall>u x. sc_inSCC (left_component v G ss s) u \<longrightarrow> x \<in> set (S u) \<longrightarrow> sc_inSCC (left_component v G ss s) x"
    unfolding left_simps using closed scc_coreD(7)[OF core] by blast
  show "\<forall>u. active (left_component v G ss s) u \<longrightarrow> active (left_component v G ss s) (sc_rep (left_component v G ss s) u) \<and> sc_num (left_component v G ss s) (sc_rep (left_component v G ss s) u) \<le> sc_num (left_component v G ss s) u \<and> sc_rep (left_component v G ss s) u \<in> reachable S u"
  proof (intro allI impI)
    fix u assume "active (left_component v G ss s) u"
    then have u: "active s u" "u \<notin> insert v (set G)" unfolding left_simps by blast+
    have e: "sc_rep (left_component v G ss s) u = sc_rep s u" unfolding left_simps by (rule if_not_P[OF u(2)])
    show "active (left_component v G ss s) (sc_rep (left_component v G ss s) u) \<and>
      sc_num (left_component v G ss s) (sc_rep (left_component v G ss s) u) \<le> sc_num (left_component v G ss s) u \<and>
      sc_rep (left_component v G ss s) u \<in> reachable S u"
      unfolding e left_simps(5,12) using scc_coreD(8-10)[OF core u(1)] not_older[OF root u] by blast
  qed
  show "\<forall>u\<in>set (sc_SS (left_component v G ss s)). active (left_component v G ss s) u \<and> sc_rep (left_component v G ss s) u \<noteq> u"
  proof
    fix u assume "u \<in> set (sc_SS (left_component v G ss s))"
    then have u: "u \<in> set ss" by (simp only: left_simps)
    then have "u \<notin> insert v (set G)" using older[OF u] newer[of u] by auto
    then show "active (left_component v G ss s) u \<and> sc_rep (left_component v G ss s) u \<noteq> u"
      using scc_coreD(11,12)[OF core, of u] u stack unfolding left_simps by simp
  qed
  show "\<forall>n. ahas (sc_info (left_component v G ss s)) n \<longleftrightarrow> sc_visited (left_component v G ss s) n" unfolding left_simps using scc_coreD(13)[OF core] inactive by blast
qed

lemma left_sub_v:
  assumes root: "component_root S N s v G ss"
  shows "sc_sub s v \<union> set G = {u. mutual S v u}"
proof -
  note core = rootD(1)[OF root] and classes = rootD(2)[OF root] and v = rootD(3,4)[OF root] and stack = rootD(5)[OF root]
    and newer = rootD(6)[OF root] and older = rootD(7)[OF root] and all_newer = rootD(8)[OF root] and closed = rootD(9)[OF root]
    and members = rootD(10)[OF root]
  note inactive = root_active[OF root]
  have "u \<in> insert v (set G)" if "u \<in> sc_sub s v" for u
  proof -
    have nv: "\<not> sc_inSCC s v" using inactive by simp
    note u = scc_classesD(5-7)[OF classes nv that]
    have "\<not> sc_inSCC s u" using inSCC_reachable[OF core _ u(2)] nv by blast
    then have a: "active s u" using u(1) by (simp add: active_def)
    show ?thesis
    proof (cases "sc_num s v = sc_num s u")
      case True
      then show ?thesis using inj_onD[OF scc_coreD(5)[OF core], of v u] u(1) v(1) by (simp add: active_def)
    next
      case False
      then show ?thesis using all_newer[OF a] u(3) by simp
    qed
  qed
  moreover have "v \<in> sc_sub s v" by (rule scc_classesD(13)[OF classes v])
  ultimately show ?thesis by (simp only: class_iff[OF root]) auto
qed

lemma left_classes:
  assumes root: "component_root S N s v G ss"
  shows "scc_classes S (left_component v G ss s)"
  unfolding scc_classes_def
proof (intro conjI)
  note core = rootD(1)[OF root] and classes = rootD(2)[OF root] and v = rootD(3,4)[OF root] and stack = rootD(5)[OF root]
    and newer = rootD(6)[OF root] and older = rootD(7)[OF root] and all_newer = rootD(8)[OF root] and closed = rootD(9)[OF root]
    and members = rootD(10)[OF root]
  note inactive = root_active[OF root] and left_simps = left_simps[OF root] and class_iff = class_iff[OF root]
    and v_notin = v_notin[OF root] and left_sub_v = left_sub_v[OF root]
  have old: "u \<notin> insert v (set G)" if "sc_inSCC s u" for u using that inactive by blast
  have same: "sc_rep (left_component v G ss s) u = sc_rep s u" if "sc_inSCC s u" for u unfolding left_simps by (rule if_not_P[OF old[OF that]])
  show "class_reps S (left_component v G ss s)"
    unfolding class_reps_def
  proof (intro allI impI)
    fix u assume "sc_inSCC (left_component v G ss s) u"
    then consider "u \<in> insert v (set G)" | "sc_inSCC s u" by (auto simp only: left_simps)
    then show "mutual S u (sc_rep (left_component v G ss s) u) \<and> (\<forall>x. mutual S u x \<longrightarrow> sc_inSCC (left_component v G ss s) x \<and> sc_rep (left_component v G ss s) x = sc_rep (left_component v G ss s) u)"
    proof cases
      case 1
      then have m: "mutual S v u" using class_iff by blast
      have "x \<in> insert v (set G)" if "mutual S u x" for x using mutual_trans[OF m that] class_iff by blast
      then have "sc_inSCC (left_component v G ss s) x \<and> sc_rep (left_component v G ss s) x = v" if "mutual S u x" for x
        using that unfolding left_simps(2,3) by (metis if_P)
      moreover have "sc_rep (left_component v G ss s) u = v" unfolding left_simps(3) by (rule if_P[OF 1])
      moreover have "mutual S u v" using m mutual_sym by blast
      ultimately show ?thesis by metis
    next
      case 2
      have "sc_inSCC (left_component v G ss s) x \<and> sc_rep (left_component v G ss s) x = sc_rep s u" if "mutual S u x" for x
        using scc_classesD(2,3)[OF classes 2 that] same[of x] unfolding left_simps(2) by auto
      then show ?thesis using same[OF 2] scc_classesD(1)[OF classes 2] by metis
    qed
  qed
  show "class_subs S (left_component v G ss s)"
    unfolding class_subs_def
  proof (intro conjI allI impI)
    fix r assume "sc_inSCC (left_component v G ss s) r"
    then consider "r = v" | "r \<in> set G" | "sc_inSCC s r" by (auto simp only: left_simps)
    then show "sc_sub (left_component v G ss s) r = (if sc_rep (left_component v G ss s) r = r then {u. mutual S r u} else {})"
    proof cases
      case 1
      then show ?thesis unfolding left_simps using left_sub_v by simp
    next
      case 2
      then show ?thesis unfolding left_simps using v_notin by auto
    next
      case 3
      then show ?thesis using old[OF 3] scc_classesD(4)[OF classes 3] unfolding left_simps by simp
    qed
  next
    fix r u assume a: "\<not> sc_inSCC (left_component v G ss s) r" "u \<in> sc_sub (left_component v G ss s) r"
    then have "\<not> sc_inSCC s r" "u \<in> sc_sub s r" by (auto simp: left_simps split: if_splits)
    then show "sc_visited (left_component v G ss s) u" "r \<in> reachable S u" "sc_num (left_component v G ss s) r \<le> sc_num (left_component v G ss s) u"
      unfolding left_simps using scc_classesD(5-7)[OF classes] by blast+
  next
    fix r assume "active (left_component v G ss s) r" "sc_rep (left_component v G ss s) r = r"
    then show "r \<in> sc_sub (left_component v G ss s) r" unfolding left_simps using scc_classesD(13)[OF classes, of r] by (simp split: if_splits)
  qed
  show "class_marks S (left_component v G ss s)"
    unfolding class_marks_def
  proof (intro conjI allI ballI impI)
    fix r assume "sc_inSCC (left_component v G ss s) r"
    then consider "r = v" | "r \<in> set G" | "sc_inSCC s r" by (auto simp only: left_simps)
    then show "r \<in> sc_repNodes (left_component v G ss s) \<longleftrightarrow> sc_rep (left_component v G ss s) r = r \<and> (\<exists>u. mutual S r u \<and> u \<noteq> r)"
    proof cases
      case 1
      have "v \<notin> sc_repNodes s" if "G = []"
        using scc_classesD(9)[OF classes, of v] left_sub_v class_iff that inactive by force
      moreover have "(\<exists>u. mutual S v u \<and> u \<noteq> v) \<longleftrightarrow> G \<noteq> []" using class_iff v_notin by (cases G) auto
      ultimately show ?thesis using 1 unfolding left_simps by auto
    next
      case 2
      then show ?thesis unfolding left_simps using v_notin by auto
    next
      case 3
      then show ?thesis using old[OF 3] scc_classesD(8)[OF classes 3] unfolding left_simps by auto
    qed
  next
    fix r assume "r \<in> sc_repNodes (left_component v G ss s)" "\<not> sc_inSCC (left_component v G ss s) r"
    then have "r \<in> sc_repNodes s" "\<not> sc_inSCC s r" "r \<notin> insert v (set G)" by (auto simp: left_simps split: if_splits)
    then show "\<exists>u\<in>sc_sub (left_component v G ss s) r. u \<noteq> r" unfolding left_simps using scc_classesD(9)[OF classes] by simp
  qed
  show "class_order S (left_component v G ss s)"
    unfolding class_order_def
  proof (intro conjI allI impI)
    show "distinct (sc_T (left_component v G ss s))" unfolding left_simps using scc_classesD(10,11)[OF classes] inactive by auto
    show "set (sc_T (left_component v G ss s)) = {r. sc_inSCC (left_component v G ss s) r \<and> sc_rep (left_component v G ss s) r = r}"
      unfolding left_simps using scc_classesD(11)[OF classes] old v_notin by auto
    fix u x assume u: "sc_inSCC (left_component v G ss s) u" "x \<in> set (S u)" and ne: "sc_rep (left_component v G ss s) u \<noteq> sc_rep (left_component v G ss s) x"
    show "precedes (sc_T (left_component v G ss s)) (sc_rep (left_component v G ss s) u) (sc_rep (left_component v G ss s) x)"
    proof (cases "sc_inSCC s u")
      case True
      then have "sc_inSCC s x" using scc_coreD(7)[OF core _ u(2)] by blast
      then have "precedes (sc_T s) (sc_rep s u) (sc_rep s x)" using scc_classesD(12)[OF classes True u(2)] ne same True by simp
      then show ?thesis using same True \<open>sc_inSCC s x\<close> precedes_append2[of "sc_T s" _ _ "[v]"] unfolding left_simps(8) by simp
    next
      case False
      then have i: "u \<in> insert v (set G)" using u(1) by (auto simp only: left_simps)
      then have "x \<notin> insert v (set G)" using ne unfolding left_simps(3) by (metis if_P)
      then have x: "sc_inSCC s x" using closed[OF i u(2)] by blast
      then have "sc_inSCC s (sc_rep s x)" "sc_rep s (sc_rep s x) = sc_rep s x"
        using scc_classesD(1-3)[OF classes x] by blast+
      then have "sc_rep s x \<in> set (sc_T s)" using scc_classesD(11)[OF classes] by simp
      then show ?thesis using precedes_parts[of v "[v]" "sc_rep s x" "sc_T s"] i same[OF x] by (simp add: left_simps)
    qed
  qed
qed

subsection \<open>Visiting a node\<close>

text \<open>From a state to a later one: \<open>G\<close> are the nodes that have become active; only those in \<open>X\<close> of the old active nodes
  may have another representative.\<close>

definition scc_run :: "(nat \<Rightarrow> nat list) \<Rightarrow> nat set \<Rightarrow> nat set \<Rightarrow> scc \<Rightarrow> scc \<Rightarrow> nat list \<Rightarrow> bool" where
  "scc_run S N X s s' G \<longleftrightarrow> scc_core S N s' \<and> scc_classes S s' \<and> sc_SS s' = G @ sc_SS s \<and>
     (\<forall>n. sc_visited s n \<longrightarrow> sc_visited s' n \<and> sc_num s' n = sc_num s n) \<and>
     (\<forall>n. active s' n \<longleftrightarrow> active s n \<or> n \<in> set G) \<and> (\<forall>n\<in>set G. \<not> sc_visited s n) \<and>
     (\<forall>n. sc_visited s' n \<longrightarrow> \<not> sc_visited s n \<longrightarrow> unat (sc_I s) < sc_num s' n) \<and>
     (\<forall>u. active s u \<longrightarrow> u \<notin> X \<longrightarrow> sc_rep s' u = sc_rep s u) \<and>
     (\<forall>u\<in>set G. \<forall>x\<in>set (S u). sc_visited s' x)"

lemma scc_runD:
  assumes "scc_run S N X s s' G"
  shows "scc_core S N s'" "scc_classes S s'" "sc_SS s' = G @ sc_SS s" "sc_visited s n \<Longrightarrow> sc_visited s' n"
    "sc_visited s n \<Longrightarrow> sc_num s' n = sc_num s n" "active s' n \<longleftrightarrow> active s n \<or> n \<in> set G" "n \<in> set G \<Longrightarrow> \<not> sc_visited s n"
    "sc_visited s' n \<Longrightarrow> \<not> sc_visited s n \<Longrightarrow> unat (sc_I s) < sc_num s' n"
    "active s u \<Longrightarrow> u \<notin> X \<Longrightarrow> sc_rep s' u = sc_rep s u" "u \<in> set G \<Longrightarrow> x \<in> set (S u) \<Longrightarrow> sc_visited s' x"
  using assms unfolding scc_run_def by blast+

lemma scc_run_refl: "scc_core S N s \<Longrightarrow> scc_classes S s \<Longrightarrow> scc_run S N X s s []"
  by (simp add: scc_run_def)

lemma core_finite: "scc_core S N s \<Longrightarrow> finite N \<Longrightarrow> finite {n. sc_visited s n}"
  by (rule finite_subset[of _ N]) (auto dest: scc_coreD(1))

lemma active_visited: "active s n \<Longrightarrow> sc_visited s n"
  by (simp add: active_def)

lemma scc_run_number:
  assumes "scc_run S N X s s' G" "finite N" "scc_core S N s"
  shows "unat (sc_I s) \<le> unat (sc_I s')"
  unfolding scc_coreD(6)[OF assms(3), symmetric] scc_coreD(6)[OF scc_runD(1)[OF assms(1)], symmetric]
  using card_mono[OF core_finite[OF scc_runD(1)[OF assms(1)] assms(2)], of "{n. sc_visited s n}"] scc_runD(4)[OF assms(1)] by blast

lemma scc_run_trans:
  assumes a: "scc_run S N X s s1 G" and b: "scc_run S N {} s1 s2 K" and c: "scc_core S N s" "finite N"
  shows "scc_run S N X s s2 (K @ G)"
  unfolding scc_run_def
proof (intro conjI allI impI ballI)
  show "scc_core S N s2" "scc_classes S s2" by (rule scc_runD[OF b])+
  show "sc_SS s2 = (K @ G) @ sc_SS s" using scc_runD(3)[OF a] scc_runD(3)[OF b] by simp
  show "active s2 n \<longleftrightarrow> active s n \<or> n \<in> set (K @ G)" for n using scc_runD(6)[OF a, of n] scc_runD(6)[OF b, of n] by auto
  show "\<not> sc_visited s n" if "n \<in> set (K @ G)" for n
    using that scc_runD(7)[OF a, of n] scc_runD(7)[OF b, of n] scc_runD(4)[OF a, of n] by auto
  show "sc_visited s2 n" "sc_num s2 n = sc_num s n" if "sc_visited s n" for n
    using scc_runD(4,5)[OF a that] scc_runD(4,5)[OF b, of n] by simp_all
  show "unat (sc_I s) < sc_num s2 n" if "sc_visited s2 n" "\<not> sc_visited s n" for n
  proof (cases "sc_visited s1 n")
    case True
    then show ?thesis using scc_runD(8)[OF a True that(2)] scc_runD(5)[OF b True] by simp
  next
    case False
    then show ?thesis using scc_runD(8)[OF b that(1)] scc_run_number[OF a c(2,1)] by simp
  qed
  show "sc_rep s2 u = sc_rep s u" if "active s u" "u \<notin> X" for u
    using scc_runD(9)[OF a that] scc_runD(9)[OF b, of u] scc_runD(6)[OF a, of u] that(1) by simp
  show "sc_visited s2 x" if "u \<in> set (K @ G)" "x \<in> set (S u)" for u x
    using that scc_runD(10)[OF a, of u x] scc_runD(10)[OF b, of u x] scc_runD(4)[OF b, of x] by auto
qed

text \<open>What \<open>visit\<close> promises: a node that stays active has a representative no newer than what its active nodes lead to.\<close>

definition scc_visit_post :: "(nat \<Rightarrow> nat list) \<Rightarrow> nat set \<Rightarrow> nat \<Rightarrow> scc \<Rightarrow> scc \<Rightarrow> bool" where
  "scc_visit_post S N v s s' \<longleftrightarrow> (\<exists>G. scc_run S N {} s s' G \<and> sc_visited s' v \<and> (G \<noteq> [] \<longrightarrow> v \<in> set G) \<and>
     (\<forall>u\<in>set G. \<forall>x\<in>set (S u). active s x \<longrightarrow> sc_num s' (sc_rep s' v) \<le> sc_num s x) \<and>
     (\<forall>n. sc_visited s' n \<longrightarrow> \<not> sc_visited s n \<longrightarrow> n \<in> reachable S v))"

text \<open>The loop over the successors of \<open>v\<close>.\<close>

definition scc_loop_inv :: "(nat \<Rightarrow> nat list) \<Rightarrow> nat set \<Rightarrow> nat \<Rightarrow> scc \<Rightarrow> nat list \<Rightarrow> scc \<Rightarrow> bool" where
  "scc_loop_inv S N v s0 ys s \<longleftrightarrow> (\<exists>G. scc_run S N {v} s0 s G \<and> (\<forall>y\<in>set ys. sc_visited s y) \<and>
     (\<forall>x. active s0 x \<longrightarrow> x \<in> set ys \<or> (\<exists>u\<in>set G. x \<in> set (S u)) \<longrightarrow> sc_num s (sc_rep s v) \<le> sc_num s0 x) \<and>
     (\<forall>n. sc_visited s n \<longrightarrow> \<not> sc_visited s0 n \<longrightarrow> n \<in> reachable S v))"

text \<open>Taking over the representative of an active successor.\<close>

lemma update_rep:
  assumes r: "scc_run S N {v} s0 s G" and v: "active s0 v" "v \<notin> set (sc_SS s0)" and y: "active s y" "y \<in> set (S v)"
  defines "q \<equiv> (if sc_number s (sc_rep s v) < sc_number s (sc_rep s y) then sc_rep s v else sc_rep s y)"
  shows "scc_run S N {v} s0 (set_rep v q s) G" "sc_num s q \<le> sc_num s (sc_rep s v)" "sc_num s q \<le> sc_num s (sc_rep s y)"
proof -
  note c = scc_runD(1)[OF r]
  have va: "active s v" using scc_runD(6)[OF r, of v] v(1) by simp
  show le: "sc_num s q \<le> sc_num s (sc_rep s v)" "sc_num s q \<le> sc_num s (sc_rep s y)"
    unfolding q_def by (auto simp: sc_num_def word_less_nat_alt)
  have vS: "v \<notin> set (sc_SS s)" using scc_runD(3,7)[OF r] v active_visited[OF v(1)] by auto
  have q: "active s q" unfolding q_def using scc_coreD(8)[OF c va] scc_coreD(8)[OF c y(1)] by simp
  have qv: "sc_num s q \<le> sc_num s v" using le(1) scc_coreD(9)[OF c va] by simp
  have "y \<in> reachable S v" using y(2) by (auto simp: reachable_def)
  then have qr: "q \<in> reachable S v"
    unfolding q_def using scc_coreD(10)[OF c va] reachable_trans[OF _ scc_coreD(10)[OF c y(1)]] by simp
  note ok = set_rep_ok[OF c scc_runD(2)[OF r] va vS q qv qr]
  show "scc_run S N {v} s0 (set_rep v q s) G"
    using r ok unfolding scc_run_def by simp
qed

lemma scc_child_ok:
  assumes s0: "scc_core S N s0" "finite N" and v: "active s0 v" "v \<notin> set (sc_SS s0)"
    and l: "scc_loop_inv S N v s0 ys s" and y: "y \<in> set (S v)"
    and vis: "\<not> sc_visited s y \<Longrightarrow> wp (vis y s) (scc_visit_post S N y s)"
  shows "wp (scc_child vis v y s) (scc_loop_inv S N v s0 (ys @ [y]))"
proof -
  obtain G where r: "scc_run S N {v} s0 s G" and ys: "\<forall>y\<in>set ys. sc_visited s y"
    and lo: "\<And>x. active s0 x \<Longrightarrow> x \<in> set ys \<or> (\<exists>u\<in>set G. x \<in> set (S u)) \<Longrightarrow> sc_num s (sc_rep s v) \<le> sc_num s0 x"
    and re: "\<And>n. sc_visited s n \<Longrightarrow> \<not> sc_visited s0 n \<Longrightarrow> n \<in> reachable S v"
    using l unfolding scc_loop_inv_def by blast
  have yr: "y \<in> reachable S v" using y by (auto simp: reachable_def)
  obtain t K where t: "(if sc_visited s y then Some s else vis y s) = Some t" and rt: "scc_run S N {v} s0 t (K @ G)"
    and yt: "sc_visited t y" and up: "\<And>x. sc_visited s x \<Longrightarrow> sc_visited t x"
    and same: "sc_rep t v = sc_rep s v" "sc_num t (sc_rep s v) = sc_num s (sc_rep s v)" "\<And>x. active s0 x \<Longrightarrow> sc_num t x = sc_num s0 x"
    and K: "\<And>u x. u \<in> set K \<Longrightarrow> x \<in> set (S u) \<Longrightarrow> active s0 x \<Longrightarrow> sc_num t (sc_rep t y) \<le> sc_num s0 x" "K \<noteq> [] \<Longrightarrow> active t y"
    and re': "\<And>n. sc_visited t n \<Longrightarrow> \<not> sc_visited s0 n \<Longrightarrow> n \<in> reachable S v"
  proof (cases "sc_visited s y")
    case True
    have "sc_num s x = sc_num s0 x" if "active s0 x" for x using scc_runD(5)[OF r active_visited[OF that]] .
    then show ?thesis using that[of s "[]"] True r re by simp
  next
    case False
    obtain t K where t: "vis y s = Some t" and b: "scc_run S N {} s t K" "sc_visited t y" "K \<noteq> [] \<longrightarrow> y \<in> set K"
      and K: "\<forall>u\<in>set K. \<forall>x\<in>set (S u). active s x \<longrightarrow> sc_num t (sc_rep t y) \<le> sc_num s x"
      and R: "\<forall>n. sc_visited t n \<longrightarrow> \<not> sc_visited s n \<longrightarrow> n \<in> reachable S y"
      using vis[OF False] unfolding wp_iff scc_visit_post_def by blast
    have va: "active s v" using scc_runD(6)[OF r, of v] v(1) by simp
    have act: "active s x" if "active s0 x" for x using scc_runD(6)[OF r, of x] that by simp
    have num: "sc_num s x = sc_num s0 x" if "active s0 x" for x using scc_runD(5)[OF r active_visited[OF that]] .
    show ?thesis
    proof (rule that[of t K])
      show "(if sc_visited s y then Some s else vis y s) = Some t" using t False by simp
      show "scc_run S N {v} s0 t (K @ G)" by (rule scc_run_trans[OF r b(1) s0])
      show "sc_visited t y" by (rule b(2))
      show "sc_visited t x" if "sc_visited s x" for x using scc_runD(4)[OF b(1) that] .
      show "sc_rep t v = sc_rep s v" using scc_runD(9)[OF b(1) va] by simp
      show "sc_num t (sc_rep s v) = sc_num s (sc_rep s v)"
        using scc_runD(5)[OF b(1) active_visited[OF scc_coreD(8)[OF scc_runD(1)[OF r] va]]] .
      show "sc_num t x = sc_num s0 x" if "active s0 x" for x
        using scc_runD(5)[OF b(1) active_visited[OF act[OF that]]] num[OF that] by simp
      show "sc_num t (sc_rep t y) \<le> sc_num s0 x" if "u \<in> set K" "x \<in> set (S u)" "active s0 x" for u x
        using K that act[OF that(3)] num[OF that(3)] by fastforce
      show "active t y" if "K \<noteq> []" using b(3) that scc_runD(6)[OF b(1), of y] by blast
      show "n \<in> reachable S v" if "sc_visited t n" "\<not> sc_visited s0 n" for n
        using re[of n] R that reachable_trans[OF yr] by blast
    qed
  qed
  have child: "scc_child vis v y s = (if sc_inSCC t y then Some t
      else Some (set_rep v (if sc_number t (sc_rep t v) < sc_number t (sc_rep t y) then sc_rep t v else sc_rep t y) t))"
    using t by (simp add: scc_child_def Let_def)
  have Y: "\<forall>z\<in>set (ys @ [y]). sc_visited t z" using ys up yt by auto
  show ?thesis
  proof (cases "sc_inSCC t y")
    case True
    then have ya: "\<not> active t y" by (simp add: active_def)
    then have "K = []" using K(2) by blast
    have "\<not> active s0 y" using ya scc_runD(6)[OF rt, of y] by blast
    then have "scc_loop_inv S N v s0 (ys @ [y]) t"
      unfolding scc_loop_inv_def using rt Y lo same(1,2) re' \<open>K = []\<close> by (intro exI[of _ G]) auto
    then show ?thesis using child True by simp
  next
    case False
    then have ya: "active t y" using yt by (simp add: active_def)
    let ?q = "if sc_number t (sc_rep t v) < sc_number t (sc_rep t y) then sc_rep t v else sc_rep t y"
    note u = update_rep[OF rt v ya y]
    have "sc_num t ?q \<le> sc_num s0 x" if xa: "active s0 x" and xl: "x \<in> set (ys @ [y]) \<or> (\<exists>u\<in>set (K @ G). x \<in> set (S u))" for x
    proof -
      consider "x \<in> set ys \<or> (\<exists>u\<in>set G. x \<in> set (S u))" | "x = y" | "\<exists>u\<in>set K. x \<in> set (S u)"
        using xl by auto
      then show ?thesis
      proof cases
        case 1
        then show ?thesis using lo[OF xa 1] u(2) same(1,2) by simp
      next
        case 2
        then have "sc_num t (sc_rep t y) \<le> sc_num s0 x" using scc_coreD(9)[OF scc_runD(1)[OF rt] ya] same(3)[OF xa] by simp
        then show ?thesis using u(3) by simp
      next
        case 3
        then have "sc_num t (sc_rep t y) \<le> sc_num s0 x" using K(1) xa by blast
        then show ?thesis using u(3) by simp
      qed
    qed
    then have "scc_loop_inv S N v s0 (ys @ [y]) (set_rep v ?q t)"
      unfolding scc_loop_inv_def using u(1) Y re' by (intro exI[of _ "K @ G"]) simp
    then show ?thesis using child False by simp
  qed
qed

text \<open>The state after the loop, seen from the one before \<open>v\<close> was entered.\<close>

lemma loop_end:
  assumes c: "scc_core S N s" "scc_classes S s" and v: "v \<in> N" "\<not> sc_visited s v" and N: "finite N" "card N < 2 ^ 32"
    and l: "scc_loop_inv S N v (scc_enter v s) (S v) s1"
  obtains G where "scc_core S N s1" "scc_classes S s1" "sc_SS s1 = G @ sc_SS s" "\<And>n. sc_visited s n \<Longrightarrow> sc_visited s1 n \<and> sc_num s1 n = sc_num s n"
    "\<And>n. active s1 n \<longleftrightarrow> n = v \<or> active s n \<or> n \<in> set G" "\<And>n. n \<in> set G \<Longrightarrow> \<not> sc_visited s n \<and> n \<noteq> v"
    "sc_num s1 v = unat (sc_I s) + 1" "\<And>n. sc_visited s1 n \<Longrightarrow> \<not> sc_visited s n \<Longrightarrow> unat (sc_I s) < sc_num s1 n"
    "\<And>n. n \<in> set G \<Longrightarrow> unat (sc_I s) + 1 < sc_num s1 n" "\<And>u. active s u \<Longrightarrow> sc_rep s1 u = sc_rep s u"
    "\<And>u x. u \<in> insert v (set G) \<Longrightarrow> x \<in> set (S u) \<Longrightarrow> sc_visited s1 x"
    "\<And>u x. u \<in> insert v (set G) \<Longrightarrow> x \<in> set (S u) \<Longrightarrow> active s x \<Longrightarrow> sc_num s1 (sc_rep s1 v) \<le> sc_num s x"
    "\<And>n. sc_visited s1 n \<Longrightarrow> \<not> sc_visited s n \<Longrightarrow> n \<in> reachable S v"
proof -
  let ?s0 = "scc_enter v s"
  note e = enter_ok'[OF c v N]
  obtain G where r: "scc_run S N {v} ?s0 s1 G" and ys: "\<forall>y\<in>set (S v). sc_visited s1 y"
    and lo: "\<forall>x. active ?s0 x \<longrightarrow> x \<in> set (S v) \<or> (\<exists>u\<in>set G. x \<in> set (S u)) \<longrightarrow> sc_num s1 (sc_rep s1 v) \<le> sc_num ?s0 x"
    and re: "\<forall>n. sc_visited s1 n \<longrightarrow> \<not> sc_visited ?s0 n \<longrightarrow> n \<in> reachable S v"
    using l unfolding scc_loop_inv_def by blast
  have ne: "n \<noteq> v" if "sc_visited s n" for n using that v(2) by blast
  have nea: "n \<noteq> v" if "active s n" for n using ne active_visited[OF that] .
  show ?thesis
  proof (rule that[of G])
    show "scc_core S N s1" "scc_classes S s1" by (rule scc_runD[OF r])+
    show "sc_SS s1 = G @ sc_SS s" using scc_runD(3)[OF r] by simp
    show "sc_visited s1 n \<and> sc_num s1 n = sc_num s n" if "sc_visited s n" for n
      using scc_runD(4,5)[OF r, of n] that ne[OF that] by simp
    show "active s1 n \<longleftrightarrow> n = v \<or> active s n \<or> n \<in> set G" for n using scc_runD(6)[OF r, of n] e(4)[of n] by blast
    show G: "\<not> sc_visited s n \<and> n \<noteq> v" if "n \<in> set G" for n using scc_runD(7)[OF r that] by simp
    show num: "sc_num s1 v = unat (sc_I s) + 1" using scc_runD(5)[OF r, of v] e(1) by simp
    show "unat (sc_I s) < sc_num s1 n" if "sc_visited s1 n" "\<not> sc_visited s n" for n
      using scc_runD(8)[OF r that(1)] that(2) num e(1) by (cases "n = v") simp_all
    show "unat (sc_I s) + 1 < sc_num s1 n" if "n \<in> set G" for n
    proof -
      have "active s1 n" using scc_runD(6)[OF r, of n] that by blast
      from scc_runD(8)[OF r active_visited[OF this] scc_runD(7)[OF r that]] show ?thesis by (simp add: e(1)[simplified])
    qed
    show "sc_rep s1 u = sc_rep s u" if "active s u" for u
      using scc_runD(9)[OF r, of u] that nea[OF that] e(4)[of u] by simp
    show "sc_visited s1 x" if "u \<in> insert v (set G)" "x \<in> set (S u)" for u x using that ys scc_runD(10)[OF r] by blast
    show "sc_num s1 (sc_rep s1 v) \<le> sc_num s x" if "u \<in> insert v (set G)" "x \<in> set (S u)" "active s x" for u x
    proof -
      have "x \<in> set (S v) \<or> (\<exists>u\<in>set G. x \<in> set (S u))" using that(1,2) by blast
      then have "sc_num s1 (sc_rep s1 v) \<le> sc_num ?s0 x" using lo that(3) e(4)[of x] by blast
      then show ?thesis using nea[OF that(3)] by simp
    qed
    show "n \<in> reachable S v" if "sc_visited s1 n" "\<not> sc_visited s n" for n
      using re that by (cases "n = v") (simp_all add: reachable_def)
  qed
qed

lemma leave_stays:
  assumes c: "scc_core S N s" "scc_classes S s" and v: "v \<in> N" "\<not> sc_visited s v" and N: "finite N" "card N < 2 ^ 32"
    and l: "scc_loop_inv S N v (scc_enter v s) (S v) s1" and rep: "sc_rep s1 v \<noteq> v"
  shows "scc_visit_post S N v s (scc_leave v s1)"
proof (rule loop_end[OF c v N l])
  fix G
  assume h: "scc_core S N s1" "scc_classes S s1" "sc_SS s1 = G @ sc_SS s" "\<And>n. sc_visited s n \<Longrightarrow> sc_visited s1 n \<and> sc_num s1 n = sc_num s n"
    "\<And>n. active s1 n \<longleftrightarrow> n = v \<or> active s n \<or> n \<in> set G" "\<And>n. n \<in> set G \<Longrightarrow> \<not> sc_visited s n \<and> n \<noteq> v"
    "sc_num s1 v = unat (sc_I s) + 1" "\<And>n. sc_visited s1 n \<Longrightarrow> \<not> sc_visited s n \<Longrightarrow> unat (sc_I s) < sc_num s1 n"
    "\<And>n. n \<in> set G \<Longrightarrow> unat (sc_I s) + 1 < sc_num s1 n" "\<And>u. active s u \<Longrightarrow> sc_rep s1 u = sc_rep s u"
    "\<And>u x. u \<in> insert v (set G) \<Longrightarrow> x \<in> set (S u) \<Longrightarrow> sc_visited s1 x"
    "\<And>u x. u \<in> insert v (set G) \<Longrightarrow> x \<in> set (S u) \<Longrightarrow> active s x \<Longrightarrow> sc_num s1 (sc_rep s1 v) \<le> sc_num s x"
    "\<And>n. sc_visited s1 n \<Longrightarrow> \<not> sc_visited s n \<Longrightarrow> n \<in> reachable S v"
  have va: "active s1 v" using h(5) by blast
  let ?t = "s1\<lparr>sc_SS := v # sc_SS s1\<rparr>"
  have t: "scc_leave v s1 = ?t" using rep by (simp add: scc_leave_def)
  note p = push_SS_ok[OF h(1,2) va rep]
  have "scc_run S N {} s ?t (v # G)"
    unfolding scc_run_def
  proof (intro conjI allI impI ballI)
    show "scc_core S N ?t" "scc_classes S ?t" by (rule p)+
    show "sc_SS ?t = (v # G) @ sc_SS s" using h(3) by simp
    show "sc_visited ?t n" "sc_num ?t n = sc_num s n" if "sc_visited s n" for n using h(4)[OF that] by simp_all
    show "active ?t n \<longleftrightarrow> active s n \<or> n \<in> set (v # G)" for n using h(5)[of n] by auto
    show "\<not> sc_visited s n" if "n \<in> set (v # G)" for n using that v(2) h(6)[of n] by auto
    show "unat (sc_I s) < sc_num ?t n" if "sc_visited ?t n" "\<not> sc_visited s n" for n using h(8)[of n] that by simp
    show "sc_rep ?t u = sc_rep s u" if "active s u" for u using h(10)[OF that] by simp
    show "sc_visited ?t x" if "u \<in> set (v # G)" "x \<in> set (S u)" for u x using h(11)[of u x] that by simp
  qed
  moreover have "sc_num ?t (sc_rep ?t v) \<le> sc_num s x" if "u \<in> set (v # G)" "x \<in> set (S u)" "active s x" for u x
    using h(12)[of u x] that by simp
  moreover have "n \<in> reachable S v" if "sc_visited ?t n" "\<not> sc_visited s n" for n using h(13)[of n] that by simp
  moreover have "sc_visited ?t v" using active_visited[OF va] by simp
  ultimately show ?thesis
    unfolding scc_visit_post_def t by (intro exI[of _ "v # G"] conjI) auto
qed

text \<open>A node that is its own representative: every node above it on the stack leads to it, along representatives that
  get older.\<close>

lemma leads_to_root:
  assumes c: "scc_core S N s" and ss: "sc_SS s = G @ ss" and v: "v \<notin> set G"
    and closed: "\<And>u x. u \<in> insert v (set G) \<Longrightarrow> x \<in> set (S u) \<Longrightarrow> x \<in> insert v (set G) \<or> sc_inSCC s x"
    and u: "u \<in> set G"
  shows "v \<in> reachable S u"
  using u
proof (induction "sc_num s u" arbitrary: u rule: less_induct)
  case less
  have "u \<in> set (sc_SS s)" using less.prems ss by simp
  then have a: "active s u" "sc_rep s u \<noteq> u" using scc_coreD(11,12)[OF c] by blast+
  let ?q = "sc_rep s u"
  note q = scc_coreD(8-10)[OF c a(1)]
  have "sc_num s ?q \<noteq> sc_num s u"
    using inj_onD[OF scc_coreD(5)[OF c], of ?q u] a active_visited[OF q(1)] active_visited[OF a(1)] by auto
  then have lt: "sc_num s ?q < sc_num s u" using q(2) by simp
  have "?q \<in> insert v (set G) \<union> {x. sc_inSCC s x}"
  proof (rule closed_reachable[OF _ _ q(3)])
    show "u \<in> insert v (set G) \<union> {x. sc_inSCC s x}" using less.prems by simp
    show "y \<in> insert v (set G) \<union> {x. sc_inSCC s x}" if "x \<in> insert v (set G) \<union> {x. sc_inSCC s x}" "y \<in> set (S x)" for x y
      using that closed[of x y] scc_coreD(7)[OF c, of x y] by blast
  qed
  then have "?q = v \<or> ?q \<in> set G" using q(1) by (auto simp: active_def)
  then show ?case using less.hyps[OF lt] q(3) reachable_trans[OF q(3)] by auto
qed

lemma leave_root:
  assumes c: "scc_core S N s" "scc_classes S s" and v: "v \<in> N" "\<not> sc_visited s v" and N: "finite N" "card N < 2 ^ 32"
    and l: "scc_loop_inv S N v (scc_enter v s) (S v) s1" and rep: "sc_rep s1 v = v"
  shows "scc_visit_post S N v s (scc_leave v s1)"
proof (rule loop_end[OF c v N l])
  fix G
  assume h: "scc_core S N s1" "scc_classes S s1" "sc_SS s1 = G @ sc_SS s" "\<And>n. sc_visited s n \<Longrightarrow> sc_visited s1 n \<and> sc_num s1 n = sc_num s n"
    "\<And>n. active s1 n \<longleftrightarrow> n = v \<or> active s n \<or> n \<in> set G" "\<And>n. n \<in> set G \<Longrightarrow> \<not> sc_visited s n \<and> n \<noteq> v"
    "sc_num s1 v = unat (sc_I s) + 1" "\<And>n. sc_visited s1 n \<Longrightarrow> \<not> sc_visited s n \<Longrightarrow> unat (sc_I s) < sc_num s1 n"
    "\<And>n. n \<in> set G \<Longrightarrow> unat (sc_I s) + 1 < sc_num s1 n" "\<And>u. active s u \<Longrightarrow> sc_rep s1 u = sc_rep s u"
    "\<And>u x. u \<in> insert v (set G) \<Longrightarrow> x \<in> set (S u) \<Longrightarrow> sc_visited s1 x"
    "\<And>u x. u \<in> insert v (set G) \<Longrightarrow> x \<in> set (S u) \<Longrightarrow> active s x \<Longrightarrow> sc_num s1 (sc_rep s1 v) \<le> sc_num s x"
    "\<And>n. sc_visited s1 n \<Longrightarrow> \<not> sc_visited s n \<Longrightarrow> n \<in> reachable S v"
  have va: "active s1 v" using h(5) by blast
  have vG: "v \<notin> set G" using h(6) by blast
  have old: "sc_num s1 x < sc_num s1 v" if "active s x" for x
    using scc_coreD(4)[OF c(1) active_visited[OF that]] h(4)[OF active_visited[OF that]] h(7) by simp
  have closed: "x \<in> insert v (set G) \<or> sc_inSCC s1 x" if "u \<in> insert v (set G)" "x \<in> set (S u)" for u x
  proof (rule ccontr)
    assume n: "\<not> (x \<in> insert v (set G) \<or> sc_inSCC s1 x)"
    then have "active s1 x" using h(11)[OF that] by (simp add: active_def)
    then have x: "active s x" using h(5)[of x] n by blast
    show False using h(12)[OF that x] old[OF x] h(4)[OF active_visited[OF x]] rep by simp
  qed
  have root: "component_root S N s1 v G (sc_SS s)"
    unfolding component_root_def
  proof (intro conjI allI ballI impI)
    show "scc_core S N s1" "scc_classes S s1" "active s1 v" "sc_rep s1 v = v" "sc_SS s1 = G @ sc_SS s" by (rule h va rep)+
    show "sc_num s1 v < sc_num s1 w" if "w \<in> set G" for w using h(9)[OF that] h(7) by simp
    show "sc_num s1 w < sc_num s1 v" if "w \<in> set (sc_SS s)" for w using old[OF scc_coreD(11)[OF c(1) that]] .
    show "w \<in> set G" if "active s1 w" "sc_num s1 v < sc_num s1 w" for w
      using that h(5)[of w] old[of w] by auto
    show "x \<in> insert v (set G) \<or> sc_inSCC s1 x" if "u \<in> insert v (set G)" "x \<in> set (S u)" for u x by (rule closed[OF that])
    show "mutual S v u" if "u \<in> set G" for u
    proof -
      have "active s1 u" using h(5)[of u] that by blast
      then have "u \<in> reachable S v" using h(13)[OF active_visited] h(6)[OF that] by blast
      moreover have "v \<in> reachable S u" by (rule leads_to_root[OF h(1,3) vG closed that])
      ultimately show ?thesis by (simp add: mutual_def)
    qed
  qed
  let ?t = "left_component v G (sc_SS s) s1"
  note ls = left_simps[OF root]
  have act: "active ?t n \<longleftrightarrow> active s n" for n
    using h(5)[of n] h(6)[of n] v(2) active_visited[of s n] unfolding ls(12) by blast
  have "scc_run S N {} s ?t []"
    unfolding scc_run_def
  proof (intro conjI allI impI ballI)
    show "scc_core S N ?t" by (rule left_core[OF root])
    show "scc_classes S ?t" by (rule left_classes[OF root])
    show "sc_SS ?t = [] @ sc_SS s" by (simp add: ls(7))
    show "sc_visited ?t n" "sc_num ?t n = sc_num s n" if "sc_visited s n" for n using h(4)[OF that] by (simp_all add: ls(1,5))
    show "active ?t n \<longleftrightarrow> active s n \<or> n \<in> set []" for n using act by simp
    show "unat (sc_I s) < sc_num ?t n" if "sc_visited ?t n" "\<not> sc_visited s n" for n
      using h(8)[of n] that by (simp add: ls(1,5))
    show "sc_rep ?t u = sc_rep s u" if "active s u" for u
    proof -
      have "u \<notin> insert v (set G)" using act[of u] that unfolding ls(12) by blast
      then show ?thesis using h(10)[OF that] unfolding ls(3) by simp
    qed
  qed simp_all
  moreover have "sc_visited ?t v" using active_visited[OF va] by (simp add: ls(1))
  moreover have "n \<in> reachable S v" if "sc_visited ?t n" "\<not> sc_visited s n" for n using h(13)[of n] that by (simp add: ls(1))
  ultimately show ?thesis
    unfolding scc_visit_post_def leave_eq[OF root] by (intro exI[of _ "[]"] conjI) auto
qed

lemma scc_visit_ok:
  assumes N: "finite N" "\<And>n. n \<in> N \<Longrightarrow> set (S n) \<subseteq> N" "card N < 2 ^ 32"
  shows "scc_core S N s \<Longrightarrow> scc_classes S s \<Longrightarrow> v \<in> N \<Longrightarrow> \<not> sc_visited s v \<Longrightarrow> wp (scc_visit S v s) (scc_visit_post S N v s)"
proof (induction "card (N - {n. sc_visited s n})" arbitrary: s v rule: less_induct)
  case less
  note c = less.prems(1,2) and v = less.prems(3,4)
  let ?s0 = "scc_enter v s"
  note e = enter_ok'[OF c v N(1,3)]
  have v0: "active ?s0 v" "v \<notin> set (sc_SS ?s0)"
    using e(4)[of v] scc_coreD(11)[OF c(1), of v] unvisited(4)[OF c(1) v(2)] by auto
  have "wp (foldM (scc_child (scc_visit S) v) (S v) ?s0) (scc_loop_inv S N v ?s0 (S v))"
  proof (rule foldM_wp[where P = "scc_loop_inv S N v ?s0"])
    show "scc_loop_inv S N v ?s0 [] ?s0"
      unfolding scc_loop_inv_def using scc_run_refl[OF e(2,3)] by (intro exI[of _ "[]"]) simp
  next
    fix ys y zs t assume sp: "S v = ys @ y # zs" and l: "scc_loop_inv S N v ?s0 ys t"
    have y: "y \<in> set (S v)" using sp by simp
    obtain G where r: "scc_run S N {v} ?s0 t G" using l unfolding scc_loop_inv_def by blast
    have "{n. sc_visited s n} \<subseteq> {n. sc_visited t n}" "sc_visited t v"
      using scc_runD(4)[OF r] by auto
    then have "N - {n. sc_visited t n} \<subset> N - {n. sc_visited s n}" using v by blast
    then have lt: "card (N - {n. sc_visited t n}) < card (N - {n. sc_visited s n})" using N(1) by (intro psubset_card_mono) auto
    have yN: "y \<in> N" using N(2)[OF v(1)] y by blast
    show "wp (scc_child (scc_visit S) v y t) (scc_loop_inv S N v ?s0 (ys @ [y]))"
      by (rule scc_child_ok[OF e(2) N(1) v0 l y]) (rule less.hyps[OF lt scc_runD(1,2)[OF r] yN])
  qed
  then obtain s1 where s1: "foldM (scc_child (scc_visit S) v) (S v) ?s0 = Some s1" "scc_loop_inv S N v ?s0 (S v) s1"
    unfolding wp_iff by blast
  have "scc_visit_post S N v s (scc_leave v s1)"
    using leave_root[OF c v N(1,3) s1(2)] leave_stays[OF c v N(1,3) s1(2)] by blast
  then show ?case using s1(1) by (subst scc_visit.simps) simp
qed

subsection \<open>The whole graph\<close>

text \<open>Between two roots no node is active: the oldest one on the stack would have a representative that is older.\<close>

lemma none_active:
  assumes c: "scc_core S N s" and N: "finite N" and st: "\<And>n. active s n \<longleftrightarrow> n \<in> set (sc_SS s)"
  shows "sc_SS s = []"
proof (rule ccontr)
  assume "sc_SS s \<noteq> []"
  then have ne: "set (sc_SS s) \<noteq> {}" by simp
  obtain u where u: "u \<in> set (sc_SS s)" "\<And>x. x \<in> set (sc_SS s) \<Longrightarrow> sc_num s u \<le> sc_num s x"
    using ex_min_if_finite[of "sc_num s ` set (sc_SS s)"] ne by fastforce
  note a = scc_coreD(11,12)[OF c u(1)]
  have q: "active s (sc_rep s u)" "sc_num s (sc_rep s u) \<le> sc_num s u" using scc_coreD(8,9)[OF c a(1)] by blast+
  then have "sc_num s (sc_rep s u) = sc_num s u" using u(2) st by fastforce
  then show False
    using inj_onD[OF scc_coreD(5)[OF c], of "sc_rep s u" u] a active_visited[OF q(1)] active_visited[OF a(1)] by auto
qed

definition find_inv :: "(nat \<Rightarrow> nat list) \<Rightarrow> nat set \<Rightarrow> nat list \<Rightarrow> scc \<Rightarrow> bool" where
  "find_inv S N ys s \<longleftrightarrow> scc_core S N s \<and> scc_classes S s \<and> (\<forall>n. \<not> active s n) \<and>
     {n. sc_visited s n} = (\<Union>y\<in>set ys. reachable S y)"

lemma find_invD:
  assumes "find_inv S N ys s"
  shows "scc_core S N s" "scc_classes S s" "\<not> active s n" "{n. sc_visited s n} = (\<Union>y\<in>set ys. reachable S y)"
    "sc_inSCC s n \<longleftrightarrow> n \<in> (\<Union>y\<in>set ys. reachable S y)"
  using assms scc_coreD(2)[of S N s n] unfolding find_inv_def active_def by blast+

lemma scc_new_inv: "find_inv S N [] scc_new"
  by (simp add: find_inv_def scc_core_def scc_classes_def class_reps_def class_subs_def class_marks_def class_order_def
      scc_new_def sc_get_def sc_visited_def sc_inSCC_def sc_sub_def active_def new_info_def)

lemma scc_root_ok:
  assumes N: "finite N" "\<And>n. n \<in> N \<Longrightarrow> set (S n) \<subseteq> N" "card N < 2 ^ 32" and v: "v \<in> N" and i: "find_inv S N ys s"
  shows "wp (scc_root S v s) (find_inv S N (ys @ [v]))"
proof (cases "sc_visited s v")
  case True
  then have "sc_inSCC s v" using find_invD(3)[OF i, of v] by (simp add: active_def)
  then have "n \<in> {n. sc_visited s n}" if "n \<in> reachable S v" for n
    using inSCC_reachable[OF find_invD(1)[OF i] _ that] scc_coreD(2)[OF find_invD(1)[OF i]] by simp
  then have "find_inv S N (ys @ [v]) s" using i unfolding find_inv_def by auto
  then show ?thesis using True by (simp add: scc_root_def)
next
  case False
  note c = find_invD(1,2)[OF i]
  have "sc_rep s v = no_rep" by (rule unvisited(3)[OF c(1) False])
  then have e: "scc_root S v s = scc_visit S v s" using False by (simp add: scc_root_def)
  obtain s' G where s': "scc_visit S v s = Some s'" "scc_run S N {} s s' G" "sc_visited s' v"
      "\<forall>n. sc_visited s' n \<longrightarrow> \<not> sc_visited s n \<longrightarrow> n \<in> reachable S v"
    using scc_visit_ok[OF N c v False] unfolding wp_iff scc_visit_post_def by blast
  note c' = scc_runD(1,2)[OF s'(2)]
  have ss: "sc_SS s = []" using scc_coreD(11)[OF c(1)] find_invD(3)[OF i] by (metis hd_in_set)
  have st: "active s' n \<longleftrightarrow> n \<in> set (sc_SS s')" for n
    using scc_runD(6)[OF s'(2), of n] scc_runD(3)[OF s'(2)] find_invD(3)[OF i, of n] ss by simp
  have none: "\<not> active s' n" for n using none_active[OF c'(1) N(1) st] st[of n] by simp
  have "sc_inSCC s' v" using none[of v] s'(3) by (simp add: active_def)
  then have r: "sc_visited s' n" if "n \<in> reachable S v" for n
    using inSCC_reachable[OF c'(1) _ that] scc_coreD(2)[OF c'(1)] by blast
  have "{n. sc_visited s' n} = {n. sc_visited s n} \<union> reachable S v"
    using s'(4) r scc_runD(4)[OF s'(2)] by blast
  then have "find_inv S N (ys @ [v]) s'" using c' none find_invD(4)[OF i] by (simp add: find_inv_def Un_commute)
  then show ?thesis using e s'(1) by simp
qed

lemma scc_find_inv:
  assumes N: "finite N" "\<And>n. n \<in> N \<Longrightarrow> set (S n) \<subseteq> N" "card N < 2 ^ 32" and v: "set nodes \<subseteq> N"
  shows "wp (scc_find S nodes s) (find_inv S N nodes)"
  unfolding scc_find_def
proof (rule foldM_wp[where P = "find_inv S N"])
  show "find_inv S N [] (scc_clear s)" by (simp add: scc_new_inv)
  fix ys y zs t assume "nodes = ys @ y # zs" and t: "find_inv S N ys t"
  then have y: "y \<in> N" using v by auto
  show "wp (scc_root S y t) (find_inv S N (ys @ [y]))" by (rule scc_root_ok[OF N y t])
qed

subsection \<open>What the queries return\<close>

definition on_cycle :: "(nat \<Rightarrow> nat list) \<Rightarrow> nat \<Rightarrow> bool" where
  "on_cycle S n \<longleftrightarrow> (\<exists>x\<in>set (S n). n \<in> reachable S x)"

lemma reachable_first: "x \<in> reachable S n \<Longrightarrow> x \<noteq> n \<Longrightarrow> \<exists>y\<in>set (S n). x \<in> reachable S y"
  unfolding reachable_def by (auto elim: converse_rtranclE)

lemma reachable_edge: "x \<in> set (S n) \<Longrightarrow> x \<in> reachable S n"
  by (auto simp: reachable_def)

lemma mutual_cycle: "mutual S n u \<Longrightarrow> u \<noteq> n \<Longrightarrow> on_cycle S n"
  using reachable_first[of u S n] unfolding mutual_def on_cycle_def by (blast intro: reachable_trans)

lemma on_cycle_iff:
  assumes m: "mutual S n r" and fin: "finite {u. mutual S r u}"
  shows "card {u. mutual S r u} > 1 \<or> r \<in> set (S r) \<longleftrightarrow> on_cycle S n"
proof
  assume l: "card {u. mutual S r u} > 1 \<or> r \<in> set (S r)"
  show "on_cycle S n"
  proof (cases "r = n \<and> r \<in> set (S r)")
    case True
    then show ?thesis unfolding on_cycle_def by (auto simp: reachable_def)
  next
    case False
    have "\<exists>u. mutual S n u \<and> u \<noteq> n"
    proof (cases "r = n")
      case True
      then have "1 < card {u. mutual S n u}" using l False by simp
      moreover have "card {u. mutual S n u} \<le> 1" if "{u. mutual S n u} \<subseteq> {n}" using card_mono[OF _ that] by simp
      ultimately show ?thesis by fastforce
    qed (use m in blast)
    then show ?thesis using mutual_cycle by blast
  qed
next
  assume "on_cycle S n"
  then obtain x where x: "x \<in> set (S n)" "n \<in> reachable S x" unfolding on_cycle_def by blast
  then have mx: "mutual S n x" using reachable_edge by (simp add: mutual_def)
  show "card {u. mutual S r u} > 1 \<or> r \<in> set (S r)"
  proof (cases "x = n \<and> n = r")
    case False
    have "mutual S r n" "mutual S r x" "mutual S r r" using m mx mutual_sym mutual_trans mutual_refl by blast+
    then have "{n, x, r} \<subseteq> {u. mutual S r u}" by blast
    then have "card {n, x, r} \<le> card {u. mutual S r u}" using fin card_mono by blast
    moreover have "1 < card {n, x, r}" using False by (auto simp: card_insert_if)
    ultimately show ?thesis by simp
  qed (use x in simp)
qed

lemma find_info:
  assumes i: "find_inv S N nodes s" and n: "sc_visited s n"
  shows "map_of (sc_info s) n = Some (sc_get s n)"
  using scc_coreD(13)[OF find_invD(1)[OF i], of n] n by (auto simp: sc_get_def aget_def ahas_def)

lemma revTopo_list: "fifo_list (revTopoNodeStack s) = rev (remdups (rev (sc_T s)))"
  using fifo_pushes[OF fifo.new(1), of "sc_T s"] by (simp add: revTopoNodeStack_def fifo_new_def)

lemma scc_find_ok:
  assumes N: "N \<subseteq> {..<no_rep}" "\<And>n. n \<in> N \<Longrightarrow> set (S n) \<subseteq> N" and v: "set nodes \<subseteq> N"
  shows "wp (scc_find S nodes s) (\<lambda>t. \<exists>rep. let R = (\<Union>v\<in>set nodes. reachable S v); T = topoNodeStack t in
    (\<forall>n\<in>R. repNode t n = Some (rep n) \<and> mutual S n (rep n) \<and> subNodes t (rep n) = Some {u. mutual S n u} \<and>
      isInCycle S t n = Some (on_cycle S n)) \<and>
    (\<forall>n\<in>R. \<forall>m\<in>R. rep n = rep m \<longleftrightarrow> mutual S n m) \<and> distinct T \<and> set T = rep ` R \<and>
    (\<forall>u\<in>R. \<forall>x\<in>set (S u). rep u \<noteq> rep x \<longrightarrow> precedes T (rep u) (rep x)) \<and>
    getRepNodes t = {r \<in> R. rep r = r \<and> (\<exists>u. mutual S r u \<and> u \<noteq> r)})"
proof -
  have fin: "finite N" using N(1) finite_subset by blast
  have "card N \<le> card {..<no_rep}" by (rule card_mono[OF _ N(1)]) simp
  then have small: "card N < 2 ^ 32" by simp
  obtain t where t: "scc_find S nodes s = Some t" and i: "find_inv S N nodes t"
    using scc_find_inv[where S = S and s = s, OF fin N(2) small v] unfolding wp_iff by blast
  define R where "R = (\<Union>v\<in>set nodes. reachable S v)"
  note c = find_invD(1)[OF i] and k = find_invD(2)[OF i]
  have R: "n \<in> R \<longleftrightarrow> sc_inSCC t n" for n using find_invD(5)[OF i, of n] by (simp add: R_def)
  have m: "mutual S n (sc_rep t n)" "sc_rep t n \<in> R" "sc_rep t (sc_rep t n) = sc_rep t n" "sc_rep t n \<noteq> no_rep" if "n \<in> R" for n
  proof -
    have n: "sc_inSCC t n" using that R by blast
    show h: "mutual S n (sc_rep t n)" by (rule scc_classesD(1)[OF k n])
    have r: "sc_inSCC t (sc_rep t n)" by (rule scc_classesD(2)[OF k n h])
    then show "sc_rep t n \<in> R" using R by blast
    show "sc_rep t (sc_rep t n) = sc_rep t n" by (rule scc_classesD(3)[OF k n h])
    have "sc_rep t n \<in> N" by (rule scc_coreD(1)[OF c scc_coreD(2)[OF c r]])
    then show "sc_rep t n \<noteq> no_rep" using N(1) by auto
  qed
  have same: "sc_rep t n = sc_rep t u \<longleftrightarrow> mutual S n u" if nu: "n \<in> R" "u \<in> R" for n u
  proof
    assume e: "sc_rep t n = sc_rep t u"
    have "mutual S (sc_rep t n) u" using m(1)[OF nu(2)] mutual_sym unfolding e by blast
    with m(1)[OF nu(1)] show "mutual S n u" by (rule mutual_trans)
  next
    assume mu: "mutual S n u"
    have "sc_inSCC t n" using nu(1) R by blast
    from scc_classesD(3)[OF k this mu] show "sc_rep t n = sc_rep t u" by simp
  qed
  have rep: "repNode t n = Some (sc_rep t n)" if "n \<in> R" for n
    using find_info[OF i, of n] scc_coreD(2)[OF c, of n] that R m(4)[OF that] by (simp add: repNode_def sc_rep_def)
  have sub: "subNodes t (sc_rep t n) = Some {u. mutual S n u}" if "n \<in> R" for n
  proof -
    have "sc_sub t (sc_rep t n) = {u. mutual S (sc_rep t n) u}" using scc_classesD(4)[OF k, of "sc_rep t n"] m(2,3)[OF that] R by simp
    moreover have "mutual S (sc_rep t n) u \<longleftrightarrow> mutual S n u" for u using m(1)[OF that] mutual_sym mutual_trans by blast
    ultimately show ?thesis
      using find_info[OF i, of "sc_rep t n"] scc_coreD(2)[OF c, of "sc_rep t n"] m(2)[OF that] R by (simp add: subNodes_def sc_sub_def)
  qed
  have cyc: "isInCycle S t n = Some (on_cycle S n)" if "n \<in> R" for n
  proof -
    let ?r = "sc_rep t n"
    have e: "{u. mutual S n u} = {u. mutual S ?r u}" using m(1)[OF that] mutual_sym mutual_trans by blast
    have "{u. mutual S ?r u} \<subseteq> N"
      using scc_classesD(2)[OF k] m(2)[OF that] R scc_coreD(1,2)[OF c] by blast
    from on_cycle_iff[OF m(1)[OF that] finite_subset[OF this fin]]
    show ?thesis using rep[OF that] sub[OF that] unfolding isInCycle_def e by simp
  qed
  have T: "set (sc_T t) = sc_rep t ` R" using scc_classesD(11)[OF k] m(2,3) R by force
  have order: "precedes (sc_T t) (sc_rep t u) (sc_rep t x)" if "u \<in> R" "x \<in> set (S u)" "sc_rep t u \<noteq> sc_rep t x" for u x
    using scc_classesD(12)[OF k] that R by blast
  have "r \<in> sc_repNodes t \<longleftrightarrow> r \<in> R \<and> sc_rep t r = r \<and> (\<exists>u. mutual S r u \<and> u \<noteq> r)" for r
  proof (cases "r \<in> R")
    case True
    then show ?thesis using scc_classesD(8)[OF k, of r] R by blast
  next
    case False
    then have ns: "\<not> sc_inSCC t r" using R by blast
    have "sc_inSCC t r" if r: "r \<in> sc_repNodes t"
    proof -
      obtain u where u: "u \<in> sc_sub t r" using scc_classesD(9)[OF k r ns] by blast
      note u = scc_classesD(5,6)[OF k ns u]
      have "sc_inSCC t u" using u(1) find_invD(3)[OF i, of u] by (simp add: active_def)
      from inSCC_reachable[OF c this u(2)] show ?thesis .
    qed
    then show ?thesis using ns False by blast
  qed
  then have marks: "sc_repNodes t = {r \<in> R. sc_rep t r = r \<and> (\<exists>u. mutual S r u \<and> u \<noteq> r)}" by blast
  show ?thesis
    unfolding wp_iff
  proof (intro exI[of _ t] exI[of _ "sc_rep t"] conjI)
    show "scc_find S nodes s = Some t" by (rule t)
    show "let R = (\<Union>v\<in>set nodes. reachable S v); T = topoNodeStack t in
      (\<forall>n\<in>R. repNode t n = Some (sc_rep t n) \<and> mutual S n (sc_rep t n) \<and> subNodes t (sc_rep t n) = Some {u. mutual S n u} \<and>
        isInCycle S t n = Some (on_cycle S n)) \<and>
      (\<forall>n\<in>R. \<forall>m\<in>R. sc_rep t n = sc_rep t m \<longleftrightarrow> mutual S n m) \<and> distinct T \<and> set T = sc_rep t ` R \<and>
      (\<forall>u\<in>R. \<forall>x\<in>set (S u). sc_rep t u \<noteq> sc_rep t x \<longrightarrow> precedes T (sc_rep t u) (sc_rep t x)) \<and>
      getRepNodes t = {r \<in> R. sc_rep t r = r \<and> (\<exists>u. mutual S r u \<and> u \<noteq> r)}"
      unfolding Let_def R_def[symmetric] topoNodeStack_def getRepNodes_def
      using rep m(1) sub cyc same scc_classesD(10)[OF k] T order marks by (intro conjI) blast+
  qed
qed

text \<open>A work list that is to have the components in reverse topological order: it has the order of the stack, which is
  topological, as the stack is read from its top into a first-in first-out list.\<close>

lemma revTopo_is_topological:
  assumes "N \<subseteq> {..<no_rep}" "\<And>n. n \<in> N \<Longrightarrow> set (S n) \<subseteq> N" "set nodes \<subseteq> N"
  shows "wp (scc_find S nodes s) (\<lambda>t. fifo_list (revTopoNodeStack t) = topoNodeStack t)"
  by (rule wp_mono[OF scc_find_ok[where S = S and s = s, OF assms]]) (auto simp: Let_def revTopo_list topoNodeStack_def distinct_remdups_id)

end
