(* ===== verification/Spec2Isabelle.thy ===== *)
theory Spec2Isabelle
  imports Work_List Core_Bit_Vector Sparse_Bit_Vector PointsTo Data_Set Points_To_Cache PT_Data Mutable_PT_Data
    Persistent_PT_Data Flow_PT_Data Slot_Store Inc_Slot_Store Mutable_DF_PT_Data Persistent_DF_PT_Data
    Points_To_Counts Type_Info Access_Path Abstract_Domain Bounded_Int Interval_Value Interval_Arith
    Abstract_Value Abstract_State Abstract_Gep Abstract_Exec Abstract_Branch Weak_Order Abstract_Interp Abstract_Run
    CFL_Grammar CFL_Graph CFL_Solver CFL_POCR CFL_Hybrid Components
begin

text \<open>
  \<^bold>\<open>SVF.\<close> SVF analyses LLVM programs: it builds an intermediate representation with program graphs over it, and runs
  pointer analyses and an abstract interpreter on them. This library models four of its parts in depth, the sets
  and tables that hold points-to information, the abstract interpreter with the data it rests on, the solvers of
  reachability over context-free grammars, and the strongly connected components of graphs.

  \<^bold>\<open>Conventions.\<close> Paths are those under \<^verbatim>\<open>src/\<close>; a definition has the name of the function it models, with a prefix
  for its class where names repeat (\<open>pt_\<close> \<^verbatim>\<open>PointsTo\<close>, \<open>pc_\<close> \<^verbatim>\<open>PersistentPointsToCache\<close>, \<open>iv_\<close>
  \<^verbatim>\<open>IntervalValue\<close>, \<open>as_\<close> \<^verbatim>\<open>AbstractState\<close>). A method is a function on the record of its class. \<open>None\<close> is a
  failed assertion or undefined behaviour, \<open>wp m Q\<close> says that \<open>m\<close> returns and its result satisfies \<open>Q\<close>. Hash
  maps are association lists, in the order of insertion where the code iterates over them. Machine integers are
  words or integers with the wrap-around written out.

  \<^bold>\<open>Sets.\<close> \<open>Core_Bit_Vector\<close> and \<open>Sparse_Bit_Vector\<close> model \<^verbatim>\<open>svf/include/Util/CoreBitVector.h\<close>,
  \<^verbatim>\<open>BitVector.h\<close> and \<^verbatim>\<open>SparseBitVector.h\<close> with their iterators: every operation is the one on sets of numbers.
  \<open>PointsTo\<close> models \<^verbatim>\<open>svf/lib/MemoryModel/PointsTo.cpp\<close> over the three representations, with node mappings;
  \<open>Data_Set\<close> states the interface of sets as a locale and interprets it on \<open>PointsTo\<close>. \<open>Work_List\<close> models
  \<^verbatim>\<open>svf/include/Util/WorkList.h\<close>.

  \<^bold>\<open>Tables.\<close> \<open>Points_To_Cache\<close> models \<^verbatim>\<open>PersistentPointsToCache\<close>, which numbers sets and memoises union,
  difference and intersection, with results entered ahead of time. \<open>PT_Data\<close> and \<open>Flow_PT_Data\<close> state the
  interfaces of \<^verbatim>\<open>svf/include/MemoryModel/AbstractPointsToDS.h\<close>; \<open>Mutable_PT_Data\<close>, \<open>Persistent_PT_Data\<close>,
  \<open>Slot_Store\<close>, \<open>Inc_Slot_Store\<close>, \<open>Mutable_DF_PT_Data\<close> and \<open>Persistent_DF_PT_Data\<close> model the classes of
  \<^verbatim>\<open>MutablePointsToDS.h\<close> and \<^verbatim>\<open>PersistentPointsToDS.h\<close>, and \<open>Points_To_Counts\<close> their counts. The lemmas show
  that each table refines maps from variables (and locations) to sets, so the persistent tables answer as the
  mutable ones, on every sequence of operations that stays within 32-bit set numbers.

  \<^bold>\<open>Types and access paths.\<close> \<open>Type_Info\<close> models how \<^verbatim>\<open>svf-llvm/lib/LLVMModule.cpp\<close> flattens types (the table
  that remembers the result for a type and the record of the largest struct are left out), \<open>Access_Path\<close> the
  constant offsets of \<^verbatim>\<open>svf/lib/MemoryModel/AccessPath.cpp\<close>. The lemmas show that flattening gives the list of scalars
  and that constant indices lead to the place of their element in it.

  \<^bold>\<open>Abstract interpreter.\<close> \<open>Bounded_Int\<close>, \<open>Interval_Value\<close> and \<open>Interval_Arith\<close> model
  \<^verbatim>\<open>svf/include/AE/Core/NumericValue.h\<close> and \<^verbatim>\<open>IntervalValue.h\<close>; \<open>Abstract_Value\<close> and \<open>Abstract_State\<close> the values,
  addresses and states beside them. \<open>Abstract_Domain\<close> states as locales what joins and widenings promise, interpreted on
  intervals, values and states. \<open>Abstract_Gep\<close>, \<open>Abstract_Exec\<close> and \<open>Abstract_Branch\<close> model the handlers of
  statements and branches in \<^verbatim>\<open>svf/lib/AE/Svfexe/AbstractInterpretation.cpp\<close>, each proved sound for a concrete meaning
  of statements on environments. \<open>Weak_Order\<close> models the order in which nodes are analysed, \<^verbatim>\<open>svf/include/Graphs/WTO.h\<close>
  with \<^verbatim>\<open>svf/include/AE/Core/ICFGWTO.h\<close>, and shows that the construction returns and what the order is.
  \<open>Abstract_Interp\<close> models the iteration: merging of predecessors, components of the
  weak topological order, widening and narrowing, calls. \<open>Abstract_Run\<close> shows that loops end and that nodes are analysed
  soundly.

  \<^bold>\<open>CFL reachability.\<close> \<open>CFL_Grammar\<close> models symbols and normalised grammars (\<^verbatim>\<open>svf/include/CFL/CFGrammar.h\<close>) and how
  \<^verbatim>\<open>CFGNormalizer.cpp\<close> fills attributes and files productions; \<open>CFL_Graph\<close> models \<^verbatim>\<open>svf/include/Graphs/CFLGraph.h\<close>.
  \<open>CFL_Solver\<close>, \<open>CFL_POCR\<close> and \<open>CFL_Hybrid\<close> model the three solvers of \<^verbatim>\<open>svf/lib/CFL/CFLSolver.cpp\<close>. The locale
  \<open>cfl_process\<close> states what a solver promises of one edge, is interpreted on each of them, and shows that the work list runs
  empty and that the graph then has the edges that the grammar derives (\<open>cfl_reach\<close>). For the first solver these are the paths
  whose labels the grammar derives; the other two leave some out (\<open>pocr_misses_empty_paths\<close>,
  \<open>hybrid_misses_transitivity\<close>).

  \<^bold>\<open>Components.\<close> \<open>Components\<close> models \<^verbatim>\<open>svf/include/Graphs/SCC.h\<close>, the search for strongly connected components
  that the pointer analyses and the call graph use. The lemmas show that it returns on finite graphs, that the
  representatives identify the components and that the stack is in topological order; the work list that is to have the
  reverse order has the same (\<open>revTopo_is_topological\<close>).

  \<^bold>\<open>Bounds and fuel.\<close> Only the iteration of the interpreter has fuel, since the code may not end
  (\<open>self_call_never_ends\<close>): \<open>Timeout\<close> is that it has run out, \<open>analyse_fuel\<close> that more fuel never changes a
  result, \<open>loop_analysis_returns\<close> that a cycle has enough. The loops of \<open>iv_div\<close> and \<open>iv_shr\<close>
  and the searches of \<open>Weak_Order\<close> and \<open>Components\<close> are partial functions, and what is proved of them includes that they
  return.

  \<^bold>\<open>Parameters.\<close> The hash of a word; the program (\<open>program\<close>, what the interpreter asks of the graphs and the intermediate
  representation, with the weak topological order); the objects of fields (\<open>gep_env\<close>); the handlers of library
  functions in \<^verbatim>\<open>AbsExtAPI.cpp\<close> (\<open>ext_api\<close>); the symbol that a grammar calls \<^verbatim>\<open>F\<close>.

  \<^bold>\<open>Not modelled.\<close> The pointer analyses proper and their graphs, memory SSA, the demand-driven, multi-threaded and
  source-sink analyses; the parsing and binarising of grammars and the builders of labelled graphs; the detectors of the interpreter and its library
  functions, but for type ranges; \<^verbatim>\<open>BoundedDouble\<close>; output and statistics; the LLVM front end but for
  types. The manifest lists each part.
\<close>

subsection \<open>Instances for the theorems\<close>

text \<open>The sets of a run that starts without node mappings and with sparse bit vectors; \<open>h\<close> is the hash of words.\<close>

abbreviation set_ops :: "(64 word \<Rightarrow> 64 word) \<Rightarrow> (points_to, nat) data_ops" where
  "set_ops h \<equiv> pts_ops (initial_env SBV h)"

abbreviation set_of :: "(64 word \<Rightarrow> 64 word) \<Rightarrow> points_to \<Rightarrow> nat set" where
  "set_of h \<equiv> pts_of (initial_env SBV h)"

abbreviation set_inv :: "(64 word \<Rightarrow> 64 word) \<Rightarrow> points_to \<Rightarrow> bool" where
  "set_inv h \<equiv> run_inv (initial_env SBV h)"

abbreviation node_id :: "(64 word \<Rightarrow> 64 word) \<Rightarrow> nat \<Rightarrow> bool" where
  "node_id h \<equiv> run_ok (initial_env SBV h)"

text \<open>A cache that has just been built.\<close>

lemma new_cache:
  "\<exists>c. pc_new (set_ops h) = Some c \<and> pc_inv (set_of h) (set_inv h) c \<and> pc_stats_ok c \<and> length (pc_idToPts c) = 1"
  using pts.new_ok[of h] by (auto simp: wp_iff)

text \<open>Node numbers of 32 bits, and the sets that the constructors and \<^verbatim>\<open>set\<close> build.\<close>

lemma node_id_iff [simp]: "node_id h n \<longleftrightarrow> n < 2 ^ 32"
  by (simp add: run_ok_def node_ok_def node_in_def initial_env_def)

lemma singleton_set:
  assumes "n < 2 ^ 32"
  shows "\<exists>d. pt_set (initial_env SBV h) (pt_new (initial_env SBV h)) n = Some d \<and> set_inv h d \<and> set_of h d = {n}"
  using ptd.set[OF ptd.new(1), of SBV h n] assms ptd.new(2)[of SBV h] by (auto simp: wp_iff pts_ops_def)

text \<open>A clustering that renames three nodes, and a cache built before it with the sets \<open>{}\<close> and \<open>{2}\<close>.\<close>

abbreviation clustered :: pt_env where
  "clustered \<equiv> \<lparr>pe_PtType = SBV, pe_currentBestNodeMapping = Some 3, pe_currentBestReverseNodeMapping = Some 4,
     pe_vec = (\<lambda>a. if a = 3 then [1, 2, 0] else [2, 0, 1]), pe_hash = id\<rparr>"

abbreviation unmapped :: "sbv \<Rightarrow> points_to" where
  "unmapped b \<equiv> \<lparr>pt_store = St_SBV b, pt_nodeMapping = None, pt_reverseNodeMapping = None\<rparr>"

abbreviation unmapped_cache :: "points_to pt_cache" where
  "unmapped_cache \<equiv> pc_initStats \<lparr>pc_idToPts = [unmapped sbv_new, unmapped (sbv_set sbv_new 2)],
     pc_ptsToId = [(unmapped sbv_new, 0), (unmapped (sbv_set sbv_new 2), 1)], pc_unionCache = [], pc_complementCache = [],
     pc_intersectionCache = [], pc_idCounter = 2, pc_totalUnions = 0, pc_uniqueUnions = 0, pc_propertyUnions = 0,
     pc_lookupUnions = 0, pc_preemptiveUnions = 0, pc_totalComplements = 0, pc_uniqueComplements = 0,
     pc_propertyComplements = 0, pc_lookupComplements = 0, pc_preemptiveComplements = 0, pc_totalIntersections = 0,
     pc_uniqueIntersections = 0, pc_propertyIntersections = 0, pc_lookupIntersections = 0, pc_preemptiveIntersections = 0\<rparr>"

lemma unmapped_sets: "pts_of clustered (unmapped sbv_new) = {}" "pts_of clustered (unmapped (sbv_set sbv_new 2)) = {2}"
    "remappable clustered (unmapped sbv_new)" "remappable clustered (unmapped (sbv_set sbv_new 2))"
    "pc_idToPts unmapped_cache = [unmapped sbv_new, unmapped (sbv_set sbv_new 2)]"
proof -
  have s: "sb_inv (sbv_set sbv_new 2)" "sb_set (sbv_set sbv_new 2) = {2}" "sb_inv sbv_new" "sb_set sbv_new = {}"
    using sbv_set_ok[OF sbv_new_ok(1), of 2] sbv_new_ok by simp_all
  show "pts_of clustered (unmapped sbv_new) = {}" "pts_of clustered (unmapped (sbv_set sbv_new 2)) = {2}"
    "remappable clustered (unmapped sbv_new)" "remappable clustered (unmapped (sbv_set sbv_new 2))"
    by (auto simp: pts_of_def remappable_def pt_inv_def maps_ok_def node_ok_def node_in_def s st_set_def st_inv_def)
  show "pc_idToPts unmapped_cache = [unmapped sbv_new, unmapped (sbv_set sbv_new 2)]" by (simp add: pc_initStats_def)
qed

lemma unmapped_cache: "pc_inv (pts_of clustered) (remappable clustered) unmapped_cache"
  using unmapped_sets by (auto simp: pc_inv_def pc_core_def pc_initStats_def op_ok_def less_Suc_eq nth_Cons')

subsection \<open>Small states and programs\<close>

abbreviation iv :: "int \<Rightarrow> int \<Rightarrow> interval" where
  "iv l u \<equiv> \<lparr>iv_lb = bi_fin l, iv_ub = bi_fin u\<rparr>"

lemma iv_simps:
  assumes "fits l" "fits u" "l \<le> u"
  shows "iv_ok (iv l u)" "iv_set (iv l u) = {l..u}" "iv_isBottom (iv l u) = False"
proof -
  have b: "bi_ok (bi_fin l)" "bi_ok (bi_fin u)" "bi_val (bi_fin l) = l" "bi_val (bi_fin u) = u" using assms by simp_all
  show "iv_ok (iv l u)" by (rule iv_okI[OF b(1,2) assms(1)]) (use b assms in simp_all)
  show s: "iv_set (iv l u) = {l..u}" using assms b by (auto simp: iv_set_def fits_def)
  show "iv_isBottom (iv l u) = False" using iv_set_nonempty[OF \<open>iv_ok (iv l u)\<close>] s assms by simp
qed

abbreviation no_fields :: gep_env where
  "no_fields \<equiv> \<lparr>ge_arrays = False, ge_limit = 512, ge_field = \<lambda>_ _. None\<rparr>"

text \<open>A state in which variable 1 lies between 2 and 5 and variable 2 is 4, and an environment it describes.\<close>

abbreviation two_numbers :: abstract_state where
  "two_numbers \<equiv> \<lparr>as_vars = [(1, av_of_interval (iv 2 5)), (2, av_of_interval (iv 4 4))], as_mem = []\<rparr>"

lemma two_numbers: "st_ok two_numbers" "models two_numbers [PVar 1 \<mapsto> Num 3, PVar 2 \<mapsto> Num 4]"
  by (simp_all add: st_ok_def am_ok_def models_def st_gam_def aget_def iv_simps fits_def)

text \<open>The same with the result of comparing variable 1 with variable 2 in variable 3.\<close>

abbreviation compared :: abstract_state where
  "compared \<equiv> \<lparr>as_vars = [(1, av_of_interval (iv 2 5)), (2, av_of_interval (iv 4 4)), (3, av_of_interval (iv 0 1))], as_mem = []\<rparr>"

abbreviation compare_stmts :: "address \<Rightarrow> stmt list" where
  "compare_stmts \<equiv> (\<lambda>_. [])(3 := [SCmp ICMP_SLT 1 2 3])"

lemma compared: "st_ok compared" "models compared [PVar 1 \<mapsto> Num 3, PVar 2 \<mapsto> Num 4, PVar 3 \<mapsto> Num 1]"
  by (simp_all add: st_ok_def am_ok_def models_def st_gam_def aget_def iv_simps fits_def)

text \<open>The same where variable 2 has been loaded through variable 1, which points to the object 10, and variable 4 is the
  result of comparing it with variable 3.\<close>

abbreviation loaded_compare :: "address \<Rightarrow> stmt list" where
  "loaded_compare \<equiv> (\<lambda>_. [])(2 := [SLoad 2 1], 4 := [SCmp ICMP_SLT 2 3 4])"

abbreviation loaded_state :: abstract_state where
  "loaded_state \<equiv> \<lparr>as_vars = [(1, av_of_addrs [0x7f00000a]), (2, av_of_interval (iv 2 5)), (3, av_of_interval (iv 4 4)),
     (4, av_of_interval (iv 0 1))], as_mem = [(10, av_of_interval (iv 0 9))]\<rparr>"

abbreviation loaded_env :: "place \<rightharpoonup> cval" where
  "loaded_env \<equiv> [PVar 1 \<mapsto> Adr 0x7f00000a, PVar 2 \<mapsto> Num 3, PVar 3 \<mapsto> Num 4, PVar 4 \<mapsto> Num 1, PMem 10 \<mapsto> Num 3]"

lemma loaded_state: "st_ok loaded_state" "models loaded_state loaded_env"
  by (simp_all add: st_ok_def am_ok_def models_def st_gam_def aget_def iv_simps fits_def)

lemma getInternalID_10: "getInternalID 0x7f00000a = 10" and isVirtual_10: "isVirtualMemAddress 0x7f00000a"
  by code_simp+

text \<open>A program of one node with its statements, entered over edges without conditions, and a run that has described
  the node before it.\<close>

abbreviation one_node :: "icfg_edge list \<Rightarrow> stmt list \<Rightarrow> program" where
  "one_node es sts \<equiv> \<lparr>pg_gep = no_fields, pg_in_edges = \<lambda>_. es, pg_stmts = \<lambda>_. sts, pg_sub = \<lambda>n. [n], pg_rep = \<lambda>n. n,
     pg_def = \<lambda>_. [], pg_call = \<lambda>_. None, pg_wto = \<lambda>_. None, pg_recursive = \<lambda>_. False, pg_object_function = \<lambda>_. None,
     pg_widen_delay = 3, pg_global = 0, pg_null_ptr = 3, pg_blk_ptr = 2, pg_main = None\<rparr>"

abbreviation from_node :: "nat \<Rightarrow> icfg_edge" where
  "from_node n \<equiv> \<lparr>ed_src = n, ed_intra = True, ed_cond = None\<rparr>"

abbreviation entered :: run where
  "entered \<equiv> \<lparr>rn_trace = [0 \<mapsto> two_numbers], rn_stack = []\<rparr>"

lemma one_node_states:
  "mapM (edge_state (one_node [from_node 0, from_node 2] []) (rn_trace entered)) [from_node 0, from_node 2] = Some [[two_numbers], []]"
  by (simp add: edge_state_def)

lemma one_node_merge:
  assumes "rn_trace r 0 = Some two_numbers"
  shows "handleWTOComponent 2 (one_node [from_node 0] []) ext (Singleton 1) r = Done (set_state 1 two_numbers r)"
proof -
  have "as_joinWith as_new two_numbers = Some two_numbers" by code_simp
  then show ?thesis using assms by (simp add: numeral_2_eq_2 mergeStatesFromPredecessors_def edge_state_def of_option_def)
qed

text \<open>A node that is entered when variable 2 is 4 and stores it through variable 1.\<close>

abbreviation store_state :: "int \<Rightarrow> int \<Rightarrow> abstract_state" where
  "store_state l u \<equiv> \<lparr>as_vars = [(1, av_of_addrs [0x7f00000a]), (2, av_of_interval (iv l u))], as_mem = []\<rparr>"

abbreviation store_env :: "place \<rightharpoonup> cval" where
  "store_env \<equiv> [PVar 1 \<mapsto> Adr 0x7f00000a, PVar 2 \<mapsto> Num 4]"

abbreviation store_node :: program where
  "store_node \<equiv> one_node [\<lparr>ed_src = 0, ed_intra = True, ed_cond = Some (2, 4)\<rparr>] [SStore 1 2]"

abbreviation store_run :: run where
  "store_run \<equiv> \<lparr>rn_trace = [0 \<mapsto> store_state 2 5], rn_stack = []\<rparr>"

lemma store_state: "st_ok (store_state 2 5)" "models (store_state 2 5) store_env"
  by (simp_all add: st_ok_def am_ok_def models_def st_gam_def aget_def iv_simps fits_def)

lemma store_narrowed: "isBranchFeasible (\<lambda>_. []) 2 4 (store_state 2 5) = Some (True, store_state 4 4)"
  "as_joinWith as_new (store_state 4 4) = Some (store_state 4 4)"
  by code_simp+

lemma store_edges: "edges_ok store_node (rn_trace store_run) 1"
  using store_narrowed(1)
  by (simp add: edges_ok_def edge_state_def st_ok_def am_ok_def iv_simps fits_def)

lemma store_merge:
  assumes "mergeStatesFromPredecessors store_node 1 store_run = Some (True, set_state 1 t store_run)"
  shows "t = store_state 4 4"
proof -
  have "mergeStatesFromPredecessors store_node 1 store_run = Some (True, set_state 1 (store_state 4 4) store_run)"
    using store_narrowed by (simp add: mergeStatesFromPredecessors_def edge_state_def)
  then have "rn_trace (set_state 1 t store_run) 1 = rn_trace (set_state 1 (store_state 4 4) store_run) 1" using assms by simp
  then show ?thesis by (simp add: set_state_def)
qed

abbreviation arrays :: "nat \<Rightarrow> (address \<Rightarrow> int \<Rightarrow> address option) \<Rightarrow> gep_env" where
  "arrays lim f \<equiv> \<lparr>ge_arrays = True, ge_limit = lim, ge_field = f\<rparr>"


text \<open>Variable 1 points to the object 10, whose fields are 11 and 12.\<close>

abbreviation pointer :: abstract_state where
  "pointer \<equiv> \<lparr>as_vars = [(1, av_of_addrs [0x7f00000a])], as_mem = []\<rparr>"

abbreviation next_ids :: "address \<Rightarrow> int \<Rightarrow> address option" where
  "next_ids o' i \<equiv> Some (if i = 0 then 11 else 12)"

abbreviation field_path :: access_path where
  "field_path \<equiv> \<lparr>ap_fldIdx = 1, ap_pairs = [], ap_pointee = None\<rparr>"

lemma pointer: "st_ok pointer" "models pointer [PVar 1 \<mapsto> Adr 0x7f00000a]" "targets pointer 1 = {0x7f00000a}"
  by (simp_all add: st_ok_def am_ok_def models_def st_gam_def aget_def targets_def) (simp_all add: av_of_addrs_def)

abbreviation a_struct :: ty where
  "a_struct \<equiv> TStruct 16 [TInt 4, TArr 12 3 (TInt 2)]"

subsection \<open>Small grammars and graphs\<close>

text \<open>The productions that \<^verbatim>\<open>fillAttribute\<close> makes of the raw ones.\<close>

abbreviation rules_of :: "(32 word \<times> 32 word list) list \<Rightarrow> (symbol \<times> production list) list \<Rightarrow> production set" where
  "rules_of m raw \<equiv> \<Union>(h, ps)\<in>set raw. \<Union>p\<in>set ps. instances (\<Union>(k, as)\<in>set m. set as) (h # p)"

text \<open>A graph whose labels are symbols and whose edges join its nodes.\<close>

definition labelled_graph :: "cfl_graph \<Rightarrow> bool" where
  "labelled_graph g \<longleftrightarrow> cg_inv g \<and>
     (\<forall>e\<in>edges g. e_flag e = flag_of (edge_symbol e) \<and> e_src e \<in> set (cg_nodes g) \<and> e_dst e \<in> set (cg_nodes g))"

abbreviation sy :: "32 word \<Rightarrow> symbol" where
  "sy \<equiv> sym_of_num"

lemma sy_eq [simp]: "sy m = sy n \<longleftrightarrow> m = n"
  by (metis num_of_sym_of_num)

text \<open>A path of edges with one label.\<close>

definition line_graph :: "symbol \<Rightarrow> nat list \<Rightarrow> cfl_graph option" where
  "line_graph a ns = foldM (\<lambda>(i, j) g. map_option snd (addCFLEdge i j (flag_of a) g)) (zip ns (tl ns)) (fold addCFLNode ns cg_new)"

lemma line_graph_ok:
  "\<exists>g. line_graph a ns = Some g \<and> labelled_graph g \<and> edges g = (\<lambda>(i, j). CFLEdge i (flag_of a) j) ` set (zip ns (tl ns)) \<and>
     set (cg_nodes g) = set ns"
proof -
  have n: "cg_inv (fold addCFLNode ms g) = cg_inv g \<and> edges (fold addCFLNode ms g) = edges g \<and>
      set (cg_nodes (fold addCFLNode ms g)) = set ms \<union> set (cg_nodes g)" for ms g
    by (induction ms arbitrary: g) auto
  have e: "cg_inv g \<Longrightarrow> \<exists>g'. foldM (\<lambda>(i, j) g. map_option snd (addCFLEdge i j (flag_of a) g)) ps g = Some g' \<and> cg_inv g' \<and>
      edges g' = (\<lambda>(i, j). CFLEdge i (flag_of a) j) ` set ps \<union> edges g \<and> cg_nodes g' = cg_nodes g" for ps g
  proof (induction ps arbitrary: g)
    case (Cons p ps)
    obtain i j where p: "p = (i, j)" by fastforce
    obtain r g1 where g1: "addCFLEdge i j (flag_of a) g = Some (r, g1)" "cg_inv g1" "cg_nodes g1 = cg_nodes g"
        "edges g1 = insert (CFLEdge i (flag_of a) j) (edges g)"
      using addCFLEdge_ok[OF Cons.prems, of i j "flag_of a"] unfolding wp_iff by auto
    from Cons.IH[OF g1(2)] g1 show ?case by (auto simp: p)
  qed simp
  have c: "cg_nodes cg_new = []" by (simp add: cg_new_def)
  obtain g where g: "line_graph a ns = Some g" "cg_inv g" "edges g = (\<lambda>(i, j). CFLEdge i (flag_of a) j) ` set (zip ns (tl ns))"
      "set (cg_nodes g) = set ns"
    using e[of "fold addCFLNode ns cg_new" "zip ns (tl ns)"] n[of ns cg_new] c by (auto simp: line_graph_def)
  have "i \<in> set ns \<and> j \<in> set ns" if "(i, j) \<in> set (zip ns (tl ns))" for i j
    using set_zip_leftD[OF that] set_zip_rightD[OF that] list.set_sel(2)[of ns] by (cases ns) auto
  then show ?thesis using g by (auto simp: labelled_graph_def)
qed

text \<open>The solvers return on such graphs.\<close>

lemma labelled_runs:
  assumes "filed eps R gr" "labelled_graph g"
  shows "\<exists>s. cfl_solve gr (solver_new g) = Some s \<and> cg_inv (sv_graph s) \<and> edges (sv_graph s) = cfl_reach eps R (set (cg_nodes g)) (edges g)"
    and "\<exists>s. pocr_solve gr (pocr_new g) = Some s \<and> cg_inv (sv_graph s) \<and> edges (sv_graph s) = cfl_reach eps R (e_src ` edges g) (edges g)"
    and "\<exists>s. hybrid_solve F gr (hybrid_new g) = Some s \<and> cg_inv (sv_graph s) \<and>
      edges (sv_graph s) = cfl_reach eps (R - {[F, F, F]}) (e_src ` edges g) (edges g)"
  using cfl_solve_ok[OF assms(1), of g] pocr_solve_ok[OF assms(1), of g] hybrid_solve_ok[OF assms(1), of g F] assms(2)
  by (auto simp: labelled_graph_def pocr_inv_def graph_inv_def)

lemma same_edges: "cg_inv g \<Longrightarrow> cg_inv h \<Longrightarrow> edges g = edges h \<Longrightarrow> cg_edgeSet g = cg_edgeSet h"
  by (simp add: cg_inv_def edges_def sorted_distinct_set_unique)

subsection \<open>The properties\<close>

text \<open>C1. The handlers of the abstract interpreter are sound: where a statement leads from an environment that the abstract state describes to another, its handler returns a well-formed state that describes that one. Binary operators, comparisons, loads, stores, copies with casts, selects, addresses and parameter passing are covered; what a handler needs of the state (shift amounts, operands of bitwise operators, a single target of a store) is the last hypothesis.\<close>

theorem statement_sound:
  assumes "st_ok s" "models s env" "cstep st env env'" "stmt_room s st"
  shows "wp (handle_on_state g st s) (\<lambda>s'. st_ok s' \<and> models s' env')"
  by (rule handler_sound[OF assms])

theorem statement_sound_witness:
  "wp (handle_on_state no_fields (SBinary Mul 1 2 3) two_numbers)
     (\<lambda>s'. st_ok s' \<and> models s' [PVar 1 \<mapsto> Num 3, PVar 2 \<mapsto> Num 4, PVar 3 \<mapsto> Num 12])"
proof -
  have "cstep (SBinary Mul 1 2 3) [PVar 1 \<mapsto> Num 3, PVar 2 \<mapsto> Num 4] [PVar 1 \<mapsto> Num 3, PVar 2 \<mapsto> Num 4, PVar 3 \<mapsto> Num 12]"
    using cstep.Binary[of "[PVar 1 \<mapsto> Num 3, PVar 2 \<mapsto> Num 4]" 1 3 2 4 Mul 12 3] by (simp add: op_sem_def fits_def)
  then show ?thesis by (intro statement_sound[OF two_numbers]) (simp_all add: stmt_room_def op_room_def)
qed

text \<open>C2. In every reachable state of the points-to cache, with whatever results memoised or entered ahead of time, unionPts of the numbers of two sets returns the number of their union: the invariant is kept, no earlier number changes its set, at most one set is added, and the statistics still add up. The only bound is that the 32-bit counter has not run out.\<close>

theorem cache_unionPts:
  assumes "pc_inv (set_of h) (set_inv h) c" and "length (pc_idToPts c) < 2 ^ 32"
    and "pc_has (set_of h) c lhs S" "pc_has (set_of h) c rhs T"
  shows "wp (pc_unionPts (set_ops h) lhs rhs c) (pc_result (set_of h) (set_inv h) c (S \<union> T))"
  by (rule pts.unionPts_ok[OF assms])

theorem cache_unionPts_witness:
  "\<exists>c i j. pc_stats_ok c \<and> pc_has (set_of id) c i {7} \<and> pc_has (set_of id) c j {7, 9} \<and>
    wp (pc_unionPts (set_ops id) i j c) (pc_result (set_of id) (set_inv id) c ({7} \<union> {7, 9}))"
proof -
  obtain c i j where "pc_inv (set_of id) (set_inv id) c" "pc_stats_ok c" "length (pc_idToPts c) \<le> 3"
    "pc_has (set_of id) c i {7}" "pc_has (set_of id) c j {7, 9}"
    using two_sets_cache[of 7 9 id] by auto
  then show ?thesis using cache_unionPts[of id c i "{7}" j "{7, 9}"] by auto
qed

text \<open>C3. Analysing a node of the control-flow graph composes the parts soundly: an environment that comes over one of the edges into the node, through a branch or not, and that the statements lead to another, is described at its end by the state the analysis leaves at the node. The node calls no function and is its only member; its statements are those with a concrete step (no phi, getelementptr or unary ones), and each is, in the state that its handler meets when the analysis starts from the merge of the predecessors, within what the handler needs. An edge with a condition on loaded variables is subject to what the code takes for granted there, that every object the pointer may target holds the value read.\<close>

theorem node_analysis_sound:
  assumes "pg_sub p n = [n]" "pg_rep p n = n" "pg_call p n = None"
    and "edges_ok p (rn_trace r) n" "e \<in> set (pg_in_edges p n)" "comes_over p (rn_trace r) e env" "reads_back p (rn_trace r) e env"
    and "\<And>t. mergeStatesFromPredecessors p n r = Some (True, set_state n t r) \<Longrightarrow> covered (pg_gep p) t (pg_stmts p n) env env'"
  shows "\<exists>t. handleWTOComponent (Suc (Suc k)) p ext (Singleton n) r = Done (set_state n t r) \<and> st_ok t \<and> models t env'"
  by (rule node_sound[OF assms])

theorem node_analysis_sound_witness:
  "\<exists>t. handleWTOComponent 2 store_node (\<lambda>_ r. Some r) (Singleton 1) store_run = Done (set_state 1 t store_run) \<and>
     st_ok t \<and> models t (store_env(PMem 10 \<mapsto> Num 4))"
proof -
  let ?e = "\<lparr>ed_src = 0, ed_intra = True, ed_cond = Some (2, 4)\<rparr>"
  have step: "cstep (SStore 1 2) store_env (store_env(PMem 10 \<mapsto> Num 4))"
    using cstep.Store[of store_env 1 "0x7f00000a" 2 "Num 4"] getInternalID_10 by simp
  have "covered (pg_gep store_node) t (pg_stmts store_node 1) store_env (store_env(PMem 10 \<mapsto> Num 4))"
    if "mergeStatesFromPredecessors store_node 1 store_run = Some (True, set_state 1 t store_run)" for t
  proof -
    have "targets t 1 = {0x7f00000a}" using store_merge[OF that] by (simp add: targets_def aget_def av_of_addrs_def)
    then show ?thesis using step by (auto intro!: covered.Cons simp: stmt_room_def isVirtual_10)
  qed
  moreover have "edges_ok store_node (rn_trace store_run) 1" by (rule store_edges)
  moreover have "comes_over store_node (rn_trace store_run) ?e store_env" "reads_back store_node (rn_trace store_run) ?e store_env"
    using store_state by (simp_all add: comes_over_def reads_back_def takes_branch_def all_targets_read_def)
  ultimately show ?thesis
    using node_analysis_sound[of store_node 1 store_run ?e store_env "store_env(PMem 10 \<mapsto> Num 4)" 0 "\<lambda>_ r. Some r"]
    by (simp add: numeral_2_eq_2)
qed

text \<open>C4. The persistent table over a shared cache and the mutable table answer every sequence of calls of PTData in the same way: the same sets, the same reverse sets and the same change flags, and neither fails. They may share the cache with any other table; the 32-bit counter must have room for two sets per call.\<close>

theorem persistent_answers_as_mutable:
  assumes "pc_inv (set_of h) (set_inv h) c"
    and "length (pc_idToPts c) + 2 * length xs \<le> 2 ^ 32"
    and "list_all (ptd_op_ok (node_id h) (set_inv h) rv) xs"
  shows "\<exists>rs. map_option fst (ptd_run (pp_ops (set_ops h)) (set_of h) xs (c, pp_new rv)) = Some rs \<and>
    map_option fst (ptd_run (mp_ops (set_ops h)) (set_of h) xs (mp_new rv)) = Some rs"
  using pers_run_ok[OF assms] mut_run_ok[OF assms(3)] by blast

theorem persistent_answers_as_mutable_witness:
  "\<exists>c rs. map_option fst (ptd_run (pp_ops (set_ops id)) (set_of id)
      [AddPts (1::nat) 7, UnionPts 2 1, ClearPts 1 7, GetRevPts 7] (c, pp_new True)) = Some rs \<and>
    map_option fst (ptd_run (mp_ops (set_ops id)) (set_of id)
      [AddPts 1 7, UnionPts 2 1, ClearPts 1 7, GetRevPts 7] (mp_new True)) = Some rs"
proof -
  obtain c where "pc_inv (set_of id) (set_inv id) c" "length (pc_idToPts c) = 1"
    using new_cache by blast
  then have "\<exists>rs. map_option fst (ptd_run (pp_ops (set_ops id)) (set_of id)
      [AddPts (1::nat) 7, UnionPts 2 1, ClearPts 1 7, GetRevPts 7] (c, pp_new True)) = Some rs \<and>
    map_option fst (ptd_run (mp_ops (set_ops id)) (set_of id)
      [AddPts 1 7, UnionPts 2 1, ClearPts 1 7, GetRevPts 7] (mp_new True)) = Some rs"
    by (intro persistent_answers_as_mutable) simp_all
  then show ?thesis by blast
qed

text \<open>C5. The solver of CFL reachability returns on every grammar and every labelled graph, and the graph it leaves has an edge from one node to another exactly if the labels along some path between them are derived from its label by the productions, with attributes filled, of the grammar; empty productions label empty paths.\<close>

theorem cfl_solver_finds_paths:
  assumes "labelled_graph g" "i \<in> set (cg_nodes g)"
  shows "\<exists>s. cfl_solve (fillAttribute eps m raw gr_new) (solver_new g) = Some s \<and>
    (CFLEdge i (flag_of a) j \<in> edges (sv_graph s) \<longleftrightarrow>
       (\<exists>w. derives eps (rules_of m raw) a w \<and> cfl_path (edges g) i w j))"
  using labelled_runs(1)[OF fillAttribute_files[where eps = eps and raw = raw and m = m] assms(1)] assms
    reach_iff_path[OF assms(2), of "edges g" a j eps "rules_of m raw"]
  by (auto simp: labelled_graph_def)

theorem cfl_solver_finds_paths_witness:
  "\<exists>g s. line_graph (sy 2) [1, 2, 3] = Some g \<and>
    cfl_solve (fillAttribute 0 [] [(sy 1, [[sy 2], [sy 1, sy 1]])] gr_new) (solver_new g) = Some s \<and>
    CFLEdge 1 (flag_of (sy 1)) 3 \<in> edges (sv_graph s)"
proof -
  obtain g where g: "line_graph (sy 2) [1, 2, 3] = Some g" "labelled_graph g" "set (cg_nodes g) = {1, 2, 3}"
      "edges g = {CFLEdge 1 (flag_of (sy 2)) 2, CFLEdge 2 (flag_of (sy 2)) 3}"
    using line_graph_ok[of "sy 2" "[1, 2, 3]"] by auto
  let ?raw = "[(sy 1, [[sy 2], [sy 1, sy 1]])]"
  have v: "sy_variableAttribute (sy 1) = 0" "sy_variableAttribute (sy 2) = 0" by (simp_all add: sym_of_num_def)
  have R: "rules_of [] ?raw = {[sy 1, sy 2], [sy 1, sy 1, sy 1]}"
    by (simp add: instances_closed v) blast
  have "derives 0 (rules_of [] ?raw) (sy 1) [sy 2]"
    unfolding R by (rule derives.one[OF _ _ derives.itself]) (simp_all add: eps_production_def)
  from derives.two[OF _ this this, of "sy 1"] have "derives 0 (rules_of [] ?raw) (sy 1) [sy 2, sy 2]" unfolding R by simp
  moreover have "cfl_path (edges g) 1 [sy 2, sy 2] 3" by (simp add: g(4))
  moreover have "1 \<in> set (cg_nodes g)" by (simp add: g(3))
  ultimately show ?thesis using cfl_solver_finds_paths[OF g(2), of 1 0 "[]" ?raw "sy 1" 3] g(1) by blast
qed

text \<open>C6. A branch that an environment takes is found feasible, and the state that the condition refines, with the operands narrowed and the objects they were loaded from, still describes the environment. The last hypothesis is what the code takes for granted: where the condition is on loaded variables, every object that the loaded pointer may target in the state holds the value that was read. Without it the claim is false (branch_narrows_all_objects), as the code narrows all of them.\<close>

theorem taken_branch_feasible:
  assumes "st_ok s" "models s env" "takes_branch ie env var n"
    and "all_targets_read ie s env var"
  shows "wp (isBranchFeasible ie var n s) (\<lambda>(b, s'). b \<and> st_ok s' \<and> models s' env)"
  by (rule branch_sound[OF assms])

theorem taken_branch_feasible_witness:
  "wp (isBranchFeasible loaded_compare 4 1 loaded_state)
     (\<lambda>(b, s'). b \<and> st_ok s' \<and> models s' loaded_env)"
proof (rule taken_branch_feasible[OF loaded_state])
  show "takes_branch loaded_compare loaded_env 4 1" by (simp add: takes_branch_def pred_sem_def truth_def)
  have "targets loaded_state 1 = {0x7f00000a}" by (simp add: targets_def aget_def av_of_addrs_def)
  moreover have "getInternalID 0x7f00000a = 10" "isVirtualMemAddress 0x7f00000a" by code_simp+
  ultimately show "all_targets_read loaded_compare loaded_state loaded_env 4"
    by (simp add: all_targets_read_def loaded_def load_pointer_def holds_def)
qed

text \<open>C7. The flow-sensitive tables: PersistentDFPTData, which unites numbers of a shared cache, and MutableDFPTData, which unites sets in place, answer every sequence of their calls other than clear alike, with the same sets of top-level pointers, IN and OUT and the same change flags. After clear they differ: MutableDFPTData keeps every IN and OUT set, PersistentDFPTData empties them (mutable_clear_keeps_flow). Reverse sets are left out: the persistent table is built without them, as the analyses do. The 32-bit counter must have room for the sets of the run.\<close>

theorem flow_answers_alike:
  assumes "pc_inv (set_of h) (set_inv h) c" and "df_room c (length xs)"
    and "list_all (df_op_ok (node_id h) (set_inv h) (\<lambda>_. True)) xs"
  shows "\<exists>rs. map_option fst (df_run (pf_ops (set_ops h)) (set_of h) xs (c, pf_new False)) = Some rs \<and>
    map_option fst (df_run (mf_ops (set_ops h)) (set_of h) xs (mf_new rv)) = Some rs"
  using pf_run_ok[OF assms] mf_run_ok[OF assms(3)] by blast

theorem flow_answers_alike_witness:
  "\<exists>c rs. map_option fst (df_run (pf_ops (set_ops id)) (set_of id)
      [AddTL (3::nat) 7, UpdateATV 3 4 5, InFromOut 4 5 6 5, AllOutFromIn 6 9 True, GetOUT 6 5] (c, pf_new False)) = Some rs \<and>
    map_option fst (df_run (mf_ops (set_ops id)) (set_of id)
      [AddTL (3::nat) 7, UpdateATV 3 4 5, InFromOut 4 5 6 5, AllOutFromIn 6 9 True, GetOUT 6 5] (mf_new False)) = Some rs"
proof -
  obtain c where "pc_inv (set_of id) (set_inv id) c" "length (pc_idToPts c) = 1"
    using new_cache by blast
  then have "\<exists>rs. map_option fst (df_run (pf_ops (set_ops id)) (set_of id)
      [AddTL (3::nat) 7, UpdateATV 3 4 5, InFromOut 4 5 6 5, AllOutFromIn 6 9 True, GetOUT 6 5] (c, pf_new False)) = Some rs \<and>
    map_option fst (df_run (mf_ops (set_ops id)) (set_of id)
      [AddTL (3::nat) 7, UpdateATV 3 4 5, InFromOut 4 5 6 5, AllOutFromIn 6 9 True, GetOUT 6 5] (mf_new False)) = Some rs"
    by (intro flow_answers_alike) (simp_all add: df_room_def)
  then show ?thesis by blast
qed

text \<open>C8. Merging the predecessors of a node stores the least state above those of its feasible edges; without any the node is not entered and nothing changes.\<close>

theorem merge_is_least_join:
  assumes "edges_ok p (rn_trace r) n"
  shows "wp (mergeStatesFromPredecessors p n r) (\<lambda>(ok, r'). \<exists>sss. mapM (edge_state p (rn_trace r)) (pg_in_edges p n) = Some sss \<and>
    (ok \<longleftrightarrow> concat sss \<noteq> []) \<and> (\<not> ok \<longrightarrow> r' = r) \<and>
    (ok \<longrightarrow> (\<exists>t. r' = set_state n t r \<and> st_ok t \<and> (\<forall>s\<in>set (concat sss). st_gam s \<subseteq> st_gam t) \<and>
      (\<forall>d. st_ok d \<longrightarrow> (\<forall>s\<in>set (concat sss). st_gam s \<subseteq> st_gam d) \<longrightarrow> st_gam t \<subseteq> st_gam d))))"
  by (rule merge_least[OF assms])

theorem merge_is_least_join_witness:
  "\<exists>t. mergeStatesFromPredecessors (one_node [from_node 0, from_node 2] []) 1 entered = Some (True, set_state 1 t entered) \<and>
     st_gam t = st_gam two_numbers"
proof -
  let ?p = "one_node [from_node 0, from_node 2] []"
  have e: "edges_ok ?p (rn_trace entered) 1" using two_numbers(1) by (simp add: edges_ok_def edge_state_def)
  obtain ok r' sss where m: "mergeStatesFromPredecessors ?p 1 entered = Some (ok, r')"
      "mapM (edge_state ?p (rn_trace entered)) (pg_in_edges ?p 1) = Some sss" "ok \<longleftrightarrow> concat sss \<noteq> []"
      "ok \<longrightarrow> (\<exists>t. r' = set_state 1 t entered \<and> st_ok t \<and> (\<forall>s\<in>set (concat sss). st_gam s \<subseteq> st_gam t) \<and>
        (\<forall>d. st_ok d \<longrightarrow> (\<forall>s\<in>set (concat sss). st_gam s \<subseteq> st_gam d) \<longrightarrow> st_gam t \<subseteq> st_gam d))"
    using merge_is_least_join[OF e] unfolding wp_iff by blast
  have "sss = [[two_numbers], []]" using m(2) one_node_states by simp
  then obtain t where t: "ok" "r' = set_state 1 t entered" "st_gam two_numbers \<subseteq> st_gam t" "st_gam t \<subseteq> st_gam two_numbers"
    using m(3,4) two_numbers(1) by auto
  show ?thesis using m(1) t by (intro exI[of _ t]) (simp add: t(1))
qed

text \<open>C9. The incremental flow-sensitive tables, PersistentIncDFPTData with a set of keys and MutableIncDFPTData with a points-to set for the variables marked as new, answer every sequence of their calls other than clear alike. After clear they differ: MutableIncDFPTData keeps IN, OUT and the marks, PersistentIncDFPTData empties them. Reverse sets are left out, as for the tables that are not incremental. Keys must be node numbers for the mutable one, as it keeps them in points-to sets; the 32-bit counter must have room for the sets of the run.\<close>

theorem incremental_flow_answers_alike:
  assumes "pc_inv (set_of h) (set_inv h) c" and "df_room c (length xs)"
    and "list_all (df_op_ok (node_id h) (set_inv h) (node_id h)) xs"
  shows "\<exists>rs. map_option fst (df_run (pi_ops (set_ops h)) (set_of h) xs (pi_new c False)) = Some rs \<and>
    map_option fst (df_run (mi_ops (set_ops h)) (set_of h) xs (mi_new rv)) = Some rs"
proof -
  have "list_all (df_op_ok (node_id h) (set_inv h) (\<lambda>_. True)) xs"
    using df_ops_ok_keys[OF assms(3)] .
  from pi_run_ok[OF assms(1,2) this] mi_run_ok[OF assms(3)] show ?thesis by blast
qed

theorem incremental_flow_answers_alike_witness:
  "\<exists>c rs. map_option fst (df_run (pi_ops (set_ops id)) (set_of id)
      [AddTL (3::nat) 7, UpdateATV 3 4 5, InFromOut 4 5 6 5, AllOutFromIn 6 9 True, GetOUT 6 5] (pi_new c False)) = Some rs \<and>
    map_option fst (df_run (mi_ops (set_ops id)) (set_of id)
      [AddTL (3::nat) 7, UpdateATV 3 4 5, InFromOut 4 5 6 5, AllOutFromIn 6 9 True, GetOUT 6 5] (mi_new False)) = Some rs"
proof -
  obtain c where "pc_inv (set_of id) (set_inv id) c" "length (pc_idToPts c) = 1"
    using new_cache by blast
  then have "\<exists>rs. map_option fst (df_run (pi_ops (set_ops id)) (set_of id)
      [AddTL (3::nat) 7, UpdateATV 3 4 5, InFromOut 4 5 6 5, AllOutFromIn 6 9 True, GetOUT 6 5] (pi_new c False)) = Some rs \<and>
    map_option fst (df_run (mi_ops (set_ops id)) (set_of id)
      [AddTL (3::nat) 7, UpdateATV 3 4 5, InFromOut 4 5 6 5, AllOutFromIn 6 9 True, GetOUT 6 5] (mi_new False)) = Some rs"
    by (intro incremental_flow_answers_alike) (simp_all add: df_room_def)
  then show ?thesis by blast
qed

text \<open>C10. The flattened information of a type is that of the reference definitions: the scalars in order, the fields with arrays taken for one element, and where each part starts; no count wraps around when the numbers of elements are below 2^32.\<close>

theorem flattening_is_reference:
  assumes "ty_ok t"
  shows "wp (collectTypeInfo t) (info_ok t)"
  by (rule collectTypeInfo_ok[OF assms])

theorem flattening_is_reference_witness:
  "wp (collectTypeInfo a_struct) (\<lambda>i. si_elemTypes i = [TInt 4, TInt 2, TInt 2, TInt 2] \<and> si_finfo i = [TInt 4, TInt 2] \<and> si_elemIdx i = [0, 1])"
proof -
  have "wp (collectTypeInfo a_struct) (info_ok a_struct)" by (rule flattening_is_reference) simp
  then show ?thesis by (rule wp_mono) (simp add: info_ok_def starts_def numeral_3_eq_3)
qed

text \<open>C11. Interning: emplacePts of two sets returns the same number exactly when the sets are equal, and the number stands for the set; so the tables may compare sets by comparing numbers.\<close>

theorem cache_numbers_identify_sets:
  assumes "pc_inv (set_of h) (set_inv h) c" and "length (pc_idToPts c) + 2 \<le> 2 ^ 32"
    and "set_inv h d" "set_inv h e"
  shows "wp (pc_emplacePts (set_ops h) d c) (\<lambda>(i, c1). wp (pc_emplacePts (set_ops h) e c1)
    (\<lambda>(j, c2). (i = j \<longleftrightarrow> set_of h d = set_of h e) \<and> pc_has (set_of h) c2 i (set_of h d)))"
proof -
  obtain i c1 where c1: "pc_emplacePts (set_ops h) d c = Some (i, c1)"
    "pc_result (set_of h) (set_inv h) c (set_of h d) (i, c1)"
    using pts.emplacePts_ok[OF assms(1,3)] assms(2) by (auto simp: wp_iff)
  then have inv: "pc_inv (set_of h) (set_inv h) c1" "length (pc_idToPts c1) < 2 ^ 32"
    "pc_has (set_of h) c1 i (set_of h d)" using assms(2) by (simp_all add: pc_result_def)
  obtain j c2 where c2: "pc_emplacePts (set_ops h) e c1 = Some (j, c2)"
    "pc_result (set_of h) (set_inv h) c1 (set_of h e) (j, c2)"
    using pts.emplacePts_ok[OF inv(1) assms(4) inv(2)] by (auto simp: wp_iff)
  then have c2': "pc_inv (set_of h) (set_inv h) c2" "pc_has (set_of h) c2 j (set_of h e)"
    "pc_has (set_of h) c2 i (set_of h d)" using inv(3) pc_has_ext by (auto simp: pc_result_def)
  then show ?thesis using c1(1) c2(1) pc_has_inject[OF c2'(1,3,2)] by simp
qed

theorem cache_numbers_identify_sets_witness:
  "\<exists>c d e. set_of id d = {7} \<and> set_of id e = {9} \<and> wp (pc_emplacePts (set_ops id) d c) (\<lambda>(i, c1).
    wp (pc_emplacePts (set_ops id) e c1) (\<lambda>(j, c2). i \<noteq> j \<and> pc_has (set_of id) c2 i {7}))"
proof -
  obtain c where c: "pc_inv (set_of id) (set_inv id) c" "length (pc_idToPts c) = 1" using new_cache by blast
  obtain d e where d: "set_inv id d" "set_of id d = {7}" and e: "set_inv id e" "set_of id e = {9}"
    using singleton_set[of 7 id] singleton_set[of 9 id] by auto
  have "wp (pc_emplacePts (set_ops id) d c) (\<lambda>(i, c1). wp (pc_emplacePts (set_ops id) e c1)
    (\<lambda>(j, c2). (i = j \<longleftrightarrow> set_of id d = set_of id e) \<and> pc_has (set_of id) c2 i (set_of id d)))"
    by (rule cache_numbers_identify_sets[OF c(1) _ d(1) e(1)]) (simp add: c(2))
  then have "wp (pc_emplacePts (set_ops id) d c) (\<lambda>(i, c1).
    wp (pc_emplacePts (set_ops id) e c1) (\<lambda>(j, c2). i \<noteq> j \<and> pc_has (set_of id) c2 i {7}))"
    by (simp add: d(2) e(2))
  then show ?thesis using d(2) e(2) by blast
qed

text \<open>C12. The iteration over a cycle returns: from whatever state the head has after the widening delay, widening and then narrowing reach a fixpoint, provided that the rest of the cycle returns, keeps the state of the head and, while narrowing, feeds it intervals within those it has.\<close>

theorem loop_analysis_returns:
  assumes "cycle_contract h merge_head exec_head body I J" "I r"
  shows "\<exists>n r'. cycle_loop n delay h merge_head exec_head body True 0 r = Done r'"
  by (rule cycle_ends[OF assms])

theorem loop_analysis_returns_witness:
  "\<exists>n r'. cycle_loop n 3 1 (handleWTOComponent 2 (one_node [from_node 0] []) (\<lambda>_ r. Some r) (Singleton 1))
     (handleSingletonWTO 1 (one_node [from_node 0] []) (\<lambda>_ r. Some r) 1) Done True 0 (set_state 1 two_numbers entered) = Done r'"
proof -
  have w: "as_widening two_numbers two_numbers = Some two_numbers" "as_narrowing two_numbers two_numbers = Some two_numbers"
    "as_eq two_numbers two_numbers" "iv_containedWithin (iv 2 5) (iv 2 5)" "iv_containedWithin (iv 4 4) (iv 4 4)"
    by code_simp+
  then have n: "narrow_room (as_vars two_numbers) (as_vars two_numbers)" "narrow_room (as_mem two_numbers) (as_mem two_numbers)"
    by (simp_all add: narrow_room_def av_of_interval_def)
  let ?I = "\<lambda>r. rn_trace r 0 = Some two_numbers \<and> rn_trace r 1 = Some two_numbers"
  let ?p = "one_node [from_node 0] []"
  have "cycle_contract 1 (handleWTOComponent 2 ?p (\<lambda>_ r. Some r) (Singleton 1)) (handleSingletonWTO 1 ?p (\<lambda>_ r. Some r) 1) Done ?I ?I"
    unfolding cycle_contract_def
    using two_numbers(1) w n by (auto simp: one_node_merge set_state_def of_option_def simp del: One_nat_def) (simp add: of_option_def)
  then show ?thesis by (rule loop_analysis_returns) (simp add: set_state_def)
qed

text \<open>C13. The weak topological order of a finite graph: the construction returns, the order has exactly the nodes that are reachable from the entry, each once, and every edge between them leads forward in it or back to the head of a cycle around its source. isHead recognises the heads of its cycles, and the depth that is recorded for a node has the heads of the cycles around it, without itself. The second hypothesis keeps the 32-bit depth-first numbers, of which a node takes one for each visit, below the mark for nodes that are done.\<close>

theorem weak_topological_order:
  assumes "finite N" "\<And>n. n \<in> N \<Longrightarrow> set (S n) \<subseteq> N" "v \<in> N"
    and "card N + (\<Sum>i<card N. i) < 4294967295"
  shows "wp (wto_init S v wto_new) (\<lambda>w. distinct (nodes_of (wt_components w)) \<and>
    set (nodes_of (wt_components w)) = reachable S v \<and> weak_order S (wt_components w) \<and>
    (\<forall>n. isHead n w \<longleftrightarrow> (\<exists>c. (n, c) \<in> set (cycles_of (wt_components w)))) \<and>
    (\<forall>n. in_cycleDepth_table n w \<longleftrightarrow> n \<in> reachable S v) \<and>
    (\<forall>n\<in>reachable S v. wp (cycleDepth n w) (\<lambda>d. set d = around (wt_components w) n)))"
  by (rule wto_init_ok[OF assms])

theorem weak_topological_order_witness:
  "wp (wto_init ((\<lambda>_. [])(1 := [2], 2 := [3], 3 := [2, 4])) 1 wto_new)
     (\<lambda>w. 4 \<in> set (nodes_of (wt_components w)) \<and> distinct (nodes_of (wt_components w)) \<and>
       weak_order ((\<lambda>_. [])(1 := [2], 2 := [3], 3 := [2, 4])) (wt_components w))"
proof -
  let ?S = "(\<lambda>_. [])(1 := [2], 2 := [3], 3 := [2, 4]) :: nat \<Rightarrow> nat list"
  have "4 \<in> reachable ?S 1"
    by (rule reachable_step[of 3], rule reachable_step[of 2], rule reachable_step[of 1]) (simp_all add: reachable_def)
  moreover have "wp (wto_init ?S 1 wto_new) (\<lambda>w. distinct (nodes_of (wt_components w)) \<and>
    set (nodes_of (wt_components w)) = reachable ?S 1 \<and> weak_order ?S (wt_components w) \<and>
    (\<forall>n. isHead n w \<longleftrightarrow> (\<exists>c. (n, c) \<in> set (cycles_of (wt_components w)))) \<and>
    (\<forall>n. in_cycleDepth_table n w \<longleftrightarrow> n \<in> reachable ?S 1) \<and>
    (\<forall>n\<in>reachable ?S 1. wp (cycleDepth n w) (\<lambda>d. set d = around (wt_components w) n)))"
    by (rule weak_topological_order[of "{1, 2, 3, 4}"]) (auto simp: lessThan_nat_numeral)
  ultimately show ?thesis by (auto elim!: wp_mono)
qed

text \<open>C14. Nuutila's search for strongly connected components: on every graph with nodes below UINT_MAX find returns, from all nodes or from candidates, and for the nodes that are reachable from them repNode gives a node of their component, the same for two nodes just when each reaches the other, subNodes of a representative are its component, isInCycle decides whether a node is on a cycle, and the stack has every representative once, in topological order of the components. getRepNodes gives the representatives of components of several nodes only, although its comment says all representatives.\<close>

theorem strongly_connected_components:
  assumes "N \<subseteq> {..<4294967295}" "\<And>n. n \<in> N \<Longrightarrow> set (S n) \<subseteq> N" "set nodes \<subseteq> N"
  shows "wp (scc_find S nodes s) (\<lambda>t. \<exists>rep. let R = (\<Union>v\<in>set nodes. reachable S v); T = topoNodeStack t in
    (\<forall>n\<in>R. repNode t n = Some (rep n) \<and> mutual S n (rep n) \<and> subNodes t (rep n) = Some {u. mutual S n u} \<and>
      isInCycle S t n = Some (on_cycle S n)) \<and>
    (\<forall>n\<in>R. \<forall>m\<in>R. rep n = rep m \<longleftrightarrow> mutual S n m) \<and> distinct T \<and> set T = rep ` R \<and>
    (\<forall>u\<in>R. \<forall>x\<in>set (S u). rep u \<noteq> rep x \<longrightarrow> precedes T (rep u) (rep x)) \<and>
    getRepNodes t = {r \<in> R. rep r = r \<and> (\<exists>u. mutual S r u \<and> u \<noteq> r)})"
  by (rule scc_find_ok[where S = S and s = s, OF assms])

theorem strongly_connected_components_witness:
  "wp (scc_find ((\<lambda>_. [])(1 := [2], 2 := [3], 3 := [2])) [1, 2, 3] scc_new) (\<lambda>t. repNode t 2 = repNode t 3 \<and>
     isInCycle ((\<lambda>_. [])(1 := [2], 2 := [3], 3 := [2])) t 2 = Some True \<and> distinct (topoNodeStack t))"
proof -
  let ?S = "(\<lambda>_. [])(1 := [2], 2 := [3], 3 := [2]) :: nat \<Rightarrow> nat list"
  have r: "3 \<in> reachable ?S 2" "2 \<in> reachable ?S 3" "2 \<in> reachable ?S 2" "3 \<in> reachable ?S 3"
    using reachable_edge[of 3 ?S 2] reachable_edge[of 2 ?S 3] by (simp_all add: reachable_def)
  then have m: "mutual ?S 2 3" "on_cycle ?S 2" by (simp_all add: mutual_def on_cycle_def)
  have N: "{1, 2, 3 :: nat} \<subseteq> {..<4294967295}" "set [1, 2, 3 :: nat] \<subseteq> {1, 2, 3}" by simp_all
  have S: "set (?S n) \<subseteq> {1, 2, 3}" if "n \<in> {1, 2, 3}" for n using that by (elim insertE) simp_all
  let ?R = "\<Union>v\<in>set [1, 2, 3]. reachable ?S v"
  have R: "2 \<in> ?R" "3 \<in> ?R" using r by simp_all
  show ?thesis
  proof (rule wp_mono[OF strongly_connected_components[where S = ?S and s = scc_new, OF N(1) S N(2)]])
    fix t
    assume "\<exists>rep. let R = ?R; T = topoNodeStack t in
      (\<forall>n\<in>R. repNode t n = Some (rep n) \<and> mutual ?S n (rep n) \<and> subNodes t (rep n) = Some {u. mutual ?S n u} \<and>
        isInCycle ?S t n = Some (on_cycle ?S n)) \<and>
      (\<forall>n\<in>R. \<forall>m\<in>R. rep n = rep m \<longleftrightarrow> mutual ?S n m) \<and> distinct T \<and> set T = rep ` R \<and>
      (\<forall>u\<in>R. \<forall>x\<in>set (?S u). rep u \<noteq> rep x \<longrightarrow> precedes T (rep u) (rep x)) \<and>
      getRepNodes t = {r \<in> R. rep r = r \<and> (\<exists>u. mutual ?S r u \<and> u \<noteq> r)}"
    then obtain rep where h: "(\<forall>n\<in>?R. repNode t n = Some (rep n) \<and> mutual ?S n (rep n) \<and> subNodes t (rep n) = Some {u. mutual ?S n u} \<and>
        isInCycle ?S t n = Some (on_cycle ?S n)) \<and> (\<forall>n\<in>?R. \<forall>m\<in>?R. rep n = rep m \<longleftrightarrow> mutual ?S n m) \<and> distinct (topoNodeStack t)"
      unfolding Let_def by (elim exE conjE) (rule that, intro conjI)
    have "repNode t 2 = Some (rep 2)" "repNode t 3 = Some (rep 3)" "isInCycle ?S t 2 = Some (on_cycle ?S 2)"
      using bspec[OF conjunct1[OF h] R(1)] bspec[OF conjunct1[OF h] R(2)] by simp_all
    moreover have "rep 2 = rep 3" using bspec[OF bspec[OF conjunct1[OF conjunct2[OF h]] R(1)] R(2)] m(1) by simp
    ultimately show "repNode t 2 = repNode t 3 \<and> isInCycle ?S t 2 = Some True \<and> distinct (topoNodeStack t)"
      using h m(2) by simp
  qed
qed

text \<open>C15. POCRSolver, which keeps successors and predecessors by label in maps, adds whole sets at once and processes only new edges, leaves the same graph as CFLSolver wherever every node has an outgoing edge.\<close>

theorem pocr_answers_alike:
  assumes "filed eps R gr" "labelled_graph g" "set (cg_nodes g) \<subseteq> e_src ` edges g"
  shows "\<exists>s t. cfl_solve gr (solver_new g) = Some s \<and> pocr_solve gr (pocr_new g) = Some t \<and>
    cg_edgeSet (sv_graph s) = cg_edgeSet (sv_graph t)"
proof -
  have "e_src ` edges g = set (cg_nodes g)" using assms(2,3) by (auto simp: labelled_graph_def)
  then show ?thesis using labelled_runs(1,2)[OF assms(1,2)] same_edges by metis
qed

theorem pocr_answers_alike_witness:
  "\<exists>g s t. line_graph (sy 2) [1, 2, 1] = Some g \<and>
    cfl_solve (fold (insertToCFLGrammar 0) [[sy 1, sy 0], [sy 1, sy 2, sy 1]] gr_new) (solver_new g) = Some s \<and>
    pocr_solve (fold (insertToCFLGrammar 0) [[sy 1, sy 0], [sy 1, sy 2, sy 1]] gr_new) (pocr_new g) = Some t \<and>
    cg_edgeSet (sv_graph s) = cg_edgeSet (sv_graph t)"
proof -
  obtain g where g: "line_graph (sy 2) [1, 2, 1] = Some g" "labelled_graph g" "set (cg_nodes g) = {1, 2}"
      "edges g = {CFLEdge 1 (flag_of (sy 2)) 2, CFLEdge 2 (flag_of (sy 2)) 1}"
    using line_graph_ok[of "sy 2" "[1, 2, 1]"] by auto
  show ?thesis
    using pocr_answers_alike[OF filed_fold[OF filed_new, of 0 "[[sy 1, sy 0], [sy 1, sy 2, sy 1]]"] g(2)] g(1,3,4) by auto
qed



text \<open>C17. A persistent table is a finite map from keys to sets: every sequence of calls on a new table returns what the same calls return on plain sets.\<close>

theorem persistent_refines_sets:
  assumes "pc_inv (set_of h) (set_inv h) c"
    and "length (pc_idToPts c) + 2 * length xs \<le> 2 ^ 32"
    and "list_all (ptd_op_ok (node_id h) (set_inv h) rv) xs"
  shows "map_option fst (ptd_run (pp_ops (set_ops h)) (set_of h) xs (c, pp_new rv)) =
    Some (fst (spec_run (set_of h) xs (\<lambda>_. {})))"
  by (rule pers_run_ok[OF assms])

theorem persistent_refines_sets_witness:
  "\<exists>c. map_option fst (ptd_run (pp_ops (set_ops id)) (set_of id)
      [AddPts (1::nat) 7, UnionPts 2 1, ClearPts 1 7, GetPts 1, GetRevPts 7, RemapAllPts, UnionPts 2 1] (c, pp_new True)) =
    Some [Changed True, Changed True, ptd_answer.Done, Pts {}, RevPts {2}, ptd_answer.Done, Changed False]"
proof -
  let ?xs = "[AddPts (1::nat) 7, UnionPts 2 1, ClearPts 1 7, GetPts 1, GetRevPts 7, RemapAllPts, UnionPts 2 1]"
  obtain c where c: "pc_inv (set_of id) (set_inv id) c" "length (pc_idToPts c) = 1"
    using new_cache by blast
  have "fst (spec_run (set_of id) ?xs (\<lambda>_. {})) =
    [Changed True, Changed True, ptd_answer.Done, Pts {}, RevPts {2}, ptd_answer.Done, Changed False]" by auto
  moreover have "map_option fst (ptd_run (pp_ops (set_ops id)) (set_of id) ?xs (c, pp_new True)) =
    Some (fst (spec_run (set_of id) ?xs (\<lambda>_. {})))"
    by (rule persistent_refines_sets) (use c in simp_all)
  ultimately show ?thesis by metis
qed

text \<open>C18. A flow-sensitive table is three maps from slots to sets: an update along an edge unites one slot into another, updateAllDFOutFromIn unites every IN set of a point into the OUT set of the same variable, all but the strongly updated one, and every answer is that of plain sets.\<close>

theorem flow_refines_sets:
  assumes "pc_inv (set_of h) (set_inv h) c" and "df_room c (length xs)"
    and "list_all (df_op_ok (node_id h) (set_inv h) (\<lambda>_. True)) xs"
  shows "map_option fst (df_run (pf_ops (set_ops h)) (set_of h) xs (c, pf_new False)) =
    Some (fst (spec_df_run (full_run1 (set_of h)) xs (\<lambda>_. {})))"
  by (rule pf_run_ok[OF assms])

theorem flow_refines_sets_witness:
  "\<exists>c. map_option fst (df_run (pf_ops (set_ops id)) (set_of id)
      [AddTL (3::nat) 7, UpdateATV 3 4 5, InFromOut 4 5 6 5, AllOutFromIn 6 5 True, GetOUT 6 5, AllOutFromIn 6 9 True, GetOUT 6 5]
      (c, pf_new False)) =
    Some [ChangedDF True, ChangedDF True, ChangedDF True, ChangedDF False, PtsDF {}, ChangedDF True, PtsDF {7}]"
proof -
  let ?xs = "[AddTL (3::nat) 7, UpdateATV 3 4 5, InFromOut 4 5 6 5, AllOutFromIn 6 5 True, GetOUT 6 5, AllOutFromIn 6 9 True, GetOUT 6 5]"
  obtain c where c: "pc_inv (set_of id) (set_inv id) c" "length (pc_idToPts c) = 1"
    using new_cache by blast
  have "new_outs 6 (- {5}) ((\<lambda>_. {})(TLs (3::nat) := {7::nat}, OUTs 4 5 := {7}, INs 6 5 := {7})) = {}"
    by (auto simp: new_outs_def)
  moreover have "5 \<in> new_outs 6 (- {9}) ((\<lambda>_. {})(TLs (3::nat) := {7::nat}, OUTs 4 5 := {7}, INs 6 5 := {7}))"
    by (simp add: new_outs_def)
  moreover have "outs_from_ins 6 (- {5}) ((\<lambda>_. {})(TLs (3::nat) := {7::nat}, OUTs 4 5 := {7}, INs 6 5 := {7})) =
      (\<lambda>_. {})(TLs (3::nat) := {7::nat}, OUTs 4 5 := {7}, INs 6 5 := {7})"
    by (auto simp: outs_from_ins_def fun_eq_iff split: slot.splits)
  ultimately have "fst (spec_df_run (full_run1 (set_of id)) ?xs (\<lambda>_. {})) =
    [ChangedDF True, ChangedDF True, ChangedDF True, ChangedDF False, PtsDF {}, ChangedDF True, PtsDF {7}]"
    by (auto simp: into_def outs_from_ins_def Let_def)
  moreover have "map_option fst (df_run (pf_ops (set_ops id)) (set_of id) ?xs (c, pf_new False)) =
    Some (fst (spec_df_run (full_run1 (set_of id)) ?xs (\<lambda>_. {})))"
    by (rule flow_refines_sets) (use c in \<open>simp_all add: df_room_def\<close>)
  ultimately show ?thesis by metis
qed

text \<open>C19. The operators on intervals are sound: the result of an operator on two numbers, where it is in 64 bits, is in the interval computed for theirs. Division and right shift recurse around zero and return. The last hypothesis, op_room, says for which operands: the amounts of a left shift have an upper bound of at most 30 or none, those of a right shift lie below 64, and the upper bounds of the operands of bitwise or and xor are below 2^30 or infinite; the code is not sound beyond (iv_shl_31, iv_or_undefined).\<close>

theorem interval_operators_sound:
  assumes "iv_ok a" "iv_ok b" "x \<in> iv_set a" "y \<in> iv_set b"
    and "op_sem oc x y = Some z" "fits z" "op_room oc a b"
  shows "wp (binary_op oc a b) (\<lambda>c. iv_ok c \<and> z \<in> iv_set c)"
  by (rule binary_op_ok[OF assms])

theorem interval_operators_sound_witness:
  "wp (binary_op SDiv (iv (- 7) 9) (iv (- 2) 3)) (\<lambda>c. iv_ok c \<and> - 3 \<in> iv_set c)"
  by (rule interval_operators_sound[of _ _ "- 7" 2]) (simp_all add: iv_simps fits_def op_sem_def op_room_def signed_divide_int_def)

text \<open>C20. joinWith of two abstract states is their least upper bound, with intervals and addresses, for variables and objects.\<close>

theorem state_join_least:
  assumes "st_ok s" "st_ok t"
  shows "wp (as_joinWith s t) (\<lambda>u. st_ok u \<and> st_gam s \<subseteq> st_gam u \<and> st_gam t \<subseteq> st_gam u \<and>
    (\<forall>d. st_ok d \<longrightarrow> st_gam s \<subseteq> st_gam d \<longrightarrow> st_gam t \<subseteq> st_gam d \<longrightarrow> st_gam u \<subseteq> st_gam d))"
  by (rule as_join_ok[OF assms])

theorem state_join_least_witness:
  "\<exists>u. as_joinWith two_numbers pointer = Some u \<and> (PVar 1, Num 3) \<in> st_gam u \<and> (PVar 1, Adr 0x7f00000a) \<in> st_gam u"
proof -
  have m: "(PVar 1, Num 3) \<in> st_gam two_numbers" "(PVar 1, Adr 0x7f00000a) \<in> st_gam pointer"
    using two_numbers(2) pointer(2) unfolding models_def by (auto simp: iv_simps fits_def aget_def av_of_addrs_def)
  obtain u where u: "as_joinWith two_numbers pointer = Some u" "st_gam two_numbers \<subseteq> st_gam u" "st_gam pointer \<subseteq> st_gam u"
    using state_join_least[OF two_numbers(1) pointer(1)] unfolding wp_iff by blast
  show ?thesis using u(1) subsetD[OF u(2) m(1)] subsetD[OF u(3) m(2)] by blast
qed

text \<open>C21. Leaving out what is not marked as new is sound from above: after any sequence of calls, every set of the incremental table is a subset of the one that the table which always propagates has after the same calls.\<close>

theorem incremental_below_full:
  assumes "list_all (df_op_ok (node_id h) (set_inv h) (node_id h)) xs"
  shows "\<exists>rs s rs' s'. df_run (mi_ops (set_ops h)) (set_of h) xs (mi_new rv) = Some (rs, s) \<and>
    df_run (mf_ops (set_ops h)) (set_of h) xs (mf_new rv) = Some (rs', s') \<and>
    is_pts (mi_sem h s) \<le> mf_sem (set_ops h) (set_of h) s'"
proof -
  have ok: "list_all (df_op_ok (node_id h) (set_inv h) (\<lambda>_. True)) xs"
    using df_ops_ok_keys[OF assms] .
  obtain rs s rs' s' where
    i: "df_run (mi_ops (set_ops h)) (set_of h) xs (mi_new rv) = Some (rs, s)"
    "(rs, mi_sem h s) = spec_df_run (inc_run1 (set_of h)) xs inc_spec_new" and
    f: "df_run (mf_ops (set_ops h)) (set_of h) xs (mf_new rv) = Some (rs', s')"
    "(rs', mf_sem (set_ops h) (set_of h) s') = spec_df_run (full_run1 (set_of h)) xs (\<lambda>_. {})"
    using mi_run_sem[OF assms, of rv] mf_run_sem[OF ok, of rv] by metis
  have "is_pts (inc_spec_new :: (nat, nat) inc_spec) \<le> (\<lambda>_. {})" by (simp add: inc_spec_new_def)
  from inc_below_full[OF this, of "set_of h" xs] i f show ?thesis by (metis snd_conv)
qed

theorem incremental_below_full_witness:
  "\<exists>rs s rs' s'. df_run (mi_ops (set_ops id)) (set_of id) [AddTL 3 7, UpdateATV 3 4 5, UpdateTLV 4 5 3] (mi_new False) = Some (rs, s) \<and>
    df_run (mf_ops (set_ops id)) (set_of id) [AddTL 3 7, UpdateATV 3 4 5, UpdateTLV 4 5 3] (mf_new False) = Some (rs', s') \<and>
    is_pts (mi_sem id s) \<le> mf_sem (set_ops id) (set_of id) s'"
  by (rule incremental_below_full) simp

text \<open>C22. At a point whose marks are only taken by the OUT sets of the same variables (a store, not a load), the incremental updateAllDFOutFromIn loses nothing: after any such sequence of calls on a new table it returns the flag and leaves the sets that uniting all IN sets of the point would, strong updates included.\<close>

theorem incremental_outs_complete:
  assumes "list_all (df_op_ok (node_id h) (set_inv h) (node_id h)) xs" and "list_all (keeps_settled l) xs"
  shows "\<exists>rs s. df_run (mi_ops (set_ops h)) (set_of h) xs (mi_new rv) = Some (rs, s) \<and>
    wp (df_updateAllDFOutFromIn (mi_ops (set_ops h)) l k strong s) (\<lambda>(b, s').
      full_run1 (set_of h) (AllOutFromIn l k strong) (is_pts (mi_sem h s)) = (ChangedDF b, is_pts (mi_sem h s')))"
proof -
  obtain rs s where s: "df_run (mi_ops (set_ops h)) (set_of h) xs (mi_new rv) = Some (rs, s)"
    "(rs, mi_sem h s) = spec_df_run (inc_run1 (set_of h)) xs inc_spec_new" "mi_inv h s"
    using mi_run_sem[OF assms(1), of rv] by metis
  have "settled l (inc_spec_new :: (nat, nat) inc_spec)" by (simp add: settled_def inc_spec_new_def)
  from settled_run[OF this assms(2), of "set_of h"] s(2) have "settled l (mi_sem h s)" by (metis snd_conv)
  from mi_outs_ok[OF s(3) this] s(1) show ?thesis by blast
qed

theorem incremental_outs_complete_witness:
  "\<exists>rs s. df_run (mi_ops (set_ops id)) (set_of id) [AddTL 3 7, UpdateATV 3 4 5, InFromOut 4 5 6 5] (mi_new False) = Some (rs, s) \<and>
    wp (df_updateAllDFOutFromIn (mi_ops (set_ops id)) 6 9 True s) (\<lambda>(b, s').
      full_run1 (set_of id) (AllOutFromIn 6 9 True) (is_pts (mi_sem id s)) = (ChangedDF b, is_pts (mi_sem id s')))"
  by (rule incremental_outs_complete) simp_all

text \<open>C23. A chain of widenings, with whatever states it meets, changes at most three times for every interval of its first state.\<close>

theorem widening_settles:
  assumes "st_ok (x 0)" "\<And>n. st_ok (y n)" "\<And>n. as_widening (x n) (y n) = Some (x (Suc n))"
  shows "finite {n. x (Suc n) \<noteq> x n} \<and> card {n. x (Suc n) \<noteq> x n} \<le> st_rank (x 0)"
  by (rule st_dom.widen_chain[OF assms])

theorem widening_settles_witness:
  "finite {n. (\<lambda>_. two_numbers) (Suc n) \<noteq> (\<lambda>_. two_numbers) n} \<and> card {n. (\<lambda>_. two_numbers) (Suc n) \<noteq> (\<lambda>_. two_numbers) n} \<le> st_rank two_numbers"
proof -
  have "as_widening two_numbers two_numbers = Some two_numbers" by code_simp
  then show ?thesis using widening_settles[of "\<lambda>_. two_numbers" "\<lambda>_. two_numbers"] two_numbers(1) by simp
qed

text \<open>C24. After a getelementptr the pointer has exactly the addresses of the fields of its base at the offsets of the index interval, and the state describes every environment in which it has one of them.\<close>

theorem gep_points_to_fields:
  assumes "st_ok s" "models s env" "gep_room g env rhs (targets s rhs) {0..int (ge_limit g)}" "ge_limit g < 2 ^ 32"
    and "getElementIndex g s ap = Some (s1, r)" "same_state s s1" "iv_ok r" "n \<in> iv_set r" "iv_set r \<subseteq> {0..int (ge_limit g)}"
  shows "wp (updateStateOnGep g s lhs rhs ap) (\<lambda>s'. st_ok s' \<and>
    targets s' lhs = {b. \<exists>i\<in>iv_set r. \<exists>a\<in>targets s rhs. field_addr g i a = Some b} \<and>
    (\<forall>a b. a \<in> targets s rhs \<longrightarrow> field_addr g n a = Some b \<longrightarrow> models s' (env(PVar lhs \<mapsto> Adr b))))"
  by (rule updateStateOnGep_ok[OF assms])

theorem gep_points_to_fields_witness:
  "wp (updateStateOnGep (arrays 1 next_ids) pointer 2 1 field_path) (\<lambda>s'. targets s' 2 = {0x7f00000c} \<and>
     models s' [PVar 1 \<mapsto> Adr 0x7f00000a, PVar 2 \<mapsto> Adr 0x7f00000c])"
proof -
  let ?g = "arrays 1 next_ids"
  have v: "getVirtualMemAddress 11 = Some 0x7f00000b" "getVirtualMemAddress 12 = Some 0x7f00000c" by code_simp+
  have one: "iv_ok (iv_num 1)" "iv_set (iv_num 1) = {1}" using iv_num_ok[of 1] by (auto simp: fits_def)
  have ix: "getElementIndex ?g pointer field_path = Some (pointer, iv_num 1)"
    by (simp add: getElementIndex_def isConstantOffset_def computeConstantOffset_def)
  have f: "field_addr ?g 1 a = Some 0x7f00000c" for a using v by (simp add: field_addr_def)
  have "gep_room ?g [PVar 1 \<mapsto> Adr 0x7f00000a] 1 (targets pointer 1) {0..int (ge_limit ?g)}"
    using v by (simp add: gep_room_def)
  then have "wp (updateStateOnGep ?g pointer 2 1 field_path) (\<lambda>s'. st_ok s' \<and>
      targets s' 2 = {b. \<exists>i\<in>iv_set (iv_num 1). \<exists>a\<in>targets pointer 1. field_addr ?g i a = Some b} \<and>
      (\<forall>a b. a \<in> targets pointer 1 \<longrightarrow> field_addr ?g 1 a = Some b \<longrightarrow>
        models s' ([PVar 1 \<mapsto> Adr 0x7f00000a](PVar 2 \<mapsto> Adr b))))"
    using one by (intro gep_points_to_fields[OF pointer(1,2) _ _ ix]) (simp_all add: same_state_def pointer(1))
  then show ?thesis by (rule wp_mono) (use f one pointer(3) in auto)
qed



text \<open>C26. The analysis of a program in which a function calls itself through a pointer never ends, with whatever fuel: indirect calls are not looked up among the recursive functions.\<close>

theorem self_call_never_ends:
  assumes "rn_trace r 1 = None"
  shows "analyse n self_program ext r = Timeout"
  by (rule self_analyse[OF assms])

theorem self_call_never_ends_witness:
  "\<forall>n. analyse n self_program (\<lambda>_ r. Some r) \<lparr>rn_trace = Map.empty, rn_stack = []\<rparr> = Timeout"
  by (intro allI self_call_never_ends) simp

text \<open>C27. A load through the pointer that a value was just stored through gives the values stored, when it has one target.\<close>

theorem store_then_load:
  assumes "st_ok s" "av_ok v" "targets s i = {a}" "isVirtualMemAddress a"
  shows "wp (do { s \<leftarrow> as_storeValue s i v; as_loadValue s i }) (\<lambda>(s', w). av_gam w = av_gam v)"
  by (rule as_store_load[OF assms])

theorem store_then_load_witness:
  "wp (do { s \<leftarrow> as_storeValue pointer 1 (av_of_interval (iv 2 5)); as_loadValue s 1 })
     (\<lambda>(s', w). av_gam w = av_gam (av_of_interval (iv 2 5)))"
proof (rule store_then_load[OF pointer(1) _ pointer(3)])
  show "isVirtualMemAddress 0x7f00000a" by code_simp
qed (simp add: iv_simps fits_def)

text \<open>C28. Difference propagation over persistent sets: when the set of a node grows step by step, the differences handed to its successors are pairwise disjoint and together are all that was not propagated before, so every element is propagated exactly once.\<close>

theorem persistent_propagates_once:
  assumes "pd_inv (set_of h) (set_inv h) s" and "list_all (set_inv h) ds"
    and "pc_room (fst s) (4 * length ds)"
    and "sorted_wrt (\<subseteq>) (pd_propa (set_of h) s k # map (set_of h) ds)"
  shows "wp (propagate (pd_ops (set_ops h)) k ds s) (\<lambda>(xs, s').
    \<Union> (set (map (set_of h) xs)) = last (pd_propa (set_of h) s k # map (set_of h) ds) - pd_propa (set_of h) s k \<and>
    sorted_wrt (\<lambda>X Y. X \<inter> Y = {}) (map (set_of h) xs))"
  by (rule pers_diff.propagate_partition) (use assms in \<open>simp_all add: pd_room_def\<close>)

theorem persistent_propagates_once_witness:
  "\<exists>s d e. set_of id d = {7} \<and> set_of id e = {7} \<and> wp (propagate (pd_ops (set_ops id)) (3::nat) [d, e] s)
    (\<lambda>(xs, s'). \<Union> (set (map (set_of id) xs)) = {7} \<and> sorted_wrt (\<lambda>X Y. X \<inter> Y = {}) (map (set_of id) xs))"
proof -
  obtain c where c: "pc_inv (set_of id) (set_inv id) c" "length (pc_idToPts c) = 1" using new_cache by blast
  obtain d where d: "set_inv id d" "set_of id d = {7}" using singleton_set[of 7 id] by auto
  have n: "pd_inv (set_of id) (set_inv id) (c, pd_new False :: (nat, nat) pers_diff)"
    "pd_propa (set_of id) (c, pd_new False :: (nat, nat) pers_diff) = (\<lambda>_. {})"
    by (simp_all add: pd_new_ok[OF c(1)])
  have "wp (propagate (pd_ops (set_ops id)) (3::nat) [d, d] (c, pd_new False))
    (\<lambda>(xs, s'). \<Union> (set (map (set_of id) xs)) =
        last (pd_propa (set_of id) (c, pd_new False) (3::nat) # map (set_of id) [d, d]) - pd_propa (set_of id) (c, pd_new False) (3::nat) \<and>
      sorted_wrt (\<lambda>X Y. X \<inter> Y = {}) (map (set_of id) xs))"
    using persistent_propagates_once[of id "(c, pd_new False)" "[d, d]" "3::nat"] c n d by (simp add: pc_room_def del: propagate.simps)
  then have "wp (propagate (pd_ops (set_ops id)) (3::nat) [d, d] (c, pd_new False))
    (\<lambda>(xs, s'). \<Union> (set (map (set_of id) xs)) = {7} \<and> sorted_wrt (\<lambda>X Y. X \<inter> Y = {}) (map (set_of id) xs))"
    using n d by (simp del: propagate.simps)
  then show ?thesis using d by blast
qed

text \<open>C29. POCRHybridSolver behaves as POCRSolver does on the grammar without the production F -> F F: the trees meant to close F transitively never add an edge.\<close>

theorem hybrid_ignores_transitivity:
  assumes "filed eps R gr" "filed eps (R - {[F, F, F]}) gr'" "labelled_graph g"
  shows "\<exists>s t. hybrid_solve F gr (hybrid_new g) = Some s \<and> pocr_solve gr' (pocr_new g) = Some t \<and>
    cg_edgeSet (sv_graph s) = cg_edgeSet (sv_graph t)"
  using labelled_runs(3)[OF assms(1,3)] labelled_runs(2)[OF assms(2,3)] same_edges by metis

theorem hybrid_ignores_transitivity_witness:
  "\<exists>g s t. line_graph (sy 3) [1, 2, 3] = Some g \<and>
    hybrid_solve (sy 3) (fold (insertToCFLGrammar 0) [[sy 3, sy 3, sy 3]] gr_new) (hybrid_new g) = Some s \<and>
    pocr_solve gr_new (pocr_new g) = Some t \<and> cg_edgeSet (sv_graph s) = cg_edgeSet (sv_graph t)"
proof -
  obtain g where g: "line_graph (sy 3) [1, 2, 3] = Some g" "labelled_graph g"
    using line_graph_ok[of "sy 3" "[1, 2, 3]"] by auto
  show ?thesis
    using hybrid_ignores_transitivity[OF filed_fold[OF filed_new, of 0 "[[sy 3, sy 3, sy 3]]"], of "sy 3" gr_new g] g filed_new by auto
qed

text \<open>C30. The versioned tables, one table for top-level and one for versioned keys: the persistent one, which hands numbers from one table to the other, and the mutable one answer every sequence of calls alike, unions across the two tables included.\<close>

theorem versioned_answers_alike:
  assumes "pc_inv (set_of h) (set_inv h) c"
    and "length (pc_idToPts c) + 2 * length xs \<le> 2 ^ 32"
    and "list_all (ptd_op_ok (node_id h) (set_inv h) rv) xs"
  shows "\<exists>rs. map_option fst (ptd_run (pv_ops (set_ops h)) (set_of h) xs (c, pv_new rv)) = Some rs \<and>
    map_option fst (ptd_run (mv_ops (set_ops h)) (set_of h) xs (mv_new rv)) = Some rs"
proof -
  note n = pv_new_ok[OF assms(1), of rv]
  have room: "pv_room (c, pv_new rv) (2 * length xs)" using assms(2) by (simp add: pv_room_def pc_room_def)
  have ops: "list_all (ptd_op_ok (node_id h) (set_inv h) (ptd_rev (pv_ops (set_ops h)) (c, pv_new rv))) xs"
    "list_all (ptd_op_ok (node_id h) (set_inv h) (ptd_rev (mv_ops (set_ops h)) (mv_new rv))) xs"
    using assms(3) by (simp_all add: pv_ops_def mv_ops_def n(3))
  obtain rs s where "ptd_run (pv_ops (set_ops h)) (set_of h) xs (c, pv_new rv) = Some (rs, s)"
    "(rs, pv_pts (set_of h) s) = spec_run (set_of h) xs (\<lambda>_. {})"
    using pers_versioned.run_ok[OF n(1) room ops(1), unfolded n(2)] by (auto simp: wp_iff)
  moreover obtain rs' s' where "ptd_run (mv_ops (set_ops h)) (set_of h) xs (mv_new rv) = Some (rs', s')"
    "(rs', mv_pts (set_of h) s') = spec_run (set_of h) xs (\<lambda>_. {})"
    using mut_versioned.run_ok[OF _ _ ops(2)] by (auto simp: wp_iff mv_room_def)
  ultimately show ?thesis by (metis fst_conv option.simps(9))
qed

theorem versioned_answers_alike_witness:
  "\<exists>c rs. map_option fst (ptd_run (pv_ops (set_ops id)) (set_of id)
      [AddPts (Inl (1::nat)) 7, UnionPts (Inr (4::nat)) (Inl 1), GetRevPts 7] (c, pv_new True)) = Some rs \<and>
    map_option fst (ptd_run (mv_ops (set_ops id)) (set_of id)
      [AddPts (Inl (1::nat)) 7, UnionPts (Inr (4::nat)) (Inl 1), GetRevPts 7] (mv_new True)) = Some rs"
proof -
  obtain c where "pc_inv (set_of id) (set_inv id) c" "length (pc_idToPts c) = 1" using new_cache by blast
  then have "\<exists>rs. map_option fst (ptd_run (pv_ops (set_ops id)) (set_of id)
      [AddPts (Inl (1::nat)) 7, UnionPts (Inr (4::nat)) (Inl 1), GetRevPts 7] (c, pv_new True)) = Some rs \<and>
    map_option fst (ptd_run (mv_ops (set_ops id)) (set_of id)
      [AddPts (Inl (1::nat)) 7, UnionPts (Inr (4::nat)) (Inl 1), GetRevPts 7] (mv_new True)) = Some rs"
    by (intro versioned_answers_alike) simp_all
  then show ?thesis by blast
qed

text \<open>C31. complementPts returns the number of the difference of two sets in every state of the cache, whatever it has entered ahead of time in the tables of the other operations.\<close>

theorem cache_complementPts:
  assumes "pc_inv (set_of h) (set_inv h) c" and "length (pc_idToPts c) < 2 ^ 32"
    and "pc_has (set_of h) c lhs S" "pc_has (set_of h) c rhs T"
  shows "wp (pc_complementPts (set_ops h) lhs rhs c) (pc_result (set_of h) (set_inv h) c (S - T))"
  by (rule pts.complementPts_ok[OF assms])

theorem cache_complementPts_witness:
  "\<exists>c i j. pc_has (set_of id) c i {7} \<and> pc_has (set_of id) c j {7, 9} \<and>
    wp (pc_complementPts (set_ops id) j i c) (pc_result (set_of id) (set_inv id) c ({7, 9} - {7}))"
proof -
  obtain c i j where "pc_inv (set_of id) (set_inv id) c" "length (pc_idToPts c) \<le> 3"
    "pc_has (set_of id) c i {7}" "pc_has (set_of id) c j {7, 9}"
    using two_sets_cache[of 7 9 id] by auto
  then show ?thesis using cache_complementPts[of id c j "{7, 9}" i "{7}"] by auto
qed

text \<open>C32. getFilledProductions returns, over its work list of partly filled productions, exactly the instances of a production: every assignment of attributes to its variables, applied to all symbols at once.\<close>

theorem filled_productions: "set (getFilledProductions p attrs) = instances (set attrs) p"
  by (rule getFilledProductions_ok)

text \<open>C33. Remapping the cache to the best node mapping rebuilds its sets and the table of their numbers: afterwards every set has the best mapping, the numbering is right for the new representation, with the memoised results, and every number stands for the same set of nodes as before. The mappings of the best clustering are inverse to each other and cover the nodes of the sets.\<close>

theorem cache_remap_keeps_numbers:
  assumes "env_ok E" "pe_PtType E = SBV" "pc_inv (pts_of E) (remappable E) c"
    and "\<And>p n. p \<in> set (pc_idToPts c) \<Longrightarrow> n \<in> pts_of E p \<Longrightarrow> run_ok E n"
  shows "wp (pc_remapAllPts (pts_ops E) c) (\<lambda>c'. pc_inv (pts_of E) (run_inv E) c' \<and>
    list_all (\<lambda>p. pt_nodeMapping p = pe_currentBestNodeMapping E) (pc_idToPts c') \<and>
    (\<forall>i S. pc_has (pts_of E) c' i S = pc_has (pts_of E) c i S))"
proof (rule wp_mono[OF remapAllPts_PointsTo])
  show "pc_inv (pts_of E) (run_inv E) c' \<and> (\<forall>i S. pc_has (pts_of E) c' i S = pc_has (pts_of E) c i S) \<Longrightarrow>
    pc_inv (pts_of E) (run_inv E) c' \<and> list_all (\<lambda>p. pt_nodeMapping p = pe_currentBestNodeMapping E) (pc_idToPts c') \<and>
    (\<forall>i S. pc_has (pts_of E) c' i S = pc_has (pts_of E) c i S)" for c'
    using pc_inv_mapped by blast
qed (use assms in auto)

theorem cache_remap_keeps_numbers_witness:
  "wp (pc_remapAllPts (pts_ops clustered) unmapped_cache)
     (\<lambda>c'. pc_has (pts_of clustered) c' 1 {2} \<and> list_all (\<lambda>p. pt_nodeMapping p = Some 3) (pc_idToPts c'))"
proof -
  have "env_ok clustered" by (simp add: env_ok_def maps_ok_def All_less_Suc)
  moreover have "p \<in> set (pc_idToPts unmapped_cache) \<Longrightarrow> n \<in> pts_of clustered p \<Longrightarrow> run_ok clustered n" for p n
    using unmapped_sets by (auto simp: run_ok_def node_ok_def)
  moreover have "pc_has (pts_of clustered) unmapped_cache 1 {2}" using unmapped_sets by (simp add: pc_has_def)
  ultimately show ?thesis
    using cache_remap_keeps_numbers[OF _ _ unmapped_cache] by (auto elim!: wp_mono)
qed

text \<open>C34. PersistentPointsToCache::clear empties the tables but keeps the counter and does not put the empty set back: the number that the next emplacePts returns has no set, and getActualPts fails on it. Only reset leaves a usable cache.\<close>

theorem cache_clear_breaks_numbers:
  assumes "pc_inv (set_of h) (set_inv h) c" "set_inv h d" "length (pc_idToPts c) < 2 ^ 32"
  shows "wp (pc_emplacePts (set_ops h) d (pc_clear c)) (\<lambda>(i, c'). pc_getActualPts i c' = None)"
  by (rule pts.clear_then_emplace[OF assms])

theorem cache_clear_breaks_numbers_witness:
  "\<exists>c d. set_of id d = {7} \<and> wp (pc_emplacePts (set_ops id) d (pc_clear c)) (\<lambda>(i, c'). pc_getActualPts i c' = None)"
proof -
  obtain c where c: "pc_inv (set_of id) (set_inv id) c" "length (pc_idToPts c) = 1" using new_cache by blast
  obtain d where d: "set_inv id d" "set_of id d = {7}" using singleton_set[of 7 id] by auto
  have "wp (pc_emplacePts (set_ops id) d (pc_clear c)) (\<lambda>(i, c'). pc_getActualPts i c' = None)"
    by (rule cache_clear_breaks_numbers[OF c(1) d(1)]) (simp add: c(2))
  then show ?thesis using d(2) by blast
qed

text \<open>C35. PointsTo operator|= computes the union for all three representations and any node mapping, keeps the type and mapping of the left set, and its change flag is true whenever the set changed; for sparse bit vectors the flag is exact.\<close>

theorem points_to_union_into:
  assumes "pt_inv E p" "pt_inv E q" "pt_like p q"
  shows "wp (pt_or p q) (\<lambda>(ch, r). pt_inv E r \<and> pt_like p r \<and> pts_of E r = pts_of E p \<union> pts_of E q \<and>
    (pts_of E r \<noteq> pts_of E p \<longrightarrow> ch) \<and> (st_type (pt_store p) = SBV \<longrightarrow> (ch \<longleftrightarrow> pts_of E r \<noteq> pts_of E p)))"
  by (rule wp_mono[OF pt_or_ok[OF assms]]) (auto simp: pt_result_def)

theorem points_to_union_into_witness:
  "\<exists>p q. set_of id p = {7} \<and> set_of id q = {9} \<and> wp (pt_or p q) (\<lambda>(ch, r). ch \<and> set_of id r = {7, 9})"
proof -
  obtain p q where p: "set_inv id p" "set_of id p = {7}" and q: "set_inv id q" "set_of id q = {9}"
    using singleton_set[of 7 id] singleton_set[of 9 id] by auto
  have "wp (pt_or p q) (\<lambda>(ch, r). ch \<and> set_of id r = {7, 9})"
    by (rule wp_mono[OF points_to_union_into[OF run_inv_pt[OF p(1)] run_inv_pt[OF q(1)] run_like[OF p(1) q(1)]]])
      (use p q in auto)
  then show ?thesis using p(2) q(2) by blast
qed

text \<open>C36. For sparse bit vectors PointsTo may key a hash map: operator== decides equality of the sets, whatever operations built them, and equal sets have equal hash codes.\<close>

theorem points_to_equality_and_hash:
  assumes "pt_inv E p" "pt_inv E q" "pt_like p q" "st_type (pt_store p) = SBV"
  shows "pt_eq p q = Some (pts_of E p = pts_of E q) \<and>
    (\<exists>k. pt_hash E p = Some k \<and> (pts_of E p = pts_of E q \<longrightarrow> pt_hash E q = Some k))"
  using pt_eq_ok[OF assms(1-3)] pt_hash_ok[OF assms] by simp

theorem points_to_equality_and_hash_witness:
  "\<exists>p q. set_of id p = {7} \<and> set_of id q = {7} \<and> pt_eq p q = Some True \<and>
    pt_hash (initial_env SBV id) p = pt_hash (initial_env SBV id) q"
proof -
  obtain p where p: "set_inv id p" "set_of id p = {7}" using singleton_set[of 7 id] by auto
  have "pt_eq p p = Some True \<and> pt_hash (initial_env SBV id) p = pt_hash (initial_env SBV id) p"
    using points_to_equality_and_hash[OF run_inv_pt[OF p(1)] run_inv_pt[OF p(1)] run_like[OF p(1) p(1)]]
      run_inv_type[OF p(1)] by simp
  then show ?thesis using p(2) by blast
qed

text \<open>C37. checkAndRemap to the best mapping known keeps the set of nodes and installs the mapping, provided that the mappings are inverse to each other and cover the nodes.\<close>

theorem points_to_remap_keeps_set:
  assumes "pt_inv E p" "maps_ok E (pe_currentBestNodeMapping E) (pe_currentBestReverseNodeMapping E)"
    and "\<forall>n \<in> pts_of E p. node_ok E (pe_currentBestNodeMapping E) n"
  shows "wp (pt_checkAndRemap E p) (\<lambda>q. pt_inv E q \<and> pts_of E q = pts_of E p \<and>
    pt_nodeMapping q = pe_currentBestNodeMapping E)"
  by (rule pt_checkAndRemap_ok[OF assms])

theorem points_to_remap_keeps_set_witness:
  "let E = \<lparr>pe_PtType = SBV, pe_currentBestNodeMapping = Some 3, pe_currentBestReverseNodeMapping = Some 4,
         pe_vec = (\<lambda>a. if a = 3 then [1, 2, 0] else [2, 0, 1]), pe_hash = id\<rparr>;
       p = \<lparr>pt_store = St_SBV (sbv_set sbv_new 2), pt_nodeMapping = None, pt_reverseNodeMapping = None\<rparr>
   in wp (pt_checkAndRemap E p) (\<lambda>q. pts_of E q = {2} \<and> pt_nodeMapping q = Some 3)"
proof -
  let ?E = "\<lparr>pe_PtType = SBV, pe_currentBestNodeMapping = Some 3, pe_currentBestReverseNodeMapping = Some 4,
      pe_vec = (\<lambda>a. if a = 3 then [1, 2, 0] else [2, 0, 1]), pe_hash = id\<rparr>"
  let ?p = "\<lparr>pt_store = St_SBV (sbv_set sbv_new 2), pt_nodeMapping = None, pt_reverseNodeMapping = None\<rparr>"
  have s: "sb_inv (sbv_set sbv_new 2)" "sb_set (sbv_set sbv_new 2) = {2}"
    using sbv_set_ok[OF sbv_new_ok(1), of 2] by simp_all
  have p: "pts_of ?E ?p = {2}" by (auto simp: pts_of_def node_ok_def node_in_def s st_set_def)
  have inv: "pt_inv ?E ?p" by (auto simp: pt_inv_def s maps_ok_def node_ok_def node_in_def st_set_def st_inv_def)
  have maps: "maps_ok ?E (Some 3) (Some 4)" by (simp add: maps_ok_def All_less_Suc)
  show ?thesis
    using points_to_remap_keeps_set[of ?E ?p] p inv maps by (auto simp: Let_def node_ok_def elim!: wp_mono)
qed

text \<open>C38. The in-place union of two sparse bit vectors keeps the list of elements sorted and without empty elements, computes the union of the sets, and reports exactly whether the set changed.\<close>

theorem sbv_or_refines:
  assumes "sb_inv s" "sb_inv t"
  shows "sb_inv (snd (sbv_or s t)) \<and> sb_set (snd (sbv_or s t)) = sb_set s \<union> sb_set t \<and>
    (fst (sbv_or s t) \<longleftrightarrow> \<not> sb_set t \<subseteq> sb_set s)"
  using sbv_or_ok[OF assms] by auto

theorem sbv_or_refines_witness:
  "let s = sbv_set sbv_new 5; t = sbv_set sbv_new 300 in
    sb_set (snd (sbv_or s t)) = {5, 300} \<and> fst (sbv_or s t)"
  using sbv_or_refines[of "sbv_set sbv_new 5" "sbv_set sbv_new 300"] sbv_set_ok[OF sbv_new_ok(1), of 5]
    sbv_set_ok[OF sbv_new_ok(1), of 300] by (simp add: Let_def insert_commute)

text \<open>C39. The in-place intersection and difference of sparse bit vectors erase the elements that become empty, compute the intersection and the difference of the sets, and report exactly whether the set changed.\<close>

theorem sbv_difference_refines:
  assumes "sb_inv s" "sb_inv t"
  shows "(case sbv_and s t of (ch, r) \<Rightarrow> sb_inv r \<and> sb_set r = sb_set s \<inter> sb_set t \<and> (ch \<longleftrightarrow> sb_set r \<noteq> sb_set s)) \<and>
    (case sbv_intersectWithComplement s t of (ch, r) \<Rightarrow>
      sb_inv r \<and> sb_set r = sb_set s - sb_set t \<and> (ch \<longleftrightarrow> sb_set r \<noteq> sb_set s))"
  using sbv_and_ok[OF assms] sbv_intersectWithComplement_ok[OF assms] by (simp_all add: split_beta)

theorem sbv_difference_refines_witness:
  "let s = sbv_set (sbv_set sbv_new 5) 300; t = sbv_set sbv_new 300 in
    sb_set (snd (sbv_and s t)) = {300} \<and> sb_set (snd (sbv_intersectWithComplement s t)) = {5}"
proof -
  have t: "sb_inv (sbv_set sbv_new 5)" "sb_inv (sbv_set sbv_new 300)" "sb_set (sbv_set sbv_new 300) = {300}"
    using sbv_set_ok[OF sbv_new_ok(1), of 5] sbv_set_ok[OF sbv_new_ok(1), of 300] by simp_all
  have s: "sb_inv (sbv_set (sbv_set sbv_new 5) 300)" "sb_set (sbv_set (sbv_set sbv_new 5) 300) = {5, 300}"
    using sbv_set_ok[OF t(1), of 300] sbv_set_ok[OF sbv_new_ok(1), of 5] by auto
  show ?thesis using sbv_difference_refines[OF s(1) t(2)] s(2) t(3) by (auto simp: Let_def)
qed

text \<open>C40. Sparse bit vectors are canonical: operator== compares the elements and decides equality of the sets, intersects decides overlap, and s.contains(t) decides whether t is included in s. For contains this is what the code does and what its callers expect; the comment at SparseBitVector.h:1107 says the reverse, that the result is true when RHS contains this.\<close>

theorem sbv_canonical:
  assumes "sb_inv s" "sb_inv t"
  shows "(sbv_eq s t \<longleftrightarrow> sb_set s = sb_set t) \<and> (sbv_eq s t \<longleftrightarrow> sb_elems s = sb_elems t) \<and>
    (sbv_contains s t \<longleftrightarrow> sb_set t \<subseteq> sb_set s) \<and> (sbv_intersects s t \<longleftrightarrow> sb_set s \<inter> sb_set t \<noteq> {})"
  using sbv_eq_iff[OF assms] sb_set_inject[OF assms] sbv_contains_iff[OF assms] sbv_intersects_iff[OF assms]
  by simp_all

theorem sbv_canonical_witness:
  "sbv_eq (sbv_reset (sbv_set sbv_new 300) 300) sbv_new"
proof -
  have s: "sb_inv (sbv_set sbv_new 300)" "sb_set (sbv_set sbv_new 300) = {300}"
    using sbv_set_ok[OF sbv_new_ok(1), of 300] by simp_all
  then have "sb_inv (sbv_reset (sbv_set sbv_new 300) 300)" "sb_set (sbv_reset (sbv_set sbv_new 300) 300) = {}"
    using sbv_reset_ok[OF s(1), of 300] by simp_all
  then show ?thesis using sbv_canonical[OF _ sbv_new_ok(1)] by simp
qed

subsection \<open>Further theorems\<close>

text \<open>intersectPts returns the number of the intersection of two sets in every state of the cache.\<close>

theorem cache_intersectPts:
  assumes "pc_inv (set_of h) (set_inv h) c" and "length (pc_idToPts c) < 2 ^ 32"
    and "pc_has (set_of h) c lhs S" "pc_has (set_of h) c rhs T"
  shows "wp (pc_intersectPts (set_ops h) lhs rhs c) (pc_result (set_of h) (set_inv h) c (S \<inter> T))"
  by (rule pts.intersectPts_ok[OF assms])

theorem cache_intersectPts_witness:
  "\<exists>c i j. pc_has (set_of id) c i {7} \<and> pc_has (set_of id) c j {7, 9} \<and>
    wp (pc_intersectPts (set_ops id) i j c) (pc_result (set_of id) (set_inv id) c ({7} \<inter> {7, 9}))"
proof -
  obtain c i j where "pc_inv (set_of id) (set_inv id) c" "length (pc_idToPts c) \<le> 3"
    "pc_has (set_of id) c i {7}" "pc_has (set_of id) c j {7, 9}"
    using two_sets_cache[of 7 9 id] by auto
  then show ?thesis using cache_intersectPts[of id c i "{7}" j "{7, 9}"] by auto
qed

text \<open>Union, intersection and difference of core bit vectors with different offsets and lengths align the words, stay inside both arrays, and compute the operation on sets; the flags of intersection and difference are exact.\<close>

theorem cbv_combine_refines:
  assumes "cb_inv a" "cb_inv b"
  shows "wp (cbv_or a b) (\<lambda>(ch, c). cb_inv c \<and> cb_set c = cb_set a \<union> cb_set b \<and> (cb_set c \<noteq> cb_set a \<longrightarrow> ch)) \<and>
    wp (cbv_and a b) (\<lambda>(ch, c). cb_inv c \<and> cb_set c = cb_set a \<inter> cb_set b \<and> (ch \<longleftrightarrow> cb_set c \<noteq> cb_set a)) \<and>
    wp (cbv_diff a b) (\<lambda>(ch, c). cb_inv c \<and> cb_set c = cb_set a - cb_set b \<and> (ch \<longleftrightarrow> cb_set c \<noteq> cb_set a))"
proof -
  have e: "cb_words a = [] \<Longrightarrow> cb_words b = [] \<Longrightarrow> cb_set b = {}"
    using cbv_empty_iff[of b] by (simp add: cbv_empty_def)
  have "wp (cbv_or a b) (\<lambda>(ch, c). cb_inv c \<and> cb_set c = cb_set a \<union> cb_set b \<and> (cb_set c \<noteq> cb_set a \<longrightarrow> ch))"
    by (rule wp_mono[OF cbv_or_ok[OF assms]]) (use e in \<open>auto split: if_splits\<close>)
  then show ?thesis using cbv_and_ok[OF assms] cbv_diff_ok[OF assms] by blast
qed

theorem cbv_combine_refines_witness:
  "let a = cbv_set (cbv_new 0) 300; b = cbv_set (cbv_new 0) 5 in wp (cbv_or a b) (\<lambda>(ch, c). cb_set c = {5, 300} \<and> ch)"
proof -
  have s: "cb_inv (cbv_set (cbv_new 0) 300)" "cb_set (cbv_set (cbv_new 0) 300) = {300}"
    "cb_inv (cbv_set (cbv_new 0) 5)" "cb_set (cbv_set (cbv_new 0) 5) = {5}"
    using cbv_set_ok[of "cbv_new 0" 300] cbv_set_ok[of "cbv_new 0" 5] by simp_all
  show ?thesis unfolding Let_def
    by (rule wp_mono[OF cbv_combine_refines[OF s(1,3), THEN conjunct1]]) (auto simp: s(2,4))
qed

text \<open>Equality of core bit vectors, which skips zero words in both, decides equality of the sets whatever the two offsets and lengths are.\<close>

theorem cbv_equality_ignores_padding:
  assumes "cb_inv a" "cb_inv b"
  shows "cbv_eq a b \<longleftrightarrow> cb_set a = cb_set b"
  by (rule cbv_eq_iff[OF assms])

theorem cbv_equality_ignores_padding_witness:
  "cbv_eq (cbv_reset (cbv_set (cbv_new 0) 500) 500) (cbv_new 0)"
  using cbv_equality_ignores_padding[of "cbv_reset (cbv_set (cbv_new 0) 500) 500" "cbv_new 0"]
    cbv_set_ok[of "cbv_new 0" 500] cbv_reset_ok[of "cbv_set (cbv_new 0) 500" 500] by simp

text \<open>The hash of a core bit vector does not respect equality: an empty vector and one whose only bit was set and reset are equal and have different hash codes. So core bit vectors must not key a hash map.\<close>

theorem cbv_hash_tells_equal_sets_apart:
  "let a = cbv_new 0; b = cbv_reset (cbv_set (cbv_new 0) 5) 5 in cbv_eq a b \<and> cbv_hash a \<noteq> cbv_hash b"
  by (rule cbv_hash_not_extensional)

text \<open>set of a core bit vector moves the offset or the end so that the bit fits, in words, keeps every other bit and inserts the new one.\<close>

theorem cbv_set_extends:
  assumes "cb_inv c" "b < 2 ^ 32"
  shows "cb_inv (cbv_set c b) \<and> cb_set (cbv_set c b) = insert b (cb_set c) \<and> cbv_canHold (cbv_extendTo c b) b"
  using cbv_set_ok[OF assms] extendTo_ok(2)[OF assms] by simp

theorem cbv_set_extends_witness:
  "cb_set (cbv_set (cbv_set (cbv_new 0) 200) 3) = {3, 200}"
  using cbv_set_extends[of "cbv_new 0" 200] cbv_set_extends[of "cbv_set (cbv_new 0) 200" 3] by simp

text \<open>MutableDFPTData::clear empties the sets of top-level pointers and leaves every IN and OUT set as it was, although clear is to leave nothing stored; the persistent table empties all three.\<close>

theorem mutable_clear_keeps_flow:
  "mf_sem (set_ops h) (set_of h) (mf_clear t) x = (case x of TLs k \<Rightarrow> {} | _ \<Rightarrow> mf_sem (set_ops h) (set_of h) t x)"
  by (cases x) (simp_all add: mf_clear_keeps_flow ptd.new)

text \<open>The same for the mutable tables, which update the propagated set in place: every element is propagated exactly once.\<close>

theorem mutable_propagates_once:
  assumes "md_inv (set_of h) (set_inv h) s" and "list_all (set_inv h) ds"
    and "sorted_wrt (\<subseteq>) (md_propa (set_of h) s k # map (set_of h) ds)"
  shows "wp (propagate (md_ops (set_ops h)) k ds s) (\<lambda>(xs, s').
    \<Union> (set (map (set_of h) xs)) = last (md_propa (set_of h) s k # map (set_of h) ds) - md_propa (set_of h) s k \<and>
    sorted_wrt (\<lambda>X Y. X \<inter> Y = {}) (map (set_of h) xs))"
  by (rule mut_diff.propagate_partition) (use assms in \<open>simp_all add: md_room_def\<close>)

theorem mutable_propagates_once_witness:
  "\<exists>d. set_of id d = {7} \<and> wp (propagate (md_ops (set_ops id)) (3::nat) [d, d] (md_new False))
    (\<lambda>(xs, s'). \<Union> (set (map (set_of id) xs)) = {7} \<and> sorted_wrt (\<lambda>X Y. X \<inter> Y = {}) (map (set_of id) xs))"
proof -
  obtain d where d: "set_inv id d" "set_of id d = {7}" using singleton_set[of 7 id] by auto
  have "wp (propagate (md_ops (set_ops id)) (3::nat) [d, d] (md_new False))
    (\<lambda>(xs, s'). \<Union> (set (map (set_of id) xs)) =
        last (md_propa (set_of id) (md_new False) (3::nat) # map (set_of id) [d, d]) - md_propa (set_of id) (md_new False) (3::nat) \<and>
      sorted_wrt (\<lambda>X Y. X \<inter> Y = {}) (map (set_of id) xs))"
    using mutable_propagates_once[of id "md_new False" "[d, d]" "3::nat"] d by (simp del: propagate.simps)
  then have "wp (propagate (md_ops (set_ops id)) (3::nat) [d, d] (md_new False))
    (\<lambda>(xs, s'). \<Union> (set (map (set_of id) xs)) = {7} \<and> sorted_wrt (\<lambda>X Y. X \<inter> Y = {}) (map (set_of id) xs))"
    using d by (simp del: propagate.simps)
  then show ?thesis using d by blast
qed

text \<open>Converting a points-to set to a NodeBS and uniting that into an empty set gives the set back.\<close>

theorem points_to_NodeBS_roundtrip:
  assumes "pt_inv E p" "\<forall>n \<in> pts_of E p. n < 2 ^ 32 \<and> node_ok E (pt_nodeMapping q) n" "pt_inv E q" "pts_of E q = {}"
  shows "wp (pt_toNodeBS E p) (\<lambda>s. wp (pt_or_NodeBS E q s) (\<lambda>(ch, r). pts_of E r = pts_of E p \<and>
    (ch \<longleftrightarrow> pts_of E p \<noteq> {})))"
proof -
  have "wp (pt_toNodeBS E p) (\<lambda>s. sb_inv s \<and> sb_set s = pts_of E p)"
    by (rule pt_toNodeBS_ok) (use assms in auto)
  then show ?thesis
    by (rule wp_mono) (rule wp_mono[OF pt_or_NodeBS_ok[OF assms(3)]], use assms in auto)
qed

theorem points_to_NodeBS_roundtrip_witness:
  "\<exists>p. set_of id p = {7} \<and> wp (pt_toNodeBS (initial_env SBV id) p) (\<lambda>s.
    wp (pt_or_NodeBS (initial_env SBV id) (pt_new (initial_env SBV id)) s) (\<lambda>(ch, r). set_of id r = {7} \<and> ch))"
proof -
  let ?E = "initial_env SBV id"
  obtain p where p: "set_inv id p" "set_of id p = {7}" using singleton_set[of 7 id] by auto
  have q: "pt_inv ?E (pt_new ?E)" "pts_of ?E (pt_new ?E) = {}" "pt_nodeMapping (pt_new ?E) = None"
    using pt_new_ok[of ?E] by (simp_all add: initial_env_def maps_ok_def pt_new_def)
  have "wp (pt_toNodeBS ?E p) (\<lambda>s. wp (pt_or_NodeBS ?E (pt_new ?E) s) (\<lambda>(ch, r). set_of id r = {7} \<and> ch))"
    using points_to_NodeBS_roundtrip[OF run_inv_pt[OF p(1)] _ q(1,2)] p(2) q(3) by (simp add: node_ok_def)
  then show ?thesis using p(2) by blast
qed

text \<open>Iterating over a PointsTo yields every node of the set once, in the order of the internal numbers, for all representations and mappings, and the loop ends.\<close>

theorem points_to_iterates_elements:
  assumes "pt_inv E p"
  shows "\<exists>ns. pt_elems E p = Some ns \<and> set ns = pts_of E p \<and> distinct ns \<and>
    sorted (map (node_in E (pt_nodeMapping p)) ns)"
  by (rule pt_elems_ok[OF assms])

theorem points_to_iterates_elements_witness:
  "\<exists>p. set_of id p = {7} \<and> pt_elems (initial_env SBV id) p = Some [7]"
proof -
  obtain p where p: "set_inv id p" "set_of id p = {7}" using singleton_set[of 7 id] by auto
  obtain ns where ns: "pt_elems (initial_env SBV id) p = Some ns" "set ns = {7}" "distinct ns"
    using points_to_iterates_elements[OF run_inv_pt[OF p(1)]] p(2) by auto
  then have "ns = [7]" by (cases ns rule: remdups_adj.cases) auto
  then show ?thesis using ns p(2) by blast
qed

text \<open>The search for an element of a sparse bit vector, which starts from the element found last and walks in either direction, finds the first element whose index is not smaller, or the last one, whatever the cached position was.\<close>

theorem sbv_finds_lower_bound:
  assumes "sb_inv s" "sb_elems s \<noteq> []"
  shows "lb_pos (sb_elems s) idx (fst (sbv_FindLowerBound s idx)) \<and>
    snd (sbv_FindLowerBound s idx) = s\<lparr>sb_curr := fst (sbv_FindLowerBound s idx)\<rparr>"
  using FindLowerBound_ok[OF assms] by blast

theorem sbv_finds_lower_bound_witness:
  "lb_pos (sb_elems (sbv_set sbv_new 300)) 1 (fst (sbv_FindLowerBound (sbv_set sbv_new 300) 1))"
proof -
  have s: "sb_inv (sbv_set sbv_new 300)" "sb_set (sbv_set sbv_new 300) = {300}"
    using sbv_set_ok[OF sbv_new_ok(1), of 300] by simp_all
  then have "sb_elems (sbv_set sbv_new 300) \<noteq> []" using sbv_empty_iff[OF s(1)] by (auto simp: sbv_empty_def)
  then show ?thesis using sbv_finds_lower_bound[OF s(1)] by blast
qed

text \<open>The iterator of a sparse bit vector, which walks over elements, words and bits, visits every member once in increasing order and reaches the end.\<close>

theorem sbv_iterates_elements:
  assumes "sb_inv s"
  shows "\<exists>xs. sbv_elems s = Some xs \<and> set xs = sb_set s \<and> sorted xs \<and> distinct xs"
  by (rule sbv_elems_ok[OF assms])

theorem sbv_iterates_elements_witness:
  "sbv_elems (sbv_set (sbv_set sbv_new 300) 5) = Some [5, 300]"
proof -
  have t: "sb_inv (sbv_set sbv_new 300)" "sb_set (sbv_set sbv_new 300) = {300}"
    using sbv_set_ok[OF sbv_new_ok(1), of 300] by simp_all
  then have s: "sb_inv (sbv_set (sbv_set sbv_new 300) 5)" "sb_set (sbv_set (sbv_set sbv_new 300) 5) = {5, 300}"
    using sbv_set_ok[OF t(1), of 5] by auto
  obtain xs where xs: "sbv_elems (sbv_set (sbv_set sbv_new 300) 5) = Some xs" "set xs = {5, 300}" "sorted xs" "distinct xs"
    using sbv_iterates_elements[OF s(1)] s(2) by auto
  have "sorted_list_of_set (set xs) = xs" by (rule sorted_list_of_set.idem_if_sorted_distinct[OF xs(3,4)])
  then have "xs = [5, 300]" by (simp add: xs(2))
  then show ?thesis using xs(1) by simp
qed

text \<open>set, reset, test and test_and_set of a sparse bit vector are insertion, removal and membership, and keep the representation valid: sorted elements, none empty, a valid cached position.\<close>

theorem sbv_update_refines:
  assumes "sb_inv s" "n < 2 ^ 32"
  shows "sb_inv (sbv_set s n) \<and> sb_set (sbv_set s n) = insert n (sb_set s) \<and>
    sb_inv (sbv_reset s n) \<and> sb_set (sbv_reset s n) = sb_set s - {n} \<and>
    (fst (sbv_test s n) \<longleftrightarrow> n \<in> sb_set s) \<and> (fst (sbv_test_and_set s n) \<longleftrightarrow> n \<notin> sb_set s)"
  using sbv_set_ok[OF assms] sbv_reset_ok[OF assms(1)] sbv_test_ok[OF assms(1)] sbv_test_and_set_ok[OF assms]
  by simp_all

theorem sbv_update_refines_witness:
  "sb_set (sbv_set sbv_new 300) = {300} \<and> fst (sbv_test (sbv_set sbv_new 300) 300) \<and>
    sb_set (sbv_reset (sbv_set sbv_new 300) 300) = {}"
  using sbv_update_refines[of sbv_new 300] sbv_update_refines[of "sbv_set sbv_new 300" 300] by simp

text \<open>getAllPts of the persistent versioned table counts, for every set, the keys and versioned keys that have it; when sets that are not live are asked for as well, every other set of the cache is counted once. The counts are unsigned and wrap around. The maps have one entry for each key.\<close>

theorem versioned_counts:
  assumes "pv_inv (set_of h) (set_inv h) (c, t)"
    and "distinct (map fst (pp_ptsMap (pv_tlPTData t)))" "distinct (map fst (pp_ptsMap (pv_atPTData t)))"
  shows "wp (pv_getAllPts (set_ops h) liveOnly (c, t)) (\<lambda>m. \<forall>S. occ (set_of h) m S =
    (if liveOnly \<or> 0 < pv_count (set_of h) (c, t) S then pv_count (set_of h) (c, t) S mod 2 ^ 32
     else if \<exists>i. pc_has (set_of h) c i S then 1 else 0))"
  by (rule pts.pv_counts_ok[OF assms])

theorem versioned_counts_witness:
  "\<exists>c (t :: (nat, nat, nat) pers_versioned). wp (pv_getAllPts (set_ops id) False (c, t)) (\<lambda>m.
    occ (set_of id) m {7} = 2 \<and> occ (set_of id) m {7, 9} = 1)"
proof -
  obtain c i j where c: "pc_inv (set_of id) (set_inv id) c" "pc_has (set_of id) c i {7}" "pc_has (set_of id) c j {7, 9}"
    using two_sets_cache[of 7 9 id] by auto
  define t :: "(nat, nat, nat) pers_versioned" where
    "t = \<lparr>pv_rev = False, pv_tlPTData = (pp_new False)\<lparr>pp_ptsMap := [(3, i), (4, i)]\<rparr>, pv_atPTData = pp_new False\<rparr>"
  have inv: "pp_inv (set_of id) (set_inv id) (c, (pp_new False :: (nat, nat) pers_ptd))" by (rule pp_new_ok[OF c(1)])
  have "pc_has (set_of id) c 0 {}" using pc_has_empty[OF c(1)] by (simp add: emptyPointsToId_def)
  then have m: "id_inv c [(3 :: nat, i), (4, i)]"
    using c(2) by (auto simp: id_inv_def aget_def pc_has_def)
  have p: "pp_pts (set_of id) (c, pv_tlPTData t) k = {7}" if "k = 3 \<or> k = 4" for k
    using that c(2) by (auto simp: pp_pts_def id_pts_def aget_def pc_has_def t_def)
  have keys: "{k. (k = 3 \<or> k = 4) \<and> pp_pts (set_of id) (c, pv_tlPTData t) k = {7}} = {3, 4}"
    "{k. (k = 3 \<or> k = 4) \<and> pp_pts (set_of id) (c, pv_tlPTData t) k = {7, 9}} = {}"
    using p by auto
  have "pv_inv (set_of id) (set_inv id) (c, t)"
    using inv m by (simp add: pv_inv_def t_def pp_inv_def pp_tab_def pp_new_def rev_ok_def)
  moreover have "pp_ptsMap (pv_tlPTData t) = [(3, i), (4, i)]" "pp_ptsMap (pv_atPTData t) = []"
    by (simp_all add: t_def pp_new_def)
  moreover from this have "pv_count (set_of id) (c, t) {7} = 2" "pv_count (set_of id) (c, t) {7, 9} = 0"
    using keys by (simp_all add: pv_count_def key_count_def)
  ultimately have "wp (pv_getAllPts (set_ops id) False (c, t)) (\<lambda>m. occ (set_of id) m {7} = 2 \<and> occ (set_of id) m {7, 9} = 1)"
    using c(3) by (intro wp_mono[OF versioned_counts[of id c t False]]) auto
  then show ?thesis by blast
qed

text \<open>A FIFO work list holds no element twice and is emptied in the order of the first pushes: draining after pushing a list yields the list without its repeated elements.\<close>

theorem fifo_visits_each_once:
  "fifo_drain (length ds) (fold (\<lambda>d w. snd (fifo_push d w)) ds fifo_new) = rev (remdups (rev ds))"
  by (rule fifo_drain_pushes)

text \<open>getAllPts of the flow-sensitive persistent table, asked for all sets, counts every set of the cache twice and adds its IN and OUT entries: the loop that is to take the first count back runs over copies, and the sets of top-level pointers are not counted by number of keys.\<close>

theorem flow_counts_every_set_twice:
  assumes "pf_inv (set_of h) (set_inv h) (c, t)"
  shows "wp (pf_getAllPts (set_ops h) False (c, t)) (\<lambda>m. \<forall>S. occ (set_of h) m S =
    ((if \<exists>i. pc_has (set_of h) c i S then 2 else 0) +
      flow_count (\<lambda>l k. pf_sem (set_of h) (c, t) (INs l k)) (pf_dfInPtsMap t) S +
      flow_count (\<lambda>l k. pf_sem (set_of h) (c, t) (OUTs l k)) (pf_dfOutPtsMap t) S) mod 2 ^ 32)"
  by (rule pts.pf_counts_ok[OF assms])

theorem flow_counts_every_set_twice_witness:
  "\<exists>c. wp (pf_getAllPts (set_ops id) False (c, pf_new False :: (nat, nat) pers_df)) (\<lambda>m. occ (set_of id) m {7} = 2)"
proof -
  obtain c i where c: "pc_inv (set_of id) (set_inv id) c" "pc_has (set_of id) c i {7}"
    using two_sets_cache[of 7 9 id] by auto
  have "wp (pf_getAllPts (set_ops id) False (c, pf_new False :: (nat, nat) pers_df)) (\<lambda>m. occ (set_of id) m {7} = 2)"
    using c(2) by (intro wp_mono[OF flow_counts_every_set_twice[OF pf_new_ok(1)[OF c(1)]]])
      (auto simp: pf_new_def flow_count_def)
  then show ?thesis by blast
qed

text \<open>The virtual address of an identifier below 2^24 is recognised as one and leads back to the identifier.\<close>

theorem address_roundtrip:
  assumes "idx \<noteq> 0" "idx < 0x1000000"
  shows "wp (getVirtualMemAddress idx) (\<lambda>a. isVirtualMemAddress a \<and> getInternalID a = idx)"
  by (rule address_of_id[OF assms])

theorem address_roundtrip_witness:
  "wp (getVirtualMemAddress 5) (\<lambda>a. isVirtualMemAddress a \<and> getInternalID a = 5)"
  by (rule address_roundtrip) simp_all

text \<open>A comparison whose result cannot have the value of the branch makes it infeasible, and the state is left as it was.\<close>

theorem untaken_branch_refused:
  assumes "st_ok s" "\<not> inVarToAddrsTable s op0" "\<not> inVarToAddrsTable s op1" "fits n"
    and "n \<notin> iv_set (av_interval (am_get (as_vars s) res))"
  shows "isCmpBranchFeasible ie p op0 op1 res n s = Some (False, s)"
  by (rule cmp_branch_infeasible[OF assms])

theorem untaken_branch_refused_witness:
  "isCmpBranchFeasible compare_stmts ICMP_SLT 1 2 3 2 compared = Some (False, compared)"
  by (rule untaken_branch_refused[OF compared(1)])
    (simp_all add: inVarToAddrsTable_def am_has_addr_def av_isAddr_def av_of_interval_def ad_isBottom_def ad_empty_def
      aget_def iv_simps fits_def)

text \<open>The productions for empty paths are applied by POCRSolver at nodes with outgoing edges only: with A -> epsilon and A -> b A it misses that A leads along a single edge labelled b, which CFLSolver finds.\<close>

theorem pocr_misses_empty_paths:
  "\<exists>g gr s t. filed 0 {[sy 1, sy 0], [sy 1, sy 2, sy 1]} gr \<and> line_graph (sy 2) [1, 2] = Some g \<and>
    cfl_solve gr (solver_new g) = Some s \<and> CFLEdge 1 (flag_of (sy 1)) 2 \<in> edges (sv_graph s) \<and>
    pocr_solve gr (pocr_new g) = Some t \<and> CFLEdge 1 (flag_of (sy 1)) 2 \<notin> edges (sv_graph t)"
proof -
  let ?R = "{[sy 1, sy 0], [sy 1, sy 2, sy 1]}" and ?e = "CFLEdge 1 (flag_of (sy 2)) 2"
  obtain gr where gr: "filed 0 ?R gr" using filed_fold[OF filed_new, of 0 "[[sy 1, sy 0], [sy 1, sy 2, sy 1]]"] by auto
  obtain g where g: "line_graph (sy 2) [1, 2] = Some g" "labelled_graph g" "set (cg_nodes g) = {1, 2}" "edges g = {?e}"
    using line_graph_ok[of "sy 2" "[1, 2]"] by auto
  have "CFLEdge 2 (flag_of (sy 1)) 2 \<in> cfl_reach 0 ?R {1, 2} {?e}"
    by (rule cfl_reach.empty[of _ "sy 0"]) (simp_all add: eps_production_def)
  from cfl_reach.binary[OF cfl_reach.given[of ?e] this, of "sy 1"]
  have in_first: "CFLEdge 1 (flag_of (sy 1)) 2 \<in> cfl_reach 0 ?R {1, 2} {?e}" by simp
  have "e \<in> {?e, CFLEdge 1 (flag_of (sy 1)) 1}" if "e \<in> cfl_reach 0 ?R {1} {?e}" for e
    using that by (induction rule: cfl_reach.induct) (auto simp: eps_production_def)
  then have "CFLEdge 1 (flag_of (sy 1)) 2 \<notin> cfl_reach 0 ?R {1} {?e}" by fastforce
  then show ?thesis using labelled_runs(1,2)[OF gr g(2)] g in_first gr by auto
qed

text \<open>On a path of two edges labelled F, with F -> F F, CFLSolver adds the edge over both and POCRHybridSolver does not.\<close>

theorem hybrid_misses_transitivity:
  "\<exists>g gr s t. filed 0 {[sy 3, sy 3, sy 3]} gr \<and> line_graph (sy 3) [1, 2, 3] = Some g \<and>
    cfl_solve gr (solver_new g) = Some s \<and> CFLEdge 1 (flag_of (sy 3)) 3 \<in> edges (sv_graph s) \<and>
    hybrid_solve (sy 3) gr (hybrid_new g) = Some t \<and> CFLEdge 1 (flag_of (sy 3)) 3 \<notin> edges (sv_graph t)"
proof -
  let ?R = "{[sy 3, sy 3, sy 3]}" and ?E = "{CFLEdge 1 (flag_of (sy 3)) 2, CFLEdge 2 (flag_of (sy 3)) 3}"
  obtain gr where gr: "filed 0 ?R gr" using filed_fold[OF filed_new, of 0 "[[sy 3, sy 3, sy 3]]"] by auto
  obtain g where g: "line_graph (sy 3) [1, 2, 3] = Some g" "labelled_graph g" "set (cg_nodes g) = {1, 2, 3}" "edges g = ?E"
    using line_graph_ok[of "sy 3" "[1, 2, 3]"] by auto
  have in_first: "CFLEdge 1 (flag_of (sy 3)) 3 \<in> cfl_reach 0 ?R {1, 2, 3} ?E"
    using cfl_reach.binary[OF cfl_reach.given cfl_reach.given, of "CFLEdge 1 (flag_of (sy 3)) 2" ?E "CFLEdge 2 (flag_of (sy 3)) 3" "sy 3" ?R] by simp
  have "e \<in> ?E" if "e \<in> cfl_reach 0 {} {1, 2} ?E" for e
    using that by (induction rule: cfl_reach.induct) auto
  then have "CFLEdge 1 (flag_of (sy 3)) 3 \<notin> cfl_reach 0 {} {1, 2} ?E" by fastforce
  moreover have "e_src ` edges g = {1, 2}" "?R - {[sy 3, sy 3, sy 3]} = {}" by (simp_all add: g(4))
  ultimately show ?thesis using labelled_runs(1,3)[OF gr g(2)] g gr in_first by metis
qed

end
